(* ===== verification/Prelude.thy ===== *)
theory Prelude
  imports Main "HOL-Library.Word"
begin

text \<open>
  What every theory of the development shares: how a failing C statement is a value, the
  sequencing of statements that may fail, and the list facts the component theories use.

  A C function that can fail returns \<open>'a res\<close>: \<open>Inr x\<close> when it returns \<open>x\<close>, and \<open>Inl f\<close> for
  the first failure reached. The three failures are the ones the source has: a false
  \<open>assert\<close>, an \<open>exit(1)\<close> after a message, and undefined behaviour (a NULL or freed pointer
  that is dereferenced, an access outside an array).
\<close>

datatype fault = Assert_failed | Exit_failure | Undefined

type_synonym 'a res = "fault + 'a"

type_synonym u8 = "8 word"
type_synonym u32 = "32 word"
type_synonym u64 = "64 word"

named_theorems res_simps "evaluation of results and their sequencing"

section \<open>Sequencing\<close>

definition bnd :: "'a res \<Rightarrow> ('a \<Rightarrow> 'b res) \<Rightarrow> 'b res" where
  "bnd m f = (case m of Inl e \<Rightarrow> Inl e | Inr x \<Rightarrow> f x)"

definition asserting :: "bool \<Rightarrow> 'a res \<Rightarrow> 'a res" where
  "asserting b m = (if b then m else Inl Assert_failed)"

definition defined_when :: "bool \<Rightarrow> 'a res \<Rightarrow> 'a res" where
  "defined_when b m = (if b then m else Inl Undefined)"

definition deref :: "'a option \<Rightarrow> ('a \<Rightarrow> 'b res) \<Rightarrow> 'b res" where
  "deref p f = (case p of None \<Rightarrow> Inl Undefined | Some x \<Rightarrow> f x)"

lemma bnd_simps [simp, res_simps]:
  "bnd (Inl e) f = Inl e"
  "bnd (Inr x) f = f x"
  by (simp_all add: bnd_def)

lemma bnd_Inr_right [simp]: "bnd m Inr = m"
  by (cases m) simp_all

lemma bnd_assoc: "bnd (bnd m f) g = bnd m (\<lambda>x. bnd (f x) g)"
  by (cases m) simp_all

lemma bnd_eq_Inr [res_simps]: "bnd m f = Inr y \<longleftrightarrow> (\<exists>x. m = Inr x \<and> f x = Inr y)"
  by (cases m) simp_all

lemma bnd_eq_Inl: "bnd m f = Inl e \<longleftrightarrow> m = Inl e \<or> (\<exists>x. m = Inr x \<and> f x = Inl e)"
  by (cases m) auto

lemma bnd_cong [fundef_cong]:
  "m = m' \<Longrightarrow> (\<And>x. m' = Inr x \<Longrightarrow> f x = f' x) \<Longrightarrow> bnd m f = bnd m' f'"
  by (cases m') simp_all

lemma asserting_simps [simp, res_simps]:
  "asserting True m = m"
  "asserting False m = Inl Assert_failed"
  by (simp_all add: asserting_def)

lemma asserting_eq_Inr [res_simps]: "asserting b m = Inr y \<longleftrightarrow> b \<and> m = Inr y"
  by (simp add: asserting_def)

lemma asserting_cong [fundef_cong]:
  "b = b' \<Longrightarrow> (b' \<Longrightarrow> m = m') \<Longrightarrow> asserting b m = asserting b' m'"
  by (simp add: asserting_def)

lemma defined_when_simps [simp, res_simps]:
  "defined_when True m = m"
  "defined_when False m = Inl Undefined"
  by (simp_all add: defined_when_def)

lemma defined_when_eq_Inr [res_simps]: "defined_when b m = Inr y \<longleftrightarrow> b \<and> m = Inr y"
  by (simp add: defined_when_def)

lemma defined_when_cong [fundef_cong]:
  "b = b' \<Longrightarrow> (b' \<Longrightarrow> m = m') \<Longrightarrow> defined_when b m = defined_when b' m'"
  by (simp add: defined_when_def)

lemma deref_simps [simp, res_simps]:
  "deref None f = Inl Undefined"
  "deref (Some x) f = f x"
  by (simp_all add: deref_def)

lemma deref_eq_Inr [res_simps]: "deref p f = Inr y \<longleftrightarrow> (\<exists>x. p = Some x \<and> f x = Inr y)"
  by (cases p) simp_all

lemma deref_cong [fundef_cong]:
  "p = p' \<Longrightarrow> (\<And>x. p' = Some x \<Longrightarrow> f x = f' x) \<Longrightarrow> deref p f = deref p' f'"
  by (cases p') simp_all

text \<open>A computation is safe for \<open>P\<close> when it has no undefined behaviour and \<open>P\<close> holds of its result.\<close>

definition safely :: "('a \<Rightarrow> bool) \<Rightarrow> 'a res \<Rightarrow> bool" where
  "safely P m = (case m of Inl e \<Rightarrow> e \<noteq> Undefined | Inr x \<Rightarrow> P x)"

lemma safely_simps [simp]:
  "safely P (Inl e) \<longleftrightarrow> e \<noteq> Undefined"
  "safely P (Inr x) \<longleftrightarrow> P x"
  by (simp_all add: safely_def)

lemma safely_bnd: "safely P m \<Longrightarrow> (\<And>x. P x \<Longrightarrow> safely Q (f x)) \<Longrightarrow> safely Q (bnd m f)"
  by (cases m) simp_all

lemma safely_asserting: "(b \<Longrightarrow> safely P m) \<Longrightarrow> safely P (asserting b m)"
  by (simp add: asserting_def)

lemma safely_mono: "safely P m \<Longrightarrow> (\<And>x. P x \<Longrightarrow> Q x) \<Longrightarrow> safely Q m"
  by (cases m) simp_all

lemma safely_Inr: "safely P m \<Longrightarrow> m = Inr x \<Longrightarrow> P x"
  by simp

section \<open>Addressed cells\<close>

text \<open>
  Objects of one type live in a list indexed by address. A cell that was freed holds
  \<open>None\<close>, an address at or past the end was never allocated.
\<close>

definition cell :: "'a option list \<Rightarrow> nat \<Rightarrow> 'a option" where
  "cell xs i = (if i < length xs then xs ! i else None)"

lemma cell_Some_length: "cell xs i = Some x \<Longrightarrow> i < length xs"
  by (simp add: cell_def split: if_splits)

lemma cell_Some_nth: "cell xs i = Some x \<Longrightarrow> xs ! i = Some x"
  by (simp add: cell_def split: if_splits)

lemma cell_update:
  "cell (xs[i := v]) j = (if i = j \<and> i < length xs then v else cell xs j)"
  by (simp add: cell_def)

lemma cell_append:
  "cell (xs @ [v]) j = (if j = length xs then v else cell xs j)"
  by (auto simp: cell_def nth_append)

lemma cell_beyond [simp]: "cell xs (length xs) = None"
  by (simp add: cell_def)

text \<open>How many cells are live: what shrinks when a loop frees what it visits.\<close>

definition live_cells :: "'a option list \<Rightarrow> nat" where
  "live_cells xs = length (filter (\<lambda>c. c \<noteq> None) xs)"

lemma live_cells_free:
  "cell xs i = Some x \<Longrightarrow> live_cells (xs[i := None]) < live_cells xs"
proof (induction xs arbitrary: i)
  case Nil
  then show ?case by (simp add: cell_def)
next
  case (Cons c xs)
  then show ?case
    by (cases i) (auto simp: cell_def live_cells_def split: if_splits)
qed

lemma live_cells_update:
  "cell xs i = Some x \<Longrightarrow> live_cells (xs[i := Some y]) = live_cells xs"
proof (induction xs arbitrary: i)
  case (Cons c xs)
  then show ?case
    by (cases i) (auto simp: cell_def live_cells_def split: if_splits)
qed (simp add: cell_def)

section \<open>Sums over lists\<close>

lemma sum_list_update_nat:
  fixes f :: "'a \<Rightarrow> nat"
  assumes "i < length xs"
  shows "sum_list (map f (xs[i := v])) + f (xs ! i) = sum_list (map f xs) + f v"
  using assms
proof (induction xs arbitrary: i)
  case Nil
  then show ?case by simp
next
  case (Cons x xs)
  then show ?case by (cases i) (simp_all add: algebra_simps)
qed

lemma sum_list_member_le:
  fixes f :: "'a \<Rightarrow> nat"
  shows "x \<in> set xs \<Longrightarrow> f x \<le> sum_list (map f xs)"
  by (induction xs) auto

section \<open>Computations that may not return\<close>

text \<open>
  A loop of the source that may run for ever is a \<open>partial_function (option)\<close> whose result is
  \<open>'a res option\<close>: \<open>None\<close> when it does not return, \<open>Some (Inl f)\<close> when it fails and
  \<open>Some (Inr x)\<close> when it returns \<open>x\<close>.
\<close>

type_synonym 'a loop = "'a res option"

definition lbnd :: "'a loop \<Rightarrow> ('a \<Rightarrow> 'b loop) \<Rightarrow> 'b loop" where
  "lbnd m f = (case m of None \<Rightarrow> None | Some (Inl e) \<Rightarrow> Some (Inl e) | Some (Inr x) \<Rightarrow> f x)"

lemma lbnd_simps [simp, res_simps]:
  "lbnd None f = None"
  "lbnd (Some (Inl e)) f = Some (Inl e)"
  "lbnd (Some (Inr x)) f = f x"
  by (simp_all add: lbnd_def)

lemma lbnd_eq_Some_Inr [res_simps]:
  "lbnd m f = Some (Inr y) \<longleftrightarrow> (\<exists>x. m = Some (Inr x) \<and> f x = Some (Inr y))"
  by (auto simp: lbnd_def split: option.splits sum.splits)

definition returned :: "'a loop \<Rightarrow> 'a option" where
  "returned m = (case m of Some (Inr x) \<Rightarrow> Some x | _ \<Rightarrow> None)"

lemma returned_Some: "returned m = Some x \<longleftrightarrow> m = Some (Inr x)"
  by (auto simp: returned_def split: option.splits sum.splits)

lemma lbnd_cong [fundef_cong]:
  "m = m' \<Longrightarrow> (\<And>x. m' = Some (Inr x) \<Longrightarrow> f x = f' x) \<Longrightarrow> lbnd m f = lbnd m' f'"
  by (auto simp: lbnd_def split: option.splits sum.splits)

lemma lbnd_mono [partial_function_mono]:
  fixes B :: "('a \<Rightarrow> 'b option) \<Rightarrow> 'c loop" and C :: "'c \<Rightarrow> ('a \<Rightarrow> 'b option) \<Rightarrow> 'd loop"
  assumes "monotone (fun_ord option_ord) option_ord B"
    and "\<And>y. monotone (fun_ord option_ord) option_ord (\<lambda>f. C y f)"
  shows "monotone (fun_ord option_ord) option_ord (\<lambda>f. lbnd (B f) (\<lambda>y. C y f))"
proof (rule monotoneI)
  fix f g :: "'a \<Rightarrow> 'b option"
  assume fg: "fun_ord option_ord f g"
  have B: "option_ord (B f) (B g)"
    using assms(1) fg by (rule monotoneD [of _ _ _ f g])
  have C: "option_ord (C y f) (C y g)" for y
    using assms(2) fg by (rule monotoneD [of _ _ _ f g])
  show "option_ord (lbnd (B f) (\<lambda>y. C y f)) (lbnd (B g) (\<lambda>y. C y g))"
  proof (cases "B f")
    case None
    then show ?thesis by (simp add: flat_ord_def)
  next
    case (Some r)
    then have "B g = Some r"
      using B by (simp add: flat_ord_def)
    then show ?thesis
      using Some C by (cases r) (simp_all add: flat_ord_def)
  qed
qed

section \<open>Growable slots\<close>

text \<open>
  The contents of a growable array: a slot that was never set reads as \<open>d\<close> (NULL), and setting
  a slot past the end fills what lies between with \<open>d\<close>.
\<close>

definition slot :: "'a \<Rightarrow> 'a list \<Rightarrow> nat \<Rightarrow> 'a" where
  "slot d xs i = (if i < length xs then xs ! i else d)"

definition slot_set :: "'a \<Rightarrow> 'a list \<Rightarrow> nat \<Rightarrow> 'a \<Rightarrow> 'a list" where
  "slot_set d xs i v =
     (if i < length xs then xs[i := v] else xs @ replicate (i - length xs) d @ [v])"

lemma length_slot_set [simp]: "length (slot_set d xs i v) = max (length xs) (Suc i)"
  by (auto simp: slot_set_def)

lemma slot_slot_set: "slot d (slot_set d xs i v) j = (if i = j then v else slot d xs j)"
  by (auto simp: slot_def slot_set_def nth_append nth_list_update)

lemma slot_slot_set_same [simp]: "slot d (slot_set d xs i v) i = v"
  by (simp add: slot_slot_set)

lemma slot_Nil [simp]: "slot d [] i = d"
  by (simp add: slot_def)

lemma slot_mem: "slot d xs i \<noteq> d \<Longrightarrow> slot d xs i \<in> set xs"
  by (auto simp: slot_def split: if_splits)

lemma count_list_update_nat:
  "i < length xs \<Longrightarrow>
     count_list (xs[i := v]) x + (if xs ! i = x then 1 else 0)
       = count_list xs x + (if v = x then 1 else 0)"
proof (induction xs arbitrary: i)
  case Nil
  then show ?case by simp
next
  case (Cons y ys)
  from Cons.IH [of "i - 1"] Cons.prems show ?case by (cases i) (auto split: if_splits)
qed

lemma count_list_replicate_other [simp]: "d \<noteq> x \<Longrightarrow> count_list (replicate n d) x = 0"
  by (induction n) auto

lemma count_list_slot_set:
  assumes "x \<noteq> d"
  shows "count_list (slot_set d xs i v) x + (if slot d xs i = x then 1 else 0)
    = count_list xs x + (if v = x then 1 else 0)"
  using assms count_list_update_nat [of i xs v x]
  by (auto simp: slot_set_def slot_def)

lemma count_list_pos: "count_list xs x > 0 \<longleftrightarrow> x \<in> set xs"
  by (metis count_list_0_iff gr0I less_numeral_extra(3))

lemma count_list_remove1: "x \<in> set xs \<Longrightarrow> count_list (x # remove1 x xs) y = count_list xs y"
  by (induction xs) auto

section \<open>Objects that are never freed\<close>

definition at :: "'a list \<Rightarrow> nat \<Rightarrow> 'a option" where
  "at xs i = (if i < length xs then Some (xs ! i) else None)"

lemma at_Some_iff: "at xs i = Some x \<longleftrightarrow> i < length xs \<and> xs ! i = x"
  by (simp add: at_def)

lemma at_update: "at (xs[i := v]) j = (if i = j \<and> i < length xs then Some v else at xs j)"
  by (simp add: at_def)

lemma at_append: "at (xs @ [v]) j = (if j = length xs then Some v else at xs j)"
  by (auto simp: at_def nth_append)

end
