(* ===== verification/Tagged_Value.thy ===== *)
theory Tagged_Value
  imports Prelude
begin

text \<open>
  The machine representation of a value (\<open>src/src/value\<close>): a 64-bit word whose lower three
  bits are a tag and whose upper 61 bits are the data. Integers lose their upper three bits,
  doubles their lower three, booleans are two reserved words of the tag \<open>XEXTENDED\<close>, and a
  non-NULL word with tag zero is a pointer to an object.

  An \<open>int64_t\<close> is an \<open>int\<close> here, with the range check written out where C leaves the
  overflow undefined. A \<open>double\<close> is its 64-bit pattern; the floating-point unit itself is the
  parameter \<open>double_ops\<close> of the arithmetic.
\<close>

unbundle bit_operations_syntax

type_synonym value_word = "64 word"

section \<open>Tags\<close>

definition DATA_MASK :: value_word where "DATA_MASK = 0xfffffffffffffff8"

definition TAG_MASK :: value_word where "TAG_MASK = 0x07"

datatype tag_t = XOBJECT | XSTATIC | XINT | XFLOAT | XEXTENDED

fun tag_word :: "tag_t \<Rightarrow> value_word" where
  "tag_word XOBJECT = 0"
| "tag_word XSTATIC = 1"
| "tag_word XINT = 2"
| "tag_word XFLOAT = 3"
| "tag_word XEXTENDED = 7"

definition value_tag :: "value_word \<Rightarrow> value_word" where
  "value_tag v = v AND TAG_MASK"

section \<open>Booleans\<close>

definition xtrue :: value_word where "xtrue = 0x00ffffffffffffff"

definition xfalse :: value_word where "xfalse = 0x01ffffffffffffff"

definition xbool :: "bool \<Rightarrow> value_word" where
  "xbool target = (if target then xtrue else xfalse)"

definition is_xbool :: "value_word \<Rightarrow> bool" where
  "is_xbool v \<longleftrightarrow> v = xtrue \<or> v = xfalse"

definition to_bool :: "value_word \<Rightarrow> bool res" where
  "to_bool v = asserting (is_xbool v) (Inr (v = xtrue))"

text \<open>The C operators short-circuit: the right operand is only converted when it is needed.\<close>

definition xbool_and :: "value_word \<Rightarrow> value_word \<Rightarrow> value_word res" where
  "xbool_and x y = bnd (to_bool x) (\<lambda>a.
     if a then bnd (to_bool y) (\<lambda>b. Inr (xbool b)) else Inr (xbool False))"

definition xbool_or :: "value_word \<Rightarrow> value_word \<Rightarrow> value_word res" where
  "xbool_or x y = bnd (to_bool x) (\<lambda>a.
     if a then Inr (xbool True) else bnd (to_bool y) (\<lambda>b. Inr (xbool b)))"

definition xbool_not :: "value_word \<Rightarrow> value_word res" where
  "xbool_not x = bnd (to_bool x) (\<lambda>a. Inr (xbool (\<not> a)))"

section \<open>Integers\<close>

definition xint :: "int \<Rightarrow> value_word" where
  "xint target = push_bit 3 (word_of_int target) OR tag_word XINT"

definition is_xint :: "value_word \<Rightarrow> bool" where
  "is_xint v \<longleftrightarrow> value_tag v = tag_word XINT"

definition to_int64 :: "value_word \<Rightarrow> int res" where
  "to_int64 v = asserting (is_xint v) (Inr (sint (signed_drop_bit 3 v)))"

text \<open>The result of an \<open>int64_t\<close> operation: undefined when it leaves the type.\<close>

definition int64_result :: "int \<Rightarrow> int res" where
  "int64_result i = defined_when (- (2 ^ 63) \<le> i \<and> i < 2 ^ 63) (Inr i)"

text \<open>C's division truncates towards zero, and the remainder has the sign of the dividend.\<close>

definition c_quot :: "int \<Rightarrow> int \<Rightarrow> int" where
  "c_quot a b = sgn a * sgn b * (\<bar>a\<bar> div \<bar>b\<bar>)"

definition c_rem :: "int \<Rightarrow> int \<Rightarrow> int" where
  "c_rem a b = a - c_quot a b * b"

definition xint_p :: "value_word \<Rightarrow> value_word" where
  "xint_p v = xbool (is_xint v)"

definition xint_add :: "value_word \<Rightarrow> value_word \<Rightarrow> value_word res" where
  "xint_add x y = bnd (to_int64 x) (\<lambda>a. bnd (to_int64 y) (\<lambda>b.
     bnd (int64_result (a + b)) (\<lambda>r. Inr (xint r))))"

definition xint_sub :: "value_word \<Rightarrow> value_word \<Rightarrow> value_word res" where
  "xint_sub x y = bnd (to_int64 x) (\<lambda>a. bnd (to_int64 y) (\<lambda>b.
     bnd (int64_result (a - b)) (\<lambda>r. Inr (xint r))))"

definition xint_mul :: "value_word \<Rightarrow> value_word \<Rightarrow> value_word res" where
  "xint_mul x y = bnd (to_int64 x) (\<lambda>a. bnd (to_int64 y) (\<lambda>b.
     bnd (int64_result (a * b)) (\<lambda>r. Inr (xint r))))"

definition xint_div :: "value_word \<Rightarrow> value_word \<Rightarrow> value_word res" where
  "xint_div x y = bnd (to_int64 x) (\<lambda>a. bnd (to_int64 y) (\<lambda>b.
     defined_when (b \<noteq> 0) (bnd (int64_result (c_quot a b)) (\<lambda>r. Inr (xint r)))))"

definition xint_mod :: "value_word \<Rightarrow> value_word \<Rightarrow> value_word res" where
  "xint_mod x y = bnd (to_int64 x) (\<lambda>a. bnd (to_int64 y) (\<lambda>b.
     defined_when (b \<noteq> 0) (bnd (int64_result (c_rem a b)) (\<lambda>r. Inr (xint r)))))"

section \<open>Doubles\<close>

text \<open>What the code takes from the floating-point unit and from \<open>fmod\<close>, on 64-bit patterns.\<close>

record double_ops =
  double_add :: "u64 \<Rightarrow> u64 \<Rightarrow> u64"
  double_sub :: "u64 \<Rightarrow> u64 \<Rightarrow> u64"
  double_mul :: "u64 \<Rightarrow> u64 \<Rightarrow> u64"
  double_div :: "u64 \<Rightarrow> u64 \<Rightarrow> u64"
  double_fmod :: "u64 \<Rightarrow> u64 \<Rightarrow> u64"
  double_of_int64 :: "int \<Rightarrow> u64"
  uint64_of_double :: "u64 \<Rightarrow> u64"

definition xfloat :: "u64 \<Rightarrow> value_word" where
  "xfloat target = (target AND DATA_MASK) OR tag_word XFLOAT"

definition is_xfloat :: "value_word \<Rightarrow> bool" where
  "is_xfloat v \<longleftrightarrow> value_tag v = tag_word XFLOAT"

definition to_double :: "value_word \<Rightarrow> u64 res" where
  "to_double v = asserting (is_xfloat v) (Inr (v AND DATA_MASK))"

definition xfloat_p :: "value_word \<Rightarrow> value_word" where
  "xfloat_p v = xbool (is_xfloat v)"

definition xfloat_add :: "double_ops \<Rightarrow> value_word \<Rightarrow> value_word \<Rightarrow> value_word res" where
  "xfloat_add ops x y = bnd (to_double x) (\<lambda>a. bnd (to_double y) (\<lambda>b. Inr (xfloat (double_add ops a b))))"

definition xfloat_sub :: "double_ops \<Rightarrow> value_word \<Rightarrow> value_word \<Rightarrow> value_word res" where
  "xfloat_sub ops x y = bnd (to_double x) (\<lambda>a. bnd (to_double y) (\<lambda>b. Inr (xfloat (double_sub ops a b))))"

definition xfloat_mul :: "double_ops \<Rightarrow> value_word \<Rightarrow> value_word \<Rightarrow> value_word res" where
  "xfloat_mul ops x y = bnd (to_double x) (\<lambda>a. bnd (to_double y) (\<lambda>b. Inr (xfloat (double_mul ops a b))))"

definition xfloat_div :: "double_ops \<Rightarrow> value_word \<Rightarrow> value_word \<Rightarrow> value_word res" where
  "xfloat_div ops x y = bnd (to_double x) (\<lambda>a. bnd (to_double y) (\<lambda>b. Inr (xfloat (double_div ops a b))))"

definition xfloat_mod :: "double_ops \<Rightarrow> value_word \<Rightarrow> value_word \<Rightarrow> value_word res" where
  "xfloat_mod ops x y = bnd (to_double x) (\<lambda>a. bnd (to_double y) (\<lambda>b. Inr (xfloat (double_fmod ops a b))))"

text \<open>
  The conversions exit on a value of the wrong type. The cast to \<open>uint64_t\<close> is then read as
  the \<open>int64_t\<close> parameter of \<open>xint\<close>.
\<close>

definition xfloat_to_xint :: "double_ops \<Rightarrow> value_word \<Rightarrow> value_word res" where
  "xfloat_to_xint ops x =
     (if \<not> is_xfloat x then Inl Exit_failure
      else bnd (to_double x) (\<lambda>d. Inr (xint (sint (uint64_of_double ops d)))))"

definition xint_to_xfloat :: "double_ops \<Rightarrow> value_word \<Rightarrow> value_word res" where
  "xint_to_xfloat ops x =
     (if \<not> is_xint x then Inl Exit_failure
      else bnd (to_int64 x) (\<lambda>i. Inr (xfloat (double_of_int64 ops i))))"

section \<open>Objects\<close>

definition is_xobject :: "value_word \<Rightarrow> bool" where
  "is_xobject v \<longleftrightarrow> v \<noteq> 0 \<and> value_tag v = tag_word XOBJECT"

section \<open>The representation is faithful\<close>

lemma TAG_MASK_mask: "TAG_MASK = mask 3"
  by (simp add: TAG_MASK_def mask_eq_exp_minus_1)

lemma DATA_MASK_mask: "DATA_MASK = NOT (mask 3)"
  by (simp add: DATA_MASK_def mask_eq_exp_minus_1)

lemma value_tag_take_bit: "value_tag v = take_bit 3 v"
  by (simp add: value_tag_def TAG_MASK_mask take_bit_eq_mask)

lemma tag_word_take_bit: "take_bit 3 (tag_word t) = tag_word t"
  by (cases t) simp_all

lemma bit_tag_word: "bit (tag_word t) n \<Longrightarrow> n < 3"
  by (subst (asm) tag_word_take_bit [symmetric]) (simp add: bit_take_bit_iff)

lemma tag_word_inject: "tag_word s = tag_word t \<longleftrightarrow> s = t"
  by (cases s; cases t) simp_all

lemma value_tag_xint [simp]: "value_tag (xint i) = tag_word XINT"
  by (rule bit_eqI) (auto simp: value_tag_take_bit xint_def bit_simps dest: bit_tag_word)

lemma value_tag_xfloat [simp]: "value_tag (xfloat d) = tag_word XFLOAT"
  by (rule bit_eqI)
    (auto simp: value_tag_take_bit xfloat_def DATA_MASK_mask bit_simps dest: bit_tag_word)

lemma value_tag_xbool [simp]: "value_tag (xbool b) = tag_word XEXTENDED"
  by (simp add: xbool_def xtrue_def xfalse_def value_tag_def TAG_MASK_def)

lemma is_xint_xint [simp]: "is_xint (xint i)"
  by (simp add: is_xint_def)

lemma is_xfloat_xfloat [simp]: "is_xfloat (xfloat d)"
  by (simp add: is_xfloat_def)

lemma is_xbool_xbool [simp]: "is_xbool (xbool b)"
  by (simp add: is_xbool_def xbool_def)

lemma xtrue_neq_xfalse [simp]: "xtrue \<noteq> xfalse" "xfalse \<noteq> xtrue"
  by (simp_all add: xtrue_def xfalse_def)

lemma to_bool_xbool [simp]: "to_bool (xbool b) = Inr b"
  by (simp add: to_bool_def xbool_def is_xbool_def)

text \<open>Integers wrap to 61 bits.\<close>

lemma sint_shift_xint: "sint (signed_drop_bit 3 (xint i)) = signed_take_bit 60 i"
proof (rule bit_eqI)
  fix n
  have two: "\<not> bit (tag_word XINT) (n + 3)"
    using bit_tag_word [of XINT "n + 3"] by auto
  have top: "\<not> bit (tag_word XINT) 63"
    using bit_tag_word [of XINT 63] by auto
  show "bit (sint (signed_drop_bit 3 (xint i))) n \<longleftrightarrow> bit (signed_take_bit 60 i) n"
    using two top
    by (auto simp: sint_signed_drop_bit_eq xint_def bit_simps min_def add.commute not_less
      simp del: tag_word.simps One_nat_def)
qed

theorem to_int64_xint: "to_int64 (xint i) = Inr (signed_take_bit 60 i)"
  by (simp add: to_int64_def sint_shift_xint)

lemma to_int64_range:
  "to_int64 v = Inr i \<Longrightarrow> - (2 ^ 60) \<le> i \<and> i < 2 ^ 60"
proof -
  assume "to_int64 v = Inr i"
  then have i: "i = drop_bit 3 (sint v)"
    by (simp add: to_int64_def asserting_eq_Inr sint_signed_drop_bit_eq)
  have "- (2 ^ 63) \<le> sint v" "sint v < 2 ^ 63"
    using sint_ge [of v] sint_lt [of v] by simp_all
  then show ?thesis
    by (simp add: i drop_bit_eq_div) linarith
qed

lemma to_int64_tag: "to_int64 v = Inr i \<Longrightarrow> is_xint v"
  by (simp add: to_int64_def asserting_eq_Inr)

lemma int64_result_Inr: "int64_result i = Inr r \<longleftrightarrow> r = i \<and> - (2 ^ 63) \<le> i \<and> i < 2 ^ 63"
  by (auto simp: int64_result_def defined_when_eq_Inr)

text \<open>No sum or difference of two represented integers overflows an \<open>int64_t\<close>.\<close>

theorem xint_add_value:
  assumes "to_int64 x = Inr a" and "to_int64 y = Inr b"
  shows "xint_add x y = Inr (xint (a + b))"
    and "bnd (xint_add x y) to_int64 = Inr (signed_take_bit 60 (a + b))"
proof -
  have "int64_result (a + b) = Inr (a + b)"
    using to_int64_range [OF assms(1)] to_int64_range [OF assms(2)]
    by (simp add: int64_result_Inr)
  then show "xint_add x y = Inr (xint (a + b))"
    using assms by (simp add: xint_add_def)
  then show "bnd (xint_add x y) to_int64 = Inr (signed_take_bit 60 (a + b))"
    by (simp add: to_int64_xint)
qed

lemma xint_sub_value:
  assumes "to_int64 x = Inr a" and "to_int64 y = Inr b"
  shows "xint_sub x y = Inr (xint (a - b))"
proof -
  have "int64_result (a - b) = Inr (a - b)"
    using to_int64_range [OF assms(1)] to_int64_range [OF assms(2)]
    by (simp add: int64_result_Inr)
  then show ?thesis
    using assms by (simp add: xint_sub_def)
qed

text \<open>Integers are 61 bits wide.\<close>

lemma integer_round_trip:
  "to_int64 (xint i) = Inr (signed_take_bit 60 i) \<and>
   (to_int64 (xint i) = Inr i \<longleftrightarrow> - (2 ^ 60) \<le> i \<and> i < 2 ^ 60)"
  using signed_take_bit_int_eq_self_iff [of 60 i] by (auto simp: to_int64_xint)

section \<open>A value has one tag\<close>

lemma tags_disjoint:
  "is_xint (xint i) \<and> \<not> is_xfloat (xint i) \<and> \<not> is_xobject (xint i) \<and>
   is_xfloat (xfloat d) \<and> \<not> is_xint (xfloat d) \<and> \<not> is_xobject (xfloat d) \<and>
   is_xbool (xbool b) \<and> \<not> is_xint (xbool b) \<and> \<not> is_xfloat (xbool b) \<and> \<not> is_xobject (xbool b)"
  by (simp add: is_xint_def is_xfloat_def is_xobject_def tag_word_inject)

end
