(* ===== verification/Strings.thy ===== *)
theory Strings
  imports Prelude
begin

text \<open>
  C strings (\<open>src/src/packages/std/string/string.c\<close>), single characters
  (\<open>char/char.c\<close>) and the decimal and script renderings of numbers (\<open>int/int.c\<close>).

  A C string is its list of characters without the terminating NUL, which is what
  \<open>strlen\<close>, \<open>strcmp\<close> and \<open>strchr\<close> see of it; reading at the terminator gives the NUL
  character. \<open>strtol\<close> is modelled after the C standard (white space, sign, base prefix,
  digits, clamping to the range of \<open>long\<close>).
\<close>

unbundle bit_operations_syntax

section \<open>Characters\<close>

definition char_code :: "char \<Rightarrow> nat" where
  "char_code c = of_char c"

text \<open>\<open>isspace\<close> in the C locale.\<close>

definition isspace :: "char \<Rightarrow> bool" where
  "isspace c \<longleftrightarrow> char_code c = 32 \<or> (9 \<le> char_code c \<and> char_code c \<le> 13)"

definition char_is_digit :: "char \<Rightarrow> bool" where
  "char_is_digit c \<longleftrightarrow> 48 \<le> char_code c \<and> char_code c \<le> 57"

definition char_to_hex :: "char \<Rightarrow> nat res" where
  "char_to_hex c =
     (if 48 \<le> char_code c \<and> char_code c \<le> 57 then Inr (char_code c - 48)
      else if 97 \<le> char_code c \<and> char_code c \<le> 102 then Inr (char_code c - 97 + 10)
      else if 65 \<le> char_code c \<and> char_code c \<le> 70 then Inr (char_code c - 65 + 10)
      else Inl Exit_failure)"

definition tolower :: "char \<Rightarrow> char" where
  "tolower c = (if 65 \<le> char_code c \<and> char_code c \<le> 90 then char_of (char_code c + 32) else c)"

definition toupper :: "char \<Rightarrow> char" where
  "toupper c = (if 97 \<le> char_code c \<and> char_code c \<le> 122 then char_of (char_code c - 32) else c)"

section \<open>Strings\<close>

definition string_copy :: "string \<Rightarrow> string" where "string_copy self = self"

definition string_length :: "string \<Rightarrow> nat" where "string_length self = length self"

definition string_empty :: string where "string_empty = []"

definition string_equal :: "string \<Rightarrow> string \<Rightarrow> bool" where
  "string_equal left right \<longleftrightarrow> left = right"

definition string_is_empty :: "string \<Rightarrow> bool" where
  "string_is_empty self = string_equal self string_empty"

text \<open>A \<open>char\<close> is signed: it is sign-extended when it meets the \<open>size_t\<close>.\<close>

definition char_to_size :: "char \<Rightarrow> u64" where
  "char_to_size c = scast (of_char c :: u8)"

fun bernstein_loop :: "u64 \<Rightarrow> string \<Rightarrow> u64" where
  "bernstein_loop hash [] = hash"
| "bernstein_loop hash (c # pointer) = bernstein_loop ((33 * hash) XOR char_to_size c) pointer"

definition string_bernstein_hash :: "string \<Rightarrow> u64" where
  "string_bernstein_hash self = bernstein_loop 0 self"

definition string_starts_with :: "string \<Rightarrow> string \<Rightarrow> bool" where
  "string_starts_with target pre =
     (if length target < length pre then False
      else take (length pre) target = pre)"

definition string_ends_with :: "string \<Rightarrow> string \<Rightarrow> bool" where
  "string_ends_with target postfix =
     (if length target < length postfix then False
      else drop (length target - length postfix) target = postfix)"

definition string_append :: "string \<Rightarrow> string \<Rightarrow> string" where
  "string_append left right = left @ right"

definition string_slice :: "string \<Rightarrow> nat \<Rightarrow> nat \<Rightarrow> string res" where
  "string_slice self start end' =
     asserting (end' \<ge> start) (asserting (end' \<le> string_length self)
       (Inr (take (end' - start) (drop start self))))"

fun strchr :: "string \<Rightarrow> char \<Rightarrow> nat option" where
  "strchr [] ch = None"
| "strchr (c # s) ch = (if c = ch then Some 0 else map_option Suc (strchr s ch))"

definition string_find_index :: "string \<Rightarrow> char \<Rightarrow> int" where
  "string_find_index self ch = (case strchr self ch of None \<Rightarrow> - 1 | Some i \<Rightarrow> int i)"

fun string_count_char :: "string \<Rightarrow> char \<Rightarrow> nat" where
  "string_count_char [] ch = 0"
| "string_count_char (c # s) ch = (if c = ch then 1 else 0) + string_count_char s ch"

definition string_has_char :: "string \<Rightarrow> char \<Rightarrow> bool" where
  "string_has_char self ch \<longleftrightarrow> string_count_char self ch > 0"

fun string_count_substring :: "string \<Rightarrow> string \<Rightarrow> nat" where
  "string_count_substring [] substring = 0"
| "string_count_substring (c # s) substring =
     (if string_starts_with (c # s) substring then 1 else 0) + string_count_substring s substring"

definition string_to_lower_case :: "string \<Rightarrow> string" where
  "string_to_lower_case self = map tolower (string_copy self)"

definition string_to_upper_case :: "string \<Rightarrow> string" where
  "string_to_upper_case self = map toupper (string_copy self)"

definition string_equal_mod_case :: "string \<Rightarrow> string \<Rightarrow> bool" where
  "string_equal_mod_case left right =
     string_equal (string_to_upper_case left) (string_to_upper_case right)"

text \<open>The pointer to the next line, or NULL when there is none or it is empty.\<close>

definition string_next_line :: "string \<Rightarrow> string option" where
  "string_next_line self =
     (let newline_index = string_find_index self (CHR 0x0A)
      in if newline_index = - 1 then None
         else let next_line = drop (nat newline_index + 1) self
              in if next_line = [] then None else Some next_line)"

section \<open>Numbers in strings\<close>

definition digit_value :: "char \<Rightarrow> nat option" where
  "digit_value c =
     (let n = char_code c
      in if 48 \<le> n \<and> n \<le> 57 then Some (n - 48)
         else if 97 \<le> n \<and> n \<le> 122 then Some (n - 97 + 10)
         else if 65 \<le> n \<and> n \<le> 90 then Some (n - 65 + 10)
         else None)"

definition digit_in_base :: "nat \<Rightarrow> char \<Rightarrow> nat option" where
  "digit_in_base base c =
     (case digit_value c of None \<Rightarrow> None | Some d \<Rightarrow> if d < base then Some d else None)"

text \<open>The digits at the front of a string: the accumulated number and what follows them.\<close>

fun digits_loop :: "nat \<Rightarrow> nat \<Rightarrow> string \<Rightarrow> nat \<times> string" where
  "digits_loop base acc [] = (acc, [])"
| "digits_loop base acc (c # s) =
     (case digit_in_base base c of
        None \<Rightarrow> (acc, c # s)
      | Some d \<Rightarrow> digits_loop base (acc * base + d) s)"

definition starts_with_digit :: "nat \<Rightarrow> string \<Rightarrow> bool" where
  "starts_with_digit base s = (case s of [] \<Rightarrow> False | c # _ \<Rightarrow> digit_in_base base c \<noteq> None)"

text \<open>The optional prefix of a base, taken only when a digit follows it; base 0 chooses.\<close>

definition has_prefix :: "nat \<Rightarrow> string \<Rightarrow> string \<Rightarrow> bool" where
  "has_prefix base pre s \<longleftrightarrow>
     map tolower (take 2 s) = pre \<and> starts_with_digit base (drop 2 s)"

definition choose_base :: "nat \<Rightarrow> string \<Rightarrow> nat \<times> string" where
  "choose_base base s =
     (if (base = 16 \<or> base = 0) \<and> has_prefix 16 ''0x'' s then (16, drop 2 s)
      else if (base = 2 \<or> base = 0) \<and> has_prefix 2 ''0b'' s then (2, drop 2 s)
      else if base = 0 then (if take 1 s = ''0'' then 8 else 10, s)
      else (base, s))"

text \<open>
  What \<open>strtol\<close> and \<open>strtoul\<close> find in a string: the sign, the magnitude and the rest of
  the string, or \<open>None\<close> when there is no number and the end pointer is the start.
\<close>

definition scan_number :: "nat \<Rightarrow> string \<Rightarrow> (bool \<times> nat \<times> string) option" where
  "scan_number base self =
     (let s = dropWhile isspace self;
          negative = (take 1 s = ''-'');
          s1 = (if take 1 s = ''-'' \<or> take 1 s = ''+'' then drop 1 s else s);
          (b, s2) = choose_base base s1
      in if starts_with_digit b s2
         then let (n, rest) = digits_loop b 0 s2 in Some (negative, n, rest)
         else None)"

definition clamp_int64 :: "int \<Rightarrow> int" where
  "clamp_int64 i = max (- (2 ^ 63)) (min (2 ^ 63 - 1) i)"

definition string_is_int_of_base :: "string \<Rightarrow> nat \<Rightarrow> bool" where
  "string_is_int_of_base self base =
     (case scan_number base self of
        None \<Rightarrow> False
      | Some (_, _, rest) \<Rightarrow> rest = [])"

definition string_is_int :: "string \<Rightarrow> bool" where
  "string_is_int self = string_is_int_of_base self 0"

definition string_parse_int :: "string \<Rightarrow> nat \<Rightarrow> int" where
  "string_parse_int self base =
     (case scan_number base self of
        None \<Rightarrow> 0
      | Some (negative, n, _) \<Rightarrow> clamp_int64 (if negative then - int n else int n))"

text \<open>\<open>strtoul\<close> negates in the unsigned type and clamps only the magnitude.\<close>

definition string_parse_uint :: "string \<Rightarrow> nat \<Rightarrow> u64" where
  "string_parse_uint self base =
     (case scan_number base self of
        None \<Rightarrow> 0
      | Some (negative, n, _) \<Rightarrow>
          if n \<ge> 2 ^ 64 then - 1
          else if negative then - (of_nat n) else of_nat n)"

function string_is_xint :: "string \<Rightarrow> bool" where
  "string_is_xint self =
     (if string_starts_with self ''-'' \<or> string_starts_with self ''+''
      then let substring = drop 1 self
           in if string_starts_with substring ''-'' \<or> string_starts_with substring ''+''
              then False
              else string_is_xint substring
      else if string_starts_with self ''0x'' then string_is_int_of_base (drop 2 self) 16
      else if string_starts_with self ''0o'' then string_is_int_of_base (drop 2 self) 8
      else string_is_int_of_base self 10)"
  by pat_completeness auto
termination
  by (relation "measure length") (auto simp: string_starts_with_def split: if_splits)

function string_parse_xint :: "string \<Rightarrow> int res" where
  "string_parse_xint self =
     (if string_starts_with self ''-''
      then bnd (string_parse_xint (drop 1 self))
             (\<lambda>r. defined_when (r \<noteq> - (2 ^ 63)) (Inr (- r)))
      else if string_starts_with self ''+'' then string_parse_xint (drop 1 self)
      else if string_starts_with self ''0x'' then Inr (string_parse_int (drop 2 self) 16)
      else if string_starts_with self ''0o'' then Inr (string_parse_int (drop 2 self) 8)
      else if string_starts_with self ''0b'' then Inr (string_parse_int (drop 2 self) 2)
      else Inr (string_parse_int self 10))"
  by pat_completeness auto
termination
  by (relation "measure length") (auto simp: string_starts_with_def split: if_splits)

declare string_is_xint.simps [simp del] string_parse_xint.simps [simp del]

section \<open>Numbers to strings\<close>

fun uint_to_string :: "nat \<Rightarrow> string" where
  "uint_to_string n =
     (if n < 10 then [char_of (48 + n)]
      else uint_to_string (n div 10) @ [char_of (48 + n mod 10)])"

declare uint_to_string.simps [simp del]

definition uint_max :: "u64 \<Rightarrow> u64 \<Rightarrow> u64" where "uint_max x y = (if x > y then x else y)"

definition uint_min :: "u64 \<Rightarrow> u64 \<Rightarrow> u64" where "uint_min x y = (if x < y then x else y)"

definition uint_decimal_length :: "nat \<Rightarrow> nat" where
  "uint_decimal_length self = length (uint_to_string self)"

definition int_relu :: "int \<Rightarrow> u64" where
  "int_relu self = (if self > 0 then word_of_int self else 0)"

text \<open>
  The script digits are appended to the buffer as their UTF-8 bytes: a subscript digit is
  three bytes, and the superscripts of 1, 2 and 3 are two.
\<close>

definition subscript_digit :: "char \<Rightarrow> string" where
  "subscript_digit ch =
     (if char_is_digit ch then [CHR 0xE2, CHR 0x82, char_of (0x80 + (char_code ch - 48))] else [])"

definition uint_to_subscript :: "nat \<Rightarrow> string" where
  "uint_to_subscript self = concat (map subscript_digit (uint_to_string self))"

definition superscript_digit :: "char \<Rightarrow> string" where
  "superscript_digit ch =
     (let n = char_code ch - 48
      in if \<not> char_is_digit ch then []
         else if n = 1 then [CHR 0xC2, CHR 0xB9]
         else if n = 2 then [CHR 0xC2, CHR 0xB2]
         else if n = 3 then [CHR 0xC2, CHR 0xB3]
         else [CHR 0xE2, CHR 0x81, char_of (0xB0 + n)])"

definition uint_to_superscript :: "nat \<Rightarrow> string" where
  "uint_to_superscript self = concat (map superscript_digit (uint_to_string self))"

section \<open>Prefixes, suffixes and slices\<close>

lemma string_starts_with_iff:
  "string_starts_with target pre \<longleftrightarrow> (\<exists>rest. target = pre @ rest)"
proof
  assume "string_starts_with target pre"
  then have "target = pre @ drop (length pre) target"
    by (auto simp: string_starts_with_def split: if_splits) (metis append_take_drop_id)
  then show "\<exists>rest. target = pre @ rest" ..
qed (auto simp: string_starts_with_def)

lemma string_ends_with_iff: "string_ends_with target post \<longleftrightarrow> (\<exists>rest. target = rest @ post)"
proof
  assume "string_ends_with target post"
  then have "target = take (length target - length post) target @ post"
    by (auto simp: string_ends_with_def split: if_splits) (metis append_take_drop_id)
  then show "\<exists>rest. target = rest @ post" ..
qed (auto simp: string_ends_with_def)

lemma string_slice_prefix: "string_slice (s @ t) 0 (length s) = Inr s"
  by (simp add: string_slice_def string_length_def)

lemma string_slice_suffix: "n \<le> length s \<Longrightarrow> string_slice s n (length s) = Inr (drop n s)"
  by (simp add: string_slice_def string_length_def)

lemma string_slice_split:
  assumes "i \<le> j" and "j \<le> length s"
  shows "bnd (string_slice s 0 i) (\<lambda>a. bnd (string_slice s i j) (\<lambda>b.
           bnd (string_slice s j (length s)) (\<lambda>c. Inr (string_append a (string_append b c))))) = Inr s"
proof -
  have "take i s @ take (j - i) (drop i s) @ drop j s = s"
    using assms by (metis append_take_drop_id append.assoc le_add_diff_inverse take_add)
  then show ?thesis
    using assms by (simp add: string_slice_def string_length_def string_append_def)
qed

lemma strchr_None: "strchr s ch = None \<longleftrightarrow> ch \<notin> set s"
  by (induction s) auto

lemma strchr_Some: "strchr s ch = Some i \<longleftrightarrow> i < length s \<and> s ! i = ch \<and> ch \<notin> set (take i s)"
proof (induction s arbitrary: i)
  case Nil
  then show ?case by simp
next
  case (Cons c s)
  then show ?case by (cases i) auto
qed

lemma string_find_index_minus1 [simp]: "string_find_index s ch = - 1 \<longleftrightarrow> ch \<notin> set s"
  by (auto simp: string_find_index_def strchr_None [symmetric] split: option.splits)

lemma string_find_index_nat:
  "string_find_index s ch \<noteq> - 1 \<Longrightarrow>
     nat (string_find_index s ch) < length s \<and> s ! nat (string_find_index s ch) = ch \<and>
     ch \<notin> set (take (nat (string_find_index s ch)) s)"
proof -
  assume "string_find_index s ch \<noteq> - 1"
  then obtain i where i: "strchr s ch = Some i"
    by (cases "strchr s ch") (auto simp: string_find_index_def)
  then have "string_find_index s ch = int i"
    by (simp add: string_find_index_def)
  with i show ?thesis
    using strchr_Some [of s ch i] by simp
qed

lemma string_has_char_iff: "string_has_char s ch \<longleftrightarrow> ch \<in> set s"
  by (induction s) (auto simp: string_has_char_def)

section \<open>Decimal numbers\<close>

lemma digit_in_base_char_of: "d < 10 \<Longrightarrow> digit_in_base 10 (char_of (48 + d)) = Some d"
  by (simp add: digit_in_base_def digit_value_def char_code_def)

lemma digits_loop_append:
  assumes "\<forall>c \<in> set xs. digit_in_base base c \<noteq> None"
  shows "digits_loop base acc (xs @ ys) = digits_loop base (fst (digits_loop base acc xs)) ys"
  using assms by (induction xs arbitrary: acc) (auto split: option.splits)

lemma uint_to_string_digits: "c \<in> set (uint_to_string n) \<Longrightarrow> digit_in_base 10 c \<noteq> None"
proof (induction n rule: uint_to_string.induct)
  case (1 n)
  then show ?case
    by (subst (asm) uint_to_string.simps)
      (auto simp: digit_in_base_char_of split: if_splits)
qed

lemma uint_to_string_nonempty [simp]: "uint_to_string n \<noteq> []"
  by (subst uint_to_string.simps) simp

lemma digits_loop_uint_to_string: "digits_loop 10 0 (uint_to_string n) = (n, [])"
proof (induction n rule: uint_to_string.induct)
  case (1 n)
  show ?case
  proof (cases "n < 10")
    case True
    then show ?thesis
      by (subst uint_to_string.simps) (simp add: digit_in_base_char_of)
  next
    case False
    have "digits_loop 10 0 (uint_to_string (n div 10) @ [char_of (48 + n mod 10)])
        = digits_loop 10 (n div 10) [char_of (48 + n mod 10)]"
      using 1 False by (subst digits_loop_append) (auto dest: uint_to_string_digits)
    then show ?thesis
      using False by (subst uint_to_string.simps) (simp add: digit_in_base_char_of)
  qed
qed

text \<open>What a decimal numeral begins with decides every branch of the parsers.\<close>

lemma digit_in_base_not:
  "digit_in_base 10 c \<noteq> None \<Longrightarrow>
     \<not> isspace c \<and> c \<noteq> CHR ''-'' \<and> c \<noteq> CHR ''+'' \<and> c \<noteq> CHR ''x'' \<and> c \<noteq> CHR ''o'' \<and> c \<noteq> CHR ''b''"
  by (auto simp: digit_in_base_def digit_value_def isspace_def char_code_def Let_def
    split: option.splits if_splits)

lemma uint_to_string_Cons:
  obtains c s where "uint_to_string n = c # s" and "digit_in_base 10 c \<noteq> None"
    and "\<And>d t. s = d # t \<Longrightarrow> digit_in_base 10 d \<noteq> None"
proof (cases "uint_to_string n")
  case Nil
  then show ?thesis by simp
next
  case (Cons c s)
  then show ?thesis
    using that uint_to_string_digits [of _ n] by auto
qed

lemma scan_number_uint_to_string: "scan_number 10 (uint_to_string n) = Some (False, n, [])"
proof -
  obtain c s where cs: "uint_to_string n = c # s" and c: "digit_in_base 10 c \<noteq> None"
    by (rule uint_to_string_Cons)
  note nc = digit_in_base_not [OF c]
  have "digits_loop 10 0 (c # s) = (n, [])"
    using digits_loop_uint_to_string [of n] by (simp only: cs)
  then show ?thesis
    using c nc unfolding scan_number_def
    by (simp add: cs choose_base_def starts_with_digit_def Let_def del: digits_loop.simps)
qed

lemma uint_to_string_prefix_digits:
  "string_starts_with (uint_to_string n) p \<Longrightarrow> c \<in> set p \<Longrightarrow> digit_in_base 10 c \<noteq> None"
  by (rule uint_to_string_digits [of c n]) (auto simp: string_starts_with_iff)

lemma uint_to_string_no_prefix:
  "\<not> string_starts_with (uint_to_string n) ''-''" "\<not> string_starts_with (uint_to_string n) ''+''"
  "\<not> string_starts_with (uint_to_string n) ''0x''" "\<not> string_starts_with (uint_to_string n) ''0o''"
  "\<not> string_starts_with (uint_to_string n) ''0b''"
  using uint_to_string_prefix_digits [of n "''-''" "CHR ''-''"]
    uint_to_string_prefix_digits [of n "''+''" "CHR ''+''"]
    uint_to_string_prefix_digits [of n "''0x''" "CHR ''x''"]
    uint_to_string_prefix_digits [of n "''0o''" "CHR ''o''"]
    uint_to_string_prefix_digits [of n "''0b''" "CHR ''b''"]
  by (auto simp: digit_in_base_def digit_value_def char_code_def)

lemma string_parse_xint_uint_to_string:
  "n < 2 ^ 63 \<Longrightarrow> string_parse_xint (uint_to_string n) = Inr (int n)"
  by (subst string_parse_xint.simps)
    (simp add: uint_to_string_no_prefix string_parse_int_def scan_number_uint_to_string
      clamp_int64_def)

lemma string_is_xint_uint_to_string: "string_is_xint (uint_to_string n)"
  by (subst string_is_xint.simps)
    (simp add: uint_to_string_no_prefix string_is_int_of_base_def scan_number_uint_to_string)

lemma minus_prefix [simp]: "string_starts_with (CHR ''-'' # s) ''-''"
  by (simp add: string_starts_with_def)

lemma string_parse_xint_minus:
  "n < 2 ^ 63 \<Longrightarrow> string_parse_xint (''-'' @ uint_to_string n) = Inr (- int n)"
  by (subst string_parse_xint.simps) (simp add: string_parse_xint_uint_to_string)

lemma string_is_xint_minus: "string_is_xint (''-'' @ uint_to_string n)"
  by (subst string_is_xint.simps)
    (simp add: Let_def uint_to_string_no_prefix string_is_xint_uint_to_string)

end
