(* ===== verification/Net_Heap.thy ===== *)
theory Net_Heap
  imports Tagged_Value Strings
begin

text \<open>
  The interaction net (\<open>src/src/net\<close>): wires, principal wires, node constructors and nodes, and
  the state \<open>heap\<close> that holds them. A pointer is the address of its object in the list of its
  kind; the constructor of \<open>val\<close> is the kind the object's \<open>spec\<close> field gives, and \<open>VNull\<close> is the
  NULL pointer. A freed wire leaves an empty cell behind, and reading it is \<open>Undefined\<close>. Nodes
  and constructors are not freed while a program runs: nodes are recycled.

  The growable \<open>value_array\<close> of a node is the list of its slots, where a slot never set is
  \<open>VNull\<close>. What a printer writes to its file is its result.
\<close>

section \<open>Values and objects\<close>

datatype val =
    VNull
  | VImm value_word
  | VWire nat
  | VPrincipal nat
  | VCtor nat
  | VFunction nat
  | VPrimitive nat

record port_info =
  port_name :: string
  is_principal :: bool

record rule =
  left_node_ctor :: nat
  right_node_ctor :: nat
  rule_function :: nat

record node_ctor =
  ctor_name :: string
  ctor_arity :: nat
  port_infos :: "port_info option list"
  rule_array :: "rule list"
  ctor_primitive :: "nat option"

record principal_wire =
  pw_node :: nat
  pw_index :: nat
  pw_oppsite :: "nat option"

record node =
  node_ctor_of :: "nat option"
  node_id :: nat
  is_allocated :: bool
  value_array :: "val list"
  primitive_arg_count :: nat

record heap =
  wires :: "val option list"
  principal_wires :: "principal_wire option list"
  node_ctors :: "node_ctor list"
  nodes :: "node list"

section \<open>Ports\<close>

definition port_info_new :: "string \<Rightarrow> bool \<Rightarrow> port_info" where
  "port_info_new name flag = \<lparr>port_name = name, is_principal = flag\<rparr>"

definition port_info_from_name :: "string \<Rightarrow> port_info res" where
  "port_info_from_name name =
     (if string_ends_with name ''!''
      then bnd (string_slice name 0 (length name - 1)) (\<lambda>new_name. Inr (port_info_new new_name True))
      else Inr (port_info_new name False))"

section \<open>Wires\<close>

definition wire_new :: "heap \<Rightarrow> nat \<times> heap" where
  "wire_new h = (length (wires h), h\<lparr>wires := wires h @ [Some VNull]\<rparr>)"

definition wire_destroy :: "nat \<Rightarrow> heap \<Rightarrow> heap" where
  "wire_destroy a h = h\<lparr>wires := (wires h)[a := None]\<rparr>"

definition set_fuzed_value :: "nat \<Rightarrow> val \<Rightarrow> heap \<Rightarrow> heap" where
  "set_fuzed_value a v h = h\<lparr>wires := (wires h)[a := Some v]\<rparr>"

definition is_wire :: "val \<Rightarrow> bool" where
  "is_wire v = (case v of VWire _ \<Rightarrow> True | _ \<Rightarrow> False)"

definition is_principal_wire :: "val \<Rightarrow> bool" where
  "is_principal_wire v = (case v of VPrincipal _ \<Rightarrow> True | _ \<Rightarrow> False)"

definition is_non_wire :: "val \<Rightarrow> bool" where
  "is_non_wire v \<longleftrightarrow> \<not> is_wire v \<and> \<not> is_principal_wire v"

definition is_node_ctor :: "val \<Rightarrow> bool" where
  "is_node_ctor v = (case v of VCtor _ \<Rightarrow> True | _ \<Rightarrow> False)"

definition as_node_ctor :: "val \<Rightarrow> nat res" where
  "as_node_ctor v = (case v of VCtor a \<Rightarrow> Inr a | _ \<Rightarrow> Inl Assert_failed)"

definition as_wire :: "val \<Rightarrow> nat res" where
  "as_wire v = (case v of VWire a \<Rightarrow> Inr a | _ \<Rightarrow> Inl Assert_failed)"

text \<open>\<open>walk\<close> only reads; on a cycle of fuzed wires it does not return.\<close>

partial_function (option) walk :: "heap \<Rightarrow> val \<Rightarrow> val loop" where
  "walk h v =
     (case v of
        VWire a \<Rightarrow>
          (case cell (wires h) a of
             None \<Rightarrow> Some (Inl Undefined)
           | Some fuzed_value \<Rightarrow>
               (if fuzed_value = VNull then Some (Inr v) else walk h fuzed_value))
      | _ \<Rightarrow> Some (Inr v))"

declare walk.simps [code]

text \<open>\<open>defuze\<close> frees each wire it passes, so it always stops.\<close>

function defuze :: "heap \<Rightarrow> val \<Rightarrow> (val \<times> heap) res" where
  "defuze h v =
     (case v of
        VWire a \<Rightarrow>
          deref (cell (wires h) a) (\<lambda>fuzed_value.
            if fuzed_value = VNull then Inr (v, h) else defuze (wire_destroy a h) fuzed_value)
      | _ \<Rightarrow> Inr (v, h))"
  by pat_completeness auto
termination
  by (relation "measure (\<lambda>(h, v). live_cells (wires h))")
    (auto simp: wire_destroy_def intro: live_cells_free)

declare defuze.simps [simp del]

definition is_fuzed :: "heap \<Rightarrow> val \<Rightarrow> val \<Rightarrow> bool loop" where
  "is_fuzed h x y = lbnd (walk h x) (\<lambda>x. lbnd (walk h y) (\<lambda>y.
     Some (Inr (is_wire x \<and> is_wire y \<and> x = y))))"

section \<open>Principal wires\<close>

definition principal_wire_new :: "nat \<Rightarrow> nat \<Rightarrow> heap \<Rightarrow> nat \<times> heap" where
  "principal_wire_new n i h =
     (length (principal_wires h),
      h\<lparr>principal_wires := principal_wires h @ [Some \<lparr>pw_node = n, pw_index = i, pw_oppsite = None\<rparr>]\<rparr>)"

definition principal_wire_destroy :: "nat \<Rightarrow> heap \<Rightarrow> heap" where
  "principal_wire_destroy a h = h\<lparr>principal_wires := (principal_wires h)[a := None]\<rparr>"

definition set_oppsite :: "nat \<Rightarrow> nat \<Rightarrow> heap \<Rightarrow> heap res" where
  "set_oppsite a b h =
     deref (cell (principal_wires h) a) (\<lambda>p.
       Inr (h\<lparr>principal_wires := (principal_wires h)[a := Some (p\<lparr>pw_oppsite := Some b\<rparr>)]\<rparr>))"

definition opposites :: "heap \<Rightarrow> nat \<Rightarrow> nat \<Rightarrow> bool res" where
  "opposites h a b =
     (if a = b then Inr True
      else deref (cell (principal_wires h) a) (\<lambda>p. deref (cell (principal_wires h) b) (\<lambda>q.
        Inr (pw_oppsite p = Some b \<and> pw_oppsite q = Some a))))"

definition is_connected :: "heap \<Rightarrow> val \<Rightarrow> val \<Rightarrow> bool loop" where
  "is_connected h x y = lbnd (walk h x) (\<lambda>x. lbnd (walk h y) (\<lambda>y.
     (case (x, y) of
        (VPrincipal a, VPrincipal b) \<Rightarrow> Some (opposites h a b)
      | _ \<Rightarrow> is_fuzed h x y)))"

section \<open>Node constructors\<close>

definition node_ctor_new :: "string \<Rightarrow> nat \<Rightarrow> node_ctor" where
  "node_ctor_new name arity =
     \<lparr>ctor_name = name, ctor_arity = arity, port_infos = replicate arity None,
      rule_array = [], ctor_primitive = None\<rparr>"

fun find_port_index_loop :: "nat \<Rightarrow> port_info option list \<Rightarrow> string \<Rightarrow> nat res" where
  "find_port_index_loop i [] port_name' = Inl Assert_failed"
| "find_port_index_loop i (p # ps) port_name' =
     deref p (\<lambda>port_info.
       if string_equal (port_name port_info) port_name' then Inr i
       else find_port_index_loop (Suc i) ps port_name')"

definition node_ctor_find_port_index :: "node_ctor \<Rightarrow> string \<Rightarrow> nat res" where
  "node_ctor_find_port_index node_ctor port_name' =
     find_port_index_loop 0 (port_infos node_ctor) port_name'"

fun principal_port_count_loop :: "port_info option list \<Rightarrow> nat \<Rightarrow> nat res" where
  "principal_port_count_loop [] count = Inr count"
| "principal_port_count_loop (p # ps) count =
     deref p (\<lambda>port_info.
       principal_port_count_loop ps (if is_principal port_info then Suc count else count))"

definition node_ctor_principal_port_count :: "node_ctor \<Rightarrow> nat res" where
  "node_ctor_principal_port_count self = principal_port_count_loop (port_infos self) 0"

definition node_ctor_print :: "node_ctor \<Rightarrow> string" where
  "node_ctor_print self = ctor_name self"

section \<open>Nodes\<close>

definition node_new :: node where
  "node_new = \<lparr>node_ctor_of = None, node_id = 0, is_allocated = False, value_array = [],
     primitive_arg_count = 0\<rparr>"

definition node_clean :: "node \<Rightarrow> node" where
  "node_clean self = self\<lparr>node_ctor_of := None, is_allocated := False, value_array := [],
     primitive_arg_count := 0\<rparr>"

definition set_node :: "nat \<Rightarrow> node \<Rightarrow> heap \<Rightarrow> heap" where
  "set_node a n h = h\<lparr>nodes := (nodes h)[a := n]\<rparr>"

definition node_set_value :: "nat \<Rightarrow> nat \<Rightarrow> val \<Rightarrow> heap \<Rightarrow> heap res" where
  "node_set_value a index v h =
     deref (at (nodes h) a) (\<lambda>n.
       Inr (set_node a (n\<lparr>value_array := slot_set VNull (value_array n) index v\<rparr>) h))"

definition node_get_value :: "heap \<Rightarrow> nat \<Rightarrow> nat \<Rightarrow> val res" where
  "node_get_value h a index =
     deref (at (nodes h) a) (\<lambda>n.
       asserting (node_ctor_of n \<noteq> None) (Inr (slot VNull (value_array n) index)))"

text \<open>A node's constructor, as \<open>node->ctor\<close> is dereferenced.\<close>

definition ctor_of_node :: "heap \<Rightarrow> nat \<Rightarrow> node_ctor res" where
  "ctor_of_node h a =
     deref (at (nodes h) a) (\<lambda>n. deref (node_ctor_of n) (\<lambda>c. deref (at (node_ctors h) c) Inr))"

definition node_get_port_info :: "heap \<Rightarrow> nat \<Rightarrow> nat \<Rightarrow> port_info res" where
  "node_get_port_info h a index =
     deref (at (nodes h) a) (\<lambda>n.
       asserting (node_ctor_of n \<noteq> None) (bnd (ctor_of_node h a) (\<lambda>c.
         asserting (index < ctor_arity c) (deref (slot None (port_infos c) index) Inr))))"

definition node_is_primitive :: "heap \<Rightarrow> nat \<Rightarrow> bool res" where
  "node_is_primitive h a = bnd (ctor_of_node h a) (\<lambda>c. Inr (ctor_primitive c \<noteq> None))"

definition node_primitive_arg_count_fetch_add1 :: "nat \<Rightarrow> heap \<Rightarrow> (nat \<times> heap) res" where
  "node_primitive_arg_count_fetch_add1 a h =
     deref (at (nodes h) a) (\<lambda>n.
       Inr (primitive_arg_count n,
            set_node a (n\<lparr>primitive_arg_count := Suc (primitive_arg_count n)\<rparr>) h))"

definition node_principal_port_count :: "heap \<Rightarrow> nat \<Rightarrow> nat res" where
  "node_principal_port_count h a =
     deref (at (nodes h) a) (\<lambda>n.
       asserting (node_ctor_of n \<noteq> None)
         (bnd (ctor_of_node h a) node_ctor_principal_port_count))"

text \<open>The first port of a node whose value walks to the wire, if any.\<close>

partial_function (option) wire_index_loop :: "heap \<Rightarrow> nat \<Rightarrow> val \<Rightarrow> nat \<Rightarrow> nat \<Rightarrow> nat option loop" where
  "wire_index_loop h a wire arity i =
     (if i < arity then
        (case node_get_value h a i of
           Inl e \<Rightarrow> Some (Inl e)
         | Inr v \<Rightarrow> lbnd (is_fuzed h v wire) (\<lambda>fuzed.
             if fuzed then Some (Inr (Some i)) else wire_index_loop h a wire arity (Suc i)))
      else Some (Inr None))"

declare wire_index_loop.simps [code]

definition node_has_wire :: "heap \<Rightarrow> nat \<Rightarrow> nat \<Rightarrow> bool loop" where
  "node_has_wire h a wire =
     lbnd (Some (ctor_of_node h a)) (\<lambda>c.
       lbnd (wire_index_loop h a (VWire wire) (ctor_arity c) 0) (\<lambda>r. Some (Inr (r \<noteq> None))))"

definition node_wire_index :: "heap \<Rightarrow> nat \<Rightarrow> nat \<Rightarrow> nat loop" where
  "node_wire_index h a wire =
     lbnd (Some (ctor_of_node h a)) (\<lambda>c.
       lbnd (wire_index_loop h a (VWire wire) (ctor_arity c) 0) (\<lambda>r.
         case r of None \<Rightarrow> Some (Inl Assert_failed) | Some i \<Rightarrow> Some (Inr i)))"

definition node_print_name :: "heap \<Rightarrow> nat \<Rightarrow> string res" where
  "node_print_name h a =
     deref (at (nodes h) a) (\<lambda>n.
       if node_ctor_of n \<noteq> None
       then bnd (ctor_of_node h a) (\<lambda>c. Inr (ctor_name c @ uint_to_subscript (node_id n)))
       else Inr (uint_to_subscript (node_id n)))"

definition node_print :: "heap \<Rightarrow> nat \<Rightarrow> string res" where
  "node_print h a = bnd (node_print_name h a) (\<lambda>s. Inr (''('' @ s @ '')''))"

definition node_print_port_info :: "heap \<Rightarrow> nat \<Rightarrow> nat \<Rightarrow> string res" where
  "node_print_port_info h a index =
     deref (at (nodes h) a) (\<lambda>n.
       if node_ctor_of n \<noteq> None
       then bnd (node_get_port_info h a index) (\<lambda>p.
              Inr ('':'' @ port_name p @ (if is_principal p then ''!'' else [])))
       else Inr ('':['' @ uint_to_string index @ '']''))"

definition principal_wire_print_left :: "heap \<Rightarrow> nat \<Rightarrow> string res" where
  "principal_wire_print_left h a =
     deref (cell (principal_wires h) a) (\<lambda>p.
       bnd (node_print h (pw_node p)) (\<lambda>s.
       bnd (node_print_port_info h (pw_node p) (pw_index p)) (\<lambda>t.
         Inr (''('' @ s @ '' '' @ t @ '')''))))"

definition principal_wire_print_right :: "heap \<Rightarrow> nat \<Rightarrow> string res" where
  "principal_wire_print_right h a =
     deref (cell (principal_wires h) a) (\<lambda>p.
       bnd (node_print_port_info h (pw_node p) (pw_index p)) (\<lambda>t.
       bnd (node_print h (pw_node p)) (\<lambda>s.
         Inr (''('' @ t @ '' '' @ s @ '')''))))"

end
