(* ===== verification/Connect.thy ===== *)
theory Connect
  imports Net_Heap
begin

text \<open>
  Connecting two values (\<open>src/src/core/connect.c\<close>, with the tasks of \<open>core/task.c\<close>): the two ends
  of a wire are fuzed, two principal wires become an active pair, and a value that meets the
  principal wire of a primitive node is stored as its argument. \<open>connect\<close> and \<open>fuze\<close> call each
  other; each round trip frees a wire.
\<close>

section \<open>Tasks\<close>

datatype task =
    Task_active_pair nat nat rule
  | Task_primitive nat

section \<open>Active pairs\<close>

text \<open>\<open>wire->node->ctor\<close> of a principal wire.\<close>

definition pw_ctor :: "heap \<Rightarrow> nat \<Rightarrow> nat option res" where
  "pw_ctor h a =
     deref (cell (principal_wires h) a) (\<lambda>p.
       deref (at (nodes h) (pw_node p)) (\<lambda>n. Inr (node_ctor_of n)))"

definition rule_match :: "heap \<Rightarrow> rule \<Rightarrow> nat \<Rightarrow> nat \<Rightarrow> task option res" where
  "rule_match h rule left right =
     bnd (pw_ctor h left) (\<lambda>l. bnd (pw_ctor h right) (\<lambda>r.
       Inr (if Some (left_node_ctor rule) = l \<and> Some (right_node_ctor rule) = r
            then Some (Task_active_pair left right rule)
            else if Some (left_node_ctor rule) = r \<and> Some (right_node_ctor rule) = l
            then Some (Task_active_pair right left rule)
            else None)))"

fun match_rules :: "heap \<Rightarrow> rule list \<Rightarrow> nat \<Rightarrow> nat \<Rightarrow> task option res" where
  "match_rules h [] left right = Inr None"
| "match_rules h (rule # rules) left right =
     bnd (rule_match h rule left right) (\<lambda>task.
       if task \<noteq> None then Inr task else match_rules h rules left right)"

definition pw_rules :: "heap \<Rightarrow> nat \<Rightarrow> rule list res" where
  "pw_rules h a =
     deref (cell (principal_wires h) a) (\<lambda>p.
       bnd (ctor_of_node h (pw_node p)) (\<lambda>c. Inr (rule_array c)))"

definition connect_active_pair :: "nat \<Rightarrow> nat \<Rightarrow> heap \<Rightarrow> (task option \<times> heap) res" where
  "connect_active_pair left right h =
     bnd (set_oppsite left right h) (\<lambda>h.
     bnd (set_oppsite right left h) (\<lambda>h.
     bnd (pw_rules h left) (\<lambda>rules.
     bnd (match_rules h rules left right) (\<lambda>task.
       if task \<noteq> None then Inr (task, h)
       else bnd (pw_rules h right) (\<lambda>rules.
            bnd (match_rules h rules left right) (\<lambda>task. Inr (task, h)))))))"

section \<open>Arguments of primitives\<close>

definition collect_primitive_arg :: "nat \<Rightarrow> val \<Rightarrow> heap \<Rightarrow> (task option \<times> heap) res" where
  "collect_primitive_arg a arg h =
     deref (cell (principal_wires h) a) (\<lambda>p.
     bnd (node_is_primitive h (pw_node p)) (\<lambda>prim. asserting prim (
     bnd (node_set_value (pw_node p) (pw_index p) arg (principal_wire_destroy a h)) (\<lambda>h.
     bnd (node_primitive_arg_count_fetch_add1 (pw_node p) h) (\<lambda>(count, h).
     bnd (node_principal_port_count h (pw_node p)) (\<lambda>ports.
       Inr (if count + 1 = ports then Some (Task_primitive (pw_node p)) else None, h)))))))"

text \<open>The same in two parts, as other threads see it: the argument is stored, then it is counted.\<close>

definition store_primitive_arg :: "nat \<Rightarrow> val \<Rightarrow> heap \<Rightarrow> (nat \<times> heap) res" where
  "store_primitive_arg a arg h =
     deref (cell (principal_wires h) a) (\<lambda>p.
     bnd (node_is_primitive h (pw_node p)) (\<lambda>prim. asserting prim (
     bnd (node_set_value (pw_node p) (pw_index p) arg (principal_wire_destroy a h)) (\<lambda>h.
       Inr (pw_node p, h)))))"

definition count_primitive_arg :: "nat \<Rightarrow> heap \<Rightarrow> (task option \<times> heap) res" where
  "count_primitive_arg n h =
     bnd (node_primitive_arg_count_fetch_add1 n h) (\<lambda>(count, h).
     bnd (node_principal_port_count h n) (\<lambda>ports.
       Inr (if count + 1 = ports then Some (Task_primitive n) else None, h)))"

lemma collect_primitive_arg_parts:
  "collect_primitive_arg a arg h =
     bnd (store_primitive_arg a arg h) (\<lambda>(n, h). count_primitive_arg n h)"
  by (auto simp: collect_primitive_arg_def store_primitive_arg_def count_primitive_arg_def
      deref_def asserting_def bnd_def split: option.splits sum.splits)

section \<open>Connecting\<close>

function (sequential) connect :: "val \<Rightarrow> val \<Rightarrow> heap \<Rightarrow> (task option \<times> heap) res"
  and fuze :: "nat \<Rightarrow> val \<Rightarrow> heap \<Rightarrow> (task option \<times> heap) res" where
  "connect (VWire a) right h = fuze a right h"
| "connect left (VWire b) h = fuze b left h"
| "connect (VPrincipal a) (VPrincipal b) h = connect_active_pair a b h"
| "connect (VPrincipal a) right h = collect_primitive_arg a right h"
| "connect left (VPrincipal b) h = collect_primitive_arg b left h"
| "connect left right h = Inl Assert_failed"
| "fuze a v h =
     deref (cell (wires h) a) (\<lambda>expected_fuzed_value.
       if expected_fuzed_value = VNull then Inr (None, set_fuzed_value a v h)
       else connect expected_fuzed_value v (wire_destroy a h))"
  by pat_completeness auto
termination
  by (relation "measure (case_sum (\<lambda>(x, y, h). 2 * live_cells (wires h) + 1)
      (\<lambda>(a, v, h). 2 * live_cells (wires h)))")
    (auto simp: wire_destroy_def dest: live_cells_free)

declare fuze.simps [simp del]

end
