(* ===== verification/Linearity.thy ===== *)
theory Linearity
  imports Connect
begin

text \<open>
  The invariant of the net: every wire has exactly two ends. An end is a reference to the wire
  from a port of a node, from another wire that was fuzed with it, or from a root (the value
  stack, the variables of the frames, the values an operation holds). Fuzing a wire uses up one
  end, so a fuzed wire is referred to once and an empty one twice; a freed wire is not referred
  to at all. A principal wire is referred to by its own port, and once more until it is paired.
\<close>

section \<open>Counting references\<close>

definition node_refs :: "node list \<Rightarrow> val \<Rightarrow> nat" where
  "node_refs ns v = (\<Sum>n\<leftarrow>ns. count_list (value_array n) v)"

definition refs :: "heap \<Rightarrow> val list \<Rightarrow> val \<Rightarrow> nat" where
  "refs h R v = count_list R v + count_list (wires h) (Some v) + node_refs (nodes h) v"

definition wire_weight :: "val option \<Rightarrow> nat" where
  "wire_weight c = (case c of None \<Rightarrow> 0 | Some v \<Rightarrow> if v = VNull then 2 else 1)"

definition pw_weight :: "principal_wire option \<Rightarrow> nat" where
  "pw_weight c = (case c of None \<Rightarrow> 0 | Some p \<Rightarrow> if pw_oppsite p = None then 2 else 1)"

definition ports_ok :: "node_ctor \<Rightarrow> bool" where
  "ports_ok c \<longleftrightarrow> length (port_infos c) = ctor_arity c \<and> None \<notin> set (port_infos c)"

definition node_ok :: "node_ctor list \<Rightarrow> node \<Rightarrow> bool" where
  "node_ok cs n =
     (case node_ctor_of n of
        None \<Rightarrow> value_array n = []
      | Some c \<Rightarrow> c < length cs \<and> length (value_array n) \<le> ctor_arity (cs ! c))"

definition pw_placed :: "heap \<Rightarrow> nat \<Rightarrow> principal_wire \<Rightarrow> bool" where
  "pw_placed h a p \<longleftrightarrow>
     pw_node p < length (nodes h) \<and>
     slot VNull (value_array (nodes h ! pw_node p)) (pw_index p) = VPrincipal a"

definition linear :: "heap \<Rightarrow> val list \<Rightarrow> bool" where
  "linear h R \<longleftrightarrow>
     (\<forall>a. refs h R (VWire a) = wire_weight (cell (wires h) a)) \<and>
     (\<forall>a. refs h R (VPrincipal a) = pw_weight (cell (principal_wires h) a))"

definition net_ok :: "heap \<Rightarrow> val list \<Rightarrow> bool" where
  "net_ok h R \<longleftrightarrow>
     linear h R \<and>
     (\<forall>c \<in> set (node_ctors h). ports_ok c) \<and>
     (\<forall>n \<in> set (nodes h). node_ok (node_ctors h) n) \<and>
     (\<forall>a p. cell (principal_wires h) a = Some p \<longrightarrow> pw_placed h a p)"

named_theorems net_simps "how the operations on the heap change its fields"

lemma wire_destroy_fields [net_simps, simp]:
  "wires (wire_destroy a h) = (wires h)[a := None]"
  "principal_wires (wire_destroy a h) = principal_wires h"
  "node_ctors (wire_destroy a h) = node_ctors h"
  "nodes (wire_destroy a h) = nodes h"
  by (simp_all add: wire_destroy_def)

lemma set_fuzed_value_fields [net_simps, simp]:
  "wires (set_fuzed_value a v h) = (wires h)[a := Some v]"
  "principal_wires (set_fuzed_value a v h) = principal_wires h"
  "node_ctors (set_fuzed_value a v h) = node_ctors h"
  "nodes (set_fuzed_value a v h) = nodes h"
  by (simp_all add: set_fuzed_value_def)

lemma principal_wire_destroy_fields [net_simps, simp]:
  "wires (principal_wire_destroy a h) = wires h"
  "principal_wires (principal_wire_destroy a h) = (principal_wires h)[a := None]"
  "node_ctors (principal_wire_destroy a h) = node_ctors h"
  "nodes (principal_wire_destroy a h) = nodes h"
  by (simp_all add: principal_wire_destroy_def)

lemma set_node_fields [net_simps, simp]:
  "wires (set_node a n h) = wires h"
  "principal_wires (set_node a n h) = principal_wires h"
  "node_ctors (set_node a n h) = node_ctors h"
  "nodes (set_node a n h) = (nodes h)[a := n]"
  by (simp_all add: set_node_def)

lemma refs_Cons: "refs h (x # R) v = (if x = v then 1 else 0) + refs h R v"
  by (simp add: refs_def)

lemma refs_append: "refs h (R @ S) v = count_list R v + refs h S v"
  by (simp add: refs_def)

lemma refs_root_le: "count_list R v \<le> refs h R v"
  by (simp add: refs_def)

lemma node_refs_update:
  "a < length ns \<Longrightarrow>
     node_refs (ns[a := n]) v + count_list (value_array (ns ! a)) v
       = node_refs ns v + count_list (value_array n) v"
  unfolding node_refs_def by (rule sum_list_update_nat)

lemma node_refs_member: "n \<in> set ns \<Longrightarrow> count_list (value_array n) v \<le> node_refs ns v"
  unfolding node_refs_def by (rule sum_list_member_le)

lemma count_wires_update:
  "cell ws a = Some u \<Longrightarrow>
     count_list (ws[a := c]) (Some v) + (if u = v then 1 else 0)
       = count_list ws (Some v) + (if c = Some v then 1 else 0)"
  using count_list_update_nat [of a ws c "Some v"]
  by (simp add: cell_def split: if_splits)

text \<open>Which roots there are matters only up to the number of times each value occurs.\<close>

lemma net_ok_roots_cong:
  assumes "net_ok h R" and "\<And>v. v \<noteq> VNull \<Longrightarrow> count_list R v = count_list S v"
  shows "net_ok h S"
  using assms by (simp add: net_ok_def linear_def refs_def)

text \<open>A root that is a wire is alive, and nothing refers to freed memory.\<close>

lemma net_ok_live_wire: "net_ok h R \<Longrightarrow> VWire a \<in> set R \<Longrightarrow> cell (wires h) a \<noteq> None"
proof -
  assume ok: "net_ok h R" and a: "VWire a \<in> set R"
  have "count_list R (VWire a) > 0"
    using a by (simp add: count_list_pos)
  then have "0 < wire_weight (cell (wires h) a)"
    using ok refs_root_le [of R "VWire a" h] by (simp add: net_ok_def linear_def)
  then show ?thesis
    by (auto simp: wire_weight_def split: option.splits)
qed

lemma net_ok_live_pw:
  "net_ok h R \<Longrightarrow> VPrincipal a \<in> set R \<Longrightarrow>
     \<exists>p. cell (principal_wires h) a = Some p \<and> pw_oppsite p = None \<and> pw_placed h a p"
proof -
  assume ok: "net_ok h R" and a: "VPrincipal a \<in> set R"
  have r: "refs h R (VPrincipal a) = pw_weight (cell (principal_wires h) a)"
    using ok by (simp add: net_ok_def linear_def)
  have root: "count_list R (VPrincipal a) > 0"
    using a by (simp add: count_list_pos)
  then obtain p where p: "cell (principal_wires h) a = Some p"
    using r refs_root_le [of R "VPrincipal a" h]
    by (cases "cell (principal_wires h) a") (auto simp: pw_weight_def)
  then have placed: "pw_placed h a p"
    using ok by (simp add: net_ok_def)
  then have "nodes h ! pw_node p \<in> set (nodes h)"
    and "VPrincipal a \<in> set (value_array (nodes h ! pw_node p))"
    using slot_mem [of VNull "value_array (nodes h ! pw_node p)" "pw_index p"]
    by (auto simp: pw_placed_def)
  then have "1 \<le> node_refs (nodes h) (VPrincipal a)"
    using node_refs_member [of "nodes h ! pw_node p" "nodes h" "VPrincipal a"]
    by (metis One_nat_def Suc_leI count_list_pos order_trans)
  then have "pw_oppsite p = None"
    using r root p by (auto simp: refs_def pw_weight_def split: if_splits)
  with p placed show ?thesis by blast
qed

section \<open>The steps of the net operations\<close>

text \<open>Passing a fuzed wire frees it and hands its reference to what it was fuzed with.\<close>

lemma net_ok_pass:
  assumes ok: "net_ok h (VWire a # R)" and f: "cell (wires h) a = Some f" "f \<noteq> VNull"
  shows "net_ok (wire_destroy a h) (f # R)"
proof -
  have "refs (wire_destroy a h) (f # R) v + (if VWire a = v then 1 else 0)
      = refs h (VWire a # R) v" for v
    using count_wires_update [OF f(1), of None v] by (auto simp: refs_def)
  note r = this
  have "refs (wire_destroy a h) (f # R) (VWire b)
      = wire_weight (cell (wires (wire_destroy a h)) b)" for b
    using ok r [of "VWire b"] f cell_Some_length [OF f(1)]
    by (auto simp: net_ok_def linear_def wire_weight_def cell_update split: if_splits)
  moreover have "refs (wire_destroy a h) (f # R) (VPrincipal b)
      = pw_weight (cell (principal_wires (wire_destroy a h)) b)" for b
    using ok r [of "VPrincipal b"] by (simp add: net_ok_def linear_def)
  ultimately show ?thesis
    using ok by (simp add: net_ok_def linear_def pw_placed_def)
qed

text \<open>Fuzing an empty wire uses up both roots.\<close>

lemma net_ok_fill:
  assumes ok: "net_ok h (VWire a # v # R)" and a: "cell (wires h) a = Some VNull" and v: "v \<noteq> VNull"
  shows "net_ok (set_fuzed_value a v h) R"
proof -
  have r: "refs (set_fuzed_value a v h) R u + (if VWire a = u then 1 else 0) =
      refs h (VWire a # v # R) u" if "u \<noteq> VNull" for u
    using count_wires_update [OF a, of "Some v" u] that by (auto simp: refs_def)
  have "refs (set_fuzed_value a v h) R (VWire b)
      = wire_weight (cell (wires (set_fuzed_value a v h)) b)" for b
    using ok r [of "VWire b"] v a cell_Some_length [OF a]
    by (auto simp: net_ok_def linear_def wire_weight_def cell_update split: if_splits)
  moreover have "refs (set_fuzed_value a v h) R (VPrincipal b)
      = pw_weight (cell (principal_wires (set_fuzed_value a v h)) b)" for b
    using ok r [of "VPrincipal b"] by (simp add: net_ok_def linear_def)
  ultimately show ?thesis
    using ok by (simp add: net_ok_def linear_def pw_placed_def)
qed

definition pair_principal_wires :: "nat \<Rightarrow> nat \<Rightarrow> heap \<Rightarrow> heap res" where
  "pair_principal_wires a b h = bnd (set_oppsite a b h) (set_oppsite b a)"

lemma net_ok_root_distinct:
  "net_ok h (VPrincipal a # VPrincipal b # R) \<Longrightarrow> a \<noteq> b"
proof
  assume ok: "net_ok h (VPrincipal a # VPrincipal b # R)" and ab: "a = b"
  obtain p where p: "cell (principal_wires h) a = Some p" "pw_placed h a p"
    using net_ok_live_pw [OF ok, of a] by auto
  then have "nodes h ! pw_node p \<in> set (nodes h)"
    and "VPrincipal a \<in> set (value_array (nodes h ! pw_node p))"
    using slot_mem [of VNull "value_array (nodes h ! pw_node p)" "pw_index p"]
    by (auto simp: pw_placed_def)
  then have "1 \<le> node_refs (nodes h) (VPrincipal a)"
    using node_refs_member [of "nodes h ! pw_node p" "nodes h" "VPrincipal a"]
    by (metis One_nat_def Suc_leI count_list_pos order_trans)
  moreover have "refs h (VPrincipal a # VPrincipal b # R) (VPrincipal a) \<le> 2"
    using ok p by (simp add: net_ok_def linear_def pw_weight_def)
  ultimately show False
    using ab by (simp add: refs_def)
qed

lemma net_ok_pair:
  assumes ok: "net_ok h (VPrincipal a # VPrincipal b # R)"
  shows "\<exists>h'. pair_principal_wires a b h = Inr h' \<and> net_ok h' R \<and>
    wires h' = wires h \<and> nodes h' = nodes h \<and> node_ctors h' = node_ctors h \<and>
    (\<forall>c. cell (principal_wires h') c =
       (if c = a then map_option (pw_oppsite_update (\<lambda>_. Some b)) (cell (principal_wires h) a)
        else if c = b then map_option (pw_oppsite_update (\<lambda>_. Some a)) (cell (principal_wires h) b)
        else cell (principal_wires h) c))"
proof -
  have ab: "a \<noteq> b"
    using ok by (rule net_ok_root_distinct)
  obtain p q where p: "cell (principal_wires h) a = Some p" "pw_oppsite p = None" "pw_placed h a p"
    and q: "cell (principal_wires h) b = Some q" "pw_oppsite q = None" "pw_placed h b q"
    using net_ok_live_pw [OF ok, of a] net_ok_live_pw [OF ok, of b] by auto
  define ps where "ps = (principal_wires h)[a := Some (p\<lparr>pw_oppsite := Some b\<rparr>),
    b := Some (q\<lparr>pw_oppsite := Some a\<rparr>)]"
  define h' where "h' = h\<lparr>principal_wires := ps\<rparr>"
  have len: "a < length (principal_wires h)" "b < length (principal_wires h)"
    using p q by (auto dest: cell_Some_length)
  have res: "pair_principal_wires a b h = Inr h'"
    using p q ab len
    by (simp add: pair_principal_wires_def set_oppsite_def cell_update h'_def ps_def)
  have r: "refs h' R v + (if VPrincipal a = v then 1 else 0) + (if VPrincipal b = v then 1 else 0)
      = refs h (VPrincipal a # VPrincipal b # R) v" for v
    by (simp add: refs_def h'_def)
  have c: "cell (principal_wires h') c =
       (if c = a then Some (p\<lparr>pw_oppsite := Some b\<rparr>)
        else if c = b then Some (q\<lparr>pw_oppsite := Some a\<rparr>)
        else cell (principal_wires h) c)" for c
    using ab len by (auto simp: h'_def ps_def cell_update)
  have "refs h' R (VWire x) = wire_weight (cell (wires h') x)" for x
    using ok r [of "VWire x"] by (simp add: net_ok_def linear_def h'_def)
  moreover have "refs h' R (VPrincipal x) = pw_weight (cell (principal_wires h') x)" for x
  proof -
    have "refs h (VPrincipal a # VPrincipal b # R) (VPrincipal x)
        = pw_weight (cell (principal_wires h) x)"
      using ok by (simp add: net_ok_def linear_def)
    then show ?thesis
      using r [of "VPrincipal x"] c [of x] p q ab by (auto simp: pw_weight_def split: if_splits)
  qed
  moreover have "pw_placed h' x p'" if "cell (principal_wires h') x = Some p'" for x p'
    using that ok p q c [of x]
    by (auto simp: net_ok_def pw_placed_def h'_def split: if_splits)
  ultimately have "net_ok h' R"
    using ok by (simp add: net_ok_def linear_def h'_def)
  with res c p q show ?thesis
    by (intro exI [of _ h']) (auto simp: h'_def)
qed

section \<open>Connecting keeps the net linear\<close>

text \<open>
  What connecting does not change: the constructors, which node has which constructor, and
  which ports of a node are still empty.
\<close>

definition node_shape :: "node \<Rightarrow> nat option \<times> nat \<times> bool \<times> bool list" where
  "node_shape n = (node_ctor_of n, node_id n, is_allocated n, map (\<lambda>v. v = VNull) (value_array n))"

definition same_shape :: "heap \<Rightarrow> heap \<Rightarrow> bool" where
  "same_shape h h' \<longleftrightarrow>
     node_ctors h' = node_ctors h \<and>
     map node_shape (nodes h') =
     map node_shape (nodes h)"

lemma same_shape_refl [simp]: "same_shape h h"
  by (simp add: same_shape_def)

lemma same_shape_trans: "same_shape h h' \<Longrightarrow> same_shape h' h'' \<Longrightarrow> same_shape h h''"
  by (simp add: same_shape_def)

lemma pw_node_ctor:
  assumes ok: "net_ok h R" and p: "pw_placed h a p"
  shows "\<exists>c. ctor_of_node h (pw_node p) = Inr c \<and> ports_ok c \<and>
    pw_index p < length (value_array (nodes h ! pw_node p)) \<and>
    node_ctor_of (nodes h ! pw_node p) \<noteq> None"
proof -
  let ?n = "nodes h ! pw_node p"
  have n: "pw_node p < length (nodes h)" and i: "pw_index p < length (value_array ?n)"
    using p by (auto simp: pw_placed_def slot_def split: if_splits)
  have "node_ok (node_ctors h) ?n"
    using ok n by (simp add: net_ok_def)
  then obtain c where c: "node_ctor_of ?n = Some c" "c < length (node_ctors h)"
    using i by (auto simp: node_ok_def split: option.splits)
  then have "ports_ok (node_ctors h ! c)"
    using ok by (simp add: net_ok_def)
  with c n i show ?thesis
    by (simp add: ctor_of_node_def at_def)
qed

lemma principal_port_count_loop_Inr:
  "None \<notin> set ps \<Longrightarrow> \<exists>k. principal_port_count_loop ps count = Inr k"
proof (induction ps arbitrary: count)
  case (Cons p ps)
  then show ?case by (cases p) auto
qed simp

lemma map_null_slot_set:
  "slot d xs i \<noteq> d \<Longrightarrow> v \<noteq> d \<Longrightarrow> map (\<lambda>v. v = d) (slot_set d xs i v) = map (\<lambda>v. v = d) xs"
  by (rule nth_equalityI) (auto simp: slot_set_def slot_def nth_list_update split: if_splits)

lemma same_shape_set_node:
  assumes "a < length (nodes h)" and "node_shape n' = node_shape (nodes h ! a)"
  shows "same_shape h (set_node a n' h)"
  using assms unfolding same_shape_def
  by (auto intro!: nth_equalityI simp: nth_list_update)

lemma safely_match_rules:
  assumes "pw_ctor h left = Inr l" and "pw_ctor h right = Inr r"
  shows "safely (\<lambda>_. True) (match_rules h rules left right)"
  using assms by (induction rules) (auto simp: rule_match_def)

lemma net_ok_connect_active_pair:
  assumes ok: "net_ok h (VPrincipal a # VPrincipal b # R)"
  shows "safely (\<lambda>(t, h'). net_ok h' R \<and> same_shape h h') (connect_active_pair a b h)"
proof -
  obtain p q where p: "cell (principal_wires h) a = Some p" "pw_placed h a p"
    and q: "cell (principal_wires h) b = Some q" "pw_placed h b q"
    using net_ok_live_pw [OF ok, of a] net_ok_live_pw [OF ok, of b] by auto
  obtain cp cq where cp: "ctor_of_node h (pw_node p) = Inr cp"
    and cq: "ctor_of_node h (pw_node q) = Inr cq"
    using pw_node_ctor [OF ok p(2)] pw_node_ctor [OF ok q(2)] by auto
  obtain h' where h': "pair_principal_wires a b h = Inr h'" "net_ok h' R"
    and same: "nodes h' = nodes h" "node_ctors h' = node_ctors h"
    and pw: "\<And>c. cell (principal_wires h') c =
       (if c = a then map_option (pw_oppsite_update (\<lambda>_. Some b)) (cell (principal_wires h) a)
        else if c = b then map_option (pw_oppsite_update (\<lambda>_. Some a)) (cell (principal_wires h) b)
        else cell (principal_wires h) c)"
    using net_ok_pair [OF ok] by blast
  have ctors: "ctor_of_node h' n = ctor_of_node h n" for n
    by (simp add: ctor_of_node_def same)
  have cells: "cell (principal_wires h') a = Some (p\<lparr>pw_oppsite := Some b\<rparr>)"
    "cell (principal_wires h') b = Some (q\<lparr>pw_oppsite := Some a\<rparr>)"
    using p q pw [of a] pw [of b] net_ok_root_distinct [OF ok] by simp_all
  have rules: "pw_rules h' a = Inr (rule_array cp)" "pw_rules h' b = Inr (rule_array cq)"
    using cp cq cells ctors by (simp_all add: pw_rules_def)
  obtain l r where lr: "pw_ctor h' a = Inr l" "pw_ctor h' b = Inr r"
    using p q cells same by (simp add: pw_ctor_def pw_placed_def at_def)
  have shape: "same_shape h h'"
    by (simp add: same_shape_def same)
  have two: "bnd (set_oppsite a b h) (\<lambda>h. bnd (set_oppsite b a h) f) = f h'" for f :: "heap \<Rightarrow> (task option \<times> heap) res"
    using h'(1) by (simp add: pair_principal_wires_def flip: bnd_assoc)
  show ?thesis
    unfolding connect_active_pair_def two
    using safely_match_rules [OF lr] h'(2) shape
    by (auto simp: rules intro!: safely_bnd [where P = "\<lambda>_. True"])
qed

text \<open>Storing an argument swaps the principal wire of the port for the value.\<close>

lemma net_ok_store_arg:
  assumes ok: "net_ok h (VPrincipal a # v # R)" and v: "v \<noteq> VNull"
  shows "safely (\<lambda>(n, h'). net_ok h' R \<and> same_shape h h' \<and>
      n < length (nodes h') \<and> node_ctor_of (nodes h' ! n) \<noteq> None) (store_primitive_arg a v h)"
proof -
  obtain p where p: "cell (principal_wires h) a = Some p" "pw_oppsite p = None" "pw_placed h a p"
    using net_ok_live_pw [OF ok, of a] by auto
  obtain c where c: "ctor_of_node h (pw_node p) = Inr c" "ports_ok c"
    and i: "pw_index p < length (value_array (nodes h ! pw_node p))"
    and co: "node_ctor_of (nodes h ! pw_node p) \<noteq> None"
    using pw_node_ctor [OF ok p(3)] by blast
  define n where "n = nodes h ! pw_node p"
  have len: "pw_node p < length (nodes h)" and old: "slot VNull (value_array n) (pw_index p) = VPrincipal a"
    using p by (simp_all add: pw_placed_def n_def)
  define n' where "n' = n\<lparr>value_array := slot_set VNull (value_array n) (pw_index p) v\<rparr>"
  define h' where "h' = set_node (pw_node p) n' (principal_wire_destroy a h)"
  have "same_shape (principal_wire_destroy a h) h'"
    unfolding h'_def using len old v
    by (intro same_shape_set_node) (simp_all add: n'_def n_def node_shape_def map_null_slot_set)
  then have shape: "same_shape h h'"
    by (simp add: same_shape_def)
  have run: "store_primitive_arg a v h =
      (if ctor_primitive c \<noteq> None then Inr (pw_node p, h') else Inl Assert_failed)"
    using p c len co
    by (simp add: store_primitive_arg_def node_is_primitive_def node_set_value_def at_def
      asserting_def h'_def n'_def n_def)
  have r: "refs h' R u + (if VPrincipal a = u then 2 else 0) = refs h (VPrincipal a # v # R) u"
    if "u \<noteq> VNull" for u
  proof -
    have "node_refs (nodes h') u + count_list (value_array n) u
        = node_refs (nodes h) u + count_list (value_array n') u"
      using node_refs_update [OF len, of n' u] by (simp add: h'_def n_def)
    moreover have "count_list (value_array n') u + (if VPrincipal a = u then 1 else 0)
        = count_list (value_array n) u + (if v = u then 1 else 0)"
      using count_list_slot_set [OF that, of "value_array n" "pw_index p" v] old by (simp add: n'_def)
    ultimately show ?thesis
      by (auto simp: refs_def h'_def)
  qed
  have la: "a < length (principal_wires h)"
    using p(1) by (rule cell_Some_length)
  have "refs h' R (VWire x) = wire_weight (cell (wires h') x)" for x
    using ok r [of "VWire x"] by (simp add: net_ok_def linear_def h'_def)
  moreover have "refs h' R (VPrincipal x) = pw_weight (cell (principal_wires h') x)" for x
    using ok r [of "VPrincipal x"] p la
    by (auto simp: net_ok_def linear_def h'_def cell_update pw_weight_def split: if_splits)
  moreover have "pw_placed h' x q" if q: "cell (principal_wires h') x = Some q" for x q
  proof -
    have xa: "x \<noteq> a" and q: "cell (principal_wires h) x = Some q"
      using q la by (auto simp: h'_def cell_update split: if_splits)
    then have "pw_placed h x q"
      using ok by (simp add: net_ok_def)
    with xa old len show ?thesis
      by (cases "pw_node q = pw_node p")
        (auto simp: pw_placed_def h'_def n'_def slot_slot_set nth_list_update n_def)
  qed
  moreover have "node_ok (node_ctors h') m" if "m \<in> set (nodes h')" for m
  proof -
    have "m = n' \<or> m \<in> set (nodes h)"
      using that set_update_subset_insert [of "nodes h" "pw_node p" n'] by (auto simp: h'_def)
    moreover have "node_ok (node_ctors h) n"
      using ok len by (simp add: net_ok_def n_def)
    then have "node_ok (node_ctors h) n'"
      using i by (simp add: node_ok_def n'_def n_def max_absorb1 split: option.splits)
    ultimately show ?thesis
      using ok by (auto simp: net_ok_def h'_def)
  qed
  ultimately have "net_ok h' R"
    using ok by (simp add: net_ok_def linear_def h'_def)
  with shape show ?thesis
    using len co by (simp add: run h'_def n'_def n_def)
qed

lemma net_ok_count:
  assumes ok: "net_ok h R" and n: "n < length (nodes h)" "node_ctor_of (nodes h ! n) \<noteq> None"
  shows "safely (\<lambda>(t, h'). net_ok h' R \<and> same_shape h h') (count_primitive_arg n h)"
proof -
  define m where "m = nodes h ! n"
  have mem: "m \<in> set (nodes h)"
    using n by (simp add: m_def)
  then have m: "node_ok (node_ctors h) m"
    using ok by (simp add: net_ok_def)
  with n obtain c where c: "node_ctor_of m = Some c" "c < length (node_ctors h)"
    by (auto simp: node_ok_def m_def split: option.splits)
  with ok have "ports_ok (node_ctors h ! c)"
    by (simp add: net_ok_def)
  then obtain k where k: "node_ctor_principal_port_count (node_ctors h ! c) = Inr k"
    using principal_port_count_loop_Inr [of "port_infos (node_ctors h ! c)" 0]
    by (auto simp: ports_ok_def node_ctor_principal_port_count_def)
  define m' where "m' = m\<lparr>primitive_arg_count := Suc (primitive_arg_count m)\<rparr>"
  define h' where "h' = set_node n m' h"
  have run: "count_primitive_arg n h =
      Inr (if Suc (primitive_arg_count m) = k then Some (Task_primitive n) else None, h')"
    using n c k
    by (simp add: count_primitive_arg_def node_primitive_arg_count_fetch_add1_def at_def
      node_principal_port_count_def ctor_of_node_def asserting_def h'_def m'_def m_def)
  have "node_refs (nodes h') u = node_refs (nodes h) u" for u
    using node_refs_update [OF n(1), of m' u] by (simp add: h'_def m_def m'_def)
  then have "refs h' R u = refs h R u" for u
    by (simp add: refs_def h'_def)
  moreover have "pw_placed h' x q" if "pw_placed h x q" for x q
    using that n by (cases "pw_node q = n") (auto simp: pw_placed_def h'_def m'_def m_def)
  moreover have "node_ok (node_ctors h) m'"
    using m by (simp add: node_ok_def m'_def split: option.splits)
  moreover have "set (nodes h') \<subseteq> insert m' (set (nodes h))"
    using set_update_subset_insert by (simp add: h'_def)
  ultimately have "net_ok h' R"
    using ok by (auto simp: net_ok_def linear_def h'_def)
  moreover have "same_shape h h'"
    unfolding h'_def using n
    by (intro same_shape_set_node) (simp_all add: m'_def m_def node_shape_def)
  ultimately show ?thesis
    by (simp add: run)
qed

lemma net_ok_collect:
  assumes "net_ok h (VPrincipal a # v # R)" and "v \<noteq> VNull"
  shows "safely (\<lambda>(t, h'). net_ok h' R \<and> same_shape h h') (collect_primitive_arg a v h)"
  unfolding collect_primitive_arg_parts
  by (rule safely_bnd [OF net_ok_store_arg [OF assms]])
    (auto intro: safely_mono [OF net_ok_count] same_shape_trans)

lemma net_ok_swap: "net_ok h (x # y # R) \<Longrightarrow> net_ok h (y # x # R)"
  by (rule net_ok_roots_cong) auto

lemma net_ok_connect_fuze:
  "net_ok h (x # y # R) \<Longrightarrow> x \<noteq> VNull \<Longrightarrow> y \<noteq> VNull \<Longrightarrow>
     safely (\<lambda>(t, h'). net_ok h' R \<and> same_shape h h') (connect x y h)"
  "net_ok h (VWire a # v # R) \<Longrightarrow> v \<noteq> VNull \<Longrightarrow>
     safely (\<lambda>(t, h'). net_ok h' R \<and> same_shape h h') (fuze a v h)"
proof (induction x y h and a v h rule: connect_fuze.induct)
  case (7 a v h)
  obtain f where f: "cell (wires h) a = Some f"
    using net_ok_live_wire [OF 7(2), of a] by auto
  show ?case
  proof (cases "f = VNull")
    case True
    then show ?thesis
      using net_ok_fill [OF 7(2) _ 7(3)] f by (simp add: fuze.simps same_shape_def)
  next
    case False
    have "net_ok (wire_destroy a h) (f # v # R)"
      using net_ok_pass [OF 7(2) f False] .
    moreover have "same_shape h (wire_destroy a h)"
      by (simp add: same_shape_def)
    ultimately have "safely (\<lambda>(t, h'). net_ok h' R \<and> same_shape (wire_destroy a h) h')
        (connect f v (wire_destroy a h))"
      using 7(1) [OF f False] False 7(3) by simp
    then show ?thesis
      using f False by (simp add: fuze.simps same_shape_def)
  qed
qed (simp_all add: net_ok_connect_active_pair net_ok_collect net_ok_swap)

section \<open>Following fuzed wires\<close>

lemma defuze_simps:
  "defuze h (VWire a) =
     deref (cell (wires h) a) (\<lambda>f. if f = VNull then Inr (VWire a, h) else defuze (wire_destroy a h) f)"
  "\<not> is_wire v \<Longrightarrow> defuze h v = Inr (v, h)"
  by (subst defuze.simps, auto simp: is_wire_def split: val.splits)+

lemma walk_simps:
  "walk h (VWire a) =
     (case cell (wires h) a of
        None \<Rightarrow> Some (Inl Undefined)
      | Some f \<Rightarrow> if f = VNull then Some (Inr (VWire a)) else walk h f)"
  "\<not> is_wire v \<Longrightarrow> walk h v = Some (Inr v)"
  by (subst walk.simps, auto simp: is_wire_def split: val.splits)+

lemma defuze_code [code]:
  "defuze h VNull = Inr (VNull, h)" "defuze h (VImm w) = Inr (VImm w, h)"
  "defuze h (VWire a) =
     deref (cell (wires h) a) (\<lambda>f. if f = VNull then Inr (VWire a, h) else defuze (wire_destroy a h) f)"
  "defuze h (VPrincipal a) = Inr (VPrincipal a, h)" "defuze h (VCtor a) = Inr (VCtor a, h)"
  "defuze h (VFunction a) = Inr (VFunction a, h)" "defuze h (VPrimitive a) = Inr (VPrimitive a, h)"
  by (simp_all add: defuze_simps is_wire_def)

text \<open>A walk only sees more when more wires are alive.\<close>

lemma walk_mono:
  assumes "walk h v = Some (Inr u)"
    and "\<And>a f. cell (wires h) a = Some f \<Longrightarrow> cell (wires h') a = Some f"
  shows "walk h' v = Some (Inr u)"
proof -
  define P where "P k x r \<longleftrightarrow>
    (\<forall>a f. cell (wires k) a = Some f \<longrightarrow> cell (wires h') a = Some f) \<longrightarrow>
    r = Inr u \<longrightarrow> walk h' x = Some (Inr u)" for k :: heap and x and r :: "val res"
  have "P h v (Inr u)"
  proof (rule walk.raw_induct [of P h v "Inr u", OF _ assms(1)])
    fix w k x r
    assume IH: "\<And>k x r. w k x = Some r \<Longrightarrow> P k x r"
      and run: "(case x of
          VWire a \<Rightarrow>
            (case cell (wires k) a of
               None \<Rightarrow> Some (Inl Undefined)
             | Some f \<Rightarrow> (if f = VNull then Some (Inr x) else w k f))
        | _ \<Rightarrow> Some (Inr x)) = Some r"
    show "P k x r"
      using run IH
      by (cases x) (auto simp: P_def walk_simps is_wire_def split: option.splits if_splits)
  qed
  with assms(2) show ?thesis by (simp add: P_def)
qed

text \<open>
  \<open>defuze\<close> returns what \<open>walk\<close> returns and only frees wires. It never runs for ever, and where
  it would visit a wire twice it reads freed memory.
\<close>

lemma defuze_walk:
  "defuze h v = Inr (u, h') \<Longrightarrow>
     walk h v = Some (Inr u) \<and>
     (\<forall>a f. cell (wires h') a = Some f \<longrightarrow> cell (wires h) a = Some f)"
proof (induction h v rule: defuze.induct)
  case (1 h v)
  show ?case
  proof (cases v)
    case (VWire a)
    then obtain f where f: "cell (wires h) a = Some f"
      and r: "(if f = VNull then Inr (VWire a, h) else defuze (wire_destroy a h) f) = Inr (u, h')"
      using 1(2) by (auto simp: defuze_simps deref_eq_Inr)
    show ?thesis
    proof (cases "f = VNull")
      case True
      then have "u = VWire a" "h' = h"
        using r by simp_all
      then show ?thesis
        using VWire f True by (simp add: walk_simps)
    next
      case False
      have sub: "\<And>b g. cell (wires (wire_destroy a h)) b = Some g \<Longrightarrow> cell (wires h) b = Some g"
        by (auto simp: cell_update split: if_splits)
      have "walk (wire_destroy a h) f = Some (Inr u) \<and>
          (\<forall>b g. cell (wires h') b = Some g \<longrightarrow> cell (wires (wire_destroy a h)) b = Some g)"
        using 1(1) [OF VWire f False] r False by simp
      moreover from this have "walk h f = Some (Inr u)"
        using walk_mono [OF _ sub] by blast
      ultimately show ?thesis
        using sub VWire f False by (simp add: walk_simps)
    qed
  qed (use 1(2) in \<open>auto simp: defuze_simps walk_simps is_wire_def\<close>)
qed

text \<open>Whether a value is at the end of its wire.\<close>

definition is_end :: "heap \<Rightarrow> val \<Rightarrow> bool" where
  "is_end h v = (case v of VWire a \<Rightarrow> cell (wires h) a = Some VNull | _ \<Rightarrow> True)"

lemma net_ok_defuze:
  "net_ok h (v # R) \<Longrightarrow> v \<noteq> VNull \<Longrightarrow>
     \<exists>u h'. defuze h v = Inr (u, h') \<and> net_ok h' (u # R) \<and> is_end h' u \<and> u \<noteq> VNull \<and>
       same_shape h h' \<and> principal_wires h' = principal_wires h"
proof (induction h v rule: defuze.induct)
  case (1 h v)
  show ?case
  proof (cases v)
    case (VWire a)
    then obtain f where f: "cell (wires h) a = Some f"
      using net_ok_live_wire [OF 1(2), of a] by auto
    show ?thesis
    proof (cases "f = VNull")
      case True
      then show ?thesis
        using 1(2) VWire f by (simp add: defuze_simps is_end_def)
    next
      case False
      have "net_ok (wire_destroy a h) (f # R)"
        using 1(2) net_ok_pass f False VWire by simp
      from 1(1) [OF VWire f False this False] show ?thesis
        using VWire f False by (simp add: defuze_simps same_shape_def)
    qed
  qed (use 1(2,3) in \<open>simp_all add: defuze_simps is_wire_def is_end_def\<close>)
qed

lemma net_ok_walk:
  assumes "net_ok h R" and "v \<in> set R" and "v \<noteq> VNull"
  shows "\<exists>u. walk h v = Some (Inr u) \<and> is_end h u"
proof -
  obtain R' where "net_ok h (v # R')"
    using net_ok_roots_cong [OF assms(1) count_list_remove1 [OF assms(2), symmetric]] by blast
  from net_ok_defuze [OF this assms(3)] obtain u h' where
    d: "defuze h v = Inr (u, h')" and e: "is_end h' u" by blast
  from defuze_walk [OF d] e show ?thesis
    by (auto simp: is_end_def split: val.splits)
qed

end
