(* ===== verification/Allocator.thy ===== *)
theory Allocator
  imports Prelude
begin

text \<open>
  The two-level free list (\<open>src/src/packages/std/allocator/allocator.c\<close>): a shared stack behind a
  mutex, and the stack of one worker, which is refilled from the shared stack when it is empty
  and spilled to it when it holds twice the cache size. Stacks are lists with the top first.
\<close>

record 'a allocator =
  alloc_stack :: "'a list"
  cache_size :: nat

definition allocator_new :: "nat \<Rightarrow> 'a allocator" where
  "allocator_new cache = \<lparr>alloc_stack = [], cache_size = cache\<rparr>"

fun refill :: "nat \<Rightarrow> 'a list \<Rightarrow> 'a list \<Rightarrow> 'a list \<times> 'a list" where
  "refill 0 shared stack = (shared, stack)"
| "refill (Suc n) [] stack = ([], stack)"
| "refill (Suc n) (v # shared) stack = refill n shared (v # stack)"

definition allocator_maybe_allocate ::
    "'a allocator \<Rightarrow> 'a list \<Rightarrow> 'a option \<times> 'a allocator \<times> 'a list" where
  "allocator_maybe_allocate self stack =
     (let (shared, stack) =
        (if stack = [] then refill (cache_size self) (alloc_stack self) stack
         else (alloc_stack self, stack));
        self = self\<lparr>alloc_stack := shared\<rparr>
      in case stack of
           [] \<Rightarrow> (None, self, [])
         | v # stack \<Rightarrow> (Some v, self, stack))"

definition allocator_allocate :: "'a allocator \<Rightarrow> 'a list \<Rightarrow> ('a \<times> 'a allocator \<times> 'a list) res" where
  "allocator_allocate self stack =
     (case allocator_maybe_allocate self stack of
        (None, _) \<Rightarrow> Inl Exit_failure
      | (Some v, self, stack) \<Rightarrow> Inr (v, self, stack))"

fun spill :: "nat \<Rightarrow> 'a list \<Rightarrow> 'a list \<Rightarrow> ('a list \<times> 'a list) res" where
  "spill 0 shared stack = Inr (shared, stack)"
| "spill (Suc n) shared [] = Inl Assert_failed"
| "spill (Suc n) shared (v # stack) = spill n (v # shared) stack"

definition allocator_free :: "'a allocator \<Rightarrow> 'a list \<Rightarrow> 'a \<Rightarrow> ('a allocator \<times> 'a list) res" where
  "allocator_free self stack v =
     bnd (if length stack \<ge> 2 * cache_size self
          then spill (cache_size self) (alloc_stack self) stack
          else Inr (alloc_stack self, stack))
       (\<lambda>(shared, stack). Inr (self\<lparr>alloc_stack := shared\<rparr>, v # stack))"

definition allocator_recycle ::
    "'a allocator \<Rightarrow> 'a list \<Rightarrow> 'a option \<Rightarrow> ('a allocator \<times> 'a list) res" where
  "allocator_recycle self stack v =
     (case v of None \<Rightarrow> Inr (self, stack) | Some v \<Rightarrow> allocator_free self stack v)"

section \<open>Nothing is lost or handed out twice\<close>

definition free_values :: "'a allocator \<Rightarrow> 'a list \<Rightarrow> 'a list" where
  "free_values self stack = alloc_stack self @ stack"

lemma refill_set: "refill n shared stack = (s, t) \<Longrightarrow> set s \<union> set t = set shared \<union> set stack"
  by (induction n shared stack rule: refill.induct) auto

lemma refill_distinct:
  "refill n shared stack = (s, t) \<Longrightarrow> distinct (shared @ stack) \<Longrightarrow> distinct (s @ t)"
  by (induction n shared stack rule: refill.induct) auto

lemma refill_nonempty: "n > 0 \<Longrightarrow> shared \<noteq> [] \<Longrightarrow> snd (refill n shared stack) \<noteq> []"
proof (induction n shared stack rule: refill.induct)
  case (3 n v shared stack)
  have "snd (refill m s (w # t)) \<noteq> []" for m and s t :: "'a list" and w
    by (induction m s "w # t" arbitrary: w t rule: refill.induct) auto
  then show ?case by simp
qed auto

lemma spill_Inr: "n \<le> length stack \<Longrightarrow> \<exists>s t. spill n shared stack = Inr (s, t)"
proof (induction n shared stack rule: spill.induct)
  case (3 n shared v stack)
  then show ?case by simp
qed auto

lemma spill_set: "spill n shared stack = Inr (s, t) \<Longrightarrow> set s \<union> set t = set shared \<union> set stack"
  by (induction n shared stack rule: spill.induct) auto

lemma spill_distinct:
  "spill n shared stack = Inr (s, t) \<Longrightarrow> distinct (shared @ stack) \<Longrightarrow> distinct (s @ t)"
  by (induction n shared stack rule: spill.induct) auto

lemma allocator_maybe_allocate_Cons [simp]:
  "allocator_maybe_allocate self (v # stack) = (Some v, self, stack)"
  by (simp add: allocator_maybe_allocate_def)

lemma allocator_maybe_allocate_Nil:
  "refill (cache_size self) (alloc_stack self) [] = (s, t) \<Longrightarrow>
     allocator_maybe_allocate self [] =
       (case t of [] \<Rightarrow> (None, self\<lparr>alloc_stack := s\<rparr>, [])
        | v # t \<Rightarrow> (Some v, self\<lparr>alloc_stack := s\<rparr>, t))"
  by (simp add: allocator_maybe_allocate_def Let_def)

lemma allocator_maybe_allocate_Some:
  assumes "allocator_maybe_allocate self stack = (Some v, self', stack')"
    and "distinct (free_values self stack)"
  shows "v \<in> set (free_values self stack) \<and> distinct (v # free_values self' stack') \<and>
    set (v # free_values self' stack') = set (free_values self stack) \<and>
    cache_size self' = cache_size self"
proof (cases stack)
  case Nil
  obtain s t where st: "refill (cache_size self) (alloc_stack self) [] = (s, t)"
    by fastforce
  with assms(1) Nil have "t = v # stack'" "self' = self\<lparr>alloc_stack := s\<rparr>"
    by (auto simp: allocator_maybe_allocate_Nil split: list.splits)
  with refill_set [OF st] refill_distinct [OF st] assms(2) Nil show ?thesis
    by (auto simp: free_values_def)
next
  case (Cons w ws)
  with assms show ?thesis
    by (auto simp: free_values_def)
qed

lemma allocator_maybe_allocate_None:
  assumes "allocator_maybe_allocate self stack = (None, self', stack')" and "cache_size self > 0"
  shows "free_values self stack = [] \<and> self' = self \<and> stack' = []"
proof -
  obtain s t where st: "refill (cache_size self) (alloc_stack self) [] = (s, t)"
    by fastforce
  have "stack = []"
    using assms(1) by (cases stack) auto
  then have t: "t = []" "self' = self\<lparr>alloc_stack := s\<rparr>" "stack' = []"
    using assms(1) st by (auto simp: allocator_maybe_allocate_Nil split: list.splits)
  then have "alloc_stack self = []"
    using refill_nonempty [OF assms(2), of "alloc_stack self" "[]"] st by auto
  with \<open>stack = []\<close> t st assms(2) show ?thesis
    by (cases "cache_size self") (auto simp: free_values_def)
qed

lemma allocator_free_Inr:
  assumes "v \<notin> set (free_values self stack)" and "distinct (free_values self stack)"
  shows "\<exists>self' stack'. allocator_free self stack v = Inr (self', stack') \<and>
    distinct (free_values self' stack') \<and>
    set (free_values self' stack') = insert v (set (free_values self stack)) \<and>
    cache_size self' = cache_size self"
proof (cases "length stack \<ge> 2 * cache_size self")
  case True
  then obtain s t where st: "spill (cache_size self) (alloc_stack self) stack = Inr (s, t)"
    using spill_Inr [of "cache_size self" stack "alloc_stack self"] by auto
  with spill_set [OF st] spill_distinct [OF st] assms True show ?thesis
    by (auto simp: allocator_free_def free_values_def)
next
  case False
  with assms show ?thesis
    by (auto simp: allocator_free_def free_values_def)
qed

end
