(* ===== verification/Worker.thy ===== *)
theory Worker
  imports Connect Allocator
begin

text \<open>
  The interpreter (\<open>src/src/core\<close>): functions and their frames, primitives, and the worker that
  applies values, runs frames and handles tasks. The state of one worker together with what it
  shares (the net, the allocator of nodes, the module) is the record \<open>machine\<close>; each operation
  takes it last and returns it updated. Stacks are lists with the top first. A frame is kept by
  value in the return stack, since only the running one is modified; \<open>function_objects\<close> are addressed
  because the frames refer to them and one is freed.

  The locks (\<open>node_lock\<close>, \<open>task_queue_front_lock\<close>, the allocator's mutex) are taken and released
  within one operation and have no state here; the workers' interleaving is another theory's.
\<close>

section \<open>Functions and frames\<close>

datatype opcode =
    Op_apply nat
  | Op_literal val
  | Op_get_variable nat
  | Op_set_variable nat

record function_t =
  function_name :: "string option"
  function_arity :: nat
  local_index_hash :: "string \<rightharpoonup> nat"
  local_index_length :: nat
  opcode_array :: "opcode list"

definition function_new :: "nat \<Rightarrow> function_t" where
  "function_new arity = \<lparr>function_name = None, function_arity = arity,
     local_index_hash = Map.empty, local_index_length = 0, opcode_array = []\<rparr>"

definition function_length :: "function_t \<Rightarrow> nat" where
  "function_length self = length (opcode_array self)"

definition function_add_opcode :: "function_t \<Rightarrow> opcode \<Rightarrow> function_t" where
  "function_add_opcode self op = self\<lparr>opcode_array := opcode_array self @ [op]\<rparr>"

definition function_get_opcode :: "function_t \<Rightarrow> nat \<Rightarrow> opcode option" where
  "function_get_opcode self index = at (opcode_array self) index"

record frame =
  frame_cursor :: nat
  frame_function :: nat
  variable_array :: "val list"

definition frame_new :: "nat \<Rightarrow> frame" where
  "frame_new f = \<lparr>frame_cursor = 0, frame_function = f, variable_array = []\<rparr>"

definition frame_is_finished :: "function_t option list \<Rightarrow> frame \<Rightarrow> bool res" where
  "frame_is_finished fs self =
     deref (cell fs (frame_function self)) (\<lambda>f. Inr (frame_cursor self = function_length f))"

definition frame_fetch_opcode :: "function_t option list \<Rightarrow> frame \<Rightarrow> (opcode \<times> frame) res" where
  "frame_fetch_opcode fs self =
     deref (cell fs (frame_function self)) (\<lambda>f.
     deref (function_get_opcode f (frame_cursor self)) (\<lambda>op.
       Inr (op, self\<lparr>frame_cursor := Suc (frame_cursor self)\<rparr>)))"

text \<open>Variables are linear: reading one empties it, and only an empty one can be set.\<close>

definition frame_get_variable :: "frame \<Rightarrow> nat \<Rightarrow> (val \<times> frame) res" where
  "frame_get_variable self index =
     (let v = slot VNull (variable_array self) index
      in if v = VNull then Inl Exit_failure
         else Inr (v, self\<lparr>variable_array := slot_set VNull (variable_array self) index VNull\<rparr>))"

definition frame_set_variable :: "frame \<Rightarrow> nat \<Rightarrow> val \<Rightarrow> frame res" where
  "frame_set_variable self index v =
     (let found = slot VNull (variable_array self) index
      in if found \<noteq> VNull then Inl Exit_failure
         else Inr (self\<lparr>variable_array := slot_set VNull (variable_array self) index v\<rparr>))"

text \<open>Reading a variable twice ends the program, and so does setting one that holds a value.\<close>

lemma variables_are_linear:
  assumes "frame_get_variable frame index = Inr (v, frame')"
  shows "frame_get_variable frame' index = Inl Exit_failure \<and>
    frame_set_variable frame index w = Inl Exit_failure \<and>
    (\<exists>frame''. frame_set_variable frame' index v = Inr frame'' \<and>
       frame_get_variable frame'' index = Inr (v, frame''\<lparr>variable_array := variable_array frame'\<rparr>))"
proof -
  let ?xs = "variable_array frame"
  have v: "v = slot VNull ?xs index" "v \<noteq> VNull"
    and f: "frame' = frame\<lparr>variable_array := slot_set VNull ?xs index VNull\<rparr>"
    using assms by (auto simp: frame_get_variable_def Let_def split: if_splits)
  have i: "index < length ?xs" using v by (auto simp: slot_def split: if_splits)
  have "slot_set VNull ?xs index VNull = ?xs[index := VNull]"
    using i by (simp add: slot_set_def)
  with v f i show ?thesis
    by (simp add: frame_get_variable_def frame_set_variable_def slot_set_def slot_def)
qed

section \<open>Primitives\<close>

text \<open>
  The functions on the worker itself are named; a primitive on values is the function it
  points to, with its failures as results.
\<close>

datatype worker_fn =
    X_connect
  | X_link
  | X_assert
  | X_int_dup
  | X_float_dup
  | X_fn_dup
  | X_apply nat

datatype primitive_fn =
    Primitive_fn worker_fn
  | Primitive_fn_0 "val res"
  | Primitive_fn_1 "val \<Rightarrow> val res"
  | Primitive_fn_2 "val \<Rightarrow> val \<Rightarrow> val res"
  | Primitive_fn_3 "val \<Rightarrow> val \<Rightarrow> val \<Rightarrow> val res"
  | Primitive_fn_4 "val \<Rightarrow> val \<Rightarrow> val \<Rightarrow> val \<Rightarrow> val res"

record primitive =
  primitive_name :: string
  primitive_node_ctor :: "nat option"
  input_arity :: nat
  output_arity :: nat
  primitive_fn :: primitive_fn

definition primitive_from_fn :: "string \<Rightarrow> nat \<Rightarrow> nat \<Rightarrow> worker_fn \<Rightarrow> primitive" where
  "primitive_from_fn name inputs outputs f =
     \<lparr>primitive_name = name, primitive_node_ctor = None, input_arity = inputs,
      output_arity = outputs, primitive_fn = Primitive_fn f\<rparr>"

definition primitive_from_fn_0 :: "string \<Rightarrow> val res \<Rightarrow> primitive" where
  "primitive_from_fn_0 name f =
     \<lparr>primitive_name = name, primitive_node_ctor = None, input_arity = 0,
      output_arity = 1, primitive_fn = Primitive_fn_0 f\<rparr>"

definition primitive_from_fn_1 :: "string \<Rightarrow> (val \<Rightarrow> val res) \<Rightarrow> primitive" where
  "primitive_from_fn_1 name f =
     \<lparr>primitive_name = name, primitive_node_ctor = None, input_arity = 1,
      output_arity = 1, primitive_fn = Primitive_fn_1 f\<rparr>"

definition primitive_from_fn_2 :: "string \<Rightarrow> (val \<Rightarrow> val \<Rightarrow> val res) \<Rightarrow> primitive" where
  "primitive_from_fn_2 name f =
     \<lparr>primitive_name = name, primitive_node_ctor = None, input_arity = 2,
      output_arity = 1, primitive_fn = Primitive_fn_2 f\<rparr>"

definition primitive_from_fn_3 :: "string \<Rightarrow> (val \<Rightarrow> val \<Rightarrow> val \<Rightarrow> val res) \<Rightarrow> primitive" where
  "primitive_from_fn_3 name f =
     \<lparr>primitive_name = name, primitive_node_ctor = None, input_arity = 3,
      output_arity = 1, primitive_fn = Primitive_fn_3 f\<rparr>"

definition primitive_from_fn_4 ::
    "string \<Rightarrow> (val \<Rightarrow> val \<Rightarrow> val \<Rightarrow> val \<Rightarrow> val res) \<Rightarrow> primitive" where
  "primitive_from_fn_4 name f =
     \<lparr>primitive_name = name, primitive_node_ctor = None, input_arity = 4,
      output_arity = 1, primitive_fn = Primitive_fn_4 f\<rparr>"

section \<open>The state of a worker\<close>

record node_allocator =
  allocator_of :: "nat allocator"
  batch_size :: nat
  node_count :: nat
  node_array :: "nat list"

record machine =
  net :: heap
  function_objects :: "function_t option list"
  primitives :: "primitive list"
  apply_primitives :: "nat list"
  value_hash :: "string \<rightharpoonup> val"
  node_alloc :: node_allocator
  free_node_stack :: "nat list"
  task_queue :: "task list"
  task_queue_size :: nat
  task_count :: "int option"
  value_stack :: "val list"
  return_stack :: "frame list"

text \<open>
  \<open>task_count\<close> is the worker's counter in its scheduler, and \<open>None\<close> for the loader worker,
  which has no scheduler.
\<close>

definition WORKER_TASK_QUEUE_SIZE :: nat where "WORKER_TASK_QUEUE_SIZE = 1024 * 1024"
definition NODE_ALLOCATOR_BATCH_SIZE :: nat where "NODE_ALLOCATOR_BATCH_SIZE = 1024"
definition NODE_ALLOCATOR_CACHE_SIZE :: nat where "NODE_ALLOCATOR_CACHE_SIZE = 64 * 1024"

definition worker_new :: "heap \<Rightarrow> node_allocator \<Rightarrow> machine" where
  "worker_new h alloc =
     \<lparr>net = h, function_objects = [], primitives = [], apply_primitives = [], value_hash = Map.empty,
      node_alloc = alloc, free_node_stack = [], task_queue = [],
      task_queue_size = WORKER_TASK_QUEUE_SIZE, task_count = None,
      value_stack = [], return_stack = []\<rparr>"

definition worker_is_loader :: "machine \<Rightarrow> bool" where
  "worker_is_loader self \<longleftrightarrow> task_count self = None"

definition mod_find :: "machine \<Rightarrow> string \<Rightarrow> val" where
  "mod_find self name = (case value_hash self name of None \<Rightarrow> VNull | Some v \<Rightarrow> v)"

section \<open>Allocating nodes\<close>

fun prepare_nodes_loop :: "nat \<Rightarrow> node_allocator \<Rightarrow> heap \<Rightarrow> node_allocator \<times> heap" where
  "prepare_nodes_loop 0 self h = (self, h)"
| "prepare_nodes_loop (Suc i) self h =
     (let a = length (nodes h);
          n = node_new\<lparr>node_id := node_count self + 1\<rparr>;
          self = self\<lparr>node_count := node_count self + 1,
            allocator_of := (allocator_of self)\<lparr>alloc_stack := a # alloc_stack (allocator_of self)\<rparr>,
            node_array := node_array self @ [a]\<rparr>
      in prepare_nodes_loop i self (h\<lparr>nodes := nodes h @ [n]\<rparr>))"

definition prepare_one_batch_of_nodes :: "node_allocator \<Rightarrow> heap \<Rightarrow> node_allocator \<times> heap" where
  "prepare_one_batch_of_nodes self h = prepare_nodes_loop (batch_size self) self h"

definition node_allocator_new :: "heap \<Rightarrow> node_allocator \<times> heap" where
  "node_allocator_new h =
     prepare_one_batch_of_nodes
       \<lparr>allocator_of = allocator_new NODE_ALLOCATOR_CACHE_SIZE,
        batch_size = NODE_ALLOCATOR_BATCH_SIZE, node_count = 0, node_array = []\<rparr> h"

partial_function (option) node_allocator_allocate ::
    "node_allocator \<Rightarrow> nat list \<Rightarrow> heap \<Rightarrow> (nat \<times> node_allocator \<times> nat list \<times> heap) loop" where
  "node_allocator_allocate self stack h =
     (case allocator_maybe_allocate (allocator_of self) stack of
        (Some a, alloc, stack) \<Rightarrow>
          Some (deref (at (nodes h) a) (\<lambda>n.
            Inr (a, self\<lparr>allocator_of := alloc\<rparr>, stack, set_node a (n\<lparr>is_allocated := True\<rparr>) h)))
      | (None, alloc, stack) \<Rightarrow>
          (case prepare_one_batch_of_nodes (self\<lparr>allocator_of := alloc\<rparr>) h of
             (self, h) \<Rightarrow> node_allocator_allocate self stack h))"

declare node_allocator_allocate.simps [code]

definition node_allocator_recycle ::
    "node_allocator \<Rightarrow> nat list \<Rightarrow> nat \<Rightarrow> heap \<Rightarrow> (node_allocator \<times> nat list \<times> heap) res" where
  "node_allocator_recycle self stack a h =
     deref (at (nodes h) a) (\<lambda>n.
     bnd (allocator_recycle (allocator_of self) stack (Some a)) (\<lambda>(alloc, stack).
       Inr (self\<lparr>allocator_of := alloc\<rparr>, stack, set_node a (node_clean n) h)))"

definition worker_new_node :: "nat \<Rightarrow> machine \<Rightarrow> (nat \<times> machine) loop" where
  "worker_new_node ctor m =
     lbnd (node_allocator_allocate (node_alloc m) (free_node_stack m) (net m))
       (\<lambda>(a, alloc, stack, h). Some (deref (at (nodes h) a) (\<lambda>n.
          Inr (a, m\<lparr>net := set_node a (n\<lparr>node_ctor_of := Some ctor\<rparr>) h, node_alloc := alloc,
                    free_node_stack := stack\<rparr>))))"

definition worker_recycle_node :: "nat \<Rightarrow> machine \<Rightarrow> machine res" where
  "worker_recycle_node a m =
     deref (at (nodes (net m)) a) (\<lambda>n.
     bnd (node_allocator_recycle (node_alloc m) (free_node_stack m) a
            (set_node a (node_clean n) (net m))) (\<lambda>(alloc, stack, h).
       Inr (m\<lparr>net := h, node_alloc := alloc, free_node_stack := stack\<rparr>)))"

section \<open>Tasks and the value stack\<close>

definition worker_add_task :: "task \<Rightarrow> machine \<Rightarrow> machine" where
  "worker_add_task task m =
     (let m = (if length (task_queue m) = task_queue_size m then m
               else m\<lparr>task_queue := task_queue m @ [task]\<rparr>)
      in m\<lparr>task_count := map_option (\<lambda>n. n + 1) (task_count m)\<rparr>)"

definition worker_next_task :: "machine \<Rightarrow> task option \<times> machine" where
  "worker_next_task m =
     (case task_queue m of
        [] \<Rightarrow> (None, m)
      | task # tasks \<Rightarrow> (Some task, m\<lparr>task_queue := tasks\<rparr>))"

definition worker_offer_task :: "machine \<Rightarrow> task option \<times> machine" where
  "worker_offer_task m =
     (case task_queue m of
        [] \<Rightarrow> (None, m)
      | task # tasks \<Rightarrow> (Some task, m\<lparr>task_queue := tasks\<rparr>))"

definition add_found_task :: "task option \<Rightarrow> machine \<Rightarrow> machine" where
  "add_found_task found m = (case found of None \<Rightarrow> m | Some task \<Rightarrow> worker_add_task task m)"

definition worker_connect :: "val \<Rightarrow> val \<Rightarrow> machine \<Rightarrow> machine res" where
  "worker_connect left right m =
     bnd (connect left right (net m)) (\<lambda>(task, h). Inr (add_found_task task (m\<lparr>net := h\<rparr>)))"

definition worker_push :: "val \<Rightarrow> machine \<Rightarrow> machine" where
  "worker_push v m = m\<lparr>value_stack := v # value_stack m\<rparr>"

definition worker_pop :: "machine \<Rightarrow> (val \<times> machine) res" where
  "worker_pop m =
     (case value_stack m of
        [] \<Rightarrow> Inl Assert_failed
      | v # vs \<Rightarrow> Inr (v, m\<lparr>value_stack := vs\<rparr>))"

definition worker_top :: "machine \<Rightarrow> val res" where
  "worker_top m = (case value_stack m of [] \<Rightarrow> Inl Assert_failed | v # vs \<Rightarrow> Inr v)"

text \<open>\<open>worker_tuck_n\<close> puts a value under the top \<open>n\<close> ones.\<close>

definition worker_tuck_n :: "val \<Rightarrow> nat \<Rightarrow> machine \<Rightarrow> machine res" where
  "worker_tuck_n v n m =
     asserting (n \<le> length (value_stack m) \<and> VNull \<notin> set (take n (value_stack m)))
       (Inr (m\<lparr>value_stack := take n (value_stack m) @ v # drop n (value_stack m)\<rparr>))"

section \<open>Connecting the ports of a new node\<close>

definition reconnect_input :: "nat \<Rightarrow> nat \<Rightarrow> val \<Rightarrow> heap \<Rightarrow> (task option \<times> heap) res" where
  "reconnect_input n index v h =
     bnd (node_get_port_info h n index) (\<lambda>port_info.
       if is_principal port_info then
         (let (p, h) = principal_wire_new n index h
          in bnd (node_set_value n index (VPrincipal p) h) (\<lambda>h. connect (VPrincipal p) v h))
       else if is_principal_wire v then
         (let (w, h) = wire_new h
          in bnd (node_set_value n index (VWire w) h) (\<lambda>h. connect (VWire w) v h))
       else bnd (node_set_value n index v h) (\<lambda>h. Inr (None, h)))"

definition reconnect_output :: "nat \<Rightarrow> nat \<Rightarrow> heap \<Rightarrow> (val \<times> heap) res" where
  "reconnect_output n index h =
     bnd (node_get_port_info h n index) (\<lambda>port_info.
       if is_principal port_info then
         (let (p, h) = principal_wire_new n index h
          in bnd (node_set_value n index (VPrincipal p) h) (\<lambda>h. Inr (VPrincipal p, h)))
       else
         (let (w, h) = wire_new h
          in bnd (node_set_value n index (VWire w) h) (\<lambda>h. Inr (VWire w, h))))"

text \<open>The inputs are the top of the stack, the last port first; at most one task may be found.\<close>

fun reconnect_inputs ::
    "nat \<Rightarrow> nat \<Rightarrow> task option \<Rightarrow> val list \<Rightarrow> heap \<Rightarrow> (task option \<times> val list \<times> heap) res" where
  "reconnect_inputs n 0 found vs h = Inr (found, vs, h)"
| "reconnect_inputs n (Suc index) found [] h = Inl Assert_failed"
| "reconnect_inputs n (Suc index) found (v # vs) h =
     bnd (reconnect_input n index v h) (\<lambda>(task, h).
       if task \<noteq> None then asserting (found = None) (reconnect_inputs n index task vs h)
       else reconnect_inputs n index found vs h)"

fun reconnect_outputs :: "nat \<Rightarrow> nat \<Rightarrow> nat \<Rightarrow> val list \<Rightarrow> heap \<Rightarrow> (val list \<times> heap) res" where
  "reconnect_outputs n index 0 vs h = Inr (vs, h)"
| "reconnect_outputs n index (Suc count) vs h =
     bnd (reconnect_output n index h) (\<lambda>(v, h). reconnect_outputs n (Suc index) count (v # vs) h)"

text \<open>
  With more arguments than ports the first input already fails its assertion, so the
  subtraction of the output arity does not wrap.
\<close>

definition worker_reconnect_node :: "nat \<Rightarrow> nat \<Rightarrow> machine \<Rightarrow> machine res" where
  "worker_reconnect_node n arity m =
     bnd (reconnect_inputs n arity None (value_stack m) (net m)) (\<lambda>(found, vs, h).
     bnd (ctor_of_node h n) (\<lambda>c.
     bnd (reconnect_outputs n arity (ctor_arity c - arity) vs h) (\<lambda>(vs, h).
       Inr (add_found_task found (m\<lparr>net := h, value_stack := vs\<rparr>)))))"

section \<open>Taking a node apart\<close>

fun disconnect_ports :: "nat \<Rightarrow> nat \<Rightarrow> nat \<Rightarrow> val list \<Rightarrow> heap \<Rightarrow> (val list \<times> heap) res" where
  "disconnect_ports n i 0 vs h = Inr (vs, h)"
| "disconnect_ports n i (Suc count) vs h =
     bnd (node_get_value h n i) (\<lambda>v.
       case v of
         VPrincipal p \<Rightarrow>
           deref (cell (principal_wires h) p) (\<lambda>_.
             disconnect_ports n (Suc i) count vs (principal_wire_destroy p h))
       | _ \<Rightarrow> disconnect_ports n (Suc i) count (v # vs) h)"

definition worker_disconnect_node :: "nat \<Rightarrow> machine \<Rightarrow> machine res" where
  "worker_disconnect_node n m =
     bnd (ctor_of_node (net m) n) (\<lambda>c.
     bnd (disconnect_ports n 0 (ctor_arity c) (value_stack m) (net m)) (\<lambda>(vs, h).
       worker_recycle_node n (m\<lparr>net := h, value_stack := vs\<rparr>)))"

section \<open>Node constructors of primitives\<close>

fun port_infos_from_names :: "nat \<Rightarrow> string option list \<Rightarrow> port_info option list res" where
  "port_infos_from_names 0 names = Inr []"
| "port_infos_from_names (Suc n) [] = Inl Undefined"
| "port_infos_from_names (Suc n) (name # names) =
     (case name of
        None \<Rightarrow> Inl Assert_failed
      | Some name \<Rightarrow> bnd (port_info_from_name (string_copy name)) (\<lambda>p.
          bnd (port_infos_from_names n names) (\<lambda>ps. Inr (Some p # ps))))"

definition primitive_set_node_ctor :: "nat \<Rightarrow> string option list \<Rightarrow> machine \<Rightarrow> machine res" where
  "primitive_set_node_ctor p names m =
     deref (at (primitives m) p) (\<lambda>self.
     bnd (port_infos_from_names (input_arity self + output_arity self) names) (\<lambda>ps.
     let c = (node_ctor_new (primitive_name self) (input_arity self + output_arity self))
               \<lparr>port_infos := ps, ctor_primitive := Some p\<rparr>;
         h = net m
     in bnd (node_ctor_principal_port_count c) (\<lambda>k.
          asserting (k \<le> input_arity self)
            (Inr (m\<lparr>net := h\<lparr>node_ctors := node_ctors h @ [c]\<rparr>,
                    primitives := (primitives m)
                      [p := self\<lparr>primitive_node_ctor := Some (length (node_ctors h))\<rparr>]\<rparr>)))))"

definition new_primitive :: "primitive \<Rightarrow> machine \<Rightarrow> nat \<times> machine" where
  "new_primitive p m = (length (primitives m), m\<lparr>primitives := primitives m @ [p]\<rparr>)"

text \<open>The primitives a node is made of when the target of an application is still a wire.\<close>

definition apply_names :: "(string \<times> string option list) list" where
  "apply_names =
     [(''apply1'', map Some [''target!'', ''arg1'', ''result'']),
      (''apply2'', map Some [''target!'', ''arg1'', ''arg2'', ''result'']),
      (''apply3'', map Some [''target!'', ''arg1'', ''arg2'', ''arg3'', ''result'']),
      (''apply4'', map Some [''target!'', ''arg1'', ''arg2'', ''arg3'', ''arg4'', ''result''])]"

fun initialize_apply_loop :: "nat \<Rightarrow> (string \<times> string option list) list \<Rightarrow> machine \<Rightarrow> machine res" where
  "initialize_apply_loop k [] m = Inr m"
| "initialize_apply_loop k ((name, ports) # rest) m =
     (let (p, m) = new_primitive (primitive_from_fn name (Suc k) 1 (X_apply k)) m
      in bnd (primitive_set_node_ctor p ports (m\<lparr>apply_primitives := apply_primitives m @ [p]\<rparr>))
           (initialize_apply_loop (Suc k) rest))"

definition initialize_apply_primitives :: "machine \<Rightarrow> machine res" where
  "initialize_apply_primitives m =
     (if apply_primitives m \<noteq> [] then Inr m else initialize_apply_loop 1 apply_names m)"

section \<open>Applying\<close>

definition push_result :: "val \<Rightarrow> machine \<Rightarrow> machine" where
  "push_result result m = (if result \<noteq> VNull then worker_push result m else m)"

definition value_bits :: "val \<Rightarrow> value_word" where
  "value_bits v = (case v of VNull \<Rightarrow> 0 | VImm w \<Rightarrow> w | _ \<Rightarrow> 8)"

text \<open>
  \<open>value_bits\<close> is what the tag tests see of a value: the address of an object is a multiple of
  eight, so that any such word stands for it.
\<close>

definition apply_node :: "nat \<Rightarrow> nat \<Rightarrow> machine \<Rightarrow> machine loop" where
  "apply_node ctor arity m =
     lbnd (worker_new_node ctor m) (\<lambda>(n, m). Some (worker_reconnect_node n arity m))"

definition apply_function :: "nat \<Rightarrow> nat \<Rightarrow> machine \<Rightarrow> machine res" where
  "apply_function f arity m =
     deref (cell (function_objects m) f) (\<lambda>fn.
       if function_arity fn \<noteq> arity then Inl Exit_failure
       else Inr (m\<lparr>return_stack := frame_new f # return_stack m\<rparr>))"

definition x_connect :: "machine \<Rightarrow> machine res" where
  "x_connect m =
     bnd (worker_pop m) (\<lambda>(second, m). bnd (worker_pop m) (\<lambda>(first, m).
       asserting (second \<noteq> VNull) (asserting (first \<noteq> VNull) (worker_connect first second m))))"

definition x_link :: "machine \<Rightarrow> machine" where
  "x_link m =
     (let (w, h) = wire_new (net m)
      in worker_push (VWire w) (worker_push (VWire w) (m\<lparr>net := h\<rparr>)))"

definition x_assert :: "machine \<Rightarrow> machine res" where
  "x_assert m =
     bnd (worker_pop m) (\<lambda>(v, m). bnd (to_bool (value_bits v)) (\<lambda>ok.
       if ok then Inr m else Inl Exit_failure))"

definition dup_when :: "(val \<Rightarrow> bool) \<Rightarrow> machine \<Rightarrow> machine res" where
  "dup_when test m =
     bnd (worker_top m) (\<lambda>target. asserting (test target) (Inr (worker_push target m)))"

definition xint_dup :: "machine \<Rightarrow> machine res" where
  "xint_dup = dup_when (\<lambda>v. is_xint (value_bits v))"

definition xfloat_dup :: "machine \<Rightarrow> machine res" where
  "xfloat_dup = dup_when (\<lambda>v. is_xfloat (value_bits v))"

definition is_function :: "val \<Rightarrow> bool" where
  "is_function v = (case v of VFunction _ \<Rightarrow> True | _ \<Rightarrow> False)"

definition x_fn_dup :: "machine \<Rightarrow> machine res" where
  "x_fn_dup = dup_when is_function"

text \<open>\<open>x_apply1\<close> to \<open>x_apply4\<close> take the target from under its \<open>n\<close> arguments.\<close>

definition x_apply_target :: "nat \<Rightarrow> machine \<Rightarrow> (val \<times> machine) res" where
  "x_apply_target n m =
     asserting (n < length (value_stack m))
       (Inr (value_stack m ! n,
             m\<lparr>value_stack := take n (value_stack m) @ drop (Suc n) (value_stack m)\<rparr>))"

text \<open>A primitive on values pops its arguments, the last one first, and pushes what it returns.\<close>

definition pop_args :: "nat \<Rightarrow> machine \<Rightarrow> (val list \<times> machine) res" where
  "pop_args n m =
     asserting (n \<le> length (value_stack m))
       (Inr (rev (take n (value_stack m)), m\<lparr>value_stack := drop n (value_stack m)\<rparr>))"

definition apply_value_fn :: "primitive_fn \<Rightarrow> machine \<Rightarrow> machine res" where
  "apply_value_fn fn m =
     (case fn of
        Primitive_fn_0 f \<Rightarrow> bnd f (\<lambda>r. Inr (push_result r m))
      | Primitive_fn_1 f \<Rightarrow> bnd (pop_args 1 m) (\<lambda>(xs, m).
          bnd (f (xs ! 0)) (\<lambda>r. Inr (push_result r m)))
      | Primitive_fn_2 f \<Rightarrow> bnd (pop_args 2 m) (\<lambda>(xs, m).
          bnd (f (xs ! 0) (xs ! 1)) (\<lambda>r. Inr (push_result r m)))
      | Primitive_fn_3 f \<Rightarrow> bnd (pop_args 3 m) (\<lambda>(xs, m).
          bnd (f (xs ! 0) (xs ! 1) (xs ! 2)) (\<lambda>r. Inr (push_result r m)))
      | Primitive_fn_4 f \<Rightarrow> bnd (pop_args 4 m) (\<lambda>(xs, m).
          bnd (f (xs ! 0) (xs ! 1) (xs ! 2) (xs ! 3)) (\<lambda>r. Inr (push_result r m)))
      | Primitive_fn _ \<Rightarrow> Inl Undefined)"

lemma x_apply_target_length:
  "x_apply_target n m = Inr (t, m') \<Longrightarrow> length (value_stack m') < length (value_stack m)"
  by (auto simp: x_apply_target_def asserting_eq_Inr min_def)

text \<open>
  Applying a wire that is still open builds a node of the primitive \<open>apply\<close>\<open>n\<close>, which waits for
  the target. It is this primitive's node constructor that \<open>worker_apply\<close> is called with. The
  value that is tucked under the arguments is the wire the call was made with, as in the source.

  Only \<open>x_apply\<close> calls \<open>worker_apply\<close> again, with one value less on the stack, so applying stops.
\<close>

function (sequential) worker_apply :: "val \<Rightarrow> nat \<Rightarrow> machine \<Rightarrow> machine loop"
  and worker_apply_wire :: "nat \<Rightarrow> nat \<Rightarrow> machine \<Rightarrow> machine loop"
  and worker_apply_primitive :: "nat \<Rightarrow> machine \<Rightarrow> machine loop" where
  "worker_apply (VCtor c) arity m = apply_node c arity m"
| "worker_apply (VFunction f) arity m = Some (apply_function f arity m)"
| "worker_apply (VPrimitive p) arity m =
     (case at (primitives m) p of
        None \<Rightarrow> Some (Inl Undefined)
      | Some self \<Rightarrow>
          (case primitive_node_ctor self of
             Some c \<Rightarrow> apply_node c arity m
           | None \<Rightarrow>
               if input_arity self = arity then worker_apply_primitive p m
               else Some (Inl Assert_failed)))"
| "worker_apply (VWire a) arity m = worker_apply_wire a arity m"
| "worker_apply v arity m = Some (Inl Exit_failure)"
| "worker_apply_wire a arity m =
     lbnd (Some (defuze (net m) (VWire a))) (\<lambda>(defuzed, h).
       if \<not> is_wire defuzed then worker_apply defuzed arity (m\<lparr>net := h\<rparr>)
       else if \<not> (0 < arity \<and> arity \<le> 4) then Some (Inl Exit_failure)
       else
         lbnd (Some (initialize_apply_primitives (m\<lparr>net := h\<rparr>))) (\<lambda>m.
         lbnd (Some (deref (at (apply_primitives m) (arity - 1)) (\<lambda>p.
                 deref (at (primitives m) p) (\<lambda>self. deref (primitive_node_ctor self) Inr)))) (\<lambda>c.
         lbnd (Some (worker_tuck_n (VWire a) arity m)) (\<lambda>m. apply_node c (arity + 1) m))))"
| "worker_apply_primitive p m =
     (case at (primitives m) p of
        None \<Rightarrow> Some (Inl Undefined)
      | Some self \<Rightarrow>
          (case primitive_fn self of
             Primitive_fn X_connect \<Rightarrow> Some (x_connect m)
           | Primitive_fn X_link \<Rightarrow> Some (Inr (x_link m))
           | Primitive_fn X_assert \<Rightarrow> Some (x_assert m)
           | Primitive_fn X_int_dup \<Rightarrow> Some (xint_dup m)
           | Primitive_fn X_float_dup \<Rightarrow> Some (xfloat_dup m)
           | Primitive_fn X_fn_dup \<Rightarrow> Some (x_fn_dup m)
           | Primitive_fn (X_apply n) \<Rightarrow>
               lbnd (Some (x_apply_target n m)) (\<lambda>(target, m). worker_apply target n m)
           | f \<Rightarrow> Some (apply_value_fn f m)))"
  by pat_completeness auto
termination
  by (relation "measure (case_sum
      (\<lambda>(v, n, m). 4 * length (value_stack m) + (if is_wire v then 3 else 1))
      (case_sum (\<lambda>(a, n, m). 4 * length (value_stack m) + 2)
        (\<lambda>(p, m). 4 * length (value_stack m))))")
    (auto simp: is_wire_def dest!: x_apply_target_length)

declare worker_apply_wire.simps [simp del] worker_apply_primitive.simps [simp del]

section \<open>Running frames\<close>

text \<open>
  A frame is popped before its next operation runs, and pushed again first unless that was its
  last one: a call in tail position does not leave a finished frame on the return stack.
\<close>

definition push_frame :: "bool \<Rightarrow> frame \<Rightarrow> machine \<Rightarrow> machine" where
  "push_frame finished frame m =
     (if finished then m else m\<lparr>return_stack := frame # return_stack m\<rparr>)"

definition worker_execute_opcode :: "opcode \<Rightarrow> frame \<Rightarrow> bool \<Rightarrow> machine \<Rightarrow> machine loop" where
  "worker_execute_opcode op frame finished m =
     (case op of
        Op_apply arity \<Rightarrow>
          lbnd (Some (worker_pop (push_frame finished frame m))) (\<lambda>(target, m).
            worker_apply target arity m)
      | Op_literal v \<Rightarrow> Some (Inr (worker_push v (push_frame finished frame m)))
      | Op_get_variable index \<Rightarrow>
          Some (bnd (frame_get_variable frame index) (\<lambda>(v, frame).
            Inr (worker_push v (push_frame finished frame m))))
      | Op_set_variable index \<Rightarrow>
          Some (bnd (worker_pop m) (\<lambda>(v, m). bnd (frame_set_variable frame index v) (\<lambda>frame.
            Inr (push_frame finished frame m)))))"

definition worker_run_one_step :: "machine \<Rightarrow> machine loop" where
  "worker_run_one_step m =
     (case return_stack m of
        [] \<Rightarrow> Some (Inr m)
      | frame # frames \<Rightarrow>
          lbnd (Some (frame_is_finished (function_objects m) frame)) (\<lambda>finished.
          if finished then Some (Inr (m\<lparr>return_stack := frames\<rparr>))
          else
            lbnd (Some (frame_fetch_opcode (function_objects m) frame)) (\<lambda>(op, frame).
            lbnd (Some (frame_is_finished (function_objects m) frame)) (\<lambda>finished.
              worker_execute_opcode op frame finished (m\<lparr>return_stack := frames\<rparr>)))))"

partial_function (option) worker_run_until :: "nat \<Rightarrow> machine \<Rightarrow> machine loop" where
  "worker_run_until base m =
     (if length (return_stack m) > base
      then lbnd (worker_run_one_step m) (\<lambda>m. worker_run_until base m)
      else Some (Inr m))"

section \<open>Handling tasks\<close>

definition call_function :: "nat \<Rightarrow> machine \<Rightarrow> machine loop" where
  "call_function f m =
     worker_run_until (length (return_stack m)) (m\<lparr>return_stack := frame_new f # return_stack m\<rparr>)"

definition worker_handle_task_active_pair :: "nat \<Rightarrow> nat \<Rightarrow> rule \<Rightarrow> machine \<Rightarrow> machine loop" where
  "worker_handle_task_active_pair left right rule m =
     lbnd (Some (deref (cell (principal_wires (net m)) left) (\<lambda>p.
             worker_disconnect_node (pw_node p) m))) (\<lambda>m.
     lbnd (Some (deref (cell (principal_wires (net m)) right) (\<lambda>p.
             worker_disconnect_node (pw_node p) m))) (\<lambda>m.
       call_function (rule_function rule) m))"

fun push_inputs :: "nat \<Rightarrow> nat \<Rightarrow> nat \<Rightarrow> machine \<Rightarrow> machine res" where
  "push_inputs n index 0 m = Inr m"
| "push_inputs n index (Suc count) m =
     bnd (node_get_value (net m) n index) (\<lambda>v. push_inputs n (Suc index) count (worker_push v m))"

text \<open>The results are connected from the last output port down.\<close>

fun connect_outputs :: "nat \<Rightarrow> nat \<Rightarrow> nat \<Rightarrow> machine \<Rightarrow> machine res" where
  "connect_outputs n inputs 0 m = Inr m"
| "connect_outputs n inputs (Suc count) m =
     bnd (node_get_value (net m) n (inputs + count)) (\<lambda>v.
     bnd (as_wire v) (\<lambda>w.
     bnd (worker_pop m) (\<lambda>(result, m).
     bnd (worker_connect (VWire w) result m) (connect_outputs n inputs count))))"

definition worker_handle_task_primitive :: "nat \<Rightarrow> machine \<Rightarrow> machine loop" where
  "worker_handle_task_primitive n m =
     lbnd (Some (ctor_of_node (net m) n)) (\<lambda>c.
     case ctor_primitive c of
       None \<Rightarrow> Some (Inl Assert_failed)
     | Some p \<Rightarrow>
         lbnd (Some (deref (at (primitives m) p) Inr)) (\<lambda>self.
         lbnd (Some (push_inputs n 0 (input_arity self) m)) (\<lambda>m.
         lbnd (worker_apply_primitive p m) (\<lambda>m'.
         lbnd (worker_run_until (length (return_stack m)) m') (\<lambda>m.
         lbnd (Some (connect_outputs n (input_arity self) (output_arity self) m)) (\<lambda>m.
           Some (worker_recycle_node n m)))))))"

definition worker_handle_task :: "task \<Rightarrow> machine \<Rightarrow> machine loop" where
  "worker_handle_task task m =
     (case task of
        Task_active_pair left right rule \<Rightarrow> worker_handle_task_active_pair left right rule m
      | Task_primitive n \<Rightarrow> worker_handle_task_primitive n m)"

partial_function (option) worker_work_sequentially :: "machine \<Rightarrow> machine loop" where
  "worker_work_sequentially m =
     (case worker_next_task m of
        (None, m) \<Rightarrow> Some (Inr m)
      | (Some task, m) \<Rightarrow> lbnd (worker_handle_task task m) (\<lambda>m. worker_work_sequentially m))"

lemma worker_work_sequentially_simps [code]:
  "worker_work_sequentially m =
     (case worker_next_task m of
        (None, m) \<Rightarrow> Some (Inr m)
      | (Some task, m) \<Rightarrow> lbnd (worker_handle_task task m) worker_work_sequentially)"
  by (subst worker_work_sequentially.simps) (rule refl)

end
