(* ===== verification/Node_Ports.thy ===== *)
theory Node_Ports
  imports Linearity Worker
begin

text \<open>
  Building and taking apart a node keeps the net linear: \<open>worker_reconnect_node\<close> moves its
  arguments from the value stack to the ports of the node and pushes the other ends of the output
  ports, \<open>worker_disconnect_node\<close> moves the values at the ports back to the stack.
\<close>

section \<open>New wires\<close>

lemma cell_append_beyond: "cell xs (length xs) = None"
  by simp

lemma net_ok_dead_wire: "net_ok h R \<Longrightarrow> cell (wires h) a = None \<Longrightarrow> refs h R (VWire a) = 0"
  by (simp add: net_ok_def linear_def wire_weight_def)

lemma net_ok_dead_pw:
  "net_ok h R \<Longrightarrow> cell (principal_wires h) a = None \<Longrightarrow> refs h R (VPrincipal a) = 0"
  by (simp add: net_ok_def linear_def pw_weight_def)

lemma net_ok_wire_new:
  assumes ok: "net_ok h R" and new: "wire_new h = (w, h')"
  shows "net_ok h' (VWire w # VWire w # R) \<and> same_shape h h'"
proof -
  have w: "w = length (wires h)" and h': "h' = h\<lparr>wires := wires h @ [Some VNull]\<rparr>"
    using new by (auto simp: wire_new_def)
  have r: "refs h' (VWire w # VWire w # R) v = refs h R v + (if VWire w = v then 2 else 0)"
    if "v \<noteq> VNull" for v
    using that by (auto simp: refs_def h')
  have dead: "refs h R (VWire w) = 0"
    using net_ok_dead_wire [OF ok] w by simp
  have "refs h' (VWire w # VWire w # R) (VWire x) = wire_weight (cell (wires h') x)" for x
    using ok r [of "VWire x"] dead w
    by (auto simp: net_ok_def linear_def h' cell_append wire_weight_def)
  moreover have "refs h' (VWire w # VWire w # R) (VPrincipal x)
      = pw_weight (cell (principal_wires h') x)" for x
    using ok r [of "VPrincipal x"] by (simp add: net_ok_def linear_def h')
  ultimately show ?thesis
    using ok by (simp add: net_ok_def linear_def pw_placed_def h' same_shape_def)
qed

section \<open>Storing at an empty port\<close>

text \<open>A node \<open>n\<close> of the constructor \<open>c\<close>.\<close>

definition node_has :: "heap \<Rightarrow> nat \<Rightarrow> nat \<Rightarrow> bool" where
  "node_has h n c \<longleftrightarrow>
     n < length (nodes h) \<and> node_ctor_of (nodes h ! n) = Some c \<and> c < length (node_ctors h)"

definition port_value :: "heap \<Rightarrow> nat \<Rightarrow> nat \<Rightarrow> val" where
  "port_value h n i = slot VNull (value_array (nodes h ! n)) i"

lemma same_shape_nth:
  assumes "same_shape h h'"
  shows "length (nodes h') = length (nodes h)" and "node_ctors h' = node_ctors h"
    and "n < length (nodes h) \<Longrightarrow> node_shape (nodes h' ! n) = node_shape (nodes h ! n)"
proof -
  have m: "map node_shape (nodes h') = map node_shape (nodes h)"
    using assms by (simp add: same_shape_def)
  then show l: "length (nodes h') = length (nodes h)"
    by (rule map_eq_imp_length_eq)
  show "node_ctors h' = node_ctors h"
    using assms by (simp add: same_shape_def)
  assume "n < length (nodes h)"
  then show "node_shape (nodes h' ! n) = node_shape (nodes h ! n)"
    using m l by (metis nth_map)
qed

lemma map_null_slot:
  assumes "map (\<lambda>v. v = d) xs = map (\<lambda>v. v = d) ys"
  shows "slot d xs i = d \<longleftrightarrow> slot d ys i = d"
proof -
  have l: "length xs = length ys"
    using assms by (rule map_eq_imp_length_eq)
  show ?thesis
  proof (cases "i < length xs")
    case True
    then have "map (\<lambda>v. v = d) xs ! i = map (\<lambda>v. v = d) ys ! i"
      using assms by simp
    with True l show ?thesis
      by (simp add: slot_def)
  qed (simp add: slot_def l)
qed

lemma same_shape_node_has: "same_shape h h' \<Longrightarrow> node_has h n c \<Longrightarrow> node_has h' n c"
  using same_shape_nth [of h h'] by (auto simp: node_has_def node_shape_def)

lemma same_shape_port_value:
  assumes "same_shape h h'" and "n < length (nodes h)"
  shows "port_value h' n i = VNull \<longleftrightarrow> port_value h n i = VNull"
proof -
  have "map (\<lambda>v. v = VNull) (value_array (nodes h' ! n)) = map (\<lambda>v. v = VNull) (value_array (nodes h ! n))"
    using same_shape_nth(3) [OF assms] by (simp add: node_shape_def)
  from map_null_slot [OF this] show ?thesis
    by (simp add: port_value_def)
qed

lemma same_shape_length:
  assumes "same_shape h h'" and "n < length (nodes h)"
  shows "length (value_array (nodes h' ! n)) = length (value_array (nodes h ! n))"
  using same_shape_nth(3) [OF assms] by (auto simp: node_shape_def dest: map_eq_imp_length_eq)

text \<open>The heap after \<open>node_set_value\<close>.\<close>

definition with_port :: "nat \<Rightarrow> nat \<Rightarrow> val \<Rightarrow> heap \<Rightarrow> heap" where
  "with_port n i v h =
     set_node n ((nodes h ! n)\<lparr>value_array := slot_set VNull (value_array (nodes h ! n)) i v\<rparr>) h"

lemma node_set_value_with_port:
  "n < length (nodes h) \<Longrightarrow> node_set_value n i v h = Inr (with_port n i v h)"
  by (simp add: node_set_value_def with_port_def at_def)

lemma with_port_fields [simp]:
  "wires (with_port n i v h) = wires h"
  "principal_wires (with_port n i v h) = principal_wires h"
  "node_ctors (with_port n i v h) = node_ctors h"
  "length (nodes (with_port n i v h)) = length (nodes h)"
  by (simp_all add: with_port_def)

lemma with_port_nth:
  "n < length (nodes h) \<Longrightarrow> nodes (with_port n i v h) ! m =
     (if m = n then (nodes h ! n)\<lparr>value_array := slot_set VNull (value_array (nodes h ! n)) i v\<rparr>
      else nodes h ! m)"
  by (simp add: with_port_def nth_list_update)

lemma port_value_with_port:
  "n < length (nodes h) \<Longrightarrow> port_value (with_port n i v h) m j =
     (if m = n \<and> j = i then v else port_value h m j)"
  by (auto simp: port_value_def with_port_nth slot_slot_set)

lemma node_has_with_port [simp]: "node_has (with_port n i v h) m c \<longleftrightarrow> node_has h m c"
proof (cases "n < length (nodes h)")
  case True
  then show ?thesis
    by (cases "m = n") (simp_all add: node_has_def with_port_nth)
next
  case False
  then have "nodes (with_port n i v h) = nodes h"
    unfolding with_port_def set_node_fields by (intro list_update_beyond) simp
  then show ?thesis
    by (simp add: node_has_def)
qed

lemma refs_with_port:
  assumes "n < length (nodes h)" and "u \<noteq> VNull"
  shows "refs (with_port n i v h) R u + (if port_value h n i = u then 1 else 0)
    = refs h R u + (if v = u then 1 else 0)"
proof -
  let ?xs = "value_array (nodes h ! n)"
  have "node_refs (nodes (with_port n i v h)) u + count_list ?xs u
      = node_refs (nodes h) u + count_list (slot_set VNull ?xs i v) u"
    using node_refs_update [OF assms(1), where n = "(nodes h ! n)\<lparr>value_array := slot_set VNull ?xs i v\<rparr>" and v = u]
    unfolding with_port_def set_node_fields by simp
  moreover have "count_list (slot_set VNull ?xs i v) u + (if port_value h n i = u then 1 else 0)
      = count_list ?xs u + (if v = u then 1 else 0)"
    using count_list_slot_set [OF assms(2), of ?xs i v] by (simp add: port_value_def)
  ultimately show ?thesis
    unfolding refs_def with_port_fields by linarith
qed

text \<open>The well-formedness of the nodes alone.\<close>

definition nodes_ok :: "heap \<Rightarrow> bool" where
  "nodes_ok h \<longleftrightarrow>
     (\<forall>c \<in> set (node_ctors h). ports_ok c) \<and> (\<forall>n \<in> set (nodes h). node_ok (node_ctors h) n)"

lemma nodes_ok_with_port:
  assumes ok: "nodes_ok h" and n: "node_has h n c" and i: "i < ctor_arity (node_ctors h ! c)"
  shows "nodes_ok (with_port n i v h)"
proof -
  have "node_ok (node_ctors h) (nodes h ! n)"
    using ok n by (simp add: nodes_ok_def node_has_def)
  then have "node_ok (node_ctors h)
      ((nodes h ! n)\<lparr>value_array := slot_set VNull (value_array (nodes h ! n)) i v\<rparr>)"
    using n i by (simp add: node_ok_def node_has_def)
  then show ?thesis
    using ok set_update_subset_insert [of "nodes h" n]
    by (auto simp: nodes_ok_def with_port_def)
qed

lemma net_ok_nodes_ok: "net_ok h R \<Longrightarrow> nodes_ok h"
  by (simp add: net_ok_def nodes_ok_def)

lemma net_ok_store:
  assumes ok: "net_ok h (v # R)" and n: "node_has h n c"
    and i: "i < ctor_arity (node_ctors h ! c)" and empty: "port_value h n i = VNull"
  shows "net_ok (with_port n i v h) R"
proof -
  have len: "n < length (nodes h)"
    using n by (simp add: node_has_def)
  have r: "refs (with_port n i v h) R u = refs h (v # R) u" if "u \<noteq> VNull" for u
    using refs_with_port [OF len that, of i v R] that empty by (auto simp: refs_Cons)
  have "pw_placed (with_port n i v h) x p" if "pw_placed h x p" for x p
    using that empty len port_value_with_port [OF len, of i v]
    by (auto simp: pw_placed_def port_value_def)
  then show ?thesis
    using ok r nodes_ok_with_port [OF net_ok_nodes_ok [OF ok] n i, of v]
    by (simp add: net_ok_def linear_def nodes_ok_def)
qed

text \<open>A new principal wire stands at its port and is returned as a root.\<close>

lemma net_ok_principal_wire_new:
  assumes ok: "net_ok h R" and n: "node_has h n c"
    and i: "i < ctor_arity (node_ctors h ! c)" and empty: "port_value h n i = VNull"
    and new: "principal_wire_new n i h = (p, h')"
  shows "net_ok (with_port n i (VPrincipal p) h') (VPrincipal p # R)"
proof -
  let ?pw = "\<lparr>pw_node = n, pw_index = i, pw_oppsite = None\<rparr>"
  have p: "p = length (principal_wires h)"
    and h': "h' = h\<lparr>principal_wires := principal_wires h @ [Some ?pw]\<rparr>"
    using new by (auto simp: principal_wire_new_def)
  let ?h = "with_port n i (VPrincipal p) h'"
  have len: "n < length (nodes h')"
    using n by (simp add: node_has_def h')
  have e: "port_value h' n i = VNull"
    using empty by (simp add: port_value_def h')
  have "refs h' R u = refs h R u" for u
    by (simp add: refs_def h')
  then have r: "refs ?h (VPrincipal p # R) u = refs h R u + (if VPrincipal p = u then 2 else 0)"
    if "u \<noteq> VNull" for u
    using refs_with_port [OF len that, of i "VPrincipal p" R] that e by (auto simp: refs_Cons)
  have dead: "refs h R (VPrincipal p) = 0"
    using net_ok_dead_pw [OF ok] p by simp
  have "refs ?h (VPrincipal p # R) (VWire x) = wire_weight (cell (wires ?h) x)" for x
    using ok r [of "VWire x"] by (simp add: net_ok_def linear_def h')
  moreover have "refs ?h (VPrincipal p # R) (VPrincipal x)
      = pw_weight (cell (principal_wires ?h) x)" for x
    using ok r [of "VPrincipal x"] dead p
    by (auto simp: net_ok_def linear_def h' cell_append pw_weight_def)
  moreover have "pw_placed ?h x q" if q: "cell (principal_wires ?h) x = Some q" for x q
  proof (cases "x = p")
    case True
    then have "q = ?pw"
      using q p by (simp add: h' cell_append)
    then show ?thesis
      using True len port_value_with_port [OF len, of i "VPrincipal p"]
      by (simp add: pw_placed_def port_value_def)
  next
    case False
    then have "pw_placed h x q"
      using q p ok by (simp add: h' cell_append net_ok_def)
    then have "pw_placed h' x q"
      by (simp add: pw_placed_def h')
    then show ?thesis
      using e len port_value_with_port [OF len, of i "VPrincipal p"]
      by (auto simp: pw_placed_def port_value_def)
  qed
  moreover have "nodes_ok ?h"
    using nodes_ok_with_port [of h' n c i] net_ok_nodes_ok [OF ok] n i
    by (simp add: h' nodes_ok_def node_has_def)
  ultimately show ?thesis
    by (simp add: net_ok_def linear_def nodes_ok_def)
qed

section \<open>What an operation on one node leaves alone\<close>

definition same_except :: "nat \<Rightarrow> heap \<Rightarrow> heap \<Rightarrow> bool" where
  "same_except n h h' \<longleftrightarrow>
     node_ctors h' = node_ctors h \<and> length (nodes h') = length (nodes h) \<and>
     (\<forall>m < length (nodes h).
        node_ctor_of (nodes h' ! m) = node_ctor_of (nodes h ! m) \<and>
        node_id (nodes h' ! m) = node_id (nodes h ! m) \<and>
        is_allocated (nodes h' ! m) = is_allocated (nodes h ! m) \<and>
        (m \<noteq> n \<longrightarrow> node_shape (nodes h' ! m) = node_shape (nodes h ! m)))"

lemma same_except_refl [simp]: "same_except n h h"
  by (simp add: same_except_def)

lemma same_except_trans: "same_except n h h' \<Longrightarrow> same_except n h' h'' \<Longrightarrow> same_except n h h''"
  by (auto simp: same_except_def)

lemma same_shape_except: "same_shape h h' \<Longrightarrow> same_except n h h'"
  using same_shape_nth [of h h'] by (auto simp: same_except_def node_shape_def)

lemma same_except_with_port: "n < length (nodes h) \<Longrightarrow> same_except n h (with_port n i v h)"
  by (simp add: same_except_def with_port_nth)

lemma same_except_node_has: "same_except n h h' \<Longrightarrow> node_has h m c \<Longrightarrow> node_has h' m c"
  by (simp add: same_except_def node_has_def)

text \<open>The ports of a node are filled one by one: \<open>J\<close> are those filled between two heaps.\<close>

definition fills :: "nat \<Rightarrow> nat set \<Rightarrow> heap \<Rightarrow> heap \<Rightarrow> bool" where
  "fills n J h h' \<longleftrightarrow>
     same_except n h h' \<and>
     (\<forall>j. port_value h' n j = VNull \<longleftrightarrow> port_value h n j = VNull \<and> j \<notin> J)"

lemma fills_refl [simp]: "fills n {} h h"
  by (simp add: fills_def)

lemma fills_trans: "fills n I h h' \<Longrightarrow> fills n J h' h'' \<Longrightarrow> fills n (I \<union> J) h h''"
  using same_except_trans by (auto simp: fills_def)

lemma fills_with_port:
  "n < length (nodes h) \<Longrightarrow> v \<noteq> VNull \<Longrightarrow> fills n {i} h (with_port n i v h)"
  by (simp add: fills_def same_except_with_port port_value_with_port)

lemma fills_same_shape: "n < length (nodes h) \<Longrightarrow> same_shape h h' \<Longrightarrow> fills n {} h h'"
  by (simp add: fills_def same_shape_except same_shape_port_value)

lemma fills_node_has: "fills n J h h' \<Longrightarrow> node_has h m c \<Longrightarrow> node_has h' m c"
  unfolding fills_def by (blast intro: same_except_node_has)

section \<open>Reconnecting\<close>

lemma node_get_port_info_safely:
  assumes ok: "nodes_ok h" and n: "node_has h n c"
  shows "safely (\<lambda>p. i < ctor_arity (node_ctors h ! c)) (node_get_port_info h n i)"
proof -
  have "ports_ok (node_ctors h ! c)"
    using ok n by (simp add: nodes_ok_def node_has_def)
  then have "\<exists>p. slot None (port_infos (node_ctors h ! c)) i = Some p"
    if "i < ctor_arity (node_ctors h ! c)"
    using that by (auto simp: ports_ok_def slot_def in_set_conv_nth)
  then show ?thesis
    using n by (auto simp: node_get_port_info_def at_def node_has_def ctor_of_node_def asserting_def)
qed

lemma net_ok_reconnect_input:
  assumes ok: "net_ok h (v # R)" and v: "v \<noteq> VNull" and n: "node_has h n c"
    and empty: "port_value h n i = VNull"
  shows "safely (\<lambda>(t, h'). net_ok h' R \<and> fills n {i} h h') (reconnect_input n i v h)"
  unfolding reconnect_input_def
proof (rule safely_bnd [OF node_get_port_info_safely [OF net_ok_nodes_ok [OF ok] n]])
  fix info
  assume i: "i < ctor_arity (node_ctors h ! c)"
  have len: "n < length (nodes h)"
    using n by (simp add: node_has_def)
  obtain p hp where p: "principal_wire_new n i h = (p, hp)" by fastforce
  obtain w hw where w: "wire_new h = (w, hw)" by fastforce
  have lp: "n < length (nodes hp)" and fp: "fills n {} h hp"
    using p len by (auto simp: principal_wire_new_def fills_def same_except_def port_value_def)
  have lw: "n < length (nodes hw)" and fw: "fills n {} h hw"
    using w len by (auto simp: wire_new_def fills_def same_except_def port_value_def)
  have P: "safely (\<lambda>(t, h'). net_ok h' R \<and> fills n {i} h h')
      (connect (VPrincipal p) v (with_port n i (VPrincipal p) hp))"
  proof (rule safely_mono)
    show "safely (\<lambda>(t, h'). net_ok h' R \<and> same_shape (with_port n i (VPrincipal p) hp) h')
        (connect (VPrincipal p) v (with_port n i (VPrincipal p) hp))"
      using net_ok_connect_fuze(1) [OF net_ok_principal_wire_new [OF ok n i empty p]] v by simp
    fix r :: "task option \<times> heap"
    assume r: "case r of (t, h') \<Rightarrow> net_ok h' R \<and> same_shape (with_port n i (VPrincipal p) hp) h'"
    have "fills n ({} \<union> ({i} \<union> {})) h (snd r)"
      using fills_trans [OF fp fills_trans [OF fills_with_port [OF lp] fills_same_shape]] r lp
      by (auto split: prod.splits)
    with r show "case r of (t, h') \<Rightarrow> net_ok h' R \<and> fills n {i} h h'"
      by (auto split: prod.splits)
  qed
  have "net_ok hw (VWire w # VWire w # v # R)"
    using net_ok_wire_new [OF ok w] by simp
  then have okw: "net_ok (with_port n i (VWire w) hw) (VWire w # v # R)"
    using net_ok_store [of hw "VWire w" "VWire w # v # R" n c i] fw n i empty
    by (auto simp: fills_def same_except_def node_has_def)
  have W: "safely (\<lambda>(t, h'). net_ok h' R \<and> fills n {i} h h')
      (connect (VWire w) v (with_port n i (VWire w) hw))"
  proof (rule safely_mono)
    show "safely (\<lambda>(t, h'). net_ok h' R \<and> same_shape (with_port n i (VWire w) hw) h')
        (connect (VWire w) v (with_port n i (VWire w) hw))"
      using net_ok_connect_fuze(1) [OF okw _ v] by simp
    fix r :: "task option \<times> heap"
    assume r: "case r of (t, h') \<Rightarrow> net_ok h' R \<and> same_shape (with_port n i (VWire w) hw) h'"
    have "fills n ({} \<union> ({i} \<union> {})) h (snd r)"
      using fills_trans [OF fw fills_trans [OF fills_with_port [OF lw] fills_same_shape]] r lw
      by (auto split: prod.splits)
    with r show "case r of (t, h') \<Rightarrow> net_ok h' R \<and> fills n {i} h h'"
      by (auto split: prod.splits)
  qed
  have S: "net_ok (with_port n i v h) R" "fills n {i} h (with_port n i v h)"
    using net_ok_store [OF ok n i empty] fills_with_port [OF len v] by simp_all
  show "safely (\<lambda>(t, h'). net_ok h' R \<and> fills n {i} h h')
     (if is_principal info then
        let (p, h) = principal_wire_new n i h
        in bnd (node_set_value n i (VPrincipal p) h) (connect (VPrincipal p) v)
      else if is_principal_wire v then
        let (w, h) = wire_new h
        in bnd (node_set_value n i (VWire w) h) (connect (VWire w) v)
      else bnd (node_set_value n i v h) (\<lambda>h. Inr (None, h)))"
    using P W S by (simp add: p w node_set_value_with_port lp lw len)
qed

lemma net_ok_reconnect_inputs:
  assumes "net_ok h (vs @ R)" and "VNull \<notin> set vs" and "node_has h n c"
    and "\<forall>j < k. port_value h n j = VNull"
  shows "safely (\<lambda>(t, vs', h'). net_ok h' (vs' @ R) \<and> VNull \<notin> set vs' \<and> fills n {..<k} h h')
    (reconnect_inputs n k found vs h)"
  using assms
proof (induction n k found vs h rule: reconnect_inputs.induct)
  case (3 n i found v vs h)
  have step: "safely (\<lambda>(t, h'). net_ok h' (vs @ R) \<and> fills n {i} h h') (reconnect_input n i v h)"
    using net_ok_reconnect_input [of h v "vs @ R" n c i] 3(3-6) by auto
  have rest: "safely (\<lambda>(t, vs', h''). net_ok h'' (vs' @ R) \<and> VNull \<notin> set vs' \<and> fills n {..<Suc i} h h'')
      (reconnect_inputs n i t vs h')"
    if "net_ok h' (vs @ R)" and f: "fills n {i} h h'"
      and IH: "net_ok h' (vs @ R) \<Longrightarrow> VNull \<notin> set vs \<Longrightarrow> node_has h' n c \<Longrightarrow>
        \<forall>j<i. port_value h' n j = VNull \<Longrightarrow>
        safely (\<lambda>(t, vs', h''). net_ok h'' (vs' @ R) \<and> VNull \<notin> set vs' \<and> fills n {..<i} h' h'')
          (reconnect_inputs n i t vs h')" for t h'
  proof -
    have "{i} \<union> {..<i} = {..<Suc i}"
      by auto
    then have "fills n {..<i} h' h'' \<Longrightarrow> fills n {..<Suc i} h h''" for h''
      using fills_trans [OF f, of "{..<i}"] by simp
    moreover have "safely (\<lambda>(t, vs', h''). net_ok h'' (vs' @ R) \<and> VNull \<notin> set vs' \<and> fills n {..<i} h' h'')
          (reconnect_inputs n i t vs h')"
      using that fills_node_has [OF f 3(5)] 3(4,6) by (auto simp: fills_def)
    ultimately show ?thesis
      by (auto elim!: safely_mono)
  qed
  show ?case
  proof (cases "reconnect_input n i v h")
    case (Inl e)
    with step show ?thesis by simp
  next
    case (Inr r)
    obtain t h' where r: "r = (t, h')" by fastforce
    have h': "net_ok h' (vs @ R)" "fills n {i} h h'"
      using step Inr r by simp_all
    show ?thesis
    proof (cases t)
      case None
      then show ?thesis
        using rest [OF h', of found] 3(2) [OF Inr] Inr r by simp
    next
      case (Some task)
      then show ?thesis
        using rest [OF h', of t] 3(1) [OF Inr] Inr r by (auto simp: asserting_def)
    qed
  qed
qed auto

lemma net_ok_reconnect_output:
  assumes ok: "net_ok h R" and n: "node_has h n c" and empty: "port_value h n i = VNull"
  shows "safely (\<lambda>(v, h'). net_ok h' (v # R) \<and> v \<noteq> VNull \<and> fills n {i} h h') (reconnect_output n i h)"
  unfolding reconnect_output_def
proof (rule safely_bnd [OF node_get_port_info_safely [OF net_ok_nodes_ok [OF ok] n]])
  fix info
  assume i: "i < ctor_arity (node_ctors h ! c)"
  have len: "n < length (nodes h)"
    using n by (simp add: node_has_def)
  obtain p hp where p: "principal_wire_new n i h = (p, hp)" by fastforce
  obtain w hw where w: "wire_new h = (w, hw)" by fastforce
  have lp: "n < length (nodes hp)" and fp: "fills n {} h hp"
    using p len by (auto simp: principal_wire_new_def fills_def same_except_def port_value_def)
  have lw: "n < length (nodes hw)" and fw: "fills n {} h hw"
    using w len by (auto simp: wire_new_def fills_def same_except_def port_value_def)
  have P: "net_ok (with_port n i (VPrincipal p) hp) (VPrincipal p # R)"
    "fills n {i} h (with_port n i (VPrincipal p) hp)"
    using net_ok_principal_wire_new [OF ok n i empty p]
      fills_trans [OF fp fills_with_port [OF lp]] by simp_all
  have "net_ok hw (VWire w # VWire w # R)"
    using net_ok_wire_new [OF ok w] by simp
  then have W: "net_ok (with_port n i (VWire w) hw) (VWire w # R)"
    "fills n {i} h (with_port n i (VWire w) hw)"
    using net_ok_store [of hw "VWire w" "VWire w # R" n c i] fw n i empty
      fills_trans [OF fw fills_with_port [OF lw]]
    by (auto simp: fills_def same_except_def node_has_def)
  show "safely (\<lambda>(v, h'). net_ok h' (v # R) \<and> v \<noteq> VNull \<and> fills n {i} h h')
     (if is_principal info then
        let (p, h) = principal_wire_new n i h
        in bnd (node_set_value n i (VPrincipal p) h) (\<lambda>h. Inr (VPrincipal p, h))
      else
        let (w, h) = wire_new h
        in bnd (node_set_value n i (VWire w) h) (\<lambda>h. Inr (VWire w, h)))"
    using P W by (simp add: p w node_set_value_with_port lp lw)
qed

lemma net_ok_reconnect_outputs:
  assumes "net_ok h (vs @ R)" and "VNull \<notin> set vs" and "node_has h n c"
    and "\<forall>j \<in> {i..<i + k}. port_value h n j = VNull"
  shows "safely (\<lambda>(vs', h'). net_ok h' (vs' @ R) \<and> VNull \<notin> set vs' \<and> fills n {i..<i + k} h h')
    (reconnect_outputs n i k vs h)"
  using assms
proof (induction n i k vs h rule: reconnect_outputs.induct)
  case (2 n i k vs h)
  have step: "safely (\<lambda>(v, h'). net_ok h' (v # vs @ R) \<and> v \<noteq> VNull \<and> fills n {i} h h')
      (reconnect_output n i h)"
    using net_ok_reconnect_output [of h "vs @ R" n c i] 2(2-5) by auto
  show ?case
  proof (cases "reconnect_output n i h")
    case (Inl e)
    with step show ?thesis by simp
  next
    case (Inr r)
    obtain v h' where r: "r = (v, h')" by fastforce
    have h': "net_ok h' (v # vs @ R)" "v \<noteq> VNull" "fills n {i} h h'"
      using step Inr r by simp_all
    have "{i} \<union> {Suc i..<Suc i + k} = {i..<i + Suc k}"
      by auto
    then have f: "fills n {Suc i..<Suc i + k} h' h'' \<Longrightarrow> fills n {i..<i + Suc k} h h''" for h''
      using fills_trans [OF h'(3), of "{Suc i..<Suc i + k}"] by simp
    have "safely (\<lambda>(vs', h''). net_ok h'' (vs' @ R) \<and> VNull \<notin> set vs' \<and>
        fills n {Suc i..<Suc i + k} h' h'') (reconnect_outputs n (Suc i) k (v # vs) h')"
      using 2(1) [OF Inr r [symmetric]] h' 2(3,5) fills_node_has [OF h'(3) 2(4)]
      by (auto simp: fills_def)
    with f show ?thesis
      by (auto simp: Inr r elim!: safely_mono)
  qed
qed auto

text \<open>A node whose ports are all filled.\<close>

definition node_complete :: "heap \<Rightarrow> nat \<Rightarrow> nat \<Rightarrow> bool" where
  "node_complete h n c \<longleftrightarrow>
     node_has h n c \<and> (\<forall>i < ctor_arity (node_ctors h ! c). port_value h n i \<noteq> VNull)"

lemma ctor_of_node_has:
  "node_has h n c \<Longrightarrow> ctor_of_node h n = Inr (node_ctors h ! c)"
  by (simp add: node_has_def ctor_of_node_def at_def)

lemma reconnect_inputs_arity:
  "reconnect_inputs n k found vs h = Inr r \<Longrightarrow> nodes_ok h \<Longrightarrow> node_has h n c \<Longrightarrow>
     k \<le> ctor_arity (node_ctors h ! c)"
proof (induction n k found vs h rule: reconnect_inputs.induct)
  case (3 n i found v vs h)
  obtain info where "node_get_port_info h n i = Inr info"
    using 3(3) by (auto simp: bnd_eq_Inr reconnect_input_def)
  then show ?case
    using node_get_port_info_safely [OF 3(4,5), of i] by simp
qed simp_all

lemma add_found_task_fields [simp]:
  "net (add_found_task t m) = net m" "value_stack (add_found_task t m) = value_stack m"
  "return_stack (add_found_task t m) = return_stack m"
  "function_objects (add_found_task t m) = function_objects m"
  "primitives (add_found_task t m) = primitives m"
  "apply_primitives (add_found_task t m) = apply_primitives m"
  "value_hash (add_found_task t m) = value_hash m"
  "node_alloc (add_found_task t m) = node_alloc m"
  "free_node_stack (add_found_task t m) = free_node_stack m"
  by (simp_all add: add_found_task_def worker_add_task_def Let_def split: option.splits)

lemma net_ok_worker_reconnect_node:
  assumes ok: "net_ok (net m) (value_stack m @ R)" and vs: "VNull \<notin> set (value_stack m)"
    and n: "node_has (net m) n c" and empty: "\<forall>i. port_value (net m) n i = VNull"
  shows "safely (\<lambda>m'. net_ok (net m') (value_stack m' @ R) \<and> VNull \<notin> set (value_stack m') \<and>
      same_except n (net m) (net m') \<and> node_complete (net m') n c \<and>
      (\<exists>t vs h. m' = add_found_task t (m\<lparr>net := h, value_stack := vs\<rparr>)))
    (worker_reconnect_node n arity m)"
proof (cases "reconnect_inputs n arity None (value_stack m) (net m)")
  case (Inl e)
  then show ?thesis
    using net_ok_reconnect_inputs [OF ok vs n, of arity None] empty
    by (simp add: worker_reconnect_node_def)
next
  case (Inr r)
  obtain t vs1 h1 where r: "r = (t, vs1, h1)"
    by (cases r) auto
  have 1: "net_ok h1 (vs1 @ R)" "VNull \<notin> set vs1" "fills n {..<arity} (net m) h1"
    using net_ok_reconnect_inputs [OF ok vs n, of arity None] empty Inr r by simp_all
  let ?c = "node_ctors (net m) ! c"
  have le: "arity \<le> ctor_arity ?c"
    using reconnect_inputs_arity [OF Inr net_ok_nodes_ok [OF ok] n] .
  have n1: "node_has h1 n c" and ctors: "node_ctors h1 = node_ctors (net m)"
    using fills_node_has [OF 1(3) n] 1(3) by (simp_all add: fills_def same_except_def)
  have out: "safely (\<lambda>(vs', h'). net_ok h' (vs' @ R) \<and> VNull \<notin> set vs' \<and>
      fills n {arity..<arity + (ctor_arity ?c - arity)} h1 h')
      (reconnect_outputs n arity (ctor_arity ?c - arity) vs1 h1)"
    using net_ok_reconnect_outputs [OF 1(1,2) n1] 1(3) empty by (auto simp: fills_def)
  have done': "same_except n (net m) h2 \<and> node_complete h2 n c"
    if "fills n {arity..<arity + (ctor_arity ?c - arity)} h1 h2" for h2
  proof -
    have "fills n ({..<arity} \<union> {arity..<arity + (ctor_arity ?c - arity)}) (net m) h2"
      using fills_trans [OF 1(3) that] .
    then show ?thesis
      using fills_node_has [OF that n1] le empty ctors that
      by (auto simp: fills_def node_complete_def same_except_def)
  qed
  show ?thesis
    using out done' Inr r ctor_of_node_has [OF n1] ctors
    by (cases "reconnect_outputs n arity (ctor_arity ?c - arity) vs1 h1")
      (auto simp: worker_reconnect_node_def split: prod.splits)
qed

end
