(* ===== verification/Node_Alloc.thy ===== *)
theory Node_Alloc
  imports Node_Ports
begin

text \<open>
  Allocating and recycling nodes: a node is either in use or in one of the two free lists, never
  in both, and a free node is blank. With a positive batch and cache size allocation returns.
\<close>

section \<open>The invariant of the node allocator\<close>

definition blank :: "node \<Rightarrow> bool" where
  "blank n \<longleftrightarrow> node_ctor_of n = None \<and> \<not> is_allocated n \<and> value_array n = []"

text \<open>\<open>F\<close> are the nodes on the free lists of other workers, which this one must leave alone.\<close>

definition free_nodes :: "nat list \<Rightarrow> node_allocator \<Rightarrow> nat list \<Rightarrow> nat list" where
  "free_nodes F alloc stack = free_values (allocator_of alloc) stack @ F"

definition alloc_ok :: "nat list \<Rightarrow> node_allocator \<Rightarrow> nat list \<Rightarrow> heap \<Rightarrow> bool" where
  "alloc_ok F alloc stack h \<longleftrightarrow>
     0 < batch_size alloc \<and> 0 < cache_size (allocator_of alloc) \<and>
     distinct (free_nodes F alloc stack) \<and>
     (\<forall>a \<in> set (free_nodes F alloc stack). a < length (nodes h) \<and> blank (nodes h ! a))"

text \<open>Blank nodes are added to the heap, and only the node \<open>a\<close> changes.\<close>

definition extends :: "nat \<Rightarrow> heap \<Rightarrow> heap \<Rightarrow> bool" where
  "extends a h h' \<longleftrightarrow>
     node_ctors h' = node_ctors h \<and> wires h' = wires h \<and> principal_wires h' = principal_wires h \<and>
     length (nodes h) \<le> length (nodes h') \<and>
     (\<forall>b < length (nodes h'). b \<noteq> a \<longrightarrow>
        (if b < length (nodes h) then nodes h' ! b = nodes h ! b else blank (nodes h' ! b)))"

lemma prepare_nodes_loop_spec:
  assumes "prepare_nodes_loop i self h = (self', h')"
  shows "\<exists>ns. h' = h\<lparr>nodes := nodes h @ ns\<rparr> \<and> length ns = i \<and> (\<forall>n \<in> set ns. blank n) \<and>
    alloc_stack (allocator_of self')
      = rev [length (nodes h)..<length (nodes h) + i] @ alloc_stack (allocator_of self) \<and>
    cache_size (allocator_of self') = cache_size (allocator_of self) \<and>
    batch_size self' = batch_size self"
  using assms
proof (induction i self h rule: prepare_nodes_loop.induct)
  case (2 i self h)
  define n where "n = node_new\<lparr>node_id := node_count self + 1\<rparr>"
  define self1 where "self1 = self\<lparr>node_count := node_count self + 1,
    allocator_of := (allocator_of self)
      \<lparr>alloc_stack := length (nodes h) # alloc_stack (allocator_of self)\<rparr>,
    node_array := node_array self @ [length (nodes h)]\<rparr>"
  have "prepare_nodes_loop i self1 (h\<lparr>nodes := nodes h @ [n]\<rparr>) = (self', h')"
    using 2(2) by (simp add: Let_def n_def self1_def)
  from 2(1) [OF refl n_def self1_def this] obtain ns where
    ns: "h' = h\<lparr>nodes := nodes h @ [n] @ ns\<rparr>" "length ns = i" "\<forall>n \<in> set ns. blank n"
    and rest: "alloc_stack (allocator_of self')
      = rev [Suc (length (nodes h))..<Suc (length (nodes h)) + i] @ alloc_stack (allocator_of self1)"
      "cache_size (allocator_of self') = cache_size (allocator_of self1)"
      "batch_size self' = batch_size self1"
    by auto
  have "blank n"
    by (simp add: n_def node_new_def blank_def)
  moreover have "rev [length (nodes h)..<length (nodes h) + Suc i]
      = rev [Suc (length (nodes h))..<Suc (length (nodes h)) + i] @ [length (nodes h)]"
    by (simp add: upt_conv_Cons del: upt_Suc)
  ultimately show ?case
    using ns rest by (intro exI [of _ "n # ns"]) (simp add: self1_def del: upt_Suc)
qed simp

lemma refs_blank_nodes:
  "\<forall>n \<in> set ns. blank n \<Longrightarrow> node_refs (xs @ ns) v = node_refs xs v"
proof -
  assume "\<forall>n \<in> set ns. blank n"
  then have "map (\<lambda>n. count_list (value_array n) v) ns = map (\<lambda>_. 0) ns"
    by (auto simp: blank_def)
  then show ?thesis
    by (simp add: node_refs_def)
qed

lemma net_ok_append_blank:
  assumes ok: "net_ok h R" and ns: "\<forall>n \<in> set ns. blank n"
  shows "net_ok (h\<lparr>nodes := nodes h @ ns\<rparr>) R"
proof -
  have "refs (h\<lparr>nodes := nodes h @ ns\<rparr>) R v = refs h R v" for v
    using refs_blank_nodes [OF ns] by (simp add: refs_def)
  moreover have "node_ok cs n" if "n \<in> set ns" for cs n
    using ns that by (simp add: node_ok_def blank_def)
  moreover have "pw_placed (h\<lparr>nodes := nodes h @ ns\<rparr>) x p" if "pw_placed h x p" for x p
    using that by (simp add: pw_placed_def nth_append)
  ultimately show ?thesis
    using ok by (auto simp: net_ok_def linear_def)
qed

text \<open>Changing a node whose ports are all empty, before and after, does not touch the wires.\<close>

lemma net_ok_set_empty_node:
  assumes ok: "net_ok h R" and a: "a < length (nodes h)"
    and old: "set (value_array (nodes h ! a)) \<subseteq> {VNull}"
    and new: "value_array n = []" "node_ok (node_ctors h) n"
  shows "net_ok (set_node a n h) R"
proof -
  have "count_list (value_array (nodes h ! a)) v = 0" if "v \<noteq> VNull" for v
    using old that by (auto simp: count_list_0_iff)
  then have "refs (set_node a n h) R v = refs h R v" if "v \<noteq> VNull" for v
    using node_refs_update [OF a, of n v] new that by (simp add: refs_def)
  moreover have "pw_placed (set_node a n h) x p" if "pw_placed h x p" for x p
    using that old slot_mem [of VNull "value_array (nodes h ! a)" "pw_index p"]
    by (cases "pw_node p = a") (auto simp: pw_placed_def)
  ultimately show ?thesis
    using ok new set_update_subset_insert [of "nodes h" a n]
    by (auto simp: net_ok_def linear_def)
qed

lemma node_allocator_allocate_free:
  assumes al: "alloc_ok F alloc stack h" and ok: "net_ok h R"
    and "allocator_maybe_allocate (allocator_of alloc) stack = (Some a, al', stack')"
  shows "\<exists>alloc' h'. node_allocator_allocate alloc stack h = Some (Inr (a, alloc', stack', h')) \<and>
    alloc_ok F alloc' stack' h' \<and> net_ok h' R \<and> extends a h h' \<and> a < length (nodes h') \<and>
    a \<notin> set (free_nodes F alloc' stack') \<and> value_array (nodes h' ! a) = [] \<and>
    node_ctor_of (nodes h' ! a) = None"
proof -
  have d: "distinct (free_values (allocator_of alloc) stack)"
    using al by (simp add: alloc_ok_def free_nodes_def)
  note s = allocator_maybe_allocate_Some [OF assms(3) d]
  have a: "a < length (nodes h)" "blank (nodes h ! a)" "a \<notin> set F"
    using al s by (auto simp: alloc_ok_def free_nodes_def)
  define h' where "h' = set_node a ((nodes h ! a)\<lparr>is_allocated := True\<rparr>) h"
  define alloc' where "alloc' = alloc\<lparr>allocator_of := al'\<rparr>"
  have run: "node_allocator_allocate alloc stack h = Some (Inr (a, alloc', stack', h'))"
    using assms(3) a by (subst node_allocator_allocate.simps) (simp add: at_def h'_def alloc'_def)
  have "net_ok h' R"
    unfolding h'_def using a by (intro net_ok_set_empty_node [OF ok a(1)])
      (simp_all add: blank_def node_ok_def)
  moreover have "alloc_ok F alloc' stack' h'"
    using al s by (auto simp: alloc_ok_def alloc'_def h'_def free_nodes_def nth_list_update)
  ultimately show ?thesis
    using run a s by (auto simp: extends_def h'_def alloc'_def free_nodes_def blank_def nth_list_update)
qed

lemma node_allocator_allocate_ok:
  assumes al: "alloc_ok F alloc stack h" and ok: "net_ok h R"
  shows "\<exists>a alloc' stack' h'. node_allocator_allocate alloc stack h = Some (Inr (a, alloc', stack', h')) \<and>
    alloc_ok F alloc' stack' h' \<and> net_ok h' R \<and> extends a h h' \<and> a < length (nodes h') \<and>
    a \<notin> set (free_nodes F alloc' stack') \<and> value_array (nodes h' ! a) = [] \<and>
    node_ctor_of (nodes h' ! a) = None"
proof -
  obtain r al' stack' where r: "allocator_maybe_allocate (allocator_of alloc) stack = (r, al', stack')"
    by (cases "allocator_maybe_allocate (allocator_of alloc) stack") auto
  show ?thesis
  proof (cases r)
    case (Some a)
    then show ?thesis
      using node_allocator_allocate_free [OF al ok] r by blast
  next
    case None
    have none: "free_values (allocator_of alloc) stack = []" "al' = allocator_of alloc" "stack' = []"
      using allocator_maybe_allocate_None [of "allocator_of alloc" stack al' stack'] r None al
      by (auto simp: alloc_ok_def free_nodes_def)
    obtain alloc1 h1 where p: "prepare_one_batch_of_nodes alloc h = (alloc1, h1)"
      by fastforce
    obtain ns where h1: "h1 = h\<lparr>nodes := nodes h @ ns\<rparr>" and ns: "length ns = batch_size alloc"
        "\<forall>n \<in> set ns. blank n"
      and st: "alloc_stack (allocator_of alloc1) = rev [length (nodes h)..<length (nodes h) + batch_size alloc]"
      and sz: "cache_size (allocator_of alloc1) = cache_size (allocator_of alloc)"
        "batch_size alloc1 = batch_size alloc"
      using prepare_nodes_loop_spec p none by (auto simp: prepare_one_batch_of_nodes_def
          free_nodes_def free_values_def dest!: prepare_nodes_loop_spec)
    have al1: "alloc_ok F alloc1 [] h1"
      using al st sz ns none(1)
      by (fastforce simp: alloc_ok_def free_nodes_def free_values_def h1 nth_append)
    have ok1: "net_ok h1 R"
      unfolding h1 using ok ns by (intro net_ok_append_blank)
    obtain r2 al2 st2 where r2: "allocator_maybe_allocate (allocator_of alloc1) [] = (r2, al2, st2)"
      by (cases "allocator_maybe_allocate (allocator_of alloc1) []") auto
    have "alloc_stack (allocator_of alloc1) \<noteq> []"
      using st al by (simp add: alloc_ok_def)
    then obtain a where a: "r2 = Some a"
      using allocator_maybe_allocate_None [of "allocator_of alloc1" "[]" al2 st2] r2 al1
      by (cases r2) (auto simp: alloc_ok_def free_values_def)
    obtain alloc2 h2 where 2: "node_allocator_allocate alloc1 [] h1 = Some (Inr (a, alloc2, st2, h2))"
        "alloc_ok F alloc2 st2 h2" "net_ok h2 R" "extends a h1 h2" "a < length (nodes h2)"
        "a \<notin> set (free_nodes F alloc2 st2)" "value_array (nodes h2 ! a) = []" "node_ctor_of (nodes h2 ! a) = None"
      using node_allocator_allocate_free [OF al1 ok1] r2 a by blast
    have e: "extends a h h2"
      unfolding extends_def
    proof (intro conjI allI impI)
      fix b
      assume b: "b < length (nodes h2)" "b \<noteq> a"
      then have "if b < length (nodes h1) then nodes h2 ! b = nodes h1 ! b else blank (nodes h2 ! b)"
        using 2(4) by (simp add: extends_def)
      moreover have "blank (nodes h1 ! b)" if "\<not> b < length (nodes h)" "b < length (nodes h1)"
        using that ns h1 by (simp add: nth_append)
      ultimately show "if b < length (nodes h) then nodes h2 ! b = nodes h ! b else blank (nodes h2 ! b)"
        using h1 by (auto simp: nth_append split: if_splits)
    qed (use 2(4) h1 in \<open>simp_all add: extends_def\<close>)
    have "node_allocator_allocate alloc stack h = node_allocator_allocate alloc1 [] h1"
      using r None none p by (subst node_allocator_allocate.simps) simp
    with 2 e show ?thesis by auto
  qed
qed

lemma alloc_ok_set_node:
  "alloc_ok F alloc stack h \<Longrightarrow> a \<notin> set (free_nodes F alloc stack) \<Longrightarrow>
     alloc_ok F alloc stack (set_node a n h)"
  unfolding alloc_ok_def by (metis length_list_update nth_list_update_neq set_node_fields(4))

lemma worker_new_node_ok:
  assumes al: "alloc_ok F (node_alloc m) (free_node_stack m) (net m)" and ok: "net_ok (net m) R"
    and c: "c < length (node_ctors (net m))"
  shows "\<exists>a h alloc stack. worker_new_node c m
      = Some (Inr (a, m\<lparr>net := h, node_alloc := alloc, free_node_stack := stack\<rparr>)) \<and>
    alloc_ok F alloc stack h \<and> net_ok h R \<and> extends a (net m) h \<and> node_has h a c \<and>
    a \<notin> set (free_nodes F alloc stack) \<and> (\<forall>i. port_value h a i = VNull)"
proof -
  obtain a alloc stack h where run: "node_allocator_allocate (node_alloc m) (free_node_stack m) (net m)
      = Some (Inr (a, alloc, stack, h))"
    and h: "alloc_ok F alloc stack h" "net_ok h R" "extends a (net m) h" "a < length (nodes h)"
      "a \<notin> set (free_nodes F alloc stack)" "value_array (nodes h ! a) = []"
    using node_allocator_allocate_ok [OF al ok] by blast
  define h' where "h' = set_node a ((nodes h ! a)\<lparr>node_ctor_of := Some c\<rparr>) h"
  have ctors: "node_ctors h = node_ctors (net m)"
    using h(3) by (simp add: extends_def)
  have "net_ok h' R"
    unfolding h'_def using h c ctors by (intro net_ok_set_empty_node) (simp_all add: node_ok_def)
  moreover have "alloc_ok F alloc stack h'"
    unfolding h'_def using h(1,5) by (rule alloc_ok_set_node)
  moreover have "node_has h' a c"
    using h(4) c ctors by (simp add: node_has_def h'_def)
  ultimately show ?thesis
    using run h by (intro exI [of _ a] exI [of _ h'] exI [of _ alloc] exI [of _ stack])
      (simp add: worker_new_node_def at_def h'_def extends_def port_value_def)
qed

section \<open>Recycling\<close>

lemma worker_recycle_node_ok:
  assumes al: "alloc_ok F (node_alloc m) (free_node_stack m) (net m)" and ok: "net_ok (net m) R"
    and n: "n < length (nodes (net m))" "n \<notin> set (free_nodes F (node_alloc m) (free_node_stack m))"
    and empty: "set (value_array (nodes (net m) ! n)) \<subseteq> {VNull}"
  shows "\<exists>h alloc stack. worker_recycle_node n m
      = Inr (m\<lparr>net := h, node_alloc := alloc, free_node_stack := stack\<rparr>) \<and>
    alloc_ok F alloc stack h \<and> net_ok h R \<and> extends n (net m) h \<and>
    length (nodes h) = length (nodes (net m)) \<and> node_ctor_of (nodes h ! n) = None"
proof -
  let ?h = "set_node n (node_clean (nodes (net m) ! n)) (net m)"
  have ok': "net_ok ?h R"
    using ok n(1) empty by (intro net_ok_set_empty_node) (simp_all add: node_clean_def node_ok_def)
  obtain al' stack where r: "allocator_free (allocator_of (node_alloc m)) (free_node_stack m) n
      = Inr (al', stack)"
    and s: "distinct (free_values al' stack)"
      "set (free_values al' stack)
        = insert n (set (free_values (allocator_of (node_alloc m)) (free_node_stack m)))"
      "cache_size al' = cache_size (allocator_of (node_alloc m))"
    using allocator_free_Inr [of n "allocator_of (node_alloc m)" "free_node_stack m"] al n
    by (auto simp: alloc_ok_def free_nodes_def)
  define alloc where "alloc = (node_alloc m)\<lparr>allocator_of := al'\<rparr>"
  have "alloc_ok F alloc stack ?h"
    using al s n by (auto simp: alloc_ok_def alloc_def free_nodes_def nth_list_update
        node_clean_def blank_def)
  moreover have "worker_recycle_node n m
      = Inr (m\<lparr>net := ?h, node_alloc := alloc, free_node_stack := stack\<rparr>)"
    using n r by (simp add: worker_recycle_node_def node_allocator_recycle_def allocator_recycle_def
        at_def alloc_def node_clean_def set_node_def)
  moreover have "extends n (net m) ?h" "node_ctor_of (nodes ?h ! n) = None"
    using n by (simp_all add: extends_def node_clean_def)
  ultimately show ?thesis
    using ok' by (intro exI [of _ ?h] exI [of _ alloc] exI [of _ stack]) simp
qed

text \<open>The heap in which the first \<open>i\<close> ports of a node have been moved to the stack.\<close>

definition emptied :: "nat \<Rightarrow> nat \<Rightarrow> heap \<Rightarrow> heap" where
  "emptied n i h = set_node n ((nodes h ! n)
     \<lparr>value_array := replicate i VNull @ drop i (value_array (nodes h ! n))\<rparr>) h"

lemma emptied_0: "emptied n 0 h = h"
  by (simp add: emptied_def set_node_def)

lemma emptied_fields [simp]:
  "wires (emptied n i h) = wires h" "principal_wires (emptied n i h) = principal_wires h"
  "node_ctors (emptied n i h) = node_ctors h" "length (nodes (emptied n i h)) = length (nodes h)"
  by (simp_all add: emptied_def)

lemma emptied_destroy:
  "emptied n i (principal_wire_destroy p h) = principal_wire_destroy p (emptied n i h)"
  by (simp add: emptied_def principal_wire_destroy_def set_node_def)

lemma emptied_Suc:
  assumes "n < length (nodes h)" and "i < length (value_array (nodes h ! n))"
  shows "emptied n (Suc i) h = with_port n i VNull (emptied n i h)"
proof -
  have "replicate (Suc i) VNull @ drop (Suc i) xs
      = (replicate i VNull @ drop i xs)[i := VNull]" if "i < length xs" for xs :: "val list"
    using that by (simp add: list_update_append Cons_nth_drop_Suc [symmetric] replicate_append_same
        flip: replicate_Suc)
  with assms show ?thesis
    by (simp add: emptied_def with_port_def set_node_def slot_set_def)
qed

lemma port_value_emptied:
  "n < length (nodes h) \<Longrightarrow> i \<le> length (value_array (nodes h ! n)) \<Longrightarrow>
     port_value (emptied n i h) n j = (if j < i then VNull else port_value h n j)"
  by (auto simp: port_value_def emptied_def slot_def nth_append)

lemma node_has_emptied [simp]: "node_has (emptied n i h) m c \<longleftrightarrow> node_has h m c"
  by (cases "m = n") (auto simp: node_has_def emptied_def)

text \<open>Moving a value from a port to the roots, and freeing the principal wire at a port.\<close>

lemma net_ok_take_port:
  assumes ok: "net_ok h R" and n: "node_has h n c" and i: "i < ctor_arity (node_ctors h ! c)"
    and v: "port_value h n i = v" "v \<noteq> VNull" "\<not> is_principal_wire v"
  shows "net_ok (with_port n i VNull h) (v # R)"
proof -
  have len: "n < length (nodes h)"
    using n by (simp add: node_has_def)
  have r: "refs (with_port n i VNull h) (v # R) u = refs h R u" if "u \<noteq> VNull" for u
    using refs_with_port [OF len that, of i VNull R] that v by (auto simp: refs_Cons)
  have "pw_placed (with_port n i VNull h) x p" if "pw_placed h x p" for x p
    using that v len port_value_with_port [OF len, of i VNull]
    by (auto simp: pw_placed_def port_value_def is_principal_wire_def)
  then show ?thesis
    using ok r nodes_ok_with_port [OF net_ok_nodes_ok [OF ok] n i, of VNull]
    by (simp add: net_ok_def linear_def nodes_ok_def)
qed

lemma net_ok_free_port:
  assumes ok: "net_ok h R" and n: "node_has h n c" and i: "i < ctor_arity (node_ctors h ! c)"
    and v: "port_value h n i = VPrincipal p"
    and p: "cell (principal_wires h) p = Some q" "pw_oppsite q \<noteq> None"
  shows "net_ok (principal_wire_destroy p (with_port n i VNull h)) R"
proof -
  let ?h = "principal_wire_destroy p (with_port n i VNull h)"
  have len: "n < length (nodes h)"
    using n by (simp add: node_has_def)
  have "refs ?h R u = refs (with_port n i VNull h) R u" for u
    by (simp add: refs_def)
  then have r: "refs ?h R u + (if VPrincipal p = u then 1 else 0) = refs h R u" if "u \<noteq> VNull" for u
    using refs_with_port [OF len that, of i VNull R] that v by auto
  have lp: "p < length (principal_wires h)"
    using p(1) by (rule cell_Some_length)
  have "refs ?h R (VWire x) = wire_weight (cell (wires ?h) x)" for x
    using ok r [of "VWire x"] by (simp add: net_ok_def linear_def)
  moreover have "refs ?h R (VPrincipal x) = pw_weight (cell (principal_wires ?h) x)" for x
    using ok r [of "VPrincipal x"] p lp
    by (auto simp: net_ok_def linear_def cell_update pw_weight_def split: if_splits)
  moreover have "pw_placed ?h x q" if q: "cell (principal_wires ?h) x = Some q" for x q
  proof -
    have "x \<noteq> p" "pw_placed h x q"
      using q lp ok by (auto simp: cell_update net_ok_def split: if_splits)
    then show ?thesis
      using v len port_value_with_port [OF len, of i VNull]
      by (auto simp: pw_placed_def port_value_def)
  qed
  moreover have "nodes_ok ?h"
    using nodes_ok_with_port [OF net_ok_nodes_ok [OF ok] n i, of VNull] by (simp add: nodes_ok_def)
  ultimately show ?thesis
    by (simp add: net_ok_def linear_def nodes_ok_def)
qed

section \<open>Disconnecting\<close>

text \<open>
  A node that can be taken apart: it is complete, and each of its principal wires is paired, so
  that no one else refers to it.
\<close>

definition ports_paired :: "heap \<Rightarrow> nat \<Rightarrow> nat \<Rightarrow> bool" where
  "ports_paired h n i \<longleftrightarrow>
     (\<forall>j p. i \<le> j \<longrightarrow> port_value h n j = VPrincipal p \<longrightarrow>
        (\<exists>q. cell (principal_wires h) p = Some q \<and> pw_oppsite q \<noteq> None))"

text \<open>Only principal wires at the ports of the node are freed.\<close>

definition frees_only :: "nat \<Rightarrow> heap \<Rightarrow> heap \<Rightarrow> bool" where
  "frees_only n h h' \<longleftrightarrow>
     nodes h' = nodes h \<and> node_ctors h' = node_ctors h \<and> wires h' = wires h \<and>
     (\<forall>x. (\<forall>j. port_value h n j \<noteq> VPrincipal x) \<longrightarrow>
        cell (principal_wires h') x = cell (principal_wires h) x)"

lemma frees_only_trans: "frees_only n h h' \<Longrightarrow> frees_only n h' h'' \<Longrightarrow> frees_only n h h''"
  by (simp add: frees_only_def port_value_def)

lemma ports_paired_destroy:
  assumes paired: "ports_paired h n i" and dead: "refs h R (VPrincipal p) = 0"
    and n: "n < length (nodes h)"
  shows "ports_paired (principal_wire_destroy p h) n i"
proof -
  have "port_value h n j \<noteq> VPrincipal p" for j
  proof
    assume pv: "port_value h n j = VPrincipal p"
    then have "VPrincipal p \<in> set (value_array (nodes h ! n))"
      using slot_mem [of VNull "value_array (nodes h ! n)" j] by (simp add: port_value_def)
    then have "0 < count_list (value_array (nodes h ! n)) (VPrincipal p)"
      by (simp add: count_list_pos)
    also have "\<dots> \<le> node_refs (nodes h) (VPrincipal p)"
      using n by (intro node_refs_member) simp
    finally show False
      using dead by (simp add: refs_def)
  qed
  then show ?thesis
    using paired by (auto simp: ports_paired_def port_value_def cell_update)
qed

lemma ports_paired_mono: "ports_paired h n i \<Longrightarrow> i \<le> k \<Longrightarrow> ports_paired h n k"
  unfolding ports_paired_def by (meson order_trans)

lemma ports_paired_emptied:
  "n < length (nodes h) \<Longrightarrow> i \<le> length (value_array (nodes h ! n)) \<Longrightarrow>
     ports_paired (emptied n i h) n i \<longleftrightarrow> ports_paired h n i"
  by (auto simp: ports_paired_def port_value_emptied)

lemma net_ok_disconnect_ports:
  assumes "node_has h n c" and "net_ok (emptied n i h) (vs @ R)" and "VNull \<notin> set vs"
    and "i + k = ctor_arity (node_ctors h ! c)" and "ports_paired h n i"
    and "\<forall>j. i \<le> j \<and> j < i + k \<longrightarrow> port_value h n j \<noteq> VNull"
    and "i + k \<le> length (value_array (nodes h ! n))"
  shows "\<exists>vs' h'. disconnect_ports n i k vs h = Inr (vs', h') \<and>
    net_ok (emptied n (i + k) h') (vs' @ R) \<and> VNull \<notin> set vs' \<and> frees_only n h h'"
  using assms
proof (induction k arbitrary: i vs h)
  case (Suc k)
  have len: "n < length (nodes h)" and co: "node_ctor_of (nodes h ! n) = Some c"
    using Suc.prems(1) by (auto simp: node_has_def)
  obtain v where v: "port_value h n i = v" "v \<noteq> VNull" "node_get_value h n i = Inr v"
    using Suc.prems(6) len co by (auto simp: node_get_value_def at_def port_value_def)
  have pe: "port_value (emptied n i h) n i = v"
    using v(1) Suc.prems(7) len by (simp add: port_value_emptied)
  have i: "i < ctor_arity (node_ctors (emptied n i h) ! c)"
    using Suc.prems(4) by simp
  have next_i: "emptied n (Suc i) h = with_port n i VNull (emptied n i h)"
    using Suc.prems(7) len by (intro emptied_Suc) simp_all
  have ge: "\<forall>j. Suc i \<le> j \<and> j < Suc i + k \<longrightarrow> port_value h n j \<noteq> VNull"
    using Suc.prems(6) by simp
  show ?case
  proof (cases "is_principal_wire v")
    case False
    have "net_ok (emptied n (Suc i) h) ((v # vs) @ R)"
      unfolding next_i using net_ok_take_port [OF Suc.prems(2) _ i pe v(2) False] Suc.prems(1) by simp
    moreover have "disconnect_ports n i (Suc k) vs h = disconnect_ports n (Suc i) k (v # vs) h"
      using v(3) False by (auto simp: is_principal_wire_def split: val.splits)
    moreover have "v \<noteq> VPrincipal p" for p
      using False by (auto simp: is_principal_wire_def)
    ultimately show ?thesis
      using Suc.IH [where i = "Suc i" and vs = "v # vs" and h = h] Suc.prems(1,3-7) v(2) False ge ports_paired_mono [OF Suc.prems(5), of "Suc i"]
      by (cases v) simp_all
  next
    case True
    then obtain p where p: "v = VPrincipal p"
      by (auto simp: is_principal_wire_def split: val.splits)
    obtain q where q: "cell (principal_wires h) p = Some q" "pw_oppsite q \<noteq> None"
      using Suc.prems(5) v(1) p unfolding ports_paired_def by blast
    let ?h = "principal_wire_destroy p h"
    have ok: "net_ok (emptied n (Suc i) ?h) (vs @ R)"
      unfolding emptied_destroy next_i
      using net_ok_free_port [OF Suc.prems(2) _ i] pe p q Suc.prems(1) by simp
    have "cell (principal_wires (emptied n (Suc i) ?h)) p = None"
      by (simp add: emptied_destroy cell_update cell_def)
    then have dead: "refs (emptied n (Suc i) ?h) (vs @ R) (VPrincipal p) = 0"
      using net_ok_dead_pw [OF ok] by simp
    have paired: "ports_paired ?h n (Suc i)"
    proof -
      have "ports_paired (emptied n (Suc i) h) n (Suc i)"
        using ports_paired_mono [OF Suc.prems(5), of "Suc i"] Suc.prems(7) len
        by (simp add: ports_paired_emptied)
      then have "ports_paired (emptied n (Suc i) ?h) n (Suc i)"
        using ports_paired_destroy [of "emptied n (Suc i) h" n "Suc i" "vs @ R" p] dead len
        by (simp add: emptied_destroy refs_def)
      then show ?thesis
        using Suc.prems(7) len by (simp add: ports_paired_emptied)
    qed
    have "\<exists>vs' h'. disconnect_ports n (Suc i) k vs ?h = Inr (vs', h') \<and>
        net_ok (emptied n (Suc i + k) h') (vs' @ R) \<and> VNull \<notin> set vs' \<and> frees_only n ?h h'"
      using Suc.IH [where i = "Suc i" and vs = vs and h = ?h] ok paired ge Suc.prems(1,3,4,7)
      by (simp add: node_has_def port_value_def)
    moreover have "frees_only n h ?h"
      using v(1) p by (auto simp: frees_only_def cell_update)
    ultimately show ?thesis
      using v(3) p q(1) frees_only_trans [of n h ?h] by auto
  qed
qed (simp add: frees_only_def)

lemma net_ok_worker_disconnect_node:
  assumes n: "node_complete (net m) n c" and ok: "net_ok (net m) (value_stack m @ R)"
    and vs: "VNull \<notin> set (value_stack m)" and paired: "ports_paired (net m) n 0"
    and al: "alloc_ok F (node_alloc m) (free_node_stack m) (net m)"
  shows "\<exists>h vs' alloc stack. worker_disconnect_node n m
      = Inr (m\<lparr>net := h, value_stack := vs', node_alloc := alloc, free_node_stack := stack\<rparr>) \<and>
    net_ok h (vs' @ R) \<and> VNull \<notin> set vs' \<and> alloc_ok F alloc stack h \<and>
    node_ctors h = node_ctors (net m) \<and> length (nodes h) = length (nodes (net m)) \<and>
    node_ctor_of (nodes h ! n) = None \<and>
    (\<forall>k < length (nodes h). k \<noteq> n \<longrightarrow> nodes h ! k = nodes (net m) ! k) \<and>
    (\<forall>x. (\<forall>j. port_value (net m) n j \<noteq> VPrincipal x) \<longrightarrow>
        cell (principal_wires h) x = cell (principal_wires (net m)) x)"
proof -
  let ?c = "node_ctors (net m) ! c"
  have has: "node_has (net m) n c" and full: "\<forall>i < ctor_arity ?c. port_value (net m) n i \<noteq> VNull"
    using n by (simp_all add: node_complete_def)
  have len: "n < length (nodes (net m))"
    using has by (simp add: node_has_def)
  have "length (value_array (nodes (net m) ! n)) \<le> ctor_arity ?c"
    using ok has by (auto simp: net_ok_def node_has_def node_ok_def split: option.splits)
  moreover have "ctor_arity ?c \<le> length (value_array (nodes (net m) ! n))"
    using full by (cases "ctor_arity ?c")
      (auto simp: port_value_def slot_def dest!: spec [of _ "ctor_arity ?c - 1"] split: if_splits)
  ultimately have arity: "ctor_arity ?c = length (value_array (nodes (net m) ! n))"
    by simp
  obtain vs' h1 where run: "disconnect_ports n 0 (ctor_arity ?c) (value_stack m) (net m) = Inr (vs', h1)"
    and h1: "net_ok (emptied n (ctor_arity ?c) h1) (vs' @ R)" "VNull \<notin> set vs'"
      "frees_only n (net m) h1"
    using net_ok_disconnect_ports [OF has, of 0 "value_stack m" R "ctor_arity ?c"]
      ok vs paired full arity by (auto simp: emptied_0)
  have same: "nodes h1 = nodes (net m)" "node_ctors h1 = node_ctors (net m)"
    using h1(3) by (simp_all add: frees_only_def)
  let ?e = "emptied n (ctor_arity ?c) h1"
  let ?m1 = "m\<lparr>net := h1, value_stack := vs'\<rparr>"
  let ?g = "m\<lparr>net := ?e, value_stack := vs'\<rparr>"
  have free: "n \<notin> set (free_nodes F (node_alloc m) (free_node_stack m))"
    using al has by (auto simp: alloc_ok_def blank_def node_has_def)
  have "alloc_ok F (node_alloc m) (free_node_stack m) h1"
    using al by (simp add: alloc_ok_def same)
  then have "alloc_ok F (node_alloc ?g) (free_node_stack ?g) (net ?g)"
    using alloc_ok_set_node free by (simp add: emptied_def)
  moreover have "set (value_array (nodes (net ?g) ! n)) \<subseteq> {VNull}"
    using arity len same by (auto simp: emptied_def)
  ultimately obtain h alloc stack where g: "worker_recycle_node n ?g
      = Inr (?g\<lparr>net := h, node_alloc := alloc, free_node_stack := stack\<rparr>)"
    and h: "alloc_ok F alloc stack h" "net_ok h (vs' @ R)" "extends n (net ?g) h"
      "length (nodes h) = length (nodes (net ?g))" "node_ctor_of (nodes h ! n) = None"
    using worker_recycle_node_ok [of F ?g "vs' @ R" n] h1(1) len same free by auto
  have clean: "set_node n (node_clean (nodes ?e ! n)) ?e = set_node n (node_clean (nodes h1 ! n)) h1"
    using len same by (simp add: emptied_def set_node_def node_clean_def)
  have "worker_recycle_node n ?m1
      = Inr (?m1\<lparr>net := h, node_alloc := alloc, free_node_stack := stack\<rparr>)"
    using g clean len same by (auto simp: worker_recycle_node_def at_def bnd_eq_Inr)
  then have "worker_disconnect_node n m
      = Inr (m\<lparr>net := h, value_stack := vs', node_alloc := alloc, free_node_stack := stack\<rparr>)"
    using run ctor_of_node_has [OF has] by (simp add: worker_disconnect_node_def)
  moreover have "node_ctors h = node_ctors (net m)" "length (nodes h) = length (nodes (net m))"
    using h(3,4) same by (simp_all add: extends_def)
  moreover have "\<forall>k < length (nodes h). k \<noteq> n \<longrightarrow> nodes h ! k = nodes (net m) ! k"
    using h(3,4) same by (simp add: extends_def emptied_def)
  moreover have "\<forall>x. (\<forall>j. port_value (net m) n j \<noteq> VPrincipal x) \<longrightarrow>
      cell (principal_wires h) x = cell (principal_wires (net m)) x"
    using h(3) h1(3) by (simp add: extends_def frees_only_def)
  ultimately show ?thesis
    using h h1(2) by blast
qed

end
