(* ===== verification/Parallel_Connect.thy ===== *)
theory Parallel_Connect
  imports Linearity
begin

text \<open>
  Several workers connecting values at once (\<open>src/src/core/connect.c\<close>). What they share is the
  net; a worker in the middle of \<open>connect\<close> holds the two values it still has to connect. Each
  access to shared memory is a step of its own: the compare-and-exchange on a wire's
  \<open>atomic_fuzed_value\<close>, storing an argument of a primitive node, and \<open>atomic_fetch_add\<close> on its
  count. Pairing two principal wires, which no other worker holds, is one step, since nothing
  that runs in between reads what it writes. The steps of the workers interleave in any order.
\<close>

section \<open>The turns of a worker\<close>

datatype connecting =
    Connecting val val
  | Counting nat
  | Connected "task option"

definition store_turn :: "nat \<Rightarrow> val \<Rightarrow> heap \<Rightarrow> (connecting \<times> heap) res" where
  "store_turn a arg h = bnd (store_primitive_arg a arg h) (\<lambda>(n, h). Inr (Counting n, h))"

text \<open>The compare-and-exchange either puts the value into the wire or finds the one that is there.\<close>

definition fuze_turn :: "nat \<Rightarrow> val \<Rightarrow> heap \<Rightarrow> (connecting \<times> heap) res" where
  "fuze_turn a v h =
     deref (cell (wires h) a) (\<lambda>expected_fuzed_value.
       if expected_fuzed_value = VNull then Inr (Connected None, set_fuzed_value a v h)
       else Inr (Connecting expected_fuzed_value v, wire_destroy a h))"

fun connect_turn :: "connecting \<Rightarrow> heap \<Rightarrow> (connecting \<times> heap) res" where
  "connect_turn (Connecting (VWire a) right) h = fuze_turn a right h"
| "connect_turn (Connecting left (VWire b)) h = fuze_turn b left h"
| "connect_turn (Connecting (VPrincipal a) (VPrincipal b)) h =
     bnd (connect_active_pair a b h) (\<lambda>(task, h). Inr (Connected task, h))"
| "connect_turn (Connecting (VPrincipal a) right) h = store_turn a right h"
| "connect_turn (Connecting left (VPrincipal b)) h = store_turn b left h"
| "connect_turn (Connecting left right) h = Inl Assert_failed"
| "connect_turn (Counting n) h =
     bnd (count_primitive_arg n h) (\<lambda>(task, h). Inr (Connected task, h))"
| "connect_turn (Connected task) h = Inr (Connected task, h)"

definition connect_over :: "connecting \<Rightarrow> bool" where
  "connect_over t = (case t of Connected _ \<Rightarrow> True | _ \<Rightarrow> False)"

text \<open>One of the workers that is not done takes a turn.\<close>

type_synonym connecting_state = "heap \<times> connecting list"

inductive connect_step :: "connecting_state \<Rightarrow> connecting_state \<Rightarrow> bool" where
  turn: "i < length ts \<Longrightarrow> \<not> connect_over (ts ! i) \<Longrightarrow> connect_turn (ts ! i) h = Inr (t, h') \<Longrightarrow>
    connect_step (h, ts) (h', ts[i := t])"

inductive_cases connect_stepE: "connect_step (h, ts) s"

text \<open>The turns in a given order, to evaluate an interleaving.\<close>

fun run_schedule :: "nat list \<Rightarrow> connecting_state \<Rightarrow> connecting_state option" where
  "run_schedule [] s = Some s"
| "run_schedule (i # is) (h, ts) =
     (if i < length ts \<and> \<not> connect_over (ts ! i)
      then (case connect_turn (ts ! i) h of
              Inl e \<Rightarrow> None
            | Inr (t, h') \<Rightarrow> run_schedule is (h', ts[i := t]))
      else None)"

lemma run_schedule_steps: "run_schedule is s = Some s' \<Longrightarrow> connect_step\<^sup>*\<^sup>* s s'"
proof (induction "is" s rule: run_schedule.induct)
  case (2 i "is" h ts)
  then obtain t h' where t: "i < length ts" "\<not> connect_over (ts ! i)" "connect_turn (ts ! i) h = Inr (t, h')"
    and rest: "run_schedule is (h', ts[i := t]) = Some s'"
    by (auto split: if_splits sum.splits)
  from 2(1) [OF _ t(3) refl rest] t have "connect_step\<^sup>*\<^sup>* (h', ts[i := t]) s'"
    by simp
  then show ?case
    by (rule converse_rtranclp_into_rtranclp [rotated]) (rule connect_step.turn [OF t])
qed simp

text \<open>A worker on its own takes turns until it is done, and then it is where \<open>connect\<close> is.\<close>

fun connect_turns :: "nat \<Rightarrow> connecting \<Rightarrow> heap \<Rightarrow> (connecting \<times> heap) res" where
  "connect_turns 0 t h = Inr (t, h)"
| "connect_turns (Suc k) t h = bnd (connect_turn t h) (\<lambda>(t, h). connect_turns k t h)"

lemma connect_turn_swap:
  "\<not> is_wire left \<Longrightarrow> connect_turn (Connecting left (VWire b)) h = fuze_turn b left h"
  by (cases left) (simp_all add: is_wire_def)

lemma connect_turns_over [simp]: "connect_turns k (Connected task) h = Inr (Connected task, h)"
  by (induction k) simp_all

lemma connect_turns_collect:
  "bnd (store_turn a v h)
     (\<lambda>p. bnd (connect_turn (fst p) (snd p)) (\<lambda>p. connect_turns k (fst p) (snd p))) =
    bnd (collect_primitive_arg a v h) (\<lambda>p. Inr (Connected (fst p), snd p))"
  unfolding collect_primitive_arg_parts
  by (cases "store_primitive_arg a v h") (simp_all add: store_turn_def bnd_assoc split_def)

definition turns_of :: "heap \<Rightarrow> nat" where
  "turns_of h = live_cells (wires h) + 2"

lemma turns_of_Suc: "turns_of h \<le> Suc k \<Longrightarrow> \<exists>j. k = Suc j"
  by (cases k) (simp_all add: turns_of_def)

lemma connect_turns_connect_fuze:
  "turns_of h \<le> Suc k \<Longrightarrow> connect_turns (Suc k) (Connecting x y) h =
     bnd (connect x y h) (\<lambda>(task, h'). Inr (Connected task, h'))"
  "turns_of h \<le> Suc k \<Longrightarrow>
     bnd (fuze_turn a v h) (\<lambda>(t, h). connect_turns k t h) =
     bnd (fuze a v h) (\<lambda>(task, h'). Inr (Connected task, h'))"
proof (induction x y h and a v h arbitrary: k and k rule: connect_fuze.induct)
  case (7 a v h)
  show ?case
  proof (cases "cell (wires h) a")
    case (Some f)
    show ?thesis
    proof (cases "f = VNull")
      case False
      have "live_cells (wires (wire_destroy a h)) < live_cells (wires h)"
        using live_cells_free [OF Some] by (simp add: wire_destroy_def)
      then obtain j where "k = Suc j" "turns_of (wire_destroy a h) \<le> Suc j"
        using 7(2) by (cases k) (auto simp: turns_of_def)
      with 7(1) [OF Some False] False show ?thesis
        by (simp add: Some fuze_turn_def fuze.simps)
    qed (simp add: Some fuze_turn_def fuze.simps)
  qed (simp add: fuze_turn_def fuze.simps)
qed (auto simp: bnd_assoc connect_turns_collect split_def dest!: turns_of_Suc)

section \<open>The net while workers connect\<close>

definition end_roots :: "connecting \<Rightarrow> val list" where
  "end_roots t = (case t of Connecting x y \<Rightarrow> [x, y] | _ \<Rightarrow> [])"

definition connecting_ok :: "heap \<Rightarrow> connecting \<Rightarrow> bool" where
  "connecting_ok h t \<longleftrightarrow>
     (case t of
        Connecting x y \<Rightarrow> x \<noteq> VNull \<and> y \<noteq> VNull
      | Counting n \<Rightarrow> n < length (nodes h) \<and> node_ctor_of (nodes h ! n) \<noteq> None
      | Connected task \<Rightarrow> True)"

definition all_roots :: "connecting list \<Rightarrow> val list \<Rightarrow> val list" where
  "all_roots ts R = concat (map end_roots ts) @ R"

definition connecting_inv :: "val list \<Rightarrow> connecting_state \<Rightarrow> bool" where
  "connecting_inv R s \<longleftrightarrow>
     (case s of (h, ts) \<Rightarrow> net_ok h (all_roots ts R) \<and> (\<forall>t \<in> set ts. connecting_ok h t))"

text \<open>The wires that are left bound the turns that are left.\<close>

definition turn_weight :: "connecting \<Rightarrow> nat" where
  "turn_weight t = (case t of Connecting _ _ \<Rightarrow> 2 | Counting _ \<Rightarrow> 1 | Connected _ \<Rightarrow> 0)"

definition turns_left :: "connecting_state \<Rightarrow> nat" where
  "turns_left s = (case s of (h, ts) \<Rightarrow> live_cells (wires h) + sum_list (map turn_weight ts))"

lemmas connecting_simps =
  end_roots_def connecting_ok_def turn_weight_def connect_over_def

lemma connect_active_pair_wires:
  "connect_active_pair a b h = Inr (task, h') \<Longrightarrow> wires h' = wires h"
  by (auto simp: connect_active_pair_def set_oppsite_def bnd_eq_Inr deref_eq_Inr split: if_splits)

lemma store_primitive_arg_wires: "store_primitive_arg a v h = Inr (n, h') \<Longrightarrow> wires h' = wires h"
  by (auto simp: store_primitive_arg_def node_set_value_def asserting_eq_Inr bnd_eq_Inr deref_eq_Inr)

lemma count_primitive_arg_wires: "count_primitive_arg n h = Inr (task, h') \<Longrightarrow> wires h' = wires h"
  by (auto simp: count_primitive_arg_def node_primitive_arg_count_fetch_add1_def bnd_eq_Inr deref_eq_Inr)

lemma connecting_ok_same_shape: "connecting_ok h t \<Longrightarrow> same_shape h h' \<Longrightarrow> connecting_ok h' t"
  by (cases t) (auto simp: connecting_ok_def same_shape_def node_shape_def list_eq_iff_nth_eq)

text \<open>A turn keeps the net linear over what its worker still holds and all the other roots.\<close>

definition turn_keeps :: "val list \<Rightarrow> connecting \<Rightarrow> heap \<Rightarrow> connecting \<times> heap \<Rightarrow> bool" where
  "turn_keeps R t h = (\<lambda>(t', h'). net_ok h' (end_roots t' @ R) \<and> same_shape h h' \<and> connecting_ok h' t' \<and>
     live_cells (wires h') + turn_weight t' < live_cells (wires h) + turn_weight t)"

lemma fuze_turn_keeps:
  assumes "net_ok h (VWire a # v # R)" and "v \<noteq> VNull"
  shows "safely (turn_keeps R (Connecting x y) h) (fuze_turn a v h)"
proof -
  obtain f where f: "cell (wires h) a = Some f"
    using net_ok_live_wire [OF assms(1), of a] by auto
  show ?thesis
  proof (cases "f = VNull")
    case True
    have "live_cells ((wires h)[a := Some v]) = live_cells (wires h)"
      using live_cells_update [OF f] by simp
    then show ?thesis
      using net_ok_fill [OF assms(1) _ assms(2)] f True
      by (simp add: fuze_turn_def turn_keeps_def connecting_simps same_shape_def)
  next
    case False
    then show ?thesis
      using net_ok_pass [OF assms(1) f] live_cells_free [OF f] f assms(2)
      by (simp add: fuze_turn_def turn_keeps_def connecting_simps same_shape_def)
  qed
qed

lemma store_turn_keeps:
  assumes "net_ok h (VPrincipal a # v # R)" and "v \<noteq> VNull"
  shows "safely (turn_keeps R (Connecting x y) h) (store_turn a v h)"
  unfolding store_turn_def
  using net_ok_store_arg [OF assms]
  by (cases "store_primitive_arg a v h")
    (auto simp: turn_keeps_def connecting_simps dest: store_primitive_arg_wires)

lemma connect_turn_keeps:
  assumes "net_ok h (end_roots t @ R)" and "connecting_ok h t" and "\<not> connect_over t"
  shows "safely (turn_keeps R t h) (connect_turn t h)"
proof (cases t)
  case (Connecting x y)
  have xy: "net_ok h (x # y # R)" "x \<noteq> VNull" "y \<noteq> VNull"
    using assms by (simp_all add: Connecting end_roots_def connecting_ok_def)
  note yx = net_ok_swap [OF xy(1)]
  have pair: "safely (turn_keeps R t h) (bnd (connect_active_pair a b h) (\<lambda>(task, h). Inr (Connected task, h)))"
    if "x = VPrincipal a" "y = VPrincipal b" for a b
    using net_ok_connect_active_pair [of h a b R] xy that
    by (cases "connect_active_pair a b h")
      (auto simp: turn_keeps_def connecting_simps Connecting dest: connect_active_pair_wires)
  show ?thesis
    unfolding Connecting using xy yx pair Connecting
    by (cases x; cases y) (auto intro: fuze_turn_keeps store_turn_keeps)
next
  case (Counting n)
  then show ?thesis
    using net_ok_count [of h R n] assms
    by (cases "count_primitive_arg n h")
      (auto simp: turn_keeps_def connecting_simps dest: count_primitive_arg_wires)
qed (use assms in \<open>simp add: connect_over_def\<close>)

text \<open>The same for one worker among the others.\<close>

lemma all_roots_nth:
  assumes i: "i < length ts"
  shows "count_list (all_roots (ts[i := t]) R) v =
    count_list (end_roots t @ all_roots (take i ts) (all_roots (drop (Suc i) ts) R)) v"
  using i by (simp add: all_roots_def upd_conv_take_nth_drop)

definition other_roots :: "nat \<Rightarrow> connecting list \<Rightarrow> val list \<Rightarrow> val list" where
  "other_roots i ts R = all_roots (take i ts) (all_roots (drop (Suc i) ts) R)"

lemma net_ok_one_worker:
  assumes "i < length ts"
  shows "net_ok h (all_roots (ts[i := t]) R) \<longleftrightarrow> net_ok h (end_roots t @ other_roots i ts R)"
  unfolding other_roots_def using all_roots_nth [OF assms] net_ok_roots_cong by metis

lemma connecting_inv_turn:
  assumes inv: "connecting_inv R (h, ts)" and i: "i < length ts" "\<not> connect_over (ts ! i)"
  shows "safely (turn_keeps (other_roots i ts R) (ts ! i) h) (connect_turn (ts ! i) h)"
proof (rule connect_turn_keeps [OF _ _ i(2)])
  show "net_ok h (end_roots (ts ! i) @ other_roots i ts R)"
    using inv net_ok_one_worker [OF i(1), of h "ts ! i"] by (simp add: connecting_inv_def)
  show "connecting_ok h (ts ! i)"
    using inv i(1) by (simp add: connecting_inv_def)
qed

lemma connect_step_keeps:
  assumes "connect_step s s'" and inv: "connecting_inv R s"
  shows "connecting_inv R s' \<and> turns_left s' < turns_left s"
  using assms
proof (induction rule: connect_step.induct)
  case (turn i ts h t h')
  have k: "turn_keeps (other_roots i ts R) (ts ! i) h (t, h')"
    using safely_Inr [OF connecting_inv_turn turn(3)] turn by blast
  have "sum_list (map turn_weight (ts[i := t])) + turn_weight (ts ! i)
      = sum_list (map turn_weight ts) + turn_weight t"
    using sum_list_update_nat [OF turn(1)] by simp
  then have "turns_left (h', ts[i := t]) < turns_left (h, ts)"
    using k by (simp add: turns_left_def turn_keeps_def)
  moreover have "connecting_ok h' u" if "u \<in> set (ts[i := t])" for u
  proof -
    have "u = t \<or> u \<in> set ts"
      using that set_update_subset_insert [of ts i t] by blast
    then show ?thesis
      using k turn(4) connecting_ok_same_shape [of h u h']
      by (auto simp: turn_keeps_def connecting_inv_def)
  qed
  ultimately show ?case
    using k net_ok_one_worker [OF turn(1)] by (simp add: connecting_inv_def turn_keeps_def)
qed

lemma connect_steps_keep:
  assumes "(connect_step ^^ n) s s'" and "connecting_inv R s"
  shows "connecting_inv R s' \<and> n + turns_left s' \<le> turns_left s"
  using assms(1)
proof (induction n arbitrary: s')
  case (Suc n)
  then obtain u where u: "(connect_step ^^ n) s u" "connect_step u s'"
    by auto
  show ?case
    using Suc.IH [OF u(1)] connect_step_keeps [OF u(2)] by fastforce
qed (use assms(2) in simp)

lemma connect_reachable_keep:
  assumes "connect_step\<^sup>*\<^sup>* s s'" and "connecting_inv R s"
  shows "connecting_inv R s'"
  using assms by (induction rule: rtranclp_induct) (auto dest: connect_step_keeps)

text \<open>No worker is about to touch freed memory.\<close>

lemma connecting_inv_no_undefined:
  assumes "connecting_inv R (h, ts)" and "t \<in> set ts"
  shows "connect_turn t h \<noteq> Inl Undefined"
proof (cases "connect_over t")
  case True
  then show ?thesis
    by (cases t) (simp_all add: connect_over_def)
next
  case False
  obtain i where "i < length ts" "ts ! i = t"
    using assms(2) by (auto simp: in_set_conv_nth)
  then show ?thesis
    using connecting_inv_turn [OF assms(1), of i] False by auto
qed

end
