(* ===== verification/Connect_Graph.thy ===== *)
theory Connect_Graph
  imports Parallel_Connect
begin

text \<open>
  What a net connects: the graph whose vertices are the ports of nodes and the values, with an
  edge from a port to the value in it, from a wire to the value it is fuzed to, between the two
  principal wires of an active pair, and between the two values a worker is about to connect.
  No turn of \<open>connect\<close> changes which of the things that survive it are joined, so the interleaving
  of several workers has no influence on the net they leave.
\<close>

section \<open>The graph of a net\<close>

datatype vertex =
    Port nat nat
  | End val

definition is_link :: "vertex \<Rightarrow> bool" where
  "is_link u = (case u of Port _ _ \<Rightarrow> True | End v \<Rightarrow> \<not> is_non_wire v)"

definition paired :: "heap \<Rightarrow> nat \<Rightarrow> nat \<Rightarrow> bool" where
  "paired h a b \<longleftrightarrow>
     (\<exists>p q. cell (principal_wires h) a = Some p \<and> cell (principal_wires h) b = Some q \<and>
        pw_oppsite p = Some b \<and> pw_oppsite q = Some a)"

inductive heap_edge :: "heap \<Rightarrow> vertex \<Rightarrow> vertex \<Rightarrow> bool" for h where
  fuzed: "cell (wires h) a = Some f \<Longrightarrow> f \<noteq> VNull \<Longrightarrow> heap_edge h (End (VWire a)) (End f)"
| port: "n < length (nodes h) \<Longrightarrow> slot VNull (value_array (nodes h ! n)) i = v \<Longrightarrow> v \<noteq> VNull \<Longrightarrow>
    heap_edge h (Port n i) (End v)"
| pair: "paired h a b \<Longrightarrow> heap_edge h (End (VPrincipal a)) (End (VPrincipal b))"

inductive_simps heap_edge_wire: "heap_edge h (End (VWire a)) u"
inductive_simps heap_edge_port: "heap_edge h (Port n i) u"
inductive_simps heap_edge_principal: "heap_edge h (End (VPrincipal a)) u"
inductive_cases heap_edgeE: "heap_edge h u v"

definition pending_edge :: "connecting \<Rightarrow> vertex \<Rightarrow> vertex \<Rightarrow> bool" where
  "pending_edge t u v \<longleftrightarrow> (\<exists>x y. t = Connecting x y \<and> u = End x \<and> v = End y)"

definition edge :: "connecting_state \<Rightarrow> vertex \<Rightarrow> vertex \<Rightarrow> bool" where
  "edge s u v \<longleftrightarrow> heap_edge (fst s) u v \<or> (\<exists>t \<in> set (snd s). pending_edge t u v)"

definition touching :: "connecting_state \<Rightarrow> vertex \<Rightarrow> vertex \<Rightarrow> bool" where
  "touching s u v \<longleftrightarrow> edge s u v \<or> edge s v u"

text \<open>A path may end in a value that is not a wire, but not go through it.\<close>

definition joined :: "connecting_state \<Rightarrow> vertex \<Rightarrow> vertex \<Rightarrow> bool" where
  "joined s = (\<lambda>u v. is_link u \<and> touching s u v)\<^sup>*\<^sup>*"

definition alive :: "heap \<Rightarrow> vertex \<Rightarrow> bool" where
  "alive h u =
     (case u of
        End (VWire a) \<Rightarrow> cell (wires h) a \<noteq> None
      | End (VPrincipal a) \<Rightarrow> cell (principal_wires h) a \<noteq> None
      | _ \<Rightarrow> True)"

lemma alive_wire_simps:
  "alive h (End (VWire a)) \<longleftrightarrow> cell (wires h) a \<noteq> None"
  "alive h (End (VPrincipal a)) \<longleftrightarrow> cell (principal_wires h) a \<noteq> None"
  by (simp_all add: alive_def)

section \<open>Contracting a vertex\<close>

text \<open>A vertex between two others can be taken out and the two joined directly.\<close>

lemma contract_vertex:
  assumes near: "\<And>w. S a w \<longleftrightarrow> w = x \<or> w = y" and sym: "\<And>u v. S u v \<longleftrightarrow> S v u"
    and new: "\<And>u v. S' u v \<longleftrightarrow> u \<noteq> a \<and> v \<noteq> a \<and> S u v \<or> u = x \<and> v = y \<or> u = y \<and> v = x"
    and a: "x \<noteq> a" "y \<noteq> a" "L a" and uw: "u \<noteq> a" "w \<noteq> a"
  shows "(\<lambda>u v. L u \<and> S u v)\<^sup>*\<^sup>* u w \<longleftrightarrow> (\<lambda>u v. L u \<and> S' u v)\<^sup>*\<^sup>* u w" (is "?R\<^sup>*\<^sup>* _ _ \<longleftrightarrow> ?R'\<^sup>*\<^sup>* _ _")
proof
  assume "?R\<^sup>*\<^sup>* u w"
  then have "if w = a then ?R'\<^sup>*\<^sup>* u x \<and> L x \<or> ?R'\<^sup>*\<^sup>* u y \<and> L y else ?R'\<^sup>*\<^sup>* u w"
  proof (induction rule: rtranclp_induct)
    case (step v w)
    consider "v = a" | "v \<noteq> a" "w = a" | "v \<noteq> a" "w \<noteq> a"
      by blast
    then show ?case
    proof cases
      case 1
      then have w: "w = x \<or> w = y"
        using step near by auto
      have "?R'\<^sup>*\<^sup>* u x \<and> L x \<or> ?R'\<^sup>*\<^sup>* u y \<and> L y"
        using step.IH 1 by simp
      moreover have "?R'\<^sup>*\<^sup>* u y" if "?R'\<^sup>*\<^sup>* u x" "L x"
        by (rule rtranclp.rtrancl_into_rtrancl [OF that(1)]) (simp add: new that)
      moreover have "?R'\<^sup>*\<^sup>* u x" if "?R'\<^sup>*\<^sup>* u y" "L y"
        by (rule rtranclp.rtrancl_into_rtrancl [OF that(1)]) (simp add: new that)
      ultimately show ?thesis
        using w a by auto
    next
      case 2
      then have "v = x \<or> v = y"
        using step sym near by metis
      then show ?thesis
        using step 2 by auto
    next
      case 3
      then have "?R' v w"
        using step new by simp
      then show ?thesis
        using step.IH 3 by (simp add: rtranclp.rtrancl_into_rtrancl)
    qed
  qed (use uw in simp)
  then show "?R'\<^sup>*\<^sup>* u w"
    using uw by simp
next
  assume "?R'\<^sup>*\<^sup>* u w"
  then show "?R\<^sup>*\<^sup>* u w"
  proof (induction rule: rtranclp_induct)
    case (step v w)
    have "?R\<^sup>*\<^sup>* v w"
    proof (cases "S v w")
      case False
      then have vw: "v = x \<and> w = y \<or> v = y \<and> w = x" and "L v"
        using step(2) new by auto
      moreover have "S a v" "S a w"
        using vw near by auto
      ultimately have "?R v a" "?R a w"
        using sym [of v a] a(3) by simp_all
      then show ?thesis
        by (intro converse_rtranclp_into_rtranclp [of ?R v a w] r_into_rtranclp [of ?R a w])
    qed (use step in auto)
    then show ?case
      using step by simp
  qed simp
qed

section \<open>What a turn does to the graph\<close>

text \<open>Once a wire is gone, nothing mentions it.\<close>

lemma freed_wire_untouched:
  assumes ok: "net_ok h R" and a: "cell (wires h) a = None"
  shows "VWire a \<notin> set R" "\<not> heap_edge h u (End (VWire a))" "\<not> heap_edge h (End (VWire a)) u"
proof -
  have r: "refs h R (VWire a) = 0"
    using ok a by (simp add: net_ok_def linear_def wire_weight_def)
  then show "VWire a \<notin> set R"
    by (simp add: refs_def count_list_0_iff)
  have n: "VWire a \<notin> set (value_array n)" if "n \<in> set (nodes h)" for n
    using node_refs_member [OF that, of "VWire a"] r by (simp add: refs_def count_list_0_iff)
  show "\<not> heap_edge h u (End (VWire a))"
  proof
    assume "heap_edge h u (End (VWire a))"
    then show False
    proof (cases rule: heap_edge.cases)
      case (fuzed b)
      then have "Some (VWire a) \<in> set (wires h)"
        using cell_Some_nth cell_Some_length by (metis nth_mem)
      with r show False
        by (simp add: refs_def count_list_0_iff)
    next
      case (port m i)
      then show False
        using n [of "nodes h ! m"] slot_mem [of VNull "value_array (nodes h ! m)" i] by simp
    qed
  qed
  show "\<not> heap_edge h (End (VWire a)) u"
    using a by (simp add: heap_edge_wire)
qed

lemma freed_pw_untouched:
  assumes ok: "net_ok h R" and a: "cell (principal_wires h) a = None"
  shows "VPrincipal a \<notin> set R" "\<not> heap_edge h u (End (VPrincipal a))"
    "\<not> heap_edge h (End (VPrincipal a)) u"
proof -
  have r: "refs h R (VPrincipal a) = 0"
    using ok a by (simp add: net_ok_def linear_def pw_weight_def)
  then show "VPrincipal a \<notin> set R"
    by (simp add: refs_def count_list_0_iff)
  have n: "VPrincipal a \<notin> set (value_array n)" if "n \<in> set (nodes h)" for n
    using node_refs_member [OF that, of "VPrincipal a"] r by (simp add: refs_def count_list_0_iff)
  show "\<not> heap_edge h u (End (VPrincipal a))"
  proof
    assume "heap_edge h u (End (VPrincipal a))"
    then show False
    proof (cases rule: heap_edge.cases)
      case (fuzed b)
      then have "Some (VPrincipal a) \<in> set (wires h)"
        using cell_Some_nth cell_Some_length by (metis nth_mem)
      with r show False
        by (simp add: refs_def count_list_0_iff)
    next
      case (port m i)
      then show False
        using n [of "nodes h ! m"] slot_mem [of VNull "value_array (nodes h ! m)" i] by simp
    qed (use a in \<open>simp add: paired_def\<close>)
  qed
  show "\<not> heap_edge h (End (VPrincipal a)) u"
    using a by (simp add: heap_edge_principal paired_def)
qed

lemma heap_edge_wire_destroy:
  assumes "a < length (wires h)"
  shows "heap_edge (wire_destroy a h) u v \<longleftrightarrow> u \<noteq> End (VWire a) \<and> heap_edge h u v"
  using assms
  by (auto simp: cell_update paired_def elim!: heap_edgeE intro: heap_edge.intros split: if_splits)

lemma heap_edge_set_fuzed_value:
  assumes "cell (wires h) a = Some VNull" and "f \<noteq> VNull"
  shows "heap_edge (set_fuzed_value a f h) u v \<longleftrightarrow>
    heap_edge h u v \<or> u = End (VWire a) \<and> v = End f"
  using assms cell_Some_length [OF assms(1)]
  by (auto simp: heap_edge.simps cell_update paired_def)

section \<open>Turns keep what is joined\<close>

definition rest_edge :: "nat \<Rightarrow> connecting list \<Rightarrow> vertex \<Rightarrow> vertex \<Rightarrow> bool" where
  "rest_edge i ts u v \<longleftrightarrow> (\<exists>j < length ts. j \<noteq> i \<and> pending_edge (ts ! j) u v)"

lemma bex_set_nth: "(\<exists>x \<in> set xs. P x) \<longleftrightarrow> (\<exists>j < length xs. P (xs ! j))"
  by (auto simp: set_conv_nth)

lemma edge_one_worker:
  assumes "i < length ts"
  shows "edge (h, ts[i := t]) u v \<longleftrightarrow> heap_edge h u v \<or> pending_edge t u v \<or> rest_edge i ts u v"
proof -
  have "(\<exists>t' \<in> set (ts[i := t]). pending_edge t' u v) \<longleftrightarrow>
      (\<exists>j < length ts. pending_edge (ts[i := t] ! j) u v)"
    using bex_set_nth [of "ts[i := t]"] by simp
  also have "\<dots> \<longleftrightarrow> pending_edge t u v \<or> rest_edge i ts u v"
    using assms by (auto simp: rest_edge_def nth_list_update)
  finally show ?thesis
    by (simp add: edge_def)
qed

lemma edge_this_worker:
  assumes "i < length ts"
  shows "edge (h, ts) u v \<longleftrightarrow> heap_edge h u v \<or> pending_edge (ts ! i) u v \<or> rest_edge i ts u v"
  using edge_one_worker [OF assms, of h "ts ! i"] by simp

lemma set_nth_other:
  "j < length ts \<Longrightarrow> j \<noteq> i \<Longrightarrow> ts ! j \<in> set (take i ts) \<union> set (drop (Suc i) ts)"
proof (cases "j < i")
  case False
  assume j: "j < length ts" "j \<noteq> i"
  with False have "drop (Suc i) ts ! (j - Suc i) = ts ! j" "j - Suc i < length (drop (Suc i) ts)"
    by simp_all
  then show ?thesis
    using nth_mem by (metis UnI2)
next
  case True
  assume j: "j < length ts" "j \<noteq> i"
  with True have "take i ts ! j = ts ! j" "j < length (take i ts)"
    by simp_all
  then show ?thesis
    using nth_mem by (metis UnI1)
qed

lemma rest_edge_roots:
  assumes "rest_edge i ts u v"
  shows "\<exists>x y. u = End x \<and> v = End y \<and> x \<in> set (other_roots i ts R) \<and> y \<in> set (other_roots i ts R)"
proof -
  obtain j x y where j: "j < length ts" "j \<noteq> i" "ts ! j = Connecting x y" "u = End x" "v = End y"
    using assms by (auto simp: rest_edge_def pending_edge_def)
  then have "ts ! j \<in> set (take i ts) \<union> set (drop (Suc i) ts)"
    using set_nth_other [of j ts i] by simp
  with j show ?thesis
    by (force simp: other_roots_def all_roots_def end_roots_def)
qed

lemma pending_edge_simps [simp]:
  "pending_edge (Connecting x y) u v \<longleftrightarrow> u = End x \<and> v = End y"
  "\<not> pending_edge (Counting n) u v"
  "\<not> pending_edge (Connected task) u v"
  by (auto simp: pending_edge_def)

lemma alive_wire_destroy: "alive (wire_destroy a h) u \<Longrightarrow> a < length (wires h) \<Longrightarrow> u \<noteq> End (VWire a)"
  by (auto simp: alive_def cell_update)

definition ends_of :: "connecting \<Rightarrow> val \<Rightarrow> val \<Rightarrow> bool" where
  "ends_of t x y \<longleftrightarrow> t = Connecting x y \<or> t = Connecting y x"

lemma joined_cong: "(\<And>u v. touching s u v \<longleftrightarrow> touching s' u v) \<Longrightarrow> joined s u v \<longleftrightarrow> joined s' u v"
  by (simp add: joined_def)

lemma connecting_inv_ends:
  assumes inv: "connecting_inv R (h, ts)" and i: "i < length ts" and t: "ends_of (ts ! i) x y"
  shows "net_ok h (x # y # other_roots i ts R)" "y \<noteq> VNull"
proof -
  have "connecting_ok h (ts ! i)" "net_ok h (end_roots (ts ! i) @ other_roots i ts R)"
    using inv i net_ok_one_worker [OF i, of h "ts ! i" R] by (auto simp: connecting_inv_def)
  then show "net_ok h (x # y # other_roots i ts R)" "y \<noteq> VNull"
    using t net_ok_swap [of h y x] by (auto simp: connecting_ok_def end_roots_def ends_of_def)
qed

lemma fuze_turn_joined:
  assumes inv: "connecting_inv R (h, ts)" and i: "i < length ts"
    and t: "ends_of (ts ! i) (VWire a) v" and run: "fuze_turn a v h = Inr (t', h')"
    and uw: "alive h' u" "alive h' w"
  shows "joined (h, ts) u w \<longleftrightarrow> joined (h', ts[i := t']) u w"
proof -
  note ok = connecting_inv_ends [OF inv i t]
  obtain f where f: "cell (wires h) a = Some f"
    using run by (auto simp: fuze_turn_def deref_eq_Inr)
  show ?thesis
  proof (cases "f = VNull")
    case True
    then have "t' = Connected None" "h' = set_fuzed_value a v h"
      using run f by (auto simp: fuze_turn_def)
    then show ?thesis
      using t f True ok(2)
      by (intro joined_cong)
        (auto simp: touching_def edge_this_worker [OF i] edge_one_worker [OF i] ends_of_def
          heap_edge_set_fuzed_value)
  next
    case False
    let ?A = "End (VWire a)"
    have t': "t' = Connecting f v" "h' = wire_destroy a h"
      using run f False by (auto simp: fuze_turn_def)
    have a: "a < length (wires h)"
      using f by (rule cell_Some_length)
    have ok': "net_ok h' (f # v # other_roots i ts R)"
      using net_ok_pass [OF ok(1) f False] t' by simp
    have none: "cell (wires h') a = None"
      using a by (simp add: t' cell_update)
    note gone = freed_wire_untouched [OF ok' none]
    have A: "End f \<noteq> ?A" "End v \<noteq> ?A"
      using gone(1) by auto
    have rest: "\<not> rest_edge i ts ?A x" "\<not> rest_edge i ts x ?A" for x
      using gone(1) rest_edge_roots [of i ts _ _ R] by fastforce+
    have heap: "heap_edge h' x y \<longleftrightarrow> x \<noteq> ?A \<and> heap_edge h x y" for x y
      using heap_edge_wire_destroy [OF a] by (simp add: t')
    have into: "\<not> heap_edge h x ?A" for x
      using gone(2) [of x] heap A f False by (cases "x = ?A") (auto simp: heap_edge_wire)
    have out: "heap_edge h ?A x \<longleftrightarrow> x = End f" for x
      using f False by (auto simp: heap_edge_wire)
    show ?thesis
      unfolding joined_def
    proof (rule contract_vertex [where a = ?A and x = "End f" and y = "End v"])
      show "touching (h, ts) ?A x \<longleftrightarrow> x = End f \<or> x = End v" for x
        using t A out into rest
        by (auto simp: touching_def edge_this_worker [OF i] ends_of_def)
      show "touching (h, ts) x y \<longleftrightarrow> touching (h, ts) y x" for x y
        by (auto simp: touching_def)
      show "touching (h', ts[i := t']) x y \<longleftrightarrow>
          x \<noteq> ?A \<and> y \<noteq> ?A \<and> touching (h, ts) x y \<or>
          x = End f \<and> y = End v \<or> x = End v \<and> y = End f" for x y
        using t A into rest heap t'(1)
        by (auto simp: touching_def edge_this_worker [OF i] edge_one_worker [OF i] ends_of_def)
      show "u \<noteq> ?A" "w \<noteq> ?A"
        using uw alive_wire_destroy [OF _ a] by (auto simp: t')
    qed (use A in \<open>simp_all add: is_link_def is_non_wire_def is_wire_def\<close>)
  qed
qed

lemma store_primitive_arg_Inr:
  assumes "store_primitive_arg a v h = Inr (n, h')"
  shows "\<exists>p. cell (principal_wires h) a = Some p \<and> n = pw_node p \<and> n < length (nodes h) \<and>
    h' = set_node n ((nodes h ! n)
      \<lparr>value_array := slot_set VNull (value_array (nodes h ! n)) (pw_index p) v\<rparr>) (principal_wire_destroy a h)"
  using assms
  by (auto simp: store_primitive_arg_def node_set_value_def asserting_eq_Inr bnd_eq_Inr deref_eq_Inr
      at_Some_iff)

lemma heap_edge_store:
  assumes ok: "net_ok h (VPrincipal a # v # R)" and v: "v \<noteq> VNull"
    and run: "store_primitive_arg a v h = Inr (n, h')" and p: "cell (principal_wires h) a = Some p"
  shows "heap_edge h' x y \<longleftrightarrow>
      x \<noteq> End (VPrincipal a) \<and> y \<noteq> End (VPrincipal a) \<and> heap_edge h x y \<or>
      x = Port (pw_node p) (pw_index p) \<and> y = End v"
    and "heap_edge h (Port (pw_node p) (pw_index p)) y \<longleftrightarrow> y = End (VPrincipal a)"
    and "heap_edge h x (End (VPrincipal a)) \<Longrightarrow> x = Port (pw_node p) (pw_index p)"
    and "\<not> heap_edge h (End (VPrincipal a)) y"
proof -
  let ?A = "End (VPrincipal a)" and ?P = "Port (pw_node p) (pw_index p)"
  have h': "n = pw_node p" "n < length (nodes h)" "h' = set_node n ((nodes h ! n)
      \<lparr>value_array := slot_set VNull (value_array (nodes h ! n)) (pw_index p) v\<rparr>) (principal_wire_destroy a h)"
    using store_primitive_arg_Inr [OF run] p by auto
  have opp: "pw_oppsite p = None" and placed: "pw_placed h a p"
    using net_ok_live_pw [OF ok, of a] p by auto
  have a: "a < length (principal_wires h)"
    using p by (rule cell_Some_length)
  have ok': "net_ok h' R"
    using net_ok_store_arg [OF ok v] run by simp
  have none: "cell (principal_wires h') a = None"
    using a by (simp add: h' cell_update)
  note gone = freed_pw_untouched [OF ok' none]
  show out: "\<not> heap_edge h ?A y" for y
    using opp p by (auto simp: heap_edge_principal paired_def)
  show P: "heap_edge h ?P y \<longleftrightarrow> y = ?A" for y
    using placed by (auto simp: heap_edge_port pw_placed_def)
  have paired': "paired h' b c \<longleftrightarrow> b \<noteq> a \<and> c \<noteq> a \<and> paired h b c" for b c
    using a by (auto simp: paired_def h'(3) cell_update)
  have wire: "heap_edge h' (End u) y \<longleftrightarrow> heap_edge h (End u) y" if "End u \<noteq> ?A" "y \<noteq> ?A" for u y
    using that paired' by (auto simp: heap_edge.simps h'(3))
  have other: "heap_edge h' (Port m j) y \<longleftrightarrow> heap_edge h (Port m j) y" if "Port m j \<noteq> ?P" for m j y
    using that h'(1,2) by (auto simp: heap_edge_port h'(3) nth_list_update slot_slot_set)
  have P': "heap_edge h' ?P y \<longleftrightarrow> y = End v" for y
    using h'(1,2) v by (auto simp: heap_edge_port h'(3))
  show into: "x = ?P" if "heap_edge h x ?A" for x
  proof (rule ccontr)
    assume x: "x \<noteq> ?P"
    show False
    proof (cases x)
      case (Port m j)
      then show False
        using other [of m j ?A] x that gone(2) by simp
    next
      case (End u)
      then have "heap_edge h' x ?A"
        using that opp p a by (auto simp: heap_edge.simps h'(3) paired_def cell_update)
      then show False
        using gone(2) by simp
    qed
  qed
  show "heap_edge h' x y \<longleftrightarrow> x \<noteq> ?A \<and> y \<noteq> ?A \<and> heap_edge h x y \<or> x = ?P \<and> y = End v"
  proof (cases "y = ?A \<or> x = ?A \<or> x = ?P")
    case False
    then show ?thesis
      using wire other by (cases x) auto
  qed (use gone P P' into out in auto)
qed

lemma store_turn_joined:
  assumes inv: "connecting_inv R (h, ts)" and i: "i < length ts"
    and t: "ends_of (ts ! i) (VPrincipal a) v" and run: "store_turn a v h = Inr (t', h')"
    and uw: "alive h' u" "alive h' w"
  shows "joined (h, ts) u w \<longleftrightarrow> joined (h', ts[i := t']) u w"
proof -
  let ?A = "End (VPrincipal a)"
  note ok = connecting_inv_ends [OF inv i t]
  obtain n where n: "store_primitive_arg a v h = Inr (n, h')" "t' = Counting n"
    using run by (auto simp: store_turn_def bnd_eq_Inr)
  obtain p where p: "cell (principal_wires h) a = Some p"
    and h': "principal_wires h' = (principal_wires h)[a := None]"
    using store_primitive_arg_Inr [OF n(1)] by auto
  let ?P = "Port (pw_node p) (pw_index p)"
  note heap = heap_edge_store [OF ok n(1) p]
  have none: "cell (principal_wires h') a = None"
    using cell_Some_length [OF p] by (simp add: h' cell_update)
  have "net_ok h' (other_roots i ts R)"
    using net_ok_store_arg [OF ok] n by simp
  note gone = freed_pw_untouched [OF this none]
  have rest: "\<not> rest_edge i ts ?A x" "\<not> rest_edge i ts x ?A" for x
    using gone(1) rest_edge_roots [of i ts _ _ R] by fastforce+
  have v: "v \<noteq> VPrincipal a"
    using net_ok_root_distinct [of h a a "other_roots i ts R"] ok by auto
  show ?thesis
    unfolding joined_def
  proof (rule contract_vertex [where a = ?A and x = ?P and y = "End v"])
    show "touching (h, ts) ?A x \<longleftrightarrow> x = ?P \<or> x = End v" for x
      using t v rest heap(2,4) heap(3) [of x]
      by (auto simp: touching_def edge_this_worker [OF i] ends_of_def)
    show "touching (h, ts) x y \<longleftrightarrow> touching (h, ts) y x" for x y
      by (auto simp: touching_def)
    show "touching (h', ts[i := t']) x y \<longleftrightarrow>
        x \<noteq> ?A \<and> y \<noteq> ?A \<and> touching (h, ts) x y \<or>
        x = ?P \<and> y = End v \<or> x = End v \<and> y = ?P" for x y
      using t v rest heap(1) n(2)
      by (auto simp: touching_def edge_this_worker [OF i] edge_one_worker [OF i] ends_of_def)
    show "u \<noteq> ?A" "w \<noteq> ?A"
      using uw none by (auto simp: alive_def)
  qed (use v in \<open>simp_all add: is_link_def is_non_wire_def is_principal_wire_def\<close>)
qed

lemma connect_active_pair_pairs:
  "connect_active_pair a b h = Inr (task, h') \<Longrightarrow> pair_principal_wires a b h = Inr h'"
  by (auto simp: connect_active_pair_def pair_principal_wires_def bnd_eq_Inr split: if_splits)

lemma heap_edge_pair:
  assumes ok: "net_ok h (VPrincipal a # VPrincipal b # R)"
    and run: "connect_active_pair a b h = Inr (task, h')"
  shows "heap_edge h' x y \<longleftrightarrow> heap_edge h x y \<or>
      x = End (VPrincipal a) \<and> y = End (VPrincipal b) \<or> x = End (VPrincipal b) \<and> y = End (VPrincipal a)"
    and "alive h' x \<longleftrightarrow> alive h x"
proof -
  obtain p q where p: "cell (principal_wires h) a = Some p" "pw_oppsite p = None"
    and q: "cell (principal_wires h) b = Some q" "pw_oppsite q = None"
    using net_ok_live_pw [OF ok, of a] net_ok_live_pw [OF ok, of b] by auto
  have h': "wires h' = wires h" "nodes h' = nodes h"
    and pw: "\<And>c. cell (principal_wires h') c =
       (if c = a then Some (p\<lparr>pw_oppsite := Some b\<rparr>)
        else if c = b then Some (q\<lparr>pw_oppsite := Some a\<rparr>)
        else cell (principal_wires h) c)"
    using net_ok_pair [OF ok] connect_active_pair_pairs [OF run] p q by auto
  note ab = net_ok_root_distinct [OF ok]
  have other: "paired h' c d \<longleftrightarrow> paired h c d" if "c \<notin> {a, b}" "d \<notin> {a, b}" for c d
    using that by (auto simp: paired_def pw)
  have before: "\<not> paired h a d" "\<not> paired h b d" "\<not> paired h c a" "\<not> paired h c b" for c d
    using p q by (auto simp: paired_def)
  have after: "paired h' a d \<longleftrightarrow> d = b" "paired h' b d \<longleftrightarrow> d = a"
    "paired h' c a \<longleftrightarrow> c = b" "paired h' c b \<longleftrightarrow> c = a" for c d
    using ab by (auto simp: paired_def pw)
  have pairs: "paired h' c d \<longleftrightarrow> paired h c d \<or> c = a \<and> d = b \<or> c = b \<and> d = a" for c d
    using other [of c d] before after ab by (cases "c \<in> {a, b}"; cases "d \<in> {a, b}") auto
  show "heap_edge h' x y \<longleftrightarrow> heap_edge h x y \<or>
      x = End (VPrincipal a) \<and> y = End (VPrincipal b) \<or> x = End (VPrincipal b) \<and> y = End (VPrincipal a)"
    by (auto simp: heap_edge.simps h' pairs)
  show "alive h' x \<longleftrightarrow> alive h x"
    using p q by (auto simp: alive_def h' pw split: vertex.splits val.splits)
qed

lemma pair_turn_joined:
  assumes inv: "connecting_inv R (h, ts)" and i: "i < length ts"
    and t: "ts ! i = Connecting (VPrincipal a) (VPrincipal b)"
    and run: "connect_active_pair a b h = Inr (task, h')"
  shows "joined (h, ts) u w \<longleftrightarrow> joined (h', ts[i := Connected task]) u w"
proof -
  have "net_ok h (VPrincipal a # VPrincipal b # other_roots i ts R)"
    by (rule connecting_inv_ends [OF inv i]) (simp add: t ends_of_def)
  note heap = heap_edge_pair(1) [OF this run]
  show ?thesis
    by (rule joined_cong)
      (auto simp: touching_def edge_this_worker [OF i] edge_one_worker [OF i] t heap)
qed

lemma count_primitive_arg_Inr:
  assumes "count_primitive_arg n h = Inr (task, h')"
  shows "n < length (nodes h) \<and>
    h' = set_node n ((nodes h ! n)\<lparr>primitive_arg_count := Suc (primitive_arg_count (nodes h ! n))\<rparr>) h"
  using assms
  by (auto simp: count_primitive_arg_def node_primitive_arg_count_fetch_add1_def bnd_eq_Inr deref_eq_Inr
      at_Some_iff)

lemma count_turn_joined:
  assumes i: "i < length ts" "ts ! i = Counting n" and run: "count_primitive_arg n h = Inr (task, h')"
  shows "joined (h, ts) u w \<longleftrightarrow> joined (h', ts[i := Connected task]) u w"
proof -
  have "heap_edge h' x y \<longleftrightarrow> heap_edge h x y" for x y
    using count_primitive_arg_Inr [OF run]
    by (auto simp: heap_edge.simps paired_def nth_list_update)
  then show ?thesis
    by (intro joined_cong)
      (auto simp: touching_def edge_this_worker [OF i(1)] edge_one_worker [OF i(1)] i(2))
qed

text \<open>The four kinds of turns, as one case rule.\<close>

lemma connect_turn_cases:
  assumes "connect_turn t h = Inr (t', h')" and "\<not> connect_over t"
  obtains (fuze) a v where "ends_of t (VWire a) v" "fuze_turn a v h = Inr (t', h')"
  | (store) a v where "ends_of t (VPrincipal a) v" "is_non_wire v" "store_turn a v h = Inr (t', h')"
  | (pair) a b task where "t = Connecting (VPrincipal a) (VPrincipal b)"
      "connect_active_pair a b h = Inr (task, h')" "t' = Connected task"
  | (count) n task where "t = Counting n" "count_primitive_arg n h = Inr (task, h')"
      "t' = Connected task"
proof (cases t)
  case (Connecting x y)
  then show ?thesis
    using assms fuze store pair
    by (cases x; cases y)
      (auto simp: ends_of_def bnd_eq_Inr is_non_wire_def is_wire_def is_principal_wire_def)
qed (use assms count in \<open>auto simp: bnd_eq_Inr connect_over_def\<close>)

lemma connect_step_joined:
  assumes step: "connect_step (h, ts) (h', ts')" and inv: "connecting_inv R (h, ts)"
    and uw: "alive h' u" "alive h' w"
  shows "joined (h, ts) u w \<longleftrightarrow> joined (h', ts') u w"
  using step
proof (cases rule: connect_step.cases)
  case (turn i t)
  from turn(4,3) show ?thesis
    by (cases rule: connect_turn_cases)
      (use turn fuze_turn_joined [OF inv turn(2) _ _ uw] store_turn_joined [OF inv turn(2) _ _ uw]
        pair_turn_joined [OF inv turn(2)] count_turn_joined [OF turn(2)] in simp_all)
qed

section \<open>Any number of turns\<close>

lemma connect_step_alive:
  assumes step: "connect_step (h, ts) (h', ts')" and inv: "connecting_inv R (h, ts)" and u: "alive h' u"
  shows "alive h u"
  using step
proof (cases rule: connect_step.cases)
  case (turn i t)
  from turn(4,3) show ?thesis
  proof (cases rule: connect_turn_cases)
    case (fuze a v)
    then show ?thesis
      using u by (auto simp: fuze_turn_def deref_eq_Inr alive_def cell_update
          split: if_splits vertex.splits val.splits)
  next
    case (store a v)
    then show ?thesis
      using u store_primitive_arg_Inr
      by (fastforce simp: store_turn_def bnd_eq_Inr alive_def cell_update
          split: if_splits vertex.splits val.splits)
  next
    case (pair a b task)
    have "net_ok h (VPrincipal a # VPrincipal b # other_roots i ts R)"
      by (rule connecting_inv_ends [OF inv turn(2)]) (simp add: pair ends_of_def)
    then show ?thesis
      using heap_edge_pair(2) pair(2) u by blast
  next
    case (count n task)
    then show ?thesis
      using u count_primitive_arg_Inr [OF count(2)] by (auto simp: alive_def split: vertex.splits val.splits)
  qed
qed

lemma connect_reachable_joined:
  assumes "connect_step\<^sup>*\<^sup>* s s'" and "connecting_inv R s"
  shows "connecting_inv R s' \<and> (\<forall>u. alive (fst s') u \<longrightarrow> alive (fst s) u) \<and>
    (\<forall>u w. alive (fst s') u \<and> alive (fst s') w \<longrightarrow> (joined s u w \<longleftrightarrow> joined s' u w))"
  using assms(1)
proof (induction rule: rtranclp_induct)
  case (step s1 s2)
  obtain h ts h' ts' where s: "s1 = (h, ts)" "s2 = (h', ts')"
    by (cases s1, cases s2)
  then have st: "connect_step (h, ts) (h', ts')"
    using step by simp
  have inv: "connecting_inv R (h, ts)"
    using step.IH s by simp
  show ?case
    using step.IH connect_step_keeps [OF st inv] connect_step_alive [OF st inv]
      connect_step_joined [OF st inv] s by simp
qed (use assms(2) in simp)

section \<open>Reading the graph of a finished net\<close>

text \<open>Following wires and ports down to the value they lead to.\<close>

definition down :: "heap \<Rightarrow> vertex \<Rightarrow> vertex \<Rightarrow> bool" where
  "down h u w \<longleftrightarrow> heap_edge h u w \<and> (\<forall>a. u \<noteq> End (VPrincipal a))"

lemma down_unique: "down h u v \<Longrightarrow> down h u w \<Longrightarrow> v = w"
  by (auto simp: down_def heap_edge.simps)

lemma down_principal [simp]: "\<not> down h (End (VPrincipal a)) u"
  by (simp add: down_def)

lemma down_end: "(down h)\<^sup>*\<^sup>* (End (VPrincipal a)) u \<Longrightarrow> u = End (VPrincipal a)"
  by (erule converse_rtranclpE) simp_all

lemma down_non_wire: "is_non_wire v \<Longrightarrow> (down h)\<^sup>*\<^sup>* (End v) u \<Longrightarrow> u = End v"
  by (erule converse_rtranclpE)
    (auto simp: down_def heap_edge.simps is_non_wire_def is_wire_def is_principal_wire_def)

lemma down_step:
  assumes "(down h)\<^sup>*\<^sup>* u (End (VPrincipal a))" and "down h u w"
  shows "(down h)\<^sup>*\<^sup>* w (End (VPrincipal a))"
  using assms by (metis converse_rtranclpE down_principal down_unique)

lemma paired_sym: "paired h a b \<longleftrightarrow> paired h b a"
  by (auto simp: paired_def)

lemma paired_unique: "paired h a b \<Longrightarrow> paired h a c \<Longrightarrow> b = c"
  by (auto simp: paired_def)

lemma joined_principal:
  assumes over: "\<forall>t \<in> set ts. connect_over t" and "joined (h, ts) (End (VPrincipal a)) u"
  shows "(down h)\<^sup>*\<^sup>* u (End (VPrincipal a)) \<or>
    (\<exists>b. paired h a b \<and> (down h)\<^sup>*\<^sup>* u (End (VPrincipal b)))"
  using assms(2) unfolding joined_def
proof (induction rule: rtranclp_induct)
  case (step u w)
  have "heap_edge h u w \<or> heap_edge h w u"
    using step.hyps(2) over
    by (auto simp: touching_def edge_def pending_edge_def connect_over_def)
  then consider (down) "down h u w" | (up) "down h w u"
    | (pair) c d where "u = End (VPrincipal c)" "w = End (VPrincipal d)" "paired h c d"
    by (auto simp: down_def heap_edge.simps paired_sym)
  then show ?case
  proof cases
    case down
    then show ?thesis
      using step.IH down_step by blast
  next
    case up
    then show ?thesis
      using step.IH by (meson converse_rtranclp_into_rtranclp)
  next
    case pair
    have "c = a \<or> paired h a c"
      using step.IH pair(1) down_end by fastforce
    then show ?thesis
      using pair paired_sym paired_unique by (metis rtranclp.rtrancl_refl)
  qed
qed simp

lemma joined_principals:
  assumes "\<forall>t \<in> set ts. connect_over t" and "joined (h, ts) (End (VPrincipal a)) (End (VPrincipal b))"
  shows "a = b \<or> paired h a b"
  using joined_principal [OF assms] down_end by fastforce

lemma joined_principal_non_wire:
  assumes "\<forall>t \<in> set ts. connect_over t" and "is_non_wire v"
  shows "\<not> joined (h, ts) (End (VPrincipal a)) (End v)"
  using joined_principal [OF assms(1)] down_non_wire [OF assms(2)] assms(2)
  by (fastforce simp: is_non_wire_def is_principal_wire_def)

section \<open>Any two interleavings leave the same net\<close>

definition port_filled :: "heap \<Rightarrow> nat \<Rightarrow> nat \<Rightarrow> bool" where
  "port_filled h n i \<longleftrightarrow> n < length (nodes h) \<and>
     slot VNull (value_array (nodes h ! n)) i \<noteq> VNull \<and>
     is_non_wire (slot VNull (value_array (nodes h ! n)) i)"

text \<open>A principal wire stays where it is until an argument takes its place.\<close>

definition pw_kept :: "heap \<Rightarrow> heap \<Rightarrow> nat \<Rightarrow> principal_wire \<Rightarrow> bool" where
  "pw_kept h h' a p \<longleftrightarrow>
     (\<exists>p'. cell (principal_wires h') a = Some p' \<and> pw_node p' = pw_node p \<and> pw_index p' = pw_index p) \<or>
     cell (principal_wires h') a = None \<and> port_filled h' (pw_node p) (pw_index p)"

lemma connect_step_pw_kept:
  assumes step: "connect_step (h, ts) (h', ts')" and inv: "connecting_inv R (h, ts)"
  shows "(cell (principal_wires h) a = Some p \<longrightarrow> pw_kept h h' a p) \<and>
    (port_filled h n i \<longrightarrow> port_filled h' n i)"
  using step
proof (cases rule: connect_step.cases)
  case (turn j t)
  from turn(4,3) show ?thesis
  proof (cases rule: connect_turn_cases)
    case (fuze b v)
    then show ?thesis
      by (auto simp: fuze_turn_def deref_eq_Inr pw_kept_def port_filled_def split: if_splits)
  next
    case (store b v)
    note ok = connecting_inv_ends [OF inv turn(2) store(1)]
    obtain m where m: "store_primitive_arg b v h = Inr (m, h')"
      using store by (auto simp: store_turn_def bnd_eq_Inr)
    then obtain q where q: "cell (principal_wires h) b = Some q" "m = pw_node q" "m < length (nodes h)"
      and h': "h' = set_node m ((nodes h ! m)
        \<lparr>value_array := slot_set VNull (value_array (nodes h ! m)) (pw_index q) v\<rparr>) (principal_wire_destroy b h)"
      using store_primitive_arg_Inr by blast
    have "pw_placed h b q"
      using net_ok_live_pw [OF ok(1), of b] q by auto
    then have old: "slot VNull (value_array (nodes h ! m)) (pw_index q) = VPrincipal b"
      using q by (simp add: pw_placed_def)
    have "port_filled h' n i" if "port_filled h n i"
      using that old q(3) by (cases "n = m")
        (auto simp: port_filled_def h' slot_slot_set is_non_wire_def is_principal_wire_def)
    moreover have "port_filled h' m (pw_index q)"
      using store(2) ok(2) q(3) by (simp add: port_filled_def h')
    then have "pw_kept h h' a p" if "cell (principal_wires h) a = Some p"
      using that q cell_Some_length [OF that] by (auto simp: pw_kept_def h' cell_update)
    ultimately show ?thesis
      by blast
  next
    case (pair b c task)
    have ok: "net_ok h (VPrincipal b # VPrincipal c # other_roots j ts R)"
      by (rule connecting_inv_ends [OF inv turn(2)]) (simp add: pair ends_of_def)
    then show ?thesis
      using net_ok_pair [OF ok] connect_active_pair_pairs [OF pair(2)]
      by (auto simp: pw_kept_def port_filled_def)
  next
    case (count m task)
    then show ?thesis
      using count_primitive_arg_Inr [OF count(2)]
      by (auto simp: pw_kept_def port_filled_def nth_list_update)
  qed
qed

lemma connect_reachable_pw_kept:
  assumes "connect_step\<^sup>*\<^sup>* s s'" and "connecting_inv R s"
    and p: "cell (principal_wires (fst s)) a = Some p"
  shows "pw_kept (fst s) (fst s') a p"
  using assms(1)
proof (induction rule: rtranclp_induct)
  case (step s1 s2)
  obtain h ts h' ts' where s: "s1 = (h, ts)" "s2 = (h', ts')"
    by (cases s1, cases s2)
  then have st: "connect_step (h, ts) (h', ts')"
    using step by simp
  have inv: "connecting_inv R (h, ts)"
    using connect_reachable_keep [OF step.hyps(1) assms(2)] s by simp
  have none: "cell (principal_wires h') a = None" if "cell (principal_wires h) a = None"
    using connect_step_alive [OF st inv, of "End (VPrincipal a)"] that
    by (cases "cell (principal_wires h') a") (auto simp: alive_def)
  show ?case
    using step.IH connect_step_pw_kept [OF st inv] none s
    by (fastforce simp: pw_kept_def)
qed (use p in \<open>simp add: pw_kept_def\<close>)

lemma alive_port [simp]: "alive h (Port n i)"
  by (simp add: alive_def)

lemma alive_non_wire: "is_non_wire v \<Longrightarrow> alive h (End v)"
  by (auto simp: alive_def is_non_wire_def is_wire_def is_principal_wire_def split: val.splits)

text \<open>The principal wires that became arguments are the same, however the workers interleave.\<close>

lemma principal_wires_agree:
  assumes inv: "connecting_inv R s"
    and run1: "connect_step\<^sup>*\<^sup>* s (h1, ts1)"
    and run2: "connect_step\<^sup>*\<^sup>* s (h2, ts2)" "\<forall>t \<in> set ts2. connect_over t"
    and gone: "cell (principal_wires h1) a = None"
  shows "cell (principal_wires h2) a = None"
proof (rule ccontr)
  assume here: "cell (principal_wires h2) a \<noteq> None"
  note k1 = connect_reachable_joined [OF run1 inv] and k2 = connect_reachable_joined [OF run2(1) inv]
  have "alive h2 (End (VPrincipal a))"
    using here by (simp add: alive_def)
  then have "alive (fst s) (End (VPrincipal a))"
    using k2 by auto
  then obtain p where p: "cell (principal_wires (fst s)) a = Some p"
    by (auto simp: alive_def)
  let ?P = "Port (pw_node p) (pw_index p)" and ?A = "End (VPrincipal a)"
  have "port_filled h1 (pw_node p) (pw_index p)"
    using connect_reachable_pw_kept [OF run1 inv p] gone by (simp add: pw_kept_def)
  then obtain v where v: "heap_edge h1 ?P (End v)" "is_non_wire v"
    by (auto simp: port_filled_def heap_edge_port)
  then have "joined (h1, ts1) ?P (End v)"
    by (auto simp: joined_def is_link_def touching_def edge_def intro!: r_into_rtranclp)
  then have "joined s ?P (End v)"
    using k1 alive_non_wire [OF v(2)] by auto
  then have two: "joined (h2, ts2) ?P (End v)"
    using k2 alive_non_wire [OF v(2)] by auto
  obtain p2 where p2: "cell (principal_wires h2) a = Some p2" "pw_node p2 = pw_node p" "pw_index p2 = pw_index p"
    using connect_reachable_pw_kept [OF run2(1) inv p] here by (auto simp: pw_kept_def)
  moreover have "pw_placed h2 a p2"
    using k2 p2(1) by (simp add: connecting_inv_def net_ok_def)
  ultimately have "heap_edge h2 ?P ?A"
    by (simp add: pw_placed_def heap_edge_port)
  then have "joined (h2, ts2) ?A ?P"
    by (auto simp: joined_def is_link_def is_non_wire_def is_principal_wire_def touching_def edge_def
        intro!: r_into_rtranclp)
  with two have "joined (h2, ts2) ?A (End v)"
    unfolding joined_def by (rule rtranclp_trans [rotated])
  then show False
    using joined_principal_non_wire [OF run2(2) v(2)] by simp
qed

lemma pairs_agree:
  assumes inv: "connecting_inv R s"
    and run1: "connect_step\<^sup>*\<^sup>* s (h1, ts1)" "\<forall>t \<in> set ts1. connect_over t"
    and run2: "connect_step\<^sup>*\<^sup>* s (h2, ts2)" "\<forall>t \<in> set ts2. connect_over t"
    and pair: "paired h1 a b" "a \<noteq> b"
  shows "paired h2 a b"
proof -
  note k1 = connect_reachable_joined [OF run1(1) inv] and k2 = connect_reachable_joined [OF run2(1) inv]
  have al1: "alive h1 (End (VPrincipal a))" "alive h1 (End (VPrincipal b))"
    using pair by (auto simp: paired_def alive_def)
  have al2: "alive h2 (End (VPrincipal a))" "alive h2 (End (VPrincipal b))"
    using principal_wires_agree [OF inv run2(1) run1] al1 unfolding alive_def by fastforce+
  have "joined (h1, ts1) (End (VPrincipal a)) (End (VPrincipal b))"
    using pair(1) by (auto simp: joined_def is_link_def is_non_wire_def is_principal_wire_def touching_def
        edge_def heap_edge_principal intro!: r_into_rtranclp)
  then have "joined s (End (VPrincipal a)) (End (VPrincipal b))"
    using k1 al1 by auto
  then have "joined (h2, ts2) (End (VPrincipal a)) (End (VPrincipal b))"
    using k2 al2 by auto
  then show ?thesis
    using joined_principals [OF run2(2)] pair(2) by blast
qed

end
