(* ===== verification/Parallel_Args.thy ===== *)
theory Parallel_Args
  imports Connect_Graph
begin

text \<open>
  The arguments of a primitive node come from several workers. Each stores its argument and then
  adds one to the node's count; the one whose addition completes the count gets the task. So
  exactly one worker gets it, and only when every argument is in its port.
\<close>

section \<open>Counting arguments\<close>

text \<open>The ports that still wait for their argument hold a principal wire.\<close>

definition empty_args :: "heap \<Rightarrow> nat \<Rightarrow> nat" where
  "empty_args h n = (\<Sum>v\<leftarrow>value_array (nodes h ! n). if is_principal_wire v then 1 else 0)"

text \<open>\<open>old\<close> says that the node had all its arguments before the run.\<close>

definition args_inv :: "nat \<Rightarrow> nat \<Rightarrow> bool \<Rightarrow> connecting_state \<Rightarrow> bool" where
  "args_inv n k old s \<longleftrightarrow>
     (case s of (h, ts) \<Rightarrow>
        n < length (nodes h) \<and> node_principal_port_count h n = Inr k \<and>
        primitive_arg_count (nodes h ! n) + count_list ts (Counting n) + empty_args h n = k \<and>
        (old \<longrightarrow> primitive_arg_count (nodes h ! n) = k) \<and>
        count_list ts (Connected (Some (Task_primitive n)))
          = (if primitive_arg_count (nodes h ! n) = k \<and> \<not> old then 1 else 0))"

lemma node_principal_port_count_same_shape:
  assumes "same_shape h h'"
  shows "node_principal_port_count h' n = node_principal_port_count h n"
proof -
  have len: "length (nodes h') = length (nodes h)"
    using assms by (auto simp: same_shape_def dest: map_eq_imp_length_eq)
  have "node_ctor_of (nodes h' ! n) = node_ctor_of (nodes h ! n)" if "n < length (nodes h)"
    using that assms len by (auto simp: same_shape_def list_eq_iff_nth_eq node_shape_def)
  then show ?thesis
    using assms len by (auto simp: same_shape_def node_principal_port_count_def ctor_of_node_def at_def)
qed

lemma match_rules_active_pair:
  "match_rules h rules a b = Inr task \<Longrightarrow> task \<noteq> Some (Task_primitive n)"
  by (induction rules) (auto simp: rule_match_def bnd_eq_Inr split: if_splits)

lemma connect_active_pair_task:
  "connect_active_pair a b h = Inr (task, h') \<Longrightarrow> task \<noteq> Some (Task_primitive n)"
  by (auto simp: connect_active_pair_def bnd_eq_Inr split: if_splits dest: match_rules_active_pair)

lemma args_inv_step:
  assumes step: "connect_step (h, ts) (h', ts')" and inv: "connecting_inv R (h, ts)"
    and args: "args_inv n k old (h, ts)"
  shows "args_inv n k old (h', ts')"
  using step
proof (cases rule: connect_step.cases)
  case (turn i t)
  have shape: "same_shape h h'"
    using safely_Inr [OF connecting_inv_turn [OF inv turn(2,3)] turn(4)] by (simp add: turn_keeps_def)
  note ports = node_principal_port_count_same_shape [OF shape]
  have tally: "count_list ts' x + (if ts ! i = x then 1 else 0) = count_list ts x + (if t = x then 1 else 0)"
    for x
    using count_list_update_nat [OF turn(2), of t x] turn(1) by simp
  note counts = tally [of "Counting n"] tally [of "Connected (Some (Task_primitive n))"]
  from turn(4,3) show ?thesis
  proof (cases rule: connect_turn_cases)
    case (fuze a v)
    then have "nodes h' = nodes h" "t \<noteq> Counting n" "t \<noteq> Connected (Some (Task_primitive n))"
      by (auto simp: fuze_turn_def deref_eq_Inr split: if_splits)
    moreover have "ts ! i \<noteq> Counting n" "ts ! i \<noteq> Connected (Some (Task_primitive n))"
      using fuze(1) by (auto simp: ends_of_def)
    ultimately show ?thesis
      using args counts ports by (simp add: args_inv_def empty_args_def)
  next
    case (store a v)
    obtain m where m: "store_primitive_arg a v h = Inr (m, h')" "t = Counting m"
      using store by (auto simp: store_turn_def bnd_eq_Inr)
    then obtain p where p: "cell (principal_wires h) a = Some p" "m = pw_node p" "m < length (nodes h)"
      and h': "h' = set_node m ((nodes h ! m)
        \<lparr>value_array := slot_set VNull (value_array (nodes h ! m)) (pw_index p) v\<rparr>) (principal_wire_destroy a h)"
      using store_primitive_arg_Inr by blast
    have "pw_placed h a p"
      using net_ok_live_pw [OF connecting_inv_ends(1) [OF inv turn(2) store(1)], of a] p by auto
    then have old: "pw_index p < length (value_array (nodes h ! m))"
      "value_array (nodes h ! m) ! pw_index p = VPrincipal a"
      using p by (auto simp: pw_placed_def slot_def split: if_splits)
    have "empty_args h' m + 1 = empty_args h m"
      using sum_list_update_nat [OF old(1), of "\<lambda>v. if is_principal_wire v then 1 else 0" v] old p(3) store(2)
      by (simp add: empty_args_def h' slot_set_def is_principal_wire_def is_non_wire_def)
    moreover have "empty_args h' n = empty_args h n" if "n \<noteq> m"
      using that by (simp add: empty_args_def h')
    ultimately show ?thesis
      using args counts ports store(1) m(2) p(3)
      by (cases "n = m") (auto simp: args_inv_def h' ends_of_def)
  next
    case (pair a b task)
    have "net_ok h (VPrincipal a # VPrincipal b # other_roots i ts R)"
      by (rule connecting_inv_ends [OF inv turn(2)]) (simp add: pair ends_of_def)
    then have "nodes h' = nodes h"
      using net_ok_pair connect_active_pair_pairs [OF pair(2)] by fastforce
    then show ?thesis
      using args counts ports connect_active_pair_task [OF pair(2), of n] pair
      by (auto simp: args_inv_def empty_args_def)
  next
    case (count m task)
    note h' = count_primitive_arg_Inr [OF count(2)]
    have same: "empty_args h' n = empty_args h n"
      using h' by (cases "n = m") (auto simp: empty_args_def)
    have task: "task = (if Suc (primitive_arg_count (nodes h ! m)) = j then Some (Task_primitive m) else None)"
      if "node_principal_port_count h m = Inr j" for j
      using count(2) that ports h'
      by (auto simp: count_primitive_arg_def node_primitive_arg_count_fetch_add1_def at_def)
    show ?thesis
    proof (cases "n = m")
      case True
      have "1 \<le> count_list ts (Counting n)"
        using counts(1) count(1,3) True by simp
      then show ?thesis
        using True args counts ports same h' count(1,3) task [of k]
        by (auto simp: args_inv_def)
    next
      case False
      have "task \<noteq> Some (Task_primitive n)"
        using count(2) False
        by (auto simp: count_primitive_arg_def bnd_eq_Inr split: if_splits)
      then show ?thesis
        using False args counts ports same h' count(1,3) by (auto simp: args_inv_def)
    qed
  qed
qed

lemma args_inv_reachable:
  assumes "connect_step\<^sup>*\<^sup>* s s'" and "connecting_inv R s" and "args_inv n k old s"
  shows "args_inv n k old s'"
  using assms(1)
proof (induction rule: rtranclp_induct)
  case (step s1 s2)
  then show ?case
    using connect_reachable_keep [OF step.hyps(1) assms(2)] args_inv_step [of "fst s1" "snd s1" "fst s2" "snd s2"]
    by simp
qed (use assms(3) in simp)

text \<open>Before anyone has started to connect.\<close>

definition connect_all :: "(val \<times> val) list \<Rightarrow> connecting list" where
  "connect_all = map (\<lambda>(x, y). Connecting x y)"

lemma connect_all_counts [simp]:
  "count_list (connect_all ps) (Counting n) = 0" "count_list (connect_all ps) (Connected task) = 0"
  by (auto simp: connect_all_def count_list_0_iff)

lemma connecting_inv_all:
  "connecting_inv R (h, connect_all ps) \<longleftrightarrow>
     net_ok h (concat (map (\<lambda>(x, y). [x, y]) ps) @ R) \<and> (\<forall>(x, y) \<in> set ps. x \<noteq> VNull \<and> y \<noteq> VNull)"
proof -
  have "map end_roots (connect_all ps) = map (\<lambda>(x, y). [x, y]) ps"
    by (auto simp: connect_all_def end_roots_def)
  moreover have "(\<forall>t \<in> set (connect_all ps). connecting_ok h t) \<longleftrightarrow>
      (\<forall>(x, y) \<in> set ps. x \<noteq> VNull \<and> y \<noteq> VNull)"
    by (auto simp: connect_all_def connecting_ok_def)
  ultimately show ?thesis
    by (simp add: connecting_inv_def all_roots_def)
qed

lemma turns_left_all [simp]:
  "turns_left (h, connect_all ps) = live_cells (wires h) + 2 * length ps"
  by (induction ps) (auto simp: turns_left_def connect_all_def turn_weight_def)

end
