(* ===== verification/Task_Order.thy ===== *)
theory Task_Order
  imports Node_Alloc Parallel_Args
begin

text \<open>
  What the tasks rely on. A task is queued when its last part arrives, and handled later, by this
  worker or another. In between the two principal wires of its active pair stay paired, and its
  primitive node keeps its arguments, whatever else is run. The invariants of the net behind this:
  principal wires stand at principal ports only, a node's count is the number of the arguments at
  its ports, and the rules are about constructors with one principal port.
\<close>

section \<open>Principal ports\<close>

definition principal_at :: "node_ctor \<Rightarrow> nat \<Rightarrow> bool" where
  "principal_at c i \<longleftrightarrow> (case slot None (port_infos c) i of None \<Rightarrow> False | Some info \<Rightarrow> is_principal info)"

definition single_port :: "node_ctor \<Rightarrow> bool" where
  "single_port c \<longleftrightarrow> length (filter (\<lambda>p. case p of None \<Rightarrow> False | Some info \<Rightarrow> is_principal info) (port_infos c)) = 1"

lemma filter_one_index:
  assumes "length (filter P xs) = 1" and "i < length xs" "P (xs ! i)" and "j < length xs" "P (xs ! j)"
  shows "i = j"
proof -
  have "card {k. k < length xs \<and> P (xs ! k)} = 1"
    using assms(1) by (simp add: length_filter_conv_card)
  then obtain k where k: "{k. k < length xs \<and> P (xs ! k)} = {k}"
    by (rule card_1_singletonE)
  have "i \<in> {k. k < length xs \<and> P (xs ! k)}" "j \<in> {k. k < length xs \<and> P (xs ! k)}"
    using assms(2-5) by simp_all
  then show ?thesis
    unfolding k by simp
qed

lemma single_port_unique:
  assumes "single_port c" and "principal_at c i" and "principal_at c j"
  shows "i = j"
  using assms filter_one_index [OF assms(1) [unfolded single_port_def], of i j]
  by (simp add: principal_at_def slot_def split: if_splits)

definition rules_single :: "node_ctor list \<Rightarrow> bool" where
  "rules_single cs \<longleftrightarrow>
     (\<forall>c \<in> set cs. \<forall>r \<in> set (rule_array c). left_node_ctor r < length cs \<and> right_node_ctor r < length cs \<and>
        single_port (cs ! left_node_ctor r) \<and> single_port (cs ! right_node_ctor r))"

definition ports_in_place :: "heap \<Rightarrow> bool" where
  "ports_in_place h \<longleftrightarrow>
     (\<forall>n i x. n < length (nodes h) \<longrightarrow> port_value h n i = VPrincipal x \<longrightarrow>
        (\<exists>c. node_has h n c \<and> principal_at (node_ctors h ! c) i))"

text \<open>The arguments that are at their ports.\<close>

definition is_arg :: "val \<Rightarrow> bool" where
  "is_arg v \<longleftrightarrow> v \<noteq> VNull \<and> \<not> is_principal_wire v"

definition args_at :: "node_ctor \<Rightarrow> val list \<Rightarrow> nat" where
  "args_at c vs = length (filter (\<lambda>i. principal_at c i \<and> is_arg (slot VNull vs i)) [0..<ctor_arity c])"

definition args_exact :: "heap \<Rightarrow> bool" where
  "args_exact h \<longleftrightarrow>
     (\<forall>n < length (nodes h). primitive_arg_count (nodes h ! n) =
        (case node_ctor_of (nodes h ! n) of
           None \<Rightarrow> 0 | Some c \<Rightarrow> args_at (node_ctors h ! c) (value_array (nodes h ! n))))"

definition orderly :: "heap \<Rightarrow> bool" where
  "orderly h \<longleftrightarrow> ports_in_place h \<and> args_exact h \<and> rules_single (node_ctors h)"

section \<open>Tasks\<close>

text \<open>A node whose primitive can be applied: all its arguments have come.\<close>

definition settled :: "heap \<Rightarrow> nat \<Rightarrow> bool" where
  "settled h n \<longleftrightarrow> n < length (nodes h) \<and>
     (case node_ctor_of (nodes h ! n) of
        None \<Rightarrow> False
      | Some c \<Rightarrow> c < length (node_ctors h) \<and> ctor_primitive (node_ctors h ! c) \<noteq> None \<and>
          node_ctor_principal_port_count (node_ctors h ! c) = Inr (primitive_arg_count (nodes h ! n)) \<and>
          0 < primitive_arg_count (nodes h ! n))"

definition single_node :: "heap \<Rightarrow> nat \<Rightarrow> bool" where
  "single_node h n \<longleftrightarrow>
     (case node_ctor_of (nodes h ! n) of
        None \<Rightarrow> False | Some c \<Rightarrow> c < length (node_ctors h) \<and> single_port (node_ctors h ! c))"

definition pair_waits :: "heap \<Rightarrow> nat \<Rightarrow> nat \<Rightarrow> bool" where
  "pair_waits h l r \<longleftrightarrow>
     (case (cell (principal_wires h) l, cell (principal_wires h) r) of
        (Some p, Some q) \<Rightarrow> pw_oppsite p = Some r \<and> pw_oppsite q = Some l \<and>
          pw_node p \<noteq> pw_node q \<and> single_node h (pw_node p) \<and> single_node h (pw_node q)
      | _ \<Rightarrow> False)"

definition task_ready :: "heap \<Rightarrow> task \<Rightarrow> bool" where
  "task_ready h t = (case t of Task_active_pair l r rule \<Rightarrow> pair_waits h l r | Task_primitive n \<Rightarrow> settled h n)"

text \<open>What a task is about: principal wires, or a node. No two tasks share any.\<close>

definition task_parts :: "task \<Rightarrow> (nat + nat) list" where
  "task_parts t = (case t of Task_active_pair l r rule \<Rightarrow> [Inl l, Inl r] | Task_primitive n \<Rightarrow> [Inr n])"

definition in_use :: "heap \<Rightarrow> nat + nat \<Rightarrow> bool" where
  "in_use h x = (case x of
     Inl a \<Rightarrow> (case cell (principal_wires h) a of None \<Rightarrow> False | Some p \<Rightarrow> pw_oppsite p \<noteq> None)
   | Inr n \<Rightarrow> settled h n)"

definition tasks_ready :: "heap \<Rightarrow> task list \<Rightarrow> bool" where
  "tasks_ready h ts \<longleftrightarrow> (\<forall>t \<in> set ts. task_ready h t) \<and> distinct (concat (map task_parts ts))"

lemma task_ready_in_use: "task_ready h t \<Longrightarrow> x \<in> set (task_parts t) \<Longrightarrow> in_use h x"
  by (auto simp: task_ready_def task_parts_def in_use_def pair_waits_def split: task.splits option.splits)

section \<open>What running keeps\<close>

definition keeps :: "heap \<Rightarrow> heap \<Rightarrow> bool" where
  "keeps h h' \<longleftrightarrow>
     (\<exists>cs. node_ctors h' = node_ctors h @ cs) \<and>
     length (nodes h) \<le> length (nodes h') \<and>
     (\<forall>n < length (nodes h). node_ctor_of (nodes h ! n) \<noteq> None \<longrightarrow>
        node_ctor_of (nodes h' ! n) = node_ctor_of (nodes h ! n)) \<and>
     (\<forall>a p. cell (principal_wires h) a = Some p \<and> pw_oppsite p \<noteq> None \<longrightarrow>
        cell (principal_wires h') a = Some p) \<and>
     (\<forall>n. settled h n \<longrightarrow> primitive_arg_count (nodes h' ! n) = primitive_arg_count (nodes h ! n))"

lemma keeps_refl [simp]: "keeps h h"
  by (simp add: keeps_def)

lemma keeps_settled: "keeps h h' \<Longrightarrow> settled h n \<Longrightarrow> settled h' n"
  unfolding keeps_def settled_def
  by (auto simp: nth_append split: option.splits)

lemma keeps_ctor: "keeps h h' \<Longrightarrow> n < length (nodes h) \<Longrightarrow> node_ctor_of (nodes h ! n) = Some c \<Longrightarrow>
    n < length (nodes h') \<and> node_ctor_of (nodes h' ! n) = Some c"
  unfolding keeps_def by auto

lemma keeps_pair: "keeps h h' \<Longrightarrow> cell (principal_wires h) a = Some p \<Longrightarrow> pw_oppsite p = Some b \<Longrightarrow>
    cell (principal_wires h') a = Some p"
  unfolding keeps_def by auto

lemma keeps_trans:
  assumes 1: "keeps h h'" and 2: "keeps h' h''"
  shows "keeps h h''"
proof -
  have "primitive_arg_count (nodes h'' ! n) = primitive_arg_count (nodes h ! n)" if "settled h n" for n
    using 1 2 keeps_settled [OF 1 that] that by (simp add: keeps_def)
  moreover have "node_ctor_of (nodes h'' ! n) = node_ctor_of (nodes h ! n)"
    if n: "n < length (nodes h)" "node_ctor_of (nodes h ! n) \<noteq> None" for n
  proof -
    obtain c where "node_ctor_of (nodes h ! n) = Some c"
      using n(2) by blast
    then show ?thesis
      using keeps_ctor [OF 1 n(1)] keeps_ctor [OF 2, of n c] by simp
  qed
  moreover have "cell (principal_wires h'') a = Some p"
    if "cell (principal_wires h) a = Some p \<and> pw_oppsite p \<noteq> None" for a p
    using that keeps_pair [OF 1] keeps_pair [OF 2] by blast
  moreover have "\<exists>cs. node_ctors h'' = node_ctors h @ cs" "length (nodes h) \<le> length (nodes h'')"
    using 1 2 by (auto simp: keeps_def)
  ultimately show ?thesis
    unfolding keeps_def by blast
qed

lemma keeps_single_node:
  assumes k: "keeps h h'" and n: "n < length (nodes h)" "single_node h n"
  shows "single_node h' n"
proof -
  obtain c where c: "node_ctor_of (nodes h ! n) = Some c" "c < length (node_ctors h)" "single_port (node_ctors h ! c)"
    using n(2) by (auto simp: single_node_def split: option.splits)
  have "\<exists>cs. node_ctors h' = node_ctors h @ cs"
    using k by (simp add: keeps_def)
  then show ?thesis
    using c keeps_ctor [OF k n(1) c(1)] by (auto simp: single_node_def nth_append)
qed

lemma keeps_in_use:
  assumes k: "keeps h h'" and "in_use h x"
  shows "in_use h' x"
proof (cases x)
  case (Inl a)
  then obtain p b where "cell (principal_wires h) a = Some p" "pw_oppsite p = Some b"
    using assms(2) by (auto simp: in_use_def split: option.splits)
  then show ?thesis
    using keeps_pair [OF k] Inl by (simp add: in_use_def)
next
  case (Inr n)
  then show ?thesis
    using keeps_settled [OF k] assms(2) by (simp add: in_use_def)
qed

lemma pair_waits_iff:
  "pair_waits h l r \<longleftrightarrow>
     (\<exists>p q. cell (principal_wires h) l = Some p \<and> cell (principal_wires h) r = Some q \<and>
        pw_oppsite p = Some r \<and> pw_oppsite q = Some l \<and>
        pw_node p \<noteq> pw_node q \<and> single_node h (pw_node p) \<and> single_node h (pw_node q))"
  by (auto simp: pair_waits_def split: option.splits)

lemma keeps_task_ready:
  assumes k: "keeps h h'" and ok: "net_ok h R" and t: "task_ready h t"
  shows "task_ready h' t"
proof (cases t)
  case (Task_active_pair l r rule)
  then obtain p q where p: "cell (principal_wires h) l = Some p" "pw_oppsite p = Some r"
    and q: "cell (principal_wires h) r = Some q" "pw_oppsite q = Some l"
    and n: "pw_node p \<noteq> pw_node q" "single_node h (pw_node p)" "single_node h (pw_node q)"
    using t by (auto simp: task_ready_def pair_waits_iff)
  have "pw_node p < length (nodes h)" "pw_node q < length (nodes h)"
    using ok p q by (auto simp: net_ok_def pw_placed_def)
  then show ?thesis
    using Task_active_pair p q n keeps_pair [OF k] keeps_single_node [OF k]
    by (simp add: task_ready_def pair_waits_iff)
next
  case (Task_primitive n)
  then show ?thesis
    using t keeps_settled [OF k] by (simp add: task_ready_def)
qed

text \<open>A task that was found between two heaps.\<close>

definition found_task :: "heap \<Rightarrow> heap \<Rightarrow> task option \<Rightarrow> bool" where
  "found_task h h' found \<longleftrightarrow>
     (case found of
        None \<Rightarrow> True
      | Some t \<Rightarrow> task_ready h' t \<and> distinct (task_parts t) \<and> (\<forall>x \<in> set (task_parts t). \<not> in_use h x))"

lemma found_task_None [simp]: "found_task h h' None"
  by (simp add: found_task_def)

lemma found_task_later: "found_task h h' t \<Longrightarrow> keeps h' h'' \<Longrightarrow> net_ok h' R \<Longrightarrow> found_task h h'' t"
  using keeps_task_ready by (auto simp: found_task_def split: option.splits)

lemma found_task_earlier: "found_task h' h'' t \<Longrightarrow> keeps h h' \<Longrightarrow> found_task h h'' t"
  using keeps_in_use by (auto simp: found_task_def split: option.splits)

lemma tasks_ready_keep:
  assumes "tasks_ready h ts" and "keeps h h'" and "net_ok h R"
  shows "tasks_ready h' ts"
  using assms keeps_task_ready by (auto simp: tasks_ready_def)

lemma tasks_ready_add:
  assumes ts: "tasks_ready h ts" and k: "keeps h h'" and ok: "net_ok h R" and found: "found_task h h' (Some t)"
  shows "tasks_ready h' (ts @ [t])"
proof -
  have "x \<notin> set (task_parts t)" if "u \<in> set ts" "x \<in> set (task_parts u)" for u x
    using found task_ready_in_use [of h u x] ts that by (auto simp: found_task_def tasks_ready_def)
  then show ?thesis
    using tasks_ready_keep [OF ts k ok] found by (auto simp: tasks_ready_def found_task_def)
qed

section \<open>Counting arguments\<close>

lemma principal_port_count_loop_filter:
  "principal_port_count_loop ps m = Inr k \<Longrightarrow>
     k = m + length (filter (\<lambda>p. case p of None \<Rightarrow> False | Some info \<Rightarrow> is_principal info) ps)"
  by (induction ps m rule: principal_port_count_loop.induct) (auto simp: deref_eq_Inr split: if_splits)

lemma principal_count:
  assumes "node_ctor_principal_port_count c = Inr k" and "ports_ok c"
  shows "k = card {i. i < ctor_arity c \<and> principal_at c i}"
proof -
  let ?P = "\<lambda>p. case p of None \<Rightarrow> False | Some info \<Rightarrow> is_principal info"
  have "k = card {i. i < length (port_infos c) \<and> ?P (port_infos c ! i)}"
    using principal_port_count_loop_filter [of "port_infos c" 0 k] assms(1)
    by (simp add: node_ctor_principal_port_count_def length_filter_conv_card)
  moreover have "length (port_infos c) = ctor_arity c"
    using assms(2) by (simp add: ports_ok_def)
  moreover have "{i. i < ctor_arity c \<and> ?P (port_infos c ! i)} = {i. i < ctor_arity c \<and> principal_at c i}"
    using \<open>length (port_infos c) = ctor_arity c\<close> by (auto simp: principal_at_def slot_def)
  ultimately show ?thesis by simp
qed

definition arg_ports :: "node_ctor \<Rightarrow> val list \<Rightarrow> nat set" where
  "arg_ports c vs = {i. i < ctor_arity c \<and> principal_at c i \<and> is_arg (slot VNull vs i)}"

lemma finite_arg_ports [simp]: "finite (arg_ports c vs)"
  by (simp add: arg_ports_def)

lemma args_at_card: "args_at c vs = card (arg_ports c vs)"
proof -
  have "{i. i < length [0..<ctor_arity c] \<and> principal_at c ([0..<ctor_arity c] ! i) \<and>
      is_arg (slot VNull vs ([0..<ctor_arity c] ! i))} = arg_ports c vs"
    by (auto simp: arg_ports_def)
  then show ?thesis
    by (simp add: args_at_def length_filter_conv_card)
qed

lemma arg_ports_set:
  "i < ctor_arity c \<Longrightarrow> arg_ports c (slot_set VNull vs i v) =
     (if principal_at c i \<and> is_arg v then insert i (arg_ports c vs) else arg_ports c vs - {i})"
  by (auto simp: arg_ports_def slot_slot_set)

text \<open>While a principal port has no argument, the count is not complete.\<close>

lemma args_at_less:
  assumes "node_ctor_principal_port_count c = Inr k" and "ports_ok c"
    and "i < ctor_arity c" "principal_at c i" "\<not> is_arg (slot VNull vs i)"
  shows "args_at c vs < k"
proof -
  have "arg_ports c vs \<subset> {i. i < ctor_arity c \<and> principal_at c i}"
    using assms(3-5) by (auto simp: arg_ports_def)
  then show ?thesis
    unfolding args_at_card principal_count [OF assms(1,2)] by (intro psubset_card_mono) simp_all
qed

lemma orderly_count:
  assumes "orderly h" and "node_has h n c"
  shows "primitive_arg_count (nodes h ! n) = args_at (node_ctors h ! c) (value_array (nodes h ! n))"
  using assms by (auto simp: orderly_def args_exact_def node_has_def)

text \<open>A node at whose principal port a wire still stands does not have all its arguments.\<close>

lemma waiting_not_settled:
  assumes "orderly h" and "nodes_ok h" and x: "port_value h n i = VPrincipal x" and n: "n < length (nodes h)"
  shows "\<not> settled h n"
proof -
  obtain c where c: "node_has h n c" "principal_at (node_ctors h ! c) i"
    using assms(1) x n unfolding orderly_def ports_in_place_def by blast
  have ok: "ports_ok (node_ctors h ! c)"
    using assms(2) c(1) by (simp add: nodes_ok_def node_has_def)
  have i: "i < ctor_arity (node_ctors h ! c)"
    using ok c(2) by (auto simp: principal_at_def ports_ok_def slot_def split: if_splits)
  have na: "\<not> is_arg (slot VNull (value_array (nodes h ! n)) i)"
    using x by (simp add: is_arg_def is_principal_wire_def port_value_def)
  have "node_ctor_principal_port_count (node_ctors h ! c) \<noteq> Inr (primitive_arg_count (nodes h ! n))"
    using args_at_less [OF _ ok i c(2) na] orderly_count [OF assms(1) c(1)] by fastforce
  then show ?thesis
    using c(1) by (simp add: settled_def node_has_def)
qed

section \<open>Connecting\<close>

text \<open>Only wires change.\<close>

definition same_but_wires :: "heap \<Rightarrow> heap \<Rightarrow> bool" where
  "same_but_wires h h' \<longleftrightarrow> principal_wires h' = principal_wires h \<and> node_ctors h' = node_ctors h \<and>
     nodes h' = nodes h"

lemma orderly_same_nodes:
  assumes "nodes h' = nodes h" and "node_ctors h' = node_ctors h"
  shows "orderly h' \<longleftrightarrow> orderly h"
  unfolding orderly_def ports_in_place_def port_value_def node_has_def args_exact_def assms by (rule refl)

lemma same_but_wires_orderly: "same_but_wires h h' \<Longrightarrow> orderly h' \<longleftrightarrow> orderly h"
  by (rule orderly_same_nodes) (simp_all add: same_but_wires_def)

lemma same_but_wires_keeps: "same_but_wires h h' \<Longrightarrow> keeps h h'"
  by (simp add: same_but_wires_def keeps_def)

lemma same_but_wires_simps [simp]:
  "same_but_wires h (wire_destroy a h)" "same_but_wires h (set_fuzed_value a v h)"
  "wire_new h = (w, h') \<Longrightarrow> same_but_wires h h'"
  by (auto simp: same_but_wires_def wire_new_def)

definition orderly_step :: "heap \<Rightarrow> task option \<times> heap \<Rightarrow> bool" where
  "orderly_step h = (\<lambda>(t, h'). orderly h' \<and> keeps h h' \<and> found_task h h' t)"

lemma orderly_step_after:
  assumes "same_but_wires h h1" and "orderly_step h1 r"
  shows "orderly_step h r"
  using assms same_but_wires_keeps [OF assms(1)] keeps_trans [of h h1] found_task_earlier [of h1 _ _ h]
  by (auto simp: orderly_step_def)

lemma match_rules_Some:
  "match_rules h rules l r = Inr (Some t) \<Longrightarrow> \<exists>rule \<in> set rules. rule_match h rule l r = Inr (Some t)"
  by (induction rules) (auto simp: bnd_eq_Inr split: if_splits)

lemma rule_match_Some:
  assumes "rule_match h rule l r = Inr (Some t)"
  shows "(t = Task_active_pair l r rule \<and> pw_ctor h l = Inr (Some (left_node_ctor rule)) \<and>
        pw_ctor h r = Inr (Some (right_node_ctor rule))) \<or>
     (t = Task_active_pair r l rule \<and> pw_ctor h r = Inr (Some (left_node_ctor rule)) \<and>
        pw_ctor h l = Inr (Some (right_node_ctor rule)))"
proof -
  obtain lc rc where "pw_ctor h l = Inr lc" "pw_ctor h r = Inr rc"
    using assms by (auto simp: rule_match_def bnd_eq_Inr)
  with assms show ?thesis
    by (simp add: rule_match_def split: if_splits)
qed

text \<open>The rule of a task is one of a constructor's, so that both its nodes have one principal port.\<close>

lemma connect_active_pair_found:
  assumes "connect_active_pair a b h = Inr (Some t, h')" and rules: "rules_single (node_ctors h')"
  shows "\<exists>rule p q. (t = Task_active_pair a b rule \<or> t = Task_active_pair b a rule) \<and>
    cell (principal_wires h') a = Some p \<and> single_node h' (pw_node p) \<and>
    cell (principal_wires h') b = Some q \<and> single_node h' (pw_node q)"
proof -
  obtain x rules where x: "pw_rules h' x = Inr rules" "match_rules h' rules a b = Inr (Some t)"
    using assms(1) by (auto simp: connect_active_pair_def bnd_eq_Inr split: if_splits)
  obtain i where "i < length (node_ctors h')" "rules = rule_array (node_ctors h' ! i)"
    using x(1) by (auto simp: pw_rules_def deref_eq_Inr bnd_eq_Inr ctor_of_node_def at_Some_iff split: option.splits)
  then obtain c where "c \<in> set (node_ctors h')" "rules = rule_array c"
    using nth_mem by blast
  moreover obtain rule where "rule \<in> set rules" and m: "rule_match h' rule a b = Inr (Some t)"
    using match_rules_Some [OF x(2)] by blast
  ultimately have "left_node_ctor rule < length (node_ctors h')" "right_node_ctor rule < length (node_ctors h')"
      "single_port (node_ctors h' ! left_node_ctor rule)" "single_port (node_ctors h' ! right_node_ctor rule)"
    using rules unfolding rules_single_def by blast+
  then show ?thesis
    using rule_match_Some [OF m]
    by (auto simp: pw_ctor_def deref_eq_Inr single_node_def at_Some_iff)
qed

lemma orderly_connect_active_pair:
  assumes ok: "net_ok h (VPrincipal a # VPrincipal b # R)" and ord: "orderly h"
    and run: "connect_active_pair a b h = Inr (t, h')"
  shows "orderly_step h (t, h')"
proof -
  obtain p q where p: "cell (principal_wires h) a = Some p" "pw_oppsite p = None" "pw_placed h a p"
    and q: "cell (principal_wires h) b = Some q" "pw_oppsite q = None" "pw_placed h b q"
    using net_ok_live_pw [OF ok, of a] net_ok_live_pw [OF ok, of b] by auto
  have h': "nodes h' = nodes h" "node_ctors h' = node_ctors h"
    and pw: "\<And>c. cell (principal_wires h') c =
       (if c = a then Some (p\<lparr>pw_oppsite := Some b\<rparr>) else if c = b then Some (q\<lparr>pw_oppsite := Some a\<rparr>)
        else cell (principal_wires h) c)"
    using net_ok_pair [OF ok] connect_active_pair_pairs [OF run] p q by auto
  note ab = net_ok_root_distinct [OF ok]
  have ord': "orderly h'"
    using ord orderly_same_nodes [OF h'] by simp
  have "keeps h h'"
    using h' p q by (auto simp: keeps_def pw)
  moreover have "found_task h h' t"
  proof (cases t)
    case (Some u)
    obtain rule where u: "u = Task_active_pair a b rule \<or> u = Task_active_pair b a rule"
      and single: "single_node h' (pw_node p)" "single_node h' (pw_node q)"
      using connect_active_pair_found [of a b h u h'] run Some ord' ab by (auto simp: pw orderly_def)
    have "pw_node p \<noteq> pw_node q"
    proof
      assume same: "pw_node p = pw_node q"
      have "port_value h' (pw_node p) (pw_index p) = VPrincipal a"
          "port_value h' (pw_node p) (pw_index q) = VPrincipal b" "pw_node p < length (nodes h')"
        using p(3) q(3) same h' by (auto simp: pw_placed_def port_value_def)
      then have "pw_index p = pw_index q"
        using ord' single(1) single_port_unique
        unfolding orderly_def ports_in_place_def single_node_def node_has_def by (fastforce split: option.splits)
      with p(3) q(3) same ab show False
        by (simp add: pw_placed_def)
    qed
    then have "pair_waits h' a b" "pair_waits h' b a"
      using single ab by (simp_all add: pair_waits_iff pw)
    then show ?thesis
      using u Some ab p q by (auto simp: found_task_def task_ready_def task_parts_def in_use_def)
  qed simp
  ultimately show ?thesis
    using ord' by (simp add: orderly_step_def)
qed

text \<open>Storing and counting an argument.\<close>

definition with_arg :: "nat \<Rightarrow> nat \<Rightarrow> val \<Rightarrow> heap \<Rightarrow> heap" where
  "with_arg n i v h = set_node n ((nodes h ! n)
     \<lparr>value_array := slot_set VNull (value_array (nodes h ! n)) i v,
      primitive_arg_count := Suc (primitive_arg_count (nodes h ! n))\<rparr>) h"

lemma with_arg_fields [simp]:
  "wires (with_arg n i v h) = wires h" "principal_wires (with_arg n i v h) = principal_wires h"
  "node_ctors (with_arg n i v h) = node_ctors h" "length (nodes (with_arg n i v h)) = length (nodes h)"
  by (simp_all add: with_arg_def)

lemma with_arg_nth:
  "n < length (nodes h) \<Longrightarrow> nodes (with_arg n i v h) ! k =
     (if k = n then (nodes h ! n)
        \<lparr>value_array := slot_set VNull (value_array (nodes h ! n)) i v,
         primitive_arg_count := Suc (primitive_arg_count (nodes h ! n))\<rparr>
      else nodes h ! k)"
  by (simp add: with_arg_def nth_list_update)

lemma collect_primitive_arg_Inr:
  assumes "collect_primitive_arg a v h = Inr (t, h')"
  shows "\<exists>p c pr k. cell (principal_wires h) a = Some p \<and> pw_node p < length (nodes h) \<and>
    h' = with_arg (pw_node p) (pw_index p) v (principal_wire_destroy a h) \<and>
    node_has h (pw_node p) c \<and> ctor_primitive (node_ctors h ! c) = Some pr \<and>
    node_ctor_principal_port_count (node_ctors h ! c) = Inr k \<and>
    t = (if Suc (primitive_arg_count (nodes h ! pw_node p)) = k then Some (Task_primitive (pw_node p)) else None)"
  using assms
  by (auto simp: collect_primitive_arg_def node_set_value_def node_is_primitive_def asserting_eq_Inr bnd_eq_Inr
      deref_eq_Inr at_Some_iff node_primitive_arg_count_fetch_add1_def node_principal_port_count_def
      ctor_of_node_def with_arg_def node_has_def split: option.splits)

lemma ports_in_place_at:
  assumes "orderly h" and "nodes_ok h" and "n < length (nodes h)" and "port_value h n i = VPrincipal x"
    and "node_has h n c"
  shows "principal_at (node_ctors h ! c) i \<and> i < ctor_arity (node_ctors h ! c)"
proof -
  have p: "principal_at (node_ctors h ! c) i"
    using assms(1,3-5) unfolding orderly_def ports_in_place_def node_has_def by fastforce
  moreover have "ports_ok (node_ctors h ! c)"
    using assms(2,5) by (simp add: nodes_ok_def node_has_def)
  ultimately show ?thesis
    by (auto simp: principal_at_def ports_ok_def slot_def split: if_splits)
qed

lemma node_counted:
  "args_exact h \<longleftrightarrow> (\<forall>n < length (nodes h).
     (node_ctor_of (nodes h ! n) = None \<longrightarrow> primitive_arg_count (nodes h ! n) = 0) \<and>
     (\<forall>c. node_ctor_of (nodes h ! n) = Some c \<longrightarrow>
        primitive_arg_count (nodes h ! n) = args_at (node_ctors h ! c) (value_array (nodes h ! n))))"
  by (auto simp: args_exact_def split: option.splits)

lemma orderly_collect:
  assumes ok: "net_ok h (VPrincipal a # v # R)" and v: "is_arg v" and ord: "orderly h"
    and run: "collect_primitive_arg a v h = Inr (t, h')"
  shows "orderly_step h (t, h')"
proof -
  obtain p c pr k where p: "cell (principal_wires h) a = Some p" "pw_node p < length (nodes h)"
    and h': "h' = with_arg (pw_node p) (pw_index p) v (principal_wire_destroy a h)"
    and c: "node_has h (pw_node p) c" "ctor_primitive (node_ctors h ! c) = Some pr"
      "node_ctor_principal_port_count (node_ctors h ! c) = Inr k"
    and t: "t = (if Suc (primitive_arg_count (nodes h ! pw_node p)) = k then Some (Task_primitive (pw_node p)) else None)"
    using collect_primitive_arg_Inr [OF run] by blast
  let ?n = "pw_node p" and ?i = "pw_index p"
  let ?c = "node_ctors h ! c"
  have opp: "pw_oppsite p = None" and x: "port_value h ?n ?i = VPrincipal a"
    using net_ok_live_pw [OF ok, of a] p by (auto simp: pw_placed_def port_value_def)
  note nok = net_ok_nodes_ok [OF ok]
  have i: "principal_at ?c ?i" "?i < ctor_arity ?c"
    using ports_in_place_at [OF ord nok p(2) x c(1)] by simp_all
  have old: "?i \<notin> arg_ports ?c (value_array (nodes h ! ?n))"
    using x by (simp add: arg_ports_def is_arg_def is_principal_wire_def port_value_def)
  have fields: "node_ctors h' = node_ctors h" "length (nodes h') = length (nodes h)"
    and nodes': "nodes h' ! m = (if m = ?n then (nodes h ! ?n)
        \<lparr>value_array := slot_set VNull (value_array (nodes h ! ?n)) ?i v,
         primitive_arg_count := Suc (primitive_arg_count (nodes h ! ?n))\<rparr> else nodes h ! m)" for m
    using p(2) with_arg_nth [of ?n "principal_wire_destroy a h"] by (simp_all add: h')
  have pws: "cell (principal_wires h') b = (if b = a then None else cell (principal_wires h) b)" for b
    using cell_Some_length [OF p(1)] by (simp add: h' cell_update)
  have has: "node_has h' m d \<longleftrightarrow> node_has h m d" for m d
    by (simp add: node_has_def fields nodes')
  have port: "port_value h' m j = (if m = ?n \<and> j = ?i then v else port_value h m j)" for m j
    by (auto simp: port_value_def nodes' slot_slot_set)
  have "ports_in_place h'"
    using ord v unfolding orderly_def ports_in_place_def port has fields
    by (auto simp: is_arg_def is_principal_wire_def)
  moreover have "args_exact h'"
  proof -
    have "args_at ?c (slot_set VNull (value_array (nodes h ! ?n)) ?i v) = Suc (args_at ?c (value_array (nodes h ! ?n)))"
      using old by (simp add: args_at_card arg_ports_set [OF i(2)] i(1) v)
    then show ?thesis
      using ord c(1) unfolding orderly_def node_counted fields nodes' by (auto simp: node_has_def)
  qed
  ultimately have ord': "orderly h'"
    using ord by (simp add: orderly_def fields)
  have ns: "\<not> settled h ?n"
    by (rule waiting_not_settled [OF ord nok x p(2)])
  have "keeps h h'"
  proof -
    have "primitive_arg_count (nodes h' ! m) = primitive_arg_count (nodes h ! m)" if "settled h m" for m
      using that ns by (auto simp: nodes')
    then show ?thesis
      using opp p(1) pws by (auto simp: keeps_def fields nodes')
  qed
  moreover have "found_task h h' t"
    using t c ns p(2) by (auto simp: found_task_def task_ready_def task_parts_def in_use_def settled_def
        fields nodes' node_has_def)
  ultimately show ?thesis
    using ord' by (simp add: orderly_step_def)
qed

lemma orderly_connect_fuze:
  "net_ok h (x # y # R) \<Longrightarrow> x \<noteq> VNull \<Longrightarrow> y \<noteq> VNull \<Longrightarrow> orderly h \<Longrightarrow>
     connect x y h = Inr r \<Longrightarrow> orderly_step h r"
  "net_ok h (VWire a # v # R) \<Longrightarrow> v \<noteq> VNull \<Longrightarrow> orderly h \<Longrightarrow>
     fuze a v h = Inr r \<Longrightarrow> orderly_step h r"
proof (induction x y h and a v h arbitrary: r and r rule: connect_fuze.induct)
  case (7 a v h)
  obtain f where f: "cell (wires h) a = Some f"
    using net_ok_live_wire [OF 7(2), of a] by auto
  show ?case
  proof (cases "f = VNull")
    case True
    have "orderly_step (set_fuzed_value a v h) (None, set_fuzed_value a v h)"
      using 7(4) same_but_wires_orderly [OF same_but_wires_simps(2)] by (simp add: orderly_step_def)
    then show ?thesis
      using 7(5) f True orderly_step_after [OF same_but_wires_simps(2)] by (simp add: fuze.simps)
  next
    case False
    have "orderly_step (wire_destroy a h) r"
      using 7(1) [OF f False] net_ok_pass [OF 7(2) f False] 7(3-5) f False
        same_but_wires_orderly [OF same_but_wires_simps(1)] by (simp add: fuze.simps)
    then show ?thesis
      by (rule orderly_step_after [OF same_but_wires_simps(1)])
  qed
qed (auto dest: net_ok_swap simp: is_arg_def is_principal_wire_def
      intro: orderly_collect [where R = R] orderly_connect_active_pair [where R = R])

section \<open>Building nodes\<close>

lemma orderly_step_from: "keeps h h1 \<Longrightarrow> orderly_step h1 r \<Longrightarrow> orderly_step h r"
  using keeps_trans [of h h1] found_task_earlier [of h1 _ _ h] by (auto simp: orderly_step_def)

lemma orderly_with_port:
  assumes ord: "orderly h" and n: "node_has h n c" and i: "i < ctor_arity (node_ctors h ! c)"
    and empty: "port_value h n i = VNull" and v: "principal_at (node_ctors h ! c) i = is_principal_wire v"
  shows "orderly (with_port n i v h) \<and> keeps h (with_port n i v h)"
proof -
  have len: "n < length (nodes h)"
    using n by (simp add: node_has_def)
  note nodes' = with_port_nth [OF len, of i v]
  have "ports_in_place (with_port n i v h)"
    using ord n v unfolding orderly_def ports_in_place_def port_value_with_port [OF len] node_has_with_port
    by (auto simp: is_principal_wire_def split: if_splits)
  moreover have "args_exact (with_port n i v h)"
  proof -
    have "i \<notin> arg_ports (node_ctors h ! c) (value_array (nodes h ! n))"
      using empty by (simp add: arg_ports_def is_arg_def port_value_def)
    then have "args_at (node_ctors h ! c) (slot_set VNull (value_array (nodes h ! n)) i v) =
        args_at (node_ctors h ! c) (value_array (nodes h ! n))"
      using v by (simp add: args_at_card arg_ports_set [OF i] is_arg_def)
    then show ?thesis
      using ord n unfolding orderly_def node_counted nodes' by (auto simp: node_has_def)
  qed
  ultimately show ?thesis
    using ord by (auto simp: orderly_def keeps_def nodes')
qed

lemma orderly_principal_wire_new:
  assumes "principal_wire_new n i h = (p, h')"
  shows "orderly h' \<longleftrightarrow> orderly h" and "keeps h h'" and "nodes h' = nodes h" and "node_ctors h' = node_ctors h"
proof -
  have h': "h' = h\<lparr>principal_wires := principal_wires h @ [Some \<lparr>pw_node = n, pw_index = i, pw_oppsite = None\<rparr>]\<rparr>"
    using assms by (simp add: principal_wire_new_def)
  show "orderly h' \<longleftrightarrow> orderly h"
    by (rule orderly_same_nodes) (simp_all add: h')
  show "keeps h h'"
    using cell_Some_length by (fastforce simp: h' keeps_def cell_append)
qed (use assms in \<open>auto simp: principal_wire_new_def\<close>)

lemma node_port_info_principal:
  "node_get_port_info h n i = Inr info \<Longrightarrow> node_has h n c \<Longrightarrow>
     is_principal info = principal_at (node_ctors h ! c) i \<and> i < ctor_arity (node_ctors h ! c)"
  by (auto simp: node_get_port_info_def node_has_def at_def ctor_of_node_def deref_eq_Inr asserting_eq_Inr
      principal_at_def)

text \<open>A new port: a principal wire at a principal port, anything else at another.\<close>

lemma orderly_new_principal:
  assumes "orderly h" and "node_has h n c" and "i < ctor_arity (node_ctors h ! c)"
    and "port_value h n i = VNull" and "principal_at (node_ctors h ! c) i"
    and new: "principal_wire_new n i h = (p, hp)"
  shows "orderly (with_port n i (VPrincipal p) hp) \<and> keeps h (with_port n i (VPrincipal p) hp)"
proof -
  note hp = orderly_principal_wire_new [OF new]
  have "orderly (with_port n i (VPrincipal p) hp) \<and> keeps hp (with_port n i (VPrincipal p) hp)"
    using assms hp by (intro orderly_with_port [where c = c])
      (simp_all add: node_has_def port_value_def is_principal_wire_def)
  with hp(2) show ?thesis
    using keeps_trans by blast
qed

lemma orderly_new_wire:
  assumes "orderly h" and "node_has h n c" and "i < ctor_arity (node_ctors h ! c)"
    and "port_value h n i = VNull" and "\<not> principal_at (node_ctors h ! c) i"
    and new: "wire_new h = (w, hw)"
  shows "orderly (with_port n i (VWire w) hw) \<and> keeps h (with_port n i (VWire w) hw)"
proof -
  have hw: "same_but_wires h hw"
    using new by simp
  have "orderly (with_port n i (VWire w) hw) \<and> keeps hw (with_port n i (VWire w) hw)"
    using assms hw same_but_wires_orderly [OF hw] by (intro orderly_with_port [where c = c])
      (simp_all add: same_but_wires_def node_has_def port_value_def is_principal_wire_def)
  with same_but_wires_keeps [OF hw] show ?thesis
    using keeps_trans by blast
qed

lemma orderly_reconnect_input:
  assumes ok: "net_ok h (v # R)" and v: "v \<noteq> VNull" and n: "node_has h n c"
    and empty: "port_value h n i = VNull" and ord: "orderly h" and run: "reconnect_input n i v h = Inr r"
  shows "orderly_step h r"
proof -
  obtain info where info: "node_get_port_info h n i = Inr info"
    using run by (auto simp: reconnect_input_def bnd_eq_Inr)
  note pi = node_port_info_principal [OF info n]
  have i: "i < ctor_arity (node_ctors h ! c)"
    using pi by simp
  have len: "n < length (nodes h)"
    using n by (simp add: node_has_def)
  show ?thesis
  proof (cases "is_principal info")
    case True
    obtain p hp where p: "principal_wire_new n i h = (p, hp)" by fastforce
    have lp: "n < length (nodes hp)"
      using len orderly_principal_wire_new(3) [OF p] by simp
    have 1: "orderly (with_port n i (VPrincipal p) hp)" "keeps h (with_port n i (VPrincipal p) hp)"
      using orderly_new_principal [OF ord n i empty _ p] pi True by auto
    have "connect (VPrincipal p) v (with_port n i (VPrincipal p) hp) = Inr r"
      using run info True p lp by (simp add: reconnect_input_def node_set_value_with_port)
    then have "orderly_step (with_port n i (VPrincipal p) hp) r"
      using orderly_connect_fuze(1) [OF net_ok_principal_wire_new [OF ok n i empty p] _ v 1(1)] by simp
    with 1(2) show ?thesis
      by (rule orderly_step_from)
  next
    case False
    show ?thesis
    proof (cases "is_principal_wire v")
      case True
      obtain w hw where w: "wire_new h = (w, hw)" by fastforce
      have lw: "n < length (nodes hw)" "nodes hw = nodes h" "node_ctors hw = node_ctors h"
        using len w by (auto simp: wire_new_def)
      have 1: "orderly (with_port n i (VWire w) hw)" "keeps h (with_port n i (VWire w) hw)"
        using orderly_new_wire [OF ord n i empty _ w] pi False by auto
      have "net_ok hw (VWire w # VWire w # v # R)"
        using net_ok_wire_new [OF ok w] by simp
      then have okw: "net_ok (with_port n i (VWire w) hw) (VWire w # v # R)"
        using net_ok_store [of hw "VWire w" "VWire w # v # R" n c i] n i empty lw
        by (simp add: node_has_def port_value_def)
      have "connect (VWire w) v (with_port n i (VWire w) hw) = Inr r"
        using run info False True w lw(1) by (simp add: reconnect_input_def node_set_value_with_port)
      then have "orderly_step (with_port n i (VWire w) hw) r"
        using orderly_connect_fuze(1) [OF okw _ v 1(1)] by simp
      with 1(2) show ?thesis
        by (rule orderly_step_from)
    next
      case nonp: False
      have "r = (None, with_port n i v h)"
        using run info False nonp len by (simp add: reconnect_input_def node_set_value_with_port)
      moreover have "orderly (with_port n i v h) \<and> keeps h (with_port n i v h)"
        using orderly_with_port [OF ord n i empty, of v] pi False nonp by simp
      ultimately show ?thesis
        by (simp add: orderly_step_def)
    qed
  qed
qed

lemma orderly_reconnect_output:
  assumes n: "node_has h n c" and empty: "port_value h n i = VNull" and ord: "orderly h"
    and run: "reconnect_output n i h = Inr (v, h')"
  shows "orderly h' \<and> keeps h h'"
proof -
  obtain info where info: "node_get_port_info h n i = Inr info"
    using run by (auto simp: reconnect_output_def bnd_eq_Inr)
  note pi = node_port_info_principal [OF info n]
  have i: "i < ctor_arity (node_ctors h ! c)"
    using pi by simp
  have len: "n < length (nodes h)"
    using n by (simp add: node_has_def)
  obtain p hp where p: "principal_wire_new n i h = (p, hp)" by fastforce
  obtain w hw where w: "wire_new h = (w, hw)" by fastforce
  have "n < length (nodes hp)" "n < length (nodes hw)"
    using len orderly_principal_wire_new(3) [OF p] w by (auto simp: wire_new_def)
  then show ?thesis
    using run info p w orderly_new_principal [OF ord n i empty _ p] orderly_new_wire [OF ord n i empty _ w] pi
    by (auto simp: reconnect_output_def node_set_value_with_port split: if_splits)
qed

lemma orderly_reconnect_inputs:
  assumes "net_ok h (vs @ R)" and "VNull \<notin> set vs" and "node_has h n c"
    and "\<forall>j < k. port_value h n j = VNull" and "orderly_step h0 (found, h)"
    and "reconnect_inputs n k found vs h = Inr (t, vs', h')"
  shows "orderly_step h0 (t, h')"
  using assms
proof (induction n k found vs h rule: reconnect_inputs.induct)
  case (3 n i found v vs h)
  obtain t1 h1 where 1: "reconnect_input n i v h = Inr (t1, h1)"
    using 3(8) by (auto simp: bnd_eq_Inr)
  have empty: "port_value h n i = VNull" and v: "v \<noteq> VNull" and ok: "net_ok h (v # vs @ R)"
    using 3(3,4,6) by auto
  have h1: "net_ok h1 (vs @ R)" "fills n {i} h h1"
    using net_ok_reconnect_input [OF ok v 3(5) empty] 1 by simp_all
  have ord: "orderly h"
    using 3(7) by (simp add: orderly_step_def)
  have step: "orderly_step h (t1, h1)"
    by (rule orderly_reconnect_input [OF ok v 3(5) empty ord 1])
  have n1: "node_has h1 n c" "\<forall>j < i. port_value h1 n j = VNull"
    using fills_node_has [OF h1(2) 3(5)] h1(2) 3(6) by (auto simp: fills_def)
  show ?case
  proof (cases t1)
    case None
    have "orderly_step h0 (found, h1)"
      using 3(7) step found_task_later [of h0 h found h1, OF _ _ 3(3)] keeps_trans [of h0 h h1]
      by (auto simp: orderly_step_def)
    then show ?thesis
      using 3(2) [OF 1 refl _ h1(1) _ n1] 3(4,8) 1 None by simp
  next
    case (Some u)
    then have "found = None" "reconnect_inputs n i t1 vs h1 = Inr (t, vs', h')"
      using 3(8) 1 by (auto simp: asserting_eq_Inr)
    moreover have "orderly_step h0 (t1, h1)"
      using 3(7) orderly_step_from [of h0 h "(t1, h1)"] step by (simp add: orderly_step_def)
    ultimately show ?thesis
      using 3(1) [OF 1 refl _ _ h1(1) _ n1] 3(4) Some by simp
  qed
qed auto

lemma orderly_reconnect_outputs:
  assumes "net_ok h (vs @ R)" and "VNull \<notin> set vs" and "node_has h n c"
    and "\<forall>j \<in> {i..<i + k}. port_value h n j = VNull" and "orderly h"
    and "reconnect_outputs n i k vs h = Inr (vs', h')"
  shows "orderly h' \<and> keeps h h'"
  using assms
proof (induction n i k vs h rule: reconnect_outputs.induct)
  case (2 n i k vs h)
  obtain v h1 where 1: "reconnect_output n i h = Inr (v, h1)" "reconnect_outputs n (Suc i) k (v # vs) h1 = Inr (vs', h')"
    using 2(7) by (auto simp: bnd_eq_Inr)
  have empty: "port_value h n i = VNull"
    using 2(5) by simp
  have h1: "net_ok h1 (v # vs @ R)" "v \<noteq> VNull" "fills n {i} h h1"
    using net_ok_reconnect_output [OF 2(2,4) empty] 1(1) by simp_all
  have o1: "orderly h1" "keeps h h1"
    using orderly_reconnect_output [OF 2(4) empty 2(6) 1(1)] by simp_all
  have "orderly h' \<and> keeps h1 h'"
    using 2(1) [OF 1(1) refl _ _ _ _ o1(1) 1(2)] h1 2(3,5) fills_node_has [OF h1(3) 2(4)]
    by (auto simp: fills_def)
  then show ?case
    using o1(2) keeps_trans by blast
qed auto

lemma orderly_worker_reconnect_node:
  assumes ok: "net_ok (net m) (value_stack m @ R)" and vs: "VNull \<notin> set (value_stack m)"
    and n: "node_has (net m) n c" and empty: "\<forall>i. port_value (net m) n i = VNull"
    and ord: "orderly (net m)" and run: "worker_reconnect_node n arity m = Inr m'"
  shows "\<exists>t vs h. m' = add_found_task t (m\<lparr>net := h, value_stack := vs\<rparr>) \<and> orderly_step (net m) (t, h)"
proof -
  obtain t vs1 h1 vs2 h2 where
    1: "reconnect_inputs n arity None (value_stack m) (net m) = Inr (t, vs1, h1)"
    and c1: "ctor_of_node h1 n = Inr (node_ctors (net m) ! c)"
    and 2: "reconnect_outputs n arity (ctor_arity (node_ctors (net m) ! c) - arity) vs1 h1 = Inr (vs2, h2)"
    and m': "m' = add_found_task t (m\<lparr>net := h2, value_stack := vs2\<rparr>)"
    and h1: "net_ok h1 (vs1 @ R)" "VNull \<notin> set vs1" "fills n {..<arity} (net m) h1"
  proof -
    obtain t vs1 h1 d vs2 h2 where
      1: "reconnect_inputs n arity None (value_stack m) (net m) = Inr (t, vs1, h1)"
      and d: "ctor_of_node h1 n = Inr d"
      and 2: "reconnect_outputs n arity (ctor_arity d - arity) vs1 h1 = Inr (vs2, h2)"
      and m': "m' = add_found_task t (m\<lparr>net := h2, value_stack := vs2\<rparr>)"
      using run by (auto simp: worker_reconnect_node_def bnd_eq_Inr)
    have h1: "net_ok h1 (vs1 @ R)" "VNull \<notin> set vs1" "fills n {..<arity} (net m) h1"
      using net_ok_reconnect_inputs [OF ok vs n, of arity None] empty 1 by simp_all
    have "d = node_ctors (net m) ! c"
      using d ctor_of_node_has [OF fills_node_has [OF h1(3) n]] h1(3) by (simp add: fills_def same_except_def)
    with that 1 d 2 m' h1 show ?thesis by blast
  qed
  have o1: "orderly_step (net m) (t, h1)"
    using orderly_reconnect_inputs [OF ok vs n _ _ 1, of "net m"] empty ord by (simp add: orderly_step_def)
  have n1: "node_has h1 n c"
    by (rule fills_node_has [OF h1(3) n])
  have "\<forall>j \<in> {arity..<arity + (ctor_arity (node_ctors (net m) ! c) - arity)}. port_value h1 n j = VNull"
    using h1(3) empty by (simp add: fills_def)
  then have o2: "orderly h2" "keeps h1 h2"
    using orderly_reconnect_outputs [OF h1(1,2) n1 _ _ 2] o1 by (auto simp: orderly_step_def)
  have "orderly_step (net m) (t, h2)"
    using o1 o2 found_task_later [OF _ o2(2) h1(1)] keeps_trans [of "net m" h1 h2]
    by (auto simp: orderly_step_def)
  with m' show ?thesis by blast
qed

section \<open>Allocating nodes\<close>

lemma orderly_append_nodes:
  assumes ord: "orderly h" and ns: "\<forall>n \<in> set ns. blank n \<and> primitive_arg_count n = 0"
  shows "orderly (h\<lparr>nodes := nodes h @ ns\<rparr>) \<and> keeps h (h\<lparr>nodes := nodes h @ ns\<rparr>)"
proof -
  let ?h = "h\<lparr>nodes := nodes h @ ns\<rparr>"
  have new: "blank (nodes ?h ! n)" "primitive_arg_count (nodes ?h ! n) = 0"
    if "n < length (nodes ?h)" "\<not> n < length (nodes h)" for n
    using that ns by (simp_all add: nth_append)
  have old: "nodes ?h ! n = nodes h ! n" if "n < length (nodes h)" for n
    using that by (simp add: nth_append)
  have "ports_in_place ?h"
    unfolding ports_in_place_def
  proof (intro allI impI)
    fix n i x
    assume n: "n < length (nodes ?h)" "port_value ?h n i = VPrincipal x"
    have "n < length (nodes h)"
    proof (rule ccontr)
      assume "\<not> n < length (nodes h)"
      then show False
        using new(1) [OF n(1)] n(2) by (simp add: blank_def port_value_def slot_def)
    qed
    then show "\<exists>c. node_has ?h n c \<and> principal_at (node_ctors ?h ! c) i"
      using ord n(2) old unfolding orderly_def ports_in_place_def port_value_def node_has_def by fastforce
  qed
  moreover have "args_exact ?h"
    unfolding node_counted
  proof (intro allI impI)
    fix n
    assume n: "n < length (nodes ?h)"
    show "(node_ctor_of (nodes ?h ! n) = None \<longrightarrow> primitive_arg_count (nodes ?h ! n) = 0) \<and>
      (\<forall>c. node_ctor_of (nodes ?h ! n) = Some c \<longrightarrow>
         primitive_arg_count (nodes ?h ! n) = args_at (node_ctors ?h ! c) (value_array (nodes ?h ! n)))"
    proof (cases "n < length (nodes h)")
      case True
      then show ?thesis
        using ord old [OF True] by (simp add: orderly_def node_counted)
    next
      case False
      then show ?thesis
        using new [OF n] by (simp add: blank_def)
    qed
  qed
  moreover have "keeps h ?h"
    using old by (auto simp: keeps_def settled_def)
  ultimately show ?thesis
    using ord by (simp add: orderly_def)
qed

lemma orderly_set_node:
  assumes ord: "orderly h" and n: "n < length (nodes h)"
    and new: "value_array x = value_array (nodes h ! n)" "primitive_arg_count x = primitive_arg_count (nodes h ! n)"
    and ctor: "node_ctor_of x = node_ctor_of (nodes h ! n) \<or>
      node_ctor_of (nodes h ! n) = None \<and> value_array (nodes h ! n) = []"
  shows "orderly (set_node n x h) \<and> keeps h (set_node n x h)"
proof -
  let ?h = "set_node n x h"
  have nodes': "nodes ?h ! m = (if m = n then x else nodes h ! m)" for m
    using n by (simp add: nth_list_update)
  have no_args: "args_at c [] = 0" for c
    by (simp add: args_at_def is_arg_def slot_def)
  have "ports_in_place ?h"
    unfolding ports_in_place_def
  proof (intro allI impI)
    fix k i y
    assume k: "k < length (nodes ?h)" "port_value ?h k i = VPrincipal y"
    have y: "port_value h k i = VPrincipal y"
      using k(2) new(1) unfolding port_value_def nodes' by (auto split: if_splits)
    then obtain c where "node_has h k c" "principal_at (node_ctors h ! c) i"
      using ord k(1) unfolding orderly_def ports_in_place_def by auto
    moreover have "\<not> (k = n \<and> value_array (nodes h ! n) = [])"
      using y by (auto simp: port_value_def slot_def)
    ultimately show "\<exists>c. node_has ?h k c \<and> principal_at (node_ctors ?h ! c) i"
      using ctor unfolding node_has_def nodes' by auto
  qed
  moreover have "args_exact ?h"
    using ord n new ctor no_args unfolding orderly_def node_counted nodes' by auto
  moreover have "keeps h ?h"
    using new(2) ctor unfolding keeps_def nodes' by auto
  ultimately show ?thesis
    using ord by (simp add: orderly_def)
qed

lemma prepare_nodes_loop_counts:
  "prepare_nodes_loop i self h = (self', h') \<Longrightarrow>
     \<exists>ns. h' = h\<lparr>nodes := nodes h @ ns\<rparr> \<and> (\<forall>n \<in> set ns. blank n \<and> primitive_arg_count n = 0)"
proof (induction i self h rule: prepare_nodes_loop.induct)
  case (1 self h)
  then show ?case by (intro exI [of _ "[]"]) simp
next
  case (2 i self h)
  define n where "n = node_new\<lparr>node_id := node_count self + 1\<rparr>"
  define self1 where "self1 = self\<lparr>node_count := node_count self + 1,
    allocator_of := (allocator_of self)
      \<lparr>alloc_stack := length (nodes h) # alloc_stack (allocator_of self)\<rparr>,
    node_array := node_array self @ [length (nodes h)]\<rparr>"
  have "prepare_nodes_loop i self1 (h\<lparr>nodes := nodes h @ [n]\<rparr>) = (self', h')"
    using 2(2) by (simp add: Let_def n_def self1_def)
  from 2(1) [OF refl n_def self1_def this] obtain ns where
    "h' = h\<lparr>nodes := nodes h @ n # ns\<rparr>" "\<forall>n \<in> set ns. blank n \<and> primitive_arg_count n = 0"
    by auto
  moreover have "blank n \<and> primitive_arg_count n = 0"
    by (simp add: n_def node_new_def blank_def)
  ultimately show ?case
    by (intro exI [of _ "n # ns"]) simp
qed

lemma orderly_allocate:
  assumes "node_allocator_allocate alloc stack h = Some (Inr (a, alloc', stack', h'))" and "orderly h"
  shows "orderly h' \<and> keeps h h'"
proof -
  define P where "P al st k r \<longleftrightarrow> (\<forall>x. r = Inr x \<longrightarrow> orderly k \<longrightarrow>
      orderly (snd (snd (snd x))) \<and> keeps k (snd (snd (snd x))))"
    for al :: node_allocator and st :: "nat list" and k and r :: "(nat \<times> node_allocator \<times> nat list \<times> heap) res"
  have "P alloc stack h (Inr (a, alloc', stack', h'))"
  proof (rule node_allocator_allocate.raw_induct [of P, OF _ assms(1)])
    fix f al st k r
    assume IH: "\<And>al st k r. f al st k = Some r \<Longrightarrow> P al st k r"
      and run: "(case allocator_maybe_allocate (allocator_of al) st of
          (None, alloc, stack) \<Rightarrow>
            (case prepare_one_batch_of_nodes (al\<lparr>allocator_of := alloc\<rparr>) k of (self, h) \<Rightarrow> f self stack h)
        | (Some a, alloc, stack) \<Rightarrow>
            Some (deref (at (nodes k) a) (\<lambda>n.
              Inr (a, al\<lparr>allocator_of := alloc\<rparr>, stack, set_node a (n\<lparr>is_allocated := True\<rparr>) k)))) = Some r"
    show "P al st k r"
    proof (cases "fst (allocator_maybe_allocate (allocator_of al) st)")
      case None
      then obtain al1 st1 al2 k1 where
        p: "prepare_one_batch_of_nodes (al\<lparr>allocator_of := al1\<rparr>) k = (al2, k1)" "f al2 st1 k1 = Some r"
        using run by (auto split: prod.splits)
      obtain ns where "k1 = k\<lparr>nodes := nodes k @ ns\<rparr>" "\<forall>n \<in> set ns. blank n \<and> primitive_arg_count n = 0"
        using prepare_nodes_loop_counts p(1) unfolding prepare_one_batch_of_nodes_def by blast
      then have "orderly k \<Longrightarrow> orderly k1 \<and> keeps k k1"
        using orderly_append_nodes by simp
      then show ?thesis
        using IH [OF p(2)] keeps_trans unfolding P_def by blast
    next
      case (Some b)
      then show ?thesis
        using run orderly_set_node [of k b "(nodes k ! b)\<lparr>is_allocated := True\<rparr>"]
        by (auto simp: P_def deref_eq_Inr at_Some_iff split: prod.splits)
    qed
  qed
  then show ?thesis
    using assms(2) by (simp add: P_def)
qed

lemma orderly_worker_new_node:
  assumes run: "worker_new_node c m = Some (Inr (a, m'))" and ord: "orderly (net m)"
    and al: "alloc_ok F (node_alloc m) (free_node_stack m) (net m)" and ok: "net_ok (net m) R"
  shows "orderly (net m') \<and> keeps (net m) (net m')"
proof -
  obtain alloc st h where h: "node_allocator_allocate (node_alloc m) (free_node_stack m) (net m)
      = Some (Inr (a, alloc, st, h))" "a < length (nodes h)"
    and m': "m' = m\<lparr>net := set_node a ((nodes h ! a)\<lparr>node_ctor_of := Some c\<rparr>) h, node_alloc := alloc,
      free_node_stack := st\<rparr>"
    using run by (auto simp: worker_new_node_def lbnd_eq_Some_Inr deref_eq_Inr at_Some_iff)
  have "value_array (nodes h ! a) = []" "node_ctor_of (nodes h ! a) = None"
    using node_allocator_allocate_ok [OF al ok] h(1) by auto
  then show ?thesis
    using orderly_allocate [OF h(1) ord] orderly_set_node [of h a "(nodes h ! a)\<lparr>node_ctor_of := Some c\<rparr>"] h(2) m'
      keeps_trans by auto
qed

section \<open>The other operations on the net\<close>

lemma defuze_same_but_wires: "defuze h v = Inr (u, h') \<Longrightarrow> same_but_wires h h'"
proof (induction h v rule: defuze.induct)
  case (1 h v)
  show ?case
  proof (cases "is_wire v")
    case False
    then show ?thesis
      using 1(2) by (simp add: defuze_simps same_but_wires_def)
  next
    case True
    then obtain a f where v: "v = VWire a" "cell (wires h) a = Some f"
      and r: "if f = VNull then (u, h') = (VWire a, h) else defuze (wire_destroy a h) f = Inr (u, h')"
      using 1(2) by (auto simp: is_wire_def defuze_simps deref_eq_Inr split: val.splits if_splits)
    show ?thesis
    proof (cases "f = VNull")
      case True
      with r show ?thesis by (simp add: same_but_wires_def)
    next
      case False
      then show ?thesis
        using 1(1) [OF v] r by (simp add: same_but_wires_def)
    qed
  qed
qed

section \<open>Taking nodes apart\<close>

text \<open>The node is blank, and the principal wires of the other nodes are as before.\<close>

definition taken_apart :: "nat \<Rightarrow> heap \<Rightarrow> heap \<Rightarrow> bool" where
  "taken_apart n h h' \<longleftrightarrow>
     (\<exists>x. nodes h' = (nodes h)[n := x] \<and> node_ctor_of x = None \<and> value_array x = [] \<and> primitive_arg_count x = 0) \<and>
     node_ctors h' = node_ctors h \<and>
     (\<forall>y. (\<forall>j. port_value h n j \<noteq> VPrincipal y) \<longrightarrow> cell (principal_wires h') y = cell (principal_wires h) y)"

lemma disconnect_ports_frees:
  "disconnect_ports n i k vs h = Inr (vs', h') \<Longrightarrow> frees_only n h h'"
proof (induction k arbitrary: i vs h)
  case (Suc k)
  obtain v where v: "node_get_value h n i = Inr v"
    using Suc.prems by (auto simp: bnd_eq_Inr)
  have port: "v = port_value h n i"
    using v by (auto simp: node_get_value_def deref_eq_Inr at_Some_iff asserting_eq_Inr port_value_def)
  show ?case
  proof (cases "is_principal_wire v")
    case False
    then have "disconnect_ports n (Suc i) k (v # vs) h = Inr (vs', h')"
      using Suc.prems v by (auto simp: is_principal_wire_def split: val.splits)
    then show ?thesis
      by (rule Suc.IH)
  next
    case True
    then obtain p where p: "v = VPrincipal p"
      by (auto simp: is_principal_wire_def split: val.splits)
    then have "disconnect_ports n (Suc i) k vs (principal_wire_destroy p h) = Inr (vs', h')"
      using Suc.prems v by (auto simp: deref_eq_Inr)
    then have "frees_only n (principal_wire_destroy p h) h'"
      by (rule Suc.IH)
    moreover have "frees_only n h (principal_wire_destroy p h)"
      using port p by (auto simp: frees_only_def cell_update)
    ultimately show ?thesis
      using frees_only_trans by blast
  qed
qed (simp add: frees_only_def)

lemma disconnect_takes_apart:
  assumes "worker_disconnect_node n m = Inr m'"
  shows "taken_apart n (net m) (net m') \<and> n < length (nodes (net m))"
proof -
  obtain c vs h where c: "ctor_of_node (net m) n = Inr c"
    and d: "disconnect_ports n 0 (ctor_arity c) (value_stack m) (net m) = Inr (vs, h)"
    and r: "worker_recycle_node n (m\<lparr>net := h, value_stack := vs\<rparr>) = Inr m'"
    using assms by (auto simp: worker_disconnect_node_def bnd_eq_Inr)
  have h: "frees_only n (net m) h"
    by (rule disconnect_ports_frees [OF d])
  have n: "n < length (nodes (net m))"
    using c by (auto simp: ctor_of_node_def deref_eq_Inr at_Some_iff)
  have "nodes (net m') = (nodes h)[n := node_clean (nodes h ! n)]" "node_ctors (net m') = node_ctors h"
      "principal_wires (net m') = principal_wires h"
    using r by (auto simp: worker_recycle_node_def node_allocator_recycle_def bnd_eq_Inr deref_eq_Inr at_Some_iff
        node_clean_def)
  then show ?thesis
    using h n by (auto simp: taken_apart_def frees_only_def node_clean_def)
qed

lemma orderly_taken_apart:
  assumes ord: "orderly h" and t: "taken_apart n h h'" and n: "n < length (nodes h)"
  shows "orderly h'"
proof -
  obtain x where x: "nodes h' = (nodes h)[n := x]" "node_ctor_of x = None" "value_array x = []"
      "primitive_arg_count x = 0" and ctors: "node_ctors h' = node_ctors h"
    using t by (auto simp: taken_apart_def)
  have nodes': "nodes h' ! k = (if k = n then x else nodes h ! k)" for k
    using n by (simp add: x(1) nth_list_update)
  have len: "length (nodes h') = length (nodes h)"
    by (simp add: x(1))
  have "ports_in_place h'"
    using ord x(2,3) unfolding orderly_def ports_in_place_def port_value_def node_has_def nodes' ctors len
    by (auto simp: slot_def)
  moreover have "args_exact h'"
    using ord x(2,4) unfolding orderly_def node_counted nodes' ctors len by auto
  ultimately show ?thesis
    using ord by (simp add: orderly_def ctors)
qed

text \<open>A node with one principal port has no other principal wire.\<close>

lemma only_principal:
  assumes ord: "orderly h" and ok: "net_ok h R" and l: "cell (principal_wires h) l = Some p"
    and single: "single_node h (pw_node p)" and x: "port_value h (pw_node p) j = VPrincipal x"
  shows "x = l"
proof -
  have p: "pw_node p < length (nodes h)" "port_value h (pw_node p) (pw_index p) = VPrincipal l"
    using ok l by (auto simp: net_ok_def pw_placed_def port_value_def)
  obtain c where c: "node_has h (pw_node p) c" "single_port (node_ctors h ! c)"
    using single p(1) by (auto simp: single_node_def node_has_def split: option.splits)
  have "principal_at (node_ctors h ! c) (pw_index p)" "principal_at (node_ctors h ! c) j"
    using ports_in_place_at [OF ord net_ok_nodes_ok [OF ok] p(1) _ c(1)] p(2) x by blast+
  then have "pw_index p = j"
    by (rule single_port_unique [OF c(2)])
  with p(2) x show ?thesis by simp
qed

lemma task_ready_taken_apart:
  assumes ord: "orderly h" and ok: "net_ok h R" and l: "cell (principal_wires h) l = Some p"
    and single: "single_node h (pw_node p)" and t: "taken_apart (pw_node p) h h'"
    and u: "task_ready h u" and other: "Inl l \<notin> set (task_parts u)"
  shows "task_ready h' u"
proof -
  let ?n = "pw_node p"
  have n: "?n < length (nodes h)" "port_value h ?n (pw_index p) = VPrincipal l"
    using ok l by (auto simp: net_ok_def pw_placed_def port_value_def)
  obtain x where "nodes h' = (nodes h)[?n := x]" and ctors: "node_ctors h' = node_ctors h"
    and pws: "\<And>y. (\<forall>j. port_value h ?n j \<noteq> VPrincipal y) \<Longrightarrow>
      cell (principal_wires h') y = cell (principal_wires h) y"
    using t by (auto simp: taken_apart_def)
  then have nodes': "length (nodes h') = length (nodes h)" "\<And>k. k \<noteq> ?n \<Longrightarrow> nodes h' ! k = nodes h ! k"
    by simp_all
  have keep: "cell (principal_wires h') y = Some q" "pw_node q \<noteq> ?n"
    if "cell (principal_wires h) y = Some q" "y \<noteq> l" for y q
  proof -
    have "\<forall>j. port_value h ?n j \<noteq> VPrincipal y"
      using only_principal [OF ord ok l single] that(2) by blast
    moreover have "port_value h (pw_node q) (pw_index q) = VPrincipal y"
      using ok that(1) by (auto simp: net_ok_def pw_placed_def port_value_def)
    ultimately show "cell (principal_wires h') y = Some q" "pw_node q \<noteq> ?n"
      using pws that(1) by auto
  qed
  show ?thesis
  proof (cases u)
    case (Task_active_pair a b rule)
    have "single_node h' k = single_node h k" if "k \<noteq> ?n" for k
      unfolding single_node_def nodes'(2) [OF that] ctors by (rule refl)
    with u other Task_active_pair show ?thesis
      using keep by (auto simp: task_ready_def task_parts_def pair_waits_iff)
  next
    case (Task_primitive k)
    have "k \<noteq> ?n"
      using waiting_not_settled [OF ord net_ok_nodes_ok [OF ok] n(2,1)] u Task_primitive
      by (auto simp: task_ready_def)
    have "settled h' k = settled h k"
      unfolding settled_def nodes'(1) nodes'(2) [OF \<open>k \<noteq> ?n\<close>] ctors by (rule refl)
    with u Task_primitive show ?thesis
      by (simp add: task_ready_def)
  qed
qed

end
