(* ===== verification/Machine_Invariant.thy ===== *)
theory Machine_Invariant
  imports Task_Order
begin

text \<open>
  The invariant of a running worker. The roots of the net are the value stack and the variables
  of the frames; \<open>L\<close> are the ends the program has dropped (a variable that was bound and never
  used). Every operation of the interpreter that returns keeps the net linear over its roots, and
  the queued tasks ready.
\<close>

section \<open>The invariant\<close>

definition nodes_complete :: "heap \<Rightarrow> bool" where
  "nodes_complete h \<longleftrightarrow>
     (\<forall>n c. n < length (nodes h) \<and> node_ctor_of (nodes h ! n) = Some c \<longrightarrow> node_complete h n c)"

text \<open>Only \<open>connect\<close> and \<open>link\<close> are primitives that are applied without a node.\<close>

definition plain_primitive :: "primitive \<Rightarrow> bool" where
  "plain_primitive p \<longleftrightarrow>
     (case primitive_fn p of Primitive_fn X_connect \<Rightarrow> True | Primitive_fn X_link \<Rightarrow> True | _ \<Rightarrow> False)"

text \<open>A primitive on values does not return a wire.\<close>

definition results_ok :: "primitive_fn \<Rightarrow> bool" where
  "results_ok fn =
     (case fn of
        Primitive_fn _ \<Rightarrow> True
      | Primitive_fn_0 f \<Rightarrow> (\<forall>v. f = Inr v \<longrightarrow> is_non_wire v)
      | Primitive_fn_1 f \<Rightarrow> (\<forall>x v. f x = Inr v \<longrightarrow> is_non_wire v)
      | Primitive_fn_2 f \<Rightarrow> (\<forall>x y v. f x y = Inr v \<longrightarrow> is_non_wire v)
      | Primitive_fn_3 f \<Rightarrow> (\<forall>x y z v. f x y z = Inr v \<longrightarrow> is_non_wire v)
      | Primitive_fn_4 f \<Rightarrow> (\<forall>x y z w v. f x y z w = Inr v \<longrightarrow> is_non_wire v))"

definition prims_ok :: "primitive list \<Rightarrow> bool" where
  "prims_ok ps \<longleftrightarrow>
     (\<forall>p \<in> set ps. (primitive_node_ctor p = None \<longrightarrow> plain_primitive p) \<and> results_ok (primitive_fn p))"

definition target_port_ok :: "node_ctor \<Rightarrow> bool" where
  "target_port_ok c \<longleftrightarrow> (\<exists>info. slot None (port_infos c) 0 = Some info \<and> is_principal info)"

definition apply_prims_ok :: "machine \<Rightarrow> bool" where
  "apply_prims_ok m \<longleftrightarrow>
     (\<forall>p \<in> set (apply_primitives m). p < length (primitives m) \<and>
        (\<exists>c. primitive_node_ctor (primitives m ! p) = Some c \<and> c < length (node_ctors (net m)) \<and>
           target_port_ok (node_ctors (net m) ! c))) \<and>
     (\<forall>c \<in> set (node_ctors (net m)). \<forall>p. ctor_primitive c = Some p \<longrightarrow> p < length (primitives m) \<and>
        ctor_arity c = input_arity (primitives m ! p) + output_arity (primitives m ! p))"

definition literal_ok :: "opcode \<Rightarrow> bool" where
  "literal_ok op = (case op of Op_literal v \<Rightarrow> v \<noteq> VNull \<and> is_non_wire v | _ \<Rightarrow> True)"

definition code_ok :: "function_t option list \<Rightarrow> bool" where
  "code_ok fs \<longleftrightarrow> (\<forall>f fn. cell fs f = Some fn \<longrightarrow> (\<forall>op \<in> set (opcode_array fn). literal_ok op))"

text \<open>
  What other workers hold: the nodes on their free stacks, and the tasks in their queues or in
  their hands. A worker on its own has nothing outside.
\<close>

record outside =
  free_elsewhere :: "nat list"
  tasks_elsewhere :: "task list"

abbreviation nothing :: outside where
  "nothing \<equiv> \<lparr>free_elsewhere = [], tasks_elsewhere = []\<rparr>"

definition tasks_ok :: "outside \<Rightarrow> machine \<Rightarrow> bool" where
  "tasks_ok F m \<longleftrightarrow> orderly (net m) \<and> tasks_ready (net m) (tasks_elsewhere F @ task_queue m)"

definition stack_ok :: "outside \<Rightarrow> val list \<Rightarrow> machine \<Rightarrow> bool" where
  "stack_ok F R m \<longleftrightarrow>
     net_ok (net m) (value_stack m @ R) \<and> VNull \<notin> set (value_stack m) \<and>
     alloc_ok (free_elsewhere F) (node_alloc m) (free_node_stack m) (net m) \<and> nodes_complete (net m) \<and>
     prims_ok (primitives m) \<and> apply_prims_ok m \<and> tasks_ok F m"

definition frame_vars :: "frame list \<Rightarrow> val list" where
  "frame_vars fs = concat (map variable_array fs)"

definition machine_ok :: "outside \<Rightarrow> val list \<Rightarrow> machine \<Rightarrow> bool" where
  "machine_ok F L m \<longleftrightarrow> stack_ok F (frame_vars (return_stack m) @ L) m \<and> code_ok (function_objects m)"

lemma frame_vars_simps [simp]:
  "frame_vars [] = []" "frame_vars (f # fs) = variable_array f @ frame_vars fs"
  by (simp_all add: frame_vars_def)

section \<open>Roots\<close>

lemma net_ok_drop:
  assumes ok: "net_ok h (xs @ v # ys)" and v: "is_non_wire v"
  shows "net_ok h (xs @ ys)"
proof -
  have "v \<noteq> VWire a" "v \<noteq> VPrincipal a" for a
    using v by (auto simp: is_non_wire_def is_wire_def is_principal_wire_def)
  then show ?thesis
    using ok by (simp add: net_ok_def linear_def refs_def)
qed

lemma net_ok_add:
  assumes ok: "net_ok h (xs @ ys)" and v: "is_non_wire v"
  shows "net_ok h (xs @ v # ys)"
proof -
  have "v \<noteq> VWire a" "v \<noteq> VPrincipal a" for a
    using v by (auto simp: is_non_wire_def is_wire_def is_principal_wire_def)
  then show ?thesis
    using ok by (simp add: net_ok_def linear_def refs_def)
qed

text \<open>Two lists of roots with the same wires.\<close>

definition same_roots :: "val list \<Rightarrow> val list \<Rightarrow> bool" where
  "same_roots R S \<longleftrightarrow> (\<forall>v. v \<noteq> VNull \<longrightarrow> count_list R v = count_list S v)"

lemma net_ok_same_roots: "net_ok h R \<Longrightarrow> same_roots R S \<Longrightarrow> net_ok h S"
  using net_ok_roots_cong [of h R S] by (simp add: same_roots_def)

lemma same_roots_move: "same_roots (xs @ v # ys) (v # xs @ ys)"
  by (simp add: same_roots_def)

lemma same_roots_move_back: "same_roots (v # xs @ ys) (xs @ v # ys)"
  by (simp add: same_roots_def)

lemma stack_ok_same_roots: "stack_ok F R m \<Longrightarrow> same_roots R S \<Longrightarrow> stack_ok F S m"
  using net_ok_same_roots [of "net m" "value_stack m @ R" "value_stack m @ S"]
  by (simp add: stack_ok_def same_roots_def)

section \<open>Keeping the parts that are not the net\<close>

lemma blank_shape: "node_shape n' = node_shape n \<Longrightarrow> blank n \<Longrightarrow> blank n'"
  by (auto simp: node_shape_def blank_def)

lemma alloc_ok_same_except:
  assumes al: "alloc_ok F alloc stack h" and s: "same_except a h h'"
    and a: "a \<notin> set (free_nodes F alloc stack)"
  shows "alloc_ok F alloc stack h'"
proof -
  have "b < length (nodes h') \<and> blank (nodes h' ! b)" if b: "b \<in> set (free_nodes F alloc stack)" for b
  proof -
    have "b \<noteq> a" "b < length (nodes h)" "blank (nodes h ! b)"
      using al a b by (auto simp: alloc_ok_def)
    then show ?thesis
      using s blank_shape [of "nodes h' ! b" "nodes h ! b"] by (simp add: same_except_def)
  qed
  then show ?thesis
    using al by (simp add: alloc_ok_def)
qed

lemma alloc_ok_same_shape:
  assumes al: "alloc_ok F alloc stack h" and s: "same_shape h h'"
  shows "alloc_ok F alloc stack h'"
proof -
  have "b < length (nodes h') \<and> blank (nodes h' ! b)" if b: "b \<in> set (free_nodes F alloc stack)" for b
    using al b same_shape_nth [OF s] blank_shape [of "nodes h' ! b" "nodes h ! b"]
    by (auto simp: alloc_ok_def)
  then show ?thesis
    using al by (simp add: alloc_ok_def)
qed

lemma node_complete_shape:
  assumes "node_complete h n c" and "node_ctors h' = node_ctors h" and "n < length (nodes h')"
    and "node_shape (nodes h' ! n) = node_shape (nodes h ! n)"
  shows "node_complete h' n c"
proof -
  have "map (\<lambda>v. v = VNull) (value_array (nodes h' ! n)) = map (\<lambda>v. v = VNull) (value_array (nodes h ! n))"
    and "node_ctor_of (nodes h' ! n) = node_ctor_of (nodes h ! n)"
    using assms(4) by (simp_all add: node_shape_def)
  from map_null_slot [OF this(1)] this(2) show ?thesis
    using assms by (simp add: node_complete_def node_has_def port_value_def)
qed

lemma nodes_complete_same_shape:
  assumes "nodes_complete h" and s: "same_shape h h'"
  shows "nodes_complete h'"
  unfolding nodes_complete_def
proof (intro allI impI)
  fix n c
  assume n: "n < length (nodes h') \<and> node_ctor_of (nodes h' ! n) = Some c"
  have "node_shape (nodes h' ! n) = node_shape (nodes h ! n)"
    using same_shape_nth [OF s] n by simp
  moreover from this have "node_complete h n c"
    using assms(1) n same_shape_nth(1) [OF s] by (simp add: nodes_complete_def node_shape_def)
  ultimately show "node_complete h' n c"
    using node_complete_shape n same_shape_nth(2) [OF s] by blast
qed

lemma nodes_complete_same_except:
  assumes "\<And>k c. k \<noteq> n \<Longrightarrow> k < length (nodes h) \<Longrightarrow> node_ctor_of (nodes h ! k) = Some c \<Longrightarrow>
      node_complete h k c"
    and s: "same_except n h h'"
    and n: "\<And>c. n < length (nodes h') \<Longrightarrow> node_ctor_of (nodes h' ! n) = Some c \<Longrightarrow> node_complete h' n c"
  shows "nodes_complete h'"
  unfolding nodes_complete_def
proof (intro allI impI)
  fix k c
  assume k: "k < length (nodes h') \<and> node_ctor_of (nodes h' ! k) = Some c"
  show "node_complete h' k c"
  proof (cases "k = n")
    case False
    then have sh: "node_shape (nodes h' ! k) = node_shape (nodes h ! k)"
      using s k by (simp add: same_except_def)
    then have "node_complete h k c"
      using assms(1) [OF False] k s by (simp add: same_except_def node_shape_def)
    then show ?thesis
      using node_complete_shape [OF _ _ _ sh] k s by (simp add: same_except_def)
  qed (use n k in simp)
qed

section \<open>The operations\<close>

text \<open>What applying a value may change besides the net, the stack and the allocator.\<close>

definition app_step :: "machine \<Rightarrow> machine \<Rightarrow> bool" where
  "app_step m m' \<longleftrightarrow>
     function_objects m' = function_objects m \<and>
     (return_stack m' = return_stack m \<or>
      (\<exists>f. return_stack m' = frame_new f # return_stack m))"

text \<open>The tasks after an operation on the net, and with the task it found.\<close>

lemma tasks_ok_keep:
  assumes "tasks_ok F m" and "net_ok (net m) R" and "orderly h" and "keeps (net m) h"
  shows "tasks_ok F (m\<lparr>net := h\<rparr>)"
  using assms tasks_ready_keep [of "net m" "tasks_elsewhere F @ task_queue m" h R] by (simp add: tasks_ok_def)

lemma tasks_ok_same_wires:
  assumes "tasks_ok F m" and "net_ok (net m) R" and "same_but_wires (net m) h"
  shows "tasks_ok F (m\<lparr>net := h\<rparr>)"
  using tasks_ok_keep [OF assms(1,2)] same_but_wires_orderly [OF assms(3)] same_but_wires_keeps [OF assms(3)]
    assms(1) by (simp add: tasks_ok_def)

lemma tasks_ok_found:
  assumes t: "tasks_ok F m" and ok: "net_ok (net m) R" and step: "orderly_step (net m) (found, h)"
  shows "tasks_ok F (add_found_task found (m\<lparr>net := h\<rparr>))"
proof (cases found)
  case None
  then show ?thesis
    using tasks_ok_keep [OF t ok] step by (simp add: orderly_step_def add_found_task_def)
next
  case (Some task)
  have "tasks_ready h ((tasks_elsewhere F @ task_queue m) @ [task])"
      "tasks_ready h (tasks_elsewhere F @ task_queue m)"
    using tasks_ready_add [of "net m" "tasks_elsewhere F @ task_queue m" h R task]
      tasks_ready_keep [of "net m" "tasks_elsewhere F @ task_queue m" h R] t ok step Some
    by (auto simp: tasks_ok_def orderly_step_def)
  then show ?thesis
    using step Some by (simp add: tasks_ok_def add_found_task_def worker_add_task_def Let_def orderly_step_def)
qed

lemma tasks_ok_fields: "tasks_ok F m \<Longrightarrow> net m' = net m \<Longrightarrow> task_queue m' = task_queue m \<Longrightarrow> tasks_ok F m'"
  by (simp add: tasks_ok_def)

lemma tasks_ok_value_stack [simp]:
  "tasks_ok F (m\<lparr>value_stack := vs\<rparr>) \<longleftrightarrow> tasks_ok F m" "tasks_ok F (m\<lparr>return_stack := rs\<rparr>) \<longleftrightarrow> tasks_ok F m"
  "tasks_ok F (m\<lparr>node_alloc := alloc\<rparr>) \<longleftrightarrow> tasks_ok F m" "tasks_ok F (m\<lparr>free_node_stack := st\<rparr>) \<longleftrightarrow> tasks_ok F m"
  "tasks_ok F (m\<lparr>primitives := ps\<rparr>) \<longleftrightarrow> tasks_ok F m" "tasks_ok F (m\<lparr>apply_primitives := as\<rparr>) \<longleftrightarrow> tasks_ok F m"
  by (simp_all add: tasks_ok_def)

lemma tasks_ok_found_fields:
  "tasks_ok F (add_found_task found m) \<Longrightarrow> net m' = net m \<Longrightarrow> task_queue m' = task_queue m \<Longrightarrow>
     task_queue_size m' = task_queue_size m \<Longrightarrow> tasks_ok F (add_found_task found m')"
  by (cases found) (auto simp: tasks_ok_def add_found_task_def worker_add_task_def Let_def split: if_splits)

lemma stack_ok_same_shape:
  assumes "stack_ok F R m" and "same_shape (net m) h" and "net_ok h (vs @ S)" and "VNull \<notin> set vs"
    and "tasks_ok F (m\<lparr>net := h\<rparr>)"
  shows "stack_ok F S (m\<lparr>net := h, value_stack := vs\<rparr>)"
  using assms alloc_ok_same_shape nodes_complete_same_shape same_shape_nth(2) [OF assms(2)]
  by (auto simp: stack_ok_def apply_prims_ok_def tasks_ok_def)

lemma stack_ok_same_net: "stack_ok F R m \<Longrightarrow> net m' = net m \<Longrightarrow> value_stack m' = value_stack m \<Longrightarrow>
    node_alloc m' = node_alloc m \<Longrightarrow> free_node_stack m' = free_node_stack m \<Longrightarrow>
    primitives m' = primitives m \<Longrightarrow> apply_primitives m' = apply_primitives m \<Longrightarrow>
    task_queue m' = task_queue m \<Longrightarrow> stack_ok F R m'"
  by (simp add: stack_ok_def apply_prims_ok_def tasks_ok_def)

lemma stack_ok_add_found_task:
  "stack_ok F R m \<Longrightarrow> tasks_ok F (add_found_task t m) \<Longrightarrow> stack_ok F R (add_found_task t m)"
  by (simp add: stack_ok_def apply_prims_ok_def)

lemma stack_ok_worker_connect:
  assumes ok: "stack_ok F (x # y # R) m" and xy: "x \<noteq> VNull" "y \<noteq> VNull"
    and run: "worker_connect x y m = Inr m'"
  shows "stack_ok F R m' \<and> app_step m m'"
proof -
  have net: "net_ok (net m) (x # y # value_stack m @ R)"
    using ok net_ok_same_roots [of "net m" "value_stack m @ x # y # R" "x # y # value_stack m @ R"]
    by (simp add: stack_ok_def same_roots_def)
  note c = net_ok_connect_fuze(1) [OF net xy]
  obtain t h where t: "connect x y (net m) = Inr (t, h)" "m' = add_found_task t (m\<lparr>net := h\<rparr>)"
    using run by (auto simp: worker_connect_def bnd_eq_Inr)
  with c have h: "net_ok h (value_stack m @ R)" "same_shape (net m) h"
    by simp_all
  have "orderly_step (net m) (t, h)"
    using orderly_connect_fuze(1) [OF net xy _ t(1)] ok by (simp add: stack_ok_def tasks_ok_def)
  then have found: "tasks_ok F (add_found_task t (m\<lparr>net := h\<rparr>))" "tasks_ok F (m\<lparr>net := h\<rparr>)"
    using tasks_ok_found [OF _ net] tasks_ok_keep [OF _ net] ok by (auto simp: stack_ok_def orderly_step_def)
  have "stack_ok F R (m\<lparr>net := h, value_stack := value_stack m\<rparr>)"
    using stack_ok_same_shape [OF ok h(2,1)] ok found(2) by (simp add: stack_ok_def)
  then show ?thesis
    using stack_ok_add_found_task [of F R "m\<lparr>net := h\<rparr>"] found(1) by (simp add: t app_step_def)
qed

lemma stack_ok_pop:
  assumes "stack_ok F R m" and "worker_pop m = Inr (v, m')"
  shows "stack_ok F (v # R) m' \<and> v \<noteq> VNull \<and> (\<exists>vs. m' = m\<lparr>value_stack := vs\<rparr>)"
proof -
  obtain vs where vs: "value_stack m = v # vs" "m' = m\<lparr>value_stack := vs\<rparr>"
    using assms(2) by (auto simp: worker_pop_def split: list.splits)
  have "net_ok (net m) (vs @ v # R)"
    using assms(1) vs same_roots_move_back [of v vs R] net_ok_same_roots [of "net m" "v # vs @ R"]
    by (simp add: stack_ok_def)
  then show ?thesis
    using assms(1) vs by (auto simp: stack_ok_def apply_prims_ok_def)
qed

lemma stack_ok_push:
  assumes ok: "stack_ok F (v # R) m" and "v \<noteq> VNull"
  shows "stack_ok F R (worker_push v m)"
  using assms net_ok_same_roots [OF _ same_roots_move, of "net m" "value_stack m" v R]
  by (auto simp: stack_ok_def worker_push_def apply_prims_ok_def)

lemma stack_ok_push_non_wire:
  assumes ok: "stack_ok F R m" and "v \<noteq> VNull" and "is_non_wire v"
  shows "stack_ok F R (worker_push v m)"
  using assms net_ok_add [of "net m" "[]" "value_stack m @ R" v]
  by (simp add: stack_ok_def worker_push_def apply_prims_ok_def)

lemma stack_ok_drop: "stack_ok F (v # R) m \<Longrightarrow> is_non_wire v \<Longrightarrow> stack_ok F R m"
  using net_ok_drop [of "net m" "value_stack m" v R] by (simp add: stack_ok_def)

lemma stack_ok_x_connect:
  assumes ok: "stack_ok F R m" and run: "x_connect m = Inr m'"
  shows "stack_ok F R m' \<and> app_step m m'"
proof -
  obtain y m1 x m2 where y: "worker_pop m = Inr (y, m1)" and x: "worker_pop m1 = Inr (x, m2)"
    and c: "worker_connect x y m2 = Inr m'"
    using run by (auto simp: x_connect_def bnd_eq_Inr asserting_eq_Inr)
  note 1 = stack_ok_pop [OF ok y]
  note 2 = stack_ok_pop [OF _ x, of F "y # R"]
  show ?thesis
    using stack_ok_worker_connect [OF _ _ _ c, of F R] 1 2 by (auto simp: app_step_def)
qed

lemma stack_ok_x_link:
  assumes ok: "stack_ok F R m"
  shows "stack_ok F R (x_link m) \<and> app_step m (x_link m)"
proof -
  obtain w h where w: "wire_new (net m) = (w, h)" by fastforce
  have "net_ok h (VWire w # VWire w # value_stack m @ R)" "same_shape (net m) h"
    using net_ok_wire_new [OF _ w, of "value_stack m @ R"] ok by (simp_all add: stack_ok_def)
  moreover have "tasks_ok F (m\<lparr>net := h\<rparr>)"
    using ok w tasks_ok_same_wires [of F m] by (auto simp: stack_ok_def)
  ultimately have "stack_ok F R (m\<lparr>net := h, value_stack := VWire w # VWire w # value_stack m\<rparr>)"
    using ok by (intro stack_ok_same_shape [OF ok]) (simp_all add: stack_ok_def)
  then show ?thesis
    by (simp add: x_link_def w worker_push_def app_step_def)
qed

section \<open>Making a node\<close>

lemma worker_reconnect_node_ctor:
  assumes "worker_reconnect_node n arity m = Inr m'"
  shows "\<exists>c. ctor_of_node (net m) n = Inr c"
proof (cases arity)
  case 0
  then show ?thesis
    using assms by (auto simp: worker_reconnect_node_def bnd_eq_Inr)
next
  case (Suc i)
  then show ?thesis
    using assms by (cases "value_stack m")
      (auto simp: worker_reconnect_node_def bnd_eq_Inr reconnect_input_def node_get_port_info_def
        deref_eq_Inr asserting_eq_Inr)
qed

lemma stack_ok_apply_node:
  assumes ok: "stack_ok F R m" and run: "apply_node c arity m = Some (Inr m')"
  shows "stack_ok F R m' \<and> app_step m m'"
proof -
  obtain n m1 where new: "worker_new_node c m = Some (Inr (n, m1))"
    and re: "worker_reconnect_node n arity m1 = Inr m'"
    using run by (auto simp: apply_node_def lbnd_eq_Some_Inr)
  have al: "alloc_ok (free_elsewhere F) (node_alloc m) (free_node_stack m) (net m)"
    and net: "net_ok (net m) (value_stack m @ R)" and tasks: "tasks_ok F m"
    using ok by (simp_all add: stack_ok_def)
  have c: "c < length (node_ctors (net m))"
  proof -
    obtain a alloc st h where "node_allocator_allocate (node_alloc m) (free_node_stack m) (net m)
        = Some (Inr (a, alloc, st, h))" "extends a (net m) h" "a < length (nodes h)"
      using node_allocator_allocate_ok [OF al net] by blast
    with new have "ctor_of_node (net m1) n = deref (at (node_ctors (net m)) c) Inr"
      by (auto simp: worker_new_node_def deref_eq_Inr at_def ctor_of_node_def extends_def)
    then show ?thesis
      using worker_reconnect_node_ctor [OF re] by (auto simp: deref_eq_Inr at_def split: if_splits)
  qed
  obtain h alloc st where m1: "m1 = m\<lparr>net := h, node_alloc := alloc, free_node_stack := st\<rparr>"
    and h: "alloc_ok (free_elsewhere F) alloc st h" "net_ok h (value_stack m @ R)" "extends n (net m) h"
      "node_has h n c" "n \<notin> set (free_nodes (free_elsewhere F) alloc st)" "\<forall>i. port_value h n i = VNull"
    using worker_new_node_ok [OF al net c] new by auto
  have "safely (\<lambda>m'. net_ok (net m') (value_stack m' @ R) \<and> VNull \<notin> set (value_stack m') \<and>
      same_except n (net m1) (net m') \<and> node_complete (net m') n c \<and>
      (\<exists>t vs h. m' = add_found_task t (m1\<lparr>net := h, value_stack := vs\<rparr>)))
    (worker_reconnect_node n arity m1)"
    using net_ok_worker_reconnect_node [of m1 R n c arity] h ok m1 by (simp add: stack_ok_def)
  note built = safely_Inr [OF this re]
  have ord1: "orderly h" "keeps (net m) h"
    using orderly_worker_new_node [OF new _ al net] tasks m1 by (simp_all add: tasks_ok_def)
  have tasks1: "tasks_ok F (m\<lparr>net := h\<rparr>)"
    by (rule tasks_ok_keep [OF tasks net ord1])
  obtain t vs h' where m': "m' = add_found_task t (m1\<lparr>net := h', value_stack := vs\<rparr>)"
    and step: "orderly_step h (t, h')"
    using orderly_worker_reconnect_node [of m1 R n c arity m'] h ok m1 re ord1(1) by (auto simp: stack_ok_def)
  have h': "net_ok h' (vs @ R)" "VNull \<notin> set vs" "same_except n h h'" "node_complete h' n c"
    using built m1 m' by auto
  have "tasks_ok F (add_found_task t (m\<lparr>net := h'\<rparr>))"
    using tasks_ok_found [OF tasks1, of "value_stack m @ R" t h'] h(2) step by simp
  then have found: "tasks_ok F m'"
    unfolding m' by (rule tasks_ok_found_fields) (simp_all add: m1)
  have "nodes_complete h'"
  proof (rule nodes_complete_same_except [OF _ h'(3)])
    fix k d
    assume k: "k \<noteq> n" "k < length (nodes h)" "node_ctor_of (nodes h ! k) = Some d"
    show "node_complete h k d"
    proof (cases "k < length (nodes (net m))")
      case True
      then have "nodes h ! k = nodes (net m) ! k"
        using h(3) k by (simp add: extends_def)
      then show ?thesis
        using ok k True h(3)
        by (auto simp: stack_ok_def nodes_complete_def node_complete_def node_has_def
            extends_def port_value_def)
    next
      case False
      then have "blank (nodes h ! k)"
        using h(3) k by (simp add: extends_def)
      then show ?thesis
        using k by (simp add: blank_def)
    qed
  next
    fix d
    assume "node_ctor_of (nodes h' ! n) = Some d"
    moreover have "node_ctor_of (nodes h' ! n) = Some c"
      using h'(4) by (simp add: node_complete_def node_has_def)
    ultimately show "node_complete h' n d"
      using h'(4) by simp
  qed
  moreover have "alloc_ok (free_elsewhere F) alloc st h'"
    using alloc_ok_same_except [OF h(1) h'(3) h(5)] .
  moreover have "node_ctors h' = node_ctors (net m)"
    using h'(3) h(3) by (simp add: same_except_def extends_def)
  ultimately show ?thesis
    using ok h' found by (simp add: m' m1 stack_ok_def apply_prims_ok_def app_step_def)
qed

section \<open>The apply primitives\<close>

text \<open>A new constructor does not concern the nodes there are.\<close>

definition add_ctor :: "node_ctor \<Rightarrow> heap \<Rightarrow> heap" where
  "add_ctor c h = h\<lparr>node_ctors := node_ctors h @ [c]\<rparr>"

lemma net_ok_add_ctor:
  assumes ok: "net_ok h R" and c: "ports_ok c"
  shows "net_ok (add_ctor c h) R"
proof -
  have "node_ok (node_ctors h @ [c]) n" if "node_ok (node_ctors h) n" for n
    using that by (auto simp: node_ok_def nth_append split: option.splits)
  then show ?thesis
    using ok c by (auto simp: net_ok_def linear_def refs_def pw_placed_def add_ctor_def)
qed

lemma orderly_add_ctor:
  assumes ord: "orderly h" and ok: "nodes_ok h" and c: "rule_array c = []"
  shows "orderly (add_ctor c h) \<and> keeps h (add_ctor c h)"
proof -
  have bound: "d < length (node_ctors h)" if "n < length (nodes h)" "node_ctor_of (nodes h ! n) = Some d" for n d
  proof -
    have "node_ok (node_ctors h) (nodes h ! n)"
      using ok that(1) by (simp add: nodes_ok_def)
    then show ?thesis
      using that(2) by (simp add: node_ok_def)
  qed
  have "args_exact (add_ctor c h)"
    using ord bound by (auto simp: orderly_def node_counted add_ctor_def nth_append)
  moreover have "ports_in_place (add_ctor c h)"
    using ord by (auto simp: orderly_def ports_in_place_def add_ctor_def port_value_def node_has_def nth_append)
  moreover have "rules_single (node_ctors (add_ctor c h))"
    using ord c by (auto simp: orderly_def rules_single_def add_ctor_def nth_append intro: less_SucI)
  ultimately show ?thesis
    by (auto simp: orderly_def keeps_def add_ctor_def)
qed

lemma nodes_complete_add_ctor:
  assumes "nodes_complete h"
  shows "nodes_complete (add_ctor c h)"
  using assms
  by (auto simp: nodes_complete_def node_complete_def node_has_def add_ctor_def port_value_def
      nth_append) (meson less_SucI)

lemma port_infos_from_names_ok:
  "port_infos_from_names n names = Inr ps \<Longrightarrow> length ps = n \<and> None \<notin> set ps"
  by (induction n names arbitrary: ps rule: port_infos_from_names.induct)
    (auto simp: bnd_eq_Inr split: option.splits)

lemma port_info_target: "port_info_from_name ''target!'' = Inr \<lparr>port_name = ''target'', is_principal = True\<rparr>"
  by (simp add: port_info_from_name_def port_info_new_def string_ends_with_def string_slice_def
      string_length_def)

lemma port_infos_target:
  "port_infos_from_names n (Some ''target!'' # rest) = Inr ps \<Longrightarrow> 0 < n \<Longrightarrow>
     \<exists>ps'. ps = Some \<lparr>port_name = ''target'', is_principal = True\<rparr> # ps'"
  by (cases n) (auto simp: bnd_eq_Inr string_copy_def port_info_target)

lemma primitive_set_node_ctor_Inr:
  assumes "primitive_set_node_ctor p names m = Inr m'" and "p < length (primitives m)"
  shows "\<exists>c. ports_ok c \<and> rule_array c = [] \<and> ctor_primitive c = Some p \<and>
    ctor_arity c = input_arity (primitives m ! p) + output_arity (primitives m ! p) \<and> (\<forall>rest. names = Some ''target!'' # rest \<longrightarrow>
        0 < input_arity (primitives m ! p) \<longrightarrow> target_port_ok c) \<and>
    m' = m\<lparr>net := add_ctor c (net m), primitives := (primitives m)
      [p := (primitives m ! p)\<lparr>primitive_node_ctor := Some (length (node_ctors (net m)))\<rparr>]\<rparr>"
proof -
  let ?self = "primitives m ! p"
  let ?n = "input_arity ?self + output_arity ?self"
  obtain ps where ps: "port_infos_from_names ?n names = Inr ps"
    using assms by (auto simp: primitive_set_node_ctor_def at_def bnd_eq_Inr)
  define c where "c = (node_ctor_new (primitive_name ?self) ?n)\<lparr>port_infos := ps, ctor_primitive := Some p\<rparr>"
  have m': "m' = m\<lparr>net := add_ctor c (net m), primitives := (primitives m)
      [p := ?self\<lparr>primitive_node_ctor := Some (length (node_ctors (net m)))\<rparr>]\<rparr>"
    using assms ps by (auto simp: primitive_set_node_ctor_def at_def bnd_eq_Inr asserting_eq_Inr
        Let_def c_def add_ctor_def)
  have "ports_ok c"
    using port_infos_from_names_ok [OF ps] by (simp add: ports_ok_def c_def node_ctor_new_def)
  moreover have "target_port_ok c" if nm: "names = Some ''target!'' # rest" and "0 < input_arity ?self" for rest
  proof -
    from that(2) have "0 < ?n" by simp
    then obtain ps' where "ps = Some \<lparr>port_name = ''target'', is_principal = True\<rparr> # ps'"
      using port_infos_target [OF ps [unfolded nm]] by auto
    then show ?thesis
      by (simp add: target_port_ok_def c_def slot_def)
  qed
  moreover have "rule_array c = []" "ctor_primitive c = Some p" "ctor_arity c = ?n"
    by (simp_all add: c_def node_ctor_new_def)
  ultimately show ?thesis
    using m' by blast
qed

lemma stack_ok_new_apply_primitive:
  assumes ok: "stack_ok F R m" and ports: "ports = Some ''target!'' # rest" and k: "0 < input_arity prim"
    and results: "results_ok (primitive_fn prim)" and run: "primitive_set_node_ctor (length (primitives m)) ports
      (m\<lparr>primitives := primitives m @ [prim], apply_primitives := apply_primitives m @ [length (primitives m)]\<rparr>)
      = Inr m'"
  shows "stack_ok F R m' \<and> value_stack m' = value_stack m \<and> return_stack m' = return_stack m \<and>
    function_objects m' = function_objects m \<and> wires (net m') = wires (net m)"
proof -
  let ?m = "m\<lparr>primitives := primitives m @ [prim],
    apply_primitives := apply_primitives m @ [length (primitives m)]\<rparr>"
  let ?prim = "prim\<lparr>primitive_node_ctor := Some (length (node_ctors (net m)))\<rparr>"
  obtain c where c: "ports_ok c" "target_port_ok c" "rule_array c = []"
      "ctor_primitive c = Some (length (primitives m))" "ctor_arity c = input_arity prim + output_arity prim"
    and m': "m' = ?m\<lparr>net := add_ctor c (net m), primitives := primitives m @ [?prim]\<rparr>"
    using primitive_set_node_ctor_Inr [OF run] ports k by (auto simp: nth_append)
  have "prims_ok (primitives m')"
    using ok results by (auto simp: stack_ok_def prims_ok_def m')
  moreover have "apply_prims_ok m'"
    using ok c by (auto simp: stack_ok_def apply_prims_ok_def m' nth_append add_ctor_def)
  moreover have "net_ok (net m') (value_stack m' @ R)" "nodes_complete (net m')"
    using ok net_ok_add_ctor [OF _ c(1)] nodes_complete_add_ctor
    by (auto simp: stack_ok_def m')
  moreover have "alloc_ok (free_elsewhere F) (node_alloc m') (free_node_stack m') (net m')"
    using ok by (simp add: stack_ok_def alloc_ok_def m' add_ctor_def)
  moreover have "tasks_ok F (m\<lparr>net := add_ctor c (net m)\<rparr>)"
    using ok orderly_add_ctor [of "net m" c] c(3) net_ok_nodes_ok tasks_ok_keep [of F m]
    by (auto simp: stack_ok_def tasks_ok_def)
  then have "tasks_ok F m'"
    by (rule tasks_ok_fields) (simp_all add: m')
  ultimately show ?thesis
    using ok by (simp add: stack_ok_def m' add_ctor_def)
qed

lemma stack_ok_initialize_apply_loop:
  "initialize_apply_loop k xs m = Inr m' \<Longrightarrow> stack_ok F R m \<Longrightarrow>
     \<forall>(name, ports) \<in> set xs. \<exists>rest. ports = Some ''target!'' # rest \<Longrightarrow>
     stack_ok F R m' \<and> value_stack m' = value_stack m \<and> return_stack m' = return_stack m \<and>
     function_objects m' = function_objects m \<and> wires (net m') = wires (net m)"
proof (induction xs arbitrary: k m)
  case (Cons x rest)
  obtain name ports where x: "x = (name, ports)" by fastforce
  let ?prim = "primitive_from_fn name (Suc k) 1 (X_apply k)"
  obtain m1 where m1: "primitive_set_node_ctor (length (primitives m)) ports
      (m\<lparr>primitives := primitives m @ [?prim], apply_primitives := apply_primitives m @ [length (primitives m)]\<rparr>)
      = Inr m1" "initialize_apply_loop (Suc k) rest m1 = Inr m'"
    using Cons.prems(1) x by (auto simp: new_primitive_def Let_def bnd_eq_Inr)
  obtain r where r: "ports = Some ''target!'' # r"
    using Cons.prems(3) x by auto
  have "stack_ok F R m1 \<and> value_stack m1 = value_stack m \<and> return_stack m1 = return_stack m \<and>
    function_objects m1 = function_objects m \<and> wires (net m1) = wires (net m)"
    by (rule stack_ok_new_apply_primitive [OF Cons.prems(2) r _ _ m1(1)])
      (simp_all add: primitive_from_fn_def results_ok_def)
  then show ?case
    using Cons.IH [OF m1(2)] Cons.prems(3) by simp
qed simp

lemma stack_ok_initialize_apply_primitives:
  assumes "initialize_apply_primitives m = Inr m'" and "stack_ok F R m"
  shows "stack_ok F R m' \<and> value_stack m' = value_stack m \<and> return_stack m' = return_stack m \<and>
     function_objects m' = function_objects m \<and> wires (net m') = wires (net m)"
proof -
  have "\<forall>(name, ports) \<in> set apply_names. \<exists>rest. ports = Some ''target!'' # rest"
    by (simp add: apply_names_def)
  with assms show ?thesis
    using stack_ok_initialize_apply_loop [of 1 apply_names m m' F R]
    by (auto simp: initialize_apply_primitives_def split: if_splits)
qed

section \<open>Freed wires stay freed\<close>

definition dead_wire :: "nat \<Rightarrow> heap \<Rightarrow> bool" where
  "dead_wire a h \<longleftrightarrow> a < length (wires h) \<and> cell (wires h) a = None"

definition keeps_dead :: "heap \<Rightarrow> heap \<Rightarrow> bool" where
  "keeps_dead h h' \<longleftrightarrow>
     node_ctors h' = node_ctors h \<and> map node_ctor_of (nodes h') = map node_ctor_of (nodes h) \<and>
     (\<forall>a. dead_wire a h \<longrightarrow> dead_wire a h')"

lemma keeps_dead_refl [simp]: "keeps_dead h h"
  by (simp add: keeps_dead_def)

lemma keeps_dead_trans: "keeps_dead h h' \<Longrightarrow> keeps_dead h' h'' \<Longrightarrow> keeps_dead h h''"
  by (simp add: keeps_dead_def)

lemma keeps_dead_same:
  "wires h' = wires h \<Longrightarrow> node_ctors h' = node_ctors h \<Longrightarrow>
     map node_ctor_of (nodes h') = map node_ctor_of (nodes h) \<Longrightarrow> keeps_dead h h'"
  by (simp add: keeps_dead_def dead_wire_def)

lemma map_node_ctor_update:
  "a < length ns \<Longrightarrow> node_ctor_of n = node_ctor_of (ns ! a) \<Longrightarrow>
     map node_ctor_of (ns[a := n]) = map node_ctor_of ns"
  by (rule nth_equalityI) (auto simp: nth_list_update)

lemma keeps_dead_set_node:
  "a < length (nodes h) \<Longrightarrow> node_ctor_of n = node_ctor_of (nodes h ! a) \<Longrightarrow> keeps_dead h (set_node a n h)"
  by (rule keeps_dead_same) (simp_all add: map_node_ctor_update)

lemma keeps_dead_node_set_value: "node_set_value n i v h = Inr h' \<Longrightarrow> keeps_dead h h'"
  by (auto simp: node_set_value_def deref_eq_Inr at_Some_iff intro: keeps_dead_set_node)

lemma keeps_dead_connect_active_pair:
  "connect_active_pair a b h = Inr (t, h') \<Longrightarrow> keeps_dead h h'"
  by (rule keeps_dead_same)
    (auto simp: connect_active_pair_def set_oppsite_def bnd_eq_Inr deref_eq_Inr split: if_splits)

lemma keeps_dead_collect:
  assumes "collect_primitive_arg a v h = Inr (t, h')"
  shows "keeps_dead h h'"
proof -
  obtain p :: principal_wire and h1 c where "node_set_value (pw_node p) (pw_index p) v (principal_wire_destroy a h) = Inr h1"
    and "node_primitive_arg_count_fetch_add1 (pw_node p) h1 = Inr (c, h')"
    using assms
    by (clarsimp simp: collect_primitive_arg_def bnd_eq_Inr deref_eq_Inr asserting_eq_Inr)
  moreover from this(2) have "keeps_dead h1 h'"
    by (auto simp: node_primitive_arg_count_fetch_add1_def deref_eq_Inr at_Some_iff
        intro: keeps_dead_set_node)
  moreover have "keeps_dead h (principal_wire_destroy a h)"
    by (rule keeps_dead_same) simp_all
  ultimately show ?thesis
    using keeps_dead_node_set_value keeps_dead_trans by blast
qed

lemma dead_wire_update: "cell (wires h) b = Some f \<Longrightarrow> dead_wire a h \<Longrightarrow>
    a < length ((wires h)[b := c]) \<and> cell ((wires h)[b := c]) a = None"
  by (auto simp: dead_wire_def cell_update)

lemma keeps_dead_connect_fuze:
  "connect x y h = Inr (t, h') \<Longrightarrow> keeps_dead h h'"
  "fuze a v h = Inr (t, h') \<Longrightarrow> keeps_dead h h'"
proof (induction x y h and a v h arbitrary: t h' and t h' rule: connect_fuze.induct)
  case (7 a v h)
  obtain f where f: "cell (wires h) a = Some f"
    and r: "(if f = VNull then Inr (None, set_fuzed_value a v h)
      else connect f v (wire_destroy a h)) = Inr (t, h')"
    using 7(2) by (auto simp: fuze.simps deref_eq_Inr)
  show ?case
  proof (cases "f = VNull")
    case True
    then show ?thesis
      using r f dead_wire_update [OF f] by (auto simp: keeps_dead_def dead_wire_def)
  next
    case False
    have "keeps_dead h (wire_destroy a h)"
      using dead_wire_update [OF f] by (auto simp: keeps_dead_def dead_wire_def)
    then show ?thesis
      using 7(1) [OF f False] r False keeps_dead_trans by simp
  qed
qed (auto intro: keeps_dead_connect_active_pair keeps_dead_collect)

lemma keeps_dead_new_wire: "wire_new h = (w, h') \<Longrightarrow> keeps_dead h h'"
  by (auto simp: wire_new_def keeps_dead_def dead_wire_def cell_append)

lemma keeps_dead_new_pw: "principal_wire_new n i h = (w, h') \<Longrightarrow> keeps_dead h h'"
  by (auto simp: principal_wire_new_def intro: keeps_dead_same)

lemma keeps_dead_reconnect_input:
  assumes "reconnect_input n i v h = Inr (t, h')"
  shows "keeps_dead h h'"
proof -
  obtain p hp where p: "principal_wire_new n i h = (p, hp)" by fastforce
  obtain w hw where w: "wire_new h = (w, hw)" by fastforce
  show ?thesis
    using assms keeps_dead_new_wire [OF w] keeps_dead_new_pw [OF p]
    by (auto simp: reconnect_input_def p w bnd_eq_Inr split: if_splits
        dest!: keeps_dead_connect_fuze keeps_dead_node_set_value intro: keeps_dead_trans)
qed

text \<open>A node whose port \<open>0\<close> is principal cannot take a freed wire there.\<close>

lemma node_get_port_info_keeps:
  assumes "keeps_dead h h'"
  shows "node_get_port_info h' n i = node_get_port_info h n i"
proof -
  have m: "map node_ctor_of (nodes h') = map node_ctor_of (nodes h)" and c: "node_ctors h' = node_ctors h"
    using assms by (simp_all add: keeps_dead_def)
  have l: "length (nodes h') = length (nodes h)"
    using m by (rule map_eq_imp_length_eq)
  have "node_ctor_of (nodes h' ! n) = node_ctor_of (nodes h ! n)" if "n < length (nodes h)"
    using m l that by (metis nth_map)
  then show ?thesis
    using l c by (auto simp: node_get_port_info_def at_def ctor_of_node_def)
qed

lemma reconnect_input_dead:
  assumes "dead_wire a h" and "node_get_port_info h n i = Inr info" and "is_principal info"
  shows "reconnect_input n i (VWire a) h \<noteq> Inr r"
proof
  assume run: "reconnect_input n i (VWire a) h = Inr r"
  obtain p hp where p: "principal_wire_new n i h = (p, hp)" by fastforce
  obtain h1 where h1: "node_set_value n i (VPrincipal p) hp = Inr h1"
    and c: "connect (VPrincipal p) (VWire a) h1 = Inr r"
    using run assms by (auto simp: reconnect_input_def p bnd_eq_Inr)
  have "dead_wire a h1"
    using assms(1) keeps_dead_new_pw [OF p] keeps_dead_node_set_value [OF h1]
    by (simp add: keeps_dead_def)
  then show False
    using c by (simp add: fuze.simps dead_wire_def)
qed

lemma reconnect_inputs_dead:
  assumes "dead_wire a h" and "node_get_port_info h n 0 = Inr info" and "is_principal info"
    and "k < length vs" and "vs ! k = VWire a"
  shows "reconnect_inputs n (Suc k) found vs h \<noteq> Inr r"
  using assms
proof (induction k arbitrary: found vs h)
  case 0
  then show ?case
    using reconnect_input_dead [of a h n 0 info] by (cases vs) (auto simp: bnd_eq_Inr)
next
  case (Suc k)
  show ?case
  proof
    assume run: "reconnect_inputs n (Suc (Suc k)) found vs h = Inr r"
    obtain v ws where vs: "vs = v # ws"
      using Suc.prems(4) by (cases vs) auto
    obtain t h' found' where t: "reconnect_input n (Suc k) v h = Inr (t, h')"
      and rest: "reconnect_inputs n (Suc k) found' ws h' = Inr r"
      using run by (auto simp: vs bnd_eq_Inr asserting_eq_Inr simp del: reconnect_inputs.simps(3)
          simp: reconnect_inputs.simps(3) [of n "Suc k"] split: if_splits)
    note kd = keeps_dead_reconnect_input [OF t]
    have "dead_wire a h'" "node_get_port_info h' n 0 = Inr info"
      using kd Suc.prems(1,2) node_get_port_info_keeps [OF kd] by (simp_all add: keeps_dead_def)
    then show False
      using Suc.IH [of h' ws found'] Suc.prems(3-5) rest vs by simp
  qed
qed

end
