(* ===== verification/Apply_Init.thy ===== *)
theory Apply_Init
  imports Machine_Invariant
begin

text \<open>
  Two workers that make the \<open>apply\<close> primitives at once (\<open>src/src/core/worker_apply_wire.c\<close>). The
  function \<open>initialize_apply_primitives\<close> works on two static variables that all the threads share, an
  array and a flag, with plain reads and writes and no lock. Here each of its statements is a step
  of its own, and the steps of the workers interleave. The model of one worker,
  \<open>initialize_apply_primitives\<close>, is what a worker comes to that is not interrupted.
\<close>

section \<open>The statements\<close>

record apply_globals =
  apply_slots :: "nat option list"
  is_initialized :: bool

definition apply_globals_start :: apply_globals where
  "apply_globals_start = \<lparr>apply_slots = [None, None, None, None], is_initialized = False\<rparr>"

datatype init_pc =
    Check_flag
  | Store_primitive nat
  | Set_node_ctor nat
  | Set_flag
  | Init_done

text \<open>The second statement of each pair reads the slot again before it follows the pointer.\<close>

fun init_turn :: "init_pc \<Rightarrow> apply_globals \<Rightarrow> machine \<Rightarrow> (init_pc \<times> apply_globals \<times> machine) res" where
  "init_turn Check_flag g m = Inr (if is_initialized g then Init_done else Store_primitive 0, g, m)"
| "init_turn (Store_primitive k) g m =
     deref (at apply_names k) (\<lambda>(name, ports).
       let (p, m) = new_primitive (primitive_from_fn name (Suc (Suc k)) 1 (X_apply (Suc k))) m
       in Inr (Set_node_ctor k, g\<lparr>apply_slots := (apply_slots g)[k := Some p]\<rparr>, m))"
| "init_turn (Set_node_ctor k) g m =
     deref (at apply_names k) (\<lambda>(name, ports).
     deref (slot None (apply_slots g) k) (\<lambda>p.
     bnd (primitive_set_node_ctor p ports m) (\<lambda>m.
       Inr (if Suc k < length apply_names then Store_primitive (Suc k) else Set_flag, g, m))))"
| "init_turn Set_flag g m = Inr (Init_done, g\<lparr>is_initialized := True\<rparr>, m)"
| "init_turn Init_done g m = Inr (Init_done, g, m)"

type_synonym init_state = "apply_globals \<times> machine \<times> init_pc list"

inductive init_step :: "init_state \<Rightarrow> init_state \<Rightarrow> bool" where
  turn: "i < length pcs \<Longrightarrow> pcs ! i \<noteq> Init_done \<Longrightarrow> init_turn (pcs ! i) g m = Inr (pc, g', m') \<Longrightarrow>
    init_step (g, m, pcs) (g', m', pcs[i := pc])"

inductive_cases init_stepE: "init_step (g, m, pcs) s"

fun run_init :: "nat list \<Rightarrow> init_state \<Rightarrow> init_state option" where
  "run_init [] s = Some s"
| "run_init (i # is) (g, m, pcs) =
     (if i < length pcs \<and> pcs ! i \<noteq> Init_done
      then (case init_turn (pcs ! i) g m of
              Inl e \<Rightarrow> None
            | Inr (pc, g', m') \<Rightarrow> run_init is (g', m', pcs[i := pc]))
      else None)"

lemma run_init_steps: "run_init is s = Some s' \<Longrightarrow> init_step\<^sup>*\<^sup>* s s'"
proof (induction "is" s rule: run_init.induct)
  case (2 i "is" g m pcs)
  then obtain pc g' m' where t: "i < length pcs" "pcs ! i \<noteq> Init_done"
      "init_turn (pcs ! i) g m = Inr (pc, g', m')"
    and rest: "run_init is (g', m', pcs[i := pc]) = Some s'"
    by (auto split: if_splits sum.splits)
  from 2(1) [OF _ t(3) refl refl rest] t have "init_step\<^sup>*\<^sup>* (g', m', pcs[i := pc]) s'"
    by simp
  then show ?case
    by (rule converse_rtranclp_into_rtranclp [rotated]) (rule init_step.turn [OF t])
qed simp

section \<open>One worker\<close>

fun init_turns :: "nat \<Rightarrow> init_pc \<times> apply_globals \<times> machine \<Rightarrow> (init_pc \<times> apply_globals \<times> machine) res" where
  "init_turns 0 s = Inr s"
| "init_turns (Suc k) (pc, g, m) = bnd (init_turn pc g m) (init_turns k)"

lemma init_turns_add: "init_turns (j + k) s = bnd (init_turns j s) (init_turns k)"
  by (induction j s rule: init_turns.induct) (auto simp: bnd_assoc intro!: bnd_cong)

text \<open>The ports that the four names give.\<close>

definition apply_infos :: "nat \<Rightarrow> port_info option list" where
  "apply_infos k = Some \<lparr>port_name = ''target'', is_principal = True\<rparr> #
     map (\<lambda>s. map_option (\<lambda>s. \<lparr>port_name = s, is_principal = False\<rparr>) s) (tl (snd (apply_names ! k)))"

lemma apply_infos_from_names:
  assumes "at apply_names k = Some (name, ports)"
  shows "port_infos_from_names (Suc (Suc (Suc k))) ports = Inr (apply_infos k)"
    "port_infos c = apply_infos k \<Longrightarrow> node_ctor_principal_port_count c = Inr 1"
proof -
  have "k \<in> {0, 1, 2, 3}"
    using assms by (auto simp: at_Some_iff apply_names_def)
  moreover have "ports = snd (apply_names ! k)"
    using assms by (auto simp: at_Some_iff)
  moreover have "port_infos_from_names (Suc (Suc (Suc i))) (snd (apply_names ! i)) = Inr (apply_infos i)"
    if "i \<in> {0, 1, 2, 3}" for i
    using that by (elim insertE) (simp_all only:, code_simp+)
  ultimately show "port_infos_from_names (Suc (Suc (Suc k))) ports = Inr (apply_infos k)"
    by blast
  show "node_ctor_principal_port_count c = Inr 1" if "port_infos c = apply_infos k"
    using \<open>k \<in> {0, 1, 2, 3}\<close> that
    by (auto simp: node_ctor_principal_port_count_def apply_infos_def apply_names_def eval_nat_numeral)
qed

text \<open>A primitive that the second of the four names, say, is set in: it applies a target to \<open>k + 1\<close> arguments.\<close>

definition applies :: "nat \<Rightarrow> primitive \<Rightarrow> bool" where
  "applies k p \<longleftrightarrow> input_arity p = Suc (Suc k) \<and> output_arity p = 1 \<and> primitive_fn p = Primitive_fn (X_apply (Suc k))"

definition with_ctor :: "nat \<Rightarrow> node_ctor \<Rightarrow> machine \<Rightarrow> machine" where
  "with_ctor p c m = m\<lparr>net := add_ctor c (net m), primitives := (primitives m)
     [p := (primitives m ! p)\<lparr>primitive_node_ctor := Some (length (node_ctors (net m)))\<rparr>]\<rparr>"

lemma applies_from_fn [simp]: "applies k (primitive_from_fn name (Suc (Suc k)) (Suc 0) (X_apply (Suc k)))"
  by (simp add: applies_def primitive_from_fn_def)

lemma length_apply_names: "length apply_names = 4"
  by (simp add: apply_names_def)

lemma apply_primitives_with_ctor [simp]: "apply_primitives (with_ctor p c m) = apply_primitives m"
  by (simp add: with_ctor_def)

lemma set_apply_ctor:
  assumes names: "at apply_names k = Some (name, ports)" and p: "p < length (primitives m)"
    and ap: "applies k (primitives m ! p)"
  shows "\<exists>c. \<forall>ps. primitive_set_node_ctor p ports (m\<lparr>apply_primitives := ps\<rparr>) =
    Inr ((with_ctor p c m)\<lparr>apply_primitives := ps\<rparr>)"
proof -
  have n: "input_arity (primitives m ! p) = Suc (Suc k)" "output_arity (primitives m ! p) = 1"
    using ap by (simp_all add: applies_def)
  define c where "c = (node_ctor_new (primitive_name (primitives m ! p)) (Suc (Suc (Suc k))))
    \<lparr>port_infos := apply_infos k, ctor_primitive := Some p\<rparr>"
  have "node_ctor_principal_port_count c = Inr 1"
    by (rule apply_infos_from_names(2) [OF names]) (simp add: c_def)
  then have "primitive_set_node_ctor p ports (m\<lparr>apply_primitives := ps\<rparr>) =
      Inr ((with_ctor p c m)\<lparr>apply_primitives := ps\<rparr>)" for ps
    using p n apply_infos_from_names(1) [OF names]
    by (simp add: primitive_set_node_ctor_def at_def Let_def c_def with_ctor_def add_ctor_def
        asserting_def)
  then show ?thesis by blast
qed

text \<open>A round is the two statements for one primitive.\<close>

lemma init_round:
  assumes names: "at apply_names k = Some (name, ports)" and k: "k < length (apply_slots g)"
  shows "\<exists>m'. init_turns 2 (Store_primitive k, g, m) =
      Inr (if Suc k < 4 then Store_primitive (Suc k) else Set_flag,
           g\<lparr>apply_slots := (apply_slots g)[k := Some (length (primitives m))]\<rparr>, m') \<and>
    (\<forall>ps rest. initialize_apply_loop (Suc k) ((name, ports) # rest) (m\<lparr>apply_primitives := ps\<rparr>) =
       initialize_apply_loop (Suc (Suc k)) rest
         (m'\<lparr>apply_primitives := ps @ [length (primitives m)]\<rparr>)) \<and>
    apply_primitives m' = apply_primitives m"
proof -
  let ?prim = "primitive_from_fn name (Suc (Suc k)) 1 (X_apply (Suc k))"
  let ?m = "m\<lparr>primitives := primitives m @ [?prim]\<rparr>"
  let ?p = "length (primitives m)"
  obtain c where c: "\<And>ps. primitive_set_node_ctor ?p ports (?m\<lparr>apply_primitives := ps\<rparr>) =
      Inr ((with_ctor ?p c ?m)\<lparr>apply_primitives := ps\<rparr>)"
    using set_apply_ctor [OF names, of ?p ?m] by auto
  moreover have "?m\<lparr>apply_primitives := apply_primitives m\<rparr> = ?m"
      "(with_ctor ?p c ?m)\<lparr>apply_primitives := apply_primitives m\<rparr> = with_ctor ?p c ?m"
    by (simp_all add: with_ctor_def)
  ultimately have plain: "primitive_set_node_ctor ?p ports ?m = Inr (with_ctor ?p c ?m)"
    by metis
  show ?thesis
    using c plain k names
    by (intro exI [of _ "with_ctor ?p c ?m"])
      (simp add: new_primitive_def Let_def slot_def numeral_2_eq_2 length_apply_names)
qed

text \<open>
  A worker that is not interrupted leaves the four primitives that \<open>initialize_apply_primitives\<close>
  makes, which never fails.
\<close>

lemma init_alone:
  assumes "apply_primitives m = []"
  shows "\<exists>ps m'. init_turns 10 (Check_flag, apply_globals_start, m) =
      Inr (Init_done, \<lparr>apply_slots = map Some ps, is_initialized = True\<rparr>, m') \<and>
    initialize_apply_primitives m = Inr (m'\<lparr>apply_primitives := ps\<rparr>)"
proof -
  define g where "g ps = \<lparr>apply_slots = map Some ps @ replicate (4 - length ps) None, is_initialized = False\<rparr>"
    for ps :: "nat list"
  have round: "\<exists>p m'. init_turns 2 (Store_primitive k, g ps, m) =
      Inr (if Suc k < 4 then Store_primitive (Suc k) else Set_flag, g (ps @ [p]), m') \<and>
    initialize_apply_loop (Suc k) (drop k apply_names) (m\<lparr>apply_primitives := ps\<rparr>) =
      initialize_apply_loop (Suc (Suc k)) (drop (Suc k) apply_names) (m'\<lparr>apply_primitives := ps @ [p]\<rparr>)"
    if "length ps = k" "k < 4" for k ps m
  proof -
    obtain name ports where n: "apply_names ! k = (name, ports)" by fastforce
    then have "at apply_names k = Some (name, ports)" "drop k apply_names = (name, ports) # drop (Suc k) apply_names"
      using that by (simp_all add: at_def length_apply_names Cons_nth_drop_Suc [symmetric])
    with init_round [of k name ports "g ps" m] show ?thesis
      using that by (auto simp: g_def list_update_append Suc_diff_Suc [symmetric])
  qed
  have m: "m\<lparr>apply_primitives := []\<rparr> = m"
    using assms by (cases m) simp
  obtain p0 m0 where 0: "init_turns 2 (Store_primitive 0, g [], m) = Inr (Store_primitive 1, g [p0], m0)"
      "initialize_apply_primitives m =
         initialize_apply_loop 2 (drop 1 apply_names) (m0\<lparr>apply_primitives := [p0]\<rparr>)"
    using round [of "[]" 0 m] assms m by (auto simp: initialize_apply_primitives_def numeral_2_eq_2)
  obtain p1 m1 where 1: "init_turns 2 (Store_primitive 1, g [p0], m0) = Inr (Store_primitive 2, g [p0, p1], m1)"
      "initialize_apply_primitives m =
         initialize_apply_loop 3 (drop 2 apply_names) (m1\<lparr>apply_primitives := [p0, p1]\<rparr>)"
    using round [of "[p0]" 1 m0] 0(2) by (auto simp: eval_nat_numeral)
  obtain p2 m2 where 2: "init_turns 2 (Store_primitive 2, g [p0, p1], m1) = Inr (Store_primitive 3, g [p0, p1, p2], m2)"
      "initialize_apply_primitives m =
         initialize_apply_loop 4 (drop 3 apply_names) (m2\<lparr>apply_primitives := [p0, p1, p2]\<rparr>)"
    using round [of "[p0, p1]" 2 m1] 1(2) by (auto simp: eval_nat_numeral)
  obtain p3 m3 where 3: "init_turns 2 (Store_primitive 3, g [p0, p1, p2], m2) = Inr (Set_flag, g [p0, p1, p2, p3], m3)"
      "initialize_apply_primitives m = Inr (m3\<lparr>apply_primitives := [p0, p1, p2, p3]\<rparr>)"
    using round [of "[p0, p1, p2]" 3 m2] 2(2) by (auto simp: eval_nat_numeral length_apply_names)
  have "init_turns (1 + (2 + (2 + (2 + (2 + 1))))) (Check_flag, apply_globals_start, m) =
      Inr (Init_done, (g [p0, p1, p2, p3])\<lparr>is_initialized := True\<rparr>, m3)"
    unfolding init_turns_add
    using 0 1 2 3 by (simp add: g_def apply_globals_start_def eval_nat_numeral)
  moreover have "(g [p0, p1, p2, p3])\<lparr>is_initialized := True\<rparr> =
      \<lparr>apply_slots = map Some [p0, p1, p2, p3], is_initialized = True\<rparr>"
    by (simp add: g_def)
  ultimately show ?thesis
    using 3(2) by (intro exI [of _ "[p0, p1, p2, p3]"] exI [of _ m3]) simp
qed

lemma init_turns_steps:
  "init_turns k (pcs ! i, g, m) = Inr (pc, g', m') \<Longrightarrow> i < length pcs \<Longrightarrow>
     init_step\<^sup>*\<^sup>* (g, m, pcs) (g', m', pcs[i := pc])"
proof (induction k arbitrary: g m pcs)
  case (Suc k)
  obtain pc1 g1 m1 where t: "init_turn (pcs ! i) g m = Inr (pc1, g1, m1)"
    and rest: "init_turns k (pc1, g1, m1) = Inr (pc, g', m')"
    using Suc.prems(1) by (auto simp: bnd_eq_Inr)
  have "init_step\<^sup>*\<^sup>* (g, m, pcs) (g1, m1, pcs[i := pc1])"
  proof (cases "pcs ! i = Init_done")
    case True
    then show ?thesis using t by (metis init_turn.simps(5) list_update_id old.prod.inject rtranclp.simps sum.inject(2))
  next
    case False
    then show ?thesis using init_step.turn [OF Suc.prems(2) False t] by blast
  qed
  moreover have "init_step\<^sup>*\<^sup>* (g1, m1, pcs[i := pc1]) (g', m', pcs[i := pc])"
    using Suc.IH [of "pcs[i := pc1]"] rest Suc.prems(2) by simp
  ultimately show ?case by simp
next
  case 0
  then have "pcs[i := pc] = pcs" by auto
  with 0 show ?case by simp
qed

section \<open>Any number of workers\<close>

text \<open>How many of the slots a worker has seen filled.\<close>

fun slots_seen :: "init_pc \<Rightarrow> nat" where
  "slots_seen Check_flag = 0"
| "slots_seen (Store_primitive k) = k"
| "slots_seen (Set_node_ctor k) = Suc k"
| "slots_seen Set_flag = 4"
| "slots_seen Init_done = 4"

fun in_names :: "init_pc \<Rightarrow> bool" where
  "in_names (Store_primitive k) = (k < 4)"
| "in_names (Set_node_ctor k) = (k < 4)"
| "in_names pc = True"

definition slot_applies :: "apply_globals \<Rightarrow> machine \<Rightarrow> nat \<Rightarrow> bool" where
  "slot_applies g m k \<longleftrightarrow>
     (case slot None (apply_slots g) k of
        None \<Rightarrow> False | Some p \<Rightarrow> p < length (primitives m) \<and> applies k (primitives m ! p))"

definition init_inv :: "init_state \<Rightarrow> bool" where
  "init_inv s = (case s of (g, m, pcs) \<Rightarrow>
     length (apply_slots g) = 4 \<and>
     (\<forall>k. slot None (apply_slots g) k \<noteq> None \<longrightarrow> slot_applies g m k) \<and>
     (\<forall>pc \<in> set pcs. in_names pc \<and> (\<forall>k < slots_seen pc. slot_applies g m k)) \<and>
     (is_initialized g \<longrightarrow> (\<forall>k < 4. slot_applies g m k)))"

text \<open>A slot that is filled stays filled, with a primitive that does the same.\<close>

lemma slot_applies_store:
  assumes "k < length (apply_slots g)" and "slot_applies g m j \<or> j = k"
    and "apply_slots g' = (apply_slots g)[k := Some (length (primitives m))]"
    and "primitives m' = primitives m @ [primitive_from_fn name (Suc (Suc k)) (Suc 0) (X_apply (Suc k))]"
  shows "slot_applies g' m' j"
  using assms by (auto simp: slot_applies_def slot_def nth_append nth_list_update split: option.splits if_splits)

lemma applies_set_ctor: "applies j (ps[p := (ps ! p)\<lparr>primitive_node_ctor := c\<rparr>] ! q) \<longleftrightarrow> applies j (ps ! q)"
  by (cases "p < length ps"; cases "q = p") (auto simp: applies_def list_update_beyond)

lemma slot_applies_with_ctor [simp]: "slot_applies g (with_ctor p c m) j \<longleftrightarrow> slot_applies g m j"
  by (auto simp: slot_applies_def with_ctor_def applies_set_ctor split: option.splits)

lemma init_inv_update:
  assumes inv: "init_inv (g, m, pcs)" and i: "i < length pcs"
    and len: "length (apply_slots g') = 4"
    and slots: "\<And>k. slot None (apply_slots g') k \<noteq> None \<Longrightarrow> slot_applies g' m' k"
    and keep: "\<And>k. slot_applies g m k \<Longrightarrow> slot_applies g' m' k"
    and pc: "in_names pc" "\<And>k. k < slots_seen pc \<Longrightarrow> slot_applies g' m' k"
    and flag: "is_initialized g' \<Longrightarrow> is_initialized g \<or> (\<forall>k < 4. slot_applies g' m' k)"
  shows "init_inv (g', m', pcs[i := pc])"
proof -
  have "in_names q \<and> (\<forall>k < slots_seen q. slot_applies g' m' k)" if "q \<in> set (pcs[i := pc])" for q
    using set_update_subset_insert [of pcs i pc] that inv keep pc unfolding init_inv_def by blast
  moreover have "\<forall>k < 4. slot_applies g' m' k" if "is_initialized g'"
    using flag [OF that] inv keep unfolding init_inv_def by blast
  ultimately show ?thesis
    using len slots by (simp add: init_inv_def)
qed

text \<open>No turn fails, and every turn keeps the invariant.\<close>

lemma init_turn_ok:
  assumes inv: "init_inv (g, m, pcs)" and i: "i < length pcs"
  shows "\<exists>pc g' m'. init_turn (pcs ! i) g m = Inr (pc, g', m') \<and> init_inv (g', m', pcs[i := pc])"
proof -
  have slots: "length (apply_slots g) = 4" "\<And>k. slot None (apply_slots g) k \<noteq> None \<Longrightarrow> slot_applies g m k"
    and pc: "in_names (pcs ! i)" "\<And>k. k < slots_seen (pcs ! i) \<Longrightarrow> slot_applies g m k"
    and flag: "\<And>k. is_initialized g \<Longrightarrow> k < 4 \<Longrightarrow> slot_applies g m k"
    using inv nth_mem [OF i] unfolding init_inv_def by auto
  note update = init_inv_update [OF inv i]
  show ?thesis
  proof (cases "pcs ! i")
    case Check_flag
    then show ?thesis
      using update [of g m Init_done] update [of g m "Store_primitive 0"] slots flag by simp
  next
    case (Store_primitive k)
    then have k: "k < length apply_names"
      using pc(1) by (simp add: length_apply_names)
    obtain name ports where n: "apply_names ! k = (name, ports)" by fastforce
    let ?g = "g\<lparr>apply_slots := (apply_slots g)[k := Some (length (primitives m))]\<rparr>"
    let ?m = "m\<lparr>primitives := primitives m @ [primitive_from_fn name (Suc (Suc k)) (Suc 0) (X_apply (Suc k))]\<rparr>"
    have keep: "slot_applies ?g ?m j" if "slot_applies g m j \<or> j = k" for j
      using slot_applies_store [of k g m j ?g ?m name] that k slots(1) by (simp add: length_apply_names)
    have "init_inv (?g, ?m, pcs[i := Set_node_ctor k])"
    proof (rule update)
      show "slot_applies ?g ?m j" if "slot None (apply_slots ?g) j \<noteq> None" for j
        using that slots keep by (cases "j = k") (auto simp: slot_def split: if_splits)
      show "slot_applies ?g ?m j" if "j < slots_seen (Set_node_ctor k)" for j
        using that pc(2) [of j] keep [of j] Store_primitive by (auto simp: less_Suc_eq)
    qed (use slots keep k in \<open>auto simp: length_apply_names\<close>)
    then show ?thesis
      using Store_primitive k n by (simp add: at_def new_primitive_def)
  next
    case (Set_node_ctor k)
    then have k: "k < length apply_names" and ap: "slot_applies g m k"
      using pc by (simp_all add: length_apply_names)
    obtain name ports where n: "at apply_names k = Some (name, ports)"
      using k by (cases "apply_names ! k") (simp add: at_def)
    obtain p where p: "slot None (apply_slots g) k = Some p" "p < length (primitives m)"
        "applies k (primitives m ! p)"
      using ap by (auto simp: slot_applies_def split: option.splits)
    obtain c where c: "primitive_set_node_ctor p ports m = Inr (with_ctor p c m)"
    proof -
      obtain c where "\<forall>ps. primitive_set_node_ctor p ports (m\<lparr>apply_primitives := ps\<rparr>) =
          Inr ((with_ctor p c m)\<lparr>apply_primitives := ps\<rparr>)"
        using set_apply_ctor [OF n p(2,3)] by blast
      from spec [OF this, of "apply_primitives m"] show ?thesis
        using that by (simp add: with_ctor_def)
    qed
    let ?pc = "if Suc k < length apply_names then Store_primitive (Suc k) else Set_flag"
    have "init_inv (g, with_ctor p c m, pcs[i := ?pc])"
      using slots pc(2) Set_node_ctor k flag
      by (intro update) (auto simp: length_apply_names split: if_splits)
    then show ?thesis
      using Set_node_ctor n p c by simp
  next
    case Set_flag
    have "init_inv (g\<lparr>is_initialized := True\<rparr>, m, pcs[i := Init_done])"
      using slots pc(2) Set_flag by (intro update) (auto simp: slot_applies_def)
    then show ?thesis
      using Set_flag by simp
  next
    case Init_done
    then show ?thesis
      using inv i by (metis init_turn.simps(5) list_update_id)
  qed
qed

lemma init_reachable_inv:
  assumes "init_step\<^sup>*\<^sup>* s s'" and "init_inv s"
  shows "init_inv s'"
  using assms
proof (induction rule: rtranclp_induct)
  case (step s1 s2)
  from step(2) show ?case
  proof (cases rule: init_step.cases)
    case (turn i pcs g m pc g' m')
    then show ?thesis
      using init_turn_ok [of g m pcs i] step by simp
  qed
qed simp

lemma init_inv_start: "init_inv (apply_globals_start, m, replicate n Check_flag)"
  by (auto simp: init_inv_def apply_globals_start_def slot_def nth_Cons' split: if_splits)

text \<open>
  A worker that saw the flag before another one set it goes on, and takes the first primitive
  away again: the other one is done by then, and the primitive it finds has no constructor yet.
\<close>

lemma init_race:
  assumes "apply_primitives m = []"
  shows "\<exists>g m' p. init_step\<^sup>*\<^sup>* (apply_globals_start, m, [Check_flag, Check_flag]) (g, m', [Init_done, Set_node_ctor 0]) \<and>
    is_initialized g \<and> slot None (apply_slots g) 0 = Some p \<and> p < length (primitives m') \<and>
    applies 0 (primitives m' ! p) \<and> primitive_node_ctor (primitives m' ! p) = None"
proof -
  let ?pc = "Store_primitive 0"
  obtain ps m1 where alone: "init_turns 10 (Check_flag, apply_globals_start, m) =
      Inr (Init_done, \<lparr>apply_slots = map Some ps, is_initialized = True\<rparr>, m1)"
    using init_alone [OF assms] by blast
  let ?g1 = "\<lparr>apply_slots = map Some ps, is_initialized = True\<rparr>"
  obtain name ports where n: "at apply_names 0 = Some (name, ports)"
    by (simp add: at_def apply_names_def)
  let ?prim = "primitive_from_fn name (Suc (Suc 0)) (Suc 0) (X_apply (Suc 0))"
  let ?g2 = "?g1\<lparr>apply_slots := (map Some ps)[0 := Some (length (primitives m1))]\<rparr>"
  let ?m2 = "m1\<lparr>primitives := primitives m1 @ [?prim]\<rparr>"
  have 1: "init_step (apply_globals_start, m, [Check_flag, Check_flag]) (apply_globals_start, m, [Check_flag, ?pc])"
    using init_step.turn [of 1 "[Check_flag, Check_flag]" apply_globals_start m]
    by (simp add: apply_globals_start_def)
  have 2: "init_step\<^sup>*\<^sup>* (apply_globals_start, m, [Check_flag, ?pc]) (?g1, m1, [Init_done, ?pc])"
    using init_turns_steps [of 10 "[Check_flag, ?pc]" 0] alone by simp
  have 3: "init_step (?g1, m1, [Init_done, ?pc]) (?g2, ?m2, [Init_done, Set_node_ctor 0])"
    using init_step.turn [of 1 "[Init_done, ?pc]" ?g1 m1] n by (simp add: new_primitive_def)
  have run: "init_step\<^sup>*\<^sup>* (apply_globals_start, m, [Check_flag, Check_flag]) (?g2, ?m2, [Init_done, Set_node_ctor 0])"
    by (rule rtranclp.rtrancl_into_rtrancl [OF converse_rtranclp_into_rtranclp [OF 1 2] 3])
  have "slot_applies ?g2 ?m2 0"
    using init_reachable_inv [OF run] init_inv_start [of m 2]
    by (simp add: init_inv_def numeral_2_eq_2)
  moreover have "0 < length ps"
    using init_reachable_inv [OF run] init_inv_start [of m 2] by (simp add: init_inv_def numeral_2_eq_2)
  ultimately show ?thesis
    using run by (intro exI [of _ ?g2] exI [of _ ?m2] exI [of _ "length (primitives m1)"])
      (simp add: slot_applies_def slot_def primitive_from_fn_def)
qed

text \<open>
  Such a primitive is not made a node of: applying it takes the wire from under its arguments and
  applies the wire again, so that the worker is where it was.
\<close>

lemma apply_without_ctor:
  assumes "at (primitives m) p = Some self" and "applies k self" and "primitive_node_ctor self = None"
    and tuck: "worker_tuck_n (VWire a) (Suc k) m = Inr m1"
  shows "worker_apply (VPrimitive p) (Suc (Suc k)) m1 = worker_apply (VWire a) (Suc k) m"
proof -
  have m1: "m1 = m\<lparr>value_stack := take (Suc k) (value_stack m) @ VWire a # drop (Suc k) (value_stack m)\<rparr>"
    and len: "Suc k \<le> length (value_stack m)"
    using tuck by (auto simp: worker_tuck_n_def asserting_eq_Inr)
  have "x_apply_target (Suc k) m1 = Inr (VWire a, m)"
    using m1 len by (simp add: x_apply_target_def asserting_def nth_append)
  then show ?thesis
    using assms(1-3) m1 by (simp add: applies_def worker_apply_primitive.simps)
qed

end
