(* ===== verification/Machine_Steps.thy ===== *)
theory Machine_Steps
  imports Machine_Invariant
begin

text \<open>
  The invariant under application, steps, runs and tasks: whatever the interpreter does and
  returns from, the net stays linear over the roots of the machine.
\<close>

section \<open>Applying an open wire\<close>

lemma defuze_dead:
  assumes d: "defuze h (VWire a) = Inr (u, h')" and u: "u \<noteq> VWire a"
  shows "dead_wire a h'"
proof -
  have len: "defuze h v = Inr (u, h') \<Longrightarrow> length (wires h') = length (wires h)" for h v
  proof (induction h v rule: defuze.induct)
    case (1 h v)
    then show ?case
      by (cases v) (auto simp: defuze_simps is_wire_def deref_eq_Inr split: if_splits)
  qed
  obtain f where f: "cell (wires h) a = Some f" "f \<noteq> VNull" "defuze (wire_destroy a h) f = Inr (u, h')"
    using d u by (auto simp: defuze_simps deref_eq_Inr split: if_splits)
  have "cell (wires (wire_destroy a h)) a = None"
    using cell_Some_length [OF f(1)] by (simp add: cell_update)
  then have "cell (wires h') a = None"
    using defuze_walk [OF f(3)] by (cases "cell (wires h') a") auto
  then show ?thesis
    using len [OF d] cell_Some_length [OF f(1)] by (simp add: dead_wire_def)
qed

lemma stack_ok_defuze:
  assumes ok: "stack_ok F (VWire a # R) m"
  shows "\<exists>d h. defuze (net m) (VWire a) = Inr (d, h) \<and> is_end h d \<and> d \<noteq> VNull \<and>
    stack_ok F (d # R) (m\<lparr>net := h\<rparr>)"
proof -
  have "net_ok (net m) (VWire a # value_stack m @ R)"
    using ok net_ok_same_roots [OF _ same_roots_move, of "net m"] by (simp add: stack_ok_def)
  from net_ok_defuze [OF this] obtain d h where
    d: "defuze (net m) (VWire a) = Inr (d, h)" "net_ok h (d # value_stack m @ R)" "is_end h d"
      "d \<noteq> VNull" "same_shape (net m) h"
    by auto
  have "tasks_ok F (m\<lparr>net := h\<rparr>)"
    using tasks_ok_same_wires [OF _ _ defuze_same_but_wires [OF d(1)]] ok by (auto simp: stack_ok_def)
  moreover have "net_ok h (value_stack m @ d # R)"
    using d(2) net_ok_same_roots [OF _ same_roots_move_back] by simp
  ultimately have "stack_ok F (d # R) (m\<lparr>net := h, value_stack := value_stack m\<rparr>)"
    using ok by (intro stack_ok_same_shape [OF ok d(5)]) (simp_all add: stack_ok_def)
  with d show ?thesis by simp
qed

text \<open>
  When the wire that is applied was fuzed with another open wire, it is freed before it is
  tucked under the arguments, and connecting it to the apply node reads freed memory.
\<close>

lemma apply_freed_wire:
  assumes ok: "stack_ok F R m" and dead: "dead_wire a (net m)"
    and tuck: "worker_tuck_n (VWire a) arity m = Inr m1"
    and c: "c < length (node_ctors (net m))" "target_port_ok (node_ctors (net m) ! c)"
  shows "apply_node c (arity + 1) m1 \<noteq> Some (Inr m')"
proof
  assume run: "apply_node c (arity + 1) m1 = Some (Inr m')"
  have le: "arity \<le> length (value_stack m)"
    and m1: "m1 = m\<lparr>value_stack := take arity (value_stack m) @ VWire a # drop arity (value_stack m)\<rparr>"
    using tuck by (auto simp: worker_tuck_n_def asserting_eq_Inr)
  have al: "alloc_ok (free_elsewhere F) (node_alloc m1) (free_node_stack m1) (net m1)"
    and net: "net_ok (net m1) (value_stack m @ R)"
    using ok m1 by (simp_all add: stack_ok_def)
  have c1: "c < length (node_ctors (net m1))"
    using c(1) m1 by simp
  obtain n h alloc st where
    new: "worker_new_node c m1 = Some (Inr (n, m1\<lparr>net := h, node_alloc := alloc, free_node_stack := st\<rparr>))"
    and h: "extends n (net m1) h" "node_has h n c" "net_ok h (value_stack m @ R)"
    using worker_new_node_ok [OF al net c1] by blast
  have re: "worker_reconnect_node n (arity + 1) (m1\<lparr>net := h, node_alloc := alloc, free_node_stack := st\<rparr>)
      = Inr m'"
    using run new by (simp add: apply_node_def)
  have "dead_wire a h" and ctors: "node_ctors h = node_ctors (net m)"
    using dead h(1) m1 by (simp_all add: dead_wire_def extends_def)
  moreover obtain info where "node_get_port_info h n 0 = Inr info" "is_principal info"
  proof -
    obtain info where info: "slot None (port_infos (node_ctors h ! c)) 0 = Some info" "is_principal info"
      using c(2) ctors by (auto simp: target_port_ok_def)
    moreover have "0 < ctor_arity (node_ctors h ! c)"
      using net_ok_nodes_ok [OF h(3)] h(2) info(1)
      by (auto simp: nodes_ok_def node_has_def ports_ok_def slot_def split: if_splits)
    ultimately show ?thesis
      using that h(2) by (simp add: node_get_port_info_def node_has_def at_def ctor_of_node_def)
  qed
  moreover have "value_stack m1 ! arity = VWire a" "arity < length (value_stack m1)"
    using le m1 by (simp_all add: nth_append)
  ultimately have "reconnect_inputs n (Suc arity) None (value_stack m1) h \<noteq> Inr r" for r
    using reconnect_inputs_dead by blast
  then show False
    using re by (auto simp: worker_reconnect_node_def bnd_eq_Inr)
qed

lemma stack_ok_tuck:
  assumes "stack_ok F (v # R) m" and "v \<noteq> VNull" and "worker_tuck_n v n m = Inr m'"
  shows "stack_ok F R m' \<and> app_step m m'"
proof -
  have m': "m' = m\<lparr>value_stack := take n (value_stack m) @ v # drop n (value_stack m)\<rparr>"
    using assms(3) by (simp add: worker_tuck_n_def asserting_eq_Inr)
  have c: "count_list (value_stack m) u
      = count_list (take n (value_stack m)) u + count_list (drop n (value_stack m)) u" for u
    using count_list_append [of "take n (value_stack m)" "drop n (value_stack m)" u] by simp
  have "same_roots (value_stack m @ v # R) ((take n (value_stack m) @ v # drop n (value_stack m)) @ R)"
    unfolding same_roots_def by (simp add: c)
  then have "net_ok (net m) ((take n (value_stack m) @ v # drop n (value_stack m)) @ R)"
    using assms(1) net_ok_same_roots unfolding stack_ok_def by blast
  moreover have "VNull \<notin> set (take n (value_stack m) @ v # drop n (value_stack m))"
    using assms(1,2) by (auto simp: stack_ok_def dest: in_set_takeD in_set_dropD)
  ultimately show ?thesis
    using assms(1) by (simp add: stack_ok_def m' apply_prims_ok_def app_step_def)
qed

text \<open>What \<open>worker_apply_wire\<close> does with a wire that stays open.\<close>

definition apply_open_wire :: "nat \<Rightarrow> nat \<Rightarrow> machine \<Rightarrow> machine loop" where
  "apply_open_wire a arity m =
     (if \<not> (0 < arity \<and> arity \<le> 4) then Some (Inl Exit_failure)
      else
         lbnd (Some (initialize_apply_primitives m)) (\<lambda>m.
         lbnd (Some (deref (at (apply_primitives m) (arity - 1)) (\<lambda>p.
                 deref (at (primitives m) p) (\<lambda>self. deref (primitive_node_ctor self) Inr)))) (\<lambda>c.
         lbnd (Some (worker_tuck_n (VWire a) arity m)) (\<lambda>m. apply_node c (arity + 1) m))))"

lemma worker_apply_wire_simps:
  "worker_apply_wire a arity m =
     lbnd (Some (defuze (net m) (VWire a))) (\<lambda>(d, h).
       if \<not> is_wire d then worker_apply d arity (m\<lparr>net := h\<rparr>)
       else apply_open_wire a arity (m\<lparr>net := h\<rparr>))"
  unfolding apply_open_wire_def worker_apply_wire.simps by (rule refl)

lemma apply_open_wire_run:
  assumes ok: "stack_ok F R m" and run: "apply_open_wire a arity m = Some (Inr m')"
  shows "\<exists>m0 m1 c. initialize_apply_primitives m = Inr m0 \<and> stack_ok F R m0 \<and>
    worker_tuck_n (VWire a) arity m0 = Inr m1 \<and> apply_node c (arity + 1) m1 = Some (Inr m') \<and>
    c < length (node_ctors (net m0)) \<and> target_port_ok (node_ctors (net m0) ! c)"
proof -
  obtain m0 p c m1 where m0: "initialize_apply_primitives m = Inr m0"
    and p: "at (apply_primitives m0) (arity - 1) = Some p" "p < length (primitives m0)"
      "primitive_node_ctor (primitives m0 ! p) = Some c"
    and m1: "worker_tuck_n (VWire a) arity m0 = Inr m1"
    and n: "apply_node c (arity + 1) m1 = Some (Inr m')"
    using run by (auto simp: apply_open_wire_def lbnd_eq_Some_Inr deref_eq_Inr at_Some_iff
        split: if_splits)
  have ok0: "stack_ok F R m0"
    using stack_ok_initialize_apply_primitives [OF m0 ok] by simp
  moreover have "p \<in> set (apply_primitives m0)"
    using p(1) by (auto simp: at_Some_iff)
  ultimately have "c < length (node_ctors (net m0)) \<and> target_port_ok (node_ctors (net m0) ! c)"
    using p by (auto simp: stack_ok_def apply_prims_ok_def)
  with m0 ok0 m1 n show ?thesis by blast
qed

lemma stack_ok_apply_open_wire:
  assumes ok: "stack_ok F (VWire a # R) m" and run: "apply_open_wire a arity m = Some (Inr m')"
  shows "stack_ok F R m' \<and> app_step m m'"
proof -
  obtain m0 m1 c where m0: "initialize_apply_primitives m = Inr m0" "stack_ok F (VWire a # R) m0"
    and m1: "worker_tuck_n (VWire a) arity m0 = Inr m1" and n: "apply_node c (arity + 1) m1 = Some (Inr m')"
    using apply_open_wire_run [OF ok run] by blast
  have 1: "stack_ok F R m1 \<and> app_step m0 m1"
    using stack_ok_tuck [OF m0(2) _ m1] by simp
  then have "stack_ok F R m' \<and> app_step m1 m'"
    using stack_ok_apply_node [OF _ n] by blast
  moreover have "return_stack m0 = return_stack m" "function_objects m0 = function_objects m"
    using stack_ok_initialize_apply_primitives [OF m0(1) ok] by simp_all
  moreover have "return_stack m1 = return_stack m0" "function_objects m1 = function_objects m0"
    using m1 by (auto simp: worker_tuck_n_def asserting_eq_Inr)
  ultimately show ?thesis
    by (simp add: app_step_def)
qed

lemma apply_freed_wire_fails:
  assumes ok: "stack_ok F (VWire a # R) m" and d: "defuze (net m) (VWire a) = Inr (d, h)"
    and w: "is_wire d" "d \<noteq> VWire a"
  shows "worker_apply_wire a arity m \<noteq> Some (Inr m')"
proof
  assume "worker_apply_wire a arity m = Some (Inr m')"
  then have run: "apply_open_wire a arity (m\<lparr>net := h\<rparr>) = Some (Inr m')"
    using d w by (simp add: worker_apply_wire_simps)
  have ok': "stack_ok F (d # R) (m\<lparr>net := h\<rparr>)"
    using stack_ok_defuze [OF ok] d by auto
  obtain m0 m1 c where m0: "initialize_apply_primitives (m\<lparr>net := h\<rparr>) = Inr m0" "stack_ok F (d # R) m0"
    and m1: "worker_tuck_n (VWire a) arity m0 = Inr m1" and n: "apply_node c (arity + 1) m1 = Some (Inr m')"
    and c: "c < length (node_ctors (net m0))" "target_port_ok (node_ctors (net m0) ! c)"
    using apply_open_wire_run [OF ok' run] by blast
  have "dead_wire a (net m0)"
    using defuze_dead [OF d w(2)] stack_ok_initialize_apply_primitives [OF m0(1) ok']
    by (simp add: dead_wire_def)
  then show False
    using apply_freed_wire [OF m0(2) _ m1 c] n by blast
qed

section \<open>Applying any value\<close>

lemma stack_ok_apply_function:
  assumes "stack_ok F R m" and "apply_function f arity m = Inr m'"
  shows "stack_ok F R m' \<and> app_step m m'"
proof -
  have "m' = m\<lparr>return_stack := frame_new f # return_stack m\<rparr>"
    using assms(2) by (auto simp: apply_function_def deref_eq_Inr split: if_splits)
  with assms(1) show ?thesis
    by (auto simp: app_step_def intro: stack_ok_same_net)
qed

lemma stack_ok_apply_primitive:
  assumes ok: "stack_ok F R m" and p: "at (primitives m) p = Some self" "primitive_node_ctor self = None"
    and run: "worker_apply_primitive p m = Some (Inr m')"
  shows "stack_ok F R m' \<and> app_step m m'"
proof -
  have "self \<in> set (primitives m)"
    using p(1) by (auto simp: at_Some_iff)
  then have "plain_primitive self"
    using ok p(2) by (simp add: stack_ok_def prims_ok_def)
  then consider "primitive_fn self = Primitive_fn X_connect" | "primitive_fn self = Primitive_fn X_link"
    by (auto simp: plain_primitive_def split: primitive_fn.splits worker_fn.splits)
  then show ?thesis
  proof cases
    case 1
    then have "worker_apply_primitive p m = Some (x_connect m)"
      by (simp add: worker_apply_primitive.simps [of p m] p)
    then show ?thesis
      using run stack_ok_x_connect [OF ok] by simp
  next
    case 2
    then have "worker_apply_primitive p m = Some (Inr (x_link m))"
      by (simp add: worker_apply_primitive.simps [of p m] p)
    then show ?thesis
      using run stack_ok_x_link [OF ok] by simp
  qed
qed

lemma stack_ok_apply_non_wire:
  assumes ok: "stack_ok F (v # R) m" and v: "\<not> is_wire v" and run: "worker_apply v arity m = Some (Inr m')"
  shows "stack_ok F R m' \<and> app_step m m'"
proof -
  have drop: "is_non_wire v \<Longrightarrow> stack_ok F R m"
    using ok by (rule stack_ok_drop)
  show ?thesis
  proof (cases v)
    case (VCtor c)
    then show ?thesis
      using run drop stack_ok_apply_node [of F R m c]
      by (simp add: is_non_wire_def is_wire_def is_principal_wire_def)
  next
    case (VFunction f)
    then show ?thesis
      using run drop stack_ok_apply_function [of F R m f]
      by (simp add: is_non_wire_def is_wire_def is_principal_wire_def)
  next
    case (VPrimitive p)
    then have ok': "stack_ok F R m"
      using drop by (simp add: is_non_wire_def is_wire_def is_principal_wire_def)
    obtain self where self: "at (primitives m) p = Some self"
      using run VPrimitive by (cases "at (primitives m) p") simp_all
    show ?thesis
    proof (cases "primitive_node_ctor self")
      case None
      then have "worker_apply_primitive p m = Some (Inr m')"
        using run VPrimitive self by (simp split: if_splits)
      then show ?thesis
        by (rule stack_ok_apply_primitive [OF ok' self None])
    next
      case (Some c)
      then have "apply_node c arity m = Some (Inr m')"
        using run VPrimitive self by simp
      then show ?thesis
        by (rule stack_ok_apply_node [OF ok'])
    qed
  qed (use run v in \<open>simp_all add: is_wire_def\<close>)
qed

lemma stack_ok_apply:
  assumes ok: "stack_ok F (v # R) m" and run: "worker_apply v arity m = Some (Inr m')"
  shows "stack_ok F R m' \<and> app_step m m'"
proof (cases v)
  case (VWire a)
  obtain d h where d: "defuze (net m) (VWire a) = Inr (d, h)" and ok': "stack_ok F (d # R) (m\<lparr>net := h\<rparr>)"
    using stack_ok_defuze ok VWire by blast
  have run': "worker_apply_wire a arity m = Some (Inr m')"
    using run VWire by simp
  show ?thesis
  proof (cases "is_wire d")
    case False
    then have "stack_ok F R m' \<and> app_step (m\<lparr>net := h\<rparr>) m'"
      using stack_ok_apply_non_wire [OF ok'] run' d by (simp add: worker_apply_wire_simps)
    then show ?thesis
      by (simp add: app_step_def)
  next
    case True
    then have "d = VWire a"
      using apply_freed_wire_fails [OF _ d True] ok VWire run' by blast
    then have "stack_ok F R m' \<and> app_step (m\<lparr>net := h\<rparr>) m'"
      using stack_ok_apply_open_wire [of F a R "m\<lparr>net := h\<rparr>"] ok' run' d True
      by (simp add: worker_apply_wire_simps)
    then show ?thesis
      by (simp add: app_step_def)
  qed
qed (use stack_ok_apply_non_wire [OF ok _ run] in \<open>simp_all add: is_wire_def\<close>)

section \<open>Steps of a frame\<close>

lemma same_roots_get_variable:
  assumes "frame_get_variable frame i = Inr (v, frame')"
  shows "same_roots (variable_array frame @ X) (v # variable_array frame' @ X) \<and> v \<noteq> VNull"
proof -
  have v: "v = slot VNull (variable_array frame) i" "v \<noteq> VNull"
    and f: "variable_array frame' = slot_set VNull (variable_array frame) i VNull"
    using assms by (auto simp: frame_get_variable_def Let_def split: if_splits)
  have "count_list (variable_array frame) u
      = (if v = u then 1 else 0) + count_list (variable_array frame') u" if "u \<noteq> VNull" for u
    using count_list_slot_set [OF that, of "variable_array frame" i VNull] that v(1) f by auto
  then show ?thesis
    using v(2) by (simp add: same_roots_def)
qed

lemma same_roots_set_variable:
  assumes "frame_set_variable frame i v = Inr frame'"
  shows "same_roots (v # variable_array frame @ X) (variable_array frame' @ X)"
proof -
  have e: "slot VNull (variable_array frame) i = VNull"
    and f: "variable_array frame' = slot_set VNull (variable_array frame) i v"
    using assms by (auto simp: frame_set_variable_def Let_def split: if_splits)
  have c: "(if v = u then 1 else 0) + count_list (variable_array frame) u
      = count_list (variable_array frame') u" if "u \<noteq> VNull" for u
    using count_list_slot_set [OF that, of "variable_array frame" i v] that e f by auto
  show ?thesis
    unfolding same_roots_def
  proof (intro allI impI)
    fix u :: val
    assume "u \<noteq> VNull"
    from c [OF this] show "count_list (v # variable_array frame @ X) u
        = count_list (variable_array frame' @ X) u"
      by (simp split: if_splits)
  qed
qed

lemma stack_ok_return_stack [simp]: "stack_ok F R (m\<lparr>return_stack := rs\<rparr>) \<longleftrightarrow> stack_ok F R m"
  by (simp add: stack_ok_def apply_prims_ok_def)

lemma stack_ok_push_frame [simp]: "stack_ok F R (push_frame finished frame m) \<longleftrightarrow> stack_ok F R m"
  by (simp add: push_frame_def)

lemma push_frame_fields [simp]:
  "function_objects (push_frame finished frame m) = function_objects m"
  "return_stack (push_frame finished frame m)
     = (if finished then return_stack m else frame # return_stack m)"
  by (simp_all add: push_frame_def)

text \<open>The ends in the variables of a frame that is not pushed again are dropped.\<close>

lemma machine_ok_push_frame:
  assumes "stack_ok F (variable_array frame @ frame_vars (return_stack m) @ L) m"
    and "code_ok (function_objects m)"
  shows "machine_ok F ((if finished then variable_array frame else []) @ L) (push_frame finished frame m)"
  using assms stack_ok_same_roots [OF assms(1), of "frame_vars (return_stack m) @ variable_array frame @ L"]
  by (simp add: machine_ok_def same_roots_def)

lemma machine_ok_app_step:
  assumes "machine_ok F L m" and "app_step m m'"
    and "stack_ok F (frame_vars (return_stack m) @ L) m'"
  shows "machine_ok F L m'"
  using assms by (auto simp: machine_ok_def app_step_def frame_new_def)

lemma machine_ok_push_non_wire:
  assumes "machine_ok F L m" and "v \<noteq> VNull" and "is_non_wire v"
  shows "machine_ok F L (worker_push v m)"
  using assms stack_ok_push_non_wire [of F "frame_vars (return_stack m) @ L" m v]
  by (simp add: machine_ok_def) (simp add: worker_push_def)

lemma machine_ok_execute_opcode:
  assumes ok: "stack_ok F (variable_array frame @ frame_vars (return_stack m) @ L) m"
    and code: "code_ok (function_objects m)" and lit: "literal_ok op"
    and run: "worker_execute_opcode op frame finished m = Some (Inr m')"
  shows "\<exists>L'. machine_ok F (L' @ L) m'"
proof (cases op)
  case (Op_apply arity)
  let ?m = "push_frame finished frame m"
  let ?L = "(if finished then variable_array frame else []) @ L"
  obtain v m1 where v: "worker_pop ?m = Inr (v, m1)" and a: "worker_apply v arity m1 = Some (Inr m')"
    using run Op_apply by (auto simp: worker_execute_opcode_def lbnd_eq_Some_Inr)
  have mok: "machine_ok F ?L ?m"
    by (rule machine_ok_push_frame [OF ok code])
  obtain vs where m1: "m1 = ?m\<lparr>value_stack := vs\<rparr>"
    and ok1: "stack_ok F (v # frame_vars (return_stack ?m) @ ?L) m1"
    using stack_ok_pop [of F "frame_vars (return_stack ?m) @ ?L" ?m v m1] mok v
    unfolding machine_ok_def by blast
  have "stack_ok F (frame_vars (return_stack ?m) @ ?L) m' \<and> app_step m1 m'"
    by (rule stack_ok_apply [OF ok1 a])
  then have "machine_ok F ?L m'"
    using machine_ok_app_step [OF mok] m1 by (simp add: app_step_def)
  then show ?thesis by blast
next
  case (Op_literal v)
  have m': "m' = worker_push v (push_frame finished frame m)" and v: "v \<noteq> VNull" "is_non_wire v"
    using run lit Op_literal by (simp_all add: worker_execute_opcode_def literal_ok_def)
  have "machine_ok F ((if finished then variable_array frame else []) @ L) (push_frame finished frame m)"
    by (rule machine_ok_push_frame [OF ok code])
  then have "machine_ok F ((if finished then variable_array frame else []) @ L) m'"
    unfolding m' by (rule machine_ok_push_non_wire [OF _ v])
  then show ?thesis by blast
next
  case (Op_get_variable i)
  obtain v frame' where g: "frame_get_variable frame i = Inr (v, frame')"
    and m': "m' = worker_push v (push_frame finished frame' m)"
    using run Op_get_variable by (auto simp: worker_execute_opcode_def bnd_eq_Inr)
  note r = same_roots_get_variable [OF g]
  have "stack_ok F (variable_array frame' @ frame_vars (return_stack m) @ L) (worker_push v m)"
    using stack_ok_push [OF stack_ok_same_roots [OF ok]] r by blast
  then have "machine_ok F ((if finished then variable_array frame' else []) @ L)
      (push_frame finished frame' (worker_push v m))"
    using code by (intro machine_ok_push_frame) (simp_all add: worker_push_def)
  moreover have "push_frame finished frame' (worker_push v m) = m'"
    by (simp add: m' push_frame_def worker_push_def)
  ultimately show ?thesis by auto
next
  case (Op_set_variable i)
  obtain v m1 frame' where v: "worker_pop m = Inr (v, m1)"
    and f: "frame_set_variable frame i v = Inr frame'" and m': "m' = push_frame finished frame' m1"
    using run Op_set_variable by (auto simp: worker_execute_opcode_def bnd_eq_Inr)
  obtain vs where m1: "m1 = m\<lparr>value_stack := vs\<rparr>"
    and ok1: "stack_ok F (v # variable_array frame @ frame_vars (return_stack m) @ L) m1"
    using stack_ok_pop [OF ok v] by blast
  have "stack_ok F (variable_array frame' @ frame_vars (return_stack m1) @ L) m1"
    using stack_ok_same_roots [OF ok1 same_roots_set_variable [OF f]] m1 by simp
  then have "machine_ok F ((if finished then variable_array frame' else []) @ L) m'"
    unfolding m' using code m1 by (intro machine_ok_push_frame) simp_all
  then show ?thesis by blast
qed

lemma machine_ok_run_one_step:
  assumes ok: "machine_ok F L m" and run: "worker_run_one_step m = Some (Inr m')"
  shows "\<exists>L'. machine_ok F (L' @ L) m'"
proof (cases "return_stack m")
  case Nil
  then have "machine_ok F ([] @ L) m'"
    using ok run by (simp add: worker_run_one_step_def)
  then show ?thesis by blast
next
  case (Cons frame frames)
  let ?m = "m\<lparr>return_stack := frames\<rparr>"
  obtain done' where d: "frame_is_finished (function_objects m) frame = Inr done'"
    using run Cons by (auto simp: worker_run_one_step_def lbnd_eq_Some_Inr)
  have ok': "stack_ok F (variable_array frame @ frame_vars frames @ L) m" "code_ok (function_objects m)"
    using ok Cons by (simp_all add: machine_ok_def)
  show ?thesis
  proof (cases done')
    case True
    then have "m' = push_frame True frame ?m"
      using run Cons d by (simp add: worker_run_one_step_def push_frame_def)
    then have "machine_ok F (variable_array frame @ L) m'"
      using machine_ok_push_frame [of F frame ?m L True] ok' by simp
    then show ?thesis by blast
  next
    case False
    obtain op frame' fin where f: "frame_fetch_opcode (function_objects m) frame = Inr (op, frame')"
      and e: "worker_execute_opcode op frame' fin ?m = Some (Inr m')"
      using run Cons d False by (auto simp: worker_run_one_step_def lbnd_eq_Some_Inr)
    have "variable_array frame' = variable_array frame" "literal_ok op"
      using f ok'(2) by (auto simp: frame_fetch_opcode_def deref_eq_Inr function_get_opcode_def
          at_Some_iff code_ok_def)
    then show ?thesis
      using machine_ok_execute_opcode [OF _ _ _ e, of F L] ok' by simp
  qed
qed

text \<open>A call that is the last operation of its frame takes the place of the frame.\<close>

lemma tail_call_step:
  assumes rs: "return_stack m = frame # frames" and vs: "value_stack m = VFunction g # args"
    and f: "cell (function_objects m) (frame_function frame) = Some fn"
    and last: "Suc (frame_cursor frame) = length (opcode_array fn)"
    and op: "opcode_array fn ! frame_cursor frame = Op_apply arity"
    and g: "cell (function_objects m) g = Some gn" "function_arity gn = arity"
  shows "worker_run_one_step m = Some (Inr (m\<lparr>value_stack := args, return_stack := frame_new g # frames\<rparr>))"
  using last op
  by (simp add: worker_run_one_step_def rs f frame_is_finished_def function_length_def
      frame_fetch_opcode_def function_get_opcode_def at_def worker_execute_opcode_def push_frame_def
      worker_pop_def vs apply_function_def g)

section \<open>Runs\<close>

lemma worker_run_until_simps [code]:
  "worker_run_until base m =
     (if length (return_stack m) > base then lbnd (worker_run_one_step m) (worker_run_until base)
      else Some (Inr m))"
  by (subst worker_run_until.simps) (rule refl)

lemma machine_ok_run_until:
  assumes "machine_ok F L m" and "worker_run_until base m = Some (Inr m')"
  shows "\<exists>L'. machine_ok F (L' @ L) m' \<and> length (return_stack m') \<le> base"
proof -
  define P where "P b k r \<longleftrightarrow> (\<forall>L. machine_ok F L k \<longrightarrow> r = Inr m' \<longrightarrow>
    (\<exists>L'. machine_ok F (L' @ L) m' \<and> length (return_stack m') \<le> b))" for b :: nat and k and r :: "machine res"
  have "P base m (Inr m')"
  proof (rule worker_run_until.raw_induct [of P base m "Inr m'", OF _ assms(2)])
    fix w b k r
    assume IH: "\<And>b k r. w b k = Some r \<Longrightarrow> P b k r"
      and run: "(if b < length (return_stack k) then lbnd (worker_run_one_step k) (\<lambda>m. w b m)
        else Some (Inr k)) = Some r"
    show "P b k r"
      unfolding P_def
    proof (intro allI impI)
      fix L
      assume ok: "machine_ok F L k" and r: "r = Inr m'"
      show "\<exists>L'. machine_ok F (L' @ L) m' \<and> length (return_stack m') \<le> b"
      proof (cases "b < length (return_stack k)")
        case True
        then obtain k1 where k1: "worker_run_one_step k = Some (Inr k1)" "w b k1 = Some (Inr m')"
          using run r by (auto simp: lbnd_eq_Some_Inr)
        obtain L1 where "machine_ok F (L1 @ L) k1"
          using machine_ok_run_one_step [OF ok k1(1)] by blast
        then obtain L2 where "machine_ok F (L2 @ L1 @ L) m'" "length (return_stack m') \<le> b"
          using IH [OF k1(2)] unfolding P_def by blast
        then show ?thesis
          by (intro exI [of _ "L2 @ L1"]) simp
      next
        case False
        then have "k = m'"
          using run r by simp
        then show ?thesis
          using ok False by (intro exI [of _ "[]"]) simp
      qed
    qed
  qed
  with assms(1) show ?thesis by (simp add: P_def)
qed

lemma machine_ok_call_function:
  assumes ok: "machine_ok F L m" and run: "call_function f m = Some (Inr m')"
  shows "\<exists>L'. machine_ok F (L' @ L) m' \<and> length (return_stack m') \<le> length (return_stack m)"
proof -
  have "machine_ok F L (m\<lparr>return_stack := frame_new f # return_stack m\<rparr>)"
    using ok by (simp add: machine_ok_def frame_new_def)
  from machine_ok_run_until [OF this] run show ?thesis
    by (simp add: call_function_def)
qed

section \<open>Active pairs\<close>

text \<open>A task that a worker has taken out of a queue, and has in its hands.\<close>

definition hold :: "task \<Rightarrow> outside \<Rightarrow> outside" where
  "hold t F = F\<lparr>tasks_elsewhere := t # tasks_elsewhere F\<rparr>"

lemma hold_fields [simp]:
  "free_elsewhere (hold t F) = free_elsewhere F" "tasks_elsewhere (hold t F) = t # tasks_elsewhere F"
  by (simp_all add: hold_def)

lemma tasks_ok_hold:
  "tasks_ok (hold t F) m \<longleftrightarrow> tasks_ok F m \<and> task_ready (net m) t \<and> distinct (task_parts t) \<and>
     (\<forall>u \<in> set (tasks_elsewhere F @ task_queue m). set (task_parts t) \<inter> set (task_parts u) = {})"
  by (auto simp: tasks_ok_def tasks_ready_def)

lemma stack_ok_hold:
  "stack_ok (hold t F) R m \<longleftrightarrow> stack_ok F R m \<and> task_ready (net m) t \<and> distinct (task_parts t) \<and>
     (\<forall>u \<in> set (tasks_elsewhere F @ task_queue m). set (task_parts t) \<inter> set (task_parts u) = {})"
  by (auto simp: stack_ok_def tasks_ok_hold)

definition disconnect_pair :: "nat \<Rightarrow> nat \<Rightarrow> machine \<Rightarrow> machine res" where
  "disconnect_pair left right m =
     bnd (deref (cell (principal_wires (net m)) left) (\<lambda>p. worker_disconnect_node (pw_node p) m))
       (\<lambda>m. deref (cell (principal_wires (net m)) right) (\<lambda>p. worker_disconnect_node (pw_node p) m))"

lemma handle_active_pair_disconnect:
  "worker_handle_task_active_pair left right rule m =
     lbnd (Some (disconnect_pair left right m)) (call_function (rule_function rule))"
  unfolding worker_handle_task_active_pair_def disconnect_pair_def
  by (cases "deref (cell (principal_wires (net m)) left) (\<lambda>p. worker_disconnect_node (pw_node p) m)")
    simp_all

lemma machine_ok_stack_ok:
  "stack_ok F (frame_vars (return_stack m) @ L) m \<Longrightarrow> code_ok (function_objects m) \<Longrightarrow> machine_ok F L m"
  by (simp add: machine_ok_def)

lemma single_ports_paired:
  assumes "orderly h" and "net_ok h R" and l: "cell (principal_wires h) l = Some p" "pw_oppsite p \<noteq> None"
    and single: "single_node h (pw_node p)"
  shows "ports_paired h (pw_node p) 0"
  using only_principal [OF assms(1,2) l(1) single] l unfolding ports_paired_def by blast

lemma stack_ok_disconnect:
  assumes ok: "stack_ok F R m" and cell: "cell (principal_wires (net m)) a = Some p" "pw_oppsite p \<noteq> None"
    and single: "single_node (net m) (pw_node p)"
    and free: "\<forall>u \<in> set (tasks_elsewhere F @ task_queue m). Inl a \<notin> set (task_parts u)"
  shows "\<exists>h vs alloc st. worker_disconnect_node (pw_node p) m
      = Inr (m\<lparr>net := h, value_stack := vs, node_alloc := alloc, free_node_stack := st\<rparr>) \<and>
    stack_ok F R (m\<lparr>net := h, value_stack := vs, node_alloc := alloc, free_node_stack := st\<rparr>) \<and>
    length (nodes h) = length (nodes (net m)) \<and>
    (\<forall>k < length (nodes h). k \<noteq> pw_node p \<longrightarrow> nodes h ! k = nodes (net m) ! k) \<and>
    taken_apart (pw_node p) (net m) h"
proof -
  have net: "net_ok (net m) (value_stack m @ R)"
    using ok by (simp add: stack_ok_def)
  have ord: "orderly (net m)"
    using ok by (simp add: stack_ok_def tasks_ok_def)
  have p: "pw_placed (net m) a p"
    using net cell by (simp add: net_ok_def)
  have paired: "ports_paired (net m) (pw_node p) 0"
    by (rule single_ports_paired [OF ord net cell single])
  obtain c where "node_ctor_of (nodes (net m) ! pw_node p) = Some c"
    using pw_node_ctor [OF net p] by auto
  then have n: "node_complete (net m) (pw_node p) c"
    using ok p by (simp add: stack_ok_def nodes_complete_def pw_placed_def)
  obtain h vs alloc st where run: "worker_disconnect_node (pw_node p) m
      = Inr (m\<lparr>net := h, value_stack := vs, node_alloc := alloc, free_node_stack := st\<rparr>)"
    and h: "net_ok h (vs @ R)" "VNull \<notin> set vs" "alloc_ok (free_elsewhere F) alloc st h"
      "node_ctors h = node_ctors (net m)" "length (nodes h) = length (nodes (net m))"
      "node_ctor_of (nodes h ! pw_node p) = None"
      "\<forall>k < length (nodes h). k \<noteq> pw_node p \<longrightarrow> nodes h ! k = nodes (net m) ! k"
      "\<forall>x. (\<forall>j. port_value (net m) (pw_node p) j \<noteq> VPrincipal x) \<longrightarrow>
        cell (principal_wires h) x = cell (principal_wires (net m)) x"
    using net_ok_worker_disconnect_node [OF n net _ paired] ok unfolding stack_ok_def by blast
  have "nodes_complete h"
    unfolding nodes_complete_def
  proof (intro allI impI)
    fix k d
    assume k: "k < length (nodes h) \<and> node_ctor_of (nodes h ! k) = Some d"
    then have "nodes h ! k = nodes (net m) ! k"
      using h(6,7) by (cases "k = pw_node p") auto
    moreover from this have "node_complete (net m) k d"
      using ok k h(5) by (simp add: stack_ok_def nodes_complete_def)
    ultimately show "node_complete h k d"
      using h(4,5) by (simp add: node_complete_def node_has_def port_value_def)
  qed
  moreover have apart: "taken_apart (pw_node p) (net m) h"
    using disconnect_takes_apart [OF run] by simp
  moreover have "orderly h"
    using orderly_taken_apart [OF ord apart] p by (simp add: pw_placed_def)
  moreover have "tasks_ready h (tasks_elsewhere F @ task_queue m)"
    using ok free task_ready_taken_apart [OF ord net cell(1) single apart]
    by (auto simp: stack_ok_def tasks_ok_def tasks_ready_def)
  ultimately have "stack_ok F R (m\<lparr>net := h, value_stack := vs, node_alloc := alloc, free_node_stack := st\<rparr>)"
    using ok h by (simp add: stack_ok_def apply_prims_ok_def tasks_ok_def)
  with run h apart show ?thesis by blast
qed

text \<open>The other wire of a pair is still there when one of the nodes has been taken apart.\<close>

lemma other_wire_stays:
  assumes ord: "orderly h" and ok: "net_ok h R" and l: "cell (principal_wires h) l = Some p" "single_node h (pw_node p)"
    and apart: "taken_apart (pw_node p) h h'"
    and r: "cell (principal_wires h) r = Some q" "single_node h (pw_node q)" and neq: "pw_node p \<noteq> pw_node q"
  shows "cell (principal_wires h') r = Some q \<and> single_node h' (pw_node q)"
proof -
  have "r \<noteq> l"
    using l r neq by auto
  then have "\<forall>j. port_value h (pw_node p) j \<noteq> VPrincipal r"
    using only_principal [OF ord ok l] by blast
  moreover obtain x where "nodes h' = (nodes h)[pw_node p := x]" "node_ctors h' = node_ctors h"
    using apart by (auto simp: taken_apart_def)
  moreover from this neq have n: "nodes h' ! pw_node q = nodes h ! pw_node q" and c: "node_ctors h' = node_ctors h"
    by simp_all
  have "single_node h' (pw_node q) = single_node h (pw_node q)"
    unfolding single_node_def n c by (rule refl)
  ultimately show ?thesis
    using apart r by (simp add: taken_apart_def)
qed

lemma stack_ok_disconnect_pair:
  assumes held: "stack_ok (hold (Task_active_pair left right rule) F) R m"
  shows "\<exists>m'. disconnect_pair left right m = Inr m' \<and> stack_ok F R m' \<and>
    return_stack m' = return_stack m \<and> function_objects m' = function_objects m \<and> task_queue m' = task_queue m"
proof -
  have ok: "stack_ok F R m" and ready: "pair_waits (net m) left right"
    and free: "\<forall>u \<in> set (tasks_elsewhere F @ task_queue m). Inl left \<notin> set (task_parts u) \<and> Inl right \<notin> set (task_parts u)"
    using held by (auto simp: stack_ok_hold task_ready_def task_parts_def)
  obtain p q where p: "cell (principal_wires (net m)) left = Some p" "pw_oppsite p \<noteq> None" "single_node (net m) (pw_node p)"
    and q: "cell (principal_wires (net m)) right = Some q" "pw_oppsite q \<noteq> None" "single_node (net m) (pw_node q)"
    and neq: "pw_node p \<noteq> pw_node q"
    using ready by (auto simp: pair_waits_iff)
  have net: "net_ok (net m) (value_stack m @ R)" and ord: "orderly (net m)"
    using ok by (simp_all add: stack_ok_def tasks_ok_def)
  obtain h vs alloc st where d1: "worker_disconnect_node (pw_node p) m
      = Inr (m\<lparr>net := h, value_stack := vs, node_alloc := alloc, free_node_stack := st\<rparr>)"
    and ok1: "stack_ok F R (m\<lparr>net := h, value_stack := vs, node_alloc := alloc, free_node_stack := st\<rparr>)"
    and apart: "taken_apart (pw_node p) (net m) h"
    using stack_ok_disconnect [OF ok p] free by blast
  have q': "cell (principal_wires h) right = Some q" "single_node h (pw_node q)"
    using other_wire_stays [OF ord net p(1,3) apart q(1,3) neq] by simp_all
  let ?m1 = "m\<lparr>net := h, value_stack := vs, node_alloc := alloc, free_node_stack := st\<rparr>"
  obtain h2 vs2 alloc2 st2 where d2: "worker_disconnect_node (pw_node q) ?m1
      = Inr (?m1\<lparr>net := h2, value_stack := vs2, node_alloc := alloc2, free_node_stack := st2\<rparr>)"
    and ok2: "stack_ok F R (?m1\<lparr>net := h2, value_stack := vs2, node_alloc := alloc2, free_node_stack := st2\<rparr>)"
    using stack_ok_disconnect [OF ok1, of right q] q' q(2) free by auto
  show ?thesis
    using d1 d2 ok2 p q' by (simp add: disconnect_pair_def)
qed

lemma machine_ok_disconnect_pair:
  assumes "machine_ok (hold (Task_active_pair left right rule) F) L m"
  shows "\<exists>m'. disconnect_pair left right m = Inr m' \<and> machine_ok F L m' \<and> return_stack m' = return_stack m"
  using stack_ok_disconnect_pair [of left right rule F "frame_vars (return_stack m) @ L" m] assms
  by (auto simp: machine_ok_def)

lemma machine_ok_handle_active_pair:
  assumes ok: "machine_ok (hold (Task_active_pair left right rule) F) L m"
    and run: "worker_handle_task_active_pair left right rule m = Some (Inr m')"
  shows "\<exists>L'. machine_ok F (L' @ L) m' \<and> length (return_stack m') \<le> length (return_stack m)"
proof -
  obtain m1 where m1: "disconnect_pair left right m = Inr m1" "machine_ok F L m1"
      "return_stack m1 = return_stack m"
    using machine_ok_disconnect_pair [OF ok] by blast
  then have "call_function (rule_function rule) m1 = Some (Inr m')"
    using run by (simp add: handle_active_pair_disconnect)
  from machine_ok_call_function [OF m1(2) this] m1(3) show ?thesis by simp
qed

text \<open>Taking a task out of the queue.\<close>

lemma machine_ok_next_task:
  assumes ok: "machine_ok F L m" and "worker_next_task m = (Some task, m')"
  shows "machine_ok (hold task F) L m'"
proof -
  obtain tasks where t: "task_queue m = task # tasks" and m': "m' = m\<lparr>task_queue := tasks\<rparr>"
    using assms(2) by (auto simp: worker_next_task_def split: list.splits)
  have "tasks_ok (hold task F) m'"
    using ok t unfolding m' by (auto simp: machine_ok_def stack_ok_def tasks_ok_def tasks_ready_def)
  then show ?thesis
    using ok unfolding m' by (simp add: machine_ok_def stack_ok_def apply_prims_ok_def)
qed

end
