(* ===== verification/Example_Net.thy ===== *)
theory Example_Net
  imports Machine_Steps
begin

text \<open>
  Executable criteria for the invariants, and a small program they are evaluated on: the
  constructors \<open>zero\<close> and \<open>add\<close> of the README with the rule
  \<open>(define-rule (add (zero) addend result) (connect addend result))\<close>, and the expression
  \<open>(add (zero) (zero))\<close>.
\<close>

section \<open>Criteria\<close>

definition pool :: "heap \<Rightarrow> val list \<Rightarrow> val list" where
  "pool h R = R @ concat (map (case_option [] (\<lambda>v. [v])) (wires h)) @ concat (map value_array (nodes h))"

definition in_range :: "heap \<Rightarrow> val \<Rightarrow> bool" where
  "in_range h v =
     (case v of
        VWire a \<Rightarrow> a < length (wires h)
      | VPrincipal a \<Rightarrow> a < length (principal_wires h)
      | _ \<Rightarrow> True)"

definition net_check :: "heap \<Rightarrow> val list \<Rightarrow> bool" where
  "net_check h R \<longleftrightarrow>
     list_all (in_range h) (pool h R) \<and>
     list_all (\<lambda>a. refs h R (VWire a) = wire_weight (cell (wires h) a)) [0..<length (wires h)] \<and>
     list_all (\<lambda>a. refs h R (VPrincipal a) = pw_weight (cell (principal_wires h) a))
       [0..<length (principal_wires h)] \<and>
     list_all ports_ok (node_ctors h) \<and> list_all (node_ok (node_ctors h)) (nodes h) \<and>
     list_all (\<lambda>a. case cell (principal_wires h) a of None \<Rightarrow> True | Some p \<Rightarrow> pw_placed h a p)
       [0..<length (principal_wires h)]"

lemma pool_refs: "v \<notin> set (pool h R) \<Longrightarrow> refs h R v = 0"
proof -
  assume v: "v \<notin> set (pool h R)"
  then have "v \<notin> set R" "Some v \<notin> set (wires h)"
    by (force simp: pool_def)+
  moreover have "map (\<lambda>n. count_list (value_array n) v) (nodes h) = map (\<lambda>_. 0) (nodes h)"
    using v by (auto simp: pool_def count_list_0_iff)
  then have "node_refs (nodes h) v = 0"
    by (simp add: node_refs_def)
  ultimately show ?thesis
    by (simp add: refs_def count_list_0_iff)
qed

lemma net_check_net_ok:
  assumes c: "net_check h R"
  shows "net_ok h R"
proof -
  have "refs h R (VWire a) = wire_weight (cell (wires h) a)" for a
  proof (cases "a < length (wires h)")
    case False
    then have "VWire a \<notin> set (pool h R)"
      using c by (auto simp: net_check_def list_all_iff in_range_def)
    then show ?thesis
      using False by (simp add: pool_refs cell_def wire_weight_def)
  qed (use c in \<open>simp add: net_check_def list_all_iff\<close>)
  moreover have "refs h R (VPrincipal a) = pw_weight (cell (principal_wires h) a)" for a
  proof (cases "a < length (principal_wires h)")
    case False
    then have "VPrincipal a \<notin> set (pool h R)"
      using c by (auto simp: net_check_def list_all_iff in_range_def)
    then show ?thesis
      using False by (simp add: pool_refs cell_def pw_weight_def)
  qed (use c in \<open>simp add: net_check_def list_all_iff\<close>)
  moreover have "pw_placed h a p" if p: "cell (principal_wires h) a = Some p" for a p
    using c p cell_Some_length [OF p] by (auto simp: net_check_def list_all_iff dest: bspec [of _ _ a])
  ultimately show ?thesis
    using c by (simp add: net_ok_def linear_def net_check_def list_all_iff)
qed

definition node_complete_check :: "heap \<Rightarrow> nat \<Rightarrow> bool" where
  "node_complete_check h n =
     (case node_ctor_of (nodes h ! n) of
        None \<Rightarrow> True
      | Some c \<Rightarrow> c < length (node_ctors h) \<and>
          list_all (\<lambda>i. port_value h n i \<noteq> VNull) [0..<ctor_arity (node_ctors h ! c)])"

definition code_check :: "function_t option list \<Rightarrow> bool" where
  "code_check fs \<longleftrightarrow>
     list_all (\<lambda>f. case f of None \<Rightarrow> True | Some fn \<Rightarrow> list_all literal_ok (opcode_array fn)) fs"

definition alloc_check :: "node_allocator \<Rightarrow> nat list \<Rightarrow> heap \<Rightarrow> bool" where
  "alloc_check alloc stack h \<longleftrightarrow>
     0 < batch_size alloc \<and> 0 < cache_size (allocator_of alloc) \<and>
     distinct (free_nodes [] alloc stack) \<and>
     list_all (\<lambda>a. a < length (nodes h) \<and> blank (nodes h ! a)) (free_nodes [] alloc stack)"

text \<open>The order of the tasks: the ports, the counts, the rules and the queue.\<close>

definition orderly_check :: "heap \<Rightarrow> bool" where
  "orderly_check h \<longleftrightarrow>
     list_all (\<lambda>n. list_all (\<lambda>i. is_principal_wire (port_value h n i) \<longrightarrow>
         (case node_ctor_of (nodes h ! n) of
            None \<Rightarrow> False | Some c \<Rightarrow> c < length (node_ctors h) \<and> principal_at (node_ctors h ! c) i))
       [0..<length (value_array (nodes h ! n))]) [0..<length (nodes h)] \<and>
     list_all (\<lambda>n. primitive_arg_count n =
         (case node_ctor_of n of None \<Rightarrow> 0 | Some c \<Rightarrow> args_at (node_ctors h ! c) (value_array n))) (nodes h) \<and>
     rules_single (node_ctors h)"

lemma orderly_check_orderly:
  assumes c: "orderly_check h"
  shows "orderly h"
proof -
  have "\<exists>c. node_has h n c \<and> principal_at (node_ctors h ! c) i"
    if n: "n < length (nodes h)" "port_value h n i = VPrincipal x" for n i x
  proof -
    have "i < length (value_array (nodes h ! n))"
      using n(2) by (auto simp: port_value_def slot_def split: if_splits)
    then have "case node_ctor_of (nodes h ! n) of None \<Rightarrow> False
        | Some c \<Rightarrow> c < length (node_ctors h) \<and> principal_at (node_ctors h ! c) i"
      using c n by (simp add: orderly_check_def list_all_iff is_principal_wire_def)
    then show ?thesis
      using n(1) by (simp add: node_has_def split: option.splits)
  qed
  then show ?thesis
    using c by (auto simp: orderly_check_def orderly_def ports_in_place_def args_exact_def list_all_iff)
qed

definition worker_prim :: "primitive \<Rightarrow> bool" where
  "worker_prim p = (case primitive_fn p of Primitive_fn _ \<Rightarrow> True | _ \<Rightarrow> False)"

definition prims_check :: "primitive list \<Rightarrow> bool" where
  "prims_check ps \<longleftrightarrow>
     list_all (\<lambda>p. (primitive_node_ctor p = None \<longrightarrow> plain_primitive p) \<and> worker_prim p) ps"

lemma prims_check_ok: "prims_check ps \<Longrightarrow> prims_ok ps"
  by (auto simp: prims_check_def prims_ok_def list_all_iff worker_prim_def results_ok_def
      split: primitive_fn.splits dest!: bspec)

definition ctors_check :: "machine \<Rightarrow> bool" where
  "ctors_check m \<longleftrightarrow>
     list_all (\<lambda>c. case ctor_primitive c of None \<Rightarrow> True | Some p \<Rightarrow> p < length (primitives m) \<and>
        ctor_arity c = input_arity (primitives m ! p) + output_arity (primitives m ! p)) (node_ctors (net m))"

definition machine_check :: "val list \<Rightarrow> machine \<Rightarrow> bool" where
  "machine_check L m \<longleftrightarrow>
     net_check (net m) (value_stack m @ frame_vars (return_stack m) @ L) \<and>
     VNull \<notin> set (value_stack m) \<and>
     alloc_check (node_alloc m) (free_node_stack m) (net m) \<and>
     list_all (node_complete_check (net m)) [0..<length (nodes (net m))] \<and>
     prims_check (primitives m) \<and> apply_primitives m = [] \<and> ctors_check m \<and> code_check (function_objects m) \<and>
     orderly_check (net m) \<and> tasks_ready (net m) (task_queue m)"

lemma machine_check_ok:
  assumes c: "machine_check L m"
  shows "machine_ok nothing L m"
proof -
  have "nodes_complete (net m)"
    using c by (auto simp: machine_check_def nodes_complete_def node_complete_def node_has_def
        list_all_iff node_complete_check_def dest!: bspec)
  moreover have "code_ok (function_objects m)"
    unfolding code_ok_def
  proof (intro allI impI ballI)
    fix f fn op
    assume f: "cell (function_objects m) f = Some fn" and op: "op \<in> set (opcode_array fn)"
    have "Some fn \<in> set (function_objects m)"
      using cell_Some_nth [OF f] cell_Some_length [OF f] by (metis nth_mem)
    with c op show "literal_ok op"
      by (auto simp: machine_check_def code_check_def list_all_iff dest: bspec)
  qed
  moreover have "alloc_ok [] (node_alloc m) (free_node_stack m) (net m)"
    using c by (simp add: machine_check_def alloc_check_def alloc_ok_def list_all_iff)
  moreover have "tasks_ok nothing m"
    using c by (simp add: machine_check_def tasks_ok_def orderly_check_orderly)
  moreover have "apply_prims_ok m"
    using c by (auto simp: machine_check_def apply_prims_ok_def ctors_check_def list_all_iff
        split: option.splits dest!: bspec)
  ultimately show ?thesis
    using c net_check_net_ok prims_check_ok
    by (simp add: machine_check_def machine_ok_def stack_ok_def)
qed

section \<open>A program\<close>

definition port :: "string \<Rightarrow> bool \<Rightarrow> port_info option" where
  "port name flag = Some (port_info_new name flag)"

definition example_rule :: rule where
  "example_rule = \<lparr>left_node_ctor = 1, right_node_ctor = 0, rule_function = 0\<rparr>"

definition zero_ctor :: node_ctor where
  "zero_ctor = (node_ctor_new ''zero'' 1)\<lparr>port_infos := [port ''value'' True],
     rule_array := [example_rule]\<rparr>"

definition add_ctor3 :: node_ctor where
  "add_ctor3 = (node_ctor_new ''add'' 3)
     \<lparr>port_infos := [port ''target'' True, port ''addend'' False, port ''result'' False],
      rule_array := [example_rule]\<rparr>"

definition example_heap :: heap where
  "example_heap = \<lparr>wires = [], principal_wires = [], node_ctors = [zero_ctor, add_ctor3],
     nodes = replicate 4 node_new\<rparr>"

definition example_alloc :: node_allocator where
  "example_alloc = \<lparr>allocator_of = \<lparr>alloc_stack = [3], cache_size = 4\<rparr>, batch_size = 2,
     node_count = 4, node_array = [0, 1, 2, 3]\<rparr>"

definition rule_function_object :: function_t where
  "rule_function_object = (function_new 2)\<lparr>opcode_array :=
     [Op_set_variable 0, Op_set_variable 1, Op_get_variable 1, Op_get_variable 0,
      Op_literal (VPrimitive 0), Op_apply 2]\<rparr>"

definition main_function_object :: function_t where
  "main_function_object = (function_new 0)\<lparr>opcode_array :=
     [Op_literal (VCtor 0), Op_apply 0, Op_literal (VCtor 0), Op_apply 0,
      Op_literal (VCtor 1), Op_apply 2]\<rparr>"

definition example_machine :: machine where
  "example_machine =
     \<lparr>net = example_heap, function_objects = [Some rule_function_object, Some main_function_object],
      primitives = [primitive_from_fn ''connect'' 2 0 X_connect], apply_primitives = [],
      value_hash = Map.empty, node_alloc = example_alloc, free_node_stack = [0, 1, 2],
      task_queue = [], task_queue_size = 4, task_count = None, value_stack = [],
      return_stack = [frame_new 1]\<rparr>"

text \<open>The machine once the expression has been built: one active pair is queued.\<close>

definition example_built :: machine where
  "example_built = (case worker_run_until 0 example_machine of
     Some (Inr m) \<Rightarrow> m | _ \<Rightarrow> example_machine)"

text \<open>The machine in which \<open>(zero)\<close> has been built and a node for \<open>add\<close> was allocated.\<close>

definition example_fresh :: machine where
  "example_fresh = (case returned (lbnd (apply_node 0 0 example_machine) (worker_new_node 1)) of
     Some (n, m) \<Rightarrow> m | None \<Rightarrow> example_machine)"

text \<open>Two open wires, and a wire that was fuzed with an open one.\<close>

definition two_wires :: heap where
  "two_wires = example_heap\<lparr>wires := [Some VNull, Some VNull]\<rparr>"

definition fuzed_wires :: heap where
  "fuzed_wires = example_heap\<lparr>wires := [Some (VWire 1), Some VNull]\<rparr>"

text \<open>A function that ends with the call of another.\<close>

definition tail_call_machine :: machine where
  "tail_call_machine = example_machine
     \<lparr>function_objects := [Some ((function_new 0)\<lparr>opcode_array := [Op_apply 1]\<rparr>),
                           Some ((function_new 1)\<lparr>opcode_array := [Op_set_variable 0]\<rparr>)],
      value_stack := [VFunction 1, VImm 2], return_stack := [frame_new 0]\<rparr>"

lemma tail_call_example:
  "worker_run_one_step tail_call_machine = Some (Inr (tail_call_machine
     \<lparr>value_stack := [VImm 2], return_stack := [frame_new 1]\<rparr>))"
  by (rule tail_call_step [where frame = "frame_new 0" and fn = "(function_new 0)\<lparr>opcode_array := [Op_apply 1]\<rparr>"
        and gn = "(function_new 1)\<lparr>opcode_array := [Op_set_variable 0]\<rparr>" and arity = 1])
    (simp_all add: tail_call_machine_def cell_def frame_new_def function_new_def)

text \<open>An argument on the stack, and a wire fuzed with it that is about to be applied.\<close>

definition fuzed_target_machine :: machine where
  "fuzed_target_machine = example_machine\<lparr>net := fuzed_wires, value_stack := [VWire 1], return_stack := []\<rparr>"

text \<open>A node of \<open>int-dup\<close> that has its argument, so that its task is queued.\<close>

definition dup_ctor :: node_ctor where
  "dup_ctor = (node_ctor_new ''int-dup'' 3)
     \<lparr>port_infos := [port ''target'' True, port ''first'' False, port ''second'' False], ctor_primitive := Some 0\<rparr>"

definition dup_machine :: machine where
  "dup_machine = example_machine
     \<lparr>net := example_heap\<lparr>node_ctors := [dup_ctor]\<rparr>,
      primitives := [(primitive_from_fn ''int-dup'' 1 2 X_int_dup)\<lparr>primitive_node_ctor := Some 0\<rparr>],
      function_objects := [], value_stack := [VImm 42], return_stack := []\<rparr>"

definition dup_built :: machine where
  "dup_built = (case returned (apply_node 0 1 dup_machine) of Some m \<Rightarrow> m | None \<Rightarrow> dup_machine)"

end
