(* ===== verification/Lexer.thy ===== *)
theory Lexer
  imports Strings
begin

text \<open>
  The lexer (\<open>src/src/packages/std/lexer\<close>). The input is a C string, the list of its characters
  without the terminator; reading at the end gives NUL. The buffer has \<open>MAX_TOKEN_LENGTH + 1\<close>
  bytes, and a write past it is undefined. Its contents are kept as the characters collected, of
  which the C string is the part before the first NUL. The delimiters are in the order they were
  added. What \<open>strtod\<close> accepts and returns is the parameter \<open>double_parser\<close>.
\<close>

datatype token_kind = GENERIC_TOKEN | DELIMITER_TOKEN | INT_TOKEN | FLOAT_TOKEN | STRING_TOKEN

record token =
  tok_string :: string
  tok_kind :: token_kind
  tok_start :: nat
  tok_end :: nat
  tok_lineno :: nat
  tok_column :: nat
  tok_int_value :: int
  tok_float_value :: u64

definition token_new :: "string \<Rightarrow> token_kind \<Rightarrow> nat \<Rightarrow> nat \<Rightarrow> nat \<Rightarrow> nat \<Rightarrow> token" where
  "token_new s kind start end' lineno column =
     \<lparr>tok_string = s, tok_kind = kind, tok_start = start, tok_end = end', tok_lineno = lineno,
      tok_column = column, tok_int_value = 0, tok_float_value = 0\<rparr>"

definition MAX_TOKEN_LENGTH :: nat where "MAX_TOKEN_LENGTH = 1024"

record double_parser =
  is_double :: "string \<Rightarrow> bool"
  parse_double :: "string \<Rightarrow> u64"

record lexer =
  lx_string :: string
  lx_cursor :: nat
  lx_lineno :: nat
  lx_column :: nat
  lx_buffer :: string
  lx_token_list :: "token list"
  lx_line_comment :: "string option"
  lx_delimiter_list :: "string list"
  lx_enable_int :: bool
  lx_enable_float :: bool
  lx_enable_string :: bool

definition lexer_init :: "lexer \<Rightarrow> lexer" where
  "lexer_init self = self\<lparr>lx_cursor := 0, lx_lineno := 1, lx_column := 1, lx_buffer := []\<rparr>"

definition lexer_new :: lexer where
  "lexer_new = lexer_init
     \<lparr>lx_string = [], lx_cursor = 0, lx_lineno = 0, lx_column = 0, lx_buffer = [], lx_token_list = [],
      lx_line_comment = None, lx_delimiter_list = [], lx_enable_int = False, lx_enable_float = False,
      lx_enable_string = False\<rparr>"

definition lexer_add_delimiter :: "lexer \<Rightarrow> string \<Rightarrow> lexer" where
  "lexer_add_delimiter self delimiter =
     self\<lparr>lx_delimiter_list := lx_delimiter_list self @ [delimiter]\<rparr>"

definition is_finished :: "lexer \<Rightarrow> bool" where
  "is_finished self \<longleftrightarrow> lx_cursor self = length (lx_string self)"

definition current_substring :: "lexer \<Rightarrow> string" where
  "current_substring self = drop (lx_cursor self) (lx_string self)"

definition current_char :: "lexer \<Rightarrow> char" where
  "current_char self = (case current_substring self of [] \<Rightarrow> CHR 0x00 | c # _ \<Rightarrow> c)"

definition match_delimiter :: "lexer \<Rightarrow> string option" where
  "match_delimiter self =
     List.find (\<lambda>delimiter. string_starts_with (current_substring self) delimiter) (lx_delimiter_list self)"

definition step :: "lexer \<Rightarrow> lexer res" where
  "step self =
     asserting (\<not> is_finished self)
       (let self = (if current_char self = CHR 0x0A
                    then self\<lparr>lx_lineno := lx_lineno self + 1, lx_column := 1\<rparr>
                    else self\<lparr>lx_column := lx_column self + 1\<rparr>)
        in Inr (self\<lparr>lx_cursor := lx_cursor self + 1\<rparr>))"

fun forward :: "lexer \<Rightarrow> nat \<Rightarrow> lexer res" where
  "forward self 0 = Inr self"
| "forward self (Suc n) = bnd (step self) (\<lambda>self. forward self n)"

lemma step_Inr: "step self = Inr self' \<Longrightarrow>
  lx_cursor self \<noteq> length (lx_string self) \<and> lx_string self' = lx_string self \<and>
  lx_cursor self' = Suc (lx_cursor self) \<and> lx_buffer self' = lx_buffer self \<and>
  lx_token_list self' = lx_token_list self \<and> lx_line_comment self' = lx_line_comment self \<and>
  lx_delimiter_list self' = lx_delimiter_list self \<and> lx_enable_string self' = lx_enable_string self \<and>
  lx_enable_int self' = lx_enable_int self \<and> lx_enable_float self' = lx_enable_float self"
  by (auto simp: step_def asserting_eq_Inr is_finished_def Let_def split: if_splits)

text \<open>What a cursor that has not run past the end has still to read.\<close>

definition unread :: "lexer \<Rightarrow> nat" where
  "unread self = (if lx_cursor self \<le> length (lx_string self)
     then length (lx_string self) - lx_cursor self else 0)"

section \<open>Spaces and comments\<close>

text \<open>
  The loops are total on every state: past the end of the string, where the code does not get,
  the model reads NUL.
\<close>

function ignore_space_loop :: "lexer \<Rightarrow> lexer res" where
  "ignore_space_loop self =
     (if lx_cursor self \<ge> length (lx_string self) then Inr self
      else if isspace (current_char self) then bnd (step self) ignore_space_loop
      else Inr self)"
  by pat_completeness auto
termination
  by (relation "measure (\<lambda>self. length (lx_string self) - lx_cursor self)") (auto dest: step_Inr)

definition ignore_space :: "lexer \<Rightarrow> (bool \<times> lexer) res" where
  "ignore_space self =
     (if \<not> isspace (current_char self) then Inr (False, self)
      else bnd (ignore_space_loop self) (\<lambda>self. Inr (True, self)))"

function ignore_line_loop :: "lexer \<Rightarrow> lexer res" where
  "ignore_line_loop self =
     (if lx_cursor self \<ge> length (lx_string self) then Inr self
      else if current_char self = CHR 0x0A then step self
      else bnd (step self) ignore_line_loop)"
  by pat_completeness auto
termination
  by (relation "measure (\<lambda>self. length (lx_string self) - lx_cursor self)") (auto dest: step_Inr)

definition ignore_comment :: "lexer \<Rightarrow> (bool \<times> lexer) res" where
  "ignore_comment self =
     (case lx_line_comment self of
        None \<Rightarrow> Inr (False, self)
      | Some line_comment \<Rightarrow>
          if \<not> string_starts_with (current_substring self) line_comment then Inr (False, self)
          else bnd (forward self (string_length line_comment)) (\<lambda>self.
               bnd (ignore_line_loop self) (\<lambda>self. Inr (True, self))))"

section \<open>Tokens\<close>

definition push_token :: "token \<Rightarrow> lexer \<Rightarrow> lexer" where
  "push_token token self = self\<lparr>lx_token_list := lx_token_list self @ [token]\<rparr>"

definition collect_delimiter :: "lexer \<Rightarrow> (bool \<times> lexer) res" where
  "collect_delimiter self =
     (case match_delimiter self of
        None \<Rightarrow> Inr (False, self)
      | Some delimiter \<Rightarrow>
          (let start = lx_cursor self; end' = lx_cursor self + string_length delimiter
           in bnd (forward self (string_length delimiter)) (\<lambda>self.
                Inr (True, push_token (token_new (string_copy delimiter) DELIMITER_TOKEN start end'
                       (lx_lineno self) (lx_column self)) self))))"

text \<open>The buffer holds \<open>MAX_TOKEN_LENGTH + 1\<close> bytes; two are written before the assertion.\<close>

definition collect_char :: "lexer \<Rightarrow> char \<Rightarrow> lexer res" where
  "collect_char self c =
     (let len = length (lx_buffer self)
      in defined_when (len + 1 < MAX_TOKEN_LENGTH + 1)
           (let self = self\<lparr>lx_buffer := lx_buffer self @ [c]\<rparr>
            in asserting (length (lx_buffer self) \<le> MAX_TOKEN_LENGTH) (Inr self)))"

definition buffer_string :: "lexer \<Rightarrow> string" where
  "buffer_string self = takeWhile (\<lambda>c. c \<noteq> CHR 0x00) (lx_buffer self)"

definition clear_buffer :: "lexer \<Rightarrow> lexer" where
  "clear_buffer self = self\<lparr>lx_buffer := []\<rparr>"

definition push_buffer_token :: "token_kind \<Rightarrow> lexer \<Rightarrow> lexer" where
  "push_buffer_token kind self =
     (let end' = lx_cursor self; start = end' - string_length (buffer_string self)
      in clear_buffer (push_token (token_new (buffer_string self) kind start end'
           (lx_lineno self) (lx_column self)) self))"

definition escaped_char :: "char \<Rightarrow> char res" where
  "escaped_char c =
     (if c = CHR ''n'' then Inr (CHR 0x0A)
      else if c = CHR ''t'' then Inr (CHR 0x09)
      else if c = CHR ''b'' then Inr (CHR 0x08)
      else if c = CHR ''f'' then Inr (CHR 0x0C)
      else if c = CHR ''r'' then Inr (CHR 0x0D)
      else if c = CHR ''0'' then Inr (CHR 0x00)
      else if c = CHR 0x22 then Inr (CHR 0x22)
      else if c = CHR 0x5C then Inr (CHR 0x5C)
      else Inl Assert_failed)"

lemma collect_char_Inr: "collect_char self c = Inr self' \<Longrightarrow>
  self' = self\<lparr>lx_buffer := lx_buffer self @ [c]\<rparr> \<and> length (lx_buffer self) < MAX_TOKEN_LENGTH"
  by (auto simp: collect_char_def defined_when_eq_Inr asserting_eq_Inr Let_def)

function collect_string_loop :: "lexer \<Rightarrow> (bool \<times> lexer) res" where
  "collect_string_loop self =
     (if lx_cursor self \<ge> length (lx_string self) then Inl Assert_failed
      else let c = current_char self
           in if c = CHR 0x5C then
                bnd (step self) (\<lambda>self.
                bnd (escaped_char (current_char self)) (\<lambda>c.
                bnd (collect_char self c) (\<lambda>self.
                bnd (step self) collect_string_loop)))
              else if c = CHR 0x22 then
                bnd (step (push_buffer_token STRING_TOKEN self)) (\<lambda>self. Inr (True, self))
              else
                bnd (collect_char self c) (\<lambda>self. bnd (step self) collect_string_loop))"
  by pat_completeness auto
termination
  by (relation "measure (\<lambda>self. length (lx_string self) - lx_cursor self)")
    (auto dest!: step_Inr collect_char_Inr)

definition collect_string :: "lexer \<Rightarrow> (bool \<times> lexer) res" where
  "collect_string self =
     (if current_char self \<noteq> CHR 0x22 then Inr (False, self)
      else bnd (step (clear_buffer self)) collect_string_loop)"

function collect_generic_loop :: "lexer \<Rightarrow> lexer res" where
  "collect_generic_loop self =
     (let c = current_char self
      in if isspace c \<or> match_delimiter self \<noteq> None \<or> lx_cursor self \<ge> length (lx_string self)
         then Inr (push_buffer_token GENERIC_TOKEN self)
         else bnd (collect_char self c) (\<lambda>self. bnd (step self) collect_generic_loop))"
  by pat_completeness auto
termination
  by (relation "measure (\<lambda>self. length (lx_string self) - lx_cursor self)")
    (auto dest!: step_Inr collect_char_Inr)

declare ignore_space_loop.simps [simp del] ignore_line_loop.simps [simp del]
  collect_string_loop.simps [simp del] collect_generic_loop.simps [simp del]

definition collect_generic :: "lexer \<Rightarrow> lexer res" where
  "collect_generic self = collect_generic_loop (clear_buffer self)"

definition lexer_step :: "lexer \<Rightarrow> lexer res" where
  "lexer_step self =
     bnd (ignore_space self) (\<lambda>(handled, self). if handled then Inr self else
     bnd (ignore_comment self) (\<lambda>(handled, self). if handled then Inr self else
     bnd (collect_delimiter self) (\<lambda>(handled, self). if handled then Inr self else
     bnd (if lx_enable_string self then collect_string self else Inr (False, self)) (\<lambda>(handled, self).
       if handled then Inr self else collect_generic self))))"

text \<open>With an empty delimiter or comment prefix a step may not move, and the loop not end.\<close>

partial_function (option) lexer_loop :: "lexer \<Rightarrow> lexer loop" where
  "lexer_loop self =
     (if is_finished self then Some (Inr self)
      else (case lexer_step self of
              Inl e \<Rightarrow> Some (Inl e)
            | Inr self \<Rightarrow> lexer_loop self))"

declare lexer_loop.simps [code]

fun postprocess_int :: "token list \<Rightarrow> token list res" where
  "postprocess_int [] = Inr []"
| "postprocess_int (token # tokens) =
     bnd (if tok_kind token = GENERIC_TOKEN \<and> string_is_xint (tok_string token)
          then bnd (string_parse_xint (tok_string token)) (\<lambda>i.
                 Inr (token\<lparr>tok_kind := INT_TOKEN, tok_int_value := i\<rparr>))
          else Inr token) (\<lambda>token.
     bnd (postprocess_int tokens) (\<lambda>tokens. Inr (token # tokens)))"

definition float_token :: "double_parser \<Rightarrow> token \<Rightarrow> token" where
  "float_token ops token =
     (if tok_kind token = GENERIC_TOKEN \<and> is_double ops (tok_string token)
      then token\<lparr>tok_kind := FLOAT_TOKEN, tok_float_value := parse_double ops (tok_string token)\<rparr>
      else token)"

definition postprocess_float :: "double_parser \<Rightarrow> token list \<Rightarrow> token list" where
  "postprocess_float ops tokens = map (float_token ops) tokens"

definition lexer_run :: "double_parser \<Rightarrow> lexer \<Rightarrow> lexer loop" where
  "lexer_run ops self =
     lbnd (lexer_loop ((lexer_init self)\<lparr>lx_token_list := []\<rparr>)) (\<lambda>self.
     lbnd (Some (if lx_enable_int self then postprocess_int (lx_token_list self)
                 else Inr (lx_token_list self))) (\<lambda>tokens.
       let tokens = (if lx_enable_float self then postprocess_float ops tokens else tokens)
       in Some (Inr (self\<lparr>lx_token_list := tokens\<rparr>))))"

section \<open>Every step moves the cursor\<close>

definition lexer_ok :: "lexer \<Rightarrow> bool" where
  "lexer_ok self \<longleftrightarrow> lx_cursor self \<le> length (lx_string self) \<and>
     lx_line_comment self \<noteq> Some [] \<and> [] \<notin> set (lx_delimiter_list self)"

definition advanced :: "lexer \<Rightarrow> lexer \<Rightarrow> bool" where
  "advanced self self' \<longleftrightarrow> lx_string self' = lx_string self \<and> lx_cursor self \<le> lx_cursor self' \<and>
     lx_cursor self' \<le> length (lx_string self) \<and> lx_line_comment self' = lx_line_comment self \<and>
     lx_delimiter_list self' = lx_delimiter_list self \<and> lx_enable_string self' = lx_enable_string self"

lemma advanced_trans: "advanced a b \<Longrightarrow> advanced b c \<Longrightarrow> advanced a c"
  by (auto simp: advanced_def)

lemma advanced_refl: "lx_cursor a \<le> length (lx_string a) \<Longrightarrow> advanced a a"
  by (simp add: advanced_def)

lemma step_advanced:
  "lx_cursor self \<le> length (lx_string self) \<Longrightarrow> step self = Inr self' \<Longrightarrow> advanced self self'"
  by (drule step_Inr) (simp add: advanced_def)

lemma forward_advanced:
  "lx_cursor self \<le> length (lx_string self) \<Longrightarrow> forward self n = Inr self' \<Longrightarrow>
     advanced self self' \<and> lx_cursor self' = lx_cursor self + n"
proof (induction n arbitrary: self)
  case 0
  then show ?case by (simp add: advanced_refl)
next
  case (Suc n)
  then obtain s where s: "step self = Inr s" "forward s n = Inr self'"
    by (auto simp: bnd_eq_Inr)
  note a = step_advanced [OF Suc.prems(1) s(1)]
  then have "lx_cursor s \<le> length (lx_string s)" by (auto simp: advanced_def)
  from Suc.IH [OF this s(2)] show ?case
    using a step_Inr [OF s(1)] advanced_trans by auto
qed

lemma ignore_space_loop_advanced:
  "lx_cursor self \<le> length (lx_string self) \<Longrightarrow> ignore_space_loop self = Inr self' \<Longrightarrow> advanced self self'"
proof (induction self arbitrary: self' rule: ignore_space_loop.induct)
  case (1 self)
  show ?case
  proof (cases "lx_cursor self < length (lx_string self) \<and> isspace (current_char self)")
    case True
    then obtain s where s: "step self = Inr s" "ignore_space_loop s = Inr self'"
      using 1(3) by (subst (asm) ignore_space_loop.simps) (auto simp: bnd_eq_Inr not_le)
    have a: "advanced self s" using 1(2) s(1) by (rule step_advanced)
    then have "lx_cursor s \<le> length (lx_string s)" by (auto simp: advanced_def)
    with 1(1) [OF _ _ s(1) this s(2)] True a show ?thesis by (auto intro: advanced_trans)
  next
    case False
    then show ?thesis
      using 1(2,3) by (subst (asm) ignore_space_loop.simps) (auto simp: advanced_refl split: if_splits)
  qed
qed

lemma ignore_line_loop_advanced:
  "lx_cursor self \<le> length (lx_string self) \<Longrightarrow> ignore_line_loop self = Inr self' \<Longrightarrow> advanced self self'"
proof (induction self arbitrary: self' rule: ignore_line_loop.induct)
  case (1 self)
  show ?case
  proof (cases "lx_cursor self < length (lx_string self) \<and> current_char self \<noteq> CHR 0x0A")
    case True
    then obtain s where s: "step self = Inr s" "ignore_line_loop s = Inr self'"
      using 1(3) by (subst (asm) ignore_line_loop.simps) (auto simp: bnd_eq_Inr not_le)
    have a: "advanced self s" using 1(2) s(1) by (rule step_advanced)
    then have "lx_cursor s \<le> length (lx_string s)" by (auto simp: advanced_def)
    with 1(1) [OF _ _ s(1) this s(2)] True a show ?thesis by (auto intro: advanced_trans)
  next
    case False
    then show ?thesis
      using 1(2,3) by (subst (asm) ignore_line_loop.simps) (auto simp: advanced_refl step_advanced split: if_splits)
  qed
qed

lemma push_buffer_token_fields [simp]:
  "lx_string (push_buffer_token k self) = lx_string self"
  "lx_cursor (push_buffer_token k self) = lx_cursor self"
  "lx_line_comment (push_buffer_token k self) = lx_line_comment self"
  "lx_delimiter_list (push_buffer_token k self) = lx_delimiter_list self"
  "lx_enable_string (push_buffer_token k self) = lx_enable_string self"
  by (simp_all add: push_buffer_token_def Let_def clear_buffer_def push_token_def)

lemma push_token_fields [simp]:
  "lx_string (push_token t self) = lx_string self"
  "lx_cursor (push_token t self) = lx_cursor self"
  "lx_line_comment (push_token t self) = lx_line_comment self"
  "lx_delimiter_list (push_token t self) = lx_delimiter_list self"
  "lx_enable_string (push_token t self) = lx_enable_string self"
  by (simp_all add: push_token_def)

lemma clear_buffer_fields [simp]:
  "lx_string (clear_buffer self) = lx_string self" "lx_cursor (clear_buffer self) = lx_cursor self"
  "lx_line_comment (clear_buffer self) = lx_line_comment self"
  "lx_delimiter_list (clear_buffer self) = lx_delimiter_list self"
  "lx_enable_string (clear_buffer self) = lx_enable_string self"
  "lx_token_list (clear_buffer self) = lx_token_list self" "lx_buffer (clear_buffer self) = []"
  by (simp_all add: clear_buffer_def)

lemma advanced_via:
  assumes "lx_string s = lx_string self" "lx_cursor s = lx_cursor self"
    "lx_line_comment s = lx_line_comment self" "lx_delimiter_list s = lx_delimiter_list self"
    "lx_enable_string s = lx_enable_string self"
  shows "advanced s self' \<longleftrightarrow> advanced self self'"
  using assms by (simp add: advanced_def)

lemma collect_then_step:
  assumes "lx_cursor self \<le> length (lx_string self)" and "collect_char self c = Inr a" and "step a = Inr b"
  shows "advanced self b" and "lx_cursor b \<le> length (lx_string b)" and "lx_cursor b = Suc (lx_cursor self)"
proof -
  have a: "a = self\<lparr>lx_buffer := lx_buffer self @ [c]\<rparr>" using assms(2) collect_char_Inr by blast
  have le: "lx_cursor a \<le> length (lx_string a)" using assms(1) a by simp
  have ab: "advanced a b" using step_advanced [OF le assms(3)] .
  then show "advanced self b" unfolding a by (subst (asm) advanced_via [of _ self]) simp_all
  show "lx_cursor b \<le> length (lx_string b)" using ab by (auto simp: advanced_def)
  show "lx_cursor b = Suc (lx_cursor self)" using step_Inr [OF assms(3)] a by simp
qed

lemma collect_generic_loop_advanced:
  "lx_cursor self \<le> length (lx_string self) \<Longrightarrow> collect_generic_loop self = Inr self' \<Longrightarrow> advanced self self'"
proof (induction self arbitrary: self' rule: collect_generic_loop.induct)
  case (1 self)
  show ?case
  proof (cases "isspace (current_char self) \<or> match_delimiter self \<noteq> None \<or> lx_cursor self \<ge> length (lx_string self)")
    case True
    then have "self' = push_buffer_token GENERIC_TOKEN self"
      using 1(3) by (subst (asm) collect_generic_loop.simps) (auto simp: Let_def)
    then show ?thesis using 1(2) by (simp add: advanced_def)
  next
    case False
    then obtain a b where s: "collect_char self (current_char self) = Inr a" "step a = Inr b" "collect_generic_loop b = Inr self'"
      using 1(3) by (subst (asm) collect_generic_loop.simps) (auto simp: Let_def bnd_eq_Inr)
    note ab = collect_then_step [OF 1(2) s(1,2)]
    from 1(1) [OF refl False s(1,2) ab(2) s(3)] ab(1) show ?thesis by (rule advanced_trans [rotated])
  qed
qed

lemma collect_string_loop_advanced:
  "lx_cursor self \<le> length (lx_string self) \<Longrightarrow> collect_string_loop self = Inr (b, self') \<Longrightarrow>
     b \<and> advanced self self'"
proof (induction self arbitrary: self' rule: collect_string_loop.induct)
  case (1 self)
  let ?c = "current_char self"
  have lt: "\<not> lx_cursor self \<ge> length (lx_string self)"
    using "1.prems"(2) by (subst (asm) collect_string_loop.simps) (auto split: if_splits)
  consider (escape) "?c = CHR 0x5C" | (quote) "?c = CHR 0x22" | (other) "?c \<noteq> CHR 0x5C" "?c \<noteq> CHR 0x22"
    by blast
  then show ?case
  proof cases
    case escape
    then obtain a c d e where s: "step self = Inr a" "escaped_char (current_char a) = Inr c"
        "collect_char a c = Inr d" "step d = Inr e" "collect_string_loop e = Inr (b, self')"
      using "1.prems"(2) lt by (subst (asm) collect_string_loop.simps) (auto simp: Let_def bnd_eq_Inr)
    have a: "advanced self a" using "1.prems"(1) s(1) by (rule step_advanced)
    then have "lx_cursor a \<le> length (lx_string a)" by (auto simp: advanced_def)
    note ab = collect_then_step [OF this s(3,4)]
    from "1.IH"(1) [OF lt refl escape s(1,2,3,4) ab(2) s(5)] a ab(1) show ?thesis
      by (auto intro: advanced_trans)
  next
    case quote
    then obtain a where s: "step (push_buffer_token STRING_TOKEN self) = Inr a" "b" "self' = a"
      using "1.prems"(2) lt by (subst (asm) collect_string_loop.simps) (auto simp: Let_def bnd_eq_Inr)
    have le: "lx_cursor (push_buffer_token STRING_TOKEN self) \<le> length (lx_string (push_buffer_token STRING_TOKEN self))"
      using "1.prems"(1) by simp
    have "advanced self a"
      using step_advanced [OF le s(1)] by (subst (asm) advanced_via [of _ self]) simp_all
    then show ?thesis using s by simp
  next
    case other
    then obtain a c where s: "collect_char self ?c = Inr a" "step a = Inr c" "collect_string_loop c = Inr (b, self')"
      using "1.prems"(2) lt by (subst (asm) collect_string_loop.simps) (auto simp: Let_def bnd_eq_Inr)
    note ab = collect_then_step [OF "1.prems"(1) s(1,2)]
    from "1.IH"(2) [OF lt refl other s(1,2) ab(2) s(3)] ab(1) show ?thesis by (auto intro: advanced_trans)
  qed
qed

definition moves :: "lexer \<Rightarrow> lexer \<Rightarrow> bool" where
  "moves self self' \<longleftrightarrow> advanced self self' \<and> lx_cursor self < lx_cursor self'"

lemma moves_first:
  "lx_cursor self \<le> length (lx_string self) \<Longrightarrow> step self = Inr s \<Longrightarrow> advanced s self' \<Longrightarrow> moves self self'"
  using step_Inr [of self s] step_advanced [of self s]
  by (auto simp: moves_def advanced_def)

lemma ignore_space_moves:
  assumes "lx_cursor self < length (lx_string self)" and "ignore_space self = Inr (b, self')"
  shows "if b then moves self self' else self' = self \<and> \<not> isspace (current_char self)"
proof (cases "isspace (current_char self)")
  case True
  then obtain s where s: "step self = Inr s" "ignore_space_loop s = Inr self'" and b: "b"
    using assms by (auto simp: ignore_space_def bnd_eq_Inr ignore_space_loop.simps [of self] not_le)
  have a: "advanced self s" using assms(1) s(1) by (intro step_advanced) simp_all
  then have "lx_cursor s \<le> length (lx_string s)" by (auto simp: advanced_def)
  from moves_first [OF _ s(1) ignore_space_loop_advanced [OF this s(2)]] b assms(1) show ?thesis by simp
qed (use assms in \<open>auto simp: ignore_space_def\<close>)

lemma ignore_comment_moves:
  assumes "lexer_ok self" and "ignore_comment self = Inr (b, self')"
  shows "if b then moves self self' else self' = self"
proof (cases b)
  case True
  then obtain lc s where lc: "lx_line_comment self = Some lc" and s: "forward self (string_length lc) = Inr s"
      "ignore_line_loop s = Inr self'"
    using assms(2) by (auto simp: ignore_comment_def bnd_eq_Inr split: option.splits if_splits)
  have f: "advanced self s" "lx_cursor s = lx_cursor self + string_length lc"
    using forward_advanced [OF _ s(1)] assms(1) by (auto simp: lexer_ok_def)
  then have "lx_cursor s \<le> length (lx_string s)" by (auto simp: advanced_def)
  then have "advanced s self'" using s(2) by (rule ignore_line_loop_advanced)
  moreover have "string_length lc > 0"
    using assms(1) lc by (auto simp: lexer_ok_def string_length_def)
  ultimately show ?thesis
    using f True by (auto simp: moves_def advanced_def)
qed (use assms in \<open>auto simp: ignore_comment_def bnd_eq_Inr split: option.splits if_splits\<close>)

lemma collect_delimiter_moves:
  assumes "lexer_ok self" and "collect_delimiter self = Inr (b, self')"
  shows "if b then moves self self' else self' = self \<and> match_delimiter self = None"
proof (cases "match_delimiter self")
  case (Some d)
  obtain s t where s: "forward self (string_length d) = Inr s" "self' = push_token t s" "b"
    using assms(2) Some by (auto simp: collect_delimiter_def bnd_eq_Inr Let_def)
  have f: "advanced self s" "lx_cursor s = lx_cursor self + string_length d"
    using forward_advanced [OF _ s(1)] assms(1) by (auto simp: lexer_ok_def)
  moreover have "d \<in> set (lx_delimiter_list self)"
    using Some by (auto simp: match_delimiter_def find_Some_iff)
  then have "string_length d > 0"
    using assms(1) by (auto simp: lexer_ok_def string_length_def)
  ultimately show ?thesis
    using s by (auto simp: moves_def advanced_def)
qed (use assms in \<open>auto simp: collect_delimiter_def\<close>)

lemma collect_string_moves:
  assumes "lx_cursor self \<le> length (lx_string self)" and "collect_string self = Inr (b, self')"
  shows "if b then moves self self' else self' = self"
proof (cases "current_char self = CHR 0x22")
  case True
  then obtain s where s: "step (clear_buffer self) = Inr s" "collect_string_loop s = Inr (b, self')"
    using assms(2) by (auto simp: collect_string_def bnd_eq_Inr)
  have le: "lx_cursor (clear_buffer self) \<le> length (lx_string (clear_buffer self))" using assms(1) by simp
  have "advanced (clear_buffer self) s" using step_advanced [OF le s(1)] .
  then have "lx_cursor s \<le> length (lx_string s)" by (auto simp: advanced_def)
  from collect_string_loop_advanced [OF this s(2)] have "b" "advanced s self'" by blast+
  then show ?thesis
    using moves_first [OF le s(1)] by (auto simp: moves_def advanced_def)
qed (use assms in \<open>auto simp: collect_string_def\<close>)

lemma collect_generic_moves:
  assumes "lx_cursor self < length (lx_string self)" and "\<not> isspace (current_char self)"
    and "match_delimiter self = None" and "collect_generic self = Inr self'"
  shows "moves self self'"
proof -
  let ?s = "clear_buffer self"
  have s: "lx_cursor ?s \<le> length (lx_string ?s)" "\<not> isspace (current_char ?s)" "match_delimiter ?s = None"
      "\<not> lx_cursor ?s \<ge> length (lx_string ?s)"
    using assms(1-3) by (simp_all add: current_char_def current_substring_def match_delimiter_def)
  then obtain a b where ab: "collect_char ?s (current_char ?s) = Inr a" "step a = Inr b" "collect_generic_loop b = Inr self'"
    using assms(4) by (auto simp: collect_generic_def collect_generic_loop.simps [of ?s] Let_def bnd_eq_Inr)
  note c = collect_then_step [OF s(1) ab(1,2)]
  have "advanced b self'" using c(2) ab(3) by (rule collect_generic_loop_advanced)
  then show ?thesis
    using c(1,3) by (auto simp: moves_def advanced_def)
qed

lemma lexer_step_moves:
  assumes "lexer_ok self" and "\<not> is_finished self" and "lexer_step self = Inr self'"
  shows "moves self self'"
proof -
  have lt: "lx_cursor self < length (lx_string self)"
    using assms(1,2) by (simp add: lexer_ok_def is_finished_def)
  obtain b1 s1 where 1: "ignore_space self = Inr (b1, s1)"
    using assms(3) by (auto simp: lexer_step_def bnd_eq_Inr)
  obtain b2 s2 where 2: "\<not> b1 \<Longrightarrow> ignore_comment s1 = Inr (b2, s2)"
    using assms(3) 1 by (cases b1) (auto simp: lexer_step_def bnd_eq_Inr)
  obtain b3 s3 where 3: "\<not> b1 \<Longrightarrow> \<not> b2 \<Longrightarrow> collect_delimiter s2 = Inr (b3, s3)"
    using assms(3) 1 2 by (cases b1; cases b2) (auto simp: lexer_step_def bnd_eq_Inr)
  obtain b4 s4 where 4: "\<not> b1 \<Longrightarrow> \<not> b2 \<Longrightarrow> \<not> b3 \<Longrightarrow>
      (if lx_enable_string s3 then collect_string s3 else Inr (False, s3)) = Inr (b4, s4)"
    using assms(3) 1 2 3 by (cases b1; cases b2; cases b3) (auto simp: lexer_step_def bnd_eq_Inr)
  have r: "(if b1 then s1 = self' else if b2 then s2 = self' else if b3 then s3 = self' else
      if b4 then s4 = self' else collect_generic s4 = Inr self')"
    using assms(3) 1 2 3 4 by (auto simp: lexer_step_def bnd_eq_Inr)
  have m1: "if b1 then moves self s1 else s1 = self \<and> \<not> isspace (current_char self)"
    using ignore_space_moves [OF lt 1] .
  show ?thesis
  proof (cases b1)
    case True
    then show ?thesis using m1 r by simp
  next
    case b1: False
    then have s1: "s1 = self" "\<not> isspace (current_char self)" using m1 by simp_all
    have m2: "if b2 then moves self s2 else s2 = self"
      using ignore_comment_moves [OF assms(1)] 2 b1 s1 by simp
    show ?thesis
    proof (cases b2)
      case True
      then show ?thesis using m2 r b1 by simp
    next
      case b2: False
      have m3: "if b3 then moves self s3 else s3 = self \<and> match_delimiter self = None"
        using collect_delimiter_moves [OF assms(1)] 3 b1 b2 m2 by simp
      show ?thesis
      proof (cases b3)
        case True
        then show ?thesis using m3 r b1 b2 by simp
      next
        case b3: False
        have m4: "if b4 then moves self s4 else s4 = self"
          using collect_string_moves [of self b4 s4] 4 b1 b2 b3 m3 lt by (auto split: if_splits)
        then show ?thesis
          using collect_generic_moves [OF lt s1(2)] r b1 b2 b3 m3 by (cases b4) auto
      qed
    qed
  qed
qed

text \<open>So the lexer always returns, with tokens or with a failure.\<close>

lemma lexer_ok_moves: "lexer_ok self \<Longrightarrow> moves self self' \<Longrightarrow> lexer_ok self'"
  by (auto simp: lexer_ok_def moves_def advanced_def)

lemma lexer_loop_returns:
  "lexer_ok self \<Longrightarrow> \<exists>r. lexer_loop self = Some r"
proof (induction "length (lx_string self) - lx_cursor self" arbitrary: self rule: less_induct)
  case less
  show ?case
  proof (cases "is_finished self")
    case True
    then show ?thesis by (subst lexer_loop.simps) simp
  next
    case False
    show ?thesis
    proof (cases "lexer_step self")
      case (Inl e)
      then show ?thesis using False by (subst lexer_loop.simps) simp
    next
      case (Inr s)
      have m: "moves self s" using less.prems False Inr by (rule lexer_step_moves)
      then have "length (lx_string s) - lx_cursor s < length (lx_string self) - lx_cursor self"
        by (auto simp: moves_def advanced_def)
      from less.hyps [OF this lexer_ok_moves [OF less.prems m]] show ?thesis
        using False Inr by (subst lexer_loop.simps) simp
    qed
  qed
qed

lemma lexer_run_returns:
  assumes "lx_line_comment self \<noteq> Some []" and "[] \<notin> set (lx_delimiter_list self)"
  shows "\<exists>r. lexer_run ops self = Some r"
proof -
  have "lexer_ok ((lexer_init self)\<lparr>lx_token_list := []\<rparr>)"
    using assms by (simp add: lexer_ok_def lexer_init_def)
  then obtain r where r: "lexer_loop ((lexer_init self)\<lparr>lx_token_list := []\<rparr>) = Some r"
    using lexer_loop_returns by blast
  show ?thesis
  proof (cases r)
    case (Inl e)
    then show ?thesis using r by (simp add: lexer_run_def)
  next
    case (Inr s)
    then show ?thesis using r
      by (cases "if lx_enable_int s then postprocess_int (lx_token_list s) else Inr (lx_token_list s)")
        (simp_all add: lexer_run_def)
  qed
qed

text \<open>The length assertion of the buffer never fails: the write past the end comes first.\<close>

lemma collect_char_overflow:
  assumes "length (lx_buffer self) = MAX_TOKEN_LENGTH"
  shows "collect_char self c = Inl Undefined"
  using assms by (simp add: collect_char_def)

lemma collect_char_never_asserts: "collect_char self c \<noteq> Inl Assert_failed"
  by (simp add: collect_char_def defined_when_def asserting_def)

end
