(* ===== verification/Sexp.thy ===== *)
theory Sexp
  imports Lexer
begin

text \<open>
  S-expressions (\<open>src/src/packages/std/sexp/sexp.c\<close>): the parser over the tokens of the lexer, the
  printer and the accessors. The list of tokens that \<open>list_shift\<close> consumes is passed on; the
  parser compares the string of a token and not its kind.
\<close>

datatype sexp =
    Atom_sexp token
  | List_sexp token "token option" "sexp list"

definition atom_sexp_new :: "token \<Rightarrow> sexp" where
  "atom_sexp_new token = Atom_sexp token"

definition list_sexp_new :: "token \<Rightarrow> token option \<Rightarrow> sexp list \<Rightarrow> sexp" where
  "list_sexp_new start_token end_token sexp_list = List_sexp start_token end_token sexp_list"

section \<open>Parsing\<close>

text \<open>\<open>list_shift\<close> on a list of tokens: NULL when it is empty.\<close>

definition shift_token :: "token list \<Rightarrow> token option \<times> token list" where
  "shift_token tokens = (case tokens of [] \<Rightarrow> (None, []) | token # tokens \<Rightarrow> (Some token, tokens))"

function (sequential) parse_sexp :: "token list \<Rightarrow> (sexp \<times> token list) res"
  and parse_list :: "token list \<Rightarrow> (sexp list \<times> token list) res" where
  "parse_sexp [] = Inl Undefined"
| "parse_sexp (token # token_list) =
     (if string_equal (tok_string token) ''(''
      then bnd (parse_list token_list) (\<lambda>(sexp_list, token_list).
             let (end_token, token_list) = shift_token token_list
             in Inr (list_sexp_new token end_token sexp_list, token_list))
      else Inr (atom_sexp_new token, token_list))"
| "parse_list [] = Inr ([], [])"
| "parse_list (token # token_list) =
     (if string_equal (tok_string token) '')'' then Inr ([], token # token_list)
      else bnd (parse_sexp (token # token_list)) (\<lambda>(sexp, token_list).
             bnd (parse_list token_list) (\<lambda>(sexp_list, token_list).
               Inr (sexp # sexp_list, token_list))))"
  by pat_completeness auto

lemma parse_consumes:
  "parse_sexp_parse_list_dom (Inl ts) \<Longrightarrow> parse_sexp ts = Inr (s, rest) \<Longrightarrow> length rest < length ts"
  "parse_sexp_parse_list_dom (Inr ts) \<Longrightarrow> parse_list ts = Inr (ss, rest) \<Longrightarrow> length rest \<le> length ts"
proof (induction ts and ts arbitrary: s rest and ss rest rule: parse_sexp_parse_list.pinduct)
  case 1
  then show ?case by (simp add: parse_sexp.psimps)
next
  case (2 token token_list)
  show ?case
  proof (cases "string_equal (tok_string token) ''(''")
    case True
    then obtain ss ts where p: "parse_list token_list = Inr (ss, ts)"
      using 2(1,3) by (auto simp: parse_sexp.psimps bnd_eq_Inr)
    then have r: "rest = snd (shift_token ts)"
      using 2(1,3) True by (cases "shift_token ts") (simp add: parse_sexp.psimps)
    have "length ts \<le> length token_list" using 2(2) [OF True p] .
    then show ?thesis using r by (simp add: shift_token_def split: list.splits)
  qed (use 2 in \<open>auto simp: parse_sexp.psimps\<close>)
next
  case 3
  then show ?case by (simp add: parse_list.psimps)
next
  case (4 token token_list)
  show ?case
  proof (cases "string_equal (tok_string token) '')''")
    case False
    then obtain sexp ts ss' where p: "parse_sexp (token # token_list) = Inr (sexp, ts)"
        "parse_list ts = Inr (ss', rest)"
      using 4 by (auto simp: parse_list.psimps bnd_eq_Inr)
    have "length ts < length (token # token_list)" using 4(2) [OF False p(1)] .
    moreover have "length rest \<le> length ts" using 4(3) [OF False p(1) refl p(2)] .
    ultimately show ?thesis by simp
  qed (use 4 in \<open>auto simp: parse_list.psimps\<close>)
qed

termination parse_sexp
proof (relation "measure (\<lambda>x. case x of Inl ts \<Rightarrow> 2 * length ts | Inr ts \<Rightarrow> Suc (2 * length ts))")
  fix token :: token and token_list :: "token list" and x sexp token_list'
  assume "parse_sexp_parse_list_dom (Inl (token # token_list))"
    and "parse_sexp (token # token_list) = Inr x" and "(sexp, token_list') = x"
  then have "length token_list' < length (token # token_list)"
    using parse_consumes(1) by metis
  then show "(Inr token_list', Inr (token # token_list)) \<in>
      measure (\<lambda>x. case x of Inl ts \<Rightarrow> 2 * length ts | Inr ts \<Rightarrow> Suc (2 * length ts))"
    by simp
qed simp_all

definition sexp_lexer :: "string \<Rightarrow> lexer" where
  "sexp_lexer s =
     (lexer_add_delimiter (lexer_add_delimiter
       (lexer_new\<lparr>lx_line_comment := Some '';'', lx_enable_int := True, lx_enable_float := True,
          lx_enable_string := True\<rparr>) ''('') '')'')\<lparr>lx_string := s\<rparr>"

definition sexp_parse_list :: "double_parser \<Rightarrow> string \<Rightarrow> sexp list loop" where
  "sexp_parse_list ops s =
     lbnd (lexer_run ops (sexp_lexer s)) (\<lambda>lexer.
     lbnd (Some (parse_list (lx_token_list lexer))) (\<lambda>(result, token_list).
       Some (asserting (token_list = []) (Inr result))))"

definition sexp_parse :: "double_parser \<Rightarrow> string \<Rightarrow> sexp option loop" where
  "sexp_parse ops s =
     lbnd (sexp_parse_list ops s) (\<lambda>sexp_list.
       Some (Inr (case sexp_list of [] \<Rightarrow> None | sexp # _ \<Rightarrow> Some sexp)))"

section \<open>Printing\<close>

definition atom_sexp_print :: "token \<Rightarrow> string" where
  "atom_sexp_print token =
     (if tok_kind token = STRING_TOKEN then [CHR 0x22] @ tok_string token @ [CHR 0x22]
      else tok_string token)"

text \<open>The elements of a list are printed with a space between them.\<close>

fun print_separated :: "string list \<Rightarrow> string" where
  "print_separated [] = []"
| "print_separated [s] = s"
| "print_separated (s # t # ss) = s @ '' '' @ print_separated (t # ss)"

fun sexp_print :: "sexp \<Rightarrow> string" where
  "sexp_print (Atom_sexp token) = atom_sexp_print token"
| "sexp_print (List_sexp _ _ sexp_list) = ''('' @ print_separated (map sexp_print sexp_list) @ '')''"

section \<open>Access\<close>

definition is_atom_sexp :: "sexp \<Rightarrow> bool" where
  "is_atom_sexp self = (case self of Atom_sexp _ \<Rightarrow> True | List_sexp _ _ _ \<Rightarrow> False)"

definition is_list_sexp :: "sexp \<Rightarrow> bool" where
  "is_list_sexp self = (case self of Atom_sexp _ \<Rightarrow> False | List_sexp _ _ _ \<Rightarrow> True)"

definition as_atom_sexp :: "sexp \<Rightarrow> token res" where
  "as_atom_sexp self = (case self of Atom_sexp token \<Rightarrow> Inr token | List_sexp _ _ _ \<Rightarrow> Inl Assert_failed)"

definition as_list_sexp :: "sexp \<Rightarrow> (token \<times> token option \<times> sexp list) res" where
  "as_list_sexp self = (case self of Atom_sexp _ \<Rightarrow> Inl Assert_failed | List_sexp a b ss \<Rightarrow> Inr (a, b, ss))"

definition sexp_token :: "sexp \<Rightarrow> token res" where
  "sexp_token self = as_atom_sexp self"

definition sexp_string :: "sexp \<Rightarrow> string res" where
  "sexp_string self = bnd (as_atom_sexp self) (\<lambda>token. Inr (tok_string token))"

definition sexp_sexp_list :: "sexp \<Rightarrow> sexp list res" where
  "sexp_sexp_list self = bnd (as_list_sexp self) (\<lambda>(_, _, sexp_list). Inr sexp_list)"

definition sexp_starts_with :: "sexp \<Rightarrow> string \<Rightarrow> bool" where
  "sexp_starts_with self s =
     (case self of
        Atom_sexp _ \<Rightarrow> False
      | List_sexp _ _ [] \<Rightarrow> False
      | List_sexp _ _ (List_sexp _ _ _ # _) \<Rightarrow> False
      | List_sexp _ _ (Atom_sexp token # _) \<Rightarrow> string_equal (tok_string token) s)"

section \<open>The parser loses no token\<close>

fun tokens_of :: "sexp \<Rightarrow> token list" where
  "tokens_of (Atom_sexp token) = [token]"
| "tokens_of (List_sexp start_token end_token sexp_list) =
     start_token # concat (map tokens_of sexp_list) @ (case end_token of None \<Rightarrow> [] | Some t \<Rightarrow> [t])"

definition closes :: "token list \<Rightarrow> bool" where
  "closes ts \<longleftrightarrow> (case ts of [] \<Rightarrow> True | t # _ \<Rightarrow> tok_string t = '')'')"

lemma parse_tokens:
  "ts \<noteq> [] \<Longrightarrow> \<exists>s rest. parse_sexp ts = Inr (s, rest) \<and> ts = tokens_of s @ rest"
  "\<exists>ss rest. parse_list ts = Inr (ss, rest) \<and> ts = concat (map tokens_of ss) @ rest \<and> closes rest"
proof (induction ts and ts rule: parse_sexp_parse_list.induct)
  case 1
  then show ?case by simp
next
  case (2 token token_list)
  show ?case
  proof (cases "string_equal (tok_string token) ''(''")
    case True
    from 2(1) [OF this] obtain ss rest where p: "parse_list token_list = Inr (ss, rest)"
        "token_list = concat (map tokens_of ss) @ rest" by blast
    with True show ?thesis
      by (cases rest) (auto simp: shift_token_def list_sexp_new_def)
  qed (simp add: atom_sexp_new_def)
next
  case 3
  then show ?case by (auto simp: closes_def)
next
  case (4 token token_list)
  show ?case
  proof (cases "string_equal (tok_string token) '')''")
    case True
    then show ?thesis by (auto simp: closes_def string_equal_def)
  next
    case False
    from 4(1) [OF this] obtain s ts where s: "parse_sexp (token # token_list) = Inr (s, ts)"
        "token # token_list = tokens_of s @ ts" by blast
    from 4(2) [OF False s(1) refl] obtain ss rest where "parse_list ts = Inr (ss, rest)"
        "ts = concat (map tokens_of ss) @ rest" "closes rest" by blast
    moreover from this(1) have "parse_list (token # token_list) = Inr (s # ss, rest)"
      using False s(1) by simp
    ultimately show ?thesis using s(2) by (intro exI [of _ "s # ss"] exI [of _ rest]) simp
  qed
qed

text \<open>So the whole input parses unless a closing parenthesis is left over.\<close>

lemma parse_list_whole:
  "\<exists>ss rest. parse_list ts = Inr (ss, rest) \<and> (rest = [] \<longleftrightarrow> ts = concat (map tokens_of ss))"
  using parse_tokens(2) [of ts] by auto

section \<open>Parsing what was printed\<close>

text \<open>The shape of an expression: its words and groups, without the positions of the tokens.\<close>

datatype shape = Word string | Group "shape list"

fun shape_of :: "sexp \<Rightarrow> shape" where
  "shape_of (Atom_sexp token) = Word (tok_string token)"
| "shape_of (List_sexp _ _ sexp_list) = Group (map shape_of sexp_list)"

fun spell :: "shape \<Rightarrow> string list" where
  "spell (Word w) = [w]"
| "spell (Group gs) = ''('' # concat (map spell gs) @ ['')'']"

fun print_shape :: "shape \<Rightarrow> string" where
  "print_shape (Word w) = w"
| "print_shape (Group gs) = ''('' @ print_separated (map print_shape gs) @ '')''"

text \<open>A word that the lexer reads back as one generic token.\<close>

definition plain_char :: "char \<Rightarrow> bool" where
  "plain_char c \<longleftrightarrow> \<not> isspace c \<and> c \<noteq> CHR ''('' \<and> c \<noteq> CHR '')'' \<and> c \<noteq> CHR 0x00"

definition plain_word :: "string \<Rightarrow> bool" where
  "plain_word w \<longleftrightarrow> w \<noteq> [] \<and> (\<forall>c \<in> set w. plain_char c) \<and> hd w \<noteq> CHR '';'' \<and> hd w \<noteq> CHR 0x22 \<and>
     length w \<le> MAX_TOKEN_LENGTH \<and> (string_is_xint w \<longrightarrow> (\<exists>i. string_parse_xint w = Inr i))"

fun plain_shape :: "shape \<Rightarrow> bool" where
  "plain_shape (Word w) \<longleftrightarrow> plain_word w"
| "plain_shape (Group gs) \<longleftrightarrow> (\<forall>g \<in> set gs. plain_shape g)"

fun no_string_token :: "sexp \<Rightarrow> bool" where
  "no_string_token (Atom_sexp token) \<longleftrightarrow> tok_kind token \<noteq> STRING_TOKEN"
| "no_string_token (List_sexp _ _ sexp_list) \<longleftrightarrow> (\<forall>s \<in> set sexp_list. no_string_token s)"

lemma sexp_print_shape: "no_string_token s \<Longrightarrow> sexp_print s = print_shape (shape_of s)"
proof (induction s)
  case (List_sexp a b ss)
  then have "map sexp_print ss = map print_shape (map shape_of ss)" by simp
  then show ?case by (simp only: sexp_print.simps shape_of.simps print_shape.simps)
qed (simp add: atom_sexp_print_def)

lemma plain_wordD:
  assumes "plain_word w"
  shows "w \<noteq> []" and "\<forall>c \<in> set w. plain_char c" and "hd w \<noteq> CHR '';''" and "hd w \<noteq> CHR 0x22"
    and "length w \<le> MAX_TOKEN_LENGTH"
  using assms unfolding plain_word_def by blast+

lemma plain_word_not_paren: "plain_word w \<Longrightarrow> w \<noteq> ''('' \<and> w \<noteq> '')''"
proof -
  assume "plain_word w"
  then have "\<forall>c \<in> set w. plain_char c" by (rule plain_wordD)
  moreover have "\<not> plain_char (CHR ''('')" "\<not> plain_char (CHR '')'')"
    by (simp_all add: plain_char_def)
  ultimately show ?thesis by (metis list.set_intros(1))
qed

lemma parse_spelled_group:
  assumes IH: "\<And>g ts rs. g \<in> set gs \<Longrightarrow> map tok_string ts = spell g @ rs \<Longrightarrow>
      \<exists>s rest. parse_sexp ts = Inr (s, rest) \<and> shape_of s = g \<and> map tok_string rest = rs"
    and plain: "\<forall>g \<in> set gs. plain_shape g"
    and "map tok_string ts = concat (map spell gs) @ rs" and "rs = [] \<or> hd rs = '')''"
  shows "\<exists>ss rest. parse_list ts = Inr (ss, rest) \<and> map shape_of ss = gs \<and> map tok_string rest = rs"
  using assms
proof (induction gs arbitrary: ts)
  case Nil
  then show ?case by (cases ts) (auto simp: string_equal_def)
next
  case (Cons g gs)
  have "\<exists>s rest. parse_sexp ts = Inr (s, rest) \<and> shape_of s = g \<and>
      map tok_string rest = concat (map spell gs) @ rs"
    using Cons.prems(3) by (intro Cons.prems(1)) simp_all
  then obtain s rest where s: "parse_sexp ts = Inr (s, rest)" "shape_of s = g"
      "map tok_string rest = concat (map spell gs) @ rs" by blast
  have "\<exists>ss rest'. parse_list rest = Inr (ss, rest') \<and> map shape_of ss = gs \<and> map tok_string rest' = rs"
    using Cons.prems(1,2,4) s(3) by (intro Cons.IH) auto
  then obtain ss rest' where ss: "parse_list rest = Inr (ss, rest')" "map shape_of ss = gs"
      "map tok_string rest' = rs" by blast
  obtain t ts' where t: "ts = t # ts'" using s(1) by (cases ts) auto
  have "tok_string t \<noteq> '')''"
    using Cons.prems(2,3) t plain_word_not_paren by (cases g) auto
  then show ?case
    using s ss t by (simp add: string_equal_def)
qed

lemma parse_spelled:
  "plain_shape g \<Longrightarrow> map tok_string ts = spell g @ rs \<Longrightarrow>
     \<exists>s rest. parse_sexp ts = Inr (s, rest) \<and> shape_of s = g \<and> map tok_string rest = rs"
proof (induction g arbitrary: ts rs)
  case (Word w)
  then obtain t ts' where "ts = t # ts'" "tok_string t = w" "map tok_string ts' = rs" by auto
  with plain_word_not_paren Word.prems(1) show ?case
    by (auto simp: string_equal_def atom_sexp_new_def)
next
  case (Group gs)
  then obtain t ts' where t: "ts = t # ts'" "tok_string t = ''(''"
      "map tok_string ts' = concat (map spell gs) @ ('')'' # rs)" by auto
  obtain ss rest where ss: "parse_list ts' = Inr (ss, rest)" "map shape_of ss = gs" "map tok_string rest = '')'' # rs"
    using parse_spelled_group [of gs ts' "'')'' # rs"] Group.IH Group.prems(1) t(3) by auto
  then show ?case
    using t by (cases rest) (auto simp: string_equal_def shift_token_def list_sexp_new_def)
qed

section \<open>Lexing what was printed\<close>

text \<open>
  \<open>reading s r ws\<close>: a lexer set up as the parser does, that has still to read \<open>r\<close> and has
  collected tokens with the strings \<open>ws\<close>, none of them a string token.
\<close>

definition unread_kind :: "token \<Rightarrow> bool" where
  "unread_kind t \<longleftrightarrow>
     (if tok_string t \<in> {''('', '')''} then tok_kind t = DELIMITER_TOKEN else tok_kind t = GENERIC_TOKEN)"

definition reading :: "lexer \<Rightarrow> string \<Rightarrow> string list \<Rightarrow> bool" where
  "reading self r ws \<longleftrightarrow> lx_cursor self \<le> length (lx_string self) \<and> current_substring self = r \<and>
     map tok_string (lx_token_list self) = ws \<and> lx_line_comment self = Some '';'' \<and>
     lx_delimiter_list self = [''('', '')''] \<and> lx_enable_string self \<and> lx_enable_int self \<and>
     lx_enable_float self \<and> list_all unread_kind (lx_token_list self)"

lemma reading_finished: "reading self r ws \<Longrightarrow> is_finished self \<longleftrightarrow> r = []"
  by (auto simp: reading_def is_finished_def current_substring_def)

lemma reading_char: "reading self (c # r) ws \<Longrightarrow> current_char self = c"
  by (simp add: reading_def current_char_def)

lemma drop_Suc_Cons: "drop n s = c # r \<Longrightarrow> drop (Suc n) s = r \<and> n < length s"
  by (metis drop_all drop_Suc list.distinct(1) list.sel(3) not_less tl_drop)

lemma reading_step:
  assumes "reading self (c # r) ws"
  shows "\<exists>s. step self = Inr s \<and> reading s r ws \<and> lx_buffer s = lx_buffer self"
proof -
  have "\<not> is_finished self" using reading_finished [OF assms] by simp
  then obtain s where s: "step self = Inr s" by (simp add: step_def Let_def)
  have "drop (lx_cursor self) (lx_string self) = c # r"
    using assms by (simp add: reading_def current_substring_def)
  from drop_Suc_Cons [OF this] step_Inr [OF s] assms have "reading s r ws"
    by (simp add: reading_def current_substring_def)
  then show ?thesis using s step_Inr [OF s] by blast
qed

lemma match_delimiter_reading:
  "reading self (c # r) ws \<Longrightarrow>
     match_delimiter self = (if c = CHR ''('' then Some ''('' else if c = CHR '')'' then Some '')'' else None)"
  by (simp add: reading_def match_delimiter_def string_starts_with_def)

lemma match_delimiter_end: "reading self [] ws \<Longrightarrow> match_delimiter self = None"
  by (simp add: reading_def match_delimiter_def string_starts_with_def)

lemma reading_space:
  assumes "reading self (CHR '' '' # r) ws" and "r \<noteq> [] \<longrightarrow> \<not> isspace (hd r)"
  shows "\<exists>s. lexer_step self = Inr s \<and> reading s r ws"
proof -
  obtain s where s: "step self = Inr s" "reading s r ws" using reading_step [OF assms(1)] by blast
  have sp: "isspace (current_char self)"
    using reading_char [OF assms(1)] by (simp add: isspace_def char_code_def)
  have "ignore_space_loop s = Inr s"
  proof (cases r)
    case Nil
    then show ?thesis using s(2)
      by (subst ignore_space_loop.simps) (simp add: reading_def current_substring_def)
  next
    case (Cons c r')
    then show ?thesis using reading_char [of s c r' ws] s(2) assms(2)
      by (subst ignore_space_loop.simps) simp
  qed
  moreover have "lx_cursor self < length (lx_string self)"
    using reading_finished [OF assms(1)] assms(1) by (simp add: reading_def is_finished_def)
  ultimately have "ignore_space_loop self = Inr s"
    using sp s(1) by (subst ignore_space_loop.simps) simp
  then show ?thesis
    using sp s(2) by (auto simp: lexer_step_def ignore_space_def)
qed

lemma not_comment:
  "reading self (c # r) ws \<Longrightarrow> c \<noteq> CHR '';'' \<Longrightarrow> ignore_comment self = Inr (False, self)"
  by (simp add: reading_def ignore_comment_def string_starts_with_def)

lemma reading_paren:
  assumes "reading self (c # r) ws" and "c = CHR ''('' \<or> c = CHR '')''"
  shows "\<exists>s. lexer_step self = Inr s \<and> reading s r (ws @ [[c]])"
proof -
  obtain s where s: "step self = Inr s" "reading s r ws" using reading_step [OF assms(1)] by blast
  have "\<not> isspace c" "c \<noteq> CHR '';''"
    using assms(2) by (auto simp: isspace_def char_code_def)
  moreover have "match_delimiter self = Some [c]"
    using match_delimiter_reading [OF assms(1)] assms(2) by auto
  ultimately have "lexer_step self = Inr (push_token (token_new [c] DELIMITER_TOKEN (lx_cursor self)
      (lx_cursor self + 1) (lx_lineno s) (lx_column s)) s)"
    using s(1) not_comment [OF assms(1)] reading_char [OF assms(1)]
    by (simp add: lexer_step_def ignore_space_def collect_delimiter_def string_length_def string_copy_def)
  moreover have "reading (push_token (token_new [c] DELIMITER_TOKEN i j k l) s) r (ws @ [[c]])" for i j k l
    using s(2) assms(2)
    by (auto simp: reading_def push_token_def token_new_def current_substring_def unread_kind_def)
  ultimately show ?thesis by blast
qed

definition boundary :: "string \<Rightarrow> bool" where
  "boundary r \<longleftrightarrow> (case r of [] \<Rightarrow> True | c # _ \<Rightarrow> c = CHR '' '' \<or> c = CHR ''('' \<or> c = CHR '')'')"

lemma reading_buffer: "reading (self\<lparr>lx_buffer := b\<rparr>) r ws = reading self r ws"
  by (simp add: reading_def current_substring_def)

lemma reading_generic_loop:
  assumes "reading self (w @ r) ws" and "\<forall>c \<in> set w. plain_char c" and "boundary r"
    and "length (lx_buffer self) + length w \<le> MAX_TOKEN_LENGTH" and "CHR 0x00 \<notin> set (lx_buffer self)"
    and "lx_buffer self @ w \<notin> {''('', '')''}"
  shows "\<exists>s. collect_generic_loop self = Inr s \<and> reading s r (ws @ [lx_buffer self @ w])"
  using assms
proof (induction w arbitrary: self)
  case Nil
  have "isspace (current_char self) \<or> match_delimiter self \<noteq> None \<or> lx_cursor self \<ge> length (lx_string self)"
  proof (cases r)
    case Nil
    then show ?thesis using Nil.prems(1) reading_finished [of self "[]" ws] by (simp add: is_finished_def)
  next
    case (Cons c r')
    then show ?thesis
      using Nil.prems(1,3) reading_char [of self c r' ws] match_delimiter_reading [of self c r' ws]
      by (auto simp: boundary_def isspace_def char_code_def)
  qed
  then have "collect_generic_loop self = Inr (push_buffer_token GENERIC_TOKEN self)"
    by (subst collect_generic_loop.simps) (auto simp: Let_def)
  moreover have "buffer_string self = lx_buffer self"
    using Nil.prems(5) by (auto simp: buffer_string_def takeWhile_eq_all_conv)
  then have "reading (push_buffer_token GENERIC_TOKEN self) r (ws @ [lx_buffer self @ []])"
    using Nil.prems(1,6)
    by (simp add: reading_def push_buffer_token_def clear_buffer_def push_token_def token_new_def
      current_substring_def Let_def unread_kind_def)
  ultimately show ?case by blast
next
  case (Cons c w)
  have pc: "\<not> isspace c" "c \<noteq> CHR ''(''" "c \<noteq> CHR '')''" "c \<noteq> CHR 0x00"
    using Cons.prems(2) by (auto simp: plain_char_def)
  have rd: "reading self (c # (w @ r)) ws" using Cons.prems(1) by simp
  let ?a = "self\<lparr>lx_buffer := lx_buffer self @ [c]\<rparr>"
  have a: "collect_char self c = Inr ?a"
    using Cons.prems(4) by (simp add: collect_char_def Let_def)
  obtain s where s: "step ?a = Inr s" "reading s (w @ r) ws" "lx_buffer s = lx_buffer ?a"
    using reading_step [of ?a c "w @ r" ws] rd by (auto simp: reading_buffer)
  have "\<not> (isspace (current_char self) \<or> match_delimiter self \<noteq> None \<or> lx_cursor self \<ge> length (lx_string self))"
    using pc reading_char [OF rd] match_delimiter_reading [OF rd] reading_finished [OF rd] rd
    by (auto simp: is_finished_def reading_def)
  then have "collect_generic_loop self = collect_generic_loop s"
    using a s(1) reading_char [OF rd] by (subst collect_generic_loop.simps) (simp add: Let_def)
  moreover have "\<exists>t. collect_generic_loop s = Inr t \<and> reading t r (ws @ [lx_buffer s @ w])"
    using Cons.prems s pc by (intro Cons.IH) auto
  ultimately show ?case using s(3) by simp
qed

lemma reading_word:
  assumes "reading self (w @ r) ws" and "plain_word w" and "boundary r"
  shows "\<exists>s. lexer_step self = Inr s \<and> reading s r (ws @ [w])"
proof -
  have w: "w \<noteq> []" "\<forall>c \<in> set w. plain_char c" "hd w \<noteq> CHR '';''" "hd w \<noteq> CHR 0x22"
      "length w \<le> MAX_TOKEN_LENGTH"
    using plain_wordD [OF assms(2)] .
  then obtain c w' where cw: "w = c # w'" by (cases w) auto
  have rd: "reading self (c # (w' @ r)) ws" using assms(1) cw by simp
  have c: "\<not> isspace c" "c \<noteq> CHR ''(''" "c \<noteq> CHR '')''" "c \<noteq> CHR '';''" "c \<noteq> CHR 0x22"
    using w cw by (auto simp: plain_char_def)
  have "reading (clear_buffer self) (w @ r) ws"
    using assms(1) by (simp add: reading_def current_substring_def clear_buffer_def)
  from reading_generic_loop [OF this w(2) assms(3)] w(5) plain_word_not_paren [OF assms(2)]
  obtain s where "collect_generic_loop (clear_buffer self) = Inr s" "reading s r (ws @ [w])" by auto
  then show ?thesis
    using c reading_char [OF rd] not_comment [OF rd] match_delimiter_reading [OF rd]
    by (auto simp: lexer_step_def ignore_space_def collect_delimiter_def collect_string_def collect_generic_def)
qed

text \<open>Reading on: from a state the loop comes to the same result as from a later one.\<close>

definition reads_on :: "lexer \<Rightarrow> string \<Rightarrow> string list \<Rightarrow> bool" where
  "reads_on self r ws \<longleftrightarrow> (\<exists>s. lexer_loop self = lexer_loop s \<and> reading s r ws)"

lemma reads_on_refl: "reading self r ws \<Longrightarrow> reads_on self r ws"
  by (auto simp: reads_on_def)

lemma reads_on_step:
  "\<not> is_finished self \<Longrightarrow> lexer_step self = Inr s \<Longrightarrow> reads_on s r ws \<Longrightarrow> reads_on self r ws"
  unfolding reads_on_def by (subst lexer_loop.simps) simp

lemma reads_on_trans:
  "reads_on self r ws \<Longrightarrow> (\<And>s. reading s r ws \<Longrightarrow> reads_on s r' ws') \<Longrightarrow> reads_on self r' ws'"
  unfolding reads_on_def by metis

lemma reads_paren:
  "reading self (c # r) ws \<Longrightarrow> c = CHR ''('' \<or> c = CHR '')'' \<Longrightarrow> reads_on self r (ws @ [[c]])"
  using reading_paren reading_finished by (metis list.distinct(1) reads_on_refl reads_on_step)

lemma reads_space:
  "reading self (CHR '' '' # r) ws \<Longrightarrow> r \<noteq> [] \<longrightarrow> \<not> isspace (hd r) \<Longrightarrow> reads_on self r ws"
  using reading_space reading_finished by (metis list.distinct(1) reads_on_refl reads_on_step)

lemma reads_word:
  assumes "reading self (w @ r) ws" and "plain_word w" and "boundary r"
  shows "reads_on self r (ws @ [w])"
proof -
  have "w \<noteq> []" using plain_wordD(1) [OF assms(2)] .
  then have "\<not> is_finished self" using reading_finished [OF assms(1)] by simp
  with reading_word [OF assms] show ?thesis using reads_on_refl reads_on_step by blast
qed

lemma print_shape_head:
  "plain_shape g \<Longrightarrow> print_shape g \<noteq> [] \<and> \<not> isspace (hd (print_shape g))"
proof (cases g)
  case (Word w)
  assume "plain_shape g"
  then have "plain_word w" using Word by simp
  from plain_wordD(1,2) [OF this] Word show ?thesis by (cases w) (auto simp: plain_char_def)
qed (simp add: isspace_def char_code_def)

lemma reads_separated:
  assumes "\<And>g self r ws. g \<in> set gs \<Longrightarrow> reading self (print_shape g @ r) ws \<Longrightarrow> boundary r \<Longrightarrow>
      reads_on self r (ws @ spell g)"
    and "\<forall>g \<in> set gs. plain_shape g" and "boundary r"
    and "reading self (print_separated (map print_shape gs) @ r) ws"
  shows "reads_on self r (ws @ concat (map spell gs))"
  using assms
proof (induction gs arbitrary: self ws)
  case Nil
  then show ?case by (simp add: reads_on_refl)
next
  case (Cons g gs)
  show ?case
  proof (cases gs)
    case Nil
    with Cons.prems(4) have "reading self (print_shape g @ r) ws" by simp
    with Cons.prems(1) [of g] Cons.prems(3) Nil show ?thesis by simp
  next
    case (Cons h hs)
    let ?m = "print_separated (map print_shape gs) @ r"
    have "reading self (print_shape g @ (CHR '' '' # ?m)) ws"
      using Cons.prems(4) Cons by simp
    then have 1: "reads_on self (CHR '' '' # ?m) (ws @ spell g)"
      using Cons.prems(1) [of g] by (simp add: boundary_def)
    have "?m \<noteq> [] \<longrightarrow> \<not> isspace (hd ?m)"
      using print_shape_head [of h] Cons.prems(2) Cons by (cases hs) auto
    then have 2: "reads_on s ?m (ws @ spell g)" if "reading s (CHR '' '' # ?m) (ws @ spell g)" for s
      using that reads_space by blast
    have 3: "reads_on s r ((ws @ spell g) @ concat (map spell gs))" if "reading s ?m (ws @ spell g)" for s
      using Cons.prems(1,2,3) that by (intro Cons.IH) auto
    show ?thesis
      using reads_on_trans [OF reads_on_trans [OF 1 2] 3] by simp
  qed
qed

lemma reads_shape:
  "plain_shape g \<Longrightarrow> reading self (print_shape g @ r) ws \<Longrightarrow> boundary r \<Longrightarrow> reads_on self r (ws @ spell g)"
proof (induction g arbitrary: self r ws)
  case (Word w)
  then show ?case using reads_word by simp
next
  case (Group gs)
  let ?m = "print_separated (map print_shape gs)"
  have "reading self (CHR ''('' # (?m @ CHR '')'' # r)) ws"
    using Group.prems(2) by simp
  then have 1: "reads_on self (?m @ CHR '')'' # r) (ws @ [''(''])"
    by (intro reads_paren) simp_all
  have 2: "reads_on s (CHR '')'' # r) ((ws @ [''('']) @ concat (map spell gs))"
    if "reading s (?m @ CHR '')'' # r) (ws @ [''(''])" for s
    using that Group by (intro reads_separated) (auto simp: boundary_def)
  have 3: "reads_on s r (((ws @ [''('']) @ concat (map spell gs)) @ ['')''])"
    if "reading s (CHR '')'' # r) ((ws @ [''('']) @ concat (map spell gs))" for s
    using that by (intro reads_paren) simp_all
  show ?case
    using reads_on_trans [OF reads_on_trans [OF 1 2] 3] by simp
qed

lemma postprocess_int_strings:
  "(\<And>t. t \<in> set ts \<Longrightarrow> string_is_xint (tok_string t) \<Longrightarrow> \<exists>i. string_parse_xint (tok_string t) = Inr i) \<Longrightarrow>
     \<exists>ts'. postprocess_int ts = Inr ts' \<and> map tok_string ts' = map tok_string ts"
proof (induction ts)
  case (Cons t ts)
  from Cons.IH Cons.prems obtain ts' where "postprocess_int ts = Inr ts'" "map tok_string ts' = map tok_string ts"
    by auto
  with Cons.prems [of t] show ?case by auto
qed simp

lemma postprocess_float_strings: "map tok_string (postprocess_float ops ts) = map tok_string ts"
  by (simp add: postprocess_float_def float_token_def)

lemma spell_parses:
  "plain_shape g \<Longrightarrow> w \<in> set (spell g) \<Longrightarrow> string_is_xint w \<Longrightarrow> \<exists>i. string_parse_xint w = Inr i"
proof (induction g)
  case (Word v)
  then have "plain_word w" by simp
  with Word.prems(3) show ?case unfolding plain_word_def by blast
next
  case (Group gs)
  have p: "\<not> string_is_xint ''(''" "\<not> string_is_xint '')''" by code_simp+
  from Group.prems(2) consider "w = ''('' \<or> w = '')''" | g where "g \<in> set gs" "w \<in> set (spell g)" by auto
  then show ?case
    using Group p by cases auto
qed

text \<open>The kind that reading gives to a word.\<close>

definition word_kind :: "double_parser \<Rightarrow> string \<Rightarrow> token_kind" where
  "word_kind ops w =
     (if string_is_xint w then INT_TOKEN else if is_double ops w then FLOAT_TOKEN else GENERIC_TOKEN)"

fun read_kinds :: "double_parser \<Rightarrow> sexp \<Rightarrow> bool" where
  "read_kinds ops (Atom_sexp token) \<longleftrightarrow> tok_kind token = word_kind ops (tok_string token)"
| "read_kinds ops (List_sexp _ _ sexp_list) \<longleftrightarrow> list_all (read_kinds ops) sexp_list"

lemma postprocess_kinds:
  "postprocess_int ts = Inr ts' \<Longrightarrow> list_all unread_kind ts \<Longrightarrow> t \<in> set (postprocess_float ops ts') \<Longrightarrow>
     tok_string t \<notin> {''('', '')''} \<Longrightarrow> tok_kind t = word_kind ops (tok_string t)"
proof (induction ts arbitrary: ts')
  case Nil
  then show ?case by (simp add: postprocess_float_def)
next
  case (Cons u ts)
  obtain u' us where ts': "ts' = u' # us" "postprocess_int ts = Inr us"
    and u': "u' = u \<and> (tok_kind u = GENERIC_TOKEN \<longrightarrow> \<not> string_is_xint (tok_string u)) \<or>
       string_is_xint (tok_string u) \<and> (\<exists>i. u' = u\<lparr>tok_kind := INT_TOKEN, tok_int_value := i\<rparr>)"
    using Cons.prems(1) by (auto simp: bnd_eq_Inr split: if_splits)
  from Cons.prems(3) ts'(1) consider "t = float_token ops u'" | "t \<in> set (postprocess_float ops us)"
    by (auto simp: postprocess_float_def)
  then show ?case
  proof cases
    case 1
    then show ?thesis
      using u' Cons.prems(2,4)
      by (auto simp: float_token_def word_kind_def unread_kind_def split: if_splits)
  next
    case 2
    then show ?thesis using Cons.IH [OF ts'(2)] Cons.prems(2,4) by simp
  qed
qed

lemma read_kinds_tokens:
  "plain_shape (shape_of s) \<Longrightarrow>
     (\<And>t. t \<in> set (tokens_of s) \<Longrightarrow> tok_string t \<notin> {''('', '')''} \<Longrightarrow> tok_kind t = word_kind ops (tok_string t)) \<Longrightarrow>
     read_kinds ops s"
proof (induction s)
  case (Atom_sexp t)
  then show ?case using plain_word_not_paren [of "tok_string t"] by simp
next
  case (List_sexp a b ss)
  have "read_kinds ops s" if "s \<in> set ss" for s
    by (rule List_sexp.IH [OF that]) (use List_sexp.prems that in auto)
  then show ?case by (simp add: list_all_iff)
qed

text \<open>
  Printing an expression whose words are plain and parsing the result gives an expression of
  the same shape back.
\<close>

lemma sexp_parse_shape:
  assumes "plain_shape g"
  shows "\<exists>s. sexp_parse ops (print_shape g) = Some (Inr (Some s)) \<and> shape_of s = g \<and> read_kinds ops s"
proof -
  let ?l = "(lexer_init (sexp_lexer (print_shape g)))\<lparr>lx_token_list := []\<rparr>"
  have "reading ?l (print_shape g @ []) []"
    by (simp add: reading_def sexp_lexer_def lexer_init_def lexer_new_def lexer_add_delimiter_def
      current_substring_def)
  from reads_shape [OF assms this] obtain l where l: "lexer_loop ?l = lexer_loop l" "reading l [] (spell g)"
    by (auto simp: reads_on_def boundary_def)
  have "is_finished l" using reading_finished [OF l(2)] by simp
  then have run: "lexer_loop ?l = Some (Inr l)" using l(1) by (subst (asm) lexer_loop.simps) simp
  have cfg: "lx_enable_int l" "lx_enable_float l" and ws: "map tok_string (lx_token_list l) = spell g"
    and kinds: "list_all unread_kind (lx_token_list l)"
    using l(2) by (simp_all add: reading_def)
  have "\<exists>ts. postprocess_int (lx_token_list l) = Inr ts \<and> map tok_string ts = map tok_string (lx_token_list l)"
  proof (rule postprocess_int_strings)
    fix t assume "t \<in> set (lx_token_list l)" and x: "string_is_xint (tok_string t)"
    then have "tok_string t \<in> set (spell g)" by (simp flip: ws)
    then show "\<exists>i. string_parse_xint (tok_string t) = Inr i" using spell_parses [OF assms] x by blast
  qed
  then obtain ts where ts: "postprocess_int (lx_token_list l) = Inr ts" "map tok_string ts = spell g"
    using ws by auto
  let ?ts = "postprocess_float ops ts"
  have lr: "lexer_run ops (sexp_lexer (print_shape g)) = Some (Inr (l\<lparr>lx_token_list := ?ts\<rparr>))"
    using run cfg ts(1) by (simp add: lexer_run_def)
  have "map tok_string ?ts = concat (map spell [g]) @ []"
    by (simp add: postprocess_float_strings ts(2))
  from parse_spelled_group [OF _ _ this, unfolded list.simps] parse_spelled assms
  obtain ss rest where p: "parse_list ?ts = Inr (ss, rest)" "map shape_of ss = [g]" "rest = []"
    by (auto 0 3)
  then obtain s where s: "ss = [s]" "shape_of s = g" by auto
  have "?ts = tokens_of s"
    using parse_tokens(2) [of ?ts] p(1,3) s(1) by auto
  then have "read_kinds ops s"
    using read_kinds_tokens [of s ops] postprocess_kinds [OF ts(1) kinds] assms s(2) by simp
  with lr p(1,3) s show ?thesis
    by (simp add: sexp_parse_def sexp_parse_list_def)
qed

lemma sexp_parse_printed:
  assumes "plain_shape (shape_of s)" and "no_string_token s"
  shows "\<exists>s'. sexp_parse ops (sexp_print s) = Some (Inr (Some s')) \<and> shape_of s' = shape_of s"
  using sexp_parse_shape [OF assms(1), of ops] by (auto simp: sexp_print_shape [OF assms(2)])

end
