(* ===== verification/Path.thy ===== *)
theory Path
  imports Strings
begin

text \<open>
  Paths (\<open>src/src/packages/std/path/path.c\<close>): a stack of segments, kept normalised while strings
  are joined to it, and the string it is printed as, which is cached. The stack is a list with
  the bottom first. The current working directory is a parameter.
\<close>

record path =
  segment_stack :: "string list"
  path_cache :: "string option"
  path_absolute :: bool

definition path_is_absolute :: "path \<Rightarrow> bool" where
  "path_is_absolute self = path_absolute self"

definition path_is_relative :: "path \<Rightarrow> bool" where
  "path_is_relative self \<longleftrightarrow> \<not> path_absolute self"

section \<open>Joining\<close>

text \<open>The next segment of a string, and the string after the slash that ends it.\<close>

definition next_segment :: "string \<Rightarrow> (string \<times> string) option res" where
  "next_segment s =
     (if string_is_empty s then Inr None
      else let index = string_find_index s (CHR ''/'') in
        if index = - 1 then Inr (Some (string_copy s, []))
        else bnd (string_slice s 0 (nat index)) (\<lambda>segment.
               Inr (Some (segment, drop (nat index + 1) s))))"

fun join_slash :: "string list \<Rightarrow> string" where
  "join_slash [] = []"
| "join_slash [segment] = segment"
| "join_slash (segment # segments) = segment @ ''/'' @ join_slash segments"

definition path_update_string :: "path \<Rightarrow> path" where
  "path_update_string self =
     self\<lparr>path_cache := Some ((if path_is_absolute self then ''/'' else []) @ join_slash (segment_stack self))\<rparr>"

definition path_execute :: "path \<Rightarrow> string \<Rightarrow> path" where
  "path_execute self segment =
     (if string_is_empty segment then self
      else if string_equal segment ''.'' then self
      else if string_equal segment ''..'' then
        (if segment_stack self = [] \<or> string_equal (last (segment_stack self)) ''..''
         then self\<lparr>segment_stack := segment_stack self @ [segment]\<rparr>
         else self\<lparr>segment_stack := butlast (segment_stack self)\<rparr>)
      else self\<lparr>segment_stack := segment_stack self @ [segment]\<rparr>)"

lemma next_segment_cases:
  "next_segment s =
     Inr (if s = [] then None
          else if CHR ''/'' \<in> set s
               then Some (takeWhile (\<lambda>c. c \<noteq> CHR ''/'') s, tl (dropWhile (\<lambda>c. c \<noteq> CHR ''/'') s))
               else Some (s, []))"
proof (cases "CHR ''/'' \<in> set s")
  case False
  then show ?thesis
    by (simp add: next_segment_def string_is_empty_def string_equal_def string_empty_def string_copy_def)
next
  case True
  then obtain i where i: "strchr s (CHR ''/'') = Some i"
    using strchr_None [of s] by fastforce
  then have at: "i < length s" "s ! i = CHR ''/''" "CHR ''/'' \<notin> set (take i s)"
    by (simp_all add: strchr_Some)
  have s: "s = take i s @ CHR ''/'' # drop (Suc i) s"
    using at(1,2) by (metis id_take_nth_drop)
  have w: "takeWhile (\<lambda>c. c \<noteq> CHR ''/'') s = take i s"
    "tl (dropWhile (\<lambda>c. c \<noteq> CHR ''/'') s) = drop (Suc i) s"
  proof -
    have all: "\<forall>c \<in> set (take i s). c \<noteq> CHR ''/''" using at(3) by blast
    show "takeWhile (\<lambda>c. c \<noteq> CHR ''/'') s = take i s"
      by (subst s) (use all in \<open>simp add: takeWhile_append2\<close>)
    show "tl (dropWhile (\<lambda>c. c \<noteq> CHR ''/'') s) = drop (Suc i) s"
      by (subst s) (use all in \<open>simp add: dropWhile_append2\<close>)
  qed
  have "s \<noteq> []" using True by auto
  with i at True show ?thesis
    by (simp add: next_segment_def string_is_empty_def string_equal_def string_empty_def
        string_find_index_def string_slice_def string_length_def w)
qed

lemma next_segment_shorter:
  assumes "next_segment s = Inr (Some (segment, rest))"
  shows "length rest < length s"
proof (cases "CHR ''/'' \<in> set s")
  case True
  then have "s \<noteq> []" "rest = tl (dropWhile (\<lambda>c. c \<noteq> CHR ''/'') s)"
    using assms by (cases s; simp add: next_segment_cases)+
  moreover have "dropWhile (\<lambda>c. c \<noteq> CHR ''/'') s \<noteq> []"
    using True by (simp add: dropWhile_eq_Nil_conv)
  ultimately show ?thesis
    using length_dropWhile_le [of "\<lambda>c. c \<noteq> CHR ''/''" s]
    by (cases "dropWhile (\<lambda>c. c \<noteq> CHR ''/'') s") simp_all
next
  case False
  then show ?thesis
    using assms by (cases s) (auto simp: next_segment_cases)
qed

function path_join_loop :: "path \<Rightarrow> string \<Rightarrow> path res" where
  "path_join_loop self s =
     (case next_segment s of
        Inl e \<Rightarrow> Inl e
      | Inr None \<Rightarrow> Inr self
      | Inr (Some (segment, rest)) \<Rightarrow> path_join_loop (path_execute self segment) rest)"
  by pat_completeness auto
termination path_join_loop
  by (relation "measure (\<lambda>(self, s). length s)") (simp_all add: next_segment_shorter, metis next_segment_shorter)

declare path_join_loop.simps [simp del]

definition path_join :: "path \<Rightarrow> string \<Rightarrow> path res" where
  "path_join self s = bnd (path_join_loop self s) (\<lambda>self. Inr (path_update_string self))"

definition path_new :: "string \<Rightarrow> path res" where
  "path_new s =
     path_join \<lparr>segment_stack = [], path_cache = None, path_absolute = string_starts_with s ''/''\<rparr> s"

definition path_new_cwd :: "string \<Rightarrow> path res" where
  "path_new_cwd cwd = path_new cwd"

definition path_resolve :: "path \<Rightarrow> string \<Rightarrow> path res" where
  "path_resolve self s =
     path_join (if string_starts_with s ''/'' then self\<lparr>path_absolute := True, segment_stack := []\<rparr> else self) s"

definition path_string :: "path \<Rightarrow> string \<times> path" where
  "path_string self =
     (case path_cache self of
        Some s \<Rightarrow> (s, self)
      | None \<Rightarrow> (the (path_cache (path_update_string self)), path_update_string self))"

definition path_copy :: "path \<Rightarrow> path res" where
  "path_copy self = path_new (fst (path_string self))"

definition path_equal :: "path \<Rightarrow> path \<Rightarrow> bool" where
  "path_equal x y = string_equal (fst (path_string x)) (fst (path_string y))"

section \<open>Relative paths\<close>

fun find_relative_index :: "string list \<Rightarrow> string list \<Rightarrow> nat" where
  "find_relative_index [] to = 0"
| "find_relative_index (s # from) [] = 0"
| "find_relative_index (s # from) (t # to) =
     (if \<not> string_equal s t then 0 else Suc (find_relative_index from to))"

definition path_relative :: "path \<Rightarrow> path \<Rightarrow> path res" where
  "path_relative from to =
     asserting ((path_is_relative from \<and> path_is_relative to) \<or> (path_is_absolute from \<and> path_is_absolute to))
       (let relative_index = find_relative_index (segment_stack from) (segment_stack to);
            from_length = length (segment_stack from)
        in bnd (path_new []) (\<lambda>relative_path.
             Inr (path_update_string (relative_path\<lparr>segment_stack :=
               segment_stack relative_path @ replicate (from_length - relative_index) ''..'' @
               drop relative_index (segment_stack to)\<rparr>))))"

definition path_relative_print :: "path \<Rightarrow> path \<Rightarrow> string res" where
  "path_relative_print from to = bnd (path_relative from to) (\<lambda>p. Inr (fst (path_string p)))"

definition path_relative_cwd_print :: "string \<Rightarrow> path \<Rightarrow> string res" where
  "path_relative_cwd_print cwd to = bnd (path_new_cwd cwd) (\<lambda>cwd_path. path_relative_print cwd_path to)"

section \<open>Splitting and normal paths\<close>

text \<open>
  The reference for \<open>path_join\<close>: cut the string at its slashes and execute the segments in order.
\<close>

fun split_slash :: "string \<Rightarrow> string list" where
  "split_slash [] = []"
| "split_slash (c # s) =
     (if c = CHR ''/'' then [] # split_slash s
      else case split_slash s of
          [] \<Rightarrow> [[c]]
        | segment # segments \<Rightarrow> (c # segment) # segments)"

lemma split_slash_cut:
  "CHR ''/'' \<notin> set segment \<Longrightarrow> split_slash (segment @ CHR ''/'' # rest) = segment # split_slash rest"
  by (induction segment) auto

lemma split_slash_last:
  "CHR ''/'' \<notin> set segment \<Longrightarrow> segment \<noteq> [] \<Longrightarrow> split_slash segment = [segment]"
proof (induction segment)
  case (Cons c segment)
  then show ?case by (cases segment) auto
qed simp

lemma split_slash_next:
  "next_segment s = Inr None \<Longrightarrow> split_slash s = []"
  "next_segment s = Inr (Some (segment, rest)) \<Longrightarrow> split_slash s = segment # split_slash rest"
proof -
  show "split_slash s = []" if "next_segment s = Inr None"
    using that by (simp add: next_segment_cases split: if_splits)
  show "split_slash s = segment # split_slash rest" if n: "next_segment s = Inr (Some (segment, rest))"
  proof (cases "CHR ''/'' \<in> set s")
    case True
    then have ne: "dropWhile (\<lambda>c. c \<noteq> CHR ''/'') s \<noteq> []"
      by (simp add: dropWhile_eq_Nil_conv)
    then have "hd (dropWhile (\<lambda>c. c \<noteq> CHR ''/'') s) = CHR ''/''"
      using hd_dropWhile by blast
    with ne have "s = takeWhile (\<lambda>c. c \<noteq> CHR ''/'') s @ CHR ''/'' # tl (dropWhile (\<lambda>c. c \<noteq> CHR ''/'') s)"
      by (metis list.collapse takeWhile_dropWhile_id)
    moreover have "s \<noteq> []" using True by auto
    moreover have "CHR ''/'' \<notin> set (takeWhile (\<lambda>c. c \<noteq> CHR ''/'') s)"
      by (metis set_takeWhileD)
    ultimately show ?thesis
      using n True split_slash_cut by (auto simp: next_segment_cases)
  next
    case False
    with n show ?thesis
      by (cases "s = []") (simp_all add: next_segment_cases split_slash_last)
  qed
qed

lemma next_segment_returns: "\<exists>r. next_segment s = Inr r"
  by (simp add: next_segment_cases)

lemma path_join_loop_is_fold:
  "path_join_loop self s = Inr (foldl path_execute self (split_slash s))"
proof (induction self s rule: path_join_loop.induct)
  case (1 self s)
  obtain r where r: "next_segment s = Inr r"
    using next_segment_returns by blast
  show ?case
  proof (cases r)
    case None
    with r show ?thesis by (simp add: path_join_loop.simps [of self s] split_slash_next(1))
  next
    case (Some x)
    then obtain segment rest where x: "x = (segment, rest)" by (cases x) blast
    have "path_join_loop (path_execute self segment) rest =
        Inr (foldl path_execute (path_execute self segment) (split_slash rest))"
      by (rule 1) (use r Some x in auto)
    with r Some x show ?thesis
      by (simp add: path_join_loop.simps [of self s] split_slash_next(2))
  qed
qed

lemma path_join_is_fold:
  "path_join self s = Inr (path_update_string (foldl path_execute self (split_slash s)))"
  by (simp add: path_join_def path_join_loop_is_fold)

text \<open>
  A segment that names something, and the stacks that the joining of strings builds: steps up,
  then names. The steps up are there in an absolute path as well: the code does not stop at the root,
  so that \<open>/..\<close> is a path of its own, and not \<open>/\<close>.
\<close>

definition name_segment :: "string \<Rightarrow> bool" where
  "name_segment s \<longleftrightarrow> s \<noteq> [] \<and> CHR ''/'' \<notin> set s \<and> s \<noteq> ''.'' \<and> s \<noteq> ''..''"

definition normal_segments :: "string list \<Rightarrow> bool" where
  "normal_segments segments \<longleftrightarrow>
     list_all name_segment (dropWhile (\<lambda>s. s = ''..'') segments)"

definition normal_path :: "path \<Rightarrow> bool" where
  "normal_path p \<longleftrightarrow>
     normal_segments (segment_stack p) \<and> path_cache p = path_cache (path_update_string p)"

lemma dotdot_no_slash: "CHR ''/'' \<notin> set ''..''"
  by simp

lemma normal_segments_iff:
  "normal_segments segments \<longleftrightarrow>
     (\<exists>n names. segments = replicate n ''..'' @ names \<and> list_all name_segment names)"
proof
  assume "normal_segments segments"
  moreover have "replicate (length (takeWhile (\<lambda>s. s = ''..'') segments)) ''..'' =
      takeWhile (\<lambda>s. s = ''..'') segments"
    by (rule replicate_length_same) (blast dest: set_takeWhileD)
  then have "segments = replicate (length (takeWhile (\<lambda>s. s = ''..'') segments)) ''..'' @
      dropWhile (\<lambda>s. s = ''..'') segments"
    by (simp only: takeWhile_dropWhile_id)
  ultimately show "\<exists>n names. segments = replicate n ''..'' @ names \<and> list_all name_segment names"
    unfolding normal_segments_def by blast
next
  assume "\<exists>n names. segments = replicate n ''..'' @ names \<and> list_all name_segment names"
  then obtain n names where *: "segments = replicate n ''..'' @ names" "list_all name_segment names"
    by blast
  have "dropWhile (\<lambda>s. s = ''..'') segments = dropWhile (\<lambda>s. s = ''..'') names"
    unfolding *(1) by (rule dropWhile_append2) simp
  with *(2) show "normal_segments segments"
    unfolding normal_segments_def list_all_iff by (metis set_dropWhileD)
qed

text \<open>What executing a segment does to the stack alone.\<close>

definition execute_segment :: "string list \<Rightarrow> string \<Rightarrow> string list" where
  "execute_segment stack segment =
     (if segment = [] \<or> segment = ''.'' then stack
      else if segment = ''..'' \<and> stack \<noteq> [] \<and> last stack \<noteq> ''..'' then butlast stack
      else stack @ [segment])"

lemma path_execute_stack:
  "path_execute self segment = self\<lparr>segment_stack := execute_segment (segment_stack self) segment\<rparr>"
  by (simp add: path_execute_def execute_segment_def string_is_empty_def string_equal_def string_empty_def)

lemma foldl_path_execute:
  "foldl path_execute self segments =
     self\<lparr>segment_stack := foldl execute_segment (segment_stack self) segments\<rparr>"
  by (induction segments arbitrary: self) (simp_all add: path_execute_stack)

lemma path_join_stack:
  "path_join self s =
     Inr (path_update_string (self\<lparr>segment_stack := foldl execute_segment (segment_stack self) (split_slash s)\<rparr>))"
  by (simp add: path_join_is_fold foldl_path_execute)

lemma execute_names:
  "list_all name_segment names \<Longrightarrow> foldl execute_segment stack names = stack @ names"
  by (induction names arbitrary: stack) (simp_all add: execute_segment_def name_segment_def)

lemma execute_steps_up:
  "list_all name_segment names \<Longrightarrow>
     foldl execute_segment (stack @ names) (replicate (length names) ''..'') = stack"
proof (induction names rule: rev_induct)
  case (snoc name names)
  have "execute_segment (stack @ names @ [name]) ''..'' = stack @ names"
    using snoc.prems by (simp add: execute_segment_def name_segment_def butlast_append)
  then show ?case using snoc by simp
qed simp

lemma execute_dotdots:
  "set stack \<subseteq> {''..''} \<Longrightarrow>
     foldl execute_segment stack (replicate n ''..'') = stack @ replicate n ''..''"
proof (induction n arbitrary: stack)
  case (Suc n)
  have "stack \<noteq> [] \<Longrightarrow> last stack = ''..''"
    using Suc.prems last_in_set [of stack] by fast
  then have "execute_segment stack ''..'' = stack @ [''..'']"
    by (auto simp: execute_segment_def)
  with Suc show ?case by simp
qed simp

lemma execute_normal:
  "normal_segments segments \<Longrightarrow> foldl execute_segment [] segments = segments"
  by (auto simp: normal_segments_iff execute_dotdots execute_names)

lemma execute_segment_normal:
  assumes "normal_segments stack" "CHR ''/'' \<notin> set segment"
  shows "normal_segments (execute_segment stack segment)"
proof -
  obtain n names where st: "stack = replicate n ''..'' @ names" and all: "list_all name_segment names"
    using assms(1) by (auto simp: normal_segments_iff)
  consider (same) "execute_segment stack segment = stack"
    | (up) "segment = ''..''" "stack \<noteq> []" "last stack \<noteq> ''..''" "execute_segment stack segment = butlast stack"
    | (more) "segment = ''..''" "stack = [] \<or> last stack = ''..''" "execute_segment stack segment = stack @ [''..'']"
    | (name) "name_segment segment" "execute_segment stack segment = stack @ [segment]"
    using assms(2) unfolding execute_segment_def name_segment_def by metis
  then show ?thesis
  proof cases
    case same
    with assms(1) show ?thesis by simp
  next
    case up
    then have "names \<noteq> []" by (auto simp: st)
    then have "butlast stack = replicate n ''..'' @ butlast names"
      by (simp add: st butlast_append)
    moreover have "list_all name_segment (butlast names)"
      using all by (auto simp: list_all_iff dest: in_set_butlastD)
    ultimately show ?thesis using up(4) by (auto simp: normal_segments_iff)
  next
    case more
    have "names = []"
    proof (rule ccontr)
      assume "names \<noteq> []"
      then have "last stack \<in> set names" by (simp add: st)
      with all more(2) \<open>names \<noteq> []\<close> show False by (auto simp: st list_all_iff name_segment_def)
    qed
    then have "stack @ [''..''] = replicate (Suc n) ''..'' @ []"
      by (simp add: st replicate_append_same)
    with more(3) show ?thesis unfolding normal_segments_iff by (metis list.pred_inject(1))
  next
    case name
    have "stack @ [segment] = replicate n ''..'' @ (names @ [segment])" by (simp add: st)
    moreover have "list_all name_segment (names @ [segment])" using all name(1) by simp
    ultimately show ?thesis using name(2) unfolding normal_segments_iff by metis
  qed
qed

lemma split_slash_no_slash: "segment \<in> set (split_slash s) \<Longrightarrow> CHR ''/'' \<notin> set segment"
  by (induction s arbitrary: segment rule: split_slash.induct) (auto split: if_splits list.splits)

lemma execute_all_normal:
  "normal_segments stack \<Longrightarrow> \<forall>segment \<in> set segments. CHR ''/'' \<notin> set segment \<Longrightarrow>
     normal_segments (foldl execute_segment stack segments)"
  by (induction segments arbitrary: stack) (simp_all add: execute_segment_normal)

lemma split_slash_normal:
  "normal_segments (foldl execute_segment [] (split_slash s))"
  by (rule execute_all_normal) (auto simp: normal_segments_def split_slash_no_slash)

lemma split_slash_join:
  "\<forall>segment \<in> set segments. segment \<noteq> [] \<and> CHR ''/'' \<notin> set segment \<Longrightarrow>
     split_slash (join_slash segments) = segments"
proof (induction segments rule: join_slash.induct)
  case (3 segment a segments)
  then show ?case
    using split_slash_cut [of segment "join_slash (a # segments)"] by simp
qed (simp_all add: split_slash_last)

lemma normal_segments_plain:
  "normal_segments segments \<Longrightarrow>
     \<forall>segment \<in> set segments. segment \<noteq> [] \<and> CHR ''/'' \<notin> set segment"
proof -
  assume "normal_segments segments"
  then obtain n names where st: "segments = replicate n ''..'' @ names"
    and all: "list_all name_segment names"
    unfolding normal_segments_iff by blast
  show ?thesis
  proof
    fix segment
    assume "segment \<in> set segments"
    then consider "segment = ''..''" | "segment \<in> set names"
      unfolding st by (cases n) auto
    then show "segment \<noteq> [] \<and> CHR ''/'' \<notin> set segment"
      using all by cases (simp_all add: list_all_iff name_segment_def)
  qed
qed

lemma join_slash_start:
  "\<forall>segment \<in> set segments. segment \<noteq> [] \<and> CHR ''/'' \<notin> set segment \<Longrightarrow>
     \<not> string_starts_with (join_slash segments) ''/''"
proof (induction segments rule: join_slash.induct)
  case (2 segment)
  then show ?case by (cases segment) (auto simp: string_starts_with_def)
next
  case (3 segment a segments)
  then show ?case by (cases segment) (auto simp: string_starts_with_def)
qed (simp add: string_starts_with_def)

lemma path_update_string_simps [simp]:
  "segment_stack (path_update_string p) = segment_stack p"
  "path_absolute (path_update_string p) = path_absolute p"
  "path_update_string (path_update_string p) = path_update_string p"
  "path_cache (path_update_string p) =
     Some ((if path_absolute p then ''/'' else []) @ join_slash (segment_stack p))"
  by (simp_all add: path_update_string_def path_is_absolute_def)

lemma path_new_stack:
  "path_new s = Inr (path_update_string
     \<lparr>segment_stack = foldl execute_segment [] (split_slash s), path_cache = None,
      path_absolute = string_starts_with s ''/''\<rparr>)"
  by (simp add: path_new_def path_join_stack)

lemma normal_path_string:
  "normal_path p \<Longrightarrow>
     fst (path_string p) = (if path_absolute p then ''/'' else []) @ join_slash (segment_stack p)"
  by (simp add: normal_path_def path_string_def)

lemma path_eqI:
  fixes p q :: path
  shows "segment_stack p = segment_stack q \<Longrightarrow> path_cache p = path_cache q \<Longrightarrow>
     path_absolute p = path_absolute q \<Longrightarrow> p = q"
  by (cases p; cases q) simp

lemma path_copy_normal:
  assumes "normal_path p"
  shows "path_copy p = Inr p"
proof -
  have seg: "normal_segments (segment_stack p)" using assms by (simp add: normal_path_def)
  have starts: "string_starts_with (fst (path_string p)) ''/'' = path_absolute p"
    using join_slash_start [OF normal_segments_plain [OF seg]]
    by (simp add: normal_path_string [OF assms]) (simp add: string_starts_with_def)
  have "foldl execute_segment [] (split_slash (fst (path_string p))) = segment_stack p"
    using execute_normal [OF seg] split_slash_join [OF normal_segments_plain [OF seg]]
    by (simp add: normal_path_string [OF assms]) (simp add: execute_segment_def)
  with starts assms show ?thesis
    by (simp add: path_copy_def path_new_stack) (rule path_eqI; simp add: normal_path_def)
qed

lemma path_new_normal: "\<exists>p. path_new s = Inr p \<and> normal_path p"
  by (simp add: path_new_stack normal_path_def split_slash_normal)

text \<open>
  Where the segments lead, as a reference: how many steps above the start, and then down which names.
\<close>

fun step_along :: "nat \<times> string list \<Rightarrow> string \<Rightarrow> nat \<times> string list" where
  "step_along (up, names) segment =
     (if segment = [] \<or> segment = ''.'' then (up, names)
      else if segment = ''..'' then (if names = [] then (Suc up, []) else (up, butlast names))
      else (up, names @ [segment]))"

lemma step_along_names:
  "list_all name_segment names \<Longrightarrow> CHR ''/'' \<notin> set segment \<Longrightarrow> list_all name_segment (snd (step_along (up, names) segment))"
  by (auto simp: list_all_iff name_segment_def dest: in_set_butlastD)

lemma execute_steps_along:
  assumes "list_all name_segment names"
  shows "execute_segment (replicate up ''..'' @ names) segment =
    (let (up', names') = step_along (up, names) segment in replicate up' ''..'' @ names')"
proof (cases "names = []")
  case True
  then show ?thesis by (auto simp: execute_segment_def replicate_append_same)
next
  case False
  then have "last names \<noteq> ''..''"
    using assms last_in_set [of names] by (auto simp: list_all_iff name_segment_def)
  with False show ?thesis by (simp add: execute_segment_def butlast_append)
qed

lemma execute_all_along:
  "list_all name_segment names \<Longrightarrow> \<forall>segment \<in> set segments. CHR ''/'' \<notin> set segment \<Longrightarrow>
     foldl step_along (up, names) segments = (up', names') \<Longrightarrow>
     foldl execute_segment (replicate up ''..'' @ names) segments = replicate up' ''..'' @ names' \<and>
     list_all name_segment names'"
proof (induction segments arbitrary: up names)
  case (Cons segment segments)
  obtain up1 names1 where one: "step_along (up, names) segment = (up1, names1)" by (meson surj_pair)
  have "list_all name_segment names1"
    using step_along_names [OF Cons.prems(1), of segment up] Cons.prems(2) one by simp
  then show ?case
    using Cons.IH [of names1 up1] Cons.prems(2,3) execute_steps_along [OF Cons.prems(1), of up segment] one
    by simp
qed simp

lemma path_new_leads:
  assumes "foldl step_along (0, []) (split_slash s) = (up, names)"
  shows "\<exists>p. path_new s = Inr p \<and> path_absolute p = string_starts_with s ''/'' \<and>
    segment_stack p = replicate up ''..'' @ names \<and> list_all name_segment names \<and> path_copy p = Inr p"
proof -
  have "foldl execute_segment [] (split_slash s) = replicate up ''..'' @ names \<and> list_all name_segment names"
    using execute_all_along [of "[]" "split_slash s" 0 up names] assms by (simp add: split_slash_no_slash)
  moreover obtain p where p: "path_new s = Inr p" "normal_path p" using path_new_normal by blast
  moreover have "path_absolute p = string_starts_with s ''/''" "segment_stack p = foldl execute_segment [] (split_slash s)"
    using p(1) by (auto simp: path_new_stack)
  ultimately show ?thesis using path_copy_normal [OF p(2)] by simp
qed

lemma find_relative_index_common:
  "find_relative_index src to \<le> length src \<and> find_relative_index src to \<le> length to \<and>
     take (find_relative_index src to) src = take (find_relative_index src to) to"
  by (induction src to rule: find_relative_index.induct) (simp_all add: string_equal_def)

lemma path_relative_joined:
  assumes "normal_path src" "normal_path to" "path_absolute src = path_absolute to"
    and names: "''..'' \<notin> set (segment_stack src)"
  shows "\<exists>r. path_relative src to = Inr r \<and> path_join src (fst (path_string r)) = Inr to"
proof -
  let ?f = "segment_stack src" and ?t = "segment_stack to"
  define i where "i = find_relative_index ?f ?t"
  have common: "i \<le> length ?f" "i \<le> length ?t" "take i ?f = take i ?t"
    using find_relative_index_common [of ?f ?t] by (simp_all add: i_def)
  define way where "way = replicate (length ?f - i) ''..'' @ drop i ?t"
  have rel: "path_relative src to = Inr (path_update_string
      (path_update_string \<lparr>segment_stack = way, path_cache = None, path_absolute = False\<rparr>))"
    using assms(3)
    by (simp add: path_relative_def path_is_relative_def path_is_absolute_def Let_def path_new_stack
        way_def i_def string_starts_with_def path_update_string_def)
  have normal_from: "list_all name_segment ?f"
  proof -
    obtain n names where "?f = replicate n ''..'' @ names" "list_all name_segment names"
      using assms(1) by (auto simp: normal_path_def normal_segments_iff)
    with names show ?thesis by (cases n) auto
  qed
  have plain: "\<forall>segment \<in> set way. segment \<noteq> [] \<and> CHR ''/'' \<notin> set segment"
    using normal_segments_plain [of ?t] assms(2)
    by (auto simp: way_def normal_path_def dest: in_set_dropD)
  have up: "foldl execute_segment ?f (replicate (length ?f - i) ''..'') = take i ?f"
  proof -
    have "list_all name_segment (drop i ?f)"
      using normal_from by (auto simp: list_all_iff dest: in_set_dropD)
    from execute_steps_up [OF this, of "take i ?f"] show ?thesis by simp
  qed
  have down: "foldl execute_segment (take i ?t) (drop i ?t) = ?t"
  proof -
    have "list_all name_segment (take i ?t)"
      using normal_from common(3) [symmetric] by (auto simp: list_all_iff dest: in_set_takeD)
    then have "foldl execute_segment [] (take i ?t) = take i ?t"
      using execute_names [of "take i ?t" "[]"] by simp
    moreover have "foldl execute_segment [] ?t = ?t"
      using execute_normal [of ?t] assms(2) by (simp add: normal_path_def)
    ultimately show ?thesis by (metis append_take_drop_id foldl_append)
  qed
  have "foldl execute_segment ?f (split_slash (join_slash way)) = ?t"
    using up down common(3) by (simp add: split_slash_join [OF plain]) (simp add: way_def)
  then have "path_join src (join_slash way) = Inr (path_update_string (src\<lparr>segment_stack := ?t\<rparr>))"
    by (simp add: path_join_stack)
  moreover have "path_update_string (src\<lparr>segment_stack := ?t\<rparr>) = to"
    by (rule path_eqI) (use assms(2,3) in \<open>simp_all add: normal_path_def\<close>)
  ultimately show ?thesis
    by (simp add: rel) (simp add: path_string_def)
qed

end
