(* ===== verification/Lang_Syntax.thy ===== *)
theory Lang_Syntax
  imports Sexp Path Tagged_Value
begin

text \<open>
  Expressions and statements (\<open>src/src/lang\<close>): the two syntax trees, their construction from
  S-expressions and their printing. A list is walked from its second element on with
  \<open>list_first\<close> and \<open>list_next\<close>; a NULL that \<open>list_next\<close> returns and the code goes on to use is
  \<open>None\<close> here. What \<open>strtod\<close> and the formats of \<open>printf\<close> for doubles and pointers do are
  parameters; every caller prints to standard output.
\<close>

section \<open>Expressions\<close>

text \<open>The expression of an assignment that names nothing, \<open>(=)\<close>, is NULL.\<close>

datatype exp =
    EXP_VAR string
  | EXP_AP exp "exp list"
  | EXP_ASSIGN "string list" "exp option"
  | EXP_INT int
  | EXP_FLOAT u64

definition exp_var :: "string \<Rightarrow> exp" where
  "exp_var name = EXP_VAR name"

definition exp_ap :: "exp \<Rightarrow> exp list \<Rightarrow> exp" where
  "exp_ap target arg_list = EXP_AP target arg_list"

definition exp_assign :: "string list \<Rightarrow> exp option \<Rightarrow> exp" where
  "exp_assign name_list e = EXP_ASSIGN name_list e"

definition exp_int :: "int \<Rightarrow> exp" where
  "exp_int target = EXP_INT target"

definition exp_float :: "u64 \<Rightarrow> exp" where
  "exp_float target = EXP_FLOAT target"

fun exp_copy :: "exp \<Rightarrow> exp res" and exp_list_copy :: "exp list \<Rightarrow> exp list res" where
  "exp_copy (EXP_VAR name) = Inr (exp_var (string_copy name))"
| "exp_copy (EXP_AP target arg_list) =
     bnd (exp_copy target) (\<lambda>target. bnd (exp_list_copy arg_list) (\<lambda>arg_list.
       Inr (exp_ap target arg_list)))"
| "exp_copy (EXP_ASSIGN name_list None) = Inl Undefined"
| "exp_copy (EXP_ASSIGN name_list (Some e)) =
     bnd (exp_copy e) (\<lambda>e. Inr (exp_assign (map string_copy name_list) (Some e)))"
| "exp_copy (EXP_INT target) = Inr (exp_int target)"
| "exp_copy (EXP_FLOAT target) = Inr (exp_float target)"
| "exp_list_copy [] = Inr []"
| "exp_list_copy (e # es) = bnd (exp_copy e) (\<lambda>e. bnd (exp_list_copy es) (\<lambda>es. Inr (e # es)))"

section \<open>Parsing expressions\<close>

text \<open>\<open>strtod\<close> here is the conversion without the test that the whole string was read.\<close>

definition string_parse_double :: "double_parser \<Rightarrow> string \<Rightarrow> u64" where
  "string_parse_double ops s = parse_double ops s"

definition parse_var :: "token \<Rightarrow> exp" where
  "parse_var token = exp_var (string_copy (tok_string token))"

definition parse_int :: "token \<Rightarrow> exp res" where
  "parse_int token = bnd (string_parse_xint (tok_string token)) (\<lambda>i. Inr (exp_int i))"

definition parse_float :: "double_parser \<Rightarrow> token \<Rightarrow> exp" where
  "parse_float ops token = exp_float (string_parse_double ops (tok_string token))"

text \<open>
  \<open>parse_args\<close> is the loop of \<open>parse_ap\<close>, and \<open>parse_assign_loop\<close> that of \<open>parse_assign\<close>: every
  element but the last is a name.
\<close>

function (sequential) parse_exp :: "double_parser \<Rightarrow> sexp \<Rightarrow> exp res"
  and parse_args :: "double_parser \<Rightarrow> sexp list \<Rightarrow> exp list res"
  and parse_assign_loop :: "double_parser \<Rightarrow> sexp list \<Rightarrow> (string list \<times> exp option) res" where
  "parse_exp ops (Atom_sexp token) =
     (if tok_kind token = INT_TOKEN then parse_int token
      else if tok_kind token = FLOAT_TOKEN then Inr (parse_float ops token)
      else Inr (parse_var token))"
| "parse_exp ops (List_sexp start_token end_token []) = Inl Assert_failed"
| "parse_exp ops (List_sexp start_token end_token (first # sexp_list)) =
     (if sexp_starts_with (List_sexp start_token end_token (first # sexp_list)) ''=''
         \<or> sexp_starts_with (List_sexp start_token end_token (first # sexp_list)) ''assign''
      then bnd (parse_assign_loop ops sexp_list) (\<lambda>(name_list, e). Inr (exp_assign name_list e))
      else bnd (parse_exp ops first) (\<lambda>target. bnd (parse_args ops sexp_list) (\<lambda>arg_list.
             Inr (exp_ap target arg_list))))"
| "parse_args ops [] = Inr []"
| "parse_args ops (arg_sexp # sexp_list) =
     bnd (parse_exp ops arg_sexp) (\<lambda>arg. bnd (parse_args ops sexp_list) (\<lambda>arg_list. Inr (arg # arg_list)))"
| "parse_assign_loop ops [] = Inr ([], None)"
| "parse_assign_loop ops [name_sexp] = bnd (parse_exp ops name_sexp) (\<lambda>e. Inr ([], Some e))"
| "parse_assign_loop ops (name_sexp # sexp_list) =
     bnd (sexp_string name_sexp) (\<lambda>name.
     bnd (parse_assign_loop ops sexp_list) (\<lambda>(name_list, e). Inr (string_copy name # name_list, e)))"
  by pat_completeness auto
termination
  by (relation "measure (case_sum (\<lambda>(ops, s). 2 * size s)
        (case_sum (\<lambda>(ops, ss). Suc (2 * size_list size ss)) (\<lambda>(ops, ss). Suc (2 * size_list size ss))))")
    simp_all

section \<open>Statements\<close>

text \<open>The path of an import that names nothing, \<open>(import)\<close>, is NULL.\<close>

datatype stmt =
    STMT_DEFINE string exp
  | STMT_DEFINE_FUNCTION string "string list" "exp list"
  | STMT_DEFINE_NODE string "string list"
  | STMT_DEFINE_RULE exp "exp list"
  | STMT_DEFINE_RULE_STAR "exp list" "exp list"
  | STMT_RUN_EXP exp
  | STMT_IMPORT "string list" "path option"

definition stmt_define :: "string \<Rightarrow> exp \<Rightarrow> stmt" where
  "stmt_define name e = STMT_DEFINE name e"

definition stmt_define_function :: "string \<Rightarrow> string list \<Rightarrow> exp list \<Rightarrow> stmt" where
  "stmt_define_function name arg_name_list exp_list = STMT_DEFINE_FUNCTION name arg_name_list exp_list"

definition stmt_define_node :: "string \<Rightarrow> string list \<Rightarrow> stmt" where
  "stmt_define_node name port_name_list = STMT_DEFINE_NODE name port_name_list"

definition stmt_define_rule :: "exp \<Rightarrow> exp list \<Rightarrow> stmt" where
  "stmt_define_rule pattern_exp exp_list = STMT_DEFINE_RULE pattern_exp exp_list"

definition stmt_define_rule_star :: "exp list \<Rightarrow> exp list \<Rightarrow> stmt" where
  "stmt_define_rule_star pattern_exp_list exp_list = STMT_DEFINE_RULE_STAR pattern_exp_list exp_list"

definition stmt_run_exp :: "exp \<Rightarrow> stmt" where
  "stmt_run_exp e = STMT_RUN_EXP e"

definition stmt_import :: "string list \<Rightarrow> path option \<Rightarrow> stmt" where
  "stmt_import name_list path = STMT_IMPORT name_list path"

section \<open>Parsing statements\<close>

text \<open>The names that a loop over a list of atoms collects.\<close>

fun parse_names :: "sexp list \<Rightarrow> string list res" where
  "parse_names [] = Inr []"
| "parse_names (name_sexp # sexp_list) =
     bnd (sexp_string name_sexp) (\<lambda>name.
     bnd (parse_names sexp_list) (\<lambda>name_list. Inr (string_copy name # name_list)))"

definition parse_define_node :: "sexp \<Rightarrow> stmt res" where
  "parse_define_node sexp =
     bnd (sexp_sexp_list sexp) (\<lambda>sexp_list.
     deref (at sexp_list 1) (\<lambda>name_sexp.
     bnd (sexp_string name_sexp) (\<lambda>name.
     bnd (parse_names (drop 2 sexp_list)) (\<lambda>port_name_list.
       Inr (stmt_define_node (string_copy name) port_name_list)))))"

text \<open>
  With nothing after the name the cursor of the list has run off its end, so that the next
  \<open>list_next\<close> starts over at the first element and the assertion fails.
\<close>

definition parse_define_value :: "double_parser \<Rightarrow> sexp \<Rightarrow> stmt res" where
  "parse_define_value ops sexp =
     bnd (sexp_sexp_list sexp) (\<lambda>sexp_list.
     deref (at sexp_list 1) (\<lambda>name_sexp.
     bnd (sexp_string name_sexp) (\<lambda>name.
     asserting ((if at sexp_list 2 = None then at sexp_list 0 else at sexp_list 3) = None)
       (deref (at sexp_list 2) (\<lambda>exp_sexp.
        bnd (parse_exp ops exp_sexp) (\<lambda>e. Inr (stmt_define (string_copy name) e)))))))"

definition parse_define_function :: "double_parser \<Rightarrow> sexp \<Rightarrow> stmt res" where
  "parse_define_function ops sexp =
     bnd (sexp_sexp_list sexp) (\<lambda>sexp_list.
     deref (at sexp_list 1) (\<lambda>second_sexp.
     bnd (sexp_sexp_list second_sexp) (\<lambda>name_sexp_list.
     deref (at name_sexp_list 0) (\<lambda>first_name_sexp.
     bnd (sexp_string first_name_sexp) (\<lambda>name.
     bnd (parse_names (drop 1 name_sexp_list)) (\<lambda>arg_name_list.
     bnd (parse_args ops (drop 2 sexp_list)) (\<lambda>exp_list.
       Inr (stmt_define_function (string_copy name) arg_name_list exp_list))))))))"

definition parse_define :: "double_parser \<Rightarrow> sexp \<Rightarrow> stmt res" where
  "parse_define ops sexp =
     bnd (sexp_sexp_list sexp) (\<lambda>sexp_list.
     deref (at sexp_list 1) (\<lambda>second_sexp.
       if is_atom_sexp second_sexp then parse_define_value ops sexp
       else parse_define_function ops sexp))"

definition parse_define_rule :: "double_parser \<Rightarrow> sexp \<Rightarrow> stmt res" where
  "parse_define_rule ops sexp =
     bnd (sexp_sexp_list sexp) (\<lambda>sexp_list.
     deref (at sexp_list 1) (\<lambda>pattern_sexp.
     bnd (parse_exp ops pattern_sexp) (\<lambda>pattern_exp.
     bnd (parse_args ops (drop 2 sexp_list)) (\<lambda>exp_list.
       Inr (stmt_define_rule pattern_exp exp_list)))))"

definition parse_define_rule_star :: "double_parser \<Rightarrow> sexp \<Rightarrow> stmt res" where
  "parse_define_rule_star ops sexp =
     bnd (sexp_sexp_list sexp) (\<lambda>sexp_list.
     deref (at sexp_list 1) (\<lambda>pattern_sexp.
     bnd (sexp_sexp_list pattern_sexp) (\<lambda>pattern_exp_sexp_list.
     bnd (parse_args ops pattern_exp_sexp_list) (\<lambda>pattern_exp_list.
     bnd (parse_args ops (drop 2 sexp_list)) (\<lambda>exp_list.
       Inr (stmt_define_rule_star pattern_exp_list exp_list))))))"

definition parse_run_exp :: "double_parser \<Rightarrow> sexp \<Rightarrow> stmt res" where
  "parse_run_exp ops sexp = bnd (parse_exp ops sexp) (\<lambda>e. Inr (stmt_run_exp e))"

fun parse_import_loop :: "sexp list \<Rightarrow> (string list \<times> path option) res" where
  "parse_import_loop [] = Inr ([], None)"
| "parse_import_loop [name_sexp] =
     bnd (sexp_token name_sexp) (\<lambda>token. bnd (path_new (tok_string token)) (\<lambda>path. Inr ([], Some path)))"
| "parse_import_loop (name_sexp # sexp_list) =
     bnd (sexp_string name_sexp) (\<lambda>name.
     bnd (parse_import_loop sexp_list) (\<lambda>(name_list, path). Inr (string_copy name # name_list, path)))"

definition parse_import :: "sexp \<Rightarrow> stmt res" where
  "parse_import sexp =
     bnd (sexp_sexp_list sexp) (\<lambda>sexp_list.
     bnd (parse_import_loop (drop 1 sexp_list)) (\<lambda>(name_list, path).
       Inr (stmt_import name_list path)))"

definition parse_stmt :: "double_parser \<Rightarrow> sexp \<Rightarrow> stmt res" where
  "parse_stmt ops sexp =
     (if sexp_starts_with sexp ''define-node'' then parse_define_node sexp
      else if sexp_starts_with sexp ''define-rule'' then parse_define_rule ops sexp
      else if sexp_starts_with sexp ''define-rule*'' then parse_define_rule_star ops sexp
      else if sexp_starts_with sexp ''define'' then parse_define ops sexp
      else if sexp_starts_with sexp ''import'' then parse_import sexp
      else parse_run_exp ops sexp)"

fun parse_stmt_list :: "double_parser \<Rightarrow> sexp list \<Rightarrow> stmt list res" where
  "parse_stmt_list ops [] = Inr []"
| "parse_stmt_list ops (sexp # sexp_list) =
     bnd (parse_stmt ops sexp) (\<lambda>stmt.
     bnd (parse_stmt_list ops sexp_list) (\<lambda>stmt_list. Inr (stmt # stmt_list)))"

section \<open>Printing\<close>

text \<open>
  How \<open>printf\<close> writes a double with \<open>%.17g\<close> and a pointer with \<open>%p\<close>, and where the objects that
  print as their address are.
\<close>

record printf_ops =
  format_double :: "u64 \<Rightarrow> string"
  format_pointer :: "u64 \<Rightarrow> string"
  wire_address :: "nat \<Rightarrow> u64"

definition int_text :: "int \<Rightarrow> string" where
  "int_text i = (if i < 0 then ''-'' @ uint_to_string (nat (- i)) else uint_to_string (nat i))"

definition double_text :: "printf_ops \<Rightarrow> u64 \<Rightarrow> string" where
  "double_text fmt d =
     (let buffer = format_double fmt d
      in if \<not> string_has_char buffer (CHR ''.'') then buffer @ ''.0'' else buffer)"

text \<open>\<open>value_print\<close> on the values that are no object.\<close>

definition value_print_data :: "printf_ops \<Rightarrow> value_word \<Rightarrow> string res" where
  "value_print_data fmt v =
     (if v = xtrue then Inr ''true''
      else if v = xfalse then Inr ''false''
      else if is_xint v then bnd (to_int64 v) (\<lambda>i. Inr (int_text i))
      else if is_xfloat v then bnd (to_double v) (\<lambda>d. Inr (double_text fmt d))
      else Inr (''(unknown-value 0x'' @ format_pointer fmt v @ '')''))"

text \<open>The names of a list, with a space between them.\<close>

definition name_list_print :: "string list \<Rightarrow> string" where
  "name_list_print name_list = print_separated name_list"

fun exp_print :: "printf_ops \<Rightarrow> exp \<Rightarrow> string res"
  and exp_list_texts :: "printf_ops \<Rightarrow> exp list \<Rightarrow> string list res" where
  "exp_print fmt (EXP_VAR name) = Inr name"
| "exp_print fmt (EXP_AP target arg_list) =
     bnd (exp_print fmt target) (\<lambda>t.
     bnd (exp_list_texts fmt arg_list) (\<lambda>args.
       Inr (if arg_list = [] then ''('' @ t @ '')'' else ''('' @ t @ '' '' @ print_separated args @ '')'')))"
| "exp_print fmt (EXP_ASSIGN name_list e) =
     Inr (if name_list = [] then ''(=)'' else ''(= '' @ name_list_print name_list @ '')'')"
| "exp_print fmt (EXP_INT target) = value_print_data fmt (xint target)"
| "exp_print fmt (EXP_FLOAT target) = value_print_data fmt (xfloat target)"
| "exp_list_texts fmt [] = Inr []"
| "exp_list_texts fmt (e # es) =
     bnd (exp_print fmt e) (\<lambda>t. bnd (exp_list_texts fmt es) (\<lambda>ts. Inr (t # ts)))"

definition exp_list_print :: "printf_ops \<Rightarrow> exp list \<Rightarrow> string res" where
  "exp_list_print fmt exp_list = bnd (exp_list_texts fmt exp_list) (\<lambda>ts. Inr (print_separated ts))"

definition exp_list_print_as_tail :: "printf_ops \<Rightarrow> exp list \<Rightarrow> string res" where
  "exp_list_print_as_tail fmt exp_list =
     (if exp_list = [] then Inr '')''
      else bnd (exp_list_print fmt exp_list) (\<lambda>t. Inr ('' '' @ t @ '')'')))"

definition exp_list_print_as_list :: "printf_ops \<Rightarrow> exp list \<Rightarrow> string res" where
  "exp_list_print_as_list fmt exp_list =
     bnd (exp_list_print fmt exp_list) (\<lambda>t. Inr (''('' @ t @ '')''))"

definition stmt_print :: "printf_ops \<Rightarrow> stmt \<Rightarrow> string res" where
  "stmt_print fmt self =
     (case self of
        STMT_DEFINE name e \<Rightarrow>
          bnd (exp_print fmt e) (\<lambda>t. Inr (''(define '' @ name @ '' '' @ t @ '')''))
      | STMT_DEFINE_FUNCTION name arg_name_list exp_list \<Rightarrow>
          bnd (exp_list_print_as_tail fmt exp_list) (\<lambda>t.
            Inr (''(define ('' @ name @
                 (if arg_name_list = [] then '')'' else '' '' @ name_list_print arg_name_list @ '')'') @ t))
      | STMT_DEFINE_NODE name port_name_list \<Rightarrow>
          Inr (''(define-node '' @ name @ '' '' @ name_list_print port_name_list @ '')'')
      | STMT_DEFINE_RULE pattern_exp exp_list \<Rightarrow>
          bnd (exp_print fmt pattern_exp) (\<lambda>p.
          bnd (exp_list_print_as_tail fmt exp_list) (\<lambda>t. Inr (''(define-rule '' @ p @ t)))
      | STMT_DEFINE_RULE_STAR pattern_exp_list exp_list \<Rightarrow>
          bnd (exp_list_print_as_list fmt pattern_exp_list) (\<lambda>p.
          bnd (exp_list_print_as_tail fmt exp_list) (\<lambda>t. Inr (''(define-rule* '' @ p @ t)))
      | STMT_RUN_EXP e \<Rightarrow> exp_print fmt e
      | STMT_IMPORT name_list path \<Rightarrow>
          deref path (\<lambda>path.
            Inr (''(import '' @ name_list_print name_list @ '' '' @
                 [CHR 0x22] @ fst (path_string path) @ [CHR 0x22] @ '')'')))"

section \<open>What is printed is read back\<close>

text \<open>
  The expressions that \<open>exp_print\<close> writes in full: names that read as names, integers of the
  61 bits a value has, and applications whose head is not the assignment sign.
\<close>

definition plain_name :: "double_parser \<Rightarrow> string \<Rightarrow> bool" where
  "plain_name ops w \<longleftrightarrow> plain_word w \<and> word_kind ops w = GENERIC_TOKEN"

fun plain_exp :: "double_parser \<Rightarrow> exp \<Rightarrow> bool" where
  "plain_exp ops (EXP_VAR name) \<longleftrightarrow> plain_name ops name"
| "plain_exp ops (EXP_AP target arg_list) \<longleftrightarrow>
     plain_exp ops target \<and> target \<noteq> EXP_VAR ''='' \<and> target \<noteq> EXP_VAR ''assign'' \<and>
     list_all (plain_exp ops) arg_list"
| "plain_exp ops (EXP_ASSIGN name_list e) \<longleftrightarrow> False"
| "plain_exp ops (EXP_INT target) \<longleftrightarrow> - (2 ^ 60) \<le> target \<and> target < 2 ^ 60"
| "plain_exp ops (EXP_FLOAT target) \<longleftrightarrow> False"

fun exp_shape :: "exp \<Rightarrow> shape" where
  "exp_shape (EXP_VAR name) = Word name"
| "exp_shape (EXP_AP target arg_list) = Group (exp_shape target # map exp_shape arg_list)"
| "exp_shape (EXP_ASSIGN name_list e) = Group []"
| "exp_shape (EXP_INT target) = Word (int_text target)"
| "exp_shape (EXP_FLOAT target) = Group []"

lemma print_separated_Cons: "ss \<noteq> [] \<Longrightarrow> print_separated (s # ss) = s @ '' '' @ print_separated ss"
  by (cases ss) simp_all

lemma int_text_minus: "i < 0 \<Longrightarrow> int_text i = ''-'' @ uint_to_string (nat (- i))"
  by (simp add: int_text_def)

lemma int_text_parse:
  assumes "- (2 ^ 60) \<le> i" "i < 2 ^ 60"
  shows "string_is_xint (int_text i) \<and> string_parse_xint (int_text i) = Inr i"
proof (cases "i < 0")
  case True
  then show ?thesis
    using assms string_is_xint_minus [of "nat (- i)"] string_parse_xint_minus [of "nat (- i)"]
    by (simp only: int_text_minus) simp
next
  case False
  then show ?thesis
    using assms by (simp add: int_text_def string_is_xint_uint_to_string string_parse_xint_uint_to_string)
qed

lemma uint_to_string_length: "n < 10 ^ Suc k \<Longrightarrow> length (uint_to_string n) \<le> Suc k"
proof (induction k arbitrary: n)
  case 0
  then show ?case by (subst uint_to_string.simps) simp
next
  case (Suc k)
  have "n div 10 < 10 ^ Suc k"
    using Suc.prems by (simp add: less_mult_imp_div_less mult.commute)
  from Suc.IH [OF this] show ?case by (subst uint_to_string.simps) simp
qed

lemma digit_plain: "digit_in_base 10 c \<noteq> None \<Longrightarrow> plain_char c \<and> c \<noteq> CHR '';'' \<and> c \<noteq> CHR 0x22"
  by (auto simp: plain_char_def isspace_def digit_in_base_def digit_value_def char_code_def)

lemma uint_to_string_plain:
  assumes "n < 10 ^ Suc 19"
  shows "\<forall>c \<in> set (uint_to_string n). plain_char c \<and> c \<noteq> CHR '';'' \<and> c \<noteq> CHR 0x22"
    and "hd (uint_to_string n) \<in> set (uint_to_string n)"
    and "length (uint_to_string n) \<le> 20"
proof -
  show "\<forall>c \<in> set (uint_to_string n). plain_char c \<and> c \<noteq> CHR '';'' \<and> c \<noteq> CHR 0x22"
    using uint_to_string_digits digit_plain by blast
  show "hd (uint_to_string n) \<in> set (uint_to_string n)" by simp
  show "length (uint_to_string n) \<le> 20"
    using uint_to_string_length [OF assms] by simp
qed

lemma int_text_plain:
  assumes "- (2 ^ 60) \<le> i" "i < 2 ^ 60"
  shows "plain_word (int_text i)"
proof -
  have small: "n < 2 ^ 61 \<Longrightarrow> n < 10 ^ Suc 19" for n :: nat by simp
  have minus: "plain_char CHR ''-''" by (simp add: plain_char_def isspace_def char_code_def)
  have "\<exists>r. string_parse_xint (int_text i) = Inr r" using int_text_parse [OF assms] by blast
  moreover have "int_text i \<noteq> [] \<and> (\<forall>c \<in> set (int_text i). plain_char c) \<and> hd (int_text i) \<noteq> CHR '';'' \<and>
      hd (int_text i) \<noteq> CHR 0x22 \<and> length (int_text i) \<le> MAX_TOKEN_LENGTH"
  proof (cases "i < 0")
    case True
    have "nat (- i) < 2 ^ 61" using assms(1) by (simp add: nat_less_iff)
    from uint_to_string_plain [OF small [OF this]] minus True show ?thesis
      by (simp add: int_text_def MAX_TOKEN_LENGTH_def)
  next
    case False
    have "nat i < 2 ^ 61" using assms(2) by (simp add: nat_less_iff)
    from uint_to_string_plain [OF small [OF this]] False show ?thesis
      by (auto simp: int_text_def MAX_TOKEN_LENGTH_def)
  qed
  ultimately show ?thesis by (simp add: plain_word_def)
qed

lemma value_print_xint:
  assumes "- (2 ^ 60) \<le> i" "i < 2 ^ 60"
  shows "value_print_data fmt (xint i) = Inr (int_text i)"
proof -
  have "value_tag (xint i) = tag_word XINT" by simp
  moreover have "value_tag xtrue = tag_word XEXTENDED" "value_tag xfalse = tag_word XEXTENDED"
    using value_tag_xbool [of True] value_tag_xbool [of False] by (simp_all add: xbool_def)
  ultimately have "xint i \<noteq> xtrue" "xint i \<noteq> xfalse"
    by (metis tag_word_inject tag_t.distinct)+
  moreover have "to_int64 (xint i) = Inr i"
    using assms signed_take_bit_int_eq_self_iff [of 60 i] by (simp add: to_int64_xint)
  ultimately show ?thesis by (simp add: value_print_data_def)
qed

lemma exp_print_shape:
  "plain_exp ops e \<Longrightarrow> exp_print fmt e = Inr (print_shape (exp_shape e))"
  "list_all (plain_exp ops) es \<Longrightarrow> exp_list_texts fmt es = Inr (map (print_shape \<circ> exp_shape) es)"
proof (induction fmt e and fmt es rule: exp_print_exp_list_texts.induct)
  case (2 fmt target arg_list)
  then show ?case
    by (cases arg_list) (simp_all add: print_separated_Cons o_def)
qed (simp_all add: value_print_xint)

lemma exp_shape_plain: "plain_exp ops e \<Longrightarrow> plain_shape (exp_shape e)"
proof (induction e)
  case (EXP_AP target arg_list)
  then show ?case by (auto simp: list_all_iff)
qed (simp_all add: plain_name_def int_text_plain)

text \<open>Only an application of a name starts with that name.\<close>

lemma starts_with_head:
  assumes "plain_exp ops e" "shape_of s = exp_shape e" "sexp_starts_with s w" "\<not> string_is_xint w"
  shows "\<exists>args. e = EXP_AP (EXP_VAR w) args"
proof -
  obtain a b u ss where s: "s = List_sexp a b (Atom_sexp u # ss)" "tok_string u = w"
    using assms(3) by (auto simp: sexp_starts_with_def string_equal_def split: sexp.splits list.splits)
  then obtain target args where e: "e = EXP_AP target args" "exp_shape target = Word w"
    using assms(1,2) by (cases e) auto
  then have "target = EXP_VAR w"
    using assms(1,4) int_text_parse by (cases target) auto
  with e show ?thesis by blast
qed

lemma parse_exp_shape:
  "plain_exp ops e \<Longrightarrow> shape_of s = exp_shape e \<Longrightarrow> read_kinds ops s \<Longrightarrow> parse_exp ops s = Inr e"
proof (induction e arbitrary: s)
  case (EXP_VAR name)
  then obtain t where "s = Atom_sexp t" "tok_string t = name" "tok_kind t = GENERIC_TOKEN"
    by (cases s) (auto simp: plain_name_def)
  then show ?case by (simp add: parse_var_def exp_var_def string_copy_def)
next
  case (EXP_AP target arg_list)
  then obtain a b t ss where s: "s = List_sexp a b (t # ss)" "shape_of t = exp_shape target"
      "map shape_of ss = map exp_shape arg_list" "read_kinds ops t" "list_all (read_kinds ops) ss"
    by (cases s) auto
  have args: "list_all (plain_exp ops) arg_list" using EXP_AP.prems(1) by simp
  have "parse_args ops ss = Inr arg_list"
    using s(3,5) args EXP_AP.IH(2)
  proof (induction arg_list arbitrary: ss)
    case (Cons e es)
    from Cons.prems(1) obtain u us where ss: "ss = u # us" by (cases ss) auto
    have "parse_exp ops u = Inr e" using Cons.prems ss by auto
    moreover have "parse_args ops us = Inr es" by (rule Cons.IH) (use Cons.prems ss in auto)
    ultimately show ?case by (simp add: ss)
  qed simp
  moreover have "parse_exp ops t = Inr target"
    using EXP_AP.IH(1) [OF _ s(2,4)] EXP_AP.prems(1) by simp
  moreover have "\<not> sexp_starts_with s w" if w: "w = ''='' \<or> w = ''assign''" for w
  proof
    assume "sexp_starts_with s w"
    moreover have "\<not> string_is_xint w" using w by (elim disjE) (simp, code_simp)+
    ultimately have "target = EXP_VAR w"
      using starts_with_head [OF EXP_AP.prems(1,2)] by simp
    with w EXP_AP.prems(1) show False by auto
  qed
  ultimately show ?case by (simp add: s(1) exp_ap_def)
next
  case (EXP_INT target)
  then have i: "string_is_xint (int_text target)" "string_parse_xint (int_text target) = Inr target"
    using int_text_parse by simp_all
  from EXP_INT.prems obtain t where "s = Atom_sexp t" "tok_string t = int_text target" "tok_kind t = INT_TOKEN"
    by (cases s) (auto simp: word_kind_def i(1))
  then show ?case by (simp add: parse_int_def i(2) exp_int_def)
qed simp_all

lemma printed_exp_parsed:
  assumes "plain_exp ops e"
  shows "\<exists>t s. exp_print fmt e = Inr t \<and> sexp_parse ops t = Some (Inr (Some s)) \<and> parse_exp ops s = Inr e"
  using sexp_parse_shape [OF exp_shape_plain [OF assms], of ops] exp_print_shape(1) [OF assms, of fmt]
    parse_exp_shape [OF assms] by blast

end
