(* ===== verification/Return_Stack.thy ===== *)
theory Return_Stack
  imports Machine_Steps
begin

text \<open>
  What an operation does does not depend on the frames that wait below on the return stack: they
  are never looked at, and are still there when it is done. So a call can be run on an empty
  return stack and its frames be put back afterwards.
\<close>

definition above :: "frame list \<Rightarrow> machine \<Rightarrow> machine" where
  "above S m = m\<lparr>return_stack := return_stack m @ S\<rparr>"

abbreviation rabove :: "frame list \<Rightarrow> machine res \<Rightarrow> machine res" where
  "rabove S r \<equiv> bnd r (\<lambda>m. Inr (above S m))"

abbreviation labove :: "frame list \<Rightarrow> machine loop \<Rightarrow> machine loop" where
  "labove S r \<equiv> lbnd r (\<lambda>m. Some (Inr (above S m)))"

lemma above_fields [simp]:
  "net (above S m) = net m" "function_objects (above S m) = function_objects m"
  "primitives (above S m) = primitives m" "apply_primitives (above S m) = apply_primitives m"
  "value_hash (above S m) = value_hash m" "node_alloc (above S m) = node_alloc m"
  "free_node_stack (above S m) = free_node_stack m" "task_queue (above S m) = task_queue m"
  "task_queue_size (above S m) = task_queue_size m" "task_count (above S m) = task_count m"
  "value_stack (above S m) = value_stack m" "return_stack (above S m) = return_stack m @ S"
  by (simp_all add: above_def)

lemma above_updates [simp]:
  "(above S m)\<lparr>net := h\<rparr> = above S (m\<lparr>net := h\<rparr>)"
  "(above S m)\<lparr>primitives := ps\<rparr> = above S (m\<lparr>primitives := ps\<rparr>)"
  "(above S m)\<lparr>apply_primitives := as\<rparr> = above S (m\<lparr>apply_primitives := as\<rparr>)"
  "(above S m)\<lparr>node_alloc := al\<rparr> = above S (m\<lparr>node_alloc := al\<rparr>)"
  "(above S m)\<lparr>free_node_stack := fs\<rparr> = above S (m\<lparr>free_node_stack := fs\<rparr>)"
  "(above S m)\<lparr>task_queue := q\<rparr> = above S (m\<lparr>task_queue := q\<rparr>)"
  "(above S m)\<lparr>task_count := n\<rparr> = above S (m\<lparr>task_count := n\<rparr>)"
  "(above S m)\<lparr>value_stack := vs\<rparr> = above S (m\<lparr>value_stack := vs\<rparr>)"
  by (simp_all add: above_def)

lemma above_frame: "(above S m)\<lparr>return_stack := f # return_stack m @ S\<rparr> = above S (m\<lparr>return_stack := f # return_stack m\<rparr>)"
  by (simp add: above_def)

lemma above_nil [simp]: "above [] m = m"
  by (simp add: above_def)

lemma rabove_cases: "rabove S r = (case r of Inl e \<Rightarrow> Inl e | Inr m \<Rightarrow> Inr (above S m))"
  by (simp add: bnd_def)

section \<open>The operations\<close>

lemma above_add_found_task [simp]: "add_found_task t (above S m) = above S (add_found_task t m)"
  by (simp add: add_found_task_def worker_add_task_def Let_def split: option.split)

lemma above_connect: "worker_connect l r (above S m) = rabove S (worker_connect l r m)"
  by (simp add: worker_connect_def bnd_assoc split_def)

lemma above_push [simp]: "worker_push v (above S m) = above S (worker_push v m)"
  by (simp add: worker_push_def)

lemma above_pop: "worker_pop (above S m) = bnd (worker_pop m) (\<lambda>(v, m). Inr (v, above S m))"
  by (simp add: worker_pop_def split: list.split)

lemma above_tuck: "worker_tuck_n v n (above S m) = rabove S (worker_tuck_n v n m)"
  by (simp add: worker_tuck_n_def asserting_def)

lemma above_reconnect: "worker_reconnect_node n k (above S m) = rabove S (worker_reconnect_node n k m)"
  by (simp add: worker_reconnect_node_def bnd_assoc split_def)

lemma above_new_node:
  "worker_new_node c (above S m) = lbnd (worker_new_node c m) (\<lambda>(n, m). Some (Inr (n, above S m)))"
  by (auto simp: worker_new_node_def lbnd_def deref_def split: option.split sum.split)

lemma above_apply_node: "apply_node c k (above S m) = labove S (apply_node c k m)"
  by (auto simp: apply_node_def above_new_node above_reconnect lbnd_def split: option.split sum.split)

lemma above_apply_function: "apply_function f k (above S m) = rabove S (apply_function f k m)"
  by (simp add: apply_function_def deref_def above_frame split: option.split)

lemma above_set_node_ctor: "primitive_set_node_ctor p ns (above S m) = rabove S (primitive_set_node_ctor p ns m)"
  by (auto simp: primitive_set_node_ctor_def deref_def bnd_def asserting_def Let_def split: option.split sum.split)

lemma above_initialize_loop: "initialize_apply_loop k ns (above S m) = rabove S (initialize_apply_loop k ns m)"
proof (induction k ns m rule: initialize_apply_loop.induct)
  case (2 k name ports rest m)
  then show ?case
    by (auto simp: new_primitive_def Let_def above_set_node_ctor bnd_def split: sum.split)
qed simp

lemma above_initialize: "initialize_apply_primitives (above S m) = rabove S (initialize_apply_primitives m)"
  by (simp add: initialize_apply_primitives_def above_initialize_loop)

lemma above_x_connect: "x_connect (above S m) = rabove S (x_connect m)"
  by (auto simp: x_connect_def above_pop above_connect bnd_def asserting_def split: sum.split)

lemma above_x_link: "x_link (above S m) = above S (x_link m)"
  by (simp add: x_link_def Let_def wire_new_def)

lemma above_x_assert: "x_assert (above S m) = rabove S (x_assert m)"
  by (auto simp: x_assert_def above_pop bnd_def split: sum.split)

lemma above_dup: "dup_when t (above S m) = rabove S (dup_when t m)"
  by (simp add: dup_when_def worker_top_def asserting_def split: list.split)

lemma above_x_apply_target:
  "x_apply_target n (above S m) = bnd (x_apply_target n m) (\<lambda>(v, m). Inr (v, above S m))"
  by (simp add: x_apply_target_def asserting_def)

lemma above_pop_args: "pop_args n (above S m) = bnd (pop_args n m) (\<lambda>(vs, m). Inr (vs, above S m))"
  by (simp add: pop_args_def asserting_def)

lemma above_push_result [simp]: "push_result v (above S m) = above S (push_result v m)"
  by (simp add: push_result_def)

lemma above_apply_value_fn: "apply_value_fn f (above S m) = rabove S (apply_value_fn f m)"
  by (cases f) (auto simp: apply_value_fn_def above_pop_args bnd_def split: sum.split)

lemmas above_ops = above_connect above_pop above_tuck above_apply_node above_apply_function
  above_initialize above_x_connect above_x_link above_x_assert above_dup above_x_apply_target
  above_apply_value_fn

lemma above_apply:
  "worker_apply v k (above S m) = labove S (worker_apply v k m)"
  "worker_apply_wire a k (above S m) = labove S (worker_apply_wire a k m)"
  "worker_apply_primitive p (above S m) = labove S (worker_apply_primitive p m)"
proof (induction v k m and a k m and p m rule: worker_apply_worker_apply_wire_worker_apply_primitive.induct)
  case (2 f arity m)
  then show ?case
    by (cases "apply_function f arity m") (simp_all add: above_ops)
next
  case (3 p arity m)
  then show ?case
    by (auto simp: above_ops split: option.split)
next
  case (6 a arity m)
  show ?case
  proof (cases "defuze (net m) (VWire a)")
    case (Inr r)
    obtain v h where r: "r = (v, h)" by (cases r) blast
    show ?thesis
    proof (cases "is_wire v")
      case False
      with 6 Inr r show ?thesis by (simp add: worker_apply_wire.simps)
    next
      case True
      then show ?thesis
        by (auto simp: worker_apply_wire.simps Inr r above_initialize above_tuck above_apply_node
            lbnd_def bnd_def deref_def split: option.split sum.split)
    qed
  qed (simp add: worker_apply_wire.simps)
next
  case (7 p m)
  show ?case
  proof (cases "at (primitives m) p")
    case (Some self)
    show ?thesis
    proof (cases "primitive_fn self")
      case (Primitive_fn w)
      show ?thesis
      proof (cases w)
        case (X_apply n)
        with 7 Some Primitive_fn show ?thesis
          by (cases "x_apply_target n m")
            (auto simp: worker_apply_primitive.simps above_x_apply_target)
      qed (auto simp: worker_apply_primitive.simps Some Primitive_fn above_ops xint_dup_def
          xfloat_dup_def x_fn_dup_def lbnd_def bnd_def split: sum.split)
    qed (auto simp: worker_apply_primitive.simps Some above_ops lbnd_def bnd_def split: sum.split)
  qed (simp add: worker_apply_primitive.simps)
qed (simp_all add: above_ops)

section \<open>Steps and runs\<close>

lemma above_execute_opcode:
  "worker_execute_opcode op frame fin (above S m) = labove S (worker_execute_opcode op frame fin m)"
proof -
  have push: "push_frame fin fr (above S k) = above S (push_frame fin fr k)" for fr k
    by (simp add: push_frame_def above_def)
  show ?thesis
    by (cases op)
      (auto simp: worker_execute_opcode_def push above_pop above_apply lbnd_def bnd_def
        split: option.split sum.split)
qed

lemma above_run_one_step:
  assumes "return_stack m \<noteq> []"
  shows "worker_run_one_step (above S m) = labove S (worker_run_one_step m)"
proof -
  obtain frame frames where rs: "return_stack m = frame # frames"
    using assms by (cases "return_stack m") auto
  have pop: "(above S m)\<lparr>return_stack := frames @ S\<rparr> = above S (m\<lparr>return_stack := frames\<rparr>)"
    by (simp add: above_def)
  show ?thesis
    by (auto simp: worker_run_one_step_def rs pop above_execute_opcode lbnd_def split: option.split sum.split)
qed

lemma run_until_step:
  "b < length (return_stack m) \<Longrightarrow> worker_run_until b m = lbnd (worker_run_one_step m) (worker_run_until b)"
  by (subst worker_run_until_simps) simp

lemma run_until_done [simp]: "length (return_stack m) \<le> b \<Longrightarrow> worker_run_until b m = Some (Inr m)"
  by (subst worker_run_until_simps) simp

text \<open>
  A fact of every finished run: it holds of a state that is done, and of a state whose next
  step fails or leads to one it holds of.
\<close>

lemma run_until_induct [consumes 1, case_names finished fail step]:
  assumes run: "worker_run_until b m = Some r"
    and finished: "\<And>m. length (return_stack m) \<le> b \<Longrightarrow> P m (Inr m)"
    and fail: "\<And>m e. b < length (return_stack m) \<Longrightarrow> worker_run_one_step m = Some (Inl e) \<Longrightarrow> P m (Inl e)"
    and step: "\<And>m m' r. b < length (return_stack m) \<Longrightarrow> worker_run_one_step m = Some (Inr m') \<Longrightarrow>
      worker_run_until b m' = Some r \<Longrightarrow> P m' r \<Longrightarrow> P m r"
  shows "P m r"
proof -
  let ?P = "\<lambda>c m r. c = b \<longrightarrow> worker_run_until b m = Some r \<and> P m r"
  have "?P b m r"
  proof (rule worker_run_until.raw_induct [of ?P, OF _ run])
    fix w c k q
    assume IH: "\<And>c k q. w c k = Some q \<Longrightarrow> ?P c k q"
      and eq: "(if c < length (return_stack k) then lbnd (worker_run_one_step k) (\<lambda>m. w c m)
        else Some (Inr k)) = Some q"
    show "?P c k q"
    proof
      assume c: "c = b"
      show "worker_run_until b k = Some q \<and> P k q"
      proof (cases "b < length (return_stack k)")
        case True
        then obtain s where s: "worker_run_one_step k = Some s"
          using eq c by (cases "worker_run_one_step k") auto
        show ?thesis
        proof (cases s)
          case (Inl e)
          then have "q = Inl e" using True s eq c by simp
          moreover have "worker_run_until b k = Some (Inl e)" "P k (Inl e)"
            using True s Inl fail by (simp_all add: run_until_step)
          ultimately show ?thesis by simp
        next
          case (Inr k')
          then have "w b k' = Some q" using True s eq c by simp
          with IH [of b k' q] have "worker_run_until b k' = Some q" "P k' q" by simp_all
          with True s Inr show ?thesis by (simp add: run_until_step step)
        qed
      next
        case False
        with eq c finished show ?thesis by auto
      qed
    qed
  qed
  then show ?thesis by simp
qed

lemma option_eqI: "(\<And>r. x = Some r \<Longrightarrow> y = Some r) \<Longrightarrow> (\<And>r. y = Some r \<Longrightarrow> x = Some r) \<Longrightarrow> x = y"
  by (metis option.exhaust)

lemma above_run_until:
  "worker_run_until (b + length S) (above S m) = labove S (worker_run_until b m)"
proof (rule option_eqI)
  show "labove S (worker_run_until b m) = Some r" if "worker_run_until (b + length S) (above S m) = Some r" for r
  proof -
    have "\<forall>m. k = above S m \<longrightarrow> labove S (worker_run_until b m) = Some q"
      if "worker_run_until (b + length S) k = Some q" for k q
      using that
    proof (induction rule: run_until_induct)
      case (fail k e)
      show ?case
      proof (intro allI impI)
        fix m
        assume k: "k = above S m"
        then have "b < length (return_stack m)" using fail(1) by simp
        moreover from this have "return_stack m \<noteq> []" by auto
        then have "worker_run_one_step m = Some (Inl e)"
          using fail(2) k above_run_one_step [of m S]
          by (cases "worker_run_one_step m") (auto simp: lbnd_def split: sum.splits)
        ultimately show "labove S (worker_run_until b m) = Some (Inl e)"
          by (simp add: run_until_step)
      qed
    next
      case (step k k' q)
      show ?case
      proof (intro allI impI)
        fix m
        assume k: "k = above S m"
        then have "b < length (return_stack m)" using step(1) by simp
        moreover from this have "return_stack m \<noteq> []" by auto
        then obtain m' where "worker_run_one_step m = Some (Inr m')" "k' = above S m'"
          using step(2) k above_run_one_step [of m S]
          by (cases "worker_run_one_step m") (auto simp: lbnd_def split: sum.splits)
        ultimately show "labove S (worker_run_until b m) = Some q"
          using step(4) by (simp add: run_until_step)
      qed
    qed auto
    with that show ?thesis by blast
  qed
  show "worker_run_until (b + length S) (above S m) = Some r" if run: "labove S (worker_run_until b m) = Some r" for r
  proof -
    obtain q where q: "worker_run_until b m = Some q" "labove S (Some q) = Some r"
      using run by (cases "worker_run_until b m") auto
    from q(1) have "worker_run_until (b + length S) (above S m) = labove S (Some q)"
    proof (induction rule: run_until_induct)
      case (fail m e)
      then have "return_stack m \<noteq> []" by auto
      with fail show ?case by (simp add: run_until_step above_run_one_step)
    next
      case (step m m' q)
      then have "return_stack m \<noteq> []" by auto
      with step show ?case by (simp add: run_until_step above_run_one_step)
    qed auto
    with q(2) show ?thesis by simp
  qed
qed

lemma run_until_split:
  assumes "b \<le> c"
  shows "worker_run_until b m = lbnd (worker_run_until c m) (worker_run_until b)"
proof (rule option_eqI)
  show "lbnd (worker_run_until c m) (worker_run_until b) = Some r" if "worker_run_until b m = Some r" for r
    using that
  proof (induction rule: run_until_induct)
    case (fail m e)
    then show ?case
      by (cases "c < length (return_stack m)") (simp_all add: run_until_step)
  next
    case (step m m' r)
    then show ?case
      by (cases "c < length (return_stack m)") (simp_all add: run_until_step)
  qed (use assms in auto)
  show "worker_run_until b m = Some r" if run: "lbnd (worker_run_until c m) (worker_run_until b) = Some r" for r
  proof -
    obtain q where q: "worker_run_until c m = Some q" "lbnd (Some q) (worker_run_until b) = Some r"
      using run by (cases "worker_run_until c m") auto
    from q(1) have "worker_run_until b m = lbnd (Some q) (worker_run_until b)"
      by (induction rule: run_until_induct) (use assms in \<open>auto simp: run_until_step\<close>)
    with q(2) show ?thesis by simp
  qed
qed

lemma run_until_length:
  assumes "worker_run_until b m = Some (Inr m')"
  shows "length (return_stack m') \<le> b"
proof -
  have "\<forall>m'. r = Inr m' \<longrightarrow> length (return_stack m') \<le> b" if "worker_run_until b m = Some r" for r
    using that by (induction rule: run_until_induct) auto
  with assms show ?thesis by blast
qed

section \<open>The functions stay\<close>

text \<open>Running makes no function and changes none; with the loader, functions only come from \<open>execute\<close>.\<close>

definition same_code :: "machine \<Rightarrow> machine res \<Rightarrow> bool" where
  "same_code m r \<longleftrightarrow> (\<forall>m'. r = Inr m' \<longrightarrow> function_objects m' = function_objects m)"

definition same_code_loop :: "machine \<Rightarrow> machine loop \<Rightarrow> bool" where
  "same_code_loop m r \<longleftrightarrow> (\<forall>m'. r = Some (Inr m') \<longrightarrow> function_objects m' = function_objects m)"

lemma function_objects_add_found_task [simp]:
  "function_objects (add_found_task t m) = function_objects m"
  by (simp add: add_found_task_def worker_add_task_def Let_def split: option.split)

lemma function_objects_push [simp]:
  "function_objects (worker_push v m) = function_objects m"
  "function_objects (push_result v m) = function_objects m"
  "function_objects (x_link m) = function_objects m"
  "function_objects (push_frame fin f m) = function_objects m"
  by (simp_all add: worker_push_def push_result_def x_link_def push_frame_def Let_def split_def)

lemma same_code_pop: "worker_pop m = Inr (v, m') \<Longrightarrow> function_objects m' = function_objects m"
  by (auto simp: worker_pop_def split: list.splits)

lemma same_code_connect: "worker_connect l r m = Inr m' \<Longrightarrow> function_objects m' = function_objects m"
  by (auto simp: worker_connect_def bnd_eq_Inr)

lemma same_code_apply_node: "same_code_loop m (apply_node c k m)"
  by (auto simp: same_code_loop_def apply_node_def lbnd_eq_Some_Inr worker_new_node_def
      worker_reconnect_node_def bnd_eq_Inr deref_eq_Inr)

lemma same_code_apply_function: "same_code m (apply_function f k m)"
  by (auto simp: same_code_def apply_function_def deref_eq_Inr split: if_splits)

lemma same_code_set_node_ctor: "primitive_set_node_ctor p ns m = Inr m' \<Longrightarrow> function_objects m' = function_objects m"
  by (auto simp: primitive_set_node_ctor_def deref_eq_Inr bnd_eq_Inr asserting_eq_Inr Let_def)

lemma same_code_initialize_loop: "same_code m (initialize_apply_loop k ns m)"
proof (induction k ns m rule: initialize_apply_loop.induct)
  case (2 k name ports rest m)
  then show ?case
    unfolding same_code_def
    by (fastforce simp: new_primitive_def Let_def bnd_eq_Inr dest: same_code_set_node_ctor)
qed (simp add: same_code_def)

lemma same_code_initialize: "initialize_apply_primitives m = Inr m' \<Longrightarrow> function_objects m' = function_objects m"
  using same_code_initialize_loop by (auto simp: initialize_apply_primitives_def same_code_def split: if_splits)

lemma same_code_tuck: "worker_tuck_n v n m = Inr m' \<Longrightarrow> function_objects m' = function_objects m"
  by (auto simp: worker_tuck_n_def asserting_eq_Inr)

lemma same_code_x_apply_target: "x_apply_target n m = Inr (v, m') \<Longrightarrow> function_objects m' = function_objects m"
  by (auto simp: x_apply_target_def asserting_eq_Inr)

lemma same_code_x_connect: "same_code m (x_connect m)"
  by (auto simp: same_code_def x_connect_def bnd_eq_Inr asserting_eq_Inr same_code_pop
      dest!: same_code_connect)

lemma same_code_x_assert: "same_code m (x_assert m)"
  by (auto simp: same_code_def x_assert_def bnd_eq_Inr same_code_pop split: if_splits)

lemma same_code_dup: "same_code m (dup_when t m)"
  by (auto simp: same_code_def dup_when_def bnd_eq_Inr asserting_eq_Inr)

lemma same_code_apply_value_fn: "same_code m (apply_value_fn f m)"
  by (auto simp: same_code_def apply_value_fn_def bnd_eq_Inr pop_args_def asserting_eq_Inr
      split: primitive_fn.splits)

lemmas same_code_ops = same_code_apply_node same_code_apply_function same_code_x_connect
  same_code_x_assert same_code_dup same_code_apply_value_fn

lemma same_code_apply:
  "same_code_loop m (worker_apply v k m)"
  "same_code_loop m (worker_apply_wire a k m)"
  "same_code_loop m (worker_apply_primitive p m)"
proof (induction v k m and a k m and p m rule: worker_apply_worker_apply_wire_worker_apply_primitive.induct)
  case (1 c arity m)
  then show ?case by (simp add: same_code_apply_node)
next
  case (2 f arity m)
  then show ?case using same_code_apply_function by (auto simp: same_code_def same_code_loop_def)
next
  case (3 p arity m)
  then show ?case
    using same_code_apply_node by (auto simp: same_code_loop_def split: option.splits if_splits)
next
  case (6 a arity m)
  show ?case
  proof (cases "defuze (net m) (VWire a)")
    case (Inr r)
    obtain v h where r: "r = (v, h)" by (cases r) blast
    show ?thesis
    proof (cases "is_wire v")
      case False
      with 6 Inr r show ?thesis by (simp add: worker_apply_wire.simps same_code_loop_def)
    next
      case True
      then show ?thesis
        using same_code_apply_node
        by (auto simp: same_code_loop_def worker_apply_wire.simps Inr r lbnd_eq_Some_Inr
            dest!: same_code_initialize same_code_tuck split: if_splits)
    qed
  qed (simp add: worker_apply_wire.simps same_code_loop_def)
next
  case (7 p m)
  show ?case
  proof (cases "at (primitives m) p")
    case (Some self)
    show ?thesis
    proof (cases "primitive_fn self")
      case (Primitive_fn w)
      show ?thesis
      proof (cases w)
        case (X_apply n)
        with 7 Some Primitive_fn show ?thesis
          by (fastforce simp: same_code_loop_def worker_apply_primitive.simps lbnd_eq_Some_Inr
              dest: same_code_x_apply_target)
      qed (use same_code_x_connect same_code_x_assert same_code_dup in
          \<open>auto simp: worker_apply_primitive.simps Some Primitive_fn xint_dup_def
          xfloat_dup_def x_fn_dup_def same_code_loop_def same_code_def\<close>)
    qed (use same_code_apply_value_fn in
        \<open>auto simp: worker_apply_primitive.simps Some same_code_loop_def same_code_def\<close>)
  qed (simp add: worker_apply_primitive.simps same_code_loop_def)
qed (simp_all add: same_code_loop_def)

lemma same_code_execute_opcode: "same_code_loop m (worker_execute_opcode op frame fin m)"
  using same_code_apply(1)
  by (cases op)
    (auto simp: same_code_loop_def worker_execute_opcode_def lbnd_eq_Some_Inr bnd_eq_Inr dest!: same_code_pop)

lemma same_code_run_one_step: "same_code_loop m (worker_run_one_step m)"
proof (cases "return_stack m")
  case (Cons frame frames)
  then show ?thesis
    using same_code_execute_opcode [where m = "m\<lparr>return_stack := frames\<rparr>"]
    by (auto simp: same_code_loop_def worker_run_one_step_def lbnd_eq_Some_Inr split: if_splits)
qed (simp add: same_code_loop_def worker_run_one_step_def)

lemma same_code_run_until: "same_code_loop m (worker_run_until b m)"
proof -
  have "same_code m r" if "worker_run_until b m = Some r" for r
    using that
  proof (induction rule: run_until_induct)
    case (step m m' r)
    then show ?case using same_code_run_one_step [of m] by (auto simp: same_code_def same_code_loop_def)
  qed (simp_all add: same_code_def)
  then show ?thesis by (simp add: same_code_def same_code_loop_def)
qed

end
