(* ===== verification/Compile.thy ===== *)
theory Compile
  imports Lang_Syntax Return_Stack
begin

text \<open>
  The compiler (\<open>src/src/lang/compile.c\<close>): expressions are appended to the operations of a
  function, whose local variables get numbered slots in the order in which they are first set. The
  correctness of the compiler is stated against an evaluator that keeps the variables by name and
  knows neither slots nor frames.
\<close>

section \<open>Compiling\<close>

definition compile_set_variable :: "function_t \<Rightarrow> string \<Rightarrow> function_t" where
  "compile_set_variable f name =
     (let index = local_index_length f
      in case local_index_hash f name of
           Some old_index \<Rightarrow> function_add_opcode f (Op_set_variable old_index)
         | None \<Rightarrow>
             function_add_opcode
               (f\<lparr>local_index_hash := (local_index_hash f)(string_copy name \<mapsto> index),
                  local_index_length := Suc (local_index_length f)\<rparr>)
               (Op_set_variable index))"

text \<open>The names are taken from the last to the first, as the values lie on the stack.\<close>

definition compile_set_variable_list :: "function_t \<Rightarrow> string list \<Rightarrow> function_t" where
  "compile_set_variable_list f name_list = foldl compile_set_variable f (rev name_list)"

definition maybe_compile_get_variable :: "function_t \<Rightarrow> string \<Rightarrow> function_t option" where
  "maybe_compile_get_variable f name =
     (case local_index_hash f name of
        None \<Rightarrow> None
      | Some index \<Rightarrow> Some (function_add_opcode f (Op_get_variable index)))"

definition compile_literal :: "machine \<Rightarrow> function_t \<Rightarrow> string \<Rightarrow> function_t res" where
  "compile_literal m f name =
     (let v = mod_find m name
      in if v = VNull then Inl Exit_failure else Inr (function_add_opcode f (Op_literal v)))"

fun compile_exp :: "machine \<Rightarrow> function_t \<Rightarrow> exp \<Rightarrow> function_t res"
  and compile_exp_list :: "machine \<Rightarrow> function_t \<Rightarrow> exp list \<Rightarrow> function_t res" where
  "compile_exp m f (EXP_VAR name) =
     (case maybe_compile_get_variable f name of
        Some f \<Rightarrow> Inr f
      | None \<Rightarrow> compile_literal m f name)"
| "compile_exp m f (EXP_AP target arg_list) =
     bnd (compile_exp_list m f arg_list) (\<lambda>f.
     bnd (compile_exp m f target) (\<lambda>f.
       Inr (function_add_opcode f (Op_apply (length arg_list)))))"
| "compile_exp m f (EXP_ASSIGN name_list None) = Inl Undefined"
| "compile_exp m f (EXP_ASSIGN name_list (Some e)) =
     bnd (compile_exp m f e) (\<lambda>f. Inr (compile_set_variable_list f name_list))"
| "compile_exp m f (EXP_INT target) = Inr (function_add_opcode f (Op_literal (VImm (xint target))))"
| "compile_exp m f (EXP_FLOAT target) = Inr (function_add_opcode f (Op_literal (VImm (xfloat target))))"
| "compile_exp_list m f [] = Inr f"
| "compile_exp_list m f (e # es) = bnd (compile_exp m f e) (\<lambda>f. compile_exp_list m f es)"

section \<open>Slots\<close>

text \<open>The slots that are in use are the first ones, and each name has its own.\<close>

definition slots_ok :: "function_t \<Rightarrow> bool" where
  "slots_ok f \<longleftrightarrow>
     (\<forall>name i. local_index_hash f name = Some i \<longrightarrow> i < local_index_length f) \<and>
     (\<forall>a b i. local_index_hash f a = Some i \<longrightarrow> local_index_hash f b = Some i \<longrightarrow> a = b)"

lemma slots_ok_new [simp]: "slots_ok (function_new arity)"
  by (simp add: slots_ok_def function_new_def)

lemma add_opcode_fields [simp]:
  "local_index_hash (function_add_opcode f op) = local_index_hash f"
  "local_index_length (function_add_opcode f op) = local_index_length f"
  "opcode_array (function_add_opcode f op) = opcode_array f @ [op]"
  "function_arity (function_add_opcode f op) = function_arity f"
  "function_name (function_add_opcode f op) = function_name f"
  by (simp_all add: function_add_opcode_def)

lemma slots_ok_add_opcode [simp]: "slots_ok (function_add_opcode f op) = slots_ok f"
  by (simp add: slots_ok_def)

lemma slots_ok_set_variable: "slots_ok f \<Longrightarrow> slots_ok (compile_set_variable f name)"
  by (auto simp: slots_ok_def compile_set_variable_def Let_def string_copy_def
      split: option.splits) (metis less_SucI)

text \<open>What compiling does to a function: it appends operations and keeps the slots that are in use.\<close>

definition code_extends :: "function_t \<Rightarrow> function_t \<Rightarrow> bool" where
  "code_extends f f' \<longleftrightarrow>
     (\<exists>ops. opcode_array f' = opcode_array f @ ops) \<and>
     (\<forall>name i. local_index_hash f name = Some i \<longrightarrow> local_index_hash f' name = Some i) \<and>
     local_index_length f \<le> local_index_length f' \<and>
     function_arity f' = function_arity f \<and> function_name f' = function_name f"

lemma code_extends_refl [simp]: "code_extends f f"
  by (simp add: code_extends_def)

lemma code_extends_trans: "code_extends f g \<Longrightarrow> code_extends g h \<Longrightarrow> code_extends f h"
  by (auto simp: code_extends_def)

lemma code_extends_add_opcode [simp]: "code_extends f (function_add_opcode f op)"
  by (simp add: code_extends_def)

lemma code_extends_set_variable: "code_extends f (compile_set_variable f name)"
  by (simp add: code_extends_def compile_set_variable_def Let_def string_copy_def split: option.split)

lemma set_variables_keep:
  "slots_ok f \<Longrightarrow> slots_ok (foldl compile_set_variable f names) \<and> code_extends f (foldl compile_set_variable f names)"
  by (induction names arbitrary: f)
    (auto intro: slots_ok_set_variable code_extends_set_variable code_extends_trans)

lemma compile_keeps:
  "compile_exp m f e = Inr f' \<Longrightarrow> slots_ok f \<Longrightarrow> slots_ok f' \<and> code_extends f f'"
  "compile_exp_list m f es = Inr f' \<Longrightarrow> slots_ok f \<Longrightarrow> slots_ok f' \<and> code_extends f f'"
proof (induction m f e and m f es arbitrary: f' and f' rule: compile_exp_compile_exp_list.induct)
  case (1 m f name)
  then show ?case
    by (auto simp: maybe_compile_get_variable_def compile_literal_def Let_def split: option.splits if_splits)
next
  case (2 m f target arg_list)
  then obtain g h where g: "compile_exp_list m f arg_list = Inr g" "compile_exp m g target = Inr h"
      "f' = function_add_opcode h (Op_apply (length arg_list))"
    by (auto simp: bnd_eq_Inr)
  have "slots_ok g \<and> code_extends f g" using 2(1) [OF g(1) 2(4)] .
  moreover from this have "slots_ok h \<and> code_extends g h" using 2(2) [OF g(1) g(2)] by simp
  ultimately show ?case
    using code_extends_trans code_extends_add_opcode g(3) slots_ok_add_opcode by metis
next
  case (4 m f name_list e)
  then obtain g where g: "compile_exp m f e = Inr g" "f' = compile_set_variable_list g name_list"
    by (auto simp: bnd_eq_Inr)
  have "slots_ok g \<and> code_extends f g" using 4(1) [OF g(1) 4(3)] .
  then show ?case
    using set_variables_keep [of g "rev name_list"] code_extends_trans
    by (auto simp: g(2) compile_set_variable_list_def)
next
  case (8 m f e es)
  then obtain g where g: "compile_exp m f e = Inr g" "compile_exp_list m g es = Inr f'"
    by (auto simp: bnd_eq_Inr)
  have "slots_ok g \<and> code_extends f g" using 8(1) [OF g(1) 8(4)] .
  moreover from this have "slots_ok f' \<and> code_extends g f'" using 8(2) [OF g(1) g(2)] by simp
  ultimately show ?case using code_extends_trans by blast
qed auto

section \<open>The literals of the code\<close>

lemma set_variables_literals:
  "\<forall>op \<in> set (opcode_array f). literal_ok op \<Longrightarrow>
     \<forall>op \<in> set (opcode_array (foldl compile_set_variable f names)). literal_ok op"
proof (induction names arbitrary: f)
  case (Cons name names)
  have "\<forall>op \<in> set (opcode_array (compile_set_variable f name)). literal_ok op"
    using Cons.prems by (auto simp: compile_set_variable_def Let_def literal_ok_def split: option.split)
  from Cons.IH [OF this] show ?case by simp
qed simp

lemma literal_ok_xint [simp]: "literal_ok (Op_literal (VImm w))"
  by (simp add: literal_ok_def is_non_wire_def is_wire_def is_principal_wire_def)

lemma compile_literals:
  assumes "\<And>name. mod_find m name \<noteq> VNull \<Longrightarrow> is_non_wire (mod_find m name)"
  shows "compile_exp m f e = Inr f' \<Longrightarrow> \<forall>op \<in> set (opcode_array f). literal_ok op \<Longrightarrow>
      \<forall>op \<in> set (opcode_array f'). literal_ok op"
    and "compile_exp_list m f es = Inr f' \<Longrightarrow> \<forall>op \<in> set (opcode_array f). literal_ok op \<Longrightarrow>
      \<forall>op \<in> set (opcode_array f'). literal_ok op"
  using assms
proof (induction m f e and m f es arbitrary: f' and f' rule: compile_exp_compile_exp_list.induct)
  case (1 m f name)
  then show ?case
    by (auto simp: maybe_compile_get_variable_def compile_literal_def literal_ok_def Let_def
        split: option.splits if_splits)
next
  case (2 m f target arg_list)
  then obtain g h where g: "compile_exp_list m f arg_list = Inr g" "compile_exp m g target = Inr h"
      "f' = function_add_opcode h (Op_apply (length arg_list))"
    by (auto simp: bnd_eq_Inr)
  have "\<forall>op \<in> set (opcode_array g). literal_ok op" using 2(1) [OF g(1)] 2(4,5) by blast
  then have "\<forall>op \<in> set (opcode_array h). literal_ok op" using 2(2) [OF g(1) g(2)] 2(5) by blast
  then show ?case by (auto simp: g(3) literal_ok_def)
next
  case (4 m f name_list e)
  then obtain g where g: "compile_exp m f e = Inr g" "f' = compile_set_variable_list g name_list"
    by (auto simp: bnd_eq_Inr)
  have "\<forall>op \<in> set (opcode_array g). literal_ok op" using 4(1) [OF g(1)] 4(3,4) by blast
  then show ?case
    unfolding g(2) compile_set_variable_list_def by (rule set_variables_literals)
next
  case (8 m f e es)
  then obtain g where g: "compile_exp m f e = Inr g" "compile_exp_list m g es = Inr f'"
    by (auto simp: bnd_eq_Inr)
  have "\<forall>op \<in> set (opcode_array g). literal_ok op" using 8(1) [OF g(1)] 8(4,5) by blast
  then show ?case using 8(2) [OF g(1) g(2)] 8(5) by blast
qed auto

section \<open>Evaluating\<close>

text \<open>
  The reference: an environment has the local names, each with the value it holds, or VNull when
  that was taken; any other name is its value in the module. A call runs what was applied until
  the return stack, which is empty before, is empty again.
\<close>

type_synonym env = "string \<rightharpoonup> val"

definition eval_apply :: "val \<Rightarrow> nat \<Rightarrow> machine \<Rightarrow> machine loop" where
  "eval_apply target arity m = lbnd (worker_apply target arity m) (worker_run_until 0)"

definition eval_name :: "(string \<Rightarrow> val) \<Rightarrow> string \<Rightarrow> env \<times> machine \<Rightarrow> (env \<times> machine) res" where
  "eval_name lits name = (\<lambda>(env, m).
     case env name of
       None \<Rightarrow> Inr (env, worker_push (lits name) m)
     | Some v \<Rightarrow> if v = VNull then Inl Exit_failure else Inr (env(name \<mapsto> VNull), worker_push v m))"

definition eval_set :: "string \<Rightarrow> env \<times> machine \<Rightarrow> (env \<times> machine) res" where
  "eval_set name = (\<lambda>(env, m).
     bnd (worker_pop m) (\<lambda>(v, m).
       if env name = None \<or> env name = Some VNull then Inr (env(name \<mapsto> v), m) else Inl Exit_failure))"

fun eval_sets :: "string list \<Rightarrow> env \<times> machine \<Rightarrow> (env \<times> machine) res" where
  "eval_sets [] s = Inr s"
| "eval_sets (name # names) s = bnd (eval_set name s) (eval_sets names)"

fun eval_exp :: "(string \<Rightarrow> val) \<Rightarrow> exp \<Rightarrow> env \<times> machine \<Rightarrow> (env \<times> machine) loop"
  and eval_exp_list :: "(string \<Rightarrow> val) \<Rightarrow> exp list \<Rightarrow> env \<times> machine \<Rightarrow> (env \<times> machine) loop" where
  "eval_exp lits (EXP_VAR name) s = Some (eval_name lits name s)"
| "eval_exp lits (EXP_AP target arg_list) s =
     lbnd (eval_exp_list lits arg_list s) (\<lambda>s.
     lbnd (eval_exp lits target s) (\<lambda>(env, m).
     lbnd (Some (worker_pop m)) (\<lambda>(v, m).
     lbnd (eval_apply v (length arg_list) m) (\<lambda>m. Some (Inr (env, m))))))"
| "eval_exp lits (EXP_ASSIGN name_list None) s = Some (Inl Undefined)"
| "eval_exp lits (EXP_ASSIGN name_list (Some e)) s =
     lbnd (eval_exp lits e s) (\<lambda>s. Some (eval_sets (rev name_list) s))"
| "eval_exp lits (EXP_INT target) s = Some (Inr (fst s, worker_push (VImm (xint target)) (snd s)))"
| "eval_exp lits (EXP_FLOAT target) s = Some (Inr (fst s, worker_push (VImm (xfloat target)) (snd s)))"
| "eval_exp_list lits [] s = Some (Inr s)"
| "eval_exp_list lits (e # es) s = lbnd (eval_exp lits e s) (eval_exp_list lits es)"

section \<open>Running a frame\<close>

text \<open>A machine whose only frame is that of function \<open>a\<close>, at operation \<open>c\<close>, with its variables.\<close>

definition framed :: "nat \<Rightarrow> nat \<Rightarrow> val list \<Rightarrow> machine \<Rightarrow> machine" where
  "framed a c vars m =
     m\<lparr>return_stack := [\<lparr>frame_cursor = c, frame_function = a, variable_array = vars\<rparr>]\<rparr>"

lemma above_framed:
  "return_stack m = [] \<Longrightarrow>
     above [\<lparr>frame_cursor = c, frame_function = a, variable_array = vars\<rparr>] m = framed a c vars m"
  by (simp add: above_def framed_def)

lemma same_return_stack: "return_stack m = rs \<Longrightarrow> m\<lparr>return_stack := rs\<rparr> = m"
  by (cases m) simp

lemma run_finished:
  assumes "cell (function_objects m) a = Some fn" "c = length (opcode_array fn)" "return_stack m = []"
  shows "worker_run_until 0 (framed a c vars m) = Some (Inr m)"
  using assms
  by (subst run_until_step)
    (simp_all add: framed_def worker_run_one_step_def frame_is_finished_def function_length_def
      same_return_stack)

lemma run_op:
  assumes "cell (function_objects m) a = Some fn" "c < length (opcode_array fn)" "return_stack m = []"
  shows "worker_run_until 0 (framed a c vars m) =
     lbnd (worker_execute_opcode (opcode_array fn ! c)
             \<lparr>frame_cursor = Suc c, frame_function = a, variable_array = vars\<rparr>
             (Suc c = length (opcode_array fn)) m)
       (worker_run_until 0)"
  using assms
  by (subst run_until_step)
    (simp_all add: framed_def worker_run_one_step_def frame_is_finished_def function_length_def
      frame_fetch_opcode_def function_get_opcode_def at_def same_return_stack)

text \<open>The frame goes on with its next operation, or is done and gone, which is the same.\<close>

lemma run_resume:
  assumes "cell (function_objects m) a = Some fn" "return_stack m = []"
  shows "worker_run_until 0 (push_frame (c = length (opcode_array fn))
       \<lparr>frame_cursor = c, frame_function = a, variable_array = vars\<rparr> m) =
     worker_run_until 0 (framed a c vars m)"
proof (cases "c = length (opcode_array fn)")
  case True
  with assms show ?thesis by (simp add: push_frame_def run_finished)
next
  case False
  with assms show ?thesis by (simp add: push_frame_def framed_def)
qed

lemma pop_fields:
  "worker_pop m = Inr (v, m') \<Longrightarrow> return_stack m' = return_stack m \<and> function_objects m' = function_objects m"
  by (auto simp: worker_pop_def split: list.splits)

lemma push_fields [simp]:
  "return_stack (worker_push v m) = return_stack m"
  by (simp add: worker_push_def)

lemma eval_apply_fields:
  assumes "eval_apply v k m = Some (Inr m')"
  shows "return_stack m' = []" and "function_objects m' = function_objects m"
proof -
  obtain m1 where m1: "worker_apply v k m = Some (Inr m1)" "worker_run_until 0 m1 = Some (Inr m')"
    using assms by (auto simp: eval_apply_def lbnd_eq_Some_Inr)
  show "return_stack m' = []" using run_until_length [OF m1(2)] by simp
  show "function_objects m' = function_objects m"
    using m1 same_code_apply(1) [of m v k] same_code_run_until [of m1 0]
    by (simp add: same_code_loop_def)
qed

lemma run_literal:
  assumes "cell (function_objects m) a = Some fn" "c < length (opcode_array fn)" "return_stack m = []"
    and "opcode_array fn ! c = Op_literal v"
  shows "worker_run_until 0 (framed a c vars m) = worker_run_until 0 (framed a (Suc c) vars (worker_push v m))"
proof -
  have "worker_push v (push_frame fin fr m) = push_frame fin fr (worker_push v m)" for fin fr
    by (simp add: push_frame_def worker_push_def)
  then show ?thesis
    using run_op [OF assms(1-3)] run_resume [of "worker_push v m" a fn "Suc c" vars] assms
    by (simp add: worker_execute_opcode_def)
qed

lemma run_get:
  assumes "cell (function_objects m) a = Some fn" "c < length (opcode_array fn)" "return_stack m = []"
    and "opcode_array fn ! c = Op_get_variable i"
  shows "worker_run_until 0 (framed a c vars m) =
     (if slot VNull vars i = VNull then Some (Inl Exit_failure)
      else worker_run_until 0 (framed a (Suc c) (slot_set VNull vars i VNull) (worker_push (slot VNull vars i) m)))"
proof -
  have "worker_push v (push_frame fin fr m) = push_frame fin fr (worker_push v m)" for v fin fr
    by (simp add: push_frame_def worker_push_def)
  then show ?thesis
    using run_op [OF assms(1-3)] run_resume [of "worker_push (slot VNull vars i) m" a fn "Suc c"] assms
    by (simp add: worker_execute_opcode_def frame_get_variable_def Let_def)
qed

lemma run_set:
  assumes "cell (function_objects m) a = Some fn" "c < length (opcode_array fn)" "return_stack m = []"
    and "opcode_array fn ! c = Op_set_variable i"
  shows "worker_run_until 0 (framed a c vars m) =
     lbnd (Some (worker_pop m)) (\<lambda>(v, m).
       if slot VNull vars i \<noteq> VNull then Some (Inl Exit_failure)
       else worker_run_until 0 (framed a (Suc c) (slot_set VNull vars i v) m))"
proof (cases "worker_pop m")
  case (Inl e)
  then show ?thesis
    using run_op [OF assms(1-3)] assms(4) by (simp add: worker_execute_opcode_def)
next
  case (Inr r)
  obtain v m' where r: "r = (v, m')" by (cases r) blast
  have "cell (function_objects m') a = Some fn" "return_stack m' = []"
    using pop_fields [of m v m'] Inr r assms(1,3) by simp_all
  from run_resume [OF this, of "Suc c"] show ?thesis
    using run_op [OF assms(1-3)] assms(4) Inr r
    by (simp add: worker_execute_opcode_def frame_set_variable_def Let_def)
qed

text \<open>A call from a frame: run on an empty return stack, and the frame taken up again.\<close>

lemma run_apply:
  assumes "cell (function_objects m) a = Some fn" "c < length (opcode_array fn)" "return_stack m = []"
    and "opcode_array fn ! c = Op_apply k"
  shows "worker_run_until 0 (framed a c vars m) =
     lbnd (Some (worker_pop m)) (\<lambda>(v, m).
     lbnd (eval_apply v k m) (\<lambda>m. worker_run_until 0 (framed a (Suc c) vars m)))"
proof (cases "worker_pop m")
  case (Inl e)
  then have "worker_pop (push_frame fin fr m) = Inl e" for fin fr
    by (simp add: worker_pop_def push_frame_def split: list.splits)
  with Inl show ?thesis
    using run_op [OF assms(1-3)] assms(4) by (simp add: worker_execute_opcode_def)
next
  case (Inr r)
  obtain v m' where r: "r = (v, m')" by (cases r) blast
  let ?fr = "\<lparr>frame_cursor = Suc c, frame_function = a, variable_array = vars\<rparr>"
  have m': "cell (function_objects m') a = Some fn" "return_stack m' = []"
    using pop_fields [of m v m'] Inr r assms(1,3) by simp_all
  have pop: "worker_pop (push_frame fin ?fr m) = Inr (v, push_frame fin ?fr m')" for fin
    using Inr r by (auto simp: worker_pop_def push_frame_def split: list.splits)
  show ?thesis
  proof (cases "Suc c = length (opcode_array fn)")
    case True
    have "lbnd (worker_apply v k m') (worker_run_until 0) =
        lbnd (eval_apply v k m') (\<lambda>m. worker_run_until 0 (framed a (Suc c) vars m))"
    proof (cases "eval_apply v k m'")
      case None
      then show ?thesis by (simp add: eval_apply_def)
    next
      case (Some q)
      show ?thesis
      proof (cases q)
        case (Inl e)
        with Some show ?thesis by (simp add: eval_apply_def)
      next
        case (Inr m2)
        have "worker_run_until 0 (framed a (Suc c) vars m2) = Some (Inr m2)"
          using run_finished eval_apply_fields [of v k m' m2] Some Inr True m'(1) by simp
        with Some Inr show ?thesis by (simp add: eval_apply_def)
      qed
    qed
    then show ?thesis
      using run_op [OF assms(1-3)] assms(4) Inr r pop True
      by (simp add: worker_execute_opcode_def push_frame_def)
  next
    case False
    have push: "push_frame False ?fr m' = above [?fr] m'"
      using m'(2) by (simp add: push_frame_def above_def)
    have run: "worker_run_until 0 (above [?fr] k) = lbnd (labove [?fr] (worker_run_until 0 k)) (worker_run_until 0)" for k
      using run_until_split [of 0 "0 + length [?fr]" "above [?fr] k"] above_run_until [of 0 "[?fr]" k]
      by simp
    have "lbnd (labove [?fr] (worker_apply v k m')) (worker_run_until 0) =
        lbnd (eval_apply v k m') (\<lambda>m. worker_run_until 0 (above [?fr] m))"
      by (auto simp: eval_apply_def run lbnd_def split: option.split sum.split)
    also have "\<dots> = lbnd (eval_apply v k m') (\<lambda>m. worker_run_until 0 (framed a (Suc c) vars m))"
      by (rule lbnd_cong) (simp_all add: above_framed eval_apply_fields)
    finally show ?thesis
      using run_op [OF assms(1-3)] assms(4) Inr r pop False
      by (simp add: worker_execute_opcode_def push above_apply)
  qed
qed

section \<open>The compiled code evaluates\<close>

text \<open>
  The variables of a frame hold what the environment says, and the slots that no name has yet are
  empty.
\<close>

definition rep :: "function_t \<Rightarrow> val list \<Rightarrow> env \<Rightarrow> bool" where
  "rep f vars env \<longleftrightarrow>
     (\<forall>name. env name = map_option (slot VNull vars) (local_index_hash f name)) \<and>
     (\<forall>i \<ge> local_index_length f. slot VNull vars i = VNull)"

lemma rep_add_opcode [simp]: "rep (function_add_opcode f op) vars env = rep f vars env"
  by (simp add: rep_def)

definition starts_with :: "function_t \<Rightarrow> function_t \<Rightarrow> bool" where
  "starts_with fn f \<longleftrightarrow> (\<exists>ops. opcode_array fn = opcode_array f @ ops)"

lemma starts_with_code_extends: "starts_with fn f' \<Longrightarrow> code_extends f f' \<Longrightarrow> starts_with fn f"
  by (auto simp: starts_with_def code_extends_def)

lemma starts_with_op:
  "starts_with fn (function_add_opcode f op) \<Longrightarrow>
     length (opcode_array f) < length (opcode_array fn) \<and> opcode_array fn ! length (opcode_array f) = op"
  by (auto simp: starts_with_def)

text \<open>
  \<open>sim fn a f r run\<close>: a run agrees with the evaluation \<open>r\<close> up to the end of the code of \<open>f\<close>. It
  does not end or fails just when \<open>r\<close> does, and else it goes on from the state \<open>r\<close> gives.
\<close>

definition sim :: "function_t \<Rightarrow> nat \<Rightarrow> function_t \<Rightarrow> (env \<times> machine) loop \<Rightarrow> machine loop \<Rightarrow> bool" where
  "sim fn a f r run \<longleftrightarrow>
     (case r of
        None \<Rightarrow> run = None
      | Some (Inl e) \<Rightarrow> run = Some (Inl e)
      | Some (Inr (env, m)) \<Rightarrow>
          return_stack m = [] \<and> cell (function_objects m) a = Some fn \<and>
          (\<exists>vars. rep f vars env \<and> run = worker_run_until 0 (framed a (length (opcode_array f)) vars m)))"

lemma simI:
  "rep f vars env \<Longrightarrow> return_stack m = [] \<Longrightarrow> cell (function_objects m) a = Some fn \<Longrightarrow>
     sim fn a f (Some (Inr (env, m))) (worker_run_until 0 (framed a (length (opcode_array f)) vars m))"
  by (auto simp: sim_def)

lemma sim_lbnd:
  assumes "sim fn a f r run"
    and "\<And>env m vars. rep f vars env \<Longrightarrow> return_stack m = [] \<Longrightarrow> cell (function_objects m) a = Some fn \<Longrightarrow>
      sim fn a g (k (env, m)) (worker_run_until 0 (framed a (length (opcode_array f)) vars m))"
  shows "sim fn a g (lbnd r k) run"
proof (cases r)
  case None
  with assms(1) show ?thesis by (simp add: sim_def)
next
  case (Some q)
  show ?thesis
  proof (cases q)
    case (Inl e)
    with Some assms(1) show ?thesis by (simp add: sim_def)
  next
    case (Inr s)
    obtain env m where "s = (env, m)" by (cases s) blast
    with Some Inr assms show ?thesis by (auto simp: sim_def)
  qed
qed

lemma rep_take:
  assumes "rep f vars env" "slots_ok f" "local_index_hash f name = Some i"
  shows "rep f (slot_set VNull vars i VNull) (env(name \<mapsto> VNull))"
  unfolding rep_def
proof (intro conjI allI impI)
  fix other
  show "(env(name \<mapsto> VNull)) other = map_option (slot VNull (slot_set VNull vars i VNull)) (local_index_hash f other)"
    using assms by (cases "local_index_hash f other") (auto simp: rep_def slots_ok_def slot_slot_set)
qed (use assms(1) in \<open>simp add: rep_def slot_slot_set\<close>)

lemma sim_eval_name:
  assumes f': "compile_exp m0 f (EXP_VAR name) = Inr f'" and ok: "slots_ok f" and rep: "rep f vars env"
    and fn: "starts_with fn f'" "cell (function_objects m) a = Some fn" and rs: "return_stack m = []"
  shows "sim fn a f' (Some (eval_name (mod_find m0) name (env, m)))
    (worker_run_until 0 (framed a (length (opcode_array f)) vars m))"
proof (cases "local_index_hash f name")
  case None
  then have f': "f' = function_add_opcode f (Op_literal (mod_find m0 name))"
    using f' by (simp add: maybe_compile_get_variable_def compile_literal_def Let_def split: if_splits)
  note op = starts_with_op [OF fn(1) [unfolded f']]
  have "env name = None" using rep None by (simp add: rep_def)
  then show ?thesis
    using run_literal [OF fn(2) _ rs] op rep fn(2) rs
      simI [of f' vars env "worker_push (mod_find m0 name) m" a fn]
    by (simp add: eval_name_def f')
next
  case (Some i)
  then have f': "f' = function_add_opcode f (Op_get_variable i)"
    using f' by (simp add: maybe_compile_get_variable_def)
  note op = starts_with_op [OF fn(1) [unfolded f']]
  have env: "env name = Some (slot VNull vars i)" using rep Some by (simp add: rep_def)
  show ?thesis
  proof (cases "slot VNull vars i = VNull")
    case True
    with run_get [OF fn(2) _ rs] op env show ?thesis
      by (simp add: eval_name_def sim_def)
  next
    case False
    have "sim fn a f' (Some (Inr (env(name \<mapsto> VNull), worker_push (slot VNull vars i) m)))
        (worker_run_until 0 (framed a (length (opcode_array f')) (slot_set VNull vars i VNull)
          (worker_push (slot VNull vars i) m)))"
      by (rule simI) (use rep_take [OF rep ok Some] fn(2) rs f' in simp_all)
    with run_get [OF fn(2) _ rs] op env False show ?thesis
      by (simp add: eval_name_def f')
  qed
qed

lemma sim_eval_set:
  assumes f': "f' = compile_set_variable f name" and ok: "slots_ok f" and rep: "rep f vars env"
    and fn: "starts_with fn f'" "cell (function_objects m) a = Some fn" and rs: "return_stack m = []"
  shows "sim fn a f' (Some (eval_set name (env, m)))
    (worker_run_until 0 (framed a (length (opcode_array f)) vars m))"
proof -
  define i where "i = (case local_index_hash f name of None \<Rightarrow> local_index_length f | Some i \<Rightarrow> i)"
  obtain g where g: "f' = function_add_opcode g (Op_set_variable i)" "opcode_array g = opcode_array f"
      "local_index_hash g = (local_index_hash f)(name \<mapsto> i)"
      "local_index_length f \<le> local_index_length g" "i < local_index_length g"
    using ok that
    by (cases "local_index_hash f name")
      (auto simp: f' compile_set_variable_def Let_def i_def string_copy_def slots_ok_def fun_upd_idem)
  have op: "length (opcode_array f) < length (opcode_array fn)"
      "opcode_array fn ! length (opcode_array f) = Op_set_variable i"
    using starts_with_op [of fn g "Op_set_variable i"] fn(1) g(1,2) by simp_all
  have free: "(env name = None \<or> env name = Some VNull) \<longleftrightarrow> slot VNull vars i = VNull"
    using rep by (auto simp: rep_def i_def split: option.splits)
  have other: "local_index_hash f b = Some j \<Longrightarrow> b \<noteq> name \<Longrightarrow> j \<noteq> i" for b j
    using ok by (auto simp: slots_ok_def i_def split: option.splits)
  have set: "rep f' (slot_set VNull vars i v) (env(name \<mapsto> v))" for v
    unfolding rep_def
  proof (intro conjI allI impI)
    fix b
    show "(env(name \<mapsto> v)) b = map_option (slot VNull (slot_set VNull vars i v)) (local_index_hash f' b)"
      using rep other by (cases "local_index_hash f b") (auto simp: rep_def g slot_slot_set)
  next
    fix j assume "local_index_length f' \<le> j"
    then show "slot VNull (slot_set VNull vars i v) j = VNull"
      using rep g(1,4,5) by (auto simp: rep_def slot_slot_set)
  qed
  have len: "length (opcode_array f') = Suc (length (opcode_array f))" using g(1,2) by simp
  show ?thesis
  proof (cases "worker_pop m")
    case (Inl e)
    with run_set [OF fn(2) op(1) rs op(2), of vars] show ?thesis
      by (simp add: eval_set_def sim_def)
  next
    case (Inr r)
    obtain v m' where r: "r = (v, m')" by (cases r) blast
    have m': "return_stack m' = []" "cell (function_objects m') a = Some fn"
      using pop_fields [of m v m'] Inr r rs fn(2) by simp_all
    show ?thesis
    proof (cases "slot VNull vars i = VNull")
      case True
      with run_set [OF fn(2) op(1) rs op(2), of vars] Inr r simI [OF set m', of v] len free show ?thesis
        by (simp add: eval_set_def)
    next
      case False
      then have "env name \<noteq> None" "env name \<noteq> Some VNull" using free by auto
      with False run_set [OF fn(2) op(1) rs op(2), of vars] Inr r show ?thesis
        by (auto simp: eval_set_def sim_def)
    qed
  qed
qed

lemma sim_eval_sets:
  assumes "slots_ok f" "rep f vars env" "starts_with fn (foldl compile_set_variable f names)"
    "cell (function_objects m) a = Some fn" "return_stack m = []"
  shows "sim fn a (foldl compile_set_variable f names) (Some (eval_sets names (env, m)))
    (worker_run_until 0 (framed a (length (opcode_array f)) vars m))"
  using assms
proof (induction names arbitrary: f vars env m)
  case Nil
  then show ?case using simI by simp
next
  case (Cons name names)
  let ?g = "compile_set_variable f name"
  have g: "slots_ok ?g" using Cons.prems(1) by (rule slots_ok_set_variable)
  have "starts_with fn ?g"
    using Cons.prems(3) set_variables_keep [OF g, of names] starts_with_code_extends by simp
  from sim_eval_set [OF refl Cons.prems(1,2) this Cons.prems(4,5)]
  have "sim fn a (foldl compile_set_variable f (name # names))
      (lbnd (Some (eval_set name (env, m))) (\<lambda>s. Some (eval_sets names s)))
      (worker_run_until 0 (framed a (length (opcode_array f)) vars m))"
    by (rule sim_lbnd) (use Cons.IH [OF g] Cons.prems(3) in simp)
  moreover have "lbnd (Some (eval_set name (env, m))) (\<lambda>s. Some (eval_sets names s)) =
      Some (eval_sets (name # names) (env, m))"
    by (cases "eval_set name (env, m)") simp_all
  ultimately show ?case by simp
qed

lemma sim_literal:
  assumes "rep f vars env" "starts_with fn (function_add_opcode f (Op_literal v))"
    "cell (function_objects m) a = Some fn" "return_stack m = []"
  shows "sim fn a (function_add_opcode f (Op_literal v)) (Some (Inr (env, worker_push v m)))
    (worker_run_until 0 (framed a (length (opcode_array f)) vars m))"
proof -
  note op = starts_with_op [OF assms(2)]
  have "sim fn a (function_add_opcode f (Op_literal v)) (Some (Inr (env, worker_push v m)))
      (worker_run_until 0 (framed a (length (opcode_array (function_add_opcode f (Op_literal v)))) vars
        (worker_push v m)))"
    by (rule simI) (use assms in simp_all)
  then show ?thesis
    using run_literal [OF assms(3) _ assms(4)] op by simp
qed

lemma sim_call:
  assumes "rep f vars env" "starts_with fn (function_add_opcode f (Op_apply k))"
    "cell (function_objects m) a = Some fn" "return_stack m = []"
  shows "sim fn a (function_add_opcode f (Op_apply k))
    (lbnd (Some (worker_pop m)) (\<lambda>(v, m). lbnd (eval_apply v k m) (\<lambda>m. Some (Inr (env, m)))))
    (worker_run_until 0 (framed a (length (opcode_array f)) vars m))"
proof (cases "worker_pop m")
  case (Inl e)
  with run_apply [OF assms(3) _ assms(4)] starts_with_op [OF assms(2)] show ?thesis
    by (simp add: sim_def)
next
  case (Inr r)
  obtain v m' where r: "r = (v, m')" by (cases r) blast
  have run: "worker_run_until 0 (framed a (length (opcode_array f)) vars m) =
      lbnd (eval_apply v k m') (\<lambda>m. worker_run_until 0 (framed a (Suc (length (opcode_array f))) vars m))"
    using run_apply [OF assms(3) _ assms(4)] starts_with_op [OF assms(2)] Inr r by simp
  have fields: "function_objects m' = function_objects m" using pop_fields [of m v m'] Inr r by simp
  show ?thesis
  proof (cases "eval_apply v k m'")
    case None
    with run Inr r show ?thesis by (simp add: sim_def)
  next
    case (Some q)
    show ?thesis
    proof (cases q)
      case (Inl e)
      with run Some \<open>worker_pop m = Inr r\<close> r show ?thesis by (simp add: sim_def)
    next
      case (Inr m2)
      have "sim fn a (function_add_opcode f (Op_apply k)) (Some (Inr (env, m2)))
          (worker_run_until 0 (framed a (length (opcode_array (function_add_opcode f (Op_apply k)))) vars m2))"
        by (rule simI) (use assms eval_apply_fields [of v k m' m2] Some Inr fields in simp_all)
      with run Some Inr \<open>worker_pop m = Inr r\<close> r show ?thesis by simp
    qed
  qed
qed

lemma compiled_code_evaluates:
  "compile_exp m0 f e = Inr f' \<Longrightarrow> slots_ok f \<Longrightarrow> rep f vars env \<Longrightarrow> starts_with fn f' \<Longrightarrow>
     cell (function_objects m) a = Some fn \<Longrightarrow> return_stack m = [] \<Longrightarrow>
     sim fn a f' (eval_exp (mod_find m0) e (env, m)) (worker_run_until 0 (framed a (length (opcode_array f)) vars m))"
  "compile_exp_list m0 f es = Inr f' \<Longrightarrow> slots_ok f \<Longrightarrow> rep f vars env \<Longrightarrow> starts_with fn f' \<Longrightarrow>
     cell (function_objects m) a = Some fn \<Longrightarrow> return_stack m = [] \<Longrightarrow>
     sim fn a f' (eval_exp_list (mod_find m0) es (env, m)) (worker_run_until 0 (framed a (length (opcode_array f)) vars m))"
proof (induction m0 f e and m0 f es arbitrary: f' vars env m and f' vars env m
    rule: compile_exp_compile_exp_list.induct)
  case (1 m0 f name)
  then show ?case using sim_eval_name by simp
next
  case (2 m0 f target arg_list)
  then obtain g h where g: "compile_exp_list m0 f arg_list = Inr g" "compile_exp m0 g target = Inr h"
      "f' = function_add_opcode h (Op_apply (length arg_list))"
    by (auto simp: bnd_eq_Inr)
  have keeps: "slots_ok g" "code_extends g h"
    using compile_keeps(2) [OF g(1) 2(4)] compile_keeps(1) [OF g(2)] by simp_all
  have sw: "starts_with fn h" "starts_with fn g"
    using 2(6) keeps(2) starts_with_code_extends by (metis g(3) code_extends_add_opcode)+
  from 2(1) [OF g(1) 2(4,5) sw(2) 2(7,8)] show ?case
    unfolding eval_exp.simps
  proof (rule sim_lbnd)
    fix env vars and m :: machine
    assume st: "rep g vars env" "return_stack m = []" "cell (function_objects m) a = Some fn"
    from 2(2) [OF g(1) g(2) keeps(1) st(1) sw(1) st(3,2)]
    show "sim fn a f'
        (lbnd (eval_exp (mod_find m0) target (env, m)) (\<lambda>(env, m). lbnd (Some (worker_pop m))
          (\<lambda>(v, m). lbnd (eval_apply v (length arg_list) m) (\<lambda>m. Some (Inr (env, m))))))
        (worker_run_until 0 (framed a (length (opcode_array g)) vars m))"
      by (rule sim_lbnd) (use sim_call 2(6) g(3) in simp)
  qed
next
  case (4 m0 f name_list e)
  then obtain g where g: "compile_exp m0 f e = Inr g" "f' = foldl compile_set_variable g (rev name_list)"
    by (auto simp: bnd_eq_Inr compile_set_variable_list_def)
  have keeps: "slots_ok g" using compile_keeps(1) [OF g(1) 4(3)] by simp
  have sw: "starts_with fn g"
    using 4(5) set_variables_keep [OF keeps, of "rev name_list"] starts_with_code_extends by (simp add: g(2))
  from 4(1) [OF g(1) 4(3,4) sw 4(6,7)] show ?case
    unfolding eval_exp.simps
    by (rule sim_lbnd) (use sim_eval_sets [OF keeps] 4(5) g(2) in simp)
next
  case (5 m0 f target)
  then have "f' = function_add_opcode f (Op_literal (VImm (xint target)))" by simp
  with sim_literal [OF 5(3) _ 5(5,6)] 5(4) show ?case by simp
next
  case (6 m0 f target)
  then have "f' = function_add_opcode f (Op_literal (VImm (xfloat target)))" by simp
  with sim_literal [OF 6(3) _ 6(5,6)] 6(4) show ?case by simp
next
  case (7 m0 f)
  then show ?case using simI by simp
next
  case (8 m0 f e es)
  then obtain g where g: "compile_exp m0 f e = Inr g" "compile_exp_list m0 g es = Inr f'"
    by (auto simp: bnd_eq_Inr)
  have keeps: "slots_ok g" "code_extends g f'"
    using compile_keeps(1) [OF g(1) 8(4)] compile_keeps(2) [OF g(2)] by simp_all
  have sw: "starts_with fn g" using 8(6) keeps(2) starts_with_code_extends by blast
  from 8(1) [OF g(1) 8(4,5) sw 8(7,8)] show ?case
    unfolding eval_exp_list.simps
    by (rule sim_lbnd) (use 8(2) [OF g(1) g(2) keeps(1)] 8(6) in simp)
qed simp

section \<open>Functions\<close>

text \<open>
  What \<open>execute\<close> and \<open>define_rule_star\<close> make a function of: the arguments are taken from the stack,
  and then the expressions are evaluated in their order.
\<close>

definition compile_body :: "machine \<Rightarrow> function_t \<Rightarrow> string list \<Rightarrow> exp list \<Rightarrow> function_t res" where
  "compile_body m f arg_names exps = compile_exp_list m (compile_set_variable_list f arg_names) exps"

definition eval_body :: "(string \<Rightarrow> val) \<Rightarrow> string list \<Rightarrow> exp list \<Rightarrow> machine \<Rightarrow> machine loop" where
  "eval_body lits arg_names exps m =
     lbnd (Some (eval_sets (rev arg_names) (Map.empty, m))) (\<lambda>s.
     lbnd (eval_exp_list lits exps s) (\<lambda>(env, m). Some (Inr m)))"

lemma rep_new: "local_index_hash f = Map.empty \<Longrightarrow> rep f [] Map.empty"
  by (simp add: rep_def)

lemma call_compiled:
  assumes f: "compile_body m0 f arg_names exps = Inr f'"
    and empty: "opcode_array f = []" "local_index_hash f = Map.empty"
    and a: "cell (function_objects m) a = Some f'"
  shows "call_function a m =
     labove (return_stack m) (eval_body (mod_find m0) arg_names exps (m\<lparr>return_stack := []\<rparr>))"
proof -
  let ?m = "m\<lparr>return_stack := []\<rparr>" and ?g = "foldl compile_set_variable f (rev arg_names)"
  have ok: "slots_ok f" by (simp add: slots_ok_def empty(2))
  have g: "compile_exp_list m0 ?g exps = Inr f'"
    using f by (simp add: compile_body_def compile_set_variable_list_def)
  have keeps: "slots_ok ?g" "code_extends ?g f'"
    using set_variables_keep [OF ok] compile_keeps(2) [OF g] by simp_all
  have sw: "starts_with f' f'" by (simp add: starts_with_def)
  have m: "cell (function_objects ?m) a = Some f'" "return_stack ?m = []" using a by simp_all
  from sim_eval_sets [OF ok rep_new [OF empty(2)] starts_with_code_extends [OF sw keeps(2)] m]
  have "sim f' a f'
      (lbnd (Some (eval_sets (rev arg_names) (Map.empty, ?m))) (\<lambda>s. eval_exp_list (mod_find m0) exps s))
      (worker_run_until 0 (framed a (length (opcode_array f)) [] ?m))"
    by (rule sim_lbnd) (use compiled_code_evaluates(2) [OF g keeps(1) _ sw] in simp)
  then have run: "worker_run_until 0 (framed a 0 [] ?m) = eval_body (mod_find m0) arg_names exps ?m"
    unfolding eval_body_def empty(1)
    by (cases "lbnd (Some (eval_sets (rev arg_names) (Map.empty, ?m))) (\<lambda>s. eval_exp_list (mod_find m0) exps s)")
      (auto simp: sim_def lbnd_def run_finished split: option.splits sum.splits)
  have "call_function a m =
      worker_run_until (0 + length (return_stack m)) (above (return_stack m) (framed a 0 [] ?m))"
    by (simp add: call_function_def above_def framed_def frame_new_def)
  then show ?thesis by (simp only: above_run_until run)
qed

end
