(* ===== verification/Net_Print.thy ===== *)
theory Net_Print
  imports Lang_Syntax Worker
begin

text \<open>
  Printing the state of the machine, and the nets of nodes (\<open>src/src/net\<close>: the iterators over the
  allocated nodes and over the nodes connected to a root, and the neighborhoods;
  \<open>src/src/core\<close>: opcodes, functions, frames, tasks and workers; \<open>src/src/value/value.c\<close>). A
  printing function returns the text it writes. Following fuzed wires does not return on a cycle
  of them, so what prints a value that it walks first is a \<open>loop\<close>.
\<close>

section \<open>Values\<close>

definition function_print_name :: "function_t \<Rightarrow> string res" where
  "function_print_name self = deref (function_name self) Inr"

definition primitive_print :: "primitive \<Rightarrow> string" where
  "primitive_print self = primitive_name self"

definition value_print :: "printf_ops \<Rightarrow> machine \<Rightarrow> val \<Rightarrow> string res" where
  "value_print fmt m v =
     (case v of
        VNull \<Rightarrow> value_print_data fmt 0
      | VImm w \<Rightarrow> value_print_data fmt w
      | VWire a \<Rightarrow>
          deref (cell (wires (net m)) a) (\<lambda>_.
            Inr (''(wire 0x'' @ format_pointer fmt (wire_address fmt a) @ '')''))
      | VPrincipal p \<Rightarrow> principal_wire_print_left (net m) p
      | VCtor c \<Rightarrow> deref (at (node_ctors (net m)) c) (\<lambda>c. Inr (node_ctor_print c))
      | VFunction f \<Rightarrow> deref (cell (function_objects m) f) function_print_name
      | VPrimitive p \<Rightarrow> deref (at (primitives m) p) (\<lambda>p. Inr (primitive_print p)))"

section \<open>Code\<close>

definition opcode_print :: "printf_ops \<Rightarrow> machine \<Rightarrow> opcode \<Rightarrow> string res" where
  "opcode_print fmt m self =
     (case self of
        Op_apply arity \<Rightarrow> Inr (''(apply '' @ uint_to_string arity @ '')'')
      | Op_literal v \<Rightarrow> bnd (value_print fmt m v) (\<lambda>s. Inr (''(literal '' @ s @ '')''))
      | Op_get_variable index \<Rightarrow> Inr (''(get-variable '' @ uint_to_string index @ '')'')
      | Op_set_variable index \<Rightarrow> Inr (''(set-variable '' @ uint_to_string index @ '')''))"

text \<open>The loop over the operations; the one the cursor is at gets an arrow.\<close>

fun opcode_texts :: "printf_ops \<Rightarrow> machine \<Rightarrow> nat option \<Rightarrow> nat \<Rightarrow> opcode list \<Rightarrow> string list res" where
  "opcode_texts fmt m cursor i [] = Inr []"
| "opcode_texts fmt m cursor i (op # ops) =
     bnd (opcode_print fmt m op) (\<lambda>s.
     bnd (opcode_texts fmt m cursor (Suc i) ops) (\<lambda>ss.
       Inr ((if cursor = Some i then ''=> '' @ s else s) # ss)))"

definition function_print :: "printf_ops \<Rightarrow> machine \<Rightarrow> function_t \<Rightarrow> string res" where
  "function_print fmt m self =
     bnd (opcode_texts fmt m None 0 (opcode_array self)) (\<lambda>ss.
       Inr (''(function '' @ print_separated ss @ '')''))"

definition function_print_with_cursor :: "printf_ops \<Rightarrow> machine \<Rightarrow> function_t \<Rightarrow> nat \<Rightarrow> string res" where
  "function_print_with_cursor fmt m self cursor =
     bnd (opcode_texts fmt m (Some cursor) 0 (opcode_array self)) (\<lambda>ss.
       Inr (''(function '' @ print_separated ss @ '')''))"

section \<open>The allocated nodes\<close>

record allocated_node_iter =
  iter_cursor :: nat

definition allocated_node_iter_new :: allocated_node_iter where
  "allocated_node_iter_new = \<lparr>iter_cursor = 0\<rparr>"

text \<open>\<open>array_get\<close> past the end is NULL; \<open>node_array\<close> itself holds no NULL.\<close>

function iter_skip :: "heap \<Rightarrow> nat list \<Rightarrow> nat option \<Rightarrow> allocated_node_iter \<Rightarrow> (nat option \<times> allocated_node_iter) res" where
  "iter_skip h nodes_of candidate self =
     bnd (case candidate of None \<Rightarrow> Inr False | Some a \<Rightarrow> deref (at (nodes h) a) (\<lambda>n. Inr (is_allocated n))) (\<lambda>stop.
       if stop then Inr (candidate, self)
       else if iter_cursor self \<ge> length nodes_of then Inr (None, self)
       else iter_skip h nodes_of (at nodes_of (iter_cursor self)) (self\<lparr>iter_cursor := Suc (iter_cursor self)\<rparr>))"
  by pat_completeness auto
termination
  by (relation "measure (\<lambda>(h, ns, c, it). length ns - iter_cursor it)") simp_all

declare iter_skip.simps [simp del]

definition allocated_node_iter_next ::
    "heap \<Rightarrow> node_allocator \<Rightarrow> allocated_node_iter \<Rightarrow> (nat option \<times> allocated_node_iter) res" where
  "allocated_node_iter_next h alloc self =
     iter_skip h (node_array alloc) (at (node_array alloc) (iter_cursor self))
       (self\<lparr>iter_cursor := Suc (iter_cursor self)\<rparr>)"

definition allocated_node_iter_first ::
    "heap \<Rightarrow> node_allocator \<Rightarrow> allocated_node_iter \<Rightarrow> (nat option \<times> allocated_node_iter) res" where
  "allocated_node_iter_first h alloc self = allocated_node_iter_next h alloc (self\<lparr>iter_cursor := 0\<rparr>)"

lemma iter_skip_cursor:
  "iter_skip h ns c it = Inr (r, it') \<Longrightarrow> iter_cursor it \<le> iter_cursor it'"
proof (induction h ns c it rule: iter_skip.induct)
  case (1 h ns c it)
  from 1(2) obtain stop where stop:
      "(case c of None \<Rightarrow> Inr False | Some a \<Rightarrow> deref (at (nodes h) a) (\<lambda>n. Inr (is_allocated n))) = (Inr stop :: bool res)"
    by (subst (asm) iter_skip.simps) (auto simp: bnd_eq_Inr)
  show ?case
  proof (cases "stop \<or> length ns \<le> iter_cursor it")
    case True
    with 1(2) stop show ?thesis by (subst (asm) iter_skip.simps) (auto split: if_splits)
  next
    case False
    with 1(2) stop have "iter_skip h ns (at ns (iter_cursor it)) (it\<lparr>iter_cursor := Suc (iter_cursor it)\<rparr>) = Inr (r, it')"
      by (subst (asm) iter_skip.simps) simp
    with 1(1) [OF stop] False show ?thesis by simp
  qed
qed

lemma iter_skip_length:
  "iter_skip h ns c it = Inr (Some a, it') \<Longrightarrow> c \<noteq> None \<or> iter_cursor it < length ns"
  by (subst (asm) iter_skip.simps) (auto simp: bnd_eq_Inr split: if_splits option.splits)

function allocated_loop :: "heap \<Rightarrow> node_allocator \<Rightarrow> allocated_node_iter \<Rightarrow> nat list res" where
  "allocated_loop h alloc self =
     bnd (allocated_node_iter_next h alloc self) (\<lambda>(node, self).
       case node of
         None \<Rightarrow> Inr []
       | Some a \<Rightarrow> bnd (allocated_loop h alloc self) (\<lambda>rest. Inr (a # rest)))"
  by pat_completeness auto
termination
proof (relation "measure (\<lambda>(h, alloc, it). length (node_array alloc) - iter_cursor it)")
  fix h alloc self x node it a
  assume "allocated_node_iter_next h alloc self = Inr x" "(node, it) = x" "node = Some a"
  then have n: "iter_skip h (node_array alloc) (at (node_array alloc) (iter_cursor self))
      (self\<lparr>iter_cursor := Suc (iter_cursor self)\<rparr>) = Inr (Some a, it)"
    by (simp add: allocated_node_iter_next_def)
  have "Suc (iter_cursor self) \<le> iter_cursor it" using iter_skip_cursor [OF n] by simp
  moreover have "iter_cursor self < length (node_array alloc)"
    using iter_skip_length [OF n] by (auto simp: at_def split: if_splits)
  ultimately show "((h, alloc, it), (h, alloc, self)) \<in> measure (\<lambda>(h, alloc, it). length (node_array alloc) - iter_cursor it)"
    by simp
qed simp

declare allocated_loop.simps [simp del]

definition allocated_node_array :: "heap \<Rightarrow> node_allocator \<Rightarrow> nat list res" where
  "allocated_node_array h alloc =
     allocated_loop h alloc (allocated_node_iter_new\<lparr>iter_cursor := 0\<rparr>)"

text \<open>The iterator goes through the nodes that are allocated, in the order they were made.\<close>

definition allocated_in :: "heap \<Rightarrow> nat \<Rightarrow> bool" where
  "allocated_in h a \<longleftrightarrow> (case at (nodes h) a of None \<Rightarrow> False | Some n \<Rightarrow> is_allocated n)"

lemma at_drop: "at xs i = Some a \<Longrightarrow> drop i xs = a # drop (Suc i) xs"
  by (auto simp: at_def Cons_nth_drop_Suc split: if_splits)

lemma iter_skip_filter:
  "\<forall>a \<in> set ns. a < length (nodes h) \<Longrightarrow> (\<forall>a. c = Some a \<longrightarrow> a < length (nodes h)) \<Longrightarrow>
     \<exists>r it'. iter_skip h ns c it = Inr (r, it') \<and>
       filter (allocated_in h) ((case c of None \<Rightarrow> [] | Some a \<Rightarrow> [a]) @ drop (iter_cursor it) ns) =
         (case r of None \<Rightarrow> [] | Some a \<Rightarrow> a # filter (allocated_in h) (drop (iter_cursor it') ns))"
proof (induction h ns c it rule: iter_skip.induct)
  case (1 h ns c it)
  let ?it = "it\<lparr>iter_cursor := Suc (iter_cursor it)\<rparr>"
  obtain stop where stop: "(case c of None \<Rightarrow> Inr False | Some a \<Rightarrow> deref (at (nodes h) a) (\<lambda>n. Inr (is_allocated n))) = (Inr stop :: bool res)"
      "stop \<longleftrightarrow> (\<exists>a. c = Some a \<and> allocated_in h a)"
    using 1(3) by (cases c) (auto simp: at_def allocated_in_def)
  show ?case
  proof (cases "stop \<or> iter_cursor it \<ge> length ns")
    case True
    with stop show ?thesis
      by (subst iter_skip.simps) (auto split: option.splits)
  next
    case False
    then have "at ns (iter_cursor it) = Some (ns ! iter_cursor it)" by (simp add: at_def)
    note next' = this at_drop [OF this]
    have "ns ! iter_cursor it < length (nodes h)" using 1(2) False by simp
    with 1(1) [OF stop(1)] False 1(2) next'
    obtain r it' where "iter_skip h ns (at ns (iter_cursor it)) ?it = Inr (r, it')"
      "filter (allocated_in h) (ns ! iter_cursor it # drop (Suc (iter_cursor it)) ns) =
         (case r of None \<Rightarrow> [] | Some a \<Rightarrow> a # filter (allocated_in h) (drop (iter_cursor it') ns))"
      by auto
    moreover have "filter (allocated_in h) ((case c of None \<Rightarrow> [] | Some a \<Rightarrow> [a]) @ drop (iter_cursor it) ns) =
        filter (allocated_in h) (ns ! iter_cursor it # drop (Suc (iter_cursor it)) ns)"
      using stop(2) False next'(2) by (auto split: option.split)
    ultimately show ?thesis
      using stop(1) False by (subst iter_skip.simps) simp
  qed
qed

lemma allocated_loop_filter:
  assumes "\<forall>a \<in> set (node_array alloc). a < length (nodes h)"
  shows "allocated_loop h alloc it = Inr (filter (allocated_in h) (drop (iter_cursor it) (node_array alloc)))"
  using assms
proof (induction h alloc it rule: allocated_loop.induct)
  case (1 h alloc it)
  let ?ns = "node_array alloc"
  have "\<forall>a. at ?ns (iter_cursor it) = Some a \<longrightarrow> a < length (nodes h)"
    using 1(2) by (auto simp: at_def split: if_splits)
  from iter_skip_filter [OF 1(2) this, of "it\<lparr>iter_cursor := Suc (iter_cursor it)\<rparr>"]
  obtain r it' where r: "allocated_node_iter_next h alloc it = Inr (r, it')"
      "filter (allocated_in h) ((case at ?ns (iter_cursor it) of None \<Rightarrow> [] | Some a \<Rightarrow> [a]) @ drop (Suc (iter_cursor it)) ?ns) =
         (case r of None \<Rightarrow> [] | Some a \<Rightarrow> a # filter (allocated_in h) (drop (iter_cursor it') ?ns))"
    by (auto simp: allocated_node_iter_next_def)
  moreover have "(case at ?ns (iter_cursor it) of None \<Rightarrow> [] | Some a \<Rightarrow> [a]) @ drop (Suc (iter_cursor it)) ?ns =
      drop (iter_cursor it) ?ns"
    by (cases "at ?ns (iter_cursor it)") (auto simp: at_drop, auto simp: at_def split: if_splits)
  ultimately show ?case
    using 1(1) [OF r(1) refl] 1(2)
    by (subst allocated_loop.simps) (auto split: option.split)
qed

lemma allocated_node_array_filter:
  "\<forall>a \<in> set (node_array alloc). a < length (nodes h) \<Longrightarrow>
     allocated_node_array h alloc = Inr (filter (allocated_in h) (node_array alloc))"
  by (simp add: allocated_node_array_def allocated_loop_filter)

section \<open>Neighbors\<close>

record node_neighbor =
  start_node :: nat
  start_port_index :: nat
  end_port_index :: nat
  end_node :: nat

text \<open>The two loops of \<open>node_neighbor_new_maybe\<close>, of which the first connected pair of ports ends both.\<close>

fun neighbor_ports :: "heap \<Rightarrow> nat \<Rightarrow> nat \<Rightarrow> (nat \<times> nat) list \<Rightarrow> node_neighbor option loop" where
  "neighbor_ports h x y [] = Some (Inr None)"
| "neighbor_ports h x y ((i, j) # ports) =
     lbnd (Some (node_get_value h x i)) (\<lambda>v.
     lbnd (Some (node_get_value h y j)) (\<lambda>w.
     lbnd (is_connected h v w) (\<lambda>connected.
       if connected
       then Some (Inr (Some \<lparr>start_node = x, start_port_index = i, end_port_index = j, end_node = y\<rparr>))
       else neighbor_ports h x y ports)))"

definition node_neighbor_new_maybe :: "heap \<Rightarrow> nat \<Rightarrow> nat \<Rightarrow> node_neighbor option loop" where
  "node_neighbor_new_maybe h x y =
     (if x = y then Some (Inr None)
      else
        lbnd (Some (ctor_of_node h x)) (\<lambda>c.
        if ctor_arity c = 0 then Some (Inr None)
        else lbnd (Some (ctor_of_node h y)) (\<lambda>d.
          neighbor_ports h x y (List.product [0..<ctor_arity c] [0..<ctor_arity d]))))"

record node_neighborhood =
  nh_node :: nat
  node_neighbor_array :: "node_neighbor option list"

definition node_neighborhood_new :: "nat \<Rightarrow> node_neighborhood" where
  "node_neighborhood_new a = \<lparr>nh_node = a, node_neighbor_array = []\<rparr>"

definition node_neighborhood_node :: "node_neighborhood \<Rightarrow> nat" where
  "node_neighborhood_node self = nh_node self"

definition node_neighborhood_get :: "node_neighborhood \<Rightarrow> nat \<Rightarrow> node_neighbor option" where
  "node_neighborhood_get self index = slot None (node_neighbor_array self) index"

definition node_neighborhood_maybe_add_node ::
    "heap \<Rightarrow> node_neighborhood \<Rightarrow> nat \<Rightarrow> node_neighborhood loop" where
  "node_neighborhood_maybe_add_node h self a =
     lbnd (node_neighbor_new_maybe h (nh_node self) a) (\<lambda>neighbor.
       case neighbor of
         None \<Rightarrow> Some (Inr self)
       | Some nb \<Rightarrow> Some (Inr (self\<lparr>node_neighbor_array :=
           slot_set None (node_neighbor_array self) (start_port_index nb) (Some nb)\<rparr>)))"

fun add_nodes :: "heap \<Rightarrow> node_neighborhood \<Rightarrow> nat list \<Rightarrow> node_neighborhood loop" where
  "add_nodes h self [] = Some (Inr self)"
| "add_nodes h self (a # as) =
     lbnd (node_neighborhood_maybe_add_node h self a) (\<lambda>self. add_nodes h self as)"

text \<open>The hash table from nodes to neighborhoods, as its entries in the order they are added.\<close>

fun neighborhoods :: "heap \<Rightarrow> nat list \<Rightarrow> nat list \<Rightarrow> (nat \<times> node_neighborhood) list loop" where
  "neighborhoods h ns [] = Some (Inr [])"
| "neighborhoods h ns (x # xs) =
     lbnd (add_nodes h (node_neighborhood_new x) ns) (\<lambda>nh.
     lbnd (neighborhoods h ns xs) (\<lambda>rest. Some (Inr ((x, nh) # rest))))"

definition build_node_neighborhood_hash :: "heap \<Rightarrow> node_allocator \<Rightarrow> (nat \<times> node_neighborhood) list loop" where
  "build_node_neighborhood_hash h alloc =
     lbnd (Some (allocated_node_array h alloc)) (\<lambda>ns. neighborhoods h ns ns)"

section \<open>The nodes connected to a root\<close>

record connected_node_iter =
  occurred_node_set :: "nat list"
  remaining_node_list :: "nat list"

definition connected_node_iter_new :: connected_node_iter where
  "connected_node_iter_new = \<lparr>occurred_node_set = [], remaining_node_list = []\<rparr>"

text \<open>The last element of \<open>remaining_node_list\<close> is what \<open>list_pop\<close> takes.\<close>

definition neighbor_nodes :: "nat \<Rightarrow> node_neighborhood \<Rightarrow> nat list" where
  "neighbor_nodes n nh =
     concat (map (\<lambda>i. case node_neighborhood_get nh i of None \<Rightarrow> [] | Some nb \<Rightarrow> [end_node nb]) [0..<n])"

definition take_node ::
    "heap \<Rightarrow> (nat \<times> node_neighborhood) list \<Rightarrow> connected_node_iter \<Rightarrow> nat \<Rightarrow> connected_node_iter res" where
  "take_node h table self a =
     deref (map_of table a) (\<lambda>nh.
     bnd (ctor_of_node h (node_neighborhood_node nh)) (\<lambda>c.
       Inr (self\<lparr>occurred_node_set := List.insert a (occurred_node_set self),
                 remaining_node_list := remaining_node_list self @ neighbor_nodes (ctor_arity c) nh\<rparr>)))"

definition connected_node_iter_first ::
    "heap \<Rightarrow> (nat \<times> node_neighborhood) list \<Rightarrow> nat \<Rightarrow> connected_node_iter \<Rightarrow> (nat \<times> connected_node_iter) res" where
  "connected_node_iter_first h table root self =
     bnd (take_node h table self root) (\<lambda>self. Inr (root, self))"

function connected_node_iter_next ::
    "heap \<Rightarrow> (nat \<times> node_neighborhood) list \<Rightarrow> connected_node_iter \<Rightarrow> (nat option \<times> connected_node_iter) res" where
  "connected_node_iter_next h table self =
     (if remaining_node_list self = [] then Inr (None, self)
      else let a = last (remaining_node_list self);
               self = self\<lparr>remaining_node_list := butlast (remaining_node_list self)\<rparr>
           in if a \<in> set (occurred_node_set self) then connected_node_iter_next h table self
              else bnd (take_node h table self a) (\<lambda>self. Inr (Some a, self)))"
  by pat_completeness auto
termination
  by (relation "measure (\<lambda>(h, t, it). length (remaining_node_list it))") auto

declare connected_node_iter_next.simps [simp del]

text \<open>What the iterator has still to see: the nodes of the table that have not occurred.\<close>

definition unseen :: "(nat \<times> node_neighborhood) list \<Rightarrow> connected_node_iter \<Rightarrow> nat set" where
  "unseen table self = set (map fst table) - set (occurred_node_set self)"

lemma take_node_fields:
  "take_node h table self a = Inr self' \<Longrightarrow>
     a \<in> set (map fst table) \<and> set (occurred_node_set self') = insert a (set (occurred_node_set self))"
  by (auto simp: take_node_def deref_eq_Inr bnd_eq_Inr dest: map_of_SomeD intro: rev_image_eqI)

lemma connected_next_unseen:
  "connected_node_iter_next h table self = Inr (Some a, self') \<Longrightarrow>
     a \<in> unseen table self \<and> unseen table self' = unseen table self - {a}"
proof (induction h table self rule: connected_node_iter_next.induct)
  case (1 h table self)
  let ?a = "last (remaining_node_list self)"
  let ?s = "self\<lparr>remaining_node_list := butlast (remaining_node_list self)\<rparr>"
  have ne: "remaining_node_list self \<noteq> []"
    using 1(2) by (subst (asm) connected_node_iter_next.simps) (auto split: if_splits)
  show ?case
  proof (cases "?a \<in> set (occurred_node_set ?s)")
    case True
    with 1 ne have "a \<in> unseen table ?s \<and> unseen table self' = unseen table ?s - {a}"
      by (subst (asm) (2) connected_node_iter_next.simps) simp
    then show ?thesis by (simp add: unseen_def)
  next
    case False
    with 1(2) ne have "take_node h table ?s ?a = Inr self'" "a = ?a"
      by (subst (asm) connected_node_iter_next.simps, auto simp: Let_def bnd_eq_Inr)+
    with take_node_fields [of h table ?s ?a self'] False show ?thesis
      by (auto simp: unseen_def)
  qed
qed

function connected_loop ::
    "heap \<Rightarrow> (nat \<times> node_neighborhood) list \<Rightarrow> connected_node_iter \<Rightarrow> nat list res" where
  "connected_loop h table self =
     bnd (connected_node_iter_next h table self) (\<lambda>(node, self).
       case node of
         None \<Rightarrow> Inr []
       | Some a \<Rightarrow> bnd (connected_loop h table self) (\<lambda>rest. Inr (a # rest)))"
  by pat_completeness auto
termination
proof (relation "measure (\<lambda>(h, table, it). card (unseen table it))")
  fix h table self x node it a
  assume "connected_node_iter_next h table self = Inr x" "(node, it) = x" "node = Some a"
  then have "connected_node_iter_next h table self = Inr (Some a, it)" by simp
  from connected_next_unseen [OF this]
  have "a \<in> unseen table self" "unseen table it = unseen table self - {a}" by simp_all
  moreover have "finite (unseen table self)" by (simp add: unseen_def)
  ultimately have "card (unseen table it) < card (unseen table self)"
    by (metis card_Diff1_less)
  then show "((h, table, it), (h, table, self)) \<in> measure (\<lambda>(h, table, it). card (unseen table it))"
    by simp
qed simp

declare connected_loop.simps [simp del]

definition connected_node_array :: "heap \<Rightarrow> nat \<Rightarrow> (nat \<times> node_neighborhood) list \<Rightarrow> nat list res" where
  "connected_node_array h root table =
     bnd (connected_node_iter_first h table root connected_node_iter_new) (\<lambda>(node, self).
     bnd (connected_loop h table self) (\<lambda>rest. Inr (node # rest)))"

subsection \<open>The array is what the root reaches\<close>

text \<open>The neighbors a node has in the table.\<close>

definition table_next :: "heap \<Rightarrow> (nat \<times> node_neighborhood) list \<Rightarrow> nat \<Rightarrow> nat list" where
  "table_next h table a =
     (case map_of table a of
        None \<Rightarrow> []
      | Some nh \<Rightarrow>
          (case ctor_of_node h (nh_node nh) of
             Inl _ \<Rightarrow> []
           | Inr c \<Rightarrow> neighbor_nodes (ctor_arity c) nh))"

definition table_edges :: "heap \<Rightarrow> (nat \<times> node_neighborhood) list \<Rightarrow> (nat \<times> nat) set" where
  "table_edges h table = {(a, b). b \<in> set (table_next h table a)}"

definition table_closed :: "heap \<Rightarrow> (nat \<times> node_neighborhood) list \<Rightarrow> bool" where
  "table_closed h table \<longleftrightarrow>
     (\<forall>(a, nh) \<in> set table. \<exists>c. ctor_of_node h (nh_node nh) = Inr c) \<and>
     (\<forall>a \<in> set (map fst table). set (table_next h table a) \<subseteq> set (map fst table))"

lemma table_closedD:
  "table_closed h table \<Longrightarrow> a \<in> set (map fst table) \<Longrightarrow> set (table_next h table a) \<subseteq> set (map fst table)"
  unfolding table_closed_def by (elim conjE) (rule bspec)

lemma take_node_closed:
  assumes "table_closed h table" "a \<in> set (map fst table)"
  shows "take_node h table self a =
     Inr (self\<lparr>occurred_node_set := List.insert a (occurred_node_set self),
               remaining_node_list := remaining_node_list self @ table_next h table a\<rparr>)"
proof -
  obtain nh where nh: "map_of table a = Some nh"
    using assms(2) by (metis map_of_eq_None_iff not_None_eq image_set)
  then obtain c where "ctor_of_node h (nh_node nh) = Inr c"
    using assms(1) map_of_SomeD [OF nh] by (auto simp: table_closed_def)
  with nh show ?thesis
    by (simp add: take_node_def table_next_def node_neighborhood_node_def)
qed

lemma connected_next_closed:
  assumes "table_closed h table" "set (remaining_node_list self) \<subseteq> set (map fst table)"
  shows "(\<exists>it. connected_node_iter_next h table self = Inr (None, it) \<and>
        set (remaining_node_list self) \<subseteq> set (occurred_node_set self)) \<or>
     (\<exists>a it. connected_node_iter_next h table self = Inr (Some a, it) \<and>
        a \<in> set (remaining_node_list self) \<and> a \<notin> set (occurred_node_set self) \<and>
        set (occurred_node_set it) = insert a (set (occurred_node_set self)) \<and>
        set (remaining_node_list it) \<subseteq> set (remaining_node_list self) \<union> set (table_next h table a) \<and>
        set (remaining_node_list self) \<union> set (table_next h table a) \<subseteq>
          set (remaining_node_list it) \<union> set (occurred_node_set it))"
  using assms
proof (induction h table self rule: connected_node_iter_next.induct)
  case (1 h table self)
  show ?case
  proof (cases "remaining_node_list self = []")
    case True
    then show ?thesis by (subst connected_node_iter_next.simps, subst connected_node_iter_next.simps) simp
  next
    case False
    then obtain xs a where xs: "remaining_node_list self = xs @ [a]"
      by (metis append_butlast_last_id)
    let ?s = "self\<lparr>remaining_node_list := xs\<rparr>"
    show ?thesis
    proof (cases "a \<in> set (occurred_node_set self)")
      case True
      have eq: "connected_node_iter_next h table self = connected_node_iter_next h table ?s"
        using True by (subst connected_node_iter_next.simps) (simp add: xs)
      note IH = 1(1) [OF _ refl refl, unfolded xs, simplified]
      show ?thesis
        unfolding eq using IH [OF True 1(2)] 1(3) True xs by auto
    next
      case False
      have "connected_node_iter_next h table self = bnd (take_node h table ?s a) (\<lambda>s. Inr (Some a, s))"
        using False by (subst connected_node_iter_next.simps) (simp add: xs)
      moreover have "a \<in> set (map fst table)" using 1(3) xs by simp
      note take_node_closed [OF 1(2) this, of ?s]
      ultimately show ?thesis
        using False xs by (intro disjI2 exI conjI) auto
    qed
  qed
qed

lemma connected_loop_reaches:
  assumes "table_closed h table" "set (remaining_node_list self) \<subseteq> set (map fst table)"
    and "\<forall>a \<in> set (occurred_node_set self).
      set (table_next h table a) \<subseteq> set (occurred_node_set self) \<union> set (remaining_node_list self)"
  shows "\<exists>ns. connected_loop h table self = Inr ns \<and> distinct ns \<and>
     set ns \<inter> set (occurred_node_set self) = {} \<and>
     set (remaining_node_list self) \<subseteq> set (occurred_node_set self) \<union> set ns \<and>
     (\<forall>a \<in> set (occurred_node_set self) \<union> set ns.
        set (table_next h table a) \<subseteq> set (occurred_node_set self) \<union> set ns) \<and>
     set ns \<subseteq> (table_edges h table)\<^sup>* `` set (remaining_node_list self)"
  using assms
proof (induction h table self rule: connected_loop.induct)
  case (1 h table self)
  from connected_next_closed [OF 1(2,3)] show ?case
  proof (elim disjE exE conjE)
    fix it
    assume n: "connected_node_iter_next h table self = Inr (None, it)"
      and sub: "set (remaining_node_list self) \<subseteq> set (occurred_node_set self)"
    have "connected_loop h table self = Inr []" using n by (subst connected_loop.simps) simp
    with sub 1(4) show ?thesis by auto
  next
    fix a and it :: connected_node_iter
    let ?O = "set (occurred_node_set self)" and ?R = "set (remaining_node_list self)"
    let ?O' = "set (occurred_node_set it)" and ?R' = "set (remaining_node_list it)"
    assume n: "connected_node_iter_next h table self = Inr (Some a, it)"
      and a: "a \<in> ?R" "a \<notin> ?O" and O': "?O' = insert a ?O"
      and R': "?R' \<subseteq> ?R \<union> set (table_next h table a)" "?R \<union> set (table_next h table a) \<subseteq> ?R' \<union> ?O'"
    have keys: "?R' \<subseteq> set (map fst table)"
      using R'(1) Un_least [OF 1(3) table_closedD [OF 1(2) subsetD [OF 1(3) a(1)]]] by (rule subset_trans)
    have inv: "\<forall>b \<in> ?O'. set (table_next h table b) \<subseteq> ?O' \<union> ?R'"
    proof
      have OR: "?O \<union> ?R \<subseteq> ?O' \<union> ?R'" using O' R'(2) by auto
      fix b assume "b \<in> ?O'"
      then consider (root) "b = a" | (old) "b \<in> ?O" unfolding O' by blast
      then show "set (table_next h table b) \<subseteq> ?O' \<union> ?R'"
      proof cases
        case root
        then show ?thesis using R'(2) by auto
      next
        case old
        show ?thesis using subset_trans [OF bspec [OF 1(4) old] OR] .
      qed
    qed
    from 1(1) [OF n refl refl 1(2) keys inv]
    obtain ns where ns: "connected_loop h table it = Inr ns" "distinct ns" "set ns \<inter> ?O' = {}"
        "?R' \<subseteq> ?O' \<union> set ns" "\<forall>b \<in> ?O' \<union> set ns. set (table_next h table b) \<subseteq> ?O' \<union> set ns"
        "set ns \<subseteq> (table_edges h table)\<^sup>* `` ?R'"
      by auto
    have run: "connected_loop h table self = Inr (a # ns)"
      using n ns(1) by (subst connected_loop.simps) simp
    have "?R' \<subseteq> (table_edges h table)\<^sup>* `` ?R"
      using R'(1) a(1) by (auto simp: table_edges_def)
    then have "(table_edges h table)\<^sup>* `` ?R' \<subseteq> (table_edges h table)\<^sup>* `` ?R"
      by (auto intro: rtrancl_trans)
    then have reach: "set (a # ns) \<subseteq> (table_edges h table)\<^sup>* `` ?R"
      using ns(6) a(1) by auto
    have un: "?O' \<union> set ns = ?O \<union> set (a # ns)" using O' by auto
    have "distinct (a # ns)" "set (a # ns) \<inter> ?O = {}" "?R \<subseteq> ?O \<union> set (a # ns)"
      using ns(2-4) a(2) O' R'(2) by auto
    with run ns(5) reach show ?thesis
      unfolding un by blast
  qed
qed

lemma connected_nodes:
  assumes "table_closed h table" "root \<in> set (map fst table)"
  shows "\<exists>ns. connected_node_array h root table = Inr ns \<and> distinct ns \<and>
     set ns = (table_edges h table)\<^sup>* `` {root}"
proof -
  let ?it = "\<lparr>occurred_node_set = [root], remaining_node_list = table_next h table root\<rparr>"
  have take: "take_node h table connected_node_iter_new root = Inr ?it"
    using take_node_closed [OF assms, of connected_node_iter_new] by (simp add: connected_node_iter_new_def)
  have "set (remaining_node_list ?it) \<subseteq> set (map fst table)"
    using table_closedD [OF assms] by simp
  moreover have "\<forall>a \<in> set (occurred_node_set ?it).
      set (table_next h table a) \<subseteq> set (occurred_node_set ?it) \<union> set (remaining_node_list ?it)"
    by auto
  ultimately have "\<exists>ns. connected_loop h table ?it = Inr ns \<and> distinct ns \<and>
      set ns \<inter> set (occurred_node_set ?it) = {} \<and>
      set (remaining_node_list ?it) \<subseteq> set (occurred_node_set ?it) \<union> set ns \<and>
      (\<forall>a \<in> set (occurred_node_set ?it) \<union> set ns.
         set (table_next h table a) \<subseteq> set (occurred_node_set ?it) \<union> set ns) \<and>
      set ns \<subseteq> (table_edges h table)\<^sup>* `` set (remaining_node_list ?it)"
    by (rule connected_loop_reaches [OF assms(1)])
  then
  obtain ns where ns: "connected_loop h table ?it = Inr ns" "distinct ns" "root \<notin> set ns"
      "\<forall>a \<in> insert root (set ns). set (table_next h table a) \<subseteq> insert root (set ns)"
      "set ns \<subseteq> (table_edges h table)\<^sup>* `` set (table_next h table root)"
    by auto
  have "connected_node_array h root table = Inr (root # ns)"
    using take ns(1) by (simp add: connected_node_array_def connected_node_iter_first_def)
  moreover have "insert root (set ns) = (table_edges h table)\<^sup>* `` {root}"
  proof
    have "(table_edges h table)\<^sup>* `` set (table_next h table root) \<subseteq> (table_edges h table)\<^sup>* `` {root}"
      by (auto simp: table_edges_def intro: converse_rtrancl_into_rtrancl)
    then show "insert root (set ns) \<subseteq> (table_edges h table)\<^sup>* `` {root}" using ns(5) by auto
    have "b \<in> insert root (set ns)" if "(root, b) \<in> (table_edges h table)\<^sup>*" for b
      using that by induction (use ns(4) in \<open>auto simp: table_edges_def\<close>)
    then show "(table_edges h table)\<^sup>* `` {root} \<subseteq> insert root (set ns)" by auto
  qed
  ultimately show ?thesis using ns(2,3) by (intro exI [of _ "root # ns"]) simp
qed

text \<open>The table of the allocated nodes is closed: a neighbor is an allocated node itself.\<close>

definition neighbors_within :: "nat \<Rightarrow> nat set \<Rightarrow> node_neighborhood \<Rightarrow> bool" where
  "neighbors_within a ns nh \<longleftrightarrow>
     nh_node nh = a \<and> (\<forall>nb. Some nb \<in> set (node_neighbor_array nh) \<longrightarrow> end_node nb \<in> ns)"

lemma neighbor_ports_end: "neighbor_ports h x y ports = Some (Inr (Some nb)) \<Longrightarrow> end_node nb = y"
  by (induction ports rule: neighbor_ports.induct [of _ h x y]) (auto simp: lbnd_eq_Some_Inr split: if_splits)

lemma neighbor_end: "node_neighbor_new_maybe h x y = Some (Inr (Some nb)) \<Longrightarrow> end_node nb = y"
  by (auto simp: node_neighbor_new_maybe_def lbnd_eq_Some_Inr dest: neighbor_ports_end split: if_splits)

lemma slot_set_mem: "x \<in> set (slot_set d xs i v) \<Longrightarrow> x = v \<or> x = d \<or> x \<in> set xs"
  by (auto simp: slot_set_def dest!: set_update_subset_insert [THEN subsetD] split: if_splits)

lemma add_nodes_within:
  "add_nodes h self as = Some (Inr self') \<Longrightarrow> set as \<subseteq> ns \<Longrightarrow> neighbors_within a ns self \<Longrightarrow>
     neighbors_within a ns self'"
proof (induction as arbitrary: self)
  case (Cons b as)
  then obtain s where s: "node_neighborhood_maybe_add_node h self b = Some (Inr s)"
      "add_nodes h s as = Some (Inr self')"
    by (auto simp: lbnd_eq_Some_Inr)
  have "neighbors_within a ns s"
    using s(1) Cons.prems(2,3)
    by (auto simp: node_neighborhood_maybe_add_node_def lbnd_eq_Some_Inr neighbors_within_def
        dest!: slot_set_mem neighbor_end split: option.splits)
  with Cons.IH s(2) Cons.prems(2) show ?case by simp
qed simp

lemma neighborhoods_within:
  "neighborhoods h ns xs = Some (Inr table) \<Longrightarrow>
     map fst table = xs \<and> (\<forall>(a, nh) \<in> set table. neighbors_within a (set ns) nh)"
proof (induction xs arbitrary: table)
  case (Cons x xs)
  then obtain nh rest where nh: "add_nodes h (node_neighborhood_new x) ns = Some (Inr nh)"
      "neighborhoods h ns xs = Some (Inr rest)" "table = (x, nh) # rest"
    by (auto simp: lbnd_eq_Some_Inr)
  have "neighbors_within x (set ns) nh"
    by (rule add_nodes_within [OF nh(1)]) (simp_all add: neighbors_within_def node_neighborhood_new_def)
  with Cons.IH [OF nh(2)] nh(3) show ?case by simp
qed simp

lemma neighbor_nodes_within:
  "neighbors_within a ns nh \<Longrightarrow> set (neighbor_nodes n nh) \<subseteq> ns"
proof -
  assume w: "neighbors_within a ns nh"
  show ?thesis
  proof
    fix b assume "b \<in> set (neighbor_nodes n nh)"
    then obtain i where i: "b \<in> set (case node_neighborhood_get nh i of None \<Rightarrow> [] | Some nb \<Rightarrow> [end_node nb])"
      unfolding neighbor_nodes_def by auto
    then obtain nb where "slot None (node_neighbor_array nh) i = Some nb" "b = end_node nb"
      by (cases "node_neighborhood_get nh i") (simp_all add: node_neighborhood_get_def)
    moreover from this(1) have "Some nb \<in> set (node_neighbor_array nh)"
      using slot_mem [of None "node_neighbor_array nh" i] by simp
    ultimately show "b \<in> ns" using w by (simp add: neighbors_within_def)
  qed
qed

lemma table_of_net_closed:
  assumes table: "build_node_neighborhood_hash h alloc = Some (Inr table)"
    and nodes: "allocated_node_array h alloc = Inr ns" "\<forall>a \<in> set ns. \<exists>c. ctor_of_node h a = Inr c"
  shows "table_closed h table" "map fst table = ns"
proof -
  have t: "map fst table = ns" "\<forall>(a, nh) \<in> set table. neighbors_within a (set ns) nh"
    using neighborhoods_within [of h ns ns table] table nodes(1)
    by (simp_all add: build_node_neighborhood_hash_def)
  then show "map fst table = ns" by simp
  show "table_closed h table"
    unfolding table_closed_def
  proof
    show "\<forall>(a, nh) \<in> set table. \<exists>c. ctor_of_node h (nh_node nh) = Inr c"
      using t nodes(2) by (force simp: neighbors_within_def)
    show "\<forall>a \<in> set (map fst table). set (table_next h table a) \<subseteq> set (map fst table)"
    proof
      fix a
      show "set (table_next h table a) \<subseteq> set (map fst table)"
      proof (cases "map_of table a")
        case (Some nh)
        then have "neighbors_within a (set ns) nh" using t(2) by (auto dest: map_of_SomeD)
        then show ?thesis
          using neighbor_nodes_within [of a "set ns" nh] Some
          by (cases "ctor_of_node h (nh_node nh)") (simp_all add: t(1) table_next_def)
      qed (simp add: table_next_def)
    qed
  qed
qed

lemma connected_nodes_of_net:
  assumes "build_node_neighborhood_hash h alloc = Some (Inr table)"
    and "allocated_node_array h alloc = Inr ns" "\<forall>a \<in> set ns. \<exists>c. ctor_of_node h a = Inr c"
    and "root \<in> set ns"
  shows "\<exists>as. connected_node_array h root table = Inr as \<and> distinct as \<and>
     set as = (table_edges h table)\<^sup>* `` {root}"
  using connected_nodes [OF table_of_net_closed(1) [OF assms(1-3)]] table_of_net_closed(2) [OF assms(1-3)] assms(4)
  by simp

section \<open>Printing neighborhoods\<close>

text \<open>The texts of a loop, one for each of the indexes, and the text with an end after each but the last.\<close>

fun texts :: "('a \<Rightarrow> string loop) \<Rightarrow> 'a list \<Rightarrow> string list loop" where
  "texts f [] = Some (Inr [])"
| "texts f (x # xs) = lbnd (f x) (\<lambda>s. lbnd (texts f xs) (\<lambda>ss. Some (Inr (s # ss))))"

fun join_with :: "string \<Rightarrow> string list \<Rightarrow> string" where
  "join_with sep [] = []"
| "join_with sep [s] = s"
| "join_with sep (s # t # ss) = s @ sep @ join_with sep (t # ss)"

definition newline :: string where
  "newline = [CHR 0x0A]"

definition node_neighbor_print_end_port :: "heap \<Rightarrow> node_neighbor \<Rightarrow> string res" where
  "node_neighbor_print_end_port h self =
     bnd (node_print_port_info h (end_node self) (end_port_index self)) (\<lambda>p.
     bnd (node_print h (end_node self)) (\<lambda>n. Inr (''('' @ p @ '' '' @ n @ '')'')))"

definition node_neighborhood_print_one ::
    "printf_ops \<Rightarrow> machine \<Rightarrow> node_neighborhood \<Rightarrow> nat \<Rightarrow> string loop" where
  "node_neighborhood_print_one fmt m self i =
     lbnd (Some (node_print_port_info (net m) (nh_node self) i)) (\<lambda>port.
     lbnd (case node_neighborhood_get self i of
             Some nb \<Rightarrow> Some (node_neighbor_print_end_port (net m) nb)
           | None \<Rightarrow>
               lbnd (Some (node_get_value (net m) (nh_node self) i)) (\<lambda>v.
               if v = VNull then Some (Inr ''____'')
               else lbnd (walk (net m) v) (\<lambda>v.
                 if is_non_wire v then Some (value_print fmt m v) else Some (Inr ''____'')))) (\<lambda>t.
       Some (Inr (port @ '' '' @ t))))"

definition node_neighborhood_print :: "printf_ops \<Rightarrow> machine \<Rightarrow> node_neighborhood \<Rightarrow> string \<Rightarrow> string loop" where
  "node_neighborhood_print fmt m self pre =
     lbnd (Some (node_print_name (net m) (nh_node self))) (\<lambda>name.
     lbnd (Some (ctor_of_node (net m) (nh_node self))) (\<lambda>c.
     lbnd (texts (\<lambda>i. lbnd (node_neighborhood_print_one fmt m self i) (\<lambda>t. Some (Inr (pre @ '' '' @ t))))
             [0..<ctor_arity c]) (\<lambda>ts.
       Some (Inr (pre @ ''('' @ name @ newline @ join_with newline ts @ (if ctor_arity c = 0 then [] else '')''))))))"

section \<open>Nodes by their wires\<close>

fun lookup_loop :: "heap \<Rightarrow> nat \<Rightarrow> nat list \<Rightarrow> nat option loop" where
  "lookup_loop h w [] = Some (Inr None)"
| "lookup_loop h w (a # as) =
     lbnd (node_has_wire h a w) (\<lambda>found. if found then Some (Inr (Some a)) else lookup_loop h w as)"

definition worker_lookup_node_by_wire :: "machine \<Rightarrow> nat \<Rightarrow> nat option loop" where
  "worker_lookup_node_by_wire m w =
     lbnd (Some (allocated_node_array (net m) (node_alloc m))) (\<lambda>ns. lookup_loop (net m) w ns)"

definition worker_print_value :: "printf_ops \<Rightarrow> machine \<Rightarrow> val \<Rightarrow> string loop" where
  "worker_print_value fmt m v =
     (case v of
        VWire w \<Rightarrow>
          lbnd (worker_lookup_node_by_wire m w) (\<lambda>found.
          case found of
            None \<Rightarrow> Some (value_print fmt m v)
          | Some a \<Rightarrow>
              lbnd (node_wire_index (net m) a w) (\<lambda>index.
              lbnd (Some (node_print_port_info (net m) a index)) (\<lambda>p.
              lbnd (Some (node_print (net m) a)) (\<lambda>n.
                Some (Inr (''(wire ('' @ p @ '' '' @ n @ ''))''))))))
      | _ \<Rightarrow> Some (value_print fmt m v))"

section \<open>Frames, tasks and workers\<close>

definition frame_text :: "printf_ops \<Rightarrow> machine \<Rightarrow> (val \<Rightarrow> string loop) \<Rightarrow> frame \<Rightarrow> string loop" where
  "frame_text fmt m print self =
     lbnd (Some (deref (cell (function_objects m) (frame_function self)) (\<lambda>f.
             function_print_with_cursor fmt m f (frame_cursor self)))) (\<lambda>code.
     lbnd (texts (\<lambda>v. if v \<noteq> VNull then print v else Some (Inr ''____'')) (variable_array self)) (\<lambda>vars.
       Some (Inr (''(frame '' @ code @ newline @ ''   :local-variable-array ('' @
                  print_separated vars @ ''))''))))"

definition frame_print :: "printf_ops \<Rightarrow> machine \<Rightarrow> frame \<Rightarrow> string loop" where
  "frame_print fmt m self =
     frame_text fmt m (\<lambda>v. lbnd (walk (net m) v) (\<lambda>v. Some (value_print fmt m v))) self"

definition frame_print_within_worker :: "printf_ops \<Rightarrow> machine \<Rightarrow> frame \<Rightarrow> string loop" where
  "frame_print_within_worker fmt m self = frame_text fmt m (worker_print_value fmt m) self"

fun task_ports :: "printf_ops \<Rightarrow> machine \<Rightarrow> nat \<Rightarrow> nat list \<Rightarrow> string res" where
  "task_ports fmt m n [] = Inr []"
| "task_ports fmt m n (i # is) =
     bnd (node_get_port_info (net m) n i) (\<lambda>port_info.
     bnd (if is_principal port_info then
            bnd (node_print_port_info (net m) n i) (\<lambda>p.
            bnd (node_get_value (net m) n i) (\<lambda>v.
            bnd (value_print fmt m v) (\<lambda>t. Inr (p @ '' '' @ t))))
          else Inr []) (\<lambda>t.
     bnd (task_ports fmt m n is) (\<lambda>ts. Inr (t @ ts))))"

definition task_print :: "printf_ops \<Rightarrow> machine \<Rightarrow> task \<Rightarrow> string res" where
  "task_print fmt m self =
     (case self of
        Task_active_pair left right rule \<Rightarrow>
          bnd (principal_wire_print_left (net m) left) (\<lambda>l.
          bnd (principal_wire_print_right (net m) right) (\<lambda>r.
            Inr (''(task-active-pair '' @ l @ '' '' @ r @ '')'')))
      | Task_primitive n \<Rightarrow>
          bnd (node_print_name (net m) n) (\<lambda>name.
          bnd (ctor_of_node (net m) n) (\<lambda>c.
          bnd (task_ports fmt m n [0..<ctor_arity c]) (\<lambda>t.
            Inr (''(task-primitive ('' @ name @ '' '' @ t @ ''))'')))))"

text \<open>The three lists of a worker have the same form; the return stack and the value stack are written from the bottom.\<close>

definition section_text :: "string \<Rightarrow> string list \<Rightarrow> string" where
  "section_text name ts =
     '' :'' @ name @ ''-length '' @ uint_to_string (length ts) @ newline @ '' :'' @ name @ newline @
     '' ('' @ join_with (newline @ ''  '') ts @ '')''"

definition worker_print_return_stack :: "printf_ops \<Rightarrow> machine \<Rightarrow> string loop" where
  "worker_print_return_stack fmt m =
     lbnd (texts (frame_print_within_worker fmt m) (rev (return_stack m))) (\<lambda>ts.
       Some (Inr (section_text ''return-stack'' ts)))"

definition worker_print_value_stack :: "printf_ops \<Rightarrow> machine \<Rightarrow> string loop" where
  "worker_print_value_stack fmt m =
     lbnd (texts (worker_print_value fmt m) (rev (value_stack m))) (\<lambda>ts.
       Some (Inr (section_text ''value-stack'' ts)))"

definition worker_print_task_queue :: "printf_ops \<Rightarrow> machine \<Rightarrow> string loop" where
  "worker_print_task_queue fmt m =
     lbnd (texts (\<lambda>t. Some (task_print fmt m t)) (task_queue m)) (\<lambda>ts.
       Some (Inr (section_text ''task-queue'' ts)))"

definition worker_print_id :: "machine \<Rightarrow> nat \<Rightarrow> string" where
  "worker_print_id m i = (if worker_is_loader m then '' :id loader'' else '' :id '' @ uint_to_string i)"

definition worker_print :: "printf_ops \<Rightarrow> machine \<Rightarrow> nat \<Rightarrow> string loop" where
  "worker_print fmt m i =
     lbnd (worker_print_task_queue fmt m) (\<lambda>tasks.
     lbnd (worker_print_return_stack fmt m) (\<lambda>frames.
     lbnd (worker_print_value_stack fmt m) (\<lambda>values.
       Some (Inr (''(worker'' @ newline @ worker_print_id m i @ newline @ tasks @ newline @
                  frames @ newline @ values @ '')'')))))"

section \<open>Printing what is connected to a value\<close>

definition connected_root :: "machine \<Rightarrow> val \<Rightarrow> nat option loop" where
  "connected_root m v =
     (case v of
        VWire w \<Rightarrow> worker_lookup_node_by_wire m w
      | VPrincipal p \<Rightarrow> Some (deref (cell (principal_wires (net m)) p) (\<lambda>p. Inr (Some (pw_node p))))
      | _ \<Rightarrow> Some (Inr None))"

definition print_connected :: "printf_ops \<Rightarrow> machine \<Rightarrow> val \<Rightarrow> string loop" where
  "print_connected fmt m v =
     lbnd (walk (net m) v) (\<lambda>v.
     lbnd (connected_root m v) (\<lambda>node.
     case node of
       None \<Rightarrow> lbnd (Some (value_print fmt m v)) (\<lambda>t. Some (Inr (t @ newline)))
     | Some a \<Rightarrow>
         lbnd (build_node_neighborhood_hash (net m) (node_alloc m)) (\<lambda>table.
         lbnd (Some (node_print (net m) a)) (\<lambda>root.
         lbnd (Some (connected_node_array (net m) a table)) (\<lambda>ns.
         lbnd (texts (\<lambda>b. case map_of table b of
                      None \<Rightarrow> Some (Inl Assert_failed)
                    | Some nh \<Rightarrow> node_neighborhood_print fmt m nh '' '') ns) (\<lambda>ts.
           Some (Inr (''(net'' @ newline @ '' :root '' @ root @ newline @
                      '' :node-count '' @ uint_to_string (length ns) @ newline @
                      join_with newline ts @ '')'' @ newline))))))))"

definition print_top :: "printf_ops \<Rightarrow> machine \<Rightarrow> nat \<Rightarrow> string loop" where
  "print_top fmt m value_count =
     lbnd (texts (print_connected fmt m) (rev (take value_count (value_stack m)))) (\<lambda>ts.
       Some (Inr (concat ts)))"

end
