(* ===== verification/Node_Pattern.thy ===== *)
theory Node_Pattern
  imports Compile Net_Print
begin

text \<open>
  Rules and definitions (\<open>src/src/lang/node_pattern.c\<close>, \<open>define.c\<close> and the first half of
  \<open>execute.c\<close>): a pattern tree is flattened into node patterns, and a pair of node patterns
  with a body becomes a rule of both node constructors.
\<close>

section \<open>Node patterns\<close>

record node_pattern =
  np_ctor :: nat
  np_port_infos :: "port_info option list"

definition node_pattern_new :: "heap \<Rightarrow> nat \<Rightarrow> node_pattern res" where
  "node_pattern_new h c =
     deref (at (node_ctors h) c) (\<lambda>ctor.
       Inr \<lparr>np_ctor = c, np_port_infos = replicate (ctor_arity ctor) None\<rparr>)"

text \<open>The index is not checked against the arity; a port with the wrong mark is left as it is.\<close>

definition node_pattern_set_port_info ::
    "heap \<Rightarrow> node_pattern \<Rightarrow> nat \<Rightarrow> port_info \<Rightarrow> (bool \<times> node_pattern) res" where
  "node_pattern_set_port_info h self index p =
     deref (at (node_ctors h) (np_ctor self)) (\<lambda>ctor.
     defined_when (index < ctor_arity ctor) (
     deref (slot None (port_infos ctor) index) (\<lambda>q.
       if is_principal p \<noteq> is_principal q then Inr (False, self)
       else Inr (True, self\<lparr>np_port_infos := (np_port_infos self)[index := Some p]\<rparr>))))"

fun has_principal_name :: "port_info option list \<Rightarrow> string \<Rightarrow> bool res" where
  "has_principal_name [] name = Inr False"
| "has_principal_name (p # ps) name =
     deref p (\<lambda>p.
       if is_principal p \<and> string_equal (port_name p) name then Inr True
       else has_principal_name ps name)"

definition node_pattern_has_principal_name :: "node_pattern \<Rightarrow> string \<Rightarrow> bool res" where
  "node_pattern_has_principal_name self name = has_principal_name (np_port_infos self) name"

fun port_texts :: "port_info option list \<Rightarrow> string res" where
  "port_texts [] = Inr []"
| "port_texts (p # ps) =
     deref p (\<lambda>p. bnd (port_texts ps) (\<lambda>t.
       Inr ((if is_principal p then '' '' @ port_name p @ ''!'' else '' '' @ port_name p) @ t)))"

definition node_pattern_print :: "heap \<Rightarrow> node_pattern \<Rightarrow> string res" where
  "node_pattern_print h self =
     deref (at (node_ctors h) (np_ctor self)) (\<lambda>ctor.
     bnd (port_texts (np_port_infos self)) (\<lambda>t.
       Inr (''('' @ ctor_name ctor @ t @ '')'')))"

section \<open>Definitions\<close>

definition define_name :: "string \<Rightarrow> val \<Rightarrow> machine \<Rightarrow> machine res" where
  "define_name name v m =
     asserting (value_hash m name = None)
       (Inr (m\<lparr>value_hash := (value_hash m)(string_copy name \<mapsto> v)\<rparr>))"

definition add_rule :: "nat \<Rightarrow> rule \<Rightarrow> machine \<Rightarrow> machine" where
  "add_rule c rule m =
     m\<lparr>net := (net m)\<lparr>node_ctors := (node_ctors (net m))
       [c := (node_ctors (net m) ! c)\<lparr>rule_array := rule_array (node_ctors (net m) ! c) @ [rule]\<rparr>]\<rparr>\<rparr>"

definition define_rule :: "string \<Rightarrow> rule \<Rightarrow> machine \<Rightarrow> machine res" where
  "define_rule name rule m =
     bnd (as_node_ctor (mod_find m name)) (\<lambda>c.
     deref (at (node_ctors (net m)) c) (\<lambda>_. Inr (add_rule c rule m)))"

text \<open>The names of the ports that are not principal; every port must have been set.\<close>

fun local_names :: "port_info option list \<Rightarrow> string list res" where
  "local_names [] = Inr []"
| "local_names (p # ps) =
     deref p (\<lambda>p. bnd (local_names ps) (\<lambda>names.
       Inr (if \<not> is_principal p then port_name p # names else names)))"

definition new_function :: "function_t \<Rightarrow> machine \<Rightarrow> nat \<times> machine" where
  "new_function f m =
     (length (function_objects m), m\<lparr>function_objects := function_objects m @ [Some f]\<rparr>)"

definition define_rule_star :: "node_pattern list \<Rightarrow> exp list \<Rightarrow> machine \<Rightarrow> machine res" where
  "define_rule_star patterns exps m =
     (case patterns of
        [left, right] \<Rightarrow>
          bnd (local_names (np_port_infos left)) (\<lambda>left_names.
          bnd (local_names (np_port_infos right)) (\<lambda>right_names.
          let names = left_names @ right_names in
          bnd (compile_exp_list m (compile_set_variable_list (function_new (length names)) names) exps) (\<lambda>f.
          let (a, m) = new_function f m;
              rule = \<lparr>left_node_ctor = np_ctor left, right_node_ctor = np_ctor right, rule_function = a\<rparr> in
          deref (at (node_ctors (net m)) (np_ctor left)) (\<lambda>lc.
          deref (at (node_ctors (net m)) (np_ctor right)) (\<lambda>rc.
          bnd (define_rule (ctor_name lc) rule m) (\<lambda>m.
            define_rule (ctor_name rc) rule m))))))
      | _ \<Rightarrow> Inl Assert_failed)"

fun port_infos_of :: "string list \<Rightarrow> port_info option list res" where
  "port_infos_of [] = Inr []"
| "port_infos_of (name # names) =
     bnd (port_info_from_name (string_copy name)) (\<lambda>p. bnd (port_infos_of names) (\<lambda>ps. Inr (Some p # ps)))"

definition define_node :: "string \<Rightarrow> string list \<Rightarrow> machine \<Rightarrow> machine res" where
  "define_node name port_names m =
     bnd (port_infos_of port_names) (\<lambda>ps.
     let c = (node_ctor_new name (length port_names))\<lparr>port_infos := ps\<rparr>;
         h = net m
     in define_name name (VCtor (length (node_ctors h))) (m\<lparr>net := h\<lparr>node_ctors := node_ctors h @ [c]\<rparr>\<rparr>))"

text \<open>\<open>mod_define_rule\<close> of \<open>core/mod.c\<close>, which \<open>define_rule_star\<close> does not use.\<close>

definition mod_define_rule :: "string \<Rightarrow> string \<Rightarrow> nat \<Rightarrow> machine \<Rightarrow> machine res" where
  "mod_define_rule first second f m =
     bnd (as_node_ctor (mod_find m first)) (\<lambda>l.
     bnd (as_node_ctor (mod_find m second)) (\<lambda>r.
     deref (at (node_ctors (net m)) l) (\<lambda>_. deref (at (node_ctors (net m)) r) (\<lambda>_.
       let rule = \<lparr>left_node_ctor = l, right_node_ctor = r, rule_function = f\<rparr>
       in if l = r then Inr (add_rule l rule m) else Inr (add_rule r rule (add_rule l rule m))))))"

section \<open>From expressions to node patterns\<close>

fun build_ports :: "heap \<Rightarrow> nat \<Rightarrow> exp list \<Rightarrow> node_pattern \<Rightarrow> node_pattern res" where
  "build_ports h index [] self = Inr self"
| "build_ports h index (EXP_VAR name # args) self =
     bnd (port_info_from_name (string_copy name)) (\<lambda>p.
     bnd (node_pattern_set_port_info h self index p) (\<lambda>(_, self). build_ports h (Suc index) args self))"
| "build_ports h index (arg # args) self = Inl Assert_failed"

definition build_node_pattern :: "machine \<Rightarrow> exp \<Rightarrow> node_pattern res" where
  "build_node_pattern m pattern_exp =
     (case pattern_exp of
        EXP_AP (EXP_VAR name) arg_list \<Rightarrow>
          (let v = mod_find m name
           in if v = VNull then Inl Exit_failure
              else bnd (as_node_ctor v) (\<lambda>c.
                   bnd (node_pattern_new (net m) c) (\<lambda>self. build_ports (net m) 0 arg_list self)))
      | _ \<Rightarrow> Inl Assert_failed)"

fun build_node_pattern_list :: "machine \<Rightarrow> exp list \<Rightarrow> node_pattern list res" where
  "build_node_pattern_list m [] = Inr []"
| "build_node_pattern_list m (e # es) =
     bnd (build_node_pattern m e) (\<lambda>p. bnd (build_node_pattern_list m es) (\<lambda>ps. Inr (p # ps)))"

text \<open>
  Every sub-tree becomes a pattern of its own, put in front of the list, and is connected through
  the name that its place in the tree and its last port both get; the name is always \<open>!\<close>.
\<close>

fun translate_pattern_arg_list :: "exp list \<Rightarrow> exp list \<Rightarrow> (exp list \<times> exp list) res"
  and translate_pattern_sub_tree :: "exp \<Rightarrow> string \<Rightarrow> exp list \<Rightarrow> exp list res" where
  "translate_pattern_arg_list [] patterns = Inr ([], patterns)"
| "translate_pattern_arg_list (EXP_VAR name # args) patterns =
     bnd (exp_copy (EXP_VAR name)) (\<lambda>arg.
     bnd (translate_pattern_arg_list args patterns) (\<lambda>(args, patterns). Inr (arg # args, patterns)))"
| "translate_pattern_arg_list (arg # args) patterns =
     bnd (translate_pattern_sub_tree arg ''!'' patterns) (\<lambda>patterns.
     bnd (translate_pattern_arg_list args patterns) (\<lambda>(args, patterns).
       Inr (exp_var ''!'' # args, patterns)))"
| "translate_pattern_sub_tree (EXP_AP target arg_list) last_arg_name patterns =
     bnd (exp_copy target) (\<lambda>target.
     bnd (translate_pattern_arg_list arg_list patterns) (\<lambda>(args, patterns).
       Inr (exp_ap target (args @ [exp_var (string_copy last_arg_name)]) # patterns)))"
| "translate_pattern_sub_tree e last_arg_name patterns = Inl Assert_failed"

definition translate_pattern_tree :: "exp \<Rightarrow> exp list res" where
  "translate_pattern_tree pattern_exp =
     (case pattern_exp of
        EXP_AP target arg_list \<Rightarrow>
          bnd (exp_copy target) (\<lambda>target.
          bnd (translate_pattern_arg_list arg_list []) (\<lambda>(args, patterns).
            Inr (exp_ap target args # patterns)))
      | _ \<Rightarrow> Inl Assert_failed)"

end
