(* ===== verification/Execute.thy ===== *)
theory Execute
  imports Node_Pattern
begin

text \<open>
  Executing statements and loading modules (\<open>src/src/lang/execute.c\<close>, \<open>run_exp.c\<close>, \<open>load.c\<close> and
  \<open>src/src/prelude\<close>). Outside the code are what the files hold, how doubles are read, computed
  and written, and the flags of the command line; they are the fields of \<open>platform\<close>. The text that
  is printed is returned. The machine is that of the loader worker of one module; its net,
  functions, primitives and node allocator are shared by the loader workers of all modules, and
  \<open>global_mod_cache\<close> maps the path of a loaded module to the values it defines.
\<close>

record platform =
  double_reader :: double_parser
  fpu :: double_ops
  text_format :: printf_ops
  files :: "string \<Rightarrow> string option"
  single_threaded_flag :: bool
  print_top_level_exp_flag :: bool
  no_run_top_level_exp :: bool
  work_parallelly :: "machine \<Rightarrow> machine loop"

section \<open>Running expressions\<close>

definition worker_work :: "platform \<Rightarrow> machine \<Rightarrow> machine loop" where
  "worker_work s m =
     (if single_threaded_flag s then worker_work_sequentially m else work_parallelly s m)"

definition function_destroy :: "nat \<Rightarrow> machine \<Rightarrow> machine" where
  "function_destroy a m = m\<lparr>function_objects := (function_objects m)[a := None]\<rparr>"

definition build_net :: "exp \<Rightarrow> machine \<Rightarrow> machine loop" where
  "build_net e m =
     lbnd (Some (compile_exp m (function_new 0) e)) (\<lambda>f.
     let (a, m) = new_function f m in
     lbnd (call_function a m) (\<lambda>m. Some (Inr (function_destroy a m))))"

definition run_exp :: "platform \<Rightarrow> exp \<Rightarrow> machine \<Rightarrow> (nat \<times> machine) loop" where
  "run_exp s e m =
     (let base_value_count = length (value_stack m)
      in lbnd (build_net e m) (\<lambda>m.
         lbnd (if \<not> no_run_top_level_exp s then worker_work s m else Some (Inr m)) (\<lambda>m.
           Some (asserting (length (value_stack m) \<ge> base_value_count)
             (Inr (length (value_stack m) - base_value_count, m))))))"

definition run_exp_and_print :: "platform \<Rightarrow> exp \<Rightarrow> machine \<Rightarrow> (string \<times> machine) loop" where
  "run_exp_and_print s e m =
     lbnd (run_exp s e m) (\<lambda>(value_count, m).
     lbnd (if print_top_level_exp_flag s then print_top (text_format s) m value_count
           else Some (Inr [])) (\<lambda>t.
       Some (Inr (t, m))))"

section \<open>The prelude\<close>

definition define_primitive :: "primitive \<Rightarrow> machine \<Rightarrow> machine res" where
  "define_primitive p m =
     (let (a, m) = new_primitive p m in define_name (primitive_name p) (VPrimitive a) m)"

definition define_primitive_fn :: "string \<Rightarrow> nat \<Rightarrow> nat \<Rightarrow> worker_fn \<Rightarrow> machine \<Rightarrow> machine res" where
  "define_primitive_fn name inputs outputs f = define_primitive (primitive_from_fn name inputs outputs f)"

definition define_primitive_fn_0 :: "string \<Rightarrow> val res \<Rightarrow> machine \<Rightarrow> machine res" where
  "define_primitive_fn_0 name f = define_primitive (primitive_from_fn_0 name f)"

definition define_primitive_fn_1 :: "string \<Rightarrow> (val \<Rightarrow> val res) \<Rightarrow> machine \<Rightarrow> machine res" where
  "define_primitive_fn_1 name f = define_primitive (primitive_from_fn_1 name f)"

definition define_primitive_fn_2 :: "string \<Rightarrow> (val \<Rightarrow> val \<Rightarrow> val res) \<Rightarrow> machine \<Rightarrow> machine res" where
  "define_primitive_fn_2 name f = define_primitive (primitive_from_fn_2 name f)"

definition define_primitive_fn_3 :: "string \<Rightarrow> (val \<Rightarrow> val \<Rightarrow> val \<Rightarrow> val res) \<Rightarrow> machine \<Rightarrow> machine res" where
  "define_primitive_fn_3 name f = define_primitive (primitive_from_fn_3 name f)"

definition define_primitive_fn_4 ::
    "string \<Rightarrow> (val \<Rightarrow> val \<Rightarrow> val \<Rightarrow> val \<Rightarrow> val res) \<Rightarrow> machine \<Rightarrow> machine res" where
  "define_primitive_fn_4 name f = define_primitive (primitive_from_fn_4 name f)"

definition define_primitive_node :: "string \<Rightarrow> string list \<Rightarrow> machine \<Rightarrow> machine res" where
  "define_primitive_node name port_names m =
     (case mod_find m name of
        VPrimitive p \<Rightarrow> primitive_set_node_ctor p (map Some port_names) m
      | _ \<Rightarrow> Inl Exit_failure)"

definition define_primitive_node_ctor ::
    "string \<Rightarrow> nat \<Rightarrow> nat \<Rightarrow> worker_fn \<Rightarrow> string list \<Rightarrow> machine \<Rightarrow> machine res" where
  "define_primitive_node_ctor name inputs outputs f port_names m =
     bnd (define_primitive_fn name inputs outputs f m) (define_primitive_node name port_names)"

definition define_primitive_node_ctor_0 :: "string \<Rightarrow> val res \<Rightarrow> string list \<Rightarrow> machine \<Rightarrow> machine res" where
  "define_primitive_node_ctor_0 name f port_names m =
     bnd (define_primitive_fn_0 name f m) (define_primitive_node name port_names)"

definition define_primitive_node_ctor_1 ::
    "string \<Rightarrow> (val \<Rightarrow> val res) \<Rightarrow> string list \<Rightarrow> machine \<Rightarrow> machine res" where
  "define_primitive_node_ctor_1 name f port_names m =
     bnd (define_primitive_fn_1 name f m) (define_primitive_node name port_names)"

definition define_primitive_node_ctor_2 ::
    "string \<Rightarrow> (val \<Rightarrow> val \<Rightarrow> val res) \<Rightarrow> string list \<Rightarrow> machine \<Rightarrow> machine res" where
  "define_primitive_node_ctor_2 name f port_names m =
     bnd (define_primitive_fn_2 name f m) (define_primitive_node name port_names)"

definition define_primitive_node_ctor_3 ::
    "string \<Rightarrow> (val \<Rightarrow> val \<Rightarrow> val \<Rightarrow> val res) \<Rightarrow> string list \<Rightarrow> machine \<Rightarrow> machine res" where
  "define_primitive_node_ctor_3 name f port_names m =
     bnd (define_primitive_fn_3 name f m) (define_primitive_node name port_names)"

definition define_primitive_node_ctor_4 ::
    "string \<Rightarrow> (val \<Rightarrow> val \<Rightarrow> val \<Rightarrow> val \<Rightarrow> val res) \<Rightarrow> string list \<Rightarrow> machine \<Rightarrow> machine res" where
  "define_primitive_node_ctor_4 name f port_names m =
     bnd (define_primitive_fn_4 name f m) (define_primitive_node name port_names)"

text \<open>A primitive on tagged words as one on values: the word is what its tag tests read.\<close>

definition on_word :: "(value_word \<Rightarrow> value_word res) \<Rightarrow> val \<Rightarrow> val res" where
  "on_word f x = bnd (f (value_bits x)) (\<lambda>w. Inr (VImm w))"

definition on_words :: "(value_word \<Rightarrow> value_word \<Rightarrow> value_word res) \<Rightarrow> val \<Rightarrow> val \<Rightarrow> val res" where
  "on_words f x y = bnd (f (value_bits x) (value_bits y)) (\<lambda>w. Inr (VImm w))"

definition x_eq :: "val \<Rightarrow> val \<Rightarrow> val res" where
  "x_eq x y = Inr (VImm (xbool (x = y)))"

text \<open>One entry of \<open>import_prelude\<close> after the other.\<close>

fun define_all :: "(machine \<Rightarrow> machine res) list \<Rightarrow> machine \<Rightarrow> machine res" where
  "define_all [] m = Inr m"
| "define_all (d # ds) m = bnd (d m) (define_all ds)"

definition prelude_entries :: "double_ops \<Rightarrow> (machine \<Rightarrow> machine res) list" where
  "prelude_entries ops =
     [define_primitive_fn ''connect'' 2 0 X_connect,
      define_primitive_fn ''link'' 0 2 X_link,
      define_name ''false'' (VImm xfalse),
      define_name ''true'' (VImm xtrue),
      define_primitive_node_ctor_1 ''not'' (on_word xbool_not) [''x!'', ''result''],
      define_primitive_node_ctor_2 ''and'' (on_words xbool_and) [''x!'', ''y!'', ''result''],
      define_primitive_node_ctor_2 ''or'' (on_words xbool_or) [''x!'', ''y!'', ''result''],
      define_primitive_node_ctor_2 ''eq?'' x_eq [''x!'', ''y!'', ''result''],
      define_primitive_node_ctor ''assert'' 1 0 X_assert [''value!''],
      define_primitive_node_ctor_1 ''int?'' (on_word (\<lambda>x. Inr (xint_p x))) [''x!'', ''result''],
      define_primitive_node_ctor_2 ''iadd'' (on_words xint_add) [''x!'', ''y!'', ''result''],
      define_primitive_node_ctor_2 ''isub'' (on_words xint_sub) [''x!'', ''y!'', ''result''],
      define_primitive_node_ctor_2 ''imul'' (on_words xint_mul) [''x!'', ''y!'', ''result''],
      define_primitive_node_ctor_2 ''idiv'' (on_words xint_div) [''x!'', ''y!'', ''result''],
      define_primitive_node_ctor_2 ''imod'' (on_words xint_mod) [''x!'', ''y!'', ''result''],
      define_primitive_node_ctor_1 ''int-to-float'' (on_word (xint_to_xfloat ops)) [''i!'', ''f''],
      define_primitive_node_ctor ''int-dup'' 1 2 X_int_dup [''target!'', ''first'', ''second''],
      define_primitive_node_ctor_1 ''float?'' (on_word (\<lambda>x. Inr (xfloat_p x))) [''x!'', ''result''],
      define_primitive_node_ctor_2 ''fadd'' (on_words (xfloat_add ops)) [''x!'', ''y!'', ''result''],
      define_primitive_node_ctor_2 ''fsub'' (on_words (xfloat_sub ops)) [''x!'', ''y!'', ''result''],
      define_primitive_node_ctor_2 ''fmul'' (on_words (xfloat_mul ops)) [''x!'', ''y!'', ''result''],
      define_primitive_node_ctor_2 ''fdiv'' (on_words (xfloat_div ops)) [''x!'', ''y!'', ''result''],
      define_primitive_node_ctor_2 ''fmod'' (on_words (xfloat_mod ops)) [''x!'', ''y!'', ''result''],
      define_primitive_node_ctor_1 ''float-to-int'' (on_word (xfloat_to_xint ops)) [''f!'', ''i''],
      define_primitive_node_ctor ''float-dup'' 1 2 X_float_dup [''target!'', ''first'', ''second''],
      define_primitive_node_ctor ''fn-dup'' 1 2 X_fn_dup [''target!'', ''first'', ''second'']]"

definition import_prelude :: "double_ops \<Rightarrow> machine \<Rightarrow> machine res" where
  "import_prelude ops m = define_all (prelude_entries ops) m"

section \<open>Modules\<close>

type_synonym mod_cache = "string \<rightharpoonup> (string \<rightharpoonup> val)"

text \<open>
  The loader worker of a new module, made where another one is running, and the other one again
  when that module is loaded.
\<close>

definition loader_worker :: "machine \<Rightarrow> machine" where
  "loader_worker m =
     m\<lparr>value_hash := Map.empty, free_node_stack := [], task_queue := [],
       task_queue_size := WORKER_TASK_QUEUE_SIZE, task_count := None, value_stack := [], return_stack := []\<rparr>"

definition back_to :: "machine \<Rightarrow> machine \<Rightarrow> machine" where
  "back_to m m' =
     m'\<lparr>value_hash := value_hash m, free_node_stack := free_node_stack m, task_queue := task_queue m,
        task_queue_size := task_queue_size m, task_count := task_count m, value_stack := value_stack m,
        return_stack := return_stack m\<rparr>"

type_synonym loader = "path \<Rightarrow> mod_cache \<Rightarrow> machine \<Rightarrow> ((string \<rightharpoonup> val) \<times> string \<times> mod_cache \<times> machine) loop"

fun import_names :: "(string \<rightharpoonup> val) \<Rightarrow> string list \<Rightarrow> machine \<Rightarrow> machine res" where
  "import_names imported [] m = Inr m"
| "import_names imported (name # names) m =
     (case imported name of
        None \<Rightarrow> Inl Exit_failure
      | Some v \<Rightarrow>
          if v = VNull then Inl Exit_failure
          else bnd (define_name name v m) (import_names imported names))"

definition import_path :: "path \<Rightarrow> path option \<Rightarrow> path res" where
  "import_path mod_path path =
     bnd (path_copy mod_path) (\<lambda>p.
     bnd (path_join p ''..'') (\<lambda>p.
     deref path (\<lambda>q. path_join p (fst (path_string q)))))"

definition execute ::
    "platform \<Rightarrow> loader \<Rightarrow> path \<Rightarrow> stmt \<Rightarrow> mod_cache \<Rightarrow> machine \<Rightarrow> (string \<times> mod_cache \<times> machine) loop" where
  "execute s load mod_path stmt cache m =
     (case stmt of
        STMT_DEFINE name e \<Rightarrow>
          lbnd (run_exp s e m) (\<lambda>(_, m).
          lbnd (Some (worker_pop m)) (\<lambda>(v, m).
          lbnd (Some (define_name name v m)) (\<lambda>m. Some (Inr ([], cache, m)))))
      | STMT_DEFINE_FUNCTION name arg_names exps \<Rightarrow>
          lbnd (Some (compile_body m ((function_new (length arg_names))\<lparr>function_name := Some (string_copy name)\<rparr>)
                        arg_names exps)) (\<lambda>f.
          let (a, m) = new_function f m in
          lbnd (Some (define_name name (VFunction a) m)) (\<lambda>m. Some (Inr ([], cache, m))))
      | STMT_DEFINE_NODE name port_names \<Rightarrow>
          lbnd (Some (define_node name port_names m)) (\<lambda>m. Some (Inr ([], cache, m)))
      | STMT_DEFINE_RULE pattern_exp exps \<Rightarrow>
          lbnd (Some (translate_pattern_tree pattern_exp)) (\<lambda>pattern_exps.
          lbnd (Some (build_node_pattern_list m pattern_exps)) (\<lambda>patterns.
          lbnd (Some (define_rule_star patterns exps m)) (\<lambda>m. Some (Inr ([], cache, m)))))
      | STMT_DEFINE_RULE_STAR pattern_exps exps \<Rightarrow>
          lbnd (Some (build_node_pattern_list m pattern_exps)) (\<lambda>patterns.
          lbnd (Some (define_rule_star patterns exps m)) (\<lambda>m. Some (Inr ([], cache, m))))
      | STMT_RUN_EXP e \<Rightarrow>
          lbnd (run_exp_and_print s e m) (\<lambda>(t, m). Some (Inr (t, cache, m)))
      | STMT_IMPORT names path \<Rightarrow>
          lbnd (Some (import_path mod_path path)) (\<lambda>p.
          lbnd (load p cache m) (\<lambda>(imported, t, cache, m).
          lbnd (Some (import_names imported names m)) (\<lambda>m. Some (Inr (t, cache, m))))))"

fun execute_all ::
    "platform \<Rightarrow> loader \<Rightarrow> path \<Rightarrow> stmt list \<Rightarrow> mod_cache \<Rightarrow> machine \<Rightarrow> (string \<times> mod_cache \<times> machine) loop" where
  "execute_all s load mod_path [] cache m = Some (Inr ([], cache, m))"
| "execute_all s load mod_path (stmt # stmts) cache m =
     lbnd (execute s load mod_path stmt cache m) (\<lambda>(t, cache, m).
     lbnd (execute_all s load mod_path stmts cache m) (\<lambda>(u, cache, m). Some (Inr (t @ u, cache, m))))"

lemma execute_mono [partial_function_mono]:
  assumes "\<And>p c m. mono_option (\<lambda>f. load f p c m)"
  shows "mono_option (\<lambda>f. execute s (load f) mod_path stmt cache m)"
  unfolding execute_def by (cases stmt) (auto intro!: partial_function_mono assms simp: Let_def)

lemma execute_all_mono [partial_function_mono]:
  assumes "\<And>p c m. mono_option (\<lambda>f. load f p c m)"
  shows "mono_option (\<lambda>f. execute_all s (load f) mod_path stmts cache m)"
proof (induction stmts arbitrary: cache m)
  case (Cons stmt stmts)
  show ?case
    unfolding execute_all.simps
    by (auto intro!: partial_function_mono execute_mono assms Cons.IH)
qed (auto intro!: partial_function_mono)

text \<open>
  A module is put into the cache when all its statements have been executed. \<open>takeWhile\<close> is where
  the C string that was read ends.
\<close>

definition load_with ::
    "platform \<Rightarrow> loader \<Rightarrow> path \<Rightarrow> mod_cache \<Rightarrow> machine \<Rightarrow>
     ((string \<rightharpoonup> val) \<times> string \<times> mod_cache \<times> machine) loop" where
  "load_with s load path cache m =
     (case cache (fst (path_string path)) of
        Some found \<Rightarrow> Some (Inr (found, [], cache, m))
      | None \<Rightarrow>
          (case files s (fst (path_string path)) of
             None \<Rightarrow> Some (Inl Exit_failure)
           | Some content \<Rightarrow>
               lbnd (Some (import_prelude (fpu s) (loader_worker m))) (\<lambda>w.
               lbnd (sexp_parse_list (double_reader s) (takeWhile (\<lambda>c. c \<noteq> CHR 0x00) content)) (\<lambda>sexp_list.
               lbnd (Some (parse_stmt_list (double_reader s) sexp_list)) (\<lambda>stmts.
               lbnd (execute_all s load path stmts cache w) (\<lambda>(t, cache, w).
                 Some (asserting (cache (fst (path_string path)) = None)
                   (Inr (value_hash w, t, cache(fst (path_string path) \<mapsto> value_hash w), back_to m w)))))))))"

lemma load_with_mono [partial_function_mono]:
  assumes "\<And>p c m. mono_option (\<lambda>f. load f p c m)"
  shows "mono_option (\<lambda>f. load_with s (load f) path cache m)"
  unfolding load_with_def
  by (cases "cache (fst (path_string path))"; cases "files s (fst (path_string path))")
    (auto intro!: partial_function_mono execute_all_mono assms)

partial_function (option) load_mod ::
    "platform \<Rightarrow> path \<Rightarrow> mod_cache \<Rightarrow> machine \<Rightarrow> ((string \<rightharpoonup> val) \<times> string \<times> mod_cache \<times> machine) loop" where
  "load_mod s path cache m = load_with s (\<lambda>p c k. load_mod s p c k) path cache m"

section \<open>The prelude defines its names\<close>

text \<open>An entry that defines a name, and fails only when the name is taken.\<close>

definition defining :: "string \<Rightarrow> (machine \<Rightarrow> machine res) \<Rightarrow> bool" where
  "defining name d \<longleftrightarrow>
     (\<forall>m. value_hash m name = None \<longrightarrow>
        (\<exists>m' v. d m = Inr m' \<and> v \<noteq> VNull \<and> value_hash m' = (value_hash m)(name \<mapsto> v)))"

lemma definingD:
  "defining name d \<Longrightarrow> value_hash m name = None \<Longrightarrow>
     \<exists>m' v. d m = Inr m' \<and> v \<noteq> VNull \<and> value_hash m' = (value_hash m)(name \<mapsto> v)"
  by (simp add: defining_def)

lemma defines_name: "v \<noteq> VNull \<Longrightarrow> defining name (define_name name v)"
  by (auto simp: defining_def define_name_def string_copy_def intro!: exI [of _ v])

lemma define_primitive_value:
  "value_hash m (primitive_name p) = None \<Longrightarrow>
     define_primitive p m =
       Inr (m\<lparr>primitives := primitives m @ [p],
              value_hash := (value_hash m)(primitive_name p \<mapsto> VPrimitive (length (primitives m)))\<rparr>)"
  by (simp add: define_primitive_def new_primitive_def define_name_def string_copy_def)

lemma defines_primitive: "primitive_name p = name \<Longrightarrow> defining name (define_primitive p)"
  by (auto simp: defining_def define_primitive_value)

text \<open>The port names of an entry are well formed, and mark no more principal ports than it has inputs.\<close>

definition ports_check :: "nat \<Rightarrow> nat \<Rightarrow> string list \<Rightarrow> bool" where
  "ports_check inputs outputs ports =
     (case port_infos_from_names (inputs + outputs) (map Some ports) of
        Inl _ \<Rightarrow> False
      | Inr ps \<Rightarrow>
          (case node_ctor_principal_port_count ((node_ctor_new [] (inputs + outputs))\<lparr>port_infos := ps\<rparr>) of
             Inl _ \<Rightarrow> False
           | Inr k \<Rightarrow> k \<le> inputs))"

lemma defines_primitive_node:
  assumes "primitive_name p = name" and "ports_check (input_arity p) (output_arity p) ports"
  shows "defining name (\<lambda>m. bnd (define_primitive p m) (define_primitive_node name ports))"
proof -
  let ?n = "input_arity p + output_arity p"
  obtain ps k where ps: "port_infos_from_names ?n (map Some ports) = Inr ps"
      "node_ctor_principal_port_count ((node_ctor_new [] ?n)\<lparr>port_infos := ps\<rparr>) = Inr k" "k \<le> input_arity p"
    using assms(2) by (auto simp: ports_check_def split: sum.splits)
  have "node_ctor_principal_port_count
      ((node_ctor_new name ?n)\<lparr>port_infos := ps, ctor_primitive := Some q\<rparr>) = Inr k" for q
    using ps(2) by (simp add: node_ctor_principal_port_count_def node_ctor_new_def)
  with ps(1,3) assms(1) show ?thesis
    by (auto simp: defining_def define_primitive_value define_primitive_node_def mod_find_def
        primitive_set_node_ctor_def at_def Let_def)
qed

lemma define_all_names:
  "list_all2 defining names ds \<Longrightarrow> distinct names \<Longrightarrow> \<forall>name \<in> set names. value_hash m name = None \<Longrightarrow>
     \<exists>m'. define_all ds m = Inr m' \<and>
       (\<forall>name. if name \<in> set names then value_hash m' name \<notin> {None, Some VNull}
               else value_hash m' name = value_hash m name)"
proof (induction names ds arbitrary: m rule: list_all2_induct)
  case (Cons name names d ds)
  then obtain m1 v where m1: "d m = Inr m1" "v \<noteq> VNull" "value_hash m1 = (value_hash m)(name \<mapsto> v)"
    using definingD [OF Cons.hyps(1), of m] by auto
  have "\<forall>other \<in> set names. value_hash m1 other = None"
    using Cons.prems m1(3) by auto
  moreover have "distinct names" using Cons.prems(1) by simp
  ultimately obtain m' where m': "define_all ds m1 = Inr m'"
      "\<forall>other. if other \<in> set names then value_hash m' other \<notin> {None, Some VNull}
               else value_hash m' other = value_hash m1 other"
    using Cons.IH [of m1] by blast
  have "name \<notin> set names" using Cons.prems(1) by simp
  with m' m1 show ?case by (auto split: if_splits)
qed simp

definition prelude_names :: "string list" where
  "prelude_names =
     [''connect'', ''link'', ''false'', ''true'', ''not'', ''and'', ''or'', ''eq?'', ''assert'', ''int?'', ''iadd'',
      ''isub'', ''imul'', ''idiv'', ''imod'', ''int-to-float'', ''int-dup'', ''float?'', ''fadd'', ''fsub'', ''fmul'',
      ''fdiv'', ''fmod'', ''float-to-int'', ''float-dup'', ''fn-dup'']"

lemma ports_checks:
  "ports_check 1 1 [''x!'', ''result'']" "ports_check 2 1 [''x!'', ''y!'', ''result'']"
  "ports_check 1 0 [''value!'']" "ports_check 1 1 [''i!'', ''f'']" "ports_check 1 1 [''f!'', ''i'']"
  "ports_check 1 2 [''target!'', ''first'', ''second'']"
  by code_simp+

lemma defines_node_ctor:
  "ports_check inputs outputs ports \<Longrightarrow> defining name (define_primitive_node_ctor name inputs outputs f ports)"
  "ports_check 1 1 ports \<Longrightarrow> defining name (define_primitive_node_ctor_1 name g ports)"
  "ports_check 2 1 ports \<Longrightarrow> defining name (define_primitive_node_ctor_2 name h ports)"
  using defines_primitive_node [of "primitive_from_fn name inputs outputs f" name ports]
    defines_primitive_node [of "primitive_from_fn_1 name g" name ports]
    defines_primitive_node [of "primitive_from_fn_2 name h" name ports]
  by (simp_all add: defining_def define_primitive_node_ctor_def define_primitive_node_ctor_1_def
      define_primitive_node_ctor_2_def define_primitive_fn_def define_primitive_fn_1_def
      define_primitive_fn_2_def primitive_from_fn_def primitive_from_fn_1_def primitive_from_fn_2_def)

lemma defines_fn: "defining name (define_primitive_fn name inputs outputs f)"
  by (simp add: define_primitive_fn_def defines_primitive primitive_from_fn_def)

lemma prelude_defines: "list_all2 defining prelude_names (prelude_entries ops)"
  unfolding prelude_names_def prelude_entries_def
  by (simp only: list_all2_Cons list_all2_Nil simp_thms defines_fn defines_name val.distinct
      defines_node_ctor ports_checks)

lemma prelude_defined:
  assumes "value_hash m = Map.empty"
  shows "\<exists>m'. import_prelude ops m = Inr m' \<and> dom (value_hash m') = set prelude_names \<and>
     (\<forall>name \<in> set prelude_names. mod_find m' name \<noteq> VNull)"
proof -
  have "distinct prelude_names" by code_simp
  have "\<exists>m'. define_all (prelude_entries ops) m = Inr m' \<and>
      (\<forall>name. if name \<in> set prelude_names then value_hash m' name \<notin> {None, Some VNull}
              else value_hash m' name = value_hash m name)"
    by (rule define_all_names [OF prelude_defines \<open>distinct prelude_names\<close>]) (simp add: assms)
  then obtain m' where run: "import_prelude ops m = Inr m'"
    and h: "\<forall>name. if name \<in> set prelude_names then value_hash m' name \<notin> {None, Some VNull}
              else value_hash m' name = value_hash m name"
    unfolding import_prelude_def by blast
  have hash: "if name \<in> set prelude_names then value_hash m' name \<notin> {None, Some VNull}
              else value_hash m' name = None" for name
    using spec [OF h, of name] by (simp only: assms)
  have "value_hash m' name \<noteq> None \<longleftrightarrow> name \<in> set prelude_names" for name
    using hash [of name] by (cases "name \<in> set prelude_names") simp_all
  then have "dom (value_hash m') = set prelude_names" by (simp add: dom_def)
  moreover have "mod_find m' name \<noteq> VNull" if "name \<in> set prelude_names" for name
    using hash [of name] that by (cases "value_hash m' name") (simp_all add: mod_find_def)
  ultimately show ?thesis using run by blast
qed

end
