(* ===== verification/Parallel_Tasks.thy ===== *)
theory Parallel_Tasks
  imports Parallel_Args
begin

text \<open>
  Which tasks the workers find when they connect. The rule for an active pair is looked up among
  the rules of both constructors; since a rule is listed under both, the worker that makes the
  pair finds the same rule from either side. So every interleaving hands out the same tasks, up
  to which of two nodes of one constructor is called the left one.
\<close>

section \<open>The rule of a pair\<close>

definition rule_joins :: "nat \<Rightarrow> nat \<Rightarrow> rule \<Rightarrow> bool" where
  "rule_joins l r rule \<longleftrightarrow>
     left_node_ctor rule = l \<and> right_node_ctor rule = r \<or>
     left_node_ctor rule = r \<and> right_node_ctor rule = l"

definition rule_between :: "node_ctor list \<Rightarrow> nat \<Rightarrow> nat \<Rightarrow> rule option" where
  "rule_between cs l r = find (rule_joins l r) (rule_array (cs ! l) @ rule_array (cs ! r))"

definition rule_task :: "nat \<Rightarrow> nat \<Rightarrow> nat \<Rightarrow> nat \<Rightarrow> rule \<Rightarrow> task" where
  "rule_task l r a b rule =
     (if left_node_ctor rule = l \<and> right_node_ctor rule = r then Task_active_pair a b rule
      else Task_active_pair b a rule)"

lemma find_append: "find P (xs @ ys) = (case find P xs of None \<Rightarrow> find P ys | Some x \<Rightarrow> Some x)"
  by (induction xs) auto

lemma match_rules_find:
  assumes "pw_ctor h a = Inr (Some l)" and "pw_ctor h b = Inr (Some r)"
  shows "match_rules h rules a b = Inr (map_option (rule_task l r a b) (find (rule_joins l r) rules))"
  using assms by (induction rules) (auto simp: rule_match_def rule_joins_def rule_task_def)

lemma connect_active_pair_finds:
  assumes ok: "net_ok h (VPrincipal a # VPrincipal b # R)"
    and run: "connect_active_pair a b h = Inr (task, h')"
  obtains l r where "pw_ctor h a = Inr (Some l)" "pw_ctor h b = Inr (Some r)"
    "l < length (node_ctors h)" "r < length (node_ctors h)"
    "task = map_option (rule_task l r a b) (rule_between (node_ctors h) l r)"
proof -
  have ctor: "\<exists>p l. cell (principal_wires h) c = Some p \<and> pw_placed h c p \<and>
      node_ctor_of (nodes h ! pw_node p) = Some l \<and> l < length (node_ctors h) \<and>
      pw_node p < length (nodes h)" if c: "VPrincipal c \<in> {VPrincipal a, VPrincipal b}" for c
  proof -
    obtain p where p: "cell (principal_wires h) c = Some p" "pw_placed h c p"
      using net_ok_live_pw [OF ok, of c] c by auto
    then obtain k where "ctor_of_node h (pw_node p) = Inr k"
      using pw_node_ctor [OF ok] by blast
    then show ?thesis
      using p by (auto simp: ctor_of_node_def deref_eq_Inr at_Some_iff)
  qed
  obtain p l where p: "cell (principal_wires h) a = Some p" "pw_node p < length (nodes h)"
      "node_ctor_of (nodes h ! pw_node p) = Some l" "l < length (node_ctors h)"
    using ctor [of a] by auto
  obtain q r where q: "cell (principal_wires h) b = Some q" "pw_node q < length (nodes h)"
      "node_ctor_of (nodes h ! pw_node q) = Some r" "r < length (node_ctors h)"
    using ctor [of b] by auto
  have same: "nodes h' = nodes h" "node_ctors h' = node_ctors h"
    and cells: "cell (principal_wires h') a = Some (p\<lparr>pw_oppsite := Some b\<rparr>)"
      "cell (principal_wires h') b = Some (q\<lparr>pw_oppsite := Some a\<rparr>)"
    using net_ok_pair [OF ok] connect_active_pair_pairs [OF run] p(1) q(1) net_ok_root_distinct [OF ok]
    by auto
  have ctors: "pw_ctor h' a = Inr (Some l)" "pw_ctor h' b = Inr (Some r)"
    and here: "pw_ctor h a = Inr (Some l)" "pw_ctor h b = Inr (Some r)"
    using p q cells same by (simp_all add: pw_ctor_def at_def)
  have rules: "pw_rules h' a = Inr (rule_array (node_ctors h ! l))"
      "pw_rules h' b = Inr (rule_array (node_ctors h ! r))"
    using p q cells same by (simp_all add: pw_rules_def ctor_of_node_def at_def)
  have two: "bnd (set_oppsite a b h) (\<lambda>h. bnd (set_oppsite b a h) f) = f h'"
    for f :: "heap \<Rightarrow> (task option \<times> heap) res"
    using connect_active_pair_pairs [OF run] by (simp add: pair_principal_wires_def flip: bnd_assoc)
  have "task = map_option (rule_task l r a b) (rule_between (node_ctors h) l r)"
    using run unfolding connect_active_pair_def two
    by (auto simp: rules match_rules_find [OF ctors] rule_between_def find_append split: option.splits if_splits)
  then show ?thesis
    using that here p(4) q(4) by blast
qed

section \<open>Rules are listed under both constructors\<close>

definition rule_in_range :: "nat \<Rightarrow> rule \<Rightarrow> bool" where
  "rule_in_range k rule \<longleftrightarrow> left_node_ctor rule < k \<and> right_node_ctor rule < k"

definition rules_shared :: "node_ctor list \<Rightarrow> bool" where
  "rules_shared cs \<longleftrightarrow>
     (\<forall>c \<in> set cs. \<forall>rule \<in> set (rule_array c). rule_in_range (length cs) rule) \<and>
     (\<forall>l < length cs. \<forall>r < length cs.
        find (rule_joins l r) (rule_array (cs ! l)) = find (rule_joins l r) (rule_array (cs ! r)))"

definition same_task :: "task \<Rightarrow> task \<Rightarrow> bool" where
  "same_task t u \<longleftrightarrow>
     t = u \<or> (\<exists>a b rule. t = Task_active_pair a b rule \<and> u = Task_active_pair b a rule \<and>
       left_node_ctor rule = right_node_ctor rule)"

lemma rule_joins_sym: "rule_joins l r = rule_joins r l"
  by (auto simp: rule_joins_def)

lemma rule_between_sym:
  assumes "rules_shared cs" and "l < length cs" and "r < length cs"
  shows "rule_between cs l r = rule_between cs r l"
proof -
  have "find (rule_joins l r) (rule_array (cs ! l)) = find (rule_joins l r) (rule_array (cs ! r))"
    using assms unfolding rules_shared_def by blast
  then show ?thesis
    unfolding rule_between_def rule_joins_sym [of r l] find_append
    by (cases "find (rule_joins l r) (rule_array (cs ! r))") simp_all
qed

lemma same_task_rule_task:
  assumes "rule_joins l r rule"
  shows "same_task (rule_task l r a b rule) (rule_task r l b a rule)"
proof (cases "l = r")
  case True
  then show ?thesis
    using assms by (simp add: rule_joins_def rule_task_def same_task_def)
next
  case False
  then have "rule_task l r a b rule = rule_task r l b a rule"
    using assms unfolding rule_joins_def rule_task_def by metis
  then show ?thesis
    by (simp add: same_task_def)
qed

lemma same_task_refl: "same_task t t"
  by (simp add: same_task_def)

lemma same_task_sym: "same_task t u \<longleftrightarrow> same_task u t"
  by (auto simp: same_task_def)

text \<open>A rule between two constructors is appended to the rules of both.\<close>

definition list_rule :: "nat \<Rightarrow> rule \<Rightarrow> node_ctor list \<Rightarrow> node_ctor list" where
  "list_rule k rule cs = cs[k := (cs ! k)\<lparr>rule_array := rule_array (cs ! k) @ [rule]\<rparr>]"

lemma rules_shared_add:
  assumes shared: "rules_shared cs" and l: "l < length cs" "left_node_ctor rule = l"
    and r: "r < length cs" "right_node_ctor rule = r"
  shows "rules_shared (list_rule r rule (list_rule l rule cs))" (is "rules_shared ?cs")
proof -
  have look: "find P (rule_array (?cs ! k)) =
      (case find P (rule_array (cs ! k)) of
         Some x \<Rightarrow> Some x
       | None \<Rightarrow> if (k = l \<or> k = r) \<and> P rule then Some rule else None)" if "k < length cs" for P k
    using that l r by (auto simp: list_rule_def nth_list_update find_append split: option.split)
  have "find (rule_joins x y) (rule_array (?cs ! x)) = find (rule_joins x y) (rule_array (?cs ! y))"
    if "x < length cs" "y < length cs" for x y
  proof -
    have "find (rule_joins x y) (rule_array (cs ! x)) = find (rule_joins x y) (rule_array (cs ! y))"
      using shared that unfolding rules_shared_def by blast
    moreover have "(x = l \<or> x = r) \<longleftrightarrow> (y = l \<or> y = r)" if "rule_joins x y rule"
      using that l r by (auto simp: rule_joins_def)
    ultimately show ?thesis
      unfolding look [OF that(1)] look [OF that(2)] by (auto split: option.split)
  qed
  moreover have "length ?cs = length cs"
    by (simp add: list_rule_def)
  moreover have "rule_in_range (length cs) q" if q: "c \<in> set ?cs" "q \<in> set (rule_array c)" for c q
  proof -
    have "length ?cs = length cs"
      by (simp add: list_rule_def)
    then obtain k where k: "k < length cs" "q \<in> set (rule_array (?cs ! k))"
      using q by (metis in_set_conv_nth)
    then have "q \<in> set (rule_array (cs ! k)) \<or> q = rule"
      using l(1) r(1) by (auto simp: list_rule_def nth_list_update split: if_splits)
    then show ?thesis
      using shared k(1) l r unfolding rules_shared_def rule_in_range_def by (metis nth_mem)
  qed
  ultimately show ?thesis
    unfolding rules_shared_def by metis
qed

lemma rules_shared_append:
  assumes shared: "rules_shared cs" and c: "rule_array c = []"
  shows "rules_shared (cs @ [c])"
proof -
  have range: "rule_in_range (length cs) q" if "k < length cs" "q \<in> set (rule_array (cs ! k))" for k q
    using shared that unfolding rules_shared_def by (metis nth_mem)
  have none: "find (rule_joins l r) (rule_array (cs ! k)) = None"
    if "k < length cs" "l = length cs \<or> r = length cs" for k l r
    using range [OF that(1)] that(2)
    by (fastforce simp: find_None_iff rule_joins_def rule_in_range_def)
  have "find (rule_joins l r) (rule_array ((cs @ [c]) ! l)) = find (rule_joins l r) (rule_array ((cs @ [c]) ! r))"
    if "l < length (cs @ [c])" "r < length (cs @ [c])" for l r
  proof (cases "l < length cs \<and> r < length cs")
    case True
    then have "find (rule_joins l r) (rule_array (cs ! l)) = find (rule_joins l r) (rule_array (cs ! r))"
      using shared unfolding rules_shared_def by blast
    with True show ?thesis
      by (simp add: nth_append)
  next
    case False
    then show ?thesis
      using that c none by (auto simp: nth_append less_Suc_eq)
  qed
  moreover have "rule_in_range (length (cs @ [c])) q" if "d \<in> set (cs @ [c])" "q \<in> set (rule_array d)" for d q
  proof -
    have "d \<in> set cs"
      using that c by auto
    then have "rule_in_range (length cs) q"
      using shared that(2) unfolding rules_shared_def by blast
    then show ?thesis
      by (simp add: rule_in_range_def)
  qed
  ultimately show ?thesis
    unfolding rules_shared_def by blast
qed

section \<open>The tasks of a run\<close>

text \<open>The constructor of the node a principal wire belongs to.\<close>

definition ctor_at :: "heap \<Rightarrow> nat \<Rightarrow> nat option" where
  "ctor_at h a = (case cell (principal_wires h) a of
     None \<Rightarrow> None | Some p \<Rightarrow> node_ctor_of (nodes h ! pw_node p))"

lemma pw_ctor_ctor_at: "pw_ctor h a = Inr (Some l) \<Longrightarrow> ctor_at h a = Some l"
  by (auto simp: pw_ctor_def ctor_at_def deref_eq_Inr at_Some_iff)

definition pair_task :: "heap \<Rightarrow> nat \<Rightarrow> nat \<Rightarrow> task option" where
  "pair_task h a b =
     map_option (rule_task (the (ctor_at h a)) (the (ctor_at h b)) a b)
       (rule_between (node_ctors h) (the (ctor_at h a)) (the (ctor_at h b)))"

text \<open>
  Since the run began with the net \<open>h0\<close>: every new pair has its task, and every task found belongs
  to a new pair.
\<close>

definition new_pair :: "heap \<Rightarrow> heap \<Rightarrow> nat \<Rightarrow> nat \<Rightarrow> bool" where
  "new_pair h0 h a b \<longleftrightarrow> paired h a b \<and> \<not> paired h0 a b \<and> a \<noteq> b"

definition tasks_inv :: "heap \<Rightarrow> connecting_state \<Rightarrow> bool" where
  "tasks_inv h0 s \<longleftrightarrow>
     (case s of (h, ts) \<Rightarrow>
        (\<forall>a b. new_pair h0 h a b \<longrightarrow> (\<forall>t. pair_task h0 a b = Some t \<longrightarrow>
           (\<exists>u. Connected (Some u) \<in> set ts \<and> same_task t u))) \<and>
        (\<forall>l r rule. Connected (Some (Task_active_pair l r rule)) \<in> set ts \<longrightarrow>
           (\<exists>a b t. new_pair h0 h a b \<and> pair_task h0 a b = Some t \<and>
              same_task t (Task_active_pair l r rule))))"

lemma ctor_at_kept:
  assumes run: "connect_step\<^sup>*\<^sup>* s s'" and inv: "connecting_inv R s"
    and shape: "same_shape (fst s) (fst s')" and a: "cell (principal_wires (fst s')) a \<noteq> None"
  shows "ctor_at (fst s') a = ctor_at (fst s) a"
proof -
  have "alive (fst s) (End (VPrincipal a))"
    using connect_reachable_joined [OF run inv] a alive_wire_simps(2) by blast
  then obtain p where p: "cell (principal_wires (fst s)) a = Some p"
    by (auto simp: alive_wire_simps)
  then obtain p' where p': "cell (principal_wires (fst s')) a = Some p'" "pw_node p' = pw_node p"
    using connect_reachable_pw_kept [OF run inv p] a by (auto simp: pw_kept_def)
  have "pw_placed (fst s) a p"
    using inv p by (cases s) (auto simp: connecting_inv_def net_ok_def)
  then have "node_ctor_of (nodes (fst s') ! pw_node p) = node_ctor_of (nodes (fst s) ! pw_node p)"
    using shape by (auto simp: same_shape_def node_shape_def list_eq_iff_nth_eq pw_placed_def)
  with p p' show ?thesis
    by (simp add: ctor_at_def)
qed

lemma connect_reachable_shape:
  assumes "connect_step\<^sup>*\<^sup>* s s'" and "connecting_inv R s"
  shows "same_shape (fst s) (fst s')"
  using assms(1)
proof (induction rule: rtranclp_induct)
  case (step s1 s2)
  from step.hyps(2) have "same_shape (fst s1) (fst s2)"
  proof (cases rule: connect_step.cases)
    case (turn i ts h t h')
    have "connecting_inv R (h, ts)"
      using connect_reachable_keep [OF step.hyps(1) assms(2)] turn(1) by simp
    then show ?thesis
      using safely_Inr [OF connecting_inv_turn turn(5)] turn by (simp add: turn_keeps_def)
  qed
  then show ?case
    using step.IH same_shape_trans by blast
qed simp

text \<open>Only the turn that pairs two principal wires changes the pairs or finds such a task.\<close>

lemma connect_turn_pairs:
  assumes inv: "connecting_inv R (h, ts)" and i: "i < length ts" "\<not> connect_over (ts ! i)"
    and run: "connect_turn (ts ! i) h = Inr (t, h')"
  shows "(\<forall>x y. paired h' x y \<longleftrightarrow> paired h x y) \<and> (\<forall>l r rule. t \<noteq> Connected (Some (Task_active_pair l r rule))) \<or>
    (\<exists>a b task. net_ok h (VPrincipal a # VPrincipal b # other_roots i ts R) \<and>
       connect_active_pair a b h = Inr (task, h') \<and> t = Connected task)"
  using run i(2)
proof (cases rule: connect_turn_cases)
  case (fuze c v)
  then show ?thesis
    by (auto simp: fuze_turn_def deref_eq_Inr paired_def split: if_splits)
next
  case (store c v)
  obtain m where m: "store_primitive_arg c v h = Inr (m, h')" "t = Counting m"
    using store by (auto simp: store_turn_def bnd_eq_Inr)
  obtain p where p: "cell (principal_wires h) c = Some p" "pw_oppsite p = None"
    using net_ok_live_pw [OF connecting_inv_ends(1) [OF inv i(1) store(1)], of c] by auto
  have "principal_wires h' = (principal_wires h)[c := None]"
    using store_primitive_arg_Inr [OF m(1)] by auto
  then have "paired h' x y \<longleftrightarrow> paired h x y" for x y
    using p cell_Some_length [OF p(1)] unfolding paired_def
    by (cases "x = c"; cases "y = c") (auto simp: cell_update)
  then show ?thesis
    by (simp add: m(2))
next
  case (pair a b task)
  have "net_ok h (VPrincipal a # VPrincipal b # other_roots i ts R)"
    by (rule connecting_inv_ends [OF inv i(1)]) (simp add: pair ends_of_def)
  then show ?thesis
    using pair by blast
next
  case (count n task)
  have "task \<noteq> Some (Task_active_pair l r rule)" for l r rule
    using count(2) by (auto simp: count_primitive_arg_def bnd_eq_Inr split: if_splits)
  moreover have "paired h' x y \<longleftrightarrow> paired h x y" for x y
    using count_primitive_arg_Inr [OF count(2)] by (auto simp: paired_def)
  ultimately show ?thesis
    by (simp add: count(3))
qed

lemma paired_active_pair:
  assumes "net_ok h (VPrincipal a # VPrincipal b # R)" and "connect_active_pair a b h = Inr (task, h')"
  shows "paired h' x y \<longleftrightarrow> paired h x y \<or> x = a \<and> y = b \<or> x = b \<and> y = a"
    and "\<not> paired h a y" and "\<not> paired h b y"
  using heap_edge_pair(1) [OF assms, of "End (VPrincipal x)" "End (VPrincipal y)"]
    net_ok_live_pw [OF assms(1), of a] net_ok_live_pw [OF assms(1), of b]
  by (auto simp: heap_edge_principal paired_def)

lemma paired_kept:
  assumes "connect_step\<^sup>*\<^sup>* s s'" and inv: "connecting_inv R s" and pair: "paired (fst s) a b"
  shows "paired (fst s') a b"
  using assms(1)
proof (induction rule: rtranclp_induct)
  case (step s1 s2)
  from step.hyps(2) show ?case
  proof (cases rule: connect_step.cases)
    case (turn i ts h t h')
    have "connecting_inv R (h, ts)"
      using connect_reachable_keep [OF step.hyps(1) inv] turn(1) by simp
    from connect_turn_pairs [OF this turn(3-5)] show ?thesis
      using step.IH turn(1,2) paired_active_pair(1) by fastforce
  qed
qed (rule pair)

lemma pair_task_sym:
  assumes shared: "rules_shared (node_ctors h)" and t: "pair_task h a b = Some t"
    and ctors: "ctor_at h a = Some l" "l < length (node_ctors h)" "ctor_at h b = Some r" "r < length (node_ctors h)"
  shows "\<exists>u. pair_task h b a = Some u \<and> same_task t u"
proof -
  obtain rule where rule: "rule_between (node_ctors h) l r = Some rule" "t = rule_task l r a b rule"
    using t ctors by (auto simp: pair_task_def)
  have "rule_joins l r rule"
    using rule(1) by (auto simp: rule_between_def find_Some_iff)
  then show ?thesis
    using rule ctors rule_between_sym [OF shared ctors(4,2)] same_task_rule_task
    by (simp add: pair_task_def)
qed

text \<open>The turn that makes a pair finds the task of the pair.\<close>

lemma tasks_inv_pair:
  assumes run: "connect_step\<^sup>*\<^sup>* (h0, ts0) (h, ts)" and inv0: "connecting_inv R (h0, ts0)"
    and shared: "rules_shared (node_ctors h0)"
    and ok: "net_ok h (VPrincipal a # VPrincipal b # S)"
    and pair: "connect_active_pair a b h = Inr (task, h')"
  shows "task = pair_task h0 a b" and "a \<noteq> b" and "\<not> paired h0 a b"
    and "\<forall>t. pair_task h0 b a = Some t \<longrightarrow> (\<exists>u. pair_task h0 a b = Some u \<and> same_task t u)"
proof -
  note shape = connect_reachable_shape [OF run inv0]
  then have ctors: "node_ctors h = node_ctors h0"
    by (simp add: same_shape_def)
  obtain l r where lr: "pw_ctor h a = Inr (Some l)" "pw_ctor h b = Inr (Some r)"
    "l < length (node_ctors h)" "r < length (node_ctors h)"
    "task = map_option (rule_task l r a b) (rule_between (node_ctors h) l r)"
    using connect_active_pair_finds [OF ok pair] .
  have live: "cell (principal_wires h) a \<noteq> None" "cell (principal_wires h) b \<noteq> None"
    using net_ok_live_pw [OF ok] by fastforce+
  have at: "ctor_at h0 a = Some l" "ctor_at h0 b = Some r"
    using ctor_at_kept [OF run inv0 shape, of a] ctor_at_kept [OF run inv0 shape, of b] live
      pw_ctor_ctor_at lr(1,2) by simp_all
  show "task = pair_task h0 a b"
    using lr(5) at ctors by (simp add: pair_task_def)
  show "a \<noteq> b"
    by (rule net_ok_root_distinct [OF ok])
  show "\<not> paired h0 a b"
    using paired_active_pair(2) [OF ok pair] paired_kept [OF run inv0] by auto
  show "\<forall>t. pair_task h0 b a = Some t \<longrightarrow> (\<exists>u. pair_task h0 a b = Some u \<and> same_task t u)"
    using pair_task_sym [OF shared] at lr(3,4) ctors by simp
qed

lemma tasks_inv_step:
  assumes run: "connect_step\<^sup>*\<^sup>* (h0, ts0) (h, ts)" and inv0: "connecting_inv R (h0, ts0)"
    and shared: "rules_shared (node_ctors h0)"
    and tasks: "tasks_inv h0 (h, ts)" and step: "connect_step (h, ts) (h', ts')"
  shows "tasks_inv h0 (h', ts')"
  using step
proof (cases rule: connect_step.cases)
  case (turn i t)
  have inv: "connecting_inv R (h, ts)"
    by (rule connect_reachable_keep [OF run inv0])
  have kept: "Connected u \<in> set ts'" if u: "Connected u \<in> set ts" for u
  proof -
    obtain j where j: "j < length ts" "ts ! j = Connected u"
      using u by (auto simp: in_set_conv_nth)
    then have "j \<noteq> i"
      using turn(3) by (auto simp: connect_over_def)
    then have "ts' ! j = Connected u" "j < length ts'"
      using j turn(1) by simp_all
    then show ?thesis
      by (metis nth_mem)
  qed
  have news: "u = t \<or> u \<in> set ts" if "u \<in> set ts'" for u
    using that turn(1) set_update_subset_insert [of ts i t] by blast
  from connect_turn_pairs [OF inv turn(2-4)] show ?thesis
  proof
    assume "(\<forall>x y. paired h' x y \<longleftrightarrow> paired h x y) \<and>
      (\<forall>l r rule. t \<noteq> Connected (Some (Task_active_pair l r rule)))"
    then have same: "new_pair h0 h' x y \<longleftrightarrow> new_pair h0 h x y"
      and old: "Connected (Some (Task_active_pair l r rule)) \<in> set ts' \<Longrightarrow>
        Connected (Some (Task_active_pair l r rule)) \<in> set ts" for x y l r rule
      using news by (auto simp: new_pair_def)
    show ?thesis
      using tasks kept old unfolding tasks_inv_def prod.case same by blast
  next
    assume "\<exists>a b task. net_ok h (VPrincipal a # VPrincipal b # other_roots i ts R) \<and>
       connect_active_pair a b h = Inr (task, h') \<and> t = Connected task"
    then obtain a b task where ok: "net_ok h (VPrincipal a # VPrincipal b # other_roots i ts R)"
      and pair: "connect_active_pair a b h = Inr (task, h')" and t: "t = Connected task"
      by blast
    note this_pair = tasks_inv_pair [OF run inv0 shared ok pair]
    have pairs: "paired h' x y \<longleftrightarrow> paired h x y \<or> x = a \<and> y = b \<or> x = b \<and> y = a" for x y
      by (rule paired_active_pair(1) [OF ok pair])
    have here: "Connected task \<in> set ts'"
      using turn(1,2) t set_update_memI by fastforce
    have "\<exists>u. Connected (Some u) \<in> set ts' \<and> same_task v u"
      if new: "new_pair h0 h' x y" and v: "pair_task h0 x y = Some v" for x y v
    proof (cases "paired h x y")
      case True
      then have "\<exists>u. Connected (Some u) \<in> set ts \<and> same_task v u"
        using tasks new v by (auto simp: tasks_inv_def new_pair_def)
      then show ?thesis
        using kept by blast
    next
      case False
      then have "x = a \<and> y = b \<or> x = b \<and> y = a"
        using new pairs by (auto simp: new_pair_def)
      then show ?thesis
      proof
        assume "x = b \<and> y = a"
        then obtain u where "pair_task h0 a b = Some u" "same_task v u"
          using v this_pair(4) by blast
        then show ?thesis
          using here this_pair(1) by auto
      qed (use v here this_pair(1) same_task_refl in auto)
    qed
    moreover have "\<exists>x y v. new_pair h0 h' x y \<and> pair_task h0 x y = Some v \<and>
        same_task v (Task_active_pair l r rule)"
      if found: "Connected (Some (Task_active_pair l r rule)) \<in> set ts'" for l r rule
    proof (cases "Connected (Some (Task_active_pair l r rule)) \<in> set ts")
      case True
      then obtain x y v where "new_pair h0 h x y" "pair_task h0 x y = Some v"
        "same_task v (Task_active_pair l r rule)"
        using tasks unfolding tasks_inv_def by blast
      then show ?thesis
        using pairs unfolding new_pair_def by blast
    next
      case False
      then have "task = Some (Task_active_pair l r rule)"
        using news [OF found] t by simp
      moreover have "new_pair h0 h' a b"
        using this_pair pairs by (simp add: new_pair_def)
      ultimately show ?thesis
        using this_pair(1) by (auto simp: same_task_def)
    qed
    ultimately show ?thesis
      by (simp add: tasks_inv_def)
  qed
qed

lemma tasks_inv_reachable:
  assumes "connect_step\<^sup>*\<^sup>* (h0, connect_all ps) s" and inv: "connecting_inv R (h0, connect_all ps)"
    and shared: "rules_shared (node_ctors h0)"
  shows "tasks_inv h0 s"
  using assms(1)
proof (induction rule: rtranclp_induct)
  case base
  show ?case
    by (auto simp: tasks_inv_def new_pair_def connect_all_def)
next
  case (step s1 s2)
  then show ?case
    using tasks_inv_step [OF _ inv shared, of "fst s1" "snd s1" "fst s2" "snd s2"] by simp
qed

lemma active_pair_tasks_agree:
  assumes inv: "connecting_inv R (h0, connect_all ps)" and shared: "rules_shared (node_ctors h0)"
    and run1: "connect_step\<^sup>*\<^sup>* (h0, connect_all ps) (h1, ts1)" "\<forall>t \<in> set ts1. connect_over t"
    and run2: "connect_step\<^sup>*\<^sup>* (h0, connect_all ps) (h2, ts2)" "\<forall>t \<in> set ts2. connect_over t"
    and found: "Connected (Some (Task_active_pair l r rule)) \<in> set ts1"
  shows "\<exists>u. Connected (Some u) \<in> set ts2 \<and> same_task (Task_active_pair l r rule) u"
proof -
  obtain a b t where ab: "new_pair h0 h1 a b" "pair_task h0 a b = Some t"
    "same_task t (Task_active_pair l r rule)"
    using tasks_inv_reachable [OF run1(1) inv shared] found unfolding tasks_inv_def by blast
  then have "new_pair h0 h2 a b"
    using pairs_agree [OF inv run1 run2] by (auto simp: new_pair_def)
  then obtain u where u: "Connected (Some u) \<in> set ts2" "same_task t u"
    using tasks_inv_reachable [OF run2(1) inv shared] ab(2) unfolding tasks_inv_def by blast
  moreover have "same_task (Task_active_pair l r rule) u"
    using ab(3) u(2) by (auto simp: same_task_def)
  ultimately show ?thesis
    by blast
qed

section \<open>Tasks of primitive nodes\<close>

text \<open>A port keeps its value until the argument of its principal wire is stored.\<close>

definition port_kept :: "heap \<Rightarrow> heap \<Rightarrow> nat \<Rightarrow> nat \<Rightarrow> bool" where
  "port_kept h h' n i \<longleftrightarrow>
     slot VNull (value_array (nodes h' ! n)) i = slot VNull (value_array (nodes h ! n)) i \<or>
     (\<exists>a. slot VNull (value_array (nodes h ! n)) i = VPrincipal a \<and> cell (principal_wires h') a = None \<and>
        is_non_wire (slot VNull (value_array (nodes h' ! n)) i))"

lemma connect_step_port_kept:
  assumes step: "connect_step (h, ts) (h', ts')" and inv: "connecting_inv R (h, ts)"
  shows "port_kept h h' n i"
  using step
proof (cases rule: connect_step.cases)
  case (turn j t)
  from turn(4,3) show ?thesis
  proof (cases rule: connect_turn_cases)
    case (fuze b v)
    then show ?thesis
      by (auto simp: fuze_turn_def deref_eq_Inr port_kept_def split: if_splits)
  next
    case (store b v)
    obtain m where m: "store_primitive_arg b v h = Inr (m, h')"
      using store by (auto simp: store_turn_def bnd_eq_Inr)
    obtain q where q: "cell (principal_wires h) b = Some q" "m = pw_node q" "m < length (nodes h)"
      and h': "h' = set_node m ((nodes h ! m)
        \<lparr>value_array := slot_set VNull (value_array (nodes h ! m)) (pw_index q) v\<rparr>) (principal_wire_destroy b h)"
      using store_primitive_arg_Inr [OF m] by blast
    have "pw_placed h b q"
      using net_ok_live_pw [OF connecting_inv_ends(1) [OF inv turn(2) store(1)], of b] q by auto
    then have "slot VNull (value_array (nodes h ! m)) (pw_index q) = VPrincipal b"
      using q by (simp add: pw_placed_def)
    then show ?thesis
      using store(2) q(3) cell_Some_length [OF q(1)]
      by (cases "n = m"; cases "i = pw_index q") (auto simp: port_kept_def h' slot_slot_set cell_update)
  next
    case (pair b c task)
    have "net_ok h (VPrincipal b # VPrincipal c # other_roots j ts R)"
      by (rule connecting_inv_ends [OF inv turn(2)]) (simp add: pair ends_of_def)
    then have "nodes h' = nodes h"
      using net_ok_pair connect_active_pair_pairs [OF pair(2)] by fastforce
    then show ?thesis
      by (simp add: port_kept_def)
  next
    case (count m task)
    then show ?thesis
      using count_primitive_arg_Inr [OF count(2)] by (cases "n = m") (auto simp: port_kept_def)
  qed
qed

lemma principal_not_non_wire: "\<not> is_non_wire (VPrincipal a)"
  by (simp add: is_non_wire_def is_principal_wire_def)

lemma connect_reachable_port_kept:
  assumes "connect_step\<^sup>*\<^sup>* s s'" and "connecting_inv R s"
  shows "port_kept (fst s) (fst s') n i"
  using assms(1)
proof (induction rule: rtranclp_induct)
  case (step s1 s2)
  obtain h ts h' ts' where s: "s1 = (h, ts)" "s2 = (h', ts')"
    by (cases s1, cases s2)
  then have st: "connect_step (h, ts) (h', ts')"
    using step by simp
  have inv: "connecting_inv R (h, ts)"
    using connect_reachable_keep [OF step.hyps(1) assms(2)] s by simp
  have dead: "cell (principal_wires h') a = None" if "cell (principal_wires h) a = None" for a
    using connect_step_alive [OF st inv, of "End (VPrincipal a)"] that alive_wire_simps by blast
  have "port_kept (fst s) h n i" "port_kept h h' n i"
    using step.IH s connect_step_port_kept [OF st inv] by simp_all
  then show ?case
    unfolding s fst_conv port_kept_def using dead principal_not_non_wire by metis
qed (simp add: port_kept_def)

lemma ports_agree:
  assumes inv: "connecting_inv R s"
    and run1: "connect_step\<^sup>*\<^sup>* s (h1, ts1)" "\<forall>t \<in> set ts1. connect_over t"
    and run2: "connect_step\<^sup>*\<^sup>* s (h2, ts2)"
    and n: "n < length (nodes h1)"
    and p: "is_principal_wire (slot VNull (value_array (nodes h1 ! n)) i)"
  shows "is_principal_wire (slot VNull (value_array (nodes h2 ! n)) i)"
proof -
  obtain a where a: "slot VNull (value_array (nodes h1 ! n)) i = VPrincipal a"
    using p by (auto simp: is_principal_wire_def split: val.splits)
  have start: "slot VNull (value_array (nodes (fst s) ! n)) i = VPrincipal a"
    using connect_reachable_port_kept [OF run1(1) inv, of n i] a principal_not_non_wire
    unfolding port_kept_def fst_conv by metis
  have "net_ok h1 (all_roots ts1 R)"
    using connect_reachable_keep [OF run1(1) inv] by (simp add: connecting_inv_def)
  moreover have "heap_edge h1 (Port n i) (End (VPrincipal a))"
    using n a by (simp add: heap_edge_port)
  ultimately have "cell (principal_wires h1) a \<noteq> None"
    using freed_pw_untouched(2) by blast
  then have "cell (principal_wires h2) a \<noteq> None"
    using principal_wires_agree [OF inv run2 run1, of a] by (cases "cell (principal_wires h2) a") simp_all
  then have "slot VNull (value_array (nodes h2 ! n)) i = VPrincipal a"
    using connect_reachable_port_kept [OF run2 inv, of n i] unfolding port_kept_def fst_conv start by auto
  then show ?thesis
    by (simp add: is_principal_wire_def)
qed

lemma empty_args_agree:
  assumes inv: "connecting_inv R s"
    and run1: "connect_step\<^sup>*\<^sup>* s (h1, ts1)" "\<forall>t \<in> set ts1. connect_over t"
    and run2: "connect_step\<^sup>*\<^sup>* s (h2, ts2)" "\<forall>t \<in> set ts2. connect_over t"
    and n: "n < length (nodes (fst s))"
  shows "empty_args h1 n = empty_args h2 n"
proof -
  have s: "same_shape (fst s) h1" "same_shape (fst s) h2"
    using connect_reachable_shape [OF run1(1) inv] connect_reachable_shape [OF run2(1) inv] by simp_all
  then have len: "length (nodes h1) = length (nodes (fst s))" "length (nodes h2) = length (nodes (fst s))"
    by (auto simp: same_shape_def dest: map_eq_imp_length_eq)
  have "node_shape (nodes h1 ! n) = node_shape (nodes h2 ! n)"
    using s n len by (auto simp: same_shape_def list_eq_iff_nth_eq)
  then have lens: "length (value_array (nodes h1 ! n)) = length (value_array (nodes h2 ! n))"
    by (auto simp: node_shape_def dest: map_eq_imp_length_eq)
  have "is_principal_wire (value_array (nodes h1 ! n) ! i) = is_principal_wire (value_array (nodes h2 ! n) ! i)"
    if "i < length (value_array (nodes h1 ! n))" for i
    using ports_agree [OF inv run1 run2(1), of n i] ports_agree [OF inv run2 run1(1), of n i] that lens n len
    by (auto simp: slot_def)
  then have "map is_principal_wire (value_array (nodes h1 ! n)) = map is_principal_wire (value_array (nodes h2 ! n))"
    using lens by (intro nth_equalityI) simp_all
  moreover have "empty_args h n = sum_list (map (\<lambda>b. if b then 1 else 0)
      (map is_principal_wire (value_array (nodes h ! n))))" for h
    by (simp add: empty_args_def comp_def)
  ultimately show ?thesis
    by (simp only:)
qed

text \<open>In every net the arguments that have been counted and those that are missing make up the ports.\<close>

definition args_counted :: "heap \<Rightarrow> bool" where
  "args_counted h \<longleftrightarrow>
     (\<forall>n < length (nodes h). \<forall>k. node_principal_port_count h n = Inr k \<longrightarrow>
        primitive_arg_count (nodes h ! n) + empty_args h n = k)"

lemma args_inv_start:
  assumes "args_counted h" and "n < length (nodes h)" and "node_principal_port_count h n = Inr k"
  shows "args_inv n k (primitive_arg_count (nodes h ! n) = k) (h, connect_all ps)"
  using assms by (simp add: args_inv_def args_counted_def)

lemma connected_primitive_node:
  assumes "connect_step\<^sup>*\<^sup>* (h0, connect_all ps) s" and "connecting_inv R (h0, connect_all ps)"
  shows "Connected (Some (Task_primitive n)) \<in> set (snd s) \<longrightarrow>
    n < length (nodes h0) \<and> (\<exists>k. node_principal_port_count h0 n = Inr k)"
  using assms(1)
proof (induction rule: rtranclp_induct)
  case (step s1 s2)
  from step.hyps(2) show ?case
  proof (cases rule: connect_step.cases)
    case (turn i ts h t h')
    have inv: "connecting_inv R (h, ts)"
      using connect_reachable_keep [OF step.hyps(1) assms(2)] turn(1) by simp
    have shape: "same_shape h0 h"
      using connect_reachable_shape [OF step.hyps(1) assms(2)] turn(1) by simp
    then have len: "length (nodes h) = length (nodes h0)"
      by (auto simp: same_shape_def dest: map_eq_imp_length_eq)
    have new: "n < length (nodes h0) \<and> (\<exists>k. node_principal_port_count h0 n = Inr k)"
      if t: "t = Connected (Some (Task_primitive n))"
      using turn(5,4)
    proof (cases rule: connect_turn_cases)
      case (fuze a v)
      then show ?thesis
        using t by (auto simp: fuze_turn_def deref_eq_Inr split: if_splits)
    next
      case (store a v)
      then show ?thesis
        using t by (auto simp: store_turn_def bnd_eq_Inr)
    next
      case (pair a b task)
      then show ?thesis
        using t connect_active_pair_task by blast
    next
      case (count m task)
      have shape': "same_shape h h'"
        using safely_Inr [OF connecting_inv_turn [OF inv turn(3,4)] turn(5)] by (simp add: turn_keeps_def)
      have "m = n" "\<exists>k. node_principal_port_count h' n = Inr k"
        using count(2,3) t by (auto simp: count_primitive_arg_def bnd_eq_Inr split: if_splits)
      then show ?thesis
        using count_primitive_arg_Inr [OF count(2)] len
          node_principal_port_count_same_shape [OF same_shape_trans [OF shape shape']] by simp
    qed
    have "set (snd s2) \<subseteq> insert t (set ts)"
      using turn(2) set_update_subset_insert by simp
    then show ?thesis
      using new step.IH turn(1) by auto
  qed
qed (auto simp: connect_all_def)

lemma primitive_tasks_agree:
  assumes inv: "connecting_inv R (h0, connect_all ps)" and args: "args_counted h0"
    and run1: "connect_step\<^sup>*\<^sup>* (h0, connect_all ps) (h1, ts1)" "\<forall>t \<in> set ts1. connect_over t"
    and run2: "connect_step\<^sup>*\<^sup>* (h0, connect_all ps) (h2, ts2)" "\<forall>t \<in> set ts2. connect_over t"
  shows "count_list ts1 (Connected (Some (Task_primitive n))) = count_list ts2 (Connected (Some (Task_primitive n)))"
proof -
  let ?t = "Connected (Some (Task_primitive n))"
  show ?thesis
  proof (cases "n < length (nodes h0) \<and> (\<exists>k. node_principal_port_count h0 n = Inr k)")
    case True
    then obtain k where n: "n < length (nodes h0)" and k: "node_principal_port_count h0 n = Inr k"
      by blast
    let ?old = "primitive_arg_count (nodes h0 ! n) = k"
    note start = args_inv_start [OF args n k]
    have a1: "args_inv n k ?old (h1, ts1)" and a2: "args_inv n k ?old (h2, ts2)"
      using args_inv_reachable [OF run1(1) inv start] args_inv_reachable [OF run2(1) inv start] by simp_all
    have "Counting n \<notin> set ts1" "Counting n \<notin> set ts2"
      using run1(2) run2(2) by (auto simp: connect_over_def)
    then have "count_list ts1 (Counting n) = 0" "count_list ts2 (Counting n) = 0"
      by (simp_all add: count_list_0_iff)
    moreover have "empty_args h1 n = empty_args h2 n"
      using empty_args_agree [OF inv run1 run2] n by simp
    ultimately show ?thesis
      using a1 a2 by (simp add: args_inv_def)
  next
    case False
    then have "?t \<notin> set ts1" "?t \<notin> set ts2"
      using connected_primitive_node [OF run1(1) inv, of n] connected_primitive_node [OF run2(1) inv, of n]
      by auto
    then have "count_list ts1 ?t = 0" "count_list ts2 ?t = 0"
      by (simp_all add: count_list_0_iff)
    then show ?thesis
      by simp
  qed
qed

end
