(* ===== verification/Lang_Facts.thy ===== *)
theory Lang_Facts
  imports Execute Parallel_Tasks
begin

text \<open>
  What executing statements comes to: a defined function and the body of a rule evaluate their
  expressions, a rule fires on the pairs it is for, which pattern trees a rule can have, and what
  loading a module does.
\<close>

section \<open>Functions\<close>

lemma compile_body_new:
  assumes "compile_body m0 ((function_new n)\<lparr>function_name := name\<rparr>) args exps = Inr f"
  shows "function_arity f = n" and "function_name f = name"
    and "cell (function_objects m) a = Some f \<Longrightarrow>
      call_function a m = labove (return_stack m) (eval_body (mod_find m0) args exps (m\<lparr>return_stack := []\<rparr>))"
proof -
  let ?f = "(function_new n)\<lparr>function_name := name\<rparr>"
  have ok: "slots_ok ?f" by (simp add: slots_ok_def function_new_def)
  have "code_extends ?f (compile_set_variable_list ?f args)" "slots_ok (compile_set_variable_list ?f args)"
    using set_variables_keep [OF ok] by (simp_all add: compile_set_variable_list_def)
  moreover from this(2) have "code_extends (compile_set_variable_list ?f args) f"
    using compile_keeps(2) assms by (simp add: compile_body_def)
  ultimately have "code_extends ?f f" using code_extends_trans by blast
  then show "function_arity f = n" "function_name f = name"
    by (simp_all add: code_extends_def function_new_def)
  show "call_function a m = labove (return_stack m) (eval_body (mod_find m0) args exps (m\<lparr>return_stack := []\<rparr>))"
    if "cell (function_objects m) a = Some f"
    by (rule call_compiled [OF assms _ _ that]) (simp_all add: function_new_def)
qed

lemma defined_function_calls:
  assumes "execute s load path (STMT_DEFINE_FUNCTION name args body) cache m = Some (Inr (t, cache', m'))"
  shows "\<exists>a f. mod_find m' name = VFunction a \<and> cell (function_objects m') a = Some f \<and>
     function_arity f = length args \<and>
     (\<forall>k. cell (function_objects k) a = Some f \<longrightarrow>
        call_function a k =
          labove (return_stack k) (eval_body (mod_find m) args body (k\<lparr>return_stack := []\<rparr>)))"
proof -
  obtain f where f: "compile_body m ((function_new (length args))\<lparr>function_name := Some name\<rparr>) args body = Inr f"
    and m': "define_name name (VFunction (length (function_objects m)))
        (m\<lparr>function_objects := function_objects m @ [Some f]\<rparr>) = Inr m'"
    using assms by (auto simp: execute_def lbnd_eq_Some_Inr new_function_def string_copy_def)
  have "m' = m\<lparr>function_objects := function_objects m @ [Some f],
      value_hash := (value_hash m)(name \<mapsto> VFunction (length (function_objects m)))\<rparr>"
    using m' by (auto simp: define_name_def asserting_eq_Inr string_copy_def)
  then show ?thesis
    using compile_body_new [OF f]
    by (intro exI [of _ "length (function_objects m)"] exI [of _ f]) (auto simp: mod_find_def cell_append)
qed

section \<open>Rules\<close>

lemma function_objects_disconnect:
  "disconnect_pair l r m = Inr m' \<Longrightarrow> function_objects m' = function_objects m"
  by (auto simp: disconnect_pair_def worker_disconnect_node_def worker_recycle_node_def
      bnd_eq_Inr deref_eq_Inr)

definition rule_evaluates :: "machine \<Rightarrow> string list \<Rightarrow> exp list \<Rightarrow> function_t \<Rightarrow> rule \<Rightarrow> bool" where
  "rule_evaluates m names exps f rule \<longleftrightarrow>
     (\<forall>k l r. cell (function_objects k) (rule_function rule) = Some f \<longrightarrow>
        worker_handle_task_active_pair l r rule k =
          lbnd (Some (disconnect_pair l r k)) (\<lambda>k.
            labove (return_stack k) (eval_body (mod_find m) names exps (k\<lparr>return_stack := []\<rparr>))))"

lemma rule_evaluates:
  assumes "compile_body m (function_new n) names exps = Inr f"
  shows "rule_evaluates m names exps f rule"
  unfolding rule_evaluates_def
proof (intro allI impI)
  fix k :: machine and l r
  assume k: "cell (function_objects k) (rule_function rule) = Some f"
  have f: "compile_body m ((function_new n)\<lparr>function_name := None\<rparr>) names exps = Inr f"
    using assms by (simp add: function_new_def)
  show "worker_handle_task_active_pair l r rule k =
      lbnd (Some (disconnect_pair l r k)) (\<lambda>k.
        labove (return_stack k) (eval_body (mod_find m) names exps (k\<lparr>return_stack := []\<rparr>)))"
    unfolding handle_active_pair_disconnect
  proof (rule lbnd_cong [OF refl])
    fix k' assume "Some (disconnect_pair l r k) = Some (Inr k')"
    then have "cell (function_objects k') (rule_function rule) = Some f"
      using k function_objects_disconnect [of l r k k'] by simp
    from compile_body_new(3) [OF f this]
    show "call_function (rule_function rule) k' =
        labove (return_stack k') (eval_body (mod_find m) names exps (k'\<lparr>return_stack := []\<rparr>))" .
  qed
qed

lemma match_rules_last:
  "match_rules h rules p q = Inr None \<Longrightarrow> match_rules h (rules @ [rule]) p q = rule_match h rule p q"
  by (induction rules) (auto simp: bnd_eq_Inr split: if_splits, cases "rule_match h rule p q", auto)

lemma match_rules_other:
  assumes "pw_ctor h p = Inr (Some l)" "pw_ctor h q = Inr (Some r)"
    and "\<forall>rule \<in> set rules. (left_node_ctor rule, right_node_ctor rule) \<notin> {(l, r), (r, l)}"
  shows "match_rules h rules p q = Inr None"
  using assms(3) by (induction rules) (use assms(1,2) in \<open>auto simp: rule_match_def\<close>)

lemma match_rules_append:
  "match_rules h rules p q = Inr None \<Longrightarrow> match_rules h (rules @ rest) p q = match_rules h rest p q"
  by (induction rules) (auto simp: bnd_eq_Inr split: if_splits)

lemma define_rule_star_machine:
  assumes run: "define_rule_star [left, right] exps m = Inr m'"
    and names: "local_names (np_port_infos left) = Inr ln" "local_names (np_port_infos right) = Inr rn"
    and l: "at (node_ctors (net m)) (np_ctor left) = Some lc" "mod_find m (ctor_name lc) = VCtor (np_ctor left)"
    and r: "at (node_ctors (net m)) (np_ctor right) = Some rc" "mod_find m (ctor_name rc) = VCtor (np_ctor right)"
  obtains f rule where "compile_body m (function_new (length (ln @ rn))) (ln @ rn) exps = Inr f"
    "rule = \<lparr>left_node_ctor = np_ctor left, right_node_ctor = np_ctor right,
       rule_function = length (function_objects m)\<rparr>"
    "m' = add_rule (np_ctor right) rule (add_rule (np_ctor left) rule
       (m\<lparr>function_objects := function_objects m @ [Some f]\<rparr>))"
proof -
  obtain f where f: "compile_exp_list m (compile_set_variable_list (function_new (length (ln @ rn))) (ln @ rn)) exps = Inr f"
    using run names by (auto simp: define_rule_star_def bnd_eq_Inr Let_def)
  define rule where "rule = \<lparr>left_node_ctor = np_ctor left, right_node_ctor = np_ctor right,
      rule_function = length (function_objects m)\<rparr>"
  let ?m = "m\<lparr>function_objects := function_objects m @ [Some f]\<rparr>"
  have lt: "np_ctor left < length (node_ctors (net m))" "np_ctor right < length (node_ctors (net m))"
    using l(1) r(1) by (simp_all add: at_Some_iff)
  have first: "define_rule (ctor_name lc) rule ?m = Inr (add_rule (np_ctor left) rule ?m)"
    using l by (simp add: define_rule_def as_node_ctor_def mod_find_def)
  have second: "define_rule (ctor_name rc) rule (add_rule (np_ctor left) rule ?m) =
      Inr (add_rule (np_ctor right) rule (add_rule (np_ctor left) rule ?m))"
    using r lt by (simp add: define_rule_def as_node_ctor_def mod_find_def add_rule_def at_def)
  have "m' = add_rule (np_ctor right) rule (add_rule (np_ctor left) rule ?m)"
    using run names f l(1) r(1) first second
    by (simp add: define_rule_star_def new_function_def Let_def rule_def [symmetric])
  with f show ?thesis
    by (intro that [of f rule]) (simp_all add: rule_def compile_body_def)
qed

lemma define_rule_star_adds:
  assumes run: "define_rule_star [left, right] exps m = Inr m'"
    and names: "local_names (np_port_infos left) = Inr ln" "local_names (np_port_infos right) = Inr rn"
    and l: "at (node_ctors (net m)) (np_ctor left) = Some lc" "mod_find m (ctor_name lc) = VCtor (np_ctor left)"
    and r: "at (node_ctors (net m)) (np_ctor right) = Some rc" "mod_find m (ctor_name rc) = VCtor (np_ctor right)"
  shows "\<exists>f rule. compile_body m (function_new (length (ln @ rn))) (ln @ rn) exps = Inr f \<and>
     left_node_ctor rule = np_ctor left \<and> right_node_ctor rule = np_ctor right \<and>
     cell (function_objects m') (rule_function rule) = Some f \<and>
     length (node_ctors (net m')) = length (node_ctors (net m)) \<and>
     (\<forall>c \<in> {np_ctor left, np_ctor right}. \<exists>rest. rule_array (node_ctors (net m') ! c) =
        rule_array (node_ctors (net m) ! c) @ rule # rest)"
proof (rule define_rule_star_machine [OF assms])
  fix f rule
  assume f: "compile_body m (function_new (length (ln @ rn))) (ln @ rn) exps = Inr f"
    and rule: "rule = \<lparr>left_node_ctor = np_ctor left, right_node_ctor = np_ctor right,
       rule_function = length (function_objects m)\<rparr>"
    and m': "m' = add_rule (np_ctor right) rule (add_rule (np_ctor left) rule
       (m\<lparr>function_objects := function_objects m @ [Some f]\<rparr>))"
  have lt: "np_ctor left < length (node_ctors (net m))" "np_ctor right < length (node_ctors (net m))"
    using l(1) r(1) by (simp_all add: at_Some_iff)
  have "\<forall>c \<in> {np_ctor left, np_ctor right}. \<exists>rest. rule_array (node_ctors (net m') ! c) =
      rule_array (node_ctors (net m) ! c) @ rule # rest"
    using lt by (auto simp: m' add_rule_def nth_list_update)
  moreover have "function_objects m' = function_objects m @ [Some f]"
    "length (node_ctors (net m')) = length (node_ctors (net m))"
    by (simp_all add: m' add_rule_def)
  ultimately show ?thesis
    using f by (intro exI [of _ f] exI [of _ rule]) (simp add: rule cell_append)
qed

text \<open>Defining nodes and rules keeps every rule listed under both its constructors.\<close>

lemma define_rule_star_shares:
  assumes run: "define_rule_star [left, right] exps m = Inr m'"
    and names: "local_names (np_port_infos left) = Inr ln" "local_names (np_port_infos right) = Inr rn"
    and l: "at (node_ctors (net m)) (np_ctor left) = Some lc" "mod_find m (ctor_name lc) = VCtor (np_ctor left)"
    and r: "at (node_ctors (net m)) (np_ctor right) = Some rc" "mod_find m (ctor_name rc) = VCtor (np_ctor right)"
    and shared: "rules_shared (node_ctors (net m))"
  shows "rules_shared (node_ctors (net m'))"
proof (rule define_rule_star_machine [OF run names l r])
  fix f rule
  assume rule: "rule = \<lparr>left_node_ctor = np_ctor left, right_node_ctor = np_ctor right,
       rule_function = length (function_objects m)\<rparr>"
    and m': "m' = add_rule (np_ctor right) rule (add_rule (np_ctor left) rule
       (m\<lparr>function_objects := function_objects m @ [Some f]\<rparr>))"
  have "node_ctors (net m') =
      list_rule (np_ctor right) rule (list_rule (np_ctor left) rule (node_ctors (net m)))"
    by (simp add: m' add_rule_def list_rule_def)
  then show ?thesis
    using rules_shared_add [OF shared, of "np_ctor left" rule "np_ctor right"] l(1) r(1)
    by (simp add: rule at_Some_iff)
qed

lemma define_node_shares:
  assumes "define_node name ports m = Inr m'" and "rules_shared (node_ctors (net m))"
  shows "rules_shared (node_ctors (net m'))"
proof -
  obtain c where "node_ctors (net m') = node_ctors (net m) @ [c]" "rule_array c = []"
    using assms(1)
    by (auto simp: define_node_def define_name_def node_ctor_new_def bnd_eq_Inr asserting_eq_Inr Let_def)
  then show ?thesis
    using rules_shared_append [OF assms(2)] by simp
qed

lemma pw_ctor_set_oppsite:
  "set_oppsite a b h = Inr h' \<Longrightarrow> pw_ctor h' p = pw_ctor h p \<and> pw_rules h' p = pw_rules h p"
proof -
  assume "set_oppsite a b h = Inr h'"
  then obtain x where x: "cell (principal_wires h) a = Some x"
      "h' = h\<lparr>principal_wires := (principal_wires h)[a := Some (x\<lparr>pw_oppsite := Some b\<rparr>)]\<rparr>"
    by (auto simp: set_oppsite_def deref_eq_Inr)
  have "a < length (principal_wires h)" using x(1) by (rule cell_Some_length)
  with x show ?thesis
    by (cases "p = a") (simp_all add: pw_ctor_def pw_rules_def ctor_of_node_def cell_update)
qed

text \<open>
  The first rule for two constructors in the array of the first of the two nodes is the one that fires; of
  two nodes of one constructor the first is taken for the left one.
\<close>

lemma connect_pair_fires:
  assumes "pw_ctor h p = Inr (Some a)" "pw_ctor h q = Inr (Some b)"
    and "at (node_ctors h) a = Some c" "rule_array c = rules @ rule # rest"
    and "\<forall>rule \<in> set rules. (left_node_ctor rule, right_node_ctor rule) \<notin> {(a, b), (b, a)}"
    and "(left_node_ctor rule, right_node_ctor rule) \<in> {(a, b), (b, a)}"
  shows "\<exists>h'. connect_active_pair p q h =
    Inr (Some (if left_node_ctor rule = a then Task_active_pair p q rule else Task_active_pair q p rule), h')"
proof -
  obtain x y where xy: "cell (principal_wires h) p = Some x" "cell (principal_wires h) q = Some y"
    using assms(1,2) by (auto simp: pw_ctor_def deref_eq_Inr)
  then obtain h1 where h1: "set_oppsite p q h = Inr h1" by (simp add: set_oppsite_def)
  then have "\<exists>z. cell (principal_wires h1) q = Some z"
    using xy by (auto simp: set_oppsite_def cell_update)
  then obtain h2 where h2: "set_oppsite q p h1 = Inr h2" by (auto simp: set_oppsite_def)
  have c: "pw_ctor h2 p = Inr (Some a)" "pw_ctor h2 q = Inr (Some b)" "pw_rules h2 p = pw_rules h p"
    using pw_ctor_set_oppsite [OF h1] pw_ctor_set_oppsite [OF h2] assms(1,2) by simp_all
  have "pw_rules h p = Inr (rules @ rule # rest)"
    using assms(1,3,4) by (auto simp: pw_ctor_def pw_rules_def deref_eq_Inr ctor_of_node_def)
  moreover have "match_rules h2 (rules @ rule # rest) p q =
      Inr (Some (if left_node_ctor rule = a then Task_active_pair p q rule else Task_active_pair q p rule))"
    using match_rules_append [OF match_rules_other [OF c(1,2) assms(5)], of "rule # rest"] c assms(6)
    by (auto simp: rule_match_def)
  ultimately show ?thesis
    using h1 h2 c(3) by (simp add: connect_active_pair_def)
qed

lemma defined_rule:
  assumes run: "define_rule_star [left, right] exps m = Inr m'"
    and names: "local_names (np_port_infos left) = Inr ln" "local_names (np_port_infos right) = Inr rn"
    and l: "at (node_ctors (net m)) (np_ctor left) = Some lc" "mod_find m (ctor_name lc) = VCtor (np_ctor left)"
    and r: "at (node_ctors (net m)) (np_ctor right) = Some rc" "mod_find m (ctor_name rc) = VCtor (np_ctor right)"
    and new: "\<forall>rule \<in> set (rule_array lc @ rule_array rc). (left_node_ctor rule, right_node_ctor rule) \<notin>
      {(np_ctor left, np_ctor right), (np_ctor right, np_ctor left)}"
    and h: "node_ctors h = node_ctors (net m')"
      "pw_ctor h p = Inr (Some (np_ctor left))" "pw_ctor h q = Inr (Some (np_ctor right))"
  shows "\<exists>f rule. (\<exists>h'. connect_active_pair p q h = Inr (Some (Task_active_pair p q rule), h')) \<and>
     (\<exists>h'. connect_active_pair q p h =
        Inr (Some (if np_ctor left = np_ctor right then Task_active_pair q p rule
          else Task_active_pair p q rule), h')) \<and>
     cell (function_objects m') (rule_function rule) = Some f \<and> rule_evaluates m (ln @ rn) exps f rule"
proof -
  obtain f rule where a: "compile_body m (function_new (length (ln @ rn))) (ln @ rn) exps = Inr f"
      "left_node_ctor rule = np_ctor left" "right_node_ctor rule = np_ctor right"
      "cell (function_objects m') (rule_function rule) = Some f"
      "length (node_ctors (net m')) = length (node_ctors (net m))"
      "\<forall>c \<in> {np_ctor left, np_ctor right}. \<exists>rest. rule_array (node_ctors (net m') ! c) =
         rule_array (node_ctors (net m) ! c) @ rule # rest"
    using define_rule_star_adds [OF run names l r] by blast
  have c: "at (node_ctors h) (np_ctor left) = Some (node_ctors (net m') ! np_ctor left)"
    "at (node_ctors h) (np_ctor right) = Some (node_ctors (net m') ! np_ctor right)"
    "node_ctors (net m) ! np_ctor left = lc" "node_ctors (net m) ! np_ctor right = rc"
    using l(1) r(1) a(5) h(1) by (simp_all add: at_Some_iff)
  obtain rest rest' where "rule_array (node_ctors (net m') ! np_ctor left) = rule_array lc @ rule # rest"
      "rule_array (node_ctors (net m') ! np_ctor right) = rule_array rc @ rule # rest'"
    using a(6) c(3,4) by auto
  then have "\<exists>h'. connect_active_pair p q h = Inr (Some (Task_active_pair p q rule), h')"
    "\<exists>h'. connect_active_pair q p h =
        Inr (Some (if np_ctor left = np_ctor right then Task_active_pair q p rule
          else Task_active_pair p q rule), h')"
    using connect_pair_fires [OF h(2,3) c(1), of "rule_array lc" rule rest]
      connect_pair_fires [OF h(3,2) c(2), of "rule_array rc" rule rest'] new a(2,3) by auto
  then show ?thesis using a(4) rule_evaluates [OF a(1), of rule] by blast
qed

section \<open>Pattern trees\<close>

text \<open>The nodes of a pattern tree: the patterns that it is flattened to.\<close>

fun pattern_nodes :: "exp \<Rightarrow> nat" where
  "pattern_nodes (EXP_AP target arg_list) = Suc (sum_list (map pattern_nodes arg_list))"
| "pattern_nodes e = 0"

lemma translated_length:
  "translate_pattern_arg_list args patterns = Inr (args', patterns') \<Longrightarrow>
     length args' = length args \<and> length patterns' = length patterns + sum_list (map pattern_nodes args)"
  "translate_pattern_sub_tree e name patterns = Inr patterns' \<Longrightarrow>
     length patterns' = length patterns + pattern_nodes e"
proof (induction args patterns and e name patterns arbitrary: args' patterns' and patterns'
    rule: translate_pattern_arg_list_translate_pattern_sub_tree.induct)
  case (1 patterns)
  then show ?case by simp
qed (fastforce simp: bnd_eq_Inr exp_ap_def)+

lemma translated_tree_length:
  "translate_pattern_tree e = Inr patterns \<Longrightarrow> length patterns = pattern_nodes e"
  by (cases e) (auto simp: translate_pattern_tree_def bnd_eq_Inr dest!: translated_length(1))

lemma build_list_length: "build_node_pattern_list m es = Inr ps \<Longrightarrow> length ps = length es"
  by (induction es arbitrary: ps) (auto simp: bnd_eq_Inr)

lemma define_rule_star_two: "define_rule_star patterns exps m = Inr m' \<Longrightarrow> length patterns = 2"
  by (simp add: define_rule_star_def split: list.splits)

lemma rule_has_two_nodes:
  "execute s load path (STMT_DEFINE_RULE e exps) cache m = Some (Inr r) \<Longrightarrow> pattern_nodes e = 2"
  by (auto simp: execute_def lbnd_eq_Some_Inr dest!: translated_tree_length build_list_length
      define_rule_star_two)

section \<open>Ports that a pattern leaves unset\<close>

text \<open>The argument of a pattern at a port is marked otherwise than the port of the node constructor.\<close>

definition marked_wrongly :: "node_ctor \<Rightarrow> exp list \<Rightarrow> nat \<Rightarrow> bool" where
  "marked_wrongly c args i \<longleftrightarrow>
     (\<exists>name p q. i < length args \<and> args ! i = EXP_VAR name \<and> port_info_from_name name = Inr p \<and>
        slot None (port_infos c) i = Some q \<and> is_principal p \<noteq> is_principal q)"

lemma set_port_info_fields:
  "node_pattern_set_port_info h self index p = Inr (b, self') \<Longrightarrow>
     np_ctor self' = np_ctor self \<and> length (np_port_infos self') = length (np_port_infos self) \<and>
     (\<forall>i. i \<noteq> index \<longrightarrow> np_port_infos self' ! i = np_port_infos self ! i)"
  by (auto simp: node_pattern_set_port_info_def deref_eq_Inr defined_when_eq_Inr nth_list_update split: if_splits)

lemma build_ports_unset:
  assumes "build_ports h index args self = Inr self'" "at (node_ctors h) (np_ctor self) = Some c"
    and "i < index \<or> index + length args \<le> i \<or>
      (\<exists>name p q. index \<le> i \<and> i - index < length args \<and> args ! (i - index) = EXP_VAR name \<and>
         port_info_from_name name = Inr p \<and> slot None (port_infos c) i = Some q \<and>
         is_principal p \<noteq> is_principal q)"
  shows "np_port_infos self' ! i = np_port_infos self ! i"
  using assms
proof (induction h index args self rule: build_ports.induct)
  case (2 h index name args self)
  then obtain p b s where p: "port_info_from_name name = Inr p"
      "node_pattern_set_port_info h self index p = Inr (b, s)" "build_ports h (Suc index) args s = Inr self'"
    by (auto simp: bnd_eq_Inr string_copy_def)
  note fields = set_port_info_fields [OF p(2)]
  have c: "at (node_ctors h) (np_ctor s) = Some c" using fields 2(3) by simp
  show ?case
  proof (cases "i = index")
    case True
    then have "\<exists>q. slot None (port_infos c) index = Some q \<and> is_principal p \<noteq> is_principal q"
      using 2(4) p(1) by auto
    then have "np_port_infos s = np_port_infos self"
      using p(2) 2(3) by (auto simp: node_pattern_set_port_info_def defined_when_eq_Inr)
    moreover have "np_port_infos self' ! i = np_port_infos s ! i"
      by (rule 2(1)) (use p c True in \<open>auto simp: string_copy_def\<close>)
    ultimately show ?thesis by simp
  next
    case False
    have "np_port_infos self' ! i = np_port_infos s ! i"
    proof (rule 2(1))
      show "i < Suc index \<or> Suc index + length args \<le> i \<or>
        (\<exists>name p q. Suc index \<le> i \<and> i - Suc index < length args \<and> args ! (i - Suc index) = EXP_VAR name \<and>
         port_info_from_name name = Inr p \<and> slot None (port_infos c) i = Some q \<and>
         is_principal p \<noteq> is_principal q)"
      proof (cases "i < index \<or> index + length (EXP_VAR name # args) \<le> i")
        case True
        then show ?thesis by auto
      next
        case bounds: False
        with False have "i - index = Suc (i - Suc index)" by arith
        with 2(4) bounds False show ?thesis by auto
      qed
    qed (use p c in \<open>auto simp: string_copy_def\<close>)
    with fields False show ?thesis by simp
  qed
qed simp_all

lemma build_ports_shape:
  "build_ports h index args self = Inr self' \<Longrightarrow>
     np_ctor self' = np_ctor self \<and> length (np_port_infos self') = length (np_port_infos self)"
  by (induction h index args self rule: build_ports.induct)
    (fastforce simp: bnd_eq_Inr dest: set_port_info_fields)+

lemma local_names_unset: "None \<in> set ps \<Longrightarrow> local_names ps = Inl Undefined"
proof (induction ps)
  case (Cons p ps)
  then show ?case by (cases p) auto
qed simp

lemma unset_port_crashes:
  assumes "build_node_pattern m (EXP_AP (EXP_VAR name) args) = Inr left"
    and "at (node_ctors (net m)) (np_ctor left) = Some c"
    and "i < ctor_arity c" "length args \<le> i \<or> marked_wrongly c args i"
  shows "define_rule_star [left, right] exps m = Inl Undefined"
proof -
  obtain a self where b: "node_pattern_new (net m) a = Inr self" "build_ports (net m) 0 args self = Inr left"
    using assms(1) by (auto simp: build_node_pattern_def Let_def bnd_eq_Inr split: if_splits)
  have self: "np_ctor self = np_ctor left" "length (np_port_infos left) = length (np_port_infos self)"
    using build_ports_shape [OF b(2)] by simp_all
  then have new: "np_port_infos self = replicate (ctor_arity c) None"
    using b(1) assms(2) by (auto simp: node_pattern_new_def deref_eq_Inr)
  have "np_port_infos left ! i = np_port_infos self ! i"
    by (rule build_ports_unset [OF b(2)])
      (use assms(2,4) self in \<open>auto simp: marked_wrongly_def\<close>)
  then have "np_port_infos left ! i = None" using new assms(3) by simp
  then have "None \<in> set (np_port_infos left)"
    using assms(3) new self(2) by (metis length_replicate nth_mem)
  then show ?thesis by (simp add: define_rule_star_def local_names_unset)
qed

section \<open>Loading\<close>

lemma loaded_mod_cached:
  assumes "load_mod s path cache m = Some (Inr (values, t, cache', m'))"
  shows "cache' (fst (path_string path)) = Some values"
  using assms
  by (subst (asm) load_mod.simps) (auto simp: load_with_def lbnd_eq_Some_Inr asserting_eq_Inr split: option.splits)

lemma cached_mod_found:
  "cache (fst (path_string path)) = Some values \<Longrightarrow> load_mod s path cache m = Some (Inr (values, [], cache, m))"
  by (subst load_mod.simps) (simp add: load_with_def)

text \<open>A module whose first statement imports the module itself: loading it does not return.\<close>

lemma import_cycle_diverges:
  assumes content: "files s (fst (path_string path)) = Some text"
    and sexps: "sexp_parse_list (double_reader s) (takeWhile (\<lambda>c. c \<noteq> CHR 0x00) text) = Some (Inr sexps)"
    and stmts: "parse_stmt_list (double_reader s) sexps = Inr (STMT_IMPORT names target # stmts)"
    and self: "import_path path target = Inr p" "fst (path_string p) = fst (path_string path)"
      "import_path p target = Inr p"
    and fresh: "cache (fst (path_string path)) = None"
  shows "load_mod s path cache m = None"
proof (rule ccontr)
  assume "load_mod s path cache m \<noteq> None"
  then obtain r where run: "load_mod s path cache m = Some r" by blast
  let ?P = "\<lambda>z q c k r. z = s \<longrightarrow> q \<in> {path, p} \<longrightarrow> c (fst (path_string path)) \<noteq> None"
  have "?P s path cache m r"
  proof (rule load_mod.raw_induct [of ?P, OF _ run])
    fix load z q c k r
    assume IH: "\<And>z q c k r. load z q c k = Some r \<Longrightarrow> ?P z q c k r"
      and eq: "load_with z (\<lambda>p c k. load z p c k) q c k = Some r"
    show "?P z q c k r"
    proof (intro impI notI)
      assume z: "z = s" and q: "q \<in> {path, p}" and c: "c (fst (path_string path)) = None"
      have key: "fst (path_string q) = fst (path_string path)" and imp: "import_path q target = Inr p"
        using q self by auto
      obtain w where w: "import_prelude (fpu s) (loader_worker k) = Inr w"
        using prelude_defined [of "loader_worker k" "fpu s"] by (auto simp: loader_worker_def)
      have "execute_all s (\<lambda>p c k. load s p c k) q (STMT_IMPORT names target # stmts) c w \<noteq> None"
        using eq z key c content sexps stmts w
        by (cases "execute_all s (\<lambda>p c k. load s p c k) q (STMT_IMPORT names target # stmts) c w")
          (simp_all add: load_with_def del: execute_all.simps)
      then obtain r' where "load s p c w = Some r'"
        using imp by (cases "load s p c w") (simp_all add: execute_def)
      from IH [OF this] c show False by simp
    qed
  qed
  with fresh show False by simp
qed

end
