(* ===== verification/Commander.thy ===== *)
theory Commander
  imports Lang_Facts
begin

text \<open>
  The command line (\<open>src/src/packages/std/commander\<close>, \<open>src/src/commands\<close> and
  \<open>src/src/inet-lisp.c\<close>): commands are looked up by name, and \<open>run\<close> loads the files it is given one
  after the other. The flags of the program are global variables and stay set from one file to
  the next. A command returns its exit status, the text it prints and the new state of the program.
\<close>

section \<open>Commands\<close>

text \<open>
  The state is left open here. A command sees the name, the version and the arguments of the
  program, and the names and descriptions of all the commands.
\<close>

record command_info =
  command_name :: string
  description :: "string option"

record commander_info =
  program_name :: string
  version :: string
  argv :: "string list"
  command_infos :: "command_info list"

type_synonym 'w command = "command_info \<times> (commander_info \<Rightarrow> 'w \<Rightarrow> (int \<times> string \<times> 'w) loop)"
type_synonym 'w commander = "commander_info \<times> 'w command list"

definition commander_new :: "string \<Rightarrow> string \<Rightarrow> string list \<Rightarrow> 'w commander" where
  "commander_new name ver args =
     (\<lparr>program_name = name, version = ver, argv = args, command_infos = []\<rparr>, [])"

definition commander_add :: "'w commander \<Rightarrow> 'w command \<Rightarrow> 'w commander" where
  "commander_add self command =
     ((fst self)\<lparr>command_infos := command_infos (fst self) @ [fst command]\<rparr>, snd self @ [command])"

text \<open>The arguments end with NULL; \<open>argv[1]\<close> exists as long as the program has a name.\<close>

definition commander_command_name :: "commander_info \<Rightarrow> string option res" where
  "commander_command_name self = defined_when (argv self \<noteq> []) (Inr (at (argv self) 1))"

definition commander_rest_argv :: "commander_info \<Rightarrow> string list" where
  "commander_rest_argv self = drop 2 (argv self)"

definition commander_rest_argc :: "commander_info \<Rightarrow> nat" where
  "commander_rest_argc self = length (argv self) - 2"

definition command_line :: "command_info \<Rightarrow> string" where
  "command_line c =
     ''  '' @ command_name c @ (case description c of None \<Rightarrow> [] | Some d \<Rightarrow> '' -- '' @ d) @ newline"

definition commander_help :: "commander_info \<Rightarrow> string" where
  "commander_help self =
     program_name self @ '' '' @ version self @ newline @ newline @ ''commands:'' @ newline @
     concat (map command_line (command_infos self))"

definition find_command :: "'w command list \<Rightarrow> string \<Rightarrow> 'w command option" where
  "find_command commands name = List.find (\<lambda>c. string_equal (command_name (fst c)) name) commands"

definition commander_default_command :: "'w commander \<Rightarrow> 'w command option" where
  "commander_default_command self = find_command (snd self) ''default''"

definition commander_run :: "'w commander \<Rightarrow> 'w \<Rightarrow> (int \<times> string \<times> 'w) loop" where
  "commander_run self w =
     lbnd (Some (commander_command_name (fst self))) (\<lambda>name.
     case name of
       None \<Rightarrow>
         (case commander_default_command self of
            Some command \<Rightarrow> snd command (fst self) w
          | None \<Rightarrow> Some (Inr (0, commander_help (fst self), w)))
     | Some name \<Rightarrow>
         (case find_command (snd self) name of
            Some command \<Rightarrow> snd command (fst self) w
          | None \<Rightarrow> Some (Inr (1, ''[commander_run] undefined command: '' @ name @ newline, w))))"

section \<open>The program\<close>

record program =
  platform_of :: platform
  global_mod_cache :: mod_cache
  memory :: machine

text \<open>Loading the file an argument names, from the current working directory.\<close>

definition load_file :: "string \<Rightarrow> string \<Rightarrow> program \<Rightarrow> (string \<times> program) loop" where
  "load_file cwd arg w =
     lbnd (Some (bnd (path_new_cwd cwd) (\<lambda>path. path_resolve path arg))) (\<lambda>path.
     lbnd (load_mod (platform_of w) path (global_mod_cache w) (memory w)) (\<lambda>(values, t, cache, m).
       Some (Inr (t, w\<lparr>global_mod_cache := cache, memory := m\<rparr>))))"

definition is_flag :: "string \<Rightarrow> bool" where
  "is_flag arg \<longleftrightarrow>
     arg \<in> {''--single-threaded'', ''-s'', ''--print-top-level-exp'', ''-p'', ''--no-run-top-level-exp''}"

definition set_flag :: "string \<Rightarrow> platform \<Rightarrow> platform" where
  "set_flag arg s =
     (if string_equal arg ''--single-threaded'' \<or> string_equal arg ''-s'' then s\<lparr>single_threaded_flag := True\<rparr>
      else if string_equal arg ''--print-top-level-exp'' \<or> string_equal arg ''-p''
        then s\<lparr>print_top_level_exp_flag := True\<rparr>
      else s\<lparr>no_run_top_level_exp := True\<rparr>)"

fun run_args :: "string \<Rightarrow> string list \<Rightarrow> program \<Rightarrow> (string \<times> program) loop" where
  "run_args cwd [] w = Some (Inr ([], w))"
| "run_args cwd (arg # args) w =
     (if is_flag arg then run_args cwd args (w\<lparr>platform_of := set_flag arg (platform_of w)\<rparr>)
      else lbnd (load_file cwd arg w) (\<lambda>(t, w).
           lbnd (run_args cwd args w) (\<lambda>(u, w). Some (Inr (t @ u, w)))))"

definition cmd_run :: "string \<Rightarrow> program command" where
  "cmd_run cwd =
     (\<lparr>command_name = ''run'', description = Some ''run files''\<rparr>,
      \<lambda>commander w. lbnd (run_args cwd (commander_rest_argv commander) w) (\<lambda>(t, w). Some (Inr (0, t, w))))"

text \<open>What \<open>help\<close> and \<open>version\<close> print.\<close>

definition cmd_default_help :: "'w command" where
  "cmd_default_help =
     (\<lparr>command_name = ''help'', description = Some ''print help message''\<rparr>,
      \<lambda>commander w. Some (Inr (0, commander_help commander, w)))"

definition cmd_default_version :: "'w command" where
  "cmd_default_version =
     (\<lparr>command_name = ''version'', description = Some ''print version''\<rparr>,
      \<lambda>commander w. Some (Inr (0, version commander @ newline, w)))"

section \<open>The cache of modules only grows\<close>

lemma execute_cache_grows:
  assumes "execute s load path stmt cache m = Some (Inr (t, cache', m'))"
    and "\<And>q c k v u c' k'. load q c k = Some (Inr (v, u, c', k')) \<Longrightarrow> c \<subseteq>\<^sub>m c'"
  shows "cache \<subseteq>\<^sub>m cache'"
proof (cases stmt)
  case (STMT_IMPORT names target)
  then obtain p v u k where "load p cache m = Some (Inr (v, u, cache', k))"
    using assms(1) by (auto simp: execute_def lbnd_eq_Some_Inr)
  then show ?thesis by (rule assms(2))
qed (use assms(1) in \<open>auto simp: execute_def lbnd_eq_Some_Inr new_function_def Let_def\<close>)

lemma execute_all_cache_grows:
  assumes "execute_all s load path stmts cache m = Some (Inr (t, cache', m'))"
    and "\<And>q c k v u c' k'. load q c k = Some (Inr (v, u, c', k')) \<Longrightarrow> c \<subseteq>\<^sub>m c'"
  shows "cache \<subseteq>\<^sub>m cache'"
  using assms(1)
proof (induction stmts arbitrary: cache m t)
  case (Cons stmt stmts)
  then obtain u c k v where "execute s load path stmt cache m = Some (Inr (u, c, k))"
      "execute_all s load path stmts c k = Some (Inr (v, cache', m'))"
    by (auto simp: lbnd_eq_Some_Inr)
  note run = this
  have "cache \<subseteq>\<^sub>m c" using run(1) assms(2) by (rule execute_cache_grows)
  also have "c \<subseteq>\<^sub>m cache'" using run(2) by (rule Cons.IH)
  finally (map_le_trans) show ?case .
qed simp

lemma load_mod_cache_grows:
  assumes run: "load_mod s path cache m = Some (Inr (values, t, cache', m'))"
  shows "cache \<subseteq>\<^sub>m cache'"
proof -
  define P where "P z q c k r \<longleftrightarrow> (\<forall>v t c' k'. r = Inr (v, t, c', k') \<longrightarrow> c \<subseteq>\<^sub>m c')"
    for z :: platform and q :: path and c :: mod_cache and k :: machine
      and r :: "((string \<rightharpoonup> val) \<times> string \<times> mod_cache \<times> machine) res"
  have "P s path cache m (Inr (values, t, cache', m'))"
  proof (rule load_mod.raw_induct [of P, OF _ run])
    fix load z q c k r
    assume IH: "\<And>z q c k r. load z q c k = Some r \<Longrightarrow> P z q c k r"
      and eq: "load_with z (\<lambda>p c k. load z p c k) q c k = Some r"
    show "P z q c k r"
      unfolding P_def
    proof (intro allI impI)
      fix v t c' k' assume r: "r = Inr (v, t, c', k')"
      show "c \<subseteq>\<^sub>m c'"
      proof (cases "c (fst (path_string q))")
        case (Some found)
        with eq r show ?thesis by (simp add: load_with_def)
      next
        case None
        then obtain stmts w u c1 w1 where run:
            "execute_all z (\<lambda>p c k. load z p c k) q stmts c w = Some (Inr (u, c1, w1))"
            "c1 (fst (path_string q)) = None" "c' = c1(fst (path_string q) \<mapsto> value_hash w1)"
          using eq r by (auto simp: load_with_def lbnd_eq_Some_Inr asserting_eq_Inr split: option.splits)
        have "c \<subseteq>\<^sub>m c1"
          using run(1) by (rule execute_all_cache_grows) (use IH P_def in blast)
        moreover have "c1 \<subseteq>\<^sub>m c'" using run(2,3) by (auto simp: map_le_def)
        ultimately show ?thesis by (rule map_le_trans)
      qed
    qed
  qed
  then show ?thesis by (simp add: P_def)
qed

section \<open>A file is run once\<close>

definition file_path :: "string \<Rightarrow> string \<Rightarrow> path res" where
  "file_path cwd arg = bnd (path_new_cwd cwd) (\<lambda>path. path_resolve path arg)"

definition file_loaded :: "string \<Rightarrow> string \<Rightarrow> program \<Rightarrow> bool" where
  "file_loaded cwd arg w \<longleftrightarrow>
     (\<exists>path values. file_path cwd arg = Inr path \<and> global_mod_cache w (fst (path_string path)) = Some values)"

lemma load_file_loads:
  assumes "load_file cwd arg w = Some (Inr (t, w'))"
  shows "file_loaded cwd arg w'" and "global_mod_cache w \<subseteq>\<^sub>m global_mod_cache w'"
  using assms loaded_mod_cached load_mod_cache_grows
  by (fastforce simp: load_file_def file_loaded_def file_path_def lbnd_eq_Some_Inr)+

lemma load_file_again: "file_loaded cwd arg w \<Longrightarrow> load_file cwd arg w = Some (Inr ([], w))"
  by (auto simp: load_file_def file_loaded_def file_path_def cached_mod_found)

lemma run_args_grows: "run_args cwd args w = Some (Inr (t, w')) \<Longrightarrow> global_mod_cache w \<subseteq>\<^sub>m global_mod_cache w'"
proof (induction args arbitrary: w t)
  case (Cons arg args)
  show ?case
  proof (cases "is_flag arg")
    case True
    with Cons show ?thesis by fastforce
  next
    case False
    then obtain u v w1 where "load_file cwd arg w = Some (Inr (u, w1))" "run_args cwd args w1 = Some (Inr (v, w'))"
      using Cons.prems by (auto simp: lbnd_eq_Some_Inr)
    then show ?thesis using Cons.IH load_file_loads(2) map_le_trans by blast
  qed
qed simp

lemma file_loaded_grows:
  "file_loaded cwd arg w \<Longrightarrow> global_mod_cache w \<subseteq>\<^sub>m global_mod_cache w' \<Longrightarrow> file_loaded cwd arg w'"
  by (force simp: file_loaded_def map_le_def dom_def)

lemma run_args_loads:
  "run_args cwd args w = Some (Inr (t, w')) \<Longrightarrow> file \<in> set args \<Longrightarrow> \<not> is_flag file \<Longrightarrow> file_loaded cwd file w'"
proof (induction args arbitrary: w t)
  case (Cons arg args)
  show ?case
  proof (cases "is_flag arg")
    case True
    with Cons show ?thesis by auto
  next
    case False
    then obtain u v w1 where run: "load_file cwd arg w = Some (Inr (u, w1))" "run_args cwd args w1 = Some (Inr (v, w'))"
      using Cons.prems by (auto simp: lbnd_eq_Some_Inr)
    show ?thesis
    proof (cases "file = arg")
      case True
      then show ?thesis
        using load_file_loads(1) [OF run(1)] file_loaded_grows run_args_grows [OF run(2)] by blast
    next
      case False
      with Cons run show ?thesis by auto
    qed
  qed
qed simp

lemma run_args_append:
  "run_args cwd (args @ args2) w =
     lbnd (run_args cwd args w) (\<lambda>(t, w). lbnd (run_args cwd args2 w) (\<lambda>(u, w). Some (Inr (t @ u, w))))"
proof (induction args arbitrary: w)
  case Nil
  then show ?case by (simp add: lbnd_def split: option.split sum.split)
next
  case (Cons arg args)
  then show ?case by (auto simp: lbnd_def split: option.split sum.split)
qed

lemma file_runs_once:
  assumes "run_args cwd args w = Some (Inr (t, w'))" "file \<in> set args" "\<not> is_flag file"
  shows "run_args cwd (args @ [file]) w = Some (Inr (t, w'))"
  using load_file_again [OF run_args_loads [OF assms]] assms(1,3) by (simp add: run_args_append)

section \<open>Running a command\<close>

lemma undefined_command:
  assumes "argv (fst self) = program_path # name # rest" "\<forall>c \<in> set (snd self). command_name (fst c) \<noteq> name"
  shows "commander_run self w = Some (Inr (1, ''[commander_run] undefined command: '' @ name @ newline, w))"
proof -
  have "find_command (snd self) name = None"
    using assms(2) by (auto simp: find_command_def find_None_iff string_equal_def)
  then show ?thesis using assms(1) by (simp add: commander_run_def commander_command_name_def at_def)
qed

end
