(* ===== verification/Lang_Print.thy ===== *)
theory Lang_Print
  imports Lang_Syntax
begin

text \<open>
  Statements that are printed are read back: the shapes of their texts, and what the parsers of
  \<open>parse_stmt.c\<close> make of a tree of such a shape.
\<close>

section \<open>Plain statements\<close>

text \<open>
  The statements that \<open>stmt_print\<close> writes as they are read: not an import, whose path is quoted, nor
  a node without ports; and an expression whose head is none of the words that start a statement.
\<close>

definition statement_words :: "string list" where
  "statement_words = [''define-node'', ''define-rule'', ''define-rule*'', ''define'', ''import'']"

fun plain_stmt :: "double_parser \<Rightarrow> stmt \<Rightarrow> bool" where
  "plain_stmt ops (STMT_DEFINE name e) \<longleftrightarrow> plain_word name \<and> plain_exp ops e"
| "plain_stmt ops (STMT_DEFINE_FUNCTION name args es) \<longleftrightarrow>
     plain_word name \<and> list_all plain_word args \<and> list_all (plain_exp ops) es"
| "plain_stmt ops (STMT_DEFINE_NODE name ports) \<longleftrightarrow>
     plain_word name \<and> ports \<noteq> [] \<and> list_all plain_word ports"
| "plain_stmt ops (STMT_DEFINE_RULE p es) \<longleftrightarrow> plain_exp ops p \<and> list_all (plain_exp ops) es"
| "plain_stmt ops (STMT_DEFINE_RULE_STAR ps es) \<longleftrightarrow>
     list_all (plain_exp ops) ps \<and> list_all (plain_exp ops) es"
| "plain_stmt ops (STMT_RUN_EXP e) \<longleftrightarrow>
     plain_exp ops e \<and> (\<forall>w \<in> set statement_words. \<forall>args. e \<noteq> EXP_AP (EXP_VAR w) args)"
| "plain_stmt ops (STMT_IMPORT names path) \<longleftrightarrow> False"

fun stmt_shape :: "stmt \<Rightarrow> shape" where
  "stmt_shape (STMT_DEFINE name e) = Group [Word ''define'', Word name, exp_shape e]"
| "stmt_shape (STMT_DEFINE_FUNCTION name args es) =
     Group (Word ''define'' # Group (map Word (name # args)) # map exp_shape es)"
| "stmt_shape (STMT_DEFINE_NODE name ports) = Group (Word ''define-node'' # Word name # map Word ports)"
| "stmt_shape (STMT_DEFINE_RULE p es) = Group (Word ''define-rule'' # exp_shape p # map exp_shape es)"
| "stmt_shape (STMT_DEFINE_RULE_STAR ps es) =
     Group (Word ''define-rule*'' # Group (map exp_shape ps) # map exp_shape es)"
| "stmt_shape (STMT_RUN_EXP e) = exp_shape e"
| "stmt_shape (STMT_IMPORT names path) = Group []"

lemma not_int_words: "w \<in> set statement_words \<Longrightarrow> \<not> string_is_xint w"
proof -
  have "list_all (\<lambda>w. \<not> string_is_xint w) statement_words" by code_simp
  then show "w \<in> set statement_words \<Longrightarrow> \<not> string_is_xint w" unfolding list_all_iff by blast
qed

lemma plain_words:
  "plain_word ''define''" "plain_word ''define-node''" "plain_word ''define-rule''" "plain_word ''define-rule*''"
  using not_int_words
  by (simp_all add: plain_word_def plain_char_def isspace_def char_code_def MAX_TOKEN_LENGTH_def
      statement_words_def del: string_is_xint.simps)

lemma stmt_shape_plain: "plain_stmt ops st \<Longrightarrow> plain_shape (stmt_shape st)"
  by (cases st) (auto simp: list_all_iff plain_words intro: exp_shape_plain)

section \<open>Printing\<close>

lemma exp_list_print_shape:
  assumes "list_all (plain_exp ops) es"
  shows "exp_list_print fmt es = Inr (print_separated (map print_shape (map exp_shape es)))"
    and "exp_list_print_as_tail fmt es =
      Inr (if es = [] then '')'' else '' '' @ print_separated (map print_shape (map exp_shape es)) @ '')'')"
    and "exp_list_print_as_list fmt es = Inr (print_shape (Group (map exp_shape es)))"
  using exp_print_shape(2) [OF assms, of fmt]
  by (simp_all add: exp_list_print_def exp_list_print_as_tail_def exp_list_print_as_list_def)

lemma print_words: "map print_shape (map Word ws) = ws"
  by (induction ws) simp_all

lemma stmt_print_shape:
  assumes "plain_stmt ops st"
  shows "stmt_print fmt st = Inr (print_shape (stmt_shape st))"
proof (cases st)
  case (STMT_DEFINE name e)
  then show ?thesis using assms exp_print_shape(1) [of ops e fmt] by (simp add: stmt_print_def)
next
  case (STMT_DEFINE_FUNCTION name args es)
  then show ?thesis
    using assms exp_list_print_shape(2) [of ops es fmt]
    by (cases es; cases args) (simp_all add: stmt_print_def name_list_print_def print_separated_Cons o_def)
next
  case (STMT_DEFINE_NODE name ports)
  then show ?thesis
    using assms by (simp add: stmt_print_def name_list_print_def print_separated_Cons o_def)
next
  case (STMT_DEFINE_RULE p es)
  then show ?thesis
    using assms exp_print_shape(1) [of ops p fmt] exp_list_print_shape(2) [of ops es fmt]
    by (cases es) (simp_all add: stmt_print_def print_separated_Cons)
next
  case (STMT_DEFINE_RULE_STAR ps es)
  then show ?thesis
    using assms exp_list_print_shape(3) [of ops ps fmt] exp_list_print_shape(2) [of ops es fmt]
    by (cases es) (simp_all add: stmt_print_def print_separated_Cons)
next
  case (STMT_RUN_EXP e)
  then show ?thesis using assms exp_print_shape(1) [of ops e fmt] by (simp add: stmt_print_def)
next
  case (STMT_IMPORT names path)
  then show ?thesis using assms by simp
qed

section \<open>Parsing\<close>

lemma parse_args_shape:
  "map shape_of ss = map exp_shape es \<Longrightarrow> list_all (read_kinds ops) ss \<Longrightarrow> list_all (plain_exp ops) es \<Longrightarrow>
     parse_args ops ss = Inr es"
proof (induction es arbitrary: ss)
  case (Cons e es)
  then obtain u us where "ss = u # us" by (cases ss) auto
  with Cons show ?case using parse_exp_shape [of ops e u] by simp
qed simp

lemmas sexp_simps = sexp_sexp_list_def as_list_sexp_def sexp_string_def sexp_token_def as_atom_sexp_def

lemma word_atom: "shape_of s = Word w \<Longrightarrow> \<exists>t. s = Atom_sexp t \<and> tok_string t = w"
  by (cases s) auto

lemma group_list: "shape_of s = Group gs \<Longrightarrow> \<exists>a b ss. s = List_sexp a b ss \<and> map shape_of ss = gs"
  by (cases s) auto

lemma parse_names_shape: "map shape_of ss = map Word names \<Longrightarrow> parse_names ss = Inr names"
proof (induction names arbitrary: ss)
  case (Cons name names)
  then obtain u us where ss: "ss = u # us" by (cases ss) auto
  with Cons.prems obtain t where "u = Atom_sexp t" "tok_string t = name" using word_atom by fastforce
  with Cons ss show ?case by (simp add: string_copy_def sexp_simps)
qed simp

lemma starts_with_word:
  "map shape_of ss = Word v # gs \<Longrightarrow> sexp_starts_with (List_sexp a b ss) w \<longleftrightarrow> v = w"
  using word_atom by (cases ss) (fastforce simp: sexp_starts_with_def string_equal_def)+

lemma parse_stmt_shape:
  assumes plain: "plain_stmt ops st" and shape: "shape_of s = stmt_shape st" and kinds: "read_kinds ops s"
  shows "parse_stmt ops s = Inr st"
proof (cases st)
  case (STMT_DEFINE name e)
  with shape obtain a b ss where s: "s = List_sexp a b ss"
      "map shape_of ss = [Word ''define'', Word name, exp_shape e]" using group_list by fastforce
  then obtain t n u where ss: "ss = [t, n, u]" "shape_of n = Word name" "shape_of u = exp_shape e"
    by (auto simp: map_eq_Cons_conv)
  obtain k where n: "n = Atom_sexp k" "tok_string k = name" using word_atom [OF ss(2)] by blast
  have "parse_exp ops u = Inr e" using parse_exp_shape [of ops e u] STMT_DEFINE plain kinds s ss by simp
  then show ?thesis
    using s n starts_with_word [OF s(2)]
    by (simp add: sexp_simps parse_stmt_def parse_define_def parse_define_value_def ss(1) at_def is_atom_sexp_def
        stmt_define_def string_copy_def STMT_DEFINE)
next
  case (STMT_DEFINE_FUNCTION name args es)
  with shape obtain a b ss where s: "s = List_sexp a b ss"
      "map shape_of ss = Word ''define'' # Group (map Word (name # args)) # map exp_shape es"
    using group_list by fastforce
  then obtain t n us where ss: "ss = t # n # us" "shape_of n = Group (map Word (name # args))"
      "map shape_of us = map exp_shape es" by (auto simp: map_eq_Cons_conv)
  obtain c d ns where n: "n = List_sexp c d ns" "map shape_of ns = map Word (name # args)"
    using group_list [OF ss(2)] by blast
  then obtain m ms where ns: "ns = m # ms" "shape_of m = Word name" "map shape_of ms = map Word args"
    by (auto simp: map_eq_Cons_conv)
  obtain k where m: "m = Atom_sexp k" "tok_string k = name" using word_atom [OF ns(2)] by blast
  have "parse_args ops us = Inr es"
    using parse_args_shape [OF ss(3)] STMT_DEFINE_FUNCTION plain kinds s ss by simp
  then show ?thesis
    using s n m ns parse_names_shape [OF ns(3)] starts_with_word [OF s(2)]
    by (simp add: sexp_simps parse_stmt_def parse_define_def parse_define_function_def ss(1) at_def is_atom_sexp_def
        stmt_define_function_def string_copy_def STMT_DEFINE_FUNCTION)
next
  case (STMT_DEFINE_NODE name ports)
  with shape obtain a b ss where s: "s = List_sexp a b ss"
      "map shape_of ss = Word ''define-node'' # Word name # map Word ports" using group_list by fastforce
  then obtain t n us where ss: "ss = t # n # us" "shape_of n = Word name" "map shape_of us = map Word ports"
    by (auto simp: map_eq_Cons_conv)
  obtain k where n: "n = Atom_sexp k" "tok_string k = name" using word_atom [OF ss(2)] by blast
  show ?thesis
    using s n parse_names_shape [OF ss(3)] starts_with_word [OF s(2)]
    by (simp add: sexp_simps parse_stmt_def parse_define_node_def ss(1) at_def stmt_define_node_def string_copy_def
        STMT_DEFINE_NODE)
next
  case (STMT_DEFINE_RULE p es)
  with shape obtain a b ss where s: "s = List_sexp a b ss"
      "map shape_of ss = Word ''define-rule'' # exp_shape p # map exp_shape es" using group_list by fastforce
  then obtain t n us where ss: "ss = t # n # us" "shape_of n = exp_shape p" "map shape_of us = map exp_shape es"
    by (auto simp: map_eq_Cons_conv)
  have "parse_args ops us = Inr es" "parse_exp ops n = Inr p"
    using parse_args_shape [OF ss(3)] parse_exp_shape [of ops p n] STMT_DEFINE_RULE plain kinds s ss by simp_all
  then show ?thesis
    using s starts_with_word [OF s(2)]
    by (simp add: sexp_simps parse_stmt_def parse_define_rule_def ss(1) at_def stmt_define_rule_def STMT_DEFINE_RULE)
next
  case (STMT_DEFINE_RULE_STAR ps es)
  with shape obtain a b ss where s: "s = List_sexp a b ss"
      "map shape_of ss = Word ''define-rule*'' # Group (map exp_shape ps) # map exp_shape es"
    using group_list by fastforce
  then obtain t n us where ss: "ss = t # n # us" "shape_of n = Group (map exp_shape ps)"
      "map shape_of us = map exp_shape es" by (auto simp: map_eq_Cons_conv)
  obtain c d ns where n: "n = List_sexp c d ns" "map shape_of ns = map exp_shape ps"
    using group_list [OF ss(2)] by blast
  have "parse_args ops us = Inr es" "parse_args ops ns = Inr ps"
    using parse_args_shape [OF ss(3)] parse_args_shape [OF n(2)] STMT_DEFINE_RULE_STAR plain kinds s ss n
    by simp_all
  then show ?thesis
    using s n starts_with_word [OF s(2)]
    by (simp add: sexp_simps parse_stmt_def parse_define_rule_star_def ss(1) at_def stmt_define_rule_star_def
        STMT_DEFINE_RULE_STAR)
next
  case (STMT_RUN_EXP e)
  have e: "parse_exp ops s = Inr e"
    using parse_exp_shape [of ops e s] STMT_RUN_EXP plain kinds shape by simp
  have "\<not> sexp_starts_with s w" if w: "w \<in> set statement_words" for w
  proof
    assume start: "sexp_starts_with s w"
    have "plain_exp ops e" "shape_of s = exp_shape e" using STMT_RUN_EXP plain shape by simp_all
    from starts_with_head [OF this start] w not_int_words STMT_RUN_EXP plain show False by auto
  qed
  then show ?thesis
    using e by (simp add: sexp_simps parse_stmt_def statement_words_def parse_run_exp_def stmt_run_exp_def STMT_RUN_EXP)
next
  case (STMT_IMPORT names path)
  then show ?thesis using plain by simp
qed

lemma printed_stmt_parsed:
  assumes "plain_stmt ops st"
  shows "\<exists>t s. stmt_print fmt st = Inr t \<and> sexp_parse ops t = Some (Inr (Some s)) \<and> parse_stmt ops s = Inr st"
  using sexp_parse_shape [OF stmt_shape_plain [OF assms], of ops] stmt_print_shape [OF assms, of fmt]
    parse_stmt_shape [OF assms] by blast

end
