(* ===== verification/Spinlock.thy ===== *)
theory Spinlock
  imports Main
begin

text \<open>
  The spinlock (\<open>src/src/packages/std/lock/fast_spinlock.h\<close>), which guards the front of the task
  queues. A thread that locks reads the flag, and only when it is clear exchanges it with true;
  the two accesses are two steps, between which other threads may act. Any number of threads
  take part.
\<close>

datatype lock_pc =
    Outside
  | Loading bool
  | Exchanging bool
  | Inside

text \<open>
  The argument of \<open>Loading\<close> and \<open>Exchanging\<close> tells a \<open>fast_spinlock_lock\<close>, which starts over when it
  fails, from a \<open>fast_spinlock_try_lock\<close>, which returns.
\<close>

record lock_state =
  atomic_is_locked :: bool
  lock_pcs :: "nat \<Rightarrow> lock_pc"

definition fast_spinlock_new :: lock_state where
  "fast_spinlock_new = \<lparr>atomic_is_locked = False, lock_pcs = (\<lambda>_. Outside)\<rparr>"

definition goto :: "nat \<Rightarrow> lock_pc \<Rightarrow> lock_state \<Rightarrow> lock_state" where
  "goto t pc s = s\<lparr>lock_pcs := (lock_pcs s)(t := pc)\<rparr>"

definition fast_spinlock_unlock :: "nat \<Rightarrow> lock_state \<Rightarrow> lock_state" where
  "fast_spinlock_unlock t s = goto t Outside (s\<lparr>atomic_is_locked := False\<rparr>)"

inductive lock_step :: "lock_state \<Rightarrow> lock_state \<Rightarrow> bool" where
  call: "lock_pcs s t = Outside \<Longrightarrow> lock_step s (goto t (Loading again) s)"
| load_clear: "lock_pcs s t = Loading again \<Longrightarrow> \<not> atomic_is_locked s \<Longrightarrow>
    lock_step s (goto t (Exchanging again) s)"
| load_set: "lock_pcs s t = Loading again \<Longrightarrow> atomic_is_locked s \<Longrightarrow>
    lock_step s (goto t (if again then Loading True else Outside) s)"
| exchange_clear: "lock_pcs s t = Exchanging again \<Longrightarrow> \<not> atomic_is_locked s \<Longrightarrow>
    lock_step s (goto t Inside (s\<lparr>atomic_is_locked := True\<rparr>))"
| exchange_set: "lock_pcs s t = Exchanging again \<Longrightarrow> atomic_is_locked s \<Longrightarrow>
    lock_step s (goto t (if again then Loading True else Outside) (s\<lparr>atomic_is_locked := True\<rparr>))"
| unlock: "lock_pcs s t = Inside \<Longrightarrow> lock_step s (fast_spinlock_unlock t s)"

inductive lock_reachable :: "lock_state \<Rightarrow> bool" where
  init: "lock_reachable fast_spinlock_new"
| step: "lock_reachable s \<Longrightarrow> lock_step s s' \<Longrightarrow> lock_reachable s'"

text \<open>The flag is set just while one thread is inside.\<close>

definition inside :: "lock_state \<Rightarrow> nat set" where
  "inside s = {t. lock_pcs s t = Inside}"

definition lock_ok :: "lock_state \<Rightarrow> bool" where
  "lock_ok s \<longleftrightarrow> (if atomic_is_locked s then \<exists>t. inside s = {t} else inside s = {})"

lemma inside_goto [simp]:
  "inside (goto t pc s) = (if pc = Inside then insert t (inside s) else inside s - {t})"
  by (auto simp: inside_def goto_def)

lemma inside_flag [simp]:
  "inside (s\<lparr>atomic_is_locked := b\<rparr>) = inside s"
  "atomic_is_locked (goto t pc s) = atomic_is_locked s"
  by (simp_all add: inside_def goto_def)

lemma not_inside: "lock_pcs s t \<noteq> Inside \<Longrightarrow> inside s - {t} = inside s"
  by (auto simp: inside_def)

lemma lock_step_ok: "lock_step s s' \<Longrightarrow> lock_ok s \<Longrightarrow> lock_ok s'"
proof (induction rule: lock_step.induct)
  case (unlock s t)
  then have "t \<in> inside s" by (simp add: inside_def)
  with unlock show ?case by (auto simp: lock_ok_def fast_spinlock_unlock_def split: if_splits)
qed (simp_all add: lock_ok_def not_inside split: if_splits)

lemma lock_reachable_ok: "lock_reachable s \<Longrightarrow> lock_ok s"
proof (induction rule: lock_reachable.induct)
  case init
  show ?case by (simp add: lock_ok_def fast_spinlock_new_def inside_def)
qed (rule lock_step_ok)

lemma lock_excludes:
  assumes "lock_reachable s"
  shows "(lock_pcs s t = Inside \<and> lock_pcs s u = Inside \<longrightarrow> t = u) \<and>
     (atomic_is_locked s \<longleftrightarrow> (\<exists>t. lock_pcs s t = Inside))"
proof -
  have "lock_pcs s v = Inside \<longleftrightarrow> v \<in> inside s" for v by (simp add: inside_def)
  then show ?thesis
    using lock_reachable_ok [OF assms] by (auto simp: lock_ok_def split: if_splits)
qed

text \<open>A thread that finds the flag clear twice in a row is in, so a free lock is not denied.\<close>

lemma free_lock_taken:
  assumes "lock_pcs s t = Loading again" "\<not> atomic_is_locked s"
  shows "\<exists>s1 s2. lock_step s s1 \<and> lock_step s1 s2 \<and> lock_pcs s2 t = Inside"
proof -
  let ?s1 = "goto t (Exchanging again) s"
  have "lock_step s ?s1" using assms by (rule load_clear)
  moreover have "lock_step ?s1 (goto t Inside (?s1\<lparr>atomic_is_locked := True\<rparr>))"
    by (rule exchange_clear) (use assms in \<open>simp_all add: goto_def\<close>)
  ultimately show ?thesis by (fastforce simp: goto_def)
qed

end
