(* ===== verification/Scheduler.thy ===== *)
theory Scheduler
  imports Prelude "HOL-Library.Multiset"
begin

text \<open>
  Working in parallel (\<open>src/src/core/scheduler.c\<close>, \<open>worker_work_parallelly.c\<close>, \<open>worker_add_task.c\<close>,
  \<open>worker_next_task.c\<close>, \<open>worker_offer_task.c\<close> and \<open>src/src/packages/std/counter/stats_counter.c\<close>).
  The threads of the workers and the main thread that starts them interleave in any order;
  what handling a task does to the net is left open, but for the tasks that it adds. The
  accesses are sequentially consistent here, where the code asks for relaxed ones. A queue is
  popped under its lock and pushed by its owner only, so both are single steps; a counter is
  loaded in one step and stored in another, and summing up the counters is one step for each.
  A worker adds to the counter of its own number, but subtracts from the counter of the number of
  its thread, which the main thread sets only after it has started the thread: until then it
  is zero. The state keeps a record of the tasks that were added, handled, and lost at a full
  queue, and of whether a thread has read a number that was not its own.
\<close>

section \<open>Counters\<close>

text \<open>A counter for each thread, 64 bits wide.\<close>

type_synonym stats_counter = "u64 list"

definition stats_counter_new :: "nat \<Rightarrow> stats_counter" where
  "stats_counter_new n = replicate n 0"

definition stats_counter_load :: "stats_counter \<Rightarrow> nat \<Rightarrow> u64" where
  "stats_counter_load self i = self ! i"

definition stats_counter_store :: "stats_counter \<Rightarrow> nat \<Rightarrow> u64 \<Rightarrow> stats_counter" where
  "stats_counter_store self i c = self[i := c]"

definition stats_counter_per_thread_add1 :: "stats_counter \<Rightarrow> nat \<Rightarrow> stats_counter" where
  "stats_counter_per_thread_add1 self i =
     (let c = stats_counter_load self i in stats_counter_store self i (c + 1))"

definition stats_counter_per_thread_sub1 :: "stats_counter \<Rightarrow> nat \<Rightarrow> stats_counter" where
  "stats_counter_per_thread_sub1 self i =
     (let c = stats_counter_load self i in stats_counter_store self i (c - 1))"

definition stats_counter_total :: "stats_counter \<Rightarrow> u64" where
  "stats_counter_total self = sum_list self"

definition stats_counter_total_is_zero :: "stats_counter \<Rightarrow> bool" where
  "stats_counter_total_is_zero self \<longleftrightarrow> stats_counter_total self = 0"

section \<open>The victim\<close>

text \<open>
  \<open>rnd\<close> is what successive calls of \<open>rand\<close> return. With one worker the loop does not end, and with
  none the remainder is undefined.
\<close>

partial_function (option) get_victim_id :: "nat \<Rightarrow> nat \<Rightarrow> (nat \<Rightarrow> nat) \<Rightarrow> nat \<Rightarrow> (nat \<times> nat) loop" where
  "get_victim_id self worker_count rnd i =
     (if worker_count = 0 then Some (Inl Undefined)
      else if rnd i mod worker_count \<noteq> self then Some (Inr (rnd i mod worker_count, Suc i))
      else get_victim_id self worker_count rnd (Suc i))"

declare get_victim_id.simps [code]

lemma single_worker_has_no_victim: "get_victim_id 0 1 rnd i = None"
proof (rule ccontr)
  assume "get_victim_id 0 1 rnd i \<noteq> None"
  then obtain r where run: "get_victim_id 0 1 rnd i = Some r" by blast
  define P where "P self c z j q \<longleftrightarrow> \<not> (self = 0 \<and> c = (1 :: nat))"
    for self :: nat and c and z :: "nat \<Rightarrow> nat" and j :: nat and q :: "(nat \<times> nat) res"
  have "P 0 1 rnd i r"
    by (rule get_victim_id.raw_induct [of P, OF _ run]) (auto simp: P_def split: if_splits)
  then show False by (simp add: P_def)
qed

lemma victim_found:
  assumes "1 < worker_count" "rnd (i + k) mod worker_count \<noteq> self"
  shows "\<exists>v j. get_victim_id self worker_count rnd i = Some (Inr (v, j)) \<and> v < worker_count \<and> v \<noteq> self"
  using assms(2)
proof (induction k arbitrary: i)
  case 0
  then show ?case using assms(1) by (subst get_victim_id.simps) simp
next
  case (Suc k)
  show ?case
  proof (cases "rnd i mod worker_count = self")
    case True
    then show ?thesis using Suc assms(1) by (subst get_victim_id.simps) simp
  next
    case False
    then show ?thesis using assms(1) by (subst get_victim_id.simps) simp
  qed
qed

section \<open>The workers\<close>

text \<open>
  Where the thread of a worker is in \<open>worker_thread_fn\<close>: not started yet; summing up the counters at the
  head of its loop or of the loop of \<open>worker_steal_task\<close>, with the sum of those it has read; about to take
  a task from its own queue or from a victim's; handling a task, or counting one that it has just
  put into its queue, before and after it has loaded its counter; or subtracting the task it has
  handled, with the number it has read from its thread and the count it has loaded.
\<close>

datatype 't pc =
    Not_started
  | Check nat u64
  | Take
  | Steal nat u64
  | Offer
  | Handle 't
  | Count 't
  | Count_store 't u64
  | Uncount 't nat
  | Uncount_store 't nat u64
  | Quit

text \<open>The main thread in \<open>scheduler_start\<close>: about to start a thread, or to set the number of the one it started.\<close>

datatype starting = Start nat | Number nat

record 't scheduler =
  queues :: "'t list list"
  counters :: stats_counter
  pcs :: "'t pc list"
  thread_ids :: "nat list"
  starter :: starting
  added :: "'t multiset"
  handled :: "'t multiset"
  lost :: "'t multiset"
  mistaken :: bool

definition at_pc :: "nat \<Rightarrow> 't pc \<Rightarrow> 't scheduler \<Rightarrow> 't scheduler" where
  "at_pc w pc s = s\<lparr>pcs := (pcs s)[w := pc]\<rparr>"

definition pop_queue :: "nat \<Rightarrow> 't scheduler \<Rightarrow> 't option \<times> 't scheduler" where
  "pop_queue w s =
     (case queues s ! w of
        [] \<Rightarrow> (None, s)
      | t # ts \<Rightarrow> (Some t, s\<lparr>queues := (queues s)[w := ts]\<rparr>))"

definition push_queue :: "nat \<Rightarrow> nat \<Rightarrow> 't \<Rightarrow> 't scheduler \<Rightarrow> 't scheduler" where
  "push_queue cap w t s =
     (if length (queues s ! w) = cap then s\<lparr>added := add_mset t (added s), lost := add_mset t (lost s)\<rparr>
      else s\<lparr>queues := (queues s)[w := queues s ! w @ [t]], added := add_mset t (added s)\<rparr>)"

definition store_count :: "nat \<Rightarrow> u64 \<Rightarrow> 't scheduler \<Rightarrow> 't scheduler" where
  "store_count i c s = s\<lparr>counters := stats_counter_store (counters s) i c\<rparr>"

text \<open>Adding to a counter and subtracting from it, when nothing comes in between.\<close>

definition scheduler_task_count_add1 :: "nat \<Rightarrow> 't scheduler \<Rightarrow> 't scheduler" where
  "scheduler_task_count_add1 w s = s\<lparr>counters := stats_counter_per_thread_add1 (counters s) w\<rparr>"

definition scheduler_task_count_sub1 :: "nat \<Rightarrow> 't scheduler \<Rightarrow> 't scheduler" where
  "scheduler_task_count_sub1 w s = s\<lparr>counters := stats_counter_per_thread_sub1 (counters s) w\<rparr>"

lemma task_count_in_two:
  "scheduler_task_count_add1 w s = store_count w (stats_counter_load (counters s) w + 1) s"
  "scheduler_task_count_sub1 w s = store_count w (stats_counter_load (counters s) w - 1) s"
  by (simp_all add: scheduler_task_count_add1_def scheduler_task_count_sub1_def store_count_def
      stats_counter_per_thread_add1_def stats_counter_per_thread_sub1_def)

text \<open>What a worker does when it has all of the sum, and when it has asked a queue for a task.\<close>

definition after_check :: "u64 \<Rightarrow> 't pc" where
  "after_check acc = (if acc = 0 then Quit else Take)"

definition after_steal_check :: "u64 \<Rightarrow> 't pc" where
  "after_steal_check acc = (if acc = 0 then Quit else Offer)"

definition take_from :: "nat \<Rightarrow> nat \<Rightarrow> 't scheduler \<Rightarrow> 't scheduler" where
  "take_from w v s =
     (case pop_queue v s of
        (None, s) \<Rightarrow> at_pc w (Steal 0 0) s
      | (Some t, s) \<Rightarrow> at_pc w (Handle t) s)"

inductive sched_step :: "nat \<Rightarrow> 't scheduler \<Rightarrow> 't scheduler \<Rightarrow> bool" for cap where
  start_thread: "starter s = Start w \<Longrightarrow> w < length (pcs s) \<Longrightarrow>
    sched_step cap s (at_pc w (Check 0 0) (s\<lparr>starter := Number w\<rparr>))"
| number_thread: "starter s = Number w \<Longrightarrow>
    sched_step cap s (s\<lparr>thread_ids := (thread_ids s)[w := w], starter := Start (Suc w)\<rparr>)"
| check_read: "w < length (pcs s) \<Longrightarrow> pcs s ! w = Check i acc \<Longrightarrow> i < length (counters s) \<Longrightarrow>
    sched_step cap s (at_pc w (Check (Suc i) (acc + stats_counter_load (counters s) i)) s)"
| check_done: "w < length (pcs s) \<Longrightarrow> pcs s ! w = Check i acc \<Longrightarrow> i = length (counters s) \<Longrightarrow>
    sched_step cap s (at_pc w (after_check acc) s)"
| take_own: "w < length (pcs s) \<Longrightarrow> pcs s ! w = Take \<Longrightarrow> sched_step cap s (take_from w w s)"
| steal_read: "w < length (pcs s) \<Longrightarrow> pcs s ! w = Steal i acc \<Longrightarrow> i < length (counters s) \<Longrightarrow>
    sched_step cap s (at_pc w (Steal (Suc i) (acc + stats_counter_load (counters s) i)) s)"
| steal_done: "w < length (pcs s) \<Longrightarrow> pcs s ! w = Steal i acc \<Longrightarrow> i = length (counters s) \<Longrightarrow>
    sched_step cap s (at_pc w (after_steal_check acc) s)"
| steal_task: "w < length (pcs s) \<Longrightarrow> pcs s ! w = Offer \<Longrightarrow> v < length (pcs s) \<Longrightarrow> v \<noteq> w \<Longrightarrow>
    sched_step cap s (take_from w v s)"
| add_task: "w < length (pcs s) \<Longrightarrow> pcs s ! w = Handle t \<Longrightarrow>
    sched_step cap s (at_pc w (Count t) (push_queue cap w u s))"
| count_load: "w < length (pcs s) \<Longrightarrow> pcs s ! w = Count t \<Longrightarrow>
    sched_step cap s (at_pc w (Count_store t (stats_counter_load (counters s) w)) s)"
| count_store: "w < length (pcs s) \<Longrightarrow> pcs s ! w = Count_store t c \<Longrightarrow>
    sched_step cap s (at_pc w (Handle t) (store_count w (c + 1) s))"
| read_id: "w < length (pcs s) \<Longrightarrow> pcs s ! w = Handle t \<Longrightarrow>
    sched_step cap s
      (at_pc w (Uncount t (thread_ids s ! w)) (s\<lparr>mistaken := (mistaken s \<or> thread_ids s ! w \<noteq> w)\<rparr>))"
| uncount_load: "w < length (pcs s) \<Longrightarrow> pcs s ! w = Uncount t i \<Longrightarrow>
    sched_step cap s (at_pc w (Uncount_store t i (stats_counter_load (counters s) i)) s)"
| uncount_store: "w < length (pcs s) \<Longrightarrow> pcs s ! w = Uncount_store t i c \<Longrightarrow>
    sched_step cap s (at_pc w (Check 0 0) ((store_count i (c - 1) s)\<lparr>handled := add_mset t (handled s)\<rparr>))"

section \<open>Starting\<close>

text \<open>\<open>new\<close> clears the thread objects, so that a thread has the number zero until it is set.\<close>

definition scheduler_new :: "nat \<Rightarrow> 't scheduler" where
  "scheduler_new worker_count =
     \<lparr>queues = replicate worker_count [], counters = stats_counter_new worker_count,
      pcs = replicate worker_count Not_started, thread_ids = replicate worker_count 0, starter = Start 0,
      added = {#}, handled = {#}, lost = {#}, mistaken = False\<rparr>"

text \<open>The loader's tasks are dealt out to the workers in turn; no thread runs yet.\<close>

fun scheduler_prepare :: "nat \<Rightarrow> nat \<Rightarrow> 't list \<Rightarrow> 't scheduler \<Rightarrow> 't scheduler res" where
  "scheduler_prepare cap cursor [] s = Inr s"
| "scheduler_prepare cap cursor (t # ts) s =
     defined_when (length (pcs s) \<noteq> 0)
       (let w = cursor mod length (pcs s)
        in scheduler_prepare cap (Suc cursor) ts
             (scheduler_task_count_add1 w (push_queue cap w t s)))"

inductive sched_reachable :: "nat \<Rightarrow> nat \<Rightarrow> 't list \<Rightarrow> 't scheduler \<Rightarrow> bool" for cap n ts where
  start: "scheduler_prepare cap 0 ts (scheduler_new n) = Inr s \<Longrightarrow> sched_reachable cap n ts s"
| step: "sched_reachable cap n ts s \<Longrightarrow> sched_step cap s s' \<Longrightarrow> sched_reachable cap n ts s'"

section \<open>No task is lost or handled twice\<close>

text \<open>A task is in the hands of a worker until it has been subtracted.\<close>

definition held :: "'t pc \<Rightarrow> 't multiset" where
  "held pc = (case pc of
     Handle t \<Rightarrow> {#t#} | Count t \<Rightarrow> {#t#} | Count_store t _ \<Rightarrow> {#t#}
   | Uncount t _ \<Rightarrow> {#t#} | Uncount_store t _ _ \<Rightarrow> {#t#} | _ \<Rightarrow> {#})"

definition weight :: "'t pc \<Rightarrow> u64" where
  "weight pc = (case pc of Handle t \<Rightarrow> 1 | Uncount t _ \<Rightarrow> 1 | Uncount_store t _ _ \<Rightarrow> 1 | _ \<Rightarrow> 0)"

definition queued :: "'t scheduler \<Rightarrow> 't multiset" where
  "queued s = sum_list (map mset (queues s))"

definition in_hand :: "'t scheduler \<Rightarrow> 't multiset" where
  "in_hand s = sum_list (map held (pcs s))"

text \<open>
  Every task that was added is in a queue, in the hands of one worker, handled or lost, whatever the
  threads' numbers; and the threads that the main thread has still to start have not started.
\<close>

definition not_yet :: "starting \<Rightarrow> nat \<Rightarrow> bool" where
  "not_yet st w \<longleftrightarrow> (case st of Start i \<Rightarrow> i \<le> w | Number i \<Rightarrow> i < w)"

definition sched_ok :: "'t scheduler \<Rightarrow> bool" where
  "sched_ok s \<longleftrightarrow>
     length (queues s) = length (pcs s) \<and> length (counters s) = length (pcs s) \<and>
     added s = queued s + in_hand s + handled s + lost s \<and>
     (\<forall>w < length (pcs s). not_yet (starter s) w \<longrightarrow> pcs s ! w = Not_started)"

text \<open>
  As long as no thread has read a number that is not its own, every counter is written by its own worker
  only, so that what has been loaded for it is what it still holds; and the counters sum up to
  the tasks that are not handled, but for those just put into a queue.
\<close>

definition own_count :: "'t scheduler \<Rightarrow> nat \<Rightarrow> 't pc \<Rightarrow> bool" where
  "own_count s w pc =
     (case pc of
        Count_store t c \<Rightarrow> c = counters s ! w
      | Uncount t i \<Rightarrow> i = w
      | Uncount_store t i c \<Rightarrow> i = w \<and> c = counters s ! w
      | _ \<Rightarrow> True)"

definition counts_ok :: "'t scheduler \<Rightarrow> bool" where
  "counts_ok s \<longleftrightarrow>
     (\<forall>w < length (pcs s). own_count s w (pcs s ! w)) \<and>
     sum_list (counters s) =
       of_nat (size (queued s)) + sum_list (map weight (pcs s)) + of_nat (size (lost s))"

lemma sum_list_swap:
  fixes f :: "'a \<Rightarrow> 'b :: comm_monoid_add"
  shows "w < length xs \<Longrightarrow> sum_list (map f (xs[w := x])) + f (xs ! w) = sum_list (map f xs) + f x"
proof (induction xs arbitrary: w)
  case (Cons y ys)
  then show ?case by (cases w) (simp_all add: ac_simps)
qed simp

lemma at_pc_fields [simp]:
  "queues (at_pc w pc s) = queues s" "counters (at_pc w pc s) = counters s"
  "pcs (at_pc w pc s) = (pcs s)[w := pc]" "added (at_pc w pc s) = added s"
  "handled (at_pc w pc s) = handled s" "lost (at_pc w pc s) = lost s"
  "thread_ids (at_pc w pc s) = thread_ids s" "starter (at_pc w pc s) = starter s"
  "mistaken (at_pc w pc s) = mistaken s"
  by (simp_all add: at_pc_def)

lemma store_count_fields [simp]:
  "queues (store_count i c s) = queues s" "counters (store_count i c s) = (counters s)[i := c]"
  "pcs (store_count i c s) = pcs s" "added (store_count i c s) = added s"
  "handled (store_count i c s) = handled s" "lost (store_count i c s) = lost s"
  "thread_ids (store_count i c s) = thread_ids s" "starter (store_count i c s) = starter s"
  "mistaken (store_count i c s) = mistaken s"
  by (simp_all add: store_count_def stats_counter_store_def)

lemma queued_same [simp]: "queued (at_pc w pc s) = queued s" "queued (store_count i c s) = queued s"
  by (simp_all add: queued_def)

lemma push_queue_fields [simp]:
  "counters (push_queue cap w t s) = counters s" "pcs (push_queue cap w t s) = pcs s"
  "handled (push_queue cap w t s) = handled s" "starter (push_queue cap w t s) = starter s"
  "thread_ids (push_queue cap w t s) = thread_ids s" "mistaken (push_queue cap w t s) = mistaken s"
  "added (push_queue cap w t s) = add_mset t (added s)"
  "length (queues (push_queue cap w t s)) = length (queues s)"
  by (simp_all add: push_queue_def)

lemma queued_push:
  assumes "w < length (queues s)"
  shows "queued (s\<lparr>queues := (queues s)[w := queues s ! w @ [t]]\<rparr>) = add_mset t (queued s)"
  using sum_list_swap [of w "queues s" mset "queues s ! w @ [t]"] assms by (simp add: queued_def)

text \<open>A task that is pushed is in the queue or lost.\<close>

lemma push_queue_holds:
  "w < length (queues s) \<Longrightarrow>
     queued (push_queue cap w t s) + lost (push_queue cap w t s) = add_mset t (queued s + lost s)"
  using queued_push [of w s t] by (simp add: push_queue_def queued_def)

lemma in_hand_at_pc:
  "w < length (pcs s) \<Longrightarrow> in_hand (at_pc w pc s) + held (pcs s ! w) = in_hand s + held pc"
  using sum_list_swap [of w "pcs s" held pc] by (simp add: in_hand_def)

lemma in_hand_same [simp]:
  "in_hand (push_queue cap w t s) = in_hand s" "in_hand (store_count i c s) = in_hand s"
  "in_hand (s\<lparr>queues := qs\<rparr>) = in_hand s" "in_hand (s\<lparr>starter := st\<rparr>) = in_hand s"
  "in_hand (s\<lparr>thread_ids := is\<rparr>) = in_hand s" "in_hand (s\<lparr>mistaken := b\<rparr>) = in_hand s"
  "in_hand (s\<lparr>handled := done_tasks\<rparr>) = in_hand s"
  by (simp_all add: in_hand_def)

lemma own_count_same: "counters s' = counters s \<Longrightarrow> own_count s' = own_count s"
  by (intro ext) (simp add: own_count_def cong: pc.case_cong)

lemma own_count_at_pc [simp]: "own_count (at_pc w pc s) = own_count s"
  by (rule own_count_same) simp

text \<open>Moving on without taking or giving a task.\<close>

lemma sched_ok_move:
  assumes "sched_ok s" "w < length (pcs s)" "held pc = held (pcs s ! w)" "pcs s ! w \<noteq> Not_started"
  shows "sched_ok (at_pc w pc s)"
  using assms in_hand_at_pc [OF assms(2), of pc]
  by (auto simp: sched_ok_def nth_list_update)

lemma counts_ok_move:
  assumes "counts_ok s" "w < length (pcs s)" "weight pc = weight (pcs s ! w)" "own_count s w pc"
  shows "counts_ok (at_pc w pc s)"
  using assms sum_list_swap [OF assms(2), of weight pc]
  by (simp add: counts_ok_def nth_list_update)

lemma take_from_nil: "queues s ! v = [] \<Longrightarrow> take_from w v s = at_pc w (Steal 0 0) s"
  by (simp add: take_from_def pop_queue_def)

lemma take_from_cons:
  "queues s ! v = t # ts \<Longrightarrow> take_from w v s = at_pc w (Handle t) (s\<lparr>queues := (queues s)[v := ts]\<rparr>)"
  by (simp add: take_from_def pop_queue_def)

lemma queued_pop:
  assumes "v < length (queues s)" "queues s ! v = t # ts"
  shows "add_mset t (queued (s\<lparr>queues := (queues s)[v := ts]\<rparr>)) = queued s"
  using sum_list_swap [OF assms(1), of mset ts] assms(2) by (simp add: queued_def)

lemma sched_ok_take:
  assumes ok: "sched_ok s" and w: "w < length (pcs s)" "held (pcs s ! w) = {#}" "pcs s ! w \<noteq> Not_started"
    and v: "v < length (pcs s)"
  shows "sched_ok (take_from w v s)"
proof (cases "queues s ! v")
  case Nil
  then show ?thesis
    using sched_ok_move [OF ok w(1), of "Steal 0 0"] w by (simp add: take_from_nil held_def)
next
  case (Cons t ts)
  let ?s = "s\<lparr>queues := (queues s)[v := ts]\<rparr>"
  have "add_mset t (queued ?s) = queued s"
    using queued_pop [OF _ Cons] ok v by (simp add: sched_ok_def)
  moreover have "in_hand (at_pc w (Handle t) ?s) = add_mset t (in_hand s)"
    using in_hand_at_pc [of w ?s "Handle t"] w by (simp add: held_def)
  ultimately show ?thesis
    using ok w unfolding take_from_cons [where w = w, OF Cons]
    by (auto simp: sched_ok_def nth_list_update)
qed

lemma counts_ok_take:
  assumes cts: "counts_ok s" and w: "w < length (pcs s)" "weight (pcs s ! w) = 0"
    and v: "v < length (queues s)"
  shows "counts_ok (take_from w v s)"
proof (cases "queues s ! v")
  case Nil
  then show ?thesis
    using counts_ok_move [OF cts w(1), of "Steal 0 0"] w by (simp add: take_from_nil weight_def own_count_def)
next
  case (Cons t ts)
  let ?s = "s\<lparr>queues := (queues s)[v := ts]\<rparr>"
  have own: "own_count ?s = own_count s" by (rule own_count_same) simp
  have "size (queued s) = Suc (size (queued ?s))"
    using queued_pop [OF v Cons] by (metis size_add_mset)
  moreover have "sum_list (map weight ((pcs s)[w := Handle t])) = sum_list (map weight (pcs s)) + 1"
    using sum_list_swap [OF w(1), of weight "Handle t"] w(2) by (simp add: weight_def)
  ultimately show ?thesis
    using cts w unfolding take_from_cons [where w = w, OF Cons] counts_ok_def
    by (auto simp: own nth_list_update own_count_def [of _ _ "Handle _"])
qed

lemma sched_ok_push:
  assumes ok: "sched_ok s" and w: "w < length (pcs s)" "pcs s ! w = Handle t"
  shows "sched_ok (at_pc w (Count t) (push_queue cap w u s))"
proof -
  have "in_hand (at_pc w (Count t) (push_queue cap w u s)) = in_hand s"
    using in_hand_at_pc [of w "push_queue cap w u s" "Count t"] w by (simp add: held_def)
  moreover have "queued (push_queue cap w u s) + lost (push_queue cap w u s) = add_mset u (queued s + lost s)"
    by (rule push_queue_holds) (use ok w(1) in \<open>simp add: sched_ok_def\<close>)
  ultimately show ?thesis
    using ok w by (auto simp: sched_ok_def nth_list_update union_assoc union_commute union_lcomm)
qed

lemma counts_ok_push:
  assumes cts: "counts_ok s" and w: "w < length (pcs s)" "w < length (queues s)" "pcs s ! w = Handle t"
  shows "counts_ok (at_pc w (Count t) (push_queue cap w u s))"
proof -
  let ?p = "push_queue cap w u s"
  have own: "own_count ?p = own_count s" by (rule own_count_same) simp
  have wt: "sum_list (map weight ((pcs s)[w := Count t])) + 1 = sum_list (map weight (pcs s))"
    using sum_list_swap [OF w(1), of weight "Count t"] w(3) by (simp add: weight_def)
  have "size (queued ?p) + size (lost ?p) = Suc (size (queued s) + size (lost s))"
    using arg_cong [OF push_queue_holds [OF w(2)], of size] by simp
  then have sz: "(of_nat (size (queued ?p)) + of_nat (size (lost ?p)) :: u64)
      = 1 + (of_nat (size (queued s)) + of_nat (size (lost s)))"
    by (metis of_nat_Suc of_nat_add)
  have "sum_list (counters s) = (1 + (of_nat (size (queued s)) + of_nat (size (lost s)))) +
      sum_list (map weight ((pcs s)[w := Count t]))"
    using cts by (simp add: counts_ok_def add_ac flip: wt)
  also have "\<dots> = of_nat (size (queued ?p)) + sum_list (map weight ((pcs s)[w := Count t])) + of_nat (size (lost ?p))"
    by (simp add: add_ac flip: sz)
  finally show ?thesis
    using cts w(1) by (simp add: counts_ok_def own nth_list_update own_count_def [of _ _ "Count _"])
qed

lemma sum_list_stored:
  fixes c :: u64
  shows "w < length xs \<Longrightarrow> sum_list (xs[w := c]) = sum_list xs - xs ! w + c"
  using sum_list_swap [of w xs "\<lambda>x. x" c] by (simp add: algebra_simps)

text \<open>A worker stores what it makes of its own count, and the others have not loaded that one.\<close>

lemma counts_ok_store:
  assumes cts: "counts_ok s" and w: "w < length (pcs s)" "w < length (counters s)"
    and pc: "weight pc - weight (pcs s ! w) = d" "\<And>s. own_count s w pc" and c: "c = counters s ! w + d"
  shows "counts_ok (at_pc w pc (store_count w c s))"
proof -
  let ?s = "at_pc w pc (store_count w c s)"
  have "own_count ?s v (pcs ?s ! v)" if "v < length (pcs ?s)" for v
    using that pc(2) cts by (cases "v = w") (auto simp: counts_ok_def own_count_def split: pc.splits)
  moreover have "sum_list (map weight ((pcs s)[w := pc])) = sum_list (map weight (pcs s)) + d"
    using sum_list_swap [OF w(1), of weight pc] pc(1) by (simp add: algebra_simps)
  ultimately show ?thesis
    using cts sum_list_stored [OF w(2), of c] c by (simp add: counts_ok_def)
qed

lemma not_yet_next:
  "not_yet (Number w) v \<longleftrightarrow> w < v" "not_yet (Start w) v \<longleftrightarrow> w \<le> v"
  by (simp_all add: not_yet_def)

lemma sched_step_ok: "sched_step cap s s' \<Longrightarrow> sched_ok s \<Longrightarrow> sched_ok s'"
proof (induction rule: sched_step.induct)
  case (start_thread s w)
  have same: "queued (s\<lparr>starter := Number w\<rparr>) = queued s"
    by (simp add: queued_def)
  have "pcs s ! w = Not_started"
    using start_thread by (simp add: sched_ok_def not_yet_next)
  then have "in_hand (at_pc w (Check 0 0) (s\<lparr>starter := Number w\<rparr>)) = in_hand s"
    using in_hand_at_pc [of w "s\<lparr>starter := Number w\<rparr>" "Check 0 0"] start_thread(2) same by (simp add: held_def)
  then show ?case
    using start_thread same by (auto simp: sched_ok_def not_yet_next)
next
  case (number_thread s w)
  then show ?case by (auto simp: sched_ok_def not_yet_next queued_def)
next
  case (take_own w s)
  then show ?case by (intro sched_ok_take) (simp_all add: held_def)
next
  case (steal_task w s v)
  then show ?case by (intro sched_ok_take) (simp_all add: held_def)
next
  case (add_task w s t u)
  then show ?case by (intro sched_ok_push)
next
  case (count_store w s t c)
  then have "sched_ok (at_pc w (Handle t) s)"
    by (intro sched_ok_move) (simp_all add: held_def)
  then show ?case by (simp add: sched_ok_def in_hand_def)
next
  case (read_id w s t)
  then have "sched_ok (at_pc w (Uncount t (thread_ids s ! w)) s)"
    by (intro sched_ok_move) (simp_all add: held_def)
  then show ?case by (simp add: sched_ok_def in_hand_def queued_def)
next
  case (uncount_store w s t i c)
  have "add_mset t (sum_list (map held ((pcs s)[w := Check 0 0]))) = in_hand s"
    using in_hand_at_pc [of w s "Check 0 0"] uncount_store by (simp add: held_def in_hand_def)
  then show ?case
    using uncount_store by (auto simp: sched_ok_def nth_list_update in_hand_def queued_def)
qed (simp_all add: sched_ok_move held_def after_check_def after_steal_check_def)

lemma mistaken_step: "sched_step cap s s' \<Longrightarrow> mistaken s \<Longrightarrow> mistaken s'"
  by (induction rule: sched_step.induct)
    (auto simp: take_from_def pop_queue_def split: list.splits)

lemma sched_step_counts:
  "sched_step cap s s' \<Longrightarrow> sched_ok s \<Longrightarrow> counts_ok s \<Longrightarrow> \<not> mistaken s' \<Longrightarrow> counts_ok s'"
proof (induction rule: sched_step.induct)
  case (start_thread s w)
  then have "counts_ok (at_pc w (Check 0 0) s)"
    by (intro counts_ok_move) (simp_all add: sched_ok_def not_yet_next weight_def own_count_def)
  then show ?case by (simp add: counts_ok_def own_count_def queued_def cong: pc.case_cong)
next
  case (number_thread s w)
  then show ?case by (simp add: counts_ok_def own_count_def queued_def cong: pc.case_cong)
next
  case (take_own w s)
  then show ?case by (intro counts_ok_take) (simp_all add: weight_def sched_ok_def)
next
  case (steal_task w s v)
  then show ?case by (intro counts_ok_take) (simp_all add: weight_def sched_ok_def)
next
  case (add_task w s t u)
  then show ?case by (intro counts_ok_push) (simp_all add: sched_ok_def)
next
  case (count_store w s t c)
  then have "own_count s w (Count_store t c)" by (auto simp: counts_ok_def)
  with count_store show ?case
    by (intro counts_ok_store) (simp_all add: sched_ok_def weight_def own_count_def)
next
  case (read_id w s t)
  then have "counts_ok (at_pc w (Uncount t (thread_ids s ! w)) s)"
    by (intro counts_ok_move) (simp_all add: weight_def own_count_def)
  then show ?case by (simp add: counts_ok_def own_count_def queued_def cong: pc.case_cong)
next
  case (uncount_load w s t i)
  then have "own_count s w (Uncount t i)" by (auto simp: counts_ok_def)
  with uncount_load show ?case
    by (intro counts_ok_move) (simp_all add: weight_def own_count_def stats_counter_load_def)
next
  case (uncount_store w s t i c)
  then have "own_count s w (Uncount_store t i c)" by (auto simp: counts_ok_def)
  then have i: "i = w" "c = counters s ! w" by (simp_all add: own_count_def)
  have "counts_ok (at_pc w (Check 0 0) (store_count w (c - 1) s))"
    using uncount_store i
    by (intro counts_ok_store [where d = "- 1"]) (simp_all add: sched_ok_def weight_def own_count_def)
  then show ?case by (simp add: i counts_ok_def own_count_def queued_def cong: pc.case_cong)
qed (auto simp: counts_ok_move weight_def own_count_def after_check_def after_steal_check_def stats_counter_load_def)

section \<open>The workers do not stop early\<close>

text \<open>
  A sum that was read while the counters change can be zero though tasks are left, so that a
  worker may quit too early. But one of the workers has a task, is about to take one, has not started
  yet, or is summing up and has read what the counters still are: the one that finished a task last.
\<close>

definition reads_current :: "'t scheduler \<Rightarrow> nat \<Rightarrow> u64 \<Rightarrow> bool" where
  "reads_current s i acc \<longleftrightarrow> i \<le> length (counters s) \<and> acc = sum_list (take i (counters s))"

definition keeps_going :: "'t scheduler \<Rightarrow> 't pc \<Rightarrow> bool" where
  "keeps_going s pc =
     (case pc of
        Check i acc \<Rightarrow> reads_current s i acc
      | Steal i acc \<Rightarrow> reads_current s i acc
      | Quit \<Rightarrow> False
      | _ \<Rightarrow> True)"

definition unfinished :: "'t scheduler \<Rightarrow> bool" where
  "unfinished s \<longleftrightarrow> queued s + in_hand s + lost s \<noteq> {#}"

definition attended :: "'t scheduler \<Rightarrow> bool" where
  "attended s \<longleftrightarrow> (unfinished s \<longrightarrow> (\<exists>w < length (pcs s). keeps_going s (pcs s ! w)))"

lemma reads_next:
  "reads_current s i acc \<Longrightarrow> i < length (counters s) \<Longrightarrow> reads_current s (Suc i) (acc + counters s ! i)"
  by (simp add: reads_current_def take_Suc_conv_app_nth)

lemma reads_zero [simp]: "reads_current s 0 0"
  by (simp add: reads_current_def)

lemma keeps_going_same: "counters s' = counters s \<Longrightarrow> keeps_going s' pc = keeps_going s pc"
  by (simp add: keeps_going_def reads_current_def cong: pc.case_cong)

lemma keeps_going_at_pc [simp]: "keeps_going (at_pc w pc' s) pc = keeps_going s pc"
  by (rule keeps_going_same) simp

lemma attended_by: "w < length (pcs s) \<Longrightarrow> keeps_going s (pcs s ! w) \<Longrightarrow> attended s"
  by (auto simp: attended_def)

text \<open>A worker goes on reading, and another that keeps going does so still.\<close>

lemma attended_move:
  assumes att: "attended s" and w: "w < length (pcs s)"
    and same: "unfinished (at_pc w pc s) = unfinished s"
    and keep: "unfinished s \<Longrightarrow> keeps_going s (pcs s ! w) \<Longrightarrow>
      keeps_going s pc \<or> (\<exists>v < length (pcs s). v \<noteq> w \<and> keeps_going s (pcs s ! v))"
  shows "attended (at_pc w pc s)"
  unfolding attended_def
proof
  assume "unfinished (at_pc w pc s)"
  then have u: "unfinished s" using same by simp
  then obtain v where v: "v < length (pcs s)" "keeps_going s (pcs s ! v)"
    using att by (auto simp: attended_def)
  have "keeps_going s pc \<or> (\<exists>v < length (pcs s). v \<noteq> w \<and> keeps_going s (pcs s ! v))"
    using keep [OF u] v by (cases "v = w") auto
  then show "\<exists>v < length (pcs (at_pc w pc s)). keeps_going (at_pc w pc s) (pcs (at_pc w pc s) ! v)"
  proof (elim disjE exE conjE)
    assume "keeps_going s pc"
    with w show ?thesis by (intro exI [of _ w]) simp
  next
    fix x assume "x < length (pcs s)" "x \<noteq> w" "keeps_going s (pcs s ! x)"
    then show ?thesis by (intro exI [of _ x]) simp
  qed
qed

lemma unfinished_move:
  "w < length (pcs s) \<Longrightarrow> held pc = held (pcs s ! w) \<Longrightarrow> unfinished (at_pc w pc s) = unfinished s"
  using in_hand_at_pc [of w s pc] by (simp add: unfinished_def)

lemma held_keeps_going: "held pc \<noteq> {#} \<Longrightarrow> keeps_going s pc"
  by (cases pc) (simp_all add: held_def keeps_going_def)

lemma in_hand_none: "in_hand s = {#} \<longleftrightarrow> (\<forall>pc \<in> set (pcs s). held pc = {#})"
proof -
  have "sum_list (map held ps) = {#} \<longleftrightarrow> (\<forall>pc \<in> set ps. held pc = {#})" for ps :: "'a pc list"
    by (induction ps) simp_all
  then show ?thesis by (simp add: in_hand_def)
qed

lemma in_hand_someone:
  assumes "in_hand s \<noteq> {#}"
  shows "\<exists>w < length (pcs s). held (pcs s ! w) \<noteq> {#}"
proof (rule ccontr)
  assume "\<not> ?thesis"
  then have "\<forall>pc \<in> set (pcs s). held pc = {#}" by (metis in_set_conv_nth)
  then have "in_hand s = {#}" by (simp add: in_hand_none)
  with assms show False by simp
qed

text \<open>When nothing is in hand, the sum of the counters is zero only when nothing is left.\<close>

lemma zero_means_done:
  assumes ok: "sched_ok s" and cts: "counts_ok s" and few: "size (added s) < 2 ^ 64" and none: "in_hand s = {#}"
    and zero: "sum_list (counters s) = 0"
  shows "\<not> unfinished s"
proof -
  have "\<forall>pc \<in> set (pcs s). held pc = {#}"
    using none by (simp add: in_hand_none)
  then have "\<forall>pc \<in> set (pcs s). weight pc = 0"
    by (auto simp: held_def weight_def split: pc.splits)
  then have "sum_list (map weight (pcs s)) = sum_list (map (\<lambda>_. 0) (pcs s))"
    by (metis map_cong)
  then have "sum_list (map weight (pcs s)) = 0" by simp
  then have "(of_nat (size (queued s) + size (lost s)) :: u64) = 0"
    using cts zero by (simp add: counts_ok_def)
  moreover have "size (queued s) + size (lost s) < 2 ^ 64"
    using ok few by (simp add: sched_ok_def)
  ultimately have "size (queued s) + size (lost s) = 0"
    using of_nat_inverse [of "size (queued s) + size (lost s)" "0 :: u64"] by simp
  then show ?thesis using none by (simp add: unfinished_def)
qed

lemma take_from_keeps_going:
  assumes "w < length (pcs s)"
  shows "attended (take_from w v s)"
  using assms
  by (cases "queues s ! v")
    (auto simp: take_from_def pop_queue_def keeps_going_def intro!: attended_by [of w])

text \<open>A worker that has read zero may stop, because another goes on or nothing is left.\<close>

lemma zero_read_attended:
  assumes ok: "sched_ok s" "counts_ok s" and few: "size (added s) < 2 ^ 64" and w: "w < length (pcs s)"
    and empty: "held (pcs s ! w) = {#}" and u: "unfinished s"
    and reads: "reads_current s (length (counters s)) acc" and zero: "acc = 0"
  shows "\<exists>v < length (pcs s). v \<noteq> w \<and> keeps_going s (pcs s ! v)"
proof -
  have "in_hand s \<noteq> {#}"
    using zero_means_done [OF ok few] u reads zero by (auto simp: reads_current_def)
  then obtain v where "v < length (pcs s)" "held (pcs s ! v) \<noteq> {#}"
    using in_hand_someone by blast
  with empty show ?thesis by (metis held_keeps_going)
qed

lemma sched_step_attended:
  "sched_step cap s s' \<Longrightarrow> sched_ok s \<Longrightarrow> counts_ok s \<Longrightarrow> size (added s) < 2 ^ 64 \<Longrightarrow> attended s \<Longrightarrow>
     attended s'"
proof (induction rule: sched_step.induct)
  case (start_thread s w)
  then show ?case by (auto simp: keeps_going_def intro!: attended_by [of w])
next
  case (number_thread s w)
  then show ?case
    by (simp add: attended_def unfinished_def queued_def keeps_going_def reads_current_def cong: pc.case_cong)
next
  case (check_read w s i acc)
  then show ?case
    by (intro attended_move unfinished_move)
      (auto simp: held_def keeps_going_def [of _ "Check _ _"] simp: stats_counter_load_def intro: reads_next)
next
  case (check_done w s i acc)
  show ?case
  proof (rule attended_move)
    assume "unfinished s" "keeps_going s (pcs s ! w)"
    then show "keeps_going s (after_check acc) \<or> (\<exists>v < length (pcs s). v \<noteq> w \<and> keeps_going s (pcs s ! v))"
      using check_done zero_read_attended [of s w acc]
      by (cases "acc = 0") (auto simp: keeps_going_def [of s "Check _ _"] keeps_going_def [of s Take]
          after_check_def held_def)
  qed (use check_done in \<open>auto simp: held_def after_check_def intro!: unfinished_move\<close>)
next
  case (take_own w s)
  then show ?case by (simp add: take_from_keeps_going)
next
  case (steal_read w s i acc)
  then show ?case
    by (intro attended_move unfinished_move)
      (auto simp: held_def keeps_going_def [of _ "Steal _ _"] simp: stats_counter_load_def intro: reads_next)
next
  case (steal_done w s i acc)
  show ?case
  proof (rule attended_move)
    assume "unfinished s" "keeps_going s (pcs s ! w)"
    then show "keeps_going s (after_steal_check acc) \<or> (\<exists>v < length (pcs s). v \<noteq> w \<and> keeps_going s (pcs s ! v))"
      using steal_done zero_read_attended [of s w acc]
      by (cases "acc = 0") (auto simp: keeps_going_def [of s "Steal _ _"] keeps_going_def [of s Offer]
          after_steal_check_def held_def)
  qed (use steal_done in \<open>auto simp: held_def after_steal_check_def intro!: unfinished_move\<close>)
next
  case (steal_task w s v)
  then show ?case by (simp add: take_from_keeps_going)
next
  case (add_task w s t u)
  then show ?case by (auto simp: push_queue_def keeps_going_def intro!: attended_by [of w])
next
  case (count_load w s t)
  then show ?case by (auto simp: keeps_going_def intro!: attended_by [of w])
next
  case (count_store w s t c)
  then show ?case by (auto simp: keeps_going_def intro!: attended_by [of w])
next
  case (read_id w s t)
  then show ?case by (auto simp: keeps_going_def intro!: attended_by [of w])
next
  case (uncount_load w s t i)
  then show ?case by (auto simp: keeps_going_def intro!: attended_by [of w])
next
  case (uncount_store w s t i c)
  then show ?case by (auto simp: keeps_going_def intro!: attended_by [of w])
qed

lemma sched_step_added: "sched_step cap s s' \<Longrightarrow> size (added s) \<le> size (added s')"
  by (induction rule: sched_step.induct)
    (auto simp: take_from_def pop_queue_def push_queue_def split: list.splits)

section \<open>Every run\<close>

lemma sum_list_none: "sum_list (replicate n (0 :: 'a :: comm_monoid_add)) = 0"
  by (induction n) simp_all

lemma scheduler_new_ok: "sched_ok (scheduler_new n)" "counts_ok (scheduler_new n)" "\<not> mistaken (scheduler_new n)"
  by (simp_all add: sched_ok_def counts_ok_def scheduler_new_def stats_counter_new_def queued_def in_hand_def
      held_def weight_def own_count_def sum_list_none)

lemma task_count_add1_fields [simp]:
  "queues (scheduler_task_count_add1 w s) = queues s" "pcs (scheduler_task_count_add1 w s) = pcs s"
  "added (scheduler_task_count_add1 w s) = added s" "lost (scheduler_task_count_add1 w s) = lost s"
  "handled (scheduler_task_count_add1 w s) = handled s" "starter (scheduler_task_count_add1 w s) = starter s"
  "thread_ids (scheduler_task_count_add1 w s) = thread_ids s" "mistaken (scheduler_task_count_add1 w s) = mistaken s"
  "counters (scheduler_task_count_add1 w s) = (counters s)[w := counters s ! w + 1]"
  by (simp_all add: task_count_in_two stats_counter_load_def)

lemma deal_ok:
  assumes ok: "sched_ok s" and w: "w < length (pcs s)"
  shows "sched_ok (scheduler_task_count_add1 w (push_queue cap w t s))"
proof -
  let ?p = "push_queue cap w t s"
  have "queued ?p + lost ?p = add_mset t (queued s + lost s)"
    by (rule push_queue_holds) (use ok w in \<open>simp add: sched_ok_def\<close>)
  then show ?thesis
    using ok by (auto simp: sched_ok_def task_count_in_two union_assoc union_commute union_lcomm)
qed

text \<open>No thread runs yet, so that no counter has been loaded.\<close>

lemma deal_counts:
  assumes ok: "sched_ok s" and cts: "counts_ok s" and w: "w < length (pcs s)"
    and idle: "\<forall>pc \<in> set (pcs s). pc = Not_started"
  shows "counts_ok (scheduler_task_count_add1 w (push_queue cap w t s))"
proof -
  let ?p = "push_queue cap w t s"
  have len: "w < length (queues s)" "w < length (counters s)" using ok w by (simp_all add: sched_ok_def)
  have "size (queued ?p) + size (lost ?p) = Suc (size (queued s) + size (lost s))"
    using arg_cong [OF push_queue_holds [OF len(1)], of size] by simp
  then have sz: "(of_nat (size (queued ?p)) + of_nat (size (lost ?p)) :: u64)
      = 1 + (of_nat (size (queued s)) + of_nat (size (lost s)))"
    by (metis of_nat_Suc of_nat_add)
  have "sum_list (counters s) + 1 =
      (1 + (of_nat (size (queued s)) + of_nat (size (lost s)))) + sum_list (map weight (pcs s))"
    using cts by (simp add: counts_ok_def add_ac)
  also have "\<dots> = of_nat (size (queued ?p)) + sum_list (map weight (pcs s)) + of_nat (size (lost ?p))"
    by (simp add: add_ac flip: sz)
  finally have "sum_list ((counters s)[w := counters s ! w + 1]) =
      of_nat (size (queued ?p)) + sum_list (map weight (pcs s)) + of_nat (size (lost ?p))"
    using sum_list_stored [OF len(2), of "counters s ! w + 1"] by (simp add: add_ac)
  moreover have "own_count s' v (pcs s ! v)" if "v < length (pcs s)" for s' :: "'a scheduler" and v
    using idle nth_mem [OF that] by (auto simp: own_count_def)
  moreover have "queued (scheduler_task_count_add1 w ?p) = queued ?p"
    by (simp add: task_count_in_two)
  ultimately show ?thesis by (simp add: counts_ok_def)
qed

lemma prepared_ok:
  "scheduler_prepare cap cursor ts s = Inr s' \<Longrightarrow> sched_ok s \<Longrightarrow>
    sched_ok s' \<and> pcs s' = pcs s \<and> mistaken s' = mistaken s"
proof (induction cap cursor ts s rule: scheduler_prepare.induct)
  case (2 cap cursor t ts s)
  then show ?case
    by (auto simp: defined_when_def Let_def deal_ok split: if_splits)
qed simp

lemma prepared_counts:
  "scheduler_prepare cap cursor ts s = Inr s' \<Longrightarrow> sched_ok s \<Longrightarrow> counts_ok s \<Longrightarrow>
    \<forall>pc \<in> set (pcs s). pc = Not_started \<Longrightarrow> counts_ok s'"
proof (induction cap cursor ts s rule: scheduler_prepare.induct)
  case (2 cap cursor t ts s)
  then show ?case
    by (auto simp: defined_when_def Let_def deal_ok deal_counts split: if_splits)
qed simp

lemma prepared_attended:
  assumes run: "scheduler_prepare cap 0 ts (scheduler_new n) = Inr s"
  shows "attended s"
proof -
  have pcs: "pcs s = replicate n Not_started"
    using prepared_ok [OF run scheduler_new_ok(1)] by (simp add: scheduler_new_def)
  show ?thesis
  proof (cases n)
    case 0
    then have "ts = []" using run by (cases ts) (simp_all add: scheduler_new_def defined_when_def)
    then show ?thesis using run 0
      by (auto simp: attended_def unfinished_def scheduler_new_def queued_def in_hand_def)
  next
    case (Suc k)
    then show ?thesis using pcs by (intro attended_by [of 0]) (simp_all add: keeps_going_def)
  qed
qed

lemma reachable_ok: "sched_reachable cap n ts s \<Longrightarrow> sched_ok s"
  by (induction rule: sched_reachable.induct) (auto intro: sched_step_ok simp: prepared_ok scheduler_new_ok)

lemma reachable_counts: "sched_reachable cap n ts s \<Longrightarrow> \<not> mistaken s \<Longrightarrow> counts_ok s"
proof (induction rule: sched_reachable.induct)
  case (start s)
  then show ?case
    using prepared_counts [OF _ scheduler_new_ok(1,2)] by (simp add: scheduler_new_def)
next
  case (step s s')
  then show ?case by (blast intro: sched_step_counts reachable_ok mistaken_step)
qed

lemma reachable_attended:
  "sched_reachable cap n ts s \<Longrightarrow> size (added s) < 2 ^ 64 \<Longrightarrow> \<not> mistaken s \<Longrightarrow> attended s"
proof (induction rule: sched_reachable.induct)
  case (start s)
  then show ?case by (simp add: prepared_attended)
next
  case (step s s')
  then have "size (added s) < 2 ^ 64" "\<not> mistaken s"
    using sched_step_added mistaken_step by force+
  with step show ?case by (blast intro: sched_step_attended reachable_ok reachable_counts)
qed

text \<open>
  When every worker has stopped, every task has been handled once, is still queued, or was lost; and
  the latter two only when a thread has taken another's number.
\<close>

lemma stopped_means_done:
  assumes run: "sched_reachable cap n ts s" and quit: "\<forall>pc \<in> set (pcs s). pc = Quit"
  shows "added s = handled s + queued s + lost s \<and>
    (size (added s) < 2 ^ 64 \<and> \<not> mistaken s \<longrightarrow> queued s = {#} \<and> lost s = {#})"
proof -
  have "in_hand s = {#}"
    using quit by (auto simp: in_hand_none held_def)
  moreover have "\<not> unfinished s" if few: "size (added s) < 2 ^ 64" "\<not> mistaken s"
  proof -
    have "\<not> keeps_going s (pcs s ! w)" if "w < length (pcs s)" for w
    proof -
      have "pcs s ! w = Quit" using quit nth_mem [OF that] by blast
      then show ?thesis by (simp add: keeps_going_def)
    qed
    then show ?thesis
      using reachable_attended [OF run few] by (auto simp: attended_def)
  qed
  ultimately show ?thesis
    using reachable_ok [OF run] by (auto simp: sched_ok_def unfinished_def union_commute)
qed

text \<open>What is lost stays lost, and its count is never taken back.\<close>

lemma lost_step: "sched_step cap s s' \<Longrightarrow> lost s \<subseteq># lost s'"
  by (induction rule: sched_step.induct)
    (auto simp: take_from_def pop_queue_def push_queue_def split: list.splits)

lemma steps_keep:
  assumes "(sched_step cap)\<^sup>*\<^sup>* s s'" and "sched_reachable cap n ts s"
  shows "sched_reachable cap n ts s' \<and> lost s \<subseteq># lost s'"
  using assms(1)
proof (induction rule: rtranclp_induct)
  case base
  then show ?case using assms(2) by simp
next
  case (step t u)
  then show ?case by (blast intro: sched_reachable.step subset_mset.trans lost_step)
qed

lemma lost_task_keeps_workers:
  assumes run: "sched_reachable cap n ts s" and lost: "lost s \<noteq> {#}"
    and on: "(sched_step cap)\<^sup>*\<^sup>* s s'" and few: "size (added s') < 2 ^ 64" and own: "\<not> mistaken s'"
  shows "\<exists>pc \<in> set (pcs s'). pc \<noteq> Quit"
proof (rule ccontr)
  assume "\<not> ?thesis"
  then have "lost s' = {#}"
    using stopped_means_done [of cap n ts s'] steps_keep [OF on run] few own by blast
  with steps_keep [OF on run] lost show False by simp
qed

text \<open>When the main thread has set all the numbers before a task is finished, no thread takes another's.\<close>

lemma own_number_kept: "v < length is \<Longrightarrow> is ! v = v \<Longrightarrow> is[w := w] ! v = v"
  by (cases "v = w") simp_all

lemma numbered_step:
  assumes "sched_step cap s s'" and "\<forall>w < length (pcs s). thread_ids s ! w = w"
    and "length (thread_ids s) = length (pcs s)"
  shows "(\<forall>w < length (pcs s'). thread_ids s' ! w = w) \<and> length (thread_ids s') = length (pcs s') \<and>
    mistaken s' = mistaken s"
  using assms
  by (induction rule: sched_step.induct)
    (auto simp: take_from_def pop_queue_def own_number_kept split: list.splits)

lemma numbered_in_time:
  assumes "(sched_step cap)\<^sup>*\<^sup>* s s'" and "\<forall>w < length (pcs s). thread_ids s ! w = w"
    and "length (thread_ids s) = length (pcs s)"
  shows "mistaken s' = mistaken s"
proof -
  have "(\<forall>w < length (pcs s'). thread_ids s' ! w = w) \<and> length (thread_ids s') = length (pcs s') \<and>
      mistaken s' = mistaken s"
    using assms(1)
  proof (induction rule: rtranclp_induct)
    case base
    then show ?case using assms(2,3) by simp
  next
    case (step t u)
    then show ?case using numbered_step [OF step.hyps(2)] by simp
  qed
  then show ?thesis by simp
qed

end
