(* ===== verification/Thread_Numbers.thy ===== *)
theory Thread_Numbers
  imports Scheduler
begin

text \<open>
  What comes of the order in which \<open>thread_pool_start\<close> (\<open>src/src/packages/std/thread/thread_pool.c\<close>) starts a
  thread and gives it its number: a thread that finishes a task in between subtracts it from the counter of
  the worker 0, while that worker may be adding to it. The addition is lost, the sum of the counters comes
  down to zero too early, and all the workers stop though a task is left.
\<close>

section \<open>Steps on the way\<close>

lemma and_then: "(sched_step cap)\<^sup>*\<^sup>* s t \<Longrightarrow> sched_step cap t u \<Longrightarrow> (sched_step cap)\<^sup>*\<^sup>* s u"
  by (rule rtranclp.rtrancl_into_rtrancl)

text \<open>A worker that sums up the counters while nobody else acts gets their sum.\<close>

lemma check_reads:
  assumes "w < length (pcs s)" and "pcs s ! w = Check 0 0" and "i \<le> length (counters s)"
  shows "(sched_step cap)\<^sup>*\<^sup>* s (at_pc w (Check i (sum_list (take i (counters s)))) s)"
  using assms(3)
proof (induction i)
  case 0
  have "at_pc w (Check 0 0) s = s"
    using list_update_id [of "pcs s" w] assms(2) by (simp add: at_pc_def)
  then show ?case by simp
next
  case (Suc i)
  let ?s = "at_pc w (Check i (sum_list (take i (counters s)))) s"
  have "sched_step cap ?s (at_pc w (Check (Suc i) (sum_list (take i (counters s)) +
      stats_counter_load (counters ?s) i)) ?s)"
    using assms(1) Suc.prems by (intro sched_step.check_read) simp_all
  then have "sched_step cap ?s (at_pc w (Check (Suc i) (sum_list (take (Suc i) (counters s)))) s)"
    using Suc.prems by (simp add: at_pc_def stats_counter_load_def take_Suc_conv_app_nth)
  with Suc show ?case by (simp add: and_then)
qed

lemma check_all:
  assumes "w < length (pcs s)" and "pcs s ! w = Check 0 0"
  shows "(sched_step cap)\<^sup>*\<^sup>* s (at_pc w (after_check (sum_list (counters s))) s)"
proof -
  let ?s = "at_pc w (Check (length (counters s)) (sum_list (counters s))) s"
  have "sched_step cap ?s (at_pc w (after_check (sum_list (counters s))) ?s)"
    using assms(1) by (intro sched_step.check_done [where i = "length (counters s)"]) simp_all
  then have "sched_step cap ?s (at_pc w (after_check (sum_list (counters s))) s)"
    by (simp add: at_pc_def)
  moreover have "(sched_step cap)\<^sup>*\<^sup>* s ?s"
    using check_reads [OF assms, of "length (counters s)" cap] by simp
  ultimately show ?thesis using and_then by metis
qed

text \<open>When the sum is zero, the threads that are started from then on stop at once.\<close>

lemma rest_stops:
  assumes "starter s = Start w" and "sum_list (counters s) = 0"
    and "\<forall>v < length (pcs s). v < w \<longrightarrow> pcs s ! v = Quit"
  shows "\<exists>s'. (sched_step cap)\<^sup>*\<^sup>* s s' \<and> (\<forall>pc \<in> set (pcs s'). pc = Quit) \<and> queues s' = queues s \<and>
    lost s' = lost s \<and> added s' = added s \<and> handled s' = handled s"
  using assms
proof (induction "length (pcs s) - w" arbitrary: s w)
  case 0
  then have "\<forall>pc \<in> set (pcs s). pc = Quit" by (metis diff_is_0_eq in_set_conv_nth less_le_trans)
  then show ?case by blast
next
  case (Suc k)
  let ?s1 = "at_pc w (Check 0 0) (s\<lparr>starter := Number w\<rparr>)"
  let ?s2 = "at_pc w Quit (s\<lparr>starter := Number w\<rparr>)"
  let ?s3 = "?s2\<lparr>thread_ids := (thread_ids ?s2)[w := w], starter := Start (Suc w)\<rparr>"
  have w: "w < length (pcs s)" using Suc.hyps(2) by simp
  have "sched_step cap s ?s1" using Suc.prems(1) w by (rule sched_step.start_thread)
  moreover have "(sched_step cap)\<^sup>*\<^sup>* ?s1 ?s2"
    using check_all [of w ?s1 cap] w Suc.prems(2) by (simp add: after_check_def at_pc_def)
  moreover have "sched_step cap ?s2 ?s3" by (rule sched_step.number_thread) (simp add: at_pc_def)
  ultimately have run: "(sched_step cap)\<^sup>*\<^sup>* s ?s3" by (meson converse_rtranclp_into_rtranclp and_then)
  have "k = length (pcs ?s3) - Suc w" using Suc.hyps(2) by (simp add: at_pc_def)
  moreover have "\<forall>v < length (pcs ?s3). v < Suc w \<longrightarrow> pcs ?s3 ! v = Quit"
    using Suc.prems(3) w by (simp add: at_pc_def nth_list_update)
  ultimately obtain s' where "(sched_step cap)\<^sup>*\<^sup>* ?s3 s'" "\<forall>pc \<in> set (pcs s'). pc = Quit"
      "queues s' = queues ?s3" "lost s' = lost ?s3" "added s' = added ?s3" "handled s' = handled ?s3"
    using Suc.hyps(1) [of ?s3 "Suc w"] Suc.prems(2) by (auto simp: at_pc_def)
  with run show ?case by (intro exI [of _ s']) (auto simp: at_pc_def)
qed

section \<open>The run\<close>

text \<open>The first two workers, and \<open>k\<close> others that have not been started.\<close>

definition racing ::
  "nat \<Rightarrow> 't pc \<Rightarrow> 't pc \<Rightarrow> 't list \<Rightarrow> 't list \<Rightarrow> u64 \<Rightarrow> starting \<Rightarrow> 't multiset \<Rightarrow> 't multiset \<Rightarrow> bool \<Rightarrow> 't scheduler"
where
  "racing k p0 p1 q0 q1 c st ad ha mi =
     \<lparr>queues = q0 # q1 # replicate k [], counters = c # 1 # replicate k 0, pcs = p0 # p1 # replicate k Not_started,
      thread_ids = 0 # 0 # replicate k 0, starter = st, added = ad, handled = ha, lost = {#}, mistaken = mi\<rparr>"

lemmas racing_simps = racing_def at_pc_def store_count_def stats_counter_load_def stats_counter_store_def
  take_from_def pop_queue_def push_queue_def

lemma racing_sum: "sum_list (counters (racing k p0 p1 q0 q1 c st ad ha mi)) = c + 1"
  by (simp add: racing_def sum_list_replicate)

lemma racing_prepared:
  assumes "0 < cap"
  shows "scheduler_prepare cap 0 [a, b] (scheduler_new (Suc (Suc k))) =
    Inr (racing k Not_started Not_started [a] [b] 1 (Start 0) {#b, a#} {#} False)"
  using assms by (simp add: scheduler_new_def stats_counter_new_def defined_when_def push_queue_def racing_def
      task_count_in_two store_count_def stats_counter_store_def stats_counter_load_def)

lemma racing_started:
  "(sched_step cap)\<^sup>*\<^sup>* (racing k Not_started Not_started [a] [b] 1 (Start 0) A {#} False)
     (racing k (Check 0 0) (Check 0 0) [a] [b] 1 (Number 1) A {#} False)"
proof -
  let ?r = "\<lambda>p0 p1 st. racing k p0 p1 [a] [b] 1 st A {#} False"
  have "sched_step cap (?r Not_started Not_started (Start 0)) (?r (Check 0 0) Not_started (Number 0))"
    using sched_step.start_thread [of "?r Not_started Not_started (Start 0)" 0 cap] by (simp add: racing_simps)
  moreover have "sched_step cap (?r (Check 0 0) Not_started (Number 0)) (?r (Check 0 0) Not_started (Start 1))"
    using sched_step.number_thread [of "?r (Check 0 0) Not_started (Number 0)" 0 cap] by (simp add: racing_simps)
  moreover have "sched_step cap (?r (Check 0 0) Not_started (Start 1)) (?r (Check 0 0) (Check 0 0) (Number 1))"
    using sched_step.start_thread [of "?r (Check 0 0) Not_started (Start 1)" 1 cap] by (simp add: racing_simps)
  ultimately show ?thesis by (meson and_then rtranclp.rtrancl_refl)
qed

text \<open>The second worker handles its task, the first one begins its own and adds another.\<close>

lemma racing_handling:
  assumes "0 < cap"
  shows "(sched_step cap)\<^sup>*\<^sup>* (racing k (Check 0 0) (Check 0 0) [a] [b] 1 (Number 1) A {#} False)
     (racing k (Count_store a 1) (Uncount_store b 0 1) [c] [] 1 (Number 1) (add_mset c A) {#} True)"
proof -
  let ?r = "\<lambda>p0 p1 q0 q1. racing k p0 p1 q0 q1 1 (Number 1) A {#}"
  let ?t = "\<lambda>p0 p1. racing k p0 p1 [c] [] 1 (Number 1) (add_mset c A) {#} True"
  have two: "(1 :: u64) + 1 \<noteq> 0" by simp
  have "(sched_step cap)\<^sup>*\<^sup>* (?r (Check 0 0) (Check 0 0) [a] [b] False) (?r (Check 0 0) Take [a] [b] False)"
    using check_all [of 1 "?r (Check 0 0) (Check 0 0) [a] [b] False" cap] two
    by (simp add: racing_sum after_check_def) (simp add: racing_simps)
  moreover have "sched_step cap (?r (Check 0 0) Take [a] [b] False) (?r (Check 0 0) (Handle b) [a] [] False)"
    using sched_step.take_own [of 1 "?r (Check 0 0) Take [a] [b] False" cap] by (simp add: racing_simps)
  moreover have "sched_step cap (?r (Check 0 0) (Handle b) [a] [] False) (?r (Check 0 0) (Uncount b 0) [a] [] True)"
    using sched_step.read_id [of 1 "?r (Check 0 0) (Handle b) [a] [] False" b cap] by (simp add: racing_simps)
  moreover have "(sched_step cap)\<^sup>*\<^sup>* (?r (Check 0 0) (Uncount b 0) [a] [] True) (?r Take (Uncount b 0) [a] [] True)"
    using check_all [of 0 "?r (Check 0 0) (Uncount b 0) [a] [] True" cap] two
    by (simp add: racing_sum after_check_def) (simp add: racing_simps)
  moreover have "sched_step cap (?r Take (Uncount b 0) [a] [] True) (?r (Handle a) (Uncount b 0) [] [] True)"
    using sched_step.take_own [of 0 "?r Take (Uncount b 0) [a] [] True" cap] by (simp add: racing_simps)
  moreover have "sched_step cap (?r (Handle a) (Uncount b 0) [] [] True) (?t (Count a) (Uncount b 0))"
    using sched_step.add_task [of 0 "?r (Handle a) (Uncount b 0) [] [] True" a cap c] assms
    by (simp add: racing_simps)
  moreover have "sched_step cap (?t (Count a) (Uncount b 0)) (?t (Count_store a 1) (Uncount b 0))"
    using sched_step.count_load [of 0 "?t (Count a) (Uncount b 0)" a cap] by (simp add: racing_simps)
  moreover have "sched_step cap (?t (Count_store a 1) (Uncount b 0)) (?t (Count_store a 1) (Uncount_store b 0 1))"
    using sched_step.uncount_load [of 1 "?t (Count_store a 1) (Uncount b 0)" b 0 cap] by (simp add: racing_simps)
  ultimately show ?thesis by (meson and_then rtranclp_trans)
qed

text \<open>Both store what they have made of the same count, and the first one finishes its task.\<close>

lemma racing_stored:
  "(sched_step cap)\<^sup>*\<^sup>* (racing k (Count_store a 1) (Uncount_store b 0 1) [c] [] 1 (Number 1) A {#} True)
     (racing k Quit Quit [c] [] (- 1) (Number 1) A {#a, b#} True)"
proof -
  let ?r = "\<lambda>p0 p1 x st H. racing k p0 p1 [c] [] x st A H True"
  have "sched_step cap (?r (Count_store a 1) (Uncount_store b 0 1) 1 (Number 1) {#})
      (?r (Handle a) (Uncount_store b 0 1) 2 (Number 1) {#})"
    using sched_step.count_store [of 0 "?r (Count_store a 1) (Uncount_store b 0 1) 1 (Number 1) {#}" a 1 cap]
    by (simp add: racing_simps)
  moreover have "sched_step cap (?r (Handle a) (Uncount_store b 0 1) 2 (Number 1) {#})
      (?r (Handle a) (Check 0 0) 0 (Number 1) {#b#})"
    using sched_step.uncount_store [of 1 "?r (Handle a) (Uncount_store b 0 1) 2 (Number 1) {#}" b 0 1 cap]
    by (simp add: racing_simps)
  moreover have "sched_step cap (?r (Handle a) (Check 0 0) 0 (Number 1) {#b#})
      (?r (Uncount a 0) (Check 0 0) 0 (Number 1) {#b#})"
    using sched_step.read_id [of 0 "?r (Handle a) (Check 0 0) 0 (Number 1) {#b#}" a cap] by (simp add: racing_simps)
  moreover have "sched_step cap (?r (Uncount a 0) (Check 0 0) 0 (Number 1) {#b#})
      (?r (Uncount_store a 0 0) (Check 0 0) 0 (Number 1) {#b#})"
    using sched_step.uncount_load [of 0 "?r (Uncount a 0) (Check 0 0) 0 (Number 1) {#b#}" a 0 cap]
    by (simp add: racing_simps)
  moreover have "sched_step cap (?r (Uncount_store a 0 0) (Check 0 0) 0 (Number 1) {#b#})
      (?r (Check 0 0) (Check 0 0) (- 1) (Number 1) {#a, b#})"
    using sched_step.uncount_store [of 0 "?r (Uncount_store a 0 0) (Check 0 0) 0 (Number 1) {#b#}" a 0 0 cap]
    by (simp add: racing_simps)
  moreover have "(sched_step cap)\<^sup>*\<^sup>* (?r (Check 0 0) (Check 0 0) (- 1) (Number 1) {#a, b#})
      (?r Quit (Check 0 0) (- 1) (Number 1) {#a, b#})"
    using check_all [of 0 "?r (Check 0 0) (Check 0 0) (- 1) (Number 1) {#a, b#}" cap]
    by (simp add: racing_sum after_check_def) (simp add: racing_simps)
  moreover have "(sched_step cap)\<^sup>*\<^sup>* (?r Quit (Check 0 0) (- 1) (Number 1) {#a, b#})
      (?r Quit Quit (- 1) (Number 1) {#a, b#})"
    using check_all [of 1 "?r Quit (Check 0 0) (- 1) (Number 1) {#a, b#}" cap]
    by (simp add: racing_sum after_check_def) (simp add: racing_simps)
  ultimately show ?thesis
    by (meson and_then rtranclp.rtrancl_refl rtranclp_trans)
qed

lemma early_thread:
  assumes "1 < n" and "0 < cap"
  shows "\<exists>s. sched_reachable cap n [a, b] s \<and> (\<forall>pc \<in> set (pcs s). pc = Quit) \<and>
    queued s = {#c#} \<and> lost s = {#} \<and> handled s = {#a, b#} \<and> added s = {#a, b, c#}"
proof -
  obtain k where n: "n = Suc (Suc k)"
    using assms(1) that [of "n - 2"] by simp
  let ?s0 = "racing k Not_started Not_started [a] [b] 1 (Start 0) {#b, a#} {#} False"
  let ?s1 = "racing k Quit Quit [c] [] (- 1) (Number 1) {#c, b, a#} {#a, b#} True"
  let ?s2 = "?s1\<lparr>thread_ids := (thread_ids ?s1)[1 := 1], starter := Start (Suc 1)\<rparr>"
  have start: "sched_reachable cap n [a, b] ?s0"
    unfolding n by (rule sched_reachable.start [OF racing_prepared [OF assms(2)]])
  have "(sched_step cap)\<^sup>*\<^sup>* ?s0 ?s1"
    using racing_started racing_handling [OF assms(2)] racing_stored by (meson rtranclp_trans)
  moreover have "sched_step cap ?s1 ?s2"
    by (rule sched_step.number_thread) (simp add: racing_def)
  ultimately have run: "(sched_step cap)\<^sup>*\<^sup>* ?s0 ?s2" by (rule and_then)
  have "\<forall>v < length (pcs ?s2). v < Suc 1 \<longrightarrow> pcs ?s2 ! v = Quit"
    by (auto simp: racing_def less_Suc_eq)
  then obtain s where s: "(sched_step cap)\<^sup>*\<^sup>* ?s2 s" "\<forall>pc \<in> set (pcs s). pc = Quit"
      "queues s = queues ?s2" "lost s = lost ?s2" "added s = added ?s2" "handled s = handled ?s2"
    using rest_stops [of ?s2 "Suc 1" cap] racing_sum [of k Quit Quit "[c]" "[]" "- 1"] by auto
  have "sched_reachable cap n [a, b] s"
    using steps_keep [OF rtranclp_trans [OF run s(1)] start] by blast
  then show ?thesis
    using s by (intro exI [of _ s]) (auto simp: racing_def queued_def sum_list_none add_mset_commute)
qed

end
