(* ===== verification/Example_Program.thy ===== *)
theory Example_Program
  imports Example_Net Commander Lang_Print Spinlock Thread_Numbers
begin

text \<open>
  Inputs for the properties of programs: a module with the constructors \<open>zero\<close> and \<open>add\<close> of the
  README and no rules yet, a file that imports itself, and two runs of the scheduler.
\<close>

section \<open>A module\<close>

definition module_machine :: machine where
  "module_machine = example_machine
     \<lparr>net := example_heap\<lparr>node_ctors := [zero_ctor\<lparr>rule_array := []\<rparr>, add_ctor3\<lparr>rule_array := []\<rparr>]\<rparr>,
      value_hash := [''zero'' \<mapsto> VCtor 0, ''add'' \<mapsto> VCtor 1, ''connect'' \<mapsto> VPrimitive 0],
      return_stack := []\<rparr>"

definition zero_pattern :: node_pattern where
  "zero_pattern = \<lparr>np_ctor = 0, np_port_infos = [port ''value'' True]\<rparr>"

definition add_pattern :: node_pattern where
  "add_pattern = \<lparr>np_ctor = 1, np_port_infos = [port ''target'' True, port ''addend'' False, port ''result'' False]\<rparr>"

definition rule_body :: "exp list" where
  "rule_body = [EXP_AP (EXP_VAR ''connect'') [EXP_VAR ''addend'', EXP_VAR ''result'']]"

text \<open>The module with the rule.\<close>

definition ruled_machine :: machine where
  "ruled_machine = (case define_rule_star [zero_pattern, add_pattern] rule_body module_machine of
     Inr m \<Rightarrow> m | Inl _ \<Rightarrow> module_machine)"

text \<open>A node of each constructor with its principal wire.\<close>

definition facing_nodes :: heap where
  "facing_nodes = (net ruled_machine)
     \<lparr>principal_wires := [Some \<lparr>pw_node = 0, pw_index = 0, pw_oppsite = None\<rparr>, Some \<lparr>pw_node = 1, pw_index = 0, pw_oppsite = None\<rparr>],
      nodes := [node_new\<lparr>node_ctor_of := Some 0\<rparr>, node_new\<lparr>node_ctor_of := Some 1\<rparr>]\<rparr>"

section \<open>Names\<close>

definition no_doubles :: double_parser where
  "no_doubles = \<lparr>is_double = (\<lambda>_. False), parse_double = (\<lambda>_. 0)\<rparr>"

definition name_check :: "string \<Rightarrow> bool" where
  "name_check w \<longleftrightarrow>
     w \<noteq> [] \<and> list_all plain_char w \<and> hd w \<noteq> CHR '';'' \<and> hd w \<noteq> CHR 0x22 \<and>
     length w \<le> MAX_TOKEN_LENGTH \<and> \<not> string_is_xint w"

lemma name_check_plain: "name_check w \<Longrightarrow> plain_word w \<and> plain_name no_doubles w"
  by (simp add: name_check_def plain_name_def plain_word_def word_kind_def no_doubles_def list_all_iff
      del: string_is_xint.simps)

definition rule_statement :: stmt where
  "rule_statement = STMT_DEFINE_RULE
     (EXP_AP (EXP_VAR ''add'') [EXP_AP (EXP_VAR ''zero'') [], EXP_VAR ''addend'', EXP_VAR ''result''])
     [EXP_AP (EXP_VAR ''connect'') [EXP_VAR ''addend'', EXP_VAR ''result'']]"

lemma rule_statement_plain: "plain_stmt no_doubles rule_statement"
proof -
  have "list_all name_check [''add'', ''zero'', ''addend'', ''result'', ''connect'']" by code_simp
  then have "plain_name no_doubles ''add''" "plain_name no_doubles ''zero''" "plain_name no_doubles ''addend''"
    "plain_name no_doubles ''result''" "plain_name no_doubles ''connect''"
    using name_check_plain by simp_all
  then show ?thesis by (simp add: rule_statement_def)
qed

section \<open>A file that imports itself\<close>

definition cycle_path :: path where
  "cycle_path = (case path_new ''/d/a.lisp'' of
     Inr p \<Rightarrow> p
   | Inl _ \<Rightarrow> \<lparr>segment_stack = [], path_cache = None, path_absolute = True\<rparr>)"

definition cycle_text :: string where
  "cycle_text = ''(import f \"a.lisp\")''"

definition cycle_platform :: "platform \<Rightarrow> platform" where
  "cycle_platform s = s\<lparr>double_reader := no_doubles, files := [''/d/a.lisp'' \<mapsto> cycle_text]\<rparr>"

section \<open>A file that defines a function\<close>

definition one_file_program :: "platform \<Rightarrow> program" where
  "one_file_program s =
     \<lparr>platform_of = s\<lparr>double_reader := no_doubles, files := [''/d/b.lisp'' \<mapsto> ''(define (f x) x)'']\<rparr>,
      global_mod_cache = Map.empty, memory = example_machine\<rparr>"

lemma one_file_statements:
  "sexp_parse_list no_doubles ''(define (f x) x)'' = Some (Inr sexps) \<Longrightarrow>
     parse_stmt_list no_doubles sexps = Inr [STMT_DEFINE_FUNCTION ''f'' [''x''] [EXP_VAR ''x'']]"
proof -
  have "returned (lbnd (sexp_parse_list no_doubles ''(define (f x) x)'') (\<lambda>ss. Some (parse_stmt_list no_doubles ss)))
      = Some [STMT_DEFINE_FUNCTION ''f'' [''x''] [EXP_VAR ''x'']]" by code_simp
  then show "sexp_parse_list no_doubles ''(define (f x) x)'' = Some (Inr sexps) \<Longrightarrow>
     parse_stmt_list no_doubles sexps = Inr [STMT_DEFINE_FUNCTION ''f'' [''x''] [EXP_VAR ''x'']]"
    by (simp add: returned_Some)
qed

lemma one_file_runs: "\<exists>t w. run_args ''/d'' [''-s'', ''b.lisp''] (one_file_program s) = Some (Inr (t, w))"
proof -
  let ?s = "s\<lparr>double_reader := no_doubles, files := [''/d/b.lisp'' \<mapsto> ''(define (f x) x)''], single_threaded_flag := True\<rparr>"
  let ?path = "\<lparr>segment_stack = [''d'', ''b.lisp''], path_cache = Some ''/d/b.lisp'', path_absolute = True\<rparr>"
  have path: "bnd (path_new_cwd ''/d'') (\<lambda>path. path_resolve path ''b.lisp'') = Inr ?path" by code_simp
  obtain w where w: "import_prelude (fpu s) (loader_worker example_machine) = Inr w"
      "dom (value_hash w) = set prelude_names"
    using prelude_defined [of "loader_worker example_machine" "fpu s"] by (auto simp: loader_worker_def)
  obtain sexps where sexps: "sexp_parse_list no_doubles ''(define (f x) x)'' = Some (Inr sexps)"
  proof -
    have "returned (sexp_parse_list no_doubles ''(define (f x) x)'') \<noteq> None" by code_simp
    then show thesis using that by (auto simp: returned_Some)
  qed
  have "''f'' \<notin> set prelude_names" by code_simp
  then have fresh: "value_hash w ''f'' = None" using w(2) by blast
  let ?stmt = "STMT_DEFINE_FUNCTION ''f'' [''x''] [EXP_VAR ''x'']"
  have "\<exists>m. execute ?s (load_mod ?s) ?path ?stmt Map.empty w = Some (Inr ([], Map.empty, m))"
    by (simp add: execute_def compile_body_def compile_set_variable_list_def compile_set_variable_def
        maybe_compile_get_variable_def function_new_def function_add_opcode_def new_function_def
        string_copy_def define_name_def fresh Let_def)
  then obtain m where "execute ?s (load_mod ?s) ?path ?stmt Map.empty w = Some (Inr ([], Map.empty, m))" by blast
  then have "\<exists>v t c m. load_mod ?s ?path Map.empty example_machine = Some (Inr (v, t, c, m))"
    by (subst load_mod.simps) (simp add: load_with_def w sexps one_file_statements [OF sexps] path_string_def)
  then show ?thesis
    by (auto simp: is_flag_def set_flag_def string_equal_def one_file_program_def load_file_def path)
qed

section \<open>The scheduler\<close>

text \<open>One worker that handles its one task and stops.\<close>

definition one_worker :: "nat pc \<Rightarrow> nat list \<Rightarrow> u64 \<Rightarrow> starting \<Rightarrow> nat multiset \<Rightarrow> nat scheduler" where
  "one_worker pc q sum_left st done_tasks =
     \<lparr>queues = [q], counters = [sum_left], pcs = [pc], thread_ids = [0], starter = st, added = {#7#},
      handled = done_tasks, lost = {#}, mistaken = False\<rparr>"

lemmas one_worker_simps = one_worker_def at_pc_def take_from_def pop_queue_def store_count_def
  stats_counter_load_def stats_counter_store_def

lemma one_worker_started:
  "sched_reachable 4 1 [7] (one_worker (Check 0 0) [7] 1 (Start 1) {#})"
proof -
  have "sched_reachable 4 1 [7] (one_worker Not_started [7] 1 (Start 0) {#})"
    by (rule sched_reachable.start)
      (simp add: scheduler_new_def stats_counter_new_def defined_when_def push_queue_def task_count_in_two
        one_worker_simps)
  moreover have "sched_step 4 (one_worker Not_started [7] 1 (Start 0) {#}) (one_worker (Check 0 0) [7] 1 (Number 0) {#})"
    using sched_step.start_thread [of "one_worker Not_started [7] 1 (Start 0) {#}" 0 4] by (simp add: one_worker_simps)
  moreover have "sched_step 4 (one_worker (Check 0 0) [7] 1 (Number 0) {#}) (one_worker (Check 0 0) [7] 1 (Start 1) {#})"
    using sched_step.number_thread [of "one_worker (Check 0 0) [7] 1 (Number 0) {#}" 0 4] by (simp add: one_worker_simps)
  ultimately show ?thesis by (blast intro: sched_reachable.step)
qed

lemma one_worker_works:
  "(sched_step 4)\<^sup>*\<^sup>* (one_worker (Check 0 0) [7] 1 st {#}) (one_worker Quit [] 0 st {#7#})"
proof -
  let ?w = "\<lambda>pc q c done_tasks. one_worker pc q c st done_tasks"
  have "(sched_step 4)\<^sup>*\<^sup>* (?w (Check 0 0) [7] 1 {#}) (?w Take [7] 1 {#})"
    using check_all [of 0 "?w (Check 0 0) [7] 1 {#}" 4] by (simp add: one_worker_simps after_check_def)
  moreover have "sched_step 4 (?w Take [7] 1 {#}) (?w (Handle 7) [] 1 {#})"
    using sched_step.take_own [of 0 "?w Take [7] 1 {#}" 4] by (simp add: one_worker_simps)
  moreover have "sched_step 4 (?w (Handle 7) [] 1 {#}) (?w (Uncount 7 0) [] 1 {#})"
    using sched_step.read_id [of 0 "?w (Handle 7) [] 1 {#}" 7 4] by (simp add: one_worker_simps)
  moreover have "sched_step 4 (?w (Uncount 7 0) [] 1 {#}) (?w (Uncount_store 7 0 1) [] 1 {#})"
    using sched_step.uncount_load [of 0 "?w (Uncount 7 0) [] 1 {#}" 7 0 4] by (simp add: one_worker_simps)
  moreover have "sched_step 4 (?w (Uncount_store 7 0 1) [] 1 {#}) (?w (Check 0 0) [] 0 {#7#})"
    using sched_step.uncount_store [of 0 "?w (Uncount_store 7 0 1) [] 1 {#}" 7 0 1 4] by (simp add: one_worker_simps)
  moreover have "(sched_step 4)\<^sup>*\<^sup>* (?w (Check 0 0) [] 0 {#7#}) (?w Quit [] 0 {#7#})"
    using check_all [of 0 "?w (Check 0 0) [] 0 {#7#}" 4] by (simp add: one_worker_simps after_check_def)
  ultimately show ?thesis by (meson and_then rtranclp_trans)
qed

lemma one_worker_run: "sched_reachable 4 1 [7] (one_worker Quit [] 0 (Start 1) {#7#})"
  using steps_keep [OF one_worker_works one_worker_started] by blast

end
