(* ===== verification/Set_Aside.thy ===== *)
theory Set_Aside
  imports Machine_Steps
begin

text \<open>
  A node that no principal wire belongs to, and that is not free, is of no concern to a worker:
  what it runs does the same whatever is in the node. So a worker that handles the task of a
  primitive node can be taken to have freed the node already, and the values at its ports to be
  in the worker's hands.
\<close>

section \<open>Simulations of results\<close>

definition res_sim :: "('a \<Rightarrow> 'b \<Rightarrow> bool) \<Rightarrow> 'a res \<Rightarrow> 'b res \<Rightarrow> bool" where
  "res_sim R r s \<longleftrightarrow> (\<forall>x. r = Inr x \<longrightarrow> (\<exists>y. s = Inr y \<and> R x y))"

definition loop_sim :: "('a \<Rightarrow> 'b \<Rightarrow> bool) \<Rightarrow> 'a loop \<Rightarrow> 'b loop \<Rightarrow> bool" where
  "loop_sim R r s \<longleftrightarrow> (\<forall>x. r = Some (Inr x) \<longrightarrow> (\<exists>y. s = Some (Inr y) \<and> R x y))"

named_theorems sim_intros "rules that build simulations"

lemma res_sim_Inr [sim_intros]: "R x y \<Longrightarrow> res_sim R (Inr x) (Inr y)"
  by (simp add: res_sim_def)

lemma res_sim_Inl [sim_intros]: "res_sim R (Inl e) s"
  by (simp add: res_sim_def)

lemma res_sim_bnd: "res_sim R r s \<Longrightarrow> (\<And>x y. R x y \<Longrightarrow> res_sim S (f x) (g y)) \<Longrightarrow> res_sim S (bnd r f) (bnd s g)"
  by (fastforce simp: res_sim_def bnd_eq_Inr)

lemma res_sim_bnd_same: "r = s \<Longrightarrow> (\<And>x. r = Inr x \<Longrightarrow> res_sim S (f x) (g x)) \<Longrightarrow> res_sim S (bnd r f) (bnd s g)"
  by (auto simp: res_sim_def bnd_eq_Inr)

lemma res_sim_deref [sim_intros]: "c = d \<Longrightarrow> (\<And>x. c = Some x \<Longrightarrow> res_sim S (f x) (g x)) \<Longrightarrow> res_sim S (deref c f) (deref d g)"
  by (auto simp: res_sim_def deref_eq_Inr)

lemma res_sim_asserting [sim_intros]: "b = c \<Longrightarrow> (b \<Longrightarrow> res_sim S r s) \<Longrightarrow> res_sim S (asserting b r) (asserting c s)"
  by (auto simp: res_sim_def asserting_eq_Inr)

lemma loop_sim_Some [sim_intros]: "res_sim R r s \<Longrightarrow> loop_sim R (Some r) (Some s)"
  by (simp add: loop_sim_def res_sim_def)

lemma loop_sim_lbnd: "loop_sim R r s \<Longrightarrow> (\<And>x y. R x y \<Longrightarrow> loop_sim S (f x) (g y)) \<Longrightarrow> loop_sim S (lbnd r f) (lbnd s g)"
  by (fastforce simp: loop_sim_def lbnd_eq_Some_Inr)

lemma loop_sim_lbnd_same:
  "r = s \<Longrightarrow> (\<And>x. r = Some (Inr x) \<Longrightarrow> loop_sim S (f x) (g x)) \<Longrightarrow> loop_sim S (lbnd r f) (lbnd s g)"
  by (auto simp: loop_sim_def lbnd_eq_Some_Inr)

lemma loop_sim_Inl [sim_intros]: "loop_sim R (Some (Inl e)) s"
  by (simp add: loop_sim_def)

lemma res_simD: "res_sim R r s \<Longrightarrow> r = Inr x \<Longrightarrow> \<exists>y. s = Inr y \<and> R x y"
  by (simp add: res_sim_def)

lemma loop_simD: "loop_sim R r s \<Longrightarrow> r = Some (Inr x) \<Longrightarrow> \<exists>y. s = Some (Inr y) \<and> R x y"
  by (simp add: loop_sim_def)

section \<open>The net\<close>

definition foreign :: "nat \<Rightarrow> heap \<Rightarrow> bool" where
  "foreign n h \<longleftrightarrow> n < length (nodes h) \<and> (\<forall>a p. cell (principal_wires h) a = Some p \<longrightarrow> pw_node p \<noteq> n)"

text \<open>The first heap is the second, with something else in the node.\<close>

definition beside :: "nat \<Rightarrow> node \<Rightarrow> heap \<Rightarrow> heap \<Rightarrow> bool" where
  "beside n x h g \<longleftrightarrow> h = set_node n x g \<and> foreign n g"

definition with_beside :: "nat \<Rightarrow> node \<Rightarrow> 'a \<times> heap \<Rightarrow> 'a \<times> heap \<Rightarrow> bool" where
  "with_beside n x r s \<longleftrightarrow> fst r = fst s \<and> beside n x (snd r) (snd s)"

lemma beside_fields:
  assumes "beside n x h g"
  shows "wires h = wires g" "principal_wires h = principal_wires g" "node_ctors h = node_ctors g"
    "length (nodes h) = length (nodes g)" "\<And>k. k \<noteq> n \<Longrightarrow> nodes h ! k = nodes g ! k"
  using assms by (auto simp: beside_def)

lemma beside_node: "beside n x h g \<Longrightarrow> cell (principal_wires g) a = Some p \<Longrightarrow> pw_node p \<noteq> n"
  by (auto simp: beside_def foreign_def)

lemma beside_at: "beside n x h g \<Longrightarrow> k \<noteq> n \<Longrightarrow> at (nodes h) k = at (nodes g) k"
  by (simp add: beside_fields at_def)

lemma beside_ctor_of: "beside n x h g \<Longrightarrow> k \<noteq> n \<Longrightarrow> ctor_of_node h k = ctor_of_node g k"
  by (simp add: ctor_of_node_def beside_at beside_fields)

lemma beside_set_node: "beside n x h g \<Longrightarrow> k \<noteq> n \<Longrightarrow> beside n x (set_node k y h) (set_node k y g)"
  by (auto simp: beside_def foreign_def set_node_def list_update_swap)

lemma beside_wires:
  "beside n x h g \<Longrightarrow> beside n x (wire_destroy a h) (wire_destroy a g)"
  "beside n x h g \<Longrightarrow> beside n x (set_fuzed_value a v h) (set_fuzed_value a v g)"
  by (simp_all add: beside_def foreign_def wire_destroy_def set_fuzed_value_def set_node_def)

lemma beside_destroy: "beside n x h g \<Longrightarrow> beside n x (principal_wire_destroy a h) (principal_wire_destroy a g)"
  by (auto simp: beside_def foreign_def principal_wire_destroy_def set_node_def cell_update split: if_splits)

lemma beside_wire_new:
  "beside n x h g \<Longrightarrow> with_beside n x (wire_new h) (wire_new g)"
  by (simp add: with_beside_def beside_def foreign_def wire_new_def set_node_def)

lemma beside_principal_wire_new:
  "beside n x h g \<Longrightarrow> k \<noteq> n \<Longrightarrow> with_beside n x (principal_wire_new k i h) (principal_wire_new k i g)"
  by (auto simp: with_beside_def beside_def foreign_def principal_wire_new_def set_node_def cell_append split: if_splits)

lemma beside_set_value:
  assumes "beside n x h g" and "k \<noteq> n"
  shows "res_sim (beside n x) (node_set_value k i v h) (node_set_value k i v g)"
  unfolding node_set_value_def
  by (intro sim_intros beside_at [OF assms] beside_set_node assms)

lemma beside_set_oppsite:
  assumes "beside n x h g"
  shows "res_sim (beside n x) (set_oppsite a b h) (set_oppsite a b g)"
proof -
  have "beside n x (h\<lparr>principal_wires := (principal_wires h)[a := Some (p\<lparr>pw_oppsite := Some b\<rparr>)]\<rparr>)
      (g\<lparr>principal_wires := (principal_wires g)[a := Some (p\<lparr>pw_oppsite := Some b\<rparr>)]\<rparr>)"
    if "cell (principal_wires g) a = Some p" for p
    using assms that by (auto simp: beside_def foreign_def set_node_def cell_update split: if_splits)
  then show ?thesis
    unfolding set_oppsite_def using beside_fields [OF assms] by (intro sim_intros) auto
qed

section \<open>Connecting\<close>

lemma beside_pw_ctor: "beside n x h g \<Longrightarrow> pw_ctor h a = pw_ctor g a"
  by (auto simp: pw_ctor_def beside_fields beside_at beside_node intro!: deref_cong)

lemma beside_match_rules: "beside n x h g \<Longrightarrow> match_rules h rules l r = match_rules g rules l r"
  by (induction rules) (simp_all add: rule_match_def beside_pw_ctor cong: if_cong)

lemma beside_pw_rules: "beside n x h g \<Longrightarrow> pw_rules h a = pw_rules g a"
  by (auto simp: pw_rules_def beside_fields beside_ctor_of beside_node intro!: deref_cong)

lemma sim_connect_active_pair:
  assumes "beside n x h g"
  shows "res_sim (with_beside n x) (connect_active_pair a b h) (connect_active_pair a b g)"
  unfolding connect_active_pair_def
proof (intro res_sim_bnd [OF beside_set_oppsite [OF assms]] res_sim_bnd [OF beside_set_oppsite])
  fix h1 g1 h2 g2
  assume 1: "beside n x h1 g1" and 2: "beside n x h2 g2"
  show "beside n x h1 g1" by fact
  show "res_sim (with_beside n x)
      (bnd (pw_rules h2 a) (\<lambda>rules. bnd (match_rules h2 rules a b) (\<lambda>task.
         if task \<noteq> None then Inr (task, h2)
         else bnd (pw_rules h2 b) (\<lambda>rules. bnd (match_rules h2 rules a b) (\<lambda>task. Inr (task, h2))))))
      (bnd (pw_rules g2 a) (\<lambda>rules. bnd (match_rules g2 rules a b) (\<lambda>task.
         if task \<noteq> None then Inr (task, g2)
         else bnd (pw_rules g2 b) (\<lambda>rules. bnd (match_rules g2 rules a b) (\<lambda>task. Inr (task, g2))))))"
    using 2 unfolding beside_pw_rules [OF 2] beside_match_rules [OF 2]
    by (intro res_sim_bnd_same refl) (auto intro!: res_sim_Inr res_sim_bnd_same simp: with_beside_def)
qed

lemma sim_fetch_add:
  assumes "beside n x h g" and "k \<noteq> n"
  shows "res_sim (with_beside n x) (node_primitive_arg_count_fetch_add1 k h) (node_primitive_arg_count_fetch_add1 k g)"
  unfolding node_primitive_arg_count_fetch_add1_def
  by (intro sim_intros beside_at [OF assms]) (simp add: with_beside_def beside_set_node [OF assms])

lemma sim_collect:
  assumes b: "beside n x h g"
  shows "res_sim (with_beside n x) (collect_primitive_arg a v h) (collect_primitive_arg a v g)"
  unfolding collect_primitive_arg_def
proof (rule res_sim_deref)
  fix p
  assume "cell (principal_wires h) a = Some p"
  then have p: "pw_node p \<noteq> n"
    using b beside_node beside_fields(2) [OF b] by auto
  show "res_sim (with_beside n x)
      (bnd (node_is_primitive h (pw_node p)) (\<lambda>prim. asserting prim (
        bnd (node_set_value (pw_node p) (pw_index p) v (principal_wire_destroy a h)) (\<lambda>h.
        bnd (node_primitive_arg_count_fetch_add1 (pw_node p) h) (\<lambda>(count, h).
        bnd (node_principal_port_count h (pw_node p)) (\<lambda>ports.
          Inr (if count + 1 = ports then Some (Task_primitive (pw_node p)) else None, h)))))))
      (bnd (node_is_primitive g (pw_node p)) (\<lambda>prim. asserting prim (
        bnd (node_set_value (pw_node p) (pw_index p) v (principal_wire_destroy a g)) (\<lambda>h.
        bnd (node_primitive_arg_count_fetch_add1 (pw_node p) h) (\<lambda>(count, h).
        bnd (node_principal_port_count h (pw_node p)) (\<lambda>ports.
          Inr (if count + 1 = ports then Some (Task_primitive (pw_node p)) else None, h)))))))"
  proof (rule res_sim_bnd_same)
    show "node_is_primitive h (pw_node p) = node_is_primitive g (pw_node p)"
      by (simp add: node_is_primitive_def beside_ctor_of [OF b p])
  next
    fix prim
    show "res_sim (with_beside n x)
      (asserting prim (bnd (node_set_value (pw_node p) (pw_index p) v (principal_wire_destroy a h)) (\<lambda>h.
        bnd (node_primitive_arg_count_fetch_add1 (pw_node p) h) (\<lambda>(count, h).
        bnd (node_principal_port_count h (pw_node p)) (\<lambda>ports.
          Inr (if count + 1 = ports then Some (Task_primitive (pw_node p)) else None, h))))))
      (asserting prim (bnd (node_set_value (pw_node p) (pw_index p) v (principal_wire_destroy a g)) (\<lambda>h.
        bnd (node_primitive_arg_count_fetch_add1 (pw_node p) h) (\<lambda>(count, h).
        bnd (node_principal_port_count h (pw_node p)) (\<lambda>ports.
          Inr (if count + 1 = ports then Some (Task_primitive (pw_node p)) else None, h))))))"
      by (intro res_sim_asserting refl res_sim_bnd [OF beside_set_value [OF beside_destroy [OF b] p]]
          res_sim_bnd [OF sim_fetch_add [OF _ p]])
        (auto simp: with_beside_def node_principal_port_count_def beside_at [OF _ p] beside_ctor_of [OF _ p]
          intro!: res_sim_bnd_same res_sim_Inr)
  qed
qed (simp add: beside_fields [OF b])

lemma sim_connect_fuze:
  "beside n x h g \<Longrightarrow> res_sim (with_beside n x) (connect l r h) (connect l r g)"
  "beside n x h g \<Longrightarrow> res_sim (with_beside n x) (fuze a v h) (fuze a v g)"
proof (induction l r h and a v h arbitrary: g and g rule: connect_fuze.induct)
  case (7 a v h)
  show ?case
  proof (cases "cell (wires h) a")
    case (Some f)
    then have g: "cell (wires g) a = Some f"
      using beside_fields(1) [OF 7(2)] by simp
    show ?thesis
    proof (cases "f = VNull")
      case True
      then show ?thesis
        using beside_wires(2) [OF 7(2)] by (simp add: fuze.simps Some g with_beside_def res_sim_Inr)
    next
      case False
      then show ?thesis
        using 7(1) [OF Some False beside_wires(1) [OF 7(2)]] by (simp add: fuze.simps Some g)
    qed
  qed (simp add: fuze.simps res_sim_Inl)
qed (auto intro: sim_connect_active_pair sim_collect res_sim_Inl)

section \<open>The ports of another node\<close>

lemma beside_port_info: "beside n x h g \<Longrightarrow> k \<noteq> n \<Longrightarrow> node_get_port_info h k i = node_get_port_info g k i"
  by (simp add: node_get_port_info_def beside_at beside_ctor_of)

lemma sim_new_principal:
  assumes b: "beside n x h g" and k: "k \<noteq> n"
    and cont: "\<And>p h1 g1. beside n x h1 g1 \<Longrightarrow> res_sim R (f p h1) (f p g1)"
  shows "res_sim R (case principal_wire_new k i h of (p, h1) \<Rightarrow> bnd (node_set_value k i (VPrincipal p) h1) (f p))
    (case principal_wire_new k i g of (p, g1) \<Rightarrow> bnd (node_set_value k i (VPrincipal p) g1) (f p))"
proof -
  obtain p h1 g1 where p: "principal_wire_new k i h = (p, h1)" "principal_wire_new k i g = (p, g1)" "beside n x h1 g1"
    using beside_principal_wire_new [OF b k, of i]
    by (cases "principal_wire_new k i h"; cases "principal_wire_new k i g") (auto simp: with_beside_def)
  show ?thesis
    by (simp add: p) (intro res_sim_bnd [OF beside_set_value [OF p(3) k]] cont)
qed

lemma sim_new_wire:
  assumes b: "beside n x h g" and k: "k \<noteq> n"
    and cont: "\<And>w h1 g1. beside n x h1 g1 \<Longrightarrow> res_sim R (f w h1) (f w g1)"
  shows "res_sim R (case wire_new h of (w, h1) \<Rightarrow> bnd (node_set_value k i (VWire w) h1) (f w))
    (case wire_new g of (w, g1) \<Rightarrow> bnd (node_set_value k i (VWire w) g1) (f w))"
proof -
  obtain w h1 g1 where w: "wire_new h = (w, h1)" "wire_new g = (w, g1)" "beside n x h1 g1"
    using beside_wire_new [OF b]
    by (cases "wire_new h"; cases "wire_new g") (auto simp: with_beside_def)
  show ?thesis
    by (simp add: w) (intro res_sim_bnd [OF beside_set_value [OF w(3) k]] cont)
qed

lemma sim_reconnect_input:
  assumes b: "beside n x h g" and k: "k \<noteq> n"
  shows "res_sim (with_beside n x) (reconnect_input k i v h) (reconnect_input k i v g)"
  unfolding reconnect_input_def beside_port_info [OF b k]
  by (intro res_sim_bnd_same refl)
    (auto intro!: sim_new_principal [OF b k] sim_new_wire [OF b k] sim_connect_fuze(1)
      res_sim_bnd [OF beside_set_value [OF b k]] res_sim_Inr simp: with_beside_def)

lemma sim_reconnect_output:
  assumes b: "beside n x h g" and k: "k \<noteq> n"
  shows "res_sim (with_beside n x) (reconnect_output k i h) (reconnect_output k i g)"
  unfolding reconnect_output_def beside_port_info [OF b k]
  by (intro res_sim_bnd_same refl)
    (auto intro!: sim_new_principal [OF b k] sim_new_wire [OF b k] res_sim_Inr simp: with_beside_def)

lemma with_beside_prod: "with_beside n x r s \<Longrightarrow> \<exists>t h g. r = (t, h) \<and> s = (t, g) \<and> beside n x h g"
  by (cases r; cases s) (auto simp: with_beside_def)

definition inputs_beside :: "nat \<Rightarrow> node \<Rightarrow> 'a \<times> 'b \<times> heap \<Rightarrow> 'a \<times> 'b \<times> heap \<Rightarrow> bool" where
  "inputs_beside n x r s \<longleftrightarrow> fst r = fst s \<and> fst (snd r) = fst (snd s) \<and> beside n x (snd (snd r)) (snd (snd s))"

lemma sim_reconnect_inputs:
  assumes "beside n x h g" and k: "k \<noteq> n"
  shows "res_sim (inputs_beside n x)
    (reconnect_inputs k i found vs h) (reconnect_inputs k i found vs g)"
  using assms(1)
proof (induction i arbitrary: found vs h g)
  case (Suc i)
  show ?case
  proof (cases vs)
    case (Cons v ws)
    show ?thesis
      unfolding Cons reconnect_inputs.simps
      by (intro res_sim_bnd [OF sim_reconnect_input [OF Suc.prems k]])
        (auto dest!: with_beside_prod intro!: Suc.IH res_sim_asserting)
  qed (simp add: res_sim_Inl)
qed (simp add: res_sim_Inr inputs_beside_def)

lemma sim_reconnect_outputs:
  assumes "beside n x h g" and k: "k \<noteq> n"
  shows "res_sim (with_beside n x) (reconnect_outputs k i count vs h) (reconnect_outputs k i count vs g)"
  using assms(1)
proof (induction count arbitrary: i vs h g)
  case (Suc count)
  show ?case
    unfolding reconnect_outputs.simps
    by (intro res_sim_bnd [OF sim_reconnect_output [OF Suc.prems k]])
      (auto dest!: with_beside_prod intro!: Suc.IH)
qed (simp add: res_sim_Inr with_beside_def)

lemma sim_defuze:
  "beside n x h g \<Longrightarrow> res_sim (with_beside n x) (defuze h v) (defuze g v)"
proof (induction h v arbitrary: g rule: defuze.induct)
  case (1 h v)
  show ?case
  proof (cases "is_wire v")
    case False
    then show ?thesis
      using 1(2) by (simp add: defuze_simps res_sim_Inr with_beside_def)
  next
    case True
    then obtain a where v: "v = VWire a"
      by (auto simp: is_wire_def split: val.splits)
    show ?thesis
    proof (cases "cell (wires h) a")
      case (Some f)
      then have g: "cell (wires g) a = Some f"
        using beside_fields(1) [OF 1(2)] by simp
      show ?thesis
        using 1(1) [OF v Some] beside_wires(1) [OF 1(2)] 1(2)
        by (simp add: v defuze_simps Some g res_sim_Inr with_beside_def)
    qed (simp add: v defuze_simps res_sim_Inl)
  qed
qed

section \<open>Allocating\<close>

lemma allocator_maybe_allocate_set:
  assumes "allocator_maybe_allocate self stack = (r, self', stack')"
  shows "set_option r \<union> set (free_values self' stack') = set (free_values self stack)"
proof (cases stack)
  case Nil
  obtain s t where st: "refill (cache_size self) (alloc_stack self) [] = (s, t)"
    by fastforce
  have u: "set (alloc_stack self) = set s \<union> set t"
    using refill_set [OF st] by simp
  have r: "(case t of [] \<Rightarrow> (None, self\<lparr>alloc_stack := s\<rparr>, []) | v # t \<Rightarrow> (Some v, self\<lparr>alloc_stack := s\<rparr>, t)) =
      (r, self', stack')"
    using assms unfolding Nil allocator_maybe_allocate_Nil [OF st] .
  show ?thesis
    unfolding free_values_def Nil set_append u using r by (cases t) auto
next
  case (Cons v vs)
  then show ?thesis
    using assms by (auto simp: free_values_def)
qed

lemma beside_append:
  assumes "beside n x h g"
  shows "beside n x (h\<lparr>nodes := nodes h @ ns\<rparr>) (g\<lparr>nodes := nodes g @ ns\<rparr>)"
proof -
  have h: "h = g\<lparr>nodes := (nodes g)[n := x]\<rparr>" and n: "foreign n g"
    using assms by (simp_all add: beside_def set_node_def)
  show ?thesis
    using n by (simp add: h beside_def foreign_def set_node_def list_update_append)
qed

lemma sim_prepare:
  "beside n x h g \<Longrightarrow> prepare_nodes_loop i self h = (self1, h1) \<Longrightarrow>
     \<exists>g1. prepare_nodes_loop i self g = (self1, g1) \<and> beside n x h1 g1"
proof (induction i self h arbitrary: g rule: prepare_nodes_loop.induct)
  case (2 i self h)
  define e where "e = node_new\<lparr>node_id := node_count self + 1\<rparr>"
  define self2 where "self2 = self\<lparr>node_count := node_count self + 1,
    allocator_of := (allocator_of self)
      \<lparr>alloc_stack := length (nodes h) # alloc_stack (allocator_of self)\<rparr>,
    node_array := node_array self @ [length (nodes h)]\<rparr>"
  have "prepare_nodes_loop i self2 (h\<lparr>nodes := nodes h @ [e]\<rparr>) = (self1, h1)"
    using 2(3) by (simp add: Let_def e_def self2_def)
  then obtain g1 where "prepare_nodes_loop i self2 (g\<lparr>nodes := nodes g @ [e]\<rparr>) = (self1, g1)" "beside n x h1 g1"
    using 2(1) [OF refl e_def self2_def beside_append [OF 2(2)]] by blast
  moreover have "prepare_nodes_loop (Suc i) self g = prepare_nodes_loop i self2 (g\<lparr>nodes := nodes g @ [e]\<rparr>)"
    using beside_fields(4) [OF 2(2)] by (simp add: Let_def e_def self2_def)
  ultimately show ?case by simp
qed simp

definition kept_off :: "nat \<Rightarrow> node_allocator \<Rightarrow> nat list \<Rightarrow> bool" where
  "kept_off n alloc stack \<longleftrightarrow> n \<notin> set (free_values (allocator_of alloc) stack)"

definition alloc_beside ::
    "nat \<Rightarrow> node \<Rightarrow> nat \<times> node_allocator \<times> nat list \<times> heap \<Rightarrow> nat \<times> node_allocator \<times> nat list \<times> heap \<Rightarrow> bool" where
  "alloc_beside n x r s \<longleftrightarrow>
     (case (r, s) of ((a, alloc, stack, h), (b, alloc', stack', g)) \<Rightarrow>
        a = b \<and> alloc = alloc' \<and> stack = stack' \<and> a \<noteq> n \<and> beside n x h g \<and> kept_off n alloc stack)"

lemma sim_allocate:
  assumes "beside n x h g" and "kept_off n alloc stack"
  shows "loop_sim (alloc_beside n x) (node_allocator_allocate alloc stack h) (node_allocator_allocate alloc stack g)"
  unfolding loop_sim_def
proof (intro allI impI)
  fix y
  assume run: "node_allocator_allocate alloc stack h = Some (Inr y)"
  define P where "P al st k r \<longleftrightarrow> (\<forall>g y. beside n x k g \<longrightarrow> kept_off n al st \<longrightarrow> r = Inr y \<longrightarrow>
      (\<exists>z. node_allocator_allocate al st g = Some (Inr z) \<and> alloc_beside n x y z))"
    for al :: node_allocator and st :: "nat list" and k and r :: "(nat \<times> node_allocator \<times> nat list \<times> heap) res"
  have "P alloc stack h (Inr y)"
  proof (rule node_allocator_allocate.raw_induct [of P, OF _ run])
    fix f al st k r
    assume IH: "\<And>al st k r. f al st k = Some r \<Longrightarrow> P al st k r"
      and run: "(case allocator_maybe_allocate (allocator_of al) st of
          (None, alloc, stack) \<Rightarrow>
            (case prepare_one_batch_of_nodes (al\<lparr>allocator_of := alloc\<rparr>) k of (self, h) \<Rightarrow> f self stack h)
        | (Some a, alloc, stack) \<Rightarrow>
            Some (deref (at (nodes k) a) (\<lambda>n.
              Inr (a, al\<lparr>allocator_of := alloc\<rparr>, stack, set_node a (n\<lparr>is_allocated := True\<rparr>) k)))) = Some r"
    obtain o1 al1 st1 where m: "allocator_maybe_allocate (allocator_of al) st = (o1, al1, st1)"
      by (cases "allocator_maybe_allocate (allocator_of al) st") auto
    note set1 = allocator_maybe_allocate_set [OF m]
    show "P al st k r"
      unfolding P_def
    proof (intro allI impI)
      fix g y
      assume b: "beside n x k g" and off: "kept_off n al st" and r: "r = Inr y"
      show "\<exists>z. node_allocator_allocate al st g = Some (Inr z) \<and> alloc_beside n x y z"
      proof (cases o1)
        case None
        obtain al2 k1 where p: "prepare_one_batch_of_nodes (al\<lparr>allocator_of := al1\<rparr>) k = (al2, k1)"
            "f al2 st1 k1 = Some r"
          using run m None by (auto split: prod.splits)
        obtain g1 where g1: "prepare_one_batch_of_nodes (al\<lparr>allocator_of := al1\<rparr>) g = (al2, g1)" "beside n x k1 g1"
          using sim_prepare [OF b] p(1) unfolding prepare_one_batch_of_nodes_def by blast
        have "n < length (nodes k)"
          using b by (simp add: beside_def foreign_def)
        then have "kept_off n al2 st1"
          using prepare_nodes_loop_spec [OF p(1) [unfolded prepare_one_batch_of_nodes_def]] set1 off None
          by (auto simp: kept_off_def free_values_def)
        then show ?thesis
          using IH [OF p(2)] g1 m None r unfolding P_def
          by (subst node_allocator_allocate.simps) simp
      next
        case (Some a)
        then have a: "a \<noteq> n" "kept_off n (al\<lparr>allocator_of := al1\<rparr>) st1"
          using set1 off by (auto simp: kept_off_def)
        then obtain e where e: "at (nodes g) a = Some e"
            "y = (a, al\<lparr>allocator_of := al1\<rparr>, st1, set_node a (e\<lparr>is_allocated := True\<rparr>) k)"
          using run m Some r beside_at [OF b] by (auto simp: deref_eq_Inr)
        then show ?thesis
          using m Some a beside_set_node [OF b a(1)]
          by (subst node_allocator_allocate.simps) (simp add: alloc_beside_def)
      qed
    qed
  qed
  then show "\<exists>z. node_allocator_allocate alloc stack g = Some (Inr z) \<and> alloc_beside n x y z"
    using assms by (simp add: P_def)
qed

section \<open>The worker\<close>

definition aside :: "nat \<Rightarrow> node \<Rightarrow> machine \<Rightarrow> machine \<Rightarrow> bool" where
  "aside n x m k \<longleftrightarrow> m = k\<lparr>net := set_node n x (net k)\<rparr> \<and> foreign n (net k) \<and>
     kept_off n (node_alloc k) (free_node_stack k)"

definition with_aside :: "nat \<Rightarrow> node \<Rightarrow> 'a \<times> machine \<Rightarrow> 'a \<times> machine \<Rightarrow> bool" where
  "with_aside n x r s \<longleftrightarrow> fst r = fst s \<and> aside n x (snd r) (snd s)"

lemma with_aside_prod: "with_aside n x r s \<Longrightarrow> \<exists>t m k. r = (t, m) \<and> s = (t, k) \<and> aside n x m k"
  by (cases r; cases s) (auto simp: with_aside_def)

lemma aside_beside: "aside n x m k \<Longrightarrow> beside n x (net m) (net k)"
  by (simp add: aside_def beside_def)

lemma aside_fields:
  assumes "aside n x m k"
  shows "function_objects m = function_objects k" "primitives m = primitives k"
    "apply_primitives m = apply_primitives k" "value_hash m = value_hash k" "node_alloc m = node_alloc k"
    "free_node_stack m = free_node_stack k" "task_queue m = task_queue k" "task_queue_size m = task_queue_size k"
    "task_count m = task_count k" "value_stack m = value_stack k" "return_stack m = return_stack k"
  using assms by (simp_all add: aside_def)

lemma aside_net:
  assumes "aside n x m k" and "beside n x h g"
  shows "aside n x (m\<lparr>net := h\<rparr>) (k\<lparr>net := g\<rparr>)"
  using assms by (simp add: aside_def beside_def)

lemma aside_updates:
  assumes "aside n x m k"
  shows "aside n x (m\<lparr>value_stack := vs\<rparr>) (k\<lparr>value_stack := vs\<rparr>)"
    "aside n x (m\<lparr>return_stack := rs\<rparr>) (k\<lparr>return_stack := rs\<rparr>)"
    "aside n x (m\<lparr>primitives := ps\<rparr>) (k\<lparr>primitives := ps\<rparr>)"
    "aside n x (m\<lparr>apply_primitives := as\<rparr>) (k\<lparr>apply_primitives := as\<rparr>)"
    "aside n x (m\<lparr>task_queue := q\<rparr>) (k\<lparr>task_queue := q\<rparr>)"
    "aside n x (m\<lparr>task_count := c\<rparr>) (k\<lparr>task_count := c\<rparr>)"
  using assms by (simp_all add: aside_def)

lemma aside_alloc:
  assumes "aside n x m k" and "beside n x h g" and "kept_off n al st"
  shows "aside n x (m\<lparr>net := h, node_alloc := al, free_node_stack := st\<rparr>)
    (k\<lparr>net := g, node_alloc := al, free_node_stack := st\<rparr>)"
  using assms by (simp add: aside_def beside_def)

lemma aside_add_found_task: "aside n x m k \<Longrightarrow> aside n x (add_found_task t m) (add_found_task t k)"
  by (simp add: add_found_task_def worker_add_task_def Let_def aside_fields aside_updates split: option.split)

lemma aside_push: "aside n x m k \<Longrightarrow> aside n x (worker_push v m) (worker_push v k)"
  by (simp add: worker_push_def aside_fields aside_updates)

lemma sim_worker_connect:
  assumes a: "aside n x m k"
  shows "res_sim (aside n x) (worker_connect l r m) (worker_connect l r k)"
  unfolding worker_connect_def
  by (intro res_sim_bnd [OF sim_connect_fuze(1) [OF aside_beside [OF a]]])
    (auto dest!: with_beside_prod intro!: res_sim_Inr aside_add_found_task aside_net [OF a])

lemma sim_pop:
  assumes a: "aside n x m k"
  shows "res_sim (with_aside n x) (worker_pop m) (worker_pop k)"
  using aside_updates(1) [OF a] aside_fields(10) [OF a]
  by (auto simp: worker_pop_def with_aside_def res_sim_def split: list.splits)

lemma sim_tuck:
  assumes a: "aside n x m k"
  shows "res_sim (aside n x) (worker_tuck_n v i m) (worker_tuck_n v i k)"
  using aside_updates(1) [OF a] aside_fields(10) [OF a]
  by (simp add: worker_tuck_n_def res_sim_def asserting_eq_Inr)

lemma sim_worker_new_node:
  assumes a: "aside n x m k"
  shows "loop_sim (\<lambda>r s. with_aside n x r s \<and> fst r \<noteq> n) (worker_new_node c m) (worker_new_node c k)"
  unfolding worker_new_node_def aside_fields(5,6) [OF a]
proof (rule loop_sim_lbnd [OF sim_allocate [OF aside_beside [OF a]]])
  show "kept_off n (node_alloc k) (free_node_stack k)"
    using a by (simp add: aside_def)
  fix r s
  assume "alloc_beside n x r s"
  then obtain b al st h g where rs: "r = (b, al, st, h)" "s = (b, al, st, g)" "b \<noteq> n" "beside n x h g" "kept_off n al st"
    by (auto simp: alloc_beside_def split: prod.splits)
  show "loop_sim (\<lambda>r s. with_aside n x r s \<and> fst r \<noteq> n)
      (case r of (a, alloc, stack, h) \<Rightarrow> Some (deref (at (nodes h) a) (\<lambda>n. Inr (a, m\<lparr>net := set_node a
         (n\<lparr>node_ctor_of := Some c\<rparr>) h, node_alloc := alloc, free_node_stack := stack\<rparr>))))
      (case s of (a, alloc, stack, h) \<Rightarrow> Some (deref (at (nodes h) a) (\<lambda>n. Inr (a, k\<lparr>net := set_node a
         (n\<lparr>node_ctor_of := Some c\<rparr>) h, node_alloc := alloc, free_node_stack := stack\<rparr>))))"
    using rs(3) aside_alloc [OF a beside_set_node [OF rs(4,3)] rs(5)]
    by (simp add: rs(1,2) with_aside_def)
      (intro sim_intros beside_at [OF rs(4,3)], simp)
qed

lemma sim_worker_reconnect:
  assumes a: "aside n x m k" and i: "i \<noteq> n"
  shows "res_sim (aside n x) (worker_reconnect_node i arity m) (worker_reconnect_node i arity k)"
  unfolding worker_reconnect_node_def aside_fields(10) [OF a]
proof (rule res_sim_bnd [OF sim_reconnect_inputs [OF aside_beside [OF a] i]])
  fix r s :: "task option \<times> val list \<times> heap"
  assume "inputs_beside n x r s"
  then obtain t vs h g where rs: "r = (t, vs, h)" "s = (t, vs, g)" "beside n x h g"
    by (cases r; cases s) (auto simp: inputs_beside_def)
  show "res_sim (aside n x)
      (case r of (found, vs, h) \<Rightarrow> bnd (ctor_of_node h i) (\<lambda>c.
         bnd (reconnect_outputs i arity (ctor_arity c - arity) vs h) (\<lambda>(vs, h).
           Inr (add_found_task found (m\<lparr>net := h, value_stack := vs\<rparr>)))))
      (case s of (found, vs, h) \<Rightarrow> bnd (ctor_of_node h i) (\<lambda>c.
         bnd (reconnect_outputs i arity (ctor_arity c - arity) vs h) (\<lambda>(vs, h).
           Inr (add_found_task found (k\<lparr>net := h, value_stack := vs\<rparr>)))))"
    unfolding rs(1,2) prod.case
    by (intro res_sim_bnd_same [OF beside_ctor_of [OF rs(3) i]] res_sim_bnd [OF sim_reconnect_outputs [OF rs(3) i]])
      (auto dest!: with_beside_prod intro!: res_sim_Inr aside_add_found_task aside_updates(1) aside_net [OF a])
qed

lemma sim_apply_node:
  assumes a: "aside n x m k"
  shows "loop_sim (aside n x) (apply_node c arity m) (apply_node c arity k)"
  unfolding apply_node_def
  by (intro loop_sim_lbnd [OF sim_worker_new_node [OF a]])
    (auto dest!: with_aside_prod intro!: loop_sim_Some sim_worker_reconnect)

lemma sim_apply_function:
  assumes a: "aside n x m k"
  shows "res_sim (aside n x) (apply_function f arity m) (apply_function f arity k)"
  using aside_updates(2) [OF a] aside_fields [OF a]
  by (auto simp: apply_function_def res_sim_def deref_eq_Inr split: if_splits)

lemma beside_ctors: "beside n x h g \<Longrightarrow> beside n x (h\<lparr>node_ctors := cs\<rparr>) (g\<lparr>node_ctors := cs\<rparr>)"
  by (simp add: beside_def foreign_def set_node_def)

lemma sim_set_node_ctor:
  assumes a: "aside n x m k"
  shows "res_sim (aside n x) (primitive_set_node_ctor p names m) (primitive_set_node_ctor p names k)"
proof -
  note f = aside_fields [OF a] beside_fields [OF aside_beside [OF a]]
  have "aside n x (m\<lparr>net := (net m)\<lparr>node_ctors := cs\<rparr>, primitives := ps\<rparr>)
      (k\<lparr>net := (net k)\<lparr>node_ctors := cs\<rparr>, primitives := ps\<rparr>)" for cs ps
    using aside_updates(3) [OF aside_net [OF a beside_ctors [OF aside_beside [OF a]]]] by simp
  then show ?thesis
    by (auto simp: primitive_set_node_ctor_def f Let_def
        intro!: sim_intros res_sim_bnd_same)
qed

lemma sim_initialize_loop:
  "aside n x m k \<Longrightarrow> res_sim (aside n x) (initialize_apply_loop i names m) (initialize_apply_loop i names k)"
proof (induction names arbitrary: i m k)
  case (Cons name rest)
  obtain nm ports where name: "name = (nm, ports)" by fastforce
  note f = aside_fields [OF Cons.prems]
  let ?ps = "primitives k @ [primitive_from_fn nm (Suc i) 1 (X_apply i)]"
  have "aside n x (m\<lparr>primitives := ?ps, apply_primitives := apply_primitives k @ [length (primitives k)]\<rparr>)
      (k\<lparr>primitives := ?ps, apply_primitives := apply_primitives k @ [length (primitives k)]\<rparr>)"
    using aside_updates(4) [OF aside_updates(3) [OF Cons.prems]] by simp
  from res_sim_bnd [OF sim_set_node_ctor [OF this] Cons.IH] show ?case
    by (simp add: name new_primitive_def f)
qed (simp add: res_sim_Inr)

lemma sim_initialize:
  "aside n x m k \<Longrightarrow> res_sim (aside n x) (initialize_apply_primitives m) (initialize_apply_primitives k)"
  using sim_initialize_loop by (auto simp: initialize_apply_primitives_def aside_fields intro: res_sim_Inr)

lemma sim_x_connect: "aside n x m k \<Longrightarrow> res_sim (aside n x) (x_connect m) (x_connect k)"
  unfolding x_connect_def
  by (rule res_sim_bnd [OF sim_pop], assumption)
    (auto dest!: with_aside_prod intro!: res_sim_bnd [OF sim_pop] res_sim_asserting sim_worker_connect)

lemma aside_x_link: "aside n x m k \<Longrightarrow> aside n x (x_link m) (x_link k)"
proof -
  assume a: "aside n x m k"
  obtain w h g where "wire_new (net m) = (w, h)" "wire_new (net k) = (w, g)" "beside n x h g"
    using with_beside_prod [OF beside_wire_new [OF aside_beside [OF a]]] by blast
  then show ?thesis
    by (simp add: x_link_def aside_push aside_net [OF a])
qed

lemma sim_x_assert: "aside n x m k \<Longrightarrow> res_sim (aside n x) (x_assert m) (x_assert k)"
  unfolding x_assert_def
  by (rule res_sim_bnd [OF sim_pop], assumption)
    (auto dest!: with_aside_prod intro!: res_sim_bnd_same res_sim_Inr res_sim_Inl)

lemma sim_dup: "aside n x m k \<Longrightarrow> res_sim (aside n x) (dup_when test m) (dup_when test k)"
  by (auto simp: dup_when_def worker_top_def aside_fields split: list.split
      intro!: res_sim_bnd_same res_sim_asserting res_sim_Inr res_sim_Inl aside_push)

lemma sim_x_apply_target:
  assumes a: "aside n x m k"
  shows "res_sim (with_aside n x) (x_apply_target i m) (x_apply_target i k)"
  using aside_updates(1) [OF a]
  by (auto simp: x_apply_target_def aside_fields [OF a] with_aside_def intro!: sim_intros)

lemma sim_pop_args:
  assumes a: "aside n x m k"
  shows "res_sim (with_aside n x) (pop_args i m) (pop_args i k)"
  using aside_updates(1) [OF a]
  by (auto simp: pop_args_def aside_fields [OF a] with_aside_def intro!: sim_intros)

lemma sim_value_results:
  assumes a: "aside n x m k"
  shows "res_sim (aside n x) (bnd (pop_args i m) (\<lambda>(vs, m). bnd (f vs) (\<lambda>r. Inr (push_result r m))))
    (bnd (pop_args i k) (\<lambda>(vs, m). bnd (f vs) (\<lambda>r. Inr (push_result r m))))"
  by (rule res_sim_bnd [OF sim_pop_args [OF a]])
    (auto dest!: with_aside_prod intro!: res_sim_bnd_same res_sim_Inr simp: push_result_def aside_push)

lemma sim_apply_value_fn:
  assumes a: "aside n x m k"
  shows "res_sim (aside n x) (apply_value_fn fn m) (apply_value_fn fn k)"
proof (cases fn)
  case (Primitive_fn_0 f)
  then show ?thesis
    using aside_push [OF a] a by (auto simp: apply_value_fn_def push_result_def intro!: res_sim_bnd_same res_sim_Inr)
qed (simp_all add: apply_value_fn_def res_sim_Inl sim_value_results [OF a])

lemma sim_apply_open_wire:
  assumes a: "aside n x m k"
  shows "loop_sim (aside n x) (apply_open_wire a arity m) (apply_open_wire a arity k)"
proof (cases "0 < arity \<and> arity \<le> 4")
  case False
  then show ?thesis
    by (auto simp: apply_open_wire_def loop_sim_Inl)
next
  case True
  let ?rest = "\<lambda>m. lbnd (Some (deref (at (apply_primitives m) (arity - 1)) (\<lambda>p.
      deref (at (primitives m) p) (\<lambda>self. deref (primitive_node_ctor self) Inr)))) (\<lambda>c.
    lbnd (Some (worker_tuck_n (VWire a) arity m)) (\<lambda>m. apply_node c (arity + 1) m))"
  have "loop_sim (aside n x) (lbnd (Some (initialize_apply_primitives m)) ?rest)
      (lbnd (Some (initialize_apply_primitives k)) ?rest)"
  proof (rule loop_sim_lbnd [OF loop_sim_Some [OF sim_initialize [OF a]]])
    fix m1 k1
    assume k1: "aside n x m1 k1"
    show "loop_sim (aside n x) (?rest m1) (?rest k1)"
      unfolding aside_fields(2,3) [OF k1]
      by (intro loop_sim_lbnd_same refl loop_sim_lbnd [OF loop_sim_Some [OF sim_tuck [OF k1]]] sim_apply_node)
  qed
  with True show ?thesis
    by (simp add: apply_open_wire_def)
qed

lemma sim_apply:
  "aside n x m k \<Longrightarrow> loop_sim (aside n x) (worker_apply v i m) (worker_apply v i k)"
  "aside n x m k \<Longrightarrow> loop_sim (aside n x) (worker_apply_wire a i m) (worker_apply_wire a i k)"
  "aside n x m k \<Longrightarrow> loop_sim (aside n x) (worker_apply_primitive p m) (worker_apply_primitive p k)"
proof (induction v i m and a i m and p m arbitrary: k and k and k
    rule: worker_apply_worker_apply_wire_worker_apply_primitive.induct)
  case (3 p arity m)
  then show ?case
    by (auto simp: aside_fields intro!: sim_intros sim_apply_node split: option.split)
next
  case (6 a arity m)
  show ?case
  proof (cases "defuze (net m) (VWire a)")
    case (Inr r)
    obtain d h where r: "r = (d, h)" by fastforce
    then obtain g where g: "defuze (net k) (VWire a) = Inr (d, g)" and b: "beside n x h g"
      using res_simD [OF sim_defuze [OF aside_beside [OF 6(2)]] Inr] by (auto simp: with_beside_def)
    note a1 = aside_net [OF 6(2) b]
    show ?thesis
    proof (cases "is_wire d")
      case False
      then show ?thesis
        using 6(1) [OF arg_cong [OF Inr, of Some] r [symmetric] _ a1] by (simp add: worker_apply_wire.simps Inr r g)
    next
      case True
      then show ?thesis
        using sim_apply_open_wire [OF a1] by (simp add: worker_apply_wire_simps Inr r g)
    qed
  qed (simp add: worker_apply_wire.simps loop_sim_Inl)
next
  case (7 p m)
  show ?case
  proof (cases "at (primitives m) p")
    case (Some self)
    then have self: "at (primitives k) p = Some self"
      using aside_fields(2) [OF 7(2)] by simp
    show ?thesis
    proof (cases "\<exists>j. primitive_fn self = Primitive_fn (X_apply j)")
      case True
      then obtain j where j: "primitive_fn self = Primitive_fn (X_apply j)" by blast
      show ?thesis
      proof (cases "x_apply_target j m")
        case (Inr r)
        obtain t m1 where r: "r = (t, m1)" by fastforce
        then obtain k1 where "x_apply_target j k = Inr (t, k1)" "aside n x m1 k1"
          using res_simD [OF sim_x_apply_target [OF 7(2)] Inr] by (auto simp: with_aside_def)
        then show ?thesis
          using 7(1) [OF Some j refl arg_cong [OF Inr, of "Some"] r [symmetric]] by (simp add: worker_apply_primitive.simps Some self j Inr r)
      qed (simp add: worker_apply_primitive.simps Some self j loop_sim_Inl)
    next
      case False
      then show ?thesis
        using sim_x_connect [OF 7(2)] aside_x_link [OF 7(2)] sim_x_assert [OF 7(2)] sim_dup [OF 7(2)]
          sim_apply_value_fn [OF 7(2)]
        by (auto simp: worker_apply_primitive.simps Some self xint_dup_def xfloat_dup_def x_fn_dup_def
            split: primitive_fn.split worker_fn.split intro!: sim_intros)
    qed
  qed (simp add: worker_apply_primitive.simps loop_sim_Inl)
qed (auto intro!: sim_intros sim_apply_node sim_apply_function)

section \<open>Running\<close>

lemma aside_push_frame: "aside n x m k \<Longrightarrow> aside n x (push_frame fin frame m) (push_frame fin frame k)"
  by (simp add: push_frame_def aside_fields aside_updates)

lemma sim_execute_opcode:
  assumes a: "aside n x m k"
  shows "loop_sim (aside n x) (worker_execute_opcode op frame fin m) (worker_execute_opcode op frame fin k)"
proof (cases op)
  case (Op_apply arity)
  show ?thesis
    unfolding worker_execute_opcode_def Op_apply opcode.case
    by (rule loop_sim_lbnd [OF loop_sim_Some [OF sim_pop [OF aside_push_frame [OF a]]]])
      (auto dest!: with_aside_prod intro!: sim_apply(1))
next
  case (Op_set_variable i)
  show ?thesis
    unfolding worker_execute_opcode_def Op_set_variable opcode.case
    by (rule loop_sim_Some, rule res_sim_bnd [OF sim_pop [OF a]])
      (auto dest!: with_aside_prod intro!: res_sim_bnd_same res_sim_Inr aside_push_frame)
qed (auto simp: worker_execute_opcode_def intro!: sim_intros res_sim_bnd_same aside_push aside_push_frame a)

lemma sim_run_one_step:
  assumes a: "aside n x m k"
  shows "loop_sim (aside n x) (worker_run_one_step m) (worker_run_one_step k)"
proof (cases "return_stack k")
  case Nil
  then show ?thesis
    using a by (simp add: worker_run_one_step_def aside_fields [OF a] sim_intros)
next
  case (Cons frame frames)
  show ?thesis
    unfolding worker_run_one_step_def aside_fields(1,11) [OF a] Cons list.case
    by (rule loop_sim_lbnd_same [OF refl], split if_split, intro conjI impI)
      (auto intro!: loop_sim_lbnd_same sim_execute_opcode aside_updates(2) [OF a] sim_intros)
qed

lemma sim_run_until:
  assumes "aside n x m k"
  shows "loop_sim (aside n x) (worker_run_until base m) (worker_run_until base k)"
  unfolding loop_sim_def
proof (intro allI impI)
  fix y
  assume run: "worker_run_until base m = Some (Inr y)"
  define P where "P b m r \<longleftrightarrow> (\<forall>k y. aside n x m k \<longrightarrow> r = Inr y \<longrightarrow>
      (\<exists>z. worker_run_until b k = Some (Inr z) \<and> aside n x y z))" for b :: nat and m and r :: "machine res"
  have "P base m (Inr y)"
  proof (rule worker_run_until.raw_induct [of P, OF _ run])
    fix w b m r
    assume IH: "\<And>b m r. w b m = Some r \<Longrightarrow> P b m r"
      and run: "(if b < length (return_stack m) then lbnd (worker_run_one_step m) (\<lambda>m. w b m) else Some (Inr m)) = Some r"
    show "P b m r"
      unfolding P_def
    proof (intro allI impI)
      fix k y
      assume a: "aside n x m k" and r: "r = Inr y"
      show "\<exists>z. worker_run_until b k = Some (Inr z) \<and> aside n x y z"
      proof (cases "b < length (return_stack m)")
        case True
        then obtain m1 where m1: "worker_run_one_step m = Some (Inr m1)" "w b m1 = Some (Inr y)"
          using run r by (auto simp: lbnd_eq_Some_Inr)
        obtain k1 where "worker_run_one_step k = Some (Inr k1)" "aside n x m1 k1"
          using loop_simD [OF sim_run_one_step [OF a] m1(1)] by blast
        then show ?thesis
          using IH [OF m1(2)] True aside_fields(11) [OF a] unfolding P_def by (auto simp: worker_run_until_simps [of b k])
      next
        case False
        then show ?thesis
          using run r a aside_fields(11) [OF a] by (auto simp: worker_run_until_simps [of b k])
      qed
    qed
  qed
  then show "\<exists>z. worker_run_until base k = Some (Inr z) \<and> aside n x y z"
    using assms by (simp add: P_def)
qed

end
