(* ===== verification/Primitive_Task.thy ===== *)
theory Primitive_Task
  imports Set_Aside
begin

text \<open>
  What the handling of a primitive node's task is made of keeps the invariant: the arguments are
  copied from the ports to the stack, the primitive is applied and whatever it called is run, the
  results are connected to the wires at the output ports, and only then the node is recycled. In
  between the node holds values that the worker holds too; setting it aside makes them the worker's.
\<close>

section \<open>Setting the node aside\<close>

definition freed_elsewhere :: "nat \<Rightarrow> outside \<Rightarrow> outside" where
  "freed_elsewhere n F = F\<lparr>free_elsewhere := n # free_elsewhere F\<rparr>"

lemma freed_elsewhere_fields [simp]:
  "free_elsewhere (freed_elsewhere n F) = n # free_elsewhere F"
  "tasks_elsewhere (freed_elsewhere n F) = tasks_elsewhere F"
  by (simp_all add: freed_elsewhere_def)

definition no_principal :: "heap \<Rightarrow> nat \<Rightarrow> bool" where
  "no_principal h n \<longleftrightarrow> (\<forall>i a. port_value h n i \<noteq> VPrincipal a)"

lemma no_principal_nodes:
  assumes "net_ok h R" and np: "no_principal h n" and "cell (principal_wires h) a = Some q"
  shows "pw_node q \<noteq> n"
proof
  have "pw_placed h a q"
    using assms(1,3) by (simp add: net_ok_def)
  moreover assume "pw_node q = n"
  ultimately have "port_value h n (pw_index q) = VPrincipal a"
    by (auto simp: pw_placed_def port_value_def)
  then show False
    using np by (simp add: no_principal_def)
qed

text \<open>A blank node in the place of one without principal wires changes no other task.\<close>

lemma task_ready_blanked:
  assumes ok: "net_ok h R" and np: "no_principal h n" and n: "n < length (nodes h)"
    and u: "task_ready h u" and other: "Inr n \<notin> set (task_parts u)"
  shows "task_ready (set_node n x h) u"
proof -
  let ?h = "set_node n x h"
  have single: "single_node ?h k = single_node h k" "settled ?h k = settled h k" if "k \<noteq> n" for k
  proof -
    have e: "nodes ?h ! k = nodes h ! k" "node_ctors ?h = node_ctors h" "length (nodes ?h) = length (nodes h)"
      using that by simp_all
    show "single_node ?h k = single_node h k"
      unfolding single_node_def e by (rule refl)
    show "settled ?h k = settled h k"
      unfolding settled_def e by (rule refl)
  qed
  note node = no_principal_nodes [OF ok np]
  show ?thesis
  proof (cases u)
    case (Task_active_pair a b rule)
    with u show ?thesis
      using single node by (auto simp: task_ready_def pair_waits_iff)
  next
    case (Task_primitive k)
    with u other show ?thesis
      using single by (auto simp: task_ready_def task_parts_def)
  qed
qed

lemma orderly_blanked:
  assumes "orderly h" and "n < length (nodes h)" and "node_ctor_of x = None" "value_array x = []" "primitive_arg_count x = 0"
  shows "orderly (set_node n x h)"
proof (rule orderly_taken_apart [OF assms(1) _ assms(2)])
  show "taken_apart n h (set_node n x h)"
    using assms(3-5) by (auto simp: taken_apart_def)
qed

lemma nodes_complete_blanked:
  assumes "nodes_complete h" and "node_ctor_of x = None"
  shows "nodes_complete (set_node n x h)"
  unfolding nodes_complete_def
proof (intro allI impI)
  fix k c
  assume k: "k < length (nodes (set_node n x h)) \<and> node_ctor_of (nodes (set_node n x h) ! k) = Some c"
  then have "k \<noteq> n"
    using assms(2) by auto
  then have "nodes (set_node n x h) ! k = nodes h ! k"
    by simp
  moreover from this have "node_complete h k c"
    using assms(1) k by (simp add: nodes_complete_def)
  ultimately show "node_complete (set_node n x h) k c"
    by (simp add: node_complete_def node_has_def port_value_def)
qed

text \<open>The ports of a complete node, as a list.\<close>

lemma complete_values:
  assumes ok: "net_ok h R" and n: "node_complete h n c"
  shows "length (value_array (nodes h ! n)) = ctor_arity (node_ctors h ! c) \<and> VNull \<notin> set (value_array (nodes h ! n))"
proof -
  let ?vs = "value_array (nodes h ! n)"
  have full: "\<forall>i < ctor_arity (node_ctors h ! c). port_value h n i \<noteq> VNull" and has: "node_has h n c"
    using n by (simp_all add: node_complete_def)
  have le: "length ?vs \<le> ctor_arity (node_ctors h ! c)"
    using ok has by (auto simp: net_ok_def node_has_def node_ok_def split: option.splits)
  moreover have "ctor_arity (node_ctors h ! c) \<le> length ?vs"
    using full by (cases "ctor_arity (node_ctors h ! c)")
      (auto simp: port_value_def slot_def dest!: spec [of _ "ctor_arity (node_ctors h ! c) - 1"] split: if_splits)
  moreover have "?vs ! i \<noteq> VNull" if "i < length ?vs" for i
    using full that le by (auto simp: port_value_def slot_def dest!: spec [of _ i])
  ultimately show ?thesis
    by (auto simp: in_set_conv_nth)
qed

lemma net_ok_blanked:
  assumes ok: "net_ok h R" and n: "n < length (nodes h)" and np: "no_principal h n"
    and x: "node_ctor_of x = None" "value_array x = []"
  shows "net_ok (set_node n x h) (value_array (nodes h ! n) @ R)"
proof -
  let ?h = "set_node n x h"
  have r: "refs ?h (value_array (nodes h ! n) @ R) v = refs h R v" for v
    using node_refs_update [OF n, of x v] x(2) by (simp add: refs_def)
  have "pw_placed ?h a p" if "pw_placed h a p" for a p
    using that np by (cases "pw_node p = n") (auto simp: pw_placed_def no_principal_def port_value_def)
  then show ?thesis
    using ok r x set_update_subset_insert [of "nodes h" n x]
    by (auto simp: net_ok_def linear_def node_ok_def)
qed

lemma settled_no_principal:
  assumes "orderly h" and "nodes_ok h" and "settled h n"
  shows "no_principal h n"
  using waiting_not_settled [OF assms(1,2)] assms(3) by (auto simp: no_principal_def settled_def)

lemma machine_ok_set_aside:
  assumes held: "machine_ok (hold (Task_primitive n) F) L m"
  shows "\<exists>x c p k. x = nodes (net m) ! n \<and> k = m\<lparr>net := set_node n (node_clean x) (net m)\<rparr> \<and>
    node_ctor_of x = Some c \<and> ctor_of_node (net m) n = Inr (node_ctors (net m) ! c) \<and>
    ctor_primitive (node_ctors (net m) ! c) = Some p \<and> p < length (primitives m) \<and>
    ctor_arity (node_ctors (net m) ! c) = input_arity (primitives m ! p) + output_arity (primitives m ! p) \<and>
    length (value_array x) = ctor_arity (node_ctors (net m) ! c) \<and> n < length (nodes (net m)) \<and>
    VNull \<notin> set (value_array x) \<and> aside n x m k \<and> machine_ok (freed_elsewhere n F) (value_array x @ L) k"
proof -
  have ok: "machine_ok F L m" and ready: "settled (net m) n"
    and free: "\<forall>u \<in> set (tasks_elsewhere F @ task_queue m). Inr n \<notin> set (task_parts u)"
    using held by (auto simp: machine_ok_def stack_ok_hold task_ready_def task_parts_def)
  let ?R = "frame_vars (return_stack m) @ L"
  have net: "net_ok (net m) (value_stack m @ ?R)" and ord: "orderly (net m)"
    and al: "alloc_ok (free_elsewhere F) (node_alloc m) (free_node_stack m) (net m)"
    and complete: "nodes_complete (net m)" and tasks: "tasks_ready (net m) (tasks_elsewhere F @ task_queue m)"
    using ok by (simp_all add: machine_ok_def stack_ok_def tasks_ok_def)
  let ?x = "nodes (net m) ! n"
  let ?h = "set_node n (node_clean ?x) (net m)"
  let ?k = "m\<lparr>net := ?h\<rparr>"
  obtain c p where n: "n < length (nodes (net m))" and c: "node_ctor_of ?x = Some c" "c < length (node_ctors (net m))"
    and p: "ctor_primitive (node_ctors (net m) ! c) = Some p"
    using ready by (auto simp: settled_def split: option.splits)
  have np: "no_principal (net m) n"
    by (rule settled_no_principal [OF ord net_ok_nodes_ok [OF net] ready])
  have nc: "node_complete (net m) n c"
    using complete n c(1) by (simp add: nodes_complete_def)
  have p': "p < length (primitives m)"
      "ctor_arity (node_ctors (net m) ! c) = input_arity (primitives m ! p) + output_arity (primitives m ! p)"
    using ok p c(2) by (auto simp: machine_ok_def stack_ok_def apply_prims_ok_def)
  have off: "n \<notin> set (free_nodes (free_elsewhere F) (node_alloc m) (free_node_stack m))"
    using al c(1) by (auto simp: alloc_ok_def blank_def)
  have clean: "node_ctor_of (node_clean ?x) = None" "value_array (node_clean ?x) = []"
      "primitive_arg_count (node_clean ?x) = 0" "blank (node_clean ?x)"
    by (simp_all add: node_clean_def blank_def)
  have "net_ok ?h (value_array ?x @ value_stack m @ ?R)"
    by (rule net_ok_blanked [OF net n np clean(1,2)])
  then have 1: "net_ok ?h (value_stack m @ frame_vars (return_stack m) @ value_array ?x @ L)"
    by (rule net_ok_roots_cong) simp
  have 2: "alloc_ok (free_elsewhere (freed_elsewhere n F)) (node_alloc m) (free_node_stack m) ?h"
    using al off n clean(4) by (auto simp: alloc_ok_def free_nodes_def nth_list_update)
  have 3: "nodes_complete ?h"
    by (rule nodes_complete_blanked [OF complete clean(1)])
  have 4: "tasks_ok (freed_elsewhere n F) ?k"
    using orderly_blanked [OF ord n clean(1-3)] task_ready_blanked [OF net np n] tasks free
    by (auto simp: tasks_ok_def tasks_ready_def)
  have "machine_ok (freed_elsewhere n F) (value_array ?x @ L) ?k"
    using ok 1 2 3 4 by (simp add: machine_ok_def stack_ok_def apply_prims_ok_def)
  moreover have "aside n ?x m ?k"
  proof -
    have "foreign n ?h"
      using n no_principal_nodes [OF net np] by (simp add: foreign_def)
    moreover have "m = ?k\<lparr>net := set_node n ?x (net ?k)\<rparr>"
      by (simp add: set_node_def)
    ultimately show ?thesis
      using off by (simp add: aside_def kept_off_def free_nodes_def)
  qed
  moreover have "ctor_of_node (net m) n = Inr (node_ctors (net m) ! c)"
    using nc by (simp add: node_complete_def ctor_of_node_has)
  ultimately show ?thesis
    using c(1) p p' n complete_values [OF net nc]
    by (intro exI [of _ ?x] exI [of _ c] exI [of _ p] exI [of _ ?k]) simp
qed

section \<open>Applying the primitive\<close>

lemma stack_ok_x_assert:
  assumes ok: "stack_ok F R m" and run: "x_assert m = Inr m'"
  shows "\<exists>v. stack_ok F (v # R) m' \<and> app_step m m'"
proof -
  obtain v where v: "worker_pop m = Inr (v, m')"
    using run by (auto simp: x_assert_def bnd_eq_Inr split: if_splits)
  show ?thesis
    using stack_ok_pop [OF ok v] by (auto simp: app_step_def)
qed

lemma stack_ok_dup:
  assumes ok: "stack_ok F R m" and run: "dup_when test m = Inr m'"
    and test: "\<And>v. v \<noteq> VNull \<Longrightarrow> test v \<Longrightarrow> is_non_wire v"
  shows "stack_ok F R m' \<and> app_step m m'"
proof -
  obtain v vs where v: "value_stack m = v # vs" "test v" "m' = worker_push v m"
    using run by (auto simp: dup_when_def worker_top_def bnd_eq_Inr asserting_eq_Inr split: list.splits)
  moreover from this have "v \<noteq> VNull"
    using ok by (auto simp: stack_ok_def)
  ultimately show ?thesis
    using stack_ok_push_non_wire [OF ok] test by (simp add: app_step_def worker_push_def)
qed

lemma stack_ok_take_from_stack:
  assumes ok: "stack_ok F R m" and same: "same_roots (value_stack m) (vs @ ws)" and sub: "set vs \<subseteq> set (value_stack m)"
  shows "stack_ok F (ws @ R) (m\<lparr>value_stack := vs\<rparr>)"
proof -
  have "net_ok (net m) (vs @ ws @ R)"
    using ok same net_ok_same_roots [of "net m" "value_stack m @ R" "vs @ ws @ R"]
    by (simp add: stack_ok_def same_roots_def)
  then show ?thesis
    using ok sub by (auto simp: stack_ok_def apply_prims_ok_def)
qed

lemma stack_ok_x_apply_target:
  assumes ok: "stack_ok F R m" and run: "x_apply_target n m = Inr (t, m1)"
  shows "stack_ok F (t # R) m1 \<and> return_stack m1 = return_stack m \<and> function_objects m1 = function_objects m"
proof -
  let ?vs = "take n (value_stack m) @ drop (Suc n) (value_stack m)"
  have t: "n < length (value_stack m)" "t = value_stack m ! n" "m1 = m\<lparr>value_stack := ?vs\<rparr>"
    using run by (auto simp: x_apply_target_def asserting_eq_Inr)
  have "same_roots (value_stack m) (?vs @ [t])"
    unfolding same_roots_def
  proof (intro allI impI)
    fix v
    have "count_list (value_stack m) v
        = count_list (take n (value_stack m) @ t # drop (Suc n) (value_stack m)) v"
      using arg_cong [OF id_take_nth_drop [OF t(1)], of "\<lambda>xs. count_list xs v"] t(2) by simp
    also have "\<dots> = count_list (?vs @ [t]) v"
      by simp
    finally show "count_list (value_stack m) v = count_list (?vs @ [t]) v" .
  qed
  then have "stack_ok F ([t] @ R) (m\<lparr>value_stack := ?vs\<rparr>)"
    by (rule stack_ok_take_from_stack [OF ok]) (auto dest: in_set_takeD in_set_dropD)
  with t(3) show ?thesis by simp
qed

lemma stack_ok_pop_args:
  assumes ok: "stack_ok F R m" and run: "pop_args n m = Inr (vs, m1)"
  shows "stack_ok F (vs @ R) m1 \<and> return_stack m1 = return_stack m \<and> function_objects m1 = function_objects m"
proof -
  have t: "vs = rev (take n (value_stack m))" "m1 = m\<lparr>value_stack := drop n (value_stack m)\<rparr>"
    using run by (auto simp: pop_args_def asserting_eq_Inr)
  have "count_list (value_stack m) v = count_list (drop n (value_stack m) @ rev (take n (value_stack m))) v" for v
    using count_list_append [of "take n (value_stack m)" "drop n (value_stack m)" v] by simp
  then have "same_roots (value_stack m) (drop n (value_stack m) @ vs)"
    by (simp add: same_roots_def t(1))
  then have "stack_ok F (vs @ R) (m\<lparr>value_stack := drop n (value_stack m)\<rparr>)"
    by (rule stack_ok_take_from_stack [OF ok]) (auto dest: in_set_dropD)
  with t(2) show ?thesis by simp
qed

lemma stack_ok_push_result:
  assumes "stack_ok F R m" and "is_non_wire v"
  shows "stack_ok F R (push_result v m) \<and> app_step m (push_result v m)"
  using assms stack_ok_push_non_wire by (simp add: push_result_def app_step_def worker_push_def)

lemma stack_ok_apply_value_fn:
  assumes ok: "stack_ok F R m" and results: "results_ok fn" and run: "apply_value_fn fn m = Inr m'"
  shows "\<exists>L'. stack_ok F (L' @ R) m' \<and> app_step m m'"
proof -
  have popped: "\<exists>L'. stack_ok F (L' @ R) (push_result r m1) \<and> app_step m (push_result r m1)"
    if "pop_args n m = Inr (vs, m1)" "is_non_wire r" for n vs m1 r
    using stack_ok_pop_args [OF ok that(1)] stack_ok_push_result [OF _ that(2), of F "vs @ R" m1]
    by (auto simp: app_step_def)
  show ?thesis
    using run results popped stack_ok_push_result [OF ok]
    by (cases fn) (fastforce simp: apply_value_fn_def results_ok_def bnd_eq_Inr intro: exI [of _ "[]"])+
qed

lemma dup_tests:
  assumes "v \<noteq> VNull"
  shows "is_xint (value_bits v) \<Longrightarrow> is_non_wire v" "is_xfloat (value_bits v) \<Longrightarrow> is_non_wire v"
    "is_function v \<Longrightarrow> is_non_wire v"
  using assms by (cases v; simp add: value_bits_def is_xint_def is_xfloat_def is_function_def is_non_wire_def
      is_wire_def is_principal_wire_def value_tag_def TAG_MASK_def)+

lemma stack_ok_apply_any_primitive:
  assumes ok: "stack_ok F R m" and run: "worker_apply_primitive p m = Some (Inr m')"
  shows "\<exists>L'. stack_ok F (L' @ R) m' \<and> app_step m m'"
proof -
  obtain self where self: "at (primitives m) p = Some self"
    using run by (cases "at (primitives m) p") (simp_all add: worker_apply_primitive.simps)
  have results: "results_ok (primitive_fn self)"
    using ok self by (auto simp: stack_ok_def prims_ok_def at_Some_iff)
  have same: "\<exists>L'. stack_ok F (L' @ R) m' \<and> app_step m m'" if "stack_ok F R m' \<and> app_step m m'"
    using that by (intro exI [of _ "[]"]) simp
  note step = run [unfolded worker_apply_primitive.simps [of p m] self option.case]
  show ?thesis
  proof (cases "primitive_fn self")
    case (Primitive_fn f)
    show ?thesis
    proof (cases f)
      case X_connect
      then show ?thesis
        using step Primitive_fn stack_ok_x_connect [OF ok] by (intro same) simp
    next
      case X_link
      then show ?thesis
        using step Primitive_fn stack_ok_x_link [OF ok] by (intro same) simp
    next
      case X_assert
      then obtain v where "stack_ok F (v # R) m' \<and> app_step m m'"
        using step Primitive_fn stack_ok_x_assert [OF ok] by auto
      then show ?thesis
        by (intro exI [of _ "[v]"]) simp
    next
      case X_int_dup
      then show ?thesis
        using step Primitive_fn stack_ok_dup [OF ok, of "\<lambda>v. is_xint (value_bits v)"] dup_tests(1)
        by (intro same) (simp add: xint_dup_def)
    next
      case X_float_dup
      then show ?thesis
        using step Primitive_fn stack_ok_dup [OF ok, of "\<lambda>v. is_xfloat (value_bits v)"] dup_tests(2)
        by (intro same) (simp add: xfloat_dup_def)
    next
      case X_fn_dup
      then show ?thesis
        using step Primitive_fn stack_ok_dup [OF ok, of is_function] dup_tests(3)
        by (intro same) (simp add: x_fn_dup_def)
    next
      case (X_apply n)
      then obtain t m1 where t: "x_apply_target n m = Inr (t, m1)" and a: "worker_apply t n m1 = Some (Inr m')"
        using step Primitive_fn by (auto simp: lbnd_eq_Some_Inr)
      show ?thesis
        using stack_ok_x_apply_target [OF ok t] stack_ok_apply [OF _ a, of F R]
        by (intro same) (simp add: app_step_def)
    qed
  qed (use step stack_ok_apply_value_fn [OF ok results] in simp_all)
qed

section \<open>The arguments and the results\<close>

lemma push_inputs_spec:
  assumes x: "nodes (net m) ! n = x" and n: "n < length (nodes (net m))"
    and c: "ctor_of_node (net m) n = Inr c" "ctor_arity c = length (value_array x)"
    and le: "index + count \<le> length (value_array x)"
  shows "push_inputs n index count m = Inr (m\<lparr>value_stack :=
    rev (take count (drop index (value_array x))) @ value_stack m\<rparr>)"
  using assms
proof (induction count arbitrary: index m)
  case (Suc count)
  let ?v = "value_array x ! index"
  have i: "index < length (value_array x)"
    using Suc.prems(5) by simp
  have "node_ctor_of x \<noteq> None"
    using Suc.prems by (auto simp: ctor_of_node_def at_def deref_eq_Inr)
  then have "node_get_value (net m) n index = Inr ?v"
    using Suc.prems i by (auto simp: node_get_value_def at_def slot_def)
  moreover have "push_inputs n (Suc index) count (worker_push ?v m) = Inr ((worker_push ?v m)\<lparr>value_stack :=
      rev (take count (drop (Suc index) (value_array x))) @ value_stack (worker_push ?v m)\<rparr>)"
    using Suc.prems by (intro Suc.IH) (simp_all add: worker_push_def)
  moreover have "take (Suc count) (drop index (value_array x))
      = ?v # take count (drop (Suc index) (value_array x))"
    using i by (simp add: Cons_nth_drop_Suc [symmetric])
  ultimately show ?case
    by (simp add: worker_push_def)
qed simp

lemma stack_ok_push_values:
  assumes ok: "stack_ok F (vs @ R) m" and "VNull \<notin> set vs"
  shows "stack_ok F R (m\<lparr>value_stack := rev vs @ value_stack m\<rparr>)"
proof -
  have "net_ok (net m) ((rev vs @ value_stack m) @ R)"
    using ok net_ok_roots_cong [of "net m" "value_stack m @ vs @ R" "(rev vs @ value_stack m) @ R"]
    by (simp add: stack_ok_def)
  then show ?thesis
    using assms by (simp add: stack_ok_def apply_prims_ok_def)
qed

text \<open>The wires at the output ports are connected to the results, whatever happens to the node.\<close>

lemma stack_ok_connect_outputs:
  assumes "aside n x m k" and "stack_ok F (take count (drop inputs (value_array x)) @ R) k"
    and "connect_outputs n inputs count m = Inr m'" and "VNull \<notin> set (value_array x)"
  shows "\<exists>k'. aside n x m' k' \<and> stack_ok F R k' \<and> return_stack k' = return_stack k \<and>
    function_objects k' = function_objects k"
  using assms(1-3)
proof (induction count arbitrary: m k)
  case (Suc count)
  let ?vs = "drop inputs (value_array x)"
  obtain v w r m1 m2 where v: "node_get_value (net m) n (inputs + count) = Inr v" "as_wire v = Inr w"
    and r: "worker_pop m = Inr (r, m1)" and c: "worker_connect (VWire w) r m1 = Inr m2"
    and rest: "connect_outputs n inputs count m2 = Inr m'"
    using Suc.prems(3) by (auto simp: bnd_eq_Inr)
  have w: "v = VWire w"
    using v(2) by (cases v) (simp_all add: as_wire_def)
  have node: "nodes (net m) ! n = x"
    using Suc.prems(1) by (auto simp: aside_def foreign_def)
  have "v = slot VNull (value_array x) (inputs + count)"
    using v(1) node by (auto simp: node_get_value_def deref_eq_Inr asserting_eq_Inr at_Some_iff)
  then have at: "count < length ?vs" "?vs ! count = VWire w"
    using w by (auto simp: slot_def split: if_splits)
  obtain k1 where k1: "worker_pop k = Inr (r, k1)" "aside n x m1 k1"
    using res_simD [OF sim_pop [OF Suc.prems(1)] r] by (auto simp: with_aside_def)
  obtain k2 where k2: "worker_connect (VWire w) r k1 = Inr k2" "aside n x m2 k2"
    using res_simD [OF sim_worker_connect [OF k1(2)] c] by blast
  note popped = stack_ok_pop [OF Suc.prems(2) k1(1)]
  have "take (Suc count) ?vs = take count ?vs @ [VWire w]"
    using at by (simp add: take_Suc_conv_app_nth)
  then have "stack_ok F (VWire w # r # take count ?vs @ R) k1"
    using popped stack_ok_same_roots [of F _ k1 "VWire w # r # take count ?vs @ R"]
    by (auto simp: same_roots_def)
  then have ok2: "stack_ok F (take count ?vs @ R) k2"
    using stack_ok_worker_connect [OF _ _ _ k2(1)] popped by blast
  have "return_stack k2 = return_stack k1" "function_objects k2 = function_objects k1"
    using k2(1) by (auto simp: worker_connect_def bnd_eq_Inr add_found_task_def worker_add_task_def Let_def
        split: option.splits)
  then show ?case
    using Suc.IH [OF k2(2) ok2 rest] popped by auto
qed auto

section \<open>Recycling the node\<close>

lemma stack_ok_recycle_aside:
  assumes a: "aside n x m k" and ok: "stack_ok (freed_elsewhere n F) R k"
    and run: "worker_recycle_node n m = Inr m'"
  shows "stack_ok F R m' \<and> return_stack m' = return_stack k \<and> function_objects m' = function_objects k"
proof -
  let ?y = "node_clean x"
  let ?h = "set_node n ?y (net k)"
  have net: "net_ok (net k) (value_stack k @ R)"
    and al: "alloc_ok (n # free_elsewhere F) (node_alloc k) (free_node_stack k) (net k)"
    and complete: "nodes_complete (net k)" and ord: "orderly (net k)"
    and tasks: "tasks_ready (net k) (tasks_elsewhere F @ task_queue k)"
    using ok by (simp_all add: stack_ok_def tasks_ok_def)
  have n: "n < length (nodes (net k))" "blank (nodes (net k) ! n)"
    "n \<notin> set (free_nodes (free_elsewhere F) (node_alloc k) (free_node_stack k))"
    using al by (auto simp: alloc_ok_def free_nodes_def)
  have clean: "node_ctor_of ?y = None" "value_array ?y = []" "primitive_arg_count ?y = 0" "blank ?y"
      "node_clean ?y = ?y"
    by (simp_all add: node_clean_def blank_def)
  have np: "no_principal (net k) n"
    using n(2) by (simp add: no_principal_def port_value_def slot_def blank_def)
  have net': "net_ok ?h (value_stack k @ R)"
    using n(2) clean by (intro net_ok_set_empty_node [OF net n(1)]) (simp_all add: blank_def node_ok_def)
  have al': "alloc_ok (free_elsewhere F) (node_alloc k) (free_node_stack k) ?h"
    using al by (intro alloc_ok_set_node [OF _ n(3)]) (auto simp: alloc_ok_def free_nodes_def)
  have "task_ready ?h u" if "task_ready (net k) u" for u
  proof (rule task_ready_blanked [OF net np n(1) that])
    show "Inr n \<notin> set (task_parts u)"
      using that n(2) by (cases u) (auto simp: task_ready_def task_parts_def settled_def blank_def)
  qed
  then have tasks': "tasks_ready ?h (tasks_elsewhere F @ task_queue k)"
    using tasks by (simp add: tasks_ready_def)
  have m: "m = k\<lparr>net := set_node n x (net k)\<rparr>"
    using a by (simp add: aside_def)
  have same: "worker_recycle_node n m = worker_recycle_node n (k\<lparr>net := ?h\<rparr>)"
    using n(1) by (simp add: m worker_recycle_node_def node_allocator_recycle_def at_def set_node_def clean)
  obtain h alloc st where r: "worker_recycle_node n (k\<lparr>net := ?h\<rparr>)
      = Inr (k\<lparr>net := h, node_alloc := alloc, free_node_stack := st\<rparr>)"
    and h: "alloc_ok (free_elsewhere F) alloc st h"
    using worker_recycle_node_ok [of "free_elsewhere F" "k\<lparr>net := ?h\<rparr>" "value_stack k @ R" n] al' net' n clean
    by auto
  then have "net (k\<lparr>net := h, node_alloc := alloc, free_node_stack := st\<rparr>) = ?h"
    using n(1) by (auto simp: worker_recycle_node_def node_allocator_recycle_def at_def set_node_def clean
        bnd_eq_Inr dest!: arg_cong [of _ _ net])
  then have "h = ?h" by simp
  moreover have "m' = k\<lparr>net := h, node_alloc := alloc, free_node_stack := st\<rparr>"
    using run r same by simp
  moreover have "orderly ?h" "nodes_complete ?h"
    using orderly_blanked [OF ord n(1) clean(1-3)] nodes_complete_blanked [OF complete clean(1)] by simp_all
  ultimately show ?thesis
    using ok net' tasks' h by (simp add: stack_ok_def tasks_ok_def apply_prims_ok_def)
qed

section \<open>Running what the primitive called\<close>

lemma stack_ok_primitive_run:
  assumes ok: "machine_ok F L m" and p: "worker_apply_primitive p m = Some (Inr m1)"
    and run: "worker_run_until (length (return_stack m)) m1 = Some (Inr m2)"
  shows "\<exists>L'. machine_ok F (L' @ L) m2 \<and> length (return_stack m2) \<le> length (return_stack m)"
proof -
  obtain L1 where "stack_ok F (L1 @ frame_vars (return_stack m) @ L) m1" and step: "app_step m m1"
    using stack_ok_apply_any_primitive [OF _ p] ok unfolding machine_ok_def by blast
  then have "stack_ok F (frame_vars (return_stack m) @ L1 @ L) m1"
    using stack_ok_same_roots [of F _ m1 "frame_vars (return_stack m) @ L1 @ L"] by (simp add: same_roots_def)
  then have "machine_ok F (L1 @ L) m1"
    using step ok by (auto simp: machine_ok_def app_step_def frame_new_def)
  from machine_ok_run_until [OF this run] obtain L2
    where "machine_ok F (L2 @ L1 @ L) m2" "length (return_stack m2) \<le> length (return_stack m)"
    by blast
  then show ?thesis
    by (intro exI [of _ "L2 @ L1"]) simp
qed

end
