(* ===== verification/Task_Pieces.thy ===== *)
theory Task_Pieces
  imports Primitive_Task
begin

text \<open>
  The handling of a task in three parts: what is done before its frames run, the frames, and what is
  done when they have returned. Several nodes can be set aside at once, one for each worker that is
  between the parts.
\<close>

section \<open>Handling a task in steps\<close>

datatype handling =
    Idle
  | Running
  | Finishing nat primitive

definition begin_task :: "task \<Rightarrow> machine \<Rightarrow> (handling \<times> machine) loop" where
  "begin_task t m =
     (case t of
        Task_active_pair left right rule \<Rightarrow>
          Some (bnd (disconnect_pair left right m) (\<lambda>m.
            Inr (Running, m\<lparr>return_stack := frame_new (rule_function rule) # return_stack m\<rparr>)))
      | Task_primitive n \<Rightarrow>
          lbnd (Some (ctor_of_node (net m) n)) (\<lambda>c.
          case ctor_primitive c of
            None \<Rightarrow> Some (Inl Assert_failed)
          | Some p \<Rightarrow>
              lbnd (Some (deref (at (primitives m) p) Inr)) (\<lambda>self.
              lbnd (Some (push_inputs n 0 (input_arity self) m)) (\<lambda>m.
              lbnd (worker_apply_primitive p m) (\<lambda>m. Some (Inr (Finishing n self, m)))))))"

definition end_task :: "handling \<Rightarrow> machine \<Rightarrow> machine res" where
  "end_task p m =
     (case p of
        Finishing n self \<Rightarrow>
          bnd (connect_outputs n (input_arity self) (output_arity self) m) (worker_recycle_node n)
      | _ \<Rightarrow> Inr m)"

lemma lbnd_assoc: "lbnd (lbnd r f) g = lbnd r (\<lambda>x. lbnd (f x) g)"
  by (cases r) (auto simp: lbnd_def split: sum.splits)

lemma lbnd_Some_bnd: "lbnd (Some (bnd r f)) g = lbnd (Some r) (\<lambda>x. lbnd (Some (f x)) g)"
  by (cases r) (simp_all add: lbnd_def)

lemma lbnd_Some_Some: "lbnd (Some r) (\<lambda>x. Some (f x)) = Some (bnd r f)"
  by (cases r) (simp_all add: lbnd_def)

lemma push_inputs_return_stack: "push_inputs n i k m = Inr m' \<Longrightarrow> return_stack m' = return_stack m"
  by (induction k arbitrary: i m) (auto simp: bnd_eq_Inr worker_push_def)

text \<open>The pieces, one after the other, are the handler.\<close>

lemma lbnd_cong_Inr: "(\<And>x. r = Some (Inr x) \<Longrightarrow> f x = g x) \<Longrightarrow> lbnd r f = lbnd r g"
  by (cases r) (auto simp: lbnd_def split: sum.splits)

lemma handle_task_pieces:
  "worker_handle_task t m =
     lbnd (begin_task t m) (\<lambda>(p, m1).
     lbnd (worker_run_until (length (return_stack m)) m1) (\<lambda>m2. Some (end_task p m2)))"
proof (cases t)
  case (Task_active_pair left right rule)
  show ?thesis
  proof (cases "disconnect_pair left right m")
    case (Inr m1)
    have run: "lbnd r (\<lambda>m2. Some (Inr m2)) = r" for r :: "machine loop"
      by (cases r) (auto simp: lbnd_def split: sum.splits)
    have "return_stack m1 = return_stack m"
      using Inr by (auto simp: disconnect_pair_def worker_disconnect_node_def worker_recycle_node_def
          bnd_eq_Inr deref_eq_Inr)
    then show ?thesis
      using Task_active_pair Inr
      by (simp add: worker_handle_task_def handle_active_pair_disconnect begin_task_def end_task_def
          call_function_def run)
  qed (simp add: Task_active_pair worker_handle_task_def handle_active_pair_disconnect begin_task_def)
next
  case (Task_primitive n)
  show ?thesis
    unfolding Task_primitive worker_handle_task_def worker_handle_task_primitive_def begin_task_def end_task_def
      task.case lbnd_assoc
    by (rule lbnd_cong_Inr, split option.split)
      (auto simp: lbnd_assoc lbnd_Some_Some push_inputs_return_stack intro!: lbnd_cong_Inr)
qed

section \<open>Setting several nodes aside\<close>

text \<open>The heaps agree on all but the nodes of the list.\<close>

definition same_outside :: "nat list \<Rightarrow> heap \<Rightarrow> heap \<Rightarrow> bool" where
  "same_outside N h g \<longleftrightarrow>
     wires h = wires g \<and> principal_wires h = principal_wires g \<and> node_ctors h = node_ctors g \<and>
     length (nodes h) = length (nodes g) \<and>
     (\<forall>i < length (nodes g). i \<notin> set N \<longrightarrow> nodes h ! i = nodes g ! i)"

lemma heap_eqI:
  assumes "wires h = wires g" "principal_wires h = principal_wires g" "node_ctors h = node_ctors g"
    "length (nodes h) = length (nodes g)" "\<And>i. i < length (nodes g) \<Longrightarrow> nodes h ! i = nodes g ! i"
  shows "h = (g :: heap)"
proof -
  have "nodes h = nodes g"
    using assms(4,5) by (simp add: list_eq_iff_nth_eq)
  with assms(1-3) show ?thesis by simp
qed

lemma same_outside_Nil [simp]: "same_outside [] h g \<longleftrightarrow> h = g"
  by (auto simp: same_outside_def intro: heap_eqI)

text \<open>The first of the nodes, and the last.\<close>

lemma same_outside_Cons:
  assumes "same_outside (n # N) h g" and "n < length (nodes g)" and "n \<notin> set N"
  shows "same_outside N (set_node n (nodes g ! n) h) g \<and>
    h = set_node n (nodes h ! n) (set_node n (nodes g ! n) h)"
  using assms by (auto simp: same_outside_def nth_list_update intro!: heap_eqI)

lemma same_outside_set_node:
  assumes "same_outside N h g" and "n < length (nodes g)"
  shows "same_outside (n # N) (set_node n x h) g"
  using assms by (auto simp: same_outside_def nth_list_update)

definition asides :: "nat list \<Rightarrow> machine \<Rightarrow> machine \<Rightarrow> bool" where
  "asides N m k \<longleftrightarrow> distinct N \<and> same_outside N (net m) (net k) \<and> k\<lparr>net := net m\<rparr> = m \<and>
     (\<forall>n \<in> set N. foreign n (net k) \<and> kept_off n (node_alloc k) (free_node_stack k))"

lemma asides_nil [simp]: "asides [] m k \<longleftrightarrow> m = k"
  by (auto simp: asides_def)

lemma asides_set: "asides N m k \<Longrightarrow> set N' = set N \<Longrightarrow> distinct N' \<Longrightarrow> asides N' m k"
  by (simp add: asides_def same_outside_def)

lemma asides_fields:
  assumes "asides N m k"
  shows "function_objects m = function_objects k" "primitives m = primitives k"
    "apply_primitives m = apply_primitives k" "value_hash m = value_hash k" "node_alloc m = node_alloc k"
    "free_node_stack m = free_node_stack k" "task_queue m = task_queue k" "task_queue_size m = task_queue_size k"
    "task_count m = task_count k" "value_stack m = value_stack k" "return_stack m = return_stack k"
proof -
  have m: "k\<lparr>net := net m\<rparr> = m"
    using assms by (simp add: asides_def)
  show "function_objects m = function_objects k" "primitives m = primitives k"
      "apply_primitives m = apply_primitives k" "value_hash m = value_hash k" "node_alloc m = node_alloc k"
      "free_node_stack m = free_node_stack k" "task_queue m = task_queue k" "task_queue_size m = task_queue_size k"
      "task_count m = task_count k" "value_stack m = value_stack k" "return_stack m = return_stack k"
    by (subst m [symmetric], simp)+
qed

lemma foreign_same: "same_outside N h g \<Longrightarrow> foreign n h \<longleftrightarrow> foreign n g"
  by (simp add: foreign_def same_outside_def)

lemma asides_Cons:
  assumes "asides (n # N) m k"
  shows "\<exists>m1. aside n (nodes (net m) ! n) m m1 \<and> asides N m1 k \<and>
    (\<forall>j \<in> set N. nodes (net m1) ! j = nodes (net m) ! j)"
proof -
  let ?h = "set_node n (nodes (net k) ! n) (net m)"
  let ?m1 = "k\<lparr>net := ?h\<rparr>"
  have same: "same_outside (n # N) (net m) (net k)" and m: "k\<lparr>net := net m\<rparr> = m"
    and n: "n \<notin> set N" "distinct N"
    and off: "\<forall>j \<in> set (n # N). foreign j (net k) \<and> kept_off j (node_alloc k) (free_node_stack k)"
    using assms by (auto simp: asides_def)
  have len: "n < length (nodes (net k))"
    using off by (simp add: foreign_def)
  note split = same_outside_Cons [OF same len n(1)]
  have "m = ?m1\<lparr>net := set_node n (nodes (net m) ! n) (net ?m1)\<rparr>"
    using m [symmetric] arg_cong [OF conjunct2 [OF split], of "\<lambda>h. k\<lparr>net := h\<rparr>"]
    by (metis machine.select_convs(1) machine.surjective machine.update_convs(1))
  moreover have "foreign n (net ?m1)" "kept_off n (node_alloc ?m1) (free_node_stack ?m1)"
    using split off foreign_same [of N ?h "net k" n] by simp_all
  ultimately have "aside n (nodes (net m) ! n) m ?m1"
    unfolding aside_def by blast
  moreover have "asides N ?m1 k"
    using split off n by (simp add: asides_def)
  moreover have "\<forall>j \<in> set N. nodes (net ?m1) ! j = nodes (net m) ! j"
    using n(1) by (metis machine.select_convs(1) machine.surjective machine.update_convs(1) nth_list_update_neq set_node_fields(4))
  ultimately show ?thesis by blast
qed

lemma aside_Cons:
  assumes a: "aside n x m m1" and as: "asides N m1 k" and n: "n \<notin> set N"
  shows "asides (n # N) m k \<and> nodes (net m) ! n = x \<and> (\<forall>j \<in> set N. nodes (net m) ! j = nodes (net m1) ! j)"
proof -
  have m: "m = m1\<lparr>net := set_node n x (net m1)\<rparr>" and m1: "k\<lparr>net := net m1\<rparr> = m1"
    and off: "foreign n (net m1)" "kept_off n (node_alloc m1) (free_node_stack m1)"
    and same: "same_outside N (net m1) (net k)"
    using a as by (simp_all add: aside_def asides_def)
  have "k\<lparr>net := net m\<rparr> = k\<lparr>net := net m1, net := net m\<rparr>"
    by simp
  also have "\<dots> = m1\<lparr>net := net m\<rparr>"
    by (simp only: m1)
  also have "\<dots> = m"
    using m by simp
  finally have "k\<lparr>net := net m\<rparr> = m" .
  moreover have n': "foreign n (net k)" "kept_off n (node_alloc k) (free_node_stack k)"
    using off foreign_same [OF same] asides_fields [OF as] by simp_all
  moreover have "same_outside (n # N) (net m) (net k)"
    using same_outside_set_node [OF same] n'(1) m by (simp add: foreign_def)
  ultimately have "asides (n # N) m k"
    using as n by (simp add: asides_def)
  moreover have "nodes (net m) ! n = x" "\<forall>j \<in> set N. nodes (net m) ! j = nodes (net m1) ! j"
    using off(1) n arg_cong [OF m, of net] by (auto simp: foreign_def nth_list_update)
  ultimately show ?thesis by blast
qed

text \<open>The last of the nodes.\<close>

lemma asides_snoc:
  assumes as: "asides N m k" and a: "aside n x k k'" and n: "n \<notin> set N"
  shows "asides (n # N) m k' \<and> nodes (net m) ! n = x"
proof -
  have k: "k = k'\<lparr>net := set_node n x (net k')\<rparr>" and off: "foreign n (net k')" "kept_off n (node_alloc k') (free_node_stack k')"
    using a by (simp_all add: aside_def)
  have g: "net k = set_node n x (net k')" "node_alloc k = node_alloc k'" "free_node_stack k = free_node_stack k'"
    using arg_cong [OF k, of net] aside_fields [OF a] by simp_all
  have "k'\<lparr>net := net m\<rparr> = k\<lparr>net := net m\<rparr>"
    using k by (metis machine.select_convs(1) machine.surjective machine.update_convs(1))
  then have m: "k'\<lparr>net := net m\<rparr> = m"
    using as by (simp add: asides_def)
  have same: "same_outside N (net m) (set_node n x (net k'))"
    using as g(1) by (simp add: asides_def)
  then have "same_outside (n # N) (net m) (net k')" "nodes (net m) ! n = x"
    using off(1) n by (auto simp: same_outside_def foreign_def nth_list_update)
  then show ?thesis
    using as off m n g by (auto simp: asides_def foreign_def)
qed

lemma asides_last:
  assumes as: "asides N m k" and n: "n \<in> set N"
  shows "\<exists>m1. asides (remove1 n N) m m1 \<and> aside n (nodes (net m) ! n) m1 k"
proof -
  let ?x = "nodes (net m) ! n"
  let ?m1 = "k\<lparr>net := set_node n ?x (net k)\<rparr>"
  have d: "distinct N" and same: "same_outside N (net m) (net k)" and m: "k\<lparr>net := net m\<rparr> = m"
    and off: "\<forall>j \<in> set N. foreign j (net k) \<and> kept_off j (node_alloc k) (free_node_stack k)"
    using as by (simp_all add: asides_def)
  have len: "n < length (nodes (net k))"
    using off n by (simp add: foreign_def)
  have "same_outside (remove1 n N) (net m) (net ?m1)"
    using same d len by (auto simp: same_outside_def nth_list_update)
  moreover have "\<forall>j \<in> set N. foreign j (net ?m1)"
    using off by (simp add: foreign_def)
  ultimately have "asides (remove1 n N) m ?m1"
    using off d m by (simp add: asides_def)
  moreover have "aside n ?x ?m1 k"
    using off n by (simp add: aside_def)
  ultimately show ?thesis by blast
qed

text \<open>Whatever does not care about any of the nodes does not care about all of them.\<close>

lemma asides_loop_sim:
  assumes sim: "\<And>n x m k. n \<in> set N \<Longrightarrow> aside n x m k \<Longrightarrow> loop_sim (with_aside n x) (f m) (f k)"
    and "asides N m k" and "f m = Some (Inr (y, m'))"
  shows "\<exists>k'. f k = Some (Inr (y, k')) \<and> asides N m' k' \<and>
    (\<forall>n \<in> set N. nodes (net m') ! n = nodes (net m) ! n)"
  using assms
proof (induction N arbitrary: m m')
  case (Cons n N)
  obtain m1 where a: "aside n (nodes (net m) ! n) m m1" and as: "asides N m1 k"
    and same: "\<forall>j \<in> set N. nodes (net m1) ! j = nodes (net m) ! j"
    using asides_Cons [OF Cons.prems(2)] by blast
  have n: "n \<notin> set N"
    using Cons.prems(2) by (simp add: asides_def)
  obtain m1' where m1': "f m1 = Some (Inr (y, m1'))" "aside n (nodes (net m) ! n) m' m1'"
    using loop_simD [OF Cons.prems(1) [OF _ a] Cons.prems(3)] by (auto simp: with_aside_def)
  obtain k' where k': "f k = Some (Inr (y, k'))" "asides N m1' k'"
      "\<forall>j \<in> set N. nodes (net m1') ! j = nodes (net m1) ! j"
    using Cons.IH [OF Cons.prems(1) as m1'(1)] by auto
  from aside_Cons [OF m1'(2) k'(2) n] same k'(1,3) show ?case by auto
qed simp

section \<open>The parts of a task and other nodes\<close>

lemma beside_get_value: "beside n x h g \<Longrightarrow> k \<noteq> n \<Longrightarrow> node_get_value h k i = node_get_value g k i"
  by (simp add: node_get_value_def beside_at)

lemma allocator_free_set:
  assumes "allocator_free self stack v = Inr (self', stack')"
  shows "set (free_values self' stack') = insert v (set (free_values self stack))"
  using assms spill_set by (fastforce simp: allocator_free_def free_values_def bnd_eq_Inr split: if_splits)

lemma sim_recycle_node:
  assumes a: "aside n x m k" and j: "j \<noteq> n"
  shows "res_sim (aside n x) (worker_recycle_node j m) (worker_recycle_node j k)"
  unfolding res_sim_def
proof (intro allI impI)
  fix m'
  assume run: "worker_recycle_node j m = Inr m'"
  note b = aside_beside [OF a]
  obtain y where y: "at (nodes (net m)) j = Some y" "at (nodes (net k)) j = Some y"
    using run beside_at [OF b j] by (auto simp: worker_recycle_node_def deref_eq_Inr)
  then have len: "j < length (nodes (net m))" "j < length (nodes (net k))"
    by (simp_all add: at_Some_iff)
  let ?y = "node_clean (node_clean y)"
  obtain al st where al: "allocator_recycle (allocator_of (node_alloc m)) (free_node_stack m) (Some j) = Inr (al, st)"
    and m': "m' = m\<lparr>net := set_node j ?y (set_node j (node_clean y) (net m)),
      node_alloc := (node_alloc m)\<lparr>allocator_of := al\<rparr>, free_node_stack := st\<rparr>"
    using run y len by (auto simp: worker_recycle_node_def node_allocator_recycle_def bnd_eq_Inr at_def)
  have "worker_recycle_node j k = Inr (k\<lparr>net := set_node j ?y (set_node j (node_clean y) (net k)),
      node_alloc := (node_alloc m)\<lparr>allocator_of := al\<rparr>, free_node_stack := st\<rparr>)"
    using y len al aside_fields [OF a] by (simp add: worker_recycle_node_def node_allocator_recycle_def at_def)
  moreover have "kept_off n ((node_alloc m)\<lparr>allocator_of := al\<rparr>) st"
    using allocator_free_set [of "allocator_of (node_alloc m)" "free_node_stack m" j al st] al a j aside_fields [OF a]
    by (simp add: kept_off_def allocator_recycle_def aside_def)
  then have "aside n x m' (k\<lparr>net := set_node j ?y (set_node j (node_clean y) (net k)),
      node_alloc := (node_alloc m)\<lparr>allocator_of := al\<rparr>, free_node_stack := st\<rparr>)"
    unfolding m' by (rule aside_alloc [OF a beside_set_node [OF beside_set_node [OF b j] j]])
  ultimately show "\<exists>k'. worker_recycle_node j k = Inr k' \<and> aside n x m' k'"
    by blast
qed

lemma sim_disconnect_ports:
  assumes "beside n x h g" and j: "j \<noteq> n"
  shows "res_sim (with_beside n x) (disconnect_ports j i count vs h) (disconnect_ports j i count vs g)"
  using assms(1)
proof (induction count arbitrary: i vs h g)
  case (Suc count)
  have pw: "cell (principal_wires h) p = cell (principal_wires g) p" for p
    using beside_fields(2) [OF Suc.prems] by simp
  show ?case
    unfolding disconnect_ports.simps beside_get_value [OF Suc.prems j]
    by (intro res_sim_bnd_same refl, split val.split)
      (auto intro!: Suc.IH beside_destroy Suc.prems res_sim_deref simp: pw)
qed (simp add: res_sim_Inr with_beside_def)

lemma sim_disconnect_node:
  assumes a: "aside n x m k" and j: "j \<noteq> n"
  shows "res_sim (aside n x) (worker_disconnect_node j m) (worker_disconnect_node j k)"
  unfolding worker_disconnect_node_def beside_ctor_of [OF aside_beside [OF a] j] aside_fields(10) [OF a]
  by (intro res_sim_bnd_same refl res_sim_bnd [OF sim_disconnect_ports [OF aside_beside [OF a] j]])
    (auto dest!: with_beside_prod intro!: sim_recycle_node [OF _ j] aside_updates(1) aside_net [OF a])

lemma aside_pw_node:
  assumes "aside n x m k" and "cell (principal_wires (net m)) p = Some q"
  shows "cell (principal_wires (net k)) p = Some q \<and> pw_node q \<noteq> n"
  using beside_node [OF aside_beside [OF assms(1)]] beside_fields(2) [OF aside_beside [OF assms(1)]] assms(2)
  by auto

lemma sim_disconnect_pair:
  assumes a: "aside n x m k"
  shows "res_sim (aside n x) (disconnect_pair left right m) (disconnect_pair left right k)"
proof -
  have one: "res_sim (aside n x) (deref (cell (principal_wires (net m)) p) (\<lambda>q. worker_disconnect_node (pw_node q) m))
      (deref (cell (principal_wires (net k)) p) (\<lambda>q. worker_disconnect_node (pw_node q) k))" if "aside n x m k" for p m k
    using aside_pw_node [OF that] beside_fields(2) [OF aside_beside [OF that]]
    by (intro res_sim_deref sim_disconnect_node [OF that]) auto
  show ?thesis
    unfolding disconnect_pair_def by (intro res_sim_bnd [OF one [OF a]] one)
qed

lemma sim_push_inputs:
  assumes "aside n x m k" and j: "j \<noteq> n"
  shows "res_sim (aside n x) (push_inputs j i count m) (push_inputs j i count k)"
  using assms(1)
proof (induction count arbitrary: i m k)
  case (Suc count)
  show ?case
    unfolding push_inputs.simps beside_get_value [OF aside_beside [OF Suc.prems] j]
    by (intro res_sim_bnd_same refl Suc.IH aside_push Suc.prems)
qed (simp add: res_sim_Inr)

lemma sim_connect_outputs:
  assumes "aside n x m k" and j: "j \<noteq> n"
  shows "res_sim (aside n x) (connect_outputs j i count m) (connect_outputs j i count k)"
  using assms(1)
proof (induction count arbitrary: m k)
  case (Suc count)
  show ?case
    unfolding connect_outputs.simps beside_get_value [OF aside_beside [OF Suc.prems] j]
    by (intro res_sim_bnd_same refl res_sim_bnd [OF sim_pop [OF Suc.prems]])
      (auto dest!: with_aside_prod intro!: res_sim_bnd [OF sim_worker_connect] Suc.IH)
qed (simp add: res_sim_Inr)

lemma with_asideI: "aside n x m k \<Longrightarrow> with_aside n x (p, m) (p, k)"
  by (simp add: with_aside_def)

lemma sim_begin_task:
  assumes a: "aside n x m k" and other: "t \<noteq> Task_primitive n"
  shows "loop_sim (with_aside n x) (begin_task t m) (begin_task t k)"
proof (cases t)
  case (Task_active_pair left right rule)
  show ?thesis
    unfolding begin_task_def Task_active_pair task.case
    by (rule loop_sim_Some, rule res_sim_bnd [OF sim_disconnect_pair [OF a]])
      (auto intro!: res_sim_Inr with_asideI aside_updates(2) simp: aside_fields)
next
  case (Task_primitive j)
  with other have j: "j \<noteq> n" by simp
  show ?thesis
    unfolding begin_task_def Task_primitive task.case beside_ctor_of [OF aside_beside [OF a] j] aside_fields(2) [OF a]
    by (rule loop_sim_lbnd_same [OF refl], split option.split)
      (auto intro!: loop_sim_Inl loop_sim_lbnd_same loop_sim_lbnd [OF loop_sim_Some [OF sim_push_inputs [OF a j]]]
        loop_sim_lbnd [OF sim_apply(3)] loop_sim_Some res_sim_Inr with_asideI)
qed

lemma sim_end_task:
  assumes a: "aside n x m k" and other: "\<And>self. p \<noteq> Finishing n self"
  shows "res_sim (aside n x) (end_task p m) (end_task p k)"
proof (cases p)
  case (Finishing j self)
  with other have j: "j \<noteq> n" by auto
  show ?thesis
    unfolding end_task_def Finishing handling.case
    by (rule res_sim_bnd [OF sim_connect_outputs [OF a j]]) (rule sim_recycle_node [OF _ j])
qed (simp_all add: end_task_def a res_sim_Inr)

section \<open>The parts keep the invariant\<close>

lemma machine_ok_begin_pair:
  assumes held: "machine_ok (hold (Task_active_pair left right rule) F) L m"
    and run: "begin_task (Task_active_pair left right rule) m = Some (Inr (p, m'))"
  shows "p = Running \<and> machine_ok F L m' \<and> return_stack m' = frame_new (rule_function rule) # return_stack m"
proof -
  obtain m1 where m1: "disconnect_pair left right m = Inr m1" "machine_ok F L m1" "return_stack m1 = return_stack m"
    using machine_ok_disconnect_pair [OF held] by blast
  then have "p = Running" "m' = m1\<lparr>return_stack := frame_new (rule_function rule) # return_stack m\<rparr>"
    using run by (auto simp: begin_task_def)
  with m1(2,3) show ?thesis
    by (simp add: machine_ok_def frame_new_def)
qed

text \<open>The values a primitive node keeps for its results, while its primitive runs.\<close>

definition output_values :: "primitive \<Rightarrow> node \<Rightarrow> val list" where
  "output_values self x = drop (input_arity self) (value_array x)"

definition primitive_node_ok :: "primitive \<Rightarrow> node \<Rightarrow> bool" where
  "primitive_node_ok self x \<longleftrightarrow>
     length (value_array x) = input_arity self + output_arity self \<and> VNull \<notin> set (value_array x)"

lemma machine_ok_begin_primitive:
  assumes held: "machine_ok (hold (Task_primitive n) F) L m"
    and run: "begin_task (Task_primitive n) m = Some (Inr (q, m'))"
  shows "\<exists>self k L'. q = Finishing n self \<and> aside n (nodes (net m) ! n) m' k \<and>
    primitive_node_ok self (nodes (net m) ! n) \<and> app_step m m' \<and>
    machine_ok (freed_elsewhere n F) (L' @ output_values self (nodes (net m) ! n) @ L) k"
proof -
  obtain x c p k where x: "x = nodes (net m) ! n" "k = m\<lparr>net := set_node n (node_clean x) (net m)\<rparr>"
    and c: "node_ctor_of x = Some c" "ctor_of_node (net m) n = Inr (node_ctors (net m) ! c)"
    and p: "ctor_primitive (node_ctors (net m) ! c) = Some p" "p < length (primitives m)"
    and arity: "ctor_arity (node_ctors (net m) ! c) = input_arity (primitives m ! p) + output_arity (primitives m ! p)"
    and size: "length (value_array x) = ctor_arity (node_ctors (net m) ! c)" "n < length (nodes (net m))"
    and vs: "VNull \<notin> set (value_array x)" and a: "aside n x m k"
    and ok: "machine_ok (freed_elsewhere n F) (value_array x @ L) k"
    using machine_ok_set_aside [OF held] by blast
  let ?self = "primitives m ! p"
  let ?i = "input_arity (primitives m ! p)" and ?F = "freed_elsewhere n F"
  let ?out = "output_values ?self x"
  let ?vs = "rev (take ?i (value_array x)) @ value_stack m"
  have node: "primitive_node_ok ?self x"
    using arity size(1) vs by (simp add: primitive_node_ok_def)
  have "push_inputs n 0 ?i m = Inr (m\<lparr>value_stack := rev (take ?i (drop 0 (value_array x))) @ value_stack m\<rparr>)"
    by (rule push_inputs_spec [OF x(1) [symmetric] size(2) c(2)]) (simp_all add: size(1) arity)
  then have push: "push_inputs n 0 ?i m = Inr (m\<lparr>value_stack := ?vs\<rparr>)"
    by simp
  then have q: "q = Finishing n ?self" and m1: "worker_apply_primitive p (m\<lparr>value_stack := ?vs\<rparr>) = Some (Inr m')"
    using run c(2) p by (auto simp: begin_task_def lbnd_eq_Some_Inr deref_eq_Inr at_Some_iff)
  let ?k = "k\<lparr>value_stack := ?vs\<rparr>"
  obtain k1 where k1: "worker_apply_primitive p ?k = Some (Inr k1)" "aside n x m' k1"
    using loop_simD [OF sim_apply(3) [OF aside_updates(1) [OF a, of ?vs]] m1] by blast
  have "count_list (value_array x) v = count_list (take ?i (value_array x)) v + count_list ?out v" for v
    using count_list_append [of "take ?i (value_array x)" ?out v] by (simp add: output_values_def)
  then have "same_roots (frame_vars (return_stack k) @ value_array x @ L)
      (take ?i (value_array x) @ frame_vars (return_stack k) @ ?out @ L)"
    by (simp add: same_roots_def)
  then have "stack_ok ?F (take ?i (value_array x) @ frame_vars (return_stack k) @ ?out @ L) k"
    using ok stack_ok_same_roots unfolding machine_ok_def by blast
  then have "stack_ok ?F (frame_vars (return_stack k) @ ?out @ L)
      (k\<lparr>value_stack := rev (take ?i (value_array x)) @ value_stack k\<rparr>)"
    by (rule stack_ok_push_values) (use vs in \<open>auto dest: in_set_takeD\<close>)
  then have okk: "machine_ok ?F (?out @ L) ?k"
    using ok x(2) by (simp add: machine_ok_def)
  then obtain L' where "stack_ok ?F (L' @ frame_vars (return_stack ?k) @ ?out @ L) k1" and step: "app_step ?k k1"
    using stack_ok_apply_any_primitive [OF _ k1(1)] unfolding machine_ok_def by blast
  then have "stack_ok ?F (frame_vars (return_stack ?k) @ L' @ ?out @ L) k1"
    using stack_ok_same_roots [of ?F _ k1 "frame_vars (return_stack ?k) @ L' @ ?out @ L"]
    by (simp add: same_roots_def)
  then have "machine_ok ?F (L' @ ?out @ L) k1"
    using step okk by (auto simp: machine_ok_def app_step_def frame_new_def)
  moreover have "app_step m m'"
    using step x(2) aside_fields(1,11) [OF k1(2)] by (simp add: app_step_def)
  ultimately show ?thesis
    using q k1(2) node x(1) by blast
qed

lemma machine_ok_end_primitive:
  assumes a: "aside n x m k" and ok: "machine_ok (freed_elsewhere n F) (output_values self x @ L) k"
    and node: "primitive_node_ok self x" and run: "end_task (Finishing n self) m = Inr m'"
  shows "machine_ok F L m' \<and> return_stack m' = return_stack m"
proof -
  let ?F = "freed_elsewhere n F" and ?out = "drop (input_arity self) (value_array x)"
  obtain m1 where m1: "connect_outputs n (input_arity self) (output_arity self) m = Inr m1"
    and m': "worker_recycle_node n m1 = Inr m'"
    using run by (auto simp: end_task_def bnd_eq_Inr)
  have len: "length ?out = output_arity self" and vs: "VNull \<notin> set (value_array x)"
    using node by (simp_all add: primitive_node_ok_def)
  have "same_roots (frame_vars (return_stack k) @ ?out @ L) (take (output_arity self) ?out @ frame_vars (return_stack k) @ L)"
    using len by (simp add: same_roots_def)
  then have "stack_ok ?F (take (output_arity self) ?out @ frame_vars (return_stack k) @ L) k"
    using ok stack_ok_same_roots unfolding machine_ok_def output_values_def by blast
  from stack_ok_connect_outputs [OF a this m1 vs] obtain k1 where
    k1: "aside n x m1 k1" "stack_ok ?F (frame_vars (return_stack k) @ L) k1"
      "return_stack k1 = return_stack k" "function_objects k1 = function_objects k"
    by blast
  show ?thesis
    using stack_ok_recycle_aside [OF k1(1,2) m'] k1(3,4) ok aside_fields(11) [OF a] by (simp add: machine_ok_def)
qed

section \<open>Handling a task\<close>

lemma machine_ok_handle_primitive:
  assumes held: "machine_ok (hold (Task_primitive n) F) L m"
    and run: "worker_handle_task (Task_primitive n) m = Some (Inr m')"
  shows "\<exists>L'. machine_ok F (L' @ L) m' \<and> length (return_stack m') \<le> length (return_stack m)"
proof -
  obtain p m1 m2 where m1: "begin_task (Task_primitive n) m = Some (Inr (p, m1))"
    and m2: "worker_run_until (length (return_stack m)) m1 = Some (Inr m2)" and m': "end_task p m2 = Inr m'"
    using run by (auto simp: handle_task_pieces lbnd_eq_Some_Inr)
  let ?x = "nodes (net m) ! n"
  obtain self k L1 where p: "p = Finishing n self" and a: "aside n ?x m1 k" and node: "primitive_node_ok self ?x"
    and ok: "machine_ok (freed_elsewhere n F) (L1 @ output_values self ?x @ L) k"
    using machine_ok_begin_primitive [OF held m1] by blast
  obtain k2 where k2: "worker_run_until (length (return_stack m)) k = Some (Inr k2)" "aside n ?x m2 k2"
    using loop_simD [OF sim_run_until [OF a] m2] by blast
  obtain L2 where ok2: "machine_ok (freed_elsewhere n F) (L2 @ L1 @ output_values self ?x @ L) k2"
      "length (return_stack k2) \<le> length (return_stack m)"
    using machine_ok_run_until [OF ok k2(1)] by blast
  then have "machine_ok (freed_elsewhere n F) (output_values self ?x @ (L2 @ L1) @ L) k2"
    by (auto simp: machine_ok_def same_roots_def elim!: stack_ok_same_roots)
  from machine_ok_end_primitive [OF k2(2) this node] m' p ok2(2) aside_fields(11) [OF k2(2)]
  show ?thesis by (intro exI [of _ "L2 @ L1"]) simp
qed

lemma machine_ok_handle_task:
  assumes "machine_ok (hold t F) L m" and "worker_handle_task t m = Some (Inr m')"
  shows "\<exists>L'. machine_ok F (L' @ L) m' \<and> length (return_stack m') \<le> length (return_stack m)"
  using assms machine_ok_handle_active_pair machine_ok_handle_primitive
  by (cases t) (fastforce simp: worker_handle_task_def)+

lemma machine_ok_work_sequentially:
  assumes "machine_ok F L m" and "worker_work_sequentially m = Some (Inr m')"
  shows "\<exists>L'. machine_ok F (L' @ L) m' \<and> task_queue m' = [] \<and> length (return_stack m') \<le> length (return_stack m)"
proof -
  define P where "P k r \<longleftrightarrow> (\<forall>L. machine_ok F L k \<longrightarrow> r = Inr m' \<longrightarrow>
    (\<exists>L'. machine_ok F (L' @ L) m' \<and> task_queue m' = [] \<and> length (return_stack m') \<le> length (return_stack k)))"
    for k and r :: "machine res"
  have "P m (Inr m')"
  proof (rule worker_work_sequentially.raw_induct [of P, OF _ assms(2)])
    fix w k r
    assume IH: "\<And>k r. w k = Some r \<Longrightarrow> P k r"
      and run: "(case worker_next_task k of (None, m) \<Rightarrow> Some (Inr m)
        | (Some task, m) \<Rightarrow> lbnd (worker_handle_task task m) (\<lambda>m. w m)) = Some r"
    show "P k r"
      unfolding P_def
    proof (intro allI impI)
      fix L
      assume ok: "machine_ok F L k" and r: "r = Inr m'"
      show "\<exists>L'. machine_ok F (L' @ L) m' \<and> task_queue m' = [] \<and> length (return_stack m') \<le> length (return_stack k)"
      proof (cases "worker_next_task k")
        case (Pair t k1)
        show ?thesis
        proof (cases t)
          case None
          then have "m' = k" "task_queue k = []"
            using Pair run r by (auto simp: worker_next_task_def split: list.splits)
          with ok show ?thesis by (intro exI [of _ "[]"]) simp
        next
          case (Some task)
          then obtain k2 where k2: "worker_handle_task task k1 = Some (Inr k2)" "w k2 = Some (Inr m')"
            using Pair run r by (auto simp: lbnd_eq_Some_Inr)
          have rs: "return_stack k1 = return_stack k"
            using Pair by (auto simp: worker_next_task_def split: list.splits)
          have "machine_ok (hold task F) L k1"
            using machine_ok_next_task [OF ok] Pair Some by simp
          from machine_ok_handle_task [OF this k2(1)] obtain L1
            where L1: "machine_ok F (L1 @ L) k2" "length (return_stack k2) \<le> length (return_stack k)"
            using rs by auto
          from IH [OF k2(2)] L1(1) obtain L2 where "machine_ok F (L2 @ L1 @ L) m'" "task_queue m' = []"
              "length (return_stack m') \<le> length (return_stack k2)"
            unfolding P_def by blast
          with L1(2) show ?thesis by (intro exI [of _ "L2 @ L1"]) simp
        qed
      qed
    qed
  qed
  with assms(1) show ?thesis by (simp add: P_def)
qed

end
