(* ===== verification/Parallel_Machine.thy ===== *)
theory Parallel_Machine
  imports Task_Pieces Scheduler
begin

text \<open>
  All the workers of a scheduler on the net they share. A step is one operation of one worker: it
  takes a task from its queue or from another worker's and starts to handle it, runs one operation
  of a frame, or finishes its task. The workers' steps interleave in any order. At every moment the
  shared net is linear over what all of them hold, and the tasks in all the queues are ready; the
  handling of a task by one worker alone is what its steps come to when no other worker steps in
  between.

  Here an operation is one step; \<open>Parallel_Connect\<close> cuts the connecting in it further. A worker takes
  its finished task from its own count here, where the code takes the number of the thread for that; no
  step reads a count, and \<open>Scheduler\<close> has the counters as the code treats them.
\<close>

section \<open>The workers\<close>

record crew_worker =
  own_free_nodes :: "nat list"
  own_tasks :: "task list"
  own_task_count :: "int option"
  own_values :: "val list"
  own_frames :: "frame list"
  handling :: handling

text \<open>The machine as a worker has it, and what is the worker's own when it has run on it.\<close>

definition view :: "crew_worker \<Rightarrow> machine \<Rightarrow> machine" where
  "view w m = m\<lparr>free_node_stack := own_free_nodes w, task_queue := own_tasks w, task_count := own_task_count w,
     value_stack := own_values w, return_stack := own_frames w\<rparr>"

definition left_with :: "handling \<Rightarrow> machine \<Rightarrow> crew_worker" where
  "left_with p m = \<lparr>own_free_nodes = free_node_stack m, own_tasks = task_queue m, own_task_count = task_count m,
     own_values = value_stack m, own_frames = return_stack m, handling = p\<rparr>"

definition task_from :: "nat \<Rightarrow> nat \<Rightarrow> machine \<Rightarrow> task option \<times> machine" where
  "task_from i j m = (if j = i then worker_next_task m else worker_offer_task m)"

type_synonym crew = "machine \<times> crew_worker list"

definition task_count_sub1 :: "machine \<Rightarrow> machine" where
  "task_count_sub1 m = m\<lparr>task_count := map_option (\<lambda>n. n - 1) (task_count m)\<rparr>"

inductive crew_step :: "crew \<Rightarrow> crew \<Rightarrow> bool" where
  begin_task: "i < length ws \<Longrightarrow> handling (ws ! i) = Idle \<Longrightarrow> j < length ws \<Longrightarrow>
    task_from i j (view (ws ! j) m) = (Some t, v) \<Longrightarrow>
    ws1 = ws[j := left_with (handling (ws ! j)) v] \<Longrightarrow>
    begin_task t (view (ws1 ! i) m) = Some (Inr (p, m')) \<Longrightarrow>
    crew_step (m, ws) (m', ws1[i := left_with p m'])"
| run: "i < length ws \<Longrightarrow> handling (ws ! i) \<noteq> Idle \<Longrightarrow> own_frames (ws ! i) \<noteq> [] \<Longrightarrow>
    worker_run_one_step (view (ws ! i) m) = Some (Inr m') \<Longrightarrow>
    crew_step (m, ws) (m', ws[i := left_with (handling (ws ! i)) m'])"
| end_task: "i < length ws \<Longrightarrow> handling (ws ! i) \<noteq> Idle \<Longrightarrow> own_frames (ws ! i) = [] \<Longrightarrow>
    end_task (handling (ws ! i)) (view (ws ! i) m) = Inr v \<Longrightarrow> m' = task_count_sub1 v \<Longrightarrow>
    crew_step (m, ws) (m', ws[i := left_with Idle m'])"

section \<open>What all the workers hold\<close>

definition gathered :: "('w \<Rightarrow> 'a list) \<Rightarrow> 'w list \<Rightarrow> 'a list" where
  "gathered f ws = concat (map f ws)"

definition others :: "nat \<Rightarrow> 'w list \<Rightarrow> 'w list" where
  "others i ws = take i ws @ drop (Suc i) ws"

lemma others_update [simp]: "others i (ws[i := w]) = others i ws"
  by (simp add: others_def)

lemma set_others: "set (others i ws) \<subseteq> set ws"
  by (auto simp: others_def dest: in_set_takeD in_set_dropD)

lemma gathered_split: "i < length ws \<Longrightarrow> mset (gathered f ws) = mset (f (ws ! i)) + mset (gathered f (others i ws))"
  using arg_cong [OF id_take_nth_drop [of i ws], of "\<lambda>ws. mset (concat (map f ws))"]
  by (simp add: gathered_def others_def)

lemma gathered_update:
  "i < length ws \<Longrightarrow> mset (gathered f (ws[i := w])) = mset (f w) + mset (gathered f (others i ws))"
  using gathered_split [of i "ws[i := w]" f] by simp

lemma gathered_replace:
  "i < length ws \<Longrightarrow> f (ws ! i) = [] \<Longrightarrow> mset (gathered f (ws[i := w])) = mset (f w) + mset (gathered f ws)"
  using gathered_split [of i ws f] gathered_update [of i ws f w] by simp

lemma frame_vars_append [simp]: "frame_vars (xs @ ys) = frame_vars xs @ frame_vars ys"
  by (simp add: frame_vars_def)

lemma frame_vars_gathered: "frame_vars (gathered own_frames ws) = gathered (\<lambda>w. frame_vars (own_frames w)) ws"
  by (induction ws) (simp_all add: gathered_def)

text \<open>The machine that holds it all.\<close>

definition pool :: "machine \<Rightarrow> crew_worker list \<Rightarrow> machine" where
  "pool m ws = m\<lparr>free_node_stack := gathered own_free_nodes ws, task_queue := gathered own_tasks ws,
     value_stack := gathered own_values ws, return_stack := gathered own_frames ws\<rparr>"

section \<open>The order in which things are held does not matter\<close>

lemma same_roots_mset: "mset R = mset S \<Longrightarrow> same_roots R S"
  unfolding same_roots_def by (metis count_mset)

lemma tasks_ready_mset:
  assumes "mset ts = mset us"
  shows "tasks_ready h ts \<longleftrightarrow> tasks_ready h us"
proof -
  have "mset (concat (map task_parts ts)) = mset (concat (map task_parts us))"
    using assms by (metis mset_concat mset_map sum_mset_sum_list)
  then show ?thesis
    using mset_eq_setD [OF assms] mset_eq_imp_distinct_iff unfolding tasks_ready_def by metis
qed

lemma alloc_ok_mset:
  assumes "mset (stack @ F) = mset (stack' @ F')"
  shows "alloc_ok F alloc stack h \<longleftrightarrow> alloc_ok F' alloc stack' h"
proof -
  have "mset (free_nodes F alloc stack) = mset (free_nodes F' alloc stack')"
    using assms by (simp add: free_nodes_def free_values_def)
  then show ?thesis
    using mset_eq_setD mset_eq_imp_distinct_iff unfolding alloc_ok_def by metis
qed

lemma machine_ok_mset:
  assumes ok: "machine_ok F L m"
    and same: "net m' = net m" "node_alloc m' = node_alloc m" "primitives m' = primitives m"
      "apply_primitives m' = apply_primitives m" "function_objects m' = function_objects m"
    and roots: "mset (value_stack m' @ frame_vars (return_stack m') @ L')
      = mset (value_stack m @ frame_vars (return_stack m) @ L)"
    and free: "mset (free_node_stack m' @ free_elsewhere F') = mset (free_node_stack m @ free_elsewhere F)"
    and tasks: "mset (tasks_elsewhere F' @ task_queue m') = mset (tasks_elsewhere F @ task_queue m)"
    and null: "VNull \<notin> set (value_stack m')"
  shows "machine_ok F' L' m'"
proof -
  have "net_ok (net m') (value_stack m' @ frame_vars (return_stack m') @ L')"
    using ok same(1) net_ok_same_roots [OF _ same_roots_mset [OF roots [symmetric]]]
    by (simp add: machine_ok_def stack_ok_def)
  moreover have "alloc_ok (free_elsewhere F') (node_alloc m') (free_node_stack m') (net m')"
    using ok same(1,2) alloc_ok_mset [OF free] by (simp add: machine_ok_def stack_ok_def)
  moreover have "tasks_ok F' m'"
    using ok same(1) tasks_ready_mset [OF tasks] by (simp add: machine_ok_def stack_ok_def tasks_ok_def)
  ultimately show ?thesis
    using ok same null by (simp add: machine_ok_def stack_ok_def apply_prims_ok_def)
qed

lemma machine_ok_reorder:
  assumes "machine_ok F L m" and "mset L' = mset L" and "mset (free_elsewhere F') = mset (free_elsewhere F)"
    and "mset (tasks_elsewhere F') = mset (tasks_elsewhere F)"
  shows "machine_ok F' L' m"
  by (rule machine_ok_mset [OF assms(1)]) (use assms in \<open>simp_all add: machine_ok_def stack_ok_def\<close>)

section \<open>The invariant of the crew\<close>

text \<open>The node a worker is between two parts of a task with, and the values it keeps there.\<close>

definition own_node :: "crew_worker \<Rightarrow> nat list" where
  "own_node w = (case handling w of Finishing n self \<Rightarrow> [n] | _ \<Rightarrow> [])"

definition own_outputs :: "heap \<Rightarrow> crew_worker \<Rightarrow> val list" where
  "own_outputs h w = (case handling w of Finishing n self \<Rightarrow> output_values self (nodes h ! n) | _ \<Rightarrow> [])"

definition own_node_ok :: "heap \<Rightarrow> crew_worker \<Rightarrow> bool" where
  "own_node_ok h w \<longleftrightarrow>
     (case handling w of Finishing n self \<Rightarrow> primitive_node_ok self (nodes h ! n) | _ \<Rightarrow> True)"

definition also_free :: "nat list \<Rightarrow> outside \<Rightarrow> outside" where
  "also_free N F = F\<lparr>free_elsewhere := N @ free_elsewhere F\<rparr>"

lemma also_free_Nil [simp]: "also_free [] F = F"
  by (simp add: also_free_def)

lemma also_free_fields [simp]:
  "free_elsewhere (also_free N F) = N @ free_elsewhere F" "tasks_elsewhere (also_free N F) = tasks_elsewhere F"
  by (simp_all add: also_free_def)

text \<open>
  There is a machine that differs from the shared one only in those nodes, for which the workers'
  holdings are the roots.
\<close>

definition crew_ok :: "outside \<Rightarrow> val list \<Rightarrow> crew \<Rightarrow> bool" where
  "crew_ok F L s = (case s of (m, ws) \<Rightarrow>
     (\<forall>w \<in> set ws. own_node_ok (net m) w) \<and>
     (\<exists>k. same_outside (gathered own_node ws) (net m) (net k) \<and> k\<lparr>net := net m\<rparr> = m \<and>
        machine_ok (also_free (gathered own_node ws) F) (gathered (own_outputs (net m)) ws @ L) (pool k ws)))"

text \<open>What is elsewhere, for the worker \<open>i\<close>.\<close>

definition elsewhere :: "nat \<Rightarrow> crew_worker list \<Rightarrow> outside \<Rightarrow> outside" where
  "elsewhere i ws F =
     \<lparr>free_elsewhere = gathered own_free_nodes (others i ws) @ free_elsewhere F,
      tasks_elsewhere = tasks_elsewhere F @ gathered own_tasks (others i ws)\<rparr>"

definition roots_elsewhere :: "nat \<Rightarrow> crew_worker list \<Rightarrow> val list" where
  "roots_elsewhere i ws =
     gathered own_values (others i ws) @ frame_vars (gathered own_frames (others i ws))"

lemma view_fields [simp]:
  "net (view w m) = net m" "node_alloc (view w m) = node_alloc m" "primitives (view w m) = primitives m"
  "apply_primitives (view w m) = apply_primitives m" "function_objects (view w m) = function_objects m"
  "free_node_stack (view w m) = own_free_nodes w" "task_queue (view w m) = own_tasks w"
  "value_stack (view w m) = own_values w" "return_stack (view w m) = own_frames w"
  by (simp_all add: view_def)

lemma pool_fields [simp]:
  "net (pool m ws) = net m" "node_alloc (pool m ws) = node_alloc m" "primitives (pool m ws) = primitives m"
  "apply_primitives (pool m ws) = apply_primitives m" "function_objects (pool m ws) = function_objects m"
  "free_node_stack (pool m ws) = gathered own_free_nodes ws" "task_queue (pool m ws) = gathered own_tasks ws"
  "value_stack (pool m ws) = gathered own_values ws" "return_stack (pool m ws) = gathered own_frames ws"
  by (simp_all add: pool_def)

lemma left_with_fields [simp]:
  "own_free_nodes (left_with p m) = free_node_stack m" "own_tasks (left_with p m) = task_queue m"
  "own_values (left_with p m) = value_stack m" "own_frames (left_with p m) = return_stack m"
  "handling (left_with p m) = p"
  by (simp_all add: left_with_def)

lemma machine_ok_view:
  assumes ok: "machine_ok F L (pool k ws)" and i: "i < length ws"
  shows "machine_ok (elsewhere i ws F) (roots_elsewhere i ws @ L) (view (ws ! i) k)"
proof (rule machine_ok_mset [OF ok])
  have "VNull \<notin> set (gathered own_values ws)"
    using ok by (simp add: machine_ok_def stack_ok_def)
  then show "VNull \<notin> set (value_stack (view (ws ! i) k))"
    using i by (auto simp: gathered_def)
qed (simp_all add: elsewhere_def roots_elsewhere_def frame_vars_gathered gathered_split [OF i] ac_simps)

lemma machine_ok_pool:
  assumes ok: "machine_ok (elsewhere i ws F) (roots_elsewhere i ws @ L) k" and i: "i < length ws"
    and null: "\<forall>w \<in> set ws. VNull \<notin> set (own_values w)"
  shows "machine_ok F L (pool k (ws[i := left_with p k]))"
proof (rule machine_ok_mset [OF ok])
  have "VNull \<notin> set (own_values w)" if "w \<in> set (ws[i := left_with p k])" for w
    using that null ok subsetD [OF set_update_subset_insert that] by (auto simp: machine_ok_def stack_ok_def)
  then show "VNull \<notin> set (value_stack (pool k (ws[i := left_with p k])))"
    by (auto simp: gathered_def)
qed (simp_all add: elsewhere_def roots_elsewhere_def frame_vars_gathered gathered_update [OF i] ac_simps)

lemma machine_ok_asides:
  assumes ok: "machine_ok F L k" and same: "same_outside N (net m) (net k)" "k\<lparr>net := net m\<rparr> = m"
    and N: "mset N \<subseteq># mset (free_elsewhere F)"
  shows "asides N m k"
proof -
  have al: "alloc_ok (free_elsewhere F) (node_alloc k) (free_node_stack k) (net k)"
    and net: "net_ok (net k) (value_stack k @ frame_vars (return_stack k) @ L)"
    using ok by (simp_all add: machine_ok_def stack_ok_def)
  have sub: "set N \<subseteq> set (free_elsewhere F)"
    using N by (metis mset_subset_eqD set_mset_mset subsetI)
  have "distinct (free_elsewhere F)"
    using al by (simp add: alloc_ok_def free_nodes_def)
  then have "distinct N"
    using N by (metis mset_eq_imp_distinct_iff distinct_append mset_subset_eq_exists_conv mset_append ex_mset)
  moreover have "foreign n (net k) \<and> kept_off n (node_alloc k) (free_node_stack k)" if "n \<in> set N" for n
  proof -
    have n: "n < length (nodes (net k))" "blank (nodes (net k) ! n)"
      and off: "n \<notin> set (free_values (allocator_of (node_alloc k)) (free_node_stack k))"
      using al sub that by (auto simp: alloc_ok_def free_nodes_def)
    have "no_principal (net k) n"
      using n(2) by (simp add: no_principal_def port_value_def slot_def blank_def)
    then show ?thesis
      using n(1) off no_principal_nodes [OF net] by (simp add: foreign_def kept_off_def)
  qed
  ultimately show ?thesis
    using same by (simp add: asides_def)
qed

lemma crew_ok_view:
  assumes ok: "crew_ok F L (m, ws)" and i: "i < length ws"
  shows "\<exists>k. asides (gathered own_node ws) (view (ws ! i) m) (view (ws ! i) k) \<and>
    machine_ok (elsewhere i ws (also_free (gathered own_node ws) F))
      (roots_elsewhere i ws @ gathered (own_outputs (net m)) ws @ L) (view (ws ! i) k) \<and>
    (\<forall>w \<in> set ws. VNull \<notin> set (own_values w))"
proof -
  let ?N = "gathered own_node ws"
  obtain k where same: "same_outside ?N (net m) (net k)" "k\<lparr>net := net m\<rparr> = m"
    and pool: "machine_ok (also_free ?N F) (gathered (own_outputs (net m)) ws @ L) (pool k ws)"
    using ok by (auto simp: crew_ok_def)
  note v = machine_ok_view [OF pool i]
  have "(view (ws ! i) k)\<lparr>net := net (view (ws ! i) m)\<rparr> = view (ws ! i) (k\<lparr>net := net m\<rparr>)"
    by (simp add: view_def)
  then have "(view (ws ! i) k)\<lparr>net := net (view (ws ! i) m)\<rparr> = view (ws ! i) m"
    by (simp only: same(2))
  then have "asides ?N (view (ws ! i) m) (view (ws ! i) k)"
    using same(1) by (intro machine_ok_asides [OF v]) (simp_all add: elsewhere_def)
  moreover have "\<forall>w \<in> set ws. VNull \<notin> set (own_values w)"
    using pool by (auto simp: machine_ok_def stack_ok_def gathered_def)
  ultimately show ?thesis
    using v by blast
qed

text \<open>Back from a worker to the crew.\<close>

lemma crew_ok_back:
  assumes as: "asides N m' k'" and i: "i < length ws"
    and ok: "machine_ok (elsewhere i ws G) (roots_elsewhere i ws @ V) k'"
    and null: "\<forall>w \<in> set ws. VNull \<notin> set (own_values w)"
    and N: "set (gathered own_node (ws[i := left_with p m'])) = set N"
    and G: "mset (free_elsewhere G) = mset (gathered own_node (ws[i := left_with p m'])) + mset (free_elsewhere F)"
      "tasks_elsewhere G = tasks_elsewhere F"
    and V: "mset V = mset (gathered (own_outputs (net m')) (ws[i := left_with p m'])) + mset L"
    and nodes: "\<forall>w \<in> set (ws[i := left_with p m']). own_node_ok (net m') w"
  shows "crew_ok F L (m', ws[i := left_with p m'])"
proof -
  let ?ws = "ws[i := left_with p m']"
  have same: "left_with p k' = left_with p m'"
    using asides_fields [OF as] by (simp add: left_with_def)
  have pool: "machine_ok G V (pool k' ?ws)"
    using machine_ok_pool [OF ok i null, of p] by (simp add: same)
  then have null': "VNull \<notin> set (gathered own_values ?ws)"
    by (simp add: machine_ok_def stack_ok_def)
  have "machine_ok (also_free (gathered own_node ?ws) F) (gathered (own_outputs (net m')) ?ws @ L) (pool k' ?ws)"
    by (rule machine_ok_mset [OF pool]) (use G V null' in simp_all)
  moreover have "same_outside (gathered own_node ?ws) (net m') (net k')" "k'\<lparr>net := net m'\<rparr> = m'"
    using as N by (simp_all add: asides_def same_outside_def)
  ultimately show ?thesis
    using nodes by (auto simp: crew_ok_def)
qed

section \<open>The steps keep the invariant\<close>

lemma own_same_nodes:
  assumes "\<forall>n \<in> set (gathered own_node ws). nodes h' ! n = nodes h ! n" and "w \<in> set ws"
  shows "own_outputs h' w = own_outputs h w" "own_node_ok h' w \<longleftrightarrow> own_node_ok h w"
  using assms by (auto simp: gathered_def own_node_def own_outputs_def own_node_ok_def split: handling.splits)

lemma gathered_same_nodes:
  assumes "\<forall>n \<in> set (gathered own_node ws). nodes h' ! n = nodes h ! n"
  shows "gathered (own_outputs h') ws = gathered (own_outputs h) ws"
  unfolding gathered_def using own_same_nodes(1) [OF assms] by (metis (no_types, lifting) map_cong)

lemma asides_run:
  assumes as: "asides N m k" and run: "worker_run_one_step m = Some (Inr m')"
  shows "\<exists>k'. worker_run_one_step k = Some (Inr k') \<and> asides N m' k' \<and>
    (\<forall>n \<in> set N. nodes (net m') ! n = nodes (net m) ! n)"
proof -
  let ?f = "\<lambda>m. lbnd (worker_run_one_step m) (\<lambda>m. Some (Inr ((), m)))"
  have "\<exists>k'. ?f k = Some (Inr ((), k')) \<and> asides N m' k' \<and>
      (\<forall>n \<in> set N. nodes (net m') ! n = nodes (net m) ! n)"
  proof (rule asides_loop_sim [OF _ as])
    fix n x m k
    assume "aside n x m k"
    then show "loop_sim (with_aside n x) (?f m) (?f k)"
      by (intro loop_sim_lbnd [OF sim_run_one_step]) (auto intro!: loop_sim_Some res_sim_Inr with_asideI)
  qed (simp add: run)
  then show ?thesis
    by (auto simp: lbnd_eq_Some_Inr)
qed

lemma crew_ok_run:
  assumes ok: "crew_ok F L (m, ws)" and i: "i < length ws"
    and run: "worker_run_one_step (view (ws ! i) m) = Some (Inr m')"
  shows "\<exists>L'. crew_ok F (L' @ L) (m', ws[i := left_with (handling (ws ! i)) m'])"
proof -
  let ?N = "gathered own_node ws"
  let ?ws = "ws[i := left_with (handling (ws ! i)) m']"
  let ?G = "also_free ?N F" and ?V = "gathered (own_outputs (net m)) ws"
  obtain k where as: "asides ?N (view (ws ! i) m) (view (ws ! i) k)"
    and okk: "machine_ok (elsewhere i ws ?G) (roots_elsewhere i ws @ ?V @ L) (view (ws ! i) k)"
    and null: "\<forall>w \<in> set ws. VNull \<notin> set (own_values w)"
    using crew_ok_view [OF ok i] by blast
  obtain k' where k': "worker_run_one_step (view (ws ! i) k) = Some (Inr k')" "asides ?N m' k'"
    and nodes: "\<forall>n \<in> set ?N. nodes (net m') ! n = nodes (net m) ! n"
    using asides_run [OF as run] by auto
  obtain L' where "machine_ok (elsewhere i ws ?G) (L' @ roots_elsewhere i ws @ ?V @ L) k'"
    using machine_ok_run_one_step [OF okk k'(1)] by blast
  then have okk': "machine_ok (elsewhere i ws ?G) (roots_elsewhere i ws @ ?V @ L' @ L) k'"
    by (rule machine_ok_reorder) simp_all
  have node: "own_node (left_with (handling (ws ! i)) m') = own_node (ws ! i)"
      "own_outputs h (left_with (handling (ws ! i)) m') = own_outputs h (ws ! i)"
      "own_node_ok h (left_with (handling (ws ! i)) m') = own_node_ok h (ws ! i)" for h
    by (simp_all add: own_node_def own_outputs_def own_node_ok_def)
  have same: "mset (gathered own_node ?ws) = mset ?N"
      "mset (gathered (own_outputs (net m')) ?ws) = mset ?V"
    using gathered_same_nodes [OF nodes] gathered_split [OF i] gathered_update [OF i]
    by (metis node(1), metis node(2))
  have "crew_ok F (L' @ L) (m', ?ws)"
  proof (rule crew_ok_back [OF k'(2) i okk' null])
    show "set (gathered own_node ?ws) = set ?N"
      using mset_eq_setD [OF same(1)] .
    have "\<forall>w \<in> set ws. own_node_ok (net m') w"
      using ok own_same_nodes(2) [OF nodes] by (simp add: crew_ok_def)
    then show "\<forall>w \<in> set ?ws. own_node_ok (net m') w"
      using node(3) i by (auto dest!: subsetD [OF set_update_subset_insert])
  qed (simp_all add: same)
  then show ?thesis by blast
qed

text \<open>A task is taken out of a queue.\<close>

lemma task_from_Some:
  "task_from i j (view w m) = (Some t, v) \<Longrightarrow>
     \<exists>ts. own_tasks w = t # ts \<and> left_with (handling w) v = w\<lparr>own_tasks := ts\<rparr>"
  by (auto simp: task_from_def worker_next_task_def worker_offer_task_def view_def left_with_def
      split: if_splits list.splits)

lemma crew_ok_take:
  assumes ok: "crew_ok F L (m, ws)" and j: "j < length ws" and t: "own_tasks (ws ! j) = t # ts"
  shows "crew_ok (hold t F) L (m, ws[j := (ws ! j)\<lparr>own_tasks := ts\<rparr>])"
proof -
  let ?w = "(ws ! j)\<lparr>own_tasks := ts\<rparr>"
  let ?ws = "ws[j := ?w]"
  have same: "gathered f ?ws = gathered f ws" if "f ?w = f (ws ! j)" for f :: "crew_worker \<Rightarrow> 'a list"
  proof -
    have "map f ?ws = map f ws"
      using that j by (simp add: map_update list_update_same_conv)
    then show ?thesis
      by (simp add: gathered_def)
  qed
  have g: "gathered own_node ?ws = gathered own_node ws" "gathered own_values ?ws = gathered own_values ws"
      "gathered own_frames ?ws = gathered own_frames ws" "gathered own_free_nodes ?ws = gathered own_free_nodes ws"
      "gathered (own_outputs h) ?ws = gathered (own_outputs h) ws" for h
    by (rule same, simp add: own_node_def own_outputs_def)+
  have tasks: "mset (gathered own_tasks ws) = add_mset t (mset (gathered own_tasks ?ws))"
    using gathered_split [OF j, of own_tasks] gathered_update [OF j, of own_tasks ?w] t by simp
  obtain k where k: "same_outside (gathered own_node ws) (net m) (net k)" "k\<lparr>net := net m\<rparr> = m"
    and pool: "machine_ok (also_free (gathered own_node ws) F) (gathered (own_outputs (net m)) ws @ L) (pool k ws)"
    using ok by (auto simp: crew_ok_def)
  have "machine_ok (also_free (gathered own_node ?ws) (hold t F)) (gathered (own_outputs (net m)) ?ws @ L) (pool k ?ws)"
    by (rule machine_ok_mset [OF pool]) (use pool in \<open>simp_all add: g tasks machine_ok_def stack_ok_def\<close>)
  moreover have "own_node_ok (net m) w" if "w \<in> set ?ws" for w
    using ok j that subsetD [OF set_update_subset_insert that] by (auto simp: crew_ok_def own_node_ok_def)
  ultimately show ?thesis
    using k by (auto simp: crew_ok_def g)
qed

lemma own_idle:
  assumes "handling w = Idle \<or> handling w = Running"
  shows "own_node w = []" "own_outputs h w = []" "own_node_ok h w"
  using assms by (auto simp: own_node_def own_outputs_def own_node_ok_def)

lemma elsewhere_hold: "elsewhere i ws (also_free N (hold t F)) = hold t (elsewhere i ws (also_free N F))"
  by (simp add: elsewhere_def also_free_def hold_def)

lemma crew_ok_begin:
  assumes ok: "crew_ok (hold t F) L (m, ws)" and i: "i < length ws" and idle: "handling (ws ! i) = Idle"
    and run: "begin_task t (view (ws ! i) m) = Some (Inr (p, m'))"
  shows "\<exists>L'. crew_ok F (L' @ L) (m', ws[i := left_with p m'])"
proof -
  let ?N = "gathered own_node ws" and ?ws = "ws[i := left_with p m']"
  let ?G = "also_free (gathered own_node ws) F" and ?V = "gathered (own_outputs (net m)) ws"
  let ?v = "view (ws ! i) m"
  obtain k where as: "asides ?N ?v (view (ws ! i) k)"
    and okk: "machine_ok (hold t (elsewhere i ws ?G)) (roots_elsewhere i ws @ ?V @ L) (view (ws ! i) k)"
    and null: "\<forall>w \<in> set ws. VNull \<notin> set (own_values w)"
    using crew_ok_view [OF ok i] unfolding elsewhere_hold by blast
  let ?k = "view (ws ! i) k"
  have off: "t \<noteq> Task_primitive n" if "n \<in> set ?N" for n
  proof
    assume "t = Task_primitive n"
    then have "settled (net k) n"
      using okk by (simp add: machine_ok_def stack_ok_hold task_ready_def)
    moreover have "blank (nodes (net k) ! n)"
      using okk that by (auto simp: machine_ok_def stack_ok_def alloc_ok_def free_nodes_def elsewhere_def)
    ultimately show False
      by (auto simp: settled_def blank_def)
  qed
  obtain k1 where k1: "begin_task t ?k = Some (Inr (p, k1))" "asides ?N m' k1"
    and nodes: "\<forall>n \<in> set ?N. nodes (net m') ! n = nodes (net m) ! n"
    using asides_loop_sim [of ?N "begin_task t", OF _ as run] sim_begin_task off by auto
  note own = own_idle [OF disjI1 [OF idle]]
  have N: "mset (gathered own_node ?ws) = mset (own_node (left_with p m')) + mset ?N"
    using i own(1) by (rule gathered_replace [where f = own_node])
  have V: "mset (gathered (own_outputs (net m')) ?ws) = mset (own_outputs (net m') (left_with p m')) + mset ?V"
    using gathered_replace [where f = "own_outputs (net m')", OF i own(2), of "left_with p m'"]
      gathered_same_nodes [OF nodes] by simp
  have oks: "\<forall>w \<in> set ws. own_node_ok (net m') w"
    using ok own_same_nodes(2) [OF nodes] by (simp add: crew_ok_def)
  show ?thesis
  proof (cases t)
    case (Task_active_pair left right rule)
    have p: "p = Running" and okk1: "machine_ok (elsewhere i ws ?G) (roots_elsewhere i ws @ ?V @ L) k1"
      using machine_ok_begin_pair [of left right rule] okk k1(1) Task_active_pair by auto
    note own' = own_idle [OF disjI2, of "left_with p m'"]
    have N': "mset (gathered own_node ?ws) = mset ?N" and "mset (gathered (own_outputs (net m')) ?ws) = mset ?V"
      using N V own' p by simp_all
    then have "crew_ok F L (m', ?ws)"
      using oks own'(3) p mset_eq_setD [OF N']
      by (intro crew_ok_back [OF k1(2) i okk1 null]) (auto dest!: subsetD [OF set_update_subset_insert])
    then show ?thesis
      by (intro exI [of _ "[]"]) simp
  next
    case (Task_primitive n)
    let ?x = "nodes (net k) ! n"
    obtain self k2 L' where p: "p = Finishing n self" and a: "aside n ?x k1 k2" and node: "primitive_node_ok self ?x"
      and okk2: "machine_ok (freed_elsewhere n (elsewhere i ws ?G))
        (L' @ output_values self ?x @ roots_elsewhere i ws @ ?V @ L) k2"
      using machine_ok_begin_primitive [of n] okk k1(1) Task_primitive by fastforce
    have n: "n \<notin> set ?N"
      using off Task_primitive by blast
    have as2: "asides (n # ?N) m' k2" and x: "nodes (net m') ! n = ?x"
      using asides_snoc [OF k1(2) a n] by simp_all
    have own': "own_node (left_with p m') = [n]" "own_outputs (net m') (left_with p m') = output_values self ?x"
        "own_node_ok (net m') (left_with p m')"
      using p x node by (simp_all add: own_node_def own_outputs_def own_node_ok_def)
    have N': "mset (gathered own_node ?ws) = add_mset n (mset ?N)"
      and V': "mset (gathered (own_outputs (net m')) ?ws) = mset (output_values self ?x) + mset ?V"
      using N V own' by simp_all
    have "machine_ok (elsewhere i ws (also_free (n # ?N) F))
        (roots_elsewhere i ws @ output_values self ?x @ ?V @ L' @ L) k2"
      by (rule machine_ok_reorder [OF okk2]) (simp_all add: elsewhere_def)
    from crew_ok_back [OF as2 i this null, of p F "L' @ L"] have "crew_ok F (L' @ L) (m', ?ws)"
      using oks own'(3) N' V' mset_eq_setD [of "gathered own_node ?ws" "n # ?N"]
      by (auto dest!: subsetD [OF set_update_subset_insert] simp: ac_simps)
    then show ?thesis by blast
  qed
qed

text \<open>A worker is done with its task.\<close>

lemma task_count_sub1_fields:
  "asides N m k \<Longrightarrow> asides N (task_count_sub1 m) (task_count_sub1 k)"
  "machine_ok F L (task_count_sub1 k) = machine_ok F L k" "net (task_count_sub1 k) = net k"
proof -
  show "asides N m k \<Longrightarrow> asides N (task_count_sub1 m) (task_count_sub1 k)"
  proof -
    assume as: "asides N m k"
    then have m: "k\<lparr>net := net m\<rparr> = m"
      by (simp add: asides_def)
    have "(task_count_sub1 k)\<lparr>net := net m\<rparr> = task_count_sub1 (k\<lparr>net := net m\<rparr>)"
      by (simp add: task_count_sub1_def)
    then have "(task_count_sub1 k)\<lparr>net := net (task_count_sub1 m)\<rparr> = task_count_sub1 m"
      by (simp only: m) (simp add: task_count_sub1_def)
    then show ?thesis
      using as by (simp add: asides_def) (simp add: task_count_sub1_def)
  qed
  show "machine_ok F L (task_count_sub1 k) = machine_ok F L k" "net (task_count_sub1 k) = net k"
    by (simp_all add: task_count_sub1_def machine_ok_def stack_ok_def apply_prims_ok_def tasks_ok_def)
qed

lemma own_Finishing:
  "handling w = Finishing n self \<Longrightarrow> own_node w = [n]"
  "handling w = Finishing n self \<Longrightarrow> own_outputs h w = output_values self (nodes h ! n)"
  "handling w = Finishing n self \<Longrightarrow> own_node_ok h w = primitive_node_ok self (nodes h ! n)"
  by (simp_all add: own_node_def own_outputs_def own_node_ok_def)

lemma crew_ok_end:
  assumes ok: "crew_ok F L (m, ws)" and i: "i < length ws" and busy: "handling (ws ! i) \<noteq> Idle"
    and run: "end_task (handling (ws ! i)) (view (ws ! i) m) = Inr v"
  shows "crew_ok F L (task_count_sub1 v, ws[i := left_with Idle (task_count_sub1 v)])"
proof -
  let ?N = "gathered own_node ws" and ?m = "task_count_sub1 v"
  let ?ws = "ws[i := left_with Idle (task_count_sub1 v)]"
  let ?rest = "others i ws"
  let ?V = "gathered (own_outputs (net m)) ws" and ?W = "gathered (own_outputs (net m)) (others i ws)"
  obtain k where as: "asides ?N (view (ws ! i) m) (view (ws ! i) k)"
    and okk: "machine_ok (elsewhere i ws (also_free ?N F)) (roots_elsewhere i ws @ ?V @ L) (view (ws ! i) k)"
    and null: "\<forall>w \<in> set ws. VNull \<notin> set (own_values w)"
    using crew_ok_view [OF ok i] by blast
  note own' = own_idle [OF disjI1, of "left_with Idle ?m"]
  have N': "mset (gathered own_node ?ws) = mset (gathered own_node ?rest)"
    and V': "mset (gathered (own_outputs h) ?ws) = mset (gathered (own_outputs h) ?rest)" for h
    using gathered_update [OF i, of own_node "left_with Idle ?m"]
      gathered_update [OF i, of "own_outputs h" "left_with Idle ?m"] own' by simp_all
  have "\<exists>N v1. asides N v v1 \<and> mset N = mset (gathered own_node ?rest) \<and>
      machine_ok (elsewhere i ws (also_free N F)) (roots_elsewhere i ws @ ?W @ L) v1 \<and>
      (\<forall>n \<in> set N. nodes (net v) ! n = nodes (net m) ! n)"
  proof (cases "handling (ws ! i)")
    case Running
    note own = own_idle [OF disjI2 [OF Running]]
    have "mset ?N = mset (gathered own_node ?rest)" "mset ?V = mset ?W"
      using gathered_split [OF i, of own_node] gathered_split [OF i, of "own_outputs (net m)"] own by simp_all
    moreover from this have "machine_ok (elsewhere i ws (also_free ?N F)) (roots_elsewhere i ws @ ?W @ L) (view (ws ! i) k)"
      by (intro machine_ok_reorder [OF okk]) simp_all
    moreover have "v = view (ws ! i) m"
      using run Running by (simp add: end_task_def)
    ultimately show ?thesis
      using as by (intro exI [of _ ?N] exI [of _ "view (ws ! i) k"]) simp
  next
    case (Finishing n self)
    let ?x = "nodes (net m) ! n" and ?N1 = "remove1 n (gathered own_node ws)"
    note own = own_Finishing [OF Finishing]
    have N: "mset ?N = add_mset n (mset (gathered own_node ?rest))"
      and V: "mset ?V = mset (output_values self ?x) + mset ?W"
      using gathered_split [OF i, of own_node] gathered_split [OF i, of "own_outputs (net m)"] own by simp_all
    then have n: "n \<in> set ?N"
      by (metis union_single_eq_member set_mset_mset)
    then obtain m1 where m1: "asides ?N1 (view (ws ! i) m) m1" "aside n ?x m1 (view (ws ! i) k)"
      using asides_last [OF as] by auto
    let ?f = "\<lambda>m. Some (bnd (end_task (Finishing n self) m) (\<lambda>m. Inr ((), m)))"
    have "\<exists>v1. ?f m1 = Some (Inr ((), v1)) \<and> asides ?N1 v v1 \<and>
        (\<forall>j \<in> set ?N1. nodes (net v) ! j = nodes (net (view (ws ! i) m)) ! j)"
    proof (rule asides_loop_sim [OF _ m1(1)])
      fix j y m k
      assume "j \<in> set ?N1" and a: "aside j y m k"
      then have "j \<noteq> n"
        using as by (auto simp: asides_def)
      then show "loop_sim (with_aside j y) (?f m) (?f k)"
        by (intro loop_sim_Some res_sim_bnd [OF sim_end_task [OF a]]) (auto intro!: res_sim_Inr with_asideI)
    qed (use run Finishing in simp)
    then obtain v1 where v1: "end_task (Finishing n self) m1 = Inr v1" "asides ?N1 v v1"
      and nodes: "\<forall>j \<in> set ?N1. nodes (net v) ! j = nodes (net m) ! j"
      by (auto simp: bnd_eq_Inr)
    have "machine_ok (freed_elsewhere n (elsewhere i ws (also_free ?N1 F)))
        (output_values self ?x @ roots_elsewhere i ws @ ?W @ L) (view (ws ! i) k)"
      by (rule machine_ok_reorder [OF okk]) (simp_all add: elsewhere_def N V)
    moreover have "primitive_node_ok self ?x"
      using ok own(3) [of "net m"] nth_mem [OF i] unfolding crew_ok_def by auto
    ultimately have "machine_ok (elsewhere i ws (also_free ?N1 F)) (roots_elsewhere i ws @ ?W @ L) v1"
      using machine_ok_end_primitive [OF m1(2) _ _ v1(1)] by blast
    moreover have "mset ?N1 = mset (gathered own_node ?rest)"
      by (simp add: N)
    ultimately show ?thesis
      using v1(2) nodes by blast
  qed (use busy in simp)
  then obtain N v1 where v1: "asides N v v1" and N: "mset N = mset (gathered own_node ?rest)"
    and ok1: "machine_ok (elsewhere i ws (also_free N F)) (roots_elsewhere i ws @ ?W @ L) v1"
    and nodes: "\<forall>n \<in> set N. nodes (net v) ! n = nodes (net m) ! n"
    by blast
  have nodes': "\<forall>n \<in> set (gathered own_node ?rest). nodes (net v) ! n = nodes (net m) ! n"
    using nodes mset_eq_setD [OF N] by simp
  have rest: "\<forall>w \<in> set ?rest. own_node_ok (net v) w"
    using ok own_same_nodes(2) [OF nodes'] set_others [of i ws] by (auto simp: crew_ok_def)
  show ?thesis
  proof (rule crew_ok_back [OF task_count_sub1_fields(1) [OF v1] i _ null])
    show "machine_ok (elsewhere i ws (also_free N F)) (roots_elsewhere i ws @ ?W @ L) (task_count_sub1 v1)"
      using ok1 by (simp add: task_count_sub1_fields)
    show "set (gathered own_node ?ws) = set N"
      using mset_eq_setD [of "gathered own_node ?ws" N] N N' by simp
    show "mset (?W @ L) = mset (gathered (own_outputs (net ?m)) ?ws) + mset L"
      using V' gathered_same_nodes [OF nodes'] by (simp add: task_count_sub1_fields)
    have "set ?ws = insert (left_with Idle ?m) (set ?rest)"
      using i by (simp add: others_def upd_conv_take_nth_drop)
    then show "\<forall>w \<in> set ?ws. own_node_ok (net ?m) w"
      using rest own'(3) by (simp add: task_count_sub1_fields)
  qed (simp_all add: N N')
qed

section \<open>Any number of steps\<close>

lemma crew_step_ok:
  assumes "crew_step s s'" and "crew_ok F L s"
  shows "\<exists>L'. crew_ok F (L' @ L) s'"
  using assms
proof (induction rule: crew_step.induct)
  case (begin_task i ws j m t v ws1 p m')
  obtain ts where ts: "own_tasks (ws ! j) = t # ts" "left_with (handling (ws ! j)) v = (ws ! j)\<lparr>own_tasks := ts\<rparr>"
    using task_from_Some [OF begin_task.hyps(4)] by blast
  then have ws1: "ws1 = ws[j := (ws ! j)\<lparr>own_tasks := ts\<rparr>]"
    using begin_task.hyps(5) by simp
  have ok: "crew_ok (hold t F) L (m, ws1)"
    using crew_ok_take [OF begin_task.prems begin_task.hyps(3) ts(1)] ws1 by simp
  have "i < length ws1" "handling (ws1 ! i) = Idle"
    using begin_task.hyps(1,2) ws1 by (cases "i = j"; simp)+
  then show ?case
    using crew_ok_begin [OF ok _ _ begin_task.hyps(6)] by blast
next
  case (run i ws m m')
  then show ?case
    using crew_ok_run by blast
next
  case (end_task i ws m v m')
  then show ?case
    using crew_ok_end [OF end_task.prems end_task.hyps(1,2,4)] by (intro exI [of _ "[]"]) simp
qed

lemma crew_reachable_ok:
  assumes "crew_step\<^sup>*\<^sup>* s s'" and "crew_ok F L s"
  shows "\<exists>L'. crew_ok F (L' @ L) s'"
  using assms
proof (induction rule: rtranclp_induct)
  case base
  then show ?case
    by (intro exI [of _ "[]"]) simp
next
  case (step s1 s2)
  then obtain L1 where "crew_ok F (L1 @ L) s1" by blast
  from crew_step_ok [OF step.hyps(2) this] obtain L2 where "crew_ok F (L2 @ L1 @ L) s2" by blast
  then show ?case
    by (intro exI [of _ "L2 @ L1"]) simp
qed

text \<open>When nobody is between the parts of a task, the shared net is the one of the invariant.\<close>

lemma crew_ok_idle:
  assumes "\<forall>w \<in> set ws. handling w = Idle"
  shows "crew_ok F L (m, ws) \<longleftrightarrow> machine_ok F L (pool m ws)"
proof -
  have "gathered own_node ws = []" "gathered (own_outputs h) ws = []" "\<forall>w \<in> set ws. own_node_ok h w" for h
    using assms own_idle by (auto simp: gathered_def)
  then have "crew_ok F L (m, ws) \<longleftrightarrow>
      (\<exists>k. (net m = net k \<and> k\<lparr>net := net m\<rparr> = m) \<and> machine_ok F L (pool k ws))"
    by (simp add: crew_ok_def)
  moreover have "net m = net k \<and> k\<lparr>net := net m\<rparr> = m \<longleftrightarrow> k = m" for k
    by (metis machine.select_convs(1) machine.surjective machine.update_convs(1))
  ultimately show ?thesis
    by simp
qed

section \<open>From the loader to the workers and back\<close>

text \<open>The workers as \<open>scheduler_new\<close> makes them and \<open>scheduler_prepare\<close> leaves them.\<close>

definition new_crew_worker :: "task list \<times> u64 \<Rightarrow> crew_worker" where
  "new_crew_worker q = \<lparr>own_free_nodes = [], own_tasks = fst q, own_task_count = Some (uint (snd q)),
     own_values = [], own_frames = [], handling = Idle\<rparr>"

definition crew_of :: "task scheduler \<Rightarrow> crew_worker list" where
  "crew_of s = map new_crew_worker (zip (queues s) (counters s))"

text \<open>A worker that has nothing to do, and finds nothing in its queue.\<close>

definition at_rest :: "crew_worker \<Rightarrow> bool" where
  "at_rest w \<longleftrightarrow> (case handling w of Idle \<Rightarrow> own_tasks w = [] | _ \<Rightarrow> False)"

lemma at_rest_iff: "at_rest w \<longleftrightarrow> handling w = Idle \<and> own_tasks w = []"
  by (simp add: at_rest_def split: handling.split)

text \<open>The machine that the loader goes on with.\<close>

definition after_crew :: "machine \<Rightarrow> machine \<Rightarrow> machine" where
  "after_crew m m' = m'\<lparr>free_node_stack := free_node_stack m, task_queue := [], task_count := task_count m,
     value_stack := value_stack m, return_stack := return_stack m\<rparr>"

definition loader_holds :: "machine \<Rightarrow> outside" where
  "loader_holds m = \<lparr>free_elsewhere = free_node_stack m, tasks_elsewhere = []\<rparr>"

lemma prepared_queued:
  "scheduler_prepare cap cursor ts s = Inr s' \<Longrightarrow> sched_ok s \<Longrightarrow>
     \<exists>M. mset ts + queued s = queued s' + M"
proof (induction cap cursor ts s rule: scheduler_prepare.induct)
  case (1 cap cursor s)
  then show ?case by simp
next
  case (2 cap cursor t ts s)
  let ?w = "cursor mod length (pcs s)"
  let ?s = "scheduler_task_count_add1 ?w (push_queue cap ?w t s)"
  have pcs: "0 < length (pcs s)" and rest: "scheduler_prepare cap (Suc cursor) ts ?s = Inr s'"
    using 2(2) by (auto simp: defined_when_def Let_def split: if_splits)
  then have w: "?w < length (pcs s)" by simp
  then have "sched_ok ?s"
    by (rule deal_ok [OF 2(3)])
  then obtain M where M: "mset ts + queued ?s = queued s' + M"
    using 2(1) rest pcs by (auto simp: defined_when_def Let_def)
  have "queued ?s = queued s \<or> queued ?s = add_mset t (queued s)"
    using queued_push [of ?w s t] 2(3) w
    by (auto simp: push_queue_def scheduler_task_count_add1_def queued_def sched_ok_def)
  then show ?case
  proof
    assume "queued ?s = queued s"
    then show ?thesis
      using M by (intro exI [of _ "add_mset t M"]) simp
  next
    assume "queued ?s = add_mset t (queued s)"
    then show ?thesis
      using M by (intro exI [of _ M]) simp
  qed
qed

lemma queued_new: "queued (scheduler_new n) = {#}"
  by (induction n) (simp_all add: scheduler_new_def queued_def)

lemma tasks_ready_sub: "tasks_ready h (ts @ us) \<Longrightarrow> tasks_ready h ts"
  by (simp add: tasks_ready_def)

lemma crew_of_gathered:
  assumes "sched_ok s"
  shows "mset (gathered own_tasks (crew_of s)) = queued s" "gathered own_values (crew_of s) = []"
    "gathered own_frames (crew_of s) = []" "gathered own_free_nodes (crew_of s) = []"
    "\<forall>w \<in> set (crew_of s). handling w = Idle"
proof -
  have len: "length (queues s) = length (counters s)"
    using assms by (simp add: sched_ok_def)
  have "map own_tasks (crew_of s) = queues s"
    using len by (auto simp: crew_of_def new_crew_worker_def intro: nth_equalityI)
  then show "mset (gathered own_tasks (crew_of s)) = queued s"
    by (simp add: gathered_def queued_def mset_concat)
qed (auto simp: gathered_def crew_of_def new_crew_worker_def)

lemma crew_of_ok:
  assumes ok: "machine_ok nothing L m"
    and run: "scheduler_prepare cap 0 (task_queue m) (scheduler_new n) = Inr s"
  shows "crew_ok (loader_holds m) (value_stack m @ frame_vars (return_stack m) @ L) (m, crew_of s)"
proof -
  let ?R = "value_stack m @ frame_vars (return_stack m) @ L"
  have s: "sched_ok s"
    using prepared_ok [OF run scheduler_new_ok(1)] by simp
  note g = crew_of_gathered [OF s]
  obtain M where "mset (task_queue m) = queued s + M"
    using prepared_queued [OF run scheduler_new_ok(1)] by (auto simp: queued_new)
  then obtain us where us: "mset (task_queue m) = mset (gathered own_tasks (crew_of s) @ us)"
    using ex_mset [of M] g(1) by auto
  have "tasks_ready (net m) (task_queue m)"
    using ok by (simp add: machine_ok_def stack_ok_def tasks_ok_def)
  then have "tasks_ready (net m) (gathered own_tasks (crew_of s))"
    using tasks_ready_mset [OF us] tasks_ready_sub by blast
  moreover have "alloc_ok (free_node_stack m) (node_alloc m) [] (net m)"
    using ok alloc_ok_mset [of "[]" "free_node_stack m" "free_node_stack m" "[]"]
    by (simp add: machine_ok_def stack_ok_def)
  ultimately have "machine_ok (loader_holds m) ?R (pool m (crew_of s))"
    using ok by (simp add: machine_ok_def stack_ok_def tasks_ok_def apply_prims_ok_def g(2-4) loader_holds_def)
  then show ?thesis
    by (simp add: crew_ok_idle [OF g(5)])
qed

lemma after_crew_ok:
  assumes ok: "crew_ok (loader_holds m) (L' @ value_stack m @ frame_vars (return_stack m) @ L) (m', ws)"
    and rest: "\<forall>w \<in> set ws. handling w = Idle" and null: "VNull \<notin> set (value_stack m)"
  shows "\<exists>L'. machine_ok nothing (L' @ L) (after_crew m m')"
proof -
  let ?L = "gathered own_values ws @ frame_vars (gathered own_frames ws) @ L'"
  have pool: "machine_ok (loader_holds m) (L' @ value_stack m @ frame_vars (return_stack m) @ L) (pool m' ws)"
    using ok crew_ok_idle [OF rest] by simp
  let ?F = "\<lparr>free_elsewhere = gathered own_free_nodes ws, tasks_elsewhere = gathered own_tasks ws\<rparr>"
  have "machine_ok ?F (?L @ L) (after_crew m m')"
    by (rule machine_ok_mset [OF pool]) (simp_all add: after_crew_def loader_holds_def null)
  then have "machine_ok nothing (?L @ L) (after_crew m m')"
    using tasks_ready_sub [of _ "[]"]
    by (auto simp: machine_ok_def stack_ok_def tasks_ok_def alloc_ok_def free_nodes_def tasks_ready_def after_crew_def)
  then show ?thesis by blast
qed

section \<open>Runs that can be evaluated\<close>

text \<open>The next step of the worker \<open>i\<close>, which takes its task from the worker \<open>j\<close> when it is idle.\<close>

definition crew_turn :: "nat \<times> nat \<Rightarrow> crew \<Rightarrow> crew option" where
  "crew_turn ij s =
     (case (ij, s) of ((i, j), (m, ws)) \<Rightarrow>
        if \<not> (i < length ws \<and> j < length ws) then None
        else case handling (ws ! i) of
          Idle \<Rightarrow>
            (case task_from i j (view (ws ! j) m) of
               (None, v) \<Rightarrow> None
             | (Some t, v) \<Rightarrow>
                 let ws = ws[j := left_with (handling (ws ! j)) v]
                 in case begin_task t (view (ws ! i) m) of
                      Some (Inr (p, m)) \<Rightarrow> Some (m, ws[i := left_with p m])
                    | _ \<Rightarrow> None)
        | p \<Rightarrow>
            if own_frames (ws ! i) = []
            then (case end_task p (view (ws ! i) m) of
                    Inl e \<Rightarrow> None
                  | Inr v \<Rightarrow> Some (task_count_sub1 v, ws[i := left_with Idle (task_count_sub1 v)]))
            else (case worker_run_one_step (view (ws ! i) m) of
                    Some (Inr m) \<Rightarrow> Some (m, ws[i := left_with p m])
                  | _ \<Rightarrow> None))"

fun run_crew :: "(nat \<times> nat) list \<Rightarrow> crew \<Rightarrow> crew option" where
  "run_crew [] s = Some s"
| "run_crew (ij # ijs) s = (case crew_turn ij s of None \<Rightarrow> None | Some s \<Rightarrow> run_crew ijs s)"

lemma crew_turn_step: "crew_turn (i, j) (m, ws) = Some s \<Longrightarrow> crew_step (m, ws) s"
  by (auto simp: crew_turn_def Let_def split: if_splits handling.splits prod.splits option.splits sum.splits
      intro: crew_step.begin_task crew_step.end_task dest: crew_step.run [rotated -1])

lemma run_crew_steps: "run_crew ijs s = Some s' \<Longrightarrow> crew_step\<^sup>*\<^sup>* s s'"
proof (induction ijs s rule: run_crew.induct)
  case (2 ij ijs s)
  then obtain s1 where s1: "crew_turn ij s = Some s1" "run_crew ijs s1 = Some s'"
    by (auto split: option.splits)
  moreover have "crew_step s s1"
    using s1(1) crew_turn_step by (cases ij; cases s) auto
  ultimately show ?case
    using 2(1) by (meson converse_rtranclp_into_rtranclp)
qed simp

end
