(* ===== verification/Example_Parallel.thy ===== *)
theory Example_Parallel
  imports Parallel_Tasks Example_Net Parallel_Machine
begin

text \<open>Nets that several workers connect, and the runs at which the properties are applied.\<close>

section \<open>Criteria\<close>

definition args_check :: "heap \<Rightarrow> bool" where
  "args_check h \<longleftrightarrow>
     list_all (\<lambda>n. case node_principal_port_count h n of
         Inl e \<Rightarrow> True | Inr k \<Rightarrow> primitive_arg_count (nodes h ! n) + empty_args h n = k)
       [0..<length (nodes h)]"

lemma args_check_counted: "args_check h \<Longrightarrow> args_counted h"
  by (auto simp: args_check_def args_counted_def list_all_iff dest!: bspec)

definition rules_check :: "node_ctor list \<Rightarrow> bool" where
  "rules_check cs \<longleftrightarrow>
     list_all (\<lambda>c. list_all (rule_in_range (length cs)) (rule_array c)) cs \<and>
     list_all (\<lambda>l. list_all (\<lambda>r.
         find (rule_joins l r) (rule_array (cs ! l)) = find (rule_joins l r) (rule_array (cs ! r)))
       [0..<length cs]) [0..<length cs]"

lemma rules_check_shared: "rules_check cs \<Longrightarrow> rules_shared cs"
  unfolding rules_check_def rules_shared_def list_all_iff set_upt
  by (metis atLeastLessThan_iff zero_le)

section \<open>Two ends of a wire\<close>

text \<open>
  A node \<open>zero\<close> and a node \<open>add\<close>; one worker connects one end of a wire to the first, another the
  other end to the second.
\<close>

definition open_principal :: "nat \<Rightarrow> nat \<Rightarrow> principal_wire option" where
  "open_principal n i = Some \<lparr>pw_node = n, pw_index = i, pw_oppsite = None\<rparr>"

definition used_node :: "nat \<Rightarrow> val list \<Rightarrow> node" where
  "used_node c vs = node_new\<lparr>node_ctor_of := Some c, is_allocated := True, value_array := vs\<rparr>"

definition wire_between :: heap where
  "wire_between = \<lparr>wires = [Some VNull, Some VNull, Some VNull],
     principal_wires = [open_principal 0 0, open_principal 1 0], node_ctors = [zero_ctor, add_ctor3],
     nodes = [used_node 0 [VPrincipal 0], used_node 1 [VPrincipal 1, VWire 1, VWire 2]]\<rparr>"

definition both_ends :: "(val \<times> val) list" where
  "both_ends = [(VWire 0, VPrincipal 0), (VPrincipal 1, VWire 0)]"

definition outer_ends :: "val list" where
  "outer_ends = [VWire 1, VWire 2]"

definition first_first :: connecting_state where
  "first_first = the (run_schedule [0, 1, 1] (wire_between, connect_all both_ends))"

definition second_first :: connecting_state where
  "second_first = the (run_schedule [1, 0, 0] (wire_between, connect_all both_ends))"

lemma wire_between_run:
  "connect_step\<^sup>*\<^sup>* (wire_between, connect_all both_ends) (fst first_first, snd first_first)"
  "connect_step\<^sup>*\<^sup>* (wire_between, connect_all both_ends) (fst second_first, snd second_first)"
proof -
  have "run_schedule [0, 1, 1] (wire_between, connect_all both_ends) \<noteq> None"
    "run_schedule [1, 0, 0] (wire_between, connect_all both_ends) \<noteq> None"
    by code_simp+
  then show "connect_step\<^sup>*\<^sup>* (wire_between, connect_all both_ends) (fst first_first, snd first_first)"
    "connect_step\<^sup>*\<^sup>* (wire_between, connect_all both_ends) (fst second_first, snd second_first)"
    unfolding first_first_def second_first_def prod.collapse by (metis option.collapse run_schedule_steps)+
qed

lemma wire_between_ok:
  "net_ok wire_between (concat (map (\<lambda>(x, y). [x, y]) both_ends) @ outer_ends)"
  "\<forall>(x, y) \<in> set both_ends. x \<noteq> VNull \<and> y \<noteq> VNull"
  by (rule net_check_net_ok, code_simp) (simp add: both_ends_def)

lemma wire_between_over: "\<forall>t \<in> set (snd first_first). connect_over t" "\<forall>t \<in> set (snd second_first). connect_over t"
  by code_simp+

lemma wire_between_checks: "rules_shared (node_ctors wire_between)" "args_counted wire_between"
  by (rule rules_check_shared, code_simp) (rule args_check_counted, code_simp)

section \<open>Arguments\<close>

text \<open>A node of a primitive that waits for two integers, each of which another worker has.\<close>

definition add_int_ctor :: node_ctor where
  "add_int_ctor = (node_ctor_new ''int-add'' 3)
     \<lparr>port_infos := [port ''x'' True, port ''y'' True, port ''result'' False], ctor_primitive := Some 0\<rparr>"

definition waiting_node :: heap where
  "waiting_node = \<lparr>wires = [Some VNull], principal_wires = [open_principal 0 0, open_principal 0 1],
     node_ctors = [add_int_ctor], nodes = [used_node 0 [VPrincipal 0, VPrincipal 1, VWire 0]]\<rparr>"

definition two_arguments :: "(val \<times> val) list" where
  "two_arguments = [(VPrincipal 0, VImm 8), (VImm 16, VPrincipal 1)]"

definition both_counted :: connecting_state where
  "both_counted = the (run_schedule [0, 1, 1, 0] (waiting_node, connect_all two_arguments))"

lemma waiting_node_run:
  "connect_step\<^sup>*\<^sup>* (waiting_node, connect_all two_arguments) (fst both_counted, snd both_counted)"
proof -
  have "run_schedule [0, 1, 1, 0] (waiting_node, connect_all two_arguments) \<noteq> None"
    by code_simp
  then show ?thesis
    unfolding both_counted_def prod.collapse by (metis option.collapse run_schedule_steps)
qed

lemma waiting_node_ok:
  "net_ok waiting_node (concat (map (\<lambda>(x, y). [x, y]) two_arguments) @ [VWire 0])"
  "\<forall>(x, y) \<in> set two_arguments. x \<noteq> VNull \<and> y \<noteq> VNull"
  by (rule net_check_net_ok, code_simp) (simp add: two_arguments_def)

section \<open>Two workers and one task\<close>

text \<open>The first worker is dealt the task of the example, and the second one steals it.\<close>

definition two_workers :: "task scheduler" where
  "two_workers = (case scheduler_prepare 4 0 (task_queue example_built) (scheduler_new 2) of
     Inr s \<Rightarrow> s | Inl e \<Rightarrow> scheduler_new 2)"

definition crew_end :: crew where
  "crew_end = (case run_crew (replicate 8 (1, 0)) (example_built, crew_of two_workers) of
     Some s \<Rightarrow> s | None \<Rightarrow> (example_built, []))"

lemma two_workers_prepared:
  "scheduler_prepare (task_queue_size example_built) 0 (task_queue example_built) (scheduler_new 2) = Inr two_workers"
proof -
  have "task_queue_size example_built = 4" by code_simp
  moreover have "task_queue example_built = [Task_active_pair 2 0 example_rule]" by code_simp
  ultimately show ?thesis
    by (simp add: two_workers_def scheduler_new_def stats_counter_new_def defined_when_def Let_def)
qed

lemma crew_end_reached: "crew_step\<^sup>*\<^sup>* (example_built, crew_of two_workers) (fst crew_end, snd crew_end)"
proof -
  have "run_crew (replicate 8 (1, 0)) (example_built, crew_of two_workers) \<noteq> None"
    by code_simp
  then show ?thesis
    using run_crew_steps by (auto simp: crew_end_def)
qed

lemma crew_end_at_rest: "list_all at_rest (snd crew_end)" "length (snd crew_end) = 2"
  by code_simp+

end
