(* ===== verification/Dyn_Array.thy ===== *)
theory Dyn_Array
  imports Prelude
begin

text \<open>
  Growable arrays (\<open>src/src/packages/std/array\<close>). An \<open>array_t\<close> is a block of \<open>size\<close> pointers,
  of which those below \<open>cursor\<close> are in use; NULL is \<open>None\<close>. The call-back \<open>destroy_fn\<close> is
  whether it was set: an operation that destroys returns the values it destroys, in order.
  Freed memory is the lost \<open>Some\<close>, and sizes are natural numbers, since an array's bytes fit in
  the address space.
\<close>

record 'a array =
  arr_size :: nat
  arr_grow_step :: nat
  arr_cursor :: nat
  arr_values :: "'a option list"
  arr_destroy_fn :: bool

definition array_new :: "nat \<Rightarrow> 'a array" where
  "array_new size' = \<lparr>arr_size = size', arr_grow_step = size', arr_cursor = 0,
     arr_values = replicate size' None, arr_destroy_fn = False\<rparr>"

definition array_set_destroy_fn :: "'a array \<Rightarrow> 'a array" where
  "array_set_destroy_fn self = self\<lparr>arr_destroy_fn := True\<rparr>"

definition array_new_with :: "nat \<Rightarrow> 'a array" where
  "array_new_with size' = (array_new size')\<lparr>arr_destroy_fn := True\<rparr>"

definition ARRAY_AUTO_SIZE :: nat where "ARRAY_AUTO_SIZE = 64"

definition array_new_auto :: "'a array" where
  "array_new_auto = array_new ARRAY_AUTO_SIZE"

definition array_new_auto_with :: "'a array" where
  "array_new_auto_with = array_new_with ARRAY_AUTO_SIZE"

definition array_size :: "'a array \<Rightarrow> nat" where "array_size self = arr_size self"

definition array_grow_step :: "'a array \<Rightarrow> nat" where "array_grow_step self = arr_grow_step self"

definition array_set_grow_step :: "'a array \<Rightarrow> nat \<Rightarrow> 'a array" where
  "array_set_grow_step self step = self\<lparr>arr_grow_step := step\<rparr>"

definition array_length :: "'a array \<Rightarrow> nat" where "array_length self = arr_cursor self"

definition array_is_empty :: "'a array \<Rightarrow> bool" where
  "array_is_empty self \<longleftrightarrow> arr_cursor self = 0"

definition array_is_full :: "'a array \<Rightarrow> bool" where
  "array_is_full self \<longleftrightarrow> arr_cursor self = arr_size self"

definition array_resize :: "'a array \<Rightarrow> nat \<Rightarrow> 'a array res" where
  "array_resize self larger_size =
     asserting (larger_size \<ge> arr_size self)
       (if larger_size = arr_size self then Inr self
        else Inr (self\<lparr>arr_values := arr_values self @ replicate (larger_size - arr_size self) None,
                       arr_size := larger_size\<rparr>))"

definition array_top :: "'a array \<Rightarrow> 'a option res" where
  "array_top self =
     asserting (arr_cursor self > 0) (deref (at (arr_values self) (arr_cursor self - 1)) Inr)"

definition array_pop :: "'a array \<Rightarrow> ('a option \<times> 'a array) res" where
  "array_pop self =
     asserting (arr_cursor self > 0)
       (deref (at (arr_values self) (arr_cursor self - 1)) (\<lambda>v.
          Inr (v, self\<lparr>arr_cursor := arr_cursor self - 1,
                       arr_values := (arr_values self)[arr_cursor self - 1 := None]\<rparr>)))"

text \<open>The store through \<open>values[index]\<close>: undefined outside the block.\<close>

definition store_value :: "'a array \<Rightarrow> nat \<Rightarrow> 'a option \<Rightarrow> 'a array res" where
  "store_value self index v =
     defined_when (index < length (arr_values self))
       (Inr (self\<lparr>arr_values := (arr_values self)[index := v]\<rparr>))"

definition array_push :: "'a array \<Rightarrow> 'a option \<Rightarrow> 'a array res" where
  "array_push self v =
     bnd (if array_is_full self then array_resize self (arr_size self + arr_grow_step self)
          else Inr self) (\<lambda>self.
     bnd (store_value self (arr_cursor self) v) (\<lambda>self.
       Inr (self\<lparr>arr_cursor := Suc (arr_cursor self)\<rparr>)))"

definition array_get :: "'a array \<Rightarrow> nat \<Rightarrow> 'a option" where
  "array_get self index = (if index \<ge> arr_size self then None else arr_values self ! index)"

definition array_pick :: "'a array \<Rightarrow> nat \<Rightarrow> 'a option res" where
  "array_pick self back_index =
     asserting (back_index < arr_cursor self)
       (Inr (array_get self (arr_cursor self - 1 - back_index)))"

definition array_set :: "'a array \<Rightarrow> nat \<Rightarrow> 'a option \<Rightarrow> 'a array res" where
  "array_set self index v =
     bnd (if index \<ge> arr_size self then array_resize self (index + arr_grow_step self)
          else Inr self) (\<lambda>self.
     bnd (store_value self index v) (\<lambda>self.
       Inr (if index \<ge> arr_cursor self then self\<lparr>arr_cursor := Suc index\<rparr> else self)))"

fun array_purge_loop :: "nat list \<Rightarrow> 'a array \<Rightarrow> ('a list \<times> 'a array) res" where
  "array_purge_loop [] self = Inr ([], self)"
| "array_purge_loop (i # is) self =
     (case array_get self i of
        None \<Rightarrow> array_purge_loop is self
      | Some v \<Rightarrow>
          bnd (array_set self i None) (\<lambda>self.
          bnd (array_purge_loop is self) (\<lambda>(vs, self). Inr (v # vs, self))))"

definition array_purge :: "'a array \<Rightarrow> ('a list \<times> 'a array) res" where
  "array_purge self =
     bnd (if arr_destroy_fn self then array_purge_loop [0..<arr_size self] self
          else Inr ([], self\<lparr>arr_values := replicate (arr_size self) None\<rparr>)) (\<lambda>(vs, self).
       Inr (vs, self\<lparr>arr_cursor := 0\<rparr>))"

definition array_destroy :: "'a array option \<Rightarrow> ('a list \<times> 'a array option) res" where
  "array_destroy self_pointer =
     (case self_pointer of
        None \<Rightarrow> Inr ([], None)
      | Some self \<Rightarrow> bnd (array_purge self) (\<lambda>(vs, self). Inr (vs, None)))"

section \<open>The interface\<close>

text \<open>
  What a client of an array relies on: the values up to the cursor behave as slots that can be
  read and set at any index, and as a stack whose top is the last one.
\<close>

locale growable_slots =
  fixes ok :: "'s \<Rightarrow> bool"
    and contents :: "'s \<Rightarrow> 'a option list"
    and get :: "'s \<Rightarrow> nat \<Rightarrow> 'a option"
    and set_at :: "'s \<Rightarrow> nat \<Rightarrow> 'a option \<Rightarrow> 's res"
  assumes get_contents: "ok s \<Longrightarrow> get s i = slot None (contents s) i"
    and set_contents: "ok s \<Longrightarrow>
      \<exists>s'. set_at s i v = Inr s' \<and> ok s' \<and> contents s' = slot_set None (contents s) i v"
begin

lemma get_set:
  assumes "ok s" and "set_at s i v = Inr s'"
  shows "ok s'" and "get s' j = (if i = j then v else get s j)"
proof -
  have s': "ok s'" "contents s' = slot_set None (contents s) i v"
    using set_contents [OF assms(1), of i v] assms(2) by auto
  then show "ok s'" by simp
  show "get s' j = (if i = j then v else get s j)"
    using s' assms(1) by (simp add: get_contents slot_slot_set)
qed

text \<open>Taking a value out: the slot reads as NULL afterwards and no other slot changes.\<close>

lemma take_out:
  assumes "ok s"
  obtains s' where "set_at s i None = Inr s'" and "ok s'" and "get s' i = None"
    and "\<And>j. j \<noteq> i \<Longrightarrow> get s' j = get s j"
  using assms set_contents [OF assms, of i None] get_set [OF assms, of i None] by fastforce

lemma set_commute:
  assumes "ok s" and "i \<noteq> j"
    and "bnd (set_at s i v) (\<lambda>s. set_at s j w) = Inr s1"
    and "bnd (set_at s j w) (\<lambda>s. set_at s i v) = Inr s2"
  shows "get s1 k = get s2 k"
proof -
  obtain x y where x: "set_at s i v = Inr x" "set_at x j w = Inr s1"
    and y: "set_at s j w = Inr y" "set_at y i v = Inr s2"
    using assms(3,4) by (auto simp: bnd_eq_Inr)
  note gx = get_set [OF assms(1) x(1)] and gy = get_set [OF assms(1) y(1)]
  show ?thesis
    using get_set(2) [OF gx(1) x(2)] get_set(2) [OF gy(1) y(2)] gx(2) gy(2) assms(2) by simp
qed

end

locale value_stack_interface =
  fixes ok :: "'s \<Rightarrow> bool"
    and elements :: "'s \<Rightarrow> 'a option list"
    and push :: "'s \<Rightarrow> 'a option \<Rightarrow> 's res"
    and pop :: "'s \<Rightarrow> ('a option \<times> 's) res"
  assumes push_elements: "ok s \<Longrightarrow> \<exists>s'. push s v = Inr s' \<and> ok s' \<and> elements s' = v # elements s"
    and pop_nil: "ok s \<Longrightarrow> elements s = [] \<Longrightarrow> pop s = Inl Assert_failed"
    and pop_cons: "ok s \<Longrightarrow> elements s = v # vs \<Longrightarrow> \<exists>s'. pop s = Inr (v, s') \<and> ok s' \<and> elements s' = vs"
begin

fun push_all :: "'a option list \<Rightarrow> 's \<Rightarrow> 's res" where
  "push_all [] s = Inr s"
| "push_all (v # vs) s = bnd (push s v) (push_all vs)"

fun pop_n :: "nat \<Rightarrow> 's \<Rightarrow> ('a option list \<times> 's) res" where
  "pop_n 0 s = Inr ([], s)"
| "pop_n (Suc n) s = bnd (pop s) (\<lambda>(v, s). bnd (pop_n n s) (\<lambda>(vs, s). Inr (v # vs, s)))"

lemma push_all_elements:
  "ok s \<Longrightarrow> \<exists>s'. push_all vs s = Inr s' \<and> ok s' \<and> elements s' = rev vs @ elements s"
proof (induction vs arbitrary: s)
  case Nil
  then show ?case by simp
next
  case (Cons v vs)
  obtain s1 where s1: "push s v = Inr s1" "ok s1" "elements s1 = v # elements s"
    using push_elements [OF Cons.prems] by blast
  from Cons.IH [OF s1(2)] s1 show ?case by auto
qed

lemma pop_n_elements:
  "ok s \<Longrightarrow> n \<le> length (elements s) \<Longrightarrow>
     \<exists>s'. pop_n n s = Inr (take n (elements s), s') \<and> ok s' \<and> elements s' = drop n (elements s)"
proof (induction n arbitrary: s)
  case 0
  then show ?case by simp
next
  case (Suc n)
  then obtain v vs where e: "elements s = v # vs" by (cases "elements s") auto
  obtain s1 where s1: "pop s = Inr (v, s1)" "ok s1" "elements s1 = vs"
    using pop_cons [OF Suc.prems(1) e] by blast
  from Suc.IH [OF s1(2)] Suc.prems s1 e show ?case by auto
qed

lemma push_pop:
  assumes "ok s"
  shows "\<exists>s'. bnd (push s v) pop = Inr (v, s') \<and> ok s' \<and> elements s' = elements s"
proof -
  obtain s1 where s1: "push s v = Inr s1" "ok s1" "elements s1 = v # elements s"
    using push_elements [OF assms] by blast
  with pop_cons [OF s1(2,3)] show ?thesis by simp
qed

end

section \<open>Arrays provide it\<close>

definition array_ok :: "'a array \<Rightarrow> bool" where
  "array_ok self \<longleftrightarrow> length (arr_values self) = arr_size self \<and> arr_cursor self \<le> arr_size self \<and>
     arr_grow_step self > 0 \<and> (\<forall>i < arr_size self. arr_cursor self \<le> i \<longrightarrow> arr_values self ! i = None)"

definition array_contents :: "'a array \<Rightarrow> 'a option list" where
  "array_contents self = take (arr_cursor self) (arr_values self)"

lemma array_okI:
  assumes "length (arr_values self) = arr_size self" and "arr_cursor self \<le> arr_size self"
    and "arr_grow_step self > 0"
    and "\<And>i. i < arr_size self \<Longrightarrow> arr_cursor self \<le> i \<Longrightarrow> arr_values self ! i = None"
  shows "array_ok self"
  using assms by (simp add: array_ok_def)

lemma array_ok_new: "n > 0 \<Longrightarrow> array_ok (array_new n)"
  by (simp add: array_ok_def array_new_def)

lemma array_ok_new_auto: "array_ok array_new_auto"
  by (simp add: array_new_auto_def ARRAY_AUTO_SIZE_def array_ok_new)

lemma array_contents_new [simp]: "array_contents (array_new n) = []"
  by (simp add: array_contents_def array_new_def)

lemma length_array_contents: "array_ok self \<Longrightarrow> length (array_contents self) = array_length self"
  by (simp add: array_ok_def array_contents_def array_length_def)

lemma array_resize_ok:
  assumes "array_ok self" and "n \<ge> arr_size self"
  obtains self' where "array_resize self n = Inr self'" and "array_ok self'"
    and "arr_size self' = n" and "arr_cursor self' = arr_cursor self"
    and "array_contents self' = array_contents self"
    and "arr_grow_step self' = arr_grow_step self"
proof (rule that)
  let ?s = "self\<lparr>arr_values := arr_values self @ replicate (n - arr_size self) None, arr_size := n\<rparr>"
  show "array_resize self n = Inr ?s"
    using assms by (cases "n = arr_size self") (simp_all add: array_resize_def)
  show "array_ok ?s"
    using assms by (auto simp: array_ok_def nth_append)
  show "array_contents ?s = array_contents self"
    using assms by (simp add: array_ok_def array_contents_def)
qed simp_all

lemma array_get_contents:
  assumes "array_ok self"
  shows "array_get self i = slot None (array_contents self) i"
  using assms by (auto simp: array_ok_def array_get_def slot_def array_contents_def)

abbreviation stored :: "'a array \<Rightarrow> nat \<Rightarrow> 'a option \<Rightarrow> 'a array" where
  "stored self i v \<equiv> self\<lparr>arr_values := (arr_values self)[i := v],
     arr_cursor := max (arr_cursor self) (Suc i)\<rparr>"

lemma stored_ok: "array_ok self \<Longrightarrow> i < arr_size self \<Longrightarrow> array_ok (stored self i v)"
  by (auto simp: array_ok_def nth_list_update)

lemma stored_contents:
  assumes "array_ok self" and "i < arr_size self"
  shows "array_contents (stored self i v) = slot_set None (array_contents self) i v"
proof (cases "i < arr_cursor self")
  case True
  then have "max (arr_cursor self) (Suc i) = arr_cursor self" by simp
  then show ?thesis
    using assms True by (simp add: array_ok_def array_contents_def slot_set_def take_update_swap)
next
  case False
  have "take i (arr_values self) = take (arr_cursor self) (arr_values self) @
      replicate (i - arr_cursor self) None"
    using assms False by (intro nth_equalityI) (auto simp: array_ok_def nth_append)
  moreover have "take (Suc i) ((arr_values self)[i := v]) = take i (arr_values self) @ [v]"
    using assms by (simp add: array_ok_def take_Suc_conv_app_nth)
  ultimately show ?thesis
    using assms False by (simp add: array_ok_def array_contents_def slot_set_def max_def)
qed

lemma array_set_contents:
  assumes "array_ok self"
  shows "\<exists>self'. array_set self i v = Inr self' \<and> array_ok self' \<and>
    array_contents self' = slot_set None (array_contents self) i v"
proof -
  obtain s1 where s1: "(if i \<ge> arr_size self then array_resize self (i + arr_grow_step self) else Inr self) = Inr s1"
    "array_ok s1" "i < arr_size s1" "array_contents s1 = array_contents self"
  proof (cases "i \<ge> arr_size self")
    case True
    have "i + arr_grow_step self \<ge> arr_size self" using True by simp
    from array_resize_ok [OF assms this] obtain s1 where
      "array_resize self (i + arr_grow_step self) = Inr s1" "array_ok s1"
      "arr_size s1 = i + arr_grow_step self" "array_contents s1 = array_contents self" by metis
    moreover have "arr_grow_step self > 0" using assms by (simp add: array_ok_def)
    ultimately show ?thesis using that True by simp
  qed (use assms that in simp)
  let ?s = "stored s1 i v"
  have "(if arr_cursor s1 \<le> i then s1\<lparr>arr_values := (arr_values s1)[i := v], arr_cursor := Suc i\<rparr>
     else s1\<lparr>arr_values := (arr_values s1)[i := v]\<rparr>) = ?s"
    by (cases s1) (auto simp: max_def)
  then have "array_set self i v = Inr ?s"
    using s1 by (simp add: array_set_def store_value_def array_ok_def)
  with stored_ok [OF s1(2,3)] stored_contents [OF s1(2,3)] s1(4) show ?thesis by simp
qed

interpretation slots: growable_slots array_ok array_contents array_get array_set
  by unfold_locales (simp_all add: array_get_contents array_set_contents)

lemma array_push_contents:
  assumes "array_ok self"
  shows "\<exists>self'. array_push self v = Inr self' \<and> array_ok self' \<and>
    array_contents self' = array_contents self @ [v]"
proof -
  obtain s1 where s1: "(if array_is_full self then array_resize self (arr_size self + arr_grow_step self) else Inr self) = Inr s1"
    "array_ok s1" "arr_cursor s1 < arr_size s1" "arr_cursor s1 = arr_cursor self"
    "array_contents s1 = array_contents self"
  proof (cases "array_is_full self")
    case True
    have "arr_size self + arr_grow_step self \<ge> arr_size self" by simp
    from array_resize_ok [OF assms this] obtain s1 where
      "array_resize self (arr_size self + arr_grow_step self) = Inr s1" "array_ok s1"
      "arr_size s1 = arr_size self + arr_grow_step self" "arr_cursor s1 = arr_cursor self"
      "array_contents s1 = array_contents self" by metis
    moreover have "arr_grow_step self > 0" using assms by (simp add: array_ok_def)
    ultimately show ?thesis using that True by (simp add: array_is_full_def)
  next
    case False
    then show ?thesis
      using assms by (intro that [of self]) (simp_all add: array_is_full_def array_ok_def)
  qed
  let ?i = "arr_cursor s1"
  have "store_value s1 ?i v = Inr (s1\<lparr>arr_values := (arr_values s1)[?i := v]\<rparr>)"
    using s1(2,3) by (simp add: store_value_def array_ok_def)
  then have "array_push self v = Inr (stored s1 ?i v)"
    unfolding array_push_def s1(1) by (simp add: max_def)
  moreover have "slot_set None (array_contents s1) ?i v = array_contents s1 @ [v]"
    using length_array_contents [OF s1(2)] by (simp add: slot_set_def array_length_def)
  ultimately show ?thesis
    using stored_ok [OF s1(2,3), of v] stored_contents [OF s1(2,3), of v, unfolded s1(5)] s1(5)
    by (intro exI [of _ "stored s1 ?i v"]) (simp only:)
qed

lemma array_pop_contents:
  assumes "array_ok self"
  shows "array_pop self = (if array_contents self = [] then Inl Assert_failed else
     Inr (last (array_contents self),
       self\<lparr>arr_cursor := arr_cursor self - 1,
         arr_values := (arr_values self)[arr_cursor self - 1 := None]\<rparr>))"
proof (cases "arr_cursor self")
  case 0
  then show ?thesis by (simp add: array_pop_def array_contents_def)
next
  case (Suc n)
  have n: "n < length (arr_values self)"
    using assms Suc by (simp add: array_ok_def)
  then have "take (Suc n) (arr_values self) = take n (arr_values self) @ [arr_values self ! n]"
    by (rule take_Suc_conv_app_nth)
  then show ?thesis
    using n Suc by (simp add: array_pop_def array_contents_def at_def)
qed

lemma array_popped:
  assumes "array_ok self" and "array_contents self \<noteq> []"
  shows "array_ok (self\<lparr>arr_cursor := arr_cursor self - 1,
         arr_values := (arr_values self)[arr_cursor self - 1 := None]\<rparr>)"
    and "array_contents (self\<lparr>arr_cursor := arr_cursor self - 1,
         arr_values := (arr_values self)[arr_cursor self - 1 := None]\<rparr>) = butlast (array_contents self)"
proof -
  have n: "arr_cursor self > 0"
    using assms(2) by (auto simp: array_contents_def intro: Nat.gr0I)
  with assms(1) show "array_ok (self\<lparr>arr_cursor := arr_cursor self - 1,
         arr_values := (arr_values self)[arr_cursor self - 1 := None]\<rparr>)"
    by (auto simp: array_ok_def nth_list_update)
  show "array_contents (self\<lparr>arr_cursor := arr_cursor self - 1,
         arr_values := (arr_values self)[arr_cursor self - 1 := None]\<rparr>) = butlast (array_contents self)"
    using n assms(1) by (simp add: array_contents_def array_ok_def butlast_take)
qed

definition array_elements :: "'a array \<Rightarrow> 'a option list" where
  "array_elements self = rev (array_contents self)"

interpretation array_stack: value_stack_interface array_ok array_elements array_push array_pop
proof unfold_locales
  fix s :: "'a array" and v vs
  assume ok: "array_ok s"
  show "\<exists>s'. array_push s v = Inr s' \<and> array_ok s' \<and> array_elements s' = v # array_elements s"
    using array_push_contents [OF ok, of v] by (auto simp: array_elements_def)
  show "array_pop s = Inl Assert_failed" if "array_elements s = []"
    using array_pop_contents [OF ok] that by (simp add: array_elements_def)
  show "\<exists>s'. array_pop s = Inr (v, s') \<and> array_ok s' \<and> array_elements s' = vs"
    if e: "array_elements s = v # vs"
  proof -
    have c: "array_contents s = rev vs @ [v]"
      using e by (simp add: array_elements_def rev_eq_Cons_iff)
    then show ?thesis
      using array_pop_contents [OF ok] array_popped [OF ok] by (simp add: array_elements_def)
  qed
qed

section \<open>Growing and purging\<close>

text \<open>With a step of zero a full array does not grow and the store is out of bounds.\<close>

lemma array_push_full_no_step:
  assumes "array_is_full self" and "arr_grow_step self = 0"
    and "length (arr_values self) = arr_size self"
  shows "array_push self v = Inl Undefined"
  using assms by (simp add: array_push_def array_resize_def store_value_def array_is_full_def)

lemma array_purge_loop_values:
  assumes "length (arr_values self) = arr_size self" and "arr_size self = n" and "i \<le> n"
  shows "\<exists>self'. array_purge_loop [i..<n] self =
      Inr (map the (filter (\<lambda>v. v \<noteq> None) (drop i (arr_values self))), self') \<and>
    arr_values self' = take i (arr_values self) @ replicate (n - i) None \<and>
    arr_size self' = n \<and> arr_grow_step self' = arr_grow_step self \<and>
    arr_destroy_fn self' = arr_destroy_fn self"
  using assms
proof (induction "n - i" arbitrary: i self)
  case 0
  then show ?case by simp
next
  case (Suc k)
  have i: "i < n" using Suc.hyps(2) Suc.prems(3) by simp
  have up: "[i..<n] = i # [Suc i..<n]" using i by (rule upt_conv_Cons)
  have dr: "drop i (arr_values self) = arr_values self ! i # drop (Suc i) (arr_values self)"
    using i Suc.prems by (simp add: Cons_nth_drop_Suc)
  have k: "k = n - Suc i" using Suc.hyps(2) by simp
  show ?case
  proof (cases "arr_values self ! i")
    case None
    have "take (Suc i) (arr_values self) = take i (arr_values self) @ [None]"
      using None i Suc.prems by (simp add: take_Suc_conv_app_nth)
    moreover have "replicate (n - i) (None :: 'a option) = None # replicate (n - Suc i) None"
      using i by (simp add: Suc_diff_Suc flip: replicate_Suc)
    ultimately show ?thesis
      using Suc.hyps(1) [OF k Suc.prems(1,2)] i None Suc.prems
      by (simp add: up dr array_get_def)
  next
    case (Some v)
    let ?s = "if arr_cursor self \<le> i then self\<lparr>arr_values := (arr_values self)[i := None], arr_cursor := Suc i\<rparr>
       else self\<lparr>arr_values := (arr_values self)[i := None]\<rparr>"
    have set: "array_set self i None = Inr ?s"
      using i Suc.prems by (simp add: array_set_def store_value_def)
    have "arr_values ?s = (arr_values self)[i := None]" by simp
    moreover have "take (Suc i) ((arr_values self)[i := None]) = take i (arr_values self) @ [None]"
      using i Suc.prems by (simp add: take_Suc_conv_app_nth)
    moreover have "replicate (n - i) (None :: 'a option) = None # replicate (n - Suc i) None"
      using i by (simp add: Suc_diff_Suc flip: replicate_Suc)
    ultimately show ?thesis
      using Suc.hyps(1) [OF k, of ?s] i Some Suc.prems set
      by (auto simp: up dr array_get_def)
  qed
qed

text \<open>
  Purging destroys each value once, in the order of the slots, and leaves an empty array of
  the same size.
\<close>

lemma array_purge_values:
  assumes "array_ok self"
  shows "\<exists>self'. array_purge self = Inr
      (if arr_destroy_fn self then map the (filter (\<lambda>v. v \<noteq> None) (array_contents self)) else [], self') \<and>
    array_ok self' \<and> array_contents self' = [] \<and> array_size self' = array_size self"
proof -
  have n: "length (arr_values self) = arr_size self" and g: "arr_grow_step self > 0"
    using assms by (simp_all add: array_ok_def)
  have "filter (\<lambda>v. v \<noteq> None) (drop (arr_cursor self) (arr_values self)) = []"
    using assms by (auto simp: filter_empty_conv in_set_conv_nth array_ok_def)
  then have v: "filter (\<lambda>v. v \<noteq> None) (arr_values self) = filter (\<lambda>v. v \<noteq> None) (array_contents self)"
    unfolding array_contents_def
    by (metis append_take_drop_id append_Nil2 filter_append)
  show ?thesis
    using array_purge_loop_values [OF n refl, of 0] g v
    by (cases "arr_destroy_fn self")
      (auto simp: array_purge_def array_ok_def array_contents_def array_size_def)
qed

end
