(* ===== verification/Linked_List.thy ===== *)
theory Linked_List
  imports Dyn_Array
begin

text \<open>
  Doubly linked lists with a private cursor (\<open>src/src/packages/std/list/list.c\<close>), at the level of
  the pointers. The cells of a list live in \<open>l_store\<close>, a pointer to a cell is its address there
  and NULL is \<open>None\<close>; a freed cell is empty. A value is \<open>'a option\<close>, NULL being \<open>None\<close>. The
  call-backs are a flag (\<open>destroy_fn\<close>: an operation that destroys returns what it destroys) and
  functions (\<open>equal_fn\<close>, \<open>copy_fn\<close>). A traversal that follows the \<open>next\<close> pointers returns a
  \<open>loop\<close>, since it would not end on a cyclic list.
\<close>

section \<open>Cells and lists\<close>

record 'a list_node =
  l_prev :: "nat option"
  l_next :: "nat option"
  l_value :: "'a option"

record 'a list_t =
  l_store :: "'a list_node option list"
  l_first :: "nat option"
  l_last :: "nat option"
  l_cursor :: "nat option"
  l_length :: nat
  l_destroy_fn :: bool
  l_equal_fn :: "('a option \<Rightarrow> 'a option \<Rightarrow> bool) option"
  l_copy_fn :: "('a option \<Rightarrow> 'a option) option"

definition list_new :: "'a list_t" where
  "list_new = \<lparr>l_store = [], l_first = None, l_last = None, l_cursor = None, l_length = 0,
     l_destroy_fn = False, l_equal_fn = None, l_copy_fn = None\<rparr>"

definition list_set_destroy_fn :: "'a list_t \<Rightarrow> 'a list_t" where
  "list_set_destroy_fn self = self\<lparr>l_destroy_fn := True\<rparr>"

definition list_set_equal_fn :: "'a list_t \<Rightarrow> ('a option \<Rightarrow> 'a option \<Rightarrow> bool) \<Rightarrow> 'a list_t" where
  "list_set_equal_fn self f = self\<lparr>l_equal_fn := Some f\<rparr>"

definition list_set_copy_fn :: "'a list_t \<Rightarrow> ('a option \<Rightarrow> 'a option) \<Rightarrow> 'a list_t" where
  "list_set_copy_fn self f = self\<lparr>l_copy_fn := Some f\<rparr>"

definition list_new_with :: "'a list_t" where
  "list_new_with = list_new\<lparr>l_destroy_fn := True\<rparr>"

definition list_length :: "'a list_t \<Rightarrow> nat" where "list_length self = l_length self"

definition list_is_empty :: "'a list_t \<Rightarrow> bool" where
  "list_is_empty self \<longleftrightarrow> l_length self = 0"

definition update_cell :: "nat \<Rightarrow> ('a list_node \<Rightarrow> 'a list_node) \<Rightarrow> 'a list_node option list \<Rightarrow>
    'a list_node option list res" where
  "update_cell a f st = deref (cell st a) (\<lambda>n. Inr (st[a := Some (f n)]))"

section \<open>Searching\<close>

text \<open>The address of the first cell from \<open>p\<close> on whose value satisfies \<open>P\<close>.\<close>

partial_function (option) search_cell ::
    "('a option \<Rightarrow> bool) \<Rightarrow> 'a list_node option list \<Rightarrow> nat option \<Rightarrow> nat option loop" where
  "search_cell P st p =
     (case p of
        None \<Rightarrow> Some (Inr None)
      | Some a \<Rightarrow>
          (case cell st a of
             None \<Rightarrow> Some (Inl Undefined)
           | Some n \<Rightarrow> if P (l_value n) then Some (Inr (Some a)) else search_cell P st (l_next n)))"

declare search_cell.simps [code]

definition list_matches :: "'a list_t \<Rightarrow> 'a option \<Rightarrow> 'a option \<Rightarrow> bool" where
  "list_matches self v w \<longleftrightarrow>
     w = v \<or> (case l_equal_fn self of None \<Rightarrow> False | Some equal \<Rightarrow> equal w v)"

definition list_has :: "'a list_t \<Rightarrow> 'a option \<Rightarrow> bool loop" where
  "list_has self v =
     lbnd (search_cell (list_matches self v) (l_store self) (l_first self))
       (\<lambda>p. Some (Inr (p \<noteq> None)))"

definition list_find :: "'a list_t \<Rightarrow> 'a option \<Rightarrow> ('a option \<times> 'a list_t) loop" where
  "list_find self v =
     lbnd (search_cell (list_matches self v) (l_store self) (l_first self)) (\<lambda>p.
       case p of
         None \<Rightarrow> Some (Inr (None, self\<lparr>l_cursor := l_first self\<rparr>))
       | Some a \<Rightarrow> Some (deref (cell (l_store self) a) (\<lambda>n. Inr (l_value n, self\<lparr>l_cursor := Some a\<rparr>))))"

definition unlink_node :: "'a list_t \<Rightarrow> nat \<Rightarrow> ('a option \<times> 'a list_t) res" where
  "unlink_node self a =
     deref (cell (l_store self) a) (\<lambda>n.
     bnd (case l_next n of
            None \<Rightarrow> Inr (l_store self)
          | Some b \<Rightarrow> update_cell b (\<lambda>m. m\<lparr>l_prev := l_prev n\<rparr>) (l_store self)) (\<lambda>st.
     bnd (case l_prev n of
            None \<Rightarrow> Inr st
          | Some b \<Rightarrow> update_cell b (\<lambda>m. m\<lparr>l_next := l_next n\<rparr>) st) (\<lambda>st.
       Inr (l_value n, self\<lparr>
         l_store := st[a := None],
         l_cursor := (if l_cursor self = Some a then None else l_cursor self),
         l_first := (if l_first self = Some a then l_next n else l_first self),
         l_last := (if l_last self = Some a then l_prev n else l_last self),
         l_length := l_length self - 1\<rparr>))))"

text \<open>The values passed to \<open>destroy_fn\<close> are the second component.\<close>

definition list_remove :: "'a list_t \<Rightarrow> 'a option \<Rightarrow> (bool \<times> 'a option list \<times> 'a list_t) loop" where
  "list_remove self v =
     lbnd (search_cell (list_matches self v) (l_store self) (l_first self)) (\<lambda>p.
       case p of
         None \<Rightarrow> Some (Inr (False, [], self))
       | Some a \<Rightarrow> Some (bnd (unlink_node self a) (\<lambda>(x, self').
           Inr (True, if l_destroy_fn self then [x] else [], self'))))"

partial_function (option) list_get_loop ::
    "'a list_node option list \<Rightarrow> nat option \<Rightarrow> nat \<Rightarrow> 'a option loop" where
  "list_get_loop st p index =
     (case p of
        None \<Rightarrow> Some (Inr None)
      | Some a \<Rightarrow>
          (case cell st a of
             None \<Rightarrow> Some (Inl Undefined)
           | Some n \<Rightarrow> if index = 0 then Some (Inr (l_value n))
                       else list_get_loop st (l_next n) (index - 1)))"

declare list_get_loop.simps [code]

definition list_get :: "'a list_t \<Rightarrow> nat \<Rightarrow> 'a option loop" where
  "list_get self index = list_get_loop (l_store self) (l_first self) index"

section \<open>The cursor\<close>

definition list_cursor_is_end :: "'a list_t \<Rightarrow> bool" where
  "list_cursor_is_end self \<longleftrightarrow> l_cursor self = l_last self"

definition list_current :: "'a list_t \<Rightarrow> 'a option res" where
  "list_current self =
     (case l_cursor self of
        None \<Rightarrow> Inr None
      | Some a \<Rightarrow> deref (cell (l_store self) a) (\<lambda>n. Inr (l_value n)))"

definition move_cursor :: "'a list_t \<Rightarrow> nat option \<Rightarrow> ('a option \<times> 'a list_t) res" where
  "move_cursor self p =
     bnd (list_current (self\<lparr>l_cursor := p\<rparr>)) (\<lambda>v. Inr (v, self\<lparr>l_cursor := p\<rparr>))"

definition list_first :: "'a list_t \<Rightarrow> ('a option \<times> 'a list_t) res" where
  "list_first self = move_cursor self (l_first self)"

definition list_last :: "'a list_t \<Rightarrow> ('a option \<times> 'a list_t) res" where
  "list_last self = move_cursor self (l_last self)"

definition list_next :: "'a list_t \<Rightarrow> ('a option \<times> 'a list_t) res" where
  "list_next self =
     (case l_cursor self of
        None \<Rightarrow> move_cursor self (l_first self)
      | Some a \<Rightarrow> deref (cell (l_store self) a) (\<lambda>n. move_cursor self (l_next n)))"

definition list_prev :: "'a list_t \<Rightarrow> ('a option \<times> 'a list_t) res" where
  "list_prev self =
     (case l_cursor self of
        None \<Rightarrow> move_cursor self (l_last self)
      | Some a \<Rightarrow> deref (cell (l_store self) a) (\<lambda>n. move_cursor self (l_prev n)))"

section \<open>The ends\<close>

definition list_push :: "'a list_t \<Rightarrow> 'a option \<Rightarrow> 'a list_t res" where
  "list_push self v =
     (let a = length (l_store self)
      in bnd (case l_last self of
           None \<Rightarrow> Inr (self\<lparr>l_store := l_store self @ [Some \<lparr>l_prev = None, l_next = None, l_value = v\<rparr>],
                             l_first := Some a\<rparr>)
         | Some b \<Rightarrow>
             bnd (update_cell b (\<lambda>m. m\<lparr>l_next := Some a\<rparr>) (l_store self)) (\<lambda>st.
               Inr (self\<lparr>l_store := st @ [Some \<lparr>l_prev = Some b, l_next = None, l_value = v\<rparr>]\<rparr>))) (\<lambda>self.
         Inr (self\<lparr>l_last := Some a, l_length := l_length self + 1\<rparr>)))"

definition list_unshift :: "'a list_t \<Rightarrow> 'a option \<Rightarrow> 'a list_t res" where
  "list_unshift self v =
     (let a = length (l_store self)
      in bnd (case l_first self of
           None \<Rightarrow> Inr (self\<lparr>l_store := l_store self @ [Some \<lparr>l_prev = None, l_next = None, l_value = v\<rparr>],
                             l_last := Some a\<rparr>)
         | Some b \<Rightarrow>
             bnd (update_cell b (\<lambda>m. m\<lparr>l_prev := Some a\<rparr>) (l_store self)) (\<lambda>st.
               Inr (self\<lparr>l_store := st @ [Some \<lparr>l_prev = None, l_next = Some b, l_value = v\<rparr>]\<rparr>))) (\<lambda>self.
         Inr (self\<lparr>l_first := Some a, l_length := l_length self + 1\<rparr>)))"

definition list_pop :: "'a list_t \<Rightarrow> ('a option \<times> 'a list_t) res" where
  "list_pop self =
     (let self = (if l_cursor self = l_last self then self\<lparr>l_cursor := None\<rparr> else self)
      in case l_last self of
           None \<Rightarrow> Inr (None, self)
         | Some a \<Rightarrow> deref (cell (l_store self) a) (\<lambda>n.
             let self = (if l_first self = Some a then self\<lparr>l_first := None\<rparr> else self)
             in bnd (case l_prev n of
                  None \<Rightarrow> Inr (self\<lparr>l_last := None\<rparr>)
                | Some b \<Rightarrow> bnd (update_cell b (\<lambda>m. m\<lparr>l_next := None\<rparr>) (l_store self)) (\<lambda>st.
                    Inr (self\<lparr>l_last := Some b, l_store := st\<rparr>))) (\<lambda>self.
                Inr (l_value n, self\<lparr>l_store := (l_store self)[a := None],
                                     l_length := l_length self - 1\<rparr>))))"

definition list_shift :: "'a list_t \<Rightarrow> ('a option \<times> 'a list_t) res" where
  "list_shift self =
     (let self = (if l_cursor self = l_first self then self\<lparr>l_cursor := None\<rparr> else self)
      in case l_first self of
           None \<Rightarrow> Inr (None, self)
         | Some a \<Rightarrow> deref (cell (l_store self) a) (\<lambda>n.
             let self = (if l_last self = Some a then self\<lparr>l_last := None\<rparr> else self)
             in bnd (case l_next n of
                  None \<Rightarrow> Inr (self\<lparr>l_first := None\<rparr>)
                | Some b \<Rightarrow> bnd (update_cell b (\<lambda>m. m\<lparr>l_prev := None\<rparr>) (l_store self)) (\<lambda>st.
                    Inr (self\<lparr>l_first := Some b, l_store := st\<rparr>))) (\<lambda>self.
                Inr (l_value n, self\<lparr>l_store := (l_store self)[a := None],
                                     l_length := l_length self - 1\<rparr>))))"

section \<open>Whole lists\<close>

function purge_cells ::
    "bool \<Rightarrow> 'a list_node option list \<Rightarrow> nat option \<Rightarrow> ('a option list \<times> 'a list_node option list) res" where
  "purge_cells destroys st p =
     (case p of
        None \<Rightarrow> Inr ([], st)
      | Some a \<Rightarrow> deref (cell st a) (\<lambda>n.
          bnd (purge_cells destroys (st[a := None]) (l_next n)) (\<lambda>(vs, st).
            Inr (if destroys then l_value n # vs else vs, st))))"
  by pat_completeness auto
termination
  by (relation "measure (\<lambda>(_, st, _). live_cells st)") (auto intro: live_cells_free)

declare purge_cells.simps [simp del]

definition list_purge :: "'a list_t \<Rightarrow> ('a option list \<times> 'a list_t) res" where
  "list_purge self =
     bnd (purge_cells (l_destroy_fn self) (l_store self) (l_first self)) (\<lambda>(vs, st).
       Inr (vs, self\<lparr>l_store := st, l_first := None, l_last := None, l_cursor := None, l_length := 0\<rparr>))"

definition list_destroy :: "'a list_t option \<Rightarrow> ('a option list \<times> 'a list_t option) res" where
  "list_destroy self_pointer =
     (case self_pointer of
        None \<Rightarrow> Inr ([], None)
      | Some self \<Rightarrow> bnd (list_purge self) (\<lambda>(vs, self). Inr (vs, None)))"

text \<open>
  The loops \<open>value = first(self); while (value) { ...; value = next(self); }\<close> stop at the first
  NULL value.
\<close>

definition copied :: "'a list_t \<Rightarrow> 'a option \<Rightarrow> 'a option" where
  "copied self v = (case l_copy_fn self of None \<Rightarrow> v | Some copy \<Rightarrow> copy v)"

partial_function (option) copy_loop ::
    "('a list_t \<Rightarrow> 'a option \<Rightarrow> 'a list_t res) \<Rightarrow> 'a option \<Rightarrow> 'a list_t \<Rightarrow> 'a list_t \<Rightarrow>
     ('a list_t \<times> 'a list_t) loop" where
  "copy_loop add v self list =
     (if v = None then Some (Inr (list, self))
      else (case add list (copied self v) of
              Inl e \<Rightarrow> Some (Inl e)
            | Inr list \<Rightarrow>
                (case list_next self of
                   Inl e \<Rightarrow> Some (Inl e)
                 | Inr (v, self) \<Rightarrow> copy_loop add v self list)))"

declare copy_loop.simps [code]

definition list_copy :: "'a list_t \<Rightarrow> ('a list_t \<times> 'a list_t) loop" where
  "list_copy self =
     lbnd (Some (list_first self)) (\<lambda>(v, self). copy_loop list_push v self list_new)"

definition list_copy_reversed :: "'a list_t \<Rightarrow> ('a list_t \<times> 'a list_t) loop" where
  "list_copy_reversed self =
     lbnd (Some (list_first self)) (\<lambda>(v, self). copy_loop list_unshift v self list_new)"

fun from_array_loop :: "nat list \<Rightarrow> 'a array \<Rightarrow> 'a list_t \<Rightarrow> 'a list_t res" where
  "from_array_loop [] array list = Inr list"
| "from_array_loop (i # is) array list =
     bnd (list_push list (array_get array i)) (from_array_loop is array)"

definition list_from_array :: "'a array \<Rightarrow> 'a list_t res" where
  "list_from_array array = from_array_loop [0..<array_length array] array list_new"

section \<open>What a list represents\<close>

text \<open>
  \<open>dseg st pr cs nx\<close>: the cells \<open>cs\<close>, given as pairs of an address and a value, are linked in
  that order, after a cell \<open>pr\<close> and before a cell \<open>nx\<close>.
\<close>

definition head_or :: "nat option \<Rightarrow> (nat \<times> 'a option) list \<Rightarrow> nat option" where
  "head_or nx cs = (case cs of [] \<Rightarrow> nx | c # _ \<Rightarrow> Some (fst c))"

definition last_or :: "nat option \<Rightarrow> (nat \<times> 'a option) list \<Rightarrow> nat option" where
  "last_or pr cs = (if cs = [] then pr else Some (fst (last cs)))"

fun dseg :: "'a list_node option list \<Rightarrow> nat option \<Rightarrow> (nat \<times> 'a option) list \<Rightarrow> nat option \<Rightarrow> bool" where
  "dseg st pr [] nx \<longleftrightarrow> True"
| "dseg st pr (c # cs) nx \<longleftrightarrow>
     cell st (fst c) = Some \<lparr>l_prev = pr, l_next = head_or nx cs, l_value = snd c\<rparr> \<and>
     dseg st (Some (fst c)) cs nx"

definition list_ok :: "'a list_t \<Rightarrow> (nat \<times> 'a option) list \<Rightarrow> bool" where
  "list_ok self cs \<longleftrightarrow> dseg (l_store self) None cs None \<and> distinct (map fst cs) \<and>
     l_first self = head_or None cs \<and> l_last self = last_or None cs \<and> l_length self = length cs \<and>
     (\<forall>a. l_cursor self = Some a \<longrightarrow> a \<in> fst ` set cs)"

definition list_rep :: "'a list_t \<Rightarrow> 'a option list \<Rightarrow> bool" where
  "list_rep self xs \<longleftrightarrow> (\<exists>cs. list_ok self cs \<and> map snd cs = xs)"

lemma head_or_simps [simp]: "head_or nx [] = nx" "head_or nx (c # cs) = Some (fst c)"
  by (simp_all add: head_or_def)

lemma last_or_simps [simp]:
  "last_or pr [] = pr" "last_or pr (cs @ [c]) = Some (fst c)"
  "last_or pr (c # cs) = last_or (Some (fst c)) cs"
  by (simp_all add: last_or_def)

lemma head_or_append [simp]: "head_or nx (cs @ ds) = head_or (head_or nx ds) cs"
  by (cases cs) simp_all

lemma last_or_append [simp]: "last_or pr (cs @ ds) = last_or (last_or pr cs) ds"
  by (simp add: last_or_def)

lemma dseg_append [simp]:
  "dseg st pr (cs @ ds) nx \<longleftrightarrow> dseg st pr cs (head_or nx ds) \<and> dseg st (last_or pr cs) ds nx"
  by (induction cs arbitrary: pr) auto

lemma dseg_frame:
  "dseg st pr cs nx \<Longrightarrow> (\<And>c. c \<in> set cs \<Longrightarrow> cell st' (fst c) = cell st (fst c)) \<Longrightarrow> dseg st' pr cs nx"
  by (induction cs arbitrary: pr) auto

lemma dseg_bound: "dseg st pr cs nx \<Longrightarrow> c \<in> set cs \<Longrightarrow> fst c < length st"
  by (induction cs arbitrary: pr) (auto dest: cell_Some_length)

lemma dseg_live: "dseg st pr cs nx \<Longrightarrow> c \<in> set cs \<Longrightarrow> \<exists>n. cell st (fst c) = Some n \<and> l_value n = snd c"
  by (induction cs arbitrary: pr) auto

lemma list_ok_new: "list_ok list_new []"
  by (simp add: list_ok_def list_new_def)

lemma list_rep_new: "list_rep list_new []"
  unfolding list_rep_def using list_ok_new by fastforce

lemma list_repI: "list_ok self cs \<Longrightarrow> map snd cs = xs \<Longrightarrow> list_rep self xs"
  by (auto simp: list_rep_def)

lemma list_ok_length: "list_ok self cs \<Longrightarrow> list_length self = length cs"
  by (simp add: list_ok_def list_length_def)

subsection \<open>Adding at the ends\<close>

lemma list_push_ok:
  assumes "list_ok self cs"
  shows "\<exists>self'. list_push self v = Inr self' \<and> list_ok self' (cs @ [(length (l_store self), v)]) \<and>
    l_cursor self' = l_cursor self"
proof (cases cs rule: rev_cases)
  case Nil
  then show ?thesis
    using assms by (auto simp: list_ok_def list_push_def Let_def cell_append)
next
  case (snoc ds c)
  obtain b x where c: "c = (b, x)" by (cases c)
  let ?st = "l_store self" and ?a = "length (l_store self)"
  have seg: "dseg ?st None ds (Some b)" and b: "cell ?st b = Some \<lparr>l_prev = last_or None ds, l_next = None, l_value = x\<rparr>"
    and ne: "b \<notin> fst ` set ds" and l: "l_last self = Some b" and d: "distinct (map fst ds)"
    using assms snoc c by (auto simp: list_ok_def)
  have lt: "b < length ?st" using b by (rule cell_Some_length)
  let ?st' = "?st[b := Some \<lparr>l_prev = last_or None ds, l_next = Some ?a, l_value = x\<rparr>]
     @ [Some \<lparr>l_prev = Some b, l_next = None, l_value = v\<rparr>]"
  have "dseg ?st' None ds (Some b)"
    using seg by (rule dseg_frame) (use ne dseg_bound [OF seg] in \<open>force simp: cell_append cell_update\<close>)
  moreover have "?a \<notin> fst ` set ds"
    using dseg_bound [OF seg] by force
  ultimately show ?thesis
    using assms snoc c l b lt ne d
    by (auto simp: list_ok_def list_push_def update_cell_def Let_def cell_append cell_update)
qed

lemma list_unshift_ok:
  assumes "list_ok self cs"
  shows "\<exists>self'. list_unshift self v = Inr self' \<and> list_ok self' ((length (l_store self), v) # cs) \<and>
    l_cursor self' = l_cursor self"
proof (cases cs)
  case Nil
  then show ?thesis
    using assms by (auto simp: list_ok_def list_unshift_def Let_def cell_append)
next
  case (Cons c ds)
  obtain b x where c: "c = (b, x)" by (cases c)
  let ?st = "l_store self" and ?a = "length (l_store self)"
  have seg: "dseg ?st (Some b) ds None" and b: "cell ?st b = Some \<lparr>l_prev = None, l_next = head_or None ds, l_value = x\<rparr>"
    and ne: "b \<notin> fst ` set ds" and l: "l_first self = Some b" and d: "distinct (map fst ds)"
    using assms Cons c by (auto simp: list_ok_def)
  have lt: "b < length ?st" using b by (rule cell_Some_length)
  let ?st' = "?st[b := Some \<lparr>l_prev = Some ?a, l_next = head_or None ds, l_value = x\<rparr>]
     @ [Some \<lparr>l_prev = None, l_next = Some b, l_value = v\<rparr>]"
  have "dseg ?st' (Some b) ds None"
    using seg by (rule dseg_frame) (use ne dseg_bound [OF seg] in \<open>force simp: cell_append cell_update\<close>)
  moreover have "?a \<notin> fst ` set ds"
    using dseg_bound [OF seg] by force
  ultimately show ?thesis
    using assms Cons c l b lt ne d
    by (auto simp: list_ok_def list_unshift_def update_cell_def Let_def cell_append cell_update)
qed

subsection \<open>Removing\<close>

lemma list_pop_ok:
  assumes "list_ok self (cs @ [(a, x)])"
  shows "\<exists>self'. list_pop self = Inr (x, self') \<and> list_ok self' cs \<and>
    l_cursor self' = (if l_cursor self = Some a then None else l_cursor self)"
proof (cases cs rule: rev_cases)
  case Nil
  let ?r = "self\<lparr>l_store := (l_store self)[a := None], l_first := None, l_last := None, l_length := 0,
    l_cursor := (if l_cursor self = Some a then None else l_cursor self)\<rparr>"
  have s: "l_first self = Some a" "l_last self = Some a" "l_length self = 1"
      "cell (l_store self) a = Some \<lparr>l_prev = None, l_next = None, l_value = x\<rparr>"
    using assms Nil by (auto simp: list_ok_def)
  have c: "l_cursor self = None \<or> l_cursor self = Some a"
    using assms Nil by (cases "l_cursor self") (auto simp: list_ok_def)
  have "list_pop self = Inr (x, ?r)"
    using s by (simp add: list_pop_def Let_def)
  moreover have "l_cursor ?r = None"
    using c by auto
  ultimately show ?thesis
    using Nil by (intro exI [of _ ?r]) (simp add: list_ok_def)
next
  case (snoc ds c)
  obtain b y where c: "c = (b, y)" by (cases c)
  let ?st = "l_store self"
  have seg: "dseg ?st None ds (Some b)"
    and b: "cell ?st b = Some \<lparr>l_prev = last_or None ds, l_next = Some a, l_value = y\<rparr>"
    and a: "cell ?st a = Some \<lparr>l_prev = Some b, l_next = None, l_value = x\<rparr>"
    and ne: "b \<notin> fst ` set ds" "a \<notin> fst ` set ds" "a \<noteq> b"
    using assms snoc c by (auto simp: list_ok_def)
  let ?st' = "?st[b := Some \<lparr>l_prev = last_or None ds, l_next = None, l_value = y\<rparr>, a := None]"
  have "dseg ?st' None ds (Some b)"
    using seg by (rule dseg_frame) (use ne in \<open>force simp: cell_update\<close>)
  moreover have "cell ?st' b = Some \<lparr>l_prev = last_or None ds, l_next = None, l_value = y\<rparr>"
    using ne cell_Some_length [OF b] by (simp add: cell_update)
  moreover let ?r = "self\<lparr>l_store := ?st', l_last := Some b, l_length := length cs,
    l_cursor := (if l_cursor self = Some a then None else l_cursor self)\<rparr>"
  have "l_last self = Some a" "l_first self \<noteq> Some a" "l_length self = Suc (length cs)"
    using assms snoc c ne by (cases ds; force simp: list_ok_def)+
  then have "list_pop self = Inr (x, ?r)"
    using a b ne by (simp add: list_pop_def Let_def update_cell_def)
  moreover have "l_first self = head_or None cs" "distinct (map fst cs)"
      "\<And>d. l_cursor self = Some d \<Longrightarrow> d = a \<or> d \<in> fst ` set cs"
    using assms by (auto simp: list_ok_def snoc c)
  ultimately show ?thesis
    by (intro exI [of _ ?r]) (auto simp: list_ok_def snoc c)
qed

lemma list_pop_nil:
  assumes "list_ok self []"
  shows "list_pop self = Inr (None, self)"
  using assms by (auto simp: list_ok_def list_pop_def Let_def)

lemma list_shift_ok:
  assumes "list_ok self ((a, x) # cs)"
  shows "\<exists>self'. list_shift self = Inr (x, self') \<and> list_ok self' cs \<and>
    l_cursor self' = (if l_cursor self = Some a then None else l_cursor self)"
proof (cases cs)
  case Nil
  let ?r = "self\<lparr>l_store := (l_store self)[a := None], l_first := None, l_last := None, l_length := 0,
    l_cursor := (if l_cursor self = Some a then None else l_cursor self)\<rparr>"
  have s: "l_first self = Some a" "l_last self = Some a" "l_length self = 1"
      "cell (l_store self) a = Some \<lparr>l_prev = None, l_next = None, l_value = x\<rparr>"
    using assms Nil by (auto simp: list_ok_def)
  have c: "l_cursor self = None \<or> l_cursor self = Some a"
    using assms Nil by (cases "l_cursor self") (auto simp: list_ok_def)
  have "list_shift self = Inr (x, ?r)"
    using s by (simp add: list_shift_def Let_def)
  moreover have "l_cursor ?r = None"
    using c by auto
  ultimately show ?thesis
    using Nil by (intro exI [of _ ?r]) (simp add: list_ok_def)
next
  case (Cons c ds)
  obtain b y where c: "c = (b, y)" by (cases c)
  let ?st = "l_store self"
  have seg: "dseg ?st (Some b) ds None"
    and b: "cell ?st b = Some \<lparr>l_prev = Some a, l_next = head_or None ds, l_value = y\<rparr>"
    and a: "cell ?st a = Some \<lparr>l_prev = None, l_next = Some b, l_value = x\<rparr>"
    and ne: "b \<notin> fst ` set ds" "a \<notin> fst ` set ds" "a \<noteq> b"
    using assms Cons c by (auto simp: list_ok_def)
  let ?st' = "?st[b := Some \<lparr>l_prev = None, l_next = head_or None ds, l_value = y\<rparr>, a := None]"
  have "dseg ?st' (Some b) ds None"
    using seg by (rule dseg_frame) (use ne in \<open>force simp: cell_update\<close>)
  moreover have "cell ?st' b = Some \<lparr>l_prev = None, l_next = head_or None ds, l_value = y\<rparr>"
    using ne cell_Some_length [OF b] by (simp add: cell_update)
  moreover let ?r = "self\<lparr>l_store := ?st', l_first := Some b, l_length := length cs,
    l_cursor := (if l_cursor self = Some a then None else l_cursor self)\<rparr>"
  have "l_first self = Some a" "l_last self \<noteq> Some a" "l_length self = Suc (length cs)"
    using assms Cons c ne by (cases ds rule: rev_cases; force simp: list_ok_def)+
  then have "list_shift self = Inr (x, ?r)"
    using a b ne by (simp add: list_shift_def Let_def update_cell_def)
  moreover have "l_last self = last_or None cs" "distinct (map fst cs)"
      "\<And>d. l_cursor self = Some d \<Longrightarrow> d = a \<or> d \<in> fst ` set cs"
    using assms by (auto simp: list_ok_def Cons c)
  ultimately show ?thesis
    by (intro exI [of _ ?r]) (auto simp: list_ok_def Cons c)
qed

lemma list_shift_nil:
  assumes "list_ok self []"
  shows "list_shift self = Inr (None, self)"
  using assms by (auto simp: list_ok_def list_shift_def Let_def)

subsection \<open>Searching\<close>

lemma search_cell_dseg:
  "dseg st pr cs None \<Longrightarrow>
     search_cell P st (head_or None cs) = Some (Inr (map_option fst (List.find (\<lambda>c. P (snd c)) cs)))"
proof (induction cs arbitrary: pr)
  case Nil
  show ?case by (subst search_cell.simps) simp
next
  case (Cons c cs)
  then have c: "cell st (fst c) = Some \<lparr>l_prev = pr, l_next = head_or None cs, l_value = snd c\<rparr>"
    and cs: "dseg st (Some (fst c)) cs None"
    by simp_all
  show ?case
    by (subst search_cell.simps) (simp add: c Cons.IH [OF cs])
qed

lemma find_snd: "List.find (\<lambda>c. P (snd c)) cs = None \<longleftrightarrow> (\<forall>x \<in> set (map snd cs). \<not> P x)"
  by (induction cs) auto

lemma list_search:
  assumes "list_ok self cs"
  shows "search_cell P (l_store self) (l_first self) =
    Some (Inr (map_option fst (List.find (\<lambda>c. P (snd c)) cs)))"
proof -
  have "dseg (l_store self) None cs None" and "l_first self = head_or None cs"
    using assms by (simp_all add: list_ok_def)
  then show ?thesis by (simp add: search_cell_dseg)
qed

lemma list_has_rep:
  assumes "list_rep self xs"
  shows "list_has self v = Some (Inr (\<exists>x \<in> set xs. list_matches self v x))"
proof -
  obtain cs where "list_ok self cs" and xs: "map snd cs = xs"
    using assms by (auto simp: list_rep_def)
  then show ?thesis
    using find_snd [of "list_matches self v" cs]
    by (auto simp: list_has_def list_search simp del: not_None_eq)
qed

lemma list_find_ok:
  assumes "list_ok self (ds @ (a, x) # es)"
    and "\<forall>d \<in> set ds. \<not> list_matches self v (snd d)" and "list_matches self v x"
  shows "list_find self v = Some (Inr (x, self\<lparr>l_cursor := Some a\<rparr>))"
proof -
  have "List.find (\<lambda>c. list_matches self v (snd c)) (ds @ (a, x) # es) = Some (a, x)"
    using assms(2,3) by (induction ds) auto
  moreover have "\<exists>n. cell (l_store self) a = Some n \<and> l_value n = x"
    using assms(1) by (auto simp: list_ok_def)
  ultimately show ?thesis
    using list_search [OF assms(1), of "list_matches self v"] by (auto simp: list_find_def)
qed

text \<open>A value that is not found leaves the cursor at the first cell.\<close>

lemma list_find_none:
  assumes "list_rep self xs" and "\<forall>x \<in> set xs. \<not> list_matches self v x"
  shows "list_find self v = Some (Inr (None, self\<lparr>l_cursor := l_first self\<rparr>))"
proof -
  obtain cs where ok: "list_ok self cs" and xs: "map snd cs = xs"
    using assms by (auto simp: list_rep_def)
  have "List.find (\<lambda>c. list_matches self v (snd c)) cs = None"
    using assms(2) xs by (simp add: find_snd)
  then show ?thesis
    using list_search [OF ok, of "list_matches self v"] by (simp add: list_find_def)
qed

lemma relink_next:
  assumes "dseg st (Some a) es None" and "distinct (map fst es)"
  shows "\<exists>st1. (case head_or None es of None \<Rightarrow> Inr st
      | Some b \<Rightarrow> update_cell b (\<lambda>m. m\<lparr>l_prev := pr\<rparr>) st) = Inr st1 \<and>
    dseg st1 pr es None \<and> (\<forall>d. d \<notin> fst ` set es \<longrightarrow> cell st1 d = cell st d)"
proof (cases es)
  case (Cons c es')
  let ?st1 = "st[fst c := Some \<lparr>l_prev = pr, l_next = head_or None es', l_value = snd c\<rparr>]"
  have es': "dseg st (Some (fst c)) es' None" and n: "fst c \<notin> fst ` set es'"
    and c: "cell st (fst c) = Some \<lparr>l_prev = Some a, l_next = head_or None es', l_value = snd c\<rparr>"
    using assms Cons by auto
  have "cell ?st1 (fst d) = cell st (fst d)" if "d \<in> set es'" for d
    using n that by (auto simp: cell_update)
  with es' have "dseg ?st1 (Some (fst c)) es' None"
    by (rule dseg_frame)
  moreover have "update_cell (fst c) (\<lambda>m. m\<lparr>l_prev := pr\<rparr>) st = Inr ?st1"
    by (simp add: update_cell_def c)
  ultimately show ?thesis
    using Cons cell_Some_length [OF c] by (intro exI [of _ ?st1]) (simp add: cell_update)
qed simp

lemma relink_prev:
  assumes "dseg st None ds (Some a)" and "distinct (map fst ds)"
  shows "\<exists>st1. (case last_or None ds of None \<Rightarrow> Inr st
      | Some b \<Rightarrow> update_cell b (\<lambda>m. m\<lparr>l_next := nx\<rparr>) st) = Inr st1 \<and>
    dseg st1 None ds nx \<and> (\<forall>d. d \<notin> fst ` set ds \<longrightarrow> cell st1 d = cell st d)"
proof (cases ds rule: rev_cases)
  case (snoc ds' c)
  let ?st1 = "st[fst c := Some \<lparr>l_prev = last_or None ds', l_next = nx, l_value = snd c\<rparr>]"
  have ds': "dseg st None ds' (Some (fst c))" and n: "fst c \<notin> fst ` set ds'"
    and c: "cell st (fst c) = Some \<lparr>l_prev = last_or None ds', l_next = Some a, l_value = snd c\<rparr>"
    using assms snoc by auto
  have "cell ?st1 (fst d) = cell st (fst d)" if "d \<in> set ds'" for d
    using n that by (auto simp: cell_update)
  with ds' have "dseg ?st1 None ds' (Some (fst c))"
    by (rule dseg_frame)
  moreover have "update_cell (fst c) (\<lambda>m. m\<lparr>l_next := nx\<rparr>) st = Inr ?st1"
    by (simp add: update_cell_def c)
  ultimately show ?thesis
    using snoc cell_Some_length [OF c] by (intro exI [of _ ?st1]) (simp add: cell_update)
qed simp

lemma unlink_node_ok:
  assumes ok: "list_ok self (ds @ (a, x) # es)"
  shows "\<exists>self'. unlink_node self a = Inr (x, self') \<and> list_ok self' (ds @ es) \<and>
    l_cursor self' = (if l_cursor self = Some a then None else l_cursor self)"
proof -
  let ?st = "l_store self"
  have a: "cell ?st a = Some \<lparr>l_prev = last_or None ds, l_next = head_or None es, l_value = x\<rparr>"
    and ds: "dseg ?st None ds (Some a)" and es: "dseg ?st (Some a) es None"
    and d: "distinct (map fst ds)" "distinct (map fst es)" "a \<notin> fst ` set ds" "a \<notin> fst ` set es"
      "fst ` set ds \<inter> fst ` set es = {}"
    and f: "l_first self = head_or (Some a) ds" "l_last self = last_or (Some a) es"
    and l: "l_length self = Suc (length ds + length es)"
    and c: "\<And>b. l_cursor self = Some b \<Longrightarrow> b = a \<or> b \<in> fst ` set (ds @ es)"
    using ok by (auto simp: list_ok_def)
  obtain st1 where st1: "(case head_or None es of None \<Rightarrow> Inr ?st
      | Some b \<Rightarrow> update_cell b (\<lambda>m. m\<lparr>l_prev := last_or None ds\<rparr>) ?st) = Inr st1"
      "dseg st1 (last_or None ds) es None" "\<And>d. d \<notin> fst ` set es \<Longrightarrow> cell st1 d = cell ?st d"
    using relink_next [OF es d(2), of "last_or None ds"] by blast
  have "dseg st1 None ds (Some a)"
    using ds by (rule dseg_frame) (use d(5) st1(3) in force)
  then obtain st2 where st2: "(case last_or None ds of None \<Rightarrow> Inr st1
      | Some b \<Rightarrow> update_cell b (\<lambda>m. m\<lparr>l_next := head_or None es\<rparr>) st1) = Inr st2"
      "dseg st2 None ds (head_or None es)" "\<And>d. d \<notin> fst ` set ds \<Longrightarrow> cell st2 d = cell st1 d"
    using relink_prev [OF _ d(1), of st1 a "head_or None es"] by blast
  have es2: "dseg (st2[a := None]) (last_or None ds) es None"
  proof (rule dseg_frame [OF st1(2)])
    fix c assume "c \<in> set es"
    then have "fst c \<noteq> a" "fst c \<notin> fst ` set ds" using d(4,5) by auto
    then show "cell (st2[a := None]) (fst c) = cell st1 (fst c)"
      by (simp add: cell_update st2(3))
  qed
  have ds2: "dseg (st2[a := None]) None ds (head_or None es)"
  proof (rule dseg_frame [OF st2(2)])
    fix c assume "c \<in> set ds"
    then have "fst c \<noteq> a" using d(3) by auto
    then show "cell (st2[a := None]) (fst c) = cell st2 (fst c)"
      by (simp add: cell_update)
  qed
  let ?r = "self\<lparr>l_store := st2[a := None],
    l_cursor := (if l_cursor self = Some a then None else l_cursor self),
    l_first := (if l_first self = Some a then head_or None es else l_first self),
    l_last := (if l_last self = Some a then last_or None ds else l_last self),
    l_length := l_length self - 1\<rparr>"
  have "unlink_node self a = Inr (x, ?r)"
    using a st1(1) st2(1) by (simp add: unlink_node_def cong: option.case_cong if_cong split del: if_split)
  moreover have "l_first ?r = head_or None (ds @ es)"
    using f d(3) by (cases ds) auto
  moreover have "l_last ?r = last_or None (ds @ es)"
    using f d(4) by (cases es rule: rev_cases) auto
  moreover have "distinct (map fst (ds @ es))"
    using d by auto
  moreover have "\<forall>b. l_cursor ?r = Some b \<longrightarrow> b \<in> fst ` set (ds @ es)"
    using c by auto
  ultimately show ?thesis
    using es2 ds2 l by (intro exI [of _ ?r]) (simp add: list_ok_def)
qed

lemma list_remove_ok:
  assumes "list_ok self (ds @ (a, x) # es)"
    and "\<forall>d \<in> set ds. \<not> list_matches self v (snd d)" and "list_matches self v x"
  shows "\<exists>self'. list_remove self v = Some (Inr (True, if l_destroy_fn self then [x] else [], self')) \<and>
    list_ok self' (ds @ es) \<and> l_cursor self' = (if l_cursor self = Some a then None else l_cursor self)"
proof -
  have "List.find (\<lambda>c. list_matches self v (snd c)) (ds @ (a, x) # es) = Some (a, x)"
    using assms(2,3) by (induction ds) auto
  then show ?thesis
    using list_search [OF assms(1), of "list_matches self v"] unlink_node_ok [OF assms(1)]
    by (auto simp: list_remove_def)
qed

text \<open>\<open>list_remove\<close> takes out the first value that matches, and only that one.\<close>

fun remove_first :: "('a \<Rightarrow> bool) \<Rightarrow> 'a list \<Rightarrow> 'a list" where
  "remove_first P [] = []"
| "remove_first P (x # xs) = (if P x then xs else x # remove_first P xs)"

lemma remove_first_append:
  "\<forall>x \<in> set xs. \<not> P x \<Longrightarrow> remove_first P (xs @ ys) = xs @ remove_first P ys"
  by (induction xs) auto

lemma remove_first_none: "\<forall>x \<in> set xs. \<not> P x \<Longrightarrow> remove_first P xs = xs"
  by (induction xs) auto

lemma list_remove_rep:
  assumes "list_rep self xs"
  shows "\<exists>self'. list_remove self v =
      Some (Inr (\<exists>x \<in> set xs. list_matches self v x,
        if l_destroy_fn self then take 1 (filter (list_matches self v) xs) else [], self')) \<and>
    list_rep self' (remove_first (list_matches self v) xs)"
proof -
  obtain cs where ok: "list_ok self cs" and xs: "map snd cs = xs"
    using assms by (auto simp: list_rep_def)
  show ?thesis
  proof (cases "\<exists>x \<in> set xs. list_matches self v x")
    case False
    then have "List.find (\<lambda>c. list_matches self v (snd c)) cs = None"
      using xs by (simp add: find_snd)
    then have "list_remove self v = Some (Inr (False, [], self))"
      using list_search [OF ok, of "list_matches self v"] by (simp add: list_remove_def)
    moreover have "filter (list_matches self v) xs = []"
      using False by (simp add: filter_empty_conv)
    ultimately show ?thesis
      using False assms by (auto simp: remove_first_none)
  next
    case True
    then have "\<exists>c \<in> set cs. list_matches self v (snd c)" using xs by auto
    then obtain ds c es where cs: "cs = ds @ c # es" and c: "list_matches self v (snd c)"
      and ds: "\<forall>d \<in> set ds. \<not> list_matches self v (snd d)"
      using split_list_first_prop [of cs "\<lambda>c. list_matches self v (snd c)"] by blast
    obtain a x where ax: "c = (a, x)" by (cases c)
    obtain self' where "list_remove self v = Some (Inr (True, if l_destroy_fn self then [x] else [], self'))"
        "list_ok self' (ds @ es)"
      using list_remove_ok [of self ds a x es v] ok cs c ds ax by auto
    moreover have "remove_first (list_matches self v) xs = map snd (ds @ es)"
      using cs c ds ax xs by (auto simp: remove_first_append)
    moreover have "take 1 (filter (list_matches self v) xs) = [x]"
      using xs cs ds c ax by (auto simp: filter_empty_conv)
    ultimately show ?thesis
      using True by (auto simp: list_rep_def)
  qed
qed

lemma list_get_loop_dseg:
  "dseg st pr cs None \<Longrightarrow>
     list_get_loop st (head_or None cs) i = Some (Inr (if i < length cs then snd (cs ! i) else None))"
proof (induction cs arbitrary: pr i)
  case Nil
  then show ?case by (subst list_get_loop.simps) simp
next
  case (Cons c cs)
  then show ?case
    by (subst list_get_loop.simps) (cases i; force)
qed

lemma list_get_rep:
  assumes "list_rep self xs"
  shows "list_get self i = Some (Inr (slot None xs i))"
proof -
  obtain cs where ok: "list_ok self cs" and xs: "map snd cs = xs"
    using assms by (auto simp: list_rep_def)
  then have "dseg (l_store self) None cs None" and "l_first self = head_or None cs"
    by (simp_all add: list_ok_def)
  then show ?thesis
    by (simp add: list_get_def list_get_loop_dseg slot_def flip: xs)
qed

subsection \<open>The cursor\<close>

definition head_value :: "(nat \<times> 'a option) list \<Rightarrow> 'a option" where
  "head_value cs = (case cs of [] \<Rightarrow> None | c # _ \<Rightarrow> snd c)"

lemma head_value_simps [simp]: "head_value [] = None" "head_value (c # cs) = snd c"
  by (simp_all add: head_value_def)

text \<open>The cursor moves forward; from NULL it moves to the first cell.\<close>

lemma list_first_ok:
  assumes "list_ok self cs"
  shows "list_first self = Inr (head_value cs, self\<lparr>l_cursor := head_or None cs\<rparr>)"
  using assms by (cases cs) (auto simp: list_ok_def list_first_def move_cursor_def list_current_def head_value_def)

lemma list_next_ok:
  assumes "list_ok self (ds @ (a, x) # es)" and "l_cursor self = Some a"
  shows "list_next self = Inr (head_value es, self\<lparr>l_cursor := head_or None es\<rparr>)"
  using assms
  by (cases es) (auto simp: list_ok_def list_next_def move_cursor_def list_current_def head_value_def)

lemma list_next_wraps:
  assumes "list_ok self cs" and "l_cursor self = None"
  shows "list_next self = list_first self"
  using assms by (simp add: list_next_def list_first_def)

lemma list_prev_ok:
  assumes "list_ok self (ds @ (a, x) # es)" and "l_cursor self = Some a"
  shows "list_prev self = Inr (if ds = [] then None else snd (last ds), self\<lparr>l_cursor := last_or None ds\<rparr>)"
  using assms
  by (cases ds rule: rev_cases)
    (auto simp: list_ok_def list_prev_def move_cursor_def list_current_def)

lemma list_ok_cursor:
  "list_ok self cs \<Longrightarrow> p = None \<or> (\<exists>c \<in> set cs. p = Some (fst c)) \<Longrightarrow> list_ok (self\<lparr>l_cursor := p\<rparr>) cs"
  by (auto simp: list_ok_def)

lemma head_or_cases: "head_or None es = None \<or> (\<exists>c \<in> set (ds @ es). head_or None es = Some (fst c))"
  by (cases es) auto

subsection \<open>Whole lists\<close>

lemma purge_cells_dseg:
  "dseg st pr cs None \<Longrightarrow> distinct (map fst cs) \<Longrightarrow>
     \<exists>st'. purge_cells f st (head_or None cs) = Inr (if f then map snd cs else [], st') \<and>
       (\<forall>c \<in> set cs. cell st' (fst c) = None) \<and> (\<forall>a. a \<notin> fst ` set cs \<longrightarrow> cell st' a = cell st a)"
proof (induction cs arbitrary: st pr)
  case Nil
  then show ?case by (subst purge_cells.simps) simp
next
  case (Cons c cs)
  let ?st1 = "st[fst c := None]"
  have c: "cell st (fst c) = Some \<lparr>l_prev = pr, l_next = head_or None cs, l_value = snd c\<rparr>"
    and cs: "dseg st (Some (fst c)) cs None" and n: "fst c \<notin> fst ` set cs"
    using Cons.prems by auto
  have "cell ?st1 (fst d) = cell st (fst d)" if "d \<in> set cs" for d
    using n that by (auto simp: cell_update)
  with cs have seg1: "dseg ?st1 (Some (fst c)) cs None" by (rule dseg_frame)
  obtain st' where "purge_cells f ?st1 (head_or None cs) = Inr (if f then map snd cs else [], st')"
      "\<forall>c \<in> set cs. cell st' (fst c) = None" "\<forall>a. a \<notin> fst ` set cs \<longrightarrow> cell st' a = cell ?st1 a"
    using Cons.IH [OF seg1] Cons.prems(2) by auto
  then show ?case
    using c n cell_Some_length [OF c] by (subst purge_cells.simps) (auto simp: cell_update)
qed

text \<open>Purging frees every cell of the list and destroys each value once, from the first on.\<close>

lemma list_purge_ok:
  assumes "list_ok self cs"
  shows "\<exists>self'. list_purge self = Inr (if l_destroy_fn self then map snd cs else [], self') \<and>
    list_ok self' [] \<and> (\<forall>c \<in> set cs. cell (l_store self') (fst c) = None)"
proof -
  have d: "dseg (l_store self) None cs None" "distinct (map fst cs)"
    and f: "l_first self = head_or None cs"
    using assms by (simp_all add: list_ok_def)
  obtain st' where p: "purge_cells (l_destroy_fn self) (l_store self) (head_or None cs) =
        Inr (if l_destroy_fn self then map snd cs else [], st')"
      and s: "\<forall>c \<in> set cs. cell st' (fst c) = None"
    using purge_cells_dseg [OF d] by blast
  let ?r = "self\<lparr>l_store := st', l_first := None, l_last := None, l_cursor := None, l_length := 0\<rparr>"
  have "list_purge self = Inr (if l_destroy_fn self then map snd cs else [], ?r)"
    unfolding list_purge_def f p by simp
  then show ?thesis
    using s by (intro exI [of _ ?r]) (simp add: list_ok_def)
qed

lemma copy_loop_ok:
  assumes add: "\<And>out xs w. list_rep out xs \<Longrightarrow> \<exists>out'. add out w = Inr out' \<and> list_rep out' (f xs w)"
    and "list_ok self (ds @ es)" and "l_cursor self = head_or None es"
    and "None \<notin> snd ` set es" and "list_rep out xs"
  shows "\<exists>out'. copy_loop add (head_value es) self out = Some (Inr (out', self\<lparr>l_cursor := None\<rparr>)) \<and>
    list_rep out' (foldl f xs (map (copied self) (map snd es)))"
  using assms(2-)
proof (induction es arbitrary: ds self out xs)
  case Nil
  then have "self\<lparr>l_cursor := None\<rparr> = self" by simp
  with Nil show ?case by (subst copy_loop.simps) (simp add: head_value_def)
next
  case (Cons c es)
  obtain a x where c: "c = (a, Some x)"
    using Cons.prems(3) by (cases c; cases "snd c") auto
  let ?cp = "copied self (Some x)"
  obtain out1 where o1: "add out ?cp = Inr out1" "list_rep out1 (f xs ?cp)"
    using add [OF Cons.prems(4)] by blast
  let ?self = "self\<lparr>l_cursor := head_or None es\<rparr>"
  have nx: "list_next self = Inr (head_value es, ?self)"
    using Cons.prems(1,2) c by (intro list_next_ok [of _ ds a "Some x"]) simp_all
  have "list_ok self ((ds @ [c]) @ es)" using Cons.prems(1) by simp
  from list_ok_cursor [OF this head_or_cases] have "list_ok ?self ((ds @ [c]) @ es)" .
  from Cons.IH [OF this _ _ o1(2)] Cons.prems(3)
  obtain out' where "copy_loop add (head_value es) ?self out1 = Some (Inr (out', ?self\<lparr>l_cursor := None\<rparr>))"
      "list_rep out' (foldl f (f xs ?cp) (map (copied ?self) (map snd es)))"
    by auto
  moreover have "copied ?self = copied self"
    by (simp add: fun_eq_iff copied_def)
  ultimately show ?case
    using o1 nx c by (subst copy_loop.simps) simp
qed

lemma list_push_rep:
  assumes "list_rep self xs"
  shows "\<exists>self'. list_push self v = Inr self' \<and> list_rep self' (xs @ [v])"
proof -
  obtain cs where "list_ok self cs" and xs: "map snd cs = xs"
    using assms by (auto simp: list_rep_def)
  then obtain self' where "list_push self v = Inr self'" and ok: "list_ok self' (cs @ [(length (l_store self), v)])"
    using list_push_ok by blast
  moreover have "list_rep self' (xs @ [v])" using ok by (rule list_repI) (simp add: xs)
  ultimately show ?thesis by blast
qed

lemma list_unshift_rep:
  assumes "list_rep self xs"
  shows "\<exists>self'. list_unshift self v = Inr self' \<and> list_rep self' (v # xs)"
proof -
  obtain cs where "list_ok self cs" and xs: "map snd cs = xs"
    using assms by (auto simp: list_rep_def)
  then obtain self' where "list_unshift self v = Inr self'" and ok: "list_ok self' ((length (l_store self), v) # cs)"
    using list_unshift_ok by blast
  moreover have "list_rep self' (v # xs)" using ok by (rule list_repI) (simp add: xs)
  ultimately show ?thesis by blast
qed

lemma foldl_snoc: "foldl (\<lambda>xs x. xs @ [x]) xs ys = xs @ ys"
  by (induction ys arbitrary: xs) auto

lemma foldl_cons: "foldl (\<lambda>xs x. x # xs) xs ys = rev ys @ xs"
  by (induction ys arbitrary: xs) auto

lemma list_copies_rep:
  assumes "list_ok self cs" and "None \<notin> snd ` set cs"
  shows "\<exists>out. list_copy self = Some (Inr (out, self\<lparr>l_cursor := None\<rparr>)) \<and>
      list_rep out (map (copied self) (map snd cs))"
    and "\<exists>out. list_copy_reversed self = Some (Inr (out, self\<lparr>l_cursor := None\<rparr>)) \<and>
      list_rep out (rev (map (copied self) (map snd cs)))"
proof -
  let ?self = "self\<lparr>l_cursor := head_or None cs\<rparr>"
  have ok: "list_ok ?self ([] @ cs)"
    using list_ok_cursor [OF assms(1)] head_or_cases [of cs "[]"] by simp
  have c: "copied ?self = copied self"
    by (simp add: fun_eq_iff copied_def)
  show "\<exists>out. list_copy self = Some (Inr (out, self\<lparr>l_cursor := None\<rparr>)) \<and>
      list_rep out (map (copied self) (map snd cs))"
    using copy_loop_ok [where add = list_push and f = "\<lambda>xs x. xs @ [x]", OF list_push_rep ok _ assms(2) list_rep_new]
      list_first_ok [OF assms(1)] c
    by (simp add: list_copy_def foldl_snoc)
  show "\<exists>out. list_copy_reversed self = Some (Inr (out, self\<lparr>l_cursor := None\<rparr>)) \<and>
      list_rep out (rev (map (copied self) (map snd cs)))"
    using copy_loop_ok [where add = list_unshift and f = "\<lambda>xs x. x # xs", OF list_unshift_rep ok _ assms(2) list_rep_new]
      list_first_ok [OF assms(1)] c
    by (simp add: list_copy_reversed_def foldl_cons)
qed

lemma from_array_loop_rep:
  "list_rep list xs \<Longrightarrow>
     \<exists>list'. from_array_loop is array list = Inr list' \<and> list_rep list' (xs @ map (array_get array) is)"
proof (induction "is" arbitrary: list xs)
  case (Cons i "is")
  obtain list1 where "list_push list (array_get array i) = Inr list1" "list_rep list1 (xs @ [array_get array i])"
    using list_push_rep [OF Cons.prems] by blast
  with Cons.IH [OF this(2)] show ?case by simp
qed simp

lemma list_from_array_rep:
  assumes "array_ok array"
  shows "\<exists>list. list_from_array array = Inr list \<and> list_rep list (array_contents array)"
proof -
  have "map (array_get array) [0..<array_length array] = array_contents array"
    using length_array_contents [OF assms]
    by (intro nth_equalityI) (auto simp: array_get_contents [OF assms] slot_def)
  with from_array_loop_rep [OF list_rep_new, of "[0..<array_length array]" array] show ?thesis
    by (simp add: list_from_array_def)
qed

section \<open>Double-ended sequences\<close>

text \<open>
  The contract of the four operations at the ends, for any representation of a sequence; NULL
  is what an empty sequence pops.
\<close>

locale double_ended =
  fixes rep :: "'s \<Rightarrow> 'a option list \<Rightarrow> bool"
    and push_back :: "'s \<Rightarrow> 'a option \<Rightarrow> 's res"
    and push_front :: "'s \<Rightarrow> 'a option \<Rightarrow> 's res"
    and pop_back :: "'s \<Rightarrow> ('a option \<times> 's) res"
    and pop_front :: "'s \<Rightarrow> ('a option \<times> 's) res"
  assumes push_back_rep: "rep s xs \<Longrightarrow> \<exists>s'. push_back s v = Inr s' \<and> rep s' (xs @ [v])"
    and push_front_rep: "rep s xs \<Longrightarrow> \<exists>s'. push_front s v = Inr s' \<and> rep s' (v # xs)"
    and pop_back_rep: "rep s (xs @ [v]) \<Longrightarrow> \<exists>s'. pop_back s = Inr (v, s') \<and> rep s' xs"
    and pop_front_rep: "rep s (v # xs) \<Longrightarrow> \<exists>s'. pop_front s = Inr (v, s') \<and> rep s' xs"
    and pop_back_empty: "rep s [] \<Longrightarrow> \<exists>s'. pop_back s = Inr (None, s') \<and> rep s' []"
    and pop_front_empty: "rep s [] \<Longrightarrow> \<exists>s'. pop_front s = Inr (None, s') \<and> rep s' []"
begin

fun push_back_all :: "'a option list \<Rightarrow> 's \<Rightarrow> 's res" where
  "push_back_all [] s = Inr s"
| "push_back_all (v # vs) s = bnd (push_back s v) (push_back_all vs)"

fun pop_front_n :: "nat \<Rightarrow> 's \<Rightarrow> ('a option list \<times> 's) res" where
  "pop_front_n 0 s = Inr ([], s)"
| "pop_front_n (Suc n) s =
     bnd (pop_front s) (\<lambda>(v, s). bnd (pop_front_n n s) (\<lambda>(vs, s). Inr (v # vs, s)))"

fun pop_back_n :: "nat \<Rightarrow> 's \<Rightarrow> ('a option list \<times> 's) res" where
  "pop_back_n 0 s = Inr ([], s)"
| "pop_back_n (Suc n) s =
     bnd (pop_back s) (\<lambda>(v, s). bnd (pop_back_n n s) (\<lambda>(vs, s). Inr (v # vs, s)))"

lemma push_back_all_rep: "rep s xs \<Longrightarrow> \<exists>s'. push_back_all vs s = Inr s' \<and> rep s' (xs @ vs)"
proof (induction vs arbitrary: s xs)
  case (Cons v vs)
  obtain s1 where "push_back s v = Inr s1" "rep s1 (xs @ [v])"
    using push_back_rep [OF Cons.prems] by blast
  with Cons.IH [OF this(2)] show ?case by simp
qed simp

lemma pop_front_n_rep:
  "rep s (vs @ xs) \<Longrightarrow> \<exists>s'. pop_front_n (length vs) s = Inr (vs, s') \<and> rep s' xs"
proof (induction vs arbitrary: s)
  case (Cons v vs)
  obtain s1 where "pop_front s = Inr (v, s1)" "rep s1 (vs @ xs)"
    using pop_front_rep [of s v "vs @ xs"] Cons.prems by auto
  with Cons.IH [OF this(2)] show ?case by auto
qed simp

lemma pop_back_n_rep:
  "rep s (xs @ rev vs) \<Longrightarrow> \<exists>s'. pop_back_n (length vs) s = Inr (vs, s') \<and> rep s' xs"
proof (induction vs arbitrary: s)
  case (Cons v vs)
  obtain s1 where "pop_back s = Inr (v, s1)" "rep s1 (xs @ rev vs)"
    using pop_back_rep [of s "xs @ rev vs" v] Cons.prems by auto
  with Cons.IH [OF this(2)] show ?case by auto
qed simp

text \<open>What goes in at the back comes out at the front in the same order, and at the back reversed.\<close>

lemma first_in_first_out:
  assumes "rep s []"
  shows "\<exists>s'. bnd (push_back_all vs s) (pop_front_n (length vs)) = Inr (vs, s') \<and> rep s' []"
  using push_back_all_rep [OF assms, of vs] pop_front_n_rep [of _ vs "[]"] by fastforce

lemma last_in_first_out:
  assumes "rep s xs"
  shows "\<exists>s'. bnd (push_back_all vs s) (pop_back_n (length vs)) = Inr (rev vs, s') \<and> rep s' xs"
  using push_back_all_rep [OF assms, of vs] pop_back_n_rep [of _ xs "rev vs"] by fastforce

end

interpretation linked: double_ended list_rep list_push list_unshift list_pop list_shift
proof unfold_locales
  fix s :: "'a list_t" and xs v
  show "list_rep s xs \<Longrightarrow> \<exists>s'. list_push s v = Inr s' \<and> list_rep s' (xs @ [v])"
    by (rule list_push_rep)
  show "list_rep s xs \<Longrightarrow> \<exists>s'. list_unshift s v = Inr s' \<and> list_rep s' (v # xs)"
    by (rule list_unshift_rep)
  show "\<exists>s'. list_pop s = Inr (v, s') \<and> list_rep s' xs" if rep: "list_rep s (xs @ [v])"
  proof -
    obtain cs where ok: "list_ok s cs" and xs: "map snd cs = xs @ [v]"
      using rep by (auto simp: list_rep_def)
    then obtain cs' c where cs: "cs = cs' @ [c]" by (cases cs rule: rev_cases) auto
    obtain a where c: "c = (a, v)" using xs cs by (cases c) simp
    have ok: "list_ok s (cs' @ [(a, v)])" using ok cs c by simp
    show ?thesis
      using list_pop_ok [OF ok] xs cs by (auto simp: list_rep_def)
  qed
  show "\<exists>s'. list_shift s = Inr (v, s') \<and> list_rep s' xs" if rep: "list_rep s (v # xs)"
  proof -
    obtain cs where ok: "list_ok s cs" and xs: "map snd cs = v # xs"
      using rep by (auto simp: list_rep_def)
    then obtain cs' a where cs: "cs = (a, v) # cs'" by (cases cs) auto
    show ?thesis
      using list_shift_ok [OF ok [unfolded cs]] xs cs by (auto simp: list_rep_def)
  qed
  show "\<exists>s'. list_pop s = Inr (None, s') \<and> list_rep s' []" if "list_rep s []"
    using that list_pop_nil by (auto simp: list_rep_def)
  show "\<exists>s'. list_shift s = Inr (None, s') \<and> list_rep s' []" if "list_rep s []"
    using that list_shift_nil by (auto simp: list_rep_def)
qed

text \<open>The operations on the pointers are operations on the sequence that they stand for.\<close>

lemma list_is_sequence:
  assumes "list_rep self xs"
  shows "list_length self = length xs \<and> list_get self i = Some (Inr (slot None xs i)) \<and>
     list_has self v = Some (Inr (\<exists>x \<in> set xs. list_matches self v x)) \<and>
     (\<exists>s. list_push self v = Inr s \<and> list_rep s (xs @ [v])) \<and>
     (\<exists>s. list_unshift self v = Inr s \<and> list_rep s (v # xs)) \<and>
     (\<exists>s. list_pop self = Inr (if xs = [] then None else last xs, s) \<and> list_rep s (butlast xs)) \<and>
     (\<exists>s. list_shift self = Inr (if xs = [] then None else hd xs, s) \<and> list_rep s (tl xs)) \<and>
     (\<exists>s. list_remove self v = Some (Inr (\<exists>x \<in> set xs. list_matches self v x,
        if l_destroy_fn self then take 1 (filter (list_matches self v) xs) else [], s)) \<and>
        list_rep s (remove_first (list_matches self v) xs)) \<and>
     (None \<notin> set xs \<longrightarrow>
        (\<exists>out s. list_copy self = Some (Inr (out, s)) \<and> list_rep s xs \<and> list_rep out (map (copied self) xs)) \<and>
        (\<exists>out s. list_copy_reversed self = Some (Inr (out, s)) \<and> list_rep s xs \<and>
           list_rep out (rev (map (copied self) xs))))"
proof -
  obtain cs where ok: "list_ok self cs" and xs: "map snd cs = xs"
    using assms by (auto simp: list_rep_def)
  have "list_rep (self\<lparr>l_cursor := None\<rparr>) xs"
    using ok xs by (auto simp: list_rep_def list_ok_def)
  then have "(\<exists>out s. list_copy self = Some (Inr (out, s)) \<and> list_rep s xs \<and> list_rep out (map (copied self) xs)) \<and>
      (\<exists>out s. list_copy_reversed self = Some (Inr (out, s)) \<and> list_rep s xs \<and>
         list_rep out (rev (map (copied self) xs)))" if "None \<notin> set xs"
    using list_copies_rep [OF ok] that xs by force
  moreover have "\<exists>s. list_pop self = Inr (if xs = [] then None else last xs, s) \<and> list_rep s (butlast xs)"
    using assms linked.pop_back_empty linked.pop_back_rep by (cases xs rule: rev_cases) auto
  moreover have "\<exists>s. list_shift self = Inr (if xs = [] then None else hd xs, s) \<and> list_rep s (tl xs)"
    using assms linked.pop_front_empty linked.pop_front_rep by (cases xs) auto
  moreover have "list_length self = length xs"
    using list_ok_length [OF ok] xs by auto
  ultimately show ?thesis
    using list_get_rep [OF assms] list_has_rep [OF assms] list_push_rep [OF assms] list_unshift_rep [OF assms]
      list_remove_rep [OF assms] by blast
qed

end
