(* ===== verification/Stack.thy ===== *)
theory Stack
  imports Linked_List
begin

text \<open>
  Stacks (\<open>src/src/packages/std/stack/stack.c\<close>), which are growable arrays whose top is the last
  value, and \<open>stack_tuck_n\<close>, which moves the values above the new one through a linked list.
\<close>

record 'a stack_t =
  stack_array :: "'a array"

definition stack_new :: "'a stack_t" where
  "stack_new = \<lparr>stack_array = array_new_auto\<rparr>"

definition stack_purge :: "'a stack_t \<Rightarrow> ('a list \<times> 'a stack_t) res" where
  "stack_purge self = bnd (array_purge (stack_array self)) (\<lambda>(vs, a). Inr (vs, self\<lparr>stack_array := a\<rparr>))"

text \<open>\<open>stack_destroy\<close> purges, and \<open>array_destroy\<close> purges the emptied array once more.\<close>

definition stack_destroy :: "'a stack_t option \<Rightarrow> ('a list \<times> 'a stack_t option) res" where
  "stack_destroy self_pointer =
     (case self_pointer of
        None \<Rightarrow> Inr ([], None)
      | Some self \<Rightarrow>
          bnd (stack_purge self) (\<lambda>(vs, self).
          bnd (array_destroy (Some (stack_array self))) (\<lambda>(ws, _). Inr (vs @ ws, None))))"

definition stack_set_destroy_fn :: "'a stack_t \<Rightarrow> 'a stack_t" where
  "stack_set_destroy_fn self = self\<lparr>stack_array := array_set_destroy_fn (stack_array self)\<rparr>"

definition stack_new_with :: "'a stack_t" where
  "stack_new_with = stack_set_destroy_fn stack_new"

definition stack_length :: "'a stack_t \<Rightarrow> nat" where "stack_length self = array_length (stack_array self)"

definition stack_is_empty :: "'a stack_t \<Rightarrow> bool" where
  "stack_is_empty self \<longleftrightarrow> array_is_empty (stack_array self)"

definition stack_top :: "'a stack_t \<Rightarrow> 'a option res" where
  "stack_top self = array_top (stack_array self)"

definition stack_pop :: "'a stack_t \<Rightarrow> ('a option \<times> 'a stack_t) res" where
  "stack_pop self = bnd (array_pop (stack_array self)) (\<lambda>(v, a). Inr (v, self\<lparr>stack_array := a\<rparr>))"

definition stack_push :: "'a stack_t \<Rightarrow> 'a option \<Rightarrow> 'a stack_t res" where
  "stack_push self v = bnd (array_push (stack_array self) v) (\<lambda>a. Inr (self\<lparr>stack_array := a\<rparr>))"

definition stack_get :: "'a stack_t \<Rightarrow> nat \<Rightarrow> 'a option" where
  "stack_get self index = array_get (stack_array self) index"

definition stack_pick :: "'a stack_t \<Rightarrow> nat \<Rightarrow> 'a option res" where
  "stack_pick self index = array_pick (stack_array self) index"

fun tuck_pop_loop :: "nat \<Rightarrow> 'a stack_t \<Rightarrow> 'a list_t \<Rightarrow> ('a stack_t \<times> 'a list_t) res" where
  "tuck_pop_loop 0 self value_list = Inr (self, value_list)"
| "tuck_pop_loop (Suc n) self value_list =
     bnd (stack_pop self) (\<lambda>(v, self).
     asserting (v \<noteq> None)
       (bnd (list_unshift value_list v) (tuck_pop_loop n self)))"

partial_function (option) tuck_push_loop ::
    "'a option \<Rightarrow> 'a stack_t \<Rightarrow> 'a list_t \<Rightarrow> ('a stack_t \<times> 'a list_t) loop" where
  "tuck_push_loop v self value_list =
     (if v = None then Some (Inr (self, value_list))
      else (case stack_push self v of
              Inl e \<Rightarrow> Some (Inl e)
            | Inr self \<Rightarrow>
                (case list_next value_list of
                   Inl e \<Rightarrow> Some (Inl e)
                 | Inr (v, value_list) \<Rightarrow> tuck_push_loop v self value_list)))"

declare tuck_push_loop.simps [code]

definition stack_tuck_n :: "'a stack_t \<Rightarrow> 'a option \<Rightarrow> nat \<Rightarrow> 'a stack_t loop" where
  "stack_tuck_n self target n =
     lbnd (Some (tuck_pop_loop n self list_new)) (\<lambda>(self, value_list).
     lbnd (Some (stack_push self target)) (\<lambda>self.
     lbnd (Some (list_first value_list)) (\<lambda>(v, value_list).
     lbnd (tuck_push_loop v self value_list) (\<lambda>(self, value_list).
     lbnd (Some (list_destroy (Some value_list))) (\<lambda>_. Some (Inr self))))))"

section \<open>Stacks are stacks\<close>

definition stack_wf :: "'a stack_t \<Rightarrow> bool" where
  "stack_wf self \<longleftrightarrow> array_ok (stack_array self)"

definition stack_elements :: "'a stack_t \<Rightarrow> 'a option list" where
  "stack_elements self = array_elements (stack_array self)"

interpretation stack: value_stack_interface stack_wf stack_elements stack_push stack_pop
proof unfold_locales
  fix s :: "'a stack_t" and v vs
  assume ok: "stack_wf s"
  then have a: "array_ok (stack_array s)" by (simp add: stack_wf_def)
  show "\<exists>s'. stack_push s v = Inr s' \<and> stack_wf s' \<and> stack_elements s' = v # stack_elements s"
    using array_stack.push_elements [OF a, of v]
    by (auto simp: stack_push_def stack_wf_def stack_elements_def)
  show "stack_pop s = Inl Assert_failed" if "stack_elements s = []"
    using array_stack.pop_nil [OF a] that by (simp add: stack_pop_def stack_elements_def)
  show "\<exists>s'. stack_pop s = Inr (v, s') \<and> stack_wf s' \<and> stack_elements s' = vs"
    if "stack_elements s = v # vs"
    using array_stack.pop_cons [OF a] that
    by (auto simp: stack_pop_def stack_wf_def stack_elements_def)
qed

lemma stack_new_ok: "stack_wf stack_new" "stack_elements stack_new = []"
  by (simp_all add: stack_wf_def stack_new_def stack_elements_def array_elements_def
    array_new_auto_def ARRAY_AUTO_SIZE_def array_ok_new)

lemma stack_length_elements: "stack_wf self \<Longrightarrow> stack_length self = length (stack_elements self)"
  by (simp add: stack_wf_def stack_length_def stack_elements_def array_elements_def
    length_array_contents)

lemma stack_pick_elements:
  assumes "stack_wf self" and "i < stack_length self"
  shows "stack_pick self i = Inr (stack_elements self ! i)"
  using assms length_array_contents [of "stack_array self"]
  by (simp add: stack_wf_def stack_length_def stack_pick_def array_pick_def array_length_def
    stack_elements_def array_elements_def array_get_contents slot_def rev_nth)

lemma stack_destroy_values:
  assumes "stack_wf self"
  shows "stack_destroy (Some self) = Inr (if arr_destroy_fn (stack_array self)
      then map the (filter (\<lambda>v. v \<noteq> None) (rev (stack_elements self))) else [], None)"
proof -
  let ?a = "stack_array self"
  obtain a' where a': "array_purge ?a = Inr
      (if arr_destroy_fn ?a then map the (filter (\<lambda>v. v \<noteq> None) (array_contents ?a)) else [], a')"
      "array_ok a'" "array_contents a' = []"
    using array_purge_values [of ?a] assms by (auto simp: stack_wf_def)
  obtain a'' where "array_purge a' = Inr ([], a'')"
    using array_purge_values [OF a'(2)] a'(3) by (auto split: if_splits)
  with a' show ?thesis
    by (simp add: stack_destroy_def stack_purge_def array_destroy_def stack_elements_def
      array_elements_def)
qed

section \<open>Tucking\<close>

lemma tuck_pop_loop_ok:
  assumes "stack_wf self" and "list_rep value_list xs"
    and "stack_elements self = vs @ ws" and "None \<notin> set vs"
  shows "\<exists>self' list'. tuck_pop_loop (length vs) self value_list = Inr (self', list') \<and>
    stack_wf self' \<and> stack_elements self' = ws \<and> list_rep list' (rev vs @ xs)"
  using assms
proof (induction vs arbitrary: self value_list xs)
  case (Cons v vs)
  obtain s1 where s1: "stack_pop self = Inr (v, s1)" "stack_wf s1" "stack_elements s1 = vs @ ws"
    using stack.pop_cons [OF Cons.prems(1), of v "vs @ ws"] Cons.prems(3) by auto
  obtain l1 where l1: "list_unshift value_list v = Inr l1" "list_rep l1 (v # xs)"
    using list_unshift_rep [OF Cons.prems(2)] by blast
  show ?case
    using Cons.IH [OF s1(2) l1(2) s1(3)] Cons.prems(4) s1(1) l1(1) by (cases v) auto
qed simp

lemma tuck_push_loop_ok:
  assumes "stack_wf self" and "list_ok l (ds @ es)" and "l_cursor l = head_or None es"
    and "None \<notin> snd ` set es"
  shows "\<exists>self'. tuck_push_loop (head_value es) self l = Some (Inr (self', l\<lparr>l_cursor := None\<rparr>)) \<and>
    stack_wf self' \<and> stack_elements self' = rev (map snd es) @ stack_elements self"
  using assms
proof (induction es arbitrary: ds self l)
  case Nil
  then have "l\<lparr>l_cursor := None\<rparr> = l" by simp
  with Nil show ?case by (subst tuck_push_loop.simps) simp
next
  case (Cons c es)
  obtain a x where c: "c = (a, Some x)"
    using Cons.prems(4) by (cases c; cases "snd c") auto
  obtain s1 where s1: "stack_push self (Some x) = Inr s1" "stack_wf s1"
      "stack_elements s1 = Some x # stack_elements self"
    using stack.push_elements [OF Cons.prems(1)] by blast
  let ?l = "l\<lparr>l_cursor := head_or None es\<rparr>"
  have nx: "list_next l = Inr (head_value es, ?l)"
    using Cons.prems(2,3) c by (intro list_next_ok [of _ ds a "Some x"]) simp_all
  have "list_ok l ((ds @ [c]) @ es)" using Cons.prems(2) by simp
  from list_ok_cursor [OF this head_or_cases] have "list_ok ?l ((ds @ [c]) @ es)" .
  from Cons.IH [OF s1(2) this] Cons.prems(4) show ?case
    using s1 nx c by (subst tuck_push_loop.simps) auto
qed

text \<open>The value is put under the top \<open>n\<close> values, which keep their order.\<close>

lemma stack_tuck_n_elements:
  assumes "stack_wf self" and "stack_elements self = vs @ ws" and "None \<notin> set vs"
  shows "\<exists>self'. stack_tuck_n self target (length vs) = Some (Inr self') \<and> stack_wf self' \<and>
    stack_elements self' = vs @ target # ws"
proof -
  obtain s1 l1 where s1: "tuck_pop_loop (length vs) self list_new = Inr (s1, l1)"
      "stack_wf s1" "stack_elements s1 = ws" "list_rep l1 (rev vs)"
    using tuck_pop_loop_ok [OF assms(1) list_rep_new assms(2,3)] by auto
  obtain s2 where s2: "stack_push s1 target = Inr s2" "stack_wf s2" "stack_elements s2 = target # ws"
    using stack.push_elements [OF s1(2), of target] s1(3) by auto
  obtain cs where cs: "list_ok l1 cs" "map snd cs = rev vs"
    using s1(4) by (auto simp: list_rep_def)
  let ?l = "l1\<lparr>l_cursor := head_or None cs\<rparr>"
  have l: "list_ok ?l ([] @ cs)"
    using list_ok_cursor [OF cs(1)] head_or_cases [of cs "[]"] by simp
  have "snd ` set cs = set vs" using cs(2) by (metis list.set_map set_rev)
  then obtain s3 where s3: "tuck_push_loop (head_value cs) s2 ?l = Some (Inr (s3, ?l\<lparr>l_cursor := None\<rparr>))"
      "stack_wf s3" "stack_elements s3 = vs @ target # ws"
    using tuck_push_loop_ok [OF s2(2) l] assms(3) s2(3) cs(2) by auto
  have "list_ok (?l\<lparr>l_cursor := None\<rparr>) cs"
    using list_ok_cursor [OF cs(1), of None] by simp
  then obtain vs' l' where "list_destroy (Some (?l\<lparr>l_cursor := None\<rparr>)) = Inr (vs', l')"
    using list_purge_ok by (fastforce simp: list_destroy_def)
  with s1(1) s2(1) s3 list_first_ok [OF cs(1)] show ?thesis
    by (simp add: stack_tuck_n_def)
qed

text \<open>With fewer values than that, or with a NULL among them, popping them fails its assertion.\<close>

lemma tuck_pop_loop_fails:
  assumes "stack_wf self" and "list_rep value_list xs"
    and "\<not> (n \<le> length (stack_elements self) \<and> None \<notin> set (take n (stack_elements self)))"
  shows "tuck_pop_loop n self value_list = Inl Assert_failed"
  using assms
proof (induction n arbitrary: self value_list xs)
  case (Suc n)
  show ?case
  proof (cases "stack_elements self")
    case Nil
    then show ?thesis using stack.pop_nil [OF Suc.prems(1)] by simp
  next
    case (Cons v vs)
    obtain s1 where s1: "stack_pop self = Inr (v, s1)" "stack_wf s1" "stack_elements s1 = vs"
      using stack.pop_cons [OF Suc.prems(1) Cons] by auto
    obtain l1 where l1: "list_unshift value_list v = Inr l1" "list_rep l1 (v # xs)"
      using list_unshift_rep [OF Suc.prems(2)] by blast
    show ?thesis
    proof (cases v)
      case None
      then show ?thesis using s1(1) by simp
    next
      case (Some x)
      have "tuck_pop_loop n s1 l1 = Inl Assert_failed"
        by (rule Suc.IH [OF s1(2) l1(2)]) (use Suc.prems(3) Cons s1(3) Some in simp)
      then show ?thesis using s1(1) l1(1) Some by simp
    qed
  qed
qed simp

lemma stack_tuck_n_fails:
  assumes "stack_wf self"
    and "\<not> (n \<le> length (stack_elements self) \<and> None \<notin> set (take n (stack_elements self)))"
  shows "stack_tuck_n self target n = Some (Inl Assert_failed)"
  using tuck_pop_loop_fails [OF assms(1) list_rep_new assms(2)] by (simp add: stack_tuck_n_def)

end
