(* ===== verification/Ring_Queue.thy ===== *)
theory Ring_Queue
  imports Prelude
begin

text \<open>
  The circular queue of one producer and one consumer (\<open>src/src/packages/std/queue/queue.c\<close>). The
  cursors are 64-bit and run on for ever; the slot of a cursor is its lower bits. Each side keeps
  a cached copy of the other side's cursor, and reloads it only when the queue looks full or
  empty.

  The operations are given as they run undisturbed, and again as the steps between the accesses
  to shared memory, which the two threads interleave in any order. An acquire load sees what was
  stored before the matching release store, so memory is sequentially consistent here for the
  two threads.
\<close>

unbundle bit_operations_syntax

record 'a queue =
  q_size :: u64
  q_mask :: u64
  q_values :: "'a option list"
  q_front :: u64
  q_back :: u64
  q_cached_front :: u64
  q_cached_back :: u64
  q_destroy_fn :: bool

definition is_power_of_two :: "u64 \<Rightarrow> bool" where
  "is_power_of_two n \<longleftrightarrow> n > 0 \<and> n AND (n - 1) = 0"

definition queue_new :: "u64 \<Rightarrow> 'a queue res" where
  "queue_new size' =
     asserting (size' > 1) (asserting (is_power_of_two size')
       (Inr \<lparr>q_size = size', q_mask = size' - 1, q_values = replicate (unat size') None,
             q_front = 0, q_back = 0, q_cached_front = 0, q_cached_back = 0, q_destroy_fn = False\<rparr>))"

definition queue_set_destroy_fn :: "'a queue \<Rightarrow> 'a queue" where
  "queue_set_destroy_fn self = self\<lparr>q_destroy_fn := True\<rparr>"

definition queue_new_with :: "u64 \<Rightarrow> 'a queue res" where
  "queue_new_with size' = bnd (queue_new size') (\<lambda>self. Inr (self\<lparr>q_destroy_fn := True\<rparr>))"

definition queue_size :: "'a queue \<Rightarrow> u64" where "queue_size self = q_size self"

definition queue_length :: "'a queue \<Rightarrow> u64" where
  "queue_length self = q_back self - q_front self"

definition get_value :: "'a queue \<Rightarrow> u64 \<Rightarrow> 'a option res" where
  "get_value self cursor = deref (at (q_values self) (unat (cursor AND q_mask self))) Inr"

definition set_value :: "'a queue \<Rightarrow> u64 \<Rightarrow> 'a option \<Rightarrow> 'a queue res" where
  "set_value self cursor v =
     (let i = unat (cursor AND q_mask self)
      in defined_when (i < length (q_values self)) (Inr (self\<lparr>q_values := (q_values self)[i := v]\<rparr>)))"

definition is_full :: "'a queue \<Rightarrow> u64 \<Rightarrow> u64 \<Rightarrow> bool" where
  "is_full self front back \<longleftrightarrow> back - front = q_size self"

definition is_empty :: "u64 \<Rightarrow> u64 \<Rightarrow> bool" where
  "is_empty front back \<longleftrightarrow> back = front"

definition queue_is_full :: "'a queue \<Rightarrow> bool" where
  "queue_is_full self = is_full self (q_front self) (q_back self)"

definition queue_is_empty :: "'a queue \<Rightarrow> bool" where
  "queue_is_empty self = is_empty (q_front self) (q_back self)"

definition store_back :: "'a queue \<Rightarrow> 'a option \<Rightarrow> (bool \<times> 'a queue) res" where
  "store_back self v =
     bnd (set_value self (q_back self) v) (\<lambda>self.
       Inr (True, self\<lparr>q_back := q_back self + 1\<rparr>))"

definition queue_push_back :: "'a queue \<Rightarrow> 'a option \<Rightarrow> (bool \<times> 'a queue) res" where
  "queue_push_back self v =
     (if is_full self (q_cached_front self) (q_back self)
      then let self = self\<lparr>q_cached_front := q_front self\<rparr>
           in if is_full self (q_cached_front self) (q_back self) then Inr (False, self)
              else store_back self v
      else store_back self v)"

definition load_front :: "'a queue \<Rightarrow> ('a option \<times> 'a queue) res" where
  "load_front self =
     bnd (get_value self (q_front self)) (\<lambda>v.
       Inr (v, self\<lparr>q_front := q_front self + 1\<rparr>))"

definition queue_pop_front :: "'a queue \<Rightarrow> ('a option \<times> 'a queue) res" where
  "queue_pop_front self =
     (if is_empty (q_front self) (q_cached_back self)
      then let self = self\<lparr>q_cached_back := q_back self\<rparr>
           in if is_empty (q_front self) (q_cached_back self) then Inr (None, self)
              else load_front self
      else load_front self)"

definition queue_get :: "'a queue \<Rightarrow> nat \<Rightarrow> ('a option \<times> 'a queue) res" where
  "queue_get self index =
     (let value_at = (\<lambda>self. bnd (get_value self (q_front self + of_nat index)) (\<lambda>v. Inr (v, self)))
      in if is_empty (q_front self) (q_cached_back self)
         then let self = self\<lparr>q_cached_back := q_back self\<rparr>
              in if is_empty (q_front self) (q_cached_back self) then Inr (None, self)
                 else value_at self
         else value_at self)"

partial_function (option) queue_purge :: "'a queue \<Rightarrow> ('a option list \<times> 'a queue) loop" where
  "queue_purge self =
     (if queue_is_empty self then Some (Inr ([], self))
      else (case queue_pop_front self of
              Inl e \<Rightarrow> Some (Inl e)
            | Inr (v, self) \<Rightarrow>
                lbnd (queue_purge self) (\<lambda>(vs, self).
                  Some (Inr (if q_destroy_fn self then v # vs else vs, self)))))"

declare queue_purge.simps [code]

definition queue_destroy :: "'a queue option \<Rightarrow> ('a option list \<times> 'a queue option) loop" where
  "queue_destroy self_pointer =
     (case self_pointer of
        None \<Rightarrow> Some (Inr ([], None))
      | Some self \<Rightarrow> lbnd (queue_purge self) (\<lambda>(vs, self). Some (Inr (vs, None))))"

section \<open>The cursors as natural numbers\<close>

text \<open>
  \<open>ring self k f b cf cb\<close>: the cursors are the natural numbers \<open>f\<close>, \<open>b\<close>, \<open>cf\<close> and \<open>cb\<close> modulo
  the word size, each cached copy lags behind its cursor, and the back is at most the size
  ahead of the cached front.
\<close>

definition ring :: "'a queue \<Rightarrow> nat \<Rightarrow> nat \<Rightarrow> nat \<Rightarrow> nat \<Rightarrow> nat \<Rightarrow> bool" where
  "ring self k f b cf cb \<longleftrightarrow> k < 64 \<and> q_size self = 2 ^ k \<and> q_mask self = 2 ^ k - 1 \<and>
     length (q_values self) = 2 ^ k \<and>
     q_front self = of_nat f \<and> q_back self = of_nat b \<and>
     q_cached_front self = of_nat cf \<and> q_cached_back self = of_nat cb \<and>
     cf \<le> f \<and> f \<le> cb \<and> cb \<le> b \<and> b \<le> cf + 2 ^ k"

definition in_flight :: "'a queue \<Rightarrow> nat \<Rightarrow> nat \<Rightarrow> nat \<Rightarrow> 'a option list" where
  "in_flight self k f b = map (\<lambda>i. q_values self ! (i mod 2 ^ k)) [f..<b]"

definition queue_rep :: "'a queue \<Rightarrow> 'a option list \<Rightarrow> bool" where
  "queue_rep self xs \<longleftrightarrow> (\<exists>k f b cf cb. ring self k f b cf cb \<and> xs = in_flight self k f b)"

lemma queue_repI: "ring self k f b cf cb \<Longrightarrow> xs = in_flight self k f b \<Longrightarrow> queue_rep self xs"
  unfolding queue_rep_def by blast

lemma two_power_64: "k < 64 \<Longrightarrow> (2::nat) ^ k < 2 ^ 64"
  by (rule power_strict_increasing) simp_all

lemma unat_of_nat_64: "n < 2 ^ 64 \<Longrightarrow> unat (of_nat n :: u64) = n"
  by (simp add: unat_of_nat take_bit_nat_eq_self)

lemma unat_exp_64: "k < 64 \<Longrightarrow> unat (2 ^ k :: u64) = 2 ^ k"
  using unat_of_nat_64 [OF two_power_64] by simp

lemma slot_index: "k < 64 \<Longrightarrow> unat ((of_nat i :: u64) AND (2 ^ k - 1)) = i mod 2 ^ k"
proof -
  assume k: "k < 64"
  have "(of_nat i :: u64) AND (2 ^ k - 1) = take_bit k (of_nat i)"
    by (simp add: take_bit_eq_mask mask_eq_exp_minus_1)
  also have "\<dots> = of_nat (i mod 2 ^ k)"
    by (simp add: of_nat_take_bit flip: take_bit_eq_mod)
  also have "unat \<dots> = i mod 2 ^ k"
  proof (rule unat_of_nat_64)
    have "i mod 2 ^ k < (2::nat) ^ k" by simp
    also have "\<dots> < 2 ^ 64" using two_power_64 [OF k] .
    finally show "i mod 2 ^ k < 2 ^ 64" .
  qed
  finally show ?thesis .
qed

lemma cursor_distance:
  assumes "f \<le> b" and "b - f < 2 ^ 64"
  shows "unat ((of_nat b :: u64) - of_nat f) = b - f"
proof -
  have "(of_nat b :: u64) - of_nat f = of_nat (b - f)"
    using assms(1) by simp
  then show ?thesis
    using assms(2) by (simp add: unat_of_nat_64)
qed

lemma ring_full_iff:
  assumes "ring self k f b cf cb" and "cf \<le> g" and "g \<le> b"
  shows "is_full self (of_nat g) (q_back self) \<longleftrightarrow> b - g = 2 ^ k"
proof -
  have k: "k < 64" "q_size self = 2 ^ k" "q_back self = of_nat b" "b \<le> cf + 2 ^ k"
    using assms(1) by (simp_all add: ring_def)
  have lt: "b - g < 2 ^ 64"
    using k(4) assms(2) two_power_64 [OF k(1)] by linarith
  have "unat (2 ^ k :: u64) = 2 ^ k"
    using k(1) by (simp add: unat_exp_64)
  then show ?thesis
    unfolding is_full_def k(2,3) word_unat_eq_iff cursor_distance [OF assms(3) lt] by simp
qed

lemma ring_empty_iff:
  assumes "ring self k f b cf cb" and "f \<le> g" and "g \<le> b"
  shows "is_empty (q_front self) (of_nat g) \<longleftrightarrow> g = f"
proof -
  have k: "k < 64" "q_front self = of_nat f" "b \<le> cf + 2 ^ k" "cf \<le> f"
    using assms(1) by (simp_all add: ring_def)
  have lt: "g - f < 2 ^ 64"
    using k assms(3) two_power_64 [OF k(1)] by linarith
  have "is_empty (q_front self) (of_nat g) \<longleftrightarrow> unat ((of_nat g :: u64) - of_nat f) = 0"
    using k(2) by (simp add: is_empty_def unat_eq_0)
  then show ?thesis
    using cursor_distance [OF assms(2) lt] assms(2) by simp
qed

lemma ring_get_value:
  "ring self k f b cf cb \<Longrightarrow> get_value self (of_nat i) = Inr (q_values self ! (i mod 2 ^ k))"
  by (simp add: ring_def get_value_def slot_index at_def)

lemma ring_set_value:
  "ring self k f b cf cb \<Longrightarrow>
     set_value self (of_nat i) v = Inr (self\<lparr>q_values := (q_values self)[i mod 2 ^ k := v]\<rparr>)"
  by (simp add: ring_def set_value_def slot_index)

text \<open>A write at the back does not touch a slot in flight while the queue is not full.\<close>

lemma distinct_slots:
  fixes i b :: nat
  assumes "i < b" and "b < i + n"
  shows "i mod n \<noteq> b mod n"
proof
  assume "i mod n = b mod n"
  then have "n dvd b - i"
    using assms(1) mod_eq_dvd_iff_nat [of i b n] by simp
  then show False
    using assms by (auto dest: dvd_imp_le)
qed

lemma in_flight_write:
  assumes "b < f + 2 ^ k" and "length (q_values self) = 2 ^ k"
  shows "in_flight (self\<lparr>q_values := (q_values self)[b mod 2 ^ k := v]\<rparr>) k f b = in_flight self k f b"
proof -
  have "i mod 2 ^ k \<noteq> b mod 2 ^ k" if "f \<le> i" and "i < b" for i
    using that assms(1) by (intro distinct_slots) linarith+
  then show ?thesis
    unfolding in_flight_def by (intro map_cong refl) (metis atLeastLessThan_iff nth_list_update_neq
      queue.select_convs(3) queue.surjective queue.update_convs(3) set_upt)
qed

lemma in_flight_published:
  assumes "f \<le> b" and "length (q_values self) = 2 ^ k"
  shows "in_flight (self\<lparr>q_values := (q_values self)[b mod 2 ^ k := v]\<rparr>) k f (Suc b) =
    in_flight (self\<lparr>q_values := (q_values self)[b mod 2 ^ k := v]\<rparr>) k f b @ [v]"
  using assms by (simp add: in_flight_def)

lemma in_flight_fields [simp]:
  "in_flight (self\<lparr>q_front := x\<rparr>) k f b = in_flight self k f b"
  "in_flight (self\<lparr>q_back := x\<rparr>) k f b = in_flight self k f b"
  "in_flight (self\<lparr>q_cached_front := x\<rparr>) k f b = in_flight self k f b"
  "in_flight (self\<lparr>q_cached_back := x\<rparr>) k f b = in_flight self k f b"
  by (simp_all add: in_flight_def)

section \<open>The queue refines a bounded sequence\<close>

lemma is_power_of_two_exp: "k < 64 \<Longrightarrow> is_power_of_two (2 ^ k)"
proof -
  assume "k < 64"
  then have "(2 :: u64) ^ k > 0" by (simp add: word_gt_0)
  moreover have "(2 :: u64) ^ k AND (2 ^ k - 1) = take_bit k (2 ^ k)"
    by (simp add: take_bit_eq_mask mask_eq_exp_minus_1)
  moreover have "take_bit k (2 ^ k :: u64) = 0"
    by (rule bit_eqI) (auto simp: bit_simps)
  ultimately show ?thesis by (simp add: is_power_of_two_def)
qed

lemma queue_new_rep:
  assumes "0 < k" and "k < 64"
  shows "\<exists>self. queue_new (2 ^ k) = Inr self \<and> queue_rep self [] \<and> queue_size self = 2 ^ k"
proof -
  have u: "unat (2 ^ k :: u64) = 2 ^ k"
    using assms(2) by (simp add: unat_exp_64)
  have "(1::nat) < 2 ^ k" using assms(1) one_less_power [of "2 :: nat" k] by simp
  then have "(2 ^ k :: u64) > 1" using u by (simp add: word_less_nat_alt)
  then show ?thesis
    using assms(2) is_power_of_two_exp [OF assms(2)] u
    by (auto simp: queue_new_def queue_rep_def ring_def in_flight_def queue_size_def
      intro!: exI [of _ k] exI [of _ "0::nat"])
qed

lemma ring_reload_front:
  "ring self k f b cf cb \<Longrightarrow> ring (self\<lparr>q_cached_front := q_front self\<rparr>) k f b f cb"
  by (auto simp: ring_def)

lemma ring_reload_back:
  "ring self k f b cf cb \<Longrightarrow> ring (self\<lparr>q_cached_back := q_back self\<rparr>) k f b cf b"
  by (auto simp: ring_def)

lemma store_back_ring:
  assumes "ring self k f b cf cb" and "b - cf \<noteq> 2 ^ k"
  shows "\<exists>self'. store_back self v = Inr (True, self') \<and> ring self' k f (Suc b) cf cb \<and>
    in_flight self' k f (Suc b) = in_flight self k f b @ [v]"
proof -
  let ?w = "self\<lparr>q_values := (q_values self)[b mod 2 ^ k := v]\<rparr>"
  have r: "q_back self = of_nat b" "f \<le> b" "length (q_values self) = 2 ^ k" "b < cf + 2 ^ k" "b < f + 2 ^ k"
    using assms by (auto simp: ring_def)
  have "store_back self v = Inr (True, ?w\<lparr>q_back := of_nat (Suc b)\<rparr>)"
    using ring_set_value [OF assms(1)] r(1) by (simp add: store_back_def add.commute)
  moreover have "ring (?w\<lparr>q_back := of_nat (Suc b)\<rparr>) k f (Suc b) cf cb"
    using assms r by (auto simp: ring_def)
  ultimately show ?thesis
    using in_flight_published [OF r(2,3)] in_flight_write [OF r(5,3)] by simp
qed

lemma load_front_ring:
  assumes "ring self k f b cf cb" and "f < cb"
  shows "\<exists>self'. load_front self = Inr (q_values self ! (f mod 2 ^ k), self') \<and>
    ring self' k (Suc f) b cf cb \<and>
    in_flight self k f b = q_values self ! (f mod 2 ^ k) # in_flight self' k (Suc f) b"
proof -
  have r: "q_front self = of_nat f" "f < b"
    using assms by (auto simp: ring_def)
  have "load_front self = Inr (q_values self ! (f mod 2 ^ k), self\<lparr>q_front := of_nat (Suc f)\<rparr>)"
    using ring_get_value [OF assms(1)] r(1) by (simp add: load_front_def add.commute)
  moreover have "ring (self\<lparr>q_front := of_nat (Suc f)\<rparr>) k (Suc f) b cf cb"
    using assms by (auto simp: ring_def)
  moreover have "[f..<b] = f # [Suc f..<b]" using r(2) by (rule upt_conv_Cons)
  ultimately show ?thesis by (simp add: in_flight_def)
qed

lemma length_in_flight: "length (in_flight self k f b) = b - f"
  by (simp add: in_flight_def)

lemma queue_length_rep: "queue_rep self xs \<Longrightarrow> queue_length self = of_nat (length xs)"
  by (auto simp: queue_rep_def ring_def queue_length_def length_in_flight)

lemma queue_rep_bound: "queue_rep self xs \<Longrightarrow> length xs \<le> unat (queue_size self)"
  by (auto simp: queue_rep_def ring_def queue_size_def length_in_flight unat_exp_64)

text \<open>A push appends unless the queue holds as many values as its size; then it changes nothing.\<close>

lemma queue_push_back_rep:
  assumes "queue_rep self xs"
  shows "\<exists>self'. queue_push_back self v = Inr (length xs < unat (queue_size self), self') \<and>
    queue_rep self' (if length xs < unat (queue_size self) then xs @ [v] else xs) \<and>
    queue_size self' = queue_size self"
proof -
  obtain k f b cf cb where r: "ring self k f b cf cb" and xs: "xs = in_flight self k f b"
    using assms by (auto simp: queue_rep_def)
  have u: "unat (queue_size self) = 2 ^ k" and le: "cf \<le> f" "f \<le> b" "cf \<le> b" "b \<le> cf + 2 ^ k" and cf: "q_cached_front self = of_nat cf"
    using r by (auto simp: ring_def queue_size_def unat_exp_64)
  have sz: "queue_size self' = queue_size self" if "ring self' k f' b' cf' cb'" for self' :: "'a queue" and f' b' cf' cb'
    using that r by (simp add: ring_def queue_size_def)
  show ?thesis
  proof (cases "b - cf = 2 ^ k")
    case False
    have "\<not> is_full self (q_cached_front self) (q_back self)"
      using ring_full_iff [OF r, of cf] False le cf by simp
    moreover obtain self' where "store_back self v = Inr (True, self')" "ring self' k f (Suc b) cf cb"
      "in_flight self' k f (Suc b) = xs @ [v]"
      using store_back_ring [OF r False] xs by auto
    moreover have "b - f < 2 ^ k" using False le by linarith
    ultimately show ?thesis
      using sz [of self'] u xs by (auto simp: queue_push_back_def length_in_flight intro: queue_repI)
  next
    case True
    let ?s = "self\<lparr>q_cached_front := q_front self\<rparr>"
    note r' = ring_reload_front [OF r]
    have f: "q_front self = of_nat f" using r by (simp add: ring_def)
    have full: "is_full self (q_cached_front self) (q_back self)"
      using ring_full_iff [OF r, of cf] True le cf by simp
    have full': "is_full ?s (q_front self) (q_back self) \<longleftrightarrow> b - f = 2 ^ k"
      using ring_full_iff [OF r', of f] le f by simp
    show ?thesis
    proof (cases "b - f = 2 ^ k")
      case True
      then show ?thesis
        using full full' u xs r' sz [OF r']
        by (auto simp: queue_push_back_def length_in_flight intro: queue_repI)
    next
      case False
      obtain self' where "store_back ?s v = Inr (True, self')" "ring self' k f (Suc b) f cb"
        "in_flight self' k f (Suc b) = xs @ [v]"
        using store_back_ring [OF r' False] xs by auto
      moreover have "b - f < 2 ^ k" using False le by linarith
      ultimately show ?thesis
        using full full' False sz [of self'] u xs
        by (auto simp: queue_push_back_def length_in_flight intro: queue_repI)
    qed
  qed
qed

text \<open>A pop takes the value that has waited longest; an empty queue returns NULL.\<close>

lemma queue_pop_front_rep:
  assumes "queue_rep self xs"
  shows "\<exists>self'. queue_pop_front self = Inr (case xs of [] \<Rightarrow> None | x # _ \<Rightarrow> x, self') \<and>
    queue_rep self' (tl xs) \<and> queue_size self' = queue_size self"
proof -
  obtain k f b cf cb where r: "ring self k f b cf cb" and xs: "xs = in_flight self k f b"
    using assms by (auto simp: queue_rep_def)
  have le: "f \<le> cb" "cb \<le> b" and cb: "q_cached_back self = of_nat cb"
    using r by (auto simp: ring_def)
  have sz: "queue_size self' = queue_size self" if "ring self' k f' b' cf' cb'" for self' :: "'a queue" and f' b' cf' cb'
    using that r by (simp add: ring_def queue_size_def)
  have pop: "\<exists>self'. load_front s = Inr (case xs of [] \<Rightarrow> None | x # _ \<Rightarrow> x, self') \<and>
      queue_rep self' (tl xs) \<and> queue_size self' = queue_size self"
    if "ring s k f b cf c" and "f < c" and "xs = in_flight s k f b" for s c
    using load_front_ring [OF that(1,2)] that(3) sz by (fastforce intro: queue_repI)
  show ?thesis
  proof (cases "cb = f")
    case False
    then have "\<not> is_empty (q_front self) (q_cached_back self)"
      using ring_empty_iff [OF r, of cb] le cb by simp
    then show ?thesis
      using pop [OF r _ xs] False le by (simp add: queue_pop_front_def)
  next
    case True
    let ?s = "self\<lparr>q_cached_back := q_back self\<rparr>"
    note r' = ring_reload_back [OF r]
    have b: "q_back self = of_nat b" using r by (simp add: ring_def)
    have e: "is_empty (q_front self) (q_cached_back self)"
      using ring_empty_iff [OF r, of cb] le cb True by simp
    have e': "is_empty (q_front self) (q_back self) \<longleftrightarrow> b = f"
      using ring_empty_iff [OF r, of b] le b by simp
    show ?thesis
    proof (cases "b = f")
      case True
      then show ?thesis
        using e e' xs sz [OF r'] queue_repI [OF r' refl] by (auto simp: queue_pop_front_def in_flight_def)
    next
      case False
      then have "f < b" using le by simp
      then show ?thesis
        using pop [OF r'] e e' False xs by (simp add: queue_pop_front_def)
    qed
  qed
qed

section \<open>One producer and one consumer\<close>

text \<open>
  Where each thread is between its accesses to shared memory. The producer has loaded its own
  cursor and compared it with its cached copy of the other one; then it reloads that copy, or
  writes the slot, or publishes the new back cursor. The consumer mirrors it. The sequences
  \<open>sent\<close> and \<open>received\<close> record the values whose push or pop has completed.
\<close>

datatype 'a producer = P_idle | P_reload "'a option" | P_write "'a option" | P_publish "'a option"

datatype 'a consumer = C_idle | C_reload | C_read | C_release "'a option"

record 'a spsc =
  sp_queue :: "'a queue"
  sp_producer :: "'a producer"
  sp_consumer :: "'a consumer"
  sent :: "'a option list"
  received :: "'a option list"

inductive spsc_step :: "'a spsc \<Rightarrow> 'a spsc \<Rightarrow> bool" where
  push_full: "sp_producer s = P_idle \<Longrightarrow> is_full (sp_queue s) (q_cached_front (sp_queue s)) (q_back (sp_queue s)) \<Longrightarrow>
    spsc_step s (s\<lparr>sp_producer := P_reload v\<rparr>)"
| push_room: "sp_producer s = P_idle \<Longrightarrow> \<not> is_full (sp_queue s) (q_cached_front (sp_queue s)) (q_back (sp_queue s)) \<Longrightarrow>
    spsc_step s (s\<lparr>sp_producer := P_write v\<rparr>)"
| push_reload: "sp_producer s = P_reload v \<Longrightarrow>
    q = (sp_queue s)\<lparr>q_cached_front := q_front (sp_queue s)\<rparr> \<Longrightarrow>
    spsc_step s (s\<lparr>sp_queue := q, sp_producer :=
      (if is_full q (q_cached_front q) (q_back q) then P_idle else P_write v)\<rparr>)"
| push_write: "sp_producer s = P_write v \<Longrightarrow> set_value (sp_queue s) (q_back (sp_queue s)) v = Inr q \<Longrightarrow>
    spsc_step s (s\<lparr>sp_queue := q, sp_producer := P_publish v\<rparr>)"
| push_publish: "sp_producer s = P_publish v \<Longrightarrow>
    spsc_step s (s\<lparr>sp_queue := (sp_queue s)\<lparr>q_back := q_back (sp_queue s) + 1\<rparr>,
      sp_producer := P_idle, sent := sent s @ [v]\<rparr>)"
| pop_empty: "sp_consumer s = C_idle \<Longrightarrow> is_empty (q_front (sp_queue s)) (q_cached_back (sp_queue s)) \<Longrightarrow>
    spsc_step s (s\<lparr>sp_consumer := C_reload\<rparr>)"
| pop_some: "sp_consumer s = C_idle \<Longrightarrow> \<not> is_empty (q_front (sp_queue s)) (q_cached_back (sp_queue s)) \<Longrightarrow>
    spsc_step s (s\<lparr>sp_consumer := C_read\<rparr>)"
| pop_reload: "sp_consumer s = C_reload \<Longrightarrow>
    q = (sp_queue s)\<lparr>q_cached_back := q_back (sp_queue s)\<rparr> \<Longrightarrow>
    spsc_step s (s\<lparr>sp_queue := q, sp_consumer :=
      (if is_empty (q_front q) (q_cached_back q) then C_idle else C_read)\<rparr>)"
| pop_read: "sp_consumer s = C_read \<Longrightarrow> get_value (sp_queue s) (q_front (sp_queue s)) = Inr v \<Longrightarrow>
    spsc_step s (s\<lparr>sp_consumer := C_release v\<rparr>)"
| pop_release: "sp_consumer s = C_release v \<Longrightarrow>
    spsc_step s (s\<lparr>sp_queue := (sp_queue s)\<lparr>q_front := q_front (sp_queue s) + 1\<rparr>,
      sp_consumer := C_idle, received := received s @ [v]\<rparr>)"

definition spsc_start :: "'a queue \<Rightarrow> 'a spsc" where
  "spsc_start q = \<lparr>sp_queue = q, sp_producer = P_idle, sp_consumer = C_idle, sent = [], received = []\<rparr>"

definition producer_ok :: "'a queue \<Rightarrow> nat \<Rightarrow> nat \<Rightarrow> nat \<Rightarrow> 'a producer \<Rightarrow> bool" where
  "producer_ok q k b cf p = (case p of
       P_write _ \<Rightarrow> b < cf + 2 ^ k
     | P_publish v \<Rightarrow> b < cf + 2 ^ k \<and> q_values q ! (b mod 2 ^ k) = v
     | _ \<Rightarrow> True)"

definition consumer_ok :: "'a queue \<Rightarrow> nat \<Rightarrow> nat \<Rightarrow> nat \<Rightarrow> 'a consumer \<Rightarrow> bool" where
  "consumer_ok q k f cb c = (case c of
       C_read \<Rightarrow> f < cb
     | C_release v \<Rightarrow> f < cb \<and> q_values q ! (f mod 2 ^ k) = v
     | _ \<Rightarrow> True)"

definition spsc_inv :: "'a spsc \<Rightarrow> bool" where
  "spsc_inv s \<longleftrightarrow> (\<exists>k f b cf cb. ring (sp_queue s) k f b cf cb \<and>
     sent s = received s @ in_flight (sp_queue s) k f b \<and>
     producer_ok (sp_queue s) k b cf (sp_producer s) \<and> consumer_ok (sp_queue s) k f cb (sp_consumer s))"

lemma spsc_invI:
  "ring (sp_queue s) k f b cf cb \<Longrightarrow> sent s = received s @ in_flight (sp_queue s) k f b \<Longrightarrow>
     producer_ok (sp_queue s) k b cf (sp_producer s) \<Longrightarrow> consumer_ok (sp_queue s) k f cb (sp_consumer s) \<Longrightarrow>
     spsc_inv s"
  unfolding spsc_inv_def by blast

lemma side_ok_fields [simp]:
  "producer_ok (q\<lparr>q_front := x\<rparr>) k b cf p = producer_ok q k b cf p"
  "producer_ok (q\<lparr>q_back := x\<rparr>) k b cf p = producer_ok q k b cf p"
  "producer_ok (q\<lparr>q_cached_front := x\<rparr>) k b cf p = producer_ok q k b cf p"
  "producer_ok (q\<lparr>q_cached_back := x\<rparr>) k b cf p = producer_ok q k b cf p"
  "consumer_ok (q\<lparr>q_front := x\<rparr>) k f cb c = consumer_ok q k f cb c"
  "consumer_ok (q\<lparr>q_back := x\<rparr>) k f cb c = consumer_ok q k f cb c"
  "consumer_ok (q\<lparr>q_cached_front := x\<rparr>) k f cb c = consumer_ok q k f cb c"
  "consumer_ok (q\<lparr>q_cached_back := x\<rparr>) k f cb c = consumer_ok q k f cb c"
  by (simp_all add: producer_ok_def consumer_ok_def split: producer.split consumer.split)

lemma side_ok_simps [simp]:
  "producer_ok q k b cf P_idle" "producer_ok q k b cf (P_reload v)"
  "producer_ok q k b cf (P_write v) \<longleftrightarrow> b < cf + 2 ^ k"
  "producer_ok q k b cf (P_publish v) \<longleftrightarrow> b < cf + 2 ^ k \<and> q_values q ! (b mod 2 ^ k) = v"
  "consumer_ok q k f cb C_idle" "consumer_ok q k f cb C_reload"
  "consumer_ok q k f cb C_read \<longleftrightarrow> f < cb"
  "consumer_ok q k f cb (C_release v) \<longleftrightarrow> f < cb \<and> q_values q ! (f mod 2 ^ k) = v"
  by (simp_all add: producer_ok_def consumer_ok_def)

lemma producer_ok_reload: "producer_ok q k b cf p \<Longrightarrow> cf \<le> cf' \<Longrightarrow> producer_ok q k b cf' p"
  by (cases p) auto

lemma consumer_ok_reload: "consumer_ok q k f cb c \<Longrightarrow> cb \<le> cb' \<Longrightarrow> consumer_ok q k f cb' c"
  by (cases c) auto

lemma consumer_ok_write:
  assumes "consumer_ok q k f cb c" and "cb \<le> b" and "b < f + 2 ^ k"
  shows "consumer_ok (q\<lparr>q_values := (q_values q)[b mod 2 ^ k := v]\<rparr>) k f cb c"
  using assms distinct_slots [of f b "2 ^ k"] by (cases c) auto

lemma spsc_step_inv:
  assumes "spsc_step s t" and "spsc_inv s"
  shows "spsc_inv t"
proof -
  let ?q = "sp_queue s"
  obtain k f b cf cb where r: "ring ?q k f b cf cb"
    and e: "sent s = received s @ in_flight ?q k f b"
    and p: "producer_ok ?q k b cf (sp_producer s)" and c: "consumer_ok ?q k f cb (sp_consumer s)"
    using assms(2) unfolding spsc_inv_def by blast
  have le: "cf \<le> f" "f \<le> cb" "cb \<le> b" "b \<le> cf + 2 ^ k"
    and fr: "q_front ?q = of_nat f" "q_back ?q = of_nat b" "q_cached_front ?q = of_nat cf" "q_cached_back ?q = of_nat cb"
    and len: "length (q_values ?q) = 2 ^ k"
    using r by (simp_all add: ring_def)
  have bf: "f \<le> b" and cfb: "cf \<le> b" using le by simp_all
  from assms(1) show ?thesis
  proof cases
    case (push_full v)
    with r e c show ?thesis by (intro spsc_invI [of _ k f b cf cb]) simp_all
  next
    case (push_room v)
    then have "b < cf + 2 ^ k"
      using ring_full_iff [OF r, of cf] le fr by simp
    with push_room r e c show ?thesis by (intro spsc_invI [of _ k f b cf cb]) simp_all
  next
    case (push_reload v q)
    have "is_full q (q_cached_front q) (q_back q) \<longleftrightarrow> b - f = 2 ^ k"
      using ring_full_iff [OF ring_reload_front [OF r], of f] bf fr push_reload by simp
    then show ?thesis
      using push_reload ring_reload_front [OF r] e c le
      by (intro spsc_invI [of _ k f b f cb]) auto
  next
    case (push_write v q)
    have q: "q = ?q\<lparr>q_values := (q_values ?q)[b mod 2 ^ k := v]\<rparr>"
      using push_write ring_set_value [OF r, of b v] fr by simp
    have lt: "b < cf + 2 ^ k" and lt': "b < f + 2 ^ k"
      using p push_write le by simp_all
    have "ring q k f b cf cb" using r q by (simp add: ring_def)
    then show ?thesis
      using push_write e q lt in_flight_write [OF lt' len] consumer_ok_write [OF c le(3) lt'] len
      by (intro spsc_invI [of _ k f b cf cb]) simp_all
  next
    case (push_publish v)
    have pv: "b < cf + 2 ^ k" "q_values ?q ! (b mod 2 ^ k) = v"
      using p push_publish by simp_all
    have "ring (?q\<lparr>q_back := q_back ?q + 1\<rparr>) k f (Suc b) cf cb"
      using r pv by (auto simp: ring_def add.commute)
    moreover have "in_flight ?q k f (Suc b) = in_flight ?q k f b @ [v]"
      using bf pv by (simp add: in_flight_def)
    ultimately show ?thesis
      using push_publish e c by (intro spsc_invI [of _ k f "Suc b" cf cb]) simp_all
  next
    case pop_empty
    with r e p show ?thesis by (intro spsc_invI [of _ k f b cf cb]) simp_all
  next
    case pop_some
    then have "f < cb"
      using ring_empty_iff [OF r, of cb] le fr by simp
    with pop_some r e p show ?thesis by (intro spsc_invI [of _ k f b cf cb]) simp_all
  next
    case (pop_reload q)
    have "is_empty (q_front q) (q_cached_back q) \<longleftrightarrow> b = f"
      using ring_empty_iff [OF r, of b] bf fr pop_reload by simp
    then show ?thesis
      using pop_reload ring_reload_back [OF r] e p le
      by (intro spsc_invI [of _ k f b cf b]) auto
  next
    case (pop_read v)
    then have "v = q_values ?q ! (f mod 2 ^ k)" and "f < cb"
      using ring_get_value [OF r, of f] fr c by simp_all
    with pop_read r e p show ?thesis by (intro spsc_invI [of _ k f b cf cb]) simp_all
  next
    case (pop_release v)
    then have cv: "f < cb" "q_values ?q ! (f mod 2 ^ k) = v"
      using c by simp_all
    have "ring (?q\<lparr>q_front := q_front ?q + 1\<rparr>) k (Suc f) b cf cb"
      using r cv by (auto simp: ring_def add.commute)
    moreover have "in_flight ?q k f b = v # in_flight ?q k (Suc f) b"
      using cv le by (simp add: in_flight_def upt_conv_Cons)
    ultimately show ?thesis
      using pop_release e p by (intro spsc_invI [of _ k "Suc f" b cf cb]) simp_all
  qed
qed

lemma spsc_start_inv: "queue_rep q [] \<Longrightarrow> spsc_inv (spsc_start q)"
  unfolding queue_rep_def
  by (auto intro!: spsc_invI simp: spsc_start_def)

lemma spsc_reachable_inv:
  assumes "spsc_step\<^sup>*\<^sup>* (spsc_start q) s" and "queue_rep q []"
  shows "spsc_inv s"
  using assms(1)
proof (induction rule: rtranclp_induct)
  case base
  show ?case using assms(2) by (rule spsc_start_inv)
next
  case (step t u)
  then show ?case by (blast intro: spsc_step_inv)
qed

text \<open>A thread that runs a whole operation undisturbed does what the function does.\<close>

lemma push_back_steps:
  assumes "sp_producer s = P_idle" and "queue_push_back (sp_queue s) v = Inr (pushed, q)"
  shows "spsc_step\<^sup>*\<^sup>* s (s\<lparr>sp_queue := q, sp_producer := P_idle, sent := (if pushed then sent s @ [v] else sent s)\<rparr>)"
proof -
  have finish_push: "spsc_step\<^sup>*\<^sup>* t (t\<lparr>sp_queue := q', sp_producer := P_idle, sent := sent t @ [v]\<rparr>)"
    if t: "sp_producer t = P_write v" and q': "store_back (sp_queue t) v = Inr (b, q')" for t :: "'a spsc" and b q'
  proof -
    obtain w where w: "set_value (sp_queue t) (q_back (sp_queue t)) v = Inr w"
        and q'w: "q' = w\<lparr>q_back := q_back w + 1\<rparr>"
      using q' by (auto simp: store_back_def bnd_eq_Inr)
    let ?u = "t\<lparr>sp_queue := w, sp_producer := P_publish v\<rparr>"
    have "spsc_step t ?u" using t w by (rule spsc_step.push_write)
    moreover have "spsc_step ?u (?u\<lparr>sp_queue := (sp_queue ?u)\<lparr>q_back := q_back (sp_queue ?u) + 1\<rparr>,
        sp_producer := P_idle, sent := sent ?u @ [v]\<rparr>)"
      by (rule spsc_step.push_publish) simp
    ultimately show ?thesis
      by (simp add: q'w converse_rtranclp_into_rtranclp)
  qed
  let ?q = "sp_queue s" and ?r = "(sp_queue s)\<lparr>q_cached_front := q_front (sp_queue s)\<rparr>"
  have idle: "s\<lparr>sp_producer := P_idle\<rparr> = s" using assms(1) by simp
  show ?thesis
  proof (cases "is_full ?q (q_cached_front ?q) (q_back ?q)")
    case False
    then have q: "store_back ?q v = Inr (pushed, q)" and "pushed"
      using assms(2) by (auto simp: queue_push_back_def store_back_def bnd_eq_Inr)
    have "spsc_step s (s\<lparr>sp_producer := P_write v\<rparr>)"
      using assms(1) False by (rule spsc_step.push_room)
    with finish_push [of "s\<lparr>sp_producer := P_write v\<rparr>" pushed q] q \<open>pushed\<close> show ?thesis
      using assms(1) by (auto intro: converse_rtranclp_into_rtranclp)
  next
    case True
    let ?a = "s\<lparr>sp_producer := P_reload v\<rparr>"
    have a: "spsc_step s ?a" using assms(1) True by (rule spsc_step.push_full)
    have b: "spsc_step ?a (?a\<lparr>sp_queue := ?r, sp_producer :=
        (if is_full ?r (q_cached_front ?r) (q_back ?r) then P_idle else P_write v)\<rparr>)"
      by (rule spsc_step.push_reload) simp_all
    show ?thesis
    proof (cases "is_full ?r (q_cached_front ?r) (q_back ?r)")
      case full: True
      then have "\<not> pushed" "q = ?r"
        using assms(2) True by (auto simp: queue_push_back_def Let_def)
      with a b full assms(1) show ?thesis
        by (auto intro: converse_rtranclp_into_rtranclp)
    next
      case room: False
      then have q: "store_back ?r v = Inr (pushed, q)" and "pushed"
        using assms(2) True by (auto simp: queue_push_back_def store_back_def bnd_eq_Inr Let_def)
      with finish_push [of "s\<lparr>sp_queue := ?r, sp_producer := P_write v\<rparr>" pushed q] a b room assms(1) show ?thesis
        by (auto intro: converse_rtranclp_into_rtranclp)
    qed
  qed
qed

end
