(* ===== verification/Hash_Table.thy ===== *)
theory Hash_Table
  imports Strings Linked_List "HOL-Library.Multiset"
begin

text \<open>
  Hash tables with chained buckets (\<open>src/src/packages/std/hash/hash.c\<close>). A bucket is the list of
  the entries of its chain, from the head on, and an entry has the address \<open>calloc\<close> gave it, by
  which \<open>hash_delete_entry\<close> and the cursor refer to it. A value is \<open>'v option\<close>, NULL being
  \<open>None\<close>. The counters \<open>used_indexes_size\<close> and \<open>length\<close> are 64-bit. Call-backs that destroy are
  flags, and an operation returns what it passes to them.
\<close>

definition hash_primes :: "u64 list" where
  "hash_primes = [
    13, 31, 61, 127, 251, 509, 1021, 2039, 4093, 8191, 16381, 32749, 65521, 131071, 262139,
    524287, 1048573, 2097143, 4194301, 8388593, 16777213, 33554393, 67108859, 134217689,
    268435399, 536870909, 1073741789, 2147483647, 4294967295, 8589934591, 17179869183,
    34359738367, 68719476735, 137438953471, 274877906943, 549755813887, 1099511627775,
    2199023255551, 4398046511103, 8796093022207, 17592186044415, 35184372088831,
    70368744177663, 140737488355327, 281474976710655, 562949953421311, 1125899906842623,
    2251799813685247, 4503599627370495, 9007199254740991, 18014398509481983, 36028797018963967,
    72057594037927935, 144115188075855871, 288230376151711743, 576460752303423487,
    1152921504606846975, 2305843009213693949, 4611686018427387903, 9223372036854775807]"

definition INDEX_REHASH_PERCENTAGE :: u64 where "INDEX_REHASH_PERCENTAGE = 50"
definition LENGTH_REHASH_PERCENTAGE :: u64 where "LENGTH_REHASH_PERCENTAGE = 75"

record ('k, 'v) entry =
  e_addr :: nat
  e_index :: nat
  e_key :: 'k
  e_value :: "'v option"

record ('k, 'v) hash =
  h_prime_index :: nat
  h_used_indexes_size :: u64
  h_length :: u64
  h_entries :: "('k, 'v) entry list list"
  h_cursor_index :: nat
  h_cursor_entry :: "nat option"
  h_cursor_key :: "'k option"
  h_hash_fn :: "('k \<Rightarrow> u64) option"
  h_key_equal_fn :: "('k \<Rightarrow> 'k \<Rightarrow> bool) option"
  h_destroy_fn :: bool
  h_key_destroy_fn :: bool
  h_key_address :: "'k \<Rightarrow> u64"
  h_next_addr :: nat

datatype ('k, 'v) destroyed = Destroyed_key 'k | Destroyed_value "'v option"

section \<open>Tables\<close>

definition hash_base :: "('k, 'v) hash \<Rightarrow> 'k \<Rightarrow> u64" where
  "hash_base self key = (case h_hash_fn self of Some f \<Rightarrow> f key | None \<Rightarrow> h_key_address self key)"

definition hash_key_index :: "('k, 'v) hash \<Rightarrow> 'k \<Rightarrow> nat res" where
  "hash_key_index self key =
     deref (at hash_primes (h_prime_index self)) (\<lambda>limit.
       Inr (unat (hash_base self key mod limit)))"

definition hash_new_entry :: "('k, 'v) hash \<Rightarrow> 'k \<Rightarrow> 'v option \<Rightarrow> (('k, 'v) entry \<times> ('k, 'v) hash) res" where
  "hash_new_entry self key v =
     bnd (hash_key_index self key) (\<lambda>index.
       Inr (\<lparr>e_addr = h_next_addr self, e_index = index, e_key = key, e_value = v\<rparr>,
            self\<lparr>h_next_addr := Suc (h_next_addr self)\<rparr>))"

definition hash_init :: "('k, 'v) hash \<Rightarrow> ('k, 'v) hash" where
  "hash_init self = self\<lparr>h_prime_index := 0, h_used_indexes_size := 0, h_length := 0,
     h_entries := replicate (unat (hash_primes ! 0)) [], h_cursor_index := 0, h_cursor_entry := None\<rparr>"

definition hash_new :: "('k \<Rightarrow> u64) \<Rightarrow> ('k, 'v) hash" where
  "hash_new key_address = hash_init
     \<lparr>h_prime_index = 0, h_used_indexes_size = 0, h_length = 0, h_entries = [], h_cursor_index = 0,
      h_cursor_entry = None, h_cursor_key = None, h_hash_fn = None, h_key_equal_fn = None,
      h_destroy_fn = False, h_key_destroy_fn = False, h_key_address = key_address, h_next_addr = 0\<rparr>"

definition hash_set_hash_fn :: "('k, 'v) hash \<Rightarrow> ('k \<Rightarrow> u64) \<Rightarrow> ('k, 'v) hash" where
  "hash_set_hash_fn self f = self\<lparr>h_hash_fn := Some f\<rparr>"

definition hash_set_destroy_fn :: "('k, 'v) hash \<Rightarrow> ('k, 'v) hash" where
  "hash_set_destroy_fn self = self\<lparr>h_destroy_fn := True\<rparr>"

definition hash_set_key_destroy_fn :: "('k, 'v) hash \<Rightarrow> ('k, 'v) hash" where
  "hash_set_key_destroy_fn self = self\<lparr>h_key_destroy_fn := True\<rparr>"

definition hash_set_key_equal_fn :: "('k, 'v) hash \<Rightarrow> ('k \<Rightarrow> 'k \<Rightarrow> bool) \<Rightarrow> ('k, 'v) hash" where
  "hash_set_key_equal_fn self f = self\<lparr>h_key_equal_fn := Some f\<rparr>"

text \<open>The address of a string is never used: the table has both call-backs.\<close>

definition hash_of_string_key :: "(string, 'v) hash" where
  "hash_of_string_key =
     hash_set_hash_fn
       (hash_set_key_equal_fn (hash_set_key_destroy_fn (hash_new (\<lambda>_. 0))) string_equal)
       string_bernstein_hash"

definition hash_length :: "('k, 'v) hash \<Rightarrow> u64" where "hash_length self = h_length self"

definition hash_key_equal :: "('k, 'v) hash \<Rightarrow> 'k \<Rightarrow> 'k \<Rightarrow> bool" where
  "hash_key_equal self key1 key2 =
     (case h_key_equal_fn self of None \<Rightarrow> key1 = key2 | Some equal \<Rightarrow> equal key1 key2)"

section \<open>Deleting\<close>

definition entry_position :: "nat \<Rightarrow> ('k, 'v) entry list \<Rightarrow> nat" where
  "entry_position a chain = length (takeWhile (\<lambda>e. e_addr e \<noteq> a) chain)"

definition hash_delete_entry ::
    "('k, 'v) hash \<Rightarrow> ('k, 'v) entry \<Rightarrow> (('k, 'v) destroyed list \<times> ('k, 'v) hash) res" where
  "hash_delete_entry self entry =
     deref (at (h_entries self) (e_index entry)) (\<lambda>chain.
       let i = entry_position (e_addr entry) chain
       in asserting (i < length chain)
         (Inr ((if h_destroy_fn self then [Destroyed_value (e_value entry)] else []) @
               (if h_key_destroy_fn self then [Destroyed_key (e_key entry)] else []),
          self\<lparr>h_entries := (h_entries self)[e_index entry := take i chain @ drop (Suc i) chain],
               h_length := h_length self - 1,
               h_used_indexes_size :=
                 (if i = 0 then h_used_indexes_size self - 1 else h_used_indexes_size self)\<rparr>)))"

text \<open>The loop reads \<open>next\<close> before it frees the entry, so it visits the chain it started with.\<close>

fun purge_chain ::
    "('k, 'v) entry list \<Rightarrow> ('k, 'v) hash \<Rightarrow> (('k, 'v) destroyed list \<times> ('k, 'v) hash) res" where
  "purge_chain [] self = Inr ([], self)"
| "purge_chain (entry # entries) self =
     bnd (hash_delete_entry self entry) (\<lambda>(ds, self).
     bnd (purge_chain entries self) (\<lambda>(ds', self). Inr (ds @ ds', self)))"

fun purge_buckets :: "nat list \<Rightarrow> ('k, 'v) hash \<Rightarrow> (('k, 'v) destroyed list \<times> ('k, 'v) hash) res" where
  "purge_buckets [] self = Inr ([], self)"
| "purge_buckets (index # is) self =
     deref (at (h_entries self) index) (\<lambda>chain.
     bnd (purge_chain chain self) (\<lambda>(ds, self).
     bnd (purge_buckets is (self\<lparr>h_entries := (h_entries self)[index := []]\<rparr>)) (\<lambda>(ds', self).
       Inr (ds @ ds', self))))"

definition hash_purge_without_shrink :: "('k, 'v) hash \<Rightarrow> (('k, 'v) destroyed list \<times> ('k, 'v) hash) res" where
  "hash_purge_without_shrink self =
     deref (at hash_primes (h_prime_index self)) (\<lambda>limit. purge_buckets [0..<unat limit] self)"

definition hash_purge :: "('k, 'v) hash \<Rightarrow> (('k, 'v) destroyed list \<times> ('k, 'v) hash) res" where
  "hash_purge self = bnd (hash_purge_without_shrink self) (\<lambda>(ds, self). Inr (ds, hash_init self))"

definition hash_destroy ::
    "('k, 'v) hash option \<Rightarrow> (('k, 'v) destroyed list \<times> ('k, 'v) hash option) res" where
  "hash_destroy self_pointer =
     (case self_pointer of
        None \<Rightarrow> Inr ([], None)
      | Some self \<Rightarrow> bnd (hash_purge_without_shrink self) (\<lambda>(ds, self). Inr (ds, None)))"

section \<open>Looking up and inserting\<close>

definition hash_get_entry :: "('k, 'v) hash \<Rightarrow> 'k \<Rightarrow> ('k, 'v) entry option res" where
  "hash_get_entry self key =
     bnd (hash_key_index self key) (\<lambda>index.
     deref (at (h_entries self) index) (\<lambda>chain.
       Inr (List.find (\<lambda>entry. hash_key_equal self (e_key entry) key) chain)))"

definition hash_has :: "('k, 'v) hash \<Rightarrow> 'k \<Rightarrow> bool res" where
  "hash_has self key = bnd (hash_get_entry self key) (\<lambda>entry. Inr (entry \<noteq> None))"

definition hash_get :: "('k, 'v) hash \<Rightarrow> 'k \<Rightarrow> 'v option res" where
  "hash_get self key =
     bnd (hash_get_entry self key) (\<lambda>entry.
       Inr (case entry of None \<Rightarrow> None | Some entry \<Rightarrow> e_value entry))"

definition hash_set_entry_if_not_exists ::
    "('k, 'v) hash \<Rightarrow> 'k \<Rightarrow> 'v option \<Rightarrow> (bool \<times> ('k, 'v) hash) res" where
  "hash_set_entry_if_not_exists self key v =
     bnd (hash_key_index self key) (\<lambda>index.
     deref (at (h_entries self) index) (\<lambda>chain.
       if chain = [] then
         bnd (hash_new_entry self key v) (\<lambda>(new_entry, self).
           Inr (True, self\<lparr>h_entries := (h_entries self)[index := [new_entry]],
             h_used_indexes_size := h_used_indexes_size self + 1, h_length := h_length self + 1\<rparr>))
       else if \<exists>entry \<in> set chain. hash_key_equal self (e_key entry) key then Inr (False, self)
       else
         bnd (hash_new_entry self key v) (\<lambda>(new_entry, self).
           Inr (True, self\<lparr>h_entries := (h_entries self)[index := new_entry # chain],
             h_length := h_length self + 1\<rparr>))))"

definition hash_delete ::
    "('k, 'v) hash \<Rightarrow> 'k \<Rightarrow> (bool \<times> ('k, 'v) destroyed list \<times> ('k, 'v) hash) res" where
  "hash_delete self key =
     bnd (hash_get_entry self key) (\<lambda>entry.
       case entry of
         None \<Rightarrow> Inr (False, [], self)
       | Some entry \<Rightarrow> bnd (hash_delete_entry self entry) (\<lambda>(ds, self). Inr (True, ds, self)))"

text \<open>
  Rehashing moves every entry, bucket by bucket and from the head of each chain on, to the head
  of its new chain. The assertion compares the new index with the size of the array in bytes.
\<close>

fun rehash_loop ::
    "('k, 'v) hash \<Rightarrow> ('k, 'v) entry list \<Rightarrow> ('k, 'v) entry list list \<Rightarrow> u64 \<Rightarrow>
     (('k, 'v) entry list list \<times> u64) res" where
  "rehash_loop self [] new_entries used = Inr (new_entries, used)"
| "rehash_loop self (entry # entries) new_entries used =
     bnd (hash_key_index self (e_key entry)) (\<lambda>new_index.
     deref (at new_entries new_index) (\<lambda>chain.
       rehash_loop self entries
         (new_entries[new_index := entry\<lparr>e_index := new_index\<rparr> # chain])
         (if chain = [] then used + 1 else used)))"

definition hash_rehash :: "('k, 'v) hash \<Rightarrow> nat \<Rightarrow> ('k, 'v) hash res" where
  "hash_rehash self new_prime_index =
     asserting (new_prime_index < 8 * length hash_primes)
       (deref (at hash_primes new_prime_index) (\<lambda>new_limit.
          let self = self\<lparr>h_prime_index := new_prime_index\<rparr>
          in bnd (rehash_loop self (concat (h_entries self)) (replicate (unat new_limit) []) 0)
               (\<lambda>(new_entries, used).
                 Inr (self\<lparr>h_entries := new_entries, h_used_indexes_size := used\<rparr>))))"

definition hash_is_overload :: "('k, 'v) hash \<Rightarrow> bool res" where
  "hash_is_overload self =
     deref (at hash_primes (h_prime_index self)) (\<lambda>limit.
       Inr (h_length self \<ge> limit * LENGTH_REHASH_PERCENTAGE div 100 \<or>
            h_used_indexes_size self \<ge> limit * INDEX_REHASH_PERCENTAGE div 100))"

definition hash_set :: "('k, 'v) hash \<Rightarrow> 'k \<Rightarrow> 'v option \<Rightarrow> (bool \<times> ('k, 'v) hash) res" where
  "hash_set self key v =
     bnd (hash_is_overload self) (\<lambda>overload.
     bnd (if overload then hash_rehash self (h_prime_index self + 1) else Inr self) (\<lambda>self.
       hash_set_entry_if_not_exists self key v))"

definition set_entry_value :: "nat \<Rightarrow> 'v option \<Rightarrow> ('k, 'v) entry \<Rightarrow> ('k, 'v) entry" where
  "set_entry_value a v e = (if e_addr e = a then e\<lparr>e_value := v\<rparr> else e)"

definition hash_put ::
    "('k, 'v) hash \<Rightarrow> 'k \<Rightarrow> 'v option \<Rightarrow> (('k, 'v) destroyed list \<times> ('k, 'v) hash) res" where
  "hash_put self key v =
     bnd (hash_get_entry self key) (\<lambda>entry.
       case entry of
         None \<Rightarrow> bnd (hash_set self key v) (\<lambda>(added, self). asserting added (Inr ([], self)))
       | Some entry \<Rightarrow>
           Inr ((if h_key_destroy_fn self then [Destroyed_key key] else []) @
                (if h_destroy_fn self then [Destroyed_value (e_value entry)] else []),
             self\<lparr>h_entries := (h_entries self)[e_index entry :=
               map (set_entry_value (e_addr entry) v) (h_entries self ! e_index entry)]\<rparr>))"

section \<open>The cursor\<close>

definition head_entry :: "('k, 'v) entry list \<Rightarrow> nat option" where
  "head_entry chain = (case chain of [] \<Rightarrow> None | entry # _ \<Rightarrow> Some (e_addr entry))"

text \<open>The chain from the entry with the address on, as it is linked now.\<close>

definition chain_from :: "('k, 'v) hash \<Rightarrow> nat \<Rightarrow> ('k, 'v) entry list" where
  "chain_from self a = concat (map (dropWhile (\<lambda>e. e_addr e \<noteq> a)) (h_entries self))"

definition hash_cursor :: "('k, 'v) hash \<Rightarrow> 'k option" where
  "hash_cursor self = h_cursor_key self"

function scan_buckets :: "nat \<Rightarrow> ('k, 'v) entry list list \<Rightarrow> nat \<Rightarrow> nat option \<Rightarrow> (nat \<times> nat option) res" where
  "scan_buckets limit entries index cursor_entry =
     (case cursor_entry of
        Some a \<Rightarrow> Inr (index, Some a)
      | None \<Rightarrow>
          if index < limit - 1
          then deref (at entries (Suc index)) (\<lambda>chain.
                 scan_buckets limit entries (Suc index) (head_entry chain))
          else Inr (index, None))"
  by pat_completeness auto
termination
  by (relation "measure (\<lambda>(limit, _, index, _). limit - index)") auto

declare scan_buckets.simps [simp del]

definition hash_next :: "('k, 'v) hash \<Rightarrow> ('v option \<times> ('k, 'v) hash) res" where
  "hash_next self =
     deref (at hash_primes (h_prime_index self)) (\<lambda>limit.
     bnd (scan_buckets (unat limit) (h_entries self) (h_cursor_index self) (h_cursor_entry self)) (\<lambda>(index, p).
       let self = self\<lparr>h_cursor_index := index, h_cursor_entry := p\<rparr>
       in case p of
            None \<Rightarrow> Inr (None, self)
          | Some a \<Rightarrow>
              (case chain_from self a of
                 [] \<Rightarrow> Inl Undefined
               | entry # chain \<Rightarrow>
                   Inr (e_value entry,
                        self\<lparr>h_cursor_key := Some (e_key entry), h_cursor_entry := head_entry chain\<rparr>))))"

definition hash_first :: "('k, 'v) hash \<Rightarrow> ('v option \<times> ('k, 'v) hash) res" where
  "hash_first self =
     deref (at (h_entries self) 0) (\<lambda>chain.
       hash_next (self\<lparr>h_cursor_index := 0, h_cursor_entry := head_entry chain\<rparr>))"

text \<open>The loops over a table stop at the first NULL value.\<close>

partial_function (option) value_list_loop ::
    "'v option \<Rightarrow> ('k, 'v) hash \<Rightarrow> 'v list_t \<Rightarrow> ('v list_t \<times> ('k, 'v) hash) loop" where
  "value_list_loop v self list =
     (if v = None then Some (Inr (list, self))
      else (case list_push list v of
              Inl e \<Rightarrow> Some (Inl e)
            | Inr list \<Rightarrow>
                (case hash_next self of
                   Inl e \<Rightarrow> Some (Inl e)
                 | Inr (v, self) \<Rightarrow> value_list_loop v self list)))"

declare value_list_loop.simps [code]

definition hash_value_list :: "('k, 'v) hash \<Rightarrow> ('v list_t \<times> ('k, 'v) hash) loop" where
  "hash_value_list self =
     lbnd (Some (hash_first self)) (\<lambda>(v, self). value_list_loop v self list_new)"

section \<open>What a table represents\<close>

lemma length_hash_primes: "length hash_primes = 60"
  by (simp add: hash_primes_def)

lemma hash_primes_nonzero: "0 \<notin> set hash_primes"
  by (simp add: hash_primes_def)

lemma hash_primes_nth: "i < 60 \<Longrightarrow> 0 < unat (hash_primes ! i)"
  using hash_primes_nonzero nth_mem [of i hash_primes] length_hash_primes
  by (cases "hash_primes ! i = 0") (simp_all add: unat_gt_0)

definition key_slot :: "('k, 'v) hash \<Rightarrow> 'k \<Rightarrow> nat" where
  "key_slot self key = unat (hash_base self key) mod unat (hash_primes ! h_prime_index self)"

lemma key_slot_cong:
  "h_prime_index self' = h_prime_index self \<Longrightarrow> h_hash_fn self' = h_hash_fn self \<Longrightarrow>
     h_key_address self' = h_key_address self \<Longrightarrow> key_slot self' = key_slot self"
  unfolding key_slot_def hash_base_def by presburger

lemma hash_key_equal_cong:
  "h_key_equal_fn self' = h_key_equal_fn self \<Longrightarrow> hash_key_equal self' = hash_key_equal self"
  unfolding hash_key_equal_def by presburger

definition placed :: "('k, 'v) hash \<Rightarrow> ('k, 'v) entry list list \<Rightarrow> bool" where
  "placed self buckets \<longleftrightarrow> (\<forall>i < length buckets. \<forall>e \<in> set (buckets ! i).
     e_index e = i \<and> key_slot self (e_key e) = i)"

definition hash_ok :: "('k, 'v) hash \<Rightarrow> bool" where
  "hash_ok self \<longleftrightarrow> h_prime_index self < 60 \<and>
     length (h_entries self) = unat (hash_primes ! h_prime_index self) \<and>
     placed self (h_entries self) \<and>
     distinct (map e_key (concat (h_entries self))) \<and>
     distinct (map e_addr (concat (h_entries self))) \<and>
     (\<forall>e \<in> set (concat (h_entries self)). e_addr e < h_next_addr self) \<and>
     h_length self = of_nat (length (concat (h_entries self))) \<and>
     hash_key_equal self = (=)"

lemma hash_ok_addr: "hash_ok self \<Longrightarrow> e \<in> set (concat (h_entries self)) \<Longrightarrow> e_addr e < h_next_addr self"
  unfolding hash_ok_def by blast

definition hash_lookup :: "('k, 'v) hash \<Rightarrow> 'k \<rightharpoonup> 'v option" where
  "hash_lookup self = map_of (map (\<lambda>e. (e_key e, e_value e)) (concat (h_entries self)))"

lemma concat_update_mset:
  assumes "i < length xs"
  shows "mset (concat (xs[i := y])) + mset (xs ! i) = mset (concat xs) + mset y"
proof -
  have xs: "xs = take i xs @ xs ! i # drop (Suc i) xs"
    using assms by (rule id_take_nth_drop)
  have "xs[i := y] = take i xs @ y # drop (Suc i) xs"
    using assms by (rule upd_conv_take_nth_drop)
  moreover have "mset (concat xs) = mset (concat (take i xs)) + mset (xs ! i) + mset (concat (drop (Suc i) xs))"
    by (subst xs) simp
  ultimately show ?thesis by simp
qed

lemma key_index_slot:
  assumes "h_prime_index self < 60"
  shows "hash_key_index self key = Inr (key_slot self key)"
    and "key_slot self key < unat (hash_primes ! h_prime_index self)"
proof -
  let ?p = "unat (hash_primes ! h_prime_index self)"
  have p: "0 < ?p"
    using hash_primes_nth [OF assms] by simp_all
  show "hash_key_index self key = Inr (key_slot self key)"
    using assms by (simp add: hash_key_index_def at_def length_hash_primes key_slot_def unat_mod_distrib)
  show "key_slot self key < ?p"
    using p by (simp add: key_slot_def)
qed

lemma map_of_entries:
  assumes "distinct (map e_key es)" and "mset es = mset es'"
  shows "map_of (map (\<lambda>e. (e_key e, e_value e)) es) = map_of (map (\<lambda>e. (e_key e, e_value e)) es')"
proof -
  have "distinct (map e_key es')"
    using assms by (metis mset_eq_imp_distinct_iff mset_map)
  moreover have "set es = set es'" using assms(2) by (rule mset_eq_setD)
  ultimately show ?thesis
    using assms(1) by (subst map_of_inject_set) (simp_all add: comp_def)
qed

lemma placed_slot:
  "placed self buckets \<Longrightarrow> e \<in> set (concat buckets) \<Longrightarrow>
     e \<in> set (buckets ! key_slot self (e_key e)) \<and> e_index e = key_slot self (e_key e) \<and>
     key_slot self (e_key e) < length buckets"
  by (auto simp: placed_def in_set_conv_nth [of _ buckets])

text \<open>The entry of a key is in the bucket of its slot.\<close>

lemma hash_get_entry_ok:
  assumes "hash_ok self"
  shows "hash_get_entry self key = Inr (List.find (\<lambda>e. e_key e = key) (h_entries self ! key_slot self key))"
  using assms key_index_slot [of self key]
  by (simp add: hash_ok_def hash_get_entry_def at_def)

lemma find_entry_Some:
  assumes "hash_ok self"
  shows "List.find (\<lambda>e. e_key e = key) (h_entries self ! key_slot self key) = Some e \<longleftrightarrow>
    e \<in> set (concat (h_entries self)) \<and> e_key e = key"
proof
  let ?b = "h_entries self ! key_slot self key"
  have lt: "key_slot self key < length (h_entries self)"
    using assms key_index_slot(2) [of self key] by (simp add: hash_ok_def)
  assume "List.find (\<lambda>e. e_key e = key) ?b = Some e"
  then have "e \<in> set ?b \<and> e_key e = key"
    by (auto simp: find_Some_iff)
  with lt show "e \<in> set (concat (h_entries self)) \<and> e_key e = key"
    by auto
next
  let ?b = "h_entries self ! key_slot self key"
  assume e: "e \<in> set (concat (h_entries self)) \<and> e_key e = key"
  then have b: "e \<in> set ?b"
    using assms placed_slot [of self "h_entries self" e] by (auto simp: hash_ok_def)
  obtain e' where e': "List.find (\<lambda>e. e_key e = key) ?b = Some e'"
    using b e find_None_iff [of "\<lambda>e. e_key e = key" ?b] by (cases "List.find (\<lambda>e. e_key e = key) ?b") auto
  then have "e' \<in> set ?b" "e_key e' = key"
    by (auto simp: find_Some_iff)
  moreover have "key_slot self key < length (h_entries self)"
    using assms key_index_slot(2) [of self key] by (simp add: hash_ok_def)
  ultimately have "e' \<in> set (concat (h_entries self))" by auto
  then have "e' = e"
    using assms e \<open>e_key e' = key\<close> unfolding hash_ok_def distinct_map inj_on_def by metis
  with e' show "List.find (\<lambda>e. e_key e = key) ?b = Some e" by simp
qed

lemma hash_lookup_Some:
  assumes "hash_ok self"
  shows "hash_lookup self key = Some v \<longleftrightarrow>
    (\<exists>e \<in> set (concat (h_entries self)). e_key e = key \<and> e_value e = v)"
proof -
  have "distinct (map fst (map (\<lambda>e. (e_key e, e_value e)) (concat (h_entries self))))"
    using assms by (simp add: hash_ok_def comp_def)
  then show ?thesis
    unfolding hash_lookup_def by (subst map_of_eq_Some_iff) (auto simp: comp_def)
qed

lemma find_entry_lookup:
  assumes "hash_ok self"
  shows "map_option e_value (List.find (\<lambda>e. e_key e = key) (h_entries self ! key_slot self key)) =
    hash_lookup self key"
proof (cases "List.find (\<lambda>e. e_key e = key) (h_entries self ! key_slot self key)")
  case None
  then have "hash_lookup self key = None"
    using hash_lookup_Some [OF assms, of key] find_entry_Some [OF assms, of key]
    by (cases "hash_lookup self key") auto
  with None show ?thesis by simp
next
  case (Some e)
  then show ?thesis
    using hash_lookup_Some [OF assms, of key "e_value e"] find_entry_Some [OF assms, of key e] by auto
qed

lemma hash_get_lookup:
  assumes "hash_ok self"
  shows "hash_get self key = Inr (case hash_lookup self key of None \<Rightarrow> None | Some v \<Rightarrow> v)"
    and "hash_has self key = Inr (hash_lookup self key \<noteq> None)"
  using hash_get_entry_ok [OF assms, of key]
  by (simp_all add: hash_get_def hash_has_def flip: find_entry_lookup [OF assms])
    (auto split: option.splits)

section \<open>Inserting\<close>

lemma set_bucket_ok:
  assumes ok: "hash_ok self" and i: "i = key_slot self (e_key e)" and ix: "e_index e = i"
    and a: "e_addr e = h_next_addr self" and new: "hash_lookup self (e_key e) = None"
    and self': "h_entries self' = (h_entries self)[i := e # h_entries self ! i]"
      "h_next_addr self' = Suc (h_next_addr self)" "h_length self' = h_length self + 1"
      "h_prime_index self' = h_prime_index self" "h_hash_fn self' = h_hash_fn self"
      "h_key_address self' = h_key_address self" "h_key_equal_fn self' = h_key_equal_fn self"
  shows "hash_ok self'" and "hash_lookup self' = (hash_lookup self)(e_key e \<mapsto> e_value e)"
proof -
  let ?es = "concat (h_entries self)" and ?es' = "concat (h_entries self')"
  have lt: "i < length (h_entries self)"
    using ok key_index_slot(2) [of self "e_key e"] i by (simp add: hash_ok_def)
  have m: "mset ?es' = mset (e # ?es)"
    using concat_update_mset [OF lt, of "e # h_entries self ! i"] self'(1) by simp
  have s: "set ?es' = insert e (set ?es)"
    using mset_eq_setD [OF m] by simp
  have nk: "e_key e \<notin> e_key ` set ?es"
  proof
    assume "e_key e \<in> e_key ` set ?es"
    then obtain e' where "e' \<in> set ?es" "e_key e' = e_key e" by (metis imageE)
    then have "hash_lookup self (e_key e) = Some (e_value e')"
      using hash_lookup_Some [OF ok, of "e_key e" "e_value e'"] by blast
    with new show False by simp
  qed
  have na: "e_addr e \<notin> e_addr ` set ?es"
  proof
    assume "e_addr e \<in> e_addr ` set ?es"
    then obtain e' where "e' \<in> set ?es" "e_addr e' = e_addr e" by (metis imageE)
    then have "e_addr e < h_next_addr self" using hash_ok_addr [OF ok] by metis
    with a show False by simp
  qed
  have d: "distinct (map e_key (e # ?es))" "distinct (map e_addr (e # ?es))"
    using ok nk na by (auto simp: hash_ok_def)
  have ks: "key_slot self' = key_slot self"
    using self' by (intro key_slot_cong)
  have "placed self' (h_entries self')"
    using ok i ix lt self'(1) by (auto simp: hash_ok_def placed_def ks nth_list_update)
  moreover have "distinct (map e_key ?es')" "distinct (map e_addr ?es')"
    using d m by (metis mset_eq_imp_distinct_iff mset_map)+
  moreover have "length ?es' = Suc (length ?es)"
    using m by (metis length_Cons size_mset)
  moreover have "\<forall>e' \<in> set ?es'. e_addr e' < h_next_addr self'"
    using ok a self'(2) unfolding s hash_ok_def by (auto simp: less_Suc_eq)
  moreover have "hash_key_equal self' = (=)"
    using ok hash_key_equal_cong [of self' self] self' by (simp add: hash_ok_def)
  ultimately show "hash_ok self'"
    using ok self' by (simp add: hash_ok_def)
  show "hash_lookup self' = (hash_lookup self)(e_key e \<mapsto> e_value e)"
    using map_of_entries [OF d(1) m [symmetric]] by (simp add: hash_lookup_def)
qed

lemma hash_set_entry_if_not_exists_ok:
  assumes "hash_ok self"
  shows "\<exists>self'. hash_set_entry_if_not_exists self key v = Inr (hash_lookup self key = None, self') \<and>
    hash_ok self' \<and>
    hash_lookup self' = (if hash_lookup self key = None then (hash_lookup self)(key \<mapsto> v) else hash_lookup self)"
proof -
  let ?i = "key_slot self key"
  let ?chain = "h_entries self ! ?i"
  let ?e = "\<lparr>e_addr = h_next_addr self, e_index = ?i, e_key = key, e_value = v\<rparr>"
  have p: "h_prime_index self < 60" and lt: "?i < length (h_entries self)" and eq: "hash_key_equal self = (=)"
    using assms key_index_slot(2) [of self key] by (simp_all add: hash_ok_def)
  have new: "hash_new_entry self key v = Inr (?e, self\<lparr>h_next_addr := Suc (h_next_addr self)\<rparr>)"
    using key_index_slot(1) [OF p] by (simp add: hash_new_entry_def)
  have ex: "(\<exists>e \<in> set ?chain. e_key e = key) \<longleftrightarrow> hash_lookup self key \<noteq> None"
    using find_None_iff [of "\<lambda>e. e_key e = key" ?chain]
    by (auto simp flip: find_entry_lookup [OF assms])
  show ?thesis
  proof (cases "hash_lookup self key = None")
    case False
    then show ?thesis
      using ex lt key_index_slot(1) [OF p] eq assms
      by (auto simp: hash_set_entry_if_not_exists_def at_def)
  next
    case True
    define self' where "self' = self\<lparr>h_next_addr := Suc (h_next_addr self),
       h_entries := (h_entries self)[?i := ?e # ?chain],
       h_used_indexes_size := (if ?chain = [] then h_used_indexes_size self + 1 else h_used_indexes_size self),
       h_length := h_length self + 1\<rparr>"
    have "hash_set_entry_if_not_exists self key v = Inr (True, self')"
      using ex lt key_index_slot(1) [OF p] eq True new
      by (cases "?chain = []") (auto simp: hash_set_entry_if_not_exists_def at_def self'_def)
    moreover have "hash_ok self'" "hash_lookup self' = (hash_lookup self)(key \<mapsto> v)"
      using set_bucket_ok [OF assms, of ?i ?e self'] True by (simp_all add: self'_def)
    ultimately show ?thesis using True by auto
  qed
qed

text \<open>Rehashing keeps the map; it only needs a next prime.\<close>

lemma rehash_loop_ok:
  assumes p: "h_prime_index self < 60"
    and "length buckets = unat (hash_primes ! h_prime_index self)" and "placed self buckets"
  shows "\<exists>buckets' used'. rehash_loop self es buckets used = Inr (buckets', used') \<and>
    length buckets' = length buckets \<and> placed self buckets' \<and>
    mset (map (e_index_update (\<lambda>_. 0)) (concat buckets')) =
      mset (map (e_index_update (\<lambda>_. 0)) (concat buckets @ es))"
  using assms(2,3)
proof (induction es arbitrary: buckets used)
  case Nil
  then show ?case by simp
next
  case (Cons e es)
  let ?i = "key_slot self (e_key e)"
  let ?e = "e\<lparr>e_index := ?i\<rparr>"
  let ?b = "buckets[?i := ?e # buckets ! ?i]"
  have lt: "?i < length buckets"
    using key_index_slot(2) [OF p] Cons.prems(1) by simp
  have pl: "placed self ?b"
    using Cons.prems lt by (auto simp: placed_def nth_list_update)
  have len: "length ?b = unat (hash_primes ! h_prime_index self)" using Cons.prems(1) by simp
  have "mset (concat ?b) = mset (?e # concat buckets)"
    using concat_update_mset [OF lt, of "?e # buckets ! ?i"] by simp
  then have "mset (map (e_index_update (\<lambda>_. 0)) (concat ?b @ es)) =
      mset (map (e_index_update (\<lambda>_. 0)) (concat buckets @ e # es))"
    by (simp add: mset_map del: mset_concat)
  with Cons.IH [OF len pl] show ?case
    using key_index_slot(1) [OF p] lt by (auto simp: at_def)
qed

lemma hash_rehash_ok:
  assumes ok: "hash_ok self" and "n < 60"
  shows "\<exists>self'. hash_rehash self n = Inr self' \<and> hash_ok self' \<and> hash_lookup self' = hash_lookup self \<and>
    h_prime_index self' = n"
proof -
  let ?s = "self\<lparr>h_prime_index := n\<rparr>" and ?es = "concat (h_entries self)"
  let ?z = "e_index_update (\<lambda>_. 0) :: ('a, 'b) entry \<Rightarrow> ('a, 'b) entry"
  have pl: "placed ?s (replicate (unat (hash_primes ! n)) [])" by (simp add: placed_def)
  obtain buckets used where b: "rehash_loop ?s ?es (replicate (unat (hash_primes ! n)) []) 0 = Inr (buckets, used)"
      "length buckets = unat (hash_primes ! n)" "placed ?s buckets"
      "mset (map ?z (concat buckets)) = mset (map ?z ?es)"
    using rehash_loop_ok [OF _ _ pl, of ?es 0] assms(2) by auto
  let ?r = "?s\<lparr>h_entries := buckets, h_used_indexes_size := used\<rparr>"
  have r: "hash_rehash self n = Inr ?r"
    using b(1) assms(2) by (simp add: hash_rehash_def length_hash_primes at_def)
  have k: "mset (map e_key (concat buckets)) = mset (map e_key ?es)"
    using arg_cong [OF b(4), of "image_mset e_key"] by (simp add: multiset.map_comp comp_def flip: mset_map)
  have a: "mset (map e_addr (concat buckets)) = mset (map e_addr ?es)"
    using arg_cong [OF b(4), of "image_mset e_addr"] by (simp add: multiset.map_comp comp_def flip: mset_map)
  have kv: "mset (map (\<lambda>e. (e_key e, e_value e)) (concat buckets)) = mset (map (\<lambda>e. (e_key e, e_value e)) ?es)"
    using arg_cong [OF b(4), of "image_mset (\<lambda>e. (e_key e, e_value e))"]
    by (simp add: multiset.map_comp comp_def flip: mset_map)
  have d: "distinct (map e_key ?es)" "distinct (map e_addr ?es)" "\<forall>x \<in> set (map e_addr ?es). x < h_next_addr self"
    using ok by (auto simp: hash_ok_def)
  have d': "distinct (map e_key (concat buckets))" "distinct (map e_addr (concat buckets))"
    "\<forall>x \<in> set (map e_addr (concat buckets)). x < h_next_addr self"
    using d k a mset_eq_imp_distinct_iff mset_eq_setD by blast+
  have "length (concat buckets) = length ?es"
    using arg_cong [OF k, of size] by simp
  moreover have "key_slot ?r = key_slot ?s"
    by (intro key_slot_cong) simp_all
  then have "placed ?r buckets"
    using b(3) by (simp add: placed_def)
  moreover have "hash_key_equal ?r = hash_key_equal self"
    by (intro hash_key_equal_cong) simp
  ultimately have "hash_ok ?r"
    using ok b(2) d' assms(2) by (simp add: hash_ok_def)
  moreover have "hash_lookup ?r = hash_lookup self"
  proof -
    have "distinct (map fst (map (\<lambda>e. (e_key e, e_value e)) (concat buckets)))"
      "distinct (map fst (map (\<lambda>e. (e_key e, e_value e)) ?es))"
      using d(1) d'(1) by (simp_all add: comp_def)
    then show ?thesis
      using mset_eq_setD [OF kv] by (simp add: hash_lookup_def map_of_inject_set)
  qed
  ultimately show ?thesis using r by auto
qed

text \<open>A table that is not on its last prime always has room.\<close>

lemma hash_set_ok:
  assumes "hash_ok self" and "h_prime_index self < 59"
  shows "\<exists>self'. hash_set self key v = Inr (hash_lookup self key = None, self') \<and> hash_ok self' \<and>
    hash_lookup self' = (if hash_lookup self key = None then (hash_lookup self)(key \<mapsto> v) else hash_lookup self)"
proof -
  obtain overload where o: "hash_is_overload self = Inr overload"
    using assms by (simp add: hash_is_overload_def at_def length_hash_primes)
  obtain self1 where s: "(if overload then hash_rehash self (h_prime_index self + 1) else Inr self) = Inr self1"
      "hash_ok self1" "hash_lookup self1 = hash_lookup self"
    using hash_rehash_ok [OF assms(1), of "h_prime_index self + 1"] assms
    by (cases overload) auto
  from hash_set_entry_if_not_exists_ok [OF s(2), of key v] s o show ?thesis
    by (auto simp: hash_set_def)
qed

section \<open>Deleting\<close>

lemma entry_position_split:
  assumes "e_addr e \<notin> e_addr ` set xs"
  shows "entry_position (e_addr e) (xs @ e # ys) = length xs"
proof -
  have "\<forall>x \<in> set xs. e_addr x \<noteq> e_addr e" using assms by (metis imageI)
  then have "takeWhile (\<lambda>x. e_addr x \<noteq> e_addr e) xs = xs"
    by (simp add: takeWhile_eq_all_conv)
  then show ?thesis by (simp add: entry_position_def takeWhile_append)
qed

definition destroys :: "('k, 'v) hash \<Rightarrow> ('k, 'v) entry \<Rightarrow> ('k, 'v) destroyed list" where
  "destroys self entry =
     (if h_destroy_fn self then [Destroyed_value (e_value entry)] else []) @
     (if h_key_destroy_fn self then [Destroyed_key (e_key entry)] else [])"

lemma hash_delete_entry_split:
  assumes "at (h_entries self) (e_index e) = Some (xs @ e # ys)" and "e_addr e \<notin> e_addr ` set xs"
  shows "hash_delete_entry self e = Inr (destroys self e,
    self\<lparr>h_entries := (h_entries self)[e_index e := xs @ ys], h_length := h_length self - 1,
      h_used_indexes_size := (if xs = [] then h_used_indexes_size self - 1 else h_used_indexes_size self)\<rparr>)"
  using assms entry_position_split [OF assms(2), of ys]
  by (simp add: hash_delete_entry_def Let_def destroys_def)

lemma unset_bucket_ok:
  assumes ok: "hash_ok self" and i: "i < length (h_entries self)" and b: "h_entries self ! i = xs @ e # ys"
    and self': "h_entries self' = (h_entries self)[i := xs @ ys]"
      "h_next_addr self' = h_next_addr self" "h_length self' = h_length self - 1"
      "h_prime_index self' = h_prime_index self" "h_hash_fn self' = h_hash_fn self"
      "h_key_address self' = h_key_address self" "h_key_equal_fn self' = h_key_equal_fn self"
  shows "hash_ok self'" and "hash_lookup self' = (hash_lookup self)(e_key e := None)"
proof -
  let ?es = "concat (h_entries self)" and ?es' = "concat (h_entries self')"
  have m: "mset ?es = mset (e # ?es')"
    using concat_update_mset [OF i, of "xs @ ys"] self'(1) b by simp
  have s: "set ?es = insert e (set ?es')"
    using mset_eq_setD [OF m] by simp
  have d: "distinct (map e_key (e # ?es'))" "distinct (map e_addr (e # ?es'))"
    using ok m unfolding hash_ok_def by (metis mset_eq_imp_distinct_iff mset_map)+
  have ks: "key_slot self' = key_slot self"
    using self' by (intro key_slot_cong)
  have "placed self' (h_entries self')"
    using ok i b self'(1) by (auto simp: hash_ok_def placed_def ks nth_list_update)
  moreover have "length ?es = Suc (length ?es')"
    using m by (metis length_Cons size_mset)
  moreover have "\<forall>e' \<in> set ?es'. e_addr e' < h_next_addr self'"
  proof
    fix e' assume "e' \<in> set ?es'"
    then have "e' \<in> set ?es" by (simp only: s insertI2)
    then show "e_addr e' < h_next_addr self'" using hash_ok_addr [OF ok] self'(2) by metis
  qed
  moreover have "hash_key_equal self' = (=)"
    using ok hash_key_equal_cong [of self' self] self' by (simp add: hash_ok_def)
  ultimately show "hash_ok self'"
    using ok self' d by (simp add: hash_ok_def)
  have "map_of (map (\<lambda>e. (e_key e, e_value e)) ?es') (e_key e) = None"
    using d(1) by (simp add: map_of_eq_None_iff image_image)
  moreover have "hash_lookup self = (hash_lookup self')(e_key e \<mapsto> e_value e)"
    using map_of_entries [OF _ m] ok by (simp add: hash_lookup_def hash_ok_def)
  ultimately show "hash_lookup self' = (hash_lookup self)(e_key e := None)"
    by (auto simp: fun_eq_iff hash_lookup_def)
qed

lemma bucket_addrs:
  assumes "hash_ok self" and "i < length (h_entries self)"
  shows "distinct (map e_addr (h_entries self ! i))"
  using assms by (simp add: hash_ok_def map_concat distinct_concat_iff)

lemma entry_bucket:
  assumes "hash_ok self" and "e \<in> set (concat (h_entries self))"
  obtains xs ys where "h_entries self ! e_index e = xs @ e # ys" and "e_addr e \<notin> e_addr ` set xs"
    and "e_index e < length (h_entries self)" and "at (h_entries self) (e_index e) = Some (xs @ e # ys)"
proof -
  have e: "e \<in> set (h_entries self ! e_index e)" "e_index e < length (h_entries self)"
    using placed_slot [of self "h_entries self" e] assms by (auto simp: hash_ok_def)
  obtain xs ys where b: "h_entries self ! e_index e = xs @ e # ys"
    using e(1) by (meson split_list)
  moreover have "e_addr e \<notin> e_addr ` set xs"
    using bucket_addrs [OF assms(1) e(2)] b by auto
  ultimately show ?thesis
    using that e(2) by (simp add: at_def)
qed

lemma hash_delete_ok:
  assumes "hash_ok self"
  shows "\<exists>ds self'. hash_delete self key = Inr (hash_lookup self key \<noteq> None, ds, self') \<and> hash_ok self' \<and>
    hash_lookup self' = (hash_lookup self)(key := None)"
proof (cases "List.find (\<lambda>e. e_key e = key) (h_entries self ! key_slot self key)")
  case None
  then have "hash_lookup self key = None" using find_entry_lookup [OF assms, of key] by simp
  then show ?thesis
    using None hash_get_entry_ok [OF assms, of key] assms
    by (auto simp: hash_delete_def fun_upd_idem)
next
  case (Some e)
  then have e: "e \<in> set (concat (h_entries self))" "e_key e = key"
    using find_entry_Some [OF assms, of key e] by auto
  have l: "hash_lookup self key \<noteq> None"
    using Some by (simp flip: find_entry_lookup [OF assms])
  obtain xs ys where b: "h_entries self ! e_index e = xs @ e # ys" "e_addr e \<notin> e_addr ` set xs"
      "e_index e < length (h_entries self)" "at (h_entries self) (e_index e) = Some (xs @ e # ys)"
    using entry_bucket [OF assms e(1)] by blast
  let ?r = "self\<lparr>h_entries := (h_entries self)[e_index e := xs @ ys], h_length := h_length self - 1,
      h_used_indexes_size := (if xs = [] then h_used_indexes_size self - 1 else h_used_indexes_size self)\<rparr>"
  have "hash_delete self key = Inr (True, destroys self e, ?r)"
    using hash_get_entry_ok [OF assms, of key] Some hash_delete_entry_split [OF b(4,2)]
    by (simp add: hash_delete_def)
  then show ?thesis
    using unset_bucket_ok [OF assms b(3,1), of ?r] l e(2) by auto
qed

section \<open>Replacing\<close>

lemma map_set_entry_other:
  "a \<notin> e_addr ` set es \<Longrightarrow> map (set_entry_value a v) es = es"
  by (induction es) (auto simp: set_entry_value_def)

lemma replace_bucket:
  assumes "distinct (map e_addr (concat buckets))" and "i < length buckets" and "e \<in> set (buckets ! i)"
  shows "concat (buckets[i := map (set_entry_value (e_addr e) v) (buckets ! i)]) =
    map (set_entry_value (e_addr e) v) (concat buckets)"
proof -
  let ?f = "set_entry_value (e_addr e) v" and ?l = "take i buckets" and ?r = "drop (Suc i) buckets"
  have b: "buckets = ?l @ buckets ! i # ?r"
    using assms(2) by (rule id_take_nth_drop)
  have u: "buckets[i := map ?f (buckets ! i)] = ?l @ map ?f (buckets ! i) # ?r"
    using assms(2) by (rule upd_conv_take_nth_drop)
  have "distinct (map e_addr (concat ?l @ buckets ! i @ concat ?r))"
    using assms(1) by (subst (asm) b) simp
  moreover have "e_addr e \<in> e_addr ` set (buckets ! i)" using assms(3) by (rule imageI)
  ultimately have "e_addr e \<notin> e_addr ` set (concat ?l)" "e_addr e \<notin> e_addr ` set (concat ?r)"
    by (auto simp del: set_concat)
  then have "map ?f (concat ?l) = concat ?l" "map ?f (concat ?r) = concat ?r"
    using map_set_entry_other by blast+
  then have "concat (?l @ map ?f (buckets ! i) # ?r) = map ?f (concat (?l @ buckets ! i # ?r))"
    by simp
  then show ?thesis using u b by simp
qed

lemma set_entry_value_fields [simp]:
  "e_key (set_entry_value a v e) = e_key e" "e_addr (set_entry_value a v e) = e_addr e"
  "e_index (set_entry_value a v e) = e_index e"
  "e_value (set_entry_value a v e) = (if e_addr e = a then v else e_value e)"
  by (simp_all add: set_entry_value_def)

lemma hash_put_ok:
  assumes "hash_ok self" and "h_prime_index self < 59"
  shows "\<exists>ds self'. hash_put self key v = Inr (ds, self') \<and> hash_ok self' \<and>
    hash_lookup self' = (hash_lookup self)(key \<mapsto> v)"
proof (cases "List.find (\<lambda>e. e_key e = key) (h_entries self ! key_slot self key)")
  case None
  then have "hash_lookup self key = None" using find_entry_lookup [OF assms(1), of key] by simp
  then show ?thesis
    using None hash_get_entry_ok [OF assms(1), of key] hash_set_ok [OF assms, of key v]
    by (auto simp: hash_put_def)
next
  case (Some e)
  then have e: "e \<in> set (concat (h_entries self))" "e_key e = key"
    using find_entry_Some [OF assms(1), of key e] by auto
  obtain xs ys where b: "h_entries self ! e_index e = xs @ e # ys" "e_index e < length (h_entries self)"
    using entry_bucket [OF assms(1) e(1)] by blast
  let ?f = "set_entry_value (e_addr e) v"
  let ?r = "self\<lparr>h_entries := (h_entries self)[e_index e := map ?f (h_entries self ! e_index e)]\<rparr>"
  have r: "concat (h_entries ?r) = map ?f (concat (h_entries self))"
    using replace_bucket [of "h_entries self" "e_index e" e v] assms(1) b by (simp add: hash_ok_def)
  have km: "map e_key (concat (h_entries ?r)) = map e_key (concat (h_entries self))"
    "map e_addr (concat (h_entries ?r)) = map e_addr (concat (h_entries self))"
    unfolding r by (simp_all add: comp_def del: map_concat)
  have "key_slot ?r = key_slot self" by (rule key_slot_cong) simp_all
  then have "placed ?r (h_entries ?r)"
    using assms(1) b(2) by (auto simp: hash_ok_def placed_def nth_list_update)
  moreover have "hash_key_equal ?r = (=)"
    using assms(1) hash_key_equal_cong [of ?r self] by (simp add: hash_ok_def)
  moreover have "\<forall>e' \<in> set (concat (h_entries ?r)). e_addr e' < h_next_addr ?r"
    unfolding r using hash_ok_addr [OF assms(1)] by auto
  moreover have "length (concat (h_entries ?r)) = length (concat (h_entries self))"
    unfolding r by simp
  moreover have "distinct (map e_key (concat (h_entries ?r)))" "distinct (map e_addr (concat (h_entries ?r)))"
    using assms(1) unfolding km hash_ok_def by blast+
  ultimately have ok: "hash_ok ?r"
    using assms(1) by (simp add: hash_ok_def del: set_concat)
  have inj: "e' = e" if "e' \<in> set (concat (h_entries self))" and "e_addr e' = e_addr e \<or> e_key e' = key" for e'
    using assms(1) that e unfolding hash_ok_def distinct_map inj_on_def by metis
  have "hash_lookup ?r k = ((hash_lookup self)(key \<mapsto> v)) k" for k
  proof (cases "k = key")
    case True
    have "?f e \<in> set (concat (h_entries ?r))"
      unfolding r using e(1) by (metis image_eqI list.set_map)
    then show ?thesis
      using True hash_lookup_Some [OF ok, of key v] e(2) by fastforce
  next
    case False
    have "hash_lookup ?r k = Some w \<longleftrightarrow> hash_lookup self k = Some w" for w
    proof -
      have "(\<exists>x \<in> set (concat (h_entries self)). e_key (?f x) = k \<and> e_value (?f x) = w) \<longleftrightarrow>
        (\<exists>x \<in> set (concat (h_entries self)). e_key x = k \<and> e_value x = w)"
        by (rule bex_cong [OF refl]) (use inj False e(2) in auto)
      then show ?thesis
        unfolding hash_lookup_Some [OF ok] hash_lookup_Some [OF assms(1)] r
        by (simp del: set_concat)
    qed
    then show ?thesis
      using False by (metis fun_upd_other not_Some_eq)
  qed
  then have "hash_lookup ?r = (hash_lookup self)(key \<mapsto> v)" by blast
  then show ?thesis
    using hash_get_entry_ok [OF assms(1), of key] Some ok by (auto simp: hash_put_def)
qed

section \<open>Purging\<close>

lemma purge_chain_ok:
  "h_entries self ! i = es \<Longrightarrow> i < length (h_entries self) \<Longrightarrow> \<forall>e \<in> set es. e_index e = i \<Longrightarrow>
     \<exists>self'. purge_chain es self = Inr (concat (map (destroys self) es), self') \<and>
       h_entries self' = (h_entries self)[i := []] \<and>
       h_prime_index self' = h_prime_index self \<and> h_next_addr self' = h_next_addr self \<and>
       h_destroy_fn self' = h_destroy_fn self \<and> h_key_destroy_fn self' = h_key_destroy_fn self \<and>
       h_hash_fn self' = h_hash_fn self \<and> h_key_equal_fn self' = h_key_equal_fn self"
proof (induction es arbitrary: self)
  case Nil
  then have "h_entries self = (h_entries self)[i := []]" by (metis list_update_id)
  with Nil show ?case by simp
next
  case (Cons e es)
  have at: "at (h_entries self) (e_index e) = Some ([] @ e # es)"
    using Cons.prems by (simp add: at_def)
  let ?s = "self\<lparr>h_entries := (h_entries self)[i := es], h_length := h_length self - 1,
      h_used_indexes_size := h_used_indexes_size self - 1\<rparr>"
  have d: "hash_delete_entry self e = Inr (destroys self e, ?s)"
    using hash_delete_entry_split [OF at] Cons.prems(3) by simp
  have "destroys ?s = destroys self" by (simp add: fun_eq_iff destroys_def)
  with Cons.IH [of ?s] Cons.prems d show ?case by auto
qed

lemma purge_buckets_ok:
  "\<forall>i \<in> set is. i < length (h_entries self) \<and> (\<forall>e \<in> set (h_entries self ! i). e_index e = i) \<Longrightarrow> distinct is \<Longrightarrow>
     \<exists>self'. purge_buckets is self = Inr (concat (map (\<lambda>i. concat (map (destroys self) (h_entries self ! i))) is), self') \<and>
       h_hash_fn self' = h_hash_fn self \<and> h_key_equal_fn self' = h_key_equal_fn self \<and>
       length (h_entries self') = length (h_entries self)"
proof (induction "is" arbitrary: self)
  case Nil
  then show ?case by simp
next
  case (Cons i "is")
  have i: "i < length (h_entries self)" "\<forall>e \<in> set (h_entries self ! i). e_index e = i" "i \<notin> set is"
    using Cons.prems by auto
  obtain s where s: "purge_chain (h_entries self ! i) self = Inr (concat (map (destroys self) (h_entries self ! i)), s)"
      "h_entries s = (h_entries self)[i := []]" "h_destroy_fn s = h_destroy_fn self"
      "h_key_destroy_fn s = h_key_destroy_fn self" "h_hash_fn s = h_hash_fn self"
      "h_key_equal_fn s = h_key_equal_fn self"
    using purge_chain_ok [OF refl i(1,2)] by blast
  let ?t = "s\<lparr>h_entries := (h_entries s)[i := []]\<rparr>"
  have t: "h_entries ?t = (h_entries self)[i := []]" using s(2) by simp
  have dt: "destroys ?t = destroys self" using s by (simp add: fun_eq_iff destroys_def)
  have other: "h_entries ?t ! j = h_entries self ! j" if "j \<in> set is" for j
    using that i(3) unfolding t by (metis nth_list_update_neq)
  have "\<forall>j \<in> set is. j < length (h_entries ?t) \<and> (\<forall>e \<in> set (h_entries ?t ! j). e_index e = j)"
    using Cons.prems(1) other t by simp
  from Cons.IH [OF this] Cons.prems(2) obtain u where u:
      "purge_buckets is ?t = Inr (concat (map (\<lambda>i. concat (map (destroys ?t) (h_entries ?t ! i))) is), u)"
      "h_hash_fn u = h_hash_fn ?t" "h_key_equal_fn u = h_key_equal_fn ?t"
      "length (h_entries u) = length (h_entries ?t)"
    by auto
  have "map (\<lambda>i. concat (map (destroys ?t) (h_entries ?t ! i))) is =
      map (\<lambda>i. concat (map (destroys self) (h_entries self ! i))) is"
    using other dt by simp
  with u s i(1) show ?case
    by (simp add: at_def del: map_eq_conv)
qed

lemma concat_map_concat: "concat (map (\<lambda>b. concat (map f b)) bs) = concat (map f (concat bs))"
  by (induction bs) simp_all

text \<open>Purging destroys each entry once, in the order of the buckets, and leaves a small empty table.\<close>

lemma hash_purge_ok:
  assumes "hash_ok self"
  shows "\<exists>self'. hash_purge self = Inr (concat (map (destroys self) (concat (h_entries self))), self') \<and>
    hash_ok self' \<and> hash_lookup self' = Map.empty \<and> hash_length self' = 0"
proof -
  have p: "h_prime_index self < 60" and len: "length (h_entries self) = unat (hash_primes ! h_prime_index self)"
    and ix: "\<forall>i < length (h_entries self). \<forall>e \<in> set (h_entries self ! i). e_index e = i"
    using assms by (auto simp: hash_ok_def placed_def)
  obtain s where s: "purge_buckets [0..<length (h_entries self)] self =
      Inr (concat (map (\<lambda>i. concat (map (destroys self) (h_entries self ! i))) [0..<length (h_entries self)]), s)"
      "h_key_equal_fn s = h_key_equal_fn self"
    using purge_buckets_ok [of "[0..<length (h_entries self)]" self] ix by auto
  have "map (\<lambda>i. concat (map (destroys self) (h_entries self ! i))) [0..<length (h_entries self)] =
      map (\<lambda>b. concat (map (destroys self) b)) (h_entries self)"
    by (intro nth_equalityI) auto
  then have "concat (map (\<lambda>i. concat (map (destroys self) (h_entries self ! i))) [0..<length (h_entries self)]) =
      concat (map (destroys self) (concat (h_entries self)))"
    by (simp only: concat_map_concat)
  then have "hash_purge self = Inr (concat (map (destroys self) (concat (h_entries self))), hash_init s)"
    using s p len by (simp add: hash_purge_def hash_purge_without_shrink_def at_def length_hash_primes)
  moreover have "hash_key_equal s = (=)"
    using assms hash_key_equal_cong [OF s(2)] by (simp add: hash_ok_def)
  then have "hash_ok (hash_init s)" "hash_lookup (hash_init s) = Map.empty" "hash_length (hash_init s) = 0"
    using hash_key_equal_cong [of "hash_init s" s]
    by (auto simp: hash_ok_def hash_init_def placed_def hash_lookup_def hash_length_def concat_replicate_trivial
      simp del: set_concat)
  ultimately show ?thesis by blast
qed

lemma hash_new_ok: "hash_ok (hash_new f)" "hash_lookup (hash_new f) = Map.empty"
  by (auto simp: hash_ok_def hash_new_def hash_init_def placed_def hash_lookup_def hash_key_equal_def fun_eq_iff)

lemma hash_of_string_key_ok: "hash_ok hash_of_string_key" "hash_lookup hash_of_string_key = Map.empty"
  by (auto simp: hash_of_string_key_def hash_set_hash_fn_def hash_set_key_equal_fn_def
    hash_set_key_destroy_fn_def hash_ok_def hash_new_def hash_init_def placed_def hash_lookup_def
    hash_key_equal_def fun_eq_iff string_equal_def)

section \<open>Iterating\<close>

text \<open>What the cursor has still to visit.\<close>

definition remaining :: "('k, 'v) hash \<Rightarrow> ('k, 'v) entry list" where
  "remaining self =
     (case h_cursor_entry self of None \<Rightarrow> [] | Some a \<Rightarrow> chain_from self a) @
     concat (drop (Suc (h_cursor_index self)) (h_entries self))"

definition cursor_ok :: "('k, 'v) hash \<Rightarrow> bool" where
  "cursor_ok self \<longleftrightarrow> h_cursor_index self < length (h_entries self) \<and>
     (\<forall>a. h_cursor_entry self = Some a \<longrightarrow> a \<in> e_addr ` set (h_entries self ! h_cursor_index self))"

lemma dropWhile_addr:
  "a \<notin> e_addr ` set es \<Longrightarrow> dropWhile (\<lambda>e. e_addr e \<noteq> a) es = []"
  by (auto simp: dropWhile_eq_Nil_conv)

lemma concat_dropWhile_none:
  "a \<notin> e_addr ` set (concat bs) \<Longrightarrow> concat (map (dropWhile (\<lambda>e. e_addr e \<noteq> a)) bs) = []"
proof (induction bs)
  case (Cons b bs)
  then have "a \<notin> e_addr ` set b" and "a \<notin> e_addr ` set (concat bs)" by auto
  with Cons.IH show ?case by (simp add: dropWhile_addr del: set_concat)
qed simp

lemma chain_from_split:
  assumes "hash_ok self" and "i < length (h_entries self)" and b: "h_entries self ! i = xs @ e # ys"
  shows "chain_from self (e_addr e) = e # ys"
proof -
  let ?l = "take i (h_entries self)" and ?r = "drop (Suc i) (h_entries self)" and ?a = "e_addr e"
  have s: "h_entries self = ?l @ (xs @ e # ys) # ?r"
    using id_take_nth_drop [OF assms(2)] b by simp
  have "distinct (map e_addr (concat (?l @ (xs @ e # ys) # ?r)))"
    using assms(1) s by (metis hash_ok_def)
  then have d: "?a \<notin> e_addr ` set (concat ?l)" "?a \<notin> e_addr ` set (concat ?r)" "?a \<notin> e_addr ` set xs"
    by (auto simp del: set_concat)
  have "\<forall>x \<in> set xs. e_addr x \<noteq> ?a" using d(3) by (metis imageI)
  then have x: "dropWhile (\<lambda>x. e_addr x \<noteq> ?a) (xs @ e # ys) = e # ys"
    by (simp add: dropWhile_append3)
  have "chain_from self ?a = concat (map (dropWhile (\<lambda>e. e_addr e \<noteq> ?a)) (?l @ (xs @ e # ys) # ?r))"
    unfolding chain_from_def by (subst s) (rule refl)
  also have "\<dots> = e # ys"
    using concat_dropWhile_none [OF d(1)] concat_dropWhile_none [OF d(2)] x by (simp del: concat_eq_Nil_conv)
  finally show ?thesis .
qed

lemma scan_buckets_ok:
  assumes "i < length bs"
  shows "\<exists>j p. scan_buckets (length bs) bs i None = Inr (j, p) \<and> i \<le> j \<and> j < length bs \<and>
    (case p of
       None \<Rightarrow> concat (drop (Suc i) bs) = [] \<and> concat (drop (Suc j) bs) = []
     | Some a \<Rightarrow> \<exists>e es. bs ! j = e # es \<and> a = e_addr e \<and>
         concat (drop (Suc i) bs) = (e # es) @ concat (drop (Suc j) bs))"
  using assms
proof (induction "length bs - i" arbitrary: i rule: less_induct)
  case less
  show ?case
  proof (cases "Suc i < length bs")
    case False
    then have "drop (Suc i) bs = []" by simp
    with False less.prems show ?thesis
      by (subst scan_buckets.simps) (auto intro!: exI [of _ i])
  next
    case True
    have dr: "drop (Suc i) bs = bs ! Suc i # drop (Suc (Suc i)) bs"
      using True by (simp add: Cons_nth_drop_Suc)
    show ?thesis
    proof (cases "bs ! Suc i")
      case Nil
      have lt: "length bs - Suc i < length bs - i" using True by simp
      from less.hyps [OF lt True] obtain j p where "scan_buckets (length bs) bs (Suc i) None = Inr (j, p)" "Suc i \<le> j" "j < length bs"
        "case p of
           None \<Rightarrow> concat (drop (Suc (Suc i)) bs) = [] \<and> concat (drop (Suc j) bs) = []
         | Some a \<Rightarrow> \<exists>e es. bs ! j = e # es \<and> a = e_addr e \<and>
             concat (drop (Suc (Suc i)) bs) = (e # es) @ concat (drop (Suc j) bs)"
        by blast
      moreover have "scan_buckets (length bs) bs i None = scan_buckets (length bs) bs (Suc i) None"
        using True Nil by (subst scan_buckets.simps) (simp add: at_def head_entry_def less_diff_conv)
      moreover have "concat (drop (Suc i) bs) = concat (drop (Suc (Suc i)) bs)"
        using dr Nil by simp
      ultimately show ?thesis
        by (intro exI [of _ j] exI [of _ p]) (cases p; simp)
    next
      case (Cons e es)
      then show ?thesis
        using True dr
        by (subst scan_buckets.simps, subst scan_buckets.simps)
          (auto simp: at_def head_entry_def less_diff_conv intro!: exI [of _ "Suc i"])
    qed
  qed
qed

lemma chain_head:
  assumes "hash_ok self" and "i < length (h_entries self)" and "h_entries self ! i = xs @ ys"
  shows "(case head_entry ys of None \<Rightarrow> [] | Some a \<Rightarrow> chain_from self a) = ys"
  using chain_from_split [OF assms(1,2), of xs] assms(3) by (cases ys) (auto simp: head_entry_def)

lemma cursor_update:
  "hash_ok (self\<lparr>h_cursor_index := j, h_cursor_entry := p, h_cursor_key := k\<rparr>) = hash_ok self"
  "hash_ok (self\<lparr>h_cursor_index := j, h_cursor_entry := p\<rparr>) = hash_ok self"
  "chain_from (self\<lparr>h_cursor_index := j, h_cursor_entry := p\<rparr>) = chain_from self"
proof -
  have *: "hash_ok s = hash_ok self"
    if "h_entries s = h_entries self" "h_prime_index s = h_prime_index self" "h_length s = h_length self"
      "h_next_addr s = h_next_addr self" "h_hash_fn s = h_hash_fn self" "h_key_equal_fn s = h_key_equal_fn self"
      "h_key_address s = h_key_address self" for s
    using that key_slot_cong [of s self] hash_key_equal_cong [of s self]
    by (simp add: hash_ok_def placed_def)
  show "hash_ok (self\<lparr>h_cursor_index := j, h_cursor_entry := p, h_cursor_key := k\<rparr>) = hash_ok self"
    "hash_ok (self\<lparr>h_cursor_index := j, h_cursor_entry := p\<rparr>) = hash_ok self"
    by (rule *; simp)+
  show "chain_from (self\<lparr>h_cursor_index := j, h_cursor_entry := p\<rparr>) = chain_from self"
    by (simp add: fun_eq_iff chain_from_def)
qed

text \<open>Each step visits the next entry of the table, until there is none.\<close>

lemma hash_next_ok:
  assumes ok: "hash_ok self" and c: "cursor_ok self"
  shows "\<exists>self'. hash_next self = Inr (case remaining self of [] \<Rightarrow> None | e # _ \<Rightarrow> e_value e, self') \<and>
    hash_ok self' \<and> cursor_ok self' \<and> remaining self' = tl (remaining self) \<and>
    h_entries self' = h_entries self"
proof -
  let ?bs = "h_entries self" and ?i = "h_cursor_index self"
  have p: "h_prime_index self < 60" and len: "unat (hash_primes ! h_prime_index self) = length ?bs"
    using ok by (simp_all add: hash_ok_def)
  have visit: "\<exists>self'. hash_next self = Inr (e_value e, self') \<and> hash_ok self' \<and> cursor_ok self' \<and>
      remaining self' = es @ concat (drop (Suc j) ?bs) \<and> h_entries self' = ?bs"
    if scan: "scan_buckets (length ?bs) ?bs ?i (h_cursor_entry self) = Inr (j, Some (e_addr e))"
      and j: "j < length ?bs" and b: "?bs ! j = xs @ e # es" for j xs e es
  proof -
    let ?s = "self\<lparr>h_cursor_index := j, h_cursor_entry := Some (e_addr e)\<rparr>"
    let ?r = "self\<lparr>h_cursor_index := j, h_cursor_entry := head_entry es, h_cursor_key := Some (e_key e)\<rparr>"
    have "chain_from self (e_addr e) = e # es"
      using ok j b by (rule chain_from_split)
    then have "hash_next self = Inr (e_value e, ?r)"
      using scan p len by (simp add: hash_next_def at_def length_hash_primes Let_def cursor_update)
    moreover have "cursor_ok ?r"
      using j b by (cases es) (auto simp: cursor_ok_def head_entry_def)
    moreover have "remaining ?r = es @ concat (drop (Suc j) ?bs)"
      using chain_head [OF ok j, of "xs @ [e]" es] b
      by (cases "head_entry es") (simp_all add: remaining_def chain_from_def)
    ultimately show ?thesis using ok by (auto simp: cursor_update)
  qed
  show ?thesis
  proof (cases "h_cursor_entry self")
    case (Some a)
    then obtain e where "e \<in> set (?bs ! ?i)" "a = e_addr e"
      using c by (auto simp: cursor_ok_def)
    then obtain xs ys where b: "?bs ! ?i = xs @ e # ys" by (meson split_list)
    have i: "?i < length ?bs" using c by (simp add: cursor_ok_def)
    have "remaining self = e # ys @ concat (drop (Suc ?i) ?bs)"
      using chain_from_split [OF ok i b] Some \<open>a = e_addr e\<close> by (simp add: remaining_def)
    moreover have "scan_buckets (length ?bs) ?bs ?i (h_cursor_entry self) = Inr (?i, Some (e_addr e))"
      using Some \<open>a = e_addr e\<close> by (subst scan_buckets.simps) simp
    ultimately show ?thesis using visit [OF _ i b] by simp
  next
    case None
    have i: "?i < length ?bs" using c by (simp add: cursor_ok_def)
    have rem: "remaining self = concat (drop (Suc ?i) ?bs)" using None by (simp add: remaining_def)
    obtain j q where sc: "scan_buckets (length ?bs) ?bs ?i None = Inr (j, q)" "j < length ?bs"
        "case q of
           None \<Rightarrow> concat (drop (Suc ?i) ?bs) = [] \<and> concat (drop (Suc j) ?bs) = []
         | Some a \<Rightarrow> \<exists>e es. ?bs ! j = e # es \<and> a = e_addr e \<and>
             concat (drop (Suc ?i) ?bs) = (e # es) @ concat (drop (Suc j) ?bs)"
      using scan_buckets_ok [OF i] by blast
    show ?thesis
    proof (cases q)
      case q: None
      let ?r = "self\<lparr>h_cursor_index := j, h_cursor_entry := None\<rparr>"
      have "hash_next self = Inr (None, ?r)"
        using sc q None p len by (simp add: hash_next_def at_def length_hash_primes Let_def)
      moreover have "remaining self = []" "concat (drop (Suc j) ?bs) = []"
        using sc(3) q rem by simp_all
      moreover have "remaining ?r = []"
        using sc(3) q by (simp add: remaining_def)
      moreover have "cursor_ok ?r"
        using sc(2) by (simp add: cursor_ok_def)
      ultimately show ?thesis
        using ok by (auto simp: cursor_update)
    next
      case (Some a)
      then obtain e es where e: "?bs ! j = [] @ e # es" "a = e_addr e"
          "concat (drop (Suc ?i) ?bs) = (e # es) @ concat (drop (Suc j) ?bs)"
        using sc(3) by auto
      show ?thesis
        using visit [OF _ sc(2) e(1)] sc(1) Some e(2,3) None rem by simp
    qed
  qed
qed

lemma hash_first_ok:
  assumes ok: "hash_ok self"
  shows "\<exists>self'. hash_first self = Inr (case concat (h_entries self) of [] \<Rightarrow> None | e # _ \<Rightarrow> e_value e, self') \<and>
    hash_ok self' \<and> cursor_ok self' \<and> remaining self' = tl (concat (h_entries self)) \<and>
    h_entries self' = h_entries self"
proof -
  let ?s = "self\<lparr>h_cursor_index := 0, h_cursor_entry := head_entry (h_entries self ! 0)\<rparr>"
  have lt: "0 < length (h_entries self)"
    using ok hash_primes_nth by (simp add: hash_ok_def)
  have "drop 0 (h_entries self) = h_entries self ! 0 # drop (Suc 0) (h_entries self)"
    using lt by (simp only: Cons_nth_drop_Suc)
  then have cc: "concat (h_entries self) = h_entries self ! 0 @ concat (drop (Suc 0) (h_entries self))"
    by (metis concat.simps(2) drop0)
  have "remaining ?s = concat (h_entries self)"
    unfolding cc using chain_head [OF ok lt, of "[]"] by (simp add: remaining_def cursor_update cong: option.case_cong)
  moreover have "cursor_ok ?s"
    using lt by (cases "h_entries self ! 0") (auto simp: cursor_ok_def head_entry_def)
  ultimately show ?thesis
    using hash_next_ok [of ?s] ok lt by (simp add: hash_first_def at_def cursor_update)
qed

lemma value_list_loop_ok:
  assumes "hash_ok self" and "cursor_ok self" and "list_rep out xs"
    and "\<forall>e \<in> set (remaining self). e_value e \<noteq> None"
  shows "\<exists>out' self' self0. hash_next self = Inr (case remaining self of [] \<Rightarrow> None | e # _ \<Rightarrow> e_value e, self0) \<and>
    value_list_loop (case remaining self of [] \<Rightarrow> None | e # _ \<Rightarrow> e_value e) self0 out = Some (Inr (out', self')) \<and>
    list_rep out' (xs @ map e_value (remaining self)) \<and> h_entries self' = h_entries self"
  using assms
proof (induction "remaining self" arbitrary: self out xs)
  case Nil
  from hash_next_ok [OF Nil.prems(1,2)] obtain self0 where
    "hash_next self = Inr (None, self0)" "h_entries self0 = h_entries self"
    using Nil.hyps by auto
  with Nil show ?case by (subst value_list_loop.simps) (auto simp flip: Nil.hyps)
next
  case (Cons e es)
  obtain s where s: "hash_next self = Inr (e_value e, s)" "hash_ok s" "cursor_ok s" "remaining s = es"
      "h_entries s = h_entries self"
    using hash_next_ok [OF Cons.prems(1,2)] by (auto simp flip: Cons.hyps(2))
  have ne: "e_value e \<noteq> None" and ne': "\<forall>e \<in> set (remaining s). e_value e \<noteq> None"
    using Cons.prems(4) s(4) by (simp_all flip: Cons.hyps(2))
  obtain out1 where o: "list_push out (e_value e) = Inr out1" "list_rep out1 (xs @ [e_value e])"
    using list_push_rep [OF Cons.prems(3)] by blast
  obtain out' self' self0 where r: "hash_next s = Inr (case remaining s of [] \<Rightarrow> None | e # _ \<Rightarrow> e_value e, self0)"
      "value_list_loop (case remaining s of [] \<Rightarrow> None | e # _ \<Rightarrow> e_value e) self0 out1 = Some (Inr (out', self'))"
      "list_rep out' ((xs @ [e_value e]) @ map e_value (remaining s))" "h_entries self' = h_entries s"
    using Cons.hyps(1) [OF s(4) [symmetric] s(2,3) o(2) ne'] by blast
  have "value_list_loop (e_value e) s out = Some (Inr (out', self'))"
    using o(1) r(1,2) ne by (subst value_list_loop.simps) (auto split: option.splits)
  then show ?case
    using s r(3,4) by (auto simp flip: Cons.hyps(2))
qed

text \<open>The values of a table without NULLs, in the order of the buckets.\<close>

lemma hash_value_list_ok:
  assumes ok: "hash_ok self" and ne: "\<forall>e \<in> set (concat (h_entries self)). e_value e \<noteq> None"
  shows "\<exists>out self'. hash_value_list self = Some (Inr (out, self')) \<and>
    list_rep out (map e_value (concat (h_entries self))) \<and> h_entries self' = h_entries self"
proof -
  let ?s = "self\<lparr>h_cursor_index := 0, h_cursor_entry := head_entry (h_entries self ! 0)\<rparr>"
  have lt: "0 < length (h_entries self)"
    using ok hash_primes_nth by (simp add: hash_ok_def)
  have "drop 0 (h_entries self) = h_entries self ! 0 # drop (Suc 0) (h_entries self)"
    using lt by (simp only: Cons_nth_drop_Suc)
  then have cc: "concat (h_entries self) = h_entries self ! 0 @ concat (drop (Suc 0) (h_entries self))"
    by (metis concat.simps(2) drop0)
  have r: "remaining ?s = concat (h_entries self)"
    unfolding cc using chain_head [OF ok lt, of "[]"] by (simp add: remaining_def cursor_update cong: option.case_cong)
  have c: "cursor_ok ?s"
    using lt by (cases "h_entries self ! 0") (auto simp: cursor_ok_def head_entry_def)
  have f: "hash_first self = hash_next ?s"
    using lt by (simp add: hash_first_def at_def)
  have "hash_ok ?s" using ok by (simp add: cursor_update)
  from value_list_loop_ok [OF this c list_rep_new] ne show ?thesis
    unfolding r by (auto simp: hash_value_list_def f)
qed

section \<open>The dictionary\<close>

text \<open>
  What the clients of a table rely on. \<open>room\<close> is what an insertion needs of the table.
\<close>

locale dictionary =
  fixes ok :: "'s \<Rightarrow> bool"
    and room :: "'s \<Rightarrow> bool"
    and lookup :: "'s \<Rightarrow> 'k \<rightharpoonup> 'v option"
    and get :: "'s \<Rightarrow> 'k \<Rightarrow> 'v option res"
    and add :: "'s \<Rightarrow> 'k \<Rightarrow> 'v option \<Rightarrow> (bool \<times> 's) res"
    and put :: "'s \<Rightarrow> 'k \<Rightarrow> 'v option \<Rightarrow> ('d \<times> 's) res"
    and delete :: "'s \<Rightarrow> 'k \<Rightarrow> (bool \<times> 'd \<times> 's) res"
  assumes get_law: "ok s \<Longrightarrow> get s k = Inr (case lookup s k of None \<Rightarrow> None | Some v \<Rightarrow> v)"
    and add_law: "ok s \<Longrightarrow> room s \<Longrightarrow> \<exists>s'. add s k v = Inr (lookup s k = None, s') \<and> ok s' \<and>
      lookup s' = (if lookup s k = None then (lookup s)(k \<mapsto> v) else lookup s)"
    and put_law: "ok s \<Longrightarrow> room s \<Longrightarrow> \<exists>d s'. put s k v = Inr (d, s') \<and> ok s' \<and> lookup s' = (lookup s)(k \<mapsto> v)"
    and delete_law: "ok s \<Longrightarrow> \<exists>d s'. delete s k = Inr (lookup s k \<noteq> None, d, s') \<and> ok s' \<and>
      lookup s' = (lookup s)(k := None)"
begin

text \<open>The value put under a key is the one got, and other keys keep theirs.\<close>

lemma get_put:
  assumes "ok s" and "room s"
  shows "\<exists>d s'. put s k v = Inr (d, s') \<and> get s' j = (if j = k then Inr v else get s j)"
  using put_law [OF assms, of k v] get_law [OF assms(1), of j] get_law by fastforce

lemma get_add:
  assumes "ok s" and "room s" and "lookup s k = None"
  shows "\<exists>s'. add s k v = Inr (True, s') \<and> get s' j = (if j = k then Inr v else get s j)"
  using add_law [OF assms(1,2), of k v] assms(3) get_law [OF assms(1), of j] get_law by fastforce

text \<open>Adding a key that is there changes nothing.\<close>

lemma get_add_present:
  assumes "ok s" and "room s" and "lookup s k \<noteq> None"
  shows "\<exists>s'. add s k v = Inr (False, s') \<and> get s' j = get s j"
  using add_law [OF assms(1,2), of k v] assms(3) get_law [OF assms(1), of j] get_law by fastforce

lemma get_delete:
  assumes "ok s"
  shows "\<exists>b d s'. delete s k = Inr (b, d, s') \<and> get s' j = (if j = k then Inr None else get s j)"
  using delete_law [OF assms, of k] get_law [OF assms, of j] get_law by fastforce

lemma delete_after_put:
  assumes "ok s" and "room s"
  shows "\<exists>d s' d' s''. put s k v = Inr (d, s') \<and> delete s' k = Inr (True, d', s'') \<and>
    lookup s'' = (lookup s)(k := None)"
proof -
  obtain d s' where "put s k v = Inr (d, s')" "ok s'" "lookup s' = (lookup s)(k \<mapsto> v)"
    using put_law [OF assms] by blast
  with delete_law [of s' k] show ?thesis by auto
qed

end

definition hash_room :: "('k, 'v) hash \<Rightarrow> bool" where
  "hash_room self \<longleftrightarrow> h_prime_index self < 59"

interpretation table: dictionary hash_ok hash_room hash_lookup hash_get hash_set hash_put hash_delete
proof unfold_locales
  fix s :: "('k, 'v) hash" and k v
  assume ok: "hash_ok s"
  show "hash_get s k = Inr (case hash_lookup s k of None \<Rightarrow> None | Some v \<Rightarrow> v)"
    by (rule hash_get_lookup(1) [OF ok])
  show "\<exists>d s'. hash_delete s k = Inr (hash_lookup s k \<noteq> None, d, s') \<and> hash_ok s' \<and>
      hash_lookup s' = (hash_lookup s)(k := None)"
    by (rule hash_delete_ok [OF ok])
  show "\<exists>s'. hash_set s k v = Inr (hash_lookup s k = None, s') \<and> hash_ok s' \<and>
      hash_lookup s' = (if hash_lookup s k = None then (hash_lookup s)(k \<mapsto> v) else hash_lookup s)"
    if "hash_room s"
    using hash_set_ok [OF ok, of k v] that by (simp add: hash_room_def)
  show "\<exists>d s'. hash_put s k v = Inr (d, s') \<and> hash_ok s' \<and> hash_lookup s' = (hash_lookup s)(k \<mapsto> v)"
    if "hash_room s"
    using hash_put_ok [OF ok, of k v] that by (simp add: hash_room_def)
qed

section \<open>The count of used buckets\<close>

text \<open>
  Deleting the head of a chain decrements \<open>used_indexes_size\<close> although the bucket may stay in
  use. After two keys of one bucket are deleted, newest first, the count has gone below zero and
  the empty table counts as overloaded.
\<close>

definition two_deletes :: "(nat, nat) hash res" where
  "two_deletes =
     bnd (hash_set (hash_new of_nat) 13 (Some 1)) (\<lambda>(_, self).
     bnd (hash_set self 0 (Some 2)) (\<lambda>(_, self).
     bnd (hash_delete self 0) (\<lambda>(_, _, self).
     bnd (hash_delete self 13) (\<lambda>(_, _, self). Inr self))))"

lemma used_indexes_underflow:
  "bnd two_deletes (\<lambda>self. Inr (hash_length self, h_used_indexes_size self, hash_is_overload self)) =
     Inr (0, - 1, Inr True)"
  by code_simp

end
