(* ===== verification/Worker_Objects.thy ===== *)
theory Worker_Objects
  imports Node_Pattern Stack Ring_Queue Hash_Table Scheduler
begin

text \<open>
  The tabulates and maps of a \<open>machine\<close> stand for objects of \<open>packages/std\<close>: the value stack for a
  \<open>stack_t\<close>, the queue of tasks for a \<open>queue_t\<close>, the names of the module for a \<open>hash_t\<close>. Here the
  operations of the worker on the tabulates are related to what the code calls on the objects.
\<close>

section \<open>A bounded queue\<close>

text \<open>What the worker relies on: values come out in order, and a full queue refuses.\<close>

locale bounded_queue =
  fixes rep :: "'q \<Rightarrow> 'a option list \<Rightarrow> bool"
    and capacity :: "'q \<Rightarrow> nat"
    and push_back :: "'q \<Rightarrow> 'a option \<Rightarrow> (bool \<times> 'q) res"
    and pop_front :: "'q \<Rightarrow> ('a option \<times> 'q) res"
  assumes push_law: "rep q xs \<Longrightarrow> \<exists>q'. push_back q v = Inr (length xs < capacity q, q') \<and>
      rep q' (if length xs < capacity q then xs @ [v] else xs) \<and> capacity q' = capacity q"
    and pop_law: "rep q xs \<Longrightarrow> \<exists>q'. pop_front q = Inr (case xs of [] \<Rightarrow> None | x # _ \<Rightarrow> x, q') \<and>
      rep q' (tl xs) \<and> capacity q' = capacity q"
    and within: "rep q xs \<Longrightarrow> length xs \<le> capacity q"
begin

text \<open>The code ignores the answer of \<open>push_back\<close>; a list to which is appended only below the capacity is the same.\<close>

definition holds :: "'q \<Rightarrow> nat \<Rightarrow> 'a list \<Rightarrow> bool" where
  "holds q n ts \<longleftrightarrow> rep q (map Some ts) \<and> capacity q = n"

lemma push_holds:
  assumes "holds q n ts"
  shows "\<exists>b q'. push_back q (Some t) = Inr (b, q') \<and> holds q' n (if length ts = n then ts else ts @ [t])"
proof -
  have "length ts \<le> n" using within [of q "map Some ts"] assms by (simp add: holds_def)
  then show ?thesis
    using push_law [of q "map Some ts" "Some t"] assms by (auto simp: holds_def split: if_splits)
qed

lemma pop_holds:
  assumes "holds q n ts"
  shows "\<exists>q'. pop_front q = Inr (case ts of [] \<Rightarrow> None | t # _ \<Rightarrow> Some t, q') \<and> holds q' n (tl ts)"
  using pop_law [of q "map Some ts"] assms by (cases ts) (auto simp: holds_def)

end

lemma queue_rep_within: "queue_rep q xs \<Longrightarrow> length xs \<le> unat (queue_size q)"
  by (auto simp: queue_rep_def ring_def in_flight_def queue_size_def unat_exp_64)

interpretation tasks: bounded_queue queue_rep "\<lambda>q. unat (queue_size q)" queue_push_back queue_pop_front
proof unfold_locales
  fix q :: "'a queue" and xs v
  assume q: "queue_rep q xs"
  show "\<exists>q'. queue_push_back q v = Inr (length xs < unat (queue_size q), q') \<and>
      queue_rep q' (if length xs < unat (queue_size q) then xs @ [v] else xs) \<and>
      unat (queue_size q') = unat (queue_size q)"
    using queue_push_back_rep [OF q, of v] by auto
  show "\<exists>q'. queue_pop_front q = Inr (case xs of [] \<Rightarrow> None | x # _ \<Rightarrow> x, q') \<and> queue_rep q' (tl xs) \<and>
      unat (queue_size q') = unat (queue_size q)"
    using queue_pop_front_rep [OF q] by auto
  show "length xs \<le> unat (queue_size q)" by (rule queue_rep_within [OF q])
qed

section \<open>A stack of values and a table of names\<close>

text \<open>A value in a container is a pointer; NULL is no value.\<close>

definition ptr :: "val \<Rightarrow> val option" where
  "ptr v = (if v = VNull then None else Some v)"

locale worker_stack = value_stack_interface ok elements push pop
  for ok :: "'s \<Rightarrow> bool" and elements :: "'s \<Rightarrow> val option list"
    and push :: "'s \<Rightarrow> val option \<Rightarrow> 's res" and pop :: "'s \<Rightarrow> (val option \<times> 's) res"
begin

definition carries :: "'s \<Rightarrow> val list \<Rightarrow> bool" where
  "carries s vs \<longleftrightarrow> ok s \<and> elements s = map ptr vs"

lemma push_carries: "carries s vs \<Longrightarrow> \<exists>s'. push s (ptr v) = Inr s' \<and> carries s' (v # vs)"
  using push_elements [of s "ptr v"] by (auto simp: carries_def)

lemma pop_carries_nil: "carries s [] \<Longrightarrow> pop s = Inl Assert_failed"
  using pop_nil [of s] by (simp add: carries_def)

lemma pop_carries: "carries s (v # vs) \<Longrightarrow> \<exists>s'. pop s = Inr (ptr v, s') \<and> carries s' vs"
  using pop_cons [of s "ptr v" "map ptr vs"] by (auto simp: carries_def)

end

interpretation vstack: worker_stack stack_wf stack_elements stack_push stack_pop
  by unfold_locales

locale name_table = dictionary ok room lookup get add put delete
  for ok :: "'s \<Rightarrow> bool" and room :: "'s \<Rightarrow> bool" and lookup :: "'s \<Rightarrow> string \<rightharpoonup> val option"
    and get :: "'s \<Rightarrow> string \<Rightarrow> val option res" and add :: "'s \<Rightarrow> string \<Rightarrow> val option \<Rightarrow> (bool \<times> 's) res"
    and put :: "'s \<Rightarrow> string \<Rightarrow> val option \<Rightarrow> ('d \<times> 's) res"
    and delete :: "'s \<Rightarrow> string \<Rightarrow> (bool \<times> 'd \<times> 's) res"
begin

definition tabulates :: "'s \<Rightarrow> (string \<rightharpoonup> val) \<Rightarrow> bool" where
  "tabulates s h \<longleftrightarrow> ok s \<and> lookup s = (\<lambda>name. map_option ptr (h name))"

lemma get_tabulates: "tabulates s h \<Longrightarrow> get s name = Inr (ptr (case h name of None \<Rightarrow> VNull | Some v \<Rightarrow> v))"
  using get_law [of s name] by (simp add: tabulates_def ptr_def split: option.split)

lemma add_tabulates:
  assumes "tabulates s h" "room s"
  shows "\<exists>s'. add s name (ptr v) = Inr (h name = None, s') \<and>
     tabulates s' (if h name = None then h(name \<mapsto> v) else h)"
  using add_law [of s name "ptr v"] assms by (auto simp: tabulates_def fun_eq_iff)

end

interpretation modnames: name_table hash_ok hash_room hash_lookup hash_get hash_set hash_put hash_delete
  by unfold_locales

section \<open>The objects of a worker\<close>

record worker_objects =
  value_stack_object :: "val stack_t"
  task_queue_object :: "task queue"
  value_hash_object :: "(string, val) hash"

definition stands_for :: "worker_objects \<Rightarrow> machine \<Rightarrow> bool" where
  "stands_for r m \<longleftrightarrow>
     vstack.carries (value_stack_object r) (value_stack m) \<and>
     tasks.holds (task_queue_object r) (task_queue_size m) (task_queue m) \<and>
     modnames.tabulates (value_hash_object r) (value_hash m)"

text \<open>The calls that the code makes on them, the answer of \<open>queue_push_back\<close> ignored.\<close>

definition object_push :: "val \<Rightarrow> worker_objects \<Rightarrow> worker_objects res" where
  "object_push v r = bnd (stack_push (value_stack_object r) (ptr v)) (\<lambda>s. Inr (r\<lparr>value_stack_object := s\<rparr>))"

definition object_pop :: "worker_objects \<Rightarrow> (val option \<times> worker_objects) res" where
  "object_pop r = bnd (stack_pop (value_stack_object r)) (\<lambda>(v, s). Inr (v, r\<lparr>value_stack_object := s\<rparr>))"

definition object_add_task :: "task \<Rightarrow> worker_objects \<Rightarrow> worker_objects res" where
  "object_add_task t r =
     bnd (queue_push_back (task_queue_object r) (Some t)) (\<lambda>(_, q). Inr (r\<lparr>task_queue_object := q\<rparr>))"

definition object_next_task :: "worker_objects \<Rightarrow> (task option \<times> worker_objects) res" where
  "object_next_task r =
     bnd (queue_pop_front (task_queue_object r)) (\<lambda>(t, q). Inr (t, r\<lparr>task_queue_object := q\<rparr>))"

definition object_define :: "string \<Rightarrow> val \<Rightarrow> worker_objects \<Rightarrow> worker_objects res" where
  "object_define name v r =
     bnd (hash_set (value_hash_object r) (string_copy name) (ptr v)) (\<lambda>(added, h).
       asserting added (Inr (r\<lparr>value_hash_object := h\<rparr>)))"

lemma push_follows: "stands_for r m \<Longrightarrow> \<exists>r'. object_push v r = Inr r' \<and> stands_for r' (worker_push v m)"
  using vstack.push_carries [of "value_stack_object r" "value_stack m" v]
  by (auto simp: stands_for_def object_push_def worker_push_def)

lemma pop_follows:
  assumes "stands_for r m"
  shows "case worker_pop m of
      Inl e \<Rightarrow> object_pop r = Inl e
    | Inr (v, m') \<Rightarrow> \<exists>r'. object_pop r = Inr (ptr v, r') \<and> stands_for r' m'"
proof (cases "value_stack m")
  case Nil
  then show ?thesis
    using assms vstack.pop_carries_nil by (simp add: stands_for_def object_pop_def worker_pop_def)
next
  case (Cons v vs)
  then show ?thesis
    using assms vstack.pop_carries [of "value_stack_object r" v vs]
    by (auto simp: stands_for_def object_pop_def worker_pop_def)
qed

lemma add_task_follows:
  assumes "stands_for r m"
  shows "\<exists>r'. object_add_task t r = Inr r' \<and> stands_for r' (worker_add_task t m)"
  using assms tasks.push_holds [of "task_queue_object r" "task_queue_size m" "task_queue m" t]
  by (auto simp: stands_for_def object_add_task_def worker_add_task_def Let_def)

lemma next_task_follows:
  assumes "stands_for r m"
  shows "\<exists>r'. object_next_task r = Inr (fst (worker_next_task m), r') \<and> stands_for r' (snd (worker_next_task m))"
  using assms tasks.pop_holds [of "task_queue_object r" "task_queue_size m" "task_queue m"]
  by (cases "task_queue m") (auto simp: stands_for_def object_next_task_def worker_next_task_def)

lemma find_follows:
  "stands_for r m \<Longrightarrow> hash_get (value_hash_object r) name = Inr (ptr (mod_find m name))"
  using modnames.get_tabulates by (simp add: stands_for_def mod_find_def)

lemma define_follows:
  assumes "stands_for r m" "hash_room (value_hash_object r)"
  shows "case define_name name v m of
      Inl e \<Rightarrow> object_define name v r = Inl e
    | Inr m' \<Rightarrow> \<exists>r'. object_define name v r = Inr r' \<and> stands_for r' m'"
  using assms modnames.add_tabulates [of "value_hash_object r" "value_hash m" name v]
  by (cases "value_hash m name") (auto simp: stands_for_def object_define_def define_name_def string_copy_def)

text \<open>\<open>worker_tuck_n\<close> is what \<open>stack_tuck_n\<close> does.\<close>

lemma tuck_follows:
  assumes "stands_for r m"
  shows "case worker_tuck_n v n m of
      Inl e \<Rightarrow> stack_tuck_n (value_stack_object r) (ptr v) n = Some (Inl e)
    | Inr m' \<Rightarrow> \<exists>s. stack_tuck_n (value_stack_object r) (ptr v) n = Some (Inr s) \<and>
        stands_for (r\<lparr>value_stack_object := s\<rparr>) m'"
proof -
  let ?vs = "value_stack m"
  have wf: "stack_wf (value_stack_object r)" and el: "stack_elements (value_stack_object r) = map ptr ?vs"
    using assms by (simp_all add: stands_for_def vstack.carries_def)
  have null: "None \<in> set (map ptr vs) \<longleftrightarrow> VNull \<in> set vs" for vs
    by (auto simp: ptr_def image_iff split: if_splits)
  show ?thesis
  proof (cases "n \<le> length ?vs \<and> VNull \<notin> set (take n ?vs)")
    case True
    have "stack_elements (value_stack_object r) = map ptr (take n ?vs) @ map ptr (drop n ?vs)"
      by (simp add: el flip: map_append)
    moreover have "None \<notin> set (map ptr (take n ?vs))" using True null by blast
    ultimately show ?thesis
      using stack_tuck_n_elements [of "value_stack_object r" "map ptr (take n ?vs)" "map ptr (drop n ?vs)" "ptr v"]
        wf True assms by (auto simp: stands_for_def vstack.carries_def worker_tuck_n_def)
  next
    case False
    then have "\<not> (n \<le> length (stack_elements (value_stack_object r)) \<and>
        None \<notin> set (take n (stack_elements (value_stack_object r))))"
      using null [of "take n ?vs"] by (simp add: el take_map)
    then have "stack_tuck_n (value_stack_object r) (ptr v) n = Some (Inl Assert_failed)"
      by (rule stack_tuck_n_fails [OF wf])
    then show ?thesis using False by (simp add: worker_tuck_n_def asserting_def)
  qed
qed

section \<open>A new worker\<close>

definition objects_new :: "worker_objects res" where
  "objects_new =
     bnd (queue_new (of_nat WORKER_TASK_QUEUE_SIZE)) (\<lambda>q.
       Inr \<lparr>value_stack_object = stack_new, task_queue_object = q, value_hash_object = hash_of_string_key\<rparr>)"

lemma objects_new_stand:
  "\<exists>r. objects_new = Inr r \<and> stands_for r (worker_new h alloc)"
proof -
  have size: "(of_nat WORKER_TASK_QUEUE_SIZE :: u64) = 2 ^ 20" by (simp add: WORKER_TASK_QUEUE_SIZE_def)
  obtain q :: "task queue" where q: "queue_new (2 ^ 20) = Inr q" "queue_rep q []" "queue_size q = 2 ^ 20"
    using queue_new_rep [of 20] by auto
  then have "tasks.holds q WORKER_TASK_QUEUE_SIZE []"
    by (simp add: tasks.holds_def WORKER_TASK_QUEUE_SIZE_def)
  moreover have "vstack.carries stack_new []"
    by (simp add: vstack.carries_def stack_new_ok)
  moreover have "modnames.tabulates hash_of_string_key Map.empty"
    using hash_of_string_key_ok by (auto simp: modnames.tabulates_def)
  ultimately show ?thesis
    unfolding objects_new_def size q(1) by (simp add: stands_for_def worker_new_def)
qed

section \<open>The queues of the scheduler\<close>

definition queues_stand :: "nat \<Rightarrow> 't queue list \<Rightarrow> 't scheduler \<Rightarrow> bool" where
  "queues_stand cap qs s \<longleftrightarrow> list_all2 (\<lambda>q ts. tasks.holds q cap ts) qs (queues s)"

lemma stand_update:
  assumes "queues_stand cap qs s" "tasks.holds q cap ts" "queues s' = (queues s)[w := ts]"
  shows "queues_stand cap (qs[w := q]) s'"
  using assms list_all2_update_cong by (fastforce simp: queues_stand_def)

lemma stand_nth: "queues_stand cap qs s \<Longrightarrow> w < length (queues s) \<Longrightarrow> tasks.holds (qs ! w) cap (queues s ! w)"
  by (simp add: queues_stand_def list_all2_conv_all_nth)

lemma push_queue_follows:
  assumes "queues_stand cap qs s" "w < length (queues s)"
  shows "\<exists>b q. queue_push_back (qs ! w) (Some t) = Inr (b, q) \<and> queues_stand cap (qs[w := q]) (push_queue cap w t s)"
proof -
  obtain b q where q: "queue_push_back (qs ! w) (Some t) = Inr (b, q)"
      "tasks.holds q cap (if length (queues s ! w) = cap then queues s ! w else queues s ! w @ [t])"
    using tasks.push_holds [OF stand_nth [OF assms]] by blast
  have "queues (push_queue cap w t s) =
      (queues s)[w := if length (queues s ! w) = cap then queues s ! w else queues s ! w @ [t]]"
    by (simp add: push_queue_def)
  from stand_update [OF assms(1) q(2) this] q(1) show ?thesis by blast
qed

lemma pop_queue_follows:
  assumes "queues_stand cap qs s" "w < length (queues s)"
  shows "\<exists>q. queue_pop_front (qs ! w) = Inr (fst (pop_queue w s), q) \<and>
     queues_stand cap (qs[w := q]) (snd (pop_queue w s))"
proof -
  obtain q where q: "queue_pop_front (qs ! w) = Inr (case queues s ! w of [] \<Rightarrow> None | t # _ \<Rightarrow> Some t, q)"
      "tasks.holds q cap (tl (queues s ! w))"
    using tasks.pop_holds [OF stand_nth [OF assms]] by blast
  have "queues (snd (pop_queue w s)) = (queues s)[w := tl (queues s ! w)]"
    using list_update_id [of "queues s" w] by (cases "queues s ! w") (simp_all add: pop_queue_def)
  moreover have "(case queues s ! w of [] \<Rightarrow> None | t # _ \<Rightarrow> Some t) = fst (pop_queue w s)"
    by (simp add: pop_queue_def split: list.split)
  ultimately show ?thesis
    using stand_update [OF assms(1) q(2), of "snd (pop_queue w s)" w] q(1) by auto
qed

end
