(* ===== verification/Node_Frames.thy ===== *)
theory Node_Frames
  imports Machine_Steps "HOL-Library.Multiset"
begin

text \<open>
  What building and taking apart a node do, and what they leave alone: connecting the ports of a node
  changes no other node (\<open>core/worker_reconnect_node.c\<close>), and taking an active pair apart
  (\<open>core/worker_disconnect_node.c\<close>, \<open>worker_handle_task.c\<close>) moves the ends of its two nodes to the value stack,
  frees their principal wires and gives the nodes back to the allocator.
\<close>

section \<open>Only one node changes\<close>

definition changes_only :: "nat \<Rightarrow> heap \<Rightarrow> heap \<Rightarrow> bool" where
  "changes_only n h h' \<longleftrightarrow>
     node_ctors h' = node_ctors h \<and> length (nodes h') = length (nodes h) \<and>
     (\<forall>k < length (nodes h). k \<noteq> n \<longrightarrow> nodes h' ! k = nodes h ! k)"

lemma changes_only_refl [simp]: "changes_only n h h"
  by (simp add: changes_only_def)

lemma changes_only_trans: "changes_only n h h' \<Longrightarrow> changes_only n h' h'' \<Longrightarrow> changes_only n h h''"
  by (simp add: changes_only_def)

lemma changes_only_nodes: "nodes h' = nodes h \<Longrightarrow> node_ctors h' = node_ctors h \<Longrightarrow> changes_only n h h'"
  by (simp add: changes_only_def)

lemma changes_only_set_node: "changes_only n h (set_node n x h)"
  by (simp add: changes_only_def set_node_def)

lemma changes_only_set_value: "node_set_value n i v h = Inr h' \<Longrightarrow> changes_only n h h'"
  using changes_only_set_node by (auto simp: node_set_value_def deref_eq_Inr)

lemma changes_only_set_oppsite: "set_oppsite a b h = Inr h' \<Longrightarrow> changes_only n h h'"
  by (auto simp: set_oppsite_def deref_eq_Inr intro: changes_only_nodes)

lemma changes_only_active_pair: "connect_active_pair a b h = Inr (t, h') \<Longrightarrow> changes_only n h h'"
  by (auto simp: connect_active_pair_def bnd_eq_Inr split: if_splits
      dest!: changes_only_set_oppsite [of _ _ _ _ n] intro: changes_only_trans)

lemma changes_only_collect:
  assumes "collect_primitive_arg a v h = Inr (t, h')" and "cell (principal_wires h) a = Some p"
  shows "changes_only (pw_node p) h h'"
proof -
  obtain h1 where h1: "node_set_value (pw_node p) (pw_index p) v (principal_wire_destroy a h) = Inr h1"
    and rest: "\<exists>c. node_primitive_arg_count_fetch_add1 (pw_node p) h1 = Inr (c, h')"
    using assms by (auto simp: collect_primitive_arg_def bnd_eq_Inr asserting_eq_Inr)
  have "changes_only (pw_node p) h (principal_wire_destroy a h)"
    by (rule changes_only_nodes) (simp_all add: principal_wire_destroy_def)
  moreover have "changes_only (pw_node p) (principal_wire_destroy a h) h1"
    using h1 by (rule changes_only_set_value)
  moreover have "changes_only (pw_node p) h1 h'"
    using rest changes_only_set_node by (auto simp: node_primitive_arg_count_fetch_add1_def deref_eq_Inr)
  ultimately show ?thesis by (blast intro: changes_only_trans)
qed

text \<open>
  Connecting a principal wire changes the node it belongs to and no other: another node would have to
  take an argument, and then both values would be principal wires.
\<close>

lemma changes_only_connect_principal:
  "connect x y h = Inr (t, h') \<Longrightarrow> x = VPrincipal a \<or> y = VPrincipal a \<Longrightarrow>
     cell (principal_wires h) a = Some p \<Longrightarrow> changes_only (pw_node p) h h'"
  "fuze w y h = Inr (t, h') \<Longrightarrow> y = VPrincipal a \<Longrightarrow> cell (principal_wires h) a = Some p \<Longrightarrow>
     changes_only (pw_node p) h h'"
proof (induction x y h and w y h rule: connect_fuze.induct)
  case (7 w v h)
  obtain f where f: "cell (wires h) w = Some f"
    using 7(2) by (auto simp: fuze.simps deref_eq_Inr)
  show ?case
  proof (cases "f = VNull")
    case True
    then show ?thesis
      using 7(2) f by (auto simp: fuze.simps set_fuzed_value_def intro: changes_only_nodes)
  next
    case False
    then have "connect f v (wire_destroy w h) = Inr (t, h')"
      using 7(2) f by (simp add: fuze.simps)
    then have "changes_only (pw_node p) (wire_destroy w h) h'"
      using 7(1) [OF f False] 7(3,4) by (simp add: wire_destroy_def)
    moreover have "changes_only (pw_node p) h (wire_destroy w h)"
      by (rule changes_only_nodes) (simp_all add: wire_destroy_def)
    ultimately show ?thesis by (blast intro: changes_only_trans)
  qed
qed (auto intro: changes_only_active_pair changes_only_collect)

lemma changes_only_fuze_new:
  "connect (VWire (length ws)) v h = Inr (t, h') \<Longrightarrow> wires h = ws @ [Some VNull] \<Longrightarrow> changes_only n h h'"
  by (auto simp: fuze.simps cell_append set_fuzed_value_def intro: changes_only_nodes)

lemma changes_only_reconnect_input:
  assumes "reconnect_input n i v h = Inr (t, h')"
  shows "changes_only n h h'"
proof -
  obtain info where info: "node_get_port_info h n i = Inr info"
    using assms by (auto simp: reconnect_input_def bnd_eq_Inr)
  let ?hp = "snd (principal_wire_new n i h)" and ?p = "length (principal_wires h)"
  let ?hw = "snd (wire_new h)" and ?w = "length (wires h)"
  have hp: "changes_only n h ?hp" and hw: "changes_only n h ?hw"
    by (auto simp: principal_wire_new_def wire_new_def intro: changes_only_nodes)
  consider (principal) h1 where "is_principal info" "node_set_value n i (VPrincipal ?p) ?hp = Inr h1"
      "connect (VPrincipal ?p) v h1 = Inr (t, h')"
    | (wire) h1 where "node_set_value n i (VWire ?w) ?hw = Inr h1" "connect (VWire ?w) v h1 = Inr (t, h')"
    | (stored) "node_set_value n i v h = Inr h'"
    using assms info
    by (auto simp: reconnect_input_def bnd_eq_Inr principal_wire_new_def wire_new_def Let_def split: if_splits)
  then show ?thesis
  proof cases
    case principal
    have "cell (principal_wires h1) ?p = Some \<lparr>pw_node = n, pw_index = i, pw_oppsite = None\<rparr>"
      using principal(2) by (auto simp: node_set_value_def deref_eq_Inr principal_wire_new_def cell_append)
    then have "changes_only n h1 h'"
      using changes_only_connect_principal(1) [OF principal(3)] by force
    with hp changes_only_set_value [OF principal(2)] show ?thesis by (blast intro: changes_only_trans)
  next
    case wire
    have "wires h1 = wires h @ [Some VNull]"
      using wire(1) by (auto simp: node_set_value_def deref_eq_Inr wire_new_def)
    then have "changes_only n h1 h'" using changes_only_fuze_new wire(2) by blast
    with hw changes_only_set_value [OF wire(1)] show ?thesis by (blast intro: changes_only_trans)
  next
    case stored
    then show ?thesis by (rule changes_only_set_value)
  qed
qed

lemma changes_only_reconnect_output:
  assumes "reconnect_output n i h = Inr (v, h')"
  shows "changes_only n h h'"
proof -
  have hp: "changes_only n h (snd (principal_wire_new n i h))" and hw: "changes_only n h (snd (wire_new h))"
    by (auto simp: principal_wire_new_def wire_new_def intro: changes_only_nodes)
  show ?thesis
    using assms changes_only_trans [OF hp changes_only_set_value] changes_only_trans [OF hw changes_only_set_value]
    by (auto simp: reconnect_output_def bnd_eq_Inr principal_wire_new_def wire_new_def Let_def split: if_splits)
qed

lemma changes_only_reconnect_inputs:
  "reconnect_inputs n k found vs h = Inr (t, vs', h') \<Longrightarrow> changes_only n h h'"
proof (induction n k found vs h rule: reconnect_inputs.induct)
  case (3 n i found v vs h)
  then obtain task h1 where h1: "reconnect_input n i v h = Inr (task, h1)"
    by (auto simp: bnd_eq_Inr)
  then have "changes_only n h1 h'"
    using 3 by (auto simp: asserting_eq_Inr split: if_splits)
  with changes_only_reconnect_input [OF h1] show ?case by (rule changes_only_trans)
qed simp_all

lemma changes_only_reconnect_outputs:
  "reconnect_outputs n i k vs h = Inr (vs', h') \<Longrightarrow> changes_only n h h'"
proof (induction n i k vs h rule: reconnect_outputs.induct)
  case (2 n i k vs h)
  then obtain v h1 where h1: "reconnect_output n i h = Inr (v, h1)" "reconnect_outputs n (Suc i) k (v # vs) h1 = Inr (vs', h')"
    by (auto simp: bnd_eq_Inr)
  have "changes_only n h1 h'" using 2(1) [OF h1(1) refl h1(2)] .
  with changes_only_reconnect_output [OF h1(1)] show ?case by (rule changes_only_trans)
qed simp

lemma reconnect_changes_only:
  assumes "worker_reconnect_node n arity m = Inr m'"
  shows "changes_only n (net m) (net m')"
  using assms changes_only_trans [OF changes_only_reconnect_inputs changes_only_reconnect_outputs]
  by (auto simp: worker_reconnect_node_def bnd_eq_Inr add_found_task_def worker_add_task_def Let_def
      split: option.splits)

text \<open>The arguments are taken from the stack, and the other ends of the output ports are pushed in order.\<close>

lemma reconnect_inputs_stack:
  "reconnect_inputs n k found vs h = Inr (t, vs', h') \<Longrightarrow> vs' = drop k vs"
proof (induction n k found vs h rule: reconnect_inputs.induct)
  case (3 n i found v vs h)
  then obtain task h1 where h1: "reconnect_input n i v h = Inr (task, h1)"
    by (auto simp: bnd_eq_Inr)
  then show ?case
    using 3 by (auto simp: asserting_eq_Inr split: if_splits)
qed simp_all

lemma set_value_port:
  "node_set_value n i v h = Inr h' \<Longrightarrow> port_value h' n j = (if j = i then v else port_value h n j)"
proof -
  assume run: "node_set_value n i v h = Inr h'"
  then have "n < length (nodes h)" by (auto simp: node_set_value_def deref_eq_Inr at_Some_iff)
  with run show ?thesis by (auto simp: node_set_value_with_port port_value_with_port)
qed

lemma reconnect_output_port:
  assumes "reconnect_output n i h = Inr (v, h')"
  shows "port_value h' n j = (if j = i then v else port_value h n j)"
proof -
  have "port_value (snd (principal_wire_new n i h)) n = port_value h n" "port_value (snd (wire_new h)) n = port_value h n"
    by (intro ext, simp add: port_value_def principal_wire_new_def wire_new_def)+
  then show ?thesis
    using assms by (auto simp: reconnect_output_def bnd_eq_Inr Let_def split: if_splits prod.splits
        dest!: set_value_port [where j = j])
qed

lemma reconnect_outputs_stack:
  "reconnect_outputs n i k vs h = Inr (vs', h') \<Longrightarrow>
     vs' = rev (map (port_value h' n) [i..<i + k]) @ vs \<and> (\<forall>j < i. port_value h' n j = port_value h n j)"
proof (induction n i k vs h rule: reconnect_outputs.induct)
  case (2 n i k vs h)
  then obtain v h1 where h1: "reconnect_output n i h = Inr (v, h1)" "reconnect_outputs n (Suc i) k (v # vs) h1 = Inr (vs', h')"
    by (auto simp: bnd_eq_Inr)
  have list: "[i..<i + Suc k] = i # [Suc i..<Suc i + k]" by (simp add: upt_conv_Cons)
  have IH: "vs' = rev (map (port_value h' n) [Suc i..<Suc i + k]) @ v # vs"
      "\<forall>j < Suc i. port_value h' n j = port_value h1 n j"
    using 2(1) [OF h1(1) refl h1(2)] by simp_all
  note port = reconnect_output_port [OF h1(1)]
  have "port_value h' n i = v" using IH(2) port [of i] by simp
  moreover have "\<forall>j < i. port_value h' n j = port_value h n j" using IH(2) port by simp
  ultimately show ?case unfolding list IH(1) by (simp del: upt_Suc)
qed simp

lemma reconnected_node:
  assumes ok: "net_ok (net m) (value_stack m @ R)" and vs: "VNull \<notin> set (value_stack m)"
    and n: "node_has (net m) n c" and empty: "\<forall>i. port_value (net m) n i = VNull"
  shows "safely (\<lambda>m'. net_ok (net m') (value_stack m' @ R) \<and> VNull \<notin> set (value_stack m') \<and>
      changes_only n (net m) (net m') \<and> node_complete (net m') n c \<and>
      value_stack m' = rev (map (port_value (net m') n) [arity..<ctor_arity (node_ctors (net m) ! c)]) @
        drop arity (value_stack m))
    (worker_reconnect_node n arity m)"
proof (cases "worker_reconnect_node n arity m")
  case (Inl e)
  then show ?thesis using net_ok_worker_reconnect_node [OF assms, of arity] by simp
next
  case (Inr m')
  obtain t vs1 h1 vs2 h2 d where run: "reconnect_inputs n arity None (value_stack m) (net m) = Inr (t, vs1, h1)"
      "ctor_of_node h1 n = Inr d" "reconnect_outputs n arity (ctor_arity d - arity) vs1 h1 = Inr (vs2, h2)"
    and m': "m' = add_found_task t (m\<lparr>net := h2, value_stack := vs2\<rparr>)"
    using Inr by (auto simp: worker_reconnect_node_def bnd_eq_Inr)
  have f: "fills n {..<arity} (net m) h1"
    using net_ok_reconnect_inputs [OF ok vs n, of arity None] empty run(1) by simp
  then have "d = node_ctors (net m) ! c"
    using ctor_of_node_has [OF fills_node_has [OF f n]] run(2) by (simp add: fills_def same_except_def)
  moreover from this have "arity + (ctor_arity d - arity) = ctor_arity (node_ctors (net m) ! c)"
    using reconnect_inputs_arity [OF run(1) net_ok_nodes_ok [OF ok] n] by simp
  ultimately have "value_stack m' = rev (map (port_value (net m') n) [arity..<ctor_arity (node_ctors (net m) ! c)]) @
      drop arity (value_stack m)"
    using reconnect_outputs_stack [OF run(3)] reconnect_inputs_stack [OF run(1)] by (simp add: m')
  then show ?thesis
    using net_ok_worker_reconnect_node [OF assms, of arity] reconnect_changes_only [OF Inr] Inr by simp
qed

section \<open>What taking a node apart leaves\<close>

text \<open>The ends of a node that are not principal, in the order of its ports.\<close>

definition other_ends :: "heap \<Rightarrow> nat \<Rightarrow> val list" where
  "other_ends h n =
     (case ctor_of_node h n of
        Inl e \<Rightarrow> []
      | Inr c \<Rightarrow> filter (\<lambda>v. \<not> is_principal_wire v) (map (port_value h n) [0..<ctor_arity c]))"

lemma get_value_port: "node_get_value h n i = Inr v \<Longrightarrow> v = port_value h n i"
  by (auto simp: node_get_value_def deref_eq_Inr at_Some_iff asserting_eq_Inr port_value_def)

lemma disconnect_ports_moves:
  "disconnect_ports n i k vs h = Inr (vs', h') \<Longrightarrow>
     vs' = rev (filter (\<lambda>v. \<not> is_principal_wire v) (map (port_value h n) [i..<i + k])) @ vs \<and>
     (\<forall>x. x \<in> VPrincipal -` (port_value h n ` {i..<i + k}) \<or> cell (principal_wires h) x = None \<longrightarrow>
        cell (principal_wires h') x = None)"
proof (induction k arbitrary: i vs h)
  case (Suc k)
  obtain v where v: "node_get_value h n i = Inr v" using Suc.prems by (auto simp: bnd_eq_Inr)
  note port = get_value_port [OF v]
  have list: "[i..<i + Suc k] = i # [Suc i..<Suc i + k]" and range: "{i..<i + Suc k} = insert i {Suc i..<Suc i + k}"
    by (auto simp: upt_conv_Cons)
  show ?case
  proof (cases "is_principal_wire v")
    case False
    then have run: "disconnect_ports n (Suc i) k (v # vs) h = Inr (vs', h')"
      using Suc.prems v by (auto simp: is_principal_wire_def split: val.splits)
    have "v \<noteq> VPrincipal x" "VPrincipal x \<noteq> v" for x using False by (auto simp: is_principal_wire_def)
    then show ?thesis
      using Suc.IH [OF run] False port unfolding list range by (auto simp del: upt_Suc)
  next
    case True
    then obtain p where p: "v = VPrincipal p" by (auto simp: is_principal_wire_def split: val.splits)
    let ?h = "principal_wire_destroy p h"
    have run: "disconnect_ports n (Suc i) k vs ?h = Inr (vs', h')"
      using Suc.prems v p by (auto simp: deref_eq_Inr)
    have "port_value ?h n = port_value h n"
      by (intro ext) (simp add: port_value_def principal_wire_destroy_def)
    moreover have "cell (principal_wires ?h) p = None"
      by (simp add: principal_wire_destroy_def cell_def)
    moreover have "cell (principal_wires ?h) x = None" if "cell (principal_wires h) x = None" for x
      using that by (simp add: principal_wire_destroy_def cell_update)
    moreover have "port_value h n i = VPrincipal p" using port p by simp
    ultimately show ?thesis
      using Suc.IH [OF run] unfolding list range by (auto simp: is_principal_wire_def simp del: upt_Suc)
  qed
qed auto

lemma spill_mset: "spill k shared stack = Inr (s, t) \<Longrightarrow> mset s + mset t = mset shared + mset stack"
  by (induction k shared stack rule: spill.induct) auto

lemma allocator_free_mset:
  "allocator_free self stack v = Inr (self', stack') \<Longrightarrow>
     mset (free_values self' stack') = add_mset v (mset (free_values self stack))"
  by (auto simp: allocator_free_def free_values_def bnd_eq_Inr dest: spill_mset split: if_splits)

text \<open>The nodes that this worker can take: those of the shared list and of its own.\<close>

definition spare_nodes :: "machine \<Rightarrow> nat multiset" where
  "spare_nodes m = mset (free_values (allocator_of (node_alloc m)) (free_node_stack m))"

lemma disconnect_node_moves:
  assumes "worker_disconnect_node n m = Inr m'"
  shows "value_stack m' = rev (other_ends (net m) n) @ value_stack m"
    and "spare_nodes m' = add_mset n (spare_nodes m)"
    and "cell (principal_wires (net m)) x = None \<Longrightarrow> cell (principal_wires (net m')) x = None"
    and "ctor_of_node (net m) n = Inr c \<Longrightarrow> i < ctor_arity c \<Longrightarrow> port_value (net m) n i = VPrincipal x \<Longrightarrow>
      cell (principal_wires (net m')) x = None"
proof -
  obtain d vs h where d: "ctor_of_node (net m) n = Inr d"
    and run: "disconnect_ports n 0 (ctor_arity d) (value_stack m) (net m) = Inr (vs, h)"
    and r: "worker_recycle_node n (m\<lparr>net := h, value_stack := vs\<rparr>) = Inr m'"
    using assms by (auto simp: worker_disconnect_node_def bnd_eq_Inr)
  note moves = disconnect_ports_moves [OF run]
  have m': "value_stack m' = vs" "principal_wires (net m') = principal_wires h"
      "spare_nodes m' = add_mset n (spare_nodes m)"
    using r allocator_free_mset
    by (auto simp: worker_recycle_node_def node_allocator_recycle_def allocator_recycle_def bnd_eq_Inr
        deref_eq_Inr spare_nodes_def)
  show "value_stack m' = rev (other_ends (net m) n) @ value_stack m"
    using moves d by (simp add: m' other_ends_def)
  show "spare_nodes m' = add_mset n (spare_nodes m)" by (rule m'(3))
  show "cell (principal_wires (net m')) x = None" if "cell (principal_wires (net m)) x = None"
    using moves that by (simp add: m')
  show "cell (principal_wires (net m')) x = None"
    if "ctor_of_node (net m) n = Inr c" "i < ctor_arity c" "port_value (net m) n i = VPrincipal x"
    using moves that d by (force simp: m')
qed

text \<open>The port of a principal wire is one of its node's.\<close>

lemma principal_port_within:
  assumes "net_ok h R" and "cell (principal_wires h) a = Some p" and "ctor_of_node h (pw_node p) = Inr c"
  shows "pw_index p < ctor_arity c \<and> port_value h (pw_node p) (pw_index p) = VPrincipal a"
proof -
  have placed: "pw_node p < length (nodes h)" "port_value h (pw_node p) (pw_index p) = VPrincipal a"
    using assms(1,2) by (auto simp: net_ok_def pw_placed_def port_value_def)
  then have "pw_index p < length (value_array (nodes h ! pw_node p))"
    by (auto simp: port_value_def slot_def split: if_splits)
  moreover have "node_ok (node_ctors h) (nodes h ! pw_node p)"
    using assms(1) placed(1) by (simp add: net_ok_def)
  ultimately show ?thesis
    using assms(3) placed by (auto simp: ctor_of_node_def deref_eq_Inr at_Some_iff node_ok_def)
qed

lemma pair_comes_apart:
  assumes ok: "machine_ok (hold (Task_active_pair left right rule) F) L m"
  shows "\<exists>m' p q. cell (principal_wires (net m)) left = Some p \<and> cell (principal_wires (net m)) right = Some q \<and>
    disconnect_pair left right m = Inr m' \<and> machine_ok F L m' \<and> return_stack m' = return_stack m \<and>
    value_stack m' = rev (other_ends (net m) (pw_node q)) @ rev (other_ends (net m) (pw_node p)) @ value_stack m \<and>
    cell (principal_wires (net m')) left = None \<and> cell (principal_wires (net m')) right = None \<and>
    spare_nodes m' = add_mset (pw_node q) (add_mset (pw_node p) (spare_nodes m)) \<and>
    (\<forall>k < length (nodes (net m)). k \<noteq> pw_node p \<and> k \<noteq> pw_node q \<longrightarrow> nodes (net m') ! k = nodes (net m) ! k)"
proof -
  obtain m' where m': "disconnect_pair left right m = Inr m'" "machine_ok F L m'" "return_stack m' = return_stack m"
    using machine_ok_disconnect_pair [OF ok] by blast
  have ready: "pair_waits (net m) left right" and ord: "orderly (net m)"
    using ok by (auto simp: machine_ok_def stack_ok_hold task_ready_def stack_ok_def tasks_ok_def tasks_ready_def)
  obtain R where net: "net_ok (net m) R"
    using ok by (auto simp: machine_ok_def stack_ok_def)
  obtain p q where p: "cell (principal_wires (net m)) left = Some p" "single_node (net m) (pw_node p)"
    and q: "cell (principal_wires (net m)) right = Some q" "single_node (net m) (pw_node q)"
    and neq: "pw_node p \<noteq> pw_node q"
    using ready by (auto simp: pair_waits_iff)
  obtain m1 where d1: "worker_disconnect_node (pw_node p) m = Inr m1"
    using m'(1) p by (auto simp: disconnect_pair_def bnd_eq_Inr)
  have apart: "taken_apart (pw_node p) (net m) (net m1)"
    using disconnect_takes_apart [OF d1] by simp
  have q1: "cell (principal_wires (net m1)) right = Some q"
    using other_wire_stays [OF ord net p apart q neq] by simp
  then have d2: "worker_disconnect_node (pw_node q) m1 = Inr m'"
    using m'(1) p d1 by (simp add: disconnect_pair_def)
  obtain x y where x: "nodes (net m1) = (nodes (net m))[pw_node p := x]" "node_ctors (net m1) = node_ctors (net m)"
    and y: "nodes (net m') = (nodes (net m1))[pw_node q := y]"
    using apart disconnect_takes_apart [OF d2] by (auto simp: taken_apart_def)
  have q_same: "nodes (net m1) ! pw_node q = nodes (net m) ! pw_node q" using neq by (simp add: x)
  have ctor: "ctor_of_node (net m1) (pw_node q) = ctor_of_node (net m) (pw_node q)"
    using neq by (simp add: ctor_of_node_def x at_def)
  have ends: "other_ends (net m1) (pw_node q) = other_ends (net m) (pw_node q)"
    unfolding other_ends_def ctor port_value_def q_same by (rule refl)
  obtain c d where c: "ctor_of_node (net m) (pw_node p) = Inr c" and d: "ctor_of_node (net m) (pw_node q) = Inr d"
    using d1 d2 ctor by (auto simp: worker_disconnect_node_def bnd_eq_Inr)
  have "cell (principal_wires (net m1)) left = None"
    using disconnect_node_moves(4) [OF d1 c] principal_port_within [OF net p(1) c] by blast
  then have left: "cell (principal_wires (net m')) left = None"
    by (rule disconnect_node_moves(3) [OF d2])
  have "port_value (net m1) (pw_node q) (pw_index q) = VPrincipal right"
    using principal_port_within [OF net q(1) d] by (simp add: port_value_def q_same)
  then have right: "cell (principal_wires (net m')) right = None"
    using disconnect_node_moves(4) [OF d2, of d "pw_index q" right] principal_port_within [OF net q(1) d] ctor d
    by simp
  show ?thesis
    using m' p(1) q(1) left right disconnect_node_moves(1,2) [OF d1] disconnect_node_moves(1,2) [OF d2] ends
    by (intro exI [of _ m'] exI [of _ p] exI [of _ q]) (simp add: x y)
qed

end
