(* ===== verification/Prelude_Values.thy ===== *)
theory Prelude_Values
  imports Execute
begin

text \<open>
  What the names are bound to that \<open>import_prelude\<close> (\<open>src/src/prelude/import_prelude.c\<close>) defines: a
  primitive, with the values it leaves for the values it is applied to, and the node constructor
  that gathers its arguments.
\<close>

section \<open>The module grows\<close>

definition grows :: "machine \<Rightarrow> machine \<Rightarrow> bool" where
  "grows m m' \<longleftrightarrow> value_hash m \<subseteq>\<^sub>m value_hash m' \<and> (\<exists>ps. primitives m' = primitives m @ ps) \<and>
     (\<exists>cs. node_ctors (net m') = node_ctors (net m) @ cs)"

lemma grows_refl [simp]: "grows m m"
  by (simp add: grows_def)

lemma grows_trans: "grows m m1 \<Longrightarrow> grows m1 m2 \<Longrightarrow> grows m m2"
  unfolding grows_def by (metis append.assoc map_le_trans)

lemma at_extends: "at xs i = Some x \<Longrightarrow> at (xs @ ys) i = Some x"
  by (auto simp: at_def nth_append split: if_splits)

lemma at_end: "at (xs @ [x]) (length xs) = Some x"
  by (simp add: at_def)

lemma mod_find_Some: "value_hash m name = Some v \<Longrightarrow> mod_find m name = v"
  by (simp add: mod_find_def)

section \<open>What a name is bound to\<close>

text \<open>
  A primitive with its function, and with a node constructor whose input ports, and no others, are the
  principal ones, or with none.
\<close>

definition gathers :: "machine \<Rightarrow> nat \<Rightarrow> nat \<Rightarrow> nat \<Rightarrow> nat \<Rightarrow> bool" where
  "gathers m p inputs outputs c \<longleftrightarrow>
     (\<exists>ctor. at (node_ctors (net m)) c = Some ctor \<and> ctor_arity ctor = inputs + outputs \<and>
       ctor_primitive ctor = Some p \<and>
       map (map_option is_principal) (port_infos ctor) =
         replicate inputs (Some True) @ replicate outputs (Some False))"

definition bound :: "string \<Rightarrow> nat \<Rightarrow> nat \<Rightarrow> primitive_fn \<Rightarrow> bool \<Rightarrow> machine \<Rightarrow> bool" where
  "bound name inputs outputs f node m \<longleftrightarrow>
     (\<exists>p self. value_hash m name = Some (VPrimitive p) \<and> at (primitives m) p = Some self \<and>
       input_arity self = inputs \<and> output_arity self = outputs \<and> primitive_fn self = f \<and>
       (case primitive_node_ctor self of None \<Rightarrow> \<not> node | Some c \<Rightarrow> node \<and> gathers m p inputs outputs c))"

lemma gathers_grows: "grows m m' \<Longrightarrow> gathers m p inputs outputs c \<Longrightarrow> gathers m' p inputs outputs c"
  by (auto simp: grows_def gathers_def intro!: at_extends)

lemma bound_grows:
  assumes g: "grows m m'" and b: "bound name inputs outputs f node m"
  shows "bound name inputs outputs f node m'"
proof -
  obtain p self where p: "value_hash m name = Some (VPrimitive p)" "at (primitives m) p = Some self"
      "input_arity self = inputs" "output_arity self = outputs" "primitive_fn self = f"
      "case primitive_node_ctor self of None \<Rightarrow> \<not> node | Some c \<Rightarrow> node \<and> gathers m p inputs outputs c"
    using b unfolding bound_def by blast
  have "value_hash m' name = Some (VPrimitive p)"
    using g p(1) unfolding grows_def map_le_def by (metis domI)
  moreover have "at (primitives m') p = Some self"
    using g p(2) by (auto simp: grows_def intro: at_extends)
  moreover have "case primitive_node_ctor self of None \<Rightarrow> \<not> node | Some c \<Rightarrow> node \<and> gathers m' p inputs outputs c"
    using p(6) gathers_grows [OF g] by (auto split: option.splits)
  ultimately show ?thesis using p(3-5) unfolding bound_def by blast
qed

definition binds :: "string \<Rightarrow> (machine \<Rightarrow> bool) \<Rightarrow> (machine \<Rightarrow> machine res) \<Rightarrow> bool" where
  "binds name P d \<longleftrightarrow>
     (\<forall>m. value_hash m name = None \<longrightarrow>
        (\<exists>m'. d m = Inr m' \<and> grows m m' \<and> dom (value_hash m') = insert name (dom (value_hash m)) \<and> P m'))"

lemma bindsD:
  "binds name P d \<Longrightarrow> value_hash m name = None \<Longrightarrow>
     \<exists>m'. d m = Inr m' \<and> grows m m' \<and> dom (value_hash m') = insert name (dom (value_hash m)) \<and> P m'"
  by (simp add: binds_def)

definition kept :: "(machine \<Rightarrow> bool) \<Rightarrow> bool" where
  "kept P \<longleftrightarrow> (\<forall>m m'. grows m m' \<longrightarrow> P m \<longrightarrow> P m')"

lemma kept_bound: "kept (bound name inputs outputs f node)"
  unfolding kept_def using bound_grows by blast

lemma kept_value: "kept (\<lambda>m. value_hash m name = Some v)"
  unfolding kept_def grows_def map_le_def by (metis domI)

lemma define_all_binds:
  assumes "list_all2 (\<lambda>(name, P) d. binds name P d \<and> kept P) specs ds" and "distinct (map fst specs)"
    and "\<forall>name \<in> set (map fst specs). value_hash m name = None"
  shows "\<exists>m'. define_all ds m = Inr m' \<and> grows m m' \<and>
     dom (value_hash m') = set (map fst specs) \<union> dom (value_hash m) \<and> (\<forall>(name, P) \<in> set specs. P m')"
  using assms
proof (induction specs ds arbitrary: m rule: list_all2_induct)
  case (Cons spec specs d ds)
  obtain name P where spec: "spec = (name, P)" by (cases spec)
  have d: "binds name P d" "kept P" using Cons.hyps(1) by (simp_all add: spec)
  obtain m1 where m1: "d m = Inr m1" "grows m m1" "dom (value_hash m1) = insert name (dom (value_hash m))" "P m1"
    using bindsD [OF d(1), of m] Cons.prems(2) by (auto simp: spec)
  have "distinct (map fst specs)" using Cons.prems(1) by simp
  moreover have "\<forall>other \<in> set (map fst specs). value_hash m1 other = None"
  proof
    fix other assume "other \<in> set (map fst specs)"
    then have "other \<noteq> name" "other \<notin> dom (value_hash m)"
      using Cons.prems by (auto simp: spec)
    then have "other \<notin> dom (value_hash m1)" unfolding m1(3) by simp
    then show "value_hash m1 other = None" by (simp add: domIff)
  qed
  ultimately obtain m' where m': "define_all ds m1 = Inr m'" "grows m1 m'"
      "dom (value_hash m') = set (map fst specs) \<union> dom (value_hash m1)" "\<forall>(name, P) \<in> set specs. P m'"
    using Cons.IH [of m1] by blast
  have "P m'" using d(2) m1(4) m'(2) by (simp add: kept_def)
  with m' m1 grows_trans [OF m1(2) m'(2)] show ?case by (auto simp: spec)
qed simp

section \<open>The kinds of entries\<close>

lemma binds_name: "binds name (\<lambda>m. value_hash m name = Some v) (define_name name v)"
  by (auto simp: binds_def define_name_def string_copy_def grows_def map_le_def)

lemma binds_primitive:
  "primitive_name q = name \<Longrightarrow> primitive_node_ctor q = None \<Longrightarrow>
     binds name (bound name (input_arity q) (output_arity q) (primitive_fn q) False) (define_primitive q)"
  by (auto simp: binds_def define_primitive_value grows_def map_le_def bound_def at_end)

definition ports_gather :: "nat \<Rightarrow> nat \<Rightarrow> string list \<Rightarrow> bool" where
  "ports_gather inputs outputs ports =
     (case port_infos_from_names (inputs + outputs) (map Some ports) of
        Inl _ \<Rightarrow> False
      | Inr ps \<Rightarrow> map (map_option is_principal) ps =
          replicate inputs (Some True) @ replicate outputs (Some False))"

lemma binds_node:
  assumes q: "primitive_name q = name" "ports_check (input_arity q) (output_arity q) ports"
    and ports: "ports_gather (input_arity q) (output_arity q) ports"
  shows "binds name (bound name (input_arity q) (output_arity q) (primitive_fn q) True)
    (\<lambda>m. bnd (define_primitive q m) (define_primitive_node name ports))"
  unfolding binds_def
proof (intro allI impI)
  fix m :: machine assume fresh: "value_hash m name = None"
  let ?n = "input_arity q + output_arity q"
  obtain ps k where ps: "port_infos_from_names ?n (map Some ports) = Inr ps"
      "node_ctor_principal_port_count ((node_ctor_new [] ?n)\<lparr>port_infos := ps\<rparr>) = Inr k" "k \<le> input_arity q"
    using q(2) by (auto simp: ports_check_def split: sum.splits)
  let ?p = "length (primitives m)" and ?c = "length (node_ctors (net m))"
  let ?ctor = "(node_ctor_new name ?n)\<lparr>port_infos := ps, ctor_primitive := Some ?p\<rparr>"
  let ?m = "m\<lparr>net := (net m)\<lparr>node_ctors := node_ctors (net m) @ [?ctor]\<rparr>,
      primitives := primitives m @ [q\<lparr>primitive_node_ctor := Some ?c\<rparr>],
      value_hash := (value_hash m)(name \<mapsto> VPrimitive ?p)\<rparr>"
  have "node_ctor_principal_port_count ?ctor = Inr k"
    using ps(2) by (simp add: node_ctor_principal_port_count_def node_ctor_new_def)
  then have "bnd (define_primitive q m) (define_primitive_node name ports) = Inr ?m"
    using fresh ps(1,3) q(1)
    by (simp add: define_primitive_value define_primitive_node_def mod_find_def primitive_set_node_ctor_def
        at_end Let_def)
  moreover have "grows m ?m" using fresh by (auto simp: grows_def map_le_def)
  moreover have "gathers ?m ?p (input_arity q) (output_arity q) ?c"
    using ports ps(1) by (simp add: gathers_def ports_gather_def at_end node_ctor_new_def)
  then have "bound name (input_arity q) (output_arity q) (primitive_fn q) True ?m"
    by (simp add: bound_def at_end)
  ultimately show "\<exists>m'. bnd (define_primitive q m) (define_primitive_node name ports) = Inr m' \<and> grows m m' \<and>
      dom (value_hash m') = insert name (dom (value_hash m)) \<and>
      bound name (input_arity q) (output_arity q) (primitive_fn q) True m'"
    by (intro exI [of _ ?m]) simp
qed

lemma binds_fn: "binds name (bound name inputs outputs (Primitive_fn f) False) (define_primitive_fn name inputs outputs f)"
  using binds_primitive [of "primitive_from_fn name inputs outputs f" name]
  by (simp add: define_primitive_fn_def primitive_from_fn_def)

lemma binds_node_ctor:
  "ports_check inputs outputs ports \<Longrightarrow> ports_gather inputs outputs ports \<Longrightarrow>
     binds name (bound name inputs outputs (Primitive_fn f) True)
       (define_primitive_node_ctor name inputs outputs f ports)"
  "ports_check 1 1 ports \<Longrightarrow> ports_gather 1 1 ports \<Longrightarrow>
     binds name (bound name 1 1 (Primitive_fn_1 g) True) (define_primitive_node_ctor_1 name g ports)"
  "ports_check 2 1 ports \<Longrightarrow> ports_gather 2 1 ports \<Longrightarrow>
     binds name (bound name 2 1 (Primitive_fn_2 h) True) (define_primitive_node_ctor_2 name h ports)"
  using binds_node [of "primitive_from_fn name inputs outputs f" name ports]
    binds_node [of "primitive_from_fn_1 name g" name ports]
    binds_node [of "primitive_from_fn_2 name h" name ports]
  by (simp_all add: binds_def define_primitive_node_ctor_def define_primitive_node_ctor_1_def
      define_primitive_node_ctor_2_def define_primitive_fn_def define_primitive_fn_1_def
      define_primitive_fn_2_def primitive_from_fn_def primitive_from_fn_1_def primitive_from_fn_2_def)

lemma ports_gathers:
  "ports_gather 1 1 [''x!'', ''result'']" "ports_gather 2 1 [''x!'', ''y!'', ''result'']"
  "ports_gather 1 0 [''value!'']" "ports_gather 1 1 [''i!'', ''f'']" "ports_gather 1 1 [''f!'', ''i'']"
  "ports_gather 1 2 [''target!'', ''first'', ''second'']"
  by code_simp+

section \<open>What applying a name does\<close>

text \<open>
  With the arguments on top of the stack, the last one uppermost, the primitive replaces them by its
  results, or fails. Whether the node constructor of a name waits for all the inputs of its primitive is
  apart.
\<close>

definition answers :: "machine \<Rightarrow> string \<Rightarrow> val list \<Rightarrow> val list res \<Rightarrow> bool" where
  "answers m name args r \<longleftrightarrow>
     (\<exists>p self. mod_find m name = VPrimitive p \<and> at (primitives m) p = Some self \<and>
       input_arity self = length args \<and> (\<forall>results. r = Inr results \<longrightarrow> output_arity self = length results) \<and>
       (\<forall>k vs. at (primitives k) p = Some self \<longrightarrow> value_stack k = rev args @ vs \<longrightarrow>
          worker_apply_primitive p k = Some (bnd r (\<lambda>results. Inr (k\<lparr>value_stack := rev results @ vs\<rparr>)))))"

definition gathers_inputs :: "machine \<Rightarrow> string \<Rightarrow> bool" where
  "gathers_inputs m name \<longleftrightarrow>
     (\<exists>p self c. mod_find m name = VPrimitive p \<and> at (primitives m) p = Some self \<and>
       primitive_node_ctor self = Some c \<and> gathers m p (input_arity self) (output_arity self) c)"

text \<open>\<open>connect\<close> and \<open>link\<close> are applied at once, and change the net.\<close>

definition acts_at_once :: "machine \<Rightarrow> string \<Rightarrow> nat \<Rightarrow> nat \<Rightarrow> (machine \<Rightarrow> machine res) \<Rightarrow> bool" where
  "acts_at_once m name inputs outputs act \<longleftrightarrow>
     (\<exists>p self. mod_find m name = VPrimitive p \<and> at (primitives m) p = Some self \<and>
       input_arity self = inputs \<and> output_arity self = outputs \<and> primitive_node_ctor self = None \<and>
       (\<forall>k. at (primitives k) p = Some self \<longrightarrow> worker_apply_primitive p k = Some (act k)))"

lemma bound_gathers: "bound name inputs outputs f True m \<Longrightarrow> gathers_inputs m name"
  by (fastforce simp: bound_def gathers_inputs_def mod_find_def split: option.splits)

lemma bound_connect: "bound name 2 0 (Primitive_fn X_connect) False m \<Longrightarrow> acts_at_once m name 2 0 x_connect"
  by (auto simp: bound_def acts_at_once_def mod_find_def worker_apply_primitive.simps split: option.splits)

lemma bound_link: "bound name 0 2 (Primitive_fn X_link) False m \<Longrightarrow> acts_at_once m name 0 2 (\<lambda>k. Inr (x_link k))"
  by (auto simp: bound_def acts_at_once_def mod_find_def worker_apply_primitive.simps split: option.splits)

lemma answers_1:
  "bound name 1 1 (Primitive_fn_1 f) node m \<Longrightarrow> f x = r \<Longrightarrow> r \<noteq> Inr VNull \<Longrightarrow>
     answers m name [x] (bnd r (\<lambda>v. Inr [v]))"
  by (cases r) (auto simp: bound_def answers_def mod_find_def worker_apply_primitive.simps apply_value_fn_def
      pop_args_def asserting_def push_result_def worker_push_def)

lemma answers_2:
  "bound name 2 1 (Primitive_fn_2 f) node m \<Longrightarrow> f x y = r \<Longrightarrow> r \<noteq> Inr VNull \<Longrightarrow>
     answers m name [x, y] (bnd r (\<lambda>v. Inr [v]))"
  by (cases r) (auto simp: bound_def answers_def mod_find_def worker_apply_primitive.simps apply_value_fn_def
      pop_args_def asserting_def push_result_def worker_push_def)

lemma answers_dup:
  "bound name 1 2 (Primitive_fn X_int_dup) node m \<Longrightarrow> is_xint (value_bits v) \<Longrightarrow> answers m name [v] (Inr [v, v])"
  "bound name 1 2 (Primitive_fn X_float_dup) node m \<Longrightarrow> is_xfloat (value_bits v) \<Longrightarrow> answers m name [v] (Inr [v, v])"
  "bound name 1 2 (Primitive_fn X_fn_dup) node m \<Longrightarrow> is_function v \<Longrightarrow> answers m name [v] (Inr [v, v])"
  by (auto simp: bound_def answers_def mod_find_def worker_apply_primitive.simps xint_dup_def xfloat_dup_def
      x_fn_dup_def dup_when_def worker_top_def asserting_def worker_push_def)

lemma answers_assert:
  "bound name 1 0 (Primitive_fn X_assert) node m \<Longrightarrow>
     answers m name [VImm (xbool b)] (if b then Inr [] else Inl Exit_failure)"
  by (auto simp: bound_def answers_def mod_find_def worker_apply_primitive.simps x_assert_def worker_pop_def
      value_bits_def)

section \<open>Values\<close>

lemma xint_exhausts: "is_xint w \<longleftrightarrow> (\<exists>i. w = xint i)"
proof
  assume tag: "is_xint w"
  have "w = xint (sint (signed_drop_bit 3 w))"
  proof (rule bit_word_eqI)
    fix n assume n: "n < LENGTH(64)"
    have low: "bit w n \<longleftrightarrow> bit (tag_word XINT) n" if "n < 3"
      using arg_cong [OF tag [unfolded is_xint_def value_tag_take_bit], of "\<lambda>v. bit v n"] that
      by (simp add: bit_take_bit_iff del: tag_word.simps)
    show "bit w n \<longleftrightarrow> bit (xint (sint (signed_drop_bit 3 w))) n"
      using n low bit_tag_word [of XINT n]
      by (cases "n < 3") (auto simp: xint_def bit_simps simp del: tag_word.simps)
  qed
  then show "\<exists>i. w = xint i" by blast
qed auto

lemma xfloat_exhausts: "is_xfloat w \<longleftrightarrow> (\<exists>d. w = xfloat d)"
proof
  assume tag: "is_xfloat w"
  have "w = xfloat w"
  proof (rule bit_word_eqI)
    fix n assume n: "n < LENGTH(64)"
    have low: "bit w n \<longleftrightarrow> bit (tag_word XFLOAT) n" if "n < 3"
      using arg_cong [OF tag [unfolded is_xfloat_def value_tag_take_bit], of "\<lambda>v. bit v n"] that
      by (simp add: bit_take_bit_iff del: tag_word.simps)
    show "bit w n \<longleftrightarrow> bit (xfloat w) n"
      using n low bit_tag_word [of XFLOAT n]
      by (cases "n < 3") (auto simp: xfloat_def DATA_MASK_mask bit_simps simp del: tag_word.simps)
  qed
  then show "\<exists>d. w = xfloat d" by blast
qed auto

text \<open>The numbers that an integer value keeps.\<close>

definition kept_number :: "int \<Rightarrow> bool" where
  "kept_number i \<longleftrightarrow> - (2 ^ 60) \<le> i \<and> i < 2 ^ 60"

lemma kept_number_read: "kept_number i \<Longrightarrow> to_int64 (xint i) = Inr i"
  by (simp add: kept_number_def conjunct2 [OF integer_round_trip])

text \<open>Division towards zero, by what it is to satisfy.\<close>

definition divided :: "int \<Rightarrow> int \<Rightarrow> int \<Rightarrow> int \<Rightarrow> bool" where
  "divided i j q r \<longleftrightarrow> i = q * j + r \<and> \<bar>r\<bar> < \<bar>j\<bar> \<and> 0 \<le> r * i"

lemma abs_le_times: "q \<noteq> 0 \<Longrightarrow> \<bar>j\<bar> \<le> \<bar>q * j\<bar>" for j :: int
  using mult_right_mono [of 1 "\<bar>q\<bar>" "\<bar>j\<bar>"] by (simp add: abs_mult)

lemma divided_quot:
  assumes "divided i j q r"
  shows "c_quot i j = q"
proof -
  have i: "i = q * j + r" "\<bar>r\<bar> < \<bar>j\<bar>" "0 \<le> r * i"
    using assms unfolding divided_def by blast+
  consider "i = 0" | "0 < i" "0 < j" | "0 < i" "j < 0" | "i < 0" "0 < j" | "i < 0" "j < 0"
    using i(2) by linarith
  then show ?thesis
  proof cases
    case 1
    have "q = 0"
    proof (rule ccontr)
      assume "q \<noteq> 0"
      then have "\<bar>j\<bar> \<le> \<bar>q * j\<bar>" by (intro abs_le_times)
      moreover have "\<bar>q * j\<bar> = \<bar>r\<bar>" using i(1) 1 by linarith
      ultimately show False using i(2) by linarith
    qed
    with 1 show ?thesis by (simp add: c_quot_def)
  next
    case 2
    then have "i div j = q"
      using i by (intro int_div_pos_eq [of _ _ _ r]) (auto simp: zero_le_mult_iff mult.commute)
    with 2 show ?thesis by (simp add: c_quot_def)
  next
    case 3
    then have "i div (- j) = - q"
      using i by (intro int_div_pos_eq [of _ _ _ r]) (auto simp: zero_le_mult_iff mult.commute)
    with 3 show ?thesis by (simp add: c_quot_def)
  next
    case 4
    then have "(- i) div j = - q"
      using i by (intro int_div_pos_eq [of _ _ _ "- r"]) (auto simp: zero_le_mult_iff mult.commute)
    with 4 show ?thesis by (simp add: c_quot_def)
  next
    case 5
    then have "(- i) div (- j) = q"
      using i by (intro int_div_pos_eq [of _ _ _ "- r"]) (auto simp: zero_le_mult_iff mult.commute)
    with 5 show ?thesis by (simp add: c_quot_def)
  qed
qed

lemma divided_rem: "divided i j q r \<Longrightarrow> c_rem i j = r"
  by (frule divided_quot) (simp add: c_rem_def divided_def)

lemma divided_bounds:
  assumes "divided i j q r"
  shows "j \<noteq> 0" and "\<bar>q\<bar> \<le> \<bar>i\<bar>" and "\<bar>r\<bar> \<le> \<bar>i\<bar>"
proof -
  have i: "i = q * j + r" "\<bar>r\<bar> < \<bar>j\<bar>" "0 \<le> r * i"
    using assms unfolding divided_def by blast+
  show "j \<noteq> 0" using i(2) by auto
  have "\<bar>i - r\<bar> = \<bar>i\<bar> - \<bar>r\<bar>"
  proof (cases "q = 0")
    case True
    then show ?thesis using i(1) by simp
  next
    case False
    then have "\<bar>j\<bar> \<le> \<bar>q * j\<bar>" by (intro abs_le_times)
    moreover have "q * j = i - r" using i(1) by simp
    ultimately have "\<bar>r\<bar> < \<bar>i - r\<bar>" using i(2) by simp
    then show ?thesis using i(3) by (auto simp: zero_le_mult_iff)
  qed
  moreover have "\<bar>q\<bar> \<le> \<bar>i - r\<bar>"
  proof -
    have "i - r = q * j" using i(1) by simp
    then show ?thesis using i(2) abs_le_times [of j q] by (simp add: mult.commute)
  qed
  ultimately show "\<bar>q\<bar> \<le> \<bar>i\<bar>" "\<bar>r\<bar> \<le> \<bar>i\<bar>" by linarith+
qed

lemma word_results:
  assumes "kept_number i" and "kept_number j"
  shows "xint_add (xint i) (xint j) = Inr (xint (i + j))"
    and "xint_sub (xint i) (xint j) = Inr (xint (i - j))"
    and "xint_mul (xint i) (xint j) =
      (if - (2 ^ 63) \<le> i * j \<and> i * j < 2 ^ 63 then Inr (xint (i * j)) else Inl Undefined)"
    and "xint_div (xint i) (xint 0) = Inl Undefined" and "xint_mod (xint i) (xint 0) = Inl Undefined"
    and "divided i j q r \<Longrightarrow> xint_div (xint i) (xint j) = Inr (xint q)"
    and "divided i j q r \<Longrightarrow> xint_mod (xint i) (xint j) = Inr (xint r)"
proof -
  note read = kept_number_read [OF assms(1)] kept_number_read [OF assms(2)] kept_number_read [of 0]
  show "xint_add (xint i) (xint j) = Inr (xint (i + j))" "xint_sub (xint i) (xint j) = Inr (xint (i - j))"
    using xint_add_value(1) [OF read(1,2)] xint_sub_value [OF read(1,2)] by simp_all
  show "xint_mul (xint i) (xint j) =
      (if - (2 ^ 63) \<le> i * j \<and> i * j < 2 ^ 63 then Inr (xint (i * j)) else Inl Undefined)"
    using read by (simp add: xint_mul_def int64_result_def defined_when_def)
  show "xint_div (xint i) (xint 0) = Inl Undefined" "xint_mod (xint i) (xint 0) = Inl Undefined"
    using read by (simp_all add: kept_number_def xint_div_def xint_mod_def defined_when_def)
  assume d: "divided i j q r"
  note b = divided_bounds [OF d]
  have "- (2 ^ 63) \<le> q \<and> q < 2 ^ 63" "- (2 ^ 63) \<le> r \<and> r < 2 ^ 63"
    using b(2,3) assms(1) by (auto simp: kept_number_def)
  then show "xint_div (xint i) (xint j) = Inr (xint q)" "xint_mod (xint i) (xint j) = Inr (xint r)"
    using read(1,2) b(1) divided_quot [OF d] divided_rem [OF d]
    by (simp_all add: xint_div_def xint_mod_def defined_when_def int64_result_def)
qed

lemma read_xfloat: "to_double (xfloat d) = Inr (d AND DATA_MASK)"
proof -
  have "xfloat d AND DATA_MASK = d AND DATA_MASK"
    by (rule bit_word_eqI) (auto simp: xfloat_def DATA_MASK_mask bit_simps dest: bit_tag_word
        simp del: tag_word.simps)
  then show ?thesis by (simp add: to_double_def)
qed

lemma is_xint_bits: "is_xint (value_bits v) \<longleftrightarrow> (\<exists>i. v = VImm (xint i))"
  by (cases v) (auto simp: value_bits_def xint_exhausts [symmetric] is_xint_def value_tag_def TAG_MASK_def)

lemma is_xfloat_bits: "is_xfloat (value_bits v) \<longleftrightarrow> (\<exists>d. v = VImm (xfloat d))"
  by (cases v) (auto simp: value_bits_def xfloat_exhausts [symmetric] is_xfloat_def value_tag_def TAG_MASK_def)

section \<open>The prelude\<close>

definition prelude_binds :: "double_ops \<Rightarrow> (string \<times> (machine \<Rightarrow> bool)) list" where
  "prelude_binds ops =
     [(''connect'', bound ''connect'' 2 0 (Primitive_fn X_connect) False),
      (''link'', bound ''link'' 0 2 (Primitive_fn X_link) False),
      (''false'', \<lambda>m. value_hash m ''false'' = Some (VImm xfalse)),
      (''true'', \<lambda>m. value_hash m ''true'' = Some (VImm xtrue)),
      (''not'', bound ''not'' 1 1 (Primitive_fn_1 (on_word xbool_not)) True),
      (''and'', bound ''and'' 2 1 (Primitive_fn_2 (on_words xbool_and)) True),
      (''or'', bound ''or'' 2 1 (Primitive_fn_2 (on_words xbool_or)) True),
      (''eq?'', bound ''eq?'' 2 1 (Primitive_fn_2 x_eq) True),
      (''assert'', bound ''assert'' 1 0 (Primitive_fn X_assert) True),
      (''int?'', bound ''int?'' 1 1 (Primitive_fn_1 (on_word (\<lambda>x. Inr (xint_p x)))) True),
      (''iadd'', bound ''iadd'' 2 1 (Primitive_fn_2 (on_words xint_add)) True),
      (''isub'', bound ''isub'' 2 1 (Primitive_fn_2 (on_words xint_sub)) True),
      (''imul'', bound ''imul'' 2 1 (Primitive_fn_2 (on_words xint_mul)) True),
      (''idiv'', bound ''idiv'' 2 1 (Primitive_fn_2 (on_words xint_div)) True),
      (''imod'', bound ''imod'' 2 1 (Primitive_fn_2 (on_words xint_mod)) True),
      (''int-to-float'', bound ''int-to-float'' 1 1 (Primitive_fn_1 (on_word (xint_to_xfloat ops))) True),
      (''int-dup'', bound ''int-dup'' 1 2 (Primitive_fn X_int_dup) True),
      (''float?'', bound ''float?'' 1 1 (Primitive_fn_1 (on_word (\<lambda>x. Inr (xfloat_p x)))) True),
      (''fadd'', bound ''fadd'' 2 1 (Primitive_fn_2 (on_words (xfloat_add ops))) True),
      (''fsub'', bound ''fsub'' 2 1 (Primitive_fn_2 (on_words (xfloat_sub ops))) True),
      (''fmul'', bound ''fmul'' 2 1 (Primitive_fn_2 (on_words (xfloat_mul ops))) True),
      (''fdiv'', bound ''fdiv'' 2 1 (Primitive_fn_2 (on_words (xfloat_div ops))) True),
      (''fmod'', bound ''fmod'' 2 1 (Primitive_fn_2 (on_words (xfloat_mod ops))) True),
      (''float-to-int'', bound ''float-to-int'' 1 1 (Primitive_fn_1 (on_word (xfloat_to_xint ops))) True),
      (''float-dup'', bound ''float-dup'' 1 2 (Primitive_fn X_float_dup) True),
      (''fn-dup'', bound ''fn-dup'' 1 2 (Primitive_fn X_fn_dup) True)]"

lemma prelude_binds_names: "map fst (prelude_binds ops) = prelude_names"
  by (simp add: prelude_binds_def prelude_names_def)

lemma prelude_entries_bind:
  "list_all2 (\<lambda>(name, P) d. binds name P d \<and> kept P) (prelude_binds ops) (prelude_entries ops)"
  unfolding prelude_binds_def prelude_entries_def
  by (simp only: list_all2_Cons list_all2_Nil case_prod_conv simp_thms kept_bound kept_value binds_fn binds_name
      binds_node_ctor ports_checks ports_gathers)

lemma prelude_bound:
  assumes "value_hash m = Map.empty"
  shows "\<exists>m'. import_prelude ops m = Inr m' \<and> dom (value_hash m') = set prelude_names \<and>
     (\<forall>(name, P) \<in> set (prelude_binds ops). P m')"
proof -
  have "distinct prelude_names" by code_simp
  then show ?thesis
    using define_all_binds [OF prelude_entries_bind, of ops m] assms
    unfolding import_prelude_def prelude_binds_names by auto
qed

text \<open>What the primitives are to compute, on booleans, integers and doubles.\<close>

abbreviation truth :: "bool \<Rightarrow> val" where
  "truth b \<equiv> VImm (xbool b)"

abbreviation number :: "int \<Rightarrow> val" where
  "number i \<equiv> VImm (xint i)"

abbreviation double :: "u64 \<Rightarrow> val" where
  "double d \<equiv> VImm (xfloat d)"

definition logic_answers :: "machine \<Rightarrow> bool" where
  "logic_answers m \<longleftrightarrow>
     mod_find m ''false'' = truth False \<and> mod_find m ''true'' = truth True \<and>
     (\<forall>a. answers m ''not'' [truth a] (Inr [truth (\<not> a)])) \<and>
     (\<forall>a b. answers m ''and'' [truth a, truth b] (Inr [truth (a \<and> b)])) \<and>
     (\<forall>a b. answers m ''or'' [truth a, truth b] (Inr [truth (a \<or> b)])) \<and>
     (\<forall>x y. answers m ''eq?'' [x, y] (Inr [truth (x = y)])) \<and>
     (\<forall>a. answers m ''assert'' [truth a] (if a then Inr [] else Inl Exit_failure))"

definition integer_answers :: "machine \<Rightarrow> bool" where
  "integer_answers m \<longleftrightarrow>
     (\<forall>v. answers m ''int?'' [v] (Inr [truth (\<exists>i. v = number i)])) \<and>
     (\<forall>i j. kept_number i \<longrightarrow> kept_number j \<longrightarrow>
        answers m ''iadd'' [number i, number j] (Inr [number (i + j)]) \<and>
        answers m ''isub'' [number i, number j] (Inr [number (i - j)]) \<and>
        answers m ''imul'' [number i, number j]
          (if - (2 ^ 63) \<le> i * j \<and> i * j < 2 ^ 63 then Inr [number (i * j)] else Inl Undefined) \<and>
        (\<forall>q r. divided i j q r \<longrightarrow>
           answers m ''idiv'' [number i, number j] (Inr [number q]) \<and>
           answers m ''imod'' [number i, number j] (Inr [number r])) \<and>
        answers m ''idiv'' [number i, number 0] (Inl Undefined) \<and>
        answers m ''imod'' [number i, number 0] (Inl Undefined))"

definition double_answers :: "double_ops \<Rightarrow> machine \<Rightarrow> bool" where
  "double_answers ops m \<longleftrightarrow>
     (\<forall>v. answers m ''float?'' [v] (Inr [truth (\<exists>d. v = double d)])) \<and>
     (\<forall>(name, f) \<in> {(''fadd'', double_add ops), (''fsub'', double_sub ops), (''fmul'', double_mul ops),
          (''fdiv'', double_div ops), (''fmod'', double_fmod ops)}.
        \<forall>d e. answers m name [double d, double e] (Inr [double (f (d AND DATA_MASK) (e AND DATA_MASK))])) \<and>
     (\<forall>i. kept_number i \<longrightarrow> answers m ''int-to-float'' [number i] (Inr [double (double_of_int64 ops i)])) \<and>
     (\<forall>d. answers m ''float-to-int'' [double d]
        (Inr [number (sint (uint64_of_double ops (d AND DATA_MASK)))]))"

definition dup_answers :: "machine \<Rightarrow> bool" where
  "dup_answers m \<longleftrightarrow>
     (\<forall>i. answers m ''int-dup'' [number i] (Inr [number i, number i])) \<and>
     (\<forall>d. answers m ''float-dup'' [double d] (Inr [double d, double d])) \<and>
     (\<forall>f. answers m ''fn-dup'' [VFunction f] (Inr [VFunction f, VFunction f]))"

lemma answer_1:
  assumes "bound name 1 1 (Primitive_fn_1 f) node m"
  shows "f x = Inr (VImm w) \<Longrightarrow> answers m name [x] (Inr [VImm w])"
  using answers_1 [OF assms, of x] by simp

lemma answer_2:
  assumes "bound name 2 1 (Primitive_fn_2 f) node m"
  shows "f x y = Inr (VImm w) \<Longrightarrow> answers m name [x, y] (Inr [VImm w])"
    and "f x y = Inl e \<Longrightarrow> answers m name [x, y] (Inl e)"
  using answers_2 [OF assms, of x y] by simp_all

lemmas on_word_values = on_word_def on_words_def value_bits_def

lemma truth_values:
  "on_word xbool_not (truth a) = Inr (truth (\<not> a))"
  "on_words xbool_and (truth a) (truth b) = Inr (truth (a \<and> b))"
  "on_words xbool_or (truth a) (truth b) = Inr (truth (a \<or> b))"
  "x_eq x y = Inr (truth (x = y))"
  by (simp_all add: on_word_values xbool_not_def xbool_and_def xbool_or_def x_eq_def)

lemma number_values:
  assumes "kept_number i" and "kept_number j"
  shows "on_words xint_add (number i) (number j) = Inr (number (i + j))"
    and "on_words xint_sub (number i) (number j) = Inr (number (i - j))"
    and "- (2 ^ 63) \<le> i * j \<and> i * j < 2 ^ 63 \<Longrightarrow> on_words xint_mul (number i) (number j) = Inr (number (i * j))"
    and "\<not> (- (2 ^ 63) \<le> i * j \<and> i * j < 2 ^ 63) \<Longrightarrow> on_words xint_mul (number i) (number j) = Inl Undefined"
    and "divided i j q r \<Longrightarrow> on_words xint_div (number i) (number j) = Inr (number q)"
    and "divided i j q r \<Longrightarrow> on_words xint_mod (number i) (number j) = Inr (number r)"
    and "on_words xint_div (number i) (number 0) = Inl Undefined"
    and "on_words xint_mod (number i) (number 0) = Inl Undefined"
  using word_results [OF assms] by (simp_all add: on_word_values)

lemma double_values:
  "on_words (xfloat_add ops) (double d) (double e) = Inr (double (double_add ops (d AND DATA_MASK) (e AND DATA_MASK)))"
  "on_words (xfloat_sub ops) (double d) (double e) = Inr (double (double_sub ops (d AND DATA_MASK) (e AND DATA_MASK)))"
  "on_words (xfloat_mul ops) (double d) (double e) = Inr (double (double_mul ops (d AND DATA_MASK) (e AND DATA_MASK)))"
  "on_words (xfloat_div ops) (double d) (double e) = Inr (double (double_div ops (d AND DATA_MASK) (e AND DATA_MASK)))"
  "on_words (xfloat_mod ops) (double d) (double e) = Inr (double (double_fmod ops (d AND DATA_MASK) (e AND DATA_MASK)))"
  "on_word (xfloat_to_xint ops) (double d) = Inr (number (sint (uint64_of_double ops (d AND DATA_MASK))))"
  by (simp_all add: on_word_values read_xfloat xfloat_add_def xfloat_sub_def xfloat_mul_def xfloat_div_def
      xfloat_mod_def xfloat_to_xint_def)

lemma converted_number:
  "kept_number i \<Longrightarrow> on_word (xint_to_xfloat ops) (number i) = Inr (double (double_of_int64 ops i))"
  by (simp add: on_word_values xint_to_xfloat_def kept_number_read)

lemma logic_answers:
  assumes "\<forall>(name, P) \<in> set (prelude_binds ops). P m"
  shows "logic_answers m"
proof -
  have b: "bound ''not'' 1 1 (Primitive_fn_1 (on_word xbool_not)) True m"
      "bound ''and'' 2 1 (Primitive_fn_2 (on_words xbool_and)) True m"
      "bound ''or'' 2 1 (Primitive_fn_2 (on_words xbool_or)) True m"
      "bound ''eq?'' 2 1 (Primitive_fn_2 x_eq) True m"
      "bound ''assert'' 1 0 (Primitive_fn X_assert) True m"
      "value_hash m ''false'' = Some (VImm xfalse)" "value_hash m ''true'' = Some (VImm xtrue)"
    using assms by (simp_all add: prelude_binds_def)
  have "mod_find m ''false'' = truth False" "mod_find m ''true'' = truth True"
    using b(6,7) by (simp_all add: mod_find_def xbool_def)
  then show ?thesis
    unfolding logic_answers_def
    by (intro conjI allI answer_1 [OF b(1)] answer_2(1) [OF b(2)] answer_2(1) [OF b(3)] answer_2(1) [OF b(4)]
        answers_assert [OF b(5)] truth_values)
qed

lemma integer_answers:
  assumes "\<forall>(name, P) \<in> set (prelude_binds ops). P m"
  shows "integer_answers m"
proof -
  have b: "bound ''int?'' 1 1 (Primitive_fn_1 (on_word (\<lambda>x. Inr (xint_p x)))) True m"
      "bound ''iadd'' 2 1 (Primitive_fn_2 (on_words xint_add)) True m"
      "bound ''isub'' 2 1 (Primitive_fn_2 (on_words xint_sub)) True m"
      "bound ''imul'' 2 1 (Primitive_fn_2 (on_words xint_mul)) True m"
      "bound ''idiv'' 2 1 (Primitive_fn_2 (on_words xint_div)) True m"
      "bound ''imod'' 2 1 (Primitive_fn_2 (on_words xint_mod)) True m"
    using assms by (simp_all add: prelude_binds_def)
  have "answers m ''int?'' [v] (Inr [truth (\<exists>i. v = number i)])" for v
    by (rule answer_1 [OF b(1)]) (simp add: on_word_def xint_p_def is_xint_bits)
  moreover have "answers m ''imul'' [number i, number j]
      (if - (2 ^ 63) \<le> i * j \<and> i * j < 2 ^ 63 then Inr [number (i * j)] else Inl Undefined)"
    if "kept_number i" "kept_number j" for i j
  proof (cases "- (2 ^ 63) \<le> i * j \<and> i * j < 2 ^ 63")
    case True
    show ?thesis unfolding if_P [OF True]
      by (rule answer_2(1) [OF b(4) number_values(3) [OF that True]])
  next
    case False
    show ?thesis unfolding if_not_P [OF False]
      by (rule answer_2(2) [OF b(4) number_values(4) [OF that False]])
  qed
  ultimately show ?thesis
    unfolding integer_answers_def
    by (blast intro: answer_2(1) [OF b(2)] answer_2(1) [OF b(3)] answer_2 [OF b(5)] answer_2 [OF b(6)]
        number_values)
qed

lemma double_answers:
  assumes "\<forall>(name, P) \<in> set (prelude_binds ops). P m"
  shows "double_answers ops m"
proof -
  have b: "bound ''float?'' 1 1 (Primitive_fn_1 (on_word (\<lambda>x. Inr (xfloat_p x)))) True m"
      "bound ''fadd'' 2 1 (Primitive_fn_2 (on_words (xfloat_add ops))) True m"
      "bound ''fsub'' 2 1 (Primitive_fn_2 (on_words (xfloat_sub ops))) True m"
      "bound ''fmul'' 2 1 (Primitive_fn_2 (on_words (xfloat_mul ops))) True m"
      "bound ''fdiv'' 2 1 (Primitive_fn_2 (on_words (xfloat_div ops))) True m"
      "bound ''fmod'' 2 1 (Primitive_fn_2 (on_words (xfloat_mod ops))) True m"
      "bound ''int-to-float'' 1 1 (Primitive_fn_1 (on_word (xint_to_xfloat ops))) True m"
      "bound ''float-to-int'' 1 1 (Primitive_fn_1 (on_word (xfloat_to_xint ops))) True m"
    using assms by (simp_all add: prelude_binds_def)
  have "answers m ''float?'' [v] (Inr [truth (\<exists>d. v = double d)])" for v
    by (rule answer_1 [OF b(1)]) (simp add: on_word_def xfloat_p_def is_xfloat_bits)
  then show ?thesis
    unfolding double_answers_def ball_simps case_prod_conv
    by (intro conjI allI impI TrueI answer_1 [OF b(7)] answer_1 [OF b(8)] converted_number double_values
      answer_2(1) [OF b(2) double_values(1)] answer_2(1) [OF b(3) double_values(2)]
      answer_2(1) [OF b(4) double_values(3)] answer_2(1) [OF b(5) double_values(4)]
      answer_2(1) [OF b(6) double_values(5)])
qed

lemma dup_answers:
  assumes "\<forall>(name, P) \<in> set (prelude_binds ops). P m"
  shows "dup_answers m"
proof -
  have b: "bound ''int-dup'' 1 2 (Primitive_fn X_int_dup) True m"
      "bound ''float-dup'' 1 2 (Primitive_fn X_float_dup) True m"
      "bound ''fn-dup'' 1 2 (Primitive_fn X_fn_dup) True m"
    using assms by (simp_all add: prelude_binds_def)
  show ?thesis
    using answers_dup(1) [OF b(1)] answers_dup(2) [OF b(2)] answers_dup(3) [OF b(3)]
    by (simp add: dup_answers_def value_bits_def is_function_def)
qed

text \<open>All but the first two primitives gather their inputs first.\<close>

lemma prelude_gathers:
  assumes "\<forall>(name, P) \<in> set (prelude_binds ops). P m"
  shows "\<forall>name \<in> set prelude_names - {''connect'', ''link'', ''false'', ''true''}. gathers_inputs m name"
  using assms unfolding prelude_binds_def prelude_names_def
  by (simp add: bound_gathers) (auto dest: bound_gathers)

lemma prelude_computes:
  assumes "value_hash m = Map.empty"
  shows "\<exists>m'. import_prelude ops m = Inr m' \<and> dom (value_hash m') = set prelude_names \<and>
     (\<forall>name \<in> set prelude_names - {''connect'', ''link'', ''false'', ''true''}. gathers_inputs m' name) \<and>
     acts_at_once m' ''connect'' 2 0 x_connect \<and> acts_at_once m' ''link'' 0 2 (\<lambda>k. Inr (x_link k)) \<and>
     logic_answers m' \<and> integer_answers m' \<and> double_answers ops m' \<and> dup_answers m'"
proof -
  obtain m' where m': "import_prelude ops m = Inr m'" "dom (value_hash m') = set prelude_names"
    and b: "\<forall>(name, P) \<in> set (prelude_binds ops). P m'"
    using prelude_bound [OF assms] by blast
  have "bound ''connect'' 2 0 (Primitive_fn X_connect) False m'" "bound ''link'' 0 2 (Primitive_fn X_link) False m'"
    using b by (simp_all add: prelude_binds_def)
  with m' show ?thesis
    using prelude_gathers [OF b] logic_answers [OF b] integer_answers [OF b] double_answers [OF b] dup_answers [OF b]
    by (blast intro: bound_connect bound_link)
qed

lemma integer_answersD:
  assumes "integer_answers m" and "kept_number i" and "kept_number j"
  shows "answers m ''isub'' [number i, number j] (Inr [number (i - j)])"
    and "divided i j q r \<Longrightarrow> answers m ''idiv'' [number i, number j] (Inr [number q])"
    and "divided i j q r \<Longrightarrow> answers m ''imod'' [number i, number j] (Inr [number r])"
  using assms unfolding integer_answers_def by blast+

end
