(* ===== verification/Deque.thy ===== *)
theory Deque
  imports Linked_List
begin

text \<open>
  Double-ended queues (\<open>src/src/packages/std/deque/deque.c\<close>): a linked list behind a spin lock.
  Every operation takes the lock first and releases it last, so it is one step on the list. The
  lock is kept as a flag, which shows that each operation releases what it took; a lock that is
  taken already would be waited for, which no operation on one thread does.
\<close>

record 'a deque =
  deque_locked :: bool
  deque_list :: "'a list_t"

definition deque_new :: "'a deque" where
  "deque_new = \<lparr>deque_locked = False, deque_list = list_new\<rparr>"

definition deque_destroy :: "'a deque option \<Rightarrow> ('a option list \<times> 'a deque option) res" where
  "deque_destroy self_pointer =
     (case self_pointer of
        None \<Rightarrow> Inr ([], None)
      | Some self \<Rightarrow> bnd (list_destroy (Some (deque_list self))) (\<lambda>(vs, _). Inr (vs, None)))"

definition lock_deque :: "'a deque \<Rightarrow> 'a deque" where
  "lock_deque self = self\<lparr>deque_locked := True\<rparr>"

definition unlock_deque :: "'a deque \<Rightarrow> 'a deque" where
  "unlock_deque self = self\<lparr>deque_locked := False\<rparr>"

definition deque_length :: "'a deque \<Rightarrow> nat \<times> 'a deque" where
  "deque_length self =
     (let self = lock_deque self; length' = list_length (deque_list self)
      in (length', unlock_deque self))"

definition deque_is_empty :: "'a deque \<Rightarrow> bool \<times> 'a deque" where
  "deque_is_empty self =
     (let self = lock_deque self; is_empty = list_is_empty (deque_list self)
      in (is_empty, unlock_deque self))"

definition deque_push_front :: "'a deque \<Rightarrow> 'a option \<Rightarrow> 'a deque res" where
  "deque_push_front self v =
     (let self = lock_deque self
      in bnd (list_unshift (deque_list self) v) (\<lambda>l. Inr (unlock_deque (self\<lparr>deque_list := l\<rparr>))))"

definition deque_pop_front :: "'a deque \<Rightarrow> ('a option \<times> 'a deque) res" where
  "deque_pop_front self =
     (let self = lock_deque self
      in bnd (list_shift (deque_list self)) (\<lambda>(v, l). Inr (v, unlock_deque (self\<lparr>deque_list := l\<rparr>))))"

definition deque_push_back :: "'a deque \<Rightarrow> 'a option \<Rightarrow> 'a deque res" where
  "deque_push_back self v =
     (let self = lock_deque self
      in bnd (list_push (deque_list self) v) (\<lambda>l. Inr (unlock_deque (self\<lparr>deque_list := l\<rparr>))))"

definition deque_pop_back :: "'a deque \<Rightarrow> ('a option \<times> 'a deque) res" where
  "deque_pop_back self =
     (let self = lock_deque self
      in bnd (list_pop (deque_list self)) (\<lambda>(v, l). Inr (v, unlock_deque (self\<lparr>deque_list := l\<rparr>))))"

definition deque_get :: "'a deque \<Rightarrow> nat \<Rightarrow> ('a option \<times> 'a deque) loop" where
  "deque_get self index =
     (let self = lock_deque self
      in lbnd (list_get (deque_list self) index) (\<lambda>v. Some (Inr (v, unlock_deque self))))"

section \<open>Deques are double-ended sequences\<close>

definition deque_rep :: "'a deque \<Rightarrow> 'a option list \<Rightarrow> bool" where
  "deque_rep self xs \<longleftrightarrow> \<not> deque_locked self \<and> list_rep (deque_list self) xs"

lemma deque_rep_new: "deque_rep deque_new []"
  by (simp add: deque_rep_def deque_new_def list_rep_new)

lemma deque_list_locks [simp]:
  "deque_list (lock_deque self) = deque_list self"
  "deque_list (unlock_deque self) = deque_list self"
  "deque_locked (unlock_deque self) = False"
  by (simp_all add: lock_deque_def unlock_deque_def)

interpretation deque: double_ended deque_rep deque_push_back deque_push_front deque_pop_back deque_pop_front
proof unfold_locales
  fix s :: "'a deque" and xs v
  show "\<exists>s'. deque_push_back s v = Inr s' \<and> deque_rep s' (xs @ [v])" if "deque_rep s xs"
    using that linked.push_back_rep [of "deque_list s" xs v]
    by (auto simp: deque_rep_def deque_push_back_def)
  show "\<exists>s'. deque_push_front s v = Inr s' \<and> deque_rep s' (v # xs)" if "deque_rep s xs"
    using that linked.push_front_rep [of "deque_list s" xs v]
    by (auto simp: deque_rep_def deque_push_front_def)
  show "\<exists>s'. deque_pop_back s = Inr (v, s') \<and> deque_rep s' xs" if "deque_rep s (xs @ [v])"
    using that linked.pop_back_rep [of "deque_list s" xs v]
    by (auto simp: deque_rep_def deque_pop_back_def)
  show "\<exists>s'. deque_pop_front s = Inr (v, s') \<and> deque_rep s' xs" if "deque_rep s (v # xs)"
    using that linked.pop_front_rep [of "deque_list s" v xs]
    by (auto simp: deque_rep_def deque_pop_front_def)
  show "\<exists>s'. deque_pop_back s = Inr (None, s') \<and> deque_rep s' []" if "deque_rep s []"
    using that linked.pop_back_empty [of "deque_list s"]
    by (auto simp: deque_rep_def deque_pop_back_def)
  show "\<exists>s'. deque_pop_front s = Inr (None, s') \<and> deque_rep s' []" if "deque_rep s []"
    using that linked.pop_front_empty [of "deque_list s"]
    by (auto simp: deque_rep_def deque_pop_front_def)
qed

lemma deque_length_rep: "deque_rep self xs \<Longrightarrow> fst (deque_length self) = length xs"
  by (auto simp: deque_rep_def deque_length_def list_rep_def list_ok_length)

lemma deque_get_rep:
  assumes "deque_rep self xs"
  shows "\<exists>self'. deque_get self i = Some (Inr (slot None xs i, self')) \<and> deque_rep self' xs"
  using assms list_get_rep [of "deque_list self" xs i]
  by (simp add: deque_rep_def deque_get_def)

end
