(* ===== verification/Set_Table.thy ===== *)
theory Set_Table
  imports Hash_Table
begin

text \<open>
  Sets (\<open>src/src/packages/std/set/set.c\<close>): hash tables whose value is the key itself. A set does
  not hold NULL.
\<close>

record 'a set_t =
  value_table :: "('a, 'a) hash"

definition set_new :: "('a \<Rightarrow> u64) \<Rightarrow> 'a set_t" where
  "set_new address = \<lparr>value_table = hash_new address\<rparr>"

definition set_destroy :: "'a set_t option \<Rightarrow> (('a, 'a) destroyed list \<times> 'a set_t option) res" where
  "set_destroy self_pointer =
     (case self_pointer of
        None \<Rightarrow> Inr ([], None)
      | Some self \<Rightarrow> bnd (hash_destroy (Some (value_table self))) (\<lambda>(ds, _). Inr (ds, None)))"

definition set_set_hash_fn :: "'a set_t \<Rightarrow> ('a \<Rightarrow> u64) \<Rightarrow> 'a set_t" where
  "set_set_hash_fn self f = self\<lparr>value_table := hash_set_hash_fn (value_table self) f\<rparr>"

definition set_set_destroy_fn :: "'a set_t \<Rightarrow> 'a set_t" where
  "set_set_destroy_fn self = self\<lparr>value_table := hash_set_key_destroy_fn (value_table self)\<rparr>"

definition set_set_equal_fn :: "'a set_t \<Rightarrow> ('a \<Rightarrow> 'a \<Rightarrow> bool) \<Rightarrow> 'a set_t" where
  "set_set_equal_fn self f = self\<lparr>value_table := hash_set_key_equal_fn (value_table self) f\<rparr>"

definition set_new_with :: "('a \<Rightarrow> u64) \<Rightarrow> 'a set_t" where
  "set_new_with address = set_set_destroy_fn (set_new address)"

definition string_set_new :: "string set_t" where
  "string_set_new = set_set_equal_fn (set_set_destroy_fn
     (set_set_hash_fn (set_new (\<lambda>_. 0)) string_bernstein_hash)) string_equal"

definition set_length :: "'a set_t \<Rightarrow> u64" where "set_length self = hash_length (value_table self)"

definition set_add :: "'a set_t \<Rightarrow> 'a \<Rightarrow> (bool \<times> 'a set_t) res" where
  "set_add self v =
     bnd (hash_set (value_table self) v (Some v)) (\<lambda>(b, h). Inr (b, self\<lparr>value_table := h\<rparr>))"

definition set_put :: "'a set_t \<Rightarrow> 'a \<Rightarrow> (('a, 'a) destroyed list \<times> 'a set_t) res" where
  "set_put self v =
     bnd (hash_put (value_table self) v (Some v)) (\<lambda>(ds, h). Inr (ds, self\<lparr>value_table := h\<rparr>))"

definition set_has :: "'a set_t \<Rightarrow> 'a \<Rightarrow> bool res" where
  "set_has self v = hash_has (value_table self) v"

definition set_delete :: "'a set_t \<Rightarrow> 'a \<Rightarrow> (bool \<times> ('a, 'a) destroyed list \<times> 'a set_t) res" where
  "set_delete self v =
     bnd (hash_delete (value_table self) v) (\<lambda>(b, ds, h). Inr (b, ds, self\<lparr>value_table := h\<rparr>))"

definition set_first :: "'a set_t \<Rightarrow> ('a option \<times> 'a set_t) res" where
  "set_first self =
     bnd (hash_first (value_table self)) (\<lambda>(v, h). Inr (v, self\<lparr>value_table := h\<rparr>))"

definition set_next :: "'a set_t \<Rightarrow> ('a option \<times> 'a set_t) res" where
  "set_next self =
     bnd (hash_next (value_table self)) (\<lambda>(v, h). Inr (v, self\<lparr>value_table := h\<rparr>))"

text \<open>The loop of \<open>set_to_list\<close> and \<open>set_to_array\<close>: the values up to the first NULL.\<close>

partial_function (option) each_value ::
    "('b \<Rightarrow> 'a option \<Rightarrow> 'b res) \<Rightarrow> 'a option \<Rightarrow> 'a set_t \<Rightarrow> 'b \<Rightarrow> ('b \<times> 'a set_t) loop" where
  "each_value push v self out =
     (if v = None then Some (Inr (out, self))
      else (case push out v of
              Inl e \<Rightarrow> Some (Inl e)
            | Inr out \<Rightarrow>
                (case set_next self of
                   Inl e \<Rightarrow> Some (Inl e)
                 | Inr (v, self) \<Rightarrow> each_value push v self out)))"

declare each_value.simps [code]

definition set_to_list :: "'a set_t \<Rightarrow> ('a list_t \<times> 'a set_t) loop" where
  "set_to_list self =
     lbnd (Some (set_first self)) (\<lambda>(v, self). each_value list_push v self list_new)"

definition set_to_array :: "'a set_t \<Rightarrow> ('a array \<times> 'a set_t) loop" where
  "set_to_array self =
     lbnd (Some (set_first self)) (\<lambda>(v, self). each_value array_push v self array_new_auto)"

section \<open>Sets represent sets\<close>

definition set_ok :: "'a set_t \<Rightarrow> bool" where
  "set_ok self \<longleftrightarrow> hash_ok (value_table self) \<and>
     (\<forall>e \<in> set (concat (h_entries (value_table self))). e_value e = Some (e_key e))"

definition members :: "'a set_t \<Rightarrow> 'a set" where
  "members self = dom (hash_lookup (value_table self))"

lemma set_ok_lookup:
  "set_ok self \<longleftrightarrow> hash_ok (value_table self) \<and>
     (\<forall>k v. hash_lookup (value_table self) k = Some v \<longrightarrow> v = Some k)"
  unfolding set_ok_def using hash_lookup_Some by fastforce

lemma set_new_ok: "set_ok (set_new f)" "members (set_new f) = {}"
  by (auto simp: set_ok_lookup set_new_def hash_new_ok members_def)

lemma set_has_members: "set_ok self \<Longrightarrow> set_has self v = Inr (v \<in> members self)"
  by (auto simp: set_ok_lookup set_has_def hash_get_lookup members_def)

lemma set_add_members:
  assumes "set_ok self" and "hash_room (value_table self)"
  shows "\<exists>self'. set_add self v = Inr (v \<notin> members self, self') \<and> set_ok self' \<and>
    members self' = insert v (members self)"
proof -
  have ok: "hash_ok (value_table self)" using assms(1) by (simp add: set_ok_lookup)
  obtain h where h: "hash_set (value_table self) v (Some v) = Inr (hash_lookup (value_table self) v = None, h)"
      "hash_ok h" "hash_lookup h = (if hash_lookup (value_table self) v = None
         then (hash_lookup (value_table self))(v \<mapsto> Some v) else hash_lookup (value_table self))"
    using table.add_law [OF ok assms(2)] by blast
  have "set_ok (self\<lparr>value_table := h\<rparr>)"
    using h assms(1) by (auto simp: set_ok_lookup)
  moreover have "members (self\<lparr>value_table := h\<rparr>) = insert v (members self)"
    using h(3) by (auto simp: members_def)
  ultimately show ?thesis
    using h(1) by (auto simp: set_add_def members_def)
qed

lemma set_delete_members:
  assumes "set_ok self"
  shows "\<exists>ds self'. set_delete self v = Inr (v \<in> members self, ds, self') \<and> set_ok self' \<and>
    members self' = members self - {v}"
proof -
  have ok: "hash_ok (value_table self)" using assms(1) by (simp add: set_ok_lookup)
  obtain ds h where h: "hash_delete (value_table self) v = Inr (hash_lookup (value_table self) v \<noteq> None, ds, h)"
      "hash_ok h" "hash_lookup h = (hash_lookup (value_table self))(v := None)"
    using table.delete_law [OF ok] by blast
  have "set_ok (self\<lparr>value_table := h\<rparr>)"
    using h assms(1) by (auto simp: set_ok_lookup)
  moreover have "members (self\<lparr>value_table := h\<rparr>) = members self - {v}"
    using h(3) by (auto simp: members_def)
  ultimately show ?thesis
    using h(1) by (auto simp: set_delete_def members_def)
qed

text \<open>Visiting a set pushes each of its values once.\<close>

lemma each_value_ok:
  fixes rep :: "'b \<Rightarrow> 'a option list \<Rightarrow> bool"
  assumes push: "\<And>out xs w. rep out xs \<Longrightarrow> \<exists>out'. push out w = Inr out' \<and> rep out' (xs @ [w])"
    and "hash_ok (value_table self)" and "cursor_ok (value_table self)" and "rep out xs"
    and "\<forall>e \<in> set (remaining (value_table self)). e_value e \<noteq> None"
  shows "\<exists>out' self' self0. set_next self = Inr (case remaining (value_table self) of [] \<Rightarrow> None | e # _ \<Rightarrow> e_value e, self0) \<and>
    each_value push (case remaining (value_table self) of [] \<Rightarrow> None | e # _ \<Rightarrow> e_value e) self0 out = Some (Inr (out', self')) \<and>
    rep out' (xs @ map e_value (remaining (value_table self)))"
  using assms(2-)
proof (induction "remaining (value_table self)" arbitrary: self out xs)
  case Nil
  from hash_next_ok [OF Nil.prems(1,2)] obtain h where "hash_next (value_table self) = Inr (None, h)"
    using Nil.hyps by auto
  with Nil show ?case by (subst each_value.simps) (auto simp: set_next_def simp flip: Nil.hyps)
next
  case (Cons e es)
  obtain h where h: "hash_next (value_table self) = Inr (e_value e, h)" "hash_ok h" "cursor_ok h" "remaining h = es"
    using hash_next_ok [OF Cons.prems(1,2)] by (auto simp flip: Cons.hyps(2))
  let ?s = "self\<lparr>value_table := h\<rparr>"
  have s: "set_next self = Inr (e_value e, ?s)" using h by (simp add: set_next_def)
  have ne: "e_value e \<noteq> None" and ne': "\<forall>e \<in> set (remaining (value_table ?s)). e_value e \<noteq> None"
    using Cons.prems(4) h(4) by (simp_all flip: Cons.hyps(2))
  obtain out1 where o: "push out (e_value e) = Inr out1" "rep out1 (xs @ [e_value e])"
    using push [OF Cons.prems(3)] by blast
  have h': "es = remaining (value_table ?s)" "hash_ok (value_table ?s)" "cursor_ok (value_table ?s)"
    using h by simp_all
  obtain out' self' self0 where r:
      "set_next ?s = Inr (case remaining (value_table ?s) of [] \<Rightarrow> None | e # _ \<Rightarrow> e_value e, self0)"
      "each_value push (case remaining (value_table ?s) of [] \<Rightarrow> None | e # _ \<Rightarrow> e_value e) self0 out1 = Some (Inr (out', self'))"
      "rep out' ((xs @ [e_value e]) @ map e_value (remaining (value_table ?s)))"
    using Cons.hyps(1) [OF h' o(2) ne'] by blast
  have "each_value push (e_value e) ?s out = Some (Inr (out', self'))"
    using o(1) r(1,2) ne by (subst each_value.simps) (auto split: option.splits)
  then show ?case
    using s r(3) h(4) by (auto simp flip: Cons.hyps(2))
qed

lemma set_visit:
  fixes rep :: "'b \<Rightarrow> 'a option list \<Rightarrow> bool"
  assumes "set_ok self" and "rep out []"
    and push: "\<And>out xs w. rep out xs \<Longrightarrow> \<exists>out'. push out w = Inr out' \<and> rep out' (xs @ [w])"
  shows "\<exists>out' self' xs. lbnd (Some (set_first self)) (\<lambda>(v, self). each_value push v self out) = Some (Inr (out', self')) \<and>
    rep out' (map Some xs) \<and> distinct xs \<and> set xs = members self"
proof -
  let ?h = "value_table self" and ?es = "concat (h_entries (value_table self))"
  have ok: "hash_ok ?h" and kv: "\<forall>e \<in> set ?es. e_value e = Some (e_key e)"
    using assms(1) by (simp_all add: set_ok_def del: set_concat)
  let ?s = "?h\<lparr>h_cursor_index := 0, h_cursor_entry := head_entry (h_entries ?h ! 0)\<rparr>"
  obtain h1 where f: "hash_first ?h = hash_next ?s" and r: "remaining ?s = ?es" and c: "cursor_ok ?s"
  proof
    have lt: "0 < length (h_entries ?h)"
      using ok hash_primes_nth by (simp add: hash_ok_def)
    have "drop 0 (h_entries ?h) = h_entries ?h ! 0 # drop (Suc 0) (h_entries ?h)"
      using lt by (simp only: Cons_nth_drop_Suc)
    then have cc: "?es = h_entries ?h ! 0 @ concat (drop (Suc 0) (h_entries ?h))"
      by (metis concat.simps(2) drop0)
    show "remaining ?s = ?es"
      unfolding cc using chain_head [OF ok lt, of "[]"] by (simp add: remaining_def cursor_update cong: option.case_cong)
    show "cursor_ok ?s"
      using lt by (cases "h_entries ?h ! 0") (auto simp: cursor_ok_def head_entry_def)
    show "hash_first ?h = hash_next ?s"
      using lt by (simp add: hash_first_def at_def)
  qed
  let ?t = "self\<lparr>value_table := ?s\<rparr>"
  have "hash_ok (value_table ?t)" "cursor_ok (value_table ?t)" and rt: "remaining (value_table ?t) = ?es"
    using ok c r by (simp_all add: cursor_update)
  moreover have "\<forall>e \<in> set (remaining (value_table ?t)). e_value e \<noteq> None"
    using kv unfolding rt by simp
  ultimately obtain out' self' self0 where v:
      "set_next ?t = Inr (case ?es of [] \<Rightarrow> None | e # _ \<Rightarrow> e_value e, self0)"
      "each_value push (case ?es of [] \<Rightarrow> None | e # _ \<Rightarrow> e_value e) self0 out = Some (Inr (out', self'))"
      "rep out' (map e_value ?es)"
    using each_value_ok [where self = ?t and rep = rep, OF push _ _ assms(2)] unfolding rt by fastforce
  have "set_first self = set_next ?t"
    by (simp add: set_first_def set_next_def f)
  then have "lbnd (Some (set_first self)) (\<lambda>(v, self). each_value push v self out) = Some (Inr (out', self'))"
    using v(1,2) by (simp only: lbnd_simps prod.case)
  moreover have "map e_value ?es = map Some (map e_key ?es)"
    using kv by simp
  moreover have "distinct (map e_key ?es)" using ok by (simp add: hash_ok_def)
  moreover have "set (map e_key ?es) = members self"
    unfolding members_def hash_lookup_def dom_map_of_conv_image_fst by (simp add: image_image)
  ultimately show ?thesis
    using v(3) by (intro exI [of _ out'] exI [of _ self'] exI [of _ "map e_key ?es"] conjI) (simp_all only:)
qed

lemma set_to_list_ok:
  assumes "set_ok self"
  shows "\<exists>out self' xs. set_to_list self = Some (Inr (out, self')) \<and> list_rep out (map Some xs) \<and>
    distinct xs \<and> set xs = members self"
  using set_visit [OF assms list_rep_new list_push_rep] by (simp add: set_to_list_def)

lemma set_to_array_ok:
  assumes "set_ok self"
  shows "\<exists>out self' xs. set_to_array self = Some (Inr (out, self')) \<and>
    array_contents out = map Some xs \<and> distinct xs \<and> set xs = members self"
proof -
  let ?rep = "\<lambda>a xs. array_ok a \<and> array_contents a = xs"
  have "?rep array_new_auto []"
    by (simp add: array_ok_new_auto) (simp add: array_new_auto_def)
  from set_visit [where rep = ?rep and push = array_push, OF assms this] array_push_contents
  show ?thesis unfolding set_to_array_def by blast
qed

end
