(* ===== verification/Utf8.thy ===== *)
theory Utf8
  imports Prelude
begin

text \<open>
  UTF-8 (\<open>src/src/packages/std/utf8\<close>) and texts, which are arrays of code points
  (\<open>src/src/packages/std/text/text.c\<close>). A C string is the list of its bytes without the
  terminating NUL; the NUL itself can be read, and what follows it is undefined.
\<close>

unbundle bit_operations_syntax

type_synonym code_point = u32

definition byte_at :: "u8 list \<Rightarrow> nat \<Rightarrow> u8 res" where
  "byte_at s i = (if i < length s then Inr (s ! i) else if i = length s then Inr 0 else Inl Undefined)"

section \<open>Decoding\<close>

definition utf8_char_length :: "u8 \<Rightarrow> nat res" where
  "utf8_char_length byte =
     (if drop_bit 7 byte = 0x00 then Inr 1
      else if drop_bit 5 byte = 0x06 then Inr 2
      else if drop_bit 4 byte = 0x0E then Inr 3
      else if drop_bit 3 byte = 0x1E then Inr 4
      else Inl Exit_failure)"

definition bits_of :: "u8 \<Rightarrow> u8 \<Rightarrow> nat \<Rightarrow> code_point" where
  "bits_of mask' byte shift = push_bit shift (ucast (mask' AND byte))"

definition utf8_decode_at :: "u8 list \<Rightarrow> nat \<Rightarrow> code_point res" where
  "utf8_decode_at s i =
     bnd (byte_at s i) (\<lambda>byte_1.
     bnd (utf8_char_length byte_1) (\<lambda>byte_length.
       if byte_length = 1 then Inr (ucast byte_1)
       else if byte_length = 2 then
         bnd (byte_at s (i + 1)) (\<lambda>byte_2.
           Inr (bits_of 0x1F byte_1 6 + bits_of 0x3F byte_2 0))
       else if byte_length = 3 then
         bnd (byte_at s (i + 1)) (\<lambda>byte_2.
         bnd (byte_at s (i + 2)) (\<lambda>byte_3.
           Inr (bits_of 0x0F byte_1 12 + bits_of 0x3F byte_2 6 + bits_of 0x3F byte_3 0)))
       else if byte_length = 4 then
         bnd (byte_at s (i + 1)) (\<lambda>byte_2.
         bnd (byte_at s (i + 2)) (\<lambda>byte_3.
         bnd (byte_at s (i + 3)) (\<lambda>byte_4.
           Inr (bits_of 0x07 byte_1 18 + bits_of 0x3F byte_2 12 + bits_of 0x3F byte_3 6
                + bits_of 0x3F byte_4 0))))
       else Inl Exit_failure))"

definition utf8_decode :: "u8 list \<Rightarrow> code_point res" where
  "utf8_decode s = utf8_decode_at s 0"

record utf8_iter =
  it_cursor :: nat
  it_string :: "u8 list"

definition utf8_iter_new :: "u8 list \<Rightarrow> utf8_iter" where
  "utf8_iter_new s = \<lparr>it_cursor = 0, it_string = s\<rparr>"

definition utf8_iter_current :: "utf8_iter \<Rightarrow> code_point res" where
  "utf8_iter_current self =
     bnd (byte_at (it_string self) (it_cursor self)) (\<lambda>byte.
       if byte = 0 then Inr 0 else utf8_decode_at (it_string self) (it_cursor self))"

definition utf8_iter_first :: "utf8_iter \<Rightarrow> (code_point \<times> utf8_iter) res" where
  "utf8_iter_first self =
     (let self = self\<lparr>it_cursor := 0\<rparr>
      in bnd (utf8_iter_current self) (\<lambda>code_point. Inr (code_point, self)))"

definition utf8_iter_next :: "utf8_iter \<Rightarrow> (code_point \<times> utf8_iter) res" where
  "utf8_iter_next self =
     bnd (byte_at (it_string self) (it_cursor self)) (\<lambda>byte.
     bnd (utf8_char_length byte) (\<lambda>n.
       let self = self\<lparr>it_cursor := it_cursor self + n\<rparr>
       in bnd (utf8_iter_current self) (\<lambda>code_point. Inr (code_point, self))))"

text \<open>The loops over the code points of a string, which stop at code point 0.\<close>

partial_function (option) iter_loop :: "code_point \<Rightarrow> utf8_iter \<Rightarrow> code_point list loop" where
  "iter_loop code_point iter =
     (if code_point = 0 then Some (Inr [])
      else (case utf8_iter_next iter of
              Inl e \<Rightarrow> Some (Inl e)
            | Inr (next', iter) \<Rightarrow>
                lbnd (iter_loop next' iter) (\<lambda>code_points. Some (Inr (code_point # code_points)))))"

definition code_points_of :: "u8 list \<Rightarrow> code_point list loop" where
  "code_points_of s =
     lbnd (Some (utf8_iter_first (utf8_iter_new s))) (\<lambda>(code_point, iter). iter_loop code_point iter)"

definition utf8_string_length :: "u8 list \<Rightarrow> nat loop" where
  "utf8_string_length s = lbnd (code_points_of s) (\<lambda>code_points. Some (Inr (length code_points)))"

section \<open>Encoding\<close>

text \<open>
  A continuation byte is \<open>pattern_r | ((uint8_t) x << 2 >> 2)\<close>. The operand is promoted to
  \<open>int\<close> before it is shifted, so that the shifts lose nothing and all eight bits stay.
\<close>

definition continuation :: "code_point \<Rightarrow> u8" where
  "continuation x = 0x80 OR ucast (drop_bit 2 (push_bit 2 (ucast (ucast x :: u8) :: u32)))"

definition utf8_encode_into :: "code_point \<Rightarrow> u8 list res" where
  "utf8_encode_into cp =
     (if cp \<le> 0x007F then Inr [ucast cp]
      else if cp \<le> 0x07FF then Inr [0xC0 OR ucast (drop_bit 6 cp), continuation cp]
      else if cp \<le> 0xFFFF then
        Inr [0xE0 OR ucast (drop_bit 12 cp), continuation (drop_bit 6 cp), continuation cp]
      else if cp \<le> 0x10FFFF then
        Inr [0xF0 OR ucast (drop_bit 18 cp), continuation (drop_bit 12 cp),
             continuation (drop_bit 6 cp), continuation cp]
      else Inl Exit_failure)"

definition utf8_encode :: "code_point \<Rightarrow> u8 list res" where
  "utf8_encode cp = bnd (utf8_encode_into cp) (\<lambda>dest. Inr (takeWhile (\<lambda>b. b \<noteq> 0) dest))"

section \<open>Texts\<close>

type_synonym text_t = "code_point list"

definition text_from_string :: "u8 list \<Rightarrow> text_t loop" where
  "text_from_string s =
     lbnd (utf8_string_length s) (\<lambda>length'.
     lbnd (code_points_of s) (\<lambda>code_points.
       Some (defined_when (length code_points \<le> length') (Inr code_points))))"

definition text_length :: "text_t \<Rightarrow> nat" where "text_length self = length self"

definition text_get :: "text_t \<Rightarrow> nat \<Rightarrow> code_point res" where
  "text_get self index = deref (at self index) Inr"

definition text_equal :: "text_t \<Rightarrow> text_t \<Rightarrow> bool" where
  "text_equal left right \<longleftrightarrow>
     (if length left \<noteq> length right then False else left = right)"

definition text_copy :: "text_t \<Rightarrow> text_t" where "text_copy self = self"

definition text_append :: "text_t \<Rightarrow> text_t \<Rightarrow> text_t" where
  "text_append left right = left @ right"

definition text_slice :: "text_t \<Rightarrow> nat \<Rightarrow> nat \<Rightarrow> text_t res" where
  "text_slice self start end' =
     asserting (end' \<ge> start) (asserting (end' \<le> text_length self)
       (Inr (take (end' - start) (drop start self))))"

text \<open>The cursor moves by the length that the first byte just written announces.\<close>

fun text_bytes :: "text_t \<Rightarrow> u8 list res" where
  "text_bytes [] = Inr []"
| "text_bytes (cp # cps) =
     bnd (utf8_encode_into cp) (\<lambda>bytes.
     bnd (utf8_char_length (hd bytes)) (\<lambda>n.
     bnd (text_bytes cps) (\<lambda>rest.
       Inr (take n bytes @ replicate (n - length bytes) 0 @ rest))))"

definition text_to_string :: "text_t \<Rightarrow> u8 list res" where
  "text_to_string self = bnd (text_bytes self) (\<lambda>dest. Inr (takeWhile (\<lambda>b. b \<noteq> 0) dest))"

section \<open>Decoding what was encoded\<close>

lemma bit_0x80: "bit (0x80 :: u8) n \<longleftrightarrow> n = 7"
  and bit_0xC0: "bit (0xC0 :: u8) n \<longleftrightarrow> n = 6 \<or> n = 7"
  and bit_0xE0: "bit (0xE0 :: u8) n \<longleftrightarrow> n = 5 \<or> n = 6 \<or> n = 7"
  and bit_0xF0: "bit (0xF0 :: u8) n \<longleftrightarrow> n = 4 \<or> n = 5 \<or> n = 6 \<or> n = 7"
  and bit_0x3F: "bit (0x3F :: u8) n \<longleftrightarrow> n < 6"
  and bit_0x1F: "bit (0x1F :: u8) n \<longleftrightarrow> n < 5"
  and bit_0x0F: "bit (0x0F :: u8) n \<longleftrightarrow> n < 4"
  and bit_0x07: "bit (0x07 :: u8) n \<longleftrightarrow> n < 3"
proof -
  have small: "n \<in> {0,1,2,3,4,5,6,7} \<or> 8 \<le> n" by auto
  have high: "\<not> bit (w :: u8) n" if "8 \<le> n" for w using that by (simp add: bit_word.rep_eq)
  show "bit (0x80 :: u8) n \<longleftrightarrow> n = 7" using small high by auto
  show "bit (0xC0 :: u8) n \<longleftrightarrow> n = 6 \<or> n = 7" using small high by auto
  show "bit (0xE0 :: u8) n \<longleftrightarrow> n = 5 \<or> n = 6 \<or> n = 7" using small high by auto
  show "bit (0xF0 :: u8) n \<longleftrightarrow> n = 4 \<or> n = 5 \<or> n = 6 \<or> n = 7" using small high by auto
  show "bit (0x3F :: u8) n \<longleftrightarrow> n < 6" using small high by auto
  show "bit (0x1F :: u8) n \<longleftrightarrow> n < 5" using small high by auto
  show "bit (0x0F :: u8) n \<longleftrightarrow> n < 4" using small high by auto
  show "bit (0x07 :: u8) n \<longleftrightarrow> n < 3" using small high by auto
qed

lemmas bit_masks = bit_0x80 bit_0xC0 bit_0xE0 bit_0xF0 bit_0x3F bit_0x1F bit_0x0F bit_0x07

lemma bit_continuation: "bit (continuation x) n \<longleftrightarrow> n = 7 \<or> n < 8 \<and> bit x n"
  unfolding continuation_def bit_or_iff bit_0x80 by (auto simp: bit_simps)

lemma high_bits_clear:
  assumes "unat (w :: 'a :: len word) < 2 ^ k" and "k \<le> n"
  shows "\<not> bit w n"
proof -
  have "unat w < 2 ^ n" using assms by (meson less_le_trans one_le_numeral power_increasing)
  then have "\<not> bit (unat w) n" by (simp add: bit_iff_odd)
  then show ?thesis by (simp add: bit_unsigned_iff)
qed

lemma drop_bit_clear: "(\<And>n. k \<le> n \<Longrightarrow> \<not> bit (w :: u8) n) \<Longrightarrow> drop_bit k w = 0"
  by (rule bit_eqI) (simp add: bit_drop_bit_eq)

lemma utf8_char_length_patterns:
  "(\<And>n. 7 \<le> n \<Longrightarrow> \<not> bit w n) \<Longrightarrow> utf8_char_length w = Inr 1"
  "(\<And>n. 5 \<le> n \<Longrightarrow> \<not> bit w n) \<Longrightarrow> utf8_char_length (0xC0 OR w) = Inr 2"
  "(\<And>n. 4 \<le> n \<Longrightarrow> \<not> bit w n) \<Longrightarrow> utf8_char_length (0xE0 OR w) = Inr 3"
  "(\<And>n. 3 \<le> n \<Longrightarrow> \<not> bit w n) \<Longrightarrow> utf8_char_length (0xF0 OR w) = Inr 4"
  by (simp_all add: utf8_char_length_def drop_bit_clear)

lemma bit_bits_of:
  "bit (bits_of m b k) n \<longleftrightarrow> k \<le> n \<and> n < 32 \<and> bit m (n - k) \<and> bit b (n - k)"
  unfolding bits_of_def
  by (auto simp: bit_push_bit_iff bit_unsigned_iff bit_and_iff dest: bit_imp_le_length)

lemma two_parts:
  assumes "\<And>n. \<not> (bit x n \<and> bit (y :: u32) n)" and "\<And>n. n < 32 \<Longrightarrow> bit x n \<or> bit y n \<longleftrightarrow> bit z n"
  shows "x + y = z"
proof -
  have "x AND y = 0" by (rule bit_eqI) (use assms(1) in \<open>simp add: bit_and_iff\<close>)
  then have "x + y = x OR y" by (rule disjunctive_add_eq_or)
  also have "\<dots> = z" by (rule bit_eqI) (use assms(2) in \<open>auto simp: bit_or_iff\<close>)
  finally show ?thesis .
qed

lemma bit_lead:
  "bit (0xC0 OR ucast (drop_bit 6 cp) :: u8) n \<longleftrightarrow> n = 6 \<or> n = 7 \<or> n < 8 \<and> bit (cp :: u32) (6 + n)"
  "bit (0xE0 OR ucast (drop_bit 12 cp) :: u8) n \<longleftrightarrow> n = 5 \<or> n = 6 \<or> n = 7 \<or> n < 8 \<and> bit cp (12 + n)"
  "bit (0xF0 OR ucast (drop_bit 18 cp) :: u8) n \<longleftrightarrow> n = 4 \<or> n = 5 \<or> n = 6 \<or> n = 7 \<or> n < 8 \<and> bit cp (18 + n)"
  unfolding bit_or_iff bit_masks by (auto simp: bit_simps)

lemma u32_le_bound: "(cp :: u32) \<le> w \<Longrightarrow> unat w < b \<Longrightarrow> unat cp < b"
  by (simp add: word_le_nat_alt)

lemma part_bits:
  "bit (bits_of 0x3F b k) n \<longleftrightarrow> k \<le> n \<and> n < 32 \<and> n < k + 6 \<and> bit b (n - k)"
  "bit (bits_of 0x1F b k) n \<longleftrightarrow> k \<le> n \<and> n < 32 \<and> n < k + 5 \<and> bit b (n - k)"
  "bit (bits_of 0x0F b k) n \<longleftrightarrow> k \<le> n \<and> n < 32 \<and> n < k + 4 \<and> bit b (n - k)"
  "bit (bits_of 0x07 b k) n \<longleftrightarrow> k \<le> n \<and> n < 32 \<and> n < k + 3 \<and> bit b (n - k)"
  unfolding bit_bits_of bit_masks by linarith+

lemma cp_clear: "cp \<le> w \<Longrightarrow> unat w < 2 ^ k \<Longrightarrow> k \<le> n \<Longrightarrow> \<not> bit (cp :: u32) n"
  using high_bits_clear u32_le_bound by blast

lemma encode_two:
  assumes "cp \<le> 0x07FF"
  shows "bits_of 0x1F (0xC0 OR ucast (drop_bit 6 cp)) 6 + bits_of 0x3F (continuation cp) 0 = cp"
proof (rule two_parts)
  fix n :: nat assume n: "n < 32"
  have clear: "\<not> bit cp n" if "11 \<le> n" using cp_clear [OF assms _ that] by simp
  show "bit (bits_of 0x1F (0xC0 OR ucast (drop_bit 6 cp)) 6) n \<or> bit (bits_of 0x3F (continuation cp) 0) n
        \<longleftrightarrow> bit cp n"
    unfolding part_bits bit_lead bit_continuation
    using n clear by (cases "n < 6"; cases "n < 11") auto
qed (simp add: part_bits)

lemma last_part: "push_bit 6 (drop_bit 6 cp) + bits_of 0x3F (continuation cp) 0 = cp"
proof (rule two_parts)
  fix n :: nat assume n: "n < 32"
  show "bit (push_bit 6 (drop_bit 6 cp)) n \<or> bit (bits_of 0x3F (continuation cp) 0) n \<longleftrightarrow> bit cp n"
    unfolding part_bits bit_continuation bit_push_bit_iff bit_drop_bit_eq comp_def
    using n by (cases "n < 6") auto
qed (simp add: part_bits bit_push_bit_iff)

lemma middle_part:
  "push_bit 12 (drop_bit 12 cp) + bits_of 0x3F (continuation (drop_bit 6 cp)) 6 = push_bit 6 (drop_bit 6 cp)"
proof (rule two_parts)
  fix n :: nat assume n: "n < 32"
  show "bit (push_bit 12 (drop_bit 12 cp)) n \<or> bit (bits_of 0x3F (continuation (drop_bit 6 cp)) 6) n
        \<longleftrightarrow> bit (push_bit 6 (drop_bit 6 cp)) n"
    unfolding part_bits bit_continuation bit_push_bit_iff bit_drop_bit_eq comp_def
    using n by (cases "n < 6"; cases "n < 12") auto
qed (simp add: part_bits bit_push_bit_iff)

lemma encode_three:
  assumes "cp \<le> 0xFFFF"
  shows "bits_of 0x0F (0xE0 OR ucast (drop_bit 12 cp)) 12 + bits_of 0x3F (continuation (drop_bit 6 cp)) 6
         + bits_of 0x3F (continuation cp) 0 = cp"
proof -
  have "bits_of 0x0F (0xE0 OR ucast (drop_bit 12 cp)) 12 + bits_of 0x3F (continuation (drop_bit 6 cp)) 6
        = push_bit 6 (drop_bit 6 cp)"
  proof (rule two_parts)
    fix n :: nat assume n: "n < 32"
    have clear: "\<not> bit cp n" if "16 \<le> n" using cp_clear [OF assms _ that] by simp
    show "bit (bits_of 0x0F (0xE0 OR ucast (drop_bit 12 cp)) 12) n
          \<or> bit (bits_of 0x3F (continuation (drop_bit 6 cp)) 6) n
          \<longleftrightarrow> bit (push_bit 6 (drop_bit 6 cp)) n"
      unfolding part_bits bit_lead bit_continuation bit_push_bit_iff bit_drop_bit_eq comp_def
      using n clear by (cases "n < 6"; cases "n < 12"; cases "n < 16") auto
  qed (simp add: part_bits)
  then show ?thesis by (simp add: last_part)
qed

lemma encode_four:
  assumes "cp \<le> 0x10FFFF"
  shows "bits_of 0x07 (0xF0 OR ucast (drop_bit 18 cp)) 18 + bits_of 0x3F (continuation (drop_bit 12 cp)) 12
         + bits_of 0x3F (continuation (drop_bit 6 cp)) 6 + bits_of 0x3F (continuation cp) 0 = cp"
proof -
  have "bits_of 0x07 (0xF0 OR ucast (drop_bit 18 cp)) 18 + bits_of 0x3F (continuation (drop_bit 12 cp)) 12
        = push_bit 12 (drop_bit 12 cp)"
  proof (rule two_parts)
    fix n :: nat assume n: "n < 32"
    have clear: "\<not> bit cp n" if "21 \<le> n" using cp_clear [OF assms _ that] by simp
    show "bit (bits_of 0x07 (0xF0 OR ucast (drop_bit 18 cp)) 18) n
          \<or> bit (bits_of 0x3F (continuation (drop_bit 12 cp)) 12) n
          \<longleftrightarrow> bit (push_bit 12 (drop_bit 12 cp)) n"
      unfolding part_bits bit_lead bit_continuation bit_push_bit_iff bit_drop_bit_eq comp_def
      using n clear by (cases "n < 12"; cases "n < 18"; cases "n < 21") auto
  qed (simp add: part_bits)
  then show ?thesis by (simp add: middle_part last_part)
qed

section \<open>The two directions agree\<close>

lemma continuation_not_zero: "continuation x \<noteq> 0"
  using bit_continuation [of x 7] by auto

lemma lead_not_zero:
  "0xC0 OR (w :: u8) \<noteq> 0" "0xE0 OR w \<noteq> 0" "0xF0 OR w \<noteq> 0"
  using bit_masks [where n = 7] by (metis bit_0_eq bit_or_iff bot_apply bot_bool_def)+

lemma byte_at_in [simp]:
  "byte_at (pre @ bs @ rest) (length pre + i) = Inr (bs ! i)" if "i < length bs"
  using that by (simp add: byte_at_def nth_append)

lemma byte_at_first: "byte_at (pre @ b # rest) (length pre) = Inr b"
  by (simp add: byte_at_def)

lemma byte_at_second: "byte_at (pre @ b # c # rest) (Suc (length pre)) = Inr c"
  by (simp add: byte_at_def nth_append)

lemma byte_at_more:
  "byte_at (pre @ b # c # d # rest) (Suc (Suc (length pre))) = Inr d"
  "byte_at (pre @ b # c # d # e # rest) (Suc (Suc (Suc (length pre)))) = Inr e"
  "byte_at (pre @ b # c # d # e # rest) (length pre + 3) = Inr e"
  by (simp_all add: byte_at_def nth_append eval_nat_numeral)

lemmas byte_at_inside = byte_at_first byte_at_second byte_at_more

definition char_of :: "u8 list \<Rightarrow> code_point \<Rightarrow> bool" where
  "char_of bs cp \<longleftrightarrow>
     bs \<noteq> [] \<and> utf8_char_length (hd bs) = Inr (length bs) \<and>
     (\<forall>pre rest. utf8_decode_at (pre @ bs @ rest) (length pre) = Inr cp)"

lemma encode_lead:
  "(cp :: code_point) \<le> 0x007F \<Longrightarrow> utf8_char_length (ucast cp) = Inr 1"
  "cp \<le> 0x07FF \<Longrightarrow> utf8_char_length (0xC0 OR ucast (drop_bit 6 cp)) = Inr 2"
  "cp \<le> 0xFFFF \<Longrightarrow> utf8_char_length (0xE0 OR ucast (drop_bit 12 cp)) = Inr 3"
  "cp \<le> 0x10FFFF \<Longrightarrow> utf8_char_length (0xF0 OR ucast (drop_bit 18 cp)) = Inr 4"
proof -
  have bits: "\<not> bit cp n" if "cp \<le> w" "unat w < 2 ^ k" "k \<le> n" for w k n
    using that by (rule cp_clear)
  show "cp \<le> 0x007F \<Longrightarrow> utf8_char_length (ucast cp) = Inr 1"
    by (rule utf8_char_length_patterns(1)) (simp add: bit_unsigned_iff bits [where k = 7])
  show "cp \<le> 0x07FF \<Longrightarrow> utf8_char_length (0xC0 OR ucast (drop_bit 6 cp)) = Inr 2"
    by (rule utf8_char_length_patterns(2)) (simp add: bit_unsigned_iff bit_drop_bit_eq bits [where k = 11])
  show "cp \<le> 0xFFFF \<Longrightarrow> utf8_char_length (0xE0 OR ucast (drop_bit 12 cp)) = Inr 3"
    by (rule utf8_char_length_patterns(3)) (simp add: bit_unsigned_iff bit_drop_bit_eq bits [where k = 16])
  show "cp \<le> 0x10FFFF \<Longrightarrow> utf8_char_length (0xF0 OR ucast (drop_bit 18 cp)) = Inr 4"
    by (rule utf8_char_length_patterns(4)) (simp add: bit_unsigned_iff bit_drop_bit_eq bits [where k = 21])
qed

lemma utf8_encode_into_char_of:
  assumes "utf8_encode_into cp = Inr bs"
  shows "char_of bs cp"
proof -
  have cp: "cp \<le> 0x10FFFF"
  proof (rule ccontr)
    assume n: "\<not> cp \<le> 0x10FFFF"
    then have "\<not> cp \<le> 0x007F" "\<not> cp \<le> 0x07FF" "\<not> cp \<le> 0xFFFF" by (auto simp: word_le_nat_alt)
    with n assms show False by (simp add: utf8_encode_into_def)
  qed
  consider (1) "cp \<le> 0x007F" | (2) "\<not> cp \<le> 0x007F" "cp \<le> 0x07FF" | (3) "\<not> cp \<le> 0x007F" "\<not> cp \<le> 0x07FF" "cp \<le> 0xFFFF"
    | (4) "\<not> cp \<le> 0x007F" "\<not> cp \<le> 0x07FF" "\<not> cp \<le> 0xFFFF" by blast
  then show ?thesis
  proof cases
    case 1
    moreover have "ucast (ucast cp :: u8) = cp"
    proof (rule bit_eqI)
      fix n show "bit (ucast (ucast cp :: u8) :: code_point) n \<longleftrightarrow> bit cp n"
        using cp_clear [OF 1, of 7 n] bit_imp_le_length [of cp n]
        by (cases "n < 8") (auto simp: bit_unsigned_iff)
    qed
    ultimately show ?thesis using assms
      by (auto simp: utf8_encode_into_def char_of_def utf8_decode_at_def byte_at_inside encode_lead)
  next
    case 2 then show ?thesis using assms
      by (auto simp: utf8_encode_into_def char_of_def utf8_decode_at_def byte_at_inside encode_lead encode_two)
  next
    case 3 then show ?thesis using assms
      by (auto simp: utf8_encode_into_def char_of_def utf8_decode_at_def byte_at_inside encode_lead encode_three)
  next
    case 4 then show ?thesis using assms cp
      by (auto simp: utf8_encode_into_def char_of_def utf8_decode_at_def byte_at_inside encode_lead encode_four)
  qed
qed

lemma utf8_encode_into_defined: "cp \<le> 0x10FFFF \<Longrightarrow> \<exists>bs. utf8_encode_into cp = Inr bs"
  by (simp add: utf8_encode_into_def)

lemma utf8_encode_into_no_zero:
  "utf8_encode_into cp = Inr bs \<Longrightarrow> cp \<noteq> 0 \<Longrightarrow> 0 \<notin> set bs"
proof -
  assume enc: "utf8_encode_into cp = Inr bs" and cp: "cp \<noteq> 0"
  have "(ucast cp :: u8) \<noteq> 0" if "cp \<le> 0x007F"
  proof
    assume z: "(ucast cp :: u8) = 0"
    have "cp = 0"
    proof (rule bit_eqI)
      fix n show "bit cp n \<longleftrightarrow> bit (0 :: code_point) n"
        using cp_clear [OF that, of 7 n] z bit_ucast_iff [of cp n, where ?'a = 8]
        by (cases "n < 8") auto
    qed
    with cp show False by simp
  qed
  with enc show ?thesis
    by (auto simp: utf8_encode_into_def lead_not_zero continuation_not_zero
        continuation_not_zero [symmetric] split: if_splits)
qed

lemma text_bytes_Cons:
  "text_bytes (cp # cps) =
     bnd (utf8_encode_into cp) (\<lambda>bs. bnd (text_bytes cps) (\<lambda>rest. Inr (bs @ rest)))"
proof (cases "utf8_encode_into cp")
  case (Inr bs)
  then have "char_of bs cp" by (rule utf8_encode_into_char_of)
  with Inr show ?thesis by (simp add: char_of_def)
qed simp

lemma text_bytes_defined:
  "\<forall>cp\<in>set t. cp \<le> 0x10FFFF \<Longrightarrow> \<exists>bytes. text_bytes t = Inr bytes"
proof (induction t)
  case (Cons cp t)
  then show ?case
    using utf8_encode_into_defined [of cp] by (auto simp: text_bytes_Cons simp del: text_bytes.simps)
qed simp

text \<open>A list of bytes that the decoder reads as one code point.\<close>

definition spells :: "u8 list \<Rightarrow> code_point \<Rightarrow> bool" where
  "spells bs cp \<longleftrightarrow> char_of bs cp \<and> 0 \<notin> set bs"

lemma text_bytes_spelled:
  "text_bytes t = Inr bytes \<Longrightarrow> 0 \<notin> set t \<Longrightarrow> \<exists>bss. bytes = concat bss \<and> list_all2 spells bss t"
proof (induction t arbitrary: bytes)
  case (Cons cp t)
  then obtain bs rest where bs: "utf8_encode_into cp = Inr bs" "text_bytes t = Inr rest" "bytes = bs @ rest"
    by (auto simp: text_bytes_Cons bnd_eq_Inr simp del: text_bytes.simps)
  obtain bss where "rest = concat bss" "list_all2 spells bss t"
    using Cons.IH [OF bs(2)] Cons.prems(2) by auto
  moreover have "spells bs cp"
    using utf8_encode_into_char_of [OF bs(1)] utf8_encode_into_no_zero [OF bs(1)] Cons.prems(2)
    by (simp add: spells_def)
  ultimately show ?case using bs(3) by (intro exI [of _ "bs # bss"]) simp
qed simp

definition next_point :: "text_t \<Rightarrow> code_point" where
  "next_point t = (case t of [] \<Rightarrow> 0 | cp # _ \<Rightarrow> cp)"

lemma utf8_iter_current_spelled:
  assumes "list_all2 spells bss t"
  shows "utf8_iter_current \<lparr>it_cursor = length pre, it_string = pre @ concat bss\<rparr> = Inr (next_point t)"
proof (cases t)
  case Nil
  with assms show ?thesis by (simp add: utf8_iter_current_def byte_at_def next_point_def)
next
  case (Cons cp t')
  with assms obtain bs bss' where bss: "bss = bs # bss'" "char_of bs cp" "0 \<notin> set bs"
    by (auto simp: list_all2_Cons2 spells_def)
  then obtain b bs' where b: "bs = b # bs'" by (cases bs) (auto simp: char_of_def)
  moreover have "b \<noteq> 0" using bss(3) b by auto
  ultimately show ?thesis using bss Cons
    by (simp add: utf8_iter_current_def byte_at_first next_point_def)
       (metis append_Cons char_of_def)
qed

lemma iter_loop_spelled:
  assumes "list_all2 spells bss t" and "0 \<notin> set t"
  shows "iter_loop (next_point t) \<lparr>it_cursor = length pre, it_string = pre @ concat bss\<rparr> = Some (Inr t)"
  using assms
proof (induction t arbitrary: pre bss rule: list.induct)
  case Nil
  then show ?case by (simp add: next_point_def iter_loop.simps)
next
  case (Cons cp t)
  then obtain bs bss' where bss: "bss = bs # bss'" "spells bs cp" and rest: "list_all2 spells bss' t"
    by (auto simp: list_all2_Cons2)
  then have "char_of bs cp" by (simp add: spells_def)
  note bss = bss(1) this
  then obtain b bs' where b: "bs = b # bs'" by (cases bs) (auto simp: char_of_def)
  have "utf8_iter_next \<lparr>it_cursor = length pre, it_string = pre @ concat bss\<rparr> =
        Inr (next_point t, \<lparr>it_cursor = length (pre @ bs), it_string = (pre @ bs) @ concat bss'\<rparr>)"
    using bss b utf8_iter_current_spelled [OF rest, of "pre @ bs"]
    by (simp add: utf8_iter_next_def byte_at_first char_of_def)
  with Cons.IH [OF rest, of "pre @ bs"] Cons.prems(2) show ?case
    by (subst iter_loop.simps) (simp add: next_point_def)
qed

lemma text_from_spelled:
  assumes "list_all2 spells bss t" and "0 \<notin> set t"
  shows "text_from_string (concat bss) = Some (Inr t)"
proof -
  have "code_points_of (concat bss) = Some (Inr t)"
    using utf8_iter_current_spelled [OF assms(1), of "[]"] iter_loop_spelled [OF assms, of "[]"]
    by (simp add: code_points_of_def utf8_iter_first_def utf8_iter_new_def)
  then show ?thesis by (simp add: text_from_string_def utf8_string_length_def)
qed

lemma spelled_no_zero:
  assumes "list_all2 spells bss t"
  shows "takeWhile (\<lambda>b. b \<noteq> 0) (concat bss) = concat bss"
proof -
  have "\<forall>bs \<in> set bss. 0 \<notin> set bs"
    using assms by (induction rule: list_all2_induct) (simp_all add: spells_def)
  then show ?thesis unfolding takeWhile_eq_all_conv by auto
qed

lemma text_to_string_bytes: "text_bytes t = Inr bytes \<Longrightarrow> 0 \<notin> set t \<Longrightarrow> text_to_string t = Inr bytes"
  using text_bytes_spelled [of t bytes] spelled_no_zero 
  by (auto simp: text_to_string_def simp del: takeWhile_eq_all_conv)

lemma text_round_trip:
  assumes "\<forall>cp\<in>set t. cp \<le> 0x10FFFF" and "0 \<notin> set t"
  shows "\<exists>s. text_to_string t = Inr s \<and> text_from_string s = Some (Inr t)"
proof -
  obtain s where s: "text_bytes t = Inr s" using text_bytes_defined [OF assms(1)] by blast
  then show ?thesis
    using text_bytes_spelled [OF s assms(2)] text_from_spelled assms(2) text_to_string_bytes [OF s] by auto
qed

section \<open>UTF-8\<close>

text \<open>
  The encoding of the standard (RFC 3629): a continuation byte has the six low bits of its part and
  the two high bits 10.
\<close>

definition tail_byte :: "code_point \<Rightarrow> u8" where
  "tail_byte x = 0x80 OR (0x3F AND ucast x)"

definition standard_utf8 :: "code_point \<Rightarrow> u8 list" where
  "standard_utf8 cp =
     (if cp \<le> 0x007F then [ucast cp]
      else if cp \<le> 0x07FF then [0xC0 OR ucast (drop_bit 6 cp), tail_byte cp]
      else if cp \<le> 0xFFFF then [0xE0 OR ucast (drop_bit 12 cp), tail_byte (drop_bit 6 cp), tail_byte cp]
      else [0xF0 OR ucast (drop_bit 18 cp), tail_byte (drop_bit 12 cp), tail_byte (drop_bit 6 cp), tail_byte cp])"

text \<open>
  Where \<open>utf8_encode_into\<close> gives this: the bit above the six of each continuation byte is clear, which it
  should have cut off.
\<close>

definition encoded_as_standard :: "code_point \<Rightarrow> bool" where
  "encoded_as_standard cp \<longleftrightarrow>
     cp \<le> 0x007F \<or> \<not> bit cp 6 \<and> (cp \<le> 0x07FF \<or> \<not> bit cp 12 \<and> (cp \<le> 0xFFFF \<or> \<not> bit cp 18))"

lemma bit_tail_byte: "bit (tail_byte x) n \<longleftrightarrow> n = 7 \<or> n < 6 \<and> bit x n"
  unfolding tail_byte_def bit_or_iff bit_and_iff bit_0x80 bit_0x3F by (auto simp: bit_simps)

lemma tail_byte_continuation: "continuation x = tail_byte x \<longleftrightarrow> \<not> bit x 6"
proof
  assume "continuation x = tail_byte x"
  then have "bit (continuation x) 6 = bit (tail_byte x) 6" by simp
  then show "\<not> bit x 6" by (simp add: bit_continuation bit_tail_byte)
next
  assume b: "\<not> bit x 6"
  show "continuation x = tail_byte x"
  proof (rule bit_eqI)
    fix n
    show "bit (continuation x) n = bit (tail_byte x) n"
      unfolding bit_continuation bit_tail_byte using b by (cases "n = 6"; cases "n < 6") auto
  qed
qed

lemma standard_encoded:
  assumes "cp \<le> 0x10FFFF" and "utf8_encode_into cp = Inr bs"
  shows "bs = standard_utf8 cp \<longleftrightarrow> encoded_as_standard cp" and "length bs = length (standard_utf8 cp)"
  using assms
  by (auto simp: utf8_encode_into_def standard_utf8_def encoded_as_standard_def tail_byte_continuation
      bit_drop_bit_eq split: if_splits)

lemma bits_of_tail_byte: "bits_of 0x3F (tail_byte x) k = bits_of 0x3F (continuation x) k"
  by (rule bit_eqI) (auto simp: part_bits bit_continuation bit_tail_byte)

lemma standard_spells:
  assumes "cp \<le> 0x10FFFF" and "cp \<noteq> 0"
  shows "spells (standard_utf8 cp) cp"
proof -
  obtain bs where enc: "utf8_encode_into cp = Inr bs" using utf8_encode_into_defined [OF assms(1)] by blast
  have zero: "tail_byte x \<noteq> 0" for x using bit_tail_byte [of x 7] by auto
  have "char_of bs cp" "0 \<notin> set bs"
    using utf8_encode_into_char_of [OF enc] utf8_encode_into_no_zero [OF enc assms(2)] by simp_all
  then show ?thesis
    using enc assms(1) zero zero [symmetric] lead_not_zero lead_not_zero [symmetric]
    by (auto simp: utf8_encode_into_def standard_utf8_def spells_def char_of_def utf8_decode_at_def
        byte_at_inside bits_of_tail_byte encode_lead encode_two encode_three encode_four split: if_splits)
qed

lemma standard_text_read:
  assumes "\<forall>cp\<in>set t. cp \<le> 0x10FFFF" and "0 \<notin> set t"
  shows "text_from_string (concat (map standard_utf8 t)) = Some (Inr t)"
proof (rule text_from_spelled [OF _ assms(2)])
  show "list_all2 spells (map standard_utf8 t) t"
    using assms by (induction t) (auto intro: standard_spells)
qed

lemma text_written:
  assumes "\<forall>cp\<in>set t. cp \<le> 0x10FFFF" and "text_bytes t = Inr bytes"
  shows "bytes = concat (map standard_utf8 t) \<longleftrightarrow> (\<forall>cp\<in>set t. encoded_as_standard cp)"
  using assms
proof (induction t arbitrary: bytes)
  case (Cons cp t)
  then obtain bs rest where bs: "utf8_encode_into cp = Inr bs" "text_bytes t = Inr rest" "bytes = bs @ rest"
    by (auto simp: text_bytes_Cons bnd_eq_Inr simp del: text_bytes.simps)
  have "bytes = concat (map standard_utf8 (cp # t)) \<longleftrightarrow>
      bs = standard_utf8 cp \<and> rest = concat (map standard_utf8 t)"
    using standard_encoded(2) [OF _ bs(1)] Cons.prems(1) by (simp add: bs(3))
  then show ?case
    using standard_encoded(1) [OF _ bs(1)] Cons.IH [OF _ bs(2)] Cons.prems(1) by simp
qed simp

lemma text_standard:
  assumes "\<forall>cp\<in>set t. cp \<le> 0x10FFFF" and "0 \<notin> set t"
  shows "\<exists>s. text_to_string t = Inr s \<and> text_from_string s = Some (Inr t) \<and>
    (s = concat (map standard_utf8 t) \<longleftrightarrow> (\<forall>cp\<in>set t. encoded_as_standard cp))"
proof -
  obtain s where s: "text_bytes t = Inr s" using text_bytes_defined [OF assms(1)] by blast
  then show ?thesis
    using text_round_trip [OF assms] text_written [OF assms(1) s] text_to_string_bytes [OF s assms(2)] by auto
qed

lemma utf8_encode_keeps_bit_six: "utf8_encode 0xE9 = Inr [0xC3, 0xE9]"
  by code_simp

end
