(* ===== verification/Ownership.thy ===== *)
theory Ownership
  imports Prelude
begin

text \<open>
  Who frees what. Every object of the program is a block of memory, or several, with an address;
  the destructors (\<open>exp_destroy\<close>, \<open>stmt_destroy\<close>, \<open>sexp_destroy\<close> and the others) free the blocks
  they own. The state is the set of addresses that are allocated; freeing an address that is not
  is undefined. The objects of this theory are those of the source seen as the blocks they consist
  of: an address for the \<open>struct\<close>, one for each string, and what else it points to and owns.
  Pointers to objects that are not owned are left out.
\<close>

type_synonym blocks = "nat set"

definition free_block :: "nat \<Rightarrow> blocks \<Rightarrow> blocks res" where
  "free_block a live = defined_when (a \<in> live) (Inr (live - {a}))"

section \<open>What a destructor frees\<close>

text \<open>
  The exact meaning of a destructor: it frees the listed blocks, each once, and is undefined when
  one of them is not allocated or occurs twice.
\<close>

definition frees :: "(blocks \<Rightarrow> blocks res) \<Rightarrow> nat list \<Rightarrow> bool" where
  "frees run bs \<longleftrightarrow>
     (\<forall>live. run live = defined_when (distinct bs \<and> set bs \<subseteq> live) (Inr (live - set bs)))"

lemma frees_seq:
  assumes "frees r as" and "frees s bs"
  shows "frees (\<lambda>live. bnd (r live) s) (as @ bs)"
  using assms by (auto simp: frees_def defined_when_def Diff_eq)

lemma frees_none: "frees Inr []"
  by (simp add: frees_def)

lemma frees_free_block: "frees (free_block a) [a]"
  by (simp add: frees_def free_block_def defined_when_def)

lemma frees_then_free: "frees r as \<Longrightarrow> frees (\<lambda>live. bnd (r live) (free_block a)) (as @ [a])"
  by (rule frees_seq [OF _ frees_free_block])

lemma frees_when: "(b \<Longrightarrow> frees r as) \<Longrightarrow> frees (\<lambda>live. if b then r live else Inr live) (if b then as else [])"
  using frees_none by (cases b) simp_all

lemma freesD:
  "frees run bs \<Longrightarrow> distinct bs \<Longrightarrow> set bs \<subseteq> live \<Longrightarrow> run live = Inr (live - set bs)"
  by (simp add: frees_def)

lemma frees_double:
  "frees run bs \<Longrightarrow> distinct bs \<Longrightarrow> set bs \<subseteq> live \<Longrightarrow> bs \<noteq> [] \<Longrightarrow> bnd (run live) run = Inl Undefined"
  by (cases bs) (auto simp: frees_def defined_when_def)

section \<open>Pointers, arrays and lists\<close>

text \<open>A pointer that may be NULL: \<open>string_destroy\<close> and every other destructor of a NULL pointer does nothing.\<close>

definition destroy_pointer :: "('a \<Rightarrow> blocks \<Rightarrow> blocks res) \<Rightarrow> 'a option \<Rightarrow> blocks \<Rightarrow> blocks res" where
  "destroy_pointer destroy p live = (case p of None \<Rightarrow> Inr live | Some x \<Rightarrow> destroy x live)"

definition pointer_blocks :: "('a \<Rightarrow> nat list) \<Rightarrow> 'a option \<Rightarrow> nat list" where
  "pointer_blocks f p = (case p of None \<Rightarrow> [] | Some x \<Rightarrow> f x)"

text \<open>
  A list: the address of its \<open>struct\<close>, whether it has a \<open>destroy_fn\<close>, and the address of each
  node with its value.
\<close>

type_synonym 'a owned_list = "nat \<times> bool \<times> (nat \<times> 'a) list"

fun purge_nodes :: "('a \<Rightarrow> blocks \<Rightarrow> blocks res) \<Rightarrow> bool \<Rightarrow> (nat \<times> 'a) list \<Rightarrow> blocks \<Rightarrow> blocks res" where
  "purge_nodes destroy owns [] live = Inr live"
| "purge_nodes destroy owns ((a, v) # ns) live =
     bnd (if owns then destroy v live else Inr live) (\<lambda>live.
     bnd (free_block a live) (purge_nodes destroy owns ns))"

definition destroy_list :: "('a \<Rightarrow> blocks \<Rightarrow> blocks res) \<Rightarrow> 'a owned_list \<Rightarrow> blocks \<Rightarrow> blocks res" where
  "destroy_list destroy xs live =
     bnd (purge_nodes destroy (fst (snd xs)) (snd (snd xs)) live) (free_block (fst xs))"

text \<open>
  An array: the address of its \<open>struct\<close>, of the block of its values, whether it has a
  \<open>destroy_fn\<close>, and the values, NULL or not.
\<close>

type_synonym 'a owned_array = "nat \<times> nat \<times> bool \<times> 'a option list"

fun purge_slots :: "('a \<Rightarrow> blocks \<Rightarrow> blocks res) \<Rightarrow> 'a option list \<Rightarrow> blocks \<Rightarrow> blocks res" where
  "purge_slots destroy [] live = Inr live"
| "purge_slots destroy (p # ps) live = bnd (destroy_pointer destroy p live) (purge_slots destroy ps)"

definition destroy_array :: "('a \<Rightarrow> blocks \<Rightarrow> blocks res) \<Rightarrow> 'a owned_array \<Rightarrow> blocks \<Rightarrow> blocks res" where
  "destroy_array destroy xs live =
     (case xs of (a, values_block, owns, slots) \<Rightarrow>
        bnd (if owns then purge_slots destroy slots live else Inr live) (\<lambda>live.
        bnd (free_block values_block live) (free_block a)))"

text \<open>
  The blocks they free. With \<open>all\<close>, the blocks of a list include those of values it does not own.
\<close>

definition list_blocks :: "bool \<Rightarrow> ('a \<Rightarrow> nat list) \<Rightarrow> 'a owned_list \<Rightarrow> nat list" where
  "list_blocks all f xs =
     concat (map (\<lambda>(a, v). (if all \<or> fst (snd xs) then f v else []) @ [a]) (snd (snd xs))) @ [fst xs]"

definition array_freed :: "('a \<Rightarrow> nat list) \<Rightarrow> 'a owned_array \<Rightarrow> nat list" where
  "array_freed f xs =
     (case xs of (a, values_block, owns, slots) \<Rightarrow>
        (if owns then concat (map (pointer_blocks f) slots) else []) @ [values_block] @ [a])"

lemma destroy_pointer_cong [fundef_cong]:
  "p = p' \<Longrightarrow> live = live' \<Longrightarrow> (\<And>x l. p' = Some x \<Longrightarrow> d x l = d' x l) \<Longrightarrow>
     destroy_pointer d p live = destroy_pointer d' p' live'"
  by (cases p') (simp_all add: destroy_pointer_def)

lemma purge_nodes_cong:
  "(\<And>a v l. (a, v) \<in> set ns \<Longrightarrow> d v l = d' v l) \<Longrightarrow> purge_nodes d owns ns live = purge_nodes d' owns ns live"
proof (induction ns arbitrary: live)
  case (Cons n ns)
  obtain a v where n: "n = (a, v)" by (cases n)
  have "d v l = d' v l" for l by (rule Cons.prems [of a]) (simp add: n)
  moreover have "purge_nodes d owns ns l = purge_nodes d' owns ns l" for l
    by (rule Cons.IH) (erule Cons.prems [OF list.set_intros(2)])
  ultimately show ?case unfolding n purge_nodes.simps by presburger
qed simp

lemma destroy_list_cong [fundef_cong]:
  assumes "xs = xs'" and "live = live'" and "\<And>a v l. (a, v) \<in> set (snd (snd xs')) \<Longrightarrow> d v l = d' v l"
  shows "destroy_list d xs live = destroy_list d' xs' live'"
  unfolding destroy_list_def assms(1,2) by (simp only: purge_nodes_cong [OF assms(3)])

lemma frees_pointer:
  "(\<And>x. p = Some x \<Longrightarrow> frees (d x) (f x)) \<Longrightarrow> frees (destroy_pointer d p) (pointer_blocks f p)"
  using frees_none by (cases p) (simp_all add: destroy_pointer_def [abs_def] pointer_blocks_def)

lemma frees_nodes:
  assumes "\<And>a v. (a, v) \<in> set ns \<Longrightarrow> owns \<Longrightarrow> frees (d v) (f v)"
  shows "frees (purge_nodes d owns ns) (concat (map (\<lambda>(a, v). (if owns then f v else []) @ [a]) ns))"
  using assms
proof (induction ns)
  case Nil
  then show ?case using frees_none by (simp add: frees_def)
next
  case (Cons n ns)
  obtain a v where n: "n = (a, v)" by (cases n)
  have "frees (\<lambda>live. if owns then d v live else Inr live) (if owns then f v else [])"
    by (rule frees_when) (rule Cons.prems [of a], simp_all add: n)
  moreover have "frees (\<lambda>live. bnd (free_block a live) (purge_nodes d owns ns))
      ([a] @ concat (map (\<lambda>(a, v). (if owns then f v else []) @ [a]) ns))"
    by (intro frees_seq frees_free_block Cons.IH) (erule Cons.prems [OF list.set_intros(2)])
  ultimately have "frees (\<lambda>live. bnd (if owns then d v live else Inr live) (\<lambda>live. bnd (free_block a live) (purge_nodes d owns ns)))
      ((if owns then f v else []) @ [a] @ concat (map (\<lambda>(a, v). (if owns then f v else []) @ [a]) ns))"
    by (rule frees_seq)
  then show ?case by (simp add: n frees_def)
qed

lemma frees_list:
  "(\<And>a v. (a, v) \<in> set (snd (snd xs)) \<Longrightarrow> fst (snd xs) \<Longrightarrow> frees (d v) (f v)) \<Longrightarrow>
     frees (destroy_list d xs) (list_blocks False f xs)"
  unfolding destroy_list_def [abs_def] list_blocks_def simp_thms
  by (intro frees_then_free frees_nodes) blast

lemma frees_slots:
  "(\<And>v. Some v \<in> set ps \<Longrightarrow> frees (d v) (f v)) \<Longrightarrow>
     frees (purge_slots d ps) (concat (map (pointer_blocks f) ps))"
proof (induction ps)
  case Nil
  then show ?case using frees_none by (simp add: frees_def)
next
  case (Cons p ps)
  then have "frees (\<lambda>live. bnd (destroy_pointer d p live) (purge_slots d ps))
      (pointer_blocks f p @ concat (map (pointer_blocks f) ps))"
    by (intro frees_seq frees_pointer) auto
  then show ?case by (simp add: frees_def)
qed

lemma frees_array:
  assumes "\<And>v. Some v \<in> set (snd (snd (snd xs))) \<Longrightarrow> frees (d v) (f v)"
  shows "frees (destroy_array d xs) (array_freed f xs)"
proof (cases xs)
  case (fields a b owns slots)
  have "frees (\<lambda>live. bnd (if owns then purge_slots d slots live else Inr live) (\<lambda>live. bnd (free_block b live) (free_block a)))
      ((if owns then concat (map (pointer_blocks f) slots) else []) @ [b] @ [a])"
    using assms by (intro frees_seq frees_when frees_slots frees_free_block) (simp add: fields)
  then show ?thesis by (simp add: destroy_array_def [abs_def] array_freed_def fields)
qed

lemma list_blocks_cong [fundef_cong]:
  assumes "xs = xs'" and "\<And>a v. (a, v) \<in> set (snd (snd xs')) \<Longrightarrow> f v = f' v"
  shows "list_blocks all f xs = list_blocks all f' xs'"
proof -
  have "map (\<lambda>(a, v). (if all \<or> owns then f v else []) @ [a]) ns = map (\<lambda>(a, v). (if all \<or> owns then f' v else []) @ [a]) ns"
    if "set ns \<subseteq> set (snd (snd xs'))" for owns ns
    using that assms(2) by (auto intro!: map_cong)
  then show ?thesis unfolding list_blocks_def assms(1) by (simp only: order_refl)
qed

lemma pointer_blocks_cong [fundef_cong]:
  "p = p' \<Longrightarrow> (\<And>x. p' = Some x \<Longrightarrow> f x = f' x) \<Longrightarrow> pointer_blocks f p = pointer_blocks f' p'"
  by (cases p') (simp_all add: pointer_blocks_def)

section \<open>Tokens, S-expressions and expressions\<close>

datatype token_object = Token_object nat nat

text \<open>The \<open>struct\<close> and its string.\<close>

definition token_destroy :: "token_object \<Rightarrow> blocks \<Rightarrow> blocks res" where
  "token_destroy self live =
     (case self of Token_object a text_block \<Rightarrow> bnd (free_block text_block live) (free_block a))"

datatype sexp_object =
    Atom_object nat token_object
  | List_object nat token_object "token_object option" "sexp_object owned_list"

definition atom_sexp_destroy :: "nat \<Rightarrow> blocks \<Rightarrow> blocks res" where
  "atom_sexp_destroy a live = free_block a live"

function sexp_destroy :: "sexp_object \<Rightarrow> blocks \<Rightarrow> blocks res" where
  "sexp_destroy (Atom_object a token) live = atom_sexp_destroy a live"
| "sexp_destroy (List_object a start_token end_token sexp_list) live =
     bnd (destroy_list sexp_destroy sexp_list live) (free_block a)"
  by pat_completeness auto

lemma size_cell: "(a, v) \<in> set ns \<Longrightarrow> f v \<le> size_list (size_prod (\<lambda>_. 0) f) ns"
  by (induction ns) auto

termination sexp_destroy
  by (relation "measure (size \<circ> fst)") (auto dest!: size_cell [of _ _ _ size])

datatype exp_object =
    Var_object nat nat
  | Ap_object nat exp_object "exp_object owned_list"
  | Assign_object nat "nat owned_list" "exp_object option"
  | Int_object nat
  | Float_object nat

function exp_destroy :: "exp_object \<Rightarrow> blocks \<Rightarrow> blocks res" where
  "exp_destroy (Var_object a name) live = bnd (free_block name live) (free_block a)"
| "exp_destroy (Ap_object a target arg_list) live =
     bnd (exp_destroy target live) (\<lambda>live.
     bnd (destroy_list exp_destroy arg_list live) (free_block a))"
| "exp_destroy (Assign_object a name_list exp) live =
     bnd (destroy_list free_block name_list live) (\<lambda>live.
     bnd (destroy_pointer exp_destroy exp live) (free_block a))"
| "exp_destroy (Int_object a) live = free_block a live"
| "exp_destroy (Float_object a) live = free_block a live"
  by pat_completeness auto

termination exp_destroy
  by (relation "measure (size \<circ> fst)") (auto dest!: size_cell [of _ _ _ size])

text \<open>The blocks these destructors free.\<close>

fun token_blocks :: "token_object \<Rightarrow> nat list" where
  "token_blocks (Token_object a text_block) = [text_block, a]"

function exp_blocks :: "exp_object \<Rightarrow> nat list" where
  "exp_blocks (Var_object a name) = [name, a]"
| "exp_blocks (Ap_object a target arg_list) = exp_blocks target @ list_blocks False exp_blocks arg_list @ [a]"
| "exp_blocks (Assign_object a name_list exp) =
     list_blocks False (\<lambda>b. [b]) name_list @ pointer_blocks exp_blocks exp @ [a]"
| "exp_blocks (Int_object a) = [a]"
| "exp_blocks (Float_object a) = [a]"
  by pat_completeness auto

termination exp_blocks
  by (relation "measure size") (auto dest!: size_cell [of _ _ _ size])

function sexp_blocks :: "sexp_object \<Rightarrow> nat list" where
  "sexp_blocks (Atom_object a token) = [a]"
| "sexp_blocks (List_object a start_token end_token sexp_list) = list_blocks False sexp_blocks sexp_list @ [a]"
  by pat_completeness auto

termination sexp_blocks
  by (relation "measure size") (auto dest!: size_cell [of _ _ _ size])

text \<open>The blocks of the tokens that an S-expression points to.\<close>

function sexp_token_blocks :: "sexp_object \<Rightarrow> nat list" where
  "sexp_token_blocks (Atom_object a token) = token_blocks token"
| "sexp_token_blocks (List_object a start_token end_token sexp_list) =
     token_blocks start_token @ pointer_blocks token_blocks end_token
       @ concat (map (\<lambda>(a, v). sexp_token_blocks v) (snd (snd sexp_list)))"
  by pat_completeness auto

termination sexp_token_blocks
  by (relation "measure size") (auto dest!: size_cell [of _ _ _ size])

lemma frees_token: "frees (token_destroy token) (token_blocks token)"
proof (cases token)
  case (Token_object a b)
  have "frees (\<lambda>live. bnd (free_block b live) (free_block a)) ([b] @ [a])"
    by (intro frees_seq frees_free_block)
  then show ?thesis by (simp add: token_destroy_def [abs_def] Token_object)
qed

lemma frees_cong: "(\<And>live. run live = run' live) \<Longrightarrow> frees run' bs \<Longrightarrow> frees run bs"
  by (simp add: frees_def)

lemma frees_exp: "frees (exp_destroy e) (exp_blocks e)"
proof (induction e rule: exp_blocks.induct)
  case (1 a name)
  have "frees (\<lambda>live. bnd (free_block name live) (free_block a)) ([name] @ [a])"
    by (intro frees_seq frees_free_block)
  then show ?case by (auto intro: frees_cong)
next
  case (2 a target arg_list)
  have "frees (\<lambda>live. bnd (exp_destroy target live) (\<lambda>live. bnd (destroy_list exp_destroy arg_list live) (free_block a)))
      (exp_blocks target @ list_blocks False exp_blocks arg_list @ [a])"
    by (intro frees_seq frees_then_free frees_list 2)
  then show ?case by (auto intro: frees_cong)
next
  case (3 a name_list exp)
  have "frees (\<lambda>live. bnd (destroy_list free_block name_list live) (\<lambda>live. bnd (destroy_pointer exp_destroy exp live) (free_block a)))
      (list_blocks False (\<lambda>b. [b]) name_list @ pointer_blocks exp_blocks exp @ [a])"
    by (intro frees_seq frees_then_free frees_list frees_pointer frees_free_block 3)
  then show ?case by (auto intro: frees_cong)
next
  case (4 a)
  show ?case by (rule frees_cong [of _ "free_block a"]) (simp_all add: frees_free_block)
next
  case (5 a)
  show ?case by (rule frees_cong [of _ "free_block a"]) (simp_all add: frees_free_block)
qed

lemma frees_sexp: "frees (sexp_destroy e) (sexp_blocks e)"
proof (induction e rule: sexp_blocks.induct)
  case (1 a token)
  show ?case
    by (rule frees_cong [of _ "free_block a"]) (simp_all add: frees_free_block atom_sexp_destroy_def)
next
  case (2 a start_token end_token sexp_list)
  have "frees (\<lambda>live. bnd (destroy_list sexp_destroy sexp_list live) (free_block a))
      (list_blocks False sexp_blocks sexp_list @ [a])"
    by (intro frees_then_free frees_list 2)
  then show ?case by (auto intro: frees_cong)
qed

end
