(* ===== verification/Syntax_Memory.thy ===== *)
theory Syntax_Memory
  imports Ownership Lang_Syntax "HOL-Library.Multiset"
begin

text \<open>
  The memory of the parsed program. The parsers of \<open>src/src/lang\<close> and \<open>sexp.c\<close> allocate an object
  for every S-expression, expression and statement, which \<open>load_mod\<close> (\<open>src/src/lang/load.c\<close>)
  destroys at the end. New blocks are numbered from a counter. The objects are those the
  constructors and the parsers make: every list of them has the \<open>destroy_fn\<close> of its values.
\<close>

section \<open>Statements and paths\<close>

text \<open>A stack of strings owned by a path: its \<open>struct\<close> and its array.\<close>

datatype path_object = Path_object nat "nat \<times> nat owned_array" "nat option"

definition destroy_stack :: "('a \<Rightarrow> blocks \<Rightarrow> blocks res) \<Rightarrow> nat \<times> 'a owned_array \<Rightarrow> blocks \<Rightarrow> blocks res" where
  "destroy_stack destroy xs live =
     (case xs of (a, array_block, values_block, owns, slots) \<Rightarrow>
        bnd (if owns then purge_slots destroy slots live else Inr live) (\<lambda>live.
        bnd (destroy_array destroy (array_block, values_block, owns, map (\<lambda>_. None) slots) live)
          (free_block a)))"

definition path_destroy :: "path_object \<Rightarrow> blocks \<Rightarrow> blocks res" where
  "path_destroy self live =
     (case self of Path_object a segments string_block \<Rightarrow>
        bnd (destroy_stack free_block segments live) (\<lambda>live.
        bnd (destroy_pointer free_block string_block live) (free_block a)))"

datatype stmt_object =
    Define_object nat nat exp_object
  | Define_function_object nat nat "nat owned_list" "exp_object owned_list"
  | Define_node_object nat nat "nat owned_list"
  | Define_rule_object nat exp_object "exp_object owned_list"
  | Define_rule_star_object nat "exp_object owned_list" "exp_object owned_list"
  | Run_exp_object nat exp_object
  | Import_object nat "nat owned_list" "path_object option"

fun stmt_destroy :: "stmt_object \<Rightarrow> blocks \<Rightarrow> blocks res" where
  "stmt_destroy (Define_object a name exp) live =
     bnd (free_block name live) (\<lambda>live. bnd (exp_destroy exp live) (free_block a))"
| "stmt_destroy (Define_function_object a name arg_name_list exp_list) live =
     bnd (free_block name live) (\<lambda>live.
     bnd (destroy_list free_block arg_name_list live) (\<lambda>live.
     bnd (destroy_list exp_destroy exp_list live) (free_block a)))"
| "stmt_destroy (Define_node_object a name port_name_list) live =
     bnd (free_block name live) (\<lambda>live. bnd (destroy_list free_block port_name_list live) (free_block a))"
| "stmt_destroy (Define_rule_object a pattern_exp exp_list) live =
     bnd (exp_destroy pattern_exp live) (\<lambda>live. bnd (destroy_list exp_destroy exp_list live) (free_block a))"
| "stmt_destroy (Define_rule_star_object a pattern_exp_list exp_list) live =
     bnd (destroy_list exp_destroy pattern_exp_list live) (\<lambda>live.
     bnd (destroy_list exp_destroy exp_list live) (free_block a))"
| "stmt_destroy (Run_exp_object a exp) live = bnd (exp_destroy exp live) (free_block a)"
| "stmt_destroy (Import_object a name_list path) live =
     bnd (destroy_list free_block name_list live) (\<lambda>live.
     bnd (destroy_pointer path_destroy path live) (free_block a))"

definition path_blocks :: "path_object \<Rightarrow> nat list" where
  "path_blocks self =
     (case self of Path_object a (b, array_block, values_block, owns, slots) string_block \<Rightarrow>
        (if owns then concat (map (pointer_blocks (\<lambda>b. [b])) slots) else [])
          @ [values_block, array_block, b] @ pointer_blocks (\<lambda>b. [b]) string_block @ [a])"

fun stmt_blocks :: "stmt_object \<Rightarrow> nat list" where
  "stmt_blocks (Define_object a name exp) = [name] @ exp_blocks exp @ [a]"
| "stmt_blocks (Define_function_object a name arg_name_list exp_list) =
     [name] @ list_blocks False (\<lambda>b. [b]) arg_name_list @ list_blocks False exp_blocks exp_list @ [a]"
| "stmt_blocks (Define_node_object a name port_name_list) =
     [name] @ list_blocks False (\<lambda>b. [b]) port_name_list @ [a]"
| "stmt_blocks (Define_rule_object a pattern_exp exp_list) =
     exp_blocks pattern_exp @ list_blocks False exp_blocks exp_list @ [a]"
| "stmt_blocks (Define_rule_star_object a pattern_exp_list exp_list) =
     list_blocks False exp_blocks pattern_exp_list @ list_blocks False exp_blocks exp_list @ [a]"
| "stmt_blocks (Run_exp_object a exp) = exp_blocks exp @ [a]"
| "stmt_blocks (Import_object a name_list path) =
     list_blocks False (\<lambda>b. [b]) name_list @ pointer_blocks path_blocks path @ [a]"

lemma no_slots: "concat (map (pointer_blocks f) (map (\<lambda>_. None) slots)) = []"
  by (induction slots) (simp_all add: pointer_blocks_def)

lemma array_freed_purged: "array_freed f (b, c, owns, map (\<lambda>_. None) slots) = [c, b]"
  by (simp only: array_freed_def prod.case no_slots if_cancel append_Nil append_Cons)

lemma frees_stack:
  assumes "\<And>v. frees (d v) (f v)"
  shows "frees (destroy_stack d (a, b, c, owns, slots))
    ((if owns then concat (map (pointer_blocks f) slots) else []) @ [c, b, a])"
proof -
  have array: "frees (destroy_array d (b, c, owns, map (\<lambda>_. None) slots)) [c, b]"
    using frees_array [of "(b, c, owns, map (\<lambda>_. None) slots)" d f] assms
    by (simp only: array_freed_purged)
  have "frees (\<lambda>live. bnd (if owns then purge_slots d slots live else Inr live) (\<lambda>live.
        bnd (destroy_array d (b, c, owns, map (\<lambda>_. None) slots) live) (free_block a)))
      ((if owns then concat (map (pointer_blocks f) slots) else []) @ [c, b] @ [a])"
    by (intro frees_seq frees_when frees_slots frees_then_free array frees_free_block assms)
  then show ?thesis by (simp add: destroy_stack_def [abs_def])
qed

lemma frees_path: "frees (path_destroy p) (path_blocks p)"
proof (cases p)
  case (Path_object a segments t)
  obtain b array_block values_block owns slots where
    segments: "segments = (b, array_block, values_block, owns, slots)" by (cases segments)
  have "frees (\<lambda>live. bnd (destroy_stack free_block segments live) (\<lambda>live. bnd (destroy_pointer free_block t live) (free_block a)))
      (((if owns then concat (map (pointer_blocks (\<lambda>b. [b])) slots) else []) @ [values_block, array_block, b])
        @ pointer_blocks (\<lambda>b. [b]) t @ [a])"
    unfolding segments by (intro frees_seq frees_stack frees_then_free frees_pointer frees_free_block)
  then show ?thesis by (simp add: path_destroy_def [abs_def] path_blocks_def Path_object segments)
qed

lemmas frees_parts = frees_seq frees_then_free frees_list frees_pointer frees_free_block frees_exp frees_path

lemma frees_stmt: "frees (stmt_destroy s) (stmt_blocks s)"
proof (cases s)
  case (Define_object a name exp)
  show ?thesis
    unfolding Define_object stmt_blocks.simps by (rule frees_cong [OF stmt_destroy.simps(1)]) (intro frees_parts)
next
  case (Define_function_object a name args es)
  show ?thesis
    unfolding Define_function_object stmt_blocks.simps by (rule frees_cong [OF stmt_destroy.simps(2)]) (intro frees_parts)
next
  case (Define_node_object a name names)
  show ?thesis
    unfolding Define_node_object stmt_blocks.simps by (rule frees_cong [OF stmt_destroy.simps(3)]) (intro frees_parts)
next
  case (Define_rule_object a p es)
  show ?thesis
    unfolding Define_rule_object stmt_blocks.simps by (rule frees_cong [OF stmt_destroy.simps(4)]) (intro frees_parts)
next
  case (Define_rule_star_object a ps es)
  show ?thesis
    unfolding Define_rule_star_object stmt_blocks.simps by (rule frees_cong [OF stmt_destroy.simps(5)]) (intro frees_parts)
next
  case (Run_exp_object a exp)
  show ?thesis
    unfolding Run_exp_object stmt_blocks.simps by (rule frees_cong [OF stmt_destroy.simps(6)]) (intro frees_parts)
next
  case (Import_object a names path)
  show ?thesis
    unfolding Import_object stmt_blocks.simps by (rule frees_cong [OF stmt_destroy.simps(7)]) (intro frees_parts)
qed

section \<open>What the parsers allocate\<close>

text \<open>The nodes of a new list, each after its value.\<close>

fun new_nodes :: "('b \<Rightarrow> nat \<Rightarrow> 'a \<times> nat) \<Rightarrow> 'b list \<Rightarrow> nat \<Rightarrow> (nat \<times> 'a) list \<times> nat" where
  "new_nodes f [] n = ([], n)"
| "new_nodes f (x # xs) n =
     (let (v, n) = f x n; (ns, n') = new_nodes f xs (Suc n) in ((n, v) # ns, n'))"

definition new_list :: "('b \<Rightarrow> nat \<Rightarrow> 'a \<times> nat) \<Rightarrow> 'b list \<Rightarrow> nat \<Rightarrow> 'a owned_list \<times> nat" where
  "new_list f xs n = (let (ns, n') = new_nodes f xs (Suc n) in ((n, True, ns), n'))"

definition new_string :: "string \<Rightarrow> nat \<Rightarrow> nat \<times> nat" where
  "new_string s n = (n, Suc n)"

definition new_pointer :: "('b \<Rightarrow> nat \<Rightarrow> 'a \<times> nat) \<Rightarrow> 'b option \<Rightarrow> nat \<Rightarrow> 'a option \<times> nat" where
  "new_pointer f p n = (case p of None \<Rightarrow> (None, n) | Some x \<Rightarrow> apfst Some (f x n))"

text \<open>What a constructor leaves allocated: the numbers from the counter before to the counter after.\<close>

definition allocates :: "('b \<Rightarrow> nat \<Rightarrow> 'a \<times> nat) \<Rightarrow> ('a \<Rightarrow> nat list) \<Rightarrow> 'b \<Rightarrow> bool" where
  "allocates f bl x \<longleftrightarrow> (\<forall>n. n \<le> snd (f x n) \<and> mset (bl (fst (f x n))) = mset [n..<snd (f x n)])"

lemma new_nodes_cong [fundef_cong]:
  "xs = xs' \<Longrightarrow> n = n' \<Longrightarrow> (\<And>x n. x \<in> set xs' \<Longrightarrow> f x n = g x n) \<Longrightarrow> new_nodes f xs n = new_nodes g xs' n'"
  by (induction xs' arbitrary: xs n n') (auto split: prod.splits)

lemma new_list_cong [fundef_cong]:
  assumes "xs = xs'" and "n = n'" and "\<And>x n. x \<in> set xs' \<Longrightarrow> f x n = g x n"
  shows "new_list f xs n = new_list g xs' n'"
  using new_nodes_cong [OF assms(1) refl assms(3)] assms(2) by (simp add: new_list_def)

lemma new_pointer_cong [fundef_cong]:
  "p = p' \<Longrightarrow> n = n' \<Longrightarrow> (\<And>x n. p' = Some x \<Longrightarrow> f x n = g x n) \<Longrightarrow> new_pointer f p n = new_pointer g p' n'"
  by (cases p') (simp_all add: new_pointer_def)

function alloc_exp :: "exp \<Rightarrow> nat \<Rightarrow> exp_object \<times> nat" where
  "alloc_exp (EXP_VAR name) n =
     (let (name_block, n) = new_string name n in (Var_object n name_block, Suc n))"
| "alloc_exp (EXP_AP target args) n =
     (let (target, n) = alloc_exp target n; (arg_list, n) = new_list alloc_exp args n
      in (Ap_object n target arg_list, Suc n))"
| "alloc_exp (EXP_ASSIGN names e) n =
     (let (name_list, n) = new_list new_string names n; (e, n) = new_pointer alloc_exp e n
      in (Assign_object n name_list e, Suc n))"
| "alloc_exp (EXP_INT i) n = (Int_object n, Suc n)"
| "alloc_exp (EXP_FLOAT d) n = (Float_object n, Suc n)"
  by pat_completeness auto

termination alloc_exp
  by (relation "measure (size \<circ> fst)") (auto simp: less_Suc_eq_le dest: size_list_estimation' [OF _ order_refl, of _ _ size])

definition alloc_path :: "path \<Rightarrow> nat \<Rightarrow> path_object \<times> nat" where
  "alloc_path p n =
     (let segments = segment_stack p; first = n + 4; last = first + length segments;
          (string_block, n') = new_pointer new_string (path_cache p) last
      in (Path_object n (n + 1, n + 2, n + 3, True, map Some [first..<last]) string_block, n'))"

fun alloc_stmt :: "stmt \<Rightarrow> nat \<Rightarrow> stmt_object \<times> nat" where
  "alloc_stmt (STMT_DEFINE name e) n =
     (let (name_block, n) = new_string name n; (e, n) = alloc_exp e n in (Define_object n name_block e, Suc n))"
| "alloc_stmt (STMT_DEFINE_FUNCTION name arg_names es) n =
     (let (name_block, n) = new_string name n; (arg_name_list, n) = new_list new_string arg_names n;
          (exp_list, n) = new_list alloc_exp es n
      in (Define_function_object n name_block arg_name_list exp_list, Suc n))"
| "alloc_stmt (STMT_DEFINE_NODE name port_names) n =
     (let (name_block, n) = new_string name n; (port_name_list, n) = new_list new_string port_names n
      in (Define_node_object n name_block port_name_list, Suc n))"
| "alloc_stmt (STMT_DEFINE_RULE pattern es) n =
     (let (pattern, n) = alloc_exp pattern n; (exp_list, n) = new_list alloc_exp es n
      in (Define_rule_object n pattern exp_list, Suc n))"
| "alloc_stmt (STMT_DEFINE_RULE_STAR patterns es) n =
     (let (pattern_exp_list, n) = new_list alloc_exp patterns n; (exp_list, n) = new_list alloc_exp es n
      in (Define_rule_star_object n pattern_exp_list exp_list, Suc n))"
| "alloc_stmt (STMT_RUN_EXP e) n = (let (e, n) = alloc_exp e n in (Run_exp_object n e, Suc n))"
| "alloc_stmt (STMT_IMPORT names path) n =
     (let (name_list, n) = new_list new_string names n; (path, n) = new_pointer alloc_path path n
      in (Import_object n name_list path, Suc n))"

section \<open>Everything is given back\<close>

lemma upt_mset_append: "a \<le> b \<Longrightarrow> b \<le> c \<Longrightarrow> mset [a..<b] + mset [b..<c] = mset [a..<c]"
  by (metis le_add_diff_inverse mset_append upt_add_eq_append)

lemma mset_upt_Suc: "mset [n..<Suc n] = {#n#}"
  by simp

lemma allocatesD:
  "allocates f bl x \<Longrightarrow> f x n = (v, n') \<Longrightarrow> n \<le> n' \<and> mset (bl v) = mset [n..<n']"
  by (metis allocates_def fst_conv snd_conv)

lemma allocates_string: "allocates new_string (\<lambda>b. [b]) s"
  by (simp add: allocates_def new_string_def)

lemma new_nodes_blocks:
  assumes "\<And>x. x \<in> set xs \<Longrightarrow> allocates f bl x" and "new_nodes f xs n = (ns, n')"
  shows "n \<le> n' \<and> mset (concat (map (\<lambda>(a, v). bl v @ [a]) ns)) = mset [n..<n']"
  using assms
proof (induction xs arbitrary: n ns)
  case (Cons x xs)
  obtain v m where v: "f x n = (v, m)" by (cases "f x n")
  obtain ns' m' where ns: "new_nodes f xs (Suc m) = (ns', m')" by (cases "new_nodes f xs (Suc m)")
  with Cons.prems(2) v have "ns = (m, v) # ns'" "m' = n'" by simp_all
  moreover have "n \<le> m \<and> mset (bl v) = mset [n..<m]"
    by (rule allocatesD [OF Cons.prems(1) v]) simp
  moreover have "Suc m \<le> n' \<and> mset (concat (map (\<lambda>(a, v). bl v @ [a]) ns')) = mset [Suc m..<n']"
    using Cons.IH Cons.prems(1) ns calculation(2) by simp
  ultimately show ?case
    using upt_mset_append [of n m "n'"] by (simp add: upt_conv_Cons)
qed simp

lemma allocates_list:
  assumes "\<And>x. x \<in> set xs \<Longrightarrow> allocates f bl x"
  shows "allocates (new_list f) (list_blocks False bl) xs"
  unfolding allocates_def
proof (intro allI)
  fix n
  obtain ns n' where ns: "new_nodes f xs (Suc n) = (ns, n')" by (cases "new_nodes f xs (Suc n)")
  with new_nodes_blocks [of xs f bl, OF assms ns]
  show "n \<le> snd (new_list f xs n) \<and>
      mset (list_blocks False bl (fst (new_list f xs n))) = mset [n..<snd (new_list f xs n)]"
    by (simp add: new_list_def list_blocks_def upt_conv_Cons)
qed

lemma allocates_pointer:
  "(\<And>x. p = Some x \<Longrightarrow> allocates f bl x) \<Longrightarrow> allocates (new_pointer f) (pointer_blocks bl) p"
  by (cases p) (simp_all add: allocates_def new_pointer_def pointer_blocks_def)

text \<open>A constructor that allocates one part after the other, and then its own \<open>struct\<close>.\<close>

lemma allocates_one:
  assumes "allocates f bl x" and "\<And>n v m. f x n = (v, m) \<Longrightarrow> g y n = (c m v, Suc m)"
    and "\<And>v m. mset (bl' (c m v)) = mset (bl v) + {#m#}"
  shows "allocates g bl' y"
  unfolding allocates_def
proof (intro allI)
  fix n
  obtain v m where v: "f x n = (v, m)" by (cases "f x n")
  with allocatesD [OF assms(1) v] assms(2) [OF v] assms(3) [of m v]
  show "n \<le> snd (g y n) \<and> mset (bl' (fst (g y n))) = mset [n..<snd (g y n)]" by simp
qed

definition then_new :: "('b \<Rightarrow> nat \<Rightarrow> 'a \<times> nat) \<Rightarrow> ('d \<Rightarrow> nat \<Rightarrow> 'c \<times> nat) \<Rightarrow> 'b \<times> 'd \<Rightarrow> nat \<Rightarrow> ('a \<times> 'c) \<times> nat" where
  "then_new f g xy n = (let (v, n) = f (fst xy) n; (w, n) = g (snd xy) n in ((v, w), n))"

lemma allocates_both:
  assumes "allocates f bl x" and "allocates g bl' y"
  shows "allocates (then_new f g) (\<lambda>(v, w). bl v @ bl' w) (x, y)"
  unfolding allocates_def
proof (intro allI)
  fix n
  obtain v m where v: "f x n = (v, m)" by (cases "f x n")
  obtain w m' where w: "g y m = (w, m')" by (cases "g y m")
  show "n \<le> snd (then_new f g (x, y) n) \<and>
      mset ((\<lambda>(v, w). bl v @ bl' w) (fst (then_new f g (x, y) n))) = mset [n..<snd (then_new f g (x, y) n)]"
    using allocatesD [OF assms(1) v] allocatesD [OF assms(2) w] upt_mset_append [of n m m']
    by (simp add: then_new_def v w)
qed

lemma allocates_exp: "allocates alloc_exp exp_blocks e"
proof (induction e)
  case (EXP_VAR name)
  show ?case
    by (rule allocates_one [OF allocates_string, where c = "\<lambda>m v. Var_object m v" and x = name]) simp_all
next
  case (EXP_AP target args)
  have "allocates (then_new alloc_exp (new_list alloc_exp)) (\<lambda>(v, w). exp_blocks v @ list_blocks False exp_blocks w) (target, args)"
    by (intro allocates_both allocates_list EXP_AP)
  then show ?case
    by (rule allocates_one [where c = "\<lambda>m (v, w). Ap_object m v w"])
      (auto simp: then_new_def split: prod.splits)
next
  case (EXP_ASSIGN names e)
  have "allocates (then_new (new_list new_string) (new_pointer alloc_exp))
      (\<lambda>(v, w). list_blocks False (\<lambda>b. [b]) v @ pointer_blocks exp_blocks w) (names, e)"
    by (intro allocates_both allocates_list allocates_pointer allocates_string EXP_ASSIGN) simp
  then show ?case
    by (rule allocates_one [where c = "\<lambda>m (v, w). Assign_object m v w"])
      (auto simp: then_new_def split: prod.splits)
qed (simp_all add: allocates_def)

lemma pointer_blocks_Some: "pointer_blocks f \<circ> Some = f"
  by (rule ext) (simp add: pointer_blocks_def)

lemma allocates_path: "allocates alloc_path path_blocks p"
  unfolding allocates_def
proof (intro allI)
  fix n
  let ?m = "n + 4 + length (segment_stack p)"
  have "mset [n..<?m] = {#n, n + 1, n + 2, n + 3#} + mset [n + 4..<?m]"
  proof -
    have "[n..<n + 4] = [n, n + 1, n + 2, n + 3]" by (simp add: eval_nat_numeral)
    then have "{#n, n + 1, n + 2, n + 3#} = mset [n..<n + 4]" by simp
    then show ?thesis using upt_mset_append [of n "n + 4" ?m] by simp
  qed
  moreover have "mset_set {n..<5 + (n + length (segment_stack p))} = add_mset ?m (mset_set {n..<?m})"
  proof -
    have "5 + (n + length (segment_stack p)) = Suc ?m" by simp
    then show ?thesis by (simp only: atLeastLessThanSuc) simp
  qed
  ultimately show "n \<le> snd (alloc_path p n) \<and> mset (path_blocks (fst (alloc_path p n))) = mset [n..<snd (alloc_path p n)]"
    by (cases "path_cache p"; simp add: alloc_path_def path_blocks_def new_pointer_def new_string_def
        pointer_blocks_Some Let_def; simp add: pointer_blocks_def)
qed

lemmas allocates_parts = allocates_both allocates_list allocates_pointer allocates_string allocates_exp allocates_path

lemma allocates_stmt: "allocates alloc_stmt stmt_blocks s"
proof (cases s)
  case (STMT_DEFINE name e)
  have "allocates (then_new new_string alloc_exp) (\<lambda>(v, w). [v] @ exp_blocks w) (name, e)"
    by (intro allocates_parts)
  then show ?thesis
    unfolding STMT_DEFINE
    by (rule allocates_one [where c = "\<lambda>m (v, w). Define_object m v w"])
      (auto simp: then_new_def split: prod.splits)
next
  case (STMT_DEFINE_FUNCTION name args es)
  have "allocates (then_new new_string (then_new (new_list new_string) (new_list alloc_exp)))
      (\<lambda>(v, w). [v] @ (\<lambda>(v, w). list_blocks False (\<lambda>b. [b]) v @ list_blocks False exp_blocks w) w) (name, args, es)"
    by (intro allocates_parts)
  then show ?thesis
    unfolding STMT_DEFINE_FUNCTION
    by (rule allocates_one [where c = "\<lambda>m (v, w, u). Define_function_object m v w u"])
      (auto simp: then_new_def split: prod.splits)
next
  case (STMT_DEFINE_NODE name names)
  have "allocates (then_new new_string (new_list new_string)) (\<lambda>(v, w). [v] @ list_blocks False (\<lambda>b. [b]) w) (name, names)"
    by (intro allocates_parts)
  then show ?thesis
    unfolding STMT_DEFINE_NODE
    by (rule allocates_one [where c = "\<lambda>m (v, w). Define_node_object m v w"])
      (auto simp: then_new_def split: prod.splits)
next
  case (STMT_DEFINE_RULE pattern es)
  have "allocates (then_new alloc_exp (new_list alloc_exp)) (\<lambda>(v, w). exp_blocks v @ list_blocks False exp_blocks w) (pattern, es)"
    by (intro allocates_parts)
  then show ?thesis
    unfolding STMT_DEFINE_RULE
    by (rule allocates_one [where c = "\<lambda>m (v, w). Define_rule_object m v w"])
      (auto simp: then_new_def split: prod.splits)
next
  case (STMT_DEFINE_RULE_STAR patterns es)
  have "allocates (then_new (new_list alloc_exp) (new_list alloc_exp))
      (\<lambda>(v, w). list_blocks False exp_blocks v @ list_blocks False exp_blocks w) (patterns, es)"
    by (intro allocates_parts)
  then show ?thesis
    unfolding STMT_DEFINE_RULE_STAR
    by (rule allocates_one [where c = "\<lambda>m (v, w). Define_rule_star_object m v w"])
      (auto simp: then_new_def split: prod.splits)
next
  case (STMT_RUN_EXP e)
  show ?thesis
    unfolding STMT_RUN_EXP
    by (rule allocates_one [OF allocates_exp, where c = "\<lambda>m v. Run_exp_object m v" and x = e]) simp_all
next
  case (STMT_IMPORT names path)
  have "allocates (then_new (new_list new_string) (new_pointer alloc_path))
      (\<lambda>(v, w). list_blocks False (\<lambda>b. [b]) v @ pointer_blocks path_blocks w) (names, path)"
    by (intro allocates_parts)
  then show ?thesis
    unfolding STMT_IMPORT
    by (rule allocates_one [where c = "\<lambda>m (v, w). Import_object m v w"])
      (auto simp: then_new_def split: prod.splits)
qed

text \<open>What was allocated is freed: the memory is as it was before.\<close>

lemma destroyed_as_allocated:
  assumes "allocates f bl x" and "\<And>v. frees (destroy v) (bl v)" and "f x n = (v, n')"
    and "live \<inter> {n..<n'} = {}"
  shows "destroy v (live \<union> {n..<n'}) = Inr live"
proof -
  from allocatesD [OF assms(1,3)] have blocks: "mset (bl v) = mset [n..<n']" by simp
  have "distinct (bl v)" by (metis blocks distinct_upt mset_eq_imp_distinct_iff)
  moreover have set_blocks: "set (bl v) = {n..<n'}" by (metis blocks atLeastLessThan_upt mset_eq_setD)
  ultimately have "destroy v (live \<union> {n..<n'}) = Inr ((live \<union> {n..<n'}) - {n..<n'})"
    using freesD [OF assms(2)] by (metis Un_upper2)
  also have "(live \<union> {n..<n'}) - {n..<n'} = live" using assms(4) by blast
  finally show ?thesis .
qed

lemma exp_memory: "alloc_exp e n = (v, n') \<Longrightarrow> live \<inter> {n..<n'} = {} \<Longrightarrow> exp_destroy v (live \<union> {n..<n'}) = Inr live"
  by (rule destroyed_as_allocated [OF allocates_exp frees_exp])

text \<open>The list of the statements of a file, which \<open>load_mod\<close> destroys.\<close>

lemma stmt_list_memory:
  assumes "new_list alloc_stmt stmts n = (v, n')" and "live \<inter> {n..<n'} = {}"
  shows "destroy_list stmt_destroy v (live \<union> {n..<n'}) = Inr live"
  using assms
  by (rule destroyed_as_allocated [OF allocates_list frees_list, rotated 2])
    (rule allocates_stmt frees_stmt)+

section \<open>The tokens are not\<close>

text \<open>
  An S-expression points to its tokens, which nothing frees: \<open>list_shift\<close> took them out of the
  token list, and \<open>sexp_destroy\<close> leaves them. The numbering of the blocks does not follow the
  order of their allocation here, the tokens being allocated by the lexer.
\<close>

definition alloc_token :: "token \<Rightarrow> nat \<Rightarrow> token_object \<times> nat" where
  "alloc_token token n = (Token_object (Suc n) n, Suc (Suc n))"

function alloc_sexp :: "sexp \<Rightarrow> nat \<Rightarrow> sexp_object \<times> nat" where
  "alloc_sexp (Atom_sexp token) n = (let (token, n) = alloc_token token n in (Atom_object n token, Suc n))"
| "alloc_sexp (List_sexp start_token end_token sexp_list) n =
     (let (start_token, n) = alloc_token start_token n; (end_token, n) = new_pointer alloc_token end_token n;
          (sexps, n) = new_list alloc_sexp sexp_list n
      in (List_object n start_token end_token sexps, Suc n))"
  by pat_completeness auto

termination alloc_sexp
  by (relation "measure (size \<circ> fst)") (auto simp: less_Suc_eq_le dest: size_list_estimation' [OF _ order_refl, of _ _ size])

fun sexp_token_count :: "sexp \<Rightarrow> nat" where
  "sexp_token_count (Atom_sexp token) = 1"
| "sexp_token_count (List_sexp start_token end_token sexp_list) =
     1 + (if end_token = None then 0 else 1) + sum_list (map sexp_token_count sexp_list)"

definition list_token_blocks :: "sexp_object owned_list \<Rightarrow> nat list" where
  "list_token_blocks xs = concat (map (\<lambda>(a, v). sexp_token_blocks v) (snd (snd xs)))"

definition all_sexp_blocks :: "sexp_object \<Rightarrow> nat list" where
  "all_sexp_blocks v = sexp_blocks v @ sexp_token_blocks v"

lemma new_list_owns: "new_list f xs n = (v, n') \<Longrightarrow> fst (snd v)"
  by (auto simp: new_list_def split: prod.splits)

lemma list_blocks_tokens:
  assumes "fst (snd xs)"
  shows "mset (list_blocks False all_sexp_blocks xs) = mset (list_blocks False sexp_blocks xs) + mset (list_token_blocks xs)"
proof -
  have "mset (concat (map (\<lambda>(a, v). all_sexp_blocks v @ [a]) ns)) =
      mset (concat (map (\<lambda>(a, v). sexp_blocks v @ [a]) ns)) + mset (concat (map (\<lambda>(a, v). sexp_token_blocks v) ns))"
    for ns :: "(nat \<times> sexp_object) list"
    by (induction ns) (auto simp: all_sexp_blocks_def)
  then show ?thesis using assms by (simp add: list_blocks_def list_token_blocks_def)
qed

lemma allocates_token: "allocates alloc_token token_blocks t"
  by (simp add: allocates_def alloc_token_def)

lemma allocates_sexp: "allocates alloc_sexp all_sexp_blocks s"
proof (induction s)
  case (Atom_sexp token)
  show ?case
    by (rule allocates_one [OF allocates_token, where c = "\<lambda>m v. Atom_object m v" and x = token])
      (simp_all add: all_sexp_blocks_def)
next
  case (List_sexp start_token end_token sexp_list)
  let ?f = "then_new alloc_token (then_new (new_pointer alloc_token) (new_list alloc_sexp))"
  let ?bl = "\<lambda>(v, w). token_blocks v @ (\<lambda>(v, w). pointer_blocks token_blocks v @ list_blocks False all_sexp_blocks w) w"
  have all: "allocates ?f ?bl (start_token, end_token, sexp_list)"
    by (intro allocates_both allocates_list allocates_pointer allocates_token List_sexp)
  show ?case
    unfolding allocates_def
  proof (intro allI)
    fix n
    obtain v e w m where f: "?f (start_token, end_token, sexp_list) n = ((v, e, w), m)"
      by (cases "?f (start_token, end_token, sexp_list) n") auto
    then have "fst (snd w)" by (auto simp: then_new_def dest: new_list_owns split: prod.splits)
    then have "mset (all_sexp_blocks (List_object m v e w)) = mset (?bl (v, e, w)) + {#m#}"
      using list_blocks_tokens [of w] by (simp add: all_sexp_blocks_def list_token_blocks_def ac_simps)
    moreover have "alloc_sexp (List_sexp start_token end_token sexp_list) n = (List_object m v e w, Suc m)"
      using f by (auto simp: then_new_def split: prod.splits)
    ultimately show "n \<le> snd (alloc_sexp (List_sexp start_token end_token sexp_list) n) \<and>
        mset (all_sexp_blocks (fst (alloc_sexp (List_sexp start_token end_token sexp_list) n))) =
        mset [n..<snd (alloc_sexp (List_sexp start_token end_token sexp_list) n)]"
      using allocatesD [OF all f] by simp
  qed
qed

lemma length_new_nodes:
  assumes "\<And>x n v n'. x \<in> set xs \<Longrightarrow> f x n = (v, n') \<Longrightarrow> length (bl v) = k x" and "new_nodes f xs n = (ns, n')"
  shows "length (concat (map (\<lambda>(a, v). bl v) ns)) = sum_list (map k xs)"
  using assms
proof (induction xs arbitrary: n ns)
  case (Cons x xs)
  obtain v m where v: "f x n = (v, m)" by (cases "f x n")
  obtain ns' m' where ns: "new_nodes f xs (Suc m) = (ns', m')" by (cases "new_nodes f xs (Suc m)")
  with Cons.prems(2) v have "ns = (m, v) # ns'" "m' = n'" by simp_all
  moreover have "length (bl v) = k x" by (rule Cons.prems(1) [OF _ v]) simp
  moreover have "length (concat (map (\<lambda>(a, v). bl v) ns')) = sum_list (map k xs)"
    by (rule Cons.IH [OF Cons.prems(1)]) (use ns calculation(2) in simp_all)
  ultimately show ?case by simp
qed simp

lemma length_token_blocks [simp]: "length (token_blocks t) = 2"
  by (cases t) simp

lemma length_list_tokens:
  assumes "\<And>x n v n'. x \<in> set xs \<Longrightarrow> alloc_sexp x n = (v, n') \<Longrightarrow> length (sexp_token_blocks v) = 2 * sexp_token_count x"
    and "new_list alloc_sexp xs n = (v, n')"
  shows "length (list_token_blocks v) = 2 * sum_list (map sexp_token_count xs)"
proof -
  obtain ns where "new_nodes alloc_sexp xs (Suc n) = (ns, n')" and v: "v = (n, True, ns)"
    using assms(2) by (auto simp: new_list_def split: prod.splits)
  with length_new_nodes [of xs alloc_sexp sexp_token_blocks "\<lambda>x. 2 * sexp_token_count x", OF assms(1)]
  show ?thesis by (simp add: list_token_blocks_def sum_list_const_mult)
qed

lemma length_sexp_tokens: "alloc_sexp s n = (v, n') \<Longrightarrow> length (sexp_token_blocks v) = 2 * sexp_token_count s"
proof (induction s arbitrary: n v n')
  case (Atom_sexp token)
  then show ?case by (auto simp: alloc_token_def)
next
  case (List_sexp start_token end_token sexp_list)
  obtain w m where list: "new_list alloc_sexp sexp_list
      (snd (new_pointer alloc_token end_token (snd (alloc_token start_token n)))) = (w, m)"
    by (cases "new_list alloc_sexp sexp_list (snd (new_pointer alloc_token end_token (snd (alloc_token start_token n))))")
  have "length (list_token_blocks w) = 2 * sum_list (map sexp_token_count sexp_list)"
    by (rule length_list_tokens [OF List_sexp.IH list])
  then show ?case
    using List_sexp.prems list
    by (cases end_token)
      (auto simp: list_token_blocks_def new_pointer_def pointer_blocks_def alloc_token_def split: prod.splits)
qed

text \<open>
  After the S-expressions of a file are destroyed, two blocks are left of every token: the token
  and its string.
\<close>

lemma sexp_list_memory:
  assumes new: "new_list alloc_sexp sexps n = (v, n')" and apart: "live \<inter> {n..<n'} = {}"
  shows "\<exists>leaked. destroy_list sexp_destroy v (live \<union> {n..<n'}) = Inr (live \<union> leaked) \<and>
    leaked \<subseteq> {n..<n'} \<and> card leaked = 2 * sum_list (map sexp_token_count sexps)"
proof -
  let ?F = "list_blocks False sexp_blocks v" and ?T = "list_token_blocks v"
  have blocks: "mset (?F @ ?T) = mset [n..<n']"
    using allocatesD [OF allocates_list [OF allocates_sexp] new] list_blocks_tokens [OF new_list_owns [OF new]] by simp
  then have "distinct (?F @ ?T)" by (metis distinct_upt mset_eq_imp_distinct_iff)
  moreover have "set (?F @ ?T) = {n..<n'}" by (metis blocks atLeastLessThan_upt mset_eq_setD)
  ultimately have sets: "set ?F \<union> set ?T = {n..<n'}" "set ?F \<inter> set ?T = {}" "distinct ?F" "distinct ?T"
    by simp_all
  have "destroy_list sexp_destroy v (live \<union> {n..<n'}) = Inr ((live \<union> {n..<n'}) - set ?F)"
    by (rule freesD [OF frees_list]) (use sets frees_sexp in auto)
  also have "(live \<union> {n..<n'}) - set ?F = live \<union> set ?T"
    using sets apart by blast
  finally have "destroy_list sexp_destroy v (live \<union> {n..<n'}) = Inr (live \<union> set ?T)" .
  moreover have "card (set ?T) = 2 * sum_list (map sexp_token_count sexps)"
    using length_list_tokens [OF length_sexp_tokens new] sets(4) by (simp add: distinct_card)
  ultimately show ?thesis using sets(1) by blast
qed

text \<open>The end of \<open>load_mod\<close>: the statements are destroyed, then the S-expressions.\<close>

lemma file_memory:
  assumes sexps: "new_list alloc_sexp sexps n = (sexp_list, n1)" and stmts: "new_list alloc_stmt stmts n1 = (stmt_list, n2)"
    and apart: "live \<inter> {n..<n2} = {}"
  shows "\<exists>leaked. bnd (destroy_list stmt_destroy stmt_list (live \<union> {n..<n2})) (destroy_list sexp_destroy sexp_list) =
      Inr (live \<union> leaked) \<and> leaked \<subseteq> {n..<n1} \<and> card leaked = 2 * sum_list (map sexp_token_count sexps)"
proof -
  have "n \<le> n1" using allocatesD [OF allocates_list [OF allocates_sexp] sexps] by simp
  moreover have "n1 \<le> n2" using allocatesD [OF allocates_list [OF allocates_stmt] stmts] by simp
  ultimately have split: "{n..<n2} = {n..<n1} \<union> {n1..<n2}" and sub: "{n..<n1} \<subseteq> {n..<n2}" "{n1..<n2} \<subseteq> {n..<n2}"
    by auto
  have "(live \<union> {n..<n1}) \<inter> {n1..<n2} = {}" using apart sub by auto
  from stmt_list_memory [OF stmts this]
  have "destroy_list stmt_destroy stmt_list (live \<union> {n..<n2}) = Inr (live \<union> {n..<n1})"
    by (simp add: split Un_assoc)
  moreover have "live \<inter> {n..<n1} = {}" using apart sub by blast
  ultimately show ?thesis using sexp_list_memory [OF sexps] by simp
qed

end
