(* ===== verification/Object_Ownership.thy ===== *)
theory Object_Ownership
  imports Syntax_Memory
begin

text \<open>
  The memory of the objects of the interpreter: constructors, rules, primitives, functions,
  frames, nodes, workers, schedulers and modules (\<open>src/src/core\<close>, \<open>src/src/net\<close>), with the
  containers of \<open>packages/std\<close> they own. As in \<open>Ownership\<close>, an object is the addresses of its
  blocks, and a destructor has its exact list of freed blocks.
\<close>

section \<open>Containers\<close>

text \<open>A hash table: its \<open>struct\<close>, the block of its chains, and for each entry its block, key and value.\<close>

type_synonym ('k, 'v) owned_hash = "nat \<times> nat \<times> (nat \<times> 'k \<times> 'v) list"

text \<open>Entries are destroyed value first, then key; a \<open>destroy_fn\<close> that is not set is \<open>keep\<close>.\<close>

definition keep :: "'a \<Rightarrow> blocks \<Rightarrow> blocks res" where
  "keep x live = Inr live"

fun purge_entries ::
    "('k \<Rightarrow> blocks \<Rightarrow> blocks res) \<Rightarrow> ('v \<Rightarrow> blocks \<Rightarrow> blocks res) \<Rightarrow> (nat \<times> 'k \<times> 'v) list \<Rightarrow> blocks \<Rightarrow> blocks res" where
  "purge_entries key_destroy destroy [] live = Inr live"
| "purge_entries key_destroy destroy ((a, k, v) # es) live =
     bnd (destroy v live) (\<lambda>live. bnd (key_destroy k live) (\<lambda>live.
     bnd (free_block a live) (purge_entries key_destroy destroy es)))"

definition destroy_hash ::
    "('k \<Rightarrow> blocks \<Rightarrow> blocks res) \<Rightarrow> ('v \<Rightarrow> blocks \<Rightarrow> blocks res) \<Rightarrow> ('k, 'v) owned_hash \<Rightarrow> blocks \<Rightarrow> blocks res" where
  "destroy_hash key_destroy destroy h live =
     (case h of (a, entries_block, es) \<Rightarrow>
        bnd (purge_entries key_destroy destroy es live) (\<lambda>live.
        bnd (free_block entries_block live) (free_block a)))"

text \<open>A queue: its values, its four cursors and its \<open>struct\<close>. The tasks it holds have no \<open>destroy_fn\<close>.\<close>

datatype queue_object = Queue_object nat nat nat nat nat nat

definition destroy_queue :: "queue_object \<Rightarrow> blocks \<Rightarrow> blocks res" where
  "destroy_queue self live =
     (case self of Queue_object a values_block front_cursor back_cursor cached_front cached_back \<Rightarrow>
        bnd (free_block values_block live) (\<lambda>live. bnd (free_block front_cursor live) (\<lambda>live.
        bnd (free_block back_cursor live) (\<lambda>live. bnd (free_block cached_front live) (\<lambda>live.
        bnd (free_block cached_back live) (free_block a))))))"

section \<open>Constructors, patterns, rules and primitives\<close>

datatype port_info_object = Port_info_object nat nat

definition port_info_destroy :: "port_info_object \<Rightarrow> blocks \<Rightarrow> blocks res" where
  "port_info_destroy self live =
     (case self of Port_info_object a name \<Rightarrow> bnd (free_block name live) (free_block a))"

datatype node_ctor_object =
  Node_ctor_object nat nat "port_info_object option list" "nat owned_array" nat

text \<open>The array of rules does not own them.\<close>

definition node_ctor_destroy :: "node_ctor_object \<Rightarrow> blocks \<Rightarrow> blocks res" where
  "node_ctor_destroy self live =
     (case self of Node_ctor_object a port_infos_block infos rule_array name \<Rightarrow>
        bnd (purge_slots port_info_destroy infos live) (\<lambda>live.
        bnd (free_block port_infos_block live) (\<lambda>live.
        bnd (destroy_array keep rule_array live) (\<lambda>live.
        bnd (free_block name live) (free_block a)))))"

datatype node_pattern_object = Node_pattern_object nat nat "port_info_object option list"

text \<open>The block of the port infos is not freed.\<close>

definition node_pattern_destroy :: "node_pattern_object \<Rightarrow> blocks \<Rightarrow> blocks res" where
  "node_pattern_destroy self live =
     (case self of Node_pattern_object a port_infos_block infos \<Rightarrow>
        bnd (purge_slots port_info_destroy infos live) (free_block a))"

definition rule_destroy :: "nat \<Rightarrow> blocks \<Rightarrow> blocks res" where
  "rule_destroy self live = free_block self live"

datatype primitive_object = Primitive_object nat "node_ctor_object option" nat

definition primitive_destroy :: "primitive_object \<Rightarrow> blocks \<Rightarrow> blocks res" where
  "primitive_destroy self live =
     (case self of Primitive_object a node_ctor name \<Rightarrow>
        bnd (destroy_pointer node_ctor_destroy node_ctor live) (\<lambda>live.
        bnd (free_block name live) (free_block a)))"

section \<open>Functions and frames\<close>

text \<open>Of the four kinds of opcode none owns anything.\<close>

definition opcode_destroy :: "nat \<Rightarrow> blocks \<Rightarrow> blocks res" where
  "opcode_destroy self live = free_block self live"

datatype function_object = Function_object nat "nat option" "(nat, unit) owned_hash" "nat owned_array"

definition function_object_destroy :: "function_object \<Rightarrow> blocks \<Rightarrow> blocks res" where
  "function_object_destroy self live =
     (case self of Function_object a name local_index_hash opcodes \<Rightarrow>
        bnd (destroy_pointer free_block name live) (\<lambda>live.
        bnd (destroy_hash free_block keep local_index_hash live) (\<lambda>live.
        bnd (destroy_array opcode_destroy opcodes live) (free_block a))))"

datatype frame_object = Frame_object nat "nat owned_array"

definition frame_destroy :: "frame_object \<Rightarrow> blocks \<Rightarrow> blocks res" where
  "frame_destroy self live =
     (case self of Frame_object a variable_array \<Rightarrow> bnd (destroy_array keep variable_array live) (free_block a))"

section \<open>Nodes, workers, schedulers and modules\<close>

definition task_destroy :: "nat \<Rightarrow> blocks \<Rightarrow> blocks res" where
  "task_destroy self live = free_block self live"

definition fast_spinlock_destroy :: "nat \<Rightarrow> blocks \<Rightarrow> blocks res" where
  "fast_spinlock_destroy self live = free_block self live"

datatype node_object = Node_object nat nat "nat owned_array"

definition node_destroy :: "node_object \<Rightarrow> blocks \<Rightarrow> blocks res" where
  "node_destroy self live =
     (case self of Node_object a fast_spinlock value_array \<Rightarrow>
        bnd (fast_spinlock_destroy fast_spinlock live) (\<lambda>live.
        bnd (destroy_array keep value_array live) (free_block a)))"

text \<open>The allocator's mutex and stack; the nodes are owned by the array of all nodes.\<close>

datatype node_allocator_object =
  Node_allocator_object nat "nat \<times> nat \<times> (nat \<times> nat owned_array)" "node_object owned_array"

definition allocator_destroy :: "nat \<times> nat \<times> (nat \<times> nat owned_array) \<Rightarrow> blocks \<Rightarrow> blocks res" where
  "allocator_destroy self live =
     (case self of (a, mutex, stack) \<Rightarrow>
        bnd (free_block mutex live) (\<lambda>live. bnd (destroy_stack keep stack live) (free_block a)))"

definition node_allocator_destroy :: "node_allocator_object \<Rightarrow> blocks \<Rightarrow> blocks res" where
  "node_allocator_destroy self live =
     (case self of Node_allocator_object a allocator all_nodes \<Rightarrow>
        bnd (allocator_destroy allocator live) (\<lambda>live.
        bnd (destroy_array node_destroy all_nodes live) (free_block a)))"

datatype worker_object =
  Worker_object nat queue_object nat "nat \<times> nat owned_array" "nat \<times> frame_object owned_array"
    "nat \<times> nat owned_array"

text \<open>The last component is the stack of free nodes, which \<open>worker_destroy\<close> does not destroy.\<close>

definition worker_destroy :: "worker_object \<Rightarrow> blocks \<Rightarrow> blocks res" where
  "worker_destroy self live =
     (case self of Worker_object a task_queue front_lock value_stack return_stack free_node_stack \<Rightarrow>
        bnd (destroy_queue task_queue live) (\<lambda>live.
        bnd (fast_spinlock_destroy front_lock live) (\<lambda>live.
        bnd (destroy_stack keep value_stack live) (\<lambda>live.
        bnd (destroy_stack frame_destroy return_stack live) (free_block a)))))"

datatype scheduler_object =
  Scheduler_object nat "worker_object owned_array" "nat \<times> nat owned_array" "nat \<times> nat owned_array"

definition scheduler_destroy :: "scheduler_object \<Rightarrow> blocks \<Rightarrow> blocks res" where
  "scheduler_destroy self live =
     (case self of Scheduler_object a workers counter pool \<Rightarrow>
        bnd (destroy_array worker_destroy workers live) (\<lambda>live.
        bnd (bnd (destroy_array free_block (snd counter) live) (free_block (fst counter))) (\<lambda>live.
        bnd (bnd (destroy_array keep (snd pool) live) (free_block (fst pool))) (free_block a))))"

datatype mod_object =
  Mod_object nat "path_object option" "nat option" "(nat, unit) owned_hash" "worker_object option"

definition mod_destroy :: "mod_object \<Rightarrow> blocks \<Rightarrow> blocks res" where
  "mod_destroy self live =
     (case self of Mod_object a path code value_hash loader_worker \<Rightarrow>
        bnd (destroy_pointer path_destroy path live) (\<lambda>live.
        bnd (destroy_pointer free_block code live) (\<lambda>live.
        bnd (destroy_hash free_block keep value_hash live) (\<lambda>live.
        bnd (destroy_pointer worker_destroy loader_worker live) (free_block a)))))"

section \<open>What they free\<close>

abbreviation single_block :: "nat \<Rightarrow> nat list" where "single_block a \<equiv> [a]"

abbreviation no_blocks :: "'a \<Rightarrow> nat list" where "no_blocks x \<equiv> []"

definition stack_blocks :: "('a \<Rightarrow> nat list) \<Rightarrow> nat \<times> 'a owned_array \<Rightarrow> nat list" where
  "stack_blocks f xs =
     (case xs of (a, b, c, owns, slots) \<Rightarrow>
        (if owns then concat (map (pointer_blocks f) slots) else []) @ [c, b, a])"

definition hash_blocks :: "('k \<Rightarrow> nat list) \<Rightarrow> ('v \<Rightarrow> nat list) \<Rightarrow> ('k, 'v) owned_hash \<Rightarrow> nat list" where
  "hash_blocks g f h =
     (case h of (a, entries_block, es) \<Rightarrow> concat (map (\<lambda>(a, k, v). f v @ g k @ [a]) es) @ [entries_block] @ [a])"

fun queue_blocks :: "queue_object \<Rightarrow> nat list" where
  "queue_blocks (Queue_object a b c d e f) = [b] @ [c] @ [d] @ [e] @ [f] @ [a]"

fun port_info_blocks :: "port_info_object \<Rightarrow> nat list" where
  "port_info_blocks (Port_info_object a name) = [name] @ [a]"

fun node_ctor_blocks :: "node_ctor_object \<Rightarrow> nat list" where
  "node_ctor_blocks (Node_ctor_object a port_infos_block infos rule_array name) =
     concat (map (pointer_blocks port_info_blocks) infos) @ [port_infos_block]
       @ array_freed no_blocks rule_array @ [name] @ [a]"

fun node_pattern_blocks :: "node_pattern_object \<Rightarrow> nat list" where
  "node_pattern_blocks (Node_pattern_object a port_infos_block infos) =
     concat (map (pointer_blocks port_info_blocks) infos) @ [a]"

fun primitive_blocks :: "primitive_object \<Rightarrow> nat list" where
  "primitive_blocks (Primitive_object a node_ctor name) =
     pointer_blocks node_ctor_blocks node_ctor @ [name] @ [a]"

fun function_blocks :: "function_object \<Rightarrow> nat list" where
  "function_blocks (Function_object a name local_index_hash opcodes) =
     pointer_blocks single_block name @ hash_blocks single_block no_blocks local_index_hash @ array_freed single_block opcodes @ [a]"

fun frame_blocks :: "frame_object \<Rightarrow> nat list" where
  "frame_blocks (Frame_object a variable_array) = array_freed no_blocks variable_array @ [a]"

fun node_blocks :: "node_object \<Rightarrow> nat list" where
  "node_blocks (Node_object a fast_spinlock value_array) = [fast_spinlock] @ array_freed no_blocks value_array @ [a]"

fun node_allocator_blocks :: "node_allocator_object \<Rightarrow> nat list" where
  "node_allocator_blocks (Node_allocator_object a (b, mutex, stack) all_nodes) =
     ([mutex] @ stack_blocks no_blocks stack @ [b]) @ array_freed node_blocks all_nodes @ [a]"

fun worker_blocks :: "worker_object \<Rightarrow> nat list" where
  "worker_blocks (Worker_object a task_queue front_lock value_stack return_stack free_node_stack) =
     queue_blocks task_queue @ [front_lock] @ stack_blocks no_blocks value_stack
       @ stack_blocks frame_blocks return_stack @ [a]"

fun scheduler_blocks :: "scheduler_object \<Rightarrow> nat list" where
  "scheduler_blocks (Scheduler_object a workers counter pool) =
     array_freed worker_blocks workers @ (array_freed single_block (snd counter) @ [fst counter])
       @ (array_freed no_blocks (snd pool) @ [fst pool]) @ [a]"

fun mod_blocks :: "mod_object \<Rightarrow> nat list" where
  "mod_blocks (Mod_object a path code value_hash loader_worker) =
     pointer_blocks path_blocks path @ pointer_blocks single_block code @ hash_blocks single_block no_blocks value_hash
       @ pointer_blocks worker_blocks loader_worker @ [a]"

named_theorems frees_rules "the blocks that the destructors free"

lemmas [frees_rules] = frees_seq frees_then_free frees_free_block frees_path

lemma frees_keep [frees_rules]: "frees (keep x) []"
  using frees_none by (simp add: keep_def [abs_def])

lemma frees_owned [frees_rules]:
  "(\<And>v. frees (d v) (f v)) \<Longrightarrow> frees (destroy_pointer d p) (pointer_blocks f p)"
  "(\<And>v. frees (d v) (f v)) \<Longrightarrow> frees (purge_slots d ps) (concat (map (pointer_blocks f) ps))"
  "(\<And>v. frees (d v) (f v)) \<Longrightarrow> frees (destroy_array d xs) (array_freed f xs)"
  by (rule frees_pointer frees_slots frees_array, assumption)+

lemma frees_stack_blocks [frees_rules]:
  "(\<And>v. frees (d v) (f v)) \<Longrightarrow> frees (destroy_stack d s) (stack_blocks f s)"
  using frees_stack [of d f] by (cases s) (simp add: stack_blocks_def)

lemma frees_hash [frees_rules]:
  assumes "\<And>k. frees (g k) (bg k)" and "\<And>v. frees (d v) (f v)"
  shows "frees (destroy_hash g d h) (hash_blocks bg f h)"
proof (cases h)
  case (fields a b es)
  have "frees (purge_entries g d es) (concat (map (\<lambda>(a, k, v). f v @ bg k @ [a]) es))"
  proof (induction es)
    case Nil
    show ?case using frees_none by (simp add: frees_def)
  next
    case (Cons e es)
    obtain a k v where e: "e = (a, k, v)" by (cases e)
    have "frees (\<lambda>live. bnd (d v live) (\<lambda>live. bnd (g k live) (\<lambda>live. bnd (free_block a live) (purge_entries g d es))))
        (f v @ bg k @ [a] @ concat (map (\<lambda>(a, k, v). f v @ bg k @ [a]) es))"
      by (intro frees_seq assms frees_free_block Cons.IH)
    then show ?case by (simp add: e frees_def)
  qed
  then have "frees (\<lambda>live. bnd (purge_entries g d es live) (\<lambda>live. bnd (free_block b live) (free_block a)))
      (concat (map (\<lambda>(a, k, v). f v @ bg k @ [a]) es) @ [b] @ [a])"
    by (intro frees_seq frees_free_block)
  then show ?thesis by (simp add: destroy_hash_def [abs_def] hash_blocks_def fields)
qed

lemma frees_queue [frees_rules]: "frees (destroy_queue q) (queue_blocks q)"
  unfolding destroy_queue_def [abs_def]
  by (cases q) (simp only: queue_object.case queue_blocks.simps, intro frees_rules)

lemma frees_port_info [frees_rules]: "frees (port_info_destroy p) (port_info_blocks p)"
  unfolding port_info_destroy_def [abs_def]
  by (cases p) (simp only: port_info_object.case port_info_blocks.simps, intro frees_rules)

lemma frees_node_ctor [frees_rules]: "frees (node_ctor_destroy c) (node_ctor_blocks c)"
  unfolding node_ctor_destroy_def [abs_def]
  by (cases c) (simp only: node_ctor_object.case node_ctor_blocks.simps, intro frees_rules)

lemma frees_node_pattern [frees_rules]: "frees (node_pattern_destroy c) (node_pattern_blocks c)"
  unfolding node_pattern_destroy_def [abs_def]
  by (cases c) (simp only: node_pattern_object.case node_pattern_blocks.simps, intro frees_rules)

lemma frees_structs [frees_rules]:
  "frees (rule_destroy a) [a]" "frees (opcode_destroy a) [a]" "frees (task_destroy a) [a]"
  "frees (fast_spinlock_destroy a) [a]"
  using frees_free_block [of a]
  by (simp_all add: rule_destroy_def [abs_def] opcode_destroy_def [abs_def] task_destroy_def [abs_def]
      fast_spinlock_destroy_def [abs_def])

lemma frees_primitive [frees_rules]: "frees (primitive_destroy p) (primitive_blocks p)"
  unfolding primitive_destroy_def [abs_def]
  by (cases p) (simp only: primitive_object.case primitive_blocks.simps, intro frees_rules)

lemma frees_function [frees_rules]: "frees (function_object_destroy f) (function_blocks f)"
  unfolding function_object_destroy_def [abs_def]
  by (cases f) (simp only: function_object.case function_blocks.simps, intro frees_rules)

lemma frees_frame [frees_rules]: "frees (frame_destroy f) (frame_blocks f)"
  unfolding frame_destroy_def [abs_def]
  by (cases f) (simp only: frame_object.case frame_blocks.simps, intro frees_rules)

lemma frees_node [frees_rules]: "frees (node_destroy n) (node_blocks n)"
  unfolding node_destroy_def [abs_def]
  by (cases n) (simp only: node_object.case node_blocks.simps, intro frees_rules)

lemma frees_node_allocator [frees_rules]: "frees (node_allocator_destroy n) (node_allocator_blocks n)"
proof (cases n)
  case (Node_allocator_object a al all_nodes)
  obtain b mutex stack where al: "al = (b, mutex, stack)" by (cases al)
  show ?thesis
    unfolding node_allocator_destroy_def [abs_def] allocator_destroy_def [abs_def] Node_allocator_object al
    by (simp only: node_allocator_object.case prod.case node_allocator_blocks.simps, intro frees_rules)
qed

lemma frees_worker [frees_rules]: "frees (worker_destroy w) (worker_blocks w)"
  unfolding worker_destroy_def [abs_def]
  by (cases w) (simp only: worker_object.case worker_blocks.simps, intro frees_rules)

lemma frees_scheduler [frees_rules]: "frees (scheduler_destroy s) (scheduler_blocks s)"
  unfolding scheduler_destroy_def [abs_def]
  by (cases s) (simp only: scheduler_object.case scheduler_blocks.simps, intro frees_rules)

lemma frees_mod [frees_rules]: "frees (mod_destroy m) (mod_blocks m)"
  unfolding mod_destroy_def [abs_def]
  by (cases m) (simp only: mod_object.case mod_blocks.simps, intro frees_rules)

section \<open>What is left\<close>

text \<open>A worker's stack of free nodes is still allocated when the worker is gone.\<close>

lemma worker_leaks_free_nodes:
  assumes "w = Worker_object a task_queue front_lock value_stack return_stack free_node_stack"
    and "distinct (worker_blocks w @ stack_blocks no_blocks free_node_stack)"
    and "set (worker_blocks w @ stack_blocks no_blocks free_node_stack) \<subseteq> live"
  shows "worker_destroy w live = Inr (live - set (worker_blocks w)) \<and>
    set (stack_blocks no_blocks free_node_stack) \<subseteq> live - set (worker_blocks w) \<and>
    3 \<le> card (set (stack_blocks no_blocks free_node_stack))"
proof -
  have "card (set (stack_blocks no_blocks free_node_stack)) = length (stack_blocks no_blocks free_node_stack)"
    using assms(2) by (intro distinct_card) simp
  then have "3 \<le> card (set (stack_blocks no_blocks free_node_stack))"
    by (cases free_node_stack) (simp add: stack_blocks_def)
  moreover have "worker_destroy w live = Inr (live - set (worker_blocks w))"
    by (rule freesD [OF frees_worker]) (use assms in auto)
  ultimately show ?thesis using assms(2,3) by auto
qed

text \<open>A node pattern leaves the block of its port infos.\<close>

lemma node_pattern_leaks:
  assumes "p = Node_pattern_object a b infos" and "distinct (b # node_pattern_blocks p)"
    and "set (b # node_pattern_blocks p) \<subseteq> live"
  shows "\<exists>left. node_pattern_destroy p live = Inr left \<and> b \<in> left"
  using freesD [OF frees_node_pattern [of p]] assms by auto

end
