(* ===== verification/Reports.thy ===== *)
theory Reports
  imports Hash_Table Net_Print
begin

text \<open>
  Further printing: the report on a hash table (\<open>hash_report\<close> of
  \<open>src/src/packages/std/hash/hash.c\<close>), lists of strings (\<open>string_list_print\<close> of
  \<open>src/src/packages/std/list/string_list.c\<close>) and rules (\<open>rule_print\<close> of \<open>src/src/core/rule.c\<close>).
  What they print is their result.
\<close>

section \<open>Hash tables\<close>

fun max_chain_loop :: "u64 \<Rightarrow> ('k, 'v) entry list list \<Rightarrow> u64" where
  "max_chain_loop max_chain [] = max_chain"
| "max_chain_loop max_chain (chain # buckets) = max_chain_loop (uint_max (of_nat (length chain)) max_chain) buckets"

definition report_line :: "string \<Rightarrow> u64 \<Rightarrow> string" where
  "report_line label n = ''[hash_report] '' @ label @ '': '' @ uint_to_string (unat n) @ [CHR 0x0A]"

text \<open>The address of the table, printed first, is an argument.\<close>

definition hash_report :: "string \<Rightarrow> ('k, 'v) hash \<Rightarrow> string res" where
  "hash_report address self =
     deref (at hash_primes (h_prime_index self)) (\<lambda>limit.
     let length_percentage = h_length self * 100 div limit;
         index_percentage = h_used_indexes_size self * 100 div limit;
         max_chain = max_chain_loop 0 (h_entries self)
     in Inr (''[hash_report] start: '' @ address @ [CHR 0x0A]
          @ report_line ''length percentage '' length_percentage
          @ report_line ''index  percentage '' index_percentage
          @ report_line ''prime index '' (of_nat (h_prime_index self))
          @ report_line ''prime      '' limit
          @ report_line ''used idx'' (h_used_indexes_size self)
          @ report_line ''length '' (h_length self)
          @ report_line ''max_chain '' max_chain
          @ ''[hash_report] end'' @ [CHR 0x0A]))"

lemma max_chain_loop_spec:
  assumes "\<And>chain. chain \<in> set buckets \<Longrightarrow> length chain < 2 ^ 64"
  shows "unat (max_chain_loop n buckets) = fold (\<lambda>chain m. max (length chain) m) buckets (unat n)"
  using assms
proof (induction buckets arbitrary: n)
  case (Cons chain buckets)
  have "unat (of_nat (length chain) :: u64) = length chain"
    using Cons.prems [of chain] by (simp add: unat_of_nat take_bit_eq_mod)
  then have "unat (uint_max (of_nat (length chain)) n) = max (length chain) (unat n)"
    by (simp add: uint_max_def word_less_nat_alt)
  then show ?case using Cons by simp
qed simp

lemma fold_max_bounds:
  "m \<le> fold (\<lambda>x m. max (f x) m) xs m \<and> (\<forall>x \<in> set xs. f x \<le> fold (\<lambda>x m. max (f x) m) xs m) \<and>
   (fold (\<lambda>x m. max (f x) m) xs m = m \<or> (\<exists>x \<in> set xs. f x = fold (\<lambda>x m. max (f x) m) xs m))"
  for f :: "'a \<Rightarrow> nat"
proof (induction xs arbitrary: m)
  case (Cons x xs)
  from Cons.IH [of "max (f x) m"] show ?case by (auto simp: max_def split: if_splits)
qed simp

lemma chain_in_table: "chain \<in> set buckets \<Longrightarrow> length chain \<le> length (concat buckets)"
  by (induction buckets) auto

text \<open>The longest chain is as long as the report says, and no longer than the table.\<close>

lemma hash_report_max_chain:
  assumes "length (concat (h_entries self)) < 2 ^ 64"
  shows "(\<forall>chain \<in> set (h_entries self). length chain \<le> unat (max_chain_loop 0 (h_entries self))) \<and>
    unat (max_chain_loop 0 (h_entries self)) \<le> length (concat (h_entries self)) \<and>
    (unat (max_chain_loop 0 (h_entries self)) = 0 \<or>
     (\<exists>chain \<in> set (h_entries self). length chain = unat (max_chain_loop 0 (h_entries self))))"
proof -
  have "length chain < 2 ^ 64" if "chain \<in> set (h_entries self)" for chain
    using chain_in_table [OF that] assms by linarith
  from max_chain_loop_spec [of "h_entries self" 0, OF this]
  have eq: "unat (max_chain_loop 0 (h_entries self)) = fold (\<lambda>chain m. max (length chain) m) (h_entries self) 0"
    by simp
  from fold_max_bounds [of 0 length "h_entries self"] show ?thesis
    unfolding eq using chain_in_table by (metis le0)
qed

lemma hash_report_returns: "hash_ok self \<Longrightarrow> \<exists>s. hash_report address self = Inr s"
proof -
  assume "hash_ok self"
  then have "h_prime_index self < length hash_primes" by (simp add: hash_ok_def hash_primes_def)
  then show ?thesis by (simp add: hash_report_def at_def Let_def)
qed

section \<open>Lists of strings\<close>

partial_function (option) string_list_loop :: "string \<Rightarrow> string option \<Rightarrow> string list_t \<Rightarrow> string loop" where
  "string_list_loop delimiter v self =
     (case v of
        None \<Rightarrow> Some (Inr [])
      | Some s \<Rightarrow>
          lbnd (Some (list_next self)) (\<lambda>(v, next).
          lbnd (string_list_loop delimiter v next) (\<lambda>rest.
            Some (Inr (s @ (if list_cursor_is_end self then [] else delimiter) @ rest)))))"

declare string_list_loop.simps [code]

definition string_list_print :: "string list_t \<Rightarrow> string \<Rightarrow> string loop" where
  "string_list_print self delimiter =
     lbnd (Some (list_first self)) (\<lambda>(v, self). string_list_loop delimiter v self)"

fun separated :: "string \<Rightarrow> string list \<Rightarrow> string" where
  "separated delimiter [] = []"
| "separated delimiter [s] = s"
| "separated delimiter (s # ss) = s @ delimiter @ separated delimiter ss"

lemma list_cursor_is_end_iff:
  assumes "list_ok self (ds @ (a, x) # es)" and "l_cursor self = Some a"
  shows "list_cursor_is_end self \<longleftrightarrow> es = []"
  using assms by (cases es rule: rev_cases) (auto simp: list_cursor_is_end_def list_ok_def last_or_def)

lemma string_list_loop_ok:
  assumes "list_ok self (ds @ es)" and "l_cursor self = head_or None es" and "map snd es = map Some ss"
  shows "string_list_loop delimiter (head_value es) self = Some (Inr (separated delimiter ss))"
  using assms
proof (induction es arbitrary: ds self ss)
  case Nil
  then show ?case by (subst string_list_loop.simps) (simp add: head_value_def)
next
  case (Cons c es)
  from Cons.prems(3) obtain s ss' where ss: "ss = s # ss'" "snd c = Some s" "map snd es = map Some ss'"
    by (cases ss) auto
  then obtain a where c: "c = (a, Some s)" by (cases c) auto
  let ?self = "self\<lparr>l_cursor := head_or None es\<rparr>"
  have nx: "list_next self = Inr (head_value es, ?self)"
    using Cons.prems(1,2) c by (intro list_next_ok [of _ ds a "Some s"]) simp_all
  have "list_ok self ((ds @ [c]) @ es)" using Cons.prems(1) by simp
  from list_ok_cursor [OF this head_or_cases] have "list_ok ?self ((ds @ [c]) @ es)" .
  from Cons.IH [OF this _ ss(3)]
  have "string_list_loop delimiter (head_value es) ?self = Some (Inr (separated delimiter ss'))" by simp
  moreover have "list_cursor_is_end self \<longleftrightarrow> ss' = []"
    using list_cursor_is_end_iff [of self ds a "Some s" es] Cons.prems(1,2) c ss(3) by auto
  moreover have "head_value (c # es) = Some s" by (simp add: head_value_def c)
  ultimately show ?case
    using nx ss(1) by (subst string_list_loop.simps) (cases ss'; simp)
qed

text \<open>The strings are printed with the delimiter between them, and not after the last.\<close>

lemma string_list_print_spec:
  assumes "list_rep self (map Some ss)"
  shows "string_list_print self delimiter = Some (Inr (separated delimiter ss))"
proof -
  from assms obtain cs where cs: "list_ok self cs" "map snd cs = map Some ss" by (auto simp: list_rep_def)
  let ?self = "self\<lparr>l_cursor := head_or None cs\<rparr>"
  have "list_ok ?self ([] @ cs)"
    using list_ok_cursor [of self cs "head_or None cs"] cs(1) head_or_cases [of cs "[]"] by simp
  from string_list_loop_ok [OF this _ cs(2)] show ?thesis
    by (simp add: string_list_print_def list_first_ok [OF cs(1)])
qed

section \<open>Rules\<close>

definition rule_print :: "printf_ops \<Rightarrow> machine \<Rightarrow> rule \<Rightarrow> string res" where
  "rule_print fmt m self =
     deref (at (node_ctors (net m)) (left_node_ctor self)) (\<lambda>left.
     deref (at (node_ctors (net m)) (right_node_ctor self)) (\<lambda>right.
     deref (cell (function_objects m) (rule_function self)) (\<lambda>f.
     bnd (function_print fmt m f) (\<lambda>s.
       Inr (''! ('' @ ctor_name left @ '')-('' @ ctor_name right @ '') '' @ s)))))"

end
