(* ===== verification/Memory.thy ===== *)
theory Memory
  imports Dyn_Array
begin

unbundle bit_operations_syntax

text \<open>
  The wrappers of the C allocator (\<open>src/src/packages/std/memory/memory.c\<close>). The memory is a map
  from the address of a block to its bytes. Which address \<open>calloc\<close>, \<open>realloc\<close> and
  \<open>aligned_alloc\<close> answer with, and what a fresh block holds, is up to the C library: both are
  arguments, and the answer 0 is NULL, out of memory. Sizes are 64-bit and wrap around.
\<close>

record memory_t =
  heap_blocks :: "u64 \<Rightarrow> u8 list option"
  cache_line :: u64

section \<open>The C library\<close>

definition calloc :: "u64 \<Rightarrow> u64 \<Rightarrow> memory_t \<Rightarrow> memory_t" where
  "calloc answer bytes m =
     (if answer = 0 then m
      else m\<lparr>heap_blocks := (heap_blocks m)(answer \<mapsto> replicate (unat bytes) 0)\<rparr>)"

definition aligned_alloc :: "u64 \<Rightarrow> (nat \<Rightarrow> u8) \<Rightarrow> u64 \<Rightarrow> memory_t \<Rightarrow> memory_t" where
  "aligned_alloc answer junk bytes m =
     (if answer = 0 then m
      else m\<lparr>heap_blocks := (heap_blocks m)(answer \<mapsto> map junk [0..<unat bytes])\<rparr>)"

definition resized :: "(nat \<Rightarrow> u8) \<Rightarrow> nat \<Rightarrow> u8 list \<Rightarrow> u8 list" where
  "resized junk n bytes = take n bytes @ map junk [length bytes..<n]"

definition realloc :: "u64 \<Rightarrow> (nat \<Rightarrow> u8) \<Rightarrow> u64 \<Rightarrow> u64 \<Rightarrow> memory_t \<Rightarrow> memory_t res" where
  "realloc answer junk pointer bytes m =
     deref (if pointer = 0 then Some [] else heap_blocks m pointer) (\<lambda>old.
       Inr (if answer = 0 then m
            else m\<lparr>heap_blocks := (heap_blocks m)(pointer := None, answer \<mapsto> resized junk (unat bytes) old)\<rparr>))"

definition free :: "u64 \<Rightarrow> memory_t \<Rightarrow> memory_t res" where
  "free pointer m =
     (if pointer = 0 then Inr m
      else deref (heap_blocks m pointer) (\<lambda>_. Inr (m\<lparr>heap_blocks := (heap_blocks m)(pointer := None)\<rparr>)))"

section \<open>memory.c\<close>

definition pointer_is_8_bytes_aligned :: "u64 \<Rightarrow> bool" where
  "pointer_is_8_bytes_aligned pointer \<longleftrightarrow> pointer AND 7 = 0"

text \<open>
  A pointer into a block is the address of the block and an offset. Clearing bytes that are not
  all inside the block is undefined.
\<close>

definition memory_clear :: "u64 \<Rightarrow> nat \<Rightarrow> u64 \<Rightarrow> memory_t \<Rightarrow> memory_t res" where
  "memory_clear block offset amount m =
     deref (heap_blocks m block) (\<lambda>bytes.
       defined_when (offset + unat amount \<le> length bytes)
         (Inr (m\<lparr>heap_blocks := (heap_blocks m)
            (block \<mapsto> take offset bytes @ replicate (unat amount) 0 @ drop (offset + unat amount) bytes)\<rparr>)))"

definition allocate :: "u64 \<Rightarrow> u64 \<Rightarrow> memory_t \<Rightarrow> (u64 \<times> memory_t) res" where
  "allocate answer amount m =
     (let m = calloc answer amount m in
      asserting (answer \<noteq> 0)
        (asserting (pointer_is_8_bytes_aligned answer) (Inr (answer, m))))"

definition allocate_pointers :: "u64 \<Rightarrow> u64 \<Rightarrow> memory_t \<Rightarrow> (u64 \<times> memory_t) res" where
  "allocate_pointers answer amount m = allocate answer (amount * 8) m"

text \<open>The variable whose address is passed holds NULL afterwards.\<close>

definition destroy :: "u64 \<Rightarrow> memory_t \<Rightarrow> (u64 \<times> memory_t) res" where
  "destroy target m =
     (if target \<noteq> 0 then bnd (free target m) (\<lambda>m. Inr (0, m)) else Inr (target, m))"

definition reallocate ::
    "u64 \<Rightarrow> (nat \<Rightarrow> u8) \<Rightarrow> u64 \<Rightarrow> u64 \<Rightarrow> u64 \<Rightarrow> memory_t \<Rightarrow> (u64 \<times> memory_t) res" where
  "reallocate answer junk pointer old_size new_size m =
     bnd (realloc answer junk pointer new_size m) (\<lambda>m.
     asserting (answer \<noteq> 0)
       (asserting (pointer_is_8_bytes_aligned answer)
         (bnd (memory_clear answer (unat old_size) (new_size - old_size) m) (\<lambda>m. Inr (answer, m)))))"

definition reallocate_pointers ::
    "u64 \<Rightarrow> (nat \<Rightarrow> u8) \<Rightarrow> u64 \<Rightarrow> u64 \<Rightarrow> u64 \<Rightarrow> memory_t \<Rightarrow> (u64 \<times> memory_t) res" where
  "reallocate_pointers answer junk pointer old_size new_size m =
     (let unit_size = 8 in
      bnd (realloc answer junk pointer (new_size * unit_size) m) (\<lambda>m.
      asserting (answer \<noteq> 0)
        (asserting (pointer_is_8_bytes_aligned answer)
          (bnd (memory_clear answer (unat (old_size * unit_size)) ((new_size - old_size) * unit_size) m)
            (\<lambda>m. Inr (answer, m))))))"

definition pointer_is_page_aligned :: "u64 \<Rightarrow> u64 \<Rightarrow> bool" where
  "pointer_is_page_aligned page_size pointer \<longleftrightarrow> pointer mod page_size = 0"

definition real_size :: "u64 \<Rightarrow> u64 \<Rightarrow> u64" where
  "real_size unit_size amount = ((amount div unit_size) + 1) * unit_size"

text \<open>The argument \<open>page_size\<close> is what \<open>sysconf\<close> returns. The block is cleared before the assertion.\<close>

definition allocate_page_aligned ::
    "u64 \<Rightarrow> (nat \<Rightarrow> u8) \<Rightarrow> u64 \<Rightarrow> u64 \<Rightarrow> memory_t \<Rightarrow> (u64 \<times> memory_t) res" where
  "allocate_page_aligned answer junk page_size amount m =
     asserting (page_size > 0)
       (let m = aligned_alloc answer junk (real_size page_size amount) m in
        bnd (memory_clear answer 0 (real_size page_size amount) m) (\<lambda>m.
        asserting (answer \<noteq> 0)
          (asserting (pointer_is_8_bytes_aligned answer)
            (asserting (pointer_is_page_aligned page_size answer) (Inr (answer, m))))))"

definition get_cache_line_size :: "memory_t \<Rightarrow> u64" where
  "get_cache_line_size m = cache_line m"

definition set_cache_line_size :: "u64 \<Rightarrow> memory_t \<Rightarrow> memory_t" where
  "set_cache_line_size amount m = m\<lparr>cache_line := amount\<rparr>"

definition pointer_is_cache_aligned :: "memory_t \<Rightarrow> u64 \<Rightarrow> bool res" where
  "pointer_is_cache_aligned m pointer =
     asserting (get_cache_line_size m > 0) (Inr (pointer mod get_cache_line_size m = 0))"

definition allocate_cache_aligned ::
    "u64 \<Rightarrow> (nat \<Rightarrow> u8) \<Rightarrow> u64 \<Rightarrow> memory_t \<Rightarrow> (u64 \<times> memory_t) res" where
  "allocate_cache_aligned answer junk amount m =
     (let line = get_cache_line_size m in
      asserting (line > 0)
        (let m = aligned_alloc answer junk (real_size line amount) m in
         bnd (memory_clear answer 0 (real_size line amount) m) (\<lambda>m.
         asserting (answer \<noteq> 0)
           (asserting (pointer_is_8_bytes_aligned answer)
             (bnd (pointer_is_cache_aligned m answer) (\<lambda>aligned.
              asserting aligned (Inr (answer, m))))))))"

section \<open>What the wrappers promise\<close>

text \<open>The rounded size has room for the requested one, wastes at most one unit, and is a multiple of it.\<close>

lemma real_size_bounds:
  assumes "unit_size > 0" and "unat amount + unat unit_size < 2 ^ 64"
  shows "unat (real_size unit_size amount) = (unat amount div unat unit_size + 1) * unat unit_size"
    and "unat amount < unat (real_size unit_size amount)"
    and "unat (real_size unit_size amount) \<le> unat amount + unat unit_size"
proof -
  let ?s = "unat amount" and ?u = "unat unit_size"
  have u: "?u > 0" using assms(1) by (simp add: word_less_nat_alt)
  have mult: "(?s div ?u + 1) * ?u = ?s div ?u * ?u + ?u" by simp
  have le: "(?s div ?u + 1) * ?u \<le> ?s + ?u" unfolding mult by (simp add: div_times_less_eq_dividend)
  have gt: "?s < (?s div ?u + 1) * ?u"
    unfolding mult using u by (metis add.commute dividend_less_div_times mult.commute)
  have "unat (amount div unit_size + 1) = ?s div ?u + 1"
  proof -
    have "(?s div ?u + 1) * 1 \<le> (?s div ?u + 1) * ?u" using u by (intro mult_le_mono2) simp
    from le_less_trans [OF order_trans [OF this le] assms(2)] have "?s div ?u + 1 < 2 ^ 64" by simp
    then show ?thesis by (simp add: unat_word_ariths unat_div_distrib)
  qed
  then have "unat (real_size unit_size amount) = ((?s div ?u + 1) * ?u) mod 2 ^ 64"
    by (simp add: real_size_def unat_word_ariths)
  also have "\<dots> = (?s div ?u + 1) * ?u" by (rule mod_less) (use le assms(2) in linarith)
  finally show *: "unat (real_size unit_size amount) = (?s div ?u + 1) * ?u" .
  show "?s < unat (real_size unit_size amount)" unfolding * by (rule gt)
  show "unat (real_size unit_size amount) \<le> ?s + ?u" unfolding * by (rule le)
qed

lemma memory_clear_all:
  "heap_blocks m block = Some bytes \<Longrightarrow> unat amount = length bytes \<Longrightarrow>
     memory_clear block 0 amount m =
       Inr (m\<lparr>heap_blocks := (heap_blocks m)(block \<mapsto> replicate (length bytes) 0)\<rparr>)"
  by (simp add: memory_clear_def)

lemma allocate_page_aligned_spec:
  "page_size > 0 \<Longrightarrow> answer \<noteq> 0 \<Longrightarrow> pointer_is_8_bytes_aligned answer \<Longrightarrow>
     pointer_is_page_aligned page_size answer \<Longrightarrow>
     allocate_page_aligned answer junk page_size amount m =
       Inr (answer, m\<lparr>heap_blocks := (heap_blocks m)
         (answer \<mapsto> replicate (unat (real_size page_size amount)) 0)\<rparr>)"
  by (simp add: allocate_page_aligned_def aligned_alloc_def memory_clear_def)

lemma allocate_cache_aligned_spec:
  "cache_line m > 0 \<Longrightarrow> answer \<noteq> 0 \<Longrightarrow> pointer_is_8_bytes_aligned answer \<Longrightarrow>
     answer mod cache_line m = 0 \<Longrightarrow>
     allocate_cache_aligned answer junk amount m =
       Inr (answer, m\<lparr>heap_blocks := (heap_blocks m)
         (answer \<mapsto> replicate (unat (real_size (cache_line m) amount)) 0)\<rparr>)"
  by (simp add: allocate_cache_aligned_def get_cache_line_size_def aligned_alloc_def memory_clear_def
      pointer_is_cache_aligned_def)

text \<open>Out of memory: \<open>allocate\<close> reaches its assertion, the aligned allocations write through NULL before it.\<close>

lemma allocate_out_of_memory: "allocate 0 amount m = Inl Assert_failed"
  by (simp add: allocate_def Let_def)

lemma aligned_out_of_memory:
  assumes "heap_blocks m 0 = None"
  shows "page_size > 0 \<Longrightarrow> allocate_page_aligned 0 junk page_size amount m = Inl Undefined"
    and "cache_line m > 0 \<Longrightarrow> allocate_cache_aligned 0 junk amount m = Inl Undefined"
  using assms
  by (simp_all add: allocate_page_aligned_def allocate_cache_aligned_def get_cache_line_size_def
      aligned_alloc_def memory_clear_def)

lemma destroy_twice:
  "heap_blocks m target = Some bytes \<Longrightarrow>
     bnd (destroy target m) (\<lambda>(target, m). destroy target m) =
       (if target = 0 then Inr (0, m)
        else Inr (0, m\<lparr>heap_blocks := (heap_blocks m)(target := None)\<rparr>))"
  by (simp add: destroy_def free_def)

text \<open>A block that grows keeps its bytes and is filled with zeros; one that shrinks is cleared past its end.\<close>

lemma reallocate_grows:
  assumes "heap_blocks m pointer = Some bytes" and "pointer \<noteq> 0"
    and "length bytes = unat old_size" and "old_size \<le> new_size"
    and "answer \<noteq> 0" and "pointer_is_8_bytes_aligned answer"
  shows "reallocate answer junk pointer old_size new_size m =
    Inr (answer, m\<lparr>heap_blocks := (heap_blocks m)
      (pointer := None, answer \<mapsto> bytes @ replicate (unat new_size - unat old_size) 0)\<rparr>)"
proof -
  have le: "unat old_size \<le> unat new_size" using assms(4) by (simp add: word_le_nat_alt)
  have sub: "unat (new_size - old_size) = unat new_size - unat old_size"
    using assms(4) by (simp add: unat_sub)
  show ?thesis
    using assms le
    by (simp add: reallocate_def realloc_def resized_def memory_clear_def sub fun_upd_twist)
qed

lemma reallocate_shrinks:
  assumes "heap_blocks m pointer = Some bytes" and "pointer \<noteq> 0" and "length bytes = unat old_size"
    and "new_size < old_size" and "answer \<noteq> 0" and "pointer_is_8_bytes_aligned answer"
  shows "reallocate answer junk pointer old_size new_size m = Inl Undefined"
  using assms
  by (simp add: reallocate_def realloc_def resized_def memory_clear_def word_less_nat_alt)

section \<open>Arrays of pointers in memory\<close>

text \<open>
  The block of an array of pointers: eight bytes a pointer, the least significant byte first. The
  values array of \<open>array_t\<close> is such a block, in which NULL is the word 0.
\<close>

definition pointer_bytes :: "u64 \<Rightarrow> u8 list" where
  "pointer_bytes v = map (\<lambda>i. ucast (drop_bit (8 * i) v)) [0..<8]"

definition array_block :: "u64 array \<Rightarrow> u8 list" where
  "array_block self = concat (map (\<lambda>v. pointer_bytes (case v of None \<Rightarrow> 0 | Some x \<Rightarrow> x)) (arr_values self))"

lemma length_pointer_bytes [simp]: "length (pointer_bytes v) = 8"
  by (simp add: pointer_bytes_def)

lemma pointer_bytes_null [simp]: "pointer_bytes 0 = replicate 8 0"
  by (simp add: pointer_bytes_def map_replicate_const)

lemma length_concat_pointer_bytes: "length (concat (map (\<lambda>v. pointer_bytes (f v)) vs)) = length vs * 8"
  by (induction vs) simp_all

lemma concat_null_pointers: "concat (replicate n (replicate 8 (0::u8))) = replicate (n * 8) 0"
  by (induction n) (simp_all add: replicate_add)

lemma length_array_block: "length (array_block self) = length (arr_values self) * 8"
  by (simp add: array_block_def length_concat_pointer_bytes)

lemma unat_times_8: "unat (n::u64) < 2 ^ 61 \<Longrightarrow> unat (n * 8) = unat n * 8"
  by (simp add: unat_word_ariths)

lemma reallocate_pointers_grows:
  assumes "heap_blocks m pointer = Some bytes" and "pointer \<noteq> 0"
    and "length bytes = unat old_size * 8" and "old_size \<le> new_size" and "unat new_size < 2 ^ 61"
    and "answer \<noteq> 0" and "pointer_is_8_bytes_aligned answer"
  shows "reallocate_pointers answer junk pointer old_size new_size m =
    Inr (answer, m\<lparr>heap_blocks := (heap_blocks m)
      (pointer := None, answer \<mapsto> bytes @ replicate ((unat new_size - unat old_size) * 8) 0)\<rparr>)"
proof -
  have "unat (old_size * 8) = unat old_size * 8" "unat (new_size * 8) = unat new_size * 8"
    "(new_size - old_size) * 8 = new_size * 8 - old_size * 8"
    using assms(4,5) by (simp_all add: unat_times_8 word_le_nat_alt algebra_simps)
  moreover have "old_size * 8 \<le> new_size * 8"
    using assms(4) calculation by (simp add: word_le_nat_alt)
  ultimately show ?thesis
    using reallocate_grows [of m pointer bytes "old_size * 8" "new_size * 8" answer junk] assms
    by (simp add: reallocate_pointers_def reallocate_def diff_mult_distrib)
qed

lemma array_resize_block:
  assumes "array_resize self n = Inr self'" and "length (arr_values self) = arr_size self"
  shows "array_block self' = array_block self @ replicate ((n - arr_size self) * 8) 0"
  using assms
  by (auto simp: array_resize_def array_block_def res_simps concat_null_pointers split: if_splits)

text \<open>Resizing the array of the model leaves the block that \<open>reallocate_pointers\<close> leaves in memory.\<close>

lemma array_resize_in_memory:
  assumes "array_resize self (unat n) = Inr self'" and "length (arr_values self) = arr_size self"
    and "heap_blocks m pointer = Some (array_block self)" and "pointer \<noteq> 0" and "unat n < 2 ^ 61"
    and "answer \<noteq> 0" and "pointer_is_8_bytes_aligned answer"
  shows "reallocate_pointers answer junk pointer (of_nat (arr_size self)) n m =
    Inr (answer, m\<lparr>heap_blocks := (heap_blocks m)(pointer := None, answer \<mapsto> array_block self')\<rparr>)"
proof -
  have le: "arr_size self \<le> unat n"
    using assms(1) by (simp add: array_resize_def res_simps)
  then have small: "arr_size self < 2 ^ 64" using assms(5) by simp
  then have amount: "unat (of_nat (arr_size self) :: u64) = arr_size self"
    by (simp add: unat_of_nat take_bit_eq_mod)
  show ?thesis
    using reallocate_pointers_grows [of m pointer "array_block self" "of_nat (arr_size self)" n answer junk]
      array_resize_block [OF assms(1,2)] assms le
    by (simp add: amount length_array_block word_le_nat_alt)
qed

text \<open>An array of one pointer, and a memory that holds its block.\<close>

definition one_value :: "u64 array" where
  "one_value = (array_new 1)\<lparr>arr_values := [Some 7], arr_cursor := 1\<rparr>"

definition one_block :: memory_t where
  "one_block = \<lparr>heap_blocks = [16 \<mapsto> array_block one_value], cache_line = 64\<rparr>"

text \<open>The size in bytes wraps around: 2 to the 61st pointers and three more get room for three.\<close>

lemma allocate_pointers_wraps:
  assumes "answer \<noteq> 0" and "pointer_is_8_bytes_aligned answer" and "unat n < 2 ^ 61"
  shows "allocate_pointers answer (n + 2 ^ 61) m = allocate_pointers answer n m"
proof -
  have "(n + 2 ^ 61) * 8 = n * 8 + (2 ^ 64 :: u64)" by (simp add: distrib_right)
  also have "(2 ^ 64 :: u64) = 0" by simp
  finally have "(n + 2 ^ 61) * 8 = n * 8" by simp
  then show ?thesis unfolding allocate_pointers_def by (rule arg_cong)
qed

end
