(* ===== verification/Blob_File.thy ===== *)
theory Blob_File
  imports Prelude
begin

text \<open>
  Blobs (\<open>src/src/packages/std/blob/blob.c\<close>), byte arrays with an extra 0 byte so that they can be
  read as strings, and the reading and writing of whole files
  (\<open>src/src/packages/std/file/file.c\<close>). A block of bytes is a list; copying or comparing more
  bytes than a block has is undefined.
\<close>

section \<open>Blocks of bytes\<close>

definition memcpy :: "u8 list \<Rightarrow> u8 list \<Rightarrow> nat \<Rightarrow> u8 list res" where
  "memcpy dest src n = defined_when (n \<le> length dest \<and> n \<le> length src) (Inr (take n src @ drop n dest))"

definition memcmp_equal :: "u8 list \<Rightarrow> u8 list \<Rightarrow> nat \<Rightarrow> bool res" where
  "memcmp_equal xs ys n = defined_when (n \<le> length xs \<and> n \<le> length ys) (Inr (take n xs = take n ys))"

text \<open>What a function on C strings reads from a block: the bytes before the first 0.\<close>

definition c_string :: "u8 list \<Rightarrow> u8 list res" where
  "c_string bytes = defined_when (0 \<in> set bytes) (Inr (takeWhile (\<lambda>b. b \<noteq> 0) bytes))"

section \<open>blob.c\<close>

record blob =
  b_size :: u64
  b_bytes :: "u8 list"

definition blob_new :: "u64 \<Rightarrow> blob" where
  "blob_new n = \<lparr>b_size = n, b_bytes = replicate (unat (n + 1)) 0\<rparr>"

definition blob_destroy :: "blob option \<Rightarrow> blob option" where
  "blob_destroy self_pointer = (case self_pointer of None \<Rightarrow> None | Some self \<Rightarrow> None)"

definition blob_size :: "blob \<Rightarrow> u64" where "blob_size self = b_size self"

definition blob_bytes :: "blob \<Rightarrow> u8 list" where "blob_bytes self = b_bytes self"

definition blob_string :: "blob \<Rightarrow> u8 list" where "blob_string self = b_bytes self"

text \<open>A store through the pointer that \<open>blob_bytes\<close> returns.\<close>

definition blob_store :: "nat \<Rightarrow> u8 \<Rightarrow> blob \<Rightarrow> blob res" where
  "blob_store i byte self =
     defined_when (i < length (b_bytes self)) (Inr (self\<lparr>b_bytes := (b_bytes self)[i := byte]\<rparr>))"

definition blob_copy_from :: "blob \<Rightarrow> u8 list \<Rightarrow> blob res" where
  "blob_copy_from self bytes =
     bnd (memcpy (b_bytes self) bytes (unat (b_size self))) (\<lambda>bytes. Inr (self\<lparr>b_bytes := bytes\<rparr>))"

definition blob_copy_into :: "blob \<Rightarrow> u8 list \<Rightarrow> u8 list res" where
  "blob_copy_into self bytes = memcpy bytes (b_bytes self) (unat (b_size self))"

text \<open>Blobs are compared with their addresses.\<close>

definition blob_equal :: "nat \<times> blob \<Rightarrow> nat \<times> blob \<Rightarrow> bool res" where
  "blob_equal left right =
     (if fst left = fst right then Inr True
      else if b_size (snd left) \<noteq> b_size (snd right) then Inr False
      else memcmp_equal (b_bytes (snd left)) (b_bytes (snd right)) (unat (b_size (snd left))))"

definition blob_copy :: "blob \<Rightarrow> blob res" where
  "blob_copy self =
     (let blob = blob_new (b_size self) in
      bnd (memcpy (b_bytes blob) (b_bytes self) (unat (b_size self))) (\<lambda>bytes.
        Inr (blob\<lparr>b_bytes := bytes\<rparr>)))"

section \<open>file.c\<close>

text \<open>
  The disk maps names to contents. An open file is its name and its position. Of the modes of
  \<open>fopen\<close>, \<open>r\<close> and \<open>w\<close> are modelled.
\<close>

type_synonym disk = "string \<Rightarrow> u8 list option"

record file_t =
  f_name :: string
  f_position :: nat

definition fopen :: "string \<Rightarrow> string \<Rightarrow> disk \<Rightarrow> (file_t \<times> disk) option" where
  "fopen name mode d =
     (if mode = ''r'' then (case d name of None \<Rightarrow> None | Some _ \<Rightarrow> Some (\<lparr>f_name = name, f_position = 0\<rparr>, d))
      else if mode = ''w'' then Some (\<lparr>f_name = name, f_position = 0\<rparr>, d(name \<mapsto> []))
      else None)"

text \<open>The bytes read, and the file behind them.\<close>

definition fread :: "nat \<Rightarrow> file_t \<Rightarrow> disk \<Rightarrow> (u8 list \<times> file_t) res" where
  "fread n file d =
     deref (d (f_name file)) (\<lambda>content.
       let bytes = take n (drop (f_position file) content)
       in Inr (bytes, file\<lparr>f_position := f_position file + length bytes\<rparr>))"

definition overwrite :: "nat \<Rightarrow> u8 list \<Rightarrow> u8 list \<Rightarrow> u8 list" where
  "overwrite i bytes content =
     take i content @ replicate (i - length content) 0 @ bytes @ drop (i + length bytes) content"

definition fwrite :: "u8 list \<Rightarrow> nat \<Rightarrow> file_t \<Rightarrow> disk \<Rightarrow> (file_t \<times> disk) res" where
  "fwrite bytes n file d =
     defined_when (n \<le> length bytes)
       (deref (d (f_name file)) (\<lambda>content.
          Inr (file\<lparr>f_position := f_position file + n\<rparr>,
               d(f_name file \<mapsto> overwrite (f_position file) (take n bytes) content))))"

definition file_exists :: "string \<Rightarrow> disk \<Rightarrow> bool" where
  "file_exists name d \<longleftrightarrow> d name \<noteq> None"

definition file_open_or_fail :: "string \<Rightarrow> string \<Rightarrow> disk \<Rightarrow> (file_t \<times> disk) res" where
  "file_open_or_fail name mode d =
     (case fopen name mode d of None \<Rightarrow> Inl Exit_failure | Some opened \<Rightarrow> Inr opened)"

definition file_size :: "file_t \<Rightarrow> disk \<Rightarrow> nat res" where
  "file_size file d = deref (d (f_name file)) (\<lambda>content. Inr (length content))"

definition file_read_string :: "file_t \<Rightarrow> disk \<Rightarrow> (u8 list \<times> file_t) res" where
  "file_read_string file d =
     bnd (file_size file d) (\<lambda>n.
     let block = replicate (n + 1) 0 in
     bnd (fread n file d) (\<lambda>(bytes, file).
     asserting (length bytes = n) (Inr (bytes @ drop (length bytes) block, file))))"

definition file_read_bytes :: "file_t \<Rightarrow> disk \<Rightarrow> (u8 list \<times> file_t) res" where
  "file_read_bytes file d =
     bnd (file_size file d) (\<lambda>n.
     let block = replicate n 0 in
     bnd (fread n file d) (\<lambda>(bytes, file).
     asserting (length bytes = n) (Inr (bytes @ drop (length bytes) block, file))))"

definition file_write_bytes :: "file_t \<Rightarrow> u8 list \<Rightarrow> nat \<Rightarrow> disk \<Rightarrow> (file_t \<times> disk) res" where
  "file_write_bytes file bytes n d = fwrite bytes n file d"

definition file_read_blob :: "file_t \<Rightarrow> disk \<Rightarrow> (blob \<times> file_t) res" where
  "file_read_blob file d =
     bnd (file_size file d) (\<lambda>n.
     let blob = blob_new (of_nat n) in
     bnd (fread n file d) (\<lambda>(bytes, file).
     asserting (length bytes = n)
       (Inr (blob\<lparr>b_bytes := bytes @ drop (length bytes) (b_bytes blob)\<rparr>, file))))"

definition file_write_blob :: "file_t \<Rightarrow> blob \<Rightarrow> disk \<Rightarrow> (file_t \<times> disk) res" where
  "file_write_blob file blob d = fwrite (blob_bytes blob) (unat (blob_size blob)) file d"

section \<open>Blobs are strings of their size\<close>

definition blob_ok :: "blob \<Rightarrow> bool" where
  "blob_ok self \<longleftrightarrow> length (b_bytes self) = unat (b_size self) + 1 \<and> last (b_bytes self) = 0"

definition blob_data :: "blob \<Rightarrow> u8 list" where
  "blob_data self = take (unat (b_size self)) (b_bytes self)"

lemma blob_ok_append: "blob_ok self \<longleftrightarrow> b_bytes self = blob_data self @ [0] \<and> length (blob_data self) = unat (b_size self)"
proof
  assume ok: "blob_ok self"
  then have "b_bytes self \<noteq> []" by (auto simp: blob_ok_def)
  then have "b_bytes self = butlast (b_bytes self) @ [0]"
    using ok by (metis append_butlast_last_id blob_ok_def)
  moreover have "butlast (b_bytes self) = blob_data self"
    using ok by (simp add: blob_data_def butlast_conv_take blob_ok_def)
  ultimately show "b_bytes self = blob_data self @ [0] \<and> length (blob_data self) = unat (b_size self)"
    using ok by (simp add: blob_data_def blob_ok_def)
next
  assume "b_bytes self = blob_data self @ [0] \<and> length (blob_data self) = unat (b_size self)"
  then show "blob_ok self" unfolding blob_ok_def by (metis last_snoc length_append_singleton Suc_eq_plus1)
qed

lemma drop_zeros [simp]: "drop n (c # replicate n c) = [c]"
  unfolding replicate_Suc [symmetric] drop_replicate by simp

lemma unat_max: "unat (- 1 :: u64) = 2 ^ 64 - 1"
  by (simp add: unsigned_minus_1_eq_mask mask_eq_exp_minus_1)

lemma unat_plus_one: "n \<noteq> - 1 \<Longrightarrow> unat (n + 1) = unat (n :: u64) + 1"
  by (metis Suc_eq_plus1 add.commute add_eq_0_iff unatSuc)

lemma blob_ok_new: "n \<noteq> - 1 \<Longrightarrow> blob_ok (blob_new n)"
  by (simp add: blob_ok_def blob_new_def unat_plus_one)

lemma blob_ok_store: "blob_ok self \<Longrightarrow> i < unat (b_size self) \<Longrightarrow> blob_store i byte self = Inr self' \<Longrightarrow> blob_ok self'"
  by (cases "b_bytes self = []") (auto simp: blob_store_def blob_ok_def res_simps last_list_update)

lemma blob_ok_copy_from:
  assumes "blob_ok self" and "unat (b_size self) \<le> length bytes"
  shows "\<exists>self'. blob_copy_from self bytes = Inr self' \<and> blob_ok self' \<and> b_size self' = b_size self \<and>
    blob_data self' = take (unat (b_size self)) bytes"
  using assms
  by (auto simp: blob_copy_from_def memcpy_def blob_ok_def blob_data_def res_simps last_append last_drop)

lemma blob_copy_into_spec:
  "blob_ok self \<Longrightarrow> unat (b_size self) \<le> length bytes \<Longrightarrow>
     blob_copy_into self bytes = Inr (blob_data self @ drop (unat (b_size self)) bytes)"
  by (simp add: blob_copy_into_def memcpy_def blob_data_def blob_ok_def)

text \<open>Read as a string, a blob gives its bytes before the first 0, and never reads past its end.\<close>

lemma blob_string_spec:
  "blob_ok self \<Longrightarrow> c_string (blob_string self) = Inr (takeWhile (\<lambda>b. b \<noteq> 0) (blob_data self))"
  by (subst (asm) blob_ok_append) (simp add: c_string_def blob_string_def takeWhile_tail)

lemma blob_copy_spec:
  assumes "blob_ok self" and "b_size self \<noteq> - 1"
  shows "blob_copy self = Inr self"
proof (cases self)
  case (fields n bytes)
  then have "bytes = take (unat n) bytes @ [0]" "unat n \<le> length bytes" "n \<noteq> - 1"
    using assms blob_ok_append [of self] by (simp_all add: blob_data_def blob_ok_def)
  then show ?thesis
    by (simp add: fields blob_copy_def blob_new_def memcpy_def unat_plus_one)
qed

lemma blob_equal_spec:
  "blob_ok left \<Longrightarrow> blob_ok right \<Longrightarrow> (a = b \<Longrightarrow> left = right) \<Longrightarrow>
     blob_equal (a, left) (b, right) = Inr (left = right)"
  using blob_ok_append [of left] blob_ok_append [of right]
  by (auto simp: blob_equal_def memcmp_equal_def defined_when_def blob_data_def)

section \<open>Files are read as a whole\<close>

lemma file_read_fresh:
  assumes "d name = Some content" and "file = \<lparr>f_name = name, f_position = 0\<rparr>"
  shows "file_read_string file d = Inr (content @ [0], file\<lparr>f_position := length content\<rparr>)"
    and "file_read_bytes file d = Inr (content, file\<lparr>f_position := length content\<rparr>)"
  using assms by (simp_all add: file_read_string_def file_read_bytes_def file_size_def fread_def)

text \<open>The whole size is expected from the current position on: a second read fails its assertion.\<close>

lemma file_read_again:
  assumes "d (f_name file) = Some content" and "f_position file > 0" and "content \<noteq> []"
  shows "file_read_string file d = Inl Assert_failed"
  using assms by (cases content) (auto simp: file_read_string_def file_size_def fread_def asserting_def)

lemma file_read_missing: "d name = None \<Longrightarrow> file_open_or_fail name ''r'' d = Inl Exit_failure"
  by (simp add: file_open_or_fail_def fopen_def)

lemma file_blob_spec:
  assumes "d name = Some content" and "length content < 2 ^ 64 - 1"
  shows "\<exists>blob. file_read_blob \<lparr>f_name = name, f_position = 0\<rparr> d =
      Inr (blob, \<lparr>f_name = name, f_position = length content\<rparr>) \<and> blob_ok blob \<and> blob_data blob = content"
proof -
  let ?n = "of_nat (length content) :: u64"
  have size: "unat ?n = length content" using assms(2) by (simp add: unat_of_nat take_bit_eq_mod)
  then have "?n \<noteq> - 1" using assms(2) by (metis less_irrefl unat_max)
  then have "unat (?n + 1) = length content + 1" by (simp add: unat_plus_one size)
  then show ?thesis
    using assms
    by (simp add: file_read_blob_def file_size_def fread_def blob_new_def blob_ok_def blob_data_def size)
qed

lemma overwrite_empty: "overwrite 0 bytes [] = bytes"
  by (simp add: overwrite_def)

text \<open>What is written to a new file is read back from it.\<close>

lemma file_write_read:
  assumes "n \<le> length bytes"
  shows "bnd (file_open_or_fail name ''w'' d) (\<lambda>(file, d).
         bnd (file_write_bytes file bytes n d) (\<lambda>(file, d).
         bnd (file_open_or_fail name ''r'' d) (\<lambda>(file, d).
         bnd (file_read_bytes file d) (\<lambda>(bytes, file). Inr bytes)))) = Inr (take n bytes)"
  using assms
  by (simp add: file_open_or_fail_def fopen_def file_write_bytes_def fwrite_def overwrite_empty
      file_read_bytes_def file_size_def fread_def)

lemma file_blob_round_trip:
  assumes ok: "blob_ok blob" and "b_size blob \<noteq> - 1"
  shows "bnd (file_open_or_fail name ''w'' d) (\<lambda>(file, d).
         bnd (file_write_blob file blob d) (\<lambda>(file, d).
         bnd (file_open_or_fail name ''r'' d) (\<lambda>(file, d).
         bnd (file_read_blob file d) (\<lambda>(blob, file). Inr blob)))) = Inr blob"
proof -
  from ok have bytes: "b_bytes blob = blob_data blob @ [0]" and len: "length (blob_data blob) = unat (b_size blob)"
    by (simp_all add: blob_ok_append)
  from len have "of_nat (length (blob_data blob)) = b_size blob" by simp
  then show ?thesis
    using assms
    by (simp add: file_open_or_fail_def fopen_def file_write_blob_def fwrite_def overwrite_empty
        file_read_blob_def file_size_def fread_def blob_bytes_def blob_size_def bytes len blob_new_def
        unat_plus_one)
qed

end
