(* ===== verification/Source_Context.thy ===== *)
theory Source_Context
  imports Strings
begin

text \<open>
  Line numbers and the excerpt of a source around an error (\<open>src/src/packages/std/code/code.c\<close>).
  Strings are the characters before the ending 0 byte. What \<open>code_print_context\<close> prints is its
  result.
\<close>

abbreviation line_end :: char where "line_end \<equiv> CHR 0x0A"

fun max_lineno_loop :: "nat \<Rightarrow> string \<Rightarrow> nat" where
  "max_lineno_loop lineno [] = lineno"
| "max_lineno_loop lineno (c # cs) = max_lineno_loop (if c = line_end then lineno + 1 else lineno) cs"

definition code_max_lineno :: "string \<Rightarrow> nat" where
  "code_max_lineno s = max_lineno_loop 1 s"

fun lineno_loop :: "nat \<Rightarrow> nat \<Rightarrow> nat \<Rightarrow> string \<Rightarrow> nat" where
  "lineno_loop index i lineno [] = lineno"
| "lineno_loop index i lineno (c # cs) =
     (if i \<ge> index then lineno
      else lineno_loop index (Suc i) (if c = line_end then lineno + 1 else lineno) cs)"

definition code_lineno_of_index :: "string \<Rightarrow> nat \<Rightarrow> nat" where
  "code_lineno_of_index s index = lineno_loop index 0 1 s"

text \<open>The format \<open>%*lu\<close>: the number in decimal, filled with blanks on the left.\<close>

definition padded :: "nat \<Rightarrow> nat \<Rightarrow> string" where
  "padded width n = replicate (width - length (uint_to_string n)) CHR '' '' @ uint_to_string n"

definition line_head :: "nat \<Rightarrow> nat \<Rightarrow> nat \<Rightarrow> nat \<Rightarrow> string" where
  "line_head start_lineno end_lineno padding_left lineno =
     (if start_lineno \<le> lineno \<and> lineno \<le> end_lineno then ''> '' else ''  '')
       @ padded padding_left lineno @ ''|''"

definition in_context :: "nat \<Rightarrow> nat \<Rightarrow> nat \<Rightarrow> bool" where
  "in_context start_lineno end_lineno lineno \<longleftrightarrow>
     start_lineno \<le> lineno + 3 \<and> lineno \<le> end_lineno + 3"

text \<open>The argument \<open>at_start\<close> is \<open>i == 0 || string[i-1] == '\\n'\<close>.\<close>

fun context_loop :: "nat \<Rightarrow> nat \<Rightarrow> nat \<Rightarrow> bool \<Rightarrow> nat \<Rightarrow> string \<Rightarrow> string" where
  "context_loop a b w at_start lineno [] = []"
| "context_loop a b w at_start lineno (c # cs) =
     (if in_context a b lineno then (if at_start then line_head a b w lineno else []) @ [c] else [])
       @ context_loop a b w (c = line_end) (if c = line_end then lineno + 1 else lineno) cs"

definition code_print_context :: "string \<Rightarrow> nat \<Rightarrow> nat \<Rightarrow> string" where
  "code_print_context s start end_index =
     (let start_lineno = code_lineno_of_index s start;
          end_lineno = code_lineno_of_index s end_index;
          max_lineno = end_lineno + 3;
          padding_left = uint_decimal_length max_lineno
      in context_loop start_lineno end_lineno padding_left True 1 s)"

section \<open>What they compute\<close>

lemma max_lineno_loop_count: "max_lineno_loop n s = n + count_list s line_end"
  by (induction s arbitrary: n) simp_all

lemma lineno_loop_count: "lineno_loop index i n s = n + count_list (take (index - i) s) line_end"
proof (induction s arbitrary: i n)
  case (Cons c cs)
  then show ?case by (cases "index - i") (auto simp: Suc_diff_le diff_Suc split: nat.splits)
qed simp

lemma code_lineno_of_index_spec:
  "code_lineno_of_index s index = 1 + count_list (take index s) line_end"
  by (simp add: code_lineno_of_index_def lineno_loop_count)

lemma code_max_lineno_spec: "code_max_lineno s = code_lineno_of_index s (length s)"
  by (simp add: code_max_lineno_def max_lineno_loop_count code_lineno_of_index_spec)

lemma count_list_take_mono: "i \<le> j \<Longrightarrow> count_list (take i s) c \<le> count_list (take j s) c"
proof -
  assume "i \<le> j"
  then have "take j s = take i s @ take (j - i) (drop i s)"
    by (metis le_add_diff_inverse take_add)
  then show ?thesis by (simp add: count_list_append)
qed

lemma code_lineno_of_index_mono:
  "i \<le> j \<Longrightarrow> code_lineno_of_index s i \<le> code_lineno_of_index s j"
  by (simp add: code_lineno_of_index_spec count_list_take_mono)

lemma code_lineno_of_index_bounds:
  "1 \<le> code_lineno_of_index s i \<and> code_lineno_of_index s i \<le> code_max_lineno s"
proof -
  have "count_list (take i s) line_end \<le> count_list (take (max i (length s)) s) line_end"
    by (rule count_list_take_mono) simp
  then show ?thesis by (simp add: code_lineno_of_index_spec code_max_lineno_spec)
qed

text \<open>The lines of a text, each with the newline that ends it.\<close>

fun source_lines :: "string \<Rightarrow> string list" where
  "source_lines [] = []"
| "source_lines (c # cs) =
     (if c = line_end then [c] # source_lines cs
      else case source_lines cs of [] \<Rightarrow> [[c]] | l # ls \<Rightarrow> (c # l) # ls)"

lemma concat_source_lines: "concat (source_lines s) = s"
  by (induction s) (auto split: list.splits)

definition shown_line :: "nat \<Rightarrow> nat \<Rightarrow> nat \<Rightarrow> nat \<times> string \<Rightarrow> string" where
  "shown_line a b w numbered =
     (if in_context a b (fst numbered) then line_head a b w (fst numbered) @ snd numbered else [])"

definition shown_lines :: "nat \<Rightarrow> nat \<Rightarrow> nat \<Rightarrow> (nat \<times> string) list \<Rightarrow> string" where
  "shown_lines a b w numbered = concat (map (shown_line a b w) numbered)"

text \<open>Inside a line, the rest of the line goes without its head.\<close>

definition rest_shown :: "nat \<Rightarrow> nat \<Rightarrow> nat \<Rightarrow> nat \<Rightarrow> string list \<Rightarrow> string" where
  "rest_shown a b w n ls =
     (case ls of [] \<Rightarrow> [] | l # ls \<Rightarrow> (if in_context a b n then l else []) @ shown_lines a b w (enumerate (Suc n) ls))"

lemma source_lines_Nil [simp]: "source_lines s = [] \<longleftrightarrow> s = []"
  by (cases s) (auto split: list.splits)

lemma context_loop_spec:
  "context_loop a b w True n s = shown_lines a b w (enumerate n (source_lines s)) \<and>
   context_loop a b w False n s = rest_shown a b w n (source_lines s)"
  by (induction s arbitrary: n)
    (auto simp: shown_lines_def shown_line_def rest_shown_def split: list.splits)

text \<open>
  The excerpt consists of the lines from three before the first to three after the last, each
  with its number, the lines between the two positions marked.
\<close>

lemma code_print_context_spec:
  "code_print_context s i j =
     (let a = code_lineno_of_index s i; b = code_lineno_of_index s j in
      shown_lines a b (uint_decimal_length (b + 3)) (enumerate 1 (source_lines s)))"
  by (simp add: code_print_context_def context_loop_spec Let_def)

lemma code_print_context_lines:
  "code_print_context s i j =
     (let a = code_lineno_of_index s i; b = code_lineno_of_index s j; width = uint_decimal_length (b + 3) in
      concat (map (\<lambda>(k, line).
          if a \<le> k + 3 \<and> k \<le> b + 3
          then (if a \<le> k \<and> k \<le> b then ''> '' else ''  '') @ padded width k @ ''|'' @ line else [])
        (enumerate 1 (source_lines s))))"
  unfolding code_print_context_spec shown_lines_def Let_def
  by (intro arg_cong [where f = concat] map_cong refl)
    (simp add: shown_line_def in_context_def line_head_def split: prod.split)

text \<open>There are never more lines than \<open>code_max_lineno\<close> says.\<close>

lemma length_source_lines: "length (source_lines s) \<le> code_max_lineno s"
proof -
  have "length (source_lines s) \<le> count_list s line_end + (if s = [] then 0 else 1)"
    by (induction s) (auto split: list.splits if_splits)
  then show ?thesis by (simp add: code_max_lineno_def max_lineno_loop_count split: if_splits)
qed

end
