(* ===== verification/Vec2.thy ===== *)
theory Vec2
  imports Tagged_Value
begin

unbundle bit_operations_syntax

text \<open>
  Vectors of two doubles (\<open>src/src/packages/std/vec/vec2.c\<close>). Doubles are the bit patterns of
  IEEE 754: what negation, comparison and \<open>isnan\<close> do to the bits is written out, the rounding
  operations are those of \<open>double_ops\<close>, and \<open>sqrt\<close> is an argument.
\<close>

section \<open>Doubles\<close>

definition SIGN_BIT :: u64 where "SIGN_BIT = 0x8000000000000000"

definition double_neg :: "u64 \<Rightarrow> u64" where
  "double_neg d = d XOR SIGN_BIT"

definition isnan :: "u64 \<Rightarrow> bool" where
  "isnan d \<longleftrightarrow> d AND NOT SIGN_BIT > 0x7FF0000000000000"

definition double_is_zero :: "u64 \<Rightarrow> bool" where
  "double_is_zero d \<longleftrightarrow> d AND NOT SIGN_BIT = 0"

definition double_eq :: "u64 \<Rightarrow> u64 \<Rightarrow> bool" where
  "double_eq d e \<longleftrightarrow> \<not> isnan d \<and> \<not> isnan e \<and> (d = e \<or> double_is_zero d \<and> double_is_zero e)"

definition double_one :: u64 where "double_one = 0x3FF0000000000000"

section \<open>vec2.c\<close>

record vec2 =
  vec_x :: u64
  vec_y :: u64

definition vec2_zeros :: vec2 where "vec2_zeros = \<lparr>vec_x = 0, vec_y = 0\<rparr>"

definition vec2_ones :: vec2 where "vec2_ones = \<lparr>vec_x = double_one, vec_y = double_one\<rparr>"

definition vec2_equal :: "vec2 \<Rightarrow> vec2 \<Rightarrow> bool" where
  "vec2_equal v1 v2 \<longleftrightarrow> double_eq (vec_x v1) (vec_x v2) \<and> double_eq (vec_y v1) (vec_y v2)"

definition vec2_add :: "double_ops \<Rightarrow> vec2 \<Rightarrow> vec2 \<Rightarrow> vec2" where
  "vec2_add ops v1 v2 =
     \<lparr>vec_x = double_add ops (vec_x v1) (vec_x v2), vec_y = double_add ops (vec_y v1) (vec_y v2)\<rparr>"

definition vec2_sub :: "double_ops \<Rightarrow> vec2 \<Rightarrow> vec2 \<Rightarrow> vec2" where
  "vec2_sub ops v1 v2 =
     \<lparr>vec_x = double_sub ops (vec_x v1) (vec_x v2), vec_y = double_sub ops (vec_y v1) (vec_y v2)\<rparr>"

definition vec2_neg :: "vec2 \<Rightarrow> vec2" where
  "vec2_neg v = \<lparr>vec_x = double_neg (vec_x v), vec_y = double_neg (vec_y v)\<rparr>"

definition vec2_mul :: "double_ops \<Rightarrow> vec2 \<Rightarrow> vec2 \<Rightarrow> vec2" where
  "vec2_mul ops v1 v2 =
     \<lparr>vec_x = double_mul ops (vec_x v1) (vec_x v2), vec_y = double_mul ops (vec_y v1) (vec_y v2)\<rparr>"

definition vec2_dot :: "double_ops \<Rightarrow> vec2 \<Rightarrow> vec2 \<Rightarrow> u64" where
  "vec2_dot ops v1 v2 =
     double_add ops (double_mul ops (vec_x v1) (vec_x v2)) (double_mul ops (vec_y v1) (vec_y v2))"

definition vec2_square :: "double_ops \<Rightarrow> vec2 \<Rightarrow> u64" where
  "vec2_square ops v = vec2_dot ops v v"

definition vec2_length :: "double_ops \<Rightarrow> (u64 \<Rightarrow> u64) \<Rightarrow> vec2 \<Rightarrow> u64" where
  "vec2_length ops sqrt_fn v = sqrt_fn (vec2_square ops v)"

definition vec2_is_nan :: "vec2 \<Rightarrow> bool" where
  "vec2_is_nan v \<longleftrightarrow> isnan (vec_x v) \<or> isnan (vec_y v)"

definition vec2_add_scalar :: "double_ops \<Rightarrow> vec2 \<Rightarrow> u64 \<Rightarrow> vec2" where
  "vec2_add_scalar ops v s = \<lparr>vec_x = double_add ops (vec_x v) s, vec_y = double_add ops (vec_y v) s\<rparr>"

definition vec2_sub_scalar :: "double_ops \<Rightarrow> vec2 \<Rightarrow> u64 \<Rightarrow> vec2" where
  "vec2_sub_scalar ops v s = \<lparr>vec_x = double_sub ops (vec_x v) s, vec_y = double_sub ops (vec_y v) s\<rparr>"

definition vec2_mul_scalar :: "double_ops \<Rightarrow> vec2 \<Rightarrow> u64 \<Rightarrow> vec2" where
  "vec2_mul_scalar ops v s = \<lparr>vec_x = double_mul ops (vec_x v) s, vec_y = double_mul ops (vec_y v) s\<rparr>"

definition vec2_div_scalar :: "double_ops \<Rightarrow> vec2 \<Rightarrow> u64 \<Rightarrow> vec2" where
  "vec2_div_scalar ops v s = \<lparr>vec_x = double_div ops (vec_x v) s, vec_y = double_div ops (vec_y v) s\<rparr>"

definition vec2_map :: "vec2 \<Rightarrow> (u64 \<Rightarrow> u64) \<Rightarrow> vec2" where
  "vec2_map v fn = \<lparr>vec_x = fn (vec_x v), vec_y = fn (vec_y v)\<rparr>"

section \<open>Equality and negation\<close>

lemma double_neg_neg [simp]: "double_neg (double_neg d) = d"
  by (simp add: double_neg_def xor.assoc)

lemma masked_neg: "double_neg d AND NOT SIGN_BIT = d AND NOT SIGN_BIT"
  by (rule bit_eqI) (auto simp: double_neg_def bit_simps)

lemma isnan_neg [simp]: "isnan (double_neg d) = isnan d"
  by (simp add: isnan_def masked_neg)

lemma double_eq_neg: "double_eq d e \<Longrightarrow> double_eq (double_neg d) (double_neg e)"
  by (auto simp: double_eq_def double_is_zero_def masked_neg)

text \<open>
  Equality is symmetric and transitive, and a vector equals itself just when it holds no NaN. It
  is not equality of the bits: the two zeros are equal.
\<close>

lemma vec2_equal_self: "vec2_equal v v \<longleftrightarrow> \<not> vec2_is_nan v"
  by (auto simp: vec2_equal_def vec2_is_nan_def double_eq_def)

lemma vec2_equal_sym: "vec2_equal v w \<Longrightarrow> vec2_equal w v"
  by (auto simp: vec2_equal_def double_eq_def)

lemma vec2_equal_trans: "vec2_equal u v \<Longrightarrow> vec2_equal v w \<Longrightarrow> vec2_equal u w"
  by (auto simp: vec2_equal_def double_eq_def)

lemma vec2_equal_zeros: "vec2_equal vec2_zeros (vec2_neg vec2_zeros)"
  by code_simp

lemma vec2_neg_neg: "vec2_neg (vec2_neg v) = v"
  by (simp add: vec2_neg_def)

lemma vec2_equal_neg: "vec2_equal v w \<Longrightarrow> vec2_equal (vec2_neg v) (vec2_neg w)"
  by (simp add: vec2_equal_def vec2_neg_def double_eq_neg)

lemma vec2_map_neg: "vec2_map v double_neg = vec2_neg v"
  by (simp add: vec2_map_def vec2_neg_def)

lemma vec2_scalar_map:
  "vec2_add_scalar ops v s = vec2_map v (\<lambda>d. double_add ops d s)"
  "vec2_sub_scalar ops v s = vec2_map v (\<lambda>d. double_sub ops d s)"
  "vec2_mul_scalar ops v s = vec2_map v (\<lambda>d. double_mul ops d s)"
  "vec2_div_scalar ops v s = vec2_map v (\<lambda>d. double_div ops d s)"
  by (simp_all add: vec2_map_def vec2_add_scalar_def vec2_sub_scalar_def vec2_mul_scalar_def vec2_div_scalar_def)

end
