(* ===== verification/Threads.thy ===== *)
theory Threads
  imports Prelude
begin

text \<open>
  Threads and their pool (\<open>src/src/packages/std/thread\<close>), what the scheduler does with them
  (\<open>src/src/core/scheduler.c\<close>), and the locks of the C library behind \<open>mutex.c\<close> and \<open>spinlock.c\<close>.
  An operation that has to wait for another thread is \<open>None\<close> in the state it is called in.
\<close>

section \<open>Threads\<close>

text \<open>
  The \<open>thread_t\<close> objects are cells: \<open>thread_join\<close> frees one. Of a thread the model keeps its
  argument, its number in the pool, and whether its function has returned.
\<close>

record thread =
  thread_arg :: nat
  thread_id :: nat
  thread_returned :: bool

record thread_pool =
  thread_array :: "nat option list"
  threads :: "thread option list"

definition thread_start :: "nat \<Rightarrow> thread_pool \<Rightarrow> nat \<times> thread_pool" where
  "thread_start arg self =
     (length (threads self),
      self\<lparr>threads := threads self @ [Some \<lparr>thread_arg = arg, thread_id = 0, thread_returned = False\<rparr>]\<rparr>)"

text \<open>The thread's function returns.\<close>

definition thread_returns :: "nat \<Rightarrow> thread_pool \<Rightarrow> thread_pool" where
  "thread_returns a self =
     (case cell (threads self) a of
        None \<Rightarrow> self
      | Some t \<Rightarrow> self\<lparr>threads := (threads self)[a := Some (t\<lparr>thread_returned := True\<rparr>)]\<rparr>)"

definition thread_join :: "nat \<Rightarrow> thread_pool \<Rightarrow> thread_pool loop" where
  "thread_join a self =
     (case cell (threads self) a of
        None \<Rightarrow> Some (Inl Undefined)
      | Some t \<Rightarrow>
          if thread_returned t then Some (Inr (self\<lparr>threads := (threads self)[a := None]\<rparr>)) else None)"

section \<open>thread_pool.c\<close>

definition thread_pool_new :: thread_pool where
  "thread_pool_new = \<lparr>thread_array = [], threads = []\<rparr>"

definition thread_pool_start :: "nat \<Rightarrow> thread_pool \<Rightarrow> nat \<times> thread_pool" where
  "thread_pool_start arg self =
     (let (thread, self) = thread_start arg self;
          i = length (thread_array self);
          self = self\<lparr>thread_array := slot_set None (thread_array self) i (Some thread)\<rparr>
      in (i, self\<lparr>threads := (threads self)
               [thread := map_option (\<lambda>t. t\<lparr>thread_id := i\<rparr>) (threads self ! thread)]\<rparr>))"

definition thread_pool_join :: "nat \<Rightarrow> thread_pool \<Rightarrow> thread_pool loop" where
  "thread_pool_join i self =
     (case slot None (thread_array self) i of
        None \<Rightarrow> Some (Inl Assert_failed)
      | Some thread \<Rightarrow>
          lbnd (thread_join thread self) (\<lambda>self.
            Some (Inr (self\<lparr>thread_array := slot_set None (thread_array self) i None\<rparr>))))"

fun join_loop :: "nat option list \<Rightarrow> thread_pool \<Rightarrow> thread_pool loop" where
  "join_loop [] self = Some (Inr self)"
| "join_loop (None # ts) self = join_loop ts self"
| "join_loop (Some thread # ts) self = lbnd (thread_join thread self) (join_loop ts)"

definition thread_pool_join_all :: "thread_pool \<Rightarrow> thread_pool loop" where
  "thread_pool_join_all self = join_loop (thread_array self) self"

text \<open>The loop of \<open>scheduler_start\<close> over the workers, given by number, and \<open>scheduler_wait\<close>.\<close>

fun scheduler_start :: "nat list \<Rightarrow> thread_pool \<Rightarrow> thread_pool" where
  "scheduler_start [] pool = pool"
| "scheduler_start (worker # workers) pool = scheduler_start workers (snd (thread_pool_start worker pool))"

definition scheduler_wait :: "thread_pool \<Rightarrow> thread_pool loop" where
  "scheduler_wait pool = thread_pool_join_all pool"

section \<open>The pool\<close>

text \<open>The array points to threads that have not been joined, each of them once and at its own number.\<close>

definition pool_ok :: "thread_pool \<Rightarrow> bool" where
  "pool_ok self \<longleftrightarrow>
     (\<forall>i < length (thread_array self). \<forall>a. thread_array self ! i = Some a \<longrightarrow>
        (\<exists>t. cell (threads self) a = Some t \<and> thread_id t = i))"

lemma pool_ok_new: "pool_ok thread_pool_new"
  by (simp add: pool_ok_def thread_pool_new_def)

lemma thread_pool_start_spec:
  "thread_pool_start arg self =
     (length (thread_array self),
      self\<lparr>thread_array := thread_array self @ [Some (length (threads self))],
           threads := threads self @ [Some \<lparr>thread_arg = arg, thread_id = length (thread_array self),
             thread_returned = False\<rparr>]\<rparr>)"
  by (simp add: thread_pool_start_def thread_start_def slot_set_def Let_def)

lemma pool_ok_start: "pool_ok self \<Longrightarrow> pool_ok (snd (thread_pool_start arg self))"
  by (fastforce simp: pool_ok_def thread_pool_start_spec nth_append cell_def less_Suc_eq split: if_splits)

lemma pool_ok_returns: "pool_ok self \<Longrightarrow> pool_ok (thread_returns a self)"
  by (fastforce simp: pool_ok_def thread_returns_def cell_update split: option.splits dest: cell_Some_length)

lemma pool_ok_join:
  assumes ok: "pool_ok self" and join: "thread_pool_join i self = Some (Inr self')"
  shows "pool_ok self'"
proof -
  obtain a where a: "slot None (thread_array self) i = Some a"
    using join by (auto simp: thread_pool_join_def split: option.splits)
  then have i: "i < length (thread_array self)" "thread_array self ! i = Some a"
    by (auto simp: slot_def split: if_splits)
  with ok obtain t where t: "cell (threads self) a = Some t" "thread_id t = i"
    by (auto simp: pool_ok_def)
  have self': "self' = self\<lparr>threads := (threads self)[a := None], thread_array := (thread_array self)[i := None]\<rparr>"
    using join a t i by (auto simp: thread_pool_join_def thread_join_def slot_set_def split: if_splits)
  show ?thesis
    unfolding pool_ok_def
  proof (intro allI impI)
    fix j b
    assume j: "j < length (thread_array self')" "thread_array self' ! j = Some b"
    then have "j \<noteq> i" "thread_array self ! j = Some b" "j < length (thread_array self)"
      using i by (auto simp: self' nth_list_update split: if_splits)
    moreover from this ok obtain u where u: "cell (threads self) b = Some u" "thread_id u = j"
      by (auto simp: pool_ok_def)
    ultimately have "b \<noteq> a" using t by auto
    with u show "\<exists>t. cell (threads self') b = Some t \<and> thread_id t = j"
      by (simp add: self' cell_update)
  qed
qed

text \<open>The threads of a fresh pool get the numbers of the workers they run: thread i runs worker i.\<close>

lemma scheduler_start_append:
  "thread_array (scheduler_start workers pool) =
     thread_array pool @ map Some [length (threads pool)..<length (threads pool) + length workers] \<and>
   threads (scheduler_start workers pool) =
     threads pool @ map (\<lambda>(i, w). Some \<lparr>thread_arg = w, thread_id = i, thread_returned = False\<rparr>)
       (enumerate (length (thread_array pool)) workers)"
proof (induction workers arbitrary: pool)
  case (Cons w workers)
  show ?case
    using Cons.IH [of "snd (thread_pool_start w pool)"]
    by (simp add: thread_pool_start_spec upt_conv_Cons del: upt_Suc)
qed simp

lemma scheduler_start_numbers:
  assumes "i < count"
  shows "slot None (thread_array (scheduler_start [0..<count] thread_pool_new)) i = Some i \<and>
    cell (threads (scheduler_start [0..<count] thread_pool_new)) i =
      Some \<lparr>thread_arg = i, thread_id = i, thread_returned = False\<rparr>"
  using scheduler_start_append [of "[0..<count]" thread_pool_new] assms
  by (simp add: thread_pool_new_def slot_def cell_def nth_enumerate_eq)

text \<open>The threads that an array of pointers points to.\<close>

definition occupied :: "nat option list \<Rightarrow> nat list" where
  "occupied ps = concat (map (\<lambda>p. case p of None \<Rightarrow> [] | Some a \<Rightarrow> [a]) ps)"

text \<open>Waiting for all ends just when every thread has returned; it frees them all.\<close>

lemma join_loop_done:
  assumes "distinct (occupied ps)"
    and "\<And>a. Some a \<in> set ps \<Longrightarrow> \<exists>t. cell (threads self) a = Some t \<and> thread_returned t"
  shows "\<exists>self'. join_loop ps self = Some (Inr self') \<and> thread_array self' = thread_array self \<and>
    (\<forall>a. cell (threads self') a = (if Some a \<in> set ps then None else cell (threads self) a))"
  using assms
proof (induction ps arbitrary: self)
  case (Cons p ps)
  show ?case
  proof (cases p)
    case None
    with Cons show ?thesis by (auto simp: occupied_def)
  next
    case (Some a)
    with Cons.prems(2) obtain t where t: "cell (threads self) a = Some t" "thread_returned t" by auto
    let ?self = "self\<lparr>threads := (threads self)[a := None]\<rparr>"
    have notin: "Some a \<notin> set ps"
    proof
      assume "Some a \<in> set ps"
      then show False using Cons.prems(1) Some by (force simp: occupied_def split: option.splits)
    qed
    have "\<exists>t. cell (threads ?self) b = Some t \<and> thread_returned t" if "Some b \<in> set ps" for b
      using Cons.prems(2) [of b] that notin by (cases "b = a") (auto simp: cell_update)
    moreover have "distinct (occupied ps)"
      using Cons.prems(1) by (simp add: occupied_def)
    ultimately obtain self' where "join_loop ps ?self = Some (Inr self')"
        "thread_array self' = thread_array ?self"
        "\<forall>b. cell (threads self') b = (if Some b \<in> set ps then None else cell (threads ?self) b)"
      using Cons.IH [of ?self] by blast
    then show ?thesis
      using t Some by (auto simp: thread_join_def cell_update dest: cell_Some_length)
  qed
qed simp

lemma distinct_occupied:
  "(\<And>i j a. i < j \<Longrightarrow> j < length ps \<Longrightarrow> ps ! i = Some a \<Longrightarrow> ps ! j \<noteq> Some a) \<Longrightarrow> distinct (occupied ps)"
proof (induction ps)
  case (Cons p ps)
  have IH: "distinct (occupied ps)"
  proof (rule Cons.IH)
    fix i j a
    assume "i < j" "j < length ps" "ps ! i = Some a"
    then show "ps ! j \<noteq> Some a" using Cons.prems [of "Suc i" "Suc j" a] by simp
  qed
  show ?case
  proof (cases p)
    case (Some a)
    have "Some a \<notin> set ps"
    proof
      assume "Some a \<in> set ps"
      then obtain j where "j < length ps" "ps ! j = Some a" by (auto simp: in_set_conv_nth)
      then show False using Cons.prems [of 0 "Suc j" a] Some by simp
    qed
    then show ?thesis using IH by (simp add: occupied_def Some split: option.splits)
  qed (use IH in \<open>simp add: occupied_def\<close>)
qed (simp add: occupied_def)

lemma pool_okD:
  "pool_ok self \<Longrightarrow> i < length (thread_array self) \<Longrightarrow> thread_array self ! i = Some a \<Longrightarrow>
     \<exists>t. cell (threads self) a = Some t \<and> thread_id t = i"
  by (simp add: pool_ok_def)

lemma pool_distinct: "pool_ok self \<Longrightarrow> distinct (occupied (thread_array self))"
proof (rule distinct_occupied, rule notI)
  fix i j a
  assume ok: "pool_ok self" and "i < j" "j < length (thread_array self)"
    and "thread_array self ! i = Some a" "thread_array self ! j = Some a"
  then have "\<exists>t. cell (threads self) a = Some t \<and> thread_id t = i" "\<exists>t. cell (threads self) a = Some t \<and> thread_id t = j"
    using pool_okD [OF ok] by simp_all
  then show False using \<open>i < j\<close> by auto
qed

lemma thread_pool_join_all_done:
  assumes ok: "pool_ok self"
    and returned: "\<And>a t. Some a \<in> set (thread_array self) \<Longrightarrow> cell (threads self) a = Some t \<Longrightarrow> thread_returned t"
  shows "\<exists>self'. thread_pool_join_all self = Some (Inr self') \<and> thread_array self' = thread_array self \<and>
    (\<forall>a. Some a \<in> set (thread_array self) \<longrightarrow> cell (threads self') a = None)"
proof -
  have "\<exists>t. cell (threads self) a = Some t \<and> thread_returned t" if "Some a \<in> set (thread_array self)" for a
    using ok returned that by (fastforce simp: pool_ok_def in_set_conv_nth)
  from join_loop_done [OF pool_distinct [OF ok] this] show ?thesis
    by (auto simp: thread_pool_join_all_def)
qed

text \<open>
  Joining all leaves the pointers in the array: doing it again, or joining one of the threads,
  uses a thread that was freed.
\<close>

lemma thread_pool_join_after_all:
  assumes "pool_ok self" and "thread_pool_join_all self = Some (Inr self')"
    and "slot None (thread_array self) i = Some a"
    and "thread_array self' = thread_array self" and "cell (threads self') a = None"
  shows "thread_pool_join i self' = Some (Inl Undefined)"
  using assms by (simp add: thread_pool_join_def thread_join_def)

section \<open>Locks\<close>

text \<open>
  A lock is the number of the thread that holds it. The mutex is of the error-checking kind:
  locking it twice and unlocking what another holds are errors, on which the assertions fail.
\<close>

type_synonym lock = "nat option"

definition mutex_new :: lock where "mutex_new = None"

definition mutex_lock :: "nat \<Rightarrow> lock \<Rightarrow> lock loop" where
  "mutex_lock t self =
     (case self of
        None \<Rightarrow> Some (Inr (Some t))
      | Some holder \<Rightarrow> if holder = t then Some (Inl Assert_failed) else None)"

definition mutex_try_lock :: "nat \<Rightarrow> lock \<Rightarrow> bool \<times> lock" where
  "mutex_try_lock t self = (case self of None \<Rightarrow> (True, Some t) | Some holder \<Rightarrow> (False, self))"

definition mutex_unlock :: "nat \<Rightarrow> lock \<Rightarrow> lock res" where
  "mutex_unlock t self = asserting (self = Some t) (Inr None)"

definition mutex_destroy :: "lock \<Rightarrow> unit res" where
  "mutex_destroy self = asserting (self = None) (Inr ())"

text \<open>
  The spinlock of the C library has no such checks: a thread that locks it twice spins for ever,
  and unlocking one that another thread holds is undefined.
\<close>

definition spinlock_new :: lock where "spinlock_new = None"

definition spinlock_lock :: "nat \<Rightarrow> lock \<Rightarrow> lock loop" where
  "spinlock_lock t self = (case self of None \<Rightarrow> Some (Inr (Some t)) | Some holder \<Rightarrow> None)"

definition spinlock_try_lock :: "nat \<Rightarrow> lock \<Rightarrow> bool \<times> lock" where
  "spinlock_try_lock t self = (case self of None \<Rightarrow> (True, Some t) | Some holder \<Rightarrow> (False, self))"

definition spinlock_unlock :: "nat \<Rightarrow> lock \<Rightarrow> lock res" where
  "spinlock_unlock t self = defined_when (self = Some t) (Inr None)"

text \<open>What a client of either lock relies on.\<close>

datatype lock_event = Lock nat | Unlock nat

locale exclusive_lock =
  fixes holder :: "'s \<Rightarrow> nat option"
    and lock :: "nat \<Rightarrow> 's \<Rightarrow> 's loop"
    and try_lock :: "nat \<Rightarrow> 's \<Rightarrow> bool \<times> 's"
    and unlock :: "nat \<Rightarrow> 's \<Rightarrow> 's res"
  assumes lock_free: "lock t s = Some (Inr s') \<Longrightarrow> holder s = None \<and> holder s' = Some t"
    and lock_returns: "holder s = None \<Longrightarrow> \<exists>s'. lock t s = Some (Inr s')"
    and try_lock_as_lock: "try_lock t s = (True, s') \<longleftrightarrow> lock t s = Some (Inr s')"
    and try_lock_fails: "try_lock t s = (False, s') \<Longrightarrow> s' = s"
    and unlock_held: "unlock t s = Inr s' \<Longrightarrow> holder s = Some t \<and> holder s' = None"
    and unlock_returns: "holder s = Some t \<Longrightarrow> \<exists>s'. unlock t s = Inr s'"
begin

fun run :: "lock_event list \<Rightarrow> 's \<Rightarrow> 's loop" where
  "run [] s = Some (Inr s)"
| "run (Lock t # es) s = lbnd (lock t s) (run es)"
| "run (Unlock t # es) s = lbnd (Some (unlock t s)) (run es)"

text \<open>The critical sections of a run follow one another, each locked and unlocked by one thread.\<close>

fun sections :: "nat option \<Rightarrow> lock_event list \<Rightarrow> nat option option" where
  "sections h [] = Some h"
| "sections None (Lock t # es) = sections (Some t) es"
| "sections (Some u) (Unlock t # es) = (if t = u then sections None es else None)"
| "sections h es = None"

lemma run_sections: "run es s = Some (Inr s') \<Longrightarrow> sections (holder s) es = Some (holder s')"
proof (induction es arbitrary: s)
  case (Cons e es)
  show ?case
  proof (cases e)
    case (Lock t)
    with Cons.prems obtain s1 where "lock t s = Some (Inr s1)" "run es s1 = Some (Inr s')"
      by (auto simp: res_simps)
    with lock_free Cons.IH Lock show ?thesis by force
  next
    case (Unlock t)
    with Cons.prems obtain s1 where "unlock t s = Inr s1" "run es s1 = Some (Inr s')"
      by (auto simp: res_simps)
    with unlock_held Cons.IH Unlock show ?thesis by force
  qed
qed simp

lemma run_total: "sections (holder s) es = Some h \<Longrightarrow> \<exists>s'. run es s = Some (Inr s') \<and> holder s' = h"
proof (induction es arbitrary: s)
  case (Cons e es)
  show ?case
  proof (cases e)
    case (Lock t)
    then have free: "holder s = None" using Cons.prems by (cases "holder s") auto
    from lock_returns [OF free] obtain s1 where s1: "lock t s = Some (Inr s1)" by blast
    with lock_free [OF s1] Cons.prems Cons.IH [of s1] Lock show ?thesis by auto
  next
    case (Unlock t)
    then have held: "holder s = Some t" using Cons.prems by (cases "holder s") (auto split: if_splits)
    from unlock_returns [OF held] obtain s1 where s1: "unlock t s = Inr s1" by blast
    with unlock_held [OF s1] Cons.prems Cons.IH [of s1] Unlock held show ?thesis by auto
  qed
qed simp

end

interpretation mutex: exclusive_lock "\<lambda>s. s" mutex_lock mutex_try_lock mutex_unlock
  by unfold_locales
    (auto simp: mutex_lock_def mutex_try_lock_def mutex_unlock_def res_simps split: option.splits if_splits)

interpretation spinlock: exclusive_lock "\<lambda>s. s" spinlock_lock spinlock_try_lock spinlock_unlock
  by unfold_locales
    (auto simp: spinlock_lock_def spinlock_try_lock_def spinlock_unlock_def res_simps split: option.splits if_splits)

end
