(* ===== verification/Spec2Isabelle.thy ===== *)
theory Spec2Isabelle
  imports Apply_Init Example_Program Example_Parallel Worker_Objects Node_Frames Prelude_Values Commander Deque
    Set_Table Utf8 Object_Ownership Reports Memory Blob_File Source_Context Vec2 Threads
begin

text \<open>
  Inet-lisp is an interpreter for interaction nets. A program defines node constructors, rules for
  pairs of them and functions; running an expression builds a net of nodes and wires, whose active
  pairs (two nodes joined at their principal ports) are rewritten by the rules, by one thread or by
  many. The development models the C code under \<open>src/src\<close> and states what makes it correct.

  How the parts interact. \<open>lang/load.c\<close> reads a file; the lexer and the parser of
  \<open>packages/std\<close> turn it into S-expressions, \<open>lang/parse_stmt.c\<close> these into statements.
  \<open>lang/execute.c\<close> executes a statement: it defines names, compiles functions and the bodies of
  rules (\<open>lang/compile.c\<close>), or compiles and runs an expression (\<open>lang/run_exp.c\<close>). Compiled code is
  run by a worker (\<open>core/\<close>) on its value stack and return stack; applying a node constructor takes
  a node from the allocator and connects its ports (\<open>core/connect.c\<close>). Where two principal wires meet
  a task is queued. The scheduler deals the tasks out to worker threads, which steal from each
  other until the sum of their counters is zero.

  Conventions (\<open>Prelude\<close>). A C function that can fail returns \<open>'a res\<close>: \<open>Inl\<close> of a failed
  assertion, of \<open>exit(1)\<close>, or of undefined behaviour (a freed or NULL pointer, an access out of
  bounds, a division by zero). One that may run forever returns \<open>'a res option\<close>, with \<open>None\<close> for
  not returning: it is a \<open>partial_function\<close>, so no fuel is used anywhere, and a property that says
  that something returns says \<open>Some (Inr _)\<close>. State is passed explicitly; memory is a list of
  cells, addressed by index, in which a freed cell is \<open>None\<close>. Sizes that only count memory cells are
  natural numbers; where a width matters (values, the cursors of the queue, the counters, the
  prime table, code points) the type is a word of that width.

  The theories, in the order of the code:
  \<^item> \<open>Tagged_Value\<close> (\<open>value/\<close>): the 64-bit words with their tags and the arithmetic on them;
    \<open>Strings\<close> (\<open>packages/std/string\<close>, \<open>char\<close>, \<open>int\<close>): C strings, reading and printing integers.
  \<^item> \<open>Net_Heap\<close> (\<open>net/\<close>): the record \<open>heap\<close> of wires, principal wires, constructors and nodes;
    \<open>Connect\<close> (\<open>core/connect.c\<close>); \<open>Linearity\<close>: the invariant \<open>net_ok\<close>, that every wire has two ends,
    and that connecting keeps it, and that following fuzed wires ends.
  \<^item> \<open>Allocator\<close> (\<open>packages/std/allocator\<close>), \<open>Worker\<close> (\<open>core/worker*.c\<close>, \<open>frame.c\<close>, \<open>function.c\<close>,
    \<open>primitive.c\<close>, \<open>net/node_allocator.c\<close>, \<open>prelude/\<close>): the record \<open>machine\<close> is one worker with all it
    shares. \<open>Node_Ports\<close>, \<open>Node_Alloc\<close>, \<open>Machine_Invariant\<close> and \<open>Machine_Steps\<close> prove \<open>machine_ok\<close>
    for every operation: building and taking apart nodes, allocating, applying, running frames and
    handling active pairs. \<open>Node_Frames\<close> has what they leave as it was, and what is on the stack when a node has
    been connected or a pair taken apart. The first argument of \<open>machine_ok\<close> is what other workers hold, the free nodes and the tasks,
    so that it is a claim about one worker among many. \<open>Task_Order\<close> is the part of it that concerns
    tasks: a queued task is ready, its pair still waits or its node has all its arguments, and no two
    tasks share a wire or a node. \<open>Set_Aside\<close> and \<open>Primitive_Task\<close>: a primitive node that is being
    handled is of no concern to what the worker runs meanwhile, so that its task keeps the invariant,
    and with it the loop over all tasks. \<open>Task_Pieces\<close> cuts the handling of a task into its parts, and
    \<open>Parallel_Machine\<close> interleaves the operations of all the workers of a scheduler on the net they
    share (\<open>core/worker_work_parallelly.c\<close>), which keep it linear together. \<open>Apply_Init\<close> (\<open>core/worker_apply_wire.c\<close> again): two workers
    that make the primitives for applying wires at once, statement by statement. \<open>Return_Stack\<close>: no operation looks at
    the frames below.
  \<^item> \<open>Parallel_Connect\<close> (\<open>core/connect.c\<close> again): \<open>connect\<close> cut into the atomic accesses it makes on the
    shared net, run by any number of workers in any order, as a step relation with its invariant and
    its measure; \<open>Connect_Graph\<close>: the graph that such a run leaves does not depend on the order;
    \<open>Parallel_Args\<close> and \<open>Parallel_Tasks\<close>: nor do the tasks it finds.
  \<^item> \<open>Path\<close>, \<open>Lexer\<close>, \<open>Sexp\<close>, \<open>Utf8\<close> (\<open>packages/std\<close>) and \<open>Lang_Syntax\<close> (\<open>lang/exp.c\<close>, \<open>stmt.c\<close>,
    \<open>parse_exp.c\<close>, \<open>parse_stmt.c\<close>): texts, trees and their printing, with the termination of the lexer
    and the round trips of paths, texts, trees and, in \<open>Lang_Print\<close>, statements; for UTF-8 also where the encoder
    departs from the standard.
  \<^item> \<open>Compile\<close> (\<open>lang/compile.c\<close>) with a reference evaluator that keeps variables by name, and the
    simulation of the compiled code by it (\<open>compiled_code_evaluates\<close>); \<open>Node_Pattern\<close>
    (\<open>lang/node_pattern.c\<close>, \<open>define.c\<close>), \<open>Execute\<close> (\<open>lang/execute.c\<close>, \<open>run_exp.c\<close>, \<open>load.c\<close>,
    \<open>prelude/import_prelude.c\<close>) and \<open>Lang_Facts\<close>, which has what executing a statement comes to;
    \<open>Prelude_Values\<close>: what the primitives compute that the prelude binds to its names;
    \<open>Commander\<close> (\<open>packages/std/commander\<close>, \<open>commands/cmd_run.c\<close>): the command line, and that the cache of
    modules only grows.
  \<^item> \<open>Net_Print\<close> (\<open>net/*_iter.c\<close>, \<open>node_neighborhood.c\<close>, the printing functions of \<open>core/\<close>): what is
    printed, and that the nodes connected to a root are visited once each.
  \<^item> \<open>Dyn_Array\<close>, \<open>Linked_List\<close>, \<open>Stack\<close>, \<open>Ring_Queue\<close>, \<open>Deque\<close>, \<open>Hash_Table\<close>, \<open>Set_Table\<close>
    (\<open>packages/std\<close>): the containers at the level of their slots and pointers, refined to lists and maps.
    Their contracts are the locales \<open>growable_slots\<close>, \<open>value_stack_interface\<close>, \<open>double_ended\<close> and
    \<open>dictionary\<close>, interpreted on the code's operations. The other theories use lists and maps in
    their place; \<open>Worker_Objects\<close> shows for the stacks, queues and names of a worker that this is the
    same (locales \<open>bounded_queue\<close>, \<open>worker_stack\<close> and \<open>name_table\<close>). \<open>Ring_Queue\<close> also interleaves one
    producer and one consumer.
  \<^item> \<open>Spinlock\<close> (\<open>packages/std/lock/fast_spinlock.h\<close>) and \<open>Scheduler\<close> (\<open>core/scheduler.c\<close>,
    \<open>worker_work_parallelly.c\<close>, \<open>packages/std/counter\<close>, \<open>packages/std/thread/thread_pool.c\<close>): step relations
    over all the threads, with their invariants by rule induction: the lock excludes, no task is handled twice,
    and the workers do not all stop while one is left, as long as each subtracts from its own counter. A worker
    subtracts from the counter of the number of its thread, which the main thread sets only after
    starting it; \<open>Thread_Numbers\<close> has the run in which this makes all the workers stop too early. A counter is
    loaded and stored in separate steps.
  \<^item> \<open>Ownership\<close>, \<open>Syntax_Memory\<close> (\<open>lang/exp.c\<close>, \<open>stmt.c\<close>, \<open>load.c\<close>, \<open>sexp.c\<close>) and \<open>Object_Ownership\<close>
    (\<open>core/\<close>, \<open>net/\<close>): the destructors as functions on the set of allocated blocks. \<open>frees\<close> gives a
    destructor its exact list of blocks; what the parsers allocate is freed again, but for the tokens.
  \<^item> \<open>Memory\<close> (\<open>packages/std/memory\<close>): the wrappers of the C allocator over bytes, with the arrays
    of \<open>Dyn_Array\<close> as blocks; \<open>Blob_File\<close> (\<open>packages/std/blob\<close>, \<open>file\<close>): reading and writing whole
    files; \<open>Source_Context\<close> (\<open>packages/std/code\<close>): the excerpt of a source and the lines it consists of;
    \<open>Vec2\<close> (\<open>packages/std/vec\<close>); \<open>Reports\<close> (\<open>hash_report\<close>, \<open>string_list_print\<close>, \<open>rule_print\<close>).
  \<^item> \<open>Threads\<close> (\<open>packages/std/thread\<close>, \<open>mutex.c\<close>, \<open>spinlock.c\<close>): the pool, whose threads are numbered like
    the workers they run, and the locks of the C library (locale \<open>exclusive_lock\<close>).
  \<^item> \<open>Example_Net\<close>, \<open>Example_Program\<close> and \<open>Example_Parallel\<close>: executable criteria for the invariants and the inputs at
    which the properties below are applied.

  Bounds. The batch and cache sizes of the node allocator and the size of the task queue are those
  of \<open>config.h\<close>; the properties hold for any. Integers have 61 bits; the cursors of the queue
  wrap at 2 ^ 64, and the counters of the scheduler too, so that the properties of the scheduler ask for fewer tasks than that.

  Parameters, for code that is not under \<open>src\<close>: what \<open>strtod\<close> accepts and returns (\<open>double_parser\<close>), the
  arithmetic of doubles (\<open>double_ops\<close>), how \<open>printf\<close> writes doubles and pointers (\<open>printf_ops\<close>), the
  contents of files (the field \<open>files\<close> of \<open>platform\<close>), the addresses \<open>malloc\<close> answers with, \<open>sqrt\<close>, and \<open>rand\<close>.

  Not modelled. The relaxed memory orders of the atomics, which are taken to be sequentially
  consistent. The field \<open>work_parallelly\<close> of \<open>platform\<close> stands for
  what a parallel run makes of the machine; \<open>Parallel_Machine\<close> has its steps, and \<open>Scheduler\<close> those of
  the counters, with what a task does left open but for the tasks it adds. An operation of a frame is
  one step there, where \<open>Parallel_Connect\<close> cuts it into its accesses. Outside \<open>Memory\<close> allocation never
  fails, and outside the ownership theories memory is reclaimed only where the code can reach it
  again. Left out are \<open>mod_print\<close>, the destructors of iterators, lexers, sets and texts, which free one or two blocks,
  locking and buffering of streams, the clocks, the commands \<open>info\<close> and \<open>benchmark\<close>, and the tests.
\<close>

section \<open>The net\<close>

text \<open>
  C1. Connecting two values of a linear net never touches freed memory, and when it returns the
  net is linear again over the roots that remain: both values have been used up.
\<close>

theorem connect_keeps_linear:
  assumes "net_ok h (x # y # R)" and "x \<noteq> VNull" and "y \<noteq> VNull"
  shows "safely (\<lambda>(task, h'). net_ok h' R) (connect x y h)"
  using net_ok_connect_fuze(1) [OF assms] by (rule safely_mono) auto

theorem connect_keeps_linear_witness:
  "safely (\<lambda>(task, h'). net_ok h' [VWire 0, VWire 1]) (connect (VWire 0) (VWire 1) two_wires)"
  by (rule connect_keeps_linear) (rule net_check_net_ok, code_simp, simp_all)

text \<open>
  C14. In a linear net a walk that starts at a root returns, at a value that is not a fuzed wire,
  and \<open>defuze\<close> from there returns the same value.
\<close>

theorem walk_returns:
  assumes "net_ok h (v # R)" and "v \<noteq> VNull"
  shows "\<exists>u h'. walk h v = Some (Inr u) \<and> is_end h u \<and> defuze h v = Inr (u, h') \<and> net_ok h' (u # R)"
proof -
  obtain u h' where d: "defuze h v = Inr (u, h')" and ok: "net_ok h' (u # R)" and e: "is_end h' u"
    using net_ok_defuze [OF assms] by blast
  from defuze_walk [OF d] e have "walk h v = Some (Inr u)" "is_end h u"
    by (auto simp: is_end_def split: val.splits)
  with d ok show ?thesis by blast
qed

theorem walk_returns_witness:
  "\<exists>u h'. walk fuzed_wires (VWire 0) = Some (Inr u) \<and> is_end fuzed_wires u \<and>
     defuze fuzed_wires (VWire 0) = Inr (u, h') \<and> net_ok h' (u # [VWire 1])"
  by (rule walk_returns) (rule net_check_net_ok, code_simp, simp)

section \<open>The interpreter\<close>

text \<open>
  C5. Handling a task keeps the machine's net linear, whichever task of the queue it is: of an active
  pair, whose nodes are taken apart and whose rule's function runs, or of a primitive node, whose
  arguments are handed to the primitive and whose results are connected before it is recycled.
  Whenever that returns, every wire that is alive has two ends among the nodes, the value stack, the
  frames and the ends the program dropped, the tasks that are queued are ready, and the return stack
  is not higher than before.
\<close>

theorem task_keeps_net:
  assumes "machine_ok F L m" and "worker_next_task m = (Some task, m1)"
    and "worker_handle_task task m1 = Some (Inr m')"
  shows "\<exists>L'. machine_ok F (L' @ L) m' \<and> length (return_stack m') \<le> length (return_stack m)"
proof -
  have "return_stack m1 = return_stack m"
    using assms(2) by (auto simp: worker_next_task_def split: list.splits)
  then show ?thesis
    using machine_ok_handle_task [OF machine_ok_next_task [OF assms(1,2)] assms(3)] by simp
qed

theorem task_keeps_net_witness:
  "\<exists>m'. worker_handle_task (Task_primitive 0) (dup_built\<lparr>task_queue := []\<rparr>) = Some (Inr m') \<and>
     (\<exists>L'. machine_ok nothing (L' @ []) m' \<and> length (return_stack m') \<le> length (return_stack dup_built))"
proof -
  have ok: "machine_ok nothing [] dup_built"
    by (rule machine_check_ok) code_simp
  have "task_queue dup_built = [Task_primitive 0]"
    by code_simp
  then have taken: "worker_next_task dup_built = (Some (Task_primitive 0), dup_built\<lparr>task_queue := []\<rparr>)"
    by (simp add: worker_next_task_def)
  have "returned (worker_handle_task (Task_primitive 0) (dup_built\<lparr>task_queue := []\<rparr>)) \<noteq> None"
    by code_simp
  then obtain m' where "worker_handle_task (Task_primitive 0) (dup_built\<lparr>task_queue := []\<rparr>) = Some (Inr m')"
    by (auto simp: returned_Some)
  with task_keeps_net [OF ok taken this] show ?thesis by blast
qed

text \<open>
  C11. The work of one worker, from the first task to the last: when it ends, no task is left, and the
  net is linear over what the worker still holds.
\<close>

theorem sequential_work_keeps_net:
  assumes "machine_ok F L m" and "worker_work_sequentially m = Some (Inr m')"
  shows "\<exists>L'. machine_ok F (L' @ L) m' \<and> task_queue m' = [] \<and> length (return_stack m') \<le> length (return_stack m)"
  using assms by (rule machine_ok_work_sequentially)

theorem sequential_work_keeps_net_witness:
  "\<exists>m'. worker_work_sequentially example_built = Some (Inr m') \<and> (\<exists>L'. machine_ok nothing (L' @ []) m' \<and>
     task_queue m' = [] \<and> length (return_stack m') \<le> length (return_stack example_built))"
proof -
  have ok: "machine_ok nothing [] example_built"
    by (rule machine_check_ok) code_simp
  have "returned (worker_work_sequentially example_built) \<noteq> None"
    by code_simp
  then obtain m' where "worker_work_sequentially example_built = Some (Inr m')"
    by (auto simp: returned_Some)
  with sequential_work_keeps_net [OF ok this] show ?thesis by blast
qed

text \<open>
  C18. Taking a queued active pair apart always succeeds, and the machine is linear again: what was at the
  non-principal ports of the left node, and then of the right one, is on the value stack, in the order
  of the ports; their principal wires are freed, the two nodes can be allocated again, and no other node
  has changed.
\<close>

theorem active_pair_comes_apart:
  assumes "machine_ok F L m" and "worker_next_task m = (Some (Task_active_pair left right rule), m1)"
  shows "\<exists>m' p q. cell (principal_wires (net m1)) left = Some p \<and> cell (principal_wires (net m1)) right = Some q \<and>
    disconnect_pair left right m1 = Inr m' \<and> machine_ok F L m' \<and> return_stack m' = return_stack m1 \<and>
    value_stack m' = rev (other_ends (net m1) (pw_node q)) @ rev (other_ends (net m1) (pw_node p)) @ value_stack m1 \<and>
    cell (principal_wires (net m')) left = None \<and> cell (principal_wires (net m')) right = None \<and>
    spare_nodes m' = add_mset (pw_node q) (add_mset (pw_node p) (spare_nodes m1)) \<and>
    (\<forall>k < length (nodes (net m1)). k \<noteq> pw_node p \<and> k \<noteq> pw_node q \<longrightarrow> nodes (net m') ! k = nodes (net m1) ! k)"
  using pair_comes_apart [OF machine_ok_next_task [OF assms]] .

theorem active_pair_comes_apart_witness:
  "\<exists>m' p q. cell (principal_wires (net example_built)) 2 = Some p \<and> cell (principal_wires (net example_built)) 0 = Some q \<and>
    disconnect_pair 2 0 (example_built\<lparr>task_queue := []\<rparr>) = Inr m' \<and> machine_ok nothing [] m' \<and>
    value_stack m' = rev (other_ends (net example_built) (pw_node q)) @
      rev (other_ends (net example_built) (pw_node p)) @ value_stack example_built \<and>
    spare_nodes m' = add_mset (pw_node q) (add_mset (pw_node p) (spare_nodes (example_built\<lparr>task_queue := []\<rparr>)))"
proof -
  have ok: "machine_ok nothing [] example_built" by (rule machine_check_ok) code_simp
  have "task_queue example_built = [Task_active_pair 2 0 example_rule]" by code_simp
  then have "worker_next_task example_built =
      (Some (Task_active_pair 2 0 example_rule), example_built\<lparr>task_queue := []\<rparr>)"
    by (simp add: worker_next_task_def)
  from active_pair_comes_apart [OF ok this] show ?thesis by auto
qed

text \<open>
  C19. Applying a node constructor to arguments on the stack: when the ports of a new node are
  connected, every port of the node holds a value, all the other nodes are as they were, the arguments are
  gone from the stack and the other ports' values are on top of it, the last port's uppermost, and the net
  is linear over the new value stack. No freed memory is touched.
\<close>

theorem reconnected_node_is_complete:
  assumes "net_ok (net m) (value_stack m @ R)" and "VNull \<notin> set (value_stack m)"
    and "node_has (net m) n c" and "\<forall>i. port_value (net m) n i = VNull"
  shows "safely (\<lambda>m'. net_ok (net m') (value_stack m' @ R) \<and> VNull \<notin> set (value_stack m') \<and>
      changes_only n (net m) (net m') \<and> node_complete (net m') n c \<and>
      value_stack m' = rev (map (port_value (net m') n) [arity..<ctor_arity (node_ctors (net m) ! c)]) @
        drop arity (value_stack m))
    (worker_reconnect_node n arity m)"
  using assms by (rule reconnected_node)

theorem reconnected_node_is_complete_witness:
  "safely (\<lambda>m'. net_ok (net m') (value_stack m' @ []) \<and> VNull \<notin> set (value_stack m') \<and>
      changes_only 1 (net example_fresh) (net m') \<and> node_complete (net m') 1 1 \<and>
      value_stack m' = rev (map (port_value (net m') 1) [1..<ctor_arity (node_ctors (net example_fresh) ! 1)]) @
        drop 1 (value_stack example_fresh))
    (worker_reconnect_node 1 1 example_fresh)"
proof (rule reconnected_node_is_complete)
  show "net_ok (net example_fresh) (value_stack example_fresh @ [])"
    by (rule net_check_net_ok) code_simp
  show "VNull \<notin> set (value_stack example_fresh)" by code_simp
  show "node_has (net example_fresh) 1 1" by code_simp
  have "value_array (nodes (net example_fresh) ! 1) = []" by code_simp
  then show "\<forall>i. port_value (net example_fresh) 1 i = VNull" by (simp add: port_value_def slot_def)
qed

text \<open>
  C12. Running frames keeps the net linear: whatever function runs, once the return stack is down
  to its base again every live wire has two ends among the nodes, the stack, the frames and the
  ends that the program has dropped.
\<close>

theorem running_keeps_net:
  assumes "machine_ok F L m" and "worker_run_until base m = Some (Inr m')"
  shows "\<exists>L'. machine_ok F (L' @ L) m' \<and> length (return_stack m') \<le> base"
  using assms by (rule machine_ok_run_until)

theorem running_keeps_net_witness:
  "\<exists>m'. worker_run_until 0 example_machine = Some (Inr m') \<and>
     (\<exists>L'. machine_ok nothing (L' @ []) m' \<and> length (return_stack m') \<le> 0)"
proof -
  have ok: "machine_ok nothing [] example_machine" by (rule machine_check_ok) code_simp
  have "returned (worker_run_until 0 example_machine) \<noteq> None" by code_simp
  then obtain m' where "worker_run_until 0 example_machine = Some (Inr m')"
    by (auto simp: returned_Some)
  with running_keeps_net [OF ok this] show ?thesis by blast
qed

text \<open>
  C21. Two workers that make these primitives at once: one can be done while the other takes the first
  slot for a new primitive, which has no node constructor yet. The worker that is done applies it
  directly then, instead of making a node of it, and comes back to the call it started from.
\<close>

theorem apply_primitives_race:
  assumes "apply_primitives m = []"
  shows "\<exists>g m' p. init_step\<^sup>*\<^sup>* (apply_globals_start, m, [Check_flag, Check_flag]) (g, m', [Init_done, Set_node_ctor 0]) \<and>
    is_initialized g \<and> slot None (apply_slots g) 0 = Some p \<and>
    (\<forall>a k k'. net k = net m' \<and> primitives k = primitives m' \<and> worker_tuck_n (VWire a) 1 k = Inr k' \<longrightarrow>
       worker_apply (VPrimitive p) 2 k' = worker_apply (VWire a) 1 k)"
proof -
  obtain g m' p where run: "init_step\<^sup>*\<^sup>* (apply_globals_start, m, [Check_flag, Check_flag])
      (g, m', [Init_done, Set_node_ctor 0])" and g: "is_initialized g" "slot None (apply_slots g) 0 = Some p"
    and p: "p < length (primitives m')" "applies 0 (primitives m' ! p)"
      "primitive_node_ctor (primitives m' ! p) = None"
    using init_race [OF assms] by blast
  have "worker_apply (VPrimitive p) 2 k' = worker_apply (VWire a) 1 k"
    if "net k = net m'" "primitives k = primitives m'" "worker_tuck_n (VWire a) 1 k = Inr k'" for a k k'
    using apply_without_ctor [of k p "primitives m' ! p" 0 a k'] that p
    by (simp add: at_def numeral_2_eq_2)
  with run g show ?thesis by blast
qed

theorem apply_primitives_race_witness:
  "\<exists>g m' p. init_step\<^sup>*\<^sup>* (apply_globals_start, example_machine, [Check_flag, Check_flag])
      (g, m', [Init_done, Set_node_ctor 0]) \<and> is_initialized g \<and> slot None (apply_slots g) 0 = Some p"
proof -
  have "apply_primitives example_machine = []"
    by (simp add: example_machine_def)
  from apply_primitives_race [OF this] show ?thesis by blast
qed

text \<open>
  C22. Applying a wire that was fuzed with another open wire never returns: \<open>worker_apply_wire\<close>
  tucks the wire it was given, which \<open>defuze\<close> has just freed, and connecting the port \<open>target!\<close>
  of the \<open>apply\<close> node reads it.
\<close>

theorem applying_fuzed_wire_fails:
  assumes "stack_ok F (VWire a # R) m" and "defuze (net m) (VWire a) = Inr (d, h)"
    and "is_wire d" and "d \<noteq> VWire a"
  shows "worker_apply_wire a arity m \<noteq> Some (Inr m')"
  using assms by (rule apply_freed_wire_fails)

theorem applying_fuzed_wire_fails_witness:
  "\<forall>m. worker_apply_wire 0 1 fuzed_target_machine \<noteq> Some (Inr m)"
proof (intro allI, rule applying_fuzed_wire_fails)
  have "machine_check [VWire 0] fuzed_target_machine" by code_simp
  from machine_check_ok [OF this] show "stack_ok nothing [VWire 0] fuzed_target_machine"
    by (simp add: machine_ok_def fuzed_target_machine_def)
  show "defuze (net fuzed_target_machine) (VWire 0)
      = Inr (VWire 1, wire_destroy 0 (net fuzed_target_machine))" by code_simp
qed (simp_all add: is_wire_def)

section \<open>Connecting in parallel\<close>

text \<open>
  C3. Any number of workers connect at the same time, their accesses to the net interleaved in any
  order: at every moment the net is linear over what the workers still hold and the other roots, and
  no worker is about to touch freed memory.
\<close>

theorem parallel_connect_keeps_net:
  assumes "net_ok h (concat (map (\<lambda>(x, y). [x, y]) ps) @ R)" and "\<forall>(x, y) \<in> set ps. x \<noteq> VNull \<and> y \<noteq> VNull"
    and "connect_step\<^sup>*\<^sup>* (h, connect_all ps) (h', ts)"
  shows "net_ok h' (all_roots ts R) \<and> (\<forall>t \<in> set ts. connect_turn t h' \<noteq> Inl Undefined)"
proof -
  have inv: "connecting_inv R (h', ts)"
    using connect_reachable_keep [OF assms(3)] assms(1,2) by (simp add: connecting_inv_all)
  then show ?thesis
    using connecting_inv_no_undefined [OF inv] by (simp add: connecting_inv_def)
qed

theorem parallel_connect_keeps_net_witness:
  "net_ok (fst first_first) (all_roots (snd first_first) outer_ends) \<and>
     list_all (\<lambda>t. connect_turn t (fst first_first) \<noteq> Inl Undefined) (snd first_first)"
  using parallel_connect_keeps_net [OF wire_between_ok wire_between_run(1)] by (simp add: list_all_iff)

text \<open>
  C26. No interleaving goes on for ever: each worker is done after at most two turns of its own, but for
  one turn more for every wire that is freed.
\<close>

theorem parallel_connect_ends:
  assumes "net_ok h (concat (map (\<lambda>(x, y). [x, y]) ps) @ R)" and "\<forall>(x, y) \<in> set ps. x \<noteq> VNull \<and> y \<noteq> VNull"
    and "(connect_step ^^ k) (h, connect_all ps) (h', ts)"
  shows "k + live_cells (wires h') \<le> 2 * length ps + live_cells (wires h)"
proof -
  have "k + turns_left (h', ts) \<le> turns_left (h, connect_all ps)"
    using connect_steps_keep [OF assms(3), of R] assms(1,2) by (simp add: connecting_inv_all)
  moreover have "live_cells (wires h') \<le> turns_left (h', ts)"
    by (simp add: turns_left_def)
  ultimately show ?thesis by simp
qed

theorem parallel_connect_ends_witness:
  "\<exists>k. (connect_step ^^ k) (wire_between, connect_all both_ends) (fst first_first, snd first_first) \<and>
     k + live_cells (wires (fst first_first)) \<le> 2 * length both_ends + live_cells (wires wire_between)"
proof -
  obtain k where k: "(connect_step ^^ k) (wire_between, connect_all both_ends) (fst first_first, snd first_first)"
    using rtranclp_imp_relpowp [OF wire_between_run(1)] by blast
  from parallel_connect_ends [OF wire_between_ok k] k show ?thesis by blast
qed

text \<open>
  C4. Two runs that have come to their end, from the same net by different interleavings, leave the same
  net: the same ports, values and wires are joined, as far as they are alive in both, and the same
  principal wires are active pairs.
\<close>

theorem interleavings_join_the_same:
  assumes "net_ok h (concat (map (\<lambda>(x, y). [x, y]) ps) @ R)" and "\<forall>(x, y) \<in> set ps. x \<noteq> VNull \<and> y \<noteq> VNull"
    and "connect_step\<^sup>*\<^sup>* (h, connect_all ps) (h1, ts1)" and "\<forall>t \<in> set ts1. connect_over t"
    and "connect_step\<^sup>*\<^sup>* (h, connect_all ps) (h2, ts2)" and "\<forall>t \<in> set ts2. connect_over t"
  shows "(\<forall>u w. alive h1 u \<and> alive h1 w \<and> alive h2 u \<and> alive h2 w \<longrightarrow>
      (joined (h1, ts1) u w \<longleftrightarrow> joined (h2, ts2) u w)) \<and>
    (\<forall>a b. a \<noteq> b \<longrightarrow> (paired h1 a b \<longleftrightarrow> paired h2 a b))"
proof -
  have inv: "connecting_inv R (h, connect_all ps)"
    using assms(1,2) by (simp add: connecting_inv_all)
  have "joined (h, connect_all ps) u w \<longleftrightarrow> joined (h1, ts1) u w" if "alive h1 u" "alive h1 w" for u w
    using connect_reachable_joined [OF assms(3) inv] that by simp
  moreover have "joined (h, connect_all ps) u w \<longleftrightarrow> joined (h2, ts2) u w" if "alive h2 u" "alive h2 w" for u w
    using connect_reachable_joined [OF assms(5) inv] that by simp
  ultimately show ?thesis
    using pairs_agree [OF inv assms(3-6)] pairs_agree [OF inv assms(5,6,3,4)] by blast
qed

theorem interleavings_join_the_same_witness:
  "joined first_first (Port 0 0) (Port 1 0) = joined second_first (Port 0 0) (Port 1 0) \<and>
     paired (fst first_first) 0 1 = paired (fst second_first) 0 1"
  using interleavings_join_the_same [OF wire_between_ok wire_between_run(1) wire_between_over(1)
      wire_between_run(2) wire_between_over(2)]
  by simp

text \<open>
  C7. The workers also find the same tasks, however they interleave, when every rule is listed under both
  its constructors, as defining a rule does it; only which of two nodes of one constructor is called
  left may differ.
\<close>

theorem interleavings_find_same_tasks:
  assumes "net_ok h (concat (map (\<lambda>(x, y). [x, y]) ps) @ R)" and "\<forall>(x, y) \<in> set ps. x \<noteq> VNull \<and> y \<noteq> VNull"
    and "rules_shared (node_ctors h)" and "args_counted h"
    and "connect_step\<^sup>*\<^sup>* (h, connect_all ps) (h1, ts1)" and "\<forall>t \<in> set ts1. connect_over t"
    and "connect_step\<^sup>*\<^sup>* (h, connect_all ps) (h2, ts2)" and "\<forall>t \<in> set ts2. connect_over t"
    and "Connected (Some task) \<in> set ts1"
  shows "\<exists>task'. Connected (Some task') \<in> set ts2 \<and> same_task task task'"
proof -
  have inv: "connecting_inv R (h, connect_all ps)"
    using assms(1,2) by (simp add: connecting_inv_all)
  show ?thesis
  proof (cases task)
    case (Task_active_pair l r rule)
    then show ?thesis
      using active_pair_tasks_agree [OF inv assms(3,5-8)] assms(9) by simp
  next
    case (Task_primitive n)
    then have "count_list ts2 (Connected (Some task)) = count_list ts1 (Connected (Some task))"
      using primitive_tasks_agree [OF inv assms(4-8)] by simp
    then have "Connected (Some task) \<in> set ts2"
      using assms(9) by (metis count_list_0_iff)
    then show ?thesis
      using same_task_refl by blast
  qed
qed

theorem interleavings_find_same_tasks_witness:
  "\<exists>task. Connected (Some task) \<in> set (snd second_first) \<and>
     same_task (Task_active_pair 1 0 example_rule) task"
proof (rule interleavings_find_same_tasks [OF wire_between_ok wire_between_checks
      wire_between_run(1) wire_between_over(1) wire_between_run(2) wire_between_over(2)])
  show "Connected (Some (Task_active_pair 1 0 example_rule)) \<in> set (snd first_first)"
    by code_simp
qed

text \<open>
  C8. Of the workers that bring the arguments of a primitive node exactly one gets its task, the one that
  counts the last argument, and by then all the arguments are in their ports.
\<close>

theorem one_worker_gets_the_task:
  assumes "net_ok h (concat (map (\<lambda>(x, y). [x, y]) ps) @ R)" and "\<forall>(x, y) \<in> set ps. x \<noteq> VNull \<and> y \<noteq> VNull"
    and "connect_step\<^sup>*\<^sup>* (h, connect_all ps) (h', ts)"
    and "args_counted h" and "n < length (nodes h)" and "node_principal_port_count h n = Inr k"
    and "primitive_arg_count (nodes h ! n) < k"
  shows "(if primitive_arg_count (nodes h' ! n) = k
      then count_list ts (Connected (Some (Task_primitive n))) = 1 \<and>
        empty_args h' n = 0 \<and> Counting n \<notin> set ts
      else count_list ts (Connected (Some (Task_primitive n))) = 0)"
proof -
  have inv: "connecting_inv R (h, connect_all ps)"
    using assms(1,2) by (simp add: connecting_inv_all)
  have "args_inv n k False (h', ts)"
    using args_inv_reachable [OF assms(3) inv args_inv_start [OF assms(4-6)]] assms(7) by simp
  then show ?thesis
    by (auto simp: args_inv_def count_list_0_iff)
qed

theorem one_worker_gets_the_task_witness:
  "count_list (snd both_counted) (Connected (Some (Task_primitive 0))) = 1 \<and> empty_args (fst both_counted) 0 = 0"
proof -
  have args: "args_counted waiting_node"
    by (rule args_check_counted) code_simp
  have n: "0 < length (nodes waiting_node)" "node_principal_port_count waiting_node 0 = Inr 2"
      "primitive_arg_count (nodes waiting_node ! 0) < 2" "primitive_arg_count (nodes (fst both_counted) ! 0) = 2"
    by code_simp+
  from one_worker_gets_the_task [OF waiting_node_ok waiting_node_run args n(1-3)] n(4)
  show ?thesis by simp
qed

text \<open>
  C15. A worker that is not interrupted is done after as many turns as there are wires, and two, and then it
  has found the task and left the net that \<open>connect\<close> gives, or has failed as \<open>connect\<close> does.
\<close>

theorem turns_are_connect:
  "connect_turns (live_cells (wires h) + 2) (Connecting x y) h =
     bnd (connect x y h) (\<lambda>(task, h'). Inr (Connected task, h'))"
  using connect_turns_connect_fuze(1) [of h "live_cells (wires h) + 1"] by (simp add: turns_of_def)

section \<open>The queue of tasks\<close>

text \<open>
  C16. One thread pushes and another pops at the same time, each operation in its separate atomic
  steps: in every state that can be reached, what was sent is what was received followed by what
  is in the queue, in order, and no more than the size of the queue is in flight.
\<close>

theorem spsc_queue_is_fifo:
  assumes "spsc_step\<^sup>*\<^sup>* (spsc_start q) s" and "queue_rep q []"
  shows "\<exists>xs. sent s = received s @ xs \<and> queue_rep (sp_queue s) xs"
  using spsc_reachable_inv [OF assms] unfolding spsc_inv_def by (blast intro: queue_repI)

theorem spsc_queue_is_fifo_witness:
  "\<exists>(q :: nat queue) s xs. queue_new 2 = Inr q \<and> spsc_step\<^sup>*\<^sup>* (spsc_start q) s \<and> sent s = [Some 7] \<and>
     sent s = received s @ xs \<and> queue_rep (sp_queue s) xs"
proof -
  obtain q :: "nat queue" where q: "queue_new 2 = Inr q" "queue_rep q []" "queue_size q = 2"
    using queue_new_rep [of 1] by auto
  obtain q' where "queue_push_back q (Some 7) = Inr (True, q')"
    using queue_push_back_rep [OF q(2), of "Some 7"] q(3) by auto
  then have r: "spsc_step\<^sup>*\<^sup>* (spsc_start q) ((spsc_start q)\<lparr>sp_queue := q', sp_producer := P_idle, sent := [Some 7]\<rparr>)"
    using push_back_steps [of "spsc_start q" "Some 7" True q'] by (simp add: spsc_start_def)
  from spsc_queue_is_fifo [OF r q(2)] q(1) r show ?thesis by fastforce
qed

section \<open>The objects of a worker\<close>

text \<open>
  C13. The lists of a worker are the containers of the code: when a \<open>stack_t\<close>, a \<open>queue_t\<close> and a
  \<open>hash_t\<close> hold the value stack, the tasks and the names of a machine, what the code calls on them
  answers what the operations of the machine answer, failures included, and they hold the new
  lists afterwards; also when the queue is full and the cursors wrap around.
\<close>

theorem worker_lists_are_objects:
  assumes "stands_for r m"
  shows "(\<exists>r'. object_push v r = Inr r' \<and> stands_for r' (worker_push v m)) \<and>
    (case worker_pop m of
       Inl e \<Rightarrow> object_pop r = Inl e
     | Inr (u, m') \<Rightarrow> \<exists>r'. object_pop r = Inr (ptr u, r') \<and> stands_for r' m') \<and>
    (case worker_tuck_n v n m of
       Inl e \<Rightarrow> stack_tuck_n (value_stack_object r) (ptr v) n = Some (Inl e)
     | Inr m' \<Rightarrow> \<exists>s. stack_tuck_n (value_stack_object r) (ptr v) n = Some (Inr s) \<and>
         stands_for (r\<lparr>value_stack_object := s\<rparr>) m') \<and>
    (\<exists>r'. object_add_task t r = Inr r' \<and> stands_for r' (worker_add_task t m)) \<and>
    (\<exists>r'. object_next_task r = Inr (fst (worker_next_task m), r') \<and> stands_for r' (snd (worker_next_task m))) \<and>
    hash_get (value_hash_object r) name = Inr (ptr (mod_find m name))"
  using push_follows [OF assms] pop_follows [OF assms] tuck_follows [OF assms] add_task_follows [OF assms]
    next_task_follows [OF assms] find_follows [OF assms] by blast

theorem worker_lists_are_objects_witness:
  "\<forall>h alloc. \<exists>r r'. objects_new = Inr r \<and> object_push (VImm 2) r = Inr r' \<and>
     stands_for r' (worker_push (VImm 2) (worker_new h alloc))"
proof (intro allI)
  fix h alloc
  obtain r where r: "objects_new = Inr r" "stands_for r (worker_new h alloc)"
    using objects_new_stand by blast
  with worker_lists_are_objects [OF r(2), of "VImm 2"]
  show "\<exists>r r'. objects_new = Inr r \<and> object_push (VImm 2) r = Inr r' \<and>
      stands_for r' (worker_push (VImm 2) (worker_new h alloc))" by blast
qed

section \<open>Working in parallel\<close>

text \<open>
  C6. When all the workers of the scheduler have stopped, however their steps and those of the thread that
  starts them interleaved, every task that was added has been handled, is still in a queue, or was lost at a
  full queue, and none of them twice. If no thread has read its number before it was set, and fewer than
  2 ^ 64 tasks were added, then all of them have been handled, though a worker may see a sum of zero
  while tasks are left.
\<close>

theorem stopped_workers_have_done_all:
  assumes "sched_reachable cap n ts s" and "\<forall>pc \<in> set (pcs s). pc = Quit"
  shows "added s = handled s + queued s + lost s \<and>
    (size (added s) < 2 ^ 64 \<and> \<not> mistaken s \<longrightarrow> queued s = {#} \<and> lost s = {#})"
  using assms by (rule stopped_means_done)

theorem stopped_workers_have_done_all_witness:
  "queued (one_worker Quit [] 0 (Start 1) {#7#}) = {#} \<and> lost (one_worker Quit [] 0 (Start 1) {#7#}) = {#}"
  using stopped_workers_have_done_all [OF one_worker_run] by (simp add: one_worker_def)

text \<open>
  C9. All the workers together. The loader's tasks are dealt out, and then the workers' operations
  interleave in any order, each taking tasks from its own queue or from another's: at every moment the
  net they share is linear over what all of them hold, and the tasks in all their queues are ready.
  When they are at rest, the loader goes on with a linear net.
\<close>

theorem parallel_work_keeps_net:
  assumes "machine_ok nothing L m"
    and "scheduler_prepare (task_queue_size m) 0 (task_queue m) (scheduler_new n) = Inr s"
    and "crew_step\<^sup>*\<^sup>* (m, crew_of s) (m', ws)"
  shows "(\<exists>L'. crew_ok (loader_holds m) (L' @ value_stack m @ frame_vars (return_stack m) @ L) (m', ws)) \<and>
    (list_all at_rest ws \<longrightarrow> (\<exists>L'. machine_ok nothing (L' @ L) (after_crew m m')))"
proof -
  obtain L' where ok: "crew_ok (loader_holds m) (L' @ value_stack m @ frame_vars (return_stack m) @ L) (m', ws)"
    using crew_reachable_ok [OF assms(3) crew_of_ok [OF assms(1,2)]] by blast
  moreover have "VNull \<notin> set (value_stack m)"
    using assms(1) by (simp add: machine_ok_def stack_ok_def)
  ultimately show ?thesis
    using after_crew_ok [OF ok] by (auto simp: list_all_iff at_rest_iff)
qed

theorem parallel_work_keeps_net_witness:
  "\<exists>L'. machine_ok nothing (L' @ []) (after_crew example_built (fst crew_end))"
proof -
  have "machine_ok nothing [] example_built"
    by (rule machine_check_ok) code_simp
  from parallel_work_keeps_net [OF this two_workers_prepared crew_end_reached] crew_end_at_rest(1)
  show ?thesis by blast
qed

text \<open>
  C28. The result of pushing to a queue is ignored and the task is counted also when the queue was full:
  once a task has been lost, the workers never stop all, whatever they do, unless a thread reads its number
  before it is set.
\<close>

theorem lost_task_keeps_workers_running:
  assumes "sched_reachable cap n ts s" and "lost s \<noteq> {#}"
    and "(sched_step cap)\<^sup>*\<^sup>* s s'" and "size (added s') < 2 ^ 64" and "\<not> mistaken s'"
  shows "\<exists>pc \<in> set (pcs s'). pc \<noteq> Quit"
  using assms by (rule lost_task_keeps_workers)

theorem lost_task_keeps_workers_running_witness:
  "\<exists>s. scheduler_prepare 1 0 [7, 8 :: nat] (scheduler_new 1) = Inr s \<and> lost s = {#8#} \<and>
     (\<exists>pc \<in> set (pcs s). pc \<noteq> Quit)"
proof -
  obtain s where s: "scheduler_prepare 1 0 [7, 8 :: nat] (scheduler_new 1) = Inr s" "lost s = {#8#}"
      "added s = {#7, 8#}" "\<not> mistaken s"
    by (simp add: scheduler_new_def stats_counter_new_def defined_when_def push_queue_def
        task_count_in_two store_count_def stats_counter_store_def stats_counter_load_def)
  from lost_task_keeps_workers_running [OF sched_reachable.start [OF s(1)] _ rtranclp.rtrancl_refl] s
  show ?thesis by simp
qed

text \<open>
  C27. A thread is started before it gets its number. With two workers or more, dealt a task each, the second
  one can finish its task first, and then subtracts it from the counter of the first worker, while that one is
  counting a task that it has just added: the addition is overwritten, and all the workers stop with
  that task in a queue.
\<close>

theorem early_thread_leaves_a_task:
  assumes "1 < n" and "0 < cap"
  shows "\<exists>s. sched_reachable cap n [a, b] s \<and> (\<forall>pc \<in> set (pcs s). pc = Quit) \<and>
    queued s = {#c#} \<and> lost s = {#} \<and> handled s = {#a, b#} \<and> added s = {#a, b, c#}"
  using assms by (rule early_thread)

theorem early_thread_leaves_a_task_witness:
  "\<exists>s. sched_reachable 1 2 [7, 8 :: nat] s \<and> (\<forall>pc \<in> set (pcs s). pc = Quit) \<and> queued s = {#9#}"
  using early_thread_leaves_a_task [of 2 1 7 8 9] by auto

text \<open>
  C25. The spinlock excludes: of any number of threads at most one is inside, and the flag is set exactly
  while one is.
\<close>

theorem spinlock_excludes:
  assumes "lock_reachable s"
  shows "(lock_pcs s t = Inside \<and> lock_pcs s u = Inside \<longrightarrow> t = u) \<and>
     (atomic_is_locked s \<longleftrightarrow> (\<exists>t. lock_pcs s t = Inside))"
  using assms by (rule lock_excludes)

theorem spinlock_excludes_witness:
  "\<exists>s. lock_reachable s \<and> lock_pcs s 3 = Inside \<and> (lock_pcs s 5 = Inside \<longrightarrow> 3 = (5 :: nat))"
proof -
  let ?s1 = "goto 3 (Loading True) fast_spinlock_new"
  have "lock_reachable ?s1"
    by (rule lock_reachable.step [OF lock_reachable.init]) (rule lock_step.call, simp add: fast_spinlock_new_def)
  moreover obtain s2 s3 where "lock_step ?s1 s2" "lock_step s2 s3" and s3: "lock_pcs s3 3 = Inside"
    using free_lock_taken [of ?s1 3 True] by (auto simp: goto_def fast_spinlock_new_def)
  ultimately have "lock_reachable s3" by (blast intro: lock_reachable.step)
  from spinlock_excludes [OF this, of 3 5] this s3 show ?thesis by blast
qed

section \<open>Containers\<close>

text \<open>
  C20. A doubly linked list, whatever cells and pointers it is made of, is the sequence it stands for: its
  length, the value at an index and the values in it are those of the sequence, adding and removing at
  either end does that to the sequence and returns the value (NULL when there is none), removing a value
  takes out the first one that matches and hands it to the destructor, and without NULL values the copies
  are the sequence and its reverse.
\<close>

theorem linked_list_is_sequence:
  assumes "list_rep self xs"
  shows "list_length self = length xs \<and> list_get self i = Some (Inr (slot None xs i)) \<and>
     list_has self v = Some (Inr (\<exists>x \<in> set xs. list_matches self v x)) \<and>
     (\<exists>s. list_push self v = Inr s \<and> list_rep s (xs @ [v])) \<and>
     (\<exists>s. list_unshift self v = Inr s \<and> list_rep s (v # xs)) \<and>
     (\<exists>s. list_pop self = Inr (if xs = [] then None else last xs, s) \<and> list_rep s (butlast xs)) \<and>
     (\<exists>s. list_shift self = Inr (if xs = [] then None else hd xs, s) \<and> list_rep s (tl xs)) \<and>
     (\<exists>s. list_remove self v = Some (Inr (\<exists>x \<in> set xs. list_matches self v x,
        if l_destroy_fn self then take 1 (filter (list_matches self v) xs) else [], s)) \<and>
        list_rep s (remove_first (list_matches self v) xs)) \<and>
     (None \<notin> set xs \<longrightarrow>
        (\<exists>out s. list_copy self = Some (Inr (out, s)) \<and> list_rep s xs \<and> list_rep out (map (copied self) xs)) \<and>
        (\<exists>out s. list_copy_reversed self = Some (Inr (out, s)) \<and> list_rep s xs \<and>
           list_rep out (rev (map (copied self) xs))))"
  using assms by (rule list_is_sequence)

theorem linked_list_is_sequence_witness:
  "\<exists>s t u out. list_push list_new (Some 7) = Inr s \<and> list_shift s = Inr (Some (7 :: nat), t) \<and>
     list_copy s = Some (Inr (out, u)) \<and> list_rep out [copied s (Some 7)]"
proof -
  obtain s where s: "list_push list_new (Some (7 :: nat)) = Inr s" "list_rep s [Some 7]"
    using linked_list_is_sequence [OF list_rep_new, of 0 "Some 7"] by auto
  from linked_list_is_sequence [OF s(2), of 0 None] s(1) show ?thesis by auto
qed

text \<open>
  C24. A value put into a hash table is found under its key, whatever was there before and whether
  or not the table was rehashed, and every other key keeps its value.
\<close>

theorem hash_get_after_put:
  assumes "hash_ok self" and "hash_room self"
  shows "\<exists>destroyed self'. hash_put self k v = Inr (destroyed, self') \<and> hash_ok self' \<and>
    hash_get self' k = Inr v \<and> (\<forall>j. j \<noteq> k \<longrightarrow> hash_get self' j = hash_get self j)"
proof -
  obtain ds self' where p: "hash_put self k v = Inr (ds, self')" "hash_ok self'"
      "hash_lookup self' = (hash_lookup self)(k \<mapsto> v)"
    using hash_put_ok [OF assms(1), of k v] assms(2) by (auto simp: hash_room_def)
  then show ?thesis by (simp add: hash_get_lookup(1) assms(1))
qed

theorem hash_get_after_put_witness:
  "\<exists>destroyed self'. hash_put hash_of_string_key ''x'' (Some (1 :: nat)) = Inr (destroyed, self') \<and> hash_ok self' \<and>
    hash_get self' ''x'' = Inr (Some 1) \<and> (\<forall>j. j \<noteq> ''x'' \<longrightarrow> hash_get self' j = hash_get hash_of_string_key j)"
proof (rule hash_get_after_put)
  show "hash_room (hash_of_string_key :: (string, nat) hash)" by code_simp
qed (rule hash_of_string_key_ok(1))

section \<open>Programs\<close>

text \<open>
  C2. A compiled function does what its source says: after a \<open>define\<close> of a function its name is bound to
  it, and calling it, wherever it is still there, gives what the reference evaluator gives, which
  keeps the variables by name and takes the arguments from the stack, and leaves the frames below
  alone. Returning, failing and running forever are the same on both sides.
\<close>

theorem defined_function_evaluates:
  assumes "execute s load path (STMT_DEFINE_FUNCTION name args body) cache m = Some (Inr (t, cache', m'))"
  shows "\<exists>a f. mod_find m' name = VFunction a \<and> cell (function_objects m') a = Some f \<and>
     function_arity f = length args \<and>
     (\<forall>k. cell (function_objects k) a = Some f \<longrightarrow>
        call_function a k =
          labove (return_stack k) (eval_body (mod_find m) args body (k\<lparr>return_stack := []\<rparr>)))"
  using assms by (rule defined_function_calls)

theorem defined_function_evaluates_witness:
  "\<forall>s load path cache. \<exists>m' a f.
     execute s load path (STMT_DEFINE_FUNCTION ''swap'' [''x'', ''y''] [EXP_VAR ''y'', EXP_VAR ''x'']) cache
       module_machine = Some (Inr ([], cache, m')) \<and>
     mod_find m' ''swap'' = VFunction a \<and> cell (function_objects m') a = Some f \<and> function_arity f = 2 \<and>
     (\<forall>k. cell (function_objects k) a = Some f \<longrightarrow>
        call_function a k = labove (return_stack k)
          (eval_body (mod_find module_machine) [''x'', ''y''] [EXP_VAR ''y'', EXP_VAR ''x''] (k\<lparr>return_stack := []\<rparr>)))"
proof (intro allI)
  fix s load path cache
  have "\<exists>m'. execute s load path (STMT_DEFINE_FUNCTION ''swap'' [''x'', ''y''] [EXP_VAR ''y'', EXP_VAR ''x'']) cache
      module_machine = Some (Inr ([], cache, m'))"
    by (simp add: execute_def compile_body_def compile_set_variable_list_def compile_set_variable_def
        maybe_compile_get_variable_def function_new_def function_add_opcode_def new_function_def
        string_copy_def define_name_def module_machine_def Let_def)
  then obtain m' where run: "execute s load path
      (STMT_DEFINE_FUNCTION ''swap'' [''x'', ''y''] [EXP_VAR ''y'', EXP_VAR ''x'']) cache module_machine
      = Some (Inr ([], cache, m'))" by blast
  from defined_function_evaluates [OF run] run
  show "\<exists>m' a f.
     execute s load path (STMT_DEFINE_FUNCTION ''swap'' [''x'', ''y''] [EXP_VAR ''y'', EXP_VAR ''x'']) cache
       module_machine = Some (Inr ([], cache, m')) \<and>
     mod_find m' ''swap'' = VFunction a \<and> cell (function_objects m') a = Some f \<and> function_arity f = 2 \<and>
     (\<forall>k. cell (function_objects k) a = Some f \<longrightarrow>
        call_function a k = labove (return_stack k)
          (eval_body (mod_find module_machine) [''x'', ''y''] [EXP_VAR ''y'', EXP_VAR ''x''] (k\<lparr>return_stack := []\<rparr>)))"
    by (auto simp: numeral_2_eq_2)
qed

text \<open>
  C10. A rule that was defined fires: when principal wires of its two constructors meet, in either order, and
  no rule for that pair was there before, the task is the new rule's, with the node of the left pattern's
  constructor on the left; when the two constructors are the same one, the first of the two wires is. Handling
  the task takes the two nodes apart and evaluates the body of the rule on the ends of both, left before right.
\<close>

theorem defined_rule_fires:
  assumes "define_rule_star [left, right] exps m = Inr m'"
    and "local_names (np_port_infos left) = Inr ln" and "local_names (np_port_infos right) = Inr rn"
    and "at (node_ctors (net m)) (np_ctor left) = Some lc" and "mod_find m (ctor_name lc) = VCtor (np_ctor left)"
    and "at (node_ctors (net m)) (np_ctor right) = Some rc" and "mod_find m (ctor_name rc) = VCtor (np_ctor right)"
    and "\<forall>rule \<in> set (rule_array lc @ rule_array rc). (left_node_ctor rule, right_node_ctor rule) \<notin>
      {(np_ctor left, np_ctor right), (np_ctor right, np_ctor left)}"
    and "node_ctors h = node_ctors (net m')"
    and "pw_ctor h p = Inr (Some (np_ctor left))" and "pw_ctor h q = Inr (Some (np_ctor right))"
  shows "\<exists>f rule. (\<exists>h'. connect_active_pair p q h = Inr (Some (Task_active_pair p q rule), h')) \<and>
     (\<exists>h'. connect_active_pair q p h =
        Inr (Some (if np_ctor left = np_ctor right then Task_active_pair q p rule
          else Task_active_pair p q rule), h')) \<and>
     cell (function_objects m') (rule_function rule) = Some f \<and> rule_evaluates m (ln @ rn) exps f rule"
  using assms by (rule defined_rule)

theorem defined_rule_fires_witness:
  "\<exists>f rule. (\<exists>h'. connect_active_pair 0 1 facing_nodes = Inr (Some (Task_active_pair 0 1 rule), h')) \<and>
     (\<exists>h'. connect_active_pair 1 0 facing_nodes = Inr (Some (Task_active_pair 0 1 rule), h')) \<and>
     cell (function_objects ruled_machine) (rule_function rule) = Some f \<and>
     rule_evaluates module_machine ([] @ [''addend'', ''result'']) rule_body f rule"
proof -
  have "\<exists>f rule. (\<exists>h'. connect_active_pair 0 1 facing_nodes = Inr (Some (Task_active_pair 0 1 rule), h')) \<and>
     (\<exists>h'. connect_active_pair 1 0 facing_nodes = Inr (Some (if np_ctor zero_pattern = np_ctor add_pattern
        then Task_active_pair 1 0 rule else Task_active_pair 0 1 rule), h')) \<and>
     cell (function_objects ruled_machine) (rule_function rule) = Some f \<and>
     rule_evaluates module_machine ([] @ [''addend'', ''result'']) rule_body f rule"
  proof (rule defined_rule_fires [where left = zero_pattern and right = add_pattern and m = module_machine])
    have "define_rule_star [zero_pattern, add_pattern] rule_body module_machine \<noteq> Inl Undefined \<and>
        define_rule_star [zero_pattern, add_pattern] rule_body module_machine \<noteq> Inl Exit_failure \<and>
        define_rule_star [zero_pattern, add_pattern] rule_body module_machine \<noteq> Inl Assert_failed"
      by (simp add: define_rule_star_def rule_body_def zero_pattern_def add_pattern_def port_def
          port_info_new_def
          compile_set_variable_list_def compile_set_variable_def maybe_compile_get_variable_def
          function_new_def function_add_opcode_def string_copy_def compile_literal_def mod_find_def
          module_machine_def Let_def new_function_def example_heap_def at_def define_rule_def
          zero_ctor_def add_ctor3_def node_ctor_new_def as_node_ctor_def add_rule_def)
    then show "define_rule_star [zero_pattern, add_pattern] rule_body module_machine = Inr ruled_machine"
      unfolding ruled_machine_def
      by (cases "define_rule_star [zero_pattern, add_pattern] rule_body module_machine")
        (simp_all, metis fault.exhaust)
    show "pw_ctor facing_nodes 0 = Inr (Some (np_ctor zero_pattern))" by code_simp
  qed (code_simp+)
  moreover have "np_ctor zero_pattern \<noteq> np_ctor add_pattern" by code_simp
  ultimately show ?thesis by simp
qed

text \<open>
  C17. A statement that is printed is read back: lexing its text, parsing the tree and parsing the
  statement return the same statement, for the definitions of values, functions, nodes with ports
  and rules, and for expressions, of names, integers and applications.
\<close>

theorem printed_stmt_is_parsed:
  assumes "plain_stmt ops st"
  shows "\<exists>t s. stmt_print fmt st = Inr t \<and> sexp_parse ops t = Some (Inr (Some s)) \<and> parse_stmt ops s = Inr st"
  using assms by (rule printed_stmt_parsed)

theorem printed_stmt_is_parsed_witness:
  "\<forall>fmt. \<exists>t s. stmt_print fmt rule_statement = Inr t \<and> sexp_parse no_doubles t = Some (Inr (Some s)) \<and>
     parse_stmt no_doubles s = Inr rule_statement"
  by (intro allI printed_stmt_is_parsed) (rule rule_statement_plain)



text \<open>
  C39. Importing the prelude into a new module always succeeds and defines just the names of the prelude, and
  these do what they are called: \<open>not\<close>, \<open>and\<close> and \<open>or\<close> compute on booleans, \<open>eq?\<close> compares any two values,
  \<open>int?\<close> and \<open>float?\<close> tell the tags, \<open>iadd\<close>, \<open>isub\<close> and \<open>imul\<close> compute on integers and \<open>idiv\<close> and \<open>imod\<close> divide
  towards zero, with a division by zero and a product out of 64 bits undefined; the operations on doubles are
  those of the machine, on values without their three lowest bits; \<open>assert\<close> stops the program at false;
  the \<open>dup\<close> primitives leave two copies. All but \<open>connect\<close> and \<open>link\<close>, which act at once, have a node
  constructor whose principal ports are just the inputs.
\<close>

theorem prelude_names_compute:
  "\<exists>m'. import_prelude ops (loader_worker m) = Inr m' \<and> dom (value_hash m') = set prelude_names \<and>
     (\<forall>name \<in> set prelude_names - {''connect'', ''link'', ''false'', ''true''}. gathers_inputs m' name) \<and>
     acts_at_once m' ''connect'' 2 0 x_connect \<and> acts_at_once m' ''link'' 0 2 (\<lambda>k. Inr (x_link k)) \<and>
     logic_answers m' \<and> integer_answers m' \<and> double_answers ops m' \<and> dup_answers m'"
  by (rule prelude_computes) (simp add: loader_worker_def)

theorem prelude_names_compute_witness:
  "\<forall>ops. \<exists>m'. import_prelude ops (loader_worker example_machine) = Inr m' \<and> gathers_inputs m' ''isub'' \<and>
     answers m' ''isub'' [VImm (xint 2), VImm (xint 5)] (Inr [VImm (xint (- 3))]) \<and>
     answers m' ''idiv'' [VImm (xint (- 7)), VImm (xint 2)] (Inr [VImm (xint (- 3))]) \<and>
     answers m' ''imod'' [VImm (xint (- 7)), VImm (xint 2)] (Inr [VImm (xint (- 1))])"
proof
  fix ops
  from prelude_names_compute [of ops example_machine]
  obtain m' where m': "import_prelude ops (loader_worker example_machine) = Inr m'" "integer_answers m'"
    and g: "\<forall>name \<in> set prelude_names - {''connect'', ''link'', ''false'', ''true''}. gathers_inputs m' name"
    by (elim exE conjE)
  have "''isub'' \<in> set prelude_names - {''connect'', ''link'', ''false'', ''true''}" by code_simp
  with g have "gathers_inputs m' ''isub''" by (rule bspec)
  moreover have "kept_number 2" "kept_number 5" "kept_number (- 7)" "divided (- 7) 2 (- 3) (- 1)"
    by (simp_all add: kept_number_def divided_def)
  ultimately show "\<exists>m'. import_prelude ops (loader_worker example_machine) = Inr m' \<and> gathers_inputs m' ''isub'' \<and>
      answers m' ''isub'' [VImm (xint 2), VImm (xint 5)] (Inr [VImm (xint (- 3))]) \<and>
      answers m' ''idiv'' [VImm (xint (- 7)), VImm (xint 2)] (Inr [VImm (xint (- 3))]) \<and>
      answers m' ''imod'' [VImm (xint (- 7)), VImm (xint 2)] (Inr [VImm (xint (- 1))])"
    using m' integer_answersD(1) [OF m'(2), of 2 5] integer_answersD(2,3) [OF m'(2), of "- 7" 2 "- 3" "- 1"]
    by (intro exI [of _ m']) simp
qed

text \<open>
  C29. Loading a module whose first statement imports the module itself never returns: the module is put
  into the cache when it has been executed, and not before.
\<close>

theorem import_cycle_never_returns:
  assumes "files s (fst (path_string path)) = Some text"
    and "sexp_parse_list (double_reader s) (takeWhile (\<lambda>c. c \<noteq> CHR 0x00) text) = Some (Inr sexps)"
    and "parse_stmt_list (double_reader s) sexps = Inr (STMT_IMPORT names target # stmts)"
    and "import_path path target = Inr p" and "fst (path_string p) = fst (path_string path)"
    and "import_path p target = Inr p"
    and "cache (fst (path_string path)) = None"
  shows "load_mod s path cache m = None"
  using assms by (rule import_cycle_diverges)

theorem import_cycle_never_returns_witness:
  "\<forall>s. load_mod (cycle_platform s) cycle_path Map.empty example_machine = None"
proof
  fix s
  have s: "files (cycle_platform s) = [''/d/a.lisp'' \<mapsto> cycle_text]" "double_reader (cycle_platform s) = no_doubles"
    by (simp_all add: cycle_platform_def)
  let ?target = "Some \<lparr>segment_stack = [''a.lisp''], path_cache = Some ''a.lisp'', path_absolute = False\<rparr>"
  have path: "import_path cycle_path ?target = Inr cycle_path" by code_simp
  show "load_mod (cycle_platform s) cycle_path Map.empty example_machine = None"
  proof (rule import_cycle_never_returns [OF _ _ _ path refl path])
    show "files (cycle_platform s) (fst (path_string cycle_path)) = Some cycle_text" unfolding s by code_simp
  qed (unfold s, code_simp+)
qed

text \<open>
  C31. A file is executed once: naming it again after all the arguments of \<open>run\<close> adds nothing to what
  is printed and changes nothing, because the module is found in the cache.
\<close>

theorem file_is_run_once:
  assumes "run_args cwd args w = Some (Inr (t, w'))" and "f \<in> set args" and "\<not> is_flag f"
  shows "run_args cwd (args @ [f]) w = Some (Inr (t, w'))"
  using assms by (rule file_runs_once)

theorem file_is_run_once_witness:
  "\<forall>s. \<exists>t w. run_args ''/d'' [''-s'', ''b.lisp'', ''b.lisp''] (one_file_program s) = Some (Inr (t, w))"
proof
  fix s
  obtain t w where run: "run_args ''/d'' [''-s'', ''b.lisp''] (one_file_program s) = Some (Inr (t, w))"
    using one_file_runs by blast
  from file_is_run_once [OF run, of "''b.lisp''"]
  show "\<exists>t w. run_args ''/d'' [''-s'', ''b.lisp'', ''b.lisp''] (one_file_program s) = Some (Inr (t, w))"
    by (simp add: is_flag_def)
qed

text \<open>
  C33. Making a path of a text follows its segments: it leads as many steps up as \<open>..\<close> go beyond the start, and
  then down the names that remain; \<open>.\<close> and empty segments are dropped. The steps up stay at the front, also of an
  absolute path, where they should lead to the root. Making a path of its text gives the same path.
\<close>

theorem path_is_normalised:
  "\<exists>p. path_new s = Inr p \<and> path_absolute p = string_starts_with s ''/'' \<and>
     (case foldl step_along (0, []) (split_slash s) of (up, names) \<Rightarrow>
        segment_stack p = replicate up ''..'' @ names \<and> list_all name_segment names) \<and>
     path_copy p = Inr p"
  using path_new_leads [of s] by (cases "foldl step_along (0, []) (split_slash s)") auto

text \<open>
  C32. The relative path from one path to another leads there: joined to the first it gives the second,
  when both are absolute or both relative and the first does not start with \<open>..\<close>.
\<close>

theorem relative_path_leads_back:
  assumes "path_new s = Inr src" and "path_new t = Inr to"
    and "path_absolute src = path_absolute to" and "''..'' \<notin> set (segment_stack src)"
  shows "\<exists>r. path_relative src to = Inr r \<and> path_join src (fst (path_string r)) = Inr to"
proof -
  have "normal_path src" "normal_path to"
    using path_new_normal [of s] path_new_normal [of t] assms(1,2) by auto
  then show ?thesis using assms(3,4) by (rule path_relative_joined)
qed

theorem relative_path_leads_back_witness:
  "\<exists>src to r. path_new ''/a/b'' = Inr src \<and> path_new ''/a/./c/d'' = Inr to \<and> path_relative src to = Inr r \<and>
     path_join src (fst (path_string r)) = Inr to"
proof -
  have p: "path_new ''/a/b'' = Inr \<lparr>segment_stack = [''a'', ''b''], path_cache = Some ''/a/b'', path_absolute = True\<rparr>"
    "path_new ''/a/./c/d'' = Inr \<lparr>segment_stack = [''a'', ''c'', ''d''], path_cache = Some ''/a/c/d'', path_absolute = True\<rparr>"
    by code_simp+
  from relative_path_leads_back [OF p] p show ?thesis by simp
qed

text \<open>
  C23. Printing the net of a node visits the nodes that are reachable from it through the table of
  neighborhoods, each once.
\<close>

theorem connected_nodes_are_reachable:
  assumes "build_node_neighborhood_hash h alloc = Some (Inr table)"
    and "allocated_node_array h alloc = Inr ns" and "\<forall>a \<in> set ns. \<exists>c. ctor_of_node h a = Inr c"
    and "root \<in> set ns"
  shows "\<exists>connected. connected_node_array h root table = Inr connected \<and> distinct connected \<and>
     set connected = (table_edges h table)\<^sup>* `` {root}"
  using assms by (rule connected_nodes_of_net)

theorem connected_nodes_are_reachable_witness:
  "\<exists>table connected. build_node_neighborhood_hash (net example_built) (node_alloc example_built) = Some (Inr table) \<and>
     connected_node_array (net example_built) 2 table = Inr connected \<and> distinct connected \<and>
     set connected = (table_edges (net example_built) table)\<^sup>* `` {2}"
proof -
  have "returned (build_node_neighborhood_hash (net example_built) (node_alloc example_built)) \<noteq> None"
    by code_simp
  then obtain table where t: "build_node_neighborhood_hash (net example_built) (node_alloc example_built)
      = Some (Inr table)" by (auto simp: returned_Some)
  have ns: "allocated_node_array (net example_built) (node_alloc example_built) = Inr [0, 1, 2]"
    by code_simp
  have "list_all (\<lambda>a. case ctor_of_node (net example_built) a of Inr _ \<Rightarrow> True | Inl _ \<Rightarrow> False) [0, 1, 2]"
    by code_simp
  then have c: "\<forall>a \<in> set [0, 1, 2]. \<exists>c. ctor_of_node (net example_built) a = Inr c"
    by (simp split: sum.splits)
  from connected_nodes_are_reachable [OF t ns c, of 2] t show ?thesis by auto
qed

section \<open>Memory and files\<close>

text \<open>
  C36. What a file leaves in memory. When \<open>load_mod\<close> is done it destroys the statements and the
  S-expressions it has parsed: every block of the statements, of their expressions, names and paths
  is freed, each once, and of the S-expressions all but their tokens. Of every token two blocks are
  leaked, the token and its string.
\<close>

theorem parsed_file_leaks_tokens:
  assumes "new_list alloc_sexp sexps n = (sexp_list, n1)" and "new_list alloc_stmt stmts n1 = (stmt_list, n2)"
    and "live \<inter> {n..<n2} = {}"
  shows "\<exists>leaked. bnd (destroy_list stmt_destroy stmt_list (live \<union> {n..<n2})) (destroy_list sexp_destroy sexp_list) =
      Inr (live \<union> leaked) \<and> leaked \<subseteq> {n..<n1} \<and> card leaked = 2 * sum_list (map sexp_token_count sexps)"
  using assms by (rule file_memory)

theorem parsed_file_leaks_tokens_witness:
  "\<exists>leaked. bnd (destroy_list stmt_destroy (10, True, [(13, Run_exp_object 12 (Int_object 11))]) ({100} \<union> {5..<14}))
      (destroy_list sexp_destroy (5, True, [(9, Atom_object 8 (Token_object 7 6))])) = Inr ({100} \<union> leaked) \<and>
    leaked \<subseteq> {5..<10} \<and>
    card leaked = 2 * sum_list (map sexp_token_count [Atom_sexp (token_new ''3'' INT_TOKEN 0 1 1 2)])"
  by (rule parsed_file_leaks_tokens [where stmts = "[STMT_RUN_EXP (EXP_INT 3)]"])
    (simp_all add: new_list_def alloc_token_def)

text \<open>
  C37. Growing an array in memory: \<open>reallocate_pointers\<close> leaves the block of the array that
  \<open>array_resize\<close> makes, the values in their places and NULL in the new ones, wherever the C library
  puts it.
\<close>

theorem array_grows_in_memory:
  assumes "array_resize self (unat n) = Inr self'" and "length (arr_values self) = arr_size self"
    and "heap_blocks m pointer = Some (array_block self)" and "pointer \<noteq> 0" and "unat n < 2 ^ 61"
    and "answer \<noteq> 0" and "pointer_is_8_bytes_aligned answer"
  shows "reallocate_pointers answer junk pointer (of_nat (arr_size self)) n m =
    Inr (answer, m\<lparr>heap_blocks := (heap_blocks m)(pointer := None, answer \<mapsto> array_block self')\<rparr>)"
  using assms by (rule array_resize_in_memory)

theorem array_grows_in_memory_witness:
  "reallocate_pointers 32 (\<lambda>_. 255) 16 (of_nat (arr_size one_value)) 2 one_block =
    Inr (32, one_block\<lparr>heap_blocks := (heap_blocks one_block)(16 := None, 32 \<mapsto>
      array_block (one_value\<lparr>arr_values := [Some 7, None], arr_size := 2\<rparr>))\<rparr>)"
  by (rule array_grows_in_memory)
    (simp_all add: one_value_def one_block_def array_new_def array_resize_def pointer_is_8_bytes_aligned_def)

text \<open>
  C38. The excerpt of a source that is printed around an error is the lines from three before the
  first to three after the last, each with its number in front, and those of the error marked.
\<close>

theorem excerpt_is_numbered_lines:
  "code_print_context s i j =
     (let a = code_lineno_of_index s i; b = code_lineno_of_index s j; width = uint_decimal_length (b + 3) in
      concat (map (\<lambda>(k, line).
          if a \<le> k + 3 \<and> k \<le> b + 3
          then (if a \<le> k \<and> k \<le> b then ''> '' else ''  '') @ padded width k @ ''|'' @ line else [])
        (enumerate 1 (source_lines s))))"
  by (rule code_print_context_lines)

section \<open>Texts\<close>

text \<open>
  C35. Lexing ends on every string, unless a delimiter or the line comment is empty.
\<close>

theorem lexing_ends:
  assumes "lx_line_comment self \<noteq> Some []" and "[] \<notin> set (lx_delimiter_list self)"
  shows "\<exists>r. lexer_run ops self = Some r"
  using assms by (rule lexer_run_returns)

theorem lexing_ends_witness:
  "\<forall>ops. \<exists>r. lexer_run ops (sexp_lexer ''(a) ;b'') = Some r"
  by (intro allI, rule lexing_ends) code_simp+

text \<open>
  C34. What is printed is read back: the tree that is parsed from the text of a tree of plain words
  has the same shape, with the same words.
\<close>

theorem printed_sexp_is_parsed:
  assumes "plain_shape (shape_of s)" and "no_string_token s"
  shows "\<exists>s'. sexp_parse ops (sexp_print s) = Some (Inr (Some s')) \<and> shape_of s' = shape_of s"
  using assms by (rule sexp_parse_printed)

theorem printed_sexp_is_parsed_witness:
  "\<forall>ops. \<exists>s'. sexp_parse ops (sexp_print (List_sexp (token_new ''('' DELIMITER_TOKEN 0 1 1 2) None
        [Atom_sexp (token_new ''add'' GENERIC_TOKEN 1 4 1 5)])) = Some (Inr (Some s')) \<and>
     shape_of s' = Group [Word ''add'']"
proof
  fix ops
  let ?s = "List_sexp (token_new ''('' DELIMITER_TOKEN 0 1 1 2) None [Atom_sexp (token_new ''add'' GENERIC_TOKEN 1 4 1 5)]"
  have shape: "shape_of ?s = Group [Word ''add'']" by (simp add: token_new_def)
  have "\<not> string_is_xint ''add''" by code_simp
  moreover have "plain_char CHR ''a''" "plain_char CHR ''d''" by code_simp+
  ultimately have plain: "plain_shape (shape_of ?s)"
    by (simp add: shape plain_word_def MAX_TOKEN_LENGTH_def token_new_def del: string_is_xint.simps)
  have "no_string_token ?s" by (simp add: token_new_def)
  from printed_sexp_is_parsed [OF plain this, of ops]
  show "\<exists>s'. sexp_parse ops (sexp_print ?s) = Some (Inr (Some s')) \<and> shape_of s' = Group [Word ''add'']"
    unfolding shape .
qed

text \<open>
  C40. Reading a text from standard UTF-8 gives its code points. What is written of a text is read back as
  the same text, but it is standard UTF-8 only if for each code point the bits are clear that the
  encoder should have cut off its continuation bytes.
\<close>

theorem text_is_decoded:
  assumes "\<forall>cp\<in>set t. cp \<le> 0x10FFFF" and "0 \<notin> set t"
  shows "text_from_string (concat (map standard_utf8 t)) = Some (Inr t) \<and>
    (\<exists>s. text_to_string t = Inr s \<and> text_from_string s = Some (Inr t) \<and>
       (s = concat (map standard_utf8 t) \<longleftrightarrow> (\<forall>cp\<in>set t. encoded_as_standard cp)))"
  using standard_text_read [OF assms] text_standard [OF assms] by blast

theorem text_is_decoded_witness:
  "text_from_string (concat (map standard_utf8 [0x41, 0xE9, 0x20AC, 0x1F600])) = Some (Inr [0x41, 0xE9, 0x20AC, 0x1F600]) \<and>
   (\<exists>s. text_to_string [0x41, 0xE9, 0x20AC, 0x1F600] = Inr s \<and>
     text_from_string s = Some (Inr [0x41, 0xE9, 0x20AC, 0x1F600]) \<and>
     s \<noteq> concat (map standard_utf8 [0x41, 0xE9, 0x20AC, 0x1F600]))"
proof -
  have "\<not> encoded_as_standard 0xE9" by code_simp
  then show ?thesis
    using text_is_decoded [of "[0x41, 0xE9, 0x20AC, 0x1F600]"] by auto
qed

end
